(* ===== verification/Prelude.thy ===== *)
theory Prelude
  imports Main "HOL-Library.Word"
begin

unbundle bit_operations_syntax

text \<open>
  What every component of the development shares: the names of the machine types, the
  big-endian encoding of \<^verbatim>\<open>encoding/binary\<close>, the binary search of \<^verbatim>\<open>sort.Search\<close>, the slice
  operations \<^verbatim>\<open>append(s[:i], s[i+1:]...)\<close> and its insertion counterpart, and the lemmas about
  lists that carry the component proofs. The collections \<open>wire\<close> (byte-level rewriting) and
  \<open>slices\<close> (index-level list rewriting) are extended by the components.
\<close>

named_theorems wire "rewriting of encoded bytes"
named_theorems slices "rewriting of slice operations"

type_synonym byte = "8 word"
type_synonym bytes = "byte list"
type_synonym u16 = "16 word"
type_synonym u32 = "32 word"
type_synonym u64 = "64 word"

text \<open>A Go slice has a length that fits in an \<^verbatim>\<open>int\<close>.\<close>

definition go_slice :: "'a list \<Rightarrow> bool" where
  "go_slice xs \<longleftrightarrow> length xs < 2 ^ 63"

section \<open>Big-endian integers: encoding/binary\<close>

text \<open>
  \<^verbatim>\<open>binary.BigEndian.PutUintN\<close> writes the most significant byte first; \<^verbatim>\<open>UintN\<close> reads it back
  by shifting and or-ing. One definition serves the three widths: the count of bytes is explicit.
\<close>

fun put_be :: "nat \<Rightarrow> 'a::len word \<Rightarrow> bytes" where
  "put_be 0 w = []"
| "put_be (Suc n) w = put_be n (drop_bit 8 w) @ [ucast w]"

definition get_be :: "bytes \<Rightarrow> 'a::len word" where
  "get_be bs = foldl (\<lambda>acc b. push_bit 8 acc OR ucast b) 0 bs"

lemma length_put_be [simp, wire]: "length (put_be n w) = n"
  by (induction n arbitrary: w) auto

lemma get_be_Nil [simp]: "get_be [] = 0"
  by (simp add: get_be_def)

lemma get_be_snoc: "get_be (bs @ [b]) = push_bit 8 (get_be bs) OR ucast b"
  by (simp add: get_be_def)

lemma get_be_bound: "8 * length bs \<le> n \<Longrightarrow> \<not> bit (get_be bs :: 'a::len word) n"
proof (induction bs arbitrary: n rule: rev_induct)
  case Nil
  then show ?case by simp
next
  case (snoc b bs)
  then have "\<not> bit (get_be bs :: 'a word) (n - 8)" by simp
  moreover have "\<not> bit b n" using snoc.prems by (auto simp: bit_word_iff_drop_bit_and dest: bit_imp_le_length)
  ultimately show ?case
    by (simp add: get_be_snoc bit_simps)
qed

lemma get_put_be_take: "get_be (put_be n (w :: 'a::len word)) = take_bit (8 * n) w"
proof (induction n arbitrary: w)
  case 0
  then show ?case by simp
next
  case (Suc n)
  show ?case
    by (rule bit_word_eqI)
      (auto simp: get_be_snoc Suc bit_simps not_less less_diff_conv2 dest: bit_imp_le_length)
qed

lemma get_put_be [simp, wire]:
  "8 * n = LENGTH('a) \<Longrightarrow> get_be (put_be n (w :: 'a::len word)) = w"
  by (simp add: get_put_be_take)

lemma put_get_be:
  "8 * length bs \<le> LENGTH('a) \<Longrightarrow> put_be (length bs) (get_be bs :: 'a::len word) = bs"
proof (induction bs rule: rev_induct)
  case Nil
  then show ?case by simp
next
  case (snoc b bs)
  let ?g = "get_be bs :: 'a word"
  have hi: "\<not> bit ?g n" if "8 * length bs \<le> n" for n
    using that by (rule get_be_bound)
  have "drop_bit 8 (push_bit 8 ?g OR ucast b) = ?g"
  proof (rule bit_word_eqI)
    fix n assume n: "n < LENGTH('a)"
    have "\<not> bit b (8 + n)" by (auto dest: bit_imp_le_length)
    moreover have "bit ?g n \<Longrightarrow> 8 + n < LENGTH('a)"
      using hi[of n] snoc.prems by (cases "8 * length bs \<le> n") auto
    ultimately show "bit (drop_bit 8 (push_bit 8 ?g OR ucast b)) n = bit ?g n"
      by (auto simp: bit_simps)
  qed
  moreover have "(ucast (push_bit 8 ?g OR ucast b :: 'a word) :: byte) = b"
    using snoc.prems by (intro bit_word_eqI) (auto simp: bit_simps)
  ultimately show ?case
    using snoc by (simp add: get_be_snoc)
qed

section \<open>Binary search: sort.Search\<close>

text \<open>
  \<^verbatim>\<open>sort.Search(n, f)\<close> as the standard library computes it: \<open>i\<close> and \<open>j\<close> close in on the
  smallest index where \<open>f\<close> holds, probing the midpoint \<open>(i + j) / 2\<close>.
\<close>

function search_loop :: "(nat \<Rightarrow> bool) \<Rightarrow> nat \<Rightarrow> nat \<Rightarrow> nat" where
  "search_loop f i j =
     (if i < j then
        let h = (i + j) div 2 in
        if \<not> f h then search_loop f (h + 1) j else search_loop f i h
      else i)"
  by pat_completeness auto
termination
  by (relation "measure (\<lambda>(f, i, j). j - i)") (auto simp: Let_def)

declare search_loop.simps [simp del]

definition sort_search :: "nat \<Rightarrow> (nat \<Rightarrow> bool) \<Rightarrow> nat" where
  "sort_search n f = search_loop f 0 n"

lemma search_loop_spec:
  assumes "\<And>a b. a \<le> b \<Longrightarrow> b < n \<Longrightarrow> f a \<Longrightarrow> f b"
    and "i \<le> j" and "j \<le> n"
    and "\<forall>k < i. \<not> f k" and "\<forall>k. j \<le> k \<and> k < n \<longrightarrow> f k"
  shows "let r = search_loop f i j in
     r \<le> n \<and> (\<forall>k < r. \<not> f k) \<and> (\<forall>k. r \<le> k \<and> k < n \<longrightarrow> f k)"
  using assms
proof (induction f i j rule: search_loop.induct)
  case (1 f i j)
  define h where "h = (i + j) div 2"
  note mono = "1.prems"(1)
  show ?case
  proof (cases "i < j")
    case True
    then have h: "i \<le> h" "h < j" by (auto simp: h_def)
    show ?thesis
    proof (cases "f h")
      case True
      have "\<forall>k. h \<le> k \<and> k < n \<longrightarrow> f k" using mono True by blast
      then show ?thesis
        using "1.IH"(2)[OF \<open>i < j\<close> h_def] True h "1.prems" \<open>i < j\<close>
        by (simp add: search_loop.simps [of f i j] h_def [symmetric])
    next
      case False
      have "\<not> f k" if "k < h + 1" for k
        using mono[of k h] False that h "1.prems"(3) by auto
      then show ?thesis
        using "1.IH"(1)[OF \<open>i < j\<close> h_def] False h "1.prems" \<open>i < j\<close>
        by (simp add: search_loop.simps [of f i j] h_def [symmetric])
    qed
  next
    case False
    with "1.prems" have "i = j" by simp
    with "1.prems"(3,4,5) show ?thesis by (simp add: search_loop.simps [of f j j] Let_def)
  qed
qed

lemma sort_search_spec:
  assumes "\<And>a b. a \<le> b \<Longrightarrow> b < n \<Longrightarrow> f a \<Longrightarrow> f b"
  shows "sort_search n f \<le> n"
    and "\<And>k. k < sort_search n f \<Longrightarrow> \<not> f k"
    and "\<And>k. sort_search n f \<le> k \<Longrightarrow> k < n \<Longrightarrow> f k"
proof -
  have "let r = search_loop f 0 n in
     r \<le> n \<and> (\<forall>k < r. \<not> f k) \<and> (\<forall>k. r \<le> k \<and> k < n \<longrightarrow> f k)"
    by (rule search_loop_spec) (use assms in auto)
  then show "sort_search n f \<le> n"
    and "\<And>k. k < sort_search n f \<Longrightarrow> \<not> f k"
    and "\<And>k. sort_search n f \<le> k \<Longrightarrow> k < n \<Longrightarrow> f k"
    by (simp_all add: sort_search_def Let_def)
qed

text \<open>On a strictly sorted list the search for \<open>x\<close> splits it into what lies below and the rest.\<close>

definition lower_bound :: "'a::linorder list \<Rightarrow> 'a \<Rightarrow> nat" where
  "lower_bound xs x = sort_search (length xs) (\<lambda>i. xs ! i \<ge> x)"

lemma lower_bound_split:
  assumes "sorted_wrt (<) xs"
  shows "take (lower_bound xs x) xs = filter (\<lambda>y. y < x) xs"
    and "drop (lower_bound xs x) xs = filter (\<lambda>y. x \<le> y) xs"
    and "lower_bound xs x \<le> length xs"
proof -
  let ?r = "lower_bound xs x"
  have mono: "a \<le> b \<Longrightarrow> b < length xs \<Longrightarrow> xs ! a \<ge> x \<Longrightarrow> xs ! b \<ge> x" for a b
    using sorted_wrt_nth_less [OF assms, of a b]
    by (cases "a = b") (auto intro: order_trans less_imp_le)
  note spec = sort_search_spec [where n = "length xs" and f = "\<lambda>i. xs ! i \<ge> x", OF mono]
  show le: "?r \<le> length xs" using spec(1) by (simp add: lower_bound_def)
  have lo: "y < x" if y: "y \<in> set (take ?r xs)" for y
  proof -
    from y obtain k where "k < ?r" "y = xs ! k"
      by (auto simp: in_set_conv_nth)
    then show ?thesis using spec(2) [where k = k] by (auto simp: lower_bound_def not_le)
  qed
  have hi: "x \<le> y" if y: "y \<in> set (drop ?r xs)" for y
  proof -
    from y obtain k where "k < length xs - ?r" "y = xs ! (?r + k)"
      by (auto simp: in_set_conv_nth add.commute)
    then have "?r + k < length xs" "y = xs ! (?r + k)" by auto
    then show ?thesis using spec(3) [where k = "?r + k"] by (auto simp: lower_bound_def)
  qed
  have xs: "xs = take ?r xs @ drop ?r xs" by simp
  have e1: "filter (\<lambda>y. y < x) (take ?r xs) = take ?r xs" and e2: "filter (\<lambda>y. y < x) (drop ?r xs) = []"
    and e3: "filter (\<lambda>y. x \<le> y) (take ?r xs) = []" and e4: "filter (\<lambda>y. x \<le> y) (drop ?r xs) = drop ?r xs"
    using lo hi by (auto simp: filter_id_conv filter_empty_conv not_le not_less)
  show "take ?r xs = filter (\<lambda>y. y < x) xs"
    using e1 e2 by (subst (2) xs) (simp only: filter_append append_Nil2)
  show "drop ?r xs = filter (\<lambda>y. x \<le> y) xs"
    using e3 e4 by (subst (2) xs) (simp only: filter_append append_Nil)
qed

text \<open>The two neighbours of the insertion point bound every other element from both sides.\<close>

lemma lower_bound_prev:
  assumes "sorted_wrt (<) xs" and "0 < lower_bound xs x"
  shows "xs ! (lower_bound xs x - 1) \<in> set xs" and "xs ! (lower_bound xs x - 1) < x"
    and "\<And>y. y \<in> set xs \<Longrightarrow> y < x \<Longrightarrow> y \<le> xs ! (lower_bound xs x - 1)"
proof -
  let ?r = "lower_bound xs x"
  note sp = lower_bound_split [OF assms(1), of x]
  have lt: "?r - 1 < length xs" using sp(3) assms(2) by simp
  have "xs ! (?r - 1) \<in> set (take ?r xs)"
    using assms(2) sp(3) nth_mem [of "?r - 1" "take ?r xs"] by simp
  then have m: "xs ! (?r - 1) \<in> set (filter (\<lambda>y. y < x) xs)" using sp(1) by simp
  then show "xs ! (?r - 1) \<in> set xs" and "xs ! (?r - 1) < x" by auto
  fix y assume "y \<in> set xs" "y < x"
  then have "y \<in> set (take ?r xs)" using sp(1) by simp
  then obtain k where k: "k < ?r" "y = xs ! k" by (auto simp: in_set_conv_nth)
  then have "k \<le> ?r - 1" by simp
  with k lt show "y \<le> xs ! (?r - 1)"
    using sorted_wrt_nth_less [OF assms(1), of k "?r - 1"] by (cases "k = ?r - 1") auto
qed

lemma lower_bound_next:
  assumes "sorted_wrt (<) xs" and "lower_bound xs x < length xs"
  shows "xs ! lower_bound xs x \<in> set xs" and "x \<le> xs ! lower_bound xs x"
    and "\<And>y. y \<in> set xs \<Longrightarrow> x \<le> y \<Longrightarrow> xs ! lower_bound xs x \<le> y"
proof -
  let ?r = "lower_bound xs x"
  note sp = lower_bound_split [OF assms(1), of x]
  have d: "drop ?r xs = xs ! ?r # drop (Suc ?r) xs" using assms(2) by (simp add: Cons_nth_drop_Suc)
  have "xs ! ?r \<in> set (filter (\<lambda>y. x \<le> y) xs)" using sp(2) d by (metis list.set_intros(1))
  then show "xs ! ?r \<in> set xs" and "x \<le> xs ! ?r" by auto
  fix y assume "y \<in> set xs" "x \<le> y"
  then have y: "y \<in> set (xs ! ?r # drop (Suc ?r) xs)" using sp(2) d [symmetric] by simp
  have "sorted_wrt (<) (drop ?r xs)" using assms(1) by (rule sorted_wrt_drop)
  then show "xs ! ?r \<le> y" using y unfolding d by auto
qed

lemma lower_bound_none_below:
  assumes "sorted_wrt (<) xs" and "lower_bound xs x = 0" and "y \<in> set xs"
  shows "x \<le> y"
proof -
  have "filter (\<lambda>y. y < x) xs = []" using lower_bound_split(1) [OF assms(1), of x] assms(2) by simp
  then show ?thesis using assms(3) by (simp add: filter_empty_conv not_less)
qed

lemma lower_bound_none_above:
  assumes "sorted_wrt (<) xs" and "\<not> lower_bound xs x < length xs" and "y \<in> set xs"
  shows "y < x"
proof -
  have "filter (\<lambda>y. x \<le> y) xs = []" using lower_bound_split(2) [OF assms(1), of x] assms(2) by simp
  then show ?thesis using assms(3) by (simp add: filter_empty_conv not_le)
qed

section \<open>Slices\<close>

definition insert_at :: "nat \<Rightarrow> 'a \<Rightarrow> 'a list \<Rightarrow> 'a list" where
  "insert_at i x xs = take i xs @ x # drop i xs"

definition remove_at :: "nat \<Rightarrow> 'a list \<Rightarrow> 'a list" where
  "remove_at i xs = take i xs @ drop (Suc i) xs"

lemma set_insert_at [simp, slices]: "set (insert_at i x xs) = insert x (set xs)"
proof -
  have "set xs = set (take i xs) \<union> set (drop i xs)"
    by (metis append_take_drop_id set_append)
  then show ?thesis by (auto simp: insert_at_def)
qed

lemma length_insert_at [simp, slices]: "length (insert_at i x xs) = Suc (length xs)"
  by (auto simp: insert_at_def min_def)

lemma length_remove_at [slices]: "i < length xs \<Longrightarrow> length (remove_at i xs) = length xs - 1"
  by (auto simp: remove_at_def min_def)

lemma insert_at_lower_bound:
  assumes "sorted_wrt (<) xs" and "x \<notin> set xs"
  shows "sorted_wrt (<) (insert_at (lower_bound xs x) x xs)"
proof -
  have "insert_at (lower_bound xs x) x xs = filter (\<lambda>y. y < x) xs @ x # filter (\<lambda>y. x \<le> y) xs"
    by (simp add: insert_at_def lower_bound_split [OF assms(1)])
  moreover have "y \<noteq> x" if "y \<in> set xs" for y using assms(2) that by auto
  ultimately show ?thesis
    using assms(1) by (auto simp: sorted_wrt_append sorted_wrt_filter order.strict_iff_order)
qed

lemma remove_at_lower_bound:
  assumes "sorted_wrt (<) xs" and "x \<in> set xs"
  shows "remove_at (lower_bound xs x) xs = filter (\<lambda>y. y \<noteq> x) xs"
    and "lower_bound xs x < length xs" and "xs ! lower_bound xs x = x"
proof -
  let ?r = "lower_bound xs x"
  have dr: "drop ?r xs = filter (\<lambda>y. x \<le> y) xs" using lower_bound_split [OF assms(1)] by simp
  have ne: "filter (\<lambda>y. x \<le> y) xs \<noteq> []" using assms(2) by (auto simp: filter_empty_conv)
  show lt: "?r < length xs" using dr ne by (metis drop_all not_le)
  have so: "sorted_wrt (<) (filter (\<lambda>y. x \<le> y) xs)" using assms(1) by (rule sorted_wrt_filter)
  have dc: "drop ?r xs = xs ! ?r # drop (Suc ?r) xs" using lt by (simp add: Cons_nth_drop_Suc)
  have mem: "x \<in> set (xs ! ?r # drop (Suc ?r) xs)"
    using assms(2) by (simp add: dc [symmetric] dr)
  have so': "\<forall>y \<in> set (drop (Suc ?r) xs). xs ! ?r < y"
    using so unfolding dr [symmetric] dc by simp
  have "xs ! ?r \<in> set (filter (\<lambda>y. x \<le> y) xs)" using dr dc by (metis list.set_intros(1))
  then have ge: "x \<le> xs ! ?r" by simp
  show eq: "xs ! ?r = x" using mem so' ge by auto
  have xs: "xs = take ?r xs @ x # drop (Suc ?r) xs"
    using id_take_nth_drop [OF lt] eq by simp
  have "filter (\<lambda>y. y \<noteq> x) (drop (Suc ?r) xs) = drop (Suc ?r) xs"
    using so' eq by (auto simp: filter_id_conv)
  moreover have "filter (\<lambda>y. y \<noteq> x) (take ?r xs) = take ?r xs"
    unfolding lower_bound_split(1) [OF assms(1)] filter_filter by (rule filter_cong) auto
  ultimately have "filter (\<lambda>y. y \<noteq> x) (take ?r xs @ x # drop (Suc ?r) xs) = take ?r xs @ drop (Suc ?r) xs"
    by simp
  then have "filter (\<lambda>y. y \<noteq> x) xs = take ?r xs @ drop (Suc ?r) xs"
    by (simp only: xs [symmetric])
  then show "remove_at ?r xs = filter (\<lambda>y. y \<noteq> x) xs" by (simp add: remove_at_def)
qed

section \<open>Sums over lists and byte segments\<close>

lemma sum_list_map_filter_split:
  "sum_list (map f (filter P xs)) + sum_list (map f (filter (\<lambda>x. \<not> P x) xs)) = (sum_list (map f xs) :: nat)"
  by (induction xs) auto

lemma take_drop_append:
  "a \<le> b \<Longrightarrow> b \<le> c \<Longrightarrow> take (b - a) (drop a xs) @ take (c - b) (drop b xs) = take (c - a) (drop a xs)"
  using take_add [of "b - a" "c - b" "drop a xs"] by simp

section \<open>Unsigned 64-bit sums on naturals\<close>

text \<open>Where a \<^verbatim>\<open>uint64\<close> is modelled as a natural number, every Go sum is \<open>add64\<close>.\<close>

definition u64_max :: nat where "u64_max = 2 ^ 64 - 1"

definition add64 :: "nat \<Rightarrow> nat \<Rightarrow> nat" where "add64 a b = (a + b) mod 2 ^ 64"

lemma add64_small: "a + b \<le> u64_max \<Longrightarrow> add64 a b = a + b"
  by (simp add: add64_def u64_max_def)

section \<open>Lists of byte ranges\<close>

text \<open>
  Half-open ranges \<open>(a, b)\<close> as the code keeps them: increasing, non-empty, with a gap between any two
  (\<open>ranges_sep\<close>), and the bytes they contain (\<open>ranges_cover\<close>).
\<close>

definition ranges_sep :: "(nat \<times> nat) list \<Rightarrow> bool" where
  "ranges_sep rs \<longleftrightarrow> sorted_wrt (\<lambda>x y. snd x < fst y) rs \<and> (\<forall>(a, b) \<in> set rs. a < b \<and> b \<le> u64_max)"

definition ranges_cover :: "(nat \<times> nat) list \<Rightarrow> nat \<Rightarrow> bool" where
  "ranges_cover rs x \<longleftrightarrow> (\<exists>(a, b) \<in> set rs. a \<le> x \<and> x < b)"

lemma ranges_sep_snoc:
  assumes "ranges_sep rs" "rs \<noteq> [] \<Longrightarrow> snd (last rs) < a" "a < b" "b \<le> u64_max"
  shows "ranges_sep (rs @ [(a, b)])"
proof (cases rs rule: rev_cases)
  case Nil
  then show ?thesis using assms by (simp add: ranges_sep_def)
next
  case (snoc ys y)
  have "snd x < a" if "x \<in> set ys" for x
    using assms(1,2) snoc that by (cases y) (fastforce simp: ranges_sep_def sorted_wrt_append)
  then show ?thesis using assms snoc by (auto simp: ranges_sep_def sorted_wrt_append)
qed

lemma ranges_sep_extend:
  assumes "ranges_sep (rs @ [(a, e)])" "e < b" "b \<le> u64_max"
  shows "ranges_sep (rs @ [(a, b)])"
  using assms by (auto simp: ranges_sep_def sorted_wrt_append)

lemma ranges_take:
  assumes "ranges_sep rs" "ranges_cover rs x" "\<not> ranges_cover (take n rs) x"
  shows "n < length rs \<and> (\<forall>(a, b) \<in> set (take n rs). b \<le> x)"
proof -
  obtain a b where ab: "(a, b) \<in> set rs" "a \<le> x" "x < b" using assms(2) by (auto simp: ranges_cover_def)
  moreover have "(a, b) \<notin> set (take n rs)" using assms(3) ab by (auto simp: ranges_cover_def)
  ultimately have d: "(a, b) \<in> set (drop n rs)" by (metis append_take_drop_id set_append Un_iff)
  then have "n < length rs" by (metis drop_all emptyE list.set(1) not_le)
  moreover have "sorted_wrt (\<lambda>x y. snd x < fst y) (take n rs @ drop n rs)" using assms(1) by (simp add: ranges_sep_def)
  ultimately show ?thesis using d ab unfolding sorted_wrt_append by fastforce
qed

lemma ranges_sep_take: "ranges_sep rs \<Longrightarrow> ranges_sep (take n rs)"
  using set_take_subset [of n rs] by (auto simp: ranges_sep_def sorted_wrt_take)

end
