(* ===== verification/Frame.thy ===== *)
theory Frame
  imports Prelude
begin

text \<open>
  The frame envelope of \<^verbatim>\<open>internal/protocol/frame.go\<close>: header, frame, the selective
  acknowledgement payload, the slice and stream parsers and the serializers. A Go \<^verbatim>\<open>error\<close> is a
  value of \<open>frame_error\<close>; a function that returns \<^verbatim>\<open>(T, error)\<close> returns \<open>frame_error + T\<close>.
  A fixed array \<^verbatim>\<open>[16]byte\<close> is a byte list of length 16 (\<open>wf_header\<close>); all integers have the
  widths of the source.
\<close>

section \<open>Constants and data\<close>

definition Magic0 :: byte where "Magic0 = 0x57"
definition Magic1 :: byte where "Magic1 = 0x4f"
definition Version :: byte where "Version = 3"
definition HeaderSize :: nat where "HeaderSize = 46"
definition MaxPayload :: nat where "MaxPayload = 128 * 1024"

definition FlagFin :: u16 where "FlagFin = push_bit 0 1"
definition FlagAckFinal :: u16 where "FlagAckFinal = push_bit 1 1"
definition FlagAckUp :: u16 where "FlagAckUp = push_bit 2 1"
definition FlagAckDown :: u16 where "FlagAckDown = push_bit 3 1"
definition FlagCloseAbort :: u16 where "FlagCloseAbort = push_bit 4 1"
definition FlagReserveControl :: u16 where "FlagReserveControl = push_bit 5 1"
definition FlagAckRanges :: u16 where "FlagAckRanges = push_bit 7 1"

definition knownFlags :: u16 where
  "knownFlags = FlagFin OR FlagAckFinal OR FlagAckUp OR FlagAckDown OR FlagCloseAbort OR
     FlagReserveControl OR FlagAckRanges"

definition TypeOpen :: byte where "TypeOpen = 1"
definition TypeOpenOK :: byte where "TypeOpenOK = 2"
definition TypeJoin :: byte where "TypeJoin = 3"
definition TypeData :: byte where "TypeData = 4"
definition TypeAck :: byte where "TypeAck = 5"
definition TypeClose :: byte where "TypeClose = 6"
definition TypeReset :: byte where "TypeReset = 7"
definition TypePacket :: byte where "TypePacket = 8"

definition type_valid :: "byte \<Rightarrow> bool" where
  "type_valid t \<longleftrightarrow> TypeOpen \<le> t \<and> t \<le> TypePacket"

definition ClassNew :: byte where "ClassNew = 0"
definition ClassInteractive :: byte where "ClassInteractive = 1"
definition ClassBulk :: byte where "ClassBulk = 2"

record header =
  hVersion :: byte
  hType :: byte
  hFlags :: u16
  hSessionID :: bytes
  hFlowID :: u64
  hSequence :: u64
  hPayloadLen :: u32
  hClass :: byte

record frame =
  fHeader :: header
  fPayload :: bytes

datatype frame_error =
    ErrShortBuffer
  | ErrUnexpectedEOF
  | ErrEOF
  | ErrShortWrite
  | ErrWriter
  | ErrWriterContract
  | ErrInvalidHeader
  | ErrUnknownFlags
  | ErrPayloadLimit nat
  | ErrInvalidMagic
  | UnsupportedVersionError byte byte
  | ErrReservedBits
  | ErrPayloadMismatch nat nat
  | ErrRangeCount nat
  | ErrRangeEmpty
  | ErrRangeMisaligned
  | ErrRangeOverlap

definition reserveControlFlagValid :: "byte \<Rightarrow> u16 \<Rightarrow> bool" where
  "reserveControlFlagValid t flags \<longleftrightarrow>
     flags AND FlagReserveControl = 0 \<or> t = TypeOpen \<or> t = TypeJoin"

definition ackRangesFlagValid :: "byte \<Rightarrow> u16 \<Rightarrow> bool" where
  "ackRangesFlagValid t flags \<longleftrightarrow> flags AND FlagAckRanges = 0 \<or> t = TypeAck"

section \<open>Selective acknowledgement ranges\<close>

definition MaxAckRanges :: nat where "MaxAckRanges = 16"
definition AckRangeSize :: nat where "AckRangeSize = 16"

type_synonym ack_range = "u64 \<times> u64"

fun encode_ranges_loop :: "ack_range list \<Rightarrow> bytes \<Rightarrow> frame_error + bytes" where
  "encode_ranges_loop [] payload = Inr payload"
| "encode_ranges_loop ((r0, r1) # rs) payload =
     (if r0 \<ge> r1 then Inl ErrRangeEmpty
      else encode_ranges_loop rs (payload @ put_be 8 r0 @ put_be 8 r1))"

definition EncodeAckRanges :: "ack_range list \<Rightarrow> frame_error + bytes" where
  "EncodeAckRanges ranges =
     (if length ranges > MaxAckRanges then Inl (ErrRangeCount (length ranges))
      else encode_ranges_loop ranges [])"

text \<open>
  The decoder's loop over \<^verbatim>\<open>range count\<close>: \<open>previous_end\<close> starts at the cumulative sequence, the
  payload is read sixteen bytes at a time.
\<close>

fun decode_ranges_loop :: "nat \<Rightarrow> bytes \<Rightarrow> u64 \<Rightarrow> ack_range list \<Rightarrow> frame_error + ack_range list" where
  "decode_ranges_loop 0 payload previous_end ranges = Inr ranges"
| "decode_ranges_loop (Suc count) payload previous_end ranges =
     (let start = get_be (take 8 payload); end = get_be (take 8 (drop 8 payload)) in
      if start \<ge> end then Inl ErrRangeEmpty
      else if start < previous_end then Inl ErrRangeOverlap
      else decode_ranges_loop count (drop AckRangeSize payload) end (ranges @ [(start, end)]))"

definition DecodeAckRanges :: "bytes \<Rightarrow> u64 \<Rightarrow> frame_error + ack_range list" where
  "DecodeAckRanges payload cumulative =
     (if length payload mod AckRangeSize \<noteq> 0 then Inl ErrRangeMisaligned
      else let count = length payload div AckRangeSize in
        if count > MaxAckRanges then Inl (ErrRangeCount count)
        else decode_ranges_loop count payload cumulative [])"

section \<open>Headers\<close>

text \<open>
  \<open>Encode\<close> writes into the caller's slice: the result is the slice after the writes, with the bytes
  behind the header left as they were.
\<close>

definition header_bytes :: "header \<Rightarrow> bytes" where
  "header_bytes h =
     [Magic0, Magic1, hVersion h, hType h] @ put_be 2 (hFlags h) @ hSessionID h @
     put_be 8 (hFlowID h) @ put_be 8 (hSequence h) @ put_be 4 (hPayloadLen h) @
     [hClass h] @ [0, 0, 0]"

definition header_encode :: "header \<Rightarrow> bytes \<Rightarrow> frame_error + bytes" where
  "header_encode h dst =
     (if length dst < HeaderSize then Inl ErrShortBuffer
      else if hVersion h \<noteq> Version \<or> \<not> type_valid (hType h) \<or> hClass h > ClassBulk \<or>
        hFlags h AND NOT knownFlags \<noteq> 0 \<or> \<not> reserveControlFlagValid (hType h) (hFlags h) \<or>
        \<not> ackRangesFlagValid (hType h) (hFlags h) then Inl ErrInvalidHeader
      else if unat (hPayloadLen h) > MaxPayload then Inl (ErrPayloadLimit (unat (hPayloadLen h)))
      else Inr (header_bytes h @ drop HeaderSize dst))"

definition header_validate :: "header \<Rightarrow> frame_error option" where
  "header_validate h =
     (if hVersion h \<noteq> Version \<or> \<not> type_valid (hType h) \<or> hClass h > ClassBulk
      then Some ErrInvalidHeader
      else if hFlags h AND NOT knownFlags \<noteq> 0 \<or> \<not> reserveControlFlagValid (hType h) (hFlags h) \<or>
        \<not> ackRangesFlagValid (hType h) (hFlags h) then Some ErrUnknownFlags
      else if unat (hPayloadLen h) > MaxPayload then Some (ErrPayloadLimit (unat (hPayloadLen h)))
      else None)"

definition header_fields :: "bytes \<Rightarrow> header" where
  "header_fields src =
     \<lparr>hVersion = src ! 2, hType = src ! 3, hFlags = get_be (take 2 (drop 4 src)),
      hSessionID = take 16 (drop 6 src), hFlowID = get_be (take 8 (drop 22 src)),
      hSequence = get_be (take 8 (drop 30 src)), hPayloadLen = get_be (take 4 (drop 38 src)),
      hClass = src ! 42\<rparr>"

definition DecodeHeader :: "bytes \<Rightarrow> frame_error + header" where
  "DecodeHeader src =
     (if length src < HeaderSize then Inl ErrUnexpectedEOF
      else if src ! 0 \<noteq> Magic0 \<or> src ! 1 \<noteq> Magic1 then Inl ErrInvalidMagic
      else if src ! 2 \<noteq> Version then Inl (UnsupportedVersionError (src ! 2) Version)
      else let h = header_fields src in
        case header_validate h of
          Some err \<Rightarrow> Inl err
        | None \<Rightarrow> if src ! 43 \<noteq> 0 \<or> src ! 44 \<noteq> 0 \<or> src ! 45 \<noteq> 0 then Inl ErrReservedBits
                  else Inr h)"

section \<open>Frames\<close>

text \<open>
  \<^verbatim>\<open>io.ReadFull(r, buf)\<close> on a reader that yields the bytes \<open>r\<close> and then ends: a full buffer and
  the rest of the stream, \<^verbatim>\<open>io.EOF\<close> when nothing was left, \<^verbatim>\<open>io.ErrUnexpectedEOF\<close> in between.
\<close>

definition read_full :: "nat \<Rightarrow> bytes \<Rightarrow> frame_error + bytes \<times> bytes" where
  "read_full n r =
     (if n \<le> length r then Inr (take n r, drop n r)
      else if r = [] then Inl ErrEOF else Inl ErrUnexpectedEOF)"

definition ReadFrame :: "bytes \<Rightarrow> frame_error + frame \<times> bytes" where
  "ReadFrame r =
     (case read_full HeaderSize r of
        Inl err \<Rightarrow> Inl err
      | Inr (raw, r') \<Rightarrow>
          (case DecodeHeader raw of
             Inl err \<Rightarrow> Inl err
           | Inr h \<Rightarrow>
               (case read_full (unat (hPayloadLen h)) r' of
                  Inl err \<Rightarrow> Inl err
                | Inr (payload, r'') \<Rightarrow> Inr (\<lparr>fHeader = h, fPayload = payload\<rparr>, r''))))"

definition ParseFrameOwned :: "bytes \<Rightarrow> frame_error + frame" where
  "ParseFrameOwned b =
     (if length b < HeaderSize then Inl ErrUnexpectedEOF
      else case DecodeHeader (take HeaderSize b) of
        Inl err \<Rightarrow> Inl err
      | Inr h \<Rightarrow>
          let rest = drop HeaderSize b in
          if length rest \<noteq> unat (hPayloadLen h)
          then Inl (ErrPayloadMismatch (length rest) (unat (hPayloadLen h)))
          else Inr \<lparr>fHeader = h, fPayload = rest\<rparr>)"

text \<open>\<open>ParseFrame\<close> differs from \<open>ParseFrameOwned\<close> in the ownership of the payload only: it copies.\<close>

definition ParseFrame :: "bytes \<Rightarrow> frame_error + frame" where
  "ParseFrame b =
     (case ParseFrameOwned b of
        Inl err \<Rightarrow> Inl err
      | Inr f \<Rightarrow> Inr (f\<lparr>fPayload := take (length (fPayload f)) (fPayload f)\<rparr>))"

definition with_payload_len :: "frame \<Rightarrow> header" where
  "with_payload_len f = (fHeader f)\<lparr>hPayloadLen := word_of_nat (length (fPayload f))\<rparr>"

definition AppendFrame :: "bytes \<Rightarrow> frame \<Rightarrow> frame_error + bytes" where
  "AppendFrame dst f =
     (if length (fPayload f) > MaxPayload then Inl (ErrPayloadLimit (length (fPayload f)))
      else case header_encode (with_payload_len f) (replicate HeaderSize 0) of
        Inl err \<Rightarrow> Inl err
      | Inr encoded \<Rightarrow> Inr ((dst @ encoded) @ fPayload f))"

text \<open>
  An \<^verbatim>\<open>io.Writer\<close> is not code of the repository: it is a parameter \<open>wr\<close>, which from its state and
  a slice gives the count it wrote, whether it failed, and its next state. \<^verbatim>\<open>p[n:]\<close> with a count above
  the length (a broken writer) would panic; that is \<open>ErrWriterContract\<close>.
\<close>

type_synonym 's writer = "'s \<Rightarrow> bytes \<Rightarrow> nat \<times> bool \<times> 's"

function writeFull :: "'s writer \<Rightarrow> 's \<Rightarrow> bytes \<Rightarrow> frame_error option \<times> 's" where
  "writeFull wr s p =
     (if p = [] then (None, s)
      else case wr s p of (n, err, s') \<Rightarrow>
        if n > length p then (Some ErrWriterContract, s')
        else if err then (Some ErrWriter, s')
        else if n = 0 then (Some ErrShortWrite, s')
        else writeFull wr s' (drop n p))"
  by pat_completeness auto
termination
  by (relation "measure (\<lambda>(wr, s, p). length p)") auto

declare writeFull.simps [simp del]

definition WriteFrame :: "'s writer \<Rightarrow> 's \<Rightarrow> frame \<Rightarrow> frame_error option \<times> 's" where
  "WriteFrame wr s f =
     (case AppendFrame [] f of
        Inl err \<Rightarrow> (Some err, s)
      | Inr buf \<Rightarrow> writeFull wr s buf)"

section \<open>Well-formed headers\<close>

definition wf_header :: "header \<Rightarrow> bool" where
  "wf_header h \<longleftrightarrow> length (hSessionID h) = 16"

definition header_ok :: "header \<Rightarrow> bool" where
  "header_ok h \<longleftrightarrow>
     hVersion h = Version \<and> type_valid (hType h) \<and> hClass h \<le> ClassBulk \<and>
     hFlags h AND NOT knownFlags = 0 \<and> reserveControlFlagValid (hType h) (hFlags h) \<and>
     ackRangesFlagValid (hType h) (hFlags h) \<and> unat (hPayloadLen h) \<le> MaxPayload"

lemma header_validate_None: "header_validate h = None \<longleftrightarrow> header_ok h"
  by (auto simp: header_validate_def header_ok_def)

lemma header_encode_Inr:
  "header_encode h dst = Inr out \<longleftrightarrow>
     HeaderSize \<le> length dst \<and> header_ok h \<and> out = header_bytes h @ drop HeaderSize dst"
  by (auto simp: header_encode_def header_ok_def)

lemma DecodeHeader_Inr:
  "DecodeHeader src = Inr h \<longleftrightarrow>
     HeaderSize \<le> length src \<and> src ! 0 = Magic0 \<and> src ! 1 = Magic1 \<and> header_ok h \<and>
     h = header_fields src \<and> src ! 43 = 0 \<and> src ! 44 = 0 \<and> src ! 45 = 0"
proof (cases "header_validate (header_fields src)")
  case None
  then have "header_ok (header_fields src)" by (simp add: header_validate_None)
  then show ?thesis
    using None by (auto simp: DecodeHeader_def header_ok_def header_fields_def)
next
  case (Some err)
  then have "\<not> header_ok (header_fields src)" by (simp add: header_validate_None [symmetric])
  then show ?thesis using Some by (auto simp: DecodeHeader_def)
qed

lemma length_header_bytes [simp, wire]: "wf_header h \<Longrightarrow> length (header_bytes h) = HeaderSize"
  by (simp add: header_bytes_def wf_header_def HeaderSize_def)

lemma header_fields_bytes [wire]:
  assumes "wf_header h"
  shows "header_fields (header_bytes h @ rest) = h"
    and "(header_bytes h @ rest) ! 0 = Magic0" and "(header_bytes h @ rest) ! 1 = Magic1"
    and "(header_bytes h @ rest) ! 43 = 0" and "(header_bytes h @ rest) ! 44 = 0"
    and "(header_bytes h @ rest) ! 45 = 0"
  using assms
  by (simp_all add: header_fields_def header_bytes_def wf_header_def nth_append nth_Cons' take_Cons' drop_Cons')

text \<open>The 46 bytes of a decoded header are the encoding of what was decoded.\<close>

lemma take_split: "take (a + b) xs = take a xs @ take b (drop a xs)"
  by (rule take_add)

lemma take3: "3 \<le> length xs \<Longrightarrow> take 3 xs = [xs ! 0, xs ! 1, xs ! 2]"
  by (auto simp: numeral_eq_Suc Suc_le_length_iff)

lemma take4: "4 \<le> length xs \<Longrightarrow> take 4 xs = [xs ! 0, xs ! 1, xs ! 2, xs ! 3]"
  by (auto simp: numeral_eq_Suc Suc_le_length_iff)

lemma put_get_slice:
  "8 * n = LENGTH('a) \<Longrightarrow> i + n \<le> length src \<Longrightarrow>
     put_be n (get_be (take n (drop i src)) :: 'a::len word) = take n (drop i src)"
  using put_get_be [of "take n (drop i src)", where 'a = 'a] by simp

lemma header_bytes_fields:
  assumes len: "HeaderSize \<le> length src" and m: "src ! 0 = Magic0" "src ! 1 = Magic1"
    and r: "src ! 43 = 0" "src ! 44 = 0" "src ! 45 = 0"
  shows "header_bytes (header_fields src) = take HeaderSize src"
proof -
  have nth1: "take 1 (drop i src) = [src ! i]" if "i < 46" for i
    using that len by (simp add: HeaderSize_def take_Suc_conv_app_nth Cons_nth_drop_Suc [symmetric] take_Cons')
  have four: "take 4 src = [src ! 0, src ! 1, src ! 2, src ! 3]"
    using len take4 [of src] by (simp add: HeaderSize_def)
  have three: "take 3 (drop 43 src) = [src ! 43, src ! 44, src ! 45]"
    using len take3 [of "drop 43 src"] by (simp add: HeaderSize_def)
  have "take 46 src = take 4 src @ take 2 (drop 4 src) @ take 16 (drop 6 src) @ take 8 (drop 22 src) @
      take 8 (drop 30 src) @ take 4 (drop 38 src) @ take 1 (drop 42 src) @ take 3 (drop 43 src)"
    using take_split [of 4 42 src] take_split [of 2 40 "drop 4 src"] take_split [of 16 24 "drop 6 src"]
      take_split [of 8 16 "drop 22 src"] take_split [of 8 8 "drop 30 src"]
      take_split [of 4 4 "drop 38 src"] take_split [of 1 3 "drop 42 src"]
    by simp
  then show ?thesis
    using len m r nth1 [of 42] four three
    by (simp add: HeaderSize_def header_bytes_def header_fields_def put_get_slice)
qed

lemma wf_header_fields: "HeaderSize \<le> length src \<Longrightarrow> wf_header (header_fields src)"
  by (simp add: wf_header_def header_fields_def HeaderSize_def)

lemma DecodeHeader_wf: "DecodeHeader src = Inr h \<Longrightarrow> wf_header h"
  by (auto simp: DecodeHeader_Inr wf_header_fields)

lemma DecodeHeader_header_bytes:
  "wf_header h \<Longrightarrow> header_ok h \<Longrightarrow> DecodeHeader (header_bytes h @ rest) = Inr h"
  using header_fields_bytes [of h rest] by (simp add: DecodeHeader_Inr)

lemma DecodeHeader_canonical:
  "DecodeHeader src = Inr h \<Longrightarrow> src = header_bytes h @ drop HeaderSize src"
  using header_bytes_fields [of src] by (auto simp: DecodeHeader_Inr)

section \<open>Round trips of headers and frames\<close>

text \<open>C1: A header the encoder accepts is read back unchanged, and a header the decoder accepts is
  re-encoded to exactly the bytes it was read from: protocol-3 headers have one spelling each.\<close>

theorem header_roundtrip:
  "(wf_header h \<and> header_encode h dst = Inr out \<longrightarrow> DecodeHeader out = Inr h) \<and>
   (DecodeHeader src = Inr h \<longrightarrow> header_encode h src = Inr src)"
proof (intro conjI impI)
  assume a: "wf_header h \<and> header_encode h dst = Inr out"
  then have "out = header_bytes h @ drop HeaderSize dst" and "header_ok h"
    by (simp_all add: header_encode_Inr)
  with a show "DecodeHeader out = Inr h" by (simp add: DecodeHeader_header_bytes)
next
  assume d: "DecodeHeader src = Inr h"
  then have "header_ok h" and "HeaderSize \<le> length src" unfolding DecodeHeader_Inr by blast+
  then show "header_encode h src = Inr src"
    using DecodeHeader_canonical [OF d] by (simp add: header_encode_Inr)
qed

definition sample_header :: header where
  "sample_header = \<lparr>hVersion = 3, hType = TypeData, hFlags = 0, hSessionID = replicate 16 7,
     hFlowID = 9, hSequence = 1000, hPayloadLen = 3, hClass = ClassBulk\<rparr>"

definition sample_frame :: frame where
  "sample_frame = \<lparr>fHeader = sample_header, fPayload = [1, 2, 3]\<rparr>"

lemma sample_header_ok: "wf_header sample_header" "header_ok sample_header"
  by (simp_all add: wf_header_def header_ok_def sample_header_def Version_def type_valid_def
      TypeOpen_def TypePacket_def TypeData_def TypeJoin_def TypeAck_def ClassBulk_def knownFlags_def FlagFin_def FlagAckFinal_def
      FlagAckUp_def FlagAckDown_def FlagCloseAbort_def FlagReserveControl_def FlagAckRanges_def
      reserveControlFlagValid_def ackRangesFlagValid_def MaxPayload_def)

theorem header_roundtrip_witness:
  "DecodeHeader (header_bytes sample_header) = Inr sample_header \<and>
   header_encode sample_header (header_bytes sample_header) = Inr (header_bytes sample_header)"
proof -
  have e: "header_encode sample_header (replicate 46 0) = Inr (header_bytes sample_header)"
    by (simp add: header_encode_Inr sample_header_ok HeaderSize_def)
  have d: "DecodeHeader (header_bytes sample_header) = Inr sample_header"
    using header_roundtrip [of sample_header] e sample_header_ok(1) by blast
  show ?thesis using d header_roundtrip [of sample_header "[]" "[]" "header_bytes sample_header"] by blast
qed

subsection \<open>Frames in slices and on a stream\<close>

definition wf_frame :: "frame \<Rightarrow> bool" where
  "wf_frame f \<longleftrightarrow> wf_header (fHeader f) \<and> hPayloadLen (fHeader f) = word_of_nat (length (fPayload f))"

lemma wf_frame_with_payload_len: "wf_frame f \<Longrightarrow> with_payload_len f = fHeader f"
  by (simp add: wf_frame_def with_payload_len_def)

lemma unat_payload_len:
  "length (fPayload f) \<le> MaxPayload \<Longrightarrow> unat (word_of_nat (length (fPayload f)) :: u32) = length (fPayload f)"
  by (simp add: MaxPayload_def unat_of_nat take_bit_nat_eq_self)

lemma AppendFrame_Inr:
  "AppendFrame dst f = Inr out \<longleftrightarrow>
     length (fPayload f) \<le> MaxPayload \<and> header_ok (with_payload_len f) \<and>
     out = dst @ header_bytes (with_payload_len f) @ fPayload f"
  by (auto simp: AppendFrame_def header_encode_Inr not_less split: sum.splits)
    (simp_all add: header_encode_def header_ok_def split: if_splits)

lemma ParseFrame_eq: "ParseFrame b = ParseFrameOwned b"
  by (auto simp: ParseFrame_def split: sum.splits)

lemma ParseFrameOwned_Inr:
  "ParseFrameOwned b = Inr f \<longleftrightarrow>
     HeaderSize \<le> length b \<and> DecodeHeader (take HeaderSize b) = Inr (fHeader f) \<and>
     fPayload f = drop HeaderSize b \<and> length (drop HeaderSize b) = unat (hPayloadLen (fHeader f))"
  by (cases f) (auto simp: ParseFrameOwned_def Let_def split: sum.splits if_splits)

lemma ReadFrame_append:
  assumes "wf_frame f" and "AppendFrame [] f = Inr out"
  shows "ReadFrame (out @ rest) = Inr (f, rest)"
proof -
  let ?h = "header_bytes (fHeader f)"
  have len: "length (fPayload f) \<le> MaxPayload" and ok: "header_ok (fHeader f)"
    and out: "out = ?h @ fPayload f"
    using assms by (simp_all add: AppendFrame_Inr wf_frame_with_payload_len)
  have wf: "wf_header (fHeader f)" and pl: "unat (hPayloadLen (fHeader f)) = length (fPayload f)"
    using assms(1) len by (simp_all add: wf_frame_def unat_payload_len)
  have "read_full HeaderSize (out @ rest) = Inr (?h, fPayload f @ rest)"
    using wf out by (simp add: read_full_def)
  moreover have "DecodeHeader ?h = Inr (fHeader f)"
    using DecodeHeader_header_bytes [OF wf ok, of "[]"] by simp
  moreover have "read_full (unat (hPayloadLen (fHeader f))) (fPayload f @ rest) = Inr (fPayload f, rest)"
    using pl by (simp add: read_full_def)
  ultimately show ?thesis by (simp add: ReadFrame_def)
qed

text \<open>Reading a stream frame by frame until it ends, as a lane's receive loop does.\<close>

fun read_frames :: "nat \<Rightarrow> bytes \<Rightarrow> frame_error + frame list" where
  "read_frames 0 r = (if r = [] then Inr [] else Inl ErrShortBuffer)"
| "read_frames (Suc n) r =
     (if r = [] then Inr []
      else case ReadFrame r of
        Inl err \<Rightarrow> Inl err
      | Inr (f, r') \<Rightarrow> (case read_frames n r' of Inl err \<Rightarrow> Inl err | Inr fs \<Rightarrow> Inr (f # fs)))"

fun append_frames :: "bytes \<Rightarrow> frame list \<Rightarrow> frame_error + bytes" where
  "append_frames dst [] = Inr dst"
| "append_frames dst (f # fs) =
     (case AppendFrame dst f of Inl err \<Rightarrow> Inl err | Inr dst' \<Rightarrow> append_frames dst' fs)"

lemma AppendFrame_prefix:
  "AppendFrame dst f = (case AppendFrame [] f of Inl e \<Rightarrow> Inl e | Inr out \<Rightarrow> Inr (dst @ out))"
  by (auto simp: AppendFrame_def split: sum.splits)

lemma append_frames_prefix:
  "append_frames dst fs = (case append_frames [] fs of Inl e \<Rightarrow> Inl e | Inr out \<Rightarrow> Inr (dst @ out))"
proof (induction fs arbitrary: dst)
  case Nil
  then show ?case by simp
next
  case (Cons f fs)
  show ?case
  proof (cases "AppendFrame [] f")
    case (Inl e)
    then show ?thesis by (simp add: AppendFrame_prefix [of dst])
  next
    case (Inr out)
    then show ?thesis
      using Cons.IH [of "dst @ out"] Cons.IH [of out]
      by (auto simp: AppendFrame_prefix [of dst] split: sum.splits)
  qed
qed

text \<open>C2: Whatever well-formed frames the serializer accepts, writing them back to back and reading the
  stream gives the same frames in the same order: the length field delimits, so no frame can be
  split, merged or shifted. Any fuel of at least the number of frames suffices.\<close>

theorem frame_stream_roundtrip:
  assumes "\<forall>f \<in> set fs. wf_frame f" and "append_frames [] fs = Inr out" and "length fs \<le> n"
  shows "read_frames n out = Inr fs"
  using assms
proof (induction fs arbitrary: out n)
  case Nil
  then show ?case by (cases n) auto
next
  case (Cons f fs)
  then obtain m where n: "n = Suc m" "length fs \<le> m" by (cases n) auto
  from Cons.prems obtain bs where bs: "AppendFrame [] f = Inr bs" and "append_frames bs fs = Inr out"
    by (auto split: sum.splits)
  then obtain tl where tl: "append_frames [] fs = Inr tl" "out = bs @ tl"
    using append_frames_prefix [of bs fs] by (auto split: sum.splits)
  have "ReadFrame out = Inr (f, tl)"
    using ReadFrame_append [OF _ bs] Cons.prems(1) tl(2) by simp
  moreover have "out \<noteq> []"
    using bs tl(2) Cons.prems(1) by (auto simp: AppendFrame_Inr header_bytes_def)
  ultimately show ?case
    using Cons.IH [OF _ tl(1) n(2)] Cons.prems(1) n(1) by simp
qed

lemma sample_frame_ok:
  "wf_frame sample_frame" "AppendFrame [] sample_frame = Inr (header_bytes sample_header @ [1, 2, 3])"
proof -
  show wf: "wf_frame sample_frame"
    using sample_header_ok(1) by (simp add: wf_frame_def sample_frame_def) (simp add: sample_header_def)
  show "AppendFrame [] sample_frame = Inr (header_bytes sample_header @ [1, 2, 3])"
    using sample_header_ok(2) wf_frame_with_payload_len [OF wf]
    by (simp add: AppendFrame_Inr sample_frame_def MaxPayload_def)
qed

theorem frame_stream_roundtrip_witness:
  "read_frames 2 ((header_bytes sample_header @ [1, 2, 3]) @ header_bytes sample_header @ [1, 2, 3])
     = Inr [sample_frame, sample_frame]"
proof (rule frame_stream_roundtrip)
  show "append_frames [] [sample_frame, sample_frame] =
      Inr ((header_bytes sample_header @ [1, 2, 3]) @ header_bytes sample_header @ [1, 2, 3])"
    using sample_frame_ok(2) by (simp add: AppendFrame_prefix [of "header_bytes sample_header @ [1, 2, 3]"])
qed (simp_all add: sample_frame_ok)

text \<open>A datagram parses as a frame exactly when it is that frame's serialization: nothing else, and
  in particular no trailing byte, is accepted.\<close>

theorem parse_frame_iff:
  "ParseFrame b = Inr f \<longleftrightarrow> wf_frame f \<and> AppendFrame [] f = Inr b"
proof
  assume "ParseFrame b = Inr f"
  then have len: "HeaderSize \<le> length b" and d: "DecodeHeader (take HeaderSize b) = Inr (fHeader f)"
    and p: "fPayload f = drop HeaderSize b" and l: "length (fPayload f) = unat (hPayloadLen (fHeader f))"
    by (auto simp: ParseFrame_eq ParseFrameOwned_Inr)
  have wf: "wf_frame f" using DecodeHeader_wf [OF d] l by (simp add: wf_frame_def)
  have "header_ok (fHeader f)" using d unfolding DecodeHeader_Inr by blast
  moreover have "take HeaderSize b = header_bytes (fHeader f)" using DecodeHeader_canonical [OF d] by simp
  then have "b = header_bytes (fHeader f) @ fPayload f" using p by (metis append_take_drop_id)
  moreover have "length (fPayload f) \<le> MaxPayload" using l \<open>header_ok _\<close> by (simp add: header_ok_def)
  ultimately show "wf_frame f \<and> AppendFrame [] f = Inr b"
    using wf by (simp add: AppendFrame_Inr wf_frame_with_payload_len)
next
  assume a: "wf_frame f \<and> AppendFrame [] f = Inr b"
  then have h: "with_payload_len f = fHeader f" and wf: "wf_header (fHeader f)"
    by (auto simp: wf_frame_with_payload_len) (simp add: wf_frame_def)
  have ok: "header_ok (fHeader f)" "length (fPayload f) \<le> MaxPayload"
    and b: "b = header_bytes (fHeader f) @ fPayload f"
    using a by (simp_all add: AppendFrame_Inr h)
  have "DecodeHeader (header_bytes (fHeader f)) = Inr (fHeader f)"
    using DecodeHeader_header_bytes [OF wf ok(1), of "[]"] by simp
  then show "ParseFrame b = Inr f"
    using a b wf ok by (simp add: ParseFrame_eq ParseFrameOwned_Inr wf_frame_def unat_payload_len)
qed

subsection \<open>Acknowledgement ranges\<close>

text \<open>The rule of the wire contract: every range is non-empty and starts at or above the end of the one
  before it, the first at or above the cumulative sequence.\<close>

fun ranges_from :: "u64 \<Rightarrow> ack_range list \<Rightarrow> bool" where
  "ranges_from c [] \<longleftrightarrow> True"
| "ranges_from c ((a, b) # rs) \<longleftrightarrow> c \<le> a \<and> a < b \<and> ranges_from b rs"

definition range_bytes :: "ack_range list \<Rightarrow> bytes" where
  "range_bytes rs = concat (map (\<lambda>(a, b). put_be 8 a @ put_be 8 b) rs)"

lemma length_range_bytes [simp]: "length (range_bytes rs) = AckRangeSize * length rs"
  by (induction rs) (auto simp: range_bytes_def AckRangeSize_def)

lemma range_bytes_Cons: "range_bytes ((a, b) # rs) = put_be 8 a @ put_be 8 b @ range_bytes rs"
  by (simp add: range_bytes_def)

lemma encode_ranges_loop_Inr:
  "encode_ranges_loop rs p = Inr out \<longleftrightarrow> (\<forall>(a, b) \<in> set rs. a < b) \<and> out = p @ range_bytes rs"
  by (induction rs p rule: encode_ranges_loop.induct) (auto simp: range_bytes_Cons range_bytes_def)

lemma ranges_from_nonempty: "ranges_from c rs \<Longrightarrow> \<forall>(a, b) \<in> set rs. a < b"
  by (induction c rs rule: ranges_from.induct) auto

lemma decode_ranges_loop_range_bytes:
  "ranges_from c rs \<Longrightarrow> decode_ranges_loop (length rs) (range_bytes rs) c acc = Inr (acc @ rs)"
  by (induction c rs arbitrary: acc rule: ranges_from.induct)
    (auto simp: range_bytes_Cons AckRangeSize_def Let_def)

lemma decode_ranges_loop_sound:
  "decode_ranges_loop n p c acc = Inr out \<Longrightarrow> length p = AckRangeSize * n \<Longrightarrow>
     \<exists>rs. out = acc @ rs \<and> length rs = n \<and> ranges_from c rs \<and> p = range_bytes rs"
proof (induction n p c acc rule: decode_ranges_loop.induct)
  case (1 p c acc)
  then show ?case by (simp add: range_bytes_def)
next
  case (2 n p c acc)
  let ?a = "get_be (take 8 p) :: u64" and ?b = "get_be (take 8 (drop 8 p)) :: u64"
  from "2.prems" have ok: "?a < ?b" "c \<le> ?a"
    and rec: "decode_ranges_loop n (drop AckRangeSize p) ?b (acc @ [(?a, ?b)]) = Inr out"
    by (auto simp: Let_def not_le not_less split: if_splits)
  have "length (drop AckRangeSize p) = AckRangeSize * n"
    using "2.prems"(2) by (simp add: AckRangeSize_def)
  then obtain rs where rs: "out = (acc @ [(?a, ?b)]) @ rs" "length rs = n" "ranges_from ?b rs"
      "drop AckRangeSize p = range_bytes rs"
    using "2.IH" [OF refl refl _ _ rec] ok by (auto simp: not_le not_less)
  have "p = take 8 p @ take 8 (drop 8 p) @ drop 16 p"
    using take_split [of 8 8 p] append_take_drop_id [of 16 p] by simp
  then have "p = range_bytes ((?a, ?b) # rs)"
    using rs(4) "2.prems"(2) put_get_slice [of 8 0 p, where 'a = 64] put_get_slice [of 8 8 p, where 'a = 64]
    by (simp add: range_bytes_Cons AckRangeSize_def)
  then show ?case using rs ok by (intro exI [of _ "(?a, ?b) # rs"]) auto
qed

text \<open>A range payload decodes to \<open>rs\<close> exactly when it is the encoding of \<open>rs\<close> and the ranges obey the
  wire rule relative to the cumulative sequence: a peer can neither smuggle in unordered,
  overlapping, inverted or already acknowledged ranges, nor more than sixteen of them.\<close>

theorem ack_ranges_decode_iff:
  "DecodeAckRanges p c = Inr rs \<longleftrightarrow> EncodeAckRanges rs = Inr p \<and> ranges_from c rs"
proof
  assume d: "DecodeAckRanges p c = Inr rs"
  let ?n = "length p div AckRangeSize"
  have a: "length p mod AckRangeSize = 0" and n: "?n \<le> MaxAckRanges"
    and l: "decode_ranges_loop ?n p c [] = Inr rs"
    using d by (simp_all add: DecodeAckRanges_def Let_def split: if_splits)
  from a have m: "length p = AckRangeSize * ?n"
    using mult_div_mod_eq [of AckRangeSize "length p"] by simp
  from decode_ranges_loop_sound [OF l m] obtain rs' where "rs = [] @ rs'" "length rs' = ?n"
    "ranges_from c rs'" "p = range_bytes rs'" by blast
  then have len: "length rs = ?n" and r: "ranges_from c rs" and p: "p = range_bytes rs"
    by (simp_all only: append_Nil)
  from len n have "\<not> MaxAckRanges < length rs" by simp
  then show "EncodeAckRanges rs = Inr p \<and> ranges_from c rs"
    using r ranges_from_nonempty [OF r] p by (simp add: EncodeAckRanges_def encode_ranges_loop_Inr)
next
  assume a: "EncodeAckRanges rs = Inr p \<and> ranges_from c rs"
  then have "length rs \<le> MaxAckRanges" and p: "p = range_bytes rs"
    by (auto simp: EncodeAckRanges_def encode_ranges_loop_Inr split: if_splits)
  with a show "DecodeAckRanges p c = Inr rs"
    using decode_ranges_loop_range_bytes [of c rs "[]"]
    by (simp add: DecodeAckRanges_def Let_def AckRangeSize_def)
qed

section \<open>Writing through a partial writer\<close>

lemma writeFull_prefix:
  assumes contract: "\<And>s p n err s'. wr s p = (n, err, s') \<Longrightarrow> n \<le> length p \<and> sink s' = sink s @ take n p"
  shows "writeFull wr s p = (res, s') \<Longrightarrow>
     \<exists>k \<le> length p. sink s' = sink s @ take k p \<and> (res = None \<longrightarrow> k = length p) \<and> res \<noteq> Some ErrWriterContract"
proof (induction "length p" arbitrary: s p rule: less_induct)
  case less
  show ?case
  proof (cases "p = []")
    case True
    with less.prems show ?thesis by (auto simp: writeFull.simps [of wr s])
  next
    case ne: False
    obtain n err s1 where w: "wr s p = (n, err, s1)" by (cases "wr s p")
    note c = contract [OF w]
    show ?thesis
    proof (cases "err \<or> n = 0")
      case True
      with less.prems ne w c show ?thesis
        by (auto simp: writeFull.simps [of wr s] split: if_splits intro!: exI [of _ n])
    next
      case False
      then have rec: "writeFull wr s1 (drop n p) = (res, s')"
        using less.prems ne w c by (simp add: writeFull.simps [of wr s])
      moreover have "length (drop n p) < length p" using False c ne by simp
      ultimately obtain k where "k \<le> length (drop n p)" "sink s' = sink s1 @ take k (drop n p)"
        "res = None \<longrightarrow> k = length (drop n p)" "res \<noteq> Some ErrWriterContract"
        using less.hyps by blast
      then show ?thesis
        using c by (intro exI [of _ "n + k"]) (auto simp: take_add)
    qed
  qed
qed

lemma writeFull_progress:
  assumes contract: "\<And>s p n err s'. wr s p = (n, err, s') \<Longrightarrow> n \<le> length p"
    and progress: "\<And>s p n err s'. wr s p = (n, err, s') \<Longrightarrow> p \<noteq> [] \<Longrightarrow> 0 < n \<and> \<not> err"
  shows "fst (writeFull wr s p) = None"
proof (induction "length p" arbitrary: s p rule: less_induct)
  case less
  show ?case
  proof (cases "p = []")
    case True
    then show ?thesis by (simp add: writeFull.simps [of wr s])
  next
    case False
    obtain n err s1 where w: "wr s p = (n, err, s1)" by (cases "wr s p")
    have n: "n \<le> length p" "0 < n" "\<not> err" using contract [OF w] progress [OF w False] by auto
    then have "fst (writeFull wr s1 (drop n p)) = None" using less False by simp
    then show ?thesis using w n False by (simp add: writeFull.simps [of wr s])
  qed
qed

text \<open>On any writer that obeys the \<^verbatim>\<open>io.Writer\<close> contract (the count it reports is the length of the
  prefix it took), a frame write either delivers the whole serialized frame, or reports an error
  and has delivered a prefix of it: short writes never corrupt or duplicate bytes. A writer that
  always takes at least one byte without an error gets the whole frame.\<close>

theorem write_frame_delivers:
  assumes contract: "\<And>s p n err s'. wr s p = (n, err, s') \<Longrightarrow> n \<le> length p \<and> sink s' = sink s @ take n p"
    and buf: "AppendFrame [] f = Inr buf"
    and res: "WriteFrame wr s f = (res, s')"
  shows "(res = None \<longrightarrow> sink s' = sink s @ buf) \<and> (\<exists>k \<le> length buf. sink s' = sink s @ take k buf)
     \<and> ((\<forall>s p n err s'. wr s p = (n, err, s') \<longrightarrow> p \<noteq> [] \<longrightarrow> 0 < n \<and> \<not> err) \<longrightarrow> res = None)"
proof -
  have w: "writeFull wr s buf = (res, s')" using res by (simp add: WriteFrame_def buf)
  have "res = None" if "\<forall>s p n err s'. wr s p = (n, err, s') \<longrightarrow> p \<noteq> [] \<longrightarrow> 0 < n \<and> \<not> err"
    using writeFull_progress [of wr s buf] contract that w by (metis fst_conv)
  then show ?thesis
    using writeFull_prefix [where wr = wr and sink = sink, OF contract w] by fastforce
qed

text \<open>A writer that takes at most seven bytes at a time and never fails.\<close>

definition trickle :: "bytes writer" where
  "trickle s p = (min 7 (length p), False, s @ take (min 7 (length p)) p)"

theorem write_frame_delivers_witness:
  "WriteFrame trickle [] sample_frame = (None, header_bytes sample_header @ [1, 2, 3])"
proof -
  let ?r = "WriteFrame trickle [] sample_frame" and ?b = "header_bytes sample_header @ [1, 2, 3]"
  have t: "n \<le> length p \<and> id s' = id s @ take n p" "p \<noteq> [] \<Longrightarrow> 0 < n \<and> \<not> err"
    if "trickle s p = (n, err, s')" for s p n err s'
    using that by (auto simp: trickle_def)
  have "(fst ?r = None \<longrightarrow> id (snd ?r) = id [] @ ?b) \<and> (\<exists>k \<le> length ?b. id (snd ?r) = id [] @ take k ?b)
      \<and> ((\<forall>s p n err s'. trickle s p = (n, err, s') \<longrightarrow> p \<noteq> [] \<longrightarrow> 0 < n \<and> \<not> err) \<longrightarrow> fst ?r = None)"
    by (rule write_frame_delivers [where wr = trickle, OF _ sample_frame_ok(2) prod.collapse [symmetric]])
      (rule t)
  then have "fst ?r = None" and "snd ?r = ?b" using t(2) by (blast, simp) (metis append_Nil id_apply t(2))
  then show ?thesis by (simp add: prod_eq_iff)
qed

end
