(* ===== verification/AckTrack.thy ===== *)
theory AckTrack
  imports Prelude "HOL-Library.Product_Lexorder"
begin

text \<open>
  The acknowledgement tracker of \<^verbatim>\<open>internal/pep/acktrack.go\<close>: which bytes of an outbound stream the
  peer has acknowledged. \<open>Advance\<close> and \<open>Add\<close> are critical sections; the blocking \<open>Wait\<close> and
  \<open>WaitChange\<close> are modelled as one turn of their loop, which ends in a result or in the wait on the
  condition variable. Their interplay is a step relation in the last section. The contract of an
  acknowledged set is the locale \<open>acked_set\<close>: \<open>acked t x\<close> says that byte \<open>x\<close> is known to have arrived.
\<close>

section \<open>State and operations\<close>

type_synonym range = "nat \<times> nat"

record ackTracker =
  cumulative :: nat
  ranges :: "range list"
  trk_closed :: bool
  gen :: nat

definition newAckTracker :: ackTracker where
  "newAckTracker = \<lparr>cumulative = 0, ranges = [], trk_closed = False, gen = 0\<rparr>"

text \<open>The loop of \<open>mergeLocked\<close> over the sorted ranges; \<open>merged\<close> is not empty.\<close>

fun merge_loop :: "range list \<Rightarrow> range list \<Rightarrow> range list" where
  "merge_loop merged [] = merged"
| "merge_loop merged (r # rs) =
     (let l = last merged in
      if fst r \<le> snd l
      then merge_loop (if snd r > snd l then butlast merged @ [(fst l, snd r)] else merged) rs
      else merge_loop (merged @ [r]) rs)"

definition mergeLocked :: "range list \<Rightarrow> range list" where
  "mergeLocked rs =
     (if length rs < 2 then rs
      else let sorted = sort rs in merge_loop (take 1 sorted) (drop 1 sorted))"

text \<open>One pass of \<open>compactLocked\<close>: the new cumulative point, the ranges kept, whether it moved.\<close>

fun compact_pass :: "nat \<Rightarrow> range list \<Rightarrow> nat \<times> range list \<times> bool" where
  "compact_pass c [] = (c, [], False)"
| "compact_pass c (r # rs) =
     (if snd r \<le> c then (let (c', kept, _) = compact_pass c rs in (c', kept, True))
      else if fst r \<le> c then (let (c', kept, _) = compact_pass (snd r) rs in (c', kept, True))
      else (let (c', kept, progress) = compact_pass c rs in (c', r # kept, progress)))"

lemma compact_pass_length:
  "compact_pass c rs = (c', kept, progress) \<Longrightarrow> length kept \<le> length rs \<and> (progress \<longrightarrow> length kept < length rs)"
proof (induction rs arbitrary: c c' kept progress)
  case Nil
  then show ?case by simp
next
  case (Cons r rs)
  obtain c1 k1 p1 where 1: "compact_pass c rs = (c1, k1, p1)" by (metis prod_cases3)
  obtain c2 k2 p2 where 2: "compact_pass (snd r) rs = (c2, k2, p2)" by (metis prod_cases3)
  show ?case using Cons.prems Cons.IH [OF 1] Cons.IH [OF 2] 1 2 by (auto split: if_splits)
qed

function compact_loop :: "nat \<Rightarrow> range list \<Rightarrow> nat \<times> range list" where
  "compact_loop c rs =
     (case compact_pass c rs of
        (c', kept, progress) \<Rightarrow> if progress then compact_loop c' kept else (c', kept))"
  by pat_completeness auto
termination
proof (relation "measure (\<lambda>(c, rs). length rs)", goal_cases)
  case 1
  show ?case by simp
next
  case 2
  then show ?case by (auto dest: compact_pass_length [OF sym])
qed

declare compact_loop.simps [simp del]

definition compactLocked :: "nat \<Rightarrow> range list \<Rightarrow> nat \<times> range list" where
  "compactLocked c rs = (case compact_pass c rs of (c', kept, _) \<Rightarrow> compact_loop c' kept)"

definition compacted :: "ackTracker \<Rightarrow> ackTracker" where
  "compacted t = (case compactLocked (cumulative t) (ranges t) of (c, rs) \<Rightarrow> t\<lparr>cumulative := c, ranges := rs\<rparr>)"

text \<open>The second result of \<open>Advance\<close> and \<open>Add\<close> is whether they broadcast.\<close>

definition Advance :: "ackTracker \<Rightarrow> nat \<Rightarrow> ackTracker \<times> bool" where
  "Advance t sequence =
     (if sequence \<le> cumulative t then (t, False)
      else let t1 = compacted (t\<lparr>cumulative := sequence\<rparr>) in (t1\<lparr>gen := add64 (gen t1) 1\<rparr>, True))"

definition ack_Add :: "ackTracker \<Rightarrow> range list \<Rightarrow> ackTracker \<times> bool" where
  "ack_Add t rs =
     (if rs = [] then (t, False)
      else
        let new = filter (\<lambda>r. \<not> (snd r \<le> fst r \<or> snd r \<le> cumulative t)) rs;
            t1 = compacted (t\<lparr>ranges := mergeLocked (ranges t @ new)\<rparr>)
        in (t1\<lparr>gen := add64 (gen t1) 1\<rparr>, True))"

fun cover_loop :: "range list \<Rightarrow> nat \<Rightarrow> nat \<Rightarrow> bool" where
  "cover_loop [] start end = False"
| "cover_loop (r # rs) start end =
     (if fst r > start then False
      else if snd r > start then (if snd r \<ge> end then True else cover_loop rs (snd r) end)
      else cover_loop rs start end)"

definition coveredLocked :: "ackTracker \<Rightarrow> nat \<Rightarrow> nat \<Rightarrow> bool" where
  "coveredLocked t start end =
     (if end \<le> start then True
      else if end \<le> cumulative t then True
      else cover_loop (ranges t) (if start < cumulative t then cumulative t else start) end)"

definition Covered :: "ackTracker \<Rightarrow> nat \<Rightarrow> nat \<Rightarrow> bool" where
  "Covered t start end = coveredLocked t start end"

definition ack_Touch :: "ackTracker \<Rightarrow> ackTracker" where
  "ack_Touch t = t\<lparr>gen := add64 (gen t) 1\<rparr>"

definition ack_Close :: "ackTracker \<Rightarrow> ackTracker" where
  "ack_Close t = t\<lparr>trk_closed := True\<rparr>"

text \<open>One turn of the loops of \<open>Wait\<close> and \<open>WaitChange\<close>, mutex held.\<close>

datatype wait_result = WaitDone | WaitGen nat | ErrAckTrackerClosed | WaitCtxErr | Sleeping

definition wait_turn :: "ackTracker \<Rightarrow> nat \<Rightarrow> nat \<Rightarrow> bool \<Rightarrow> wait_result" where
  "wait_turn t start end ctx_done =
     (if coveredLocked t start end then WaitDone
      else if trk_closed t then ErrAckTrackerClosed
      else if ctx_done then WaitCtxErr
      else Sleeping)"

definition wait_change_turn :: "ackTracker \<Rightarrow> nat \<Rightarrow> bool \<Rightarrow> wait_result" where
  "wait_change_turn t since ctx_done =
     (if gen t \<noteq> since then WaitGen (gen t)
      else if trk_closed t then ErrAckTrackerClosed
      else if ctx_done then WaitCtxErr
      else Sleeping)"

record ackSnapshot =
  snap_cumulative :: nat
  snap_ranges :: "range list"

definition ack_Snapshot :: "ackTracker \<Rightarrow> ackSnapshot" where
  "ack_Snapshot t = \<lparr>snap_cumulative = cumulative t, snap_ranges = ranges t\<rparr>"

definition highest :: "ackSnapshot \<Rightarrow> nat" where
  "highest s = foldl (\<lambda>top r. if snd r > top then snd r else top) (snap_cumulative s) (snap_ranges s)"

definition covers :: "ackSnapshot \<Rightarrow> nat \<Rightarrow> nat \<Rightarrow> bool" where
  "covers s start end =
     (if end \<le> start \<or> end \<le> snap_cumulative s then True
      else cover_loop (snap_ranges s) (if start < snap_cumulative s then snap_cumulative s else start) end)"

section \<open>The contract of an acknowledged set\<close>

text \<open>
  What the sender relies on: a report makes exactly the bytes it names known, a query answers for
  exactly the known bytes, and the representation invariant is kept.
\<close>

locale acked_set =
  fixes wf :: "'t \<Rightarrow> bool"
    and acked :: "'t \<Rightarrow> nat \<Rightarrow> bool"
    and advance :: "'t \<Rightarrow> nat \<Rightarrow> 't"
    and add :: "'t \<Rightarrow> range list \<Rightarrow> 't"
    and covered :: "'t \<Rightarrow> nat \<Rightarrow> nat \<Rightarrow> bool"
  assumes advance_wf: "wf t \<Longrightarrow> n \<le> u64_max \<Longrightarrow> wf (advance t n)"
    and add_wf: "wf t \<Longrightarrow> \<forall>r \<in> set rs. snd r \<le> u64_max \<Longrightarrow> wf (add t rs)"
    and advance_acked: "wf t \<Longrightarrow> n \<le> u64_max \<Longrightarrow> acked (advance t n) x \<longleftrightarrow> acked t x \<or> x < n"
    and add_acked: "wf t \<Longrightarrow> \<forall>r \<in> set rs. snd r \<le> u64_max \<Longrightarrow> acked (add t rs) x \<longleftrightarrow> acked t x \<or> ranges_cover rs x"
    and covered_iff: "wf t \<Longrightarrow> covered t a b \<longleftrightarrow> (\<forall>x. a \<le> x \<and> x < b \<longrightarrow> acked t x)"
begin

text \<open>A sequence of reports, each a cumulative point and a list of ranges.\<close>

fun reports :: "'t \<Rightarrow> (nat \<times> range list) list \<Rightarrow> 't" where
  "reports t [] = t"
| "reports t ((n, rs) # xs) = reports (add (advance t n) rs) xs"

definition report_ok :: "nat \<times> range list \<Rightarrow> bool" where
  "report_ok p \<longleftrightarrow> fst p \<le> u64_max \<and> (\<forall>r \<in> set (snd p). snd r \<le> u64_max)"

lemma reports_acked:
  "wf t \<Longrightarrow> \<forall>p \<in> set xs. report_ok p \<Longrightarrow> wf (reports t xs) \<and>
     (acked (reports t xs) x \<longleftrightarrow> acked t x \<or> (\<exists>(n, rs) \<in> set xs. x < n \<or> ranges_cover rs x))"
proof (induction xs arbitrary: t)
  case Nil
  then show ?case by simp
next
  case (Cons p xs)
  obtain n rs where p: "p = (n, rs)" by (cases p)
  have ok: "n \<le> u64_max" "\<forall>r \<in> set rs. snd r \<le> u64_max" using Cons.prems(2) p by (auto simp: report_ok_def)
  have w: "wf (advance t n)" by (rule advance_wf [OF Cons.prems(1) ok(1)])
  from Cons.IH [OF add_wf [OF w ok(2)]] Cons.prems(2)
    add_acked [OF w ok(2), of x] advance_acked [OF Cons.prems(1) ok(1), of x]
  show ?case by (auto simp: p)
qed

text \<open>The order and the multiplicity of the reports do not matter.\<close>

lemma reports_order:
  assumes "wf t" "\<forall>p \<in> set xs. report_ok p" "set xs = set ys"
  shows "covered (reports t xs) a b \<longleftrightarrow> covered (reports t ys) a b"
  using reports_acked [OF assms(1,2)] reports_acked [OF assms(1), of ys] assms(2,3) covered_iff by simp

end

section \<open>The tracker is an acknowledged set\<close>

definition trk_inv :: "ackTracker \<Rightarrow> bool" where
  "trk_inv t \<longleftrightarrow> ranges_sep (ranges t) \<and> (\<forall>r \<in> set (ranges t). cumulative t < fst r) \<and> cumulative t \<le> u64_max"

definition trk_acked :: "ackTracker \<Rightarrow> nat \<Rightarrow> bool" where
  "trk_acked t x \<longleftrightarrow> x < cumulative t \<or> ranges_cover (ranges t) x"

definition trk_advance :: "ackTracker \<Rightarrow> nat \<Rightarrow> ackTracker" where
  "trk_advance t n = fst (Advance t n)"

definition trk_add :: "ackTracker \<Rightarrow> range list \<Rightarrow> ackTracker" where
  "trk_add t rs = fst (ack_Add t rs)"

lemma ranges_cover_simps [simp]:
  "ranges_cover [] x \<longleftrightarrow> False"
  "ranges_cover (r # rs) x \<longleftrightarrow> fst r \<le> x \<and> x < snd r \<or> ranges_cover rs x"
  "ranges_cover (rs @ ss) x \<longleftrightarrow> ranges_cover rs x \<or> ranges_cover ss x"
  by (auto simp: ranges_cover_def)

lemma merge_loop_spec:
  assumes "ranges_sep (ms @ [m])" "sorted_wrt (\<lambda>x y. fst x \<le> fst y) (m # rs)"
    and "\<forall>r \<in> set rs. fst r < snd r \<and> snd r \<le> u64_max"
  shows "ranges_sep (merge_loop (ms @ [m]) rs) \<and>
     (\<forall>x. ranges_cover (merge_loop (ms @ [m]) rs) x \<longleftrightarrow> ranges_cover (ms @ [m]) x \<or> ranges_cover rs x)"
  using assms
proof (induction rs arbitrary: ms m)
  case Nil
  then show ?case by simp
next
  case (Cons r rs)
  have r: "fst r < snd r" "snd r \<le> u64_max" "fst m \<le> fst r" and rs: "\<forall>r \<in> set rs. fst r < snd r \<and> snd r \<le> u64_max"
    using Cons.prems(2,3) by auto
  have so: "sorted_wrt (\<lambda>x y. fst x \<le> fst y) (m # rs)" "sorted_wrt (\<lambda>x y. fst x \<le> fst y) (r # rs)"
    "sorted_wrt (\<lambda>x y. fst x \<le> fst y) ((fst m, snd r) # rs)"
    using Cons.prems(2) by auto
  consider (apart) "snd m < fst r" | (inside) "fst r \<le> snd m" "snd r \<le> snd m" | (extend) "fst r \<le> snd m" "snd m < snd r"
    by linarith
  then show ?case
  proof cases
    case apart
    have "ranges_sep ((ms @ [m]) @ [r])"
      using ranges_sep_snoc [of "ms @ [m]" "fst r" "snd r"] Cons.prems(1) apart r by simp
    from Cons.IH [OF this so(2) rs] apart show ?thesis by simp
  next
    case inside
    then have "merge_loop (ms @ [m]) (r # rs) = merge_loop (ms @ [m]) rs" by simp
    moreover have "\<And>x. fst r \<le> x \<and> x < snd r \<Longrightarrow> fst m \<le> x \<and> x < snd m" using inside r(3) by simp
    ultimately show ?thesis using Cons.IH [OF Cons.prems(1) so(1) rs] by (metis ranges_cover_simps(2,3))
  next
    case extend
    have "ranges_sep (ms @ [(fst m, snd r)])"
      using ranges_sep_extend [of ms "fst m" "snd m" "snd r"] Cons.prems(1) extend r by simp
    moreover have "fst m < snd m" using Cons.prems(1) by (cases m) (auto simp: ranges_sep_def)
    moreover have "merge_loop (ms @ [m]) (r # rs) = merge_loop (ms @ [(fst m, snd r)]) rs" using extend by simp
    moreover have "\<And>x. fst m \<le> x \<and> x < snd r \<longleftrightarrow> fst m \<le> x \<and> x < snd m \<or> fst r \<le> x \<and> x < snd r"
      using extend r by linarith
    ultimately show ?thesis using Cons.IH [of ms "(fst m, snd r)", OF _ so(3) rs] by simp
  qed
qed

lemma mergeLocked_spec:
  assumes "\<forall>r \<in> set rs. fst r < snd r \<and> snd r \<le> u64_max"
  shows "ranges_sep (mergeLocked rs)" and "ranges_cover (mergeLocked rs) x \<longleftrightarrow> ranges_cover rs x"
proof -
  have "ranges_sep (mergeLocked rs) \<and> (ranges_cover (mergeLocked rs) x \<longleftrightarrow> ranges_cover rs x)"
  proof (cases "sort rs")
    case Nil
    then have "rs = []" by (metis length_0_conv length_sort)
    then show ?thesis by (simp add: mergeLocked_def ranges_sep_def)
  next
    case (Cons m ss)
    have set: "set (m # ss) = set rs" using Cons by (metis set_sort)
    have "sorted (m # ss)" using Cons sorted_sort [of rs] by simp
    then have so: "sorted_wrt (\<lambda>x y. fst x \<le> fst y) (m # ss)"
      by (rule sorted_wrt_mono_rel [rotated]) (auto simp: less_eq_prod_def)
    have m: "ranges_sep ([] @ [m])" using assms set list.set_intros(1) [of m ss] by (auto simp: ranges_sep_def)
    note s = merge_loop_spec [OF m so, simplified]
    have cov: "ranges_cover (m # ss) x \<longleftrightarrow> ranges_cover rs x" unfolding ranges_cover_def set ..
    show ?thesis
    proof (cases "length rs < 2")
      case True
      then have "rs = [] \<or> (\<exists>r. rs = [r])" by (cases rs rule: list.exhaust; cases "tl rs") auto
      then show ?thesis using True assms by (auto simp: mergeLocked_def ranges_sep_def)
    next
      case False
      then show ?thesis using s cov set assms Cons by (auto simp: mergeLocked_def)
    qed
  qed
  then show "ranges_sep (mergeLocked rs)" "ranges_cover (mergeLocked rs) x \<longleftrightarrow> ranges_cover rs x" by blast+
qed

lemma compact_pass_cover:
  "compact_pass c rs = (c', kept, p) \<Longrightarrow> x < c' \<or> ranges_cover kept x \<longleftrightarrow> x < c \<or> ranges_cover rs x"
proof (induction rs arbitrary: c c' kept p)
  case (Cons r rs)
  obtain c1 k1 p1 where 1: "compact_pass c rs = (c1, k1, p1)" by (metis prod_cases3)
  obtain c2 k2 p2 where 2: "compact_pass (snd r) rs = (c2, k2, p2)" by (metis prod_cases3)
  show ?case using Cons.prems Cons.IH [OF 1] Cons.IH [OF 2] 1 2 by (auto split: if_splits)
qed simp

lemma compact_pass_kept:
  "compact_pass c rs = (c', kept, p) \<Longrightarrow> set kept \<subseteq> set rs \<and> (sorted_wrt R rs \<longrightarrow> sorted_wrt R kept)"
proof (induction rs arbitrary: c c' kept p)
  case (Cons r rs)
  obtain c1 k1 p1 where 1: "compact_pass c rs = (c1, k1, p1)" by (metis prod_cases3)
  obtain c2 k2 p2 where 2: "compact_pass (snd r) rs = (c2, k2, p2)" by (metis prod_cases3)
  show ?case using Cons.prems Cons.IH [OF 1] Cons.IH [OF 2] 1 2 by (auto split: if_splits) (blast+)?
qed simp

lemma compact_pass_still:
  "compact_pass c rs = (c', kept, False) \<Longrightarrow> c' = c \<and> (\<forall>r \<in> set kept. c < fst r)"
proof (induction rs arbitrary: c' kept)
  case (Cons r rs)
  obtain c1 k1 p1 where 1: "compact_pass c rs = (c1, k1, p1)" by (metis prod_cases3)
  show ?case using Cons.prems Cons.IH 1 by (auto split: if_splits prod.splits)
qed simp

lemma compact_pass_le:
  "compact_pass c rs = (c', kept, p) \<Longrightarrow> c \<le> n \<Longrightarrow> \<forall>r \<in> set rs. snd r \<le> n \<Longrightarrow> c' \<le> n"
proof (induction rs arbitrary: c c' kept p)
  case (Cons r rs)
  obtain c1 k1 p1 where 1: "compact_pass c rs = (c1, k1, p1)" by (metis prod_cases3)
  obtain c2 k2 p2 where 2: "compact_pass (snd r) rs = (c2, k2, p2)" by (metis prod_cases3)
  show ?case using Cons.prems Cons.IH [OF 1] Cons.IH [OF 2] 1 2 by (auto split: if_splits)
qed simp

lemma compact_pass_sep:
  assumes "compact_pass c rs = (c', kept, p)" "ranges_sep rs" "c \<le> u64_max"
  shows "ranges_sep kept" "c' \<le> u64_max"
proof -
  have k: "set kept \<subseteq> set rs" "sorted_wrt (\<lambda>x y. snd x < fst y) kept"
    using compact_pass_kept [OF assms(1)] assms(2) by (auto simp: ranges_sep_def)
  then show "ranges_sep kept" using assms(2) unfolding ranges_sep_def by blast
  show "c' \<le> u64_max" using assms(2) by (intro compact_pass_le [OF assms(1,3)]) (auto simp: ranges_sep_def)
qed

lemma compact_loop_spec:
  assumes "ranges_sep rs" "c \<le> u64_max" "compact_loop c rs = (c', rs')"
  shows "(x < c' \<or> ranges_cover rs' x \<longleftrightarrow> x < c \<or> ranges_cover rs x) \<and> ranges_sep rs' \<and> c' \<le> u64_max \<and>
     (\<forall>r \<in> set rs'. c' < fst r)"
  using assms
proof (induction c rs rule: compact_loop.induct)
  case (1 c rs)
  obtain c1 k1 p1 where p: "compact_pass c rs = (c1, k1, p1)" by (metis prod_cases3)
  note sep = compact_pass_sep [OF p "1.prems"(1,2)] and cov = compact_pass_cover [OF p, of x]
  show ?case
  proof (cases p1)
    case True
    then show ?thesis
      using "1.IH" [OF p [symmetric] refl True sep] "1.prems"(3) cov p by (simp add: compact_loop.simps [of c rs])
  next
    case False
    then have "c' = c1" "rs' = k1" using "1.prems"(3) p by (simp_all add: compact_loop.simps [of c rs])
    then show ?thesis using compact_pass_still [of c rs c1 k1] p False sep cov by simp
  qed
qed

lemma compacted_spec:
  assumes "ranges_sep (ranges t)" "cumulative t \<le> u64_max"
  shows "trk_inv (compacted t)" and "trk_acked (compacted t) x \<longleftrightarrow> trk_acked t x"
proof -
  obtain c1 k1 p1 where p: "compact_pass (cumulative t) (ranges t) = (c1, k1, p1)" by (metis prod_cases3)
  obtain c2 k2 where l: "compact_loop c1 k1 = (c2, k2)" by (metis surj_pair)
  note L = compact_loop_spec [OF compact_pass_sep [OF p assms] l, of x]
  have c: "compacted t = t\<lparr>cumulative := c2, ranges := k2\<rparr>" using p l by (simp add: compacted_def compactLocked_def)
  show "trk_inv (compacted t)" using L by (simp add: trk_inv_def c)
  show "trk_acked (compacted t) x \<longleftrightarrow> trk_acked t x"
    using L compact_pass_cover [OF p, of x] by (simp add: trk_acked_def c)
qed

lemma trk_inv_new: "trk_inv newAckTracker" "\<not> trk_acked newAckTracker x"
  by (simp_all add: trk_inv_def trk_acked_def newAckTracker_def ranges_sep_def)

lemma trk_fields: "trk_inv (t\<lparr>gen := g\<rparr>) = trk_inv t" "trk_acked (t\<lparr>gen := g\<rparr>) x = trk_acked t x"
  by (simp_all add: trk_inv_def trk_acked_def)

lemma trk_advance_spec:
  assumes "trk_inv t" "n \<le> u64_max"
  shows "trk_inv (trk_advance t n)" and "trk_acked (trk_advance t n) x \<longleftrightarrow> trk_acked t x \<or> x < n"
proof -
  let ?t = "t\<lparr>cumulative := n\<rparr>"
  have "ranges_sep (ranges ?t)" "cumulative ?t \<le> u64_max" using assms by (simp_all add: trk_inv_def)
  note c = compacted_spec [OF this]
  show "trk_inv (trk_advance t n)" using c(1) assms by (simp add: trk_advance_def Advance_def Let_def trk_fields)
  show "trk_acked (trk_advance t n) x \<longleftrightarrow> trk_acked t x \<or> x < n"
    using c(2) [of x] by (auto simp: trk_advance_def Advance_def Let_def trk_fields) (auto simp: trk_acked_def)
qed

lemma ranges_cover_filter:
  "x < c \<or> ranges_cover (filter (\<lambda>r. \<not> (snd r \<le> fst r \<or> snd r \<le> c)) rs) x \<longleftrightarrow> x < c \<or> ranges_cover rs x"
  by (fastforce simp: ranges_cover_def)

lemma trk_add_spec:
  assumes "trk_inv t" "\<forall>r \<in> set rs. snd r \<le> u64_max"
  shows "trk_inv (trk_add t rs)" and "trk_acked (trk_add t rs) x \<longleftrightarrow> trk_acked t x \<or> ranges_cover rs x"
proof -
  let ?new = "filter (\<lambda>r. \<not> (snd r \<le> fst r \<or> snd r \<le> cumulative t)) rs"
  let ?t = "t\<lparr>ranges := mergeLocked (ranges t @ ?new)\<rparr>"
  have "\<forall>r \<in> set (ranges t @ ?new). fst r < snd r \<and> snd r \<le> u64_max"
    using assms by (auto simp: trk_inv_def ranges_sep_def)
  note m = mergeLocked_spec [OF this]
  have "ranges_sep (ranges ?t)" "cumulative ?t \<le> u64_max" using assms m(1) by (simp_all add: trk_inv_def)
  note c = compacted_spec [OF this]
  show "trk_inv (trk_add t rs)" using c(1) assms by (simp add: trk_add_def ack_Add_def Let_def trk_fields)
  show "trk_acked (trk_add t rs) x \<longleftrightarrow> trk_acked t x \<or> ranges_cover rs x"
  proof (cases "rs = []")
    case True
    then show ?thesis by (simp add: trk_add_def ack_Add_def)
  next
    case False
    then have "trk_acked (trk_add t rs) x = trk_acked ?t x"
      using c(2) [of x] by (simp add: trk_add_def ack_Add_def Let_def trk_fields)
    then show ?thesis using m(2) [of x] ranges_cover_filter [of x "cumulative t" rs] by (auto simp: trk_acked_def)
  qed
qed

lemma cover_loop_iff:
  assumes "ranges_sep rs" "a < b"
  shows "cover_loop rs a b \<longleftrightarrow> (\<forall>x. a \<le> x \<and> x < b \<longrightarrow> ranges_cover rs x)"
  using assms
proof (induction rs arbitrary: a)
  case Nil
  then show ?case by auto
next
  case (Cons r rs)
  have sep: "ranges_sep rs" and r: "fst r < snd r" "\<And>s. s \<in> set rs \<Longrightarrow> snd r < fst s"
    using Cons.prems(1) by (auto simp: ranges_sep_def)
  have above: "\<not> ranges_cover rs x" if "x \<le> snd r" for x
    using r(2) that by (fastforce simp: ranges_cover_def)
  consider "a < fst r" | "fst r \<le> a" "a < snd r" "b \<le> snd r" | "fst r \<le> a" "a < snd r" "snd r < b" | "fst r \<le> a" "snd r \<le> a"
    by linarith
  then show ?case
  proof cases
    case 1
    then have "\<not> ranges_cover (r # rs) a" using above [of a] r(1) by simp
    then show ?thesis using 1 Cons.prems(2) by auto
  next
    case 2
    then show ?thesis by auto
  next
    case 3
    then have "\<not> ranges_cover (r # rs) (snd r)" using above [of "snd r"] by simp
    moreover have "\<not> cover_loop rs (snd r) b" using Cons.IH [OF sep 3(3)] above [of "snd r"] 3(3) by auto
    ultimately show ?thesis using 3 by (auto intro!: exI [of _ "snd r"])
  next
    case 4
    then show ?thesis using Cons.IH [OF sep Cons.prems(2)] by auto
  qed
qed

lemma coveredLocked_iff:
  assumes "trk_inv t"
  shows "coveredLocked t a b \<longleftrightarrow> (\<forall>x. a \<le> x \<and> x < b \<longrightarrow> trk_acked t x)"
proof (cases "b \<le> a \<or> b \<le> cumulative t")
  case True
  then show ?thesis by (auto simp: coveredLocked_def trk_acked_def)
next
  case False
  let ?a = "if a < cumulative t then cumulative t else a"
  have "cover_loop (ranges t) ?a b \<longleftrightarrow> (\<forall>x. ?a \<le> x \<and> x < b \<longrightarrow> ranges_cover (ranges t) x)"
    using assms False by (intro cover_loop_iff) (auto simp: trk_inv_def)
  moreover have "?a \<le> x \<longleftrightarrow> a \<le> x \<and> \<not> x < cumulative t" for x by auto
  ultimately show ?thesis using False unfolding coveredLocked_def trk_acked_def by auto
qed

interpretation acks: acked_set trk_inv trk_acked trk_advance trk_add Covered
  by unfold_locales (simp_all add: trk_advance_spec trk_add_spec coveredLocked_iff Covered_def)

lemma covers_Snapshot: "covers (ack_Snapshot t) a b = Covered t a b"
  by (simp add: covers_def ack_Snapshot_def Covered_def coveredLocked_def)

lemma foldl_top:
  "foldl (\<lambda>top r. if snd r > top then snd r else top) c rs = Max (insert c (snd ` set rs))"
proof (induction rs arbitrary: c)
  case (Cons r rs)
  have "Max (insert (if snd r > c then snd r else c) (snd ` set rs)) = Max (insert c (insert (snd r) (snd ` set rs)))"
    by (cases "snd ` set rs = {}") (auto simp: max_def)
  then show ?case using Cons by simp
qed simp

section \<open>Properties\<close>

text \<open>C7: The tracker's answers are exact whatever reports arrived: after any sequence of cumulative
  acknowledgements and range reports, in any order and with any repetition, a span is \<open>Covered\<close>
  exactly when each of its bytes was named by some report, and the snapshot's \<open>covers\<close> agrees.\<close>

theorem ack_tracker_exact:
  assumes "\<forall>p \<in> set reps. fst p \<le> u64_max \<and> (\<forall>r \<in> set (snd p). snd r \<le> u64_max)"
  shows "(Covered (acks.reports newAckTracker reps) a b \<longleftrightarrow>
       (\<forall>x. a \<le> x \<and> x < b \<longrightarrow> (\<exists>(n, rs) \<in> set reps. x < n \<or> ranges_cover rs x))) \<and>
     covers (ack_Snapshot (acks.reports newAckTracker reps)) a b = Covered (acks.reports newAckTracker reps) a b"
proof -
  have ok: "\<forall>p \<in> set reps. acks.report_ok p" using assms by (simp add: acks.report_ok_def)
  from acks.reports_acked [OF trk_inv_new(1) ok] show ?thesis
    using acks.covered_iff trk_inv_new(2) covers_Snapshot by simp
qed

text \<open>\<open>highest\<close> of a snapshot is the least bound of the acknowledged bytes: every acknowledged byte is
  below it, and the byte just before it is acknowledged unless nothing is.\<close>

theorem highest_is_bound:
  assumes "\<forall>p \<in> set reps. fst p \<le> u64_max \<and> (\<forall>r \<in> set (snd p). snd r \<le> u64_max)"
    and "t = acks.reports newAckTracker reps" and "0 < highest (ack_Snapshot t)"
  shows "(\<forall>x. Covered t x (x + 1) \<longrightarrow> x < highest (ack_Snapshot t)) \<and>
     Covered t (highest (ack_Snapshot t) - 1) (highest (ack_Snapshot t))"
proof -
  have inv: "trk_inv t" using acks.reports_acked [OF trk_inv_new(1)] assms(1,2) by (simp add: acks.report_ok_def)
  let ?S = "insert (cumulative t) (snd ` set (ranges t))"
  have h: "highest (ack_Snapshot t) = Max ?S" by (simp add: highest_def ack_Snapshot_def foldl_top)
  have one: "Covered t x (Suc x) \<longleftrightarrow> trk_acked t x" for x
    using acks.covered_iff [OF inv, of x "Suc x"] by (auto simp: less_Suc_eq)
  have below: "x < Max ?S" if "trk_acked t x" for x
  proof -
    have "\<exists>y \<in> ?S. x < y" using that by (force simp: trk_acked_def ranges_cover_def)
    then show ?thesis by (meson Max_ge finite.insertI finite_imageI finite_set less_le_trans)
  qed
  have last: "trk_acked t (snd r - 1)" if "r \<in> set (ranges t)" for r
    using inv that by (cases r) (fastforce simp: trk_inv_def ranges_sep_def trk_acked_def ranges_cover_def)
  have "Max ?S \<in> ?S" by (intro Max_in) auto
  then consider "Max ?S = cumulative t" | r where "r \<in> set (ranges t)" "Max ?S = snd r" by auto
  then have "trk_acked t (Max ?S - 1)"
  proof cases
    case 1
    then show ?thesis using assms(3) h by (simp add: trk_acked_def)
  next
    case 2
    then show ?thesis using last [of r] by simp
  qed
  then show ?thesis using one [of "Max ?S - 1"] one below assms(3) h by simp
qed

section \<open>Waiters\<close>

text \<open>
  The goroutines around one tracker. A waiter is a call of \<open>Wait\<close> or \<open>WaitChange\<close> with its own context;
  it is asleep on the condition variable or about to take a turn. Every critical section that
  broadcasts wakes all sleepers. A context that ends marks the waiter first (\<open>expire\<close>) and broadcasts
  later, from the goroutine \<^verbatim>\<open>context.AfterFunc\<close> starts (\<open>after_func\<close>).
\<close>

datatype wait_goal = ForRange nat nat | ForChange nat

record waiter =
  goal :: wait_goal
  ctx_done :: bool
  asleep :: bool

record ack_sys =
  tracker :: ackTracker
  waiting :: "waiter list"

definition take_turn :: "ackTracker \<Rightarrow> waiter \<Rightarrow> wait_result" where
  "take_turn t w =
     (case goal w of
        ForRange a b \<Rightarrow> wait_turn t a b (ctx_done w)
      | ForChange since \<Rightarrow> wait_change_turn t since (ctx_done w))"

definition wake_all :: "waiter list \<Rightarrow> waiter list" where
  "wake_all ws = map (\<lambda>w. w\<lparr>asleep := False\<rparr>) ws"

definition after_op :: "ack_sys \<Rightarrow> ackTracker \<times> bool \<Rightarrow> ack_sys" where
  "after_op s res = s\<lparr>tracker := fst res, waiting := (if snd res then wake_all (waiting s) else waiting s)\<rparr>"

inductive ack_step :: "ack_sys \<Rightarrow> ack_sys \<Rightarrow> bool" where
  advance: "n \<le> u64_max \<Longrightarrow> ack_step s (after_op s (Advance (tracker s) n))"
| add: "\<forall>r \<in> set rs. snd r \<le> u64_max \<Longrightarrow> ack_step s (after_op s (ack_Add (tracker s) rs))"
| touch: "ack_step s (after_op s (ack_Touch (tracker s), True))"
| close: "ack_step s (after_op s (ack_Close (tracker s), True))"
| arrive: "ack_step s (s\<lparr>waiting := \<lparr>goal = g, ctx_done = d, asleep = False\<rparr> # waiting s\<rparr>)"
| expire: "i < length (waiting s) \<Longrightarrow>
     ack_step s (s\<lparr>waiting := (waiting s)[i := (waiting s ! i)\<lparr>ctx_done := True\<rparr>]\<rparr>)"
| after_func: "i < length (waiting s) \<Longrightarrow> ctx_done (waiting s ! i) \<Longrightarrow>
     ack_step s (s\<lparr>waiting := wake_all (waiting s)\<rparr>)"
| sleep: "i < length (waiting s) \<Longrightarrow> \<not> asleep (waiting s ! i) \<Longrightarrow>
     take_turn (tracker s) (waiting s ! i) = Sleeping \<Longrightarrow>
     ack_step s (s\<lparr>waiting := (waiting s)[i := (waiting s ! i)\<lparr>asleep := True\<rparr>]\<rparr>)"
| finish: "i < length (waiting s) \<Longrightarrow> \<not> asleep (waiting s ! i) \<Longrightarrow>
     take_turn (tracker s) (waiting s ! i) \<noteq> Sleeping \<Longrightarrow>
     ack_step s (s\<lparr>waiting := take i (waiting s) @ drop (Suc i) (waiting s)\<rparr>)"

inductive ack_reachable :: "ack_sys \<Rightarrow> bool" where
  start: "ack_reachable \<lparr>tracker = newAckTracker, waiting = []\<rparr>"
| step: "ack_reachable s \<Longrightarrow> ack_step s t \<Longrightarrow> ack_reachable t"

text \<open>What a sleeper still waits for: no turn with a live context would end.\<close>

definition still_waits :: "ackTracker \<Rightarrow> waiter \<Rightarrow> bool" where
  "still_waits t w \<longleftrightarrow> take_turn t (w\<lparr>ctx_done := False\<rparr>) = Sleeping"

lemma no_broadcast_same: "snd (Advance t n) \<or> fst (Advance t n) = t" "snd (ack_Add t rs) \<or> fst (ack_Add t rs) = t"
  by (auto simp: Advance_def ack_Add_def Let_def)

definition ack_sys_inv :: "ack_sys \<Rightarrow> bool" where
  "ack_sys_inv s \<longleftrightarrow> trk_inv (tracker s) \<and> (\<forall>w \<in> set (waiting s). asleep w \<longrightarrow> still_waits (tracker s) w)"

lemma wake_all_awake: "w \<in> set (wake_all ws) \<Longrightarrow> \<not> asleep w"
  by (auto simp: wake_all_def)

lemma after_op_inv:
  assumes "ack_sys_inv s" "trk_inv (fst res)" "snd res \<or> fst res = tracker s"
  shows "ack_sys_inv (after_op s res)"
  using assms wake_all_awake by (auto simp: ack_sys_inv_def after_op_def)

lemma ack_step_inv: "ack_step s t \<Longrightarrow> ack_sys_inv s \<Longrightarrow> ack_sys_inv t"
proof (induction rule: ack_step.induct)
  case (advance n s)
  have "trk_inv (fst (Advance (tracker s) n))"
    using advance trk_advance_spec(1) [of "tracker s" n] by (simp add: trk_advance_def ack_sys_inv_def)
  then show ?case using no_broadcast_same(1) by (intro after_op_inv [OF advance.prems]) auto
next
  case (add rs s)
  have "trk_inv (fst (ack_Add (tracker s) rs))"
    using add trk_add_spec(1) [of "tracker s" rs] by (simp add: trk_add_def ack_sys_inv_def)
  then show ?case using no_broadcast_same(2) by (intro after_op_inv [OF add.prems]) auto
next
  case (touch s)
  then show ?case by (intro after_op_inv) (simp_all add: ack_sys_inv_def ack_Touch_def trk_inv_def)
next
  case (close s)
  then show ?case by (intro after_op_inv) (simp_all add: ack_sys_inv_def ack_Close_def trk_inv_def)
next
  case (arrive s g d)
  then show ?case by (simp add: ack_sys_inv_def)
next
  case (expire i s)
  then show ?case by (auto simp: ack_sys_inv_def still_waits_def set_conv_nth nth_list_update)
next
  case (after_func i s)
  then show ?case using wake_all_awake by (auto simp: ack_sys_inv_def)
next
  case (sleep i s)
  then have "still_waits (tracker s) ((waiting s ! i)\<lparr>asleep := True\<rparr>)"
    by (auto simp: still_waits_def take_turn_def wait_turn_def wait_change_turn_def split: wait_goal.splits if_splits)
  then show ?case using sleep by (auto simp: ack_sys_inv_def set_conv_nth nth_list_update)
next
  case (finish i s)
  then show ?case by (auto simp: ack_sys_inv_def dest: in_set_takeD in_set_dropD)
qed

lemma ack_reachable_inv: "ack_reachable s \<Longrightarrow> ack_sys_inv s"
proof (induction rule: ack_reachable.induct)
  case start
  then show ?case by (simp add: ack_sys_inv_def trk_inv_new)
next
  case (step s t)
  then show ?case by (blast intro: ack_step_inv)
qed

text \<open>No acknowledgement is slept through: in every reachable state, under any interleaving of
  reports, touches, cancellations, closing and waiters, a goroutine asleep in \<open>Wait\<close> waits for a range
  that is not covered yet, one asleep in \<open>WaitChange\<close> for a generation that has not moved, and the
  tracker is open.\<close>

theorem ack_no_missed_wakeup:
  assumes "ack_reachable s" and "w \<in> set (waiting s)" and "asleep w"
  shows "\<not> trk_closed (tracker s) \<and>
     (case goal w of
        ForRange a b \<Rightarrow> \<not> Covered (tracker s) a b
      | ForChange since \<Rightarrow> gen (tracker s) = since)"
  using ack_reachable_inv [OF assms(1)] assms(2,3)
  by (auto simp: ack_sys_inv_def still_waits_def take_turn_def wait_turn_def wait_change_turn_def Covered_def
      split: wait_goal.splits if_splits)

section \<open>Witnesses\<close>

definition sample_reports :: "(nat \<times> range list) list" where
  "sample_reports = [(2, [(4, 5)]), (0, [(2, 3), (8, 9)])]"

lemma sample_reports_ok: "\<forall>p \<in> set sample_reports. fst p \<le> u64_max \<and> (\<forall>r \<in> set (snd p). snd r \<le> u64_max)"
  by (simp add: sample_reports_def u64_max_def)

lemma sample_reports_state:
  "acks.reports newAckTracker sample_reports =
     \<lparr>cumulative = 3, ranges = [(4, 5), (8, 9)], trk_closed = False, gen = 3\<rparr>"
  by (simp add: sample_reports_def newAckTracker_def trk_advance_def trk_add_def Advance_def ack_Add_def
      mergeLocked_def compacted_def compactLocked_def compact_loop.simps add64_def Let_def)

theorem ack_tracker_exact_witness:
  "Covered (acks.reports newAckTracker sample_reports) 0 3 \<and> \<not> Covered (acks.reports newAckTracker sample_reports) 2 4"
proof -
  have "\<forall>x. 0 \<le> x \<and> x < 3 \<longrightarrow> (\<exists>(n, rs) \<in> set sample_reports. x < n \<or> ranges_cover rs x)"
    by (auto simp: sample_reports_def)
  moreover have "\<not> (\<exists>(n, rs) \<in> set sample_reports. 3 < n \<or> ranges_cover rs 3)"
    by (simp add: sample_reports_def)
  ultimately show ?thesis
    using ack_tracker_exact [OF sample_reports_ok, of 0 3] ack_tracker_exact [OF sample_reports_ok, of 2 4]
    by (auto dest!: spec [of _ "3::nat"])
qed

theorem highest_is_bound_witness:
  "Covered (acks.reports newAckTracker sample_reports) 8 9 \<and> highest (ack_Snapshot (acks.reports newAckTracker sample_reports)) = 9"
proof -
  have h: "highest (ack_Snapshot (acks.reports newAckTracker sample_reports)) = 9"
    by (simp add: sample_reports_state highest_def ack_Snapshot_def)
  then show ?thesis using highest_is_bound [OF sample_reports_ok refl] by simp
qed

definition sample_sleeper :: waiter where
  "sample_sleeper = \<lparr>goal = ForRange 0 4, ctx_done = False, asleep = True\<rparr>"

lemma sample_sleeper_reachable:
  "ack_reachable \<lparr>tracker = newAckTracker, waiting = [sample_sleeper]\<rparr>"
proof -
  let ?s0 = "\<lparr>tracker = newAckTracker, waiting = []\<rparr>"
  let ?s1 = "?s0\<lparr>waiting := \<lparr>goal = ForRange 0 4, ctx_done = False, asleep = False\<rparr> # waiting ?s0\<rparr>"
  have 1: "ack_reachable ?s1" by (rule ack_reachable.step [OF ack_reachable.start ack_step.arrive])
  have "ack_step ?s1 (?s1\<lparr>waiting := (waiting ?s1)[0 := (waiting ?s1 ! 0)\<lparr>asleep := True\<rparr>]\<rparr>)"
    by (rule ack_step.sleep) (simp_all add: take_turn_def wait_turn_def coveredLocked_def newAckTracker_def)
  from ack_reachable.step [OF 1 this] show ?thesis by (simp add: sample_sleeper_def)
qed

theorem ack_no_missed_wakeup_witness:
  "\<not> trk_closed newAckTracker \<and> \<not> Covered newAckTracker 0 4"
  using ack_no_missed_wakeup [OF sample_sleeper_reachable, of sample_sleeper] by (simp add: sample_sleeper_def)

end
