(* ===== verification/Memlimit.thy ===== *)
theory Memlimit
  imports Prelude
begin

text \<open>
  The byte budget of \<^verbatim>\<open>internal/memlimit/budget.go\<close>, shared by every flow of an endpoint. A nil
  \<^verbatim>\<open>*Budget\<close> (no limit) is \<open>None\<close>. The generation channel, which \<open>Release\<close> closes and replaces, is a
  counter: a waiter holds the number it saw, and its channel is closed when the counter has moved.
  \<open>Acquire\<close> is split where it gives up the mutex: \<open>acquire_begin\<close> up to the wait, \<open>acquire_woken\<close> and
  \<open>acquire_cancelled\<close> for the two arms of its \<^verbatim>\<open>select\<close>. A panic is the result \<open>None\<close> of \<open>Release\<close>.
  The interface \<open>byte_budget\<close> is what the reassembler and the scheduler rely on.
\<close>

section \<open>State and operations\<close>

record budget =
  capacity :: int
  used :: int
  peak :: int
  waiters :: int
  changed :: nat

datatype acquire_result = Acquired | ErrRequestTooLarge | CtxErr | Waiting nat

definition mem_new :: "int \<Rightarrow> budget option" where
  "mem_new cap =
     (if cap \<le> 0 then None
      else Some \<lparr>capacity = cap, used = 0, peak = 0, waiters = 0, changed = 0\<rparr>)"

definition take_bytes :: "budget \<Rightarrow> int \<Rightarrow> budget" where
  "take_bytes b n =
     b\<lparr>used := used b + n, peak := (if used b + n > peak b then used b + n else peak b)\<rparr>"

text \<open>One turn of the loop of \<open>Acquire\<close>, mutex held: cancellation wins over capacity.\<close>

definition acquire_turn :: "budget \<Rightarrow> int \<Rightarrow> bool \<Rightarrow> acquire_result \<times> budget" where
  "acquire_turn b n ctx_done =
     (if ctx_done then (CtxErr, b)
      else if n \<le> capacity b - used b then (Acquired, take_bytes b n)
      else (Waiting (changed b), b\<lparr>waiters := waiters b + 1\<rparr>))"

definition acquire_begin :: "budget option \<Rightarrow> int \<Rightarrow> bool \<Rightarrow> acquire_result \<times> budget option" where
  "acquire_begin mb n ctx_done =
     (case mb of
        None \<Rightarrow> (Acquired, None)
      | Some b \<Rightarrow>
          if n \<le> 0 then (Acquired, Some b)
          else if n > capacity b then (ErrRequestTooLarge, Some b)
          else map_prod id Some (acquire_turn b n ctx_done))"

definition acquire_woken :: "budget \<Rightarrow> int \<Rightarrow> bool \<Rightarrow> acquire_result \<times> budget" where
  "acquire_woken b n ctx_done = acquire_turn (b\<lparr>waiters := waiters b - 1\<rparr>) n ctx_done"

definition acquire_cancelled :: "budget \<Rightarrow> acquire_result \<times> budget" where
  "acquire_cancelled b = (CtxErr, b\<lparr>waiters := waiters b - 1\<rparr>)"

definition TryAcquire :: "budget option \<Rightarrow> int \<Rightarrow> bool \<times> budget option" where
  "TryAcquire mb n =
     (case mb of
        None \<Rightarrow> (True, None)
      | Some b \<Rightarrow>
          if n \<le> 0 then (True, Some b)
          else if n > capacity b - used b then (False, Some b)
          else (True, Some (take_bytes b n)))"

definition Release :: "budget option \<Rightarrow> int \<Rightarrow> budget option option" where
  "Release mb n =
     (case mb of
        None \<Rightarrow> Some None
      | Some b \<Rightarrow>
          if n \<le> 0 then Some (Some b)
          else if n > used b then None
          else Some (Some (b\<lparr>used := used b - n, changed := changed b + 1\<rparr>)))"

record mem_snapshot =
  snap_capacity :: int
  snap_used :: int
  snap_peak :: int
  snap_waiters :: int

definition mem_Snapshot :: "budget option \<Rightarrow> mem_snapshot" where
  "mem_Snapshot mb =
     (case mb of
        None \<Rightarrow> \<lparr>snap_capacity = 0, snap_used = 0, snap_peak = 0, snap_waiters = 0\<rparr>
      | Some b \<Rightarrow> \<lparr>snap_capacity = capacity b, snap_used = used b, snap_peak = peak b, snap_waiters = waiters b\<rparr>)"

section \<open>The interface of a budget\<close>

text \<open>
  \<open>holds b m\<close>: the budget still owes its clients the return of \<open>m\<close> bytes. A successful acquisition
  adds its size to everything held, a refused one changes nothing, and bytes that are held can be
  given back without a panic, leaving the rest held.
\<close>

locale byte_budget =
  fixes try_acquire :: "'b \<Rightarrow> int \<Rightarrow> bool \<times> 'b"
    and release :: "'b \<Rightarrow> int \<Rightarrow> 'b option"
    and holds :: "'b \<Rightarrow> int \<Rightarrow> bool"
  assumes acquire_holds: "try_acquire b n = (True, b') \<Longrightarrow> 0 \<le> n \<Longrightarrow> holds b m \<Longrightarrow> holds b' (m + n)"
    and acquire_refused: "try_acquire b n = (False, b') \<Longrightarrow> b' = b"
    and release_holds: "holds b m \<Longrightarrow> 0 \<le> n \<Longrightarrow> n \<le> m \<Longrightarrow> \<exists>b'. release b n = Some b' \<and> holds b' (m - n)"
begin

text \<open>Giving back a list of charges, as the teardown of a flow does.\<close>

fun release_all :: "'b \<Rightarrow> int list \<Rightarrow> 'b option" where
  "release_all b [] = Some b"
| "release_all b (n # ns) = (case release b n of None \<Rightarrow> None | Some b' \<Rightarrow> release_all b' ns)"

lemma release_all_holds:
  assumes "holds b (m + sum_list ns)" and "\<forall>n \<in> set ns. 0 \<le> n" and "0 \<le> m"
  shows "\<exists>b'. release_all b ns = Some b' \<and> holds b' m"
  using assms
proof (induction ns arbitrary: b)
  case Nil
  then show ?case by simp
next
  case (Cons n ns)
  then have nn: "0 \<le> n" "n \<le> m + sum_list (n # ns)" by (auto intro: add_nonneg_nonneg sum_list_nonneg)
  from release_holds [OF Cons.prems(1) nn] obtain b' where
    b': "release b n = Some b'" "holds b' (m + sum_list ns)" by auto
  with Cons show ?case by auto
qed

end

definition mem_wf :: "budget \<Rightarrow> bool" where
  "mem_wf b \<longleftrightarrow> 0 < capacity b \<and> 0 \<le> used b \<and> used b \<le> peak b \<and> peak b \<le> capacity b"

definition mem_holds :: "budget option \<Rightarrow> int \<Rightarrow> bool" where
  "mem_holds mb m \<longleftrightarrow> (case mb of None \<Rightarrow> True | Some b \<Rightarrow> mem_wf b \<and> m \<le> used b)"

interpretation mem: byte_budget TryAcquire Release mem_holds
  by unfold_locales
    (auto simp: TryAcquire_def Release_def mem_holds_def mem_wf_def take_bytes_def
      split: option.splits if_splits)

section \<open>Clients of one budget: reachable states\<close>

text \<open>
  The callers of a budget, any number of them: \<open>ledger\<close> lists the reservations handed out and not yet
  released, \<open>blocked\<close> the callers inside \<open>Acquire\<close>'s wait with their request and the generation they
  saw. Every step is one critical section. \<open>settle\<close> books the outcome of a turn of the loop.
\<close>

record mem_sys =
  budget_of :: budget
  ledger :: "int list"
  blocked :: "(int \<times> nat) list"

definition settle :: "mem_sys \<Rightarrow> int \<Rightarrow> acquire_result \<times> budget \<Rightarrow> mem_sys" where
  "settle s n r =
     (case r of
        (Acquired, b) \<Rightarrow> s\<lparr>budget_of := b, ledger := n # ledger s\<rparr>
      | (Waiting g, b) \<Rightarrow> s\<lparr>budget_of := b, blocked := (n, g) # blocked s\<rparr>
      | (_, b) \<Rightarrow> s\<lparr>budget_of := b\<rparr>)"

inductive mem_step :: "mem_sys \<Rightarrow> mem_sys \<Rightarrow> bool" where
  call: "0 < n \<Longrightarrow> acquire_begin (Some (budget_of s)) n d = (r, Some b) \<Longrightarrow>
     mem_step s (settle s n (r, b))"
| attempt: "0 < n \<Longrightarrow> TryAcquire (Some (budget_of s)) n = (True, Some b) \<Longrightarrow>
     mem_step s (s\<lparr>budget_of := b, ledger := n # ledger s\<rparr>)"
| wake: "(n, g) \<in> set (blocked s) \<Longrightarrow> g \<noteq> changed (budget_of s) \<Longrightarrow>
     mem_step s (settle (s\<lparr>blocked := remove1 (n, g) (blocked s)\<rparr>) n (acquire_woken (budget_of s) n d))"
| cancel: "(n, g) \<in> set (blocked s) \<Longrightarrow>
     mem_step s (s\<lparr>budget_of := snd (acquire_cancelled (budget_of s)), blocked := remove1 (n, g) (blocked s)\<rparr>)"
| give_back: "n \<in> set (ledger s) \<Longrightarrow> Release (Some (budget_of s)) n = Some (Some b) \<Longrightarrow>
     mem_step s (s\<lparr>budget_of := b, ledger := remove1 n (ledger s)\<rparr>)"

inductive mem_reachable :: "int \<Rightarrow> mem_sys \<Rightarrow> bool" for cap :: int where
  start: "mem_new cap = Some b \<Longrightarrow> mem_reachable cap \<lparr>budget_of = b, ledger = [], blocked = []\<rparr>"
| step: "mem_reachable cap s \<Longrightarrow> mem_step s t \<Longrightarrow> mem_reachable cap t"

text \<open>
  The invariant: the accounting is exact, the peak stays within the capacity, the waiter count is
  the number of blocked callers, and a caller blocked on the current generation asks for more than
  is free (no wake-up is lost).
\<close>

definition mem_inv :: "int \<Rightarrow> mem_sys \<Rightarrow> bool" where
  "mem_inv cap s \<longleftrightarrow>
     mem_wf (budget_of s) \<and> capacity (budget_of s) = cap \<and>
     used (budget_of s) = sum_list (ledger s) \<and> (\<forall>n \<in> set (ledger s). 0 < n) \<and>
     waiters (budget_of s) = int (length (blocked s)) \<and>
     (\<forall>(n, g) \<in> set (blocked s). 0 < n \<and> n \<le> cap \<and> g \<le> changed (budget_of s) \<and>
        (g = changed (budget_of s) \<longrightarrow> n > cap - used (budget_of s)))"

lemma sum_list_remove1_int: "(x::int) \<in> set xs \<Longrightarrow> sum_list (remove1 x xs) = sum_list xs - x"
  by (induction xs) auto

lemma length_remove1_int: "x \<in> set xs \<Longrightarrow> int (length (remove1 x xs)) = int (length xs) - 1"
  by (induction xs) (auto simp: length_remove1)

lemma set_remove1_D: "y \<in> set (remove1 x xs) \<Longrightarrow> y \<in> set xs"
  by (metis notin_set_remove1)

lemma mem_inv_settle:
  assumes "0 < n" "n \<le> cap"
    and "mem_wf b" "capacity b = cap" "used b = sum_list (ledger s)" "\<forall>n \<in> set (ledger s). 0 < n"
    and "waiters b = int (length (blocked s))"
    and "\<forall>(n, g) \<in> set (blocked s). 0 < n \<and> n \<le> cap \<and> g \<le> changed b \<and>
        (g = changed b \<longrightarrow> n > cap - used b)"
  shows "mem_inv cap (settle s n (acquire_turn b n d))"
  using assms
  by (auto simp: mem_inv_def settle_def acquire_turn_def take_bytes_def mem_wf_def)

lemma mem_step_inv:
  assumes "mem_step s t" and "mem_inv cap s"
  shows "mem_inv cap t"
  using assms
proof (induction rule: mem_step.induct)
  case (call n s d r b)
  show ?case
  proof (cases "n > cap")
    case True
    then show ?thesis using call by (auto simp: acquire_begin_def mem_inv_def settle_def)
  next
    case False
    then have "(r, b) = acquire_turn (budget_of s) n d"
      using call by (auto simp: acquire_begin_def mem_inv_def map_prod_def split: prod.splits)
    moreover have "mem_inv cap (settle s n (acquire_turn (budget_of s) n d))"
      using call(1,3) False unfolding mem_inv_def [of cap s] by (intro mem_inv_settle) auto
    ultimately show ?thesis by simp
  qed
next
  case (attempt n s b)
  then show ?case
    by (auto simp: mem_inv_def TryAcquire_def take_bytes_def mem_wf_def split: if_splits)
next
  case (wake n g s d)
  then show ?case
    unfolding acquire_woken_def
    by (intro mem_inv_settle)
      (auto simp: mem_inv_def mem_wf_def length_remove1_int dest!: set_remove1_D)
next
  case (cancel n g s)
  then show ?case
    by (auto simp: mem_inv_def mem_wf_def acquire_cancelled_def length_remove1_int dest!: set_remove1_D)
next
  case (give_back n s b)
  then have "0 < n" by (auto simp: mem_inv_def)
  then have b: "n \<le> used (budget_of s)"
    "b = (budget_of s)\<lparr>used := used (budget_of s) - n, changed := changed (budget_of s) + 1\<rparr>"
    using give_back by (auto simp: Release_def split: if_splits)
  show ?case
    using give_back(1,3) b \<open>0 < n\<close>
    by (auto simp: mem_inv_def mem_wf_def sum_list_remove1_int dest!: set_remove1_D)
qed

lemma mem_reachable_inv: "mem_reachable cap s \<Longrightarrow> mem_inv cap s"
proof (induction rule: mem_reachable.induct)
  case (start b)
  then show ?case by (auto simp: mem_new_def mem_inv_def mem_wf_def split: if_splits)
next
  case (step s t)
  then show ?case by (blast intro: mem_step_inv)
qed

text \<open>C3: In every reachable state of any number of concurrent callers the budget's hard limit holds and
  its accounting is exact: the bytes in use are the reservations handed out, they and the peak never
  pass the capacity, and returning any reservation that was handed out cannot panic.\<close>

theorem budget_hard_limit:
  assumes "mem_reachable cap s"
  shows "used (budget_of s) = sum_list (ledger s) \<and> 0 \<le> used (budget_of s) \<and>
     used (budget_of s) \<le> peak (budget_of s) \<and> peak (budget_of s) \<le> cap \<and>
     (\<forall>n \<in> set (ledger s). Release (Some (budget_of s)) n \<noteq> None)"
proof -
  have i: "mem_inv cap s" using assms by (rule mem_reachable_inv)
  have "Release (Some (budget_of s)) n \<noteq> None" if n: "n \<in> set (ledger s)" for n
  proof -
    have "0 \<le> sum_list (remove1 n (ledger s))"
      using i by (intro sum_list_nonneg) (auto simp: mem_inv_def dest!: set_remove1_D)
    then show ?thesis
      using i n by (auto simp: mem_inv_def Release_def sum_list_remove1_int)
  qed
  then show ?thesis using i by (auto simp: mem_inv_def mem_wf_def)
qed

text \<open>No wake-up is lost: in every reachable state a caller still blocked on the current generation
  asks for more than is free, and the waiter count is exact. A caller whose request has become
  satisfiable has therefore already been woken.\<close>

theorem budget_no_lost_wakeup:
  assumes "mem_reachable cap s" and "(n, g) \<in> set (blocked s)" and "n \<le> cap - used (budget_of s)"
  shows "g \<noteq> changed (budget_of s) \<and> waiters (budget_of s) = int (length (blocked s)) \<and>
     fst (acquire_woken (budget_of s) n False) = Acquired"
  using mem_reachable_inv [OF assms(1)] assms(2,3)
  by (auto simp: mem_inv_def acquire_woken_def acquire_turn_def)

text \<open>A concrete run: with a capacity of 4, one caller takes 3 bytes, a second blocks on 2, the first
  releases; the second is then on an old generation and would be admitted.\<close>

definition mem_run_held :: mem_sys where
  "mem_run_held = \<lparr>budget_of = \<lparr>capacity = 4, used = 3, peak = 3, waiters = 1, changed = 0\<rparr>,
     ledger = [3], blocked = [(2, 0)]\<rparr>"

definition mem_run_freed :: mem_sys where
  "mem_run_freed = \<lparr>budget_of = \<lparr>capacity = 4, used = 0, peak = 3, waiters = 1, changed = 1\<rparr>,
     ledger = [], blocked = [(2, 0)]\<rparr>"

lemma mem_run_held_reachable: "mem_reachable 4 mem_run_held"
proof -
  let ?b0 = "\<lparr>capacity = 4, used = 0, peak = 0, waiters = 0, changed = 0\<rparr> :: budget"
  let ?s0 = "\<lparr>budget_of = ?b0, ledger = [], blocked = []\<rparr> :: mem_sys"
  let ?b1 = "\<lparr>capacity = 4, used = 3, peak = 3, waiters = 0, changed = 0\<rparr> :: budget"
  let ?s1 = "\<lparr>budget_of = ?b1, ledger = [3], blocked = []\<rparr> :: mem_sys"
  have "mem_reachable 4 ?s0" by (rule mem_reachable.start) (simp add: mem_new_def)
  moreover have "mem_step ?s0 (?s0\<lparr>budget_of := ?b1, ledger := 3 # ledger ?s0\<rparr>)"
    by (rule mem_step.attempt) (simp_all add: TryAcquire_def take_bytes_def)
  ultimately have s1: "mem_reachable 4 ?s1" using mem_reachable.step by fastforce
  have "mem_step ?s1 (settle ?s1 2 (Waiting 0, ?b1\<lparr>waiters := 1\<rparr>))"
    by (rule mem_step.call [where d = False]) (simp_all add: acquire_begin_def acquire_turn_def)
  then show ?thesis
    using mem_reachable.step [OF s1] by (simp add: settle_def mem_run_held_def)
qed

lemma mem_run_freed_reachable: "mem_reachable 4 mem_run_freed"
proof -
  have "mem_step mem_run_held (mem_run_held\<lparr>budget_of := budget_of mem_run_freed,
      ledger := remove1 3 (ledger mem_run_held)\<rparr>)"
    by (rule mem_step.give_back) (simp_all add: mem_run_held_def mem_run_freed_def Release_def)
  then show ?thesis
    using mem_reachable.step [OF mem_run_held_reachable]
    by (simp add: mem_run_held_def mem_run_freed_def)
qed

theorem budget_hard_limit_witness:
  "used (budget_of mem_run_held) = 3 \<and> peak (budget_of mem_run_held) \<le> 4 \<and>
   Release (Some (budget_of mem_run_held)) 3 \<noteq> None"
  using budget_hard_limit [OF mem_run_held_reachable] by (simp add: mem_run_held_def)

theorem budget_no_lost_wakeup_witness:
  "(0::nat) \<noteq> changed (budget_of mem_run_freed) \<and>
   fst (acquire_woken (budget_of mem_run_freed) 2 False) = Acquired"
  using budget_no_lost_wakeup [OF mem_run_freed_reachable, of 2 0] by (simp add: mem_run_freed_def)

end
