(* ===== verification/Reassembly.thy ===== *)
theory Reassembly
  imports Memlimit "HOL-Library.AList"
begin

text \<open>
  The ordered reassembler of \<^verbatim>\<open>internal/multipath/reassembly.go\<close>: segments of one byte stream arrive on
  several lanes in any order and leave as the contiguous prefix. A \<^verbatim>\<open>uint64\<close> is a natural number and
  every sum of two is taken modulo \<open>2 ^ 64\<close> (\<open>add64\<close>); a Go \<^verbatim>\<open>int\<close> is an \<open>int\<close>. The buffer map is an
  association list with distinct keys, so that its length is \<^verbatim>\<open>len(r.buffer)\<close>. A slice passed as
  owned or copied has the same contents, so \<open>Insert\<close> and \<open>InsertOwned\<close> share \<open>reasm_insert\<close>. The shared
  memory budget is part of the state, and the panic of its \<open>Release\<close> is the error \<open>PanicRelease\<close>.
\<close>

section \<open>State\<close>

record reasm_config =
  MaxBufferedBytes :: nat
  MaxBufferedFrames :: int
  Memory :: "budget option"

definition reasm_DefaultConfig :: reasm_config where
  "reasm_DefaultConfig =
     \<lparr>MaxBufferedBytes = 8 * 1024 * 1024, MaxBufferedFrames = 4096, Memory = None\<rparr>"

record segment =
  sSequence :: nat
  sPayload :: bytes
  sFinal :: bool
  sCharged :: bool

record reassembler =
  rCfg :: reasm_config
  rNext :: nat
  rBuffer :: "(nat \<times> segment) list"
  rOrder :: "nat list"
  rBytes :: nat
  rFinalAt :: "nat option"
  rMemory :: "budget option"

datatype reasm_error =
    FinWithPayload
  | EmptyData
  | ErrSequence
  | OverlapsCursor
  | ConflictingDuplicate
  | OverlappingSegments
  | FinConflict
  | ErrWindowExceeded
  | ErrMemoryBudget
  | CursorMismatch
  | PanicRelease
  | OutOfFuel

definition NewReassembler :: "reasm_config \<Rightarrow> reassembler" where
  "NewReassembler cfg =
     (let cfg' = (if MaxBufferedBytes cfg = 0 \<or> MaxBufferedFrames cfg \<le> 0 then reasm_DefaultConfig else cfg)
      in \<lparr>rCfg = cfg', rNext = 0, rBuffer = [], rOrder = [], rBytes = 0, rFinalAt = None,
          rMemory = Memory cfg'\<rparr>)"

definition NextSequence :: "reassembler \<Rightarrow> nat" where "NextSequence r = rNext r"
definition BufferedBytes :: "reassembler \<Rightarrow> nat" where "BufferedBytes r = rBytes r"
definition BufferedFrames :: "reassembler \<Rightarrow> nat" where "BufferedFrames r = length (rBuffer r)"

definition Closed :: "reassembler \<Rightarrow> bool" where
  "Closed r \<longleftrightarrow> (case rFinalAt r of None \<Rightarrow> False | Some at \<Rightarrow> rNext r \<ge> at)"

section \<open>The sorted index\<close>

definition zero_segment :: segment where
  "zero_segment = \<lparr>sSequence = 0, sPayload = [], sFinal = False, sCharged = False\<rparr>"

text \<open>\<^verbatim>\<open>r.buffer[k]\<close> without the second result: the zero value for an absent key.\<close>

definition buf_at :: "(nat \<times> segment) list \<Rightarrow> nat \<Rightarrow> segment" where
  "buf_at buf k = (case map_of buf k of None \<Rightarrow> zero_segment | Some s \<Rightarrow> s)"

definition checkNeighbours :: "reassembler \<Rightarrow> segment \<Rightarrow> nat \<Rightarrow> reasm_error option" where
  "checkNeighbours r s end =
     (let at = lower_bound (rOrder r) (sSequence s);
          previous = buf_at (rBuffer r) (rOrder r ! (at - 1));
          previousEnd = (if sFinal previous then sSequence previous
                         else add64 (sSequence previous) (length (sPayload previous)));
          next = buf_at (rBuffer r) (rOrder r ! at)
      in if at > 0 \<and> sSequence s < previousEnd then Some OverlappingSegments
         else if at < length (rOrder r) \<and> sSequence next < end then Some OverlappingSegments
         else if at < length (rOrder r) \<and> sFinal s \<and> sSequence next = sSequence s then Some FinConflict
         else None)"

definition insertOrder :: "nat list \<Rightarrow> nat \<Rightarrow> nat list" where
  "insertOrder order sequence = insert_at (lower_bound order sequence) sequence order"

definition removeOrder :: "nat list \<Rightarrow> nat \<Rightarrow> nat list" where
  "removeOrder order sequence =
     (let at = lower_bound order sequence in
      if at < length order \<and> order ! at = sequence then remove_at at order else order)"

section \<open>Draining the contiguous chain\<close>

text \<open>
  The first loop of \<open>consumeContiguous\<close> measures the chain and changes nothing. It follows map
  entries, so its recursion is bounded by fuel; one more than the number of buffered segments is
  enough (\<open>chain_scan_total\<close>).
\<close>

fun chain_scan :: "nat \<Rightarrow> (nat \<times> segment) list \<Rightarrow> segment \<Rightarrow> nat \<Rightarrow> nat \<Rightarrow> nat \<Rightarrow> reasm_error + nat \<times> nat" where
  "chain_scan 0 buf current cursor dataSegments tot = Inl OutOfFuel"
| "chain_scan (Suc fuel) buf current cursor dataSegments tot =
     (if sSequence current \<noteq> cursor then Inl CursorMismatch
      else if sFinal current then Inr (dataSegments, tot)
      else let cursor' = add64 cursor (length (sPayload current)) in
        case map_of buf cursor' of
          None \<Rightarrow> Inr (dataSegments + 1, tot + length (sPayload current))
        | Some next \<Rightarrow> chain_scan fuel buf next cursor' (dataSegments + 1) (tot + length (sPayload current)))"

text \<open>\<^verbatim>\<open>copy(output[written:], payload)\<close> overwrites in place and reports how much fitted.\<close>

definition copy_at :: "bytes \<Rightarrow> nat \<Rightarrow> bytes \<Rightarrow> bytes" where
  "copy_at out written p =
     take written out @ take (length out - written) p @ drop (written + length p) out"

text \<open>The second loop: release the charge, advance the cursor, unlink the next segment.\<close>

function drain :: "reassembler \<Rightarrow> segment \<Rightarrow> nat \<Rightarrow> nat \<Rightarrow> bytes \<Rightarrow> nat \<Rightarrow>
    (reasm_error + bytes \<times> bool) \<times> reassembler" where
  "drain r current first_seq dataSegments output written =
     (if sFinal current then (Inr (output, True), r\<lparr>rFinalAt := Some (sSequence current)\<rparr>)
      else
        let p = sPayload current;
            copying = (sSequence current \<noteq> first_seq \<and> dataSegments > 1);
            output' = (if copying then copy_at output written p else output);
            written' = (if copying then written + min (length output - written) (length p) else written)
        in case (if sCharged current then Release (rMemory r) (int (length p)) else Some (rMemory r)) of
             None \<Rightarrow> (Inl PanicRelease, r)
           | Some mem \<Rightarrow>
               let r1 = r\<lparr>rMemory := mem, rNext := add64 (rNext r) (length p)\<rparr> in
               case map_of (rBuffer r1) (rNext r1) of
                 None \<Rightarrow> (Inr (output', Closed r1), r1)
               | Some next \<Rightarrow>
                   drain (r1\<lparr>rBuffer := AList.delete (rNext r1) (rBuffer r1),
                             rOrder := removeOrder (rOrder r1) (rNext r1),
                             rBytes := rBytes r1 - length (sPayload next)\<rparr>)
                     next first_seq dataSegments output' written')"
  by pat_completeness auto
termination
proof (relation "measure (\<lambda>(r, _). length (rBuffer r))", goal_cases)
  case 1
  show ?case by simp
next
  case (2 r current first_seq dataSegments out written p copying out' written' mem r1 nxt)
  then have "rNext r1 \<in> fst ` set (rBuffer r1)" by (auto simp: dest: map_of_SomeD intro: rev_image_eqI)
  then have "length (AList.delete (rNext r1) (rBuffer r1)) < length (rBuffer r1)"
    by (auto simp: AList.delete_eq intro!: length_filter_less)
  then show ?case using 2 by simp
qed

declare drain.simps [simp del]

definition consumeContiguous :: "reassembler \<Rightarrow> segment \<Rightarrow> (reasm_error + bytes \<times> bool) \<times> reassembler" where
  "consumeContiguous r first =
     (if sSequence first \<noteq> rNext r then (Inl CursorMismatch, r)
      else case chain_scan (Suc (length (rBuffer r))) (rBuffer r) first (sSequence first) 0 0 of
        Inl err \<Rightarrow> (Inl err, r)
      | Inr (dataSegments, tot) \<Rightarrow>
          let output = (if dataSegments = 1 then sPayload first
                        else if dataSegments > 1 then copy_at (replicate tot 0) 0 (sPayload first)
                        else [])
          in drain r first (sSequence first) dataSegments output (length (sPayload first)))"

section \<open>Insert, Close and the acknowledgement ranges\<close>

definition reasm_insert :: "reassembler \<Rightarrow> segment \<Rightarrow> (reasm_error + bytes \<times> bool) \<times> reassembler" where
  "reasm_insert r s =
     (let len = length (sPayload s) in
      if sFinal s \<and> len \<noteq> 0 then (Inl FinWithPayload, r)
      else if \<not> sFinal s \<and> len = 0 then (Inl EmptyData, r)
      else if sSequence s > u64_max - len then (Inl ErrSequence, r)
      else
        let end = (if sFinal s then sSequence s else add64 (sSequence s) len) in
        if end < rNext r \<or> (sFinal s \<and> sSequence s < rNext r) then
          (if end \<le> rNext r then (Inr ([], Closed r), r) else (Inl OverlapsCursor, r))
        else case map_of (rBuffer r) (sSequence s) of
          Some existing \<Rightarrow>
            (if sFinal existing = sFinal s \<and> sPayload existing = sPayload s
             then (Inr ([], Closed r), r) else (Inl ConflictingDuplicate, r))
        | None \<Rightarrow>
            (case checkNeighbours r s end of
               Some err \<Rightarrow> (Inl err, r)
             | None \<Rightarrow>
                 if sSequence s \<noteq> rNext r then
                   (if int (length (rBuffer r)) + 1 > MaxBufferedFrames (rCfg r) \<or>
                       add64 (rBytes r) len > MaxBufferedBytes (rCfg r)
                    then (Inl ErrWindowExceeded, r)
                    else case TryAcquire (rMemory r) (int len) of
                      (False, mem) \<Rightarrow> (Inl ErrMemoryBudget, r\<lparr>rMemory := mem\<rparr>)
                    | (True, mem) \<Rightarrow>
                        let r1 = r\<lparr>rMemory := mem,
                              rBuffer := AList.update (sSequence s) (s\<lparr>sCharged := True\<rparr>) (rBuffer r),
                              rOrder := insertOrder (rOrder r) (sSequence s),
                              rBytes := add64 (rBytes r) len,
                              rFinalAt := (if sFinal s then Some (sSequence s) else rFinalAt r)\<rparr>
                        in (Inr ([], Closed r1), r1))
                 else consumeContiguous r s))"

text \<open>
  \<open>Close\<close> ranges over the map in an order Go leaves open; the releases commute, so the model takes the
  buffer's own order.
\<close>

fun close_loop :: "budget option \<Rightarrow> (nat \<times> segment) list \<Rightarrow> budget option option" where
  "close_loop mem [] = Some mem"
| "close_loop mem ((k, s) # rest) =
     (if sCharged s then
        (case Release mem (int (length (sPayload s))) of
           None \<Rightarrow> None
         | Some mem' \<Rightarrow> close_loop mem' rest)
      else close_loop mem rest)"

definition reasm_Close :: "reassembler \<Rightarrow> reassembler option" where
  "reasm_Close r =
     (case close_loop (rMemory r) (rBuffer r) of
        None \<Rightarrow> None
      | Some mem \<Rightarrow> Some (r\<lparr>rMemory := mem, rBuffer := [], rOrder := [], rBytes := 0\<rparr>))"

definition BufferedSequences :: "reassembler \<Rightarrow> nat list" where
  "BufferedSequences r = rOrder r"

fun merge_ranges :: "(nat \<times> segment) list \<Rightarrow> nat list \<Rightarrow> (nat \<times> nat) list \<Rightarrow> (nat \<times> nat) list" where
  "merge_ranges buf [] ranges = ranges"
| "merge_ranges buf (start # order) ranges =
     (let segment = buf_at buf start; end = add64 start (length (sPayload segment)) in
      if sFinal segment then merge_ranges buf order ranges
      else if ranges \<noteq> [] \<and> snd (last ranges) = start
      then merge_ranges buf order (butlast ranges @ [(fst (last ranges), end)])
      else merge_ranges buf order (ranges @ [(start, end)]))"

definition ReceivedRanges :: "reassembler \<Rightarrow> int \<Rightarrow> (nat \<times> nat) list" where
  "ReceivedRanges r limit =
     (if limit \<le> 0 \<or> rBuffer r = [] then []
      else let ranges = merge_ranges (rBuffer r) (rOrder r) [] in
        if int (length ranges) > limit then take (nat limit) ranges else ranges)"

section \<open>The invariant\<close>

definition seg_wf :: "nat \<Rightarrow> segment \<Rightarrow> bool" where
  "seg_wf k s \<longleftrightarrow> sSequence s = k \<and> sCharged s \<and> (sFinal s \<longleftrightarrow> sPayload s = []) \<and>
     k + length (sPayload s) \<le> u64_max"

text \<open>\<open>apart\<close>: a range \<open>[a, b)\<close> that starts at no buffered key overlaps no buffered segment.\<close>

definition apart :: "(nat \<times> segment) list \<Rightarrow> nat \<Rightarrow> nat \<Rightarrow> bool" where
  "apart buf a b \<longleftrightarrow> (\<forall>k s. map_of buf k = Some s \<longrightarrow>
     (k < a \<longrightarrow> k + length (sPayload s) \<le> a) \<and> (a < k \<longrightarrow> b \<le> k))"

definition buf_ok :: "(nat \<times> segment) list \<Rightarrow> bool" where
  "buf_ok buf \<longleftrightarrow> distinct (map fst buf) \<and>
     (\<forall>k s. map_of buf k = Some s \<longrightarrow> seg_wf k s \<and> apart buf k (k + length (sPayload s)))"

definition order_ok :: "nat list \<Rightarrow> (nat \<times> segment) list \<Rightarrow> bool" where
  "order_ok order buf \<longleftrightarrow> sorted_wrt (<) order \<and> set order = fst ` set buf"

definition buf_bytes :: "(nat \<times> segment) list \<Rightarrow> nat" where
  "buf_bytes buf = sum_list (map (\<lambda>(k, s). length (sPayload s)) buf)"

definition reasm_inv :: "reassembler \<Rightarrow> bool" where
  "reasm_inv r \<longleftrightarrow> buf_ok (rBuffer r) \<and> order_ok (rOrder r) (rBuffer r) \<and>
     rBytes r = buf_bytes (rBuffer r) \<and> rNext r \<le> u64_max \<and> map_of (rBuffer r) (rNext r) = None \<and>
     rBytes r \<le> MaxBufferedBytes (rCfg r) \<and> int (length (rBuffer r)) \<le> MaxBufferedFrames (rCfg r)"

lemma buf_at_Some [simp]: "map_of buf k = Some s \<Longrightarrow> buf_at buf k = s"
  by (simp add: buf_at_def)

lemma order_ok_key: "order_ok order buf \<Longrightarrow> k \<in> set order \<Longrightarrow> \<exists>s. map_of buf k = Some s"
  by (auto simp: order_ok_def map_of_eq_None_iff dest: weak_map_of_SomeI)

lemma order_ok_keyI: "order_ok order buf \<Longrightarrow> map_of buf k = Some s \<Longrightarrow> k \<in> set order"
  by (auto simp: order_ok_def dest: map_of_SomeD intro: rev_image_eqI)

text \<open>The two-neighbour check against the full scan.\<close>

lemma checkNeighbours_None:
  assumes buf: "buf_ok (rBuffer r)" and ord: "order_ok (rOrder r) (rBuffer r)"
    and new: "map_of (rBuffer r) (sSequence s) = None" and e: "sSequence s \<le> e"
  shows "checkNeighbours r s e = None \<longleftrightarrow> apart (rBuffer r) (sSequence s) e"
    and "checkNeighbours r s e \<noteq> None \<Longrightarrow> checkNeighbours r s e = Some OverlappingSegments"
proof -
  let ?B = "rBuffer r" and ?O = "rOrder r" and ?q = "sSequence s"
  let ?at = "lower_bound ?O ?q"
  have so: "sorted_wrt (<) ?O" using ord by (simp add: order_ok_def)
  have wf: "seg_wf k p" "apart ?B k (k + length (sPayload p))" if "map_of ?B k = Some p" for k p
    using buf that by (auto simp: buf_ok_def)
  define prev where "prev = buf_at ?B (?O ! (?at - 1))"
  define nxt where "nxt = buf_at ?B (?O ! ?at)"
  have P: "sSequence prev = ?O ! (?at - 1) \<and> map_of ?B (?O ! (?at - 1)) = Some prev \<and>
      (if sFinal prev then sSequence prev else add64 (sSequence prev) (length (sPayload prev)))
        = ?O ! (?at - 1) + length (sPayload prev)" if at: "0 < ?at"
  proof -
    obtain p where p: "map_of ?B (?O ! (?at - 1)) = Some p"
      using order_ok_key [OF ord lower_bound_prev(1) [OF so at]] by blast
    then show ?thesis using wf(1) [OF p] by (auto simp: prev_def seg_wf_def add64_small)
  qed
  have N: "sSequence nxt = ?O ! ?at \<and> map_of ?B (?O ! ?at) = Some nxt \<and> ?q < ?O ! ?at" if at: "?at < length ?O"
  proof -
    obtain p where p: "map_of ?B (?O ! ?at) = Some p"
      using order_ok_key [OF ord lower_bound_next(1) [OF so at]] by blast
    moreover have "?O ! ?at \<noteq> ?q" using p new by auto
    ultimately show ?thesis
      using wf(1) [OF p] lower_bound_next(2) [OF so at] by (auto simp: nxt_def seg_wf_def)
  qed
  define A where "A \<longleftrightarrow> 0 < ?at \<and> ?q < ?O ! (?at - 1) + length (sPayload prev)"
  define B where "B \<longleftrightarrow> ?at < length ?O \<and> ?O ! ?at < e"
  have eq: "checkNeighbours r s e =
     (if A then Some OverlappingSegments else if B then Some OverlappingSegments else None)"
  proof -
    have g: "(?at < length ?O \<and> sFinal s \<and> sSequence nxt = ?q) = False"
      "(?at < length ?O \<and> sSequence nxt < e) = (?at < length ?O \<and> ?O ! ?at < e)"
      "(0 < ?at \<and> ?q < (if sFinal prev then sSequence prev else add64 (sSequence prev) (length (sPayload prev))))
       = (0 < ?at \<and> ?q < ?O ! (?at - 1) + length (sPayload prev))"
      using N P by (fastforce, metis+)
    show ?thesis
      unfolding checkNeighbours_def Let_def prev_def [symmetric] nxt_def [symmetric] g A_def B_def if_False ..
  qed
  show "checkNeighbours r s e \<noteq> None \<Longrightarrow> checkNeighbours r s e = Some OverlappingSegments"
    unfolding eq by (auto split: if_splits)
  show "checkNeighbours r s e = None \<longleftrightarrow> apart ?B ?q e"
  proof
    assume "checkNeighbours r s e = None"
    then have "\<not> A" "\<not> B" unfolding eq by (auto split: if_splits)
    then have lo: "0 < ?at \<Longrightarrow> ?O ! (?at - 1) + length (sPayload prev) \<le> ?q"
      and hi: "?at < length ?O \<Longrightarrow> e \<le> ?O ! ?at"
      by (auto simp: A_def B_def)
    show "apart ?B ?q e" unfolding apart_def
    proof (intro allI impI conjI)
      fix k p assume k: "map_of ?B k = Some p"
      note kO = order_ok_keyI [OF ord k]
      { assume "k < ?q"
        then have at: "0 < ?at" using lower_bound_none_below [OF so _ kO] by fastforce
        have kp: "k \<le> ?O ! (?at - 1)" using lower_bound_prev(3) [OF so at kO \<open>k < ?q\<close>] .
        show "k + length (sPayload p) \<le> ?q"
        proof (cases "k = ?O ! (?at - 1)")
          case True
          with P [OF at] k lo [OF at] show ?thesis by simp
        next
          case False
          then have "k + length (sPayload p) \<le> ?O ! (?at - 1)"
            using wf(2) [OF k] P [OF at] kp unfolding apart_def by (meson le_neq_implies_less)
          then show ?thesis using lower_bound_prev(2) [OF so at] by simp
        qed }
      { assume "?q < k"
        then have at: "?at < length ?O" using lower_bound_none_above [OF so _ kO] by fastforce
        show "e \<le> k" using hi [OF at] lower_bound_next(3) [OF so at kO] \<open>?q < k\<close> by simp }
    qed
  next
    assume a: "apart ?B ?q e"
    have "\<not> A" using P lower_bound_prev(2) [OF so] a unfolding A_def apart_def by (metis not_le)
    moreover have "\<not> B" using N a unfolding B_def apart_def by (metis not_le)
    ultimately show "checkNeighbours r s e = None" by (simp add: eq)
  qed
qed

section \<open>The contiguous chain\<close>

text \<open>
  The segments one arrival at the cursor releases: itself, then the buffered segment that starts
  where it ends, and so on, ending at a gap or at the FIN. \<open>cur_ok\<close> is what both loops of
  \<open>consumeContiguous\<close> keep of the segment in hand.
\<close>

function chain :: "(nat \<times> segment) list \<Rightarrow> segment \<Rightarrow> segment list" where
  "chain buf cur =
     (if sFinal cur then [cur]
      else case map_of buf (sSequence cur + length (sPayload cur)) of
        None \<Rightarrow> [cur]
      | Some nxt \<Rightarrow> cur # chain (AList.delete (sSequence cur + length (sPayload cur)) buf) nxt)"
  by pat_completeness auto
termination
proof (relation "measure (\<lambda>(buf, _). length buf)", goal_cases)
  case 1
  show ?case by simp
next
  case (2 buf cur nxt)
  then have "sSequence cur + length (sPayload cur) \<in> fst ` set buf"
    by (auto dest: map_of_SomeD intro: rev_image_eqI)
  then show ?case by (auto simp: AList.delete_eq intro!: length_filter_less)
qed

declare chain.simps [simp del]

definition chain_bytes :: "segment list \<Rightarrow> bytes" where
  "chain_bytes cs = concat (map sPayload cs)"

definition cur_ok :: "(nat \<times> segment) list \<Rightarrow> segment \<Rightarrow> bool" where
  "cur_ok buf cur \<longleftrightarrow> (sFinal cur \<longleftrightarrow> sPayload cur = []) \<and>
     sSequence cur + length (sPayload cur) \<le> u64_max \<and> map_of buf (sSequence cur) = None \<and>
     apart buf (sSequence cur) (sSequence cur + length (sPayload cur))"

lemma buf_ok_delete: "buf_ok buf \<Longrightarrow> buf_ok (AList.delete k buf)"
  by (auto simp: buf_ok_def apart_def AList.delete_conv AList.distinct_delete split: if_splits)

lemma order_ok_delete:
  assumes "order_ok order buf" and "map_of buf k = Some s"
  shows "order_ok (removeOrder order k) (AList.delete k buf)"
proof -
  have so: "sorted_wrt (<) order" and k: "k \<in> set order"
    using assms order_ok_keyI by (auto simp: order_ok_def)
  have "removeOrder order k = filter (\<lambda>y. y \<noteq> k) order"
    using remove_at_lower_bound [OF so k] by (simp add: removeOrder_def)
  then show ?thesis
    using assms(1) by (auto simp: order_ok_def sorted_wrt_filter AList.delete_eq)
qed

lemma buf_bytes_delete:
  "distinct (map fst buf) \<Longrightarrow> map_of buf k = Some s \<Longrightarrow>
     buf_bytes buf = buf_bytes (AList.delete k buf) + length (sPayload s)"
proof (induction buf)
  case Nil
  then show ?case by simp
next
  case (Cons a buf)
  obtain k' s' where a: "a = (k', s')" by (cases a)
  show ?case
  proof (cases "k' = k")
    case True
    then have "AList.delete k buf = buf" using Cons.prems a by (auto simp: AList.delete_eq filter_id_conv rev_image_eqI)
    then show ?thesis using Cons.prems a True by (simp add: buf_bytes_def AList.delete_eq)
  next
    case False
    then show ?thesis using Cons a by (simp add: buf_bytes_def AList.delete_eq)
  qed
qed

lemma cur_ok_next:
  assumes "buf_ok buf" and "cur_ok buf cur" and "\<not> sFinal cur"
    and nxt: "map_of buf (sSequence cur + length (sPayload cur)) = Some nxt"
  shows "cur_ok (AList.delete (sSequence cur + length (sPayload cur)) buf) nxt"
    and "sSequence nxt = sSequence cur + length (sPayload cur)" and "sSequence cur < sSequence nxt"
    and "sCharged nxt"
proof -
  have w: "seg_wf (sSequence cur + length (sPayload cur)) nxt"
    "apart buf (sSequence cur + length (sPayload cur))
      (sSequence cur + length (sPayload cur) + length (sPayload nxt))"
    using assms(1) nxt by (auto simp: buf_ok_def)
  then show q: "sSequence nxt = sSequence cur + length (sPayload cur)" and "sCharged nxt"
    by (auto simp: seg_wf_def)
  show "sSequence cur < sSequence nxt" using assms(2,3) q by (auto simp: cur_ok_def)
  show "cur_ok (AList.delete (sSequence cur + length (sPayload cur)) buf) nxt"
    using w q by (auto simp: cur_ok_def seg_wf_def apart_def AList.delete_conv)
qed

lemma chain_Cons:
  assumes "\<not> sFinal cur" and "map_of buf (sSequence cur + length (sPayload cur)) = Some nxt"
  shows "chain buf cur = cur # chain (AList.delete (sSequence cur + length (sPayload cur)) buf) nxt"
  using assms by (simp add: chain.simps [of buf cur])

lemma chain_end:
  "sFinal cur \<or> map_of buf (sSequence cur + length (sPayload cur)) = None \<Longrightarrow> chain buf cur = [cur]"
  by (auto simp: chain.simps [of buf cur])

lemma chain_nonempty: "chain buf cur \<noteq> []"
  by (auto simp: chain.simps [of buf cur] split: option.splits)

text \<open>The measuring loop computes the chain's size; its fuel is enough.\<close>

lemma chain_scan_total:
  assumes "buf_ok buf" and "cur_ok buf cur"
    and "\<And>k. sSequence cur < k \<Longrightarrow> map_of full k = map_of buf k" and "length buf < fuel"
  shows "chain_scan fuel full cur (sSequence cur) d t =
     Inr (d + length (filter (\<lambda>c. \<not> sFinal c) (chain buf cur)), t + length (chain_bytes (chain buf cur)))"
  using assms
proof (induction buf cur arbitrary: fuel d t rule: chain.induct)
  case (1 buf cur)
  let ?k = "sSequence cur + length (sPayload cur)"
  obtain f where f: "fuel = Suc f" using "1.prems"(4) by (cases fuel) auto
  have fin: "sFinal cur \<Longrightarrow> sPayload cur = []" using "1.prems"(2) by (auto simp: cur_ok_def)
  have add: "add64 (sSequence cur) (length (sPayload cur)) = ?k"
    using "1.prems"(2) by (auto simp: cur_ok_def add64_small)
  show ?case
  proof (cases "sFinal cur")
    case True
    then show ?thesis using fin by (simp add: f chain_end chain_bytes_def)
  next
    case False
    then have pos: "sSequence cur < ?k" using "1.prems"(2) by (auto simp: cur_ok_def)
    show ?thesis
    proof (cases "map_of buf ?k")
      case None
      then show ?thesis using False pos "1.prems"(3) by (simp add: f add chain_end chain_bytes_def)
    next
      case (Some nxt)
      note n = cur_ok_next [OF "1.prems"(1,2) False Some]
      have "?k \<in> fst ` set buf" using Some by (auto dest: map_of_SomeD intro: rev_image_eqI)
      then have "length (AList.delete ?k buf) < length buf"
        by (auto simp: AList.delete_eq intro!: length_filter_less)
      then have "chain_scan f full nxt (sSequence nxt) (d + 1) (t + length (sPayload cur)) =
          Inr (d + 1 + length (filter (\<lambda>c. \<not> sFinal c) (chain (AList.delete ?k buf) nxt)),
               t + length (sPayload cur) + length (chain_bytes (chain (AList.delete ?k buf) nxt)))"
        using "1.IH" [OF False Some buf_ok_delete [OF "1.prems"(1)] n(1), of f "d + 1" "t + length (sPayload cur)"]
          "1.prems"(3,4) f n(2,3) by (simp add: AList.delete_conv)
      then show ?thesis
        using False Some pos n(2) "1.prems"(3)
        by (simp add: f add chain_Cons [OF False Some] chain_bytes_def Let_def add.assoc)
    qed
  qed
qed

text \<open>
  What one run of the draining loop does, from the segment \<open>cur\<close> in hand at the cursor: \<open>drained r cs r'\<close>
  for the chain \<open>cs\<close>. The cursor moves over the chain, the buffer loses exactly the chain's
  segments, the index and the byte count follow, and the FIN is recorded if the chain ends in it.
\<close>

definition drained :: "reassembler \<Rightarrow> segment list \<Rightarrow> reassembler \<Rightarrow> bool" where
  "drained r cs r' \<longleftrightarrow>
     rNext r' = rNext r + length (chain_bytes cs) \<and> rNext r' \<le> u64_max \<and> rCfg r' = rCfg r \<and>
     buf_ok (rBuffer r') \<and> order_ok (rOrder r') (rBuffer r') \<and> rBytes r' = buf_bytes (rBuffer r') \<and>
     rBytes r' \<le> rBytes r \<and> length (rBuffer r') \<le> length (rBuffer r) \<and>
     map_of (rBuffer r') (rNext r') = None \<and>
     (\<forall>k. map_of (rBuffer r') k = (if rNext r \<le> k \<and> k \<le> rNext r' then None else map_of (rBuffer r) k)) \<and>
     rFinalAt r' = (if sFinal (last cs) then Some (rNext r') else rFinalAt r)"

lemma apart_no_key_inside:
  assumes "apart buf a b" and "map_of buf a = None" and "a < k" and "k < b"
  shows "map_of buf k = None"
  using assms by (cases "map_of buf k") (auto simp: apart_def dest: leD)

lemma copy_step:
  assumes "take w out = pre @ (if first then p else [])"
    and "w = length (pre @ (if first then p else []))" and "length out = length pre + length p + n"
  shows "take (if first then w else w + min (length out - w) (length p))
        (if first then out else copy_at out w p) = pre @ p \<and>
     (if first then w else w + min (length out - w) (length p)) = length (pre @ p) \<and>
     length (if first then out else copy_at out w p) = length (pre @ p) + n"
proof (cases first)
  case False
  then have "take w out = pre" "w = length pre" using assms(1,2) by simp_all
  then show ?thesis using False assms(3) by (simp add: copy_at_def)
qed (use assms in simp)

lemma copy_step_last:
  assumes "take w out = pre @ (if first then p else [])"
    and "w = length (pre @ (if first then p else []))" and "length out = length pre + length p"
  shows "(if first then out else copy_at out w p) = pre @ p"
proof -
  let ?y = "if first then out else copy_at out w p"
  let ?x = "if first then w else w + min (length out - w) (length p)"
  have c: "take ?x ?y = pre @ p \<and> ?x = length (pre @ p) \<and> length ?y = length (pre @ p) + 0"
    by (rule copy_step) (use assms in simp_all)
  then have "length ?y \<le> ?x" by linarith
  then have "take ?x ?y = ?y" by (rule take_all)
  then show ?thesis using conjunct1 [OF c] by (rule trans [OF sym])
qed

lemma drain_spec:
  assumes "buf_ok (rBuffer r)" "order_ok (rOrder r) (rBuffer r)" "rBytes r = buf_bytes (rBuffer r)"
    and "cur_ok (rBuffer r) cur" and "sSequence cur = rNext r"
    and "first_seq \<le> sSequence cur"
    and "1 < d \<Longrightarrow> take w out = pre @ (if sSequence cur = first_seq then sPayload cur else []) \<and>
       w = length (pre @ (if sSequence cur = first_seq then sPayload cur else [])) \<and>
       length out = length pre + length (chain_bytes (chain (rBuffer r) cur))"
    and "mem_holds (rMemory r) (m + (if sCharged cur then int (length (sPayload cur)) else 0) + int (rBytes r))" and "0 \<le> m"
  shows "\<exists>r'. drain r cur first_seq d out w =
       (Inr (if 1 < d then pre @ chain_bytes (chain (rBuffer r) cur) else out, Closed r'), r') \<and>
     drained r (chain (rBuffer r) cur) r' \<and> mem_holds (rMemory r') (m + int (rBytes r'))"
  using assms
proof (induction r cur first_seq d out w arbitrary: pre rule: drain.induct)
  case (1 r cur fs d out w)
  let ?p = "sPayload cur" and ?B = "rBuffer r"
  note buf = "1.prems"(1) and ord = "1.prems"(2) and byt = "1.prems"(3) and cur = "1.prems"(4)
    and seq = "1.prems"(5) and mem = "1.prems"(8) and m = "1.prems"(9)
  have le: "rNext r + length ?p \<le> u64_max" and none: "map_of ?B (rNext r) = None"
    and ap: "apart ?B (rNext r) (rNext r + length ?p)"
    using cur seq by (auto simp: cur_ok_def)
  show ?case
  proof (cases "sFinal cur")
    case True
    then have p: "?p = []" using cur by (simp add: cur_ok_def)
    have ch: "chain ?B cur = [cur]" using True by (simp add: chain_end)
    have "1 < d \<Longrightarrow> out = pre" using "1.prems"(7) ch p by (auto simp: chain_bytes_def)
    moreover have "mem_holds (rMemory r) (m + int (rBytes r))" using mem p by (simp split: if_splits)
    ultimately show ?thesis
      using True seq buf ord byt none le p ch
      by (simp add: drain.simps [of r cur] drained_def chain_bytes_def Closed_def) (metis le_antisym)
  next
    case False
    then have ne: "?p \<noteq> []" using cur by (simp add: cur_ok_def)
    obtain mem' where rel: "(if sCharged cur then Release (rMemory r) (int (length ?p)) else Some (rMemory r)) = Some mem'"
      and mem': "mem_holds mem' (m + int (rBytes r))"
    proof (cases "sCharged cur")
      case True
      then show ?thesis
        using mem.release_holds [OF mem, of "int (length ?p)"] m that by auto
    next
      case False
      then show ?thesis using mem that by simp
    qed
    define r1 where "r1 = r\<lparr>rMemory := mem', rNext := add64 (rNext r) (length ?p)\<rparr>"
    define out' where "out' = (if sSequence cur \<noteq> fs \<and> 1 < d then copy_at out w ?p else out)"
    define w' where "w' = (if sSequence cur \<noteq> fs \<and> 1 < d then w + min (length out - w) (length ?p) else w)"
    have next1: "rNext r1 = rNext r + length ?p" "rBuffer r1 = ?B" "rMemory r1 = mem'" "rCfg r1 = rCfg r"
      "rOrder r1 = rOrder r" "rBytes r1 = rBytes r" "rFinalAt r1 = rFinalAt r"
      using le by (simp_all add: r1_def add64_small)
    show ?thesis
    proof (cases "map_of ?B (rNext r + length ?p)")
      case None
      have ch: "chain ?B cur = [cur]" using None seq by (simp add: chain_end)
      have o: "out' = (if 1 < d then pre @ ?p else out)"
      proof (cases "1 < d")
        case True
        have "length out = length pre + length ?p"
          using "1.prems"(7) [OF True] ch by (simp add: chain_bytes_def)
        then have "(if sSequence cur = fs then out else copy_at out w ?p) = pre @ ?p"
          using "1.prems"(7) [OF True] by (intro copy_step_last) blast+
        then show ?thesis using True by (simp add: out'_def split: if_splits)
      qed (simp add: out'_def)
      have dr: "drain r cur fs d out w = (Inr (out', Closed r1), r1)"
        using False rel None next1
        by (simp add: drain.simps [of r cur] Let_def r1_def [symmetric] out'_def)
      have "map_of ?B k = None" if "rNext r \<le> k" "k \<le> rNext r + length ?p" for k
        using that none None apart_no_key_inside [OF ap none, of k] by (cases "k = rNext r"; cases "k = rNext r + length ?p") auto
      then have "drained r [cur] r1"
        using next1 None le buf ord byt False by (simp add: drained_def chain_bytes_def)
      moreover have "mem_holds (rMemory r1) (m + int (rBytes r1))" using mem' next1 by simp
      ultimately show ?thesis
        unfolding ch dr o by (intro exI [of _ r1]) (simp add: chain_bytes_def)
    next
      case (Some nxt)
      let ?k = "rNext r + length ?p"
      define r2 where "r2 = r1\<lparr>rBuffer := AList.delete (rNext r1) (rBuffer r1),
          rOrder := removeOrder (rOrder r1) (rNext r1), rBytes := rBytes r1 - length (sPayload nxt)\<rparr>"
      have Some': "map_of ?B (sSequence cur + length ?p) = Some nxt" using Some seq by simp
      note n = cur_ok_next [OF buf cur False Some']
      have ch: "chain ?B cur = cur # chain (AList.delete ?k ?B) nxt"
        using chain_Cons [OF False Some'] seq by simp
      have bd: "buf_bytes ?B = buf_bytes (AList.delete ?k ?B) + length (sPayload nxt)"
        using buf_bytes_delete [OF _ Some] buf by (simp add: buf_ok_def)
      have d1: "drain r cur fs d out w = drain r2 nxt fs d out' w'"
        using False rel Some next1
        by (simp add: drain.simps [of r cur] Let_def r1_def [symmetric] r2_def out'_def w'_def)
      have r2: "rBuffer r2 = AList.delete ?k ?B" "rNext r2 = ?k" "rMemory r2 = mem'" "rBytes r2 = buf_bytes (AList.delete ?k ?B)"
        "rOrder r2 = removeOrder (rOrder r) ?k" "rCfg r2 = rCfg r" "rFinalAt r2 = rFinalAt r"
        using next1 bd by (simp_all add: r2_def byt)
      have ow: "1 < d \<Longrightarrow> take w' out' = pre @ ?p \<and> w' = length (pre @ ?p) \<and>
          length out' = length (pre @ ?p) + length (chain_bytes (chain (rBuffer r2) nxt))"
      proof -
        assume d: "1 < d"
        have "length out = length pre + length ?p + length (chain_bytes (chain (rBuffer r2) nxt))"
          using "1.prems"(7) [OF d] ch by (simp add: chain_bytes_def r2)
        note c = copy_step [OF conjunct1 [OF "1.prems"(7) [OF d]] conjunct1 [OF conjunct2 [OF "1.prems"(7) [OF d]]] this]
        have e: "out' = (if sSequence cur = fs then out else copy_at out w ?p)"
          "w' = (if sSequence cur = fs then w else w + min (length out - w) (length ?p))"
          using d by (simp_all add: out'_def w'_def)
        show ?thesis unfolding e by (rule c)
      qed
      have Some1: "map_of (rBuffer r1) (rNext r1) = Some nxt" using next1 Some by simp
      have "\<exists>r'. drain r2 nxt fs d out' w' =
          (Inr (if 1 < d then (pre @ ?p) @ chain_bytes (chain (rBuffer r2) nxt) else out', Closed r'), r') \<and>
          drained r2 (chain (rBuffer r2) nxt) r' \<and> mem_holds (rMemory r') (m + int (rBytes r'))"
      proof (rule "1.IH" [OF False refl refl out'_def w'_def rel r1_def Some1, folded r2_def])
        show "cur_ok (rBuffer r2) nxt" using n(1) seq by (simp add: r2)
        show "buf_ok (rBuffer r2)" using buf by (simp add: r2 buf_ok_delete)
        show "order_ok (rOrder r2) (rBuffer r2)" using order_ok_delete [OF ord Some] by (simp add: r2)
        show "mem_holds (rMemory r2) (m + (if sCharged nxt then int (length (sPayload nxt)) else 0) + int (rBytes r2))"
          using mem' n(4) bd by (simp add: r2 byt add_ac)
      qed (use n seq ow m "1.prems"(6) in \<open>auto simp: r2\<close>)
      then obtain r' where r': "drain r2 nxt fs d out' w' =
          (Inr (if 1 < d then (pre @ ?p) @ chain_bytes (chain (rBuffer r2) nxt) else out', Closed r'), r')"
        and dr: "drained r2 (chain (rBuffer r2) nxt) r'" and mh: "mem_holds (rMemory r') (m + int (rBytes r'))"
        by blast
      have "map_of (rBuffer r') j = (if rNext r \<le> j \<and> j \<le> rNext r' then None else map_of ?B j)" for j
      proof -
        have "map_of ?B j = None" if "rNext r \<le> j" "j < ?k"
          using that none apart_no_key_inside [OF ap none, of j] by (cases "j = rNext r") auto
        then show ?thesis using dr by (auto simp: drained_def r2 AList.delete_conv)
      qed
      then have "drained r (chain ?B cur) r'"
        using dr ch bd byt chain_nonempty [of "AList.delete ?k ?B" nxt] length_filter_le [of _ ?B]
        by (auto simp: drained_def r2 chain_bytes_def AList.delete_eq intro: order_trans)
      moreover have "(if 1 < d then (pre @ ?p) @ chain_bytes (chain (rBuffer r2) nxt) else out')
          = (if 1 < d then pre @ chain_bytes (chain ?B cur) else out)"
        using ow ch by (auto simp: chain_bytes_def r2 out'_def)
      ultimately show ?thesis using r' mh d1 by auto
    qed
  qed
qed

lemma chain_bytes_Cons: "chain_bytes (c # cs) = sPayload c @ chain_bytes cs"
  by (simp add: chain_bytes_def)

lemma chain_payload_nonempty:
  "buf_ok buf \<Longrightarrow> cur_ok buf cur \<Longrightarrow> \<forall>c \<in> set (chain buf cur). sFinal c \<longrightarrow> sPayload c = []"
proof (induction buf cur rule: chain.induct)
  case (1 buf cur)
  show ?case
  proof (cases "sFinal cur \<or> map_of buf (sSequence cur + length (sPayload cur)) = None")
    case True
    then show ?thesis using "1.prems" by (simp add: chain_end cur_ok_def)
  next
    case False
    then obtain nxt where n: "\<not> sFinal cur" "map_of buf (sSequence cur + length (sPayload cur)) = Some nxt"
      by (metis option.exhaust)
    have h: "\<forall>c \<in> set (chain (AList.delete (sSequence cur + length (sPayload cur)) buf) nxt). sFinal c \<longrightarrow> sPayload c = []"
      by (rule "1.IH" [OF n buf_ok_delete [OF "1.prems"(1)] cur_ok_next(1) [OF "1.prems" n]])
    show ?thesis unfolding chain_Cons [OF n] list.set using h n(1) by blast
  qed
qed

lemma chain_bytes_filter:
  "\<forall>c \<in> set cs. sFinal c \<longrightarrow> sPayload c = [] \<Longrightarrow> chain_bytes cs = chain_bytes (filter (\<lambda>c. \<not> sFinal c) cs)"
  by (induction cs) (auto simp: chain_bytes_def)

text \<open>\<open>consumeContiguous\<close> delivers the chain's bytes and never fails.\<close>

lemma consumeContiguous_spec:
  assumes inv: "buf_ok (rBuffer r)" "order_ok (rOrder r) (rBuffer r)" "rBytes r = buf_bytes (rBuffer r)"
    and cur: "cur_ok (rBuffer r) s" "sSequence s = rNext r" "\<not> sCharged s"
    and mem: "mem_holds (rMemory r) (m + int (rBytes r))" "0 \<le> m"
  shows "\<exists>r'. consumeContiguous r s = (Inr (chain_bytes (chain (rBuffer r) s), Closed r'), r') \<and>
     drained r (chain (rBuffer r) s) r' \<and> mem_holds (rMemory r') (m + int (rBytes r'))"
proof -
  let ?B = "rBuffer r" and ?p = "sPayload s"
  let ?cs = "chain ?B s"
  define d where "d = length (filter (\<lambda>c. \<not> sFinal c) ?cs)"
  define t where "t = length (chain_bytes ?cs)"
  have scan: "chain_scan (Suc (length ?B)) ?B s (sSequence s) 0 0 = Inr (d, t)"
    using chain_scan_total [OF inv(1) cur(1), of ?B "Suc (length ?B)" 0 0] by (simp add: d_def t_def)
  define out where "out = (if d = 1 then ?p else if d > 1 then copy_at (replicate t 0) 0 ?p else [])"
  have c: "consumeContiguous r s = drain r s (sSequence s) d out (length ?p)"
    using cur(2) scan by (simp add: consumeContiguous_def out_def Let_def)
  have hd: "?cs = s # tl ?cs" by (simp add: chain.simps [of ?B s] split: option.splits)
  have len: "length ?p \<le> length (chain_bytes ?cs)" by (subst hd) (simp add: chain_bytes_Cons)
  have nil: "chain_bytes ?cs = chain_bytes (filter (\<lambda>c. \<not> sFinal c) ?cs)"
    using chain_payload_nonempty [OF inv(1) cur(1)] by (rule chain_bytes_filter)
  have "\<exists>r'. drain r s (sSequence s) d out (length ?p) =
       (Inr (if 1 < d then [] @ chain_bytes ?cs else out, Closed r'), r') \<and>
     drained r ?cs r' \<and> mem_holds (rMemory r') (m + int (rBytes r'))"
  proof (rule drain_spec [OF inv cur(1,2)])
    assume "1 < d"
    then show "take (length ?p) out = [] @ (if sSequence s = sSequence s then ?p else []) \<and>
       length ?p = length ([] @ (if sSequence s = sSequence s then ?p else [])) \<and>
       length out = length [] + length (chain_bytes ?cs)"
      using len by (simp add: out_def copy_at_def t_def min_def)
  qed (use cur mem in simp_all)
  moreover have "out = chain_bytes ?cs" if "\<not> 1 < d"
  proof (cases "sFinal s")
    case True
    then show ?thesis using cur(1) by (simp add: chain_end d_def out_def chain_bytes_def cur_ok_def)
  next
    case False
    then have f: "filter (\<lambda>c. \<not> sFinal c) ?cs = s # filter (\<lambda>c. \<not> sFinal c) (tl ?cs)"
      using hd by (metis filter.simps(2))
    then have "d = 1" "filter (\<lambda>c. \<not> sFinal c) (tl ?cs) = []" using that by (simp_all add: d_def)
    then show ?thesis using nil f by (simp add: out_def chain_bytes_def)
  qed
  ultimately show ?thesis using c by auto
qed

section \<open>Insert keeps the invariant\<close>

lemma AList_update_new:
  "map_of buf k = None \<Longrightarrow> AList.update k s buf = buf @ [(k, s)]"
  by (induction buf) (auto split: if_splits)

lemma length_update_new: "map_of buf k = None \<Longrightarrow> length (AList.update k s buf) = Suc (length buf)"
  by (simp add: AList_update_new)

lemma buf_ok_update:
  assumes "buf_ok buf" "map_of buf k = None" "seg_wf k s" "apart buf k (k + length (sPayload s))"
  shows "buf_ok (AList.update k s buf)"
proof -
  have "k' + length (sPayload s') \<le> k" if "map_of buf k' = Some s'" "k' < k" for k' s'
    using assms(4) that by (auto simp: apart_def)
  moreover have "k + length (sPayload s) \<le> k'" if "map_of buf k' = Some s'" "k < k'" for k' s'
    using assms(4) that by (auto simp: apart_def)
  ultimately show ?thesis
    using assms(1,3) by (auto simp: buf_ok_def apart_def AList.update_conv AList.distinct_update)
qed

lemma order_ok_update:
  assumes "order_ok order buf" "map_of buf k = None"
  shows "order_ok (insertOrder order k) (AList.update k s buf)"
  using assms insert_at_lower_bound [of order k]
  by (auto simp: order_ok_def insertOrder_def AList_update_new map_of_eq_None_iff)

lemma buf_bytes_bound:
  "buf_ok buf \<Longrightarrow> (\<And>k s. map_of buf k = Some s \<Longrightarrow> k + length (sPayload s) \<le> n) \<Longrightarrow> buf_bytes buf \<le> n"
proof (induction "length buf" arbitrary: buf n rule: less_induct)
  case less
  show ?case
  proof (cases "buf = []")
    case True
    then show ?thesis by (simp add: buf_bytes_def)
  next
    case False
    define k where "k = Max (fst ` set buf)"
    have "k \<in> fst ` set buf" using False by (auto simp: k_def)
    then obtain s where s: "map_of buf k = Some s" by (metis map_of_eq_None_iff not_Some_eq)
    have dist: "distinct (map fst buf)" using less.prems(1) by (simp add: buf_ok_def)
    have "length (AList.delete k buf) < length buf"
      using \<open>k \<in> _\<close> by (auto simp: AList.delete_eq intro!: length_filter_less)
    moreover have "k' + length (sPayload s') \<le> k" if "map_of (AList.delete k buf) k' = Some s'" for k' s'
    proof -
      have k': "map_of buf k' = Some s'" "k' \<noteq> k" using that by (auto simp: AList.delete_conv split: if_splits)
      then have "k' \<le> k" unfolding k_def by (intro Max_ge) (auto dest: map_of_SomeD intro: rev_image_eqI)
      then show ?thesis using less.prems(1) s k' by (auto simp: buf_ok_def apart_def)
    qed
    ultimately have "buf_bytes (AList.delete k buf) \<le> k"
      using less.hyps buf_ok_delete [OF less.prems(1)] by blast
    then show ?thesis using buf_bytes_delete [OF dist s] less.prems(2) [OF s] by simp
  qed
qed

lemma buf_bytes_u64: "buf_ok buf \<Longrightarrow> buf_bytes buf \<le> u64_max"
  by (rule buf_bytes_bound) (simp_all add: buf_ok_def seg_wf_def)

text \<open>A segment as a lane hands it in: a Go slice, not yet charged to the budget.\<close>

definition seg_in :: "segment \<Rightarrow> bool" where
  "seg_in s \<longleftrightarrow> go_slice (sPayload s) \<and> \<not> sCharged s"

text \<open>The state after a segment was buffered.\<close>

definition buffered :: "reassembler \<Rightarrow> segment \<Rightarrow> budget option \<Rightarrow> reassembler" where
  "buffered r s mem = r\<lparr>rMemory := mem,
     rBuffer := AList.update (sSequence s) (s\<lparr>sCharged := True\<rparr>) (rBuffer r),
     rOrder := insertOrder (rOrder r) (sSequence s),
     rBytes := rBytes r + length (sPayload s),
     rFinalAt := (if sFinal s then Some (sSequence s) else rFinalAt r)\<rparr>"

text \<open>
  The four outcomes of \<open>Insert\<close>: refused, ignored as a duplicate, buffered, delivered. In the first two
  the state is unchanged; a segment is refused only if it does not fit (\<open>insert_fits\<close>): malformed,
  conflicting, overlapping or beyond a limit.
\<close>

lemma reasm_insert_bad:
  "sFinal s \<Longrightarrow> sPayload s \<noteq> [] \<Longrightarrow> reasm_insert r s = (Inl FinWithPayload, r)"
  "\<not> sFinal s \<Longrightarrow> sPayload s = [] \<Longrightarrow> reasm_insert r s = (Inl EmptyData, r)"
  "sFinal s \<longleftrightarrow> sPayload s = [] \<Longrightarrow> u64_max - length (sPayload s) < sSequence s \<Longrightarrow>
     reasm_insert r s = (Inl ErrSequence, r)"
  by (simp_all add: reasm_insert_def Let_def)

definition insert_fits :: "reassembler \<Rightarrow> segment \<Rightarrow> bool" where
  "insert_fits r s \<longleftrightarrow> (sFinal s \<longleftrightarrow> sPayload s = []) \<and> sSequence s + length (sPayload s) \<le> u64_max \<and>
     (case map_of (rBuffer r) (sSequence s) of
        Some e \<Rightarrow> sFinal e = sFinal s \<and> sPayload e = sPayload s
      | None \<Rightarrow> apart (rBuffer r) (sSequence s) (sSequence s + length (sPayload s)) \<and>
          (sSequence s \<noteq> rNext r \<longrightarrow> int (length (rBuffer r)) + 1 \<le> MaxBufferedFrames (rCfg r) \<and>
             rBytes r + length (sPayload s) \<le> MaxBufferedBytes (rCfg r) \<and>
             fst (TryAcquire (rMemory r) (int (length (sPayload s))))))"

lemma reasm_insert_cases:
  assumes inv: "reasm_inv r" and s: "seg_in s"
  obtains
    (refused) err where "reasm_insert r s = (Inl err, r)" "err \<notin> {PanicRelease, OutOfFuel, CursorMismatch, OverlapsCursor, FinConflict}"
      "\<not> insert_fits r s"
  | (ignored) "reasm_insert r s = (Inr ([], Closed r), r)"
      "sSequence s + length (sPayload s) < rNext r \<or> (\<exists>e. map_of (rBuffer r) (sSequence s) = Some e \<and> sFinal e = sFinal s \<and> sPayload e = sPayload s)"
  | (stored) mem where "reasm_insert r s = (Inr ([], Closed (buffered r s mem)), buffered r s mem)"
      "TryAcquire (rMemory r) (int (length (sPayload s))) = (True, mem)" "sSequence s \<noteq> rNext r"
      "cur_ok (rBuffer r) s" "reasm_inv (buffered r s mem)"
      "rNext r \<le> sSequence s + length (sPayload s)"
  | (delivered) "reasm_insert r s = consumeContiguous r s" "sSequence s = rNext r" "cur_ok (rBuffer r) s"
proof -
  let ?len = "length (sPayload s)" and ?B = "rBuffer r"
  have buf: "buf_ok ?B" and ord: "order_ok (rOrder r) ?B" and byt: "rBytes r = buf_bytes ?B"
    using inv by (auto simp: reasm_inv_def)
  consider (bad) "sFinal s \<and> ?len \<noteq> 0 \<or> \<not> sFinal s \<and> ?len = 0 \<or> sSequence s > u64_max - ?len"
    | (ok) "sFinal s \<longleftrightarrow> sPayload s = []" "sSequence s \<le> u64_max - ?len" by fastforce
  then show thesis
  proof cases
    case bad
    then have "\<exists>err \<in> {FinWithPayload, EmptyData, ErrSequence}. reasm_insert r s = (Inl err, r)"
      using reasm_insert_bad [of s r] by auto
    moreover have "\<not> insert_fits r s" using bad by (auto simp: insert_fits_def)
    ultimately show thesis using refused by auto
  next
    case ok
    have len: "?len \<le> u64_max" using s by (simp add: seg_in_def go_slice_def u64_max_def)
    then have sum: "sSequence s + ?len \<le> u64_max" using ok(2) by simp
    let ?e = "sSequence s + ?len"
    have e: "(if sFinal s then sSequence s else add64 (sSequence s) ?len) = ?e"
      using ok(1) sum by (simp add: add64_small)
    have ins: "reasm_insert r s =
       (if ?e < rNext r then (Inr ([], Closed r), r)
        else case map_of ?B (sSequence s) of
          Some existing \<Rightarrow> (if sFinal existing = sFinal s \<and> sPayload existing = sPayload s
             then (Inr ([], Closed r), r) else (Inl ConflictingDuplicate, r))
        | None \<Rightarrow> (case checkNeighbours r s ?e of
               Some err \<Rightarrow> (Inl err, r)
             | None \<Rightarrow>
                 if sSequence s \<noteq> rNext r then
                   (if int (length ?B) + 1 > MaxBufferedFrames (rCfg r) \<or>
                       add64 (rBytes r) ?len > MaxBufferedBytes (rCfg r)
                    then (Inl ErrWindowExceeded, r)
                    else case TryAcquire (rMemory r) (int ?len) of
                      (False, mem) \<Rightarrow> (Inl ErrMemoryBudget, r\<lparr>rMemory := mem\<rparr>)
                    | (True, mem) \<Rightarrow>
                        let r1 = r\<lparr>rMemory := mem,
                              rBuffer := AList.update (sSequence s) (s\<lparr>sCharged := True\<rparr>) ?B,
                              rOrder := insertOrder (rOrder r) (sSequence s),
                              rBytes := add64 (rBytes r) ?len,
                              rFinalAt := (if sFinal s then Some (sSequence s) else rFinalAt r)\<rparr>
                        in (Inr ([], Closed r1), r1))
                 else consumeContiguous r s))"
      using ok e by (auto simp: reasm_insert_def Let_def)
    show thesis
    proof (cases "?e < rNext r")
      case True
      then show thesis using ins ignored by simp
    next
      case ge: False
      show thesis
      proof (cases "map_of ?B (sSequence s)")
        case (Some existing)
        then show thesis
          using ins ge ignored refused [of ConflictingDuplicate]
          by (cases "sFinal existing = sFinal s \<and> sPayload existing = sPayload s") (auto simp: insert_fits_def)
      next
        case new: None
        note nb = checkNeighbours_None [OF buf ord new, of ?e]
        show thesis
        proof (cases "checkNeighbours r s ?e")
          case (Some err)
          then show thesis using ins ge new nb refused [of OverlappingSegments] by (simp add: insert_fits_def)
        next
          case None
          then have cur: "cur_ok ?B s" using nb(1) ok(1) sum new by (simp add: cur_ok_def)
          show thesis
          proof (cases "sSequence s = rNext r")
            case True
            then show thesis using ins ge new None delivered cur by simp
          next
            case ne: False
            let ?s = "s\<lparr>sCharged := True\<rparr>"
            have wf: "seg_wf (sSequence s) ?s" "apart ?B (sSequence s) (sSequence s + length (sPayload ?s))"
              using ok(1) sum cur by (auto simp: seg_wf_def cur_ok_def)
            have bufn: "buf_ok (AList.update (sSequence s) ?s ?B)" by (rule buf_ok_update [OF buf new wf])
            have bytn: "buf_bytes (AList.update (sSequence s) ?s ?B) = rBytes r + ?len"
              using new by (simp add: AList_update_new buf_bytes_def byt)
            have "buf_bytes (AList.update (sSequence s) ?s ?B) \<le> u64_max"
              using bufn by (rule buf_bytes_u64)
            then have add: "add64 (rBytes r) ?len = rBytes r + ?len" using bytn by (simp add: add64_small)
            show thesis
            proof (cases "int (length ?B) + 1 > MaxBufferedFrames (rCfg r) \<or> rBytes r + ?len > MaxBufferedBytes (rCfg r)")
              case True
              then show thesis using ins ge new None ne add refused [of ErrWindowExceeded] by (auto simp: insert_fits_def)
            next
              case room: False
              show thesis
              proof (cases "TryAcquire (rMemory r) (int ?len)")
                case (Pair okay mem)
                show thesis
                proof (cases okay)
                  case True
                  have "reasm_inv (buffered r s mem)"
                    using inv bufn bytn room order_ok_update [OF ord new, of ?s] ne new
                    by (simp add: reasm_inv_def buffered_def AList.update_conv length_update_new)
                  then show thesis
                    using ins ge new None ne add room Pair True cur
                    by (intro stored [of mem]) (simp_all add: buffered_def Let_def)
                next
                  case False
                  then have "mem = rMemory r" using Pair mem.acquire_refused by auto
                  then show thesis using ins ge new None ne add room Pair False refused [of ErrMemoryBudget] by (simp add: insert_fits_def)
                qed
              qed
            qed
          qed
        qed
      qed
    qed
  qed
qed

text \<open>Delivery through \<open>Insert\<close>, in terms of the chain.\<close>

lemma reasm_insert_delivers:
  assumes inv: "reasm_inv r" and s: "seg_in s" and ok: "cur_ok (rBuffer r) s" "sSequence s = rNext r"
    and mem: "mem_holds (rMemory r) (m + int (rBytes r))" "0 \<le> m"
  obtains r' where "consumeContiguous r s = (Inr (chain_bytes (chain (rBuffer r) s), Closed r'), r')"
    "drained r (chain (rBuffer r) s) r'" "mem_holds (rMemory r') (m + int (rBytes r'))" "reasm_inv r'"
proof -
  have i: "buf_ok (rBuffer r)" "order_ok (rOrder r) (rBuffer r)" "rBytes r = buf_bytes (rBuffer r)"
    "rBytes r \<le> MaxBufferedBytes (rCfg r)" "int (length (rBuffer r)) \<le> MaxBufferedFrames (rCfg r)"
    using inv by (simp_all add: reasm_inv_def)
  have "\<not> sCharged s" using s by (simp add: seg_in_def)
  from consumeContiguous_spec [OF i(1-3) ok this mem] obtain r' where
    r': "consumeContiguous r s = (Inr (chain_bytes (chain (rBuffer r) s), Closed r'), r')"
    "drained r (chain (rBuffer r) s) r'" "mem_holds (rMemory r') (m + int (rBytes r'))" by blast
  have "reasm_inv r'"
    using r'(2) i(4,5) unfolding drained_def reasm_inv_def by (metis order_trans of_nat_mono)
  with r' that show ?thesis by blast
qed

text \<open>The memory the reassembler holds follows a buffered segment.\<close>

lemma buffered_mem_holds:
  assumes "TryAcquire (rMemory r) (int (length (sPayload s))) = (True, mem)"
    and "mem_holds (rMemory r) (m + int (rBytes r))"
  shows "mem_holds (rMemory (buffered r s mem)) (m + int (rBytes (buffered r s mem)))"
  using mem.acquire_holds [OF assms(1) _ assms(2)] by (simp add: buffered_def add.assoc)

text \<open>Everything one call of \<open>Insert\<close> keeps.\<close>

lemma reasm_insert_keeps:
  assumes inv: "reasm_inv r" and s: "seg_in s"
    and mem: "mem_holds (rMemory r) (m + int (rBytes r))" "0 \<le> m"
  shows "reasm_inv (snd (reasm_insert r s))"
    and "mem_holds (rMemory (snd (reasm_insert r s))) (m + int (rBytes (snd (reasm_insert r s))))"
    and "fst (reasm_insert r s) \<notin> Inl ` {PanicRelease, OutOfFuel, CursorMismatch}"
    and "rNext r \<le> rNext (snd (reasm_insert r s))"
    and "rCfg (snd (reasm_insert r s)) = rCfg r"
proof -
  let ?r = "snd (reasm_insert r s)"
  have "reasm_inv ?r \<and> mem_holds (rMemory ?r) (m + int (rBytes ?r)) \<and>
     fst (reasm_insert r s) \<notin> Inl ` {PanicRelease, OutOfFuel, CursorMismatch} \<and> rNext r \<le> rNext ?r \<and> rCfg ?r = rCfg r"
  proof (cases rule: reasm_insert_cases [OF inv s, case_names refused ignored stored delivered])
    case (refused err)
    then show ?thesis using inv mem by auto
  next
    case ignored
    then show ?thesis using inv mem by auto
  next
    case (stored mem')
    then show ?thesis using buffered_mem_holds [OF stored(2) mem(1)] by (auto simp: buffered_def)
  next
    case delivered
    obtain r' where r': "consumeContiguous r s = (Inr (chain_bytes (chain (rBuffer r) s), Closed r'), r')"
      "drained r (chain (rBuffer r) s) r'" "mem_holds (rMemory r') (m + int (rBytes r'))" "reasm_inv r'"
      by (rule reasm_insert_delivers [OF inv s delivered(3,2) mem])
    have "rNext r \<le> rNext r'" "rCfg r' = rCfg r" using r'(2) by (simp_all add: drained_def)
    then show ?thesis using r' delivered(1) by auto
  qed
  then show "reasm_inv ?r" "mem_holds (rMemory ?r) (m + int (rBytes ?r))"
    "fst (reasm_insert r s) \<notin> Inl ` {PanicRelease, OutOfFuel, CursorMismatch}" "rNext r \<le> rNext ?r" "rCfg ?r = rCfg r"
    by blast+
qed

section \<open>Runs\<close>

text \<open>
  A run feeds a list of segments, in the order the lanes deliver them; a refused segment is reported
  and leaves the state to the next one.
\<close>

fun reasm_run :: "reassembler \<Rightarrow> segment list \<Rightarrow> reasm_error list \<times> bytes \<times> reassembler" where
  "reasm_run r [] = ([], [], r)"
| "reasm_run r (s # ss) =
     (case reasm_insert r s of
        (Inl err, r') \<Rightarrow> (let (errs, out, r'') = reasm_run r' ss in (err # errs, out, r''))
      | (Inr (p, _), r') \<Rightarrow> (let (errs, out, r'') = reasm_run r' ss in (errs, p @ out, r'')))"

text \<open>The errors, bytes and final state of a run.\<close>

definition run_errors :: "reassembler \<Rightarrow> segment list \<Rightarrow> reasm_error list" where
  "run_errors r ss = fst (reasm_run r ss)"
definition run_bytes :: "reassembler \<Rightarrow> segment list \<Rightarrow> bytes" where
  "run_bytes r ss = fst (snd (reasm_run r ss))"
definition run_state :: "reassembler \<Rightarrow> segment list \<Rightarrow> reassembler" where
  "run_state r ss = snd (snd (reasm_run r ss))"

lemma run_Nil [simp]: "run_errors r [] = []" "run_bytes r [] = []" "run_state r [] = r"
  by (simp_all add: run_errors_def run_bytes_def run_state_def)

lemma run_Cons_error:
  assumes "reasm_insert r s = (Inl err, r')"
  shows "run_errors r (s # ss) = err # run_errors r' ss" "run_bytes r (s # ss) = run_bytes r' ss"
    "run_state r (s # ss) = run_state r' ss"
  using assms by (simp_all add: run_errors_def run_bytes_def run_state_def split: prod.splits)

lemma run_Cons_ok:
  assumes "reasm_insert r s = (Inr (p, c), r')"
  shows "run_errors r (s # ss) = run_errors r' ss" "run_bytes r (s # ss) = p @ run_bytes r' ss"
    "run_state r (s # ss) = run_state r' ss"
  using assms by (simp_all add: run_errors_def run_bytes_def run_state_def split: prod.splits)

lemma run_state_Cons: "run_state r (s # ss) = run_state (snd (reasm_insert r s)) ss"
  by (cases "reasm_insert r s"; cases "fst (reasm_insert r s)") (auto simp: run_Cons_error run_Cons_ok)

lemma run_state_keeps:
  assumes "reasm_inv r" and "\<forall>s \<in> set ss. seg_in s" and "mem_holds (rMemory r) (m + int (rBytes r))" and "0 \<le> m"
  shows "reasm_inv (run_state r ss) \<and> mem_holds (rMemory (run_state r ss)) (m + int (rBytes (run_state r ss)))"
  using assms
proof (induction ss arbitrary: r)
  case Nil
  then show ?case by simp
next
  case (Cons s ss)
  have s: "seg_in s" using Cons.prems(2) by simp
  note k = reasm_insert_keeps [OF Cons.prems(1) s Cons.prems(3,4)]
  show ?case using Cons.IH [OF k(1) _ k(2)] Cons.prems(2,4) by (simp add: run_state_Cons)
qed

lemma NewReassembler_inv:
  "0 \<le> m \<Longrightarrow> mem_holds (Memory cfg) m \<Longrightarrow>
   reasm_inv (NewReassembler cfg) \<and> mem_holds (rMemory (NewReassembler cfg)) (m + int (rBytes (NewReassembler cfg)))"
  by (auto simp: NewReassembler_def Let_def reasm_inv_def buf_ok_def order_ok_def buf_bytes_def
      reasm_DefaultConfig_def mem_holds_def)

end
