(* ===== verification/ReassemblyStream.thy ===== *)
theory ReassemblyStream
  imports Reassembly
begin

text \<open>
  What the reassembler promises over whole runs: \<open>Insert\<close> keeps its invariant and its memory charges,
  the bytes it hands out are a prefix of the stream the segments were cut from, a complete cut in
  any order and with any duplicates delivers the whole stream and closes, \<open>Close\<close> returns exactly
  the bytes still charged, and the reported ranges describe exactly what is buffered. The last
  section follows a segment that ends at or straddles the receive cursor.
\<close>

section \<open>The bytes handed out\<close>

text \<open>A segment agrees with the stream \<open>S\<close>: its payload is the stream's bytes at its offset, and a FIN
  marks the stream's end.\<close>

definition agrees :: "bytes \<Rightarrow> segment \<Rightarrow> bool" where
  "agrees S s \<longleftrightarrow> sSequence s + length (sPayload s) \<le> length S \<and>
     sPayload s = take (length (sPayload s)) (drop (sSequence s) S) \<and>
     (sFinal s \<longrightarrow> sSequence s = length S)"

definition stream_inv :: "bytes \<Rightarrow> reassembler \<Rightarrow> bool" where
  "stream_inv S r \<longleftrightarrow> (\<forall>k s. map_of (rBuffer r) k = Some s \<longrightarrow> agrees S s) \<and> rNext r \<le> length S \<and>
     (\<forall>at. rFinalAt r = Some at \<longrightarrow> at = length S)"

lemma chain_agrees:
  assumes "buf_ok buf" and "cur_ok buf cur"
    and "\<And>k s. map_of buf k = Some s \<Longrightarrow> agrees S s" and "agrees S cur"
  shows "chain_bytes (chain buf cur) = take (length (chain_bytes (chain buf cur))) (drop (sSequence cur) S) \<and>
     sSequence cur + length (chain_bytes (chain buf cur)) \<le> length S \<and>
     (sFinal (last (chain buf cur)) \<longrightarrow> sSequence cur + length (chain_bytes (chain buf cur)) = length S)"
  using assms
proof (induction buf cur rule: chain.induct)
  case (1 buf cur)
  let ?k = "sSequence cur + length (sPayload cur)"
  show ?case
  proof (cases "sFinal cur \<or> map_of buf ?k = None")
    case True
    then have c: "chain buf cur = [cur]" by (rule chain_end)
    show ?thesis using "1.prems"(2,4) unfolding c by (simp add: chain_bytes_def agrees_def cur_ok_def)
  next
    case False
    then obtain nxt where n: "\<not> sFinal cur" "map_of buf ?k = Some nxt" by (metis option.exhaust)
    note nx = cur_ok_next [OF "1.prems"(1,2) n]
    let ?cs = "chain (AList.delete ?k buf) nxt"
    have ih: "chain_bytes ?cs = take (length (chain_bytes ?cs)) (drop (sSequence nxt) S) \<and>
       sSequence nxt + length (chain_bytes ?cs) \<le> length S \<and>
       (sFinal (last ?cs) \<longrightarrow> sSequence nxt + length (chain_bytes ?cs) = length S)"
    proof (rule "1.IH" [OF n buf_ok_delete [OF "1.prems"(1)] nx(1)])
      show "agrees S s" if "map_of (AList.delete ?k buf) k = Some s" for k s
        using that "1.prems"(3) by (auto simp: AList.delete_conv split: if_splits)
    qed (rule "1.prems"(3) [OF n(2)])
    have p: "sPayload cur = take (length (sPayload cur)) (drop (sSequence cur) S)"
      using "1.prems"(4) by (simp add: agrees_def)
    have q: "sPayload cur @ chain_bytes ?cs =
        take (length (sPayload cur) + length (chain_bytes ?cs)) (drop (sSequence cur) S)"
      unfolding take_add drop_drop using p conjunct1 [OF ih] nx(2) by (metis add.commute)
    have e: "sSequence cur + (length (sPayload cur) + length (chain_bytes ?cs)) \<le> length S \<and>
       (sFinal (last (cur # ?cs)) \<longrightarrow> sSequence cur + (length (sPayload cur) + length (chain_bytes ?cs)) = length S)"
      using ih nx(2) chain_nonempty [of "AList.delete ?k buf" nxt] by (simp add: add.assoc)
    show ?thesis
      unfolding chain_Cons [OF n] chain_bytes_Cons length_append by (rule conjI [OF q e])
  qed
qed

lemma reasm_insert_stream:
  assumes inv: "reasm_inv r" and s: "seg_in s" and mem: "mem_holds (rMemory r) (m + int (rBytes r))" "0 \<le> m"
    and st: "stream_inv S r" and ag: "agrees S s"
  shows "stream_inv S (snd (reasm_insert r s))"
    and "take (rNext r) S @ (case fst (reasm_insert r s) of Inl _ \<Rightarrow> [] | Inr (p, _) \<Rightarrow> p)
       = take (rNext (snd (reasm_insert r s))) S"
proof -
  let ?r = "snd (reasm_insert r s)"
  have "stream_inv S ?r \<and> take (rNext r) S @ (case fst (reasm_insert r s) of Inl _ \<Rightarrow> [] | Inr (p, _) \<Rightarrow> p)
       = take (rNext ?r) S"
  proof (cases rule: reasm_insert_cases [OF inv s, case_names refused ignored stored delivered])
    case (refused err)
    then show ?thesis using st by simp
  next
    case ignored
    then show ?thesis using st by simp
  next
    case (stored mem')
    have "agrees S (s\<lparr>sCharged := True\<rparr>)" using ag by (simp add: agrees_def)
    moreover have "sFinal s \<Longrightarrow> sSequence s = length S" using ag by (simp add: agrees_def)
    ultimately show ?thesis using stored(1) st
      by (simp add: stream_inv_def buffered_def AList.update_conv)
  next
    case delivered
    let ?cs = "chain (rBuffer r) s"
    obtain r' where r': "consumeContiguous r s = (Inr (chain_bytes ?cs, Closed r'), r')" "drained r ?cs r'"
      by (rule reasm_insert_delivers [OF inv s delivered(3,2) mem])
    have c: "chain_bytes ?cs = take (length (chain_bytes ?cs)) (drop (rNext r) S) \<and>
       rNext r + length (chain_bytes ?cs) \<le> length S \<and>
       (sFinal (last ?cs) \<longrightarrow> rNext r + length (chain_bytes ?cs) = length S)"
      using chain_agrees [OF _ delivered(3) _ ag] inv st delivered(2) by (simp add: reasm_inv_def stream_inv_def)
    have "rNext r' = rNext r + length (chain_bytes ?cs)" using r'(2) by (simp add: drained_def)
    then have "stream_inv S r'" "take (rNext r') S = take (rNext r) S @ chain_bytes ?cs"
      using r'(2) c st conjunct1 [OF c, symmetric]
      by (auto simp: stream_inv_def drained_def take_add split: if_splits)
    then show ?thesis using r'(1) delivered(1) by simp
  qed
  then show "stream_inv S ?r" "take (rNext r) S @ (case fst (reasm_insert r s) of Inl _ \<Rightarrow> [] | Inr (p, _) \<Rightarrow> p)
       = take (rNext ?r) S" by blast+
qed

lemma run_bytes_Cons:
  "run_bytes r (s # ss) = (case fst (reasm_insert r s) of Inl _ \<Rightarrow> [] | Inr (p, _) \<Rightarrow> p) @ run_bytes (snd (reasm_insert r s)) ss"
  by (cases "reasm_insert r s"; cases "fst (reasm_insert r s)") (auto simp: run_Cons_error run_Cons_ok)

lemma run_stream:
  assumes "reasm_inv r" and "mem_holds (rMemory r) (m + int (rBytes r))" "0 \<le> m"
    and "stream_inv S r" and "\<forall>s \<in> set ss. seg_in s \<and> agrees S s"
  shows "stream_inv S (run_state r ss) \<and> take (rNext r) S @ run_bytes r ss = take (rNext (run_state r ss)) S"
  using assms
proof (induction ss arbitrary: r)
  case Nil
  then show ?case by simp
next
  case (Cons s ss)
  have s: "seg_in s" "agrees S s" using Cons.prems(5) by simp_all
  note k = reasm_insert_keeps(1,2) [OF Cons.prems(1) s(1) Cons.prems(2,3)]
  note t = reasm_insert_stream [OF Cons.prems(1) s(1) Cons.prems(2-4) s(2)]
  have "\<forall>s \<in> set ss. seg_in s \<and> agrees S s" using Cons.prems(5) by simp
  from Cons.IH [OF k Cons.prems(3) t(1) this] t(2)
  show ?case by (simp add: run_state_Cons run_bytes_Cons flip: append_assoc)
qed

lemma NewReassembler_stream: "stream_inv S (NewReassembler cfg)"
  by (simp add: stream_inv_def NewReassembler_def Let_def)

section \<open>Complete cuts\<close>

text \<open>\<open>segments_of off ps\<close>: the stream \<open>concat ps\<close> from offset \<open>off\<close> as a sender cuts it, one data segment per piece
  and the FIN after the last.\<close>

definition data_seg :: "nat \<Rightarrow> bytes \<Rightarrow> segment" where
  "data_seg q p = \<lparr>sSequence = q, sPayload = p, sFinal = False, sCharged = False\<rparr>"

definition fin_seg :: "nat \<Rightarrow> segment" where
  "fin_seg q = \<lparr>sSequence = q, sPayload = [], sFinal = True, sCharged = False\<rparr>"

lemmas seg_defs = data_seg_def fin_seg_def

fun segments_of :: "nat \<Rightarrow> bytes list \<Rightarrow> segment list" where
  "segments_of off [] = [fin_seg off]"
| "segments_of off (p # ps) = data_seg off p # segments_of (off + length p) ps"

definition pieces_ok :: "bytes list \<Rightarrow> bool" where
  "pieces_ok ps \<longleftrightarrow> (\<forall>p \<in> set ps. p \<noteq> [] \<and> go_slice p) \<and> length (concat ps) \<le> u64_max"

lemma cut_range:
  "[] \<notin> set ps \<Longrightarrow> c \<in> set (segments_of off ps) \<Longrightarrow> off \<le> sSequence c \<and>
     sSequence c + length (sPayload c) \<le> off + length (concat ps) \<and> \<not> sCharged c \<and>
     (sFinal c \<longleftrightarrow> sPayload c = []) \<and> (sFinal c \<longrightarrow> sSequence c = off + length (concat ps))"
  by (induction ps arbitrary: off) (force simp: seg_defs)+

lemma cut_disjoint:
  "[] \<notin> set ps \<Longrightarrow> c \<in> set (segments_of off ps) \<Longrightarrow> d \<in> set (segments_of off ps) \<Longrightarrow>
     (sSequence c < sSequence d \<longrightarrow> sSequence c + length (sPayload c) \<le> sSequence d) \<and>
     (sSequence c = sSequence d \<longrightarrow> c = d)"
proof (induction ps arbitrary: off)
  case Nil
  then show ?case by (simp add: seg_defs)
next
  case (Cons p ps)
  have ne: "[] \<notin> set ps" "p \<noteq> []" using Cons.prems(1) by auto
  have lo: "off + length p \<le> sSequence x" if "x \<in> set (segments_of (off + length p) ps)" for x
    using cut_range [OF ne(1) that] by simp
  have new: "sSequence (data_seg off p) = off" "sPayload (data_seg off p) = p" by (simp_all add: seg_defs)
  show ?case
    using Cons.prems(2,3) Cons.IH [OF ne(1)] lo new ne(2) by (cases p) fastforce+
qed

lemma cut_next:
  "c \<in> set (segments_of off ps) \<Longrightarrow> \<not> sFinal c \<Longrightarrow> sSequence c + length (sPayload c) \<in> sSequence ` set (segments_of off ps)"
proof (induction ps arbitrary: off)
  case Nil
  then show ?case by (simp add: seg_defs)
next
  case (Cons p ps)
  have "off + length p \<in> sSequence ` set (segments_of (off + length p) ps)"
    by (cases ps) (simp_all add: seg_defs)
  then show ?case using Cons by (auto simp: seg_defs)
qed

lemma cut_agrees: "c \<in> set (segments_of (length pre) ps) \<Longrightarrow> agrees (pre @ concat ps) c"
proof (induction ps arbitrary: pre)
  case Nil
  then show ?case by (simp add: agrees_def seg_defs)
next
  case (Cons p ps)
  show ?case
  proof (cases "c = data_seg (length pre) p")
    case True
    then show ?thesis by (simp add: agrees_def seg_defs)
  next
    case False
    then have "c \<in> set (segments_of (length (pre @ p)) ps)" using Cons.prems by simp
    from Cons.IH [OF this] show ?thesis by simp
  qed
qed

lemma cut_seg_in: "pieces_ok ps \<Longrightarrow> c \<in> set (segments_of off ps) \<Longrightarrow> seg_in c"
  unfolding pieces_ok_def
  by (induction ps arbitrary: off) (auto simp: seg_in_def seg_defs go_slice_def)

lemma cut_start: "off \<in> sSequence ` set (segments_of off ps)"
  by (cases ps) (simp_all add: seg_defs)

lemma length_cut: "length (segments_of off ps) = Suc (length ps)"
  by (induction ps arbitrary: off) simp_all

text \<open>A segment of the cut, charged or not.\<close>

definition is_cut :: "bytes list \<Rightarrow> segment \<Rightarrow> bool" where
  "is_cut ps e \<longleftrightarrow> e\<lparr>sCharged := False\<rparr> \<in> set (segments_of 0 ps)"

lemma is_cut_disjoint:
  assumes "[] \<notin> set ps" "is_cut ps c" "is_cut ps d"
  shows "sSequence c < sSequence d \<Longrightarrow> sSequence c + length (sPayload c) \<le> sSequence d"
    and "sSequence c = sSequence d \<Longrightarrow> sFinal c = sFinal d \<and> sPayload c = sPayload d"
proof -
  note D = cut_disjoint [OF assms(1) assms(2,3) [unfolded is_cut_def]]
  show "sSequence c < sSequence d \<Longrightarrow> sSequence c + length (sPayload c) \<le> sSequence d" using D by simp
  assume "sSequence c = sSequence d"
  then have "c\<lparr>sCharged := False\<rparr> = d\<lparr>sCharged := False\<rparr>" using D by simp
  then show "sFinal c = sFinal d \<and> sPayload c = sPayload d" by (cases c; cases d) simp
qed

lemma is_cut_self: "[] \<notin> set ps \<Longrightarrow> c \<in> set (segments_of 0 ps) \<Longrightarrow> is_cut ps c"
  using cut_range [of ps c 0] by (cases c) (simp add: is_cut_def)

lemma is_cut_range:
  assumes "[] \<notin> set ps" "is_cut ps c"
  shows "sSequence c + length (sPayload c) \<le> length (concat ps)"
    "sFinal c \<longleftrightarrow> sPayload c = []" "sFinal c \<Longrightarrow> sSequence c = length (concat ps)"
    "sSequence c \<in> sSequence ` set (segments_of 0 ps)"
    "\<not> sFinal c \<Longrightarrow> sSequence c + length (sPayload c) \<in> sSequence ` set (segments_of 0 ps)"
  using cut_range [OF assms(1) assms(2) [unfolded is_cut_def]] cut_next [OF assms(2) [unfolded is_cut_def]]
    assms(2) by (auto simp: is_cut_def intro: rev_image_eqI)

text \<open>The chain of a cut stream ends at a cut point, at which nothing more is buffered but a FIN.\<close>

lemma chain_cut:
  assumes "buf_ok buf" and "cur_ok buf cur" and "[] \<notin> set ps"
    and "\<And>k s. map_of buf k = Some s \<Longrightarrow> is_cut ps s" and "is_cut ps cur"
  shows "sSequence cur + length (chain_bytes (chain buf cur)) \<in> sSequence ` set (segments_of 0 ps) \<and>
     (\<not> sFinal (last (chain buf cur)) \<longrightarrow> map_of buf (sSequence cur + length (chain_bytes (chain buf cur))) = None)"
  using assms
proof (induction buf cur rule: chain.induct)
  case (1 buf cur)
  let ?k = "sSequence cur + length (sPayload cur)"
  note range = is_cut_range [OF "1.prems"(3,5)]
  show ?case
  proof (cases "sFinal cur \<or> map_of buf ?k = None")
    case True
    then have c: "chain buf cur = [cur]" by (rule chain_end)
    show ?thesis using True range(2,4,5) unfolding c by (cases "sFinal cur") (simp_all add: chain_bytes_def)
  next
    case False
    then obtain nxt where n: "\<not> sFinal cur" "map_of buf ?k = Some nxt" by (metis option.exhaust)
    note nx = cur_ok_next [OF "1.prems"(1,2) n]
    let ?cs = "chain (AList.delete ?k buf) nxt"
    have ih: "sSequence nxt + length (chain_bytes ?cs) \<in> sSequence ` set (segments_of 0 ps) \<and>
       (\<not> sFinal (last ?cs) \<longrightarrow> map_of (AList.delete ?k buf) (sSequence nxt + length (chain_bytes ?cs)) = None)"
    proof (rule "1.IH" [OF n buf_ok_delete [OF "1.prems"(1)] nx(1) "1.prems"(3)])
      show "is_cut ps s" if "map_of (AList.delete ?k buf) k = Some s" for k s
        using that "1.prems"(4) by (auto simp: AList.delete_conv split: if_splits)
    qed (rule "1.prems"(4) [OF n(2)])
    have hd: "?cs = nxt # tl ?cs" by (simp add: chain.simps [of _ nxt] split: option.splits)
    have pos: "0 < length (chain_bytes ?cs)" if "\<not> sFinal (last ?cs)"
    proof -
      have "sFinal nxt \<Longrightarrow> ?cs = [nxt]" by (simp add: chain_end)
      then have "sPayload nxt \<noteq> []" using that nx(1) by (auto simp: cur_ok_def)
      moreover have "chain_bytes ?cs = sPayload nxt @ chain_bytes (tl ?cs)" by (subst hd) (simp add: chain_bytes_Cons)
      ultimately show ?thesis by simp
    qed
    show ?thesis
      using ih nx(2) chain_nonempty [of "AList.delete ?k buf" nxt] pos
      unfolding chain_Cons [OF n] chain_bytes_Cons by (auto simp: add.assoc AList.delete_conv)
  qed
qed

text \<open>
  \<open>settled ps r c\<close>: segment \<open>c\<close> of the cut was handed in, and is delivered, buffered or (a FIN) recorded.
  \<open>cut_inv\<close> is the invariant of a run over the cut with room for all of it, in the limits and in the shared budget if there is one.
\<close>

definition settled :: "reassembler \<Rightarrow> segment \<Rightarrow> bool" where
  "settled r c \<longleftrightarrow> (if sFinal c then rFinalAt r \<noteq> None
     else sSequence c + length (sPayload c) \<le> rNext r \<or> map_of (rBuffer r) (sSequence c) \<noteq> None)"

definition spare :: "nat \<Rightarrow> reassembler \<Rightarrow> int \<Rightarrow> bool" where
  "spare n r z \<longleftrightarrow> (\<forall>b. rMemory r = Some b \<longrightarrow> used b - int (rBytes r) - z + int n \<le> capacity b)"

definition cut_inv :: "bytes list \<Rightarrow> reassembler \<Rightarrow> bool" where
  "cut_inv ps r \<longleftrightarrow> reasm_inv r \<and> stream_inv (concat ps) r \<and> mem_holds (rMemory r) (int (rBytes r)) \<and> spare (length (concat ps)) r 0 \<and>
     int (length ps) < MaxBufferedFrames (rCfg r) \<and> length (concat ps) \<le> MaxBufferedBytes (rCfg r) \<and>
     rNext r \<in> sSequence ` set (segments_of 0 ps) \<and>
     (\<forall>k e. map_of (rBuffer r) k = Some e \<longrightarrow> is_cut ps e \<and> (sFinal e \<longrightarrow> rFinalAt r \<noteq> None))"

lemma cut_apart:
  assumes "[] \<notin> set ps" "cut_inv ps r" "is_cut ps c"
  shows "apart (rBuffer r) (sSequence c) (sSequence c + length (sPayload c))"
  unfolding apart_def
proof (intro allI impI)
  fix k e assume e: "map_of (rBuffer r) k = Some e"
  then have "is_cut ps e" "sSequence e = k"
    using assms(2) by (auto simp: cut_inv_def reasm_inv_def buf_ok_def seg_wf_def)
  then show "(k < sSequence c \<longrightarrow> k + length (sPayload e) \<le> sSequence c) \<and>
      (sSequence c < k \<longrightarrow> sSequence c + length (sPayload c) \<le> k)"
    using is_cut_disjoint(1) [OF assms(1)] assms(3) by blast
qed

lemma cut_frames:
  assumes "cut_inv ps r" "[] \<notin> set ps" "c \<in> set (segments_of 0 ps)" "map_of (rBuffer r) (sSequence c) = None"
  shows "length (rBuffer r) + 1 \<le> Suc (length ps)"
proof -
  let ?K = "fst ` set (rBuffer r)" and ?C = "sSequence ` set (segments_of 0 ps)"
  have buf: "buf_ok (rBuffer r)" using assms(1) by (simp add: cut_inv_def reasm_inv_def)
  have "k \<in> ?C" if "k \<in> ?K" for k
  proof -
    obtain e where e: "map_of (rBuffer r) k = Some e" using \<open>k \<in> ?K\<close> by (metis map_of_eq_None_iff not_Some_eq)
    then have "sSequence e = k" using buf by (auto simp: buf_ok_def seg_wf_def)
    then show ?thesis using e assms(1,2) is_cut_range(4) by (auto simp: cut_inv_def)
  qed
  moreover have "sSequence c \<notin> ?K" using assms(4) by (simp add: map_of_eq_None_iff)
  ultimately have "card (insert (sSequence c) ?K) \<le> card ?C" using assms(3) by (intro card_mono) auto
  also have "\<dots> \<le> Suc (length ps)" using card_image_le [of "set (segments_of 0 ps)" sSequence] card_length [of "segments_of 0 ps"]
    by (simp add: length_cut)
  finally show ?thesis
    using buf distinct_card [of "map fst (rBuffer r)"] \<open>sSequence c \<notin> ?K\<close> by (simp add: buf_ok_def)
qed

lemma cut_fits:
  assumes ps: "pieces_ok ps" and i: "cut_inv ps r" and c: "c \<in> set (segments_of 0 ps)"
  shows "insert_fits r c"
proof -
  have ne: "[] \<notin> set ps" and max: "length (concat ps) \<le> u64_max" using ps by (auto simp: pieces_ok_def)
  have ic: "is_cut ps c" by (rule is_cut_self [OF ne c])
  note range = is_cut_range [OF ne ic]
  have buf: "buf_ok (rBuffer r)" and byt: "rBytes r = buf_bytes (rBuffer r)"
    using i by (auto simp: cut_inv_def reasm_inv_def)
  show ?thesis
  proof (cases "map_of (rBuffer r) (sSequence c)")
    case (Some e)
    then have "is_cut ps e" "sSequence e = sSequence c"
      using i buf by (auto simp: cut_inv_def buf_ok_def seg_wf_def)
    then have "sFinal e = sFinal c \<and> sPayload e = sPayload c" by (intro is_cut_disjoint(2) [OF ne _ ic])
    then show ?thesis using Some range(1,2) max by (simp add: insert_fits_def)
  next
    case None
    let ?c = "c\<lparr>sCharged := True\<rparr>"
    have ap: "apart (rBuffer r) (sSequence c) (sSequence c + length (sPayload c))" by (rule cut_apart [OF ne i ic])
    have "buf_ok (AList.update (sSequence c) ?c (rBuffer r))"
      using buf None ap range(1,2) max by (intro buf_ok_update) (auto simp: seg_wf_def)
    moreover have "k + length (sPayload e) \<le> length (concat ps)"
      if "map_of (AList.update (sSequence c) ?c (rBuffer r)) k = Some e" for k e
    proof (cases "k = sSequence c")
      case True
      then show ?thesis using that range(1) by (auto simp: AList.update_conv)
    next
      case False
      then have "map_of (rBuffer r) k = Some e" using that by (simp add: AList.update_conv)
      then have "is_cut ps e" "sSequence e = k" using i buf by (auto simp: cut_inv_def buf_ok_def seg_wf_def)
      then show ?thesis using is_cut_range(1) [OF ne] by blast
    qed
    ultimately have "buf_bytes (AList.update (sSequence c) ?c (rBuffer r)) \<le> length (concat ps)"
      by (rule buf_bytes_bound)
    then have "rBytes r + length (sPayload c) \<le> length (concat ps)"
      using None by (simp add: AList_update_new byt buf_bytes_def)
    then show ?thesis
      using None ap range(1,2) max i cut_frames [OF i ne c None]
      by (auto simp: insert_fits_def cut_inv_def spare_def TryAcquire_def split: option.splits)
  qed
qed

text \<open>The loop gives back what it takes out of the buffer: what others use of the shared budget stays the same.\<close>

lemma drain_spare:
  assumes "drain r cur fs d out w = (Inr x, r')" "\<And>k e. map_of (rBuffer r) k = Some e \<Longrightarrow> sCharged e \<and> (sFinal e \<longrightarrow> sPayload e = [])"
    and "spare n r (if sCharged cur then int (length (sPayload cur)) else 0)" "sFinal cur \<Longrightarrow> sPayload cur = []"
  shows "spare n r' 0"
  using assms
proof (induction "length (rBuffer r)" arbitrary: r cur out w rule: less_induct)
  case less
  let ?k = "add64 (rNext r) (length (sPayload cur))"
  let ?rel = "if sCharged cur then Release (rMemory r) (int (length (sPayload cur))) else Some (rMemory r)"
  show ?case
  proof (cases "sFinal cur")
    case True
    then show ?thesis using less.prems by (auto simp: drain.simps [of r cur] spare_def split: if_splits)
  next
    case False
    then obtain mem where mem: "?rel = Some mem" using less.prems(1) by (cases ?rel) (auto simp: drain.simps [of r cur] Let_def)
    let ?r1 = "r\<lparr>rMemory := mem, rNext := ?k\<rparr>"
    have s1: "spare n ?r1 0" using less.prems(3) mem by (auto simp: spare_def Release_def split: if_splits option.splits)
    show ?thesis
    proof (cases "map_of (rBuffer r) ?k")
      case None
      then show ?thesis using less.prems(1) False mem s1 by (simp add: drain.simps [of r cur] Let_def)
    next
      case (Some nxt)
      let ?r2 = "?r1\<lparr>rBuffer := AList.delete ?k (rBuffer r), rOrder := removeOrder (rOrder r) ?k, rBytes := rBytes r - length (sPayload nxt)\<rparr>"
      have "?k \<in> fst ` set (rBuffer r)" using Some by (auto dest: map_of_SomeD intro: rev_image_eqI)
      then have len: "length (rBuffer ?r2) < length (rBuffer r)" by (auto simp: AList.delete_eq intro!: length_filter_less)
      obtain out' w' where rest: "drain ?r2 nxt fs d out' w' = (Inr x, r')" using less.prems(1) False mem Some by (auto simp: drain.simps [of r cur] Let_def)
      have n: "sCharged nxt" "sFinal nxt \<Longrightarrow> sPayload nxt = []" using less.prems(2) [OF Some] by auto
      have sp: "spare n ?r2 (if sCharged nxt then int (length (sPayload nxt)) else 0)" using s1 n(1) by (auto simp: spare_def)
      have ch: "sCharged e \<and> (sFinal e \<longrightarrow> sPayload e = [])" if "map_of (rBuffer ?r2) k = Some e" for k e
        using less.prems(2) that by (auto simp: AList.delete_conv split: if_splits)
      show ?thesis by (rule less.hyps [OF len rest ch sp n(2)])
    qed
  qed
qed

lemma consume_spare:
  assumes "consumeContiguous r c = (Inr x, r')" "reasm_inv r" "spare n r 0" "\<not> sCharged c" "sFinal c \<Longrightarrow> sPayload c = []"
  shows "spare n r' 0"
proof -
  obtain out d where "drain r c (sSequence c) d out (length (sPayload c)) = (Inr x, r')"
    using assms(1) by (auto simp: consumeContiguous_def Let_def split: if_splits sum.splits)
  then show ?thesis using assms by (rule_tac drain_spare) (auto simp: reasm_inv_def buf_ok_def seg_wf_def)
qed

lemma cut_stored:
  assumes "cut_inv ps r" "c \<in> set (segments_of 0 ps)" "[] \<notin> set ps" "reasm_inv (buffered r c mem)"
    "stream_inv (concat ps) (buffered r c mem)" "TryAcquire (rMemory r) (int (length (sPayload c))) = (True, mem)"
  shows "cut_inv ps (buffered r c mem) \<and> settled (buffered r c mem) c \<and>
     (\<forall>d. settled r d \<longrightarrow> settled (buffered r c mem) d)"
proof -
  have "is_cut ps (c\<lparr>sCharged := True\<rparr>)" using is_cut_self [OF assms(3,2)] by (simp add: is_cut_def)
  moreover have "mem_holds (rMemory (buffered r c mem)) (int (rBytes (buffered r c mem)))"
    using buffered_mem_holds [OF assms(6), of 0] assms(1) by (simp add: cut_inv_def)
  moreover have "spare (length (concat ps)) (buffered r c mem) 0"
    using assms(1,6) by (auto simp: cut_inv_def spare_def buffered_def TryAcquire_def take_bytes_def split: option.splits if_splits)
  moreover have "int (length ps) < MaxBufferedFrames (rCfg r)"
    "length (concat ps) \<le> MaxBufferedBytes (rCfg r)" "rNext r \<in> sSequence ` set (segments_of 0 ps)"
    "\<And>k e. map_of (rBuffer r) k = Some e \<Longrightarrow> is_cut ps e \<and> (sFinal e \<longrightarrow> rFinalAt r \<noteq> None)"
    using assms(1) by (auto simp: cut_inv_def)
  ultimately have "cut_inv ps (buffered r c mem)"
    using assms(4,5) unfolding cut_inv_def by (simp add: buffered_def AList.update_conv)
  then show ?thesis by (simp add: settled_def buffered_def AList.update_conv)
qed

lemma cut_delivered:
  assumes i: "cut_inv ps r" and c: "c \<in> set (segments_of 0 ps)" "[] \<notin> set ps" and cur: "cur_ok (rBuffer r) c" "sSequence c = rNext r"
    and dr: "drained r (chain (rBuffer r) c) r'" and "reasm_inv r'" "stream_inv (concat ps) r'"
    and "mem_holds (rMemory r') (int (rBytes r'))" "spare (length (concat ps)) r' 0"
  shows "cut_inv ps r' \<and> settled r' c \<and> (\<forall>d \<in> set (segments_of 0 ps). settled r d \<longrightarrow> settled r' d)"
proof -
  let ?cs = "chain (rBuffer r) c"
  have buf: "buf_ok (rBuffer r)" using i by (simp add: cut_inv_def reasm_inv_def)
  have ic: "is_cut ps c" by (rule is_cut_self [OF c(2,1)])
  have next': "rNext r' = rNext r + length (chain_bytes ?cs)"
    and map': "\<And>k. map_of (rBuffer r') k = (if rNext r \<le> k \<and> k \<le> rNext r' then None else map_of (rBuffer r) k)"
    and fin': "rFinalAt r' = (if sFinal (last ?cs) then Some (rNext r') else rFinalAt r)"
    and cfg': "rCfg r' = rCfg r"
    using dr by (simp_all add: drained_def)
  have bd: "rNext r' \<in> sSequence ` set (segments_of 0 ps)"
    and stop: "\<not> sFinal (last ?cs) \<Longrightarrow> map_of (rBuffer r) (rNext r') = None"
    using chain_cut [OF buf cur(1) c(2) _ ic] i cur(2) next' by (simp_all add: cut_inv_def)
  obtain b where b: "b \<in> set (segments_of 0 ps)" "sSequence b = rNext r'" using bd by auto
  have whole: "sFinal (last ?cs) \<Longrightarrow> rNext r' = length (concat ps)"
    using assms(8) fin' by (auto simp: stream_inv_def)
  have below: "sSequence d + length (sPayload d) \<le> rNext r'" if "d \<in> set (segments_of 0 ps)" "sSequence d < rNext r'" for d
    using cut_disjoint [OF c(2) that(1) b(1)] that(2) b(2) by simp
  have ci: "cut_inv ps r'"
    using i assms(7-10) bd map' fin' cfg' unfolding cut_inv_def by (auto split: if_splits)
  have "settled r' d" if d: "d \<in> set (segments_of 0 ps)" "settled r d" for d
  proof (cases "sFinal d")
    case True
    then show ?thesis using d(2) fin' by (simp add: settled_def)
  next
    case False
    then have "sPayload d \<noteq> []" using is_cut_range(2) [OF c(2) is_cut_self [OF c(2) d(1)]] by simp
    then have "sFinal (last ?cs) \<Longrightarrow> sSequence d < rNext r'"
      using whole is_cut_range(1) [OF c(2) is_cut_self [OF c(2) d(1)]] by (cases "sPayload d") simp_all
    then have "sSequence d = rNext r' \<Longrightarrow> map_of (rBuffer r) (sSequence d) = None" using stop by auto
    moreover have "rNext r \<le> rNext r'" using next' by simp
    ultimately show ?thesis
      using d False map' [of "sSequence d"] below [OF d(1)] length_greater_0_conv [THEN iffD2, OF \<open>sPayload d \<noteq> []\<close>]
      by (cases "sSequence d = rNext r'") (auto simp: settled_def split: if_splits)
  qed
  moreover have "settled r' c"
  proof (cases "sFinal c")
    case True
    then show ?thesis using fin' by (simp add: settled_def chain_end)
  next
    case False
    have hd: "?cs = c # tl ?cs" by (simp add: chain.simps [of _ c] split: option.splits)
    have "chain_bytes ?cs = sPayload c @ chain_bytes (tl ?cs)" by (subst hd) (simp add: chain_bytes_Cons)
    then show ?thesis using False next' cur(2) by (simp add: settled_def)
  qed
  ultimately show ?thesis using ci by blast
qed

lemma cut_step:
  assumes ps: "pieces_ok ps" and i: "cut_inv ps r" and c: "c \<in> set (segments_of 0 ps)"
  obtains p cl r' where "reasm_insert r c = (Inr (p, cl), r')" "cut_inv ps r'" "settled r' c"
    "\<And>d. d \<in> set (segments_of 0 ps) \<Longrightarrow> settled r d \<Longrightarrow> settled r' d"
proof -
  have ne: "[] \<notin> set ps" using ps by (auto simp: pieces_ok_def)
  have s: "seg_in c" by (rule cut_seg_in [OF ps c])
  have ag: "agrees (concat ps) c" using cut_agrees [of c "[]" ps] c by simp
  have inv: "reasm_inv r" and st: "stream_inv (concat ps) r" and mh: "mem_holds (rMemory r) (0 + int (rBytes r))"
    and sp: "spare (length (concat ps)) r 0" using i by (simp_all add: cut_inv_def)
  note st' = reasm_insert_stream(1) [OF inv s mh _ st ag, simplified]
  show thesis
  proof (cases rule: reasm_insert_cases [OF inv s, case_names refused ignored stored delivered])
    case (refused err)
    then show thesis using cut_fits [OF ps i c] by simp
  next
    case ignored
    have "settled r c"
    proof (cases "sFinal c")
      case True
      then have "\<not> sSequence c + length (sPayload c) < rNext r"
        using st ag by (simp add: agrees_def stream_inv_def)
      then obtain e where "map_of (rBuffer r) (sSequence c) = Some e" "sFinal e" using ignored(2) True by auto
      then show ?thesis using i True by (auto simp: settled_def cut_inv_def)
    next
      case False
      then show ?thesis using ignored(2) by (auto simp: settled_def)
    qed
    then show thesis using that ignored(1) i by blast
  next
    case (stored mem')
    have "stream_inv (concat ps) (buffered r c mem')" using st' stored(1) by simp
    note k = cut_stored [OF i c ne stored(5) this stored(2)]
    show thesis using that [OF stored(1)] k by blast
  next
    case delivered
    obtain r' where r': "consumeContiguous r c = (Inr (chain_bytes (chain (rBuffer r) c), Closed r'), r')"
      "drained r (chain (rBuffer r) c) r'" "reasm_inv r'" "mem_holds (rMemory r') (0 + int (rBytes r'))"
      by (rule reasm_insert_delivers [OF inv s delivered(3,2) mh]) simp
    have "\<not> sCharged c" "sFinal c \<Longrightarrow> sPayload c = []" using s is_cut_range(2) [OF ne is_cut_self [OF ne c]] by (auto simp: seg_in_def)
    then have "spare (length (concat ps)) r' 0" using consume_spare [OF r'(1) inv sp] by blast
    moreover have "stream_inv (concat ps) r'" using st' r'(1) delivered(1) by simp
    ultimately show thesis
      using that cut_delivered [OF i c ne delivered(3,2) r'(2,3)] r'(1,4) delivered(1) by simp
  qed
qed

lemma cut_run:
  assumes "pieces_ok ps" and "cut_inv ps r" and "set ss \<subseteq> set (segments_of 0 ps)"
  shows "run_errors r ss = [] \<and> cut_inv ps (run_state r ss) \<and>
     (\<forall>c \<in> set (segments_of 0 ps). c \<in> set ss \<or> settled r c \<longrightarrow> settled (run_state r ss) c)"
  using assms(2,3)
proof (induction ss arbitrary: r)
  case Nil
  then show ?case by simp
next
  case (Cons s ss)
  have "s \<in> set (segments_of 0 ps)" using Cons.prems(2) by simp
  from cut_step [OF assms(1) Cons.prems(1) this] obtain p cl r' where
    r': "reasm_insert r s = (Inr (p, cl), r')" "cut_inv ps r'" "settled r' s"
      "\<And>d. d \<in> set (segments_of 0 ps) \<Longrightarrow> settled r d \<Longrightarrow> settled r' d"
    by blast
  have "set ss \<subseteq> set (segments_of 0 ps)" using Cons.prems(2) by simp
  from Cons.IH [OF r'(2) this] r'(3,4) show ?case by (auto simp: run_Cons_ok [OF r'(1)])
qed

lemma cut_settled_closed:
  assumes ps: "pieces_ok ps" and i: "cut_inv ps r" and all: "\<And>c. c \<in> set (segments_of 0 ps) \<Longrightarrow> settled r c"
  shows "rNext r = length (concat ps) \<and> Closed r"
proof -
  have ne: "[] \<notin> set ps" using ps by (auto simp: pieces_ok_def)
  obtain b where b: "b \<in> set (segments_of 0 ps)" "sSequence b = rNext r" using i by (auto simp: cut_inv_def)
  note range = is_cut_range [OF ne is_cut_self [OF ne b(1)]]
  have "map_of (rBuffer r) (rNext r) = None" using i by (simp add: cut_inv_def reasm_inv_def)
  then have f: "sFinal b" using all [OF b(1)] b(2) range(2) by (auto simp: settled_def split: if_splits)
  then obtain at where "rFinalAt r = Some at" using all [OF b(1)] by (auto simp: settled_def)
  moreover have "at = length (concat ps)" using calculation i by (simp add: cut_inv_def stream_inv_def)
  ultimately show ?thesis using range(3) [OF f] b(2) by (simp add: Closed_def)
qed

lemma cut_inv_new:
  assumes "pieces_ok ps" and "MaxBufferedBytes cfg \<ge> length (concat ps)" and "MaxBufferedFrames cfg > int (length ps)"
    and "MaxBufferedBytes cfg > 0" and "mem_holds (Memory cfg) 0"
    and "case Memory cfg of None \<Rightarrow> True | Some b \<Rightarrow> used b + int (length (concat ps)) \<le> capacity b"
  shows "cut_inv ps (NewReassembler cfg)"
proof -
  have "reasm_inv (NewReassembler cfg)" using NewReassembler_inv [of 0 cfg] assms(5) by simp
  then show ?thesis
    using assms NewReassembler_stream [of "concat ps" cfg] cut_start [of 0 ps]
    by (auto simp: cut_inv_def spare_def NewReassembler_def split: option.splits)
qed

section \<open>The reported ranges\<close>

text \<open>The byte at offset \<open>x\<close> is held out of order.\<close>

definition held :: "(nat \<times> segment) list \<Rightarrow> nat \<Rightarrow> bool" where
  "held buf x \<longleftrightarrow> (\<exists>k s. map_of buf k = Some s \<and> k \<le> x \<and> x < k + length (sPayload s))"

definition keys_ok :: "(nat \<times> segment) list \<Rightarrow> nat list \<Rightarrow> bool" where
  "keys_ok buf ks \<longleftrightarrow> sorted_wrt (\<lambda>k k'. k + length (sPayload (buf_at buf k)) \<le> k') ks \<and>
     (\<forall>k \<in> set ks. seg_wf k (buf_at buf k))"

lemma reasm_inv_keys_ok:
  assumes "buf_ok buf" "order_ok order buf"
  shows "keys_ok buf order"
proof -
  have so: "sorted_wrt (<) order" using assms(2) by (simp add: order_ok_def)
  have "k + length (sPayload (buf_at buf k)) \<le> k'" if k: "k \<in> set order" "k' \<in> set order" "k < k'" for k k'
  proof -
    obtain e e' where "map_of buf k = Some e" "map_of buf k' = Some e'" using order_ok_key [OF assms(2)] k by blast
    then show ?thesis using assms(1) k(3) by (auto simp: buf_ok_def apart_def)
  qed
  then have "sorted_wrt (\<lambda>k k'. k + length (sPayload (buf_at buf k)) \<le> k') order"
    by (rule sorted_wrt_mono_rel [OF _ so])
  moreover have "seg_wf k (buf_at buf k)" if "k \<in> set order" for k
    using order_ok_key [OF assms(2) that] assms(1) by (auto simp: buf_ok_def)
  ultimately show ?thesis by (simp add: keys_ok_def)
qed

lemma merge_ranges_spec:
  assumes "keys_ok buf ks" "ranges_sep rs" "rs \<noteq> [] \<Longrightarrow> \<forall>k \<in> set ks. snd (last rs) \<le> k"
  shows "ranges_sep (merge_ranges buf ks rs) \<and>
     (\<forall>x. ranges_cover (merge_ranges buf ks rs) x \<longleftrightarrow> ranges_cover rs x \<or>
        (\<exists>k \<in> set ks. k \<le> x \<and> x < k + length (sPayload (buf_at buf k))))"
  using assms
proof (induction ks arbitrary: rs)
  case Nil
  then show ?case by simp
next
  case (Cons k ks)
  let ?s = "buf_at buf k" let ?e = "k + length (sPayload ?s)"
  have ko: "keys_ok buf ks" and le: "\<forall>k' \<in> set ks. ?e \<le> k'" and wf: "seg_wf k ?s"
    using Cons.prems(1) by (auto simp: keys_ok_def)
  have e: "add64 k (length (sPayload ?s)) = ?e" "?e \<le> u64_max" using wf by (simp_all add: seg_wf_def add64_small)
  show ?case
  proof (cases "sFinal ?s")
    case True
    then have "sPayload ?s = []" using wf by (simp add: seg_wf_def)
    then show ?thesis using True Cons.IH [OF ko Cons.prems(2)] Cons.prems(3) by (auto simp: Let_def)
  next
    case False
    then have lt: "k < ?e" using wf by (simp add: seg_wf_def)
    show ?thesis
    proof (cases "rs \<noteq> [] \<and> snd (last rs) = k")
      case True
      then obtain ys a where rs: "rs = ys @ [(a, k)]" by (cases rs rule: rev_cases) auto
      have "ranges_sep (ys @ [(a, ?e)])" using Cons.prems(2) lt e(2) unfolding rs by (rule ranges_sep_extend)
      from Cons.IH [OF ko this] show ?thesis
        using False rs e(1) lt le Cons.prems(2) by (auto simp: Let_def ranges_cover_def ranges_sep_def)
    next
      case ne: False
      have "ranges_sep (rs @ [(k, ?e)])"
        using Cons.prems(2,3) ne lt e(2) by (intro ranges_sep_snoc) force+
      from Cons.IH [OF ko this] show ?thesis
        using False ne e(1) lt le by (auto simp: Let_def ranges_cover_def)
    qed
  qed
qed

lemma merge_ranges_held:
  assumes "reasm_inv r"
  shows "ranges_sep (merge_ranges (rBuffer r) (rOrder r) [])"
    and "ranges_cover (merge_ranges (rBuffer r) (rOrder r) []) x \<longleftrightarrow> held (rBuffer r) x"
proof -
  have i: "buf_ok (rBuffer r)" "order_ok (rOrder r) (rBuffer r)" using assms by (simp_all add: reasm_inv_def)
  note m = merge_ranges_spec [OF reasm_inv_keys_ok [OF i], of "[]"]
  show "ranges_sep (merge_ranges (rBuffer r) (rOrder r) [])" using m by (simp add: ranges_sep_def)
  have "(\<exists>k \<in> set (rOrder r). k \<le> x \<and> x < k + length (sPayload (buf_at (rBuffer r) k))) \<longleftrightarrow> held (rBuffer r) x"
    using order_ok_key [OF i(2)] order_ok_keyI [OF i(2)] by (fastforce simp: held_def)
  then show "ranges_cover (merge_ranges (rBuffer r) (rOrder r) []) x \<longleftrightarrow> held (rBuffer r) x"
    using m by (simp add: ranges_sep_def ranges_cover_def)
qed

lemma ReceivedRanges_spec:
  assumes "reasm_inv r"
  shows "ranges_sep (ReceivedRanges r limit) \<and> int (length (ReceivedRanges r limit)) \<le> max 0 limit \<and>
     (\<forall>x. ranges_cover (ReceivedRanges r limit) x \<longrightarrow> held (rBuffer r) x) \<and>
     (\<forall>x. held (rBuffer r) x \<longrightarrow> ranges_cover (ReceivedRanges r limit) x \<or>
        int (length (ReceivedRanges r limit)) = max 0 limit \<and> (\<forall>(a, b) \<in> set (ReceivedRanges r limit). b \<le> x))"
proof (cases "limit \<le> 0 \<or> rBuffer r = []")
  case True
  then show ?thesis by (auto simp: ReceivedRanges_def ranges_sep_def ranges_cover_def held_def)
next
  case False
  let ?m = "merge_ranges (rBuffer r) (rOrder r) []"
  have eq: "ReceivedRanges r limit = take (nat limit) ?m" using False by (simp add: ReceivedRanges_def Let_def)
  note m = merge_ranges_held [OF assms]
  have "ranges_cover (take (nat limit) ?m) x \<longrightarrow> held (rBuffer r) x" for x
    using m(2) [of x] set_take_subset [of "nat limit" ?m] by (auto simp: ranges_cover_def)
  then show ?thesis
    unfolding eq using ranges_sep_take [OF m(1)] ranges_take [OF m(1)] m(2) False by fastforce
qed

section \<open>Close\<close>

definition buf_charges :: "(nat \<times> segment) list \<Rightarrow> int list" where
  "buf_charges buf = map (\<lambda>(k, s). int (length (sPayload s))) (filter (\<lambda>(k, s). sCharged s) buf)"

lemma close_loop_release_all: "close_loop m buf = mem.release_all m (buf_charges buf)"
  by (induction m buf rule: close_loop.induct) (auto simp: buf_charges_def split: option.split)

lemma release_all_used:
  "mem.release_all (Some b) ns = Some m \<Longrightarrow> \<forall>n \<in> set ns. 0 \<le> n \<Longrightarrow>
     \<exists>b'. m = Some b' \<and> used b' = used b - sum_list ns"
proof (induction ns arbitrary: b)
  case Nil
  then show ?case by auto
next
  case (Cons n ns)
  obtain m1 where m1: "Release (Some b) n = Some m1" using Cons.prems(1) by (auto split: option.splits)
  then obtain b1 where b1: "Release (Some b) n = Some (Some b1)" "used b1 = used b - n"
    using Cons.prems(2) by (auto simp: Release_def split: if_splits)
  from Cons.IH [of b1] Cons.prems b1 show ?case by auto
qed

lemma buf_charges_sum:
  assumes "buf_ok buf"
  shows "sum_list (buf_charges buf) = int (buf_bytes buf)"
proof -
  have "filter (\<lambda>(k, s). sCharged s) buf = buf"
    using assms by (auto simp: filter_id_conv buf_ok_def seg_wf_def)
  then have "buf_charges buf = map (int \<circ> (\<lambda>(k, s). length (sPayload s))) buf"
    by (simp add: buf_charges_def case_prod_unfold comp_def)
  then show ?thesis by (simp add: buf_bytes_def flip: map_map sum_list_of_nat)
qed

lemma buffered_fields:
  "rNext (buffered r s mem) = rNext r"
  "map_of (rBuffer (buffered r s mem)) k =
     (if k = sSequence s then Some (s\<lparr>sCharged := True\<rparr>) else map_of (rBuffer r) k)"
  by (simp_all add: buffered_def AList.update_conv)

text \<open>The bytes that have arrived: handed out already, or held out of order. \<open>Insert\<close> forgets none.\<close>

definition received :: "reassembler \<Rightarrow> nat \<Rightarrow> bool" where
  "received r x \<longleftrightarrow> x < rNext r \<or> held (rBuffer r) x"

lemma chain_swallows:
  assumes "buf_ok buf" and "cur_ok buf cur"
    and "map_of buf k = Some e" "sSequence cur \<le> k" "k \<le> sSequence cur + length (chain_bytes (chain buf cur))"
  shows "k + length (sPayload e) \<le> sSequence cur + length (chain_bytes (chain buf cur))"
  using assms
proof (induction buf cur rule: chain.induct)
  case (1 buf cur)
  let ?n = "sSequence cur + length (sPayload cur)"
  have none: "map_of buf (sSequence cur) = None" and ap: "apart buf (sSequence cur) ?n"
    using "1.prems"(2) by (auto simp: cur_ok_def)
  then have lt: "sSequence cur < k" using "1.prems"(3,4) by (cases "k = sSequence cur") auto
  then have kn: "?n \<le> k" using ap "1.prems"(3) by (auto simp: apart_def)
  show ?case
  proof (cases "sFinal cur \<or> map_of buf ?n = None")
    case True
    then have c: "chain buf cur = [cur]" by (rule chain_end)
    then have "k = ?n" using kn "1.prems"(5) by (simp add: chain_bytes_def)
    moreover have "sFinal cur \<Longrightarrow> sPayload cur = []" using "1.prems"(2) by (simp add: cur_ok_def)
    ultimately show ?thesis using True "1.prems"(3) none by auto
  next
    case False
    then obtain nxt where n: "\<not> sFinal cur" "map_of buf ?n = Some nxt" by (metis option.exhaust)
    note nx = cur_ok_next [OF "1.prems"(1,2) n]
    let ?B = "AList.delete ?n buf"
    have c: "length (chain_bytes (chain buf cur)) = length (sPayload cur) + length (chain_bytes (chain ?B nxt))"
      by (simp add: chain_Cons [OF n] chain_bytes_Cons)
    show ?thesis
    proof (cases "k = ?n")
      case True
      have hd: "chain ?B nxt = nxt # tl (chain ?B nxt)" by (simp add: chain.simps [of _ nxt] split: option.splits)
      have "length (sPayload nxt) \<le> length (chain_bytes (chain ?B nxt))" by (subst hd) (simp add: chain_bytes_Cons)
      then show ?thesis using True n(2) "1.prems"(3) c by simp
    next
      case False
      have "k + length (sPayload e) \<le> sSequence nxt + length (chain_bytes (chain ?B nxt))"
        by (rule "1.IH" [OF n buf_ok_delete [OF "1.prems"(1)] nx(1)])
          (use False "1.prems"(3,5) kn nx(2) c in \<open>simp_all add: AList.delete_conv\<close>)
      then show ?thesis using c nx(2) by simp
    qed
  qed
qed

lemma reasm_insert_received:
  assumes "reasm_inv r" "seg_in s" "mem_holds (rMemory r) (m + int (rBytes r))" "0 \<le> m" and x: "received r x"
  shows "received (snd (reasm_insert r s)) x"
proof (cases rule: reasm_insert_cases [OF assms(1,2), case_names refused ignored stored delivered])
  case (stored mem)
  then have "map_of (rBuffer r) (sSequence s) = None" by (simp add: cur_ok_def)
  then have "held (rBuffer r) x \<Longrightarrow> held (rBuffer (buffered r s mem)) x"
    unfolding held_def buffered_fields(2) by (metis option.distinct(1))
  then show ?thesis using stored(1) x by (auto simp: received_def buffered_fields(1))
next
  case delivered
  let ?c = "chain (rBuffer r) s"
  obtain r' where r': "consumeContiguous r s = (Inr (chain_bytes ?c, Closed r'), r')" "drained r ?c r'"
    by (rule reasm_insert_delivers [OF assms(1,2) delivered(3,2) assms(3,4)])
  have next': "rNext r' = rNext r + length (chain_bytes ?c)"
    and map': "\<And>k. map_of (rBuffer r') k = (if rNext r \<le> k \<and> k \<le> rNext r' then None else map_of (rBuffer r) k)"
    using r'(2) by (simp_all add: drained_def)
  have "received r' x"
  proof (cases "x < rNext r")
    case True
    then show ?thesis using next' by (simp add: received_def)
  next
    case False
    then obtain k e where e: "map_of (rBuffer r) k = Some e" "k \<le> x" "x < k + length (sPayload e)"
      using x by (auto simp: received_def held_def)
    have buf: "buf_ok (rBuffer r)" using assms(1) by (simp add: reasm_inv_def)
    have "rNext r \<le> k \<and> k \<le> rNext r' \<Longrightarrow> x < rNext r'"
      using chain_swallows [OF buf delivered(3) e(1)] e(3) next' delivered(2) by simp
    then show ?thesis
      using e map' [of k] by (cases "rNext r \<le> k \<and> k \<le> rNext r'") (auto simp: received_def held_def)
  qed
  then show ?thesis using r'(1) delivered(1) by simp
qed (use x in simp_all)

section \<open>Properties\<close>

text \<open>C4: \<open>Insert\<close> keeps the reassembler's invariant on every branch: the buffered segments stay
  disjoint, the sorted index lists exactly their sequence numbers, the byte count is exact and within
  the configured limits, every buffered byte stays charged to the shared budget, the cursor never
  moves back, and none of the internal failures (a release panic, a cursor mismatch, a chain walk
  that does not end) can happen.\<close>

theorem reassembler_insert_invariant:
  assumes "reasm_inv r" and "seg_in s" and "mem_holds (rMemory r) (m + int (BufferedBytes r))" and "0 \<le> m"
  shows "reasm_inv (snd (reasm_insert r s)) \<and>
     mem_holds (rMemory (snd (reasm_insert r s))) (m + int (BufferedBytes (snd (reasm_insert r s)))) \<and>
     NextSequence r \<le> NextSequence (snd (reasm_insert r s)) \<and>
     fst (reasm_insert r s) \<notin> Inl ` {PanicRelease, OutOfFuel, CursorMismatch}"
  using reasm_insert_keeps [OF assms(1,2) assms(3) [unfolded BufferedBytes_def] assms(4)]
  by (simp add: BufferedBytes_def NextSequence_def)

text \<open>C5: Whatever segments of a byte stream arrive, in any order, cut in any way and with any duplicates
  or overlaps, the bytes handed out so far are exactly the stream's prefix up to the cursor, and a
  reassembler that reports itself closed has handed out the whole stream.\<close>

theorem reassembly_delivers_prefix:
  assumes "\<forall>s \<in> set ss. seg_in s \<and> agrees S s" and "mem_holds (Memory cfg) 0"
  shows "run_bytes (NewReassembler cfg) ss = take (NextSequence (run_state (NewReassembler cfg) ss)) S \<and>
     (Closed (run_state (NewReassembler cfg) ss) \<longrightarrow> run_bytes (NewReassembler cfg) ss = S)"
proof -
  let ?r = "NewReassembler cfg"
  have i: "reasm_inv ?r" "mem_holds (rMemory ?r) (0 + int (rBytes ?r))"
    using NewReassembler_inv [OF _ assms(2)] by simp_all
  have "rNext ?r = 0" by (simp add: NewReassembler_def Let_def)
  with run_stream [OF i _ NewReassembler_stream assms(1)]
  have "stream_inv S (run_state ?r ss)" "run_bytes ?r ss = take (rNext (run_state ?r ss)) S" by simp_all
  then show ?thesis by (auto simp: stream_inv_def Closed_def NextSequence_def split: option.splits)
qed

text \<open>C6: Every complete delivery completes the stream: when each segment of a cut of the stream and its FIN
  arrive at least once, in any order and with any duplicates, and the limits, and the shared receive
  budget if there is one, have room for the stream, no segment is refused, the whole stream comes out and the reassembler is closed.\<close>

theorem reassembly_complete:
  assumes "pieces_ok ps" and "set ss = set (segments_of 0 ps)"
    and "MaxBufferedBytes cfg \<ge> length (concat ps)" "MaxBufferedFrames cfg > int (length ps)"
    and "MaxBufferedBytes cfg > 0" "mem_holds (Memory cfg) 0"
    and "case Memory cfg of None \<Rightarrow> True | Some b \<Rightarrow> used b + int (length (concat ps)) \<le> capacity b"
  shows "run_errors (NewReassembler cfg) ss = [] \<and> run_bytes (NewReassembler cfg) ss = concat ps \<and>
     Closed (run_state (NewReassembler cfg) ss)"
proof -
  let ?r = "NewReassembler cfg"
  note run = cut_run [OF assms(1) cut_inv_new [OF assms(1,3-7)], of ss]
  have c: "rNext (run_state ?r ss) = length (concat ps) \<and> Closed (run_state ?r ss)"
    using run assms(2) by (intro cut_settled_closed [OF assms(1)]) auto
  have i: "reasm_inv ?r" "mem_holds (rMemory ?r) (0 + int (rBytes ?r))"
    using NewReassembler_inv [of 0 cfg] assms(6) by simp_all
  have "\<forall>s \<in> set ss. seg_in s \<and> agrees (concat ps) s"
    using assms(1,2) cut_seg_in cut_agrees [of _ "[]" ps] by auto
  from run_stream [OF i _ NewReassembler_stream this]
  have "run_bytes ?r ss = take (rNext (run_state ?r ss)) (concat ps)" by (simp add: NewReassembler_def Let_def)
  then show ?thesis using run c assms(2) by simp
qed

text \<open>The neighbour check of \<open>checkNeighbours\<close>, which looks only at the two buffered segments around
  the insertion point, accepts exactly the segments that overlap no buffered segment at all.\<close>

theorem neighbour_check_is_full_scan:
  assumes "reasm_inv r" and "map_of (rBuffer r) (sSequence s) = None"
  shows "checkNeighbours r s (sSequence s + length (sPayload s)) = None \<longleftrightarrow>
     (\<forall>k e. map_of (rBuffer r) k = Some e \<longrightarrow>
        k + length (sPayload e) \<le> sSequence s \<or> sSequence s + length (sPayload s) \<le> k)"
proof -
  have i: "buf_ok (rBuffer r)" "order_ok (rOrder r) (rBuffer r)" using assms(1) by (simp_all add: reasm_inv_def)
  have "apart (rBuffer r) (sSequence s) (sSequence s + length (sPayload s)) \<longleftrightarrow>
     (\<forall>k e. map_of (rBuffer r) k = Some e \<longrightarrow>
        k + length (sPayload e) \<le> sSequence s \<or> sSequence s + length (sPayload s) \<le> k)"
    using assms(2) unfolding apart_def by (metis add_leD1 le_antisym linorder_not_le nat_less_le option.distinct(1))
  then show ?thesis using checkNeighbours_None(1) [OF i assms(2)] by simp
qed

text \<open>\<open>Close\<close> never panics, returns to the shared budget exactly the bytes still buffered, leaves an
  empty reassembler that satisfies the invariant, and doing it again changes nothing.\<close>

theorem reassembler_close_releases:
  assumes "reasm_inv r" and "mem_holds (rMemory r) (m + int (BufferedBytes r))" and "0 \<le> m"
  shows "\<exists>r'. reasm_Close r = Some r' \<and> mem_holds (rMemory r') m \<and> reasm_inv r' \<and>
     BufferedBytes r' = 0 \<and> BufferedFrames r' = 0 \<and> reasm_Close r' = Some r' \<and>
     (\<forall>b. rMemory r = Some b \<longrightarrow> (\<exists>b'. rMemory r' = Some b' \<and> used b' = used b - int (BufferedBytes r)))"
proof -
  have i: "buf_ok (rBuffer r)" "rBytes r = buf_bytes (rBuffer r)" using assms(1) by (simp_all add: reasm_inv_def)
  have sum: "sum_list (buf_charges (rBuffer r)) = int (rBytes r)" using buf_charges_sum [OF i(1)] i(2) by simp
  have nn: "\<forall>n \<in> set (buf_charges (rBuffer r)). 0 \<le> n" by (auto simp: buf_charges_def)
  obtain m' where m': "mem.release_all (rMemory r) (buf_charges (rBuffer r)) = Some m'" "mem_holds m' m"
    using mem.release_all_holds [of "rMemory r" m "buf_charges (rBuffer r)"] assms(2,3) nn
    by (auto simp: sum BufferedBytes_def)
  let ?r = "r\<lparr>rMemory := m', rBuffer := [], rOrder := [], rBytes := 0\<rparr>"
  have "reasm_Close r = Some ?r" using m'(1) by (simp add: reasm_Close_def close_loop_release_all)
  moreover have "reasm_inv ?r" using assms(1) by (simp add: reasm_inv_def buf_ok_def order_ok_def buf_bytes_def)
  moreover have "reasm_Close ?r = Some ?r" by (simp add: reasm_Close_def)
  moreover have "\<forall>b. rMemory r = Some b \<longrightarrow> (\<exists>b'. m' = Some b' \<and> used b' = used b - int (rBytes r))"
    using release_all_used [OF _ nn] m'(1) sum by auto
  ultimately show ?thesis using m'(2) by (intro exI [of _ ?r]) (simp add: BufferedBytes_def BufferedFrames_def)
qed

text \<open>\<open>ReceivedRanges\<close> reports non-empty ranges in increasing order with a gap between any two, at most
  as many as asked for, and they contain only bytes that are buffered. A buffered byte it leaves out
  lies above every reported range, and only when the limit was reached: the truncation drops the
  highest ranges.\<close>

theorem received_ranges_exact:
  assumes "reasm_inv r"
  shows "ranges_sep (ReceivedRanges r limit) \<and> int (length (ReceivedRanges r limit)) \<le> max 0 limit \<and>
     (\<forall>x. ranges_cover (ReceivedRanges r limit) x \<longrightarrow> held (rBuffer r) x) \<and>
     (\<forall>x. held (rBuffer r) x \<longrightarrow> ranges_cover (ReceivedRanges r limit) x \<or>
        int (length (ReceivedRanges r limit)) = max 0 limit \<and> (\<forall>(a, b) \<in> set (ReceivedRanges r limit). b \<le> x))"
  using ReceivedRanges_spec [OF assms] by simp

section \<open>Segments at and across the cursor\<close>

lemma insert_keeps_below:
  assumes "reasm_inv r" "seg_in t" "mem_holds (rMemory r) (m + int (rBytes r))" "0 \<le> m"
    and e: "map_of (rBuffer r) k = Some e" "k < rNext r"
  shows "map_of (rBuffer (snd (reasm_insert r t))) k = Some e"
proof (cases rule: reasm_insert_cases [OF assms(1,2), case_names refused ignored stored delivered])
  case (stored mem)
  then have "k \<noteq> sSequence t" using e by (auto simp: cur_ok_def)
  then show ?thesis using stored(1) e by (simp add: buffered_def AList.update_conv)
next
  case delivered
  obtain r' where r': "consumeContiguous r t = (Inr (chain_bytes (chain (rBuffer r) t), Closed r'), r')"
    "drained r (chain (rBuffer r) t) r'"
    by (rule reasm_insert_delivers [OF assms(1,2) delivered(3,2) assms(3,4)])
  then show ?thesis using delivered(1) e by (simp add: drained_def)
qed (use e in simp_all)

lemma run_keeps_below:
  assumes "reasm_inv r" "\<forall>t \<in> set ss. seg_in t" "mem_holds (rMemory r) (m + int (rBytes r))" "0 \<le> m"
    and "map_of (rBuffer r) k = Some e" "k < rNext r"
  shows "map_of (rBuffer (run_state r ss)) k = Some e"
  using assms
proof (induction ss arbitrary: r)
  case Nil
  then show ?case by simp
next
  case (Cons t ss)
  have t: "seg_in t" using Cons.prems(2) by simp
  note k = reasm_insert_keeps [OF Cons.prems(1) t Cons.prems(3,4)]
  have "map_of (rBuffer (snd (reasm_insert r t))) k = Some e"
    by (rule insert_keeps_below [OF Cons.prems(1) t Cons.prems(3-6)])
  then show ?case
    using Cons.IH [OF k(1) _ k(2)] Cons.prems(2,4,6) k(4) by (simp add: run_state_Cons)
qed

lemma stale_insert:
  assumes "reasm_inv r" "seg_in s" "insert_fits r s" "map_of (rBuffer r) (sSequence s) = None"
    and "sSequence s < rNext r" "rNext r \<le> sSequence s + length (sPayload s)"
  obtains mem where "reasm_insert r s = (Inr ([], Closed (buffered r s mem)), buffered r s mem)"
    "TryAcquire (rMemory r) (int (length (sPayload s))) = (True, mem)" "reasm_inv (buffered r s mem)"
proof (cases rule: reasm_insert_cases [OF assms(1,2), case_names refused ignored stored delivered])
  case (stored mem)
  then show ?thesis using that by simp
qed (use assms(3-6) in simp_all)

text \<open>A data segment that lies wholly before the cursor and ends exactly at it (a duplicate of what
  was just delivered) is not ignored: it is buffered below the cursor and charged, and no later
  \<open>Insert\<close> ever removes it, so its bytes stay counted and charged until \<open>Close\<close>.\<close>

theorem stale_duplicate_retained:
  assumes "reasm_inv r" and "mem_holds (rMemory r) (m + int (BufferedBytes r))" "0 \<le> m"
    and "seg_in s" "insert_fits r s" "map_of (rBuffer r) (sSequence s) = None"
    and "sSequence s < NextSequence r" "sSequence s + length (sPayload s) = NextSequence r"
    and "\<forall>t \<in> set ss. seg_in t"
  shows "map_of (rBuffer (run_state r (s # ss))) (sSequence s) = Some (s\<lparr>sCharged := True\<rparr>) \<and>
     length (sPayload s) \<le> BufferedBytes (run_state r (s # ss))"
proof -
  obtain mem where mem: "reasm_insert r s = (Inr ([], Closed (buffered r s mem)), buffered r s mem)"
    "TryAcquire (rMemory r) (int (length (sPayload s))) = (True, mem)" "reasm_inv (buffered r s mem)"
    using stale_insert [OF assms(1,4,5,6)] assms(7,8) unfolding NextSequence_def by (metis order_refl)
  have mh: "mem_holds (rMemory (buffered r s mem)) (m + int (rBytes (buffered r s mem)))"
    using buffered_mem_holds [OF mem(2)] assms(2) by (simp add: BufferedBytes_def)
  have e: "map_of (rBuffer (run_state (buffered r s mem) ss)) (sSequence s) = Some (s\<lparr>sCharged := True\<rparr>)"
    using assms(7) by (intro run_keeps_below [OF mem(3) assms(9) mh assms(3)]) (simp_all add: buffered_fields NextSequence_def)
  have "reasm_inv (run_state (buffered r s mem) ss)"
    using run_state_keeps [OF mem(3) assms(9) mh assms(3)] by simp
  then have "length (sPayload s) \<le> rBytes (run_state (buffered r s mem) ss)"
    using buf_bytes_delete [OF _ e] by (simp add: reasm_inv_def buf_ok_def)
  then show ?thesis using e mem(1) by (simp add: run_state_Cons BufferedBytes_def)
qed

lemma wedged_run:
  assumes "reasm_inv q" "mem_holds (rMemory q) (m + int (rBytes q))" "0 \<le> m" "\<forall>t \<in> set ts. seg_in t"
    and "map_of (rBuffer q) k = Some e" "k < rNext q" "rNext q < k + length (sPayload e)"
  shows "run_bytes q ts = [] \<and> rNext (run_state q ts) = rNext q"
  using assms
proof (induction ts arbitrary: q)
  case Nil
  then show ?case by simp
next
  case (Cons t ts)
  have t: "seg_in t" using Cons.prems(4) by simp
  note keeps = reasm_insert_keeps(1,2) [OF Cons.prems(1) t Cons.prems(2,3)]
  have e: "map_of (rBuffer (snd (reasm_insert q t))) k = Some e"
    by (rule insert_keeps_below [OF Cons.prems(1) t Cons.prems(2,3) Cons.prems(5,6)])
  have "(case fst (reasm_insert q t) of Inl _ \<Rightarrow> [] | Inr (p, _) \<Rightarrow> p) = [] \<and> rNext (snd (reasm_insert q t)) = rNext q"
  proof (cases rule: reasm_insert_cases [OF Cons.prems(1) t, case_names refused ignored stored delivered])
    case (stored mem)
    then show ?thesis by (simp add: buffered_fields)
  next
    case delivered
    then have "k + length (sPayload e) \<le> rNext q" using Cons.prems(5,6) by (simp add: cur_ok_def apart_def)
    then show ?thesis using Cons.prems(7) by simp
  qed simp_all
  then show ?case
    using Cons.IH [OF keeps Cons.prems(3) _ e] Cons.prems(4,6,7) by (simp add: run_bytes_Cons run_state_Cons)
qed

text \<open>A data segment that straddles the cursor is accepted and buffered, and it then blocks the stream:
  whatever arrives afterwards, no byte is delivered any more and the cursor stays where it is,
  because every segment at the cursor overlaps the one that was buffered.\<close>

theorem straddling_segment_blocks:
  assumes "reasm_inv r" and "mem_holds (rMemory r) (m + int (BufferedBytes r))" "0 \<le> m"
    and "seg_in s" "insert_fits r s" "map_of (rBuffer r) (sSequence s) = None"
    and "sSequence s < NextSequence r" "NextSequence r < sSequence s + length (sPayload s)"
    and "\<forall>t \<in> set ss. seg_in t"
  shows "run_bytes r (s # ss) = [] \<and> NextSequence (run_state r (s # ss)) = NextSequence r"
proof -
  obtain mem where mem: "reasm_insert r s = (Inr ([], Closed (buffered r s mem)), buffered r s mem)"
    "TryAcquire (rMemory r) (int (length (sPayload s))) = (True, mem)" "reasm_inv (buffered r s mem)"
    using stale_insert [OF assms(1,4,5,6)] assms(7,8) unfolding NextSequence_def by (metis less_imp_le)
  have mh: "mem_holds (rMemory (buffered r s mem)) (m + int (rBytes (buffered r s mem)))"
    using buffered_mem_holds [OF mem(2)] assms(2) by (simp add: BufferedBytes_def)
  from wedged_run [OF mem(3) mh assms(3,9), of "sSequence s" "s\<lparr>sCharged := True\<rparr>"] assms(7,8)
  show ?thesis using mem(1) by (simp add: run_bytes_Cons run_state_Cons buffered_fields NextSequence_def)
qed

section \<open>Witnesses\<close>

text \<open>A two-piece stream, and the reassembler after its first piece was delivered.\<close>

definition sample_pieces :: "bytes list" where "sample_pieces = [[1, 2], [3]]"

definition sample_after :: reassembler where
  "sample_after = (NewReassembler reasm_DefaultConfig)\<lparr>rNext := 2\<rparr>"

lemma sample_after_inv: "reasm_inv sample_after" "mem_holds (rMemory sample_after) (0 + int (BufferedBytes sample_after))"
  by (simp_all add: sample_after_def NewReassembler_def reasm_DefaultConfig_def reasm_inv_def buf_ok_def
      order_ok_def buf_bytes_def u64_max_def mem_holds_def Let_def)

lemma sample_after_fields:
  "rBuffer sample_after = []" "rNext sample_after = 2" "rMemory sample_after = None" "rBytes sample_after = 0"
  "rCfg sample_after = reasm_DefaultConfig"
  by (simp_all add: sample_after_def NewReassembler_def reasm_DefaultConfig_def Let_def)

lemma sample_fits:
  "q + length p \<le> 1024 \<Longrightarrow> p \<noteq> [] \<Longrightarrow> insert_fits sample_after (data_seg q p)"
  by (simp add: insert_fits_def sample_after_fields data_seg_def u64_max_def apart_def TryAcquire_def
      reasm_DefaultConfig_def)

lemma sample_seg_in: "seg_in (data_seg q [x])" "seg_in (data_seg q [x, y])" "seg_in (fin_seg q)"
  by (simp_all add: seg_in_def data_seg_def fin_seg_def go_slice_def)

lemma sample_pieces_ok: "pieces_ok sample_pieces"
  by (simp add: sample_pieces_def pieces_ok_def go_slice_def u64_max_def)

lemma sample_arrivals:
  "set [fin_seg 3, data_seg 2 [3], data_seg 0 [1, 2], data_seg 2 [3]] = set (segments_of 0 sample_pieces)"
  by (auto simp: sample_pieces_def numeral_2_eq_2 numeral_3_eq_3)

theorem reassembler_insert_invariant_witness:
  "reasm_inv (snd (reasm_insert sample_after (data_seg 5 [7]))) \<and>
   fst (reasm_insert sample_after (data_seg 5 [7])) \<notin> Inl ` {PanicRelease, OutOfFuel, CursorMismatch}"
  using reassembler_insert_invariant [OF sample_after_inv(1) sample_seg_in(1) sample_after_inv(2)] by simp

theorem reassembly_delivers_prefix_witness:
  "run_bytes (NewReassembler reasm_DefaultConfig) [data_seg 2 [3], data_seg 0 [1, 2]]
     = take (NextSequence (run_state (NewReassembler reasm_DefaultConfig) [data_seg 2 [3], data_seg 0 [1, 2]])) [1, 2, 3, 4]"
  using reassembly_delivers_prefix [of "[data_seg 2 [3], data_seg 0 [1, 2]]" "[1, 2, 3, 4]" reasm_DefaultConfig]
  by (simp add: sample_seg_in agrees_def) (simp add: data_seg_def mem_holds_def reasm_DefaultConfig_def)

theorem reassembly_complete_witness:
  "run_bytes (NewReassembler (reasm_DefaultConfig\<lparr>Memory := mem_new 3\<rparr>)) [fin_seg 3, data_seg 2 [3], data_seg 0 [1, 2], data_seg 2 [3]]
     = [1, 2, 3]"
  using reassembly_complete [OF sample_pieces_ok sample_arrivals, of "reasm_DefaultConfig\<lparr>Memory := mem_new 3\<rparr>"]
  by (simp add: sample_pieces_def reasm_DefaultConfig_def mem_new_def mem_holds_def mem_wf_def)

theorem neighbour_check_is_full_scan_witness:
  "checkNeighbours sample_after (data_seg 5 [7]) (5 + length [7::byte]) = None"
  using neighbour_check_is_full_scan [OF sample_after_inv(1), of "data_seg 5 [7]"]
  by (simp add: sample_after_fields) (simp add: data_seg_def)

theorem reassembler_close_releases_witness:
  "\<exists>r'. reasm_Close sample_after = Some r' \<and> BufferedBytes r' = 0"
  using reassembler_close_releases [OF sample_after_inv] by auto

theorem received_ranges_exact_witness: "ranges_sep (ReceivedRanges sample_after 16)"
  using received_ranges_exact [OF sample_after_inv(1), of 16] by simp

theorem stale_duplicate_retained_witness:
  "map_of (rBuffer (run_state sample_after [data_seg 0 [1, 2], data_seg 2 [3], fin_seg 3])) 0
     = Some ((data_seg 0 [1, 2])\<lparr>sCharged := True\<rparr>)"
  using stale_duplicate_retained [OF sample_after_inv, of "data_seg 0 [1, 2]" "[data_seg 2 [3], fin_seg 3]"] sample_fits [of 0 "[1, 2]"]
  by (simp add: sample_seg_in sample_after_fields NextSequence_def) (simp add: data_seg_def)

theorem straddling_segment_blocks_witness:
  "run_bytes sample_after [data_seg 1 [2, 3], data_seg 2 [3], fin_seg 3] = []"
  using straddling_segment_blocks [OF sample_after_inv, of "data_seg 1 [2, 3]" "[data_seg 2 [3], fin_seg 3]"] sample_fits [of 1 "[2, 3]"]
  by (simp add: sample_seg_in sample_after_fields NextSequence_def) (simp add: data_seg_def)

end
