(* ===== verification/AckPath.thy ===== *)
theory AckPath
  imports Frame AckTrack ReassemblyStream
begin

text \<open>
  The acknowledgement path of a flow in \<^verbatim>\<open>internal/pep/mpflow.go\<close>, from the receiver's reassembler
  through the wire to the sender's tracker. The receiver publishes the ranges it holds, and its
  acknowledgement loop takes them later, with a newer cumulative point. The sender checks the
  cumulative point against what it sent and feeds its tracker. Sequence numbers are naturals; a
  header or range carries them as words (\<open>word_of_nat\<close>), as Go does not convert at all. The writes
  to lanes are outside the model: \<open>writeACK\<close> gives the frame it hands to a lane. The constructor of a
  flow always sets its tracker, so it is not optional here.
\<close>

section \<open>The receiver's side\<close>

record ack_receiver =
  ar_ackRanges :: bool
  ar_pendingRanges :: "range list"
  ar_ackSequence :: nat
  ar_gapPending :: bool
  ar_ackClosing :: bool
  ar_ackWake :: bool
  ar_acksSched :: nat

definition publishReceivedRanges :: "ack_receiver \<Rightarrow> reassembler \<Rightarrow> ack_receiver" where
  "publishReceivedRanges f r =
     (if \<not> ar_ackRanges f then f
      else f\<lparr>ar_pendingRanges := ReceivedRanges r (int MaxAckRanges)\<rparr>)"

definition takeReceivedRanges :: "ack_receiver \<Rightarrow> nat \<Rightarrow> range list \<times> ack_receiver" where
  "takeReceivedRanges f cum =
     (let fresh = filter (\<lambda>r. fst r \<ge> cum) (ar_pendingRanges f) in
      (fresh, f\<lparr>ar_pendingRanges := fresh\<rparr>))"

definition reportGap :: "ack_receiver \<Rightarrow> ack_receiver" where
  "reportGap f =
     (if ar_ackClosing f \<or> \<not> ar_ackRanges f then f
      else f\<lparr>ar_gapPending := True, ar_ackWake := True\<rparr>)"

text \<open>The compare-and-swap loop of \<open>scheduleACK\<close> keeps the maximum.\<close>

definition scheduleACK :: "ack_receiver \<Rightarrow> nat \<Rightarrow> ack_receiver" where
  "scheduleACK f sequence =
     (if sequence = 0 \<or> ar_ackClosing f then f
      else f\<lparr>ar_acksSched := add64 (ar_acksSched f) 1,
             ar_ackSequence := (if sequence \<le> ar_ackSequence f then ar_ackSequence f else sequence),
             ar_ackWake := True\<rparr>)"

definition acknowledgeArrival :: "ack_receiver \<Rightarrow> reassembler \<Rightarrow> nat \<Rightarrow> nat \<times> ack_receiver" where
  "acknowledgeArrival f r lastAck =
     (let next = NextSequence r in
      if next > lastAck then (next, scheduleACK (publishReceivedRanges f r) next)
      else if BufferedFrames r > 0 then (lastAck, reportGap (publishReceivedRanges f r))
      else (lastAck, f))"

definition wire_ranges :: "range list \<Rightarrow> ack_range list" where
  "wire_ranges rs = map (\<lambda>(a, b). (word_of_nat a, word_of_nat b)) rs"

definition nat_ranges :: "ack_range list \<Rightarrow> range list" where
  "nat_ranges rs = map (\<lambda>(a, b). (unat a, unat b)) rs"

record flow_ids =
  sessionID :: bytes
  flowID :: u64
  flow_class :: byte

definition writeACK :: "ack_receiver \<Rightarrow> flow_ids \<Rightarrow> nat \<Rightarrow> u16 \<Rightarrow> bool \<Rightarrow> frame \<times> ack_receiver" where
  "writeACK f ids sequence direction final =
     (let flags = (if final then direction OR FlagAckFinal else direction);
          build = (\<lambda>fl payload. \<lparr>fHeader = \<lparr>hVersion = Version, hType = TypeAck, hFlags = fl,
             hSessionID = sessionID ids, hFlowID = flowID ids, hSequence = word_of_nat sequence,
             hPayloadLen = 0, hClass = flow_class ids\<rparr>, fPayload = payload\<rparr>)
      in if \<not> final \<and> ar_ackRanges f
         then (case takeReceivedRanges f sequence of (rs, f') \<Rightarrow>
           (case EncodeAckRanges (wire_ranges rs) of
              Inl _ \<Rightarrow> (build flags [], f')
            | Inr encoded \<Rightarrow>
                if encoded \<noteq> [] then (build (flags OR FlagAckRanges) encoded, f') else (build flags [], f')))
         else (build flags [], f))"

text \<open>
  The answer to the end of the peer's stream, or to its full close, without what it does to the local socket: an acknowledgement that is final.
\<close>

definition acknowledgeRemoteFIN :: "ack_receiver \<Rightarrow> flow_ids \<Rightarrow> nat \<Rightarrow> u16 \<Rightarrow> frame \<times> ack_receiver" where
  "acknowledgeRemoteFIN f ids sequence direction = writeACK (f\<lparr>ar_ackClosing := True\<rparr>) ids sequence direction True"

text \<open>
  The decision of one turn of \<open>ackLoop\<close>'s inner loop: \<open>None\<close> to leave it, or the sequence number to
  acknowledge. \<^verbatim>\<open>gapPending.Swap(false)\<close> is evaluated only if the cumulative point did not move.
\<close>

definition ack_loop_turn :: "ack_receiver \<Rightarrow> nat \<Rightarrow> nat option \<times> ack_receiver" where
  "ack_loop_turn f sent =
     (let sequence = ar_ackSequence f in
      if sequence \<le> sent
      then (if ar_gapPending f then (Some sequence, f\<lparr>ar_gapPending := False\<rparr>) else (None, f))
      else (Some sequence, f))"

section \<open>The sender's side\<close>

datatype ack_error =
    AckExceedsSent nat nat
  | AckWrongDirection
  | AckRangesError frame_error
  | FinalAckMismatch

record ack_sender =
  highestSent :: nat
  as_acked :: nat
  closeFrame :: "frame option"
  ackTrack :: ackTracker
  sendAckFlag :: u16
  finSequence :: nat

definition acknowledgeReplay :: "ack_sender \<Rightarrow> nat \<Rightarrow> bool \<Rightarrow> (ack_error + bool) \<times> ack_sender" where
  "acknowledgeReplay f sequence final =
     (if sequence > highestSent f then (Inl (AckExceedsSent sequence (highestSent f)), f)
      else if sequence < as_acked f then (Inr False, f)
      else
        let advanced = (sequence > as_acked f);
            f1 = f\<lparr>as_acked := sequence,
                   ackTrack := fst (Advance (ackTrack f) sequence)\<rparr>;
            f2 = (case closeFrame f1 of
                    None \<Rightarrow> f1
                  | Some cf \<Rightarrow> if final \<and> unat (hSequence (fHeader cf)) \<le> sequence then f1\<lparr>closeFrame := None\<rparr> else f1)
        in (Inr advanced, f2))"

definition noteSent :: "ack_sender \<Rightarrow> nat \<Rightarrow> nat \<Rightarrow> ack_sender" where
  "noteSent f sequence n =
     (let end = add64 sequence n in if end > highestSent f then f\<lparr>highestSent := end\<rparr> else f)"

definition retainClose :: "ack_sender \<Rightarrow> frame \<Rightarrow> ack_sender option" where
  "retainClose f fr =
     (if hType (fHeader fr) \<noteq> TypeClose then None
      else Some (f\<lparr>closeFrame := Some (fr\<lparr>fPayload := []\<rparr>)\<rparr>))"

text \<open>Where the local stream ends, published before its end is announced and again when the last chunk is out.\<close>

definition sendSequence :: "ack_sender \<Rightarrow> nat \<Rightarrow> ack_sender" where
  "sendSequence f sequence = f\<lparr>finSequence := sequence\<rparr>"

text \<open>The \<^verbatim>\<open>TypeAck\<close> branch of \<open>receiveInner\<close>, up to the timers and channels it signals.\<close>

definition handle_ack :: "ack_sender \<Rightarrow> frame \<Rightarrow> ack_error option \<times> ack_sender" where
  "handle_ack f fr =
     (let h = fHeader fr; sequence = unat (hSequence h) in
      if hFlags h AND sendAckFlag f = 0 then (Some AckWrongDirection, f)
      else if hFlags h AND FlagAckFinal = 0 then
        (case acknowledgeReplay f sequence False of
           (Inl err, f1) \<Rightarrow> (Some err, f1)
         | (Inr _, f1) \<Rightarrow>
             if hFlags h AND FlagAckRanges \<noteq> 0
             then (case DecodeAckRanges (fPayload fr) (hSequence h) of
                     Inl err \<Rightarrow> (Some (AckRangesError err), f1)
                   | Inr rs \<Rightarrow> (None, f1\<lparr>ackTrack := fst (ack_Add (ackTrack f1) (nat_ranges rs))\<rparr>))
             else (None, f1))
      else if sequence = finSequence f then
        (case acknowledgeReplay f sequence True of
           (Inl err, f1) \<Rightarrow> (Some err, f1)
         | (Inr _, f1) \<Rightarrow> (None, f1))
      else (Some FinalAckMismatch, f))"

section \<open>Acknowledgement frames on the wire\<close>

definition ranges_nat_ok :: "range list \<Rightarrow> bool" where
  "ranges_nat_ok rs \<longleftrightarrow> ranges_sep rs \<and> length rs \<le> MaxAckRanges"

lemma u64_word: "n \<le> u64_max \<Longrightarrow> unat (word_of_nat n :: u64) = n"
  by (simp add: unat_of_nat take_bit_nat_eq_self u64_max_def)

lemma nat_wire_ranges: "\<forall>(a, b) \<in> set rs. a < b \<and> b \<le> u64_max \<Longrightarrow> nat_ranges (wire_ranges rs) = rs"
  unfolding nat_ranges_def wire_ranges_def map_map by (rule map_idI) (auto simp: u64_word)

lemma ranges_from_wire:
  assumes "ranges_sep rs" "\<forall>r \<in> set rs. c \<le> fst r" "c \<le> u64_max"
  shows "ranges_from (word_of_nat c) (wire_ranges rs)"
  using assms
proof (induction rs arbitrary: c)
  case Nil
  then show ?case by (simp add: wire_ranges_def)
next
  case (Cons r rs)
  obtain a b where r: "r = (a, b)" by (cases r)
  have ab: "c \<le> a" "a < b" "b \<le> u64_max" and rs: "ranges_sep rs" "\<forall>r \<in> set rs. b \<le> fst r"
    using Cons.prems r by (auto simp: ranges_sep_def intro: less_imp_le)
  have "(word_of_nat c :: u64) \<le> word_of_nat a" "(word_of_nat a :: u64) < word_of_nat b"
    using ab Cons.prems(3) by (simp_all add: word_le_nat_alt word_less_nat_alt u64_word)
  then show ?case using Cons.IH [OF rs ab(3)] r by (simp add: wire_ranges_def)
qed

lemma encode_decode_ranges:
  assumes "ranges_from c rs" "length rs \<le> MaxAckRanges"
  shows "EncodeAckRanges rs = Inr (range_bytes rs)" "DecodeAckRanges (range_bytes rs) c = Inr rs"
proof -
  show "EncodeAckRanges rs = Inr (range_bytes rs)"
    using assms ranges_from_nonempty [OF assms(1)] by (simp add: EncodeAckRanges_def encode_ranges_loop_Inr)
  show "DecodeAckRanges (range_bytes rs) c = Inr rs"
    using assms decode_ranges_loop_range_bytes [OF assms(1), of "[]"]
    by (simp add: DecodeAckRanges_def AckRangeSize_def)
qed

lemma ranges_sep_filter: "ranges_sep rs \<Longrightarrow> ranges_sep (filter P rs)"
  by (auto simp: ranges_sep_def sorted_wrt_filter)

text \<open>The ranges a frame may carry: those of the pending list that start at or above the cumulative point.\<close>

lemma take_fresh:
  assumes "ranges_nat_ok (ar_pendingRanges f)" "takeReceivedRanges f c = (rs, f')"
  shows "ranges_nat_ok rs" "\<forall>r \<in> set rs. c \<le> fst r" "set rs \<subseteq> set (ar_pendingRanges f)"
    "f' = f\<lparr>ar_pendingRanges := rs\<rparr>"
  using assms le_trans [OF length_filter_le]
  by (auto simp: takeReceivedRanges_def ranges_nat_ok_def ranges_sep_filter Let_def)

lemma publish_ok:
  "reasm_inv r \<Longrightarrow> ranges_nat_ok (ar_pendingRanges f) \<Longrightarrow> ranges_nat_ok (ar_pendingRanges (publishReceivedRanges f r))"
  using ReceivedRanges_spec [of r "int MaxAckRanges"]
  by (auto simp: publishReceivedRanges_def ranges_nat_ok_def MaxAckRanges_def)

text \<open>What \<open>writeACK\<close> puts into a frame.\<close>

lemma writeACK_frame:
  assumes "ranges_nat_ok (ar_pendingRanges f)" "sequence \<le> u64_max" "writeACK f ids sequence dir False = (fr, f')"
  obtains (plain) "fPayload fr = []" "hFlags (fHeader fr) = dir"
    | (ranged) rs where "ranges_nat_ok rs" "set rs \<subseteq> set (ar_pendingRanges f)"
      "DecodeAckRanges (fPayload fr) (hSequence (fHeader fr)) = Inr (wire_ranges rs)" "hFlags (fHeader fr) = dir OR FlagAckRanges"
proof (cases "ar_ackRanges f")
  case False
  then show thesis using assms(3) plain by (auto simp: writeACK_def Let_def)
next
  case True
  obtain rs g where t: "takeReceivedRanges f sequence = (rs, g)" by (metis surj_pair)
  note fresh = take_fresh [OF assms(1) t]
  have from_rs: "ranges_from (word_of_nat sequence) (wire_ranges rs)"
    using fresh(1,2) assms(2) by (intro ranges_from_wire) (auto simp: ranges_nat_ok_def)
  have len: "length (wire_ranges rs) \<le> MaxAckRanges" using fresh(1) by (simp add: wire_ranges_def ranges_nat_ok_def)
  note ed = encode_decode_ranges [OF from_rs len]
  show thesis
  proof (cases "range_bytes (wire_ranges rs) = []")
    case empty: True
    then show thesis using assms(3) True t ed(1) plain by (auto simp: writeACK_def Let_def)
  next
    case some: False
    then show thesis using assms(3) True t ed ranged [OF fresh(1,3)] by (auto simp: writeACK_def Let_def)
  qed
qed

lemma writeACK_header:
  assumes "writeACK f ids sequence dir final = (fr, f')"
  shows "hVersion (fHeader fr) = Version" "hType (fHeader fr) = TypeAck" "hSessionID (fHeader fr) = sessionID ids"
    "hClass (fHeader fr) = flow_class ids" "hSequence (fHeader fr) = word_of_nat sequence"
    "hFlowID (fHeader fr) = flowID ids"
  using assms by (auto simp: writeACK_def Let_def split: if_splits sum.splits prod.splits)

lemma writeACK_final:
  assumes "writeACK f ids sequence dir True = (fr, f')"
  shows "fPayload fr = []" "hFlags (fHeader fr) = dir OR FlagAckFinal" "f' = f"
  using assms by (auto simp: writeACK_def Let_def)

lemma writeACK_receiver:
  assumes "writeACK f ids sequence dir False = (fr, f')"
  shows "f' = f \<or> f' = f\<lparr>ar_pendingRanges := filter (\<lambda>r. fst r \<ge> sequence) (ar_pendingRanges f)\<rparr>"
  using assms by (auto simp: writeACK_def takeReceivedRanges_def Let_def split: if_splits sum.splits)

text \<open>The two directions a flow acknowledges in.\<close>

definition ack_direction :: "u16 \<Rightarrow> bool" where
  "ack_direction dir \<longleftrightarrow> dir = FlagAckUp \<or> dir = FlagAckDown"

lemmas flag_defs = FlagFin_def FlagAckFinal_def FlagAckUp_def FlagAckDown_def FlagCloseAbort_def
  FlagReserveControl_def FlagAckRanges_def knownFlags_def

lemma ack_flags:
  assumes "ack_direction dir"
  shows "dir AND dir \<noteq> 0" "(dir OR FlagAckRanges) AND dir \<noteq> 0" "dir AND FlagAckFinal = 0" "dir AND FlagAckRanges = 0"
    "(dir OR FlagAckRanges) AND FlagAckFinal = 0" "(dir OR FlagAckRanges) AND FlagAckRanges \<noteq> 0"
    "dir AND NOT knownFlags = 0" "(dir OR FlagAckRanges) AND NOT knownFlags = 0"
    "dir AND FlagReserveControl = 0" "(dir OR FlagAckRanges) AND FlagReserveControl = 0"
  using assms by (auto simp: ack_direction_def flag_defs)

lemma ack_frame_serializable:
  assumes "fr = fst (writeACK f ids sequence dir False)" "ranges_nat_ok (ar_pendingRanges f)" "sequence \<le> u64_max"
    and "ack_direction dir" "length (sessionID ids) = 16" "flow_class ids \<le> ClassBulk"
  shows "length (fPayload fr) \<le> MaxPayload" "header_ok (with_payload_len fr)" "wf_header (with_payload_len fr)"
proof -
  obtain f' where w: "writeACK f ids sequence dir False = (fr, f')" using assms(1) by (metis prod.collapse)
  note hd = writeACK_header [OF w]
  have pf: "length (fPayload fr) \<le> 256 \<and> (hFlags (fHeader fr) = dir \<or> hFlags (fHeader fr) = dir OR FlagAckRanges)"
    using assms(2,3) w
  proof (cases rule: writeACK_frame [case_names plain ranged])
    case (ranged rs)
    then show ?thesis by (auto simp: DecodeAckRanges_def MaxAckRanges_def AckRangeSize_def Let_def split: if_splits)
  qed simp
  then show "length (fPayload fr) \<le> MaxPayload" by (simp add: MaxPayload_def)
  then show "header_ok (with_payload_len fr)"
    using pf hd assms(6) ack_flags [OF assms(4)] unat_payload_len [of fr]
    by (auto simp: header_ok_def with_payload_len_def type_valid_def TypeAck_def TypeOpen_def TypePacket_def
        reserveControlFlagValid_def ackRangesFlagValid_def)
  show "wf_header (with_payload_len fr)" using hd assms(5) by (simp add: wf_header_def with_payload_len_def)
qed

section \<open>A flow's two ends\<close>

text \<open>
  One direction of a flow: the receiver with its reassembler and acknowledgement state, the sender
  with its tracker, and the acknowledgement frames written so far, of which the network delivers any,
  in any order and any number of times. The receiver accepts any segments and any ends of the stream. A full close, which the peer
  sends when its application is gone, is acknowledged as it stands, whatever has arrived (\<open>fs_aborts\<close> remembers the sequences of the full closes
  acknowledged). \<open>sent\<close> is the local variable of \<open>ackLoop\<close>, whose value does not matter to the property.
\<close>

record flow_sys =
  fs_reasm :: reassembler
  fs_recv :: ack_receiver
  fs_last :: nat
  fs_net :: "frame list"
  fs_send :: ack_sender
  fs_aborts :: "nat list"

inductive flow_step :: "flow_ids \<Rightarrow> u16 \<Rightarrow> flow_sys \<Rightarrow> flow_sys \<Rightarrow> bool" for ids dir where
  data: "seg_in s \<Longrightarrow> \<not> sFinal s \<Longrightarrow> reasm_insert (fs_reasm y) s = (Inr out, r) \<Longrightarrow>
     acknowledgeArrival (fs_recv y) r (fs_last y) = (lastAck, f) \<Longrightarrow>
     flow_step ids dir y (y\<lparr>fs_reasm := r, fs_recv := f, fs_last := lastAck\<rparr>)"
| fin: "seg_in s \<Longrightarrow> sFinal s \<Longrightarrow> reasm_insert (fs_reasm y) s = (Inr out, r) \<Longrightarrow>
     flow_step ids dir y (y\<lparr>fs_reasm := r\<rparr>)"
| acknowledge: "ack_loop_turn (fs_recv y) sent = (Some sequence, f) \<Longrightarrow>
     writeACK f ids sequence dir False = (fr, f') \<Longrightarrow>
     flow_step ids dir y (y\<lparr>fs_recv := f', fs_net := fr # fs_net y\<rparr>)"
| final_ack: "Closed (fs_reasm y) \<Longrightarrow> acknowledgeRemoteFIN (fs_recv y) ids (NextSequence (fs_reasm y)) dir = (fr, f') \<Longrightarrow>
     flow_step ids dir y (y\<lparr>fs_recv := f', fs_net := fr # fs_net y\<rparr>)"
| full_close: "sequence \<le> u64_max \<Longrightarrow> acknowledgeRemoteFIN (fs_recv y) ids sequence dir = (fr, f') \<Longrightarrow>
     flow_step ids dir y (y\<lparr>fs_recv := f', fs_net := fr # fs_net y, fs_aborts := sequence # fs_aborts y\<rparr>)"
| receive_ack: "fr \<in> set (fs_net y) \<Longrightarrow> handle_ack (fs_send y) fr = (err, g) \<Longrightarrow>
     flow_step ids dir y (y\<lparr>fs_send := g\<rparr>)"
| sent: "flow_step ids dir y (y\<lparr>fs_send := noteSent (fs_send y) q n\<rparr>)"
| local_close: "flow_step ids dir y (y\<lparr>fs_send := sendSequence (fs_send y) q\<rparr>)"

definition flow_start :: "reasm_config \<Rightarrow> u16 \<Rightarrow> flow_sys" where
  "flow_start cfg dir =
     \<lparr>fs_reasm = NewReassembler cfg,
      fs_recv = \<lparr>ar_ackRanges = True, ar_pendingRanges = [], ar_ackSequence = 0, ar_gapPending = False,
        ar_ackClosing = False, ar_ackWake = False, ar_acksSched = 0\<rparr>,
      fs_last = 0, fs_net = [],
      fs_send = \<lparr>highestSent = 0, as_acked = 0, closeFrame = None, ackTrack = newAckTracker,
        sendAckFlag = dir, finSequence = 0\<rparr>, fs_aborts = []\<rparr>"

inductive flow_reachable :: "reasm_config \<Rightarrow> flow_ids \<Rightarrow> u16 \<Rightarrow> flow_sys \<Rightarrow> bool" for cfg ids dir where
  start: "flow_reachable cfg ids dir (flow_start cfg dir)"
| step: "flow_reachable cfg ids dir y \<Longrightarrow> flow_step ids dir y z \<Longrightarrow> flow_reachable cfg ids dir z"

text \<open>The bytes an acknowledgement frame names.\<close>

definition ack_names :: "frame \<Rightarrow> nat \<Rightarrow> bool" where
  "ack_names fr x \<longleftrightarrow> x < unat (hSequence (fHeader fr)) \<or>
     (hFlags (fHeader fr) AND FlagAckRanges \<noteq> 0 \<and>
      (case DecodeAckRanges (fPayload fr) (hSequence (fHeader fr)) of
         Inl _ \<Rightarrow> False | Inr rs \<Rightarrow> ranges_cover (nat_ranges rs) x))"

text \<open>A byte that arrived, or that a full close the receiver acknowledged lies beyond.\<close>

definition accounted :: "flow_sys \<Rightarrow> nat \<Rightarrow> bool" where
  "accounted y x \<longleftrightarrow> received (fs_reasm y) x \<or> (\<exists>q \<in> set (fs_aborts y). x < q)"

definition flow_inv :: "flow_sys \<Rightarrow> bool" where
  "flow_inv y \<longleftrightarrow>
     reasm_inv (fs_reasm y) \<and> mem_holds (rMemory (fs_reasm y)) (0 + int (rBytes (fs_reasm y))) \<and>
     ranges_nat_ok (ar_pendingRanges (fs_recv y)) \<and>
     (\<forall>x. ranges_cover (ar_pendingRanges (fs_recv y)) x \<longrightarrow> received (fs_reasm y) x) \<and>
     ar_ackSequence (fs_recv y) \<le> rNext (fs_reasm y) \<and>
     (\<forall>fr \<in> set (fs_net y). \<forall>x. ack_names fr x \<longrightarrow> accounted y x) \<and>
     trk_inv (ackTrack (fs_send y)) \<and>
     (\<forall>x. trk_acked (ackTrack (fs_send y)) x \<longrightarrow> accounted y x)"

lemma acknowledgeReplay_tracker:
  assumes "acknowledgeReplay f sequence final = (res, g)"
  shows "ackTrack g = ackTrack f \<or> ackTrack g = trk_advance (ackTrack f) sequence"
  using assms by (auto simp: acknowledgeReplay_def trk_advance_def Let_def split: if_splits option.splits)

lemma unat_u64_max: "unat (w :: u64) \<le> u64_max"
  using unsigned_less [of w, where 'a = nat] by (simp add: u64_max_def)

lemma nat_ranges_bound: "\<forall>r \<in> set (nat_ranges rs). snd r \<le> u64_max"
  by (auto simp: nat_ranges_def unat_u64_max)

lemma handle_ack_tracker:
  assumes "handle_ack f fr = (err, g)" "trk_inv (ackTrack f)"
  shows "trk_inv (ackTrack g)" "trk_acked (ackTrack g) x \<Longrightarrow> trk_acked (ackTrack f) x \<or> ack_names fr x"
proof -
  let ?n = "unat (hSequence (fHeader fr))"
  note adv = trk_advance_spec [OF assms(2) unat_u64_max, of "hSequence (fHeader fr)"]
  have base: "trk_inv (ackTrack h) \<and> (\<forall>x. trk_acked (ackTrack h) x \<longrightarrow> trk_acked (ackTrack f) x \<or> x < ?n)"
    if "acknowledgeReplay f ?n b = (res, h)" for b res h
    using acknowledgeReplay_tracker [OF that] adv assms(2) by metis
  consider (same) "g = f" | (replay) b res where "acknowledgeReplay f ?n b = (res, g)"
    | (ranged) res h rs where "acknowledgeReplay f ?n False = (res, h)" "hFlags (fHeader fr) AND FlagAckRanges \<noteq> 0"
        "DecodeAckRanges (fPayload fr) (hSequence (fHeader fr)) = Inr rs" "ackTrack g = trk_add (ackTrack h) (nat_ranges rs)"
    using assms(1) by (auto simp: handle_ack_def trk_add_def Let_def split: if_splits prod.splits sum.splits)
  then have "trk_inv (ackTrack g) \<and> (\<forall>x. trk_acked (ackTrack g) x \<longrightarrow> trk_acked (ackTrack f) x \<or> ack_names fr x)"
  proof cases
    case same
    then show ?thesis using assms(2) by simp
  next
    case (replay b res)
    then show ?thesis using base [OF replay] by (auto simp: ack_names_def)
  next
    case (ranged res h rs)
    note b = base [OF ranged(1)] and a = trk_add_spec [OF _ nat_ranges_bound]
    show ?thesis using b a(1) a(2) ranged(2-4) by (auto simp: ack_names_def)
  qed
  then show "trk_inv (ackTrack g)" "trk_acked (ackTrack g) x \<Longrightarrow> trk_acked (ackTrack f) x \<or> ack_names fr x" by blast+
qed

lemma acknowledgeArrival_recv:
  assumes "acknowledgeArrival f r lastAck = (l, g)" "reasm_inv r" "ranges_nat_ok (ar_pendingRanges f)"
    and "\<forall>x. ranges_cover (ar_pendingRanges f) x \<longrightarrow> received r x" "ar_ackSequence f \<le> rNext r"
  shows "ranges_nat_ok (ar_pendingRanges g) \<and> (\<forall>x. ranges_cover (ar_pendingRanges g) x \<longrightarrow> received r x) \<and>
     ar_ackSequence g \<le> rNext r"
proof -
  have cov: "\<forall>x. ranges_cover (ReceivedRanges r (int MaxAckRanges)) x \<longrightarrow> received r x"
    using ReceivedRanges_spec [OF assms(2)] by (auto simp: received_def)
  have g: "ar_pendingRanges g \<in> {ar_pendingRanges f, ar_pendingRanges (publishReceivedRanges f r)}"
    "ar_ackSequence g \<in> {ar_ackSequence f, rNext r}"
    using assms(1)
    by (auto simp: acknowledgeArrival_def scheduleACK_def reportGap_def NextSequence_def publishReceivedRanges_def
        Let_def split: if_splits)
  have "ranges_nat_ok (ar_pendingRanges (publishReceivedRanges f r)) \<and>
      (\<forall>x. ranges_cover (ar_pendingRanges (publishReceivedRanges f r)) x \<longrightarrow> received r x)"
    using publish_ok [OF assms(2,3)] cov assms(4) by (auto simp: publishReceivedRanges_def)
  then show ?thesis using g assms(3-5) by auto
qed

lemma writeACK_names:
  assumes "writeACK f ids sequence dir False = (fr, g)" "ack_direction dir" "ranges_nat_ok (ar_pendingRanges f)"
    and "sequence \<le> u64_max" "ack_names fr x"
  shows "x < sequence \<or> ranges_cover (ar_pendingRanges f) x"
  using assms(3,4,1)
proof (cases rule: writeACK_frame [case_names plain ranged])
  case plain
  then show ?thesis
    using assms(5) writeACK_header(5) [OF assms(1)] ack_flags(4) [OF assms(2)] assms(4) by (simp add: ack_names_def u64_word)
next
  case (ranged rs)
  have "nat_ranges (wire_ranges rs) = rs" using ranged(1) by (intro nat_wire_ranges) (auto simp: ranges_nat_ok_def ranges_sep_def)
  then have "x < sequence \<or> ranges_cover rs x"
    using assms(5) ranged(3) writeACK_header(5) [OF assms(1)] assms(4) by (auto simp: ack_names_def u64_word)
  then show ?thesis using ranged(2) by (auto simp: ranges_cover_def)
qed

lemma writeACK_pending:
  assumes "writeACK f ids sequence dir False = (fr, g)" "ranges_nat_ok (ar_pendingRanges f)"
  shows "ranges_nat_ok (ar_pendingRanges g)" "ranges_cover (ar_pendingRanges g) x \<Longrightarrow> ranges_cover (ar_pendingRanges f) x"
    "ar_ackSequence g = ar_ackSequence f"
proof -
  note w = writeACK_receiver [OF assms(1)]
  show "ranges_nat_ok (ar_pendingRanges g)"
    using w assms(2) le_trans [OF length_filter_le] by (auto simp: ranges_nat_ok_def ranges_sep_filter)
  show "ranges_cover (ar_pendingRanges g) x \<Longrightarrow> ranges_cover (ar_pendingRanges f) x"
    using w by (fastforce simp: ranges_cover_def)
  show "ar_ackSequence g = ar_ackSequence f" using w by auto
qed

lemma remote_fin_names:
  assumes "acknowledgeRemoteFIN f ids sequence dir = (fr, f')" "ack_direction dir"
  shows "sequence \<le> u64_max \<Longrightarrow> ack_names fr x \<longleftrightarrow> x < sequence" "f' = f\<lparr>ar_ackClosing := True\<rparr>"
proof -
  note w = writeACK_final [OF assms(1) [unfolded acknowledgeRemoteFIN_def]]
  have "(dir OR FlagAckFinal) AND FlagAckRanges = 0" using assms(2) by (auto simp: ack_direction_def flag_defs)
  then show "sequence \<le> u64_max \<Longrightarrow> ack_names fr x \<longleftrightarrow> x < sequence"
    using w writeACK_header(5) [OF assms(1) [unfolded acknowledgeRemoteFIN_def]] by (simp add: ack_names_def u64_word)
  show "f' = f\<lparr>ar_ackClosing := True\<rparr>" using w by simp
qed

lemma flow_step_inv:
  assumes "flow_step ids dir y z" "ack_direction dir" "flow_inv y"
  shows "flow_inv z"
  using assms
proof (induction rule: flow_step.induct)
  case (data s y out r lastAck f)
  have i: "reasm_inv (fs_reasm y)" "mem_holds (rMemory (fs_reasm y)) (0 + int (rBytes (fs_reasm y)))"
    using data.prems by (simp_all add: flow_inv_def)
  note k = reasm_insert_keeps [OF i(1) data(1) i(2) order_refl] and m = reasm_insert_received [OF i(1) data(1) i(2) order_refl]
  have r: "reasm_inv r" "mem_holds (rMemory r) (0 + int (rBytes r))" "rNext (fs_reasm y) \<le> rNext r"
    "\<And>x. received (fs_reasm y) x \<Longrightarrow> received r x"
    using k m data(3) by auto
  have "ranges_nat_ok (ar_pendingRanges f) \<and> (\<forall>x. ranges_cover (ar_pendingRanges f) x \<longrightarrow> received r x) \<and>
     ar_ackSequence f \<le> rNext r"
    using data.prems r(3,4) by (intro acknowledgeArrival_recv [OF data(4) r(1)]) (auto simp: flow_inv_def)
  moreover have "accounted y x \<Longrightarrow> accounted (y\<lparr>fs_reasm := r, fs_recv := f, fs_last := lastAck\<rparr>) x" for x using r(4) by (auto simp: accounted_def)
  ultimately show ?case using data.prems r by (auto simp: flow_inv_def)
next
  case (fin s y out r)
  have i: "reasm_inv (fs_reasm y)" "mem_holds (rMemory (fs_reasm y)) (0 + int (rBytes (fs_reasm y)))"
    using fin.prems by (simp_all add: flow_inv_def)
  note k = reasm_insert_keeps [OF i(1) fin(1) i(2) order_refl] and m = reasm_insert_received [OF i(1) fin(1) i(2) order_refl]
  have r: "reasm_inv r" "mem_holds (rMemory r) (0 + int (rBytes r))" "rNext (fs_reasm y) \<le> rNext r" "\<And>x. received (fs_reasm y) x \<Longrightarrow> received r x"
    using k m fin(3) by auto
  moreover have "accounted y x \<Longrightarrow> accounted (y\<lparr>fs_reasm := r\<rparr>) x" for x using r(4) by (auto simp: accounted_def)
  ultimately show ?case using fin.prems by (auto simp: flow_inv_def intro: order_trans)
next
  case (acknowledge y sent sequence f fr f')
  have f: "ar_pendingRanges f = ar_pendingRanges (fs_recv y)" "ar_ackSequence f = ar_ackSequence (fs_recv y)"
    "sequence = ar_ackSequence (fs_recv y)"
    using acknowledge(1) by (auto simp: ack_loop_turn_def Let_def split: if_splits)
  have p: "ranges_nat_ok (ar_pendingRanges f)" "\<And>x. ranges_cover (ar_pendingRanges f) x \<Longrightarrow> received (fs_reasm y) x"
    "sequence \<le> rNext (fs_reasm y)" "rNext (fs_reasm y) \<le> u64_max"
    using acknowledge.prems f by (simp_all add: flow_inv_def reasm_inv_def)
  have "received (fs_reasm y) x" if "ack_names fr x" for x
    using writeACK_names [OF acknowledge(2) acknowledge.prems(1) p(1) _ that] p(2-4) by (auto simp: received_def)
  then show ?case
    using acknowledge.prems writeACK_pending [OF acknowledge(2) p(1)] p(2,3) f by (auto simp: flow_inv_def accounted_def)
next
  case (final_ack y fr f')
  have "rNext (fs_reasm y) \<le> u64_max" using final_ack.prems by (simp add: flow_inv_def reasm_inv_def)
  note r = remote_fin_names [OF final_ack(2) final_ack.prems(1)]
  have "accounted y x" if "ack_names fr x" for x
    using r(1) that \<open>rNext (fs_reasm y) \<le> u64_max\<close> by (auto simp: accounted_def received_def NextSequence_def)
  then show ?case using final_ack.prems r(2) by (auto simp: flow_inv_def accounted_def)
next
  case (full_close sequence y fr f')
  note r = remote_fin_names(1) [OF full_close(2) full_close.prems(1) full_close(1)] remote_fin_names(2) [OF full_close(2) full_close.prems(1)]
  show ?case using full_close.prems r by (auto simp: flow_inv_def accounted_def)
next
  case (receive_ack fr y err g)
  have "trk_inv (ackTrack (fs_send y))" using receive_ack.prems by (simp add: flow_inv_def)
  note h = handle_ack_tracker [OF receive_ack(2) this]
  have "accounted y x" if "trk_acked (ackTrack g) x" for x
    using h(2) [OF that] receive_ack(1) receive_ack.prems unfolding flow_inv_def by blast
  then show ?case using receive_ack.prems h(1) by (simp add: flow_inv_def accounted_def)
next
  case (sent y q n)
  then show ?case by (auto simp: flow_inv_def noteSent_def accounted_def Let_def)
next
  case (local_close y q)
  then show ?case by (auto simp: flow_inv_def sendSequence_def accounted_def)
qed

lemma flow_reachable_inv:
  assumes "flow_reachable cfg ids dir y" "ack_direction dir" "mem_holds (Memory cfg) 0"
  shows "flow_inv y"
  using assms
proof (induction rule: flow_reachable.induct)
  case start
  then show ?case
    using NewReassembler_inv [of 0 cfg] trk_inv_new
    by (simp add: flow_inv_def flow_start_def ranges_nat_ok_def ranges_sep_def)
next
  case (step y z)
  then show ?case by (blast intro: flow_step_inv)
qed

section \<open>Properties\<close>


lemma ParseFrame_append:
  assumes "length (fPayload fr) \<le> MaxPayload" "header_ok (with_payload_len fr)" "wf_header (with_payload_len fr)"
  shows "AppendFrame [] fr = Inr (header_bytes (with_payload_len fr) @ fPayload fr)"
    "ParseFrame (header_bytes (with_payload_len fr) @ fPayload fr) = Inr (fr\<lparr>fHeader := with_payload_len fr\<rparr>)"
proof -
  show "AppendFrame [] fr = Inr (header_bytes (with_payload_len fr) @ fPayload fr)"
    using assms by (simp add: AppendFrame_Inr)
  show "ParseFrame (header_bytes (with_payload_len fr) @ fPayload fr) = Inr (fr\<lparr>fHeader := with_payload_len fr\<rparr>)"
    using assms DecodeHeader_header_bytes [OF assms(3,2), of "[]"]
    by (simp add: ParseFrame_eq ParseFrameOwned_Inr unat_payload_len) (simp add: with_payload_len_def unat_payload_len)
qed

lemma handle_ack_len:
  "handle_ack s (fr\<lparr>fHeader := with_payload_len fr\<rparr>) = handle_ack s fr"
  by (simp add: handle_ack_def with_payload_len_def Let_def split: prod.split sum.split)

lemma acknowledgeReplay_ok:
  "sequence \<le> highestSent f \<Longrightarrow> \<exists>adv g. acknowledgeReplay f sequence final = (Inr adv, g)"
  by (auto simp: acknowledgeReplay_def Let_def)

lemma handle_ack_accepts:
  assumes "writeACK f ids sequence dir False = (fr, f')" "ack_direction dir" "ranges_nat_ok (ar_pendingRanges f)"
    and "sequence \<le> u64_max" "sendAckFlag s = dir" "sequence \<le> highestSent s"
  shows "fst (handle_ack s fr) = None"
proof -
  have seq: "unat (hSequence (fHeader fr)) = sequence" using writeACK_header(5) [OF assms(1)] assms(4) by (simp add: u64_word)
  obtain adv g where r: "acknowledgeReplay s sequence False = (Inr adv, g)" using acknowledgeReplay_ok [OF assms(6)] by blast
  note fl = ack_flags [OF assms(2)]
  show ?thesis using assms(3,4,1)
  proof (cases rule: writeACK_frame [case_names plain ranged])
    case plain
    then show ?thesis using seq r fl(1,3,4) assms(5) by (simp add: handle_ack_def Let_def)
  next
    case (ranged rs)
    then show ?thesis using seq r fl(2,5,6) assms(5) by (simp add: handle_ack_def Let_def)
  qed
qed

text \<open>Every acknowledgement the receiver sends is understood: in every reachable state the frame
  \<open>writeACK\<close> builds serializes, parses back, and is accepted by a sender that has sent at least the
  acknowledged bytes. In particular the ranges taken from an older snapshot never start below the
  newer cumulative point, which the decoder would refuse and the flow would not survive.\<close>

theorem acknowledgement_accepted:
  assumes "flow_reachable cfg ids dir y" and "ack_direction dir" and "mem_holds (Memory cfg) 0"
    and "length (sessionID ids) = 16" "flow_class ids \<le> ClassBulk"
    and "ack_loop_turn (fs_recv y) n = (Some sequence, f)" "writeACK f ids sequence dir False = (fr, f')"
    and "sendAckFlag s = dir" "sequence \<le> highestSent s"
  shows "\<exists>b g. AppendFrame [] fr = Inr b \<and> ParseFrame b = Inr g \<and> fst (handle_ack s g) = None"
proof -
  have i: "flow_inv y" by (rule flow_reachable_inv [OF assms(1-3)])
  have f: "ar_pendingRanges f = ar_pendingRanges (fs_recv y)" "sequence = ar_ackSequence (fs_recv y)"
    using assms(6) by (auto simp: ack_loop_turn_def Let_def split: if_splits)
  have ok: "ranges_nat_ok (ar_pendingRanges f)" "sequence \<le> u64_max" using i f by (auto simp: flow_inv_def reasm_inv_def)
  have fr: "fr = fst (writeACK f ids sequence dir False)" using assms(7) by simp
  note p = ParseFrame_append [OF ack_frame_serializable [OF fr ok assms(2,4,5)]]
  show ?thesis using p handle_ack_accepts [OF assms(7,2) ok assms(8,9)] handle_ack_len by metis
qed

text \<open>A range acknowledgement is not checked against what was sent, although a cumulative one is: a
  frame whose range starts at the first byte not yet sent is accepted, and the tracker then reports
  bytes as delivered that never left.\<close>

theorem unsent_range_acknowledged:
  assumes "trk_inv (ackTrack s)" and "ack_direction (sendAckFlag s)" and "as_acked s \<le> highestSent s"
    and "0 < n" "highestSent s + n \<le> u64_max"
    and "hFlags (fHeader fr) = sendAckFlag s OR FlagAckRanges" "hSequence (fHeader fr) = word_of_nat (as_acked s)"
    and "fPayload fr = range_bytes (wire_ranges [(highestSent s, highestSent s + n)])"
  shows "\<exists>s'. handle_ack s fr = (None, s') \<and> highestSent s' = highestSent s \<and>
     Covered (ackTrack s') (highestSent s) (highestSent s + n)"
proof -
  let ?rs = "[(highestSent s, highestSent s + n)]" and ?c = "word_of_nat (as_acked s) :: u64"
  have seq: "unat ?c = as_acked s" using assms(3,5) by (simp add: u64_word)
  have "ranges_sep ?rs" using assms(4,5) by (simp add: ranges_sep_def)
  then have "ranges_from ?c (wire_ranges ?rs)" using assms(3,5) by (intro ranges_from_wire) simp_all
  then have d: "DecodeAckRanges (fPayload fr) ?c = Inr (wire_ranges ?rs)"
    using encode_decode_ranges(2) [of ?c "wire_ranges ?rs"] assms(8) by (simp add: wire_ranges_def MaxAckRanges_def)
  obtain adv g where r: "acknowledgeReplay s (as_acked s) False = (Inr adv, g)" using acknowledgeReplay_ok [OF assms(3)] by blast
  have g: "trk_inv (ackTrack g)" "highestSent g = highestSent s"
    using acknowledgeReplay_tracker [OF r] trk_advance_spec(1) [OF assms(1), of "as_acked s"] assms(1,3,5) r
    by (auto simp: acknowledgeReplay_def Let_def split: option.splits if_splits)
  let ?s = "g\<lparr>ackTrack := trk_add (ackTrack g) ?rs\<rparr>"
  have nw: "nat_ranges (wire_ranges ?rs) = ?rs" using assms(4,5) by (intro nat_wire_ranges) simp
  have h: "handle_ack s fr = (None, ?s)"
    using d r seq ack_flags [OF assms(2)] assms(6,7) nw by (simp add: handle_ack_def Let_def trk_add_def)
  have b: "\<forall>r \<in> set ?rs. snd r \<le> u64_max" using assms(5) by simp
  have "Covered (ackTrack ?s) (highestSent s) (highestSent s + n)"
    using acks.covered_iff [OF trk_add_spec(1) [OF g(1) b]] trk_add_spec(2) [OF g(1) b] by simp
  then show ?thesis using h g(2) by simp
qed

section \<open>Witnesses\<close>

text \<open>A run: two bytes arrive, the receiver acknowledges them, the sender, which sent them, takes the
  acknowledgement in.\<close>

definition sample_ids :: flow_ids where
  "sample_ids = \<lparr>sessionID = replicate 16 1, flowID = 7, flow_class = ClassBulk\<rparr>"

definition sample_recv :: ack_receiver where
  "sample_recv = \<lparr>ar_ackRanges = True, ar_pendingRanges = [], ar_ackSequence = 2, ar_gapPending = False,
     ar_ackClosing = False, ar_ackWake = True, ar_acksSched = 1\<rparr>"

definition sample_ack :: frame where
  "sample_ack = fst (writeACK sample_recv sample_ids 2 FlagAckUp False)"

definition sample_received :: flow_sys where
  "sample_received = (flow_start reasm_DefaultConfig FlagAckUp)\<lparr>fs_reasm := sample_after, fs_recv := sample_recv, fs_last := 2\<rparr>"

lemma sample_insert:
  "reasm_insert (NewReassembler reasm_DefaultConfig) (data_seg 0 [1, 2]) = (Inr ([1, 2], False), sample_after)"
  by (simp add: reasm_insert_def data_seg_def NewReassembler_def reasm_DefaultConfig_def checkNeighbours_def
      lower_bound_def sort_search_def search_loop.simps consumeContiguous_def drain.simps sample_after_def
      u64_max_def add64_def Closed_def Let_def)

lemma sample_ack_fields: "sample_ack = \<lparr>fHeader = \<lparr>hVersion = Version, hType = TypeAck, hFlags = FlagAckUp,
     hSessionID = replicate 16 1, hFlowID = 7, hSequence = 2, hPayloadLen = 0, hClass = ClassBulk\<rparr>, fPayload = []\<rparr>"
  "snd (writeACK sample_recv sample_ids 2 FlagAckUp False) = sample_recv"
  by (simp_all add: sample_ack_def writeACK_def takeReceivedRanges_def sample_recv_def sample_ids_def wire_ranges_def
      EncodeAckRanges_def Let_def)

lemma sample_received_reachable: "flow_reachable reasm_DefaultConfig sample_ids FlagAckUp sample_received"
proof -
  let ?y = "flow_start reasm_DefaultConfig FlagAckUp"
  have "acknowledgeArrival (fs_recv ?y) sample_after (fs_last ?y) = (2, sample_recv)"
    by (simp add: acknowledgeArrival_def flow_start_def NextSequence_def sample_after_fields sample_recv_def
        publishReceivedRanges_def scheduleACK_def ReceivedRanges_def MaxAckRanges_def add64_def Let_def)
  moreover have "reasm_insert (fs_reasm ?y) (data_seg 0 [1, 2]) = (Inr ([1, 2], False), sample_after)"
    using sample_insert by (simp add: flow_start_def)
  ultimately have "flow_step sample_ids FlagAckUp ?y (?y\<lparr>fs_reasm := sample_after, fs_recv := sample_recv, fs_last := 2\<rparr>)"
    by (intro flow_step.data [OF sample_seg_in(2)]) (simp_all add: data_seg_def)
  from flow_reachable.step [OF flow_reachable.start this] show ?thesis by (simp add: sample_received_def)
qed

lemma sample_turn: "ack_loop_turn (fs_recv sample_received) 0 = (Some 2, sample_recv)"
  by (simp add: sample_received_def sample_recv_def ack_loop_turn_def)

lemma sample_write: "writeACK sample_recv sample_ids 2 FlagAckUp False = (sample_ack, sample_recv)"
  using sample_ack_fields(2) by (metis prod.collapse sample_ack_def)




lemma sample_mem: "mem_holds (Memory reasm_DefaultConfig) 0"
  by (simp add: mem_holds_def reasm_DefaultConfig_def)


theorem acknowledgement_accepted_witness:
  "\<exists>b g. AppendFrame [] sample_ack = Inr b \<and> ParseFrame b = Inr g \<and>
     fst (handle_ack (noteSent (fs_send sample_received) 0 2) g) = None"
  using acknowledgement_accepted [OF sample_received_reachable _ sample_mem _ _ sample_turn sample_write,
      of "noteSent (fs_send sample_received) 0 2"]
  by (simp add: ack_direction_def sample_ids_def noteSent_def sample_received_def flow_start_def add64_def)

definition sample_unsent :: frame where
  "sample_unsent = sample_ack\<lparr>fHeader := (fHeader sample_ack)\<lparr>hFlags := FlagAckUp OR FlagAckRanges, hSequence := 0\<rparr>,
     fPayload := range_bytes (wire_ranges [(0, 5)])\<rparr>"

theorem unsent_range_acknowledged_witness:
  "\<exists>s'. handle_ack (fs_send sample_received) sample_unsent = (None, s') \<and> highestSent s' = 0 \<and> Covered (ackTrack s') 0 5"
  using unsent_range_acknowledged [of "fs_send sample_received" 5 sample_unsent]
  by (simp add: sample_received_def flow_start_def trk_inv_new ack_direction_def u64_max_def sample_unsent_def)

end
