(* ===== verification/Stripe.thy ===== *)
theory Stripe
  imports Memlimit "HOL-Library.AList"
begin

text \<open>
  The chunk scheduler of \<^verbatim>\<open>internal/stripe/stripe.go\<close>: one byte stream, cut into chunks, handed to the
  lanes that ask for work. A chunk is a heap object shared by the ready list and the table of live
  chunks, so the model keeps a heap (\<open>sch_heap\<close>, an address is an index) and both hold addresses. The
  table \<^verbatim>\<open>live\<close> is an association list with distinct keys; its order stands for the iteration order of a
  Go map, which nothing below depends on. The counters per lane are functions with default zero. Byte
  counts and offsets are natural numbers: they count bytes of one stream and stay far below \<open>2 ^ 64\<close>;
  the attempt counter, whose wrap-around the code handles, is kept modulo \<open>2 ^ 64\<close>. A time is an \<open>int\<close> of
  nanoseconds and the zero \<^verbatim>\<open>time.Time\<close> is \<open>None\<close>. What the callbacks of \<^verbatim>\<open>Config\<close> answer during one
  critical section is an argument (\<open>sch_env\<close>). \<open>Next\<close> and \<open>produce\<close> are cut where they give up the mutex.
  A panic of the shared budget's \<open>Release\<close> is the result \<open>None\<close>. Condition variables carry no state.
\<close>

section \<open>State\<close>

record sch_config =
  ChunkSize :: int
  LaneWindow :: int
  MaxOutstanding :: int
  MaxOutstandingBytes :: int
  ReliableReissueBurst :: int

definition sch_DefaultConfig :: sch_config where
  "sch_DefaultConfig = \<lparr>ChunkSize = 64 * 1024, LaneWindow = 4, MaxOutstanding = 64,
     MaxOutstandingBytes = 16 * 1024 * 1024, ReliableReissueBurst = 0\<rparr>"

definition applyDefaults :: "sch_config \<Rightarrow> sch_config" where
  "applyDefaults c =
     (let d = sch_DefaultConfig;
          c1 = (if ChunkSize c \<le> 0 then c\<lparr>ChunkSize := ChunkSize d\<rparr> else c);
          c2 = (if LaneWindow c1 \<le> 0 then c1\<lparr>LaneWindow := LaneWindow d\<rparr> else c1);
          c3 = (if MaxOutstanding c2 \<le> 0 then c2\<lparr>MaxOutstanding := MaxOutstanding d\<rparr> else c2);
          c4 = (if MaxOutstanding c3 < LaneWindow c3 then c3\<lparr>MaxOutstanding := LaneWindow c3\<rparr> else c3)
      in if MaxOutstandingBytes c4 \<le> 0 then c4\<lparr>MaxOutstandingBytes := MaxOutstandingBytes d\<rparr> else c4)"

record windows =
  w_Total :: int
  w_Lane :: "nat \<Rightarrow> nat \<Rightarrow> int"
  w_Outstanding :: "(nat \<Rightarrow> nat \<Rightarrow> int) option"

record sch_env =
  e_Now :: int
  e_RetransmitAfter :: "int option"
  e_Reliable :: "(nat \<Rightarrow> bool) option"
  e_Windows :: "windows option"
  e_Retention :: "int option"

record chunk =
  cOffset :: nat
  cData :: bytes
  cFinal :: bool
  cUrgent :: bool
  cAttempt :: nat
  cReservation :: int

definition chunk_End :: "chunk \<Rightarrow> nat" where
  "chunk_End c = cOffset c + length (cData c)"

record attempt =
  aId :: nat
  aLane :: nat
  aDeadline :: "int option"
  aReliable :: bool
  aWritten :: bool

record outstanding =
  oChunk :: nat
  oAttempts :: "attempt list"

record sch_stats =
  ChunksIssued :: nat
  ChunksRetransmit :: nat
  ChunksCompleted :: nat
  BytesIssued :: nat
  BytesRetransmit :: nat
  LaneFailures :: nat
  SourceBytes :: nat
  PeakOutstanding :: nat
  CompletedByLaneID :: "nat \<Rightarrow> nat"

datatype src_error = SrcErrEOF | SrcErr nat | SrcErrMemory

text \<open>Where the producer goroutine is: before its reservation, holding one, or returned.\<close>

datatype producer = Producing | Holding | Returned

record scheduler =
  sch_cfg :: sch_config
  sch_heap :: "chunk list"
  sch_nextOffset :: nat
  sch_pending :: "nat list"
  sch_live :: "(nat \<times> outstanding) list"
  sch_laneLoad :: "nat \<Rightarrow> nat"
  sch_laneBytes :: "nat \<Rightarrow> nat"
  sch_laneQueued :: "nat \<Rightarrow> nat"
  sch_totalBytes :: nat
  sch_nextAttempt :: nat
  sch_eof :: bool
  sch_srcErr :: "src_error option"
  sch_closed :: bool
  sch_finished :: bool
  sch_stats :: sch_stats
  sch_memory :: "budget option"
  sch_producer :: producer

definition sch_New :: "sch_config \<Rightarrow> budget option \<Rightarrow> scheduler" where
  "sch_New cfg mem =
     \<lparr>sch_cfg = applyDefaults cfg, sch_heap = [], sch_nextOffset = 0, sch_pending = [], sch_live = [],
      sch_laneLoad = (\<lambda>_. 0), sch_laneBytes = (\<lambda>_. 0), sch_laneQueued = (\<lambda>_. 0), sch_totalBytes = 0,
      sch_nextAttempt = 0, sch_eof = False, sch_srcErr = None, sch_closed = False, sch_finished = False,
      sch_stats = \<lparr>ChunksIssued = 0, ChunksRetransmit = 0, ChunksCompleted = 0, BytesIssued = 0,
        BytesRetransmit = 0, LaneFailures = 0, SourceBytes = 0, PeakOutstanding = 0,
        CompletedByLaneID = (\<lambda>_. 0)\<rparr>,
      sch_memory = mem, sch_producer = Producing\<rparr>"

text \<open>The object at an address, and its offset and size.\<close>

definition chunk_at :: "scheduler \<Rightarrow> nat \<Rightarrow> chunk" where
  "chunk_at s p = sch_heap s ! p"

definition chunk_size :: "scheduler \<Rightarrow> nat \<Rightarrow> nat" where
  "chunk_size s p = length (cData (chunk_at s p))"

definition set_chunk :: "scheduler \<Rightarrow> nat \<Rightarrow> chunk \<Rightarrow> scheduler" where
  "set_chunk s p c = s\<lparr>sch_heap := (sch_heap s)[p := c]\<rparr>"

definition pendingHas :: "scheduler \<Rightarrow> nat \<Rightarrow> bool" where
  "pendingHas s off \<longleftrightarrow> (\<exists>p \<in> set (sch_pending s). cOffset (chunk_at s p) = off)"

section \<open>Ends of the stream\<close>

definition finishedLocked :: "scheduler \<Rightarrow> src_error option" where
  "finishedLocked s = (if sch_pending s = [] \<and> sch_live s = [] then sch_srcErr s else None)"

definition doneLocked :: "scheduler \<Rightarrow> bool" where
  "doneLocked s \<longleftrightarrow> sch_eof s \<and> sch_pending s = [] \<and> sch_live s = []"

definition signalIfDoneLocked :: "scheduler \<Rightarrow> scheduler" where
  "signalIfDoneLocked s = (if \<not> doneLocked s then s else s\<lparr>sch_finished := True\<rparr>)"

text \<open>The loop over \<^verbatim>\<open>live\<close> in \<open>markEOFLocked\<close> has an empty body.\<close>

definition markEOFLocked :: "scheduler \<Rightarrow> scheduler" where
  "markEOFLocked s =
     (let s1 = s\<lparr>sch_eof := True\<rparr> in
      if sch_pending s1 \<noteq> [] then
        let p = last (sch_pending s1) in set_chunk s1 p ((chunk_at s1 p)\<lparr>cFinal := True\<rparr>)
      else s1\<lparr>sch_heap := sch_heap s1 @ [\<lparr>cOffset = sch_nextOffset s1, cData = [], cFinal = True,
                 cUrgent = False, cAttempt = 0, cReservation = 0\<rparr>],
              sch_pending := sch_pending s1 @ [length (sch_heap s1)]\<rparr>)"

section \<open>The producer\<close>

definition retainedBytes :: "scheduler \<Rightarrow> nat" where
  "retainedBytes s = foldl (\<lambda>t p. t + chunk_size s p) (sch_totalBytes s) (sch_pending s)"

definition readAheadLimit :: "sch_env \<Rightarrow> scheduler \<Rightarrow> int" where
  "readAheadLimit e s =
     (case e_Retention e of
        None \<Rightarrow> MaxOutstandingBytes (sch_cfg s)
      | Some want \<Rightarrow> if want \<le> 0 \<or> want > MaxOutstandingBytes (sch_cfg s)
          then MaxOutstandingBytes (sch_cfg s) else want)"

definition produce_blocked :: "sch_env \<Rightarrow> scheduler \<Rightarrow> bool" where
  "produce_blocked e s \<longleftrightarrow> \<not> sch_closed s \<and>
     (int (length (sch_pending s)) + int (length (sch_live s)) \<ge> MaxOutstanding (sch_cfg s) \<or>
      int (retainedBytes s) \<ge> readAheadLimit e s)"

text \<open>
  The producer's loop: the check of \<open>closed\<close> after the wait, the outcome of the blocking reservation
  (a call that ended well is \<open>Acquired\<close>), which may come after a concurrent \<open>Close\<close>.
\<close>

definition produce_check :: "scheduler \<Rightarrow> scheduler" where
  "produce_check s = (if sch_closed s then s\<lparr>sch_producer := Returned\<rparr> else s)"

definition produce_reserve :: "scheduler \<Rightarrow> acquire_result \<times> budget option \<Rightarrow> scheduler" where
  "produce_reserve s res =
     (case res of
        (Acquired, mem) \<Rightarrow> s\<lparr>sch_memory := mem, sch_producer := Holding\<rparr>
      | (_, mem) \<Rightarrow>
          let s1 = s\<lparr>sch_memory := mem, sch_producer := Returned\<rparr> in
          if \<not> sch_closed s1 then s1\<lparr>sch_srcErr := Some SrcErrMemory, sch_eof := True\<rparr> else s1)"

text \<open>From the return of \<^verbatim>\<open>src.Read\<close> to the end of the iteration.\<close>

definition produce_read :: "scheduler \<Rightarrow> bytes \<Rightarrow> src_error option \<Rightarrow> scheduler option" where
  "produce_read s data err =
     (if sch_closed s then
        map_option (\<lambda>mem. s\<lparr>sch_memory := mem, sch_producer := Returned\<rparr>)
          (Release (sch_memory s) (ChunkSize (sch_cfg s)))
      else
        let s1 = (if data \<noteq> [] then
                    Some (s\<lparr>sch_heap := sch_heap s @ [\<lparr>cOffset = sch_nextOffset s, cData = data, cFinal = False,
                                cUrgent = False, cAttempt = 0, cReservation = ChunkSize (sch_cfg s)\<rparr>],
                             sch_nextOffset := sch_nextOffset s + length data,
                             sch_stats := (sch_stats s)\<lparr>SourceBytes := SourceBytes (sch_stats s) + length data\<rparr>,
                             sch_pending := sch_pending s @ [length (sch_heap s)]\<rparr>)
                  else map_option (\<lambda>mem. s\<lparr>sch_memory := mem\<rparr>) (Release (sch_memory s) (ChunkSize (sch_cfg s))))
        in case s1 of
             None \<Rightarrow> None
           | Some s1 \<Rightarrow>
               (case err of
                  None \<Rightarrow> Some (s1\<lparr>sch_producer := Producing\<rparr>)
                | Some SrcErrEOF \<Rightarrow> Some ((signalIfDoneLocked (markEOFLocked s1))\<lparr>sch_producer := Returned\<rparr>)
                | Some e \<Rightarrow> Some ((signalIfDoneLocked (s1\<lparr>sch_srcErr := Some e, sch_eof := True\<rparr>))\<lparr>sch_producer := Returned\<rparr>)))"

section \<open>Admission and dispatch\<close>

definition laneRetransmits :: "sch_env \<Rightarrow> nat \<Rightarrow> bool" where
  "laneRetransmits e lane = (case e_Reliable e of None \<Rightarrow> True | Some f \<Rightarrow> f lane)"

definition retransmitAfter :: "sch_env \<Rightarrow> int" where
  "retransmitAfter e = (case e_RetransmitAfter e of None \<Rightarrow> 0 | Some d \<Rightarrow> d)"

definition laneHasAttempt :: "outstanding \<Rightarrow> nat \<Rightarrow> bool" where
  "laneHasAttempt out lane \<longleftrightarrow> (\<exists>a \<in> set (oAttempts out). aLane a = lane)"

definition laneHasReliableAttempt :: "outstanding \<Rightarrow> nat \<Rightarrow> bool" where
  "laneHasReliableAttempt out lane \<longleftrightarrow> (\<exists>a \<in> set (oAttempts out). aLane a = lane \<and> aReliable a)"

definition hasRoomLocked :: "sch_env \<Rightarrow> scheduler \<Rightarrow> nat \<Rightarrow> int \<Rightarrow> nat \<Rightarrow> bool" where
  "hasRoomLocked e s lane windowBytes sz =
     (if sch_totalBytes s = 0 then True
      else
        let sz = (if sz = 0 then 1 else sz);
            held = sch_laneBytes s lane; queued = sch_laneQueued s lane
        in if (case e_Windows e of None \<Rightarrow> False
               | Some w \<Rightarrow> w_Total w > 0 \<and> int (sch_totalBytes s + sz) > w_Total w) then False
           else if (case e_Windows e of None \<Rightarrow> False
               | Some w \<Rightarrow> (case w_Outstanding w of None \<Rightarrow> False
                   | Some f \<Rightarrow> f lane held > 0 \<and> int (held + sz) > f lane held)) then False
           else if queued = 0 then True
           else if windowBytes > 0 \<and> int (queued + sz) > windowBytes then False
           else if (case e_Windows e of None \<Rightarrow> False
               | Some w \<Rightarrow> w_Lane w lane queued > 0 \<and> int (queued + sz) > w_Lane w lane queued) then False
           else True)"

text \<open>The scan of \<open>takeReadyLocked\<close>: the index in the ready list of the chunk to hand out.\<close>

fun take_scan :: "sch_env \<Rightarrow> scheduler \<Rightarrow> nat \<Rightarrow> int \<Rightarrow> nat list \<Rightarrow> nat \<Rightarrow> nat option" where
  "take_scan e s lane windowBytes [] i = None"
| "take_scan e s lane windowBytes (p # ps) i =
     (if \<not> hasRoomLocked e s lane windowBytes (chunk_size s p) \<and> \<not> cUrgent (chunk_at s p) then None
      else if (case map_of (sch_live s) (cOffset (chunk_at s p)) of
                 None \<Rightarrow> False | Some out \<Rightarrow> laneHasReliableAttempt out lane)
      then take_scan e s lane windowBytes ps (Suc i)
      else Some i)"

definition next_attempt_id :: "nat \<Rightarrow> nat" where
  "next_attempt_id n = (let n1 = add64 n 1 in if n1 = 0 then add64 n1 1 else n1)"

text \<open>The rest of the loop body: unlink the chunk, record the attempt, charge the lane.\<close>

definition dispatch :: "sch_env \<Rightarrow> scheduler \<Rightarrow> nat \<Rightarrow> nat \<Rightarrow> chunk \<times> scheduler" where
  "dispatch e s lane i =
     (let p = sch_pending s ! i; c = chunk_at s p; sz = length (cData c);
          st = sch_stats s; found = map_of (sch_live s) (cOffset c);
          out = (case found of None \<Rightarrow> \<lparr>oChunk = p, oAttempts = []\<rparr> | Some out \<Rightarrow> out);
          st1 = (if found = None
                 then st\<lparr>ChunksIssued := ChunksIssued st + 1, BytesIssued := BytesIssued st + sz\<rparr>
                 else st\<lparr>ChunksRetransmit := ChunksRetransmit st + 1, BytesRetransmit := BytesRetransmit st + sz\<rparr>);
          deadline = (if retransmitAfter e > 0 then Some (e_Now e + retransmitAfter e) else None);
          aid = next_attempt_id (sch_nextAttempt s);
          a = \<lparr>aId = aid, aLane = lane, aDeadline = deadline, aReliable = laneRetransmits e lane, aWritten = False\<rparr>;
          live1 = AList.update (cOffset c) (out\<lparr>oAttempts := oAttempts out @ [a]\<rparr>) (sch_live s);
          s1 = set_chunk s p (c\<lparr>cUrgent := False\<rparr>);
          s2 = s1\<lparr>sch_pending := remove_at i (sch_pending s), sch_live := live1, sch_nextAttempt := aid,
                  sch_laneLoad := (sch_laneLoad s)(lane := sch_laneLoad s lane + 1),
                  sch_laneBytes := (sch_laneBytes s)(lane := sch_laneBytes s lane + sz),
                  sch_laneQueued := (sch_laneQueued s)(lane := sch_laneQueued s lane + sz),
                  sch_totalBytes := sch_totalBytes s + sz,
                  sch_stats := st1\<lparr>PeakOutstanding := max (PeakOutstanding st1) (length live1)\<rparr>\<rparr>
      in (c\<lparr>cUrgent := False, cReservation := 0, cAttempt := aid\<rparr>, s2))"

definition takeReadyLocked :: "sch_env \<Rightarrow> scheduler \<Rightarrow> nat \<Rightarrow> int \<Rightarrow> (chunk \<times> scheduler) option" where
  "takeReadyLocked e s lane windowBytes =
     map_option (dispatch e s lane) (take_scan e s lane windowBytes (sch_pending s) 0)"

datatype next_result =
    NextErrClosed
  | NextCtxErr
  | NextChunk chunk
  | NextSrcErr src_error
  | NextDone
  | NextWait

text \<open>One turn of the loop of \<open>Next\<close>.\<close>

definition next_turn :: "sch_env \<Rightarrow> scheduler \<Rightarrow> nat \<Rightarrow> int \<Rightarrow> bool \<Rightarrow> next_result \<times> scheduler" where
  "next_turn e s lane windowBytes ctx_done =
     (if sch_closed s then (NextErrClosed, s)
      else if ctx_done then (NextCtxErr, s)
      else if int (sch_laneLoad s lane) < LaneWindow (sch_cfg s) then
        (case takeReadyLocked e s lane windowBytes of
           Some (c, s') \<Rightarrow> (NextChunk c, s')
         | None \<Rightarrow>
             (case finishedLocked s of
                Some err \<Rightarrow> (NextSrcErr err, s)
              | None \<Rightarrow> if doneLocked s then (NextDone, s) else (NextWait, s)))
      else (NextWait, s))"

section \<open>Releasing, requeueing, retiring\<close>

definition releaseQueuedLocked :: "scheduler \<Rightarrow> nat \<Rightarrow> nat \<Rightarrow> scheduler" where
  "releaseQueuedLocked s lane sz =
     (if sch_laneQueued s lane \<ge> sz
      then s\<lparr>sch_laneQueued := (sch_laneQueued s)(lane := sch_laneQueued s lane - sz)\<rparr>
      else s\<lparr>sch_laneQueued := (sch_laneQueued s)(lane := 0)\<rparr>)"

definition releaseLaneLocked :: "scheduler \<Rightarrow> nat \<Rightarrow> nat \<Rightarrow> bool \<Rightarrow> scheduler" where
  "releaseLaneLocked s lane sz queued =
     (let s1 = (if sch_laneLoad s lane > 0
                then s\<lparr>sch_laneLoad := (sch_laneLoad s)(lane := sch_laneLoad s lane - 1)\<rparr> else s);
          s2 = (if queued then releaseQueuedLocked s1 lane sz else s1);
          (sz', s3) = (if sch_laneBytes s2 lane \<ge> sz
                then (sz, s2\<lparr>sch_laneBytes := (sch_laneBytes s2)(lane := sch_laneBytes s2 lane - sz)\<rparr>)
                else (sch_laneBytes s2 lane, s2\<lparr>sch_laneBytes := (sch_laneBytes s2)(lane := 0)\<rparr>))
      in if sch_totalBytes s3 \<ge> sz' then s3\<lparr>sch_totalBytes := sch_totalBytes s3 - sz'\<rparr>
         else s3\<lparr>sch_totalBytes := 0\<rparr>)"

definition releaseChunkLocked :: "scheduler \<Rightarrow> nat \<Rightarrow> scheduler option" where
  "releaseChunkLocked s p =
     (let c = chunk_at s p in
      if cReservation c = 0 then Some s
      else case Release (sch_memory s) (cReservation c) of
             None \<Rightarrow> None
           | Some mem \<Rightarrow> Some ((set_chunk s p (c\<lparr>cReservation := 0\<rparr>))\<lparr>sch_memory := mem\<rparr>))"

text \<open>The position of the first ready chunk whose offset is not smaller.\<close>

fun requeue_index :: "scheduler \<Rightarrow> nat \<Rightarrow> nat list \<Rightarrow> nat" where
  "requeue_index s off [] = 0"
| "requeue_index s off (p # ps) = (if cOffset (chunk_at s p) < off then Suc (requeue_index s off ps) else 0)"

definition requeueLocked :: "scheduler \<Rightarrow> nat \<Rightarrow> scheduler" where
  "requeueLocked s p =
     (if pendingHas s (cOffset (chunk_at s p)) then s
      else let s1 = set_chunk s p ((chunk_at s p)\<lparr>cUrgent := True\<rparr>) in
        s1\<lparr>sch_pending := insert_at (requeue_index s1 (cOffset (chunk_at s1 p)) (sch_pending s1)) p (sch_pending s1)\<rparr>)"

text \<open>\<open>removePendingLocked\<close>: the address it dropped and the rest of the list.\<close>

fun remove_pending :: "scheduler \<Rightarrow> nat \<Rightarrow> nat list \<Rightarrow> nat option \<times> nat list" where
  "remove_pending s off [] = (None, [])"
| "remove_pending s off (p # ps) =
     (if cOffset (chunk_at s p) \<noteq> off then (let (r, qs) = remove_pending s off ps in (r, p # qs))
      else (Some p, ps))"

text \<open>The loops over the attempts of one chunk, each releasing what it drops.\<close>

fun drop_attempt :: "scheduler \<Rightarrow> nat \<Rightarrow> nat \<Rightarrow> nat \<Rightarrow> attempt list \<Rightarrow> (attempt list \<times> scheduler) option" where
  "drop_attempt s sz lane aid [] = None"
| "drop_attempt s sz lane aid (a # as) =
     (if aId a \<noteq> aid \<or> aLane a \<noteq> lane
      then map_option (\<lambda>(kept, s'). (a # kept, s')) (drop_attempt s sz lane aid as)
      else Some (as, releaseLaneLocked s (aLane a) sz (\<not> aWritten a)))"

fun drop_lane_attempts :: "scheduler \<Rightarrow> nat \<Rightarrow> nat \<Rightarrow> attempt list \<Rightarrow> attempt list \<times> scheduler" where
  "drop_lane_attempts s sz lane [] = ([], s)"
| "drop_lane_attempts s sz lane (a # as) =
     (if aLane a \<noteq> lane
      then (let (kept, s') = drop_lane_attempts s sz lane as in (a # kept, s'))
      else drop_lane_attempts (releaseLaneLocked s (aLane a) sz (\<not> aWritten a)) sz lane as)"

definition retires :: "int option \<Rightarrow> attempt \<Rightarrow> bool" where
  "retires deadline a \<longleftrightarrow> \<not> aReliable a \<and> aWritten a \<and>
     (case deadline of None \<Rightarrow> True
      | Some now \<Rightarrow> (case aDeadline a of None \<Rightarrow> False | Some d \<Rightarrow> \<not> now < d))"

fun retire_attempts :: "scheduler \<Rightarrow> nat \<Rightarrow> int option \<Rightarrow> attempt list \<Rightarrow> attempt list \<times> bool \<times> scheduler" where
  "retire_attempts s sz deadline [] = ([], False, s)"
| "retire_attempts s sz deadline (a # as) =
     (if \<not> retires deadline a
      then (let (kept, retired, s') = retire_attempts s sz deadline as in (a # kept, retired, s'))
      else (let (kept, _, s') = retire_attempts (releaseLaneLocked s (aLane a) sz False) sz deadline as in (kept, True, s')))"

definition put_attempts :: "scheduler \<Rightarrow> nat \<Rightarrow> outstanding \<Rightarrow> attempt list \<Rightarrow> scheduler" where
  "put_attempts s off out as = s\<lparr>sch_live := AList.update off (out\<lparr>oAttempts := as\<rparr>) (sch_live s)\<rparr>"

definition dropAttemptLocked :: "scheduler \<Rightarrow> nat \<Rightarrow> outstanding \<Rightarrow> nat \<Rightarrow> nat \<Rightarrow> scheduler option" where
  "dropAttemptLocked s off out lane aid =
     map_option (\<lambda>(kept, s'). put_attempts s' off out kept)
       (drop_attempt s (chunk_size s (oChunk out)) lane aid (oAttempts out))"

definition dropLaneAttemptsLocked :: "scheduler \<Rightarrow> nat \<Rightarrow> outstanding \<Rightarrow> nat \<Rightarrow> scheduler" where
  "dropLaneAttemptsLocked s off out lane =
     (let (kept, s') = drop_lane_attempts s (chunk_size s (oChunk out)) lane (oAttempts out)
      in put_attempts s' off out kept)"

definition retireUnreliableAttemptsLocked :: "scheduler \<Rightarrow> nat \<Rightarrow> outstanding \<Rightarrow> int option \<Rightarrow> bool \<times> scheduler" where
  "retireUnreliableAttemptsLocked s off out deadline =
     (let (kept, retired, s') = retire_attempts s (chunk_size s (oChunk out)) deadline (oAttempts out)
      in (retired, put_attempts s' off out kept))"

section \<open>Completion, failure and reissue\<close>

fun release_attempts :: "scheduler \<Rightarrow> nat \<Rightarrow> attempt list \<Rightarrow> scheduler" where
  "release_attempts s sz [] = s"
| "release_attempts s sz (a # as) = release_attempts (releaseLaneLocked s (aLane a) sz (\<not> aWritten a)) sz as"

definition bump_completed :: "sch_stats \<Rightarrow> nat \<Rightarrow> sch_stats" where
  "bump_completed st lane = st\<lparr>ChunksCompleted := ChunksCompleted st + 1,
     CompletedByLaneID := (CompletedByLaneID st)(lane := CompletedByLaneID st lane + 1)\<rparr>"

text \<open>The first half of \<open>Complete\<close>: release every attempt and take the chunk out of the table.\<close>

definition complete_live :: "scheduler \<Rightarrow> nat \<Rightarrow> nat \<Rightarrow> scheduler" where
  "complete_live s off lane =
     (case map_of (sch_live s) off of
        None \<Rightarrow> s
      | Some out \<Rightarrow>
          let s' = release_attempts s (chunk_size s (oChunk out)) (oAttempts out) in
          s'\<lparr>sch_live := AList.delete off (sch_live s'), sch_stats := bump_completed (sch_stats s') lane\<rparr>)"

definition Complete :: "scheduler \<Rightarrow> nat \<Rightarrow> chunk option \<Rightarrow> scheduler option" where
  "Complete s lane mc =
     (case mc of
        None \<Rightarrow> Some s
      | Some c \<Rightarrow>
          let s1 = complete_live s (cOffset c) lane;
              (dropped, rest) = remove_pending s1 (cOffset c) (sch_pending s1);
              s2 = s1\<lparr>sch_pending := rest\<rparr>
          in (case map_of (sch_live s) (cOffset c) of
                Some out \<Rightarrow> map_option signalIfDoneLocked (releaseChunkLocked s2 (oChunk out))
              | None \<Rightarrow>
                  (case dropped of
                     None \<Rightarrow> Some s2
                   | Some p \<Rightarrow> map_option signalIfDoneLocked (releaseChunkLocked s2 p))))"

definition bump_failures :: "scheduler \<Rightarrow> scheduler" where
  "bump_failures s = s\<lparr>sch_stats := (sch_stats s)\<lparr>LaneFailures := LaneFailures (sch_stats s) + 1\<rparr>\<rparr>"

text \<open>Return a chunk whose last attempt ended to the ready set.\<close>

definition requeue_if_idle :: "scheduler \<Rightarrow> nat \<Rightarrow> scheduler" where
  "requeue_if_idle s off =
     (case map_of (sch_live s) off of
        None \<Rightarrow> s
      | Some out \<Rightarrow> if oAttempts out = [] then requeueLocked s (oChunk out) else s)"

definition Fail :: "scheduler \<Rightarrow> nat \<Rightarrow> chunk option \<Rightarrow> scheduler" where
  "Fail s lane mc =
     (case mc of
        None \<Rightarrow> s
      | Some c \<Rightarrow>
          (case map_of (sch_live s) (cOffset c) of
             None \<Rightarrow> s
           | Some out \<Rightarrow>
               (case dropAttemptLocked s (cOffset c) out lane (cAttempt c) of
                  None \<Rightarrow> s
                | Some s1 \<Rightarrow> requeue_if_idle (bump_failures s1) (cOffset c))))"

fun retire_lane_loop :: "nat \<Rightarrow> nat list \<Rightarrow> scheduler \<Rightarrow> scheduler" where
  "retire_lane_loop lane [] s = s"
| "retire_lane_loop lane (off # offs) s =
     (case map_of (sch_live s) off of
        None \<Rightarrow> retire_lane_loop lane offs s
      | Some out \<Rightarrow>
          if \<not> laneHasAttempt out lane then retire_lane_loop lane offs s
          else retire_lane_loop lane offs
                 (requeue_if_idle (dropLaneAttemptsLocked (bump_failures s) off out lane) off))"

definition RetireLane :: "scheduler \<Rightarrow> nat \<Rightarrow> scheduler" where
  "RetireLane s lane =
     (let s1 = retire_lane_loop lane (map fst (sch_live s)) s in
      s1\<lparr>sch_laneLoad := (sch_laneLoad s1)(lane := 0), sch_laneBytes := (sch_laneBytes s1)(lane := 0),
         sch_laneQueued := (sch_laneQueued s1)(lane := 0)\<rparr>)"

fun below_loop :: "nat \<Rightarrow> nat list \<Rightarrow> nat \<Rightarrow> scheduler \<Rightarrow> nat \<times> scheduler" where
  "below_loop offset [] reissued s = (reissued, s)"
| "below_loop offset (off # offs) reissued s =
     (case map_of (sch_live s) off of
        None \<Rightarrow> below_loop offset offs reissued s
      | Some out \<Rightarrow>
          if chunk_End (chunk_at s (oChunk out)) > offset \<or> oAttempts out = [] then below_loop offset offs reissued s
          else if pendingHas s (cOffset (chunk_at s (oChunk out))) then below_loop offset offs reissued s
          else
            let s1 = snd (retireUnreliableAttemptsLocked s off out None);
                as = (case map_of (sch_live s1) off of None \<Rightarrow> [] | Some o1 \<Rightarrow> oAttempts o1)
            in if \<exists>a \<in> set as. aReliable a then below_loop offset offs reissued s1
               else if as \<noteq> [] then below_loop offset offs reissued s1
               else below_loop offset offs (reissued + 1) (requeueLocked s1 (oChunk out)))"

definition ReissueUnacknowledgedBelow :: "scheduler \<Rightarrow> nat \<Rightarrow> nat \<times> scheduler" where
  "ReissueUnacknowledgedBelow s offset = below_loop offset (map fst (sch_live s)) 0 s"

text \<open>The two loops of \<open>ReissueExpired\<close>: collect the candidates, then offer them in offset order.\<close>

definition expired :: "int \<Rightarrow> attempt \<Rightarrow> bool" where
  "expired now a \<longleftrightarrow> (case aDeadline a of None \<Rightarrow> False | Some d \<Rightarrow> \<not> now < d)"

fun expired_collect :: "int \<Rightarrow> nat list \<Rightarrow> scheduler \<Rightarrow> nat list \<times> scheduler" where
  "expired_collect now [] s = ([], s)"
| "expired_collect now (off # offs) s =
     (case map_of (sch_live s) off of
        None \<Rightarrow> expired_collect now offs s
      | Some out \<Rightarrow>
          if oAttempts out = [] \<or> pendingHas s (cOffset (chunk_at s (oChunk out))) then expired_collect now offs s
          else
            let (retired, s1) = retireUnreliableAttemptsLocked s off out (Some now);
                as = (case map_of (sch_live s1) off of None \<Rightarrow> [] | Some o1 \<Rightarrow> oAttempts o1);
                (rest, s2) = expired_collect now offs s1
            in if as = [] \<and> retired then (off # rest, s2)
               else if \<not> (\<exists>a \<in> set as. expired now a) then (rest, s2)
               else if \<exists>a \<in> set as. aReliable a
               then (if length as > 1 then (rest, s2) else (off # rest, s2))
               else (if as \<noteq> [] then (rest, s2) else (off # rest, s2)))"

fun expired_offer :: "int \<Rightarrow> int \<Rightarrow> nat list \<Rightarrow> nat \<Rightarrow> nat \<Rightarrow> scheduler \<Rightarrow> nat \<times> scheduler" where
  "expired_offer now after [] reissued reliableReissued s = (reissued, s)"
| "expired_offer now after (off # offs) reissued reliableReissued s =
     (case map_of (sch_live s) off of
        None \<Rightarrow> expired_offer now after offs reissued reliableReissued s
      | Some out \<Rightarrow>
          let reliable = (oAttempts out \<noteq> [] \<and> aReliable (hd (oAttempts out)));
              burst = ReliableReissueBurst (sch_cfg s)
          in if reliable \<and> burst > 0 \<and> int reliableReissued \<ge> burst
             then expired_offer now after offs reissued reliableReissued s
             else
               let s1 = (case oAttempts out of
                           [] \<Rightarrow> s
                         | a # as \<Rightarrow> put_attempts s off out (a\<lparr>aDeadline := Some (now + after)\<rparr> # as))
               in expired_offer now after offs (reissued + 1)
                    (if reliable \<and> burst > 0 then reliableReissued + 1 else reliableReissued)
                    (requeueLocked s1 (oChunk out)))"

definition ReissueExpired :: "sch_env \<Rightarrow> scheduler \<Rightarrow> nat \<times> scheduler" where
  "ReissueExpired e s =
     (let after = retransmitAfter e in
      if after \<le> 0 then (0, s)
      else let (candidates, s1) = expired_collect (e_Now e) (map fst (sch_live s)) s
           in expired_offer (e_Now e) after (sort candidates) 0 0 s1)"

fun wrote_scan :: "nat \<Rightarrow> nat \<Rightarrow> attempt list \<Rightarrow> attempt list option" where
  "wrote_scan lane aid [] = None"
| "wrote_scan lane aid (a # as) =
     (if aId a \<noteq> aid \<or> aLane a \<noteq> lane \<or> aWritten a then map_option ((#) a) (wrote_scan lane aid as)
      else Some (a\<lparr>aWritten := True\<rparr> # as))"

definition Wrote :: "scheduler \<Rightarrow> nat \<Rightarrow> chunk option \<Rightarrow> scheduler" where
  "Wrote s lane mc =
     (case mc of
        None \<Rightarrow> s
      | Some c \<Rightarrow>
          (case map_of (sch_live s) (cOffset c) of
             None \<Rightarrow> s
           | Some out \<Rightarrow>
               (case wrote_scan lane (cAttempt c) (oAttempts out) of
                  None \<Rightarrow> s
                | Some as \<Rightarrow> releaseQueuedLocked (put_attempts s (cOffset c) out as) lane (chunk_size s (oChunk out)))))"

definition LaneOutstanding :: "scheduler \<Rightarrow> nat \<Rightarrow> nat \<times> nat \<times> nat" where
  "LaneOutstanding s lane = (sch_laneLoad s lane, sch_laneBytes s lane, sch_laneQueued s lane)"

definition sch_Pending :: "scheduler \<Rightarrow> nat \<times> nat" where
  "sch_Pending s = (length (sch_pending s), sch_totalBytes s)"

text \<open>\<open>Close\<close> collects the addresses of all retained chunks in a set and releases each once.\<close>

fun release_chunks :: "nat list \<Rightarrow> scheduler \<Rightarrow> scheduler option" where
  "release_chunks [] s = Some s"
| "release_chunks (p # ps) s =
     (case releaseChunkLocked s p of None \<Rightarrow> None | Some s' \<Rightarrow> release_chunks ps s')"

definition sch_Close :: "scheduler \<Rightarrow> scheduler option" where
  "sch_Close s =
     (if sch_closed s then Some s
      else let seen = remdups (sch_pending s @ map (\<lambda>(off, out). oChunk out) (sch_live s)) in
        map_option (\<lambda>s'. s'\<lparr>sch_pending := [], sch_live := []\<rparr>) (release_chunks seen (s\<lparr>sch_closed := True\<rparr>)))"

end
