(* ===== verification/StripeInv.thy ===== *)
theory StripeInv
  imports Stripe "HOL-Library.Multiset"
begin

text \<open>
  The invariant of the chunk scheduler and what it gives: exact accounting per lane, no chunk lost or
  stranded, exact memory reservations. \<open>charges\<close> is the multiset of all attempts in flight with the
  size each is charged; the four counters are its sums (\<open>accounted\<close>). Every loop over attempts only
  moves elements out of that multiset, so the saturating subtractions of the code never saturate.
\<close>

section \<open>The counters\<close>

definition lane_sum :: "(nat \<times> attempt) multiset \<Rightarrow> nat \<Rightarrow> nat" where
  "lane_sum M l = (\<Sum>(z, a) \<in># M. if aLane a = l then z else 0)"

definition lane_queue :: "(nat \<times> attempt) multiset \<Rightarrow> nat \<Rightarrow> nat" where
  "lane_queue M l = (\<Sum>(z, a) \<in># M. if aLane a = l \<and> \<not> aWritten a then z else 0)"

definition lane_count :: "(nat \<times> attempt) multiset \<Rightarrow> nat \<Rightarrow> nat" where
  "lane_count M l = (\<Sum>(z, a) \<in># M. if aLane a = l then 1 else 0)"

definition all_sum :: "(nat \<times> attempt) multiset \<Rightarrow> nat" where
  "all_sum M = (\<Sum>(z, a) \<in># M. z)"

lemmas sum_defs = lane_sum_def lane_queue_def lane_count_def all_sum_def

definition accounted :: "scheduler \<Rightarrow> (nat \<times> attempt) multiset \<Rightarrow> bool" where
  "accounted s M \<longleftrightarrow> sch_laneLoad s = lane_count M \<and> sch_laneBytes s = lane_sum M \<and>
     sch_laneQueued s = lane_queue M \<and> sch_totalBytes s = all_sum M"

definition same_but_counters :: "scheduler \<Rightarrow> scheduler \<Rightarrow> bool" where
  "same_but_counters s s' \<longleftrightarrow> sch_cfg s' = sch_cfg s \<and> sch_heap s' = sch_heap s \<and> sch_nextOffset s' = sch_nextOffset s \<and>
     sch_pending s' = sch_pending s \<and> sch_live s' = sch_live s \<and> sch_nextAttempt s' = sch_nextAttempt s \<and>
     sch_eof s' = sch_eof s \<and> sch_srcErr s' = sch_srcErr s \<and> sch_closed s' = sch_closed s \<and>
     sch_finished s' = sch_finished s \<and> sch_stats s' = sch_stats s \<and> sch_memory s' = sch_memory s \<and>
     sch_producer s' = sch_producer s"

lemma same_but_counters_refl [simp]: "same_but_counters s s"
  by (simp add: same_but_counters_def)

lemma same_but_counters_trans: "same_but_counters s t \<Longrightarrow> same_but_counters t u \<Longrightarrow> same_but_counters s u"
  by (simp add: same_but_counters_def)

lemma releaseQueued_counters: "same_but_counters s (releaseQueuedLocked s lane z)"
  by (simp add: releaseQueuedLocked_def same_but_counters_def)

lemma releaseLane_counters: "same_but_counters s (releaseLaneLocked s lane z q)"
proof -
  define s1 where "s1 = (if sch_laneLoad s lane > 0 then s\<lparr>sch_laneLoad := (sch_laneLoad s)(lane := sch_laneLoad s lane - 1)\<rparr> else s)"
  define s2 where "s2 = (if q then releaseQueuedLocked s1 lane z else s1)"
  have 1: "same_but_counters s s1" by (simp add: s1_def same_but_counters_def)
  have 2: "same_but_counters s1 s2" using releaseQueued_counters by (simp add: s2_def)
  have "same_but_counters s2 (releaseLaneLocked s lane z q)"
    unfolding releaseLaneLocked_def Let_def s1_def [symmetric] s2_def [symmetric]
    by (cases "sch_laneBytes s2 lane \<ge> z") (simp_all add: same_but_counters_def)
  then show ?thesis using 1 2 same_but_counters_trans by blast
qed

lemma releaseLane_accounted:
  assumes "accounted s (add_mset (z, a) M)"
  shows "accounted (releaseLaneLocked s (aLane a) z (\<not> aWritten a)) M"
  using assms
  by (auto simp: accounted_def releaseLaneLocked_def releaseQueuedLocked_def sum_defs Let_def fun_eq_iff)

lemma releaseQueued_accounted:
  assumes "accounted s (add_mset (z, a) M)" "\<not> aWritten a"
  shows "accounted (releaseQueuedLocked s (aLane a) z) (add_mset (z, a\<lparr>aWritten := True\<rparr>) M)"
  using assms by (auto simp: accounted_def releaseQueuedLocked_def sum_defs fun_eq_iff)

text \<open>The charges of one chunk's attempts.\<close>

definition charged :: "nat \<Rightarrow> attempt list \<Rightarrow> (nat \<times> attempt) multiset" where
  "charged z as = image_mset (Pair z) (mset as)"

lemma charged_simps [simp]: "charged z [] = {#}" "charged z (a # as) = add_mset (z, a) (charged z as)"
  "charged z (as @ bs) = charged z as + charged z bs"
  by (simp_all add: charged_def)

lemma drop_attempt_accounted:
  assumes "drop_attempt s z lane aid as = Some (kept, s')" "accounted s (charged z as + M)"
  shows "accounted s' (charged z kept + M)" "same_but_counters s s'" "set kept \<subseteq> set as"
proof -
  have "accounted s' (charged z kept + M) \<and> same_but_counters s s' \<and> set kept \<subseteq> set as"
    using assms
  proof (induction as arbitrary: kept M)
    case (Cons a as)
    show ?case
    proof (cases "aId a \<noteq> aid \<or> aLane a \<noteq> lane")
      case True
      then obtain k where k: "drop_attempt s z lane aid as = Some (k, s')" "kept = a # k"
        using Cons.prems(1) by auto
      have "accounted s (charged z as + add_mset (z, a) M)" using Cons.prems(2) by simp
      from Cons.IH [OF k(1) this] show ?thesis using k(2) by auto
    next
      case False
      then have e: "kept = as" "s' = releaseLaneLocked s (aLane a) z (\<not> aWritten a)" using Cons.prems(1) by simp_all
      then show ?thesis using releaseLane_accounted [of s z a "charged z as + M"] Cons.prems(2) releaseLane_counters by auto
    qed
  qed simp
  then show "accounted s' (charged z kept + M)" "same_but_counters s s'" "set kept \<subseteq> set as" by blast+
qed

lemma drop_lane_accounted:
  assumes "drop_lane_attempts s z lane as = (kept, s')" "accounted s (charged z as + M)"
  shows "accounted s' (charged z kept + M) \<and> same_but_counters s s' \<and> kept = filter (\<lambda>a. aLane a \<noteq> lane) as"
  using assms
proof (induction as arbitrary: s kept M)
  case (Cons a as)
  show ?case
  proof (cases "aLane a \<noteq> lane")
    case True
    then obtain k where k: "drop_lane_attempts s z lane as = (k, s')" "kept = a # k"
      using Cons.prems(1) by (auto split: prod.splits)
    have "accounted s (charged z as + add_mset (z, a) M)" using Cons.prems(2) by simp
    from Cons.IH [OF k(1) this] show ?thesis using k(2) True by auto
  next
    case False
    let ?t = "releaseLaneLocked s (aLane a) z (\<not> aWritten a)"
    have k: "drop_lane_attempts ?t z lane as = (kept, s')" using False Cons.prems(1) by simp
    have "accounted ?t (charged z as + M)" using releaseLane_accounted [of s z a] Cons.prems(2) by simp
    from Cons.IH [OF k this] show ?thesis
      using False same_but_counters_trans [OF releaseLane_counters] by auto
  qed
qed simp

lemma retire_accounted:
  assumes "retire_attempts s z deadline as = (kept, retired, s')" "accounted s (charged z as + M)"
  shows "accounted s' (charged z kept + M) \<and> same_but_counters s s' \<and>
     kept = filter (\<lambda>a. \<not> retires deadline a) as \<and> (retired \<longleftrightarrow> (\<exists>a \<in> set as. retires deadline a))"
  using assms
proof (induction as arbitrary: s kept retired M)
  case (Cons a as)
  show ?case
  proof (cases "retires deadline a")
    case False
    then obtain k where k: "retire_attempts s z deadline as = (k, retired, s')" "kept = a # k"
      using Cons.prems(1) by (auto split: prod.splits)
    have "accounted s (charged z as + add_mset (z, a) M)" using Cons.prems(2) by simp
    from Cons.IH [OF k(1) this] show ?thesis using k(2) False by auto
  next
    case True
    let ?t = "releaseLaneLocked s (aLane a) z False"
    have w: "aWritten a" using True by (simp add: retires_def)
    obtain r where k: "retire_attempts ?t z deadline as = (kept, r, s')" "retired"
      using True Cons.prems(1) by (auto split: prod.splits)
    have "accounted ?t (charged z as + M)" using releaseLane_accounted [of s z a] w Cons.prems(2) by simp
    from Cons.IH [OF k(1) this] show ?thesis
      using True k(2) same_but_counters_trans [OF releaseLane_counters] by auto
  qed
qed simp

lemma release_attempts_accounted:
  "accounted s (charged z as + M) \<Longrightarrow> accounted (release_attempts s z as) M \<and> same_but_counters s (release_attempts s z as)"
proof (induction as arbitrary: s)
  case (Cons a as)
  let ?t = "releaseLaneLocked s (aLane a) z (\<not> aWritten a)"
  have "accounted ?t (charged z as + M)" using releaseLane_accounted [of s z a] Cons.prems by simp
  from Cons.IH [OF this] show ?case using same_but_counters_trans [OF releaseLane_counters] by auto
qed simp

lemma wrote_scan_accounted:
  assumes "wrote_scan lane aid as = Some as'" "accounted s (charged z as + M)"
  shows "accounted (releaseQueuedLocked s lane z) (charged z as' + M) \<and> length as' = length as"
  using assms
proof (induction as arbitrary: as' M)
  case (Cons a as)
  show ?case
  proof (cases "aId a \<noteq> aid \<or> aLane a \<noteq> lane \<or> aWritten a")
    case True
    then obtain k where k: "wrote_scan lane aid as = Some k" "as' = a # k" using Cons.prems(1) by auto
    have "accounted s (charged z as + add_mset (z, a) M)" using Cons.prems(2) by simp
    from Cons.IH [OF k(1) this] show ?thesis using k(2) by simp
  next
    case False
    then show ?thesis using releaseQueued_accounted [of s z a "charged z as + M"] Cons.prems by auto
  qed
qed simp

section \<open>The shape of the state\<close>

definition csz :: "chunk list \<Rightarrow> nat \<Rightarrow> nat" where
  "csz h p = length (cData (h ! p))"

fun charges :: "chunk list \<Rightarrow> (nat \<times> outstanding) list \<Rightarrow> (nat \<times> attempt) multiset" where
  "charges h [] = {#}"
| "charges h ((off, out) # L) = charged (csz h (oChunk out)) (oAttempts out) + charges h L"

lemma charges_delete:
  "distinct (map fst L) \<Longrightarrow> map_of L off = Some out \<Longrightarrow>
     charges h L = charged (csz h (oChunk out)) (oAttempts out) + charges h (AList.delete off L)"
proof (induction L)
  case (Cons x L)
  obtain k o' where x: "x = (k, o')" by (cases x)
  show ?case
  proof (cases "k = off")
    case True
    then have "AList.delete off L = L" using Cons.prems x by (auto simp: AList.delete_eq filter_id_conv rev_image_eqI)
    then show ?thesis using True Cons.prems x by (simp add: AList.delete_eq)
  next
    case False
    then show ?thesis using Cons x by (simp add: AList.delete_eq add_ac)
  qed
qed simp

lemma charges_update:
  "distinct (map fst L) \<Longrightarrow>
     charges h (AList.update off out L) = charged (csz h (oChunk out)) (oAttempts out) + charges h (AList.delete off L)"
proof (induction L)
  case (Cons x L)
  obtain k o' where x: "x = (k, o')" by (cases x)
  show ?case
  proof (cases "k = off")
    case True
    then have "AList.delete off L = L" using Cons.prems x by (auto simp: AList.delete_eq filter_id_conv rev_image_eqI)
    then show ?thesis using True Cons.prems x by (simp add: AList.delete_eq)
  next
    case False
    then show ?thesis using Cons x by (simp add: AList.delete_eq add_ac)
  qed
qed (simp add: AList.delete_eq)

definition heap_same :: "chunk list \<Rightarrow> chunk list \<Rightarrow> bool" where
  "heap_same h h' \<longleftrightarrow> map (\<lambda>c. (cOffset c, cData c, cReservation c)) h' = map (\<lambda>c. (cOffset c, cData c, cReservation c)) h"

lemma heap_same_refl [simp]: "heap_same h h"
  by (simp add: heap_same_def)

lemma heap_same_trans: "heap_same h h' \<Longrightarrow> heap_same h' h'' \<Longrightarrow> heap_same h h''"
  by (simp add: heap_same_def)

lemma heap_same_nth:
  assumes "heap_same h h'"
  shows "length h' = length h" "p < length h \<Longrightarrow> cOffset (h' ! p) = cOffset (h ! p)"
    "p < length h \<Longrightarrow> cData (h' ! p) = cData (h ! p)" "p < length h \<Longrightarrow> cReservation (h' ! p) = cReservation (h ! p)"
proof -
  show l: "length h' = length h" using assms unfolding heap_same_def by (rule map_eq_imp_length_eq)
  assume p: "p < length h"
  have "map (\<lambda>c. (cOffset c, cData c, cReservation c)) h' ! p = map (\<lambda>c. (cOffset c, cData c, cReservation c)) h ! p"
    using assms by (simp add: heap_same_def)
  then show "cOffset (h' ! p) = cOffset (h ! p)" "cData (h' ! p) = cData (h ! p)" "cReservation (h' ! p) = cReservation (h ! p)"
    using p l by simp_all
qed

lemma heap_same_update:
  "p < length h \<Longrightarrow> cOffset c = cOffset (h ! p) \<Longrightarrow> cData c = cData (h ! p) \<Longrightarrow> cReservation c = cReservation (h ! p) \<Longrightarrow>
     heap_same h (h[p := c])"
  unfolding heap_same_def by (rule nth_equalityI) (simp_all add: nth_list_update)

text \<open>The part of the heap the queues and counters depend on.\<close>

definition heap_alike :: "chunk list \<Rightarrow> chunk list \<Rightarrow> bool" where
  "heap_alike h h' \<longleftrightarrow> length h' = length h \<and>
     (\<forall>p < length h. cOffset (h' ! p) = cOffset (h ! p) \<and> cData (h' ! p) = cData (h ! p))"

lemma heap_same_alike: "heap_same h h' \<Longrightarrow> heap_alike h h'"
  using heap_same_nth by (simp add: heap_alike_def)

definition shape :: "chunk list \<Rightarrow> nat list \<Rightarrow> (nat \<times> outstanding) list \<Rightarrow> bool" where
  "shape h P L \<longleftrightarrow> sorted_wrt (\<lambda>c d. cOffset c < cOffset d) h \<and> sorted_wrt (<) P \<and> (\<forall>p \<in> set P. p < length h) \<and>
     distinct (map fst L) \<and>
     (\<forall>off out. map_of L off = Some out \<longrightarrow> oChunk out < length h \<and> cOffset (h ! oChunk out) = off)"

definition core :: "scheduler \<Rightarrow> bool" where
  "core s \<longleftrightarrow> shape (sch_heap s) (sch_pending s) (sch_live s) \<and> accounted s (charges (sch_heap s) (sch_live s))"

text \<open>No live chunk is stranded: without an attempt in flight it is in the ready list.\<close>

definition idle_ready :: "nat set \<Rightarrow> (nat \<times> outstanding) list \<Rightarrow> bool" where
  "idle_ready P L \<longleftrightarrow> (\<forall>off out. map_of L off = Some out \<longrightarrow> oAttempts out = [] \<longrightarrow> oChunk out \<in> P)"

definition no_stranded :: "scheduler \<Rightarrow> bool" where
  "no_stranded s \<longleftrightarrow> idle_ready (set (sch_pending s)) (sch_live s)"

definition live_refs :: "(nat \<times> outstanding) list \<Rightarrow> nat set" where
  "live_refs L = {oChunk out |off out. map_of L off = Some out}"

definition retained :: "scheduler \<Rightarrow> nat set" where
  "retained s = set (sch_pending s) \<union> live_refs (sch_live s)"

text \<open>A step that moves no chunk in or out and touches nothing but the queues and the counters.\<close>

definition quiet :: "scheduler \<Rightarrow> scheduler \<Rightarrow> bool" where
  "quiet s s' \<longleftrightarrow> heap_same (sch_heap s) (sch_heap s') \<and> retained s' = retained s \<and> sch_cfg s' = sch_cfg s \<and>
     sch_nextOffset s' = sch_nextOffset s \<and> sch_eof s' = sch_eof s \<and> sch_srcErr s' = sch_srcErr s \<and>
     sch_closed s' = sch_closed s \<and> sch_finished s' = sch_finished s \<and> sch_memory s' = sch_memory s \<and>
     sch_producer s' = sch_producer s"

lemma quiet_refl [simp]: "quiet s s"
  by (simp add: quiet_def)

lemma quiet_trans: "quiet s t \<Longrightarrow> quiet t u \<Longrightarrow> quiet s u"
  unfolding quiet_def by (metis heap_same_trans)

lemma offsets_distinct:
  assumes "sorted_wrt (\<lambda>c d. cOffset c < cOffset d) h" "p < length h" "q < length h"
  shows "cOffset (h ! p) = cOffset (h ! q) \<longleftrightarrow> p = q" "cOffset (h ! p) < cOffset (h ! q) \<longleftrightarrow> p < q"
  using assms unfolding sorted_wrt_iff_nth_less by (metis less_irrefl nat_neq_iff less_asym)+

lemma charges_heap_alike:
  assumes "heap_alike h h'" "\<And>off out. map_of L off = Some out \<Longrightarrow> oChunk out < length h" "distinct (map fst L)"
  shows "charges h' L = charges h L"
  using assms(2,3)
proof (induction L)
  case (Cons x L)
  obtain k out where x: "x = (k, out)" by (cases x)
  have k: "oChunk out < length h" using Cons.prems(1) [of k out] x by simp
  have "charges h' L = charges h L"
  proof (rule Cons.IH)
    show "oChunk o' < length h" if "map_of L off = Some o'" for off o'
      using that Cons.prems x map_of_SomeD [OF that] by (intro Cons.prems(1) [of off]) (auto intro: rev_image_eqI)
  qed (use Cons.prems(2) in simp)
  then show ?case using x assms(1) k by (simp add: csz_def heap_alike_def)
qed simp

lemmas charges_heap_same = charges_heap_alike [OF heap_same_alike]

lemma shape_heap_alike:
  assumes "heap_alike h h'" "shape h P L"
  shows "shape h' P L"
proof -
  have l: "length h' = length h" and o: "\<And>p. p < length h \<Longrightarrow> cOffset (h' ! p) = cOffset (h ! p)"
    using assms(1) by (simp_all add: heap_alike_def)
  have "sorted_wrt (\<lambda>c d. cOffset c < cOffset d) h'"
    using assms(2) l o unfolding shape_def sorted_wrt_iff_nth_less by simp
  then show ?thesis using assms(2) l o by (auto simp: shape_def)
qed

lemmas shape_heap_same = shape_heap_alike [OF heap_same_alike]

lemma insert_at_simps: "insert_at 0 x xs = x # xs" "insert_at (Suc i) x (y # ys) = y # insert_at i x ys"
  by (simp_all add: insert_at_def)

lemma requeue_index_sorted:
  "sorted_wrt (<) P \<Longrightarrow> p \<notin> set P \<Longrightarrow> \<forall>q \<in> set P. cOffset (chunk_at s q) < off \<longleftrightarrow> q < p \<Longrightarrow>
     sorted_wrt (<) (insert_at (requeue_index s off P) p P)"
proof (induction P)
  case (Cons q P)
  show ?case
  proof (cases "q < p")
    case True
    then show ?thesis using Cons by (simp add: insert_at_simps)
  next
    case False
    then have "p < q" using Cons.prems(2) by simp
    moreover have "q < x" if "x \<in> set P" for x using Cons.prems(1) that by simp
    ultimately show ?thesis using False Cons.prems by (auto simp: insert_at_simps intro: less_trans)
  qed
qed (simp add: insert_at_simps)

lemma core_parts:
  assumes "core s"
  shows "shape (sch_heap s) (sch_pending s) (sch_live s)" "accounted s (charges (sch_heap s) (sch_live s))"
    "distinct (map fst (sch_live s))" "sorted_wrt (<) (sch_pending s)" "\<forall>p \<in> set (sch_pending s). p < length (sch_heap s)"
    "sorted_wrt (\<lambda>c d. cOffset c < cOffset d) (sch_heap s)"
    "map_of (sch_live s) off = Some out \<Longrightarrow> oChunk out < length (sch_heap s)"
    "map_of (sch_live s) off = Some out \<Longrightarrow> cOffset (chunk_at s (oChunk out)) = off"
  using assms by (auto simp: core_def shape_def chunk_at_def)

lemma accounted_cong:
  "sch_laneLoad s' = sch_laneLoad s \<Longrightarrow> sch_laneBytes s' = sch_laneBytes s \<Longrightarrow> sch_laneQueued s' = sch_laneQueued s \<Longrightarrow>
     sch_totalBytes s' = sch_totalBytes s \<Longrightarrow> accounted s' M = accounted s M"
  by (simp add: accounted_def)

text \<open>Changing only urgency or the final mark of a chunk keeps the core.\<close>

lemma core_set_chunk:
  assumes "core s" "p < length (sch_heap s)" "cOffset c = cOffset (chunk_at s p)" "cData c = cData (chunk_at s p)"
    "cReservation c = cReservation (chunk_at s p)"
  shows "core (set_chunk s p c)" "quiet s (set_chunk s p c)"
proof -
  have h: "heap_same (sch_heap s) (sch_heap (set_chunk s p c))"
    using assms(2-5) by (auto simp: set_chunk_def chunk_at_def intro: heap_same_update)
  note cp = core_parts [OF assms(1)]
  have ch: "charges (sch_heap (set_chunk s p c)) (sch_live s) = charges (sch_heap s) (sch_live s)"
    by (rule charges_heap_same [OF h cp(7) cp(3)])
  show "core (set_chunk s p c)"
    using shape_heap_same [OF h cp(1)] cp(2) ch unfolding core_def
    by (simp add: set_chunk_def accounted_def)
  show "quiet s (set_chunk s p c)" using h by (simp add: quiet_def set_chunk_def retained_def)
qed

lemma pendingHas_iff:
  assumes "core s" "p < length (sch_heap s)"
  shows "pendingHas s (cOffset (chunk_at s p)) \<longleftrightarrow> p \<in> set (sch_pending s)"
  using core_parts(5,6) [OF assms(1)] offsets_distinct(1) [OF core_parts(6) [OF assms(1)] _ assms(2)]
  by (auto simp: pendingHas_def chunk_at_def)

lemma requeue_spec:
  assumes "core s" "p \<in> retained s"
  shows "core (requeueLocked s p)" "quiet s (requeueLocked s p)"
    "set (sch_pending (requeueLocked s p)) = insert p (set (sch_pending s))" "sch_live (requeueLocked s p) = sch_live s"
proof -
  note cp = core_parts [OF assms(1)]
  have p: "p < length (sch_heap s)" using assms(2) cp(5,7) by (auto simp: retained_def live_refs_def)
  have "core (requeueLocked s p) \<and> quiet s (requeueLocked s p) \<and>
    set (sch_pending (requeueLocked s p)) = insert p (set (sch_pending s)) \<and> sch_live (requeueLocked s p) = sch_live s"
  proof (cases "pendingHas s (cOffset (chunk_at s p))")
    case True
    then have "p \<in> set (sch_pending s)" using pendingHas_iff [OF assms(1) p] by simp
    then show ?thesis using True assms(1) by (auto simp: requeueLocked_def)
  next
    case False
    define s1 where "s1 = set_chunk s p ((chunk_at s p)\<lparr>cUrgent := True\<rparr>)"
    have c1: "core s1" "quiet s s1" using core_set_chunk [OF assms(1) p, of "(chunk_at s p)\<lparr>cUrgent := True\<rparr>"] by (simp_all add: s1_def)
    note cp1 = core_parts [OF c1(1)]
    have p1: "p < length (sch_heap s1)" "sch_pending s1 = sch_pending s" "sch_live s1 = sch_live s"
      using p by (simp_all add: s1_def set_chunk_def)
    have notin: "p \<notin> set (sch_pending s1)" using False pendingHas_iff [OF assms(1) p] p1 by simp
    let ?P = "insert_at (requeue_index s1 (cOffset (chunk_at s1 p)) (sch_pending s1)) p (sch_pending s1)"
    have r: "requeueLocked s p = s1\<lparr>sch_pending := ?P\<rparr>" using False by (simp add: requeueLocked_def s1_def Let_def)
    have so: "sorted_wrt (<) ?P"
    proof (rule requeue_index_sorted [OF cp1(4) notin], rule ballI)
      fix q assume "q \<in> set (sch_pending s1)"
      then have "q < length (sch_heap s1)" using cp1(5) by blast
      then show "cOffset (chunk_at s1 q) < cOffset (chunk_at s1 p) \<longleftrightarrow> q < p"
        using offsets_distinct(2) [OF cp1(6) _ p1(1)] by (simp add: chunk_at_def)
    qed
    have "core (s1\<lparr>sch_pending := ?P\<rparr>)"
      using c1(1) so p1(1) unfolding core_def shape_def by (simp add: accounted_def)
    moreover have "retained (s1\<lparr>sch_pending := ?P\<rparr>) = retained s" using assms(2) p1 by (auto simp: retained_def)
    then have "quiet s (s1\<lparr>sch_pending := ?P\<rparr>)" using c1(2) by (simp add: quiet_def)
    ultimately show ?thesis using r p1 by simp
  qed
  then show "core (requeueLocked s p)" "quiet s (requeueLocked s p)"
    "set (sch_pending (requeueLocked s p)) = insert p (set (sch_pending s))" "sch_live (requeueLocked s p) = sch_live s" by blast+
qed

lemma live_refs_update:
  assumes "map_of L off = Some out" "oChunk out' = oChunk out"
  shows "live_refs (AList.update off out' L) = live_refs L"
proof -
  have "x \<in> live_refs (AList.update off out' L) \<longleftrightarrow> x \<in> live_refs L" for x
    using assms unfolding live_refs_def AList.update_conv by auto (metis fun_upd_apply option.inject)+
  then show ?thesis by blast
qed

text \<open>Replacing the attempts of one live chunk, once the counters follow.\<close>

lemma put_attempts_spec:
  assumes "core s" "map_of (sch_live s) off = Some out" "same_but_counters s s1"
    and "accounted s1 (charged (csz (sch_heap s) (oChunk out)) as + charges (sch_heap s) (AList.delete off (sch_live s)))"
  shows "core (put_attempts s1 off out as)" "quiet s (put_attempts s1 off out as)"
    "sch_pending (put_attempts s1 off out as) = sch_pending s"
    "map_of (sch_live (put_attempts s1 off out as)) = (map_of (sch_live s))(off \<mapsto> out\<lparr>oAttempts := as\<rparr>)"
    "sch_heap (put_attempts s1 off out as) = sch_heap s"
proof -
  let ?s = "put_attempts s1 off out as" and ?out = "out\<lparr>oAttempts := as\<rparr>"
  note cp = core_parts [OF assms(1)]
  have f: "sch_heap ?s = sch_heap s" "sch_pending ?s = sch_pending s" "sch_live ?s = AList.update off ?out (sch_live s)"
    using assms(3) by (simp_all add: put_attempts_def same_but_counters_def)
  show "sch_pending ?s = sch_pending s" "sch_heap ?s = sch_heap s" using f by simp_all
  show m: "map_of (sch_live ?s) = (map_of (sch_live s))(off \<mapsto> ?out)" by (simp add: f AList.update_conv')
  have "accounted ?s (charges (sch_heap s) (AList.update off ?out (sch_live s)))"
    using assms(4) charges_update [OF cp(3), of "sch_heap s" off ?out] by (simp add: put_attempts_def accounted_def)
  moreover have "shape (sch_heap s) (sch_pending s) (AList.update off ?out (sch_live s))"
    using cp(1) assms(2) unfolding shape_def by (auto simp: AList.update_conv AList.distinct_update)
  ultimately show "core ?s" by (simp add: core_def f)
  have "retained ?s = retained s" using live_refs_update [OF assms(2), of ?out] by (simp add: retained_def f)
  then show "quiet s ?s" using assms(3) by (simp add: quiet_def put_attempts_def same_but_counters_def)
qed

section \<open>Operations that keep every chunk\<close>

definition good :: "scheduler \<Rightarrow> bool" where
  "good s \<longleftrightarrow> core s \<and> no_stranded s"

text \<open>What the operations between production and completion have in common.\<close>

definition keeps :: "scheduler \<Rightarrow> scheduler \<Rightarrow> bool" where
  "keeps s s' \<longleftrightarrow> (good s \<longrightarrow> good s' \<and> quiet s s')"

lemma keeps_refl [simp]: "keeps s s"
  by (simp add: keeps_def)

lemma keeps_trans: "keeps s t \<Longrightarrow> keeps t u \<Longrightarrow> keeps s u"
  using quiet_trans by (auto simp: keeps_def)

lemma live_in_retained: "map_of (sch_live s) off = Some out \<Longrightarrow> oChunk out \<in> retained s"
  by (auto simp: retained_def live_refs_def)

lemma bump_failures_fields [simp]:
  "core (bump_failures s) = core s" "quiet s (bump_failures s)" "sch_live (bump_failures s) = sch_live s"
  "sch_pending (bump_failures s) = sch_pending s" "sch_heap (bump_failures s) = sch_heap s"
  "no_stranded (bump_failures s) = no_stranded s"
  by (simp_all add: bump_failures_def core_def accounted_def quiet_def retained_def no_stranded_def)

definition stranded_only :: "nat \<Rightarrow> scheduler \<Rightarrow> bool" where
  "stranded_only off s \<longleftrightarrow> idle_ready (set (sch_pending s)) (AList.delete off (sch_live s))"

lemma requeue_if_idle_spec:
  assumes "core s" "stranded_only off s"
  shows "good (requeue_if_idle s off)" "quiet s (requeue_if_idle s off)" "map_of (sch_live (requeue_if_idle s off)) = map_of (sch_live s)"
proof -
  have "good (requeue_if_idle s off) \<and> quiet s (requeue_if_idle s off) \<and> map_of (sch_live (requeue_if_idle s off)) = map_of (sch_live s)"
  proof (cases "map_of (sch_live s) off")
    case None
    then have "AList.delete off (sch_live s) = sch_live s" by (simp add: AList.delete_idem map_of_eq_None_iff)
    then show ?thesis using assms None by (simp add: requeue_if_idle_def good_def no_stranded_def stranded_only_def)
  next
    case (Some out)
    show ?thesis
    proof (cases "oAttempts out = []")
      case True
      note r = requeue_spec [OF assms(1) live_in_retained [OF Some]]
      have "no_stranded (requeueLocked s (oChunk out))"
        using assms(2) Some unfolding no_stranded_def stranded_only_def idle_ready_def r(3,4)
        by (metis AList.delete_conv fun_upd_other insertCI option.inject)
      then show ?thesis using True Some r by (simp add: requeue_if_idle_def good_def)
    next
      case False
      then have "no_stranded s" using assms(2) Some
        unfolding no_stranded_def stranded_only_def idle_ready_def by (metis AList.delete_conv fun_upd_other option.inject)
      then show ?thesis using False Some assms(1) by (simp add: requeue_if_idle_def good_def)
    qed
  qed
  then show "good (requeue_if_idle s off)" "quiet s (requeue_if_idle s off)"
    "map_of (sch_live (requeue_if_idle s off)) = map_of (sch_live s)" by blast+
qed

lemma stranded_only_put:
  assumes "no_stranded s" "sch_pending s' = sch_pending s" "map_of (sch_live s') = (map_of (sch_live s))(off \<mapsto> out)"
  shows "stranded_only off s'"
  using assms unfolding no_stranded_def stranded_only_def idle_ready_def
  by (metis AList.delete_conv' fun_upd_apply option.distinct(1))

lemma no_stranded_put:
  assumes "no_stranded s" "sch_pending s' = sch_pending s" "map_of (sch_live s') = (map_of (sch_live s))(off \<mapsto> out)" "oAttempts out \<noteq> []"
  shows "no_stranded s'"
  using assms unfolding no_stranded_def idle_ready_def by (metis fun_upd_apply option.inject)

lemma accounted_live:
  assumes "core s" "map_of (sch_live s) off = Some out"
  shows "accounted s (charged (csz (sch_heap s) (oChunk out)) (oAttempts out) + charges (sch_heap s) (AList.delete off (sch_live s)))"
  using core_parts(2) [OF assms(1)] charges_delete [OF core_parts(3) [OF assms(1)] assms(2)] by simp

lemma chunk_size_csz: "chunk_size s p = csz (sch_heap s) p"
  by (simp add: chunk_size_def csz_def chunk_at_def)

lemma Fail_keeps: "keeps s (Fail s lane mc)"
proof (cases mc)
  case (Some c)
  show ?thesis
  proof (cases "map_of (sch_live s) (cOffset c)")
    case None
    then show ?thesis using Some by (simp add: Fail_def)
  next
    case live: (Some out)
    show ?thesis
    proof (cases "drop_attempt s (chunk_size s (oChunk out)) lane (cAttempt c) (oAttempts out)")
      case None
      then show ?thesis using Some live by (simp add: Fail_def dropAttemptLocked_def)
    next
      case (Some res)
      obtain kept s1 where r: "res = (kept, s1)" by (cases res)
      show ?thesis unfolding keeps_def
      proof
        assume g: "good s"
        then have cs: "core s" and ns: "no_stranded s" by (simp_all add: good_def)
        note d = drop_attempt_accounted [OF Some [unfolded r] accounted_live [OF cs live, folded chunk_size_csz]]
        note p = put_attempts_spec [OF cs live d(2) d(1) [unfolded chunk_size_csz]]
        let ?t = "bump_failures (put_attempts s1 (cOffset c) out kept)"
        have "stranded_only (cOffset c) ?t" using stranded_only_put [OF ns, of ?t] p(3,4) by simp
        from requeue_if_idle_spec [OF _ this] p(1,2)
        have "good (requeue_if_idle ?t (cOffset c))" "quiet s (requeue_if_idle ?t (cOffset c))"
          using quiet_trans bump_failures_fields(2) by (simp, meson bump_failures_fields(1,2) quiet_trans)
        then show "good (Fail s lane mc) \<and> quiet s (Fail s lane mc)"
          using \<open>mc = Some c\<close> live Some r by (simp add: Fail_def dropAttemptLocked_def)
      qed
    qed
  qed
qed (simp add: Fail_def)

lemma retire_lane_loop_keeps: "keeps s (retire_lane_loop lane offs s)"
proof (induction offs arbitrary: s)
  case (Cons off offs)
  show ?case
  proof (cases "map_of (sch_live s) off")
    case None
    then show ?thesis using Cons by simp
  next
    case live: (Some out)
    show ?thesis
    proof (cases "laneHasAttempt out lane")
      case False
      then show ?thesis using live Cons by simp
    next
      case True
      let ?b = "bump_failures s"
      let ?t = "dropLaneAttemptsLocked ?b off out lane"
      have "keeps s (requeue_if_idle ?t off)" unfolding keeps_def
      proof
        assume g: "good s"
        then have cs: "core ?b" and ns: "no_stranded ?b" and lv: "map_of (sch_live ?b) off = Some out"
          using live by (simp_all add: good_def)
        obtain kept s1 where d: "drop_lane_attempts ?b (chunk_size ?b (oChunk out)) lane (oAttempts out) = (kept, s1)"
          by (metis surj_pair)
        note a = drop_lane_accounted [OF d accounted_live [OF cs lv, folded chunk_size_csz]]
        have t: "?t = put_attempts s1 off out kept" using d by (simp add: dropLaneAttemptsLocked_def)
        have "accounted s1 (charged (csz (sch_heap ?b) (oChunk out)) kept + charges (sch_heap ?b) (AList.delete off (sch_live ?b)))"
          using conjunct1 [OF a] by (simp add: chunk_size_csz)
        note p = put_attempts_spec [OF cs lv conjunct1 [OF conjunct2 [OF a]] this]
        have so: "stranded_only off ?t" using stranded_only_put [OF ns, of ?t] p(3,4) t by simp
        have "core ?t" "quiet ?b ?t" using p(1,2) t by simp_all
        from requeue_if_idle_spec [OF this(1) so] this(2)
        show "good (requeue_if_idle ?t off) \<and> quiet s (requeue_if_idle ?t off)"
          using quiet_trans bump_failures_fields(2) by blast
      qed
      then show ?thesis using True live Cons keeps_trans by simp
    qed
  qed
qed simp

text \<open>A retired lane has no attempt left, so clearing its counters changes nothing.\<close>

lemma drop_lane_kept: "fst (drop_lane_attempts s z lane as) = filter (\<lambda>a. aLane a \<noteq> lane) as"
  by (induction as arbitrary: s) (simp_all add: case_prod_unfold Let_def)

lemma releaseLane_live [simp]: "sch_live (releaseLaneLocked s lane z q) = sch_live s"
  using releaseLane_counters [of s lane z q] by (simp add: same_but_counters_def)

lemma drop_lane_live: "sch_live (snd (drop_lane_attempts s z lane as)) = sch_live s"
  by (induction as arbitrary: s) (simp_all add: case_prod_unfold Let_def)

lemma requeue_if_idle_live: "sch_live (requeue_if_idle s off) = sch_live s"
  by (simp add: requeue_if_idle_def requeueLocked_def set_chunk_def Let_def split: option.split)

lemma dropLane_live:
  "map_of (sch_live (dropLaneAttemptsLocked s off out lane)) =
     (map_of (sch_live s))(off \<mapsto> out\<lparr>oAttempts := filter (\<lambda>a. aLane a \<noteq> lane) (oAttempts out)\<rparr>)"
  using drop_lane_kept [of s "chunk_size s (oChunk out)" lane "oAttempts out"]
    drop_lane_live [of s "chunk_size s (oChunk out)" lane "oAttempts out"]
  by (auto simp: dropLaneAttemptsLocked_def put_attempts_def AList.update_conv' split: prod.splits)

lemma retire_lane_loop_clears:
  assumes "map_of (sch_live (retire_lane_loop lane offs s)) off = Some out"
    and "off \<in> set offs \<or> (\<forall>o'. map_of (sch_live s) off = Some o' \<longrightarrow> \<not> laneHasAttempt o' lane)"
  shows "\<not> laneHasAttempt out lane"
  using assms
proof (induction offs arbitrary: s)
  case (Cons k offs)
  show ?case
  proof (cases "map_of (sch_live s) k")
    case None
    then show ?thesis using Cons.prems Cons.IH [of s] by auto
  next
    case (Some o1)
    show ?thesis
    proof (cases "laneHasAttempt o1 lane")
      case False
      then show ?thesis using Cons.prems Cons.IH [of s] Some by auto
    next
      case True
      let ?t = "requeue_if_idle (dropLaneAttemptsLocked (bump_failures s) k o1 lane) k"
      have m: "map_of (sch_live ?t) = (map_of (sch_live s))(k \<mapsto> o1\<lparr>oAttempts := filter (\<lambda>a. aLane a \<noteq> lane) (oAttempts o1)\<rparr>)"
        by (simp add: requeue_if_idle_live dropLane_live)
      have "map_of (sch_live (retire_lane_loop lane offs ?t)) off = Some out" using Cons.prems(1) Some True by simp
      then show ?thesis
        by (rule Cons.IH) (use Cons.prems(2) m in \<open>auto simp: laneHasAttempt_def split: if_splits\<close>)
    qed
  qed
qed simp

lemma retire_lane_loop_dom: "fst ` set (sch_live (retire_lane_loop lane offs s)) \<subseteq> fst ` set (sch_live s) \<union> set offs"
proof (induction offs arbitrary: s)
  case (Cons k offs)
  show ?case
  proof (cases "map_of (sch_live s) k")
    case None
    then show ?thesis using Cons [of s] by auto
  next
    case (Some o1)
    let ?t = "requeue_if_idle (dropLaneAttemptsLocked (bump_failures s) k o1 lane) k"
    have "dom (map_of (sch_live ?t)) = insert k (dom (map_of (sch_live s)))"
      by (simp add: requeue_if_idle_live dropLane_live)
    then have "fst ` set (sch_live ?t) = insert k (fst ` set (sch_live s))" by (simp add: dom_map_of_conv_image_fst)
    then show ?thesis using Some Cons [of s] Cons [of ?t] by auto
  qed
qed simp

lemma lane_sums_clear:
  assumes "\<forall>(z, a) \<in># M. aLane a \<noteq> lane"
  shows "lane_count M lane = 0" "lane_sum M lane = 0" "lane_queue M lane = 0"
  using assms by (induction M) (auto simp: sum_defs)

lemma charges_member: "(z, a) \<in># charges h L \<Longrightarrow> \<exists>(off, out) \<in> set L. a \<in> set (oAttempts out)"
  by (induction h L rule: charges.induct) (auto simp: charged_def)

lemma RetireLane_keeps: "keeps s (RetireLane s lane)"
  unfolding keeps_def
proof
  assume g: "good s"
  let ?t = "retire_lane_loop lane (map fst (sch_live s)) s"
  have t: "good ?t" "quiet s ?t" using retire_lane_loop_keeps g by (auto simp: keeps_def)
  then have c: "core ?t" by (simp add: good_def)
  note cp = core_parts [OF c]
  have "aLane a \<noteq> lane" if za: "(z, a) \<in># charges (sch_heap ?t) (sch_live ?t)" for z a
  proof
    assume l: "aLane a = lane"
    obtain off out where o: "(off, out) \<in> set (sch_live ?t)" "a \<in> set (oAttempts out)" using charges_member [OF za] by blast
    have m: "map_of (sch_live ?t) off = Some out" using o(1) cp(3) by simp
    have "off \<in> set (map fst (sch_live s))" using retire_lane_loop_dom [of lane "map fst (sch_live s)" s] o(1) by force
    then have "\<not> laneHasAttempt out lane" using retire_lane_loop_clears [OF m] by simp
    then show False using o(2) l by (auto simp: laneHasAttempt_def)
  qed
  then have "\<forall>(z, a) \<in># charges (sch_heap ?t) (sch_live ?t). aLane a \<noteq> lane" by auto
  note z = lane_sums_clear [OF this]
  have e: "(sch_laneLoad ?t)(lane := 0) = sch_laneLoad ?t" "(sch_laneBytes ?t)(lane := 0) = sch_laneBytes ?t"
    "(sch_laneQueued ?t)(lane := 0) = sch_laneQueued ?t"
    using cp(2) z by (simp_all add: accounted_def fun_upd_idem)
  have r: "RetireLane s lane = ?t" unfolding RetireLane_def Let_def e by simp
  show "good (RetireLane s lane) \<and> quiet s (RetireLane s lane)" using t by (simp add: r)
qed

text \<open>Reissue: between the two loops of \<open>ReissueExpired\<close> the candidates may be idle outside the ready list.\<close>

definition stranded_in :: "nat set \<Rightarrow> scheduler \<Rightarrow> bool" where
  "stranded_in C s \<longleftrightarrow> (\<forall>off out. off \<notin> C \<longrightarrow> map_of (sch_live s) off = Some out \<longrightarrow> oAttempts out = [] \<longrightarrow>
     oChunk out \<in> set (sch_pending s))"

lemma stranded_in_empty: "stranded_in {} s = no_stranded s"
  by (simp add: stranded_in_def no_stranded_def idle_ready_def)

lemma stranded_in_put:
  assumes "stranded_in C s" "sch_pending s' = sch_pending s" "map_of (sch_live s') = (map_of (sch_live s))(off \<mapsto> out)"
    and "off \<in> C \<or> oAttempts out \<noteq> []"
  shows "stranded_in C s'"
  using assms unfolding stranded_in_def by (metis fun_upd_apply option.inject)

lemma requeue_stranded:
  assumes "core s" "stranded_in C s" "map_of (sch_live s) off = Some out"
  shows "core (requeueLocked s (oChunk out))" "quiet s (requeueLocked s (oChunk out))"
    "stranded_in (C - {off}) (requeueLocked s (oChunk out))" "sch_live (requeueLocked s (oChunk out)) = sch_live s"
proof -
  note r = requeue_spec [OF assms(1) live_in_retained [OF assms(3)]]
  show "core (requeueLocked s (oChunk out))" "quiet s (requeueLocked s (oChunk out))"
    "sch_live (requeueLocked s (oChunk out)) = sch_live s" using r by simp_all
  show "stranded_in (C - {off}) (requeueLocked s (oChunk out))"
    using assms(2,3) r(3,4) unfolding stranded_in_def by (metis DiffI insertCI option.inject singletonD)
qed

lemma retire_spec:
  assumes "core s" "map_of (sch_live s) off = Some out" "retireUnreliableAttemptsLocked s off out d = (retired, s1)"
  defines "as \<equiv> filter (\<lambda>a. \<not> retires d a) (oAttempts out)"
  shows "core s1" "quiet s s1" "sch_pending s1 = sch_pending s" "sch_heap s1 = sch_heap s"
    "map_of (sch_live s1) = (map_of (sch_live s))(off \<mapsto> out\<lparr>oAttempts := as\<rparr>)"
    "retired \<longleftrightarrow> (\<exists>a \<in> set (oAttempts out). retires d a)"
proof -
  obtain kept r t where e: "retire_attempts s (chunk_size s (oChunk out)) d (oAttempts out) = (kept, r, t)" by (metis prod_cases3)
  note a = retire_accounted [OF e accounted_live [OF assms(1,2), folded chunk_size_csz]]
  have s1: "s1 = put_attempts t off out kept" "retired = r" using e assms(3) by (simp_all add: retireUnreliableAttemptsLocked_def)
  have k: "kept = as" using a by (simp add: as_def)
  have "accounted t (charged (csz (sch_heap s) (oChunk out)) kept + charges (sch_heap s) (AList.delete off (sch_live s)))"
    using conjunct1 [OF a] by (simp add: chunk_size_csz)
  note p = put_attempts_spec [OF assms(1,2) conjunct1 [OF conjunct2 [OF a]] this]
  show "core s1" "quiet s s1" "sch_pending s1 = sch_pending s" "sch_heap s1 = sch_heap s"
    "map_of (sch_live s1) = (map_of (sch_live s))(off \<mapsto> out\<lparr>oAttempts := as\<rparr>)"
    using p unfolding s1(1) k by auto
  show "retired \<longleftrightarrow> (\<exists>a \<in> set (oAttempts out). retires d a)" using a s1(2) by simp
qed

lemma below_loop_keeps:
  "core s \<Longrightarrow> no_stranded s \<Longrightarrow> below_loop offset offs n s = (m, s') \<Longrightarrow> core s' \<and> no_stranded s' \<and> quiet s s'"
proof (induction offs arbitrary: s n)
  case (Cons off offs)
  show ?case
  proof (cases "map_of (sch_live s) off")
    case None
    then show ?thesis using Cons by simp
  next
    case live: (Some out)
    show ?thesis
    proof (cases "chunk_End (chunk_at s (oChunk out)) > offset \<or> oAttempts out = [] \<or> pendingHas s (cOffset (chunk_at s (oChunk out)))")
      case True
      then show ?thesis using live Cons by (auto split: if_splits)
    next
      case go: False
      obtain r s1 where e: "retireUnreliableAttemptsLocked s off out None = (r, s1)" by (metis surj_pair)
      note t = retire_spec [OF Cons.prems(1) live e]
      let ?as = "filter (\<lambda>a. \<not> retires None a) (oAttempts out)"
      have lv: "map_of (sch_live s1) off = Some (out\<lparr>oAttempts := ?as\<rparr>)" using t(5) by simp
      have ns: "stranded_in {off} s1"
        by (rule stranded_in_put [of _ s]) (use Cons.prems(2) t(3,5) in \<open>auto simp: stranded_in_def no_stranded_def idle_ready_def\<close>)
      show ?thesis
      proof (cases "?as = []")
        case False
        then have "no_stranded s1"
          using ns lv unfolding stranded_in_empty [symmetric] stranded_in_def by (metis emptyE insertE option.inject outstanding.select_convs(2) outstanding.surjective outstanding.update_convs(2))
        from Cons.IH [OF t(1) this] have "core s' \<and> no_stranded s' \<and> quiet s1 s'"
          using Cons.prems(3) live go e lv False by (auto split: if_splits)
        then show ?thesis using quiet_trans [OF t(2)] by blast
      next
        case True
        note q = requeue_stranded [OF t(1) ns lv]
        have "no_stranded (requeueLocked s1 (oChunk out))" using q(3) by (simp add: stranded_in_empty)
        moreover have "below_loop offset offs (n + 1) (requeueLocked s1 (oChunk out)) = (m, s')"
          using Cons.prems(3) live go e lv True by simp
        ultimately have "core s' \<and> no_stranded s' \<and> quiet (requeueLocked s1 (oChunk out)) s'"
          using Cons.IH [of "requeueLocked s1 (oChunk out)" "n + 1"] q(1) by simp
        then show ?thesis using quiet_trans [OF quiet_trans [OF t(2)]] q(2) by simp
      qed
    qed
  qed
qed simp

lemma ReissueBelow_keeps: "keeps s (snd (ReissueUnacknowledgedBelow s offset))"
  using below_loop_keeps [of s offset "map fst (sch_live s)" 0]
  by (cases "ReissueUnacknowledgedBelow s offset") (simp add: keeps_def good_def ReissueUnacknowledgedBelow_def)

lemma expired_collect_spec:
  "core s \<Longrightarrow> stranded_in C s \<Longrightarrow> expired_collect now offs s = (cands, s') \<Longrightarrow>
     core s' \<and> stranded_in (C \<union> set cands) s' \<and> quiet s s'"
proof (induction offs arbitrary: s cands C s')
  case (Cons off offs)
  show ?case
  proof (cases "map_of (sch_live s) off")
    case None
    then show ?thesis using Cons by simp
  next
    case live: (Some out)
    show ?thesis
    proof (cases "oAttempts out = [] \<or> pendingHas s (cOffset (chunk_at s (oChunk out)))")
      case True
      then show ?thesis using live Cons by simp
    next
      case go: False
      obtain r s1 where e: "retireUnreliableAttemptsLocked s off out (Some now) = (r, s1)" by (metis surj_pair)
      obtain rest s2 where e2: "expired_collect now offs s1 = (rest, s2)" by (metis surj_pair)
      note t = retire_spec [OF Cons.prems(1) live e]
      define as where "as = filter (\<lambda>a. \<not> retires (Some now) a) (oAttempts out)"
      have lv: "map_of (sch_live s1) off = Some (out\<lparr>oAttempts := as\<rparr>)" using t(5) by (simp add: as_def)
      have r: "as = [] \<Longrightarrow> r" using go t(6) by (cases "oAttempts out") (auto simp: as_def filter_empty_conv)
      have cs: "(cands = off # rest \<or> as \<noteq> [] \<and> cands = rest) \<and> s' = s2"
        using Cons.prems(3) live go e e2 lv r by (auto split: if_splits)
      have base: "stranded_in (insert off C) s1"
        by (rule stranded_in_put [of _ s]) (use Cons.prems(2) t(3,5) in \<open>auto simp: stranded_in_def\<close>)
      have "as \<noteq> [] \<Longrightarrow> stranded_in C s1"
        by (rule stranded_in_put [of _ s]) (use Cons.prems(2) t(3,5) in \<open>auto simp: as_def\<close>)
      then show ?thesis
        using cs Cons.IH [OF t(1) base e2] Cons.IH [OF t(1) _ e2] quiet_trans [OF t(2)]
        by (elim conjE disjE) simp_all
    qed
  qed
qed simp

lemma accounted_deadline:
  "accounted s (add_mset (z, a\<lparr>aDeadline := d\<rparr>) M) = accounted s (add_mset (z, a) M)"
  by (simp add: accounted_def sum_defs fun_eq_iff)

lemma expired_offer_spec:
  "core s \<Longrightarrow> stranded_in C s \<Longrightarrow> expired_offer now after offs n k s = (m, s') \<Longrightarrow>
     core s' \<and> stranded_in (C - set offs) s' \<and> quiet s s'"
proof (induction offs arbitrary: s n k C)
  case (Cons off offs)
  have D: "C - set (off # offs) = (C - {off}) - set offs" by auto
  show ?case
  proof (cases "map_of (sch_live s) off")
    case None
    then have "stranded_in (C - {off}) s" using Cons.prems(2) unfolding stranded_in_def by auto
    then show ?thesis using None Cons.IH [OF Cons.prems(1), of "C - {off}"] Cons.prems(3) unfolding D by simp
  next
    case live: (Some out)
    let ?rel = "oAttempts out \<noteq> [] \<and> aReliable (hd (oAttempts out))"
    let ?b = "ReliableReissueBurst (sch_cfg s)"
    show ?thesis
    proof (cases "?rel \<and> ?b > 0 \<and> int k \<ge> ?b")
      case True
      then have "stranded_in (C - {off}) s" using Cons.prems(2) live unfolding stranded_in_def by auto
      then show ?thesis using True live Cons.IH [OF Cons.prems(1), of "C - {off}"] Cons.prems(3) unfolding D by simp
    next
      case False
      define s1 where "s1 = (case oAttempts out of [] \<Rightarrow> s
          | a # as \<Rightarrow> put_attempts s off out (a\<lparr>aDeadline := Some (now + after)\<rparr> # as))"
      define out1 where "out1 = (case oAttempts out of [] \<Rightarrow> out
          | a # as \<Rightarrow> out\<lparr>oAttempts := a\<lparr>aDeadline := Some (now + after)\<rparr> # as\<rparr>)"
      have s1: "core s1 \<and> quiet s s1 \<and> stranded_in C s1 \<and> map_of (sch_live s1) off = Some out1"
      proof (cases "oAttempts out")
        case Nil
        then show ?thesis using Cons.prems(1,2) live by (simp add: s1_def out1_def)
      next
        case at: (Cons a as)
        have acc: "accounted s (charged (csz (sch_heap s) (oChunk out)) (a\<lparr>aDeadline := Some (now + after)\<rparr> # as) +
            charges (sch_heap s) (AList.delete off (sch_live s)))"
          using accounted_live [OF Cons.prems(1) live] at by (simp add: accounted_deadline)
        note p = put_attempts_spec [OF Cons.prems(1) live same_but_counters_refl acc]
        have "stranded_in C s1" by (rule stranded_in_put [OF Cons.prems(2)]) (use p(3,4) at in \<open>auto simp: s1_def\<close>)
        then show ?thesis using p at by (simp add: s1_def out1_def)
      qed
      have o1: "oChunk out1 = oChunk out" by (simp add: out1_def split: list.split)
      note q = requeue_stranded [of s1 C off out1, unfolded o1]
      have "expired_offer now after offs (n + 1) (if ?rel \<and> ?b > 0 then k + 1 else k) (requeueLocked s1 (oChunk out)) = (m, s')"
        using Cons.prems(3) unfolding expired_offer.simps live option.case Let_def if_not_P [OF False] s1_def .
      from Cons.IH [OF q(1) q(3) this] s1 q(2) show ?thesis
        unfolding D using quiet_trans by blast
    qed
  qed
qed simp

lemma ReissueExpired_keeps: "keeps s (snd (ReissueExpired e s))"
  unfolding keeps_def
proof
  assume g: "good s"
  show "good (snd (ReissueExpired e s)) \<and> quiet s (snd (ReissueExpired e s))"
  proof (cases "retransmitAfter e \<le> 0")
    case True
    then show ?thesis using g by (simp add: ReissueExpired_def)
  next
    case False
    obtain cands s1 where c: "expired_collect (e_Now e) (map fst (sch_live s)) s = (cands, s1)" by (metis surj_pair)
    obtain m s2 where o: "expired_offer (e_Now e) (retransmitAfter e) (sort cands) 0 0 s1 = (m, s2)" by (metis surj_pair)
    have 1: "core s1 \<and> stranded_in ({} \<union> set cands) s1 \<and> quiet s s1"
      using g by (intro expired_collect_spec [OF _ _ c]) (simp_all add: good_def stranded_in_empty)
    then have 2: "core s2 \<and> stranded_in (set cands - set (sort cands)) s2 \<and> quiet s1 s2"
      using expired_offer_spec [OF _ _ o, of "set cands"] by simp
    have "ReissueExpired e s = (m, s2)" using False c o by (simp add: ReissueExpired_def)
    then show ?thesis using 1 2 quiet_trans by (auto simp: good_def stranded_in_empty)
  qed
qed

lemma Wrote_keeps: "keeps s (Wrote s lane mc)"
proof (cases mc)
  case (Some c)
  show ?thesis
  proof (cases "map_of (sch_live s) (cOffset c)")
    case None
    then show ?thesis using Some by (simp add: Wrote_def)
  next
    case live: (Some out)
    show ?thesis
    proof (cases "wrote_scan lane (cAttempt c) (oAttempts out)")
      case None
      then show ?thesis using Some live by (simp add: Wrote_def)
    next
      case w: (Some as)
      show ?thesis unfolding keeps_def
      proof
        assume g: "good s"
        then have cs: "core s" and ns: "no_stranded s" by (simp_all add: good_def)
        let ?z = "csz (sch_heap s) (oChunk out)"
        have a: "accounted (releaseQueuedLocked s lane ?z) (charged ?z as + charges (sch_heap s) (AList.delete (cOffset c) (sch_live s))) \<and>
            length as = length (oAttempts out)"
          by (rule wrote_scan_accounted [OF w accounted_live [OF cs live]])
        note p = put_attempts_spec [OF cs live releaseQueued_counters conjunct1 [OF a]]
        have eq: "releaseQueuedLocked (put_attempts s (cOffset c) out as) lane ?z = put_attempts (releaseQueuedLocked s lane ?z) (cOffset c) out as"
          by (simp add: releaseQueuedLocked_def put_attempts_def)
        have "oAttempts out \<noteq> []" using w by auto
        then have "as \<noteq> []" using a by auto
        then have "no_stranded (put_attempts (releaseQueuedLocked s lane ?z) (cOffset c) out as)"
          using no_stranded_put [OF ns p(3,4)] by simp
        then show "good (Wrote s lane mc) \<and> quiet s (Wrote s lane mc)"
          using p(1,2) Some live w eq by (simp add: Wrote_def good_def chunk_size_csz)
      qed
    qed
  qed
qed (simp add: Wrote_def)

section \<open>Dispatch\<close>

lemma take_scan_bound: "take_scan e s lane w ps i = Some j \<Longrightarrow> i \<le> j \<and> j < i + length ps"
  by (induction ps arbitrary: i) (fastforce split: if_splits option.splits)+

lemma remove_at_sorted:
  fixes xs :: "nat list"
  assumes "sorted_wrt (<) xs" "i < length xs"
  shows "sorted_wrt (<) (remove_at i xs)" "set (remove_at i xs) = set xs - {xs ! i}"
proof -
  have x: "xs = take i xs @ xs ! i # drop (Suc i) xs" using assms(2) by (simp add: id_take_nth_drop)
  have s: "sorted_wrt (<) (take i xs @ xs ! i # drop (Suc i) xs)" using assms(1) x by simp
  show "sorted_wrt (<) (remove_at i xs)" using s by (auto simp: remove_at_def sorted_wrt_append)
  have "\<forall>x \<in> set (take i xs). x < xs ! i" "\<forall>y \<in> set (drop (Suc i) xs). xs ! i < y"
    using s by (simp_all add: sorted_wrt_append)
  then have "xs ! i \<notin> set (take i xs)" "xs ! i \<notin> set (drop (Suc i) xs)" by auto
  moreover have "set xs = set (take i xs) \<union> {xs ! i} \<union> set (drop (Suc i) xs)"
    by (subst x) auto
  ultimately show "set (remove_at i xs) = set xs - {xs ! i}" by (auto simp: remove_at_def)
qed

lemma accounted_add:
  assumes "accounted s M" "aLane a = lane" "\<not> aWritten a"
    and "sch_laneLoad s' = (sch_laneLoad s)(lane := sch_laneLoad s lane + 1)"
    and "sch_laneBytes s' = (sch_laneBytes s)(lane := sch_laneBytes s lane + z)"
    and "sch_laneQueued s' = (sch_laneQueued s)(lane := sch_laneQueued s lane + z)"
    and "sch_totalBytes s' = sch_totalBytes s + z"
  shows "accounted s' (add_mset (z, a) M)"
  using assms by (auto simp: accounted_def sum_defs fun_eq_iff)

text \<open>The parts of a dispatch: the chunk's address, its entry in the table, the new attempt.\<close>

definition disp_out :: "scheduler \<Rightarrow> nat \<Rightarrow> outstanding" where
  "disp_out s p = (case map_of (sch_live s) (cOffset (chunk_at s p)) of None \<Rightarrow> \<lparr>oChunk = p, oAttempts = []\<rparr> | Some out \<Rightarrow> out)"

definition disp_attempt :: "sch_env \<Rightarrow> scheduler \<Rightarrow> nat \<Rightarrow> attempt" where
  "disp_attempt e s lane = \<lparr>aId = next_attempt_id (sch_nextAttempt s), aLane = lane,
      aDeadline = (if retransmitAfter e > 0 then Some (e_Now e + retransmitAfter e) else None),
      aReliable = laneRetransmits e lane, aWritten = False\<rparr>"

lemma dispatch_fields:
  fixes e s lane i
  defines "p \<equiv> sch_pending s ! i" and "s' \<equiv> snd (dispatch e s lane i)"
  shows "sch_heap s' = (sch_heap s)[p := (chunk_at s p)\<lparr>cUrgent := False\<rparr>]" "sch_pending s' = remove_at i (sch_pending s)"
    "sch_live s' = AList.update (cOffset (chunk_at s p))
       ((disp_out s p)\<lparr>oAttempts := oAttempts (disp_out s p) @ [disp_attempt e s lane]\<rparr>) (sch_live s)"
    "sch_laneLoad s' = (sch_laneLoad s)(lane := sch_laneLoad s lane + 1)"
    "sch_laneBytes s' = (sch_laneBytes s)(lane := sch_laneBytes s lane + length (cData (chunk_at s p)))"
    "sch_laneQueued s' = (sch_laneQueued s)(lane := sch_laneQueued s lane + length (cData (chunk_at s p)))"
    "sch_totalBytes s' = sch_totalBytes s + length (cData (chunk_at s p))"
    "sch_cfg s' = sch_cfg s" "sch_nextOffset s' = sch_nextOffset s" "sch_eof s' = sch_eof s" "sch_srcErr s' = sch_srcErr s"
    "sch_closed s' = sch_closed s" "sch_finished s' = sch_finished s" "sch_memory s' = sch_memory s" "sch_producer s' = sch_producer s"
  unfolding s'_def p_def dispatch_def Let_def disp_out_def disp_attempt_def set_chunk_def by simp_all

lemma dispatch_chunk:
  "fst (dispatch e s lane i) = (chunk_at s (sch_pending s ! i))\<lparr>cUrgent := False, cReservation := 0,
     cAttempt := next_attempt_id (sch_nextAttempt s)\<rparr>"
  unfolding dispatch_def Let_def by simp

lemma dispatch_keeps:
  assumes g: "good s" and i: "i < length (sch_pending s)" and d: "dispatch e s lane i = (c', s')"
  shows "good s' \<and> quiet s s'"
proof -
  have cs: "core s" and ns: "no_stranded s" using g by (simp_all add: good_def)
  note cp = core_parts [OF cs]
  define p where "p = sch_pending s ! i"
  define c where "c = chunk_at s p"
  define out where "out = disp_out s p"
  define a where "a = disp_attempt e s lane"
  have s': "s' = snd (dispatch e s lane i)" using d by simp
  note f = dispatch_fields [of e s lane i, folded s' p_def, folded c_def out_def a_def]
  let ?out = "out\<lparr>oAttempts := oAttempts out @ [a]\<rparr>" and ?L = "sch_live s" and ?h = "sch_heap s"
  have p: "p \<in> set (sch_pending s)" "p < length ?h" using i cp(5) by (auto simp: p_def)
  have oc: "oChunk out = p"
  proof (cases "map_of ?L (cOffset c)")
    case (Some o1)
    then have "cOffset (?h ! oChunk o1) = cOffset (?h ! p)" "oChunk o1 < length ?h"
      using cp(7,8) by (auto simp: c_def chunk_at_def)
    then show ?thesis using offsets_distinct(1) [OF cp(6) _ p(2)] Some by (simp add: out_def disp_out_def c_def)
  qed (simp add: out_def disp_out_def c_def)
  have hs: "heap_same ?h (sch_heap s')" unfolding f(1) using p(2) by (intro heap_same_update) (simp_all add: c_def chunk_at_def)
  have M: "charges ?h ?L = charged (csz ?h p) (oAttempts out) + charges ?h (AList.delete (cOffset c) ?L)"
  proof (cases "map_of ?L (cOffset c)")
    case None
    then have "AList.delete (cOffset c) ?L = ?L" by (simp add: AList.delete_idem map_of_eq_None_iff)
    then show ?thesis using None by (simp add: out_def disp_out_def c_def)
  next
    case (Some o1)
    then show ?thesis using charges_delete [OF cp(3) Some, of ?h] oc by (simp add: out_def disp_out_def c_def)
  qed
  have sh: "shape ?h (sch_pending s') (sch_live s')"
    using cp(1) remove_at_sorted [OF cp(4) i] oc p(2) unfolding shape_def f(2,3)
    by (auto simp: AList.update_conv AList.distinct_update c_def chunk_at_def)
  have dl: "distinct (map fst (sch_live s'))" using sh by (simp add: shape_def)
  have acc: "accounted s' (charges ?h (sch_live s'))"
    using accounted_add [OF cp(2) _ _ f(4-7), of a] M charges_update [OF cp(3), of ?h "cOffset c" ?out] oc
    by (simp add: f(3) a_def disp_attempt_def c_def csz_def chunk_at_def)
  have "charges (sch_heap s') (sch_live s') = charges ?h (sch_live s')"
    by (rule charges_heap_same [OF hs _ dl]) (use sh in \<open>auto simp: shape_def\<close>)
  then have "core s'" using shape_heap_same [OF hs sh] acc by (simp add: core_def)
  moreover have "no_stranded s'" unfolding no_stranded_def idle_ready_def f(2,3)
  proof (intro allI impI)
    fix off o1 assume m: "map_of (AList.update (cOffset c) ?out ?L) off = Some o1" and e: "oAttempts o1 = []"
    have ne: "off \<noteq> cOffset c" using m e by (auto simp: AList.update_conv)
    then have lo: "map_of ?L off = Some o1" using m by (simp add: AList.update_conv)
    then have "oChunk o1 \<noteq> p" using ne cp(8) [OF lo] by (auto simp: c_def)
    then show "oChunk o1 \<in> set (remove_at i (sch_pending s))"
      using ns lo e remove_at_sorted(2) [OF cp(4) i] by (auto simp: no_stranded_def idle_ready_def p_def)
  qed
  moreover have "retained s' = retained s"
  proof -
    have "live_refs (sch_live s') = insert p (live_refs ?L)"
    proof (cases "map_of ?L (cOffset c)")
      case None
      then show ?thesis unfolding live_refs_def f(3) using oc by (auto simp: AList.update_conv) (metis option.distinct(1))
    next
      case (Some o1)
      then have "live_refs (sch_live s') = live_refs ?L" unfolding f(3) by (intro live_refs_update) (auto simp: out_def disp_out_def c_def)
      moreover have "p \<in> live_refs ?L" using Some oc by (auto simp: live_refs_def out_def disp_out_def c_def)
      ultimately show ?thesis by auto
    qed
    then show ?thesis using p(1) remove_at_sorted(2) [OF cp(4) i] by (auto simp: retained_def f(2) p_def)
  qed
  ultimately show ?thesis using hs f by (simp add: good_def quiet_def)
qed

lemma next_turn_keeps: "keeps s (snd (next_turn e s lane w ctx_done))"
proof (cases "take_scan e s lane w (sch_pending s) 0")
  case None
  then show ?thesis by (simp add: next_turn_def takeReadyLocked_def split: option.split)
next
  case (Some i)
  then have i: "i < length (sch_pending s)" using take_scan_bound by fastforce
  obtain c' s' where d: "dispatch e s lane i = (c', s')" by (metis surj_pair)
  show ?thesis using dispatch_keeps [OF _ i d] Some d by (simp add: next_turn_def takeReadyLocked_def keeps_def)
qed

section \<open>Completion and memory\<close>

definition reserved :: "scheduler \<Rightarrow> int" where
  "reserved s = sum_list (map cReservation (sch_heap s))"

definition held_bytes :: "scheduler \<Rightarrow> int" where
  "held_bytes s = reserved s + (if sch_producer s = Holding then ChunkSize (sch_cfg s) else 0)"

definition res_ok :: "scheduler \<Rightarrow> bool" where
  "res_ok s \<longleftrightarrow> (\<forall>c \<in> set (sch_heap s). 0 \<le> cReservation c) \<and> 0 < ChunkSize (sch_cfg s)"

lemma reserved_split:
  "p < length h \<Longrightarrow> sum_list (map cReservation (h[p := c])) = sum_list (map cReservation h) - cReservation (h ! p) + (cReservation c :: int)"
proof (induction h arbitrary: p)
  case (Cons d h)
  then show ?case by (cases p) auto
qed simp

lemma reserved_ge: "res_ok s \<Longrightarrow> p < length (sch_heap s) \<Longrightarrow> cReservation (chunk_at s p) \<le> reserved s \<and> 0 \<le> cReservation (chunk_at s p)"
proof -
  assume r: "res_ok s" and p: "p < length (sch_heap s)"
  have "cReservation (chunk_at s p) \<in> set (map cReservation (sch_heap s))" using p by (simp add: chunk_at_def)
  moreover have "\<forall>x \<in> set (map cReservation (sch_heap s)). 0 \<le> x" using r by (simp add: res_ok_def)
  ultimately show ?thesis
    using member_le_sum_list [of "cReservation (chunk_at s p)" "map cReservation (sch_heap s)"] unfolding reserved_def by blast
qed

lemma releaseChunk_spec:
  assumes "res_ok s" "p < length (sch_heap s)" "mem_holds (sch_memory s) (held_bytes s)"
  obtains mem where "releaseChunkLocked s p = Some ((set_chunk s p ((chunk_at s p)\<lparr>cReservation := 0\<rparr>))\<lparr>sch_memory := mem\<rparr>)"
    "mem_holds mem (held_bytes s - cReservation (chunk_at s p))"
proof (cases "cReservation (chunk_at s p) = 0")
  case True
  then have "(chunk_at s p)\<lparr>cReservation := 0\<rparr> = chunk_at s p" by (cases "chunk_at s p") simp
  then have "set_chunk s p ((chunk_at s p)\<lparr>cReservation := 0\<rparr>) = s" by (simp add: set_chunk_def chunk_at_def)
  then show ?thesis using that [of "sch_memory s"] True assms(3) by (simp add: releaseChunkLocked_def Let_def)
next
  case False
  have "cReservation (chunk_at s p) \<le> held_bytes s" "0 \<le> cReservation (chunk_at s p)"
    using reserved_ge [OF assms(1,2)] assms(1) by (auto simp: held_bytes_def res_ok_def)
  from mem.release_holds [OF assms(3) this(2,1)] show ?thesis using that False by (auto simp: releaseChunkLocked_def Let_def)
qed

lemma release_chunk_state:
  assumes "p < length (sch_heap s)"
  defines "t mem \<equiv> (set_chunk s p ((chunk_at s p)\<lparr>cReservation := 0\<rparr>))\<lparr>sch_memory := mem\<rparr>"
  shows "heap_alike (sch_heap s) (sch_heap (t mem))" "core s \<Longrightarrow> core (t mem)" "retained (t mem) = retained s"
    "res_ok s \<Longrightarrow> res_ok (t mem)" "held_bytes (t mem) = held_bytes s - cReservation (chunk_at s p)"
proof -
  show h: "heap_alike (sch_heap s) (sch_heap (t mem))"
    using assms(1) by (auto simp: heap_alike_def t_def set_chunk_def chunk_at_def nth_list_update)
  show "retained (t mem) = retained s" by (simp add: t_def set_chunk_def retained_def)
  show "res_ok s \<Longrightarrow> res_ok (t mem)" using set_update_subset_insert [of "sch_heap s" p]
    by (fastforce simp: t_def set_chunk_def res_ok_def)
  show "held_bytes (t mem) = held_bytes s - cReservation (chunk_at s p)"
    using reserved_split [OF assms(1)] by (simp add: t_def set_chunk_def held_bytes_def reserved_def chunk_at_def)
  assume c: "core s"
  note cp = core_parts [OF c]
  have "charges (sch_heap (t mem)) (sch_live s) = charges (sch_heap s) (sch_live s)"
    by (rule charges_heap_alike [OF h cp(7) cp(3)])
  then show "core (t mem)"
    using shape_heap_alike [OF h cp(1)] cp(2) by (simp add: core_def t_def set_chunk_def accounted_def)
qed

lemma remove_pending_hit:
  "p \<in> set P \<Longrightarrow> \<forall>q \<in> set P. cOffset (chunk_at s q) = off \<longleftrightarrow> q = p \<Longrightarrow> remove_pending s off P = (Some p, remove1 p P)"
  by (induction P) auto

lemma remove_pending_miss:
  "\<forall>q \<in> set P. cOffset (chunk_at s q) \<noteq> off \<Longrightarrow> remove_pending s off P = (None, P)"
  by (induction P) auto

lemma sorted_remove1: "sorted_wrt (<) (P :: nat list) \<Longrightarrow> sorted_wrt (<) (remove1 p P) \<and> set (remove1 p P) = set P - {p}"
proof (induction P)
  case (Cons q P)
  then show ?case using set_remove1_subset [of p P] by (cases "q = p") auto
qed simp

lemma remove_pending_spec:
  assumes "core s" "p < length (sch_heap s)" "cOffset (chunk_at s p) = off"
  shows "remove_pending s off (sch_pending s) =
      (if p \<in> set (sch_pending s) then Some p else None, remove1 p (sch_pending s))"
proof -
  note cp = core_parts [OF assms(1)]
  have u: "cOffset (chunk_at s q) = off \<longleftrightarrow> q = p" if "q \<in> set (sch_pending s)" for q
    using offsets_distinct(1) [OF cp(6) _ assms(2), of q] cp(5) that assms(3) by (simp add: chunk_at_def)
  show ?thesis
  proof (cases "p \<in> set (sch_pending s)")
    case True
    then show ?thesis using u remove_pending_hit [OF True, of s off] by simp
  next
    case False
    then show ?thesis using u remove_pending_miss [of "sch_pending s" s off] by (auto simp: remove1_idem)
  qed
qed

lemma live_refs_delete:
  assumes "shape h P L" "map_of L off = Some out"
  shows "live_refs (AList.delete off L) = live_refs L - {oChunk out}"
proof -
  have "oChunk o1 = oChunk out \<longleftrightarrow> k = off" if "map_of L k = Some o1" for k o1
    using assms that unfolding shape_def by (metis option.inject)
  then show ?thesis using assms(2) unfolding live_refs_def AList.delete_conv' by auto
qed

text \<open>The state after a chunk left both the table and the ready list.\<close>

lemma unlink_spec:
  fixes lane :: nat
  assumes "good s" "p < length (sch_heap s)" "cOffset (chunk_at s p) = off"
  defines "s1 \<equiv> complete_live s off lane"
  defines "s2 \<equiv> s1\<lparr>sch_pending := remove1 p (sch_pending s)\<rparr>"
  shows "good s2" "retained s2 = retained s - {p}" "sch_heap s2 = sch_heap s" "sch_pending s1 = sch_pending s" "core s1"
    "sch_heap s1 = sch_heap s"
    "sch_cfg s2 = sch_cfg s" "sch_nextOffset s2 = sch_nextOffset s" "sch_eof s2 = sch_eof s" "sch_srcErr s2 = sch_srcErr s"
    "sch_closed s2 = sch_closed s" "sch_finished s2 = sch_finished s" "sch_memory s2 = sch_memory s" "sch_producer s2 = sch_producer s"
proof -
  have cs: "core s" and ns: "no_stranded s" using assms(1) by (simp_all add: good_def)
  note cp = core_parts [OF cs] and rm = sorted_remove1 [OF core_parts(4) [OF cs], of p]
  define M where "M = charges (sch_heap s) (AList.delete off (sch_live s))"
  have live1: "sch_live s1 = AList.delete off (sch_live s) \<and> accounted s1 M \<and> sch_heap s1 = sch_heap s \<and> sch_pending s1 = sch_pending s \<and>
     sch_cfg s1 = sch_cfg s \<and> sch_nextOffset s1 = sch_nextOffset s \<and> sch_eof s1 = sch_eof s \<and> sch_srcErr s1 = sch_srcErr s \<and>
     sch_closed s1 = sch_closed s \<and> sch_finished s1 = sch_finished s \<and> sch_memory s1 = sch_memory s \<and> sch_producer s1 = sch_producer s"
  proof (cases "map_of (sch_live s) off")
    case None
    then have "AList.delete off (sch_live s) = sch_live s" by (simp add: AList.delete_idem map_of_eq_None_iff)
    then show ?thesis using None cp(2) by (simp add: s1_def complete_live_def M_def)
  next
    case (Some out)
    have "accounted s (charged (chunk_size s (oChunk out)) (oAttempts out) + M)"
      using accounted_live [OF cs Some] by (simp add: chunk_size_csz M_def)
    from release_attempts_accounted [OF this] show ?thesis
      using Some by (simp add: s1_def complete_live_def Let_def same_but_counters_def accounted_def)
  qed
  have sh: "shape (sch_heap s) P (AList.delete off (sch_live s))" if "sorted_wrt (<) P" "set P \<subseteq> set (sch_pending s)" for P
    using cp(1) that unfolding shape_def
    by (auto simp: AList.delete_conv AList.distinct_delete split: if_splits)
  have "core s2" using live1 sh [of "remove1 p (sch_pending s)"] rm by (simp add: core_def s2_def M_def accounted_def)
  moreover have "no_stranded s2" unfolding no_stranded_def idle_ready_def
  proof (intro allI impI)
    fix k o1 assume "map_of (sch_live s2) k = Some o1" and e: "oAttempts o1 = []"
    then have k: "k \<noteq> off" "map_of (sch_live s) k = Some o1" using live1 by (auto simp: s2_def AList.delete_conv split: if_splits)
    then have "oChunk o1 \<in> set (sch_pending s)" using ns e by (auto simp: no_stranded_def idle_ready_def)
    moreover have "oChunk o1 \<noteq> p" using cp(8) [OF k(2)] k(1) assms(3) by auto
    ultimately show "oChunk o1 \<in> set (sch_pending s2)" using rm by (simp add: s2_def)
  qed
  ultimately show "good s2" by (simp add: good_def)
  show "core s1" using live1 sh [of "sch_pending s"] cp(4) by (simp add: core_def M_def)
  have "live_refs (AList.delete off (sch_live s)) = live_refs (sch_live s) - {p}"
  proof (cases "map_of (sch_live s) off")
    case None
    then have "p \<notin> live_refs (sch_live s)" using cp(8) assms(3) by (auto simp: live_refs_def)
    then show ?thesis using None by (simp add: AList.delete_idem map_of_eq_None_iff)
  next
    case (Some out)
    then have "oChunk out = p" using offsets_distinct(1) [OF cp(6) cp(7) [OF Some] assms(2)] cp(8) [OF Some] assms(3) by (simp add: chunk_at_def)
    then show ?thesis using live_refs_delete [OF cp(1) Some] by simp
  qed
  then show "retained s2 = retained s - {p}" using live1 rm by (auto simp: retained_def s2_def)
  show "sch_heap s2 = sch_heap s" "sch_pending s1 = sch_pending s" "sch_heap s1 = sch_heap s" "sch_cfg s2 = sch_cfg s"
    "sch_nextOffset s2 = sch_nextOffset s" "sch_eof s2 = sch_eof s" "sch_srcErr s2 = sch_srcErr s"
    "sch_closed s2 = sch_closed s" "sch_finished s2 = sch_finished s" "sch_memory s2 = sch_memory s" "sch_producer s2 = sch_producer s"
    using live1 by (simp_all add: s2_def)
qed

lemma good_signal [simp]: "good (signalIfDoneLocked s) = good s" "retained (signalIfDoneLocked s) = retained s"
  "sch_heap (signalIfDoneLocked s) = sch_heap s" "res_ok (signalIfDoneLocked s) = res_ok s"
  "held_bytes (signalIfDoneLocked s) = held_bytes s" "sch_memory (signalIfDoneLocked s) = sch_memory s"
  "sch_cfg (signalIfDoneLocked s) = sch_cfg s" "sch_nextOffset (signalIfDoneLocked s) = sch_nextOffset s"
  "sch_eof (signalIfDoneLocked s) = sch_eof s" "sch_srcErr (signalIfDoneLocked s) = sch_srcErr s"
  "sch_closed (signalIfDoneLocked s) = sch_closed s" "sch_producer (signalIfDoneLocked s) = sch_producer s"
  "sch_finished (signalIfDoneLocked s) = (sch_finished s \<or> doneLocked s)"
  by (simp_all add: signalIfDoneLocked_def good_def core_def accounted_def no_stranded_def retained_def res_ok_def
      held_bytes_def reserved_def)

lemma retained_empty: "core s \<Longrightarrow> retained s = {} \<longleftrightarrow> sch_pending s = [] \<and> sch_live s = []"
proof -
  assume c: "core s"
  have "live_refs (sch_live s) = {} \<longleftrightarrow> sch_live s = []"
  proof (cases "sch_live s")
    case (Cons x L)
    obtain k o1 where "x = (k, o1)" by (cases x)
    then have "map_of (sch_live s) k = Some o1" using Cons by simp
    then show ?thesis using Cons by (auto simp: live_refs_def)
  qed (simp add: live_refs_def)
  then show ?thesis by (simp add: retained_def)
qed

text \<open>\<open>Complete\<close> on a chunk that was handed out: it leaves the scheduler and its reservation is returned.\<close>

lemma Complete_spec:
  assumes "good s" "res_ok s" "mem_holds (sch_memory s) (held_bytes s)" "p < length (sch_heap s)" "cOffset (chunk_at s p) = cOffset c"
  obtains s' where "Complete s lane (Some c) = Some s'" "good s'" "retained s' = retained s - {p}"
    "heap_alike (sch_heap s) (sch_heap s')" "res_ok s'" "mem_holds (sch_memory s') (held_bytes s')"
    "\<And>q. q < length (sch_heap s) \<Longrightarrow> cReservation (sch_heap s' ! q) = (if q = p \<and> p \<in> retained s then 0 else cReservation (sch_heap s ! q))"
    "sch_cfg s' = sch_cfg s" "sch_nextOffset s' = sch_nextOffset s" "sch_eof s' = sch_eof s" "sch_srcErr s' = sch_srcErr s"
    "sch_closed s' = sch_closed s" "sch_producer s' = sch_producer s"
    "sch_finished s' = (sch_finished s \<or> p \<in> retained s \<and> sch_eof s \<and> retained s' = {})"
proof -
  have cs: "core s" using assms(1) by (simp add: good_def)
  note cp = core_parts [OF cs]
  define s1 where "s1 = complete_live s (cOffset c) lane"
  define s2 where "s2 = s1\<lparr>sch_pending := remove1 p (sch_pending s)\<rparr>"
  note u = unlink_spec [OF assms(1,4,5), where lane = lane, folded s1_def, folded s2_def]
  have p1: "p < length (sch_heap s1)" "cOffset (chunk_at s1 p) = cOffset c"
    using assms(4,5) u(6) by (simp_all add: chunk_at_def)
  have rp: "remove_pending s1 (cOffset c) (sch_pending s1) = (if p \<in> set (sch_pending s) then Some p else None, remove1 p (sch_pending s))"
    using remove_pending_spec [OF u(5) p1] u(4) by simp
  have oc: "oChunk out = p" if "map_of (sch_live s) (cOffset c) = Some out" for out
    using offsets_distinct(1) [OF cp(6) cp(7) [OF that] assms(4)] cp(8) [OF that] assms(5) by (simp add: chunk_at_def)
  show ?thesis
  proof (cases "p \<in> retained s")
    case False
    then have "p \<notin> set (sch_pending s)" by (simp add: retained_def)
    moreover have "map_of (sch_live s) (cOffset c) = None"
      using False oc live_in_retained [of s "cOffset c"] by (cases "map_of (sch_live s) (cOffset c)") auto
    ultimately have "s2 = s" "Complete s lane (Some c) = Some s"
      using rp by (simp_all add: Complete_def s1_def s2_def complete_live_def remove1_idem Let_def)
    then show ?thesis using that [of s] assms False by (simp add: heap_alike_def)
  next
    case True
    have hb: "held_bytes s2 = held_bytes s" using u by (simp add: held_bytes_def reserved_def)
    have r2: "res_ok s2" "held_bytes s2 = held_bytes s" "p < length (sch_heap s2)" "mem_holds (sch_memory s2) (held_bytes s2)"
      using assms(2-4) u hb by (simp_all add: res_ok_def)
    obtain mem where r: "releaseChunkLocked s2 p = Some ((set_chunk s2 p ((chunk_at s2 p)\<lparr>cReservation := 0\<rparr>))\<lparr>sch_memory := mem\<rparr>)"
      "mem_holds mem (held_bytes s2 - cReservation (chunk_at s2 p))"
      by (rule releaseChunk_spec [OF r2(1,3,4)])
    define t where "t = (set_chunk s2 p ((chunk_at s2 p)\<lparr>cReservation := 0\<rparr>))\<lparr>sch_memory := mem\<rparr>"
    note st = release_chunk_state [OF r2(3), of mem, folded t_def]
    have C: "Complete s lane (Some c) = Some (signalIfDoneLocked t)"
    proof (cases "map_of (sch_live s) (cOffset c)")
      case None
      have "p \<notin> live_refs (sch_live s)" using cp(8) assms(5) None by (auto simp: live_refs_def)
      then have "p \<in> set (sch_pending s)" using True by (simp add: retained_def)
      then show ?thesis using None rp r(1) by (simp add: Complete_def s1_def [symmetric] s2_def t_def Let_def)
    next
      case (Some out)
      then show ?thesis using oc [OF Some] rp r(1) by (simp add: Complete_def s1_def [symmetric] s2_def t_def Let_def)
    qed
    have gt: "good t" using u(1) st(2) by (simp add: good_def t_def set_chunk_def no_stranded_def)
    have ret: "retained t = retained s - {p}" using st(3) u(2) by simp
    have dl: "doneLocked t \<longleftrightarrow> sch_eof s \<and> retained t = {}"
      using retained_empty [of t] gt u(9) by (simp add: doneLocked_def good_def t_def set_chunk_def)
    show ?thesis
    proof (rule that [OF C])
      show "heap_alike (sch_heap s) (sch_heap (signalIfDoneLocked t))" using st(1) u(3) by simp
      show "cReservation (sch_heap (signalIfDoneLocked t) ! q) = (if q = p \<and> p \<in> retained s then 0 else cReservation (sch_heap s ! q))"
        if "q < length (sch_heap s)" for q
        using that True u(3) by (simp add: t_def set_chunk_def chunk_at_def nth_list_update)
      show "mem_holds (sch_memory (signalIfDoneLocked t)) (held_bytes (signalIfDoneLocked t))"
        using r(2) st(5) by (simp add: t_def)
    qed (use gt ret st(4) r2(1) u dl True in \<open>simp_all add: t_def set_chunk_def\<close>)
  qed
qed

end
