(* ===== verification/StripeRun.thy ===== *)
theory StripeRun
  imports StripeInv
begin

text \<open>
  Runs of the scheduler: the producer, the lanes and the completion path in any interleaving of their
  critical sections, with the other users of the shared budget in between. The history remembers the
  bytes read from the source and the offsets completed. The properties: nothing read is lost or sent
  again after completion, nothing waits unnoticed, the accounting and the reservations are exact, and
  \<open>Done\<close> means that the whole source was delivered.
\<close>

section \<open>Steps\<close>

record sch_sys =
  y_s :: scheduler
  y_src :: bytes
  y_done :: "nat set"

definition with_s :: "sch_sys \<Rightarrow> scheduler \<Rightarrow> sch_sys" where
  "with_s y s = y\<lparr>y_s := s\<rparr>"

text \<open>
  \<open>others\<close>: the rest of the endpoint may do anything to the budget that leaves held what this scheduler
  holds. \<open>reserve\<close> is taken at any time, not only when \<open>produce_blocked\<close> is false, because the producer
  gives up the mutex before it reserves. \<open>complete\<close> names a chunk that was read; it may come from any lane and any number of times.
\<close>

inductive sch_step :: "sch_sys \<Rightarrow> sch_sys \<Rightarrow> bool" where
  check: "sch_producer (y_s y) = Producing \<Longrightarrow> sch_step y (with_s y (produce_check (y_s y)))"
| reserve: "sch_producer (y_s y) = Producing \<Longrightarrow>
     acquire_begin (sch_memory (y_s y)) (ChunkSize (sch_cfg (y_s y))) d = (res, mem) \<Longrightarrow> \<forall>g. res \<noteq> Waiting g \<Longrightarrow>
     sch_step y (with_s y (produce_reserve (y_s y) (res, mem)))"
| read: "sch_producer (y_s y) = Holding \<Longrightarrow> int (length data) \<le> ChunkSize (sch_cfg (y_s y)) \<Longrightarrow> err \<noteq> Some SrcErrMemory \<Longrightarrow>
     produce_read (y_s y) data err = Some s' \<Longrightarrow>
     sch_step y (y\<lparr>y_s := s', y_src := (if sch_closed (y_s y) then y_src y else y_src y @ data)\<rparr>)"
| lane_next: "sch_step y (with_s y (snd (next_turn e (y_s y) lane w d)))"
| lane_wrote: "sch_step y (with_s y (Wrote (y_s y) lane mc))"
| lane_fail: "sch_step y (with_s y (Fail (y_s y) lane mc))"
| lane_retire: "sch_step y (with_s y (RetireLane (y_s y) lane))"
| below: "sch_step y (with_s y (snd (ReissueUnacknowledgedBelow (y_s y) offset)))"
| expire: "sch_step y (with_s y (snd (ReissueExpired e (y_s y))))"
| complete: "cOffset c \<in> cOffset ` set (sch_heap (y_s y)) \<Longrightarrow> Complete (y_s y) lane (Some c) = Some s' \<Longrightarrow>
     sch_step y (y\<lparr>y_s := s', y_done := insert (cOffset c) (y_done y)\<rparr>)"
| close: "sch_Close (y_s y) = Some s' \<Longrightarrow> sch_step y (with_s y s')"
| others: "mem_holds mem (held_bytes (y_s y)) \<Longrightarrow> sch_step y (with_s y ((y_s y)\<lparr>sch_memory := mem\<rparr>))"

inductive sch_reachable :: "sch_config \<Rightarrow> budget option \<Rightarrow> sch_sys \<Rightarrow> bool" for cfg mem where
  start: "sch_reachable cfg mem \<lparr>y_s = sch_New cfg mem, y_src = [], y_done = {}\<rparr>"
| step: "sch_reachable cfg mem y \<Longrightarrow> sch_step y z \<Longrightarrow> sch_reachable cfg mem z"

section \<open>The invariant\<close>

text \<open>The chunks tile the source: each starts where the bytes before it end.\<close>

definition tiled :: "chunk list \<Rightarrow> bytes \<Rightarrow> bool" where
  "tiled h src \<longleftrightarrow> concat (map cData h) = src \<and>
     (\<forall>i < length h. cOffset (h ! i) = length (concat (map cData (take i h))))"

definition open_inv :: "sch_sys \<Rightarrow> bool" where
  "open_inv y \<longleftrightarrow> good (y_s y) \<and>
     retained (y_s y) = {p. p < length (sch_heap (y_s y)) \<and> cOffset (sch_heap (y_s y) ! p) \<notin> y_done y} \<and>
     (\<forall>p < length (sch_heap (y_s y)). p \<notin> retained (y_s y) \<longrightarrow> cReservation (sch_heap (y_s y) ! p) = 0) \<and>
     (sch_producer (y_s y) = Returned \<longrightarrow> sch_eof (y_s y) \<and>
        (sch_srcErr (y_s y) \<noteq> Some SrcErrMemory \<and> retained (y_s y) = {} \<longrightarrow> sch_finished (y_s y)))"

definition shut :: "scheduler \<Rightarrow> bool" where
  "shut s \<longleftrightarrow> sch_pending s = [] \<and> sch_live s = [] \<and> (\<forall>n \<in> set (map cReservation (sch_heap s)). n = 0)"

definition owed :: "scheduler \<Rightarrow> bool" where
  "owed s \<longleftrightarrow> res_ok s \<and> mem_holds (sch_memory s) (held_bytes s)"

definition src_inv :: "chunk list \<Rightarrow> nat \<Rightarrow> producer \<Rightarrow> bool \<Rightarrow> bool \<Rightarrow> bytes \<Rightarrow> nat set \<Rightarrow> bool" where
  "src_inv h off pr eof fin src dn \<longleftrightarrow> tiled h src \<and> off = length src \<and> dn \<subseteq> set (map cOffset h) \<and>
     (pr \<noteq> Returned \<longrightarrow> [] \<notin> set (map cData h)) \<and> (eof \<longrightarrow> pr = Returned) \<and>
     (fin \<longrightarrow> pr = Returned \<and> set (map cOffset h) \<subseteq> dn)"

abbreviation sch_src_inv :: "scheduler \<Rightarrow> bytes \<Rightarrow> nat set \<Rightarrow> bool" where
  "sch_src_inv s \<equiv> src_inv (sch_heap s) (sch_nextOffset s) (sch_producer s) (sch_eof s) (sch_finished s)"

definition sys_inv :: "sch_sys \<Rightarrow> bool" where
  "sys_inv y \<longleftrightarrow> (if sch_closed (y_s y) then shut (y_s y) else open_inv y) \<and> owed (y_s y) \<and>
     sch_src_inv (y_s y) (y_src y) (y_done y)"

lemma heap_alike_maps:
  assumes "heap_alike h h'"
  shows "map cOffset h' = map cOffset h" "map cData h' = map cData h"
  by (rule nth_equalityI, use assms in \<open>auto simp: heap_alike_def\<close>)+

lemma tiled_alike:
  assumes "tiled h src" "heap_alike h h'"
  shows "tiled h' src"
proof -
  note m = heap_alike_maps(2) [OF assms(2)]
  have "map cData (take i h') = map cData (take i h)" for i using m by (metis take_map)
  then show ?thesis using assms m by (simp add: tiled_def heap_alike_def)
qed

lemma src_inv_alike: "heap_alike h h' \<Longrightarrow> src_inv h off pr e f src dn \<Longrightarrow> src_inv h' off pr e f src dn"
  using tiled_alike heap_alike_maps unfolding src_inv_def by metis

lemma heap_same_res: "heap_same h h' \<Longrightarrow> map cReservation h' = map cReservation h"
  by (rule nth_equalityI) (simp_all add: heap_same_nth)

lemma res_ok_alt: "res_ok s \<longleftrightarrow> (\<forall>n \<in> set (map cReservation (sch_heap s)). 0 \<le> n) \<and> 0 < ChunkSize (sch_cfg s)"
  by (simp add: res_ok_def)

lemma owed_cong:
  assumes "map cReservation (sch_heap s') = map cReservation (sch_heap s)" "sch_cfg s' = sch_cfg s"
    "sch_memory s' = sch_memory s" "sch_producer s' = Holding \<longleftrightarrow> sch_producer s = Holding"
  shows "owed s' = owed s"
proof -
  have "held_bytes s' = held_bytes s" using assms by (simp add: held_bytes_def reserved_def)
  then show ?thesis unfolding owed_def res_ok_alt assms(1,2,3) by simp
qed

text \<open>The operations that move no chunk in or out.\<close>

lemma quiet_sys:
  assumes inv: "sys_inv y" and q: "quiet (y_s y) s'" and g: "good s'" and o: "\<not> sch_closed (y_s y)"
  shows "sys_inv (with_s y s')"
proof -
  let ?s = "y_s y"
  have hs: "heap_same (sch_heap ?s) (sch_heap s')" and f: "retained s' = retained ?s" "sch_cfg s' = sch_cfg ?s" "sch_nextOffset s' = sch_nextOffset ?s"
    "sch_eof s' = sch_eof ?s" "sch_srcErr s' = sch_srcErr ?s" "sch_closed s' = sch_closed ?s" "sch_finished s' = sch_finished ?s"
    "sch_memory s' = sch_memory ?s" "sch_producer s' = sch_producer ?s"
    using q by (simp_all add: quiet_def)
  note nth = heap_same_nth [OF hs]
  have op: "open_inv y" and rest: "owed ?s" "sch_src_inv ?s (y_src y) (y_done y)" using inv o by (simp_all add: sys_inv_def)
  have "retained s' = {p. p < length (sch_heap s') \<and> cOffset (sch_heap s' ! p) \<notin> y_done y}"
    using op f(1) nth unfolding open_inv_def by auto
  then have "open_inv (with_s y s')" using op g f nth by (simp add: open_inv_def with_s_def)
  moreover have "owed s'" using owed_cong [OF heap_same_res [OF hs] f(2) f(8)] f(9) rest(1) by simp
  moreover have "sch_src_inv s' (y_src y) (y_done y)" using src_inv_alike [OF heap_same_alike [OF hs] rest(2)] f by simp
  ultimately show ?thesis using o f by (simp add: sys_inv_def with_s_def)
qed

text \<open>After \<open>Close\<close> the tables are empty, and the lanes' operations change at most the counters.\<close>

lemma closed_sys:
  assumes "sys_inv y" "sch_closed (y_s y)" "same_but_counters (y_s y) s'"
  shows "sys_inv (with_s y s')"
proof -
  have f: "sch_heap s' = sch_heap (y_s y)" "sch_cfg s' = sch_cfg (y_s y)" "sch_memory s' = sch_memory (y_s y)" "sch_producer s' = sch_producer (y_s y)"
    "sch_pending s' = sch_pending (y_s y)" "sch_live s' = sch_live (y_s y)" "sch_nextOffset s' = sch_nextOffset (y_s y)"
    "sch_eof s' = sch_eof (y_s y)" "sch_finished s' = sch_finished (y_s y)" "sch_closed s' = sch_closed (y_s y)"
    using assms(3) by (simp_all add: same_but_counters_def)
  have "owed s' = owed (y_s y)" by (rule owed_cong) (simp_all add: f)
  then show ?thesis using assms(1,2) by (simp add: sys_inv_def with_s_def f shut_def)
qed

lemma closed_ops:
  assumes "sch_closed s" "sch_pending s = []" "sch_live s = []"
  shows "same_but_counters s (snd (next_turn e s lane w d))" "same_but_counters s (Wrote s lane mc)" "same_but_counters s (Fail s lane mc)"
    "same_but_counters s (RetireLane s lane)" "same_but_counters s (snd (ReissueUnacknowledgedBelow s offset))"
    "same_but_counters s (snd (ReissueExpired e s))" "Complete s lane mc = Some s" "sch_Close s = Some s"
  using assms
  by (simp_all add: next_turn_def Wrote_def Fail_def RetireLane_def ReissueUnacknowledgedBelow_def ReissueExpired_def
      Complete_def complete_live_def sch_Close_def same_but_counters_def Let_def split: option.split)

lemma sys_closed_empty: "sys_inv y \<Longrightarrow> sch_closed (y_s y) \<Longrightarrow> sch_pending (y_s y) = [] \<and> sch_live (y_s y) = []"
  by (simp add: sys_inv_def shut_def)

lemma lane_op_sys:
  assumes "sys_inv y" "keeps (y_s y) s'"
    "sch_closed (y_s y) \<Longrightarrow> sch_pending (y_s y) = [] \<Longrightarrow> sch_live (y_s y) = [] \<Longrightarrow> same_but_counters (y_s y) s'"
  shows "sys_inv (with_s y s')"
proof (cases "sch_closed (y_s y)")
  case True
  then show ?thesis using closed_sys assms sys_closed_empty by blast
next
  case False
  then have "good (y_s y)" using assms(1) by (simp add: sys_inv_def open_inv_def)
  then show ?thesis using assms quiet_sys False by (auto simp: keeps_def)
qed

section \<open>The producer keeps the invariant\<close>

lemma charges_cong: "\<forall>(off, out) \<in> set L. csz h' (oChunk out) = csz h (oChunk out) \<Longrightarrow> charges h' L = charges h L"
  by (induction L) auto

lemma push_good:
  assumes "good s" "\<forall>d \<in> set (sch_heap s). cOffset d < cOffset c"
    "sch_heap t = sch_heap s @ [c]" "sch_pending t = sch_pending s @ [length (sch_heap s)]" "sch_live t = sch_live s"
    "\<And>M. accounted t M = accounted s M"
  shows "good t" "retained t = insert (length (sch_heap s)) (retained s)"
proof -
  have cs: "core s" using assms(1) by (simp add: good_def)
  note cp = core_parts [OF cs]
  have "csz (sch_heap t) (oChunk out) = csz (sch_heap s) (oChunk out)" if "(off, out) \<in> set (sch_live s)" for off out
    using cp(7) [OF map_of_is_SomeI [OF cp(3) that]] assms(3) by (simp add: csz_def nth_append)
  then have ch: "charges (sch_heap t) (sch_live t) = charges (sch_heap s) (sch_live s)"
    unfolding assms(5) by (intro charges_cong) blast
  have "\<forall>off out. map_of (sch_live s) off = Some out \<longrightarrow>
      oChunk out < Suc (length (sch_heap s)) \<and> cOffset ((sch_heap s @ [c]) ! oChunk out) = off"
    using cp(7,8) by (fastforce simp: nth_append chunk_at_def)
  then have "shape (sch_heap t) (sch_pending t) (sch_live t)"
    using cp(3-6) assms(2) unfolding shape_def assms(3-5) by (fastforce simp: sorted_wrt_append)
  then show "good t" using cp(2) ch assms(1,6) by (auto simp: good_def core_def no_stranded_def idle_ready_def assms(3-5))
  show "retained t = insert (length (sch_heap s)) (retained s)" by (auto simp: retained_def assms)
qed

lemma tiled_bound:
  assumes "tiled h src" "c \<in> set h"
  shows "cOffset c + length (cData c) \<le> length src"
proof -
  obtain i where i: "i < length h" "c = h ! i" using assms(2) by (metis in_set_conv_nth)
  have "concat (map cData h) = concat (map cData (take (Suc i) h)) @ concat (map cData (drop (Suc i) h))"
    by (metis append_take_drop_id concat_append map_append)
  from arg_cong [OF this, of length] have "length (concat (map cData (take (Suc i) h))) \<le> length src"
    using assms(1) unfolding tiled_def by simp
  then show ?thesis using assms(1) i by (simp add: tiled_def take_Suc_conv_app_nth)
qed

lemma tiled_push:
  assumes "tiled h src" "cOffset c = length src"
  shows "tiled (h @ [c]) (src @ cData c)"
  using assms by (auto simp: tiled_def nth_append less_Suc_eq)

lemma src_inv_below:
  assumes "src_inv h off pr e f src dn" "pr \<noteq> Returned" "c \<in> set h"
  shows "cOffset c < off"
proof -
  have "cData c \<in> set (map cData h)" "[] \<notin> set (map cData h)" using assms by (auto simp: src_inv_def)
  then have "0 < length (cData c)" by (metis length_greater_0_conv)
  moreover have "cOffset c + length (cData c) \<le> off" using tiled_bound [OF _ assms(3), of src] assms(1) by (simp add: src_inv_def)
  ultimately show ?thesis by linarith
qed

lemma retained_push:
  assumes "retained s = {p. p < length h \<and> cOffset (h ! p) \<notin> dn}" "cOffset c \<notin> dn"
  shows "insert (length h) (retained s) = {p. p < length (h @ [c]) \<and> cOffset ((h @ [c]) ! p) \<notin> dn}"
proof -
  have "p \<in> insert (length h) (retained s) \<longleftrightarrow> p < length (h @ [c]) \<and> cOffset ((h @ [c]) ! p) \<notin> dn" for p
    unfolding assms(1) using assms(2) by (cases "p < length h"; cases "p = length h") (simp_all add: nth_append)
  then show ?thesis by blast
qed

text \<open>A chunk of data read: it takes over the producer's reservation.\<close>

lemma read_data_sys:
  assumes inv: "sys_inv y" and h: "sch_producer (y_s y) = Holding" and o: "\<not> sch_closed (y_s y)" and d: "data \<noteq> []"
    and t: "t = (y_s y)\<lparr>sch_heap := sch_heap (y_s y) @ [\<lparr>cOffset = sch_nextOffset (y_s y), cData = data, cFinal = False,
                 cUrgent = False, cAttempt = 0, cReservation = ChunkSize (sch_cfg (y_s y))\<rparr>],
               sch_nextOffset := sch_nextOffset (y_s y) + length data, sch_stats := st,
               sch_pending := sch_pending (y_s y) @ [length (sch_heap (y_s y))]\<rparr>"
  shows "sys_inv (y\<lparr>y_s := t\<lparr>sch_producer := Producing\<rparr>, y_src := y_src y @ data\<rparr>)"
proof -
  let ?s = "y_s y" and ?t = "t\<lparr>sch_producer := Producing\<rparr>"
  define c where "c = \<lparr>cOffset = sch_nextOffset ?s, cData = data, cFinal = False,
                 cUrgent = False, cAttempt = 0, cReservation = ChunkSize (sch_cfg ?s)\<rparr>"
  have op: "open_inv y" and mi: "owed ?s" and si: "sch_src_inv ?s (y_src y) (y_done y)" using inv o by (simp_all add: sys_inv_def)
  have lt: "\<forall>e \<in> set (sch_heap ?s). cOffset e < cOffset c" using src_inv_below [OF si] h by (simp add: c_def)
  have nd: "cOffset c \<notin> y_done y" using lt si by (fastforce simp: src_inv_def)
  have pg: "good ?t" "retained ?t = insert (length (sch_heap ?s)) (retained ?s)"
    using push_good [of ?s c ?t] op lt by (simp_all add: open_inv_def t c_def accounted_def)
  have "retained ?s = {p. p < length (sch_heap ?s) \<and> cOffset (sch_heap ?s ! p) \<notin> y_done y}" using op by (simp add: open_inv_def)
  from retained_push [OF this nd] have rt: "retained ?t = {p. p < length (sch_heap ?t) \<and> cOffset (sch_heap ?t ! p) \<notin> y_done y}"
    unfolding pg(2) by (simp add: t c_def)
  have "\<forall>p < length (sch_heap ?t). p \<notin> retained ?t \<longrightarrow> cReservation (sch_heap ?t ! p) = 0"
    using op pg(2) by (auto simp: open_inv_def t nth_append less_Suc_eq)
  then have "open_inv (y\<lparr>y_s := ?t, y_src := y_src y @ data\<rparr>)"
    using pg(1) rt by (simp add: open_inv_def)
  moreover have "held_bytes ?t = held_bytes ?s" using h by (simp add: held_bytes_def reserved_def t)
  then have "owed ?t" using mi by (simp add: owed_def res_ok_def t)
  moreover have "sch_src_inv ?t (y_src y @ data) (y_done y)"
    using si tiled_push [of "sch_heap ?s" "y_src y" c] h d by (auto simp: src_inv_def t c_def)
  ultimately show ?thesis using o by (simp add: sys_inv_def t)
qed

text \<open>An empty read gives the reservation back.\<close>

lemma give_back:
  assumes "owed s" "sch_producer s = Holding"
  obtains mem where "Release (sch_memory s) (ChunkSize (sch_cfg s)) = Some mem"
    "pr \<noteq> Holding \<Longrightarrow> owed (s\<lparr>sch_memory := mem, sch_producer := pr\<rparr>)"
proof -
  have r: "0 \<le> reserved s" unfolding reserved_def by (rule sum_list_nonneg) (use assms(1) in \<open>auto simp: owed_def res_ok_def\<close>)
  then have "mem_holds (sch_memory s) (held_bytes s)" "0 \<le> ChunkSize (sch_cfg s)" "ChunkSize (sch_cfg s) \<le> held_bytes s"
    using assms by (auto simp: owed_def res_ok_def held_bytes_def)
  from mem.release_holds [OF this] obtain mem where m: "Release (sch_memory s) (ChunkSize (sch_cfg s)) = Some mem"
    "mem_holds mem (held_bytes s - ChunkSize (sch_cfg s))" by blast
  have "held_bytes (s\<lparr>sch_memory := mem, sch_producer := pr\<rparr>) = held_bytes s - ChunkSize (sch_cfg s)" if "pr \<noteq> Holding"
    using that assms(2) by (simp add: held_bytes_def reserved_def)
  then show thesis using that [OF m(1)] m(2) assms(1) by (simp add: owed_def res_ok_def)
qed

lemma good_memory: "good (s\<lparr>sch_memory := mem, sch_producer := pr\<rparr>) = good s" "retained (s\<lparr>sch_memory := mem, sch_producer := pr\<rparr>) = retained s"
  by (simp_all add: good_def core_def no_stranded_def accounted_def retained_def)

lemma good_producer: "good (s\<lparr>sch_producer := pr\<rparr>) = good s" "retained (s\<lparr>sch_producer := pr\<rparr>) = retained s"
  by (simp_all add: good_def core_def no_stranded_def accounted_def retained_def)

lemma producer_sys:
  assumes "sys_inv y" "owed ((y_s y)\<lparr>sch_memory := mem, sch_producer := pr\<rparr>)" "sch_producer (y_s y) \<noteq> Returned"
    "pr = Returned \<Longrightarrow> sch_closed (y_s y)"
  shows "sys_inv (with_s y ((y_s y)\<lparr>sch_memory := mem, sch_producer := pr\<rparr>))"
proof -
  have "sch_src_inv (y_s y) (y_src y) (y_done y)" using assms(1) by (simp add: sys_inv_def)
  then have "src_inv (sch_heap (y_s y)) (sch_nextOffset (y_s y)) pr (sch_eof (y_s y)) (sch_finished (y_s y)) (y_src y) (y_done y)"
    using assms(3) by (auto simp: src_inv_def)
  moreover have "shut ((y_s y)\<lparr>sch_memory := mem, sch_producer := pr\<rparr>)" if "sch_closed (y_s y)"
    using assms(1) that by (simp add: sys_inv_def shut_def)
  moreover have "open_inv (y\<lparr>y_s := (y_s y)\<lparr>sch_memory := mem, sch_producer := pr\<rparr>\<rparr>)" if "\<not> sch_closed (y_s y)"
    using assms(1,4) that by (auto simp: sys_inv_def open_inv_def good_memory)
  ultimately show ?thesis using assms(2) by (simp add: sys_inv_def with_s_def)
qed

text \<open>The end of the stream, by \<^verbatim>\<open>io.EOF\<close> or by an error of the source.\<close>

lemma ended_sys:
  assumes inv: "sys_inv y" and o: "\<not> sch_closed (y_s y)" and p: "sch_producer (y_s y) = Producing"
    and g: "good t" and r: "retained t = {p. p < length (sch_heap t) \<and> cOffset (sch_heap t ! p) \<notin> y_done y}"
    and z: "\<forall>p < length (sch_heap t). p \<notin> retained t \<longrightarrow> cReservation (sch_heap t ! p) = 0"
    and m: "owed (t\<lparr>sch_producer := Returned\<rparr>)" and ti: "tiled (sch_heap t) (y_src y)" and dn: "y_done y \<subseteq> set (map cOffset (sch_heap t))"
    and f: "sch_closed t = sch_closed (y_s y)" "sch_nextOffset t = sch_nextOffset (y_s y)" "sch_eof t" "sch_finished t = sch_finished (y_s y)"
  shows "sys_inv (with_s y ((signalIfDoneLocked t)\<lparr>sch_producer := Returned\<rparr>))"
proof -
  let ?t = "(signalIfDoneLocked t)\<lparr>sch_producer := Returned\<rparr>"
  have dl: "doneLocked t \<longleftrightarrow> retained t = {}" using retained_empty [of t] g f(3) by (auto simp: doneLocked_def good_def)
  have all: "set (map cOffset (sch_heap t)) \<subseteq> y_done y" if "retained t = {}"
  proof
    fix x assume "x \<in> set (map cOffset (sch_heap t))"
    then obtain i where "i < length (sch_heap t)" "x = cOffset (sch_heap t ! i)" by (auto simp: in_set_conv_nth)
    then show "x \<in> y_done y" using that r by blast
  qed
  have si: "sch_src_inv (y_s y) (y_src y) (y_done y)" using inv by (simp add: sys_inv_def)
  have "good ?t" "retained ?t = retained t"
    using g by (simp_all add: good_producer)
  then have "open_inv (y\<lparr>y_s := ?t\<rparr>)" using r z f(3) dl by (simp add: open_inv_def)
  moreover have "owed ?t" using m owed_cong [of ?t "t\<lparr>sch_producer := Returned\<rparr>"] by simp
  moreover have "sch_src_inv ?t (y_src y) (y_done y)" using si p ti dn dl all f by (auto simp: src_inv_def)
  ultimately show ?thesis using o f(1) by (simp add: sys_inv_def with_s_def)
qed

lemma error_sys:
  assumes inv: "sys_inv y" and o: "\<not> sch_closed (y_s y)" and p: "sch_producer (y_s y) = Producing"
  shows "sys_inv (with_s y ((signalIfDoneLocked ((y_s y)\<lparr>sch_srcErr := Some e, sch_eof := True\<rparr>))\<lparr>sch_producer := Returned\<rparr>))"
proof (rule ended_sys [OF inv o p])
  let ?t = "(y_s y)\<lparr>sch_srcErr := Some e, sch_eof := True\<rparr>"
  have op: "open_inv y" and mi: "owed (y_s y)" and si: "sch_src_inv (y_s y) (y_src y) (y_done y)" using inv o by (simp_all add: sys_inv_def)
  show "good ?t" using op by (simp add: open_inv_def good_def core_def no_stranded_def accounted_def)
  have rt: "retained ?t = retained (y_s y)" by (simp add: retained_def)
  show "retained ?t = {p. p < length (sch_heap ?t) \<and> cOffset (sch_heap ?t ! p) \<notin> y_done y}"
    "\<forall>p < length (sch_heap ?t). p \<notin> retained ?t \<longrightarrow> cReservation (sch_heap ?t ! p) = 0"
    using op unfolding rt by (simp_all add: open_inv_def)
  show "owed (?t\<lparr>sch_producer := Returned\<rparr>)" using mi owed_cong [of "?t\<lparr>sch_producer := Returned\<rparr>" "y_s y"] p by simp
qed (use inv in \<open>simp_all add: sys_inv_def src_inv_def\<close>)

lemma eof_sys:
  assumes inv: "sys_inv y" and o: "\<not> sch_closed (y_s y)" and p: "sch_producer (y_s y) = Producing"
  shows "sys_inv (with_s y ((signalIfDoneLocked (markEOFLocked (y_s y)))\<lparr>sch_producer := Returned\<rparr>))"
proof -
  let ?s = "y_s y" and ?t = "markEOFLocked (y_s y)"
  have op: "open_inv y" and mi: "owed ?s" and si: "sch_src_inv ?s (y_src y) (y_done y)" using inv o by (simp_all add: sys_inv_def)
  then have gs: "good ?s" by (simp add: open_inv_def)
  then have cs: "core ?s" by (simp add: good_def)
  show ?thesis
  proof (cases "sch_pending ?s = []")
    case True
    define c where "c = \<lparr>cOffset = sch_nextOffset ?s, cData = [], cFinal = True, cUrgent = False, cAttempt = 0, cReservation = 0\<rparr>"
    have t: "?t = ?s\<lparr>sch_eof := True, sch_heap := sch_heap ?s @ [c], sch_pending := sch_pending ?s @ [length (sch_heap ?s)]\<rparr>"
      using True by (simp add: markEOFLocked_def Let_def c_def)
    have lt: "\<forall>e \<in> set (sch_heap ?s). cOffset e < cOffset c" using src_inv_below [OF si] p by (simp add: c_def)
    have nd: "cOffset c \<notin> y_done y" using lt si by (fastforce simp: src_inv_def)
    have pg: "good ?t" "retained ?t = insert (length (sch_heap ?s)) (retained ?s)"
      using push_good [OF gs lt, of ?t] by (simp_all add: t accounted_def)
    have "retained ?s = {p. p < length (sch_heap ?s) \<and> cOffset (sch_heap ?s ! p) \<notin> y_done y}" using op by (simp add: open_inv_def)
    from retained_push [OF this nd] have rt: "retained ?t = {p. p < length (sch_heap ?t) \<and> cOffset (sch_heap ?t ! p) \<notin> y_done y}"
      unfolding pg(2) by (simp add: t)
    have z: "\<forall>p < length (sch_heap ?t). p \<notin> retained ?t \<longrightarrow> cReservation (sch_heap ?t ! p) = 0"
      using op unfolding pg(2) by (auto simp: open_inv_def t nth_append less_Suc_eq)
    have "held_bytes (?t\<lparr>sch_producer := Returned\<rparr>) = held_bytes ?s" using p by (simp add: held_bytes_def reserved_def t c_def)
    then have "owed (?t\<lparr>sch_producer := Returned\<rparr>)" using mi by (simp add: owed_def res_ok_def t c_def)
    moreover have "tiled (sch_heap ?t) (y_src y)" using tiled_push [of "sch_heap ?s" "y_src y" c] si by (simp add: src_inv_def t c_def)
    ultimately show ?thesis
      by (intro ended_sys [OF inv o p pg(1) rt z]) (use si in \<open>auto simp: t src_inv_def\<close>)
  next
    case False
    let ?p = "last (sch_pending ?s)" and ?e = "?s\<lparr>sch_eof := True\<rparr>"
    have t: "?t = set_chunk ?e ?p ((chunk_at ?e ?p)\<lparr>cFinal := True\<rparr>)" using False by (simp add: markEOFLocked_def Let_def)
    have pl: "?p < length (sch_heap ?e)" using core_parts(5) [OF cs] last_in_set [OF False] by simp
    have ce: "core ?e" "no_stranded ?e" using gs by (simp_all add: good_def core_def no_stranded_def accounted_def)
    note cc = core_set_chunk [OF ce(1) pl, of "(chunk_at ?e ?p)\<lparr>cFinal := True\<rparr>", folded t, simplified]
    have hs: "heap_same (sch_heap ?s) (sch_heap ?t)" and rt: "retained ?t = retained ?s"
      using cc(2) by (auto simp: quiet_def retained_def)
    note nth = heap_same_nth [OF hs]
    have gt: "good ?t" using cc(1) ce(2) by (simp add: good_def no_stranded_def t set_chunk_def)
    have mt: "owed (?t\<lparr>sch_producer := Returned\<rparr>)"
      using mi owed_cong [of "?t\<lparr>sch_producer := Returned\<rparr>" ?s] heap_same_res [OF hs] p by (simp add: t set_chunk_def)
    have rs: "retained ?t = {p. p < length (sch_heap ?t) \<and> cOffset (sch_heap ?t ! p) \<notin> y_done y}"
      using op nth unfolding rt open_inv_def by auto
    have z: "\<forall>p < length (sch_heap ?t). p \<notin> retained ?t \<longrightarrow> cReservation (sch_heap ?t ! p) = 0"
      using op nth unfolding rt open_inv_def by auto
    have al: "tiled (sch_heap ?t) (y_src y)" "y_done y \<subseteq> set (map cOffset (sch_heap ?t))"
      using src_inv_alike [OF heap_same_alike [OF hs] si] by (simp_all add: src_inv_def)
    show ?thesis
      by (rule ended_sys [OF inv o p gt rs z mt al]) (simp_all add: t set_chunk_def)
  qed
qed

lemma tail_sys:
  assumes "sys_inv (y\<lparr>y_s := s1\<lparr>sch_producer := Producing\<rparr>\<rparr>)" "\<not> sch_closed s1" "s' = (case err of
      None \<Rightarrow> s1\<lparr>sch_producer := Producing\<rparr>
    | Some SrcErrEOF \<Rightarrow> (signalIfDoneLocked (markEOFLocked s1))\<lparr>sch_producer := Returned\<rparr>
    | Some e \<Rightarrow> (signalIfDoneLocked (s1\<lparr>sch_srcErr := Some e, sch_eof := True\<rparr>))\<lparr>sch_producer := Returned\<rparr>)"
  shows "sys_inv (y\<lparr>y_s := s'\<rparr>)"
proof -
  let ?y = "y\<lparr>y_s := s1\<lparr>sch_producer := Producing\<rparr>\<rparr>"
  have e: "sys_inv (y\<lparr>y_s := (signalIfDoneLocked (s1\<lparr>sch_srcErr := Some e, sch_eof := True\<rparr>))\<lparr>sch_producer := Returned\<rparr>\<rparr>)" for e
    using error_sys [OF assms(1), of e] assms(2) by (auto simp add: with_s_def signalIfDoneLocked_def doneLocked_def split: if_splits)
  have "sys_inv (y\<lparr>y_s := (signalIfDoneLocked (markEOFLocked s1))\<lparr>sch_producer := Returned\<rparr>\<rparr>)"
    using eof_sys [OF assms(1)] assms(2)
    by (auto simp add: with_s_def signalIfDoneLocked_def doneLocked_def markEOFLocked_def set_chunk_def chunk_at_def Let_def split: if_splits)
  then show ?thesis using assms(1) e by (auto simp: assms(3) split: option.split src_error.split)
qed

lemma read_sys:
  assumes inv: "sys_inv y" and h: "sch_producer (y_s y) = Holding"
  obtains s' where "produce_read (y_s y) data err = Some s'"
    "sys_inv (y\<lparr>y_s := s', y_src := (if sch_closed (y_s y) then y_src y else y_src y @ data)\<rparr>)"
proof -
  let ?s = "y_s y"
  have mi: "owed ?s" using inv by (simp add: sys_inv_def)
  have upd: "y\<lparr>y_s := t, y_src := y_src y\<rparr> = y\<lparr>y_s := t\<rparr>" "y\<lparr>y_src := d, y_s := t\<rparr> = y\<lparr>y_s := t, y_src := d\<rparr>" for t d
    by (cases y, simp)+
  show thesis
  proof (cases "sch_closed ?s")
    case True
    obtain mem where m: "Release (sch_memory ?s) (ChunkSize (sch_cfg ?s)) = Some mem" "owed (?s\<lparr>sch_memory := mem, sch_producer := Returned\<rparr>)"
      by (rule give_back [OF mi h, of Returned]) auto
    show thesis
      by (rule that [of "?s\<lparr>sch_memory := mem, sch_producer := Returned\<rparr>"])
        (use True m producer_sys [OF inv m(2)] h upd(1) in \<open>simp_all add: produce_read_def with_s_def\<close>)
  next
    case False
    define tail where "tail s1 = (case err of None \<Rightarrow> s1\<lparr>sch_producer := Producing\<rparr>
      | Some SrcErrEOF \<Rightarrow> (signalIfDoneLocked (markEOFLocked s1))\<lparr>sch_producer := Returned\<rparr>
      | Some e \<Rightarrow> (signalIfDoneLocked (s1\<lparr>sch_srcErr := Some e, sch_eof := True\<rparr>))\<lparr>sch_producer := Returned\<rparr>)" for s1 :: scheduler
    have ex: "\<exists>s1. (if data \<noteq> [] then
        Some (?s\<lparr>sch_heap := sch_heap ?s @ [\<lparr>cOffset = sch_nextOffset ?s, cData = data, cFinal = False,
            cUrgent = False, cAttempt = 0, cReservation = ChunkSize (sch_cfg ?s)\<rparr>],
          sch_nextOffset := sch_nextOffset ?s + length data,
          sch_stats := (sch_stats ?s)\<lparr>SourceBytes := SourceBytes (sch_stats ?s) + length data\<rparr>,
          sch_pending := sch_pending ?s @ [length (sch_heap ?s)]\<rparr>)
        else map_option (\<lambda>mem. ?s\<lparr>sch_memory := mem\<rparr>) (Release (sch_memory ?s) (ChunkSize (sch_cfg ?s)))) = Some s1 \<and>
        \<not> sch_closed s1 \<and> sys_inv (y\<lparr>y_s := s1\<lparr>sch_producer := Producing\<rparr>, y_src := y_src y @ data\<rparr>)"
    proof (cases "data = []")
      case True
      obtain mem where m: "Release (sch_memory ?s) (ChunkSize (sch_cfg ?s)) = Some mem" "owed (?s\<lparr>sch_memory := mem, sch_producer := Producing\<rparr>)"
        by (rule give_back [OF mi h, of Producing]) auto
      show ?thesis using True m producer_sys [OF inv m(2)] h False by (simp add: with_s_def)
    next
      case d: False
      show ?thesis using read_data_sys [OF inv h False d refl] d False by simp
    qed
    then obtain s1 where s1: "sys_inv (y\<lparr>y_s := s1\<lparr>sch_producer := Producing\<rparr>, y_src := y_src y @ data\<rparr>)" "\<not> sch_closed s1"
      and pr: "produce_read ?s data err = Some (tail s1)"
      using False by (auto simp: produce_read_def tail_def Let_def split: option.split src_error.split)
    show thesis
      using that [OF pr] tail_sys [where y = "y\<lparr>y_src := y_src y @ data\<rparr>" and ?s1.0 = s1 and s' = "tail s1" and err = err] s1 False by (simp add: tail_def upd(2))
  qed
qed

lemma acquire_outcome:
  assumes "acquire_begin mb n d = (res, mb')" "mem_holds mb m" "0 < n"
  shows "res = Acquired \<Longrightarrow> mem_holds mb' (m + n)" "res = ErrRequestTooLarge \<or> res = CtxErr \<Longrightarrow> mb' = mb"
  using assms
  by (auto simp: acquire_begin_def acquire_turn_def mem_holds_def mem_wf_def take_bytes_def split: option.splits if_splits)

lemma reserve_sys:
  assumes inv: "sys_inv y" and p: "sch_producer (y_s y) = Producing"
    and a: "acquire_begin (sch_memory (y_s y)) (ChunkSize (sch_cfg (y_s y))) d = (res, mem)" and w: "\<forall>g. res \<noteq> Waiting g"
  shows "sys_inv (with_s y (produce_reserve (y_s y) (res, mem)))"
proof -
  let ?s = "y_s y"
  have mi: "owed ?s" using inv by (simp add: sys_inv_def)
  then have c: "mem_holds (sch_memory ?s) (held_bytes ?s)" "0 < ChunkSize (sch_cfg ?s)" by (simp_all add: owed_def res_ok_def)
  note o = acquire_outcome [OF a c]
  show ?thesis
  proof (cases "res = Acquired")
    case True
    have "held_bytes (?s\<lparr>sch_memory := mem, sch_producer := Holding\<rparr>) = held_bytes ?s + ChunkSize (sch_cfg ?s)"
      using p by (simp add: held_bytes_def reserved_def)
    then have "owed (?s\<lparr>sch_memory := mem, sch_producer := Holding\<rparr>)" using o(1) [OF True] mi by (simp add: owed_def res_ok_def)
    from producer_sys [OF inv this] show ?thesis using True p by (simp add: produce_reserve_def)
  next
    case False
    then have m: "mem = sch_memory ?s" using o(2) w by (cases res) auto
    show ?thesis
    proof (cases "sch_closed ?s")
      case True
      have "owed (?s\<lparr>sch_memory := mem, sch_producer := Returned\<rparr>)" using owed_cong [of "?s\<lparr>sch_memory := mem, sch_producer := Returned\<rparr>" ?s] mi p m by simp
      from producer_sys [OF inv this] show ?thesis using True False p w
        by (cases res) (simp_all add: produce_reserve_def Let_def)
    next
      case o: False
      have "sys_inv (with_s y (?s\<lparr>sch_srcErr := Some SrcErrMemory, sch_eof := True, sch_producer := Returned\<rparr>))"
      proof -
        let ?t = "?s\<lparr>sch_srcErr := Some SrcErrMemory, sch_eof := True, sch_producer := Returned\<rparr>"
        have op: "open_inv y" and si: "sch_src_inv ?s (y_src y) (y_done y)" using inv o by (simp_all add: sys_inv_def)
        have gr: "good ?t = good ?s" "retained ?t = retained ?s"
          by (simp_all add: good_def core_def no_stranded_def accounted_def retained_def)
        have "open_inv (y\<lparr>y_s := ?t\<rparr>)" using op gr unfolding open_inv_def by simp
        moreover have "sch_src_inv ?t (y_src y) (y_done y)" using si p by (simp add: src_inv_def)
        moreover have "owed ?t" using owed_cong [of ?t ?s] mi p by simp
        ultimately show ?thesis using o by (simp add: sys_inv_def with_s_def)
      qed
      moreover have "produce_reserve ?s (res, mem) = ?s\<lparr>sch_srcErr := Some SrcErrMemory, sch_eof := True, sch_producer := Returned\<rparr>"
        unfolding m using False o w by (cases ?s; cases res) (simp_all add: produce_reserve_def Let_def)
      ultimately show ?thesis by simp
    qed
  qed
qed

lemma check_sys:
  assumes inv: "sys_inv y" and p: "sch_producer (y_s y) = Producing"
  shows "sys_inv (with_s y (produce_check (y_s y)))"
proof (cases "sch_closed (y_s y)")
  case True
  have s: "(y_s y)\<lparr>sch_memory := sch_memory (y_s y), sch_producer := Returned\<rparr> = (y_s y)\<lparr>sch_producer := Returned\<rparr>" by (cases "y_s y") simp
  have "owed (y_s y)" using inv by (simp add: sys_inv_def)
  then have "owed ((y_s y)\<lparr>sch_producer := Returned\<rparr>)" using p owed_cong [of "(y_s y)\<lparr>sch_producer := Returned\<rparr>" "y_s y"] by simp
  then show ?thesis using producer_sys [OF inv, where mem = "sch_memory (y_s y)" and pr = Returned, unfolded s] True p by (simp add: produce_check_def)
next
  case False
  then show ?thesis using inv by (simp add: produce_check_def with_s_def)
qed

lemma others_sys:
  assumes "sys_inv y" "mem_holds mem (held_bytes (y_s y))"
  shows "sys_inv (with_s y ((y_s y)\<lparr>sch_memory := mem\<rparr>))"
proof -
  have "held_bytes ((y_s y)\<lparr>sch_memory := mem\<rparr>) = held_bytes (y_s y)" by (simp add: held_bytes_def reserved_def)
  then have "owed ((y_s y)\<lparr>sch_memory := mem\<rparr>)" using assms by (simp add: sys_inv_def owed_def res_ok_def)
  moreover have "good ((y_s y)\<lparr>sch_memory := mem\<rparr>) = good (y_s y)" "retained ((y_s y)\<lparr>sch_memory := mem\<rparr>) = retained (y_s y)"
    by (simp_all add: good_def core_def no_stranded_def accounted_def retained_def)
  ultimately show ?thesis using assms(1)
    by (cases "sch_closed (y_s y)") (simp_all add: sys_inv_def with_s_def shut_def open_inv_def)
qed

section \<open>Completion and close keep the invariant\<close>

lemma complete_sys:
  assumes inv: "sys_inv y" and c: "cOffset c \<in> cOffset ` set (sch_heap (y_s y))"
  obtains s' where "Complete (y_s y) lane (Some c) = Some s'" "sys_inv (y\<lparr>y_s := s', y_done := insert (cOffset c) (y_done y)\<rparr>)"
proof (cases "sch_closed (y_s y)")
  case True
  let ?s = "y_s y"
  have "sch_src_inv ?s (y_src y) (insert (cOffset c) (y_done y))" using inv c by (auto simp: sys_inv_def src_inv_def)
  then have "sys_inv (y\<lparr>y_s := ?s, y_done := insert (cOffset c) (y_done y)\<rparr>)" using inv True by (simp add: sys_inv_def)
  then show thesis using that [of ?s] closed_ops(7) [OF True] sys_closed_empty [OF inv True] by blast
next
  case False
  let ?s = "y_s y" and ?dn = "insert (cOffset c) (y_done y)"
  have op: "open_inv y" and mi: "owed ?s" and si: "sch_src_inv ?s (y_src y) (y_done y)" using inv False by (simp_all add: sys_inv_def)
  obtain p where p: "p < length (sch_heap ?s)" "cOffset (chunk_at ?s p) = cOffset c"
    using c by (force simp: in_set_conv_nth chunk_at_def)
  have so: "sorted_wrt (\<lambda>c d. cOffset c < cOffset d) (sch_heap ?s)" using op core_parts(6) [of ?s] by (simp add: open_inv_def good_def)
  have rp: "cOffset (sch_heap ?s ! q) = cOffset c \<longleftrightarrow> q = p" if "q < length (sch_heap ?s)" for q
    using offsets_distinct(1) [OF so that p(1)] p(2) by (simp add: chunk_at_def)
  have g: "good ?s" "res_ok ?s" "mem_holds (sch_memory ?s) (held_bytes ?s)" using op mi by (simp_all add: open_inv_def owed_def)
  obtain s' where s': "Complete ?s lane (Some c) = Some s'" "good s'" "retained s' = retained ?s - {p}"
    "heap_alike (sch_heap ?s) (sch_heap s')" "res_ok s'" "mem_holds (sch_memory s') (held_bytes s')"
    "\<And>q. q < length (sch_heap ?s) \<Longrightarrow> cReservation (sch_heap s' ! q) = (if q = p \<and> p \<in> retained ?s then 0 else cReservation (sch_heap ?s ! q))"
    "sch_cfg s' = sch_cfg ?s" "sch_nextOffset s' = sch_nextOffset ?s" "sch_eof s' = sch_eof ?s" "sch_srcErr s' = sch_srcErr ?s"
    "sch_closed s' = sch_closed ?s" "sch_producer s' = sch_producer ?s"
    "sch_finished s' = (sch_finished ?s \<or> p \<in> retained ?s \<and> sch_eof ?s \<and> retained s' = {})"
    by (rule Complete_spec [OF g p, where lane = lane]) (rule that; assumption)
  have al: "length (sch_heap s') = length (sch_heap ?s)" "\<And>q. q < length (sch_heap ?s) \<Longrightarrow> cOffset (sch_heap s' ! q) = cOffset (sch_heap ?s ! q)"
    using s'(4) by (simp_all add: heap_alike_def)
  have ret: "retained ?s = {p. p < length (sch_heap ?s) \<and> cOffset (sch_heap ?s ! p) \<notin> y_done y}" using op by (simp add: open_inv_def)
  have ret': "retained s' = {p. p < length (sch_heap s') \<and> cOffset (sch_heap s' ! p) \<notin> ?dn}"
    unfolding s'(3) ret al(1) using al(2) rp by auto
  have z: "cReservation (sch_heap s' ! q) = 0" if "q < length (sch_heap s')" "q \<notin> retained s'" for q
    using that op s'(7) [of q] al(1) s'(3) by (cases "q = p") (auto simp: open_inv_def)
  have e: "sch_eof s' \<and> (sch_srcErr s' \<noteq> Some SrcErrMemory \<and> retained s' = {} \<longrightarrow> sch_finished s')" if "sch_producer s' = Returned"
  proof -
    have "sch_eof ?s" "sch_srcErr ?s \<noteq> Some SrcErrMemory \<and> retained ?s = {} \<longrightarrow> sch_finished ?s"
      using op that s'(13) by (simp_all add: open_inv_def)
    then show ?thesis using s'(3,10,11,14) by (cases "p \<in> retained ?s") auto
  qed
  have oi: "open_inv (y\<lparr>y_s := s', y_done := ?dn\<rparr>)"
    using s'(2) ret' z e unfolding open_inv_def by simp
  have all: "set (map cOffset (sch_heap s')) \<subseteq> ?dn" if "sch_finished s'"
  proof (cases "retained s' = {}")
    case True
    show ?thesis
    proof
      fix x assume "x \<in> set (map cOffset (sch_heap s'))"
      then obtain i where "i < length (sch_heap s')" "x = cOffset (sch_heap s' ! i)" by (auto simp: in_set_conv_nth)
      then show "x \<in> ?dn" using True ret' by blast
    qed
  next
    case False
    then have "sch_finished ?s" using that s'(14) by simp
    then show ?thesis using si heap_alike_maps(1) [OF s'(4)] unfolding src_inv_def by auto
  qed
  have "sch_producer s' = Returned" if "sch_finished s'" using that si s'(10,13,14) by (auto simp: src_inv_def)
  then have "sch_src_inv s' (y_src y) ?dn"
    using src_inv_alike [OF s'(4) si] all c heap_alike_maps [OF s'(4)] s'(9,10,13) by (auto simp: src_inv_def)
  then show thesis using that [OF s'(1)] oi s'(5,6,12) False by (simp add: sys_inv_def owed_def)
qed

lemma release_chunks_spec:
  assumes "owed s" "\<forall>p \<in> set ps. p < length (sch_heap s)"
  shows "\<exists>h mem. release_chunks ps s = Some (s\<lparr>sch_heap := h, sch_memory := mem\<rparr>) \<and> owed (s\<lparr>sch_heap := h, sch_memory := mem\<rparr>) \<and>
     heap_alike (sch_heap s) h \<and>
     (\<forall>q < length (sch_heap s). cReservation (h ! q) = (if q \<in> set ps then 0 else cReservation (sch_heap s ! q)))"
  using assms
proof (induction ps arbitrary: s)
  case Nil
  have "s = s\<lparr>sch_heap := sch_heap s, sch_memory := sch_memory s\<rparr>" by (cases s) simp
  then show ?case using Nil(1) by (intro exI [of _ "sch_heap s"] exI [of _ "sch_memory s"]) (simp add: heap_alike_def)
next
  case (Cons p ps)
  have p: "res_ok s" "p < length (sch_heap s)" "mem_holds (sch_memory s) (held_bytes s)" using Cons.prems by (simp_all add: owed_def)
  obtain mem where m: "releaseChunkLocked s p = Some ((set_chunk s p ((chunk_at s p)\<lparr>cReservation := 0\<rparr>))\<lparr>sch_memory := mem\<rparr>)"
    "mem_holds mem (held_bytes s - cReservation (chunk_at s p))" by (rule releaseChunk_spec [OF p])
  define t where "t = (set_chunk s p ((chunk_at s p)\<lparr>cReservation := 0\<rparr>))\<lparr>sch_memory := mem\<rparr>"
  note st = release_chunk_state [OF p(2), of mem, folded t_def]
  have "owed t" using st(4) [OF p(1)] st(5) m(2) by (simp add: owed_def t_def)
  moreover have "\<forall>p \<in> set ps. p < length (sch_heap t)" using Cons.prems(2) by (simp add: t_def set_chunk_def)
  ultimately obtain h mem' where h: "release_chunks ps t = Some (t\<lparr>sch_heap := h, sch_memory := mem'\<rparr>)"
    "owed (t\<lparr>sch_heap := h, sch_memory := mem'\<rparr>)" "heap_alike (sch_heap t) h"
    "\<forall>q < length (sch_heap t). cReservation (h ! q) = (if q \<in> set ps then 0 else cReservation (sch_heap t ! q))"
    using Cons.IH by blast
  have u: "t\<lparr>sch_heap := h, sch_memory := mem'\<rparr> = s\<lparr>sch_heap := h, sch_memory := mem'\<rparr>" by (simp add: t_def set_chunk_def)
  have "heap_alike (sch_heap s) h" using st(1) h(3) by (simp add: heap_alike_def)
  moreover have "cReservation (h ! q) = (if q \<in> set (p # ps) then 0 else cReservation (sch_heap s ! q))" if "q < length (sch_heap s)" for q
    using h(4) that by (simp add: t_def set_chunk_def nth_list_update)
  ultimately show ?case using h(1,2) m(1) unfolding u
    by (intro exI [of _ h] exI [of _ mem']) (simp add: t_def [symmetric])
qed

lemma close_sys:
  assumes inv: "sys_inv y"
  obtains s' where "sch_Close (y_s y) = Some s'" "sys_inv (with_s y s')" "sch_closed s'"
proof (cases "sch_closed (y_s y)")
  case True
  then show thesis using that [of "y_s y"] inv closed_ops(8) sys_closed_empty by (simp add: with_s_def)
next
  case False
  let ?s = "y_s y" and ?c = "(y_s y)\<lparr>sch_closed := True\<rparr>"
  let ?ps = "remdups (sch_pending ?s @ map (\<lambda>(off, out). oChunk out) (sch_live ?s))"
  have op: "open_inv y" and mi: "owed ?s" and si: "sch_src_inv ?s (y_src y) (y_done y)" using inv False by (simp_all add: sys_inv_def)
  have cs: "core ?s" using op by (simp add: open_inv_def good_def)
  note cp = core_parts [OF cs]
  have sp: "set ?ps = retained ?s"
  proof -
    have "oChunk ` snd ` set (sch_live ?s) = live_refs (sch_live ?s)"
      using map_of_eq_Some_iff [OF cp(3)] by (force simp: live_refs_def image_iff)
    then show ?thesis by (simp add: retained_def image_image case_prod_unfold)
  qed
  have a: "owed ?c" using mi owed_cong [of ?c ?s] by simp
  have b: "\<forall>p \<in> set ?ps. p < length (sch_heap ?c)" unfolding sp using op by (auto simp: open_inv_def)
  have heap: "sch_heap ?c = sch_heap ?s" by simp
  obtain h mem where h: "release_chunks ?ps ?c = Some (?c\<lparr>sch_heap := h, sch_memory := mem\<rparr>)"
    "owed (?c\<lparr>sch_heap := h, sch_memory := mem\<rparr>)" "heap_alike (sch_heap ?s) h"
    "\<forall>q < length (sch_heap ?s). cReservation (h ! q) = (if q \<in> set ?ps then 0 else cReservation (sch_heap ?s ! q))"
    using release_chunks_spec [OF a b, unfolded heap] by blast
  define t where "t = ?c\<lparr>sch_heap := h, sch_memory := mem, sch_pending := [], sch_live := []\<rparr>"
  have C: "sch_Close ?s = Some t" using False h(1) by (simp add: sch_Close_def Let_def t_def del: set_remdups)
  have z: "cReservation (h ! q) = 0" if "q < length h" for q
    using h(3,4) that op unfolding sp heap_alike_def open_inv_def by auto
  have "shut t" unfolding shut_def t_def using z by (auto simp: in_set_conv_nth)
  moreover have "owed t" using h(2) owed_cong [of t "?c\<lparr>sch_heap := h, sch_memory := mem\<rparr>"] by (simp add: t_def)
  moreover have "sch_src_inv t (y_src y) (y_done y)" using src_inv_alike [OF h(3) si] by (simp add: t_def)
  ultimately show thesis using that [OF C] by (simp add: sys_inv_def with_s_def t_def)
qed

section \<open>Reachable states\<close>

lemma applyDefaults_positive: "0 < ChunkSize (applyDefaults cfg)" "0 < LaneWindow (applyDefaults cfg)"
  "LaneWindow (applyDefaults cfg) \<le> MaxOutstanding (applyDefaults cfg)" "0 < MaxOutstandingBytes (applyDefaults cfg)"
  by (simp_all add: applyDefaults_def sch_DefaultConfig_def Let_def)

lemma start_sys: "mem_holds mem 0 \<Longrightarrow> sys_inv \<lparr>y_s = sch_New cfg mem, y_src = [], y_done = {}\<rparr>"
  using applyDefaults_positive(1) [of cfg]
  by (simp add: sys_inv_def open_inv_def owed_def src_inv_def sch_New_def good_def core_def shape_def accounted_def
      no_stranded_def idle_ready_def retained_def live_refs_def res_ok_def held_bytes_def reserved_def tiled_def
      sum_defs fun_eq_iff)

lemma step_sys:
  assumes "sch_step y z" "sys_inv y"
  shows "sys_inv z"
  using assms(1)
proof cases
  case (read data err s')
  obtain t where "produce_read (y_s y) data err = Some t"
    "sys_inv (y\<lparr>y_s := t, y_src := (if sch_closed (y_s y) then y_src y else y_src y @ data)\<rparr>)"
    by (rule read_sys [OF assms(2) read(2)])
  then show ?thesis using read(1,5) by simp
next
  case (complete c lane s')
  obtain t where "Complete (y_s y) lane (Some c) = Some t" "sys_inv (y\<lparr>y_s := t, y_done := insert (cOffset c) (y_done y)\<rparr>)"
    by (rule complete_sys [OF assms(2) complete(2)])
  then show ?thesis using complete(1,3) by simp
next
  case (close s')
  obtain t where "sch_Close (y_s y) = Some t" "sys_inv (with_s y t)" "sch_closed t" by (rule close_sys [OF assms(2)])
  then show ?thesis using close by simp
next
  case (reserve d res mem)
  then show ?thesis using reserve_sys [OF assms(2) reserve(2,3)] by simp
qed (use assms(2) in \<open>simp_all add: check_sys others_sys lane_op_sys closed_ops next_turn_keeps Wrote_keeps Fail_keeps
      RetireLane_keeps ReissueBelow_keeps ReissueExpired_keeps\<close>)

lemma reachable_sys:
  assumes "sch_reachable cfg mem y" "mem_holds mem 0"
  shows "sys_inv y"
  using assms(1) by induction (use assms(2) start_sys step_sys in auto)

lemma reachable_open:
  assumes "sch_reachable cfg mem y" "mem_holds mem 0" "\<not> sch_closed (y_s y)"
  shows "good (y_s y)" "open_inv y" "owed (y_s y)" "sch_src_inv (y_s y) (y_src y) (y_done y)"
  using reachable_sys [OF assms(1,2)] assms(3) by (simp_all add: sys_inv_def open_inv_def)

lemma complete_cfg: "Complete s lane mc = Some s' \<Longrightarrow> sch_cfg s' = sch_cfg s"
proof -
  have ra: "sch_cfg (release_attempts t z as) = sch_cfg t" for t z as
    by (induction as arbitrary: t) (use releaseLane_counters in \<open>simp_all add: same_but_counters_def\<close>)
  have cl: "sch_cfg (complete_live s off lane) = sch_cfg s" for off by (simp add: complete_live_def ra Let_def split: option.split)
  have rc: "releaseChunkLocked t p = Some t' \<Longrightarrow> sch_cfg t' = sch_cfg t" for t p t'
    by (auto simp: releaseChunkLocked_def set_chunk_def Let_def split: if_splits option.splits)
  show "Complete s lane mc = Some s' \<Longrightarrow> sch_cfg s' = sch_cfg s"
    by (auto simp: Complete_def Let_def cl split: option.splits prod.splits dest!: rc)
qed

lemma close_cfg: "sch_Close s = Some s' \<Longrightarrow> sch_cfg s' = sch_cfg s"
proof -
  have "release_chunks ps t = Some t' \<Longrightarrow> sch_cfg t' = sch_cfg t" for ps t t'
    by (induction ps arbitrary: t) (auto simp: releaseChunkLocked_def set_chunk_def Let_def split: if_splits option.splits)
  then show "sch_Close s = Some s' \<Longrightarrow> sch_cfg s' = sch_cfg s" by (fastforce simp: sch_Close_def Let_def split: if_splits)
qed

lemma read_cfg: "produce_read s data err = Some s' \<Longrightarrow> sch_cfg s' = sch_cfg s"
proof -
  have "sch_cfg (markEOFLocked t) = sch_cfg t" for t by (simp add: markEOFLocked_def set_chunk_def Let_def)
  then show "produce_read s data err = Some s' \<Longrightarrow> sch_cfg s' = sch_cfg s"
    by (auto simp: produce_read_def Let_def split: if_splits option.splits src_error.splits)
qed

lemma lane_op_cfg:
  assumes "sys_inv y" "keeps (y_s y) s'"
    "sch_closed (y_s y) \<Longrightarrow> sch_pending (y_s y) = [] \<Longrightarrow> sch_live (y_s y) = [] \<Longrightarrow> same_but_counters (y_s y) s'"
  shows "sch_cfg s' = sch_cfg (y_s y)"
proof (cases "sch_closed (y_s y)")
  case True
  then show ?thesis using assms(3) sys_closed_empty [OF assms(1)] by (simp add: same_but_counters_def)
next
  case False
  then show ?thesis using assms(1,2) by (simp add: keeps_def quiet_def sys_inv_def open_inv_def)
qed

lemma step_cfg:
  assumes "sch_step y z" "sys_inv y"
  shows "sch_cfg (y_s z) = sch_cfg (y_s y)"
  using assms(1)
proof cases
  case (reserve d res mem)
  then show ?thesis by (cases res) (simp_all add: produce_reserve_def with_s_def Let_def)
next
  case (read data err s')
  then show ?thesis using read_cfg by simp
next
  case (complete c lane s')
  then show ?thesis using complete_cfg by simp
next
  case (close s')
  then show ?thesis using close_cfg by (simp add: with_s_def)
qed (auto simp: with_s_def produce_check_def intro!: lane_op_cfg [OF assms(2)] closed_ops
      next_turn_keeps Wrote_keeps Fail_keeps RetireLane_keeps ReissueBelow_keeps ReissueExpired_keeps)

lemma reachable_cfg:
  assumes "sch_reachable cfg mem y" "mem_holds mem 0"
  shows "sch_cfg (y_s y) = applyDefaults cfg"
  using assms(1)
proof induction
  case (step y z)
  then show ?case using step_cfg reachable_sys assms(2) by metis
qed (simp add: sch_New_def)

text \<open>A script of events, run by the functions of the steps: what it reaches is reachable.\<close>

datatype sch_event =
    EReserve
  | ERead bytes "src_error option"
  | ENext sch_env nat int
  | EWrote nat chunk
  | EFail nat chunk
  | EComplete nat chunk
  | EClose

fun sch_do :: "sch_event \<Rightarrow> sch_sys \<Rightarrow> sch_sys option" where
  "sch_do EReserve y =
     (case acquire_begin (sch_memory (y_s y)) (ChunkSize (sch_cfg (y_s y))) False of (res, mem) \<Rightarrow>
        if sch_producer (y_s y) = Producing \<and> res = Acquired then Some (with_s y (produce_reserve (y_s y) (res, mem))) else None)"
| "sch_do (ERead data err) y =
     (if sch_producer (y_s y) = Holding \<and> int (length data) \<le> ChunkSize (sch_cfg (y_s y)) \<and> err \<noteq> Some SrcErrMemory
      then map_option (\<lambda>s'. y\<lparr>y_s := s', y_src := (if sch_closed (y_s y) then y_src y else y_src y @ data)\<rparr>) (produce_read (y_s y) data err)
      else None)"
| "sch_do (ENext e lane w) y = Some (with_s y (snd (next_turn e (y_s y) lane w False)))"
| "sch_do (EWrote lane c) y = Some (with_s y (Wrote (y_s y) lane (Some c)))"
| "sch_do (EFail lane c) y = Some (with_s y (Fail (y_s y) lane (Some c)))"
| "sch_do (EComplete lane c) y =
     (if cOffset c \<in> cOffset ` set (sch_heap (y_s y))
      then map_option (\<lambda>s'. y\<lparr>y_s := s', y_done := insert (cOffset c) (y_done y)\<rparr>) (Complete (y_s y) lane (Some c)) else None)"
| "sch_do EClose y = map_option (with_s y) (sch_Close (y_s y))"

fun sch_run :: "sch_event list \<Rightarrow> sch_sys \<Rightarrow> sch_sys option" where
  "sch_run [] y = Some y"
| "sch_run (v # vs) y = (case sch_do v y of None \<Rightarrow> None | Some z \<Rightarrow> sch_run vs z)"

lemma sch_do_step:
  assumes "sch_do v y = Some z"
  shows "sch_step y z"
proof (cases v)
  case (ERead data err)
  obtain s' where "sch_producer (y_s y) = Holding" "int (length data) \<le> ChunkSize (sch_cfg (y_s y))" "err \<noteq> Some SrcErrMemory"
    "produce_read (y_s y) data err = Some s'" "z = y\<lparr>y_s := s', y_src := (if sch_closed (y_s y) then y_src y else y_src y @ data)\<rparr>"
    using assms ERead by (simp split: if_splits) blast+
  then show ?thesis using sch_step.read by blast
qed (use assms in \<open>auto split: if_splits prod.splits intro: sch_step.intros\<close>)

lemma sch_run_reachable: "sch_reachable cfg mem y \<Longrightarrow> sch_run vs y = Some z \<Longrightarrow> sch_reachable cfg mem z"
proof (induction vs arbitrary: y)
  case (Cons v vs)
  then obtain x where "sch_do v y = Some x" "sch_run vs x = Some z" by (auto split: option.splits)
  then show ?case using Cons.IH sch_reachable.step [OF Cons.prems(1) sch_do_step] by blast
qed simp

definition sch_start :: "sch_config \<Rightarrow> budget option \<Rightarrow> sch_sys" where
  "sch_start cfg mem = \<lparr>y_s = sch_New cfg mem, y_src = [], y_done = {}\<rparr>"

lemmas sch_script_reachable = sch_run_reachable [OF sch_reachable.start, folded sch_start_def]

text \<open>
  Two runs used as examples. \<open>two_lanes_script\<close>: two chunks are read and handed to two lanes, the first is
  written. \<open>misplaced_script\<close>: the first chunk then fails on its lane and the source ends.
\<close>

definition quiet_env :: sch_env where
  "quiet_env = \<lparr>e_Now = 0, e_RetransmitAfter = None, e_Reliable = None, e_Windows = None, e_Retention = None\<rparr>"

definition example_chunk :: "nat \<Rightarrow> nat \<Rightarrow> chunk" where
  "example_chunk off aid = \<lparr>cOffset = off, cData = [], cFinal = False, cUrgent = False, cAttempt = aid, cReservation = 0\<rparr>"

definition two_chunks_script :: "sch_event list" where
  "two_chunks_script = [EReserve, ERead [97, 98] None, EReserve, ERead [99] None]"

definition two_lanes_script :: "sch_event list" where
  "two_lanes_script = two_chunks_script @ [ENext quiet_env 0 0, ENext quiet_env 1 0, EWrote 0 (example_chunk 0 1)]"

definition misplaced_script :: "sch_event list" where
  "misplaced_script = two_lanes_script @ [EFail 0 (example_chunk 0 1), EReserve, ERead [] (Some SrcErrEOF)]"

definition finished_script :: "sch_event list" where
  "finished_script = two_lanes_script @
     [EReserve, ERead [] (Some SrcErrEOF), EComplete 1 (example_chunk 0 1), EComplete 0 (example_chunk 2 2), EComplete 0 (example_chunk 3 0)]"

definition example_sys :: "sch_event list \<Rightarrow> sch_sys" where
  "example_sys vs = the (sch_run vs (sch_start sch_DefaultConfig (mem_new 200000)))"

definition tight_env :: sch_env where
  "tight_env = quiet_env\<lparr>e_Windows := Some \<lparr>w_Total = 3, w_Lane = (\<lambda>_ _. 2), w_Outstanding = None\<rparr>\<rparr>"

definition busy_state :: scheduler where
  "busy_state = y_s (example_sys (two_chunks_script @ [ENext quiet_env 0 0]))"

lemma example_reachable:
  "sch_run vs (sch_start sch_DefaultConfig (mem_new 200000)) \<noteq> None \<Longrightarrow> sch_reachable sch_DefaultConfig (mem_new 200000) (example_sys vs)"
  using sch_script_reachable by (auto simp: example_sys_def)

lemma example_budget: "mem_holds (mem_new 200000) 0"
  by (simp add: mem_holds_def mem_new_def mem_wf_def)

text \<open>What evaluates a script.\<close>

lemmas script_defs = sch_start_def sch_New_def applyDefaults_def sch_DefaultConfig_def mem_new_def acquire_begin_def acquire_turn_def
  take_bytes_def produce_reserve_def with_s_def produce_read_def next_turn_def takeReadyLocked_def hasRoomLocked_def chunk_size_def
  chunk_at_def dispatch_def quiet_env_def next_attempt_id_def add64_def remove_at_def set_chunk_def laneRetransmits_def
  retransmitAfter_def Wrote_def Fail_def dropAttemptLocked_def releaseLaneLocked_def bump_failures_def requeue_if_idle_def requeueLocked_def
  pendingHas_def insert_at_def Complete_def complete_live_def bump_completed_def releaseChunkLocked_def Release_def markEOFLocked_def
  signalIfDoneLocked_def doneLocked_def put_attempts_def releaseQueuedLocked_def laneHasReliableAttempt_def
  example_chunk_def two_chunks_script_def two_lanes_script_def misplaced_script_def finished_script_def example_sys_def tight_env_def busy_state_def Let_def

lemma two_chunks_reachable: "sch_reachable sch_DefaultConfig (mem_new 200000) (example_sys two_chunks_script)"
  by (rule example_reachable) (simp add: script_defs)

lemma two_lanes_reachable: "sch_reachable sch_DefaultConfig (mem_new 200000) (example_sys two_lanes_script)"
  by (rule example_reachable) (simp add: script_defs)

lemma finished_reachable: "sch_reachable sch_DefaultConfig (mem_new 200000) (example_sys finished_script)"
  by (rule example_reachable) (simp add: script_defs)

section \<open>Properties\<close>

text \<open>Every byte in flight is one attempt's charge.\<close>

definition in_flight :: "scheduler \<Rightarrow> (nat \<times> attempt) multiset" where
  "in_flight s = charges (sch_heap s) (sch_live s)"

lemma retained_offsets:
  assumes "retained s = {p. p < length (sch_heap s) \<and> cOffset (sch_heap s ! p) \<notin> dn}"
  shows "(\<lambda>p. cOffset (chunk_at s p)) ` retained s = set (map cOffset (sch_heap s)) - dn"
  unfolding assms by (auto simp: chunk_at_def in_set_conv_nth image_iff) (metis nth_mem)

lemma retained_where:
  assumes "good s" "p \<in> retained s"
  shows "p \<in> set (sch_pending s) \<or> (\<exists>out. map_of (sch_live s) (cOffset (chunk_at s p)) = Some out \<and> oChunk out = p \<and> oAttempts out \<noteq> [])"
proof (cases "p \<in> set (sch_pending s)")
  case False
  then obtain off out where o: "map_of (sch_live s) off = Some out" "oChunk out = p" using assms(2) by (auto simp: retained_def live_refs_def)
  then have "oAttempts out \<noteq> []" using assms(1) False by (auto simp: good_def no_stranded_def idle_ready_def)
  moreover have "cOffset (chunk_at s p) = off" using o core_parts(8) [OF _ o(1)] assms(1) by (simp add: good_def)
  ultimately show ?thesis using o by blast
qed simp

lemma take_scan_first:
  "take_scan e s lane w (p # ps) i = Some i" if "sch_totalBytes s = 0"
    "\<And>out. map_of (sch_live s) (cOffset (chunk_at s p)) = Some out \<Longrightarrow> \<not> laneHasReliableAttempt out lane"
  using that by (auto simp: hasRoomLocked_def split: option.split)

lemma lane_count_attempts:
  assumes "core s" "sch_laneLoad s lane = 0" "map_of (sch_live s) off = Some out"
  shows "\<not> laneHasAttempt out lane"
proof
  assume "laneHasAttempt out lane"
  then obtain a where a: "a \<in> set (oAttempts out)" "aLane a = lane" by (auto simp: laneHasAttempt_def)
  note cp = core_parts [OF assms(1)]
  have "(csz (sch_heap s) (oChunk out), a) \<in># charges (sch_heap s) (sch_live s)"
    using a(1) charges_delete [OF cp(3) assms(3), of "sch_heap s"] by (auto simp: charged_def)
  then obtain M where "charges (sch_heap s) (sch_live s) = add_mset (csz (sch_heap s) (oChunk out), a) M" by (metis multi_member_split)
  then show False using cp(2) assms(2) a(2) by (simp add: accounted_def lane_count_def)
qed

lemma reserved_zero: "shut s \<Longrightarrow> reserved s = 0"
proof -
  have "\<forall>n \<in> set ns. n = 0 \<Longrightarrow> sum_list ns = 0" for ns :: "int list" by (induction ns) auto
  then show "shut s \<Longrightarrow> reserved s = 0" by (simp add: shut_def reserved_def)
qed

lemma retained_none:
  assumes "retained s = {p. p < length (sch_heap s) \<and> cOffset (sch_heap s ! p) \<notin> dn}"
  shows "retained s = {} \<longleftrightarrow> set (map cOffset (sch_heap s)) \<subseteq> dn"
  using retained_offsets [OF assms] by auto

text \<open>In every reachable state of an open scheduler the counters are exact: a lane's load is the number of
  its attempts in flight, its bytes the sum of their sizes, its queued bytes the sum over the attempts
  not yet written, and the total the sum over all lanes; the saturating subtractions lose nothing.
\<close>

theorem scheduler_accounting_exact:
  assumes "sch_reachable cfg mem y" "mem_holds mem 0" "\<not> sch_closed (y_s y)"
  shows "LaneOutstanding (y_s y) lane =
      (lane_count (in_flight (y_s y)) lane, lane_sum (in_flight (y_s y)) lane, lane_queue (in_flight (y_s y)) lane) \<and>
    sch_Pending (y_s y) = (length (sch_pending (y_s y)), all_sum (in_flight (y_s y)))"
proof -
  have "accounted (y_s y) (in_flight (y_s y))"
    using reachable_open(1) [OF assms] by (simp add: good_def core_def in_flight_def)
  then show ?thesis by (simp add: accounted_def LaneOutstanding_def sch_Pending_def)
qed

theorem scheduler_accounting_exact_witness:
  "LaneOutstanding (y_s (example_sys two_lanes_script)) 0 =
      (lane_count (in_flight (y_s (example_sys two_lanes_script))) 0, lane_sum (in_flight (y_s (example_sys two_lanes_script))) 0,
       lane_queue (in_flight (y_s (example_sys two_lanes_script))) 0) \<and>
    LaneOutstanding (y_s (example_sys two_lanes_script)) 0 = (1, 2, 0) \<and>
    LaneOutstanding (y_s (example_sys two_lanes_script)) 1 = (1, 1, 1)"
proof -
  have c: "\<not> sch_closed (y_s (example_sys two_lanes_script))" by (simp add: script_defs held_bytes_def reserved_def chunk_End_def)
  have v: "LaneOutstanding (y_s (example_sys two_lanes_script)) 0 = (1, 2, 0)"
    "LaneOutstanding (y_s (example_sys two_lanes_script)) 1 = (1, 1, 1)" by (simp_all add: script_defs LaneOutstanding_def held_bytes_def reserved_def)
  show ?thesis using scheduler_accounting_exact [OF two_lanes_reachable example_budget c, of 0] v by blast
qed

text \<open>C9: no chunk is lost and none is kept after it completed. In every reachable state of an open
  scheduler the chunks tile the bytes read from the source, the scheduler holds exactly those whose
  offset was not completed, and each of these is in the ready list or has an attempt in flight.
\<close>

theorem no_chunk_lost:
  assumes "sch_reachable cfg mem y" "mem_holds mem 0" "\<not> sch_closed (y_s y)"
  shows "tiled (sch_heap (y_s y)) (y_src y) \<and>
    (\<lambda>p. cOffset (chunk_at (y_s y) p)) ` retained (y_s y) = set (map cOffset (sch_heap (y_s y))) - y_done y \<and>
    (\<forall>p \<in> retained (y_s y). p \<in> set (sch_pending (y_s y)) \<or>
       (\<exists>out. map_of (sch_live (y_s y)) (cOffset (chunk_at (y_s y) p)) = Some out \<and> oChunk out = p \<and> oAttempts out \<noteq> []))"
proof -
  note ro = reachable_open [OF assms]
  have "retained (y_s y) = {p. p < length (sch_heap (y_s y)) \<and> cOffset (sch_heap (y_s y) ! p) \<notin> y_done y}"
    using ro(2) by (simp add: open_inv_def)
  then show ?thesis using retained_offsets retained_where [OF ro(1)] ro(4) unfolding src_inv_def by blast
qed

theorem no_chunk_lost_witness:
  "tiled (sch_heap (y_s (example_sys two_lanes_script))) (y_src (example_sys two_lanes_script)) \<and>
   y_src (example_sys two_lanes_script) = [97, 98, 99] \<and> sch_pending (y_s (example_sys two_lanes_script)) = []"
proof -
  have c: "\<not> sch_closed (y_s (example_sys two_lanes_script))" by (simp add: script_defs held_bytes_def reserved_def chunk_End_def)
  have v: "y_src (example_sys two_lanes_script) = [97, 98, 99]" "sch_pending (y_s (example_sys two_lanes_script)) = []" by (simp_all add: script_defs LaneOutstanding_def held_bytes_def reserved_def)
  show ?thesis using no_chunk_lost [OF two_lanes_reachable example_budget c] v by blast
qed

text \<open>C10: \<open>Done\<close> is closed exactly at the end. When the scheduler has signalled, the producer has returned
  and every chunk of the source is completed; conversely, once the producer of an open scheduler has
  returned, other than for want of memory, and every chunk is completed, it has signalled.
\<close>

theorem done_means_delivered:
  assumes "sch_reachable cfg mem y" "mem_holds mem 0"
  shows "(sch_finished (y_s y) \<longrightarrow> sch_producer (y_s y) = Returned \<and> set (map cOffset (sch_heap (y_s y))) = y_done y \<and>
      concat (map cData (sch_heap (y_s y))) = y_src y) \<and>
    (\<not> sch_closed (y_s y) \<and> sch_producer (y_s y) = Returned \<and> sch_srcErr (y_s y) \<noteq> Some SrcErrMemory \<and>
      set (map cOffset (sch_heap (y_s y))) \<subseteq> y_done y \<longrightarrow> sch_finished (y_s y))"
proof -
  have inv: "sys_inv y" by (rule reachable_sys [OF assms])
  then have a: "sch_finished (y_s y) \<longrightarrow> sch_producer (y_s y) = Returned \<and> set (map cOffset (sch_heap (y_s y))) = y_done y \<and>
      concat (map cData (sch_heap (y_s y))) = y_src y"
    by (auto simp: sys_inv_def src_inv_def tiled_def)
  have "sch_finished (y_s y)" if "\<not> sch_closed (y_s y)" "sch_producer (y_s y) = Returned" "sch_srcErr (y_s y) \<noteq> Some SrcErrMemory"
    "set (map cOffset (sch_heap (y_s y))) \<subseteq> y_done y"
  proof -
    have op: "open_inv y" using inv that(1) by (simp add: sys_inv_def)
    then have "retained (y_s y) = {}" using retained_none [of "y_s y" "y_done y"] that(4) by (simp add: open_inv_def)
    then show ?thesis using op that(2,3) by (simp add: open_inv_def)
  qed
  then show ?thesis using a by blast
qed

theorem done_means_delivered_witness:
  "sch_finished (y_s (example_sys finished_script)) \<and>
   concat (map cData (sch_heap (y_s (example_sys finished_script)))) = y_src (example_sys finished_script) \<and>
   \<not> sch_finished (y_s (example_sys two_lanes_script))"
proof -
  have v: "sch_finished (y_s (example_sys finished_script))" "\<not> sch_finished (y_s (example_sys two_lanes_script))" by (simp_all add: script_defs LaneOutstanding_def held_bytes_def reserved_def)
  show ?thesis using done_means_delivered [OF finished_reachable example_budget] v by blast
qed

text \<open>The scheduler's calls on the shared budget never panic, and closing gives everything back. In every
  reachable state the budget still owes what the scheduler holds; a read that returns, the completion of
  any chunk and \<open>Close\<close> end without a panic; after \<open>Close\<close> no chunk holds a reservation.
\<close>

theorem scheduler_memory_exact:
  assumes "sch_reachable cfg mem y" "mem_holds mem 0"
  shows "mem_holds (sch_memory (y_s y)) (held_bytes (y_s y)) \<and>
    (sch_producer (y_s y) = Holding \<longrightarrow> produce_read (y_s y) data err \<noteq> None) \<and>
    (cOffset c \<in> cOffset ` set (sch_heap (y_s y)) \<longrightarrow> Complete (y_s y) lane (Some c) \<noteq> None) \<and>
    (\<exists>s'. sch_Close (y_s y) = Some s' \<and> reserved s' = 0 \<and> sch_pending s' = [] \<and> sch_live s' = [])"
proof -
  have inv: "sys_inv y" by (rule reachable_sys [OF assms])
  obtain s' where s': "sch_Close (y_s y) = Some s'" "sys_inv (with_s y s')" "sch_closed s'" by (rule close_sys [OF inv])
  then have z: "shut s'" by (simp add: sys_inv_def with_s_def)
  then have "reserved s' = 0" by (simp add: reserved_zero)
  then have "\<exists>s'. sch_Close (y_s y) = Some s' \<and> reserved s' = 0 \<and> sch_pending s' = [] \<and> sch_live s' = []"
    using s'(1) z by (auto simp: shut_def)
  moreover have "mem_holds (sch_memory (y_s y)) (held_bytes (y_s y))" using inv by (simp add: sys_inv_def owed_def)
  moreover have "produce_read (y_s y) data err \<noteq> None" if "sch_producer (y_s y) = Holding"
    using read_sys [OF inv that, of data err] by blast
  moreover have "Complete (y_s y) lane (Some c) \<noteq> None" if "cOffset c \<in> cOffset ` set (sch_heap (y_s y))"
    using complete_sys [OF inv that, of lane] by blast
  ultimately show ?thesis by blast
qed

theorem scheduler_memory_exact_witness:
  "held_bytes (y_s (example_sys two_lanes_script)) = 2 * 65536 \<and>
   mem_holds (sch_memory (y_s (example_sys two_lanes_script))) (2 * 65536) \<and>
   (\<exists>s'. sch_Close (y_s (example_sys two_lanes_script)) = Some s' \<and> reserved s' = 0)"
proof -
  have v: "held_bytes (y_s (example_sys two_lanes_script)) = 2 * 65536" by (simp add: script_defs held_bytes_def reserved_def chunk_End_def)
  show ?thesis
    using scheduler_memory_exact [OF two_lanes_reachable example_budget, where data = "[]" and err = None and c = "example_chunk 0 1" and lane = 0] v
    by auto
qed

text \<open>C11: windows never stall an idle flow. In an open scheduler with nothing in flight, a lane that asks
  while chunks are ready is handed the ready chunk with the lowest offset, whatever its window, the
  flow's budgets and the retransmission policy are; the chunk is then recorded as in flight.
\<close>

theorem idle_flow_progresses:
  assumes "sch_reachable cfg mem y" "mem_holds mem 0" "\<not> sch_closed (y_s y)"
    "sch_pending (y_s y) \<noteq> []" "sch_totalBytes (y_s y) = 0" "sch_laneLoad (y_s y) lane = 0"
  shows "\<exists>c s'. next_turn e (y_s y) lane w False = (NextChunk c, s') \<and>
    (\<exists>p \<in> set (sch_pending (y_s y)). cOffset c = cOffset (chunk_at (y_s y) p) \<and> cData c = cData (chunk_at (y_s y) p)) \<and>
    (\<forall>q \<in> set (sch_pending (y_s y)). cOffset c \<le> cOffset (chunk_at (y_s y) q)) \<and>
    (\<exists>out. map_of (sch_live s') (cOffset c) = Some out \<and> laneHasAttempt out lane)"
proof -
  let ?s = "y_s y"
  have g: "good ?s" by (rule reachable_open [OF assms(1-3)])
  then have cs: "core ?s" by (simp add: good_def)
  note cp = core_parts [OF cs]
  obtain p ps where P: "sch_pending ?s = p # ps" using assms(4) by (cases "sch_pending ?s") auto
  have "\<not> laneHasReliableAttempt out lane" if "map_of (sch_live ?s) (cOffset (chunk_at ?s p)) = Some out" for out
    using lane_count_attempts [OF cs assms(6) that] by (auto simp: laneHasAttempt_def laneHasReliableAttempt_def)
  then have ts: "take_scan e ?s lane w (sch_pending ?s) 0 = Some 0" unfolding P by (rule take_scan_first [OF assms(5)])
  have win: "0 < LaneWindow (sch_cfg ?s)" using reachable_cfg [OF assms(1,2)] applyDefaults_positive(2) by simp
  obtain c s' where d: "dispatch e ?s lane 0 = (c, s')" by (cases "dispatch e ?s lane 0")
  have nt: "next_turn e ?s lane w False = (NextChunk c, s')"
    using assms(3,6) win ts d by (simp add: next_turn_def takeReadyLocked_def)
  have c: "cOffset c = cOffset (chunk_at ?s p)" "cData c = cData (chunk_at ?s p)"
    using d P by (auto simp: dispatch_def Let_def)
  have "cOffset c \<le> cOffset (chunk_at ?s q)" if "q \<in> set (sch_pending ?s)" for q
    using that cp(4,5) offsets_distinct(2) [OF cp(6), of p q] c(1) unfolding P by (auto simp: chunk_at_def less_imp_le)
  moreover have "\<exists>out. map_of (sch_live s') (cOffset c) = Some out \<and> laneHasAttempt out lane"
    using d P c(1) by (auto simp: dispatch_def Let_def set_chunk_def AList.update_conv' laneHasAttempt_def)
  ultimately show ?thesis using nt c P by auto
qed

theorem idle_flow_progresses_witness:
  "\<exists>c s'. next_turn quiet_env (y_s (example_sys two_chunks_script)) 0 1 False = (NextChunk c, s') \<and>
    (\<forall>q \<in> set (sch_pending (y_s (example_sys two_chunks_script))). cOffset c \<le> cOffset (chunk_at (y_s (example_sys two_chunks_script)) q))"
proof -
  have v: "\<not> sch_closed (y_s (example_sys two_chunks_script))" "sch_pending (y_s (example_sys two_chunks_script)) \<noteq> []"
    "sch_totalBytes (y_s (example_sys two_chunks_script)) = 0" "sch_laneLoad (y_s (example_sys two_chunks_script)) 0 = 0"
    by (simp_all add: script_defs LaneOutstanding_def held_bytes_def reserved_def)
  show ?thesis using idle_flow_progresses [OF two_chunks_reachable example_budget v, of quiet_env 1] by blast
qed

text \<open>A chunk that is not urgent is handed out only within the windows. With bytes in flight, the
  flow's total stays within its budget, the lane's outstanding bytes within the lane's budget and, when
  the lane has unwritten bytes, its queue within its own window; urgent chunks alone may exceed them.
\<close>

theorem dispatch_within_windows:
  assumes "take_scan e s lane w (sch_pending s) 0 = Some i" "\<not> cUrgent (chunk_at s (sch_pending s ! i))"
    "sch_totalBytes s \<noteq> 0" "e_Windows e = Some win" "dispatch e s lane i = (c, s')" "cData c \<noteq> []"
  shows "(0 < w_Total win \<longrightarrow> int (sch_totalBytes s') \<le> w_Total win) \<and>
    (\<forall>f. w_Outstanding win = Some f \<and> 0 < f lane (sch_laneBytes s lane) \<longrightarrow> int (sch_laneBytes s' lane) \<le> f lane (sch_laneBytes s lane)) \<and>
    (sch_laneQueued s lane \<noteq> 0 \<and> 0 < w \<longrightarrow> int (sch_laneQueued s' lane) \<le> w) \<and>
    (sch_laneQueued s lane \<noteq> 0 \<and> 0 < w_Lane win lane (sch_laneQueued s lane) \<longrightarrow>
       int (sch_laneQueued s' lane) \<le> w_Lane win lane (sch_laneQueued s lane))"
proof -
  have room: "hasRoomLocked e s lane w (chunk_size s (ps ! (i - k)))"
    if "take_scan e s lane w ps k = Some i" "\<not> cUrgent (chunk_at s (ps ! (i - k)))" for ps k
    using that
  proof (induction ps arbitrary: k)
    case (Cons p ps)
    show ?case
    proof (cases "i = k")
      case True
      have "take_scan e s lane w ps (Suc k) \<noteq> Some k" using take_scan_bound [of e s lane w ps "Suc k" k] by auto
      then show ?thesis using Cons.prems True by (auto split: if_splits)
    next
      case False
      have "take_scan e s lane w ps (Suc k) = Some i" using Cons.prems(1) False by (auto split: if_splits)
      moreover from take_scan_bound [OF this] have "i - k = Suc (i - Suc k)" by linarith
      ultimately show ?thesis using Cons.IH [of "Suc k"] Cons.prems(2) by simp
    qed
  qed simp
  let ?p = "sch_pending s ! i"
  have h: "hasRoomLocked e s lane w (chunk_size s ?p)" using room [OF assms(1)] assms(2) by simp
  have sz: "0 < chunk_size s ?p" using assms(5,6) by (auto simp: dispatch_def Let_def chunk_size_def)
  have f: "sch_totalBytes s' = sch_totalBytes s + chunk_size s ?p" "sch_laneBytes s' lane = sch_laneBytes s lane + chunk_size s ?p"
    "sch_laneQueued s' lane = sch_laneQueued s lane + chunk_size s ?p"
    using assms(5) by (auto simp: dispatch_def Let_def chunk_size_def)
  show ?thesis using h sz assms(3,4) unfolding f hasRoomLocked_def Let_def
    by (auto split: if_splits option.splits)
qed

theorem dispatch_within_windows_witness:
  "int (sch_totalBytes (snd (dispatch tight_env busy_state 1 0))) \<le> 3"
proof -
  have v: "take_scan tight_env busy_state 1 5 (sch_pending busy_state) 0 = Some 0"
    "\<not> cUrgent (chunk_at busy_state (sch_pending busy_state ! 0))" "sch_totalBytes busy_state \<noteq> 0"
    "e_Windows tight_env = Some \<lparr>w_Total = 3, w_Lane = (\<lambda>_ _. 2), w_Outstanding = None\<rparr>"
    "cData (fst (dispatch tight_env busy_state 1 0)) \<noteq> []"
    subgoal by (simp add: script_defs held_bytes_def reserved_def chunk_End_def)
    subgoal by (simp add: script_defs held_bytes_def reserved_def chunk_End_def)
    subgoal by (simp add: script_defs held_bytes_def reserved_def chunk_End_def)
    subgoal by (simp add: tight_env_def)
    subgoal by (simp add: script_defs held_bytes_def reserved_def chunk_End_def)
    done
  show ?thesis using dispatch_within_windows [OF v(1-4) prod.collapse [symmetric] v(5)] by simp
qed

text \<open>The end-of-stream mark can land on a chunk that does not end the stream. When a chunk that failed
  on its lane is the last of the ready list while a later chunk is in flight, \<open>markEOFLocked\<close> marks the
  failed one as final; no chunk at the end of the source carries the mark then.
\<close>

theorem final_mark_misplaced:
  "\<exists>y p. sch_reachable sch_DefaultConfig None y \<and> \<not> sch_closed (y_s y) \<and> sch_eof (y_s y) \<and> sch_srcErr (y_s y) = None \<and>
     p \<in> retained (y_s y) \<and> cFinal (chunk_at (y_s y) p) \<and> chunk_End (chunk_at (y_s y) p) < length (y_src y) \<and>
     filter (\<lambda>c. cFinal c \<and> chunk_End c = length (y_src y)) (sch_heap (y_s y)) = []"
proof -
  define y where "y = the (sch_run misplaced_script (sch_start sch_DefaultConfig None))"
  have "sch_run misplaced_script (sch_start sch_DefaultConfig None) \<noteq> None" by (simp add: script_defs held_bytes_def reserved_def chunk_End_def)
  then have "sch_reachable sch_DefaultConfig None y" using sch_script_reachable [of misplaced_script] by (auto simp: y_def)
  moreover have "\<not> sch_closed (y_s y) \<and> sch_eof (y_s y) \<and> sch_srcErr (y_s y) = None \<and> 0 \<in> set (sch_pending (y_s y)) \<and>
      cFinal (chunk_at (y_s y) 0) \<and> chunk_End (chunk_at (y_s y) 0) < length (y_src y) \<and>
      filter (\<lambda>c. cFinal c \<and> chunk_End c = length (y_src y)) (sch_heap (y_s y)) = []"
    unfolding y_def by (simp add: script_defs held_bytes_def reserved_def chunk_End_def)
  ultimately show ?thesis by (intro exI [of _ y] exI [of _ 0]) (simp add: retained_def)
qed

end
