(* ===== verification/Gf.thy ===== *)
theory Gf
  imports Prelude
begin

text \<open>
  Arithmetic in GF(256), \<^verbatim>\<open>internal/fec/gf.go\<close>: the logarithm tables the package initialiser fills, the
  product and inverse read from them, and the slice operations of the coder. The reference is the
  product of polynomials over GF(2) modulo \<open>x\<^sup>8 + x\<^sup>4 + x\<^sup>3 + x\<^sup>2 + 1\<close>, computed bit by bit (\<open>gf_product\<close>).
  The two agree (\<open>gfMul_product\<close>), so the tables give a field: \<open>gfMul\<close> is associative, commutative,
  distributes over XOR, and \<open>inv\<close> inverts. An array index is a natural number; a table is a list.
\<close>

section \<open>The tables\<close>

definition primitivePolynomial :: int where
  "primitivePolynomial = 0x11d"

text \<open>The step \<^verbatim>\<open>x <<= 1\<close> with the reduction.\<close>

definition gf_shift :: "int \<Rightarrow> int" where
  "gf_shift x = (let x1 = push_bit 1 x in if x1 AND 0x100 \<noteq> 0 then x1 XOR primitivePolynomial else x1)"

fun gf_init_loop :: "nat \<Rightarrow> nat \<Rightarrow> int \<Rightarrow> bytes \<Rightarrow> bytes \<Rightarrow> bytes \<times> bytes" where
  "gf_init_loop 0 i x ex lg = (ex, lg)"
| "gf_init_loop (Suc n) i x ex lg =
     gf_init_loop n (Suc i) (gf_shift x) (ex[i := word_of_int x]) (lg[unat (word_of_int x :: byte) := word_of_nat i])"

definition gf_init :: "bytes \<times> bytes" where
  "gf_init = (let (ex, lg) = gf_init_loop 255 0 1 (replicate 512 0) (replicate 256 0)
     in (foldl (\<lambda>ex i. ex[i := ex ! (i - 255)]) ex [255..<512], lg))"

definition gfExp :: bytes where
  "gfExp = fst gf_init"

definition gfLog :: bytes where
  "gfLog = snd gf_init"

text \<open>One cell of the product table; the rows and columns of zero keep their zeros.\<close>

definition gfMul :: "byte \<Rightarrow> byte \<Rightarrow> byte" where
  "gfMul a b = (if a = 0 \<or> b = 0 then 0 else gfExp ! (unat (gfLog ! unat a) + unat (gfLog ! unat b)))"

definition gf_inv :: "byte \<Rightarrow> byte" where
  "gf_inv a = (if a = 0 then 0 else gfExp ! (255 - unat (gfLog ! unat a)))"

text \<open>
  \<open>mulSliceXor c xs ys\<close> is the new content of \<^verbatim>\<open>out\<close>; \<^verbatim>\<open>in\<close> is at least as long, which every caller
  arranges (a shorter one would panic).
\<close>

definition mulSliceXor :: "byte \<Rightarrow> bytes \<Rightarrow> bytes \<Rightarrow> bytes" where
  "mulSliceXor c xs ys =
     (if c = 0 then ys
      else if c = 1 then map (\<lambda>i. ys ! i XOR xs ! i) [0..<length ys]
      else map (\<lambda>i. ys ! i XOR gfMul c (xs ! i)) [0..<length ys])"

definition addScaled :: "byte \<Rightarrow> bytes \<Rightarrow> bytes \<Rightarrow> bytes" where
  "addScaled c xs ys = (let n = min (length xs) (length ys) in mulSliceXor c (take n xs) (take n ys) @ drop n ys)"

definition scaleBytes :: "byte \<Rightarrow> bytes \<Rightarrow> bytes" where
  "scaleBytes f bs = (if f = 1 then bs else map (gfMul f) bs)"

definition fec_ensure :: "bytes \<Rightarrow> nat \<Rightarrow> bytes" where
  "fec_ensure data len = (if length data \<ge> len then data else data @ replicate (len - length data) 0)"

section \<open>The reference product\<close>

text \<open>Multiplication by the polynomial \<open>x\<close>, on bytes.\<close>

definition xtime :: "byte \<Rightarrow> byte" where
  "xtime a = push_bit 1 a XOR (if bit a 7 then 0x1d else 0)"

fun xmul :: "nat \<Rightarrow> nat \<Rightarrow> byte \<Rightarrow> byte \<Rightarrow> byte" where
  "xmul 0 k a b = 0"
| "xmul (Suc n) k a b = (if bit a k then b else 0) XOR xmul n (Suc k) a (xtime b)"

definition gf_product :: "byte \<Rightarrow> byte \<Rightarrow> byte" where
  "gf_product a b = xmul 8 0 a b"

lemma xtime_xor: "xtime (a XOR b) = xtime a XOR xtime b"
  by (rule bit_word_eqI) (auto simp: xtime_def bit_simps)

lemma xtime_0 [simp]: "xtime 0 = 0"
  by (simp add: xtime_def)

definition xpow :: "nat \<Rightarrow> byte \<Rightarrow> byte" where
  "xpow n = xtime ^^ n"

lemma xpow_simps [simp]: "xpow 0 b = b" "xpow (Suc n) b = xtime (xpow n b)" "xpow n 0 = 0"
  by (simp_all add: xpow_def) (induction n, simp_all)

lemma xpow_numeral: "xpow (numeral k) b = xtime (xpow (pred_numeral k) b)"
  by (simp add: numeral_eq_Suc)

lemma xpow_add: "xpow (m + n) b = xpow m (xpow n b)"
  by (simp add: xpow_def funpow_add)

lemma xpow_xor: "xpow n (a XOR b) = xpow n a XOR xpow n b"
  by (induction n) (simp_all add: xtime_xor)

lemma xpow_xtime: "xpow n (xtime b) = xtime (xpow n b)"
  using xpow_add [of n 1 b] xpow_add [of 1 n b] by simp

lemma xmul_linear: "xmul n k a (b XOR c) = xmul n k a b XOR xmul n k a c"
  by (induction n arbitrary: k b c) (simp_all add: xtime_xor xor.assoc xor.left_commute)

lemma xmul_linear_left: "xmul n k (a XOR a') b = xmul n k a b XOR xmul n k a' b"
  by (induction n arbitrary: k b) (simp_all add: bit_xor_iff xor.assoc xor.left_commute)

lemma xmul_xtime: "xmul n k a (xtime b) = xtime (xmul n k a b)"
  by (induction n arbitrary: k b) (simp_all add: xtime_xor)

lemma product_xor: "gf_product a (b XOR c) = gf_product a b XOR gf_product a c" "gf_product (a XOR b) c = gf_product a c XOR gf_product b c"
  by (simp_all add: gf_product_def xmul_linear xmul_linear_left)

lemma product_xtime_right: "gf_product a (xtime b) = xtime (gf_product a b)"
  by (simp add: gf_product_def xmul_xtime)

lemma product_expand:
  "gf_product a b = (if bit a 0 then b else 0) XOR (if bit a 1 then xpow 1 b else 0) XOR (if bit a 2 then xpow 2 b else 0) XOR
     (if bit a 3 then xpow 3 b else 0) XOR (if bit a 4 then xpow 4 b else 0) XOR (if bit a 5 then xpow 5 b else 0) XOR
     (if bit a 6 then xpow 6 b else 0) XOR (if bit a 7 then xpow 7 b else 0)"
  by (simp add: gf_product_def numeral_eq_Suc)

text \<open>The field polynomial annihilates \<open>x\<close>.\<close>

lemma byte_bits:
  "b = (if bit b 0 then 1 else 0) XOR (if bit b 1 then 2 else 0) XOR (if bit b 2 then 4 else 0) XOR (if bit b 3 then 8 else 0) XOR
     (if bit b 4 then 16 else 0) XOR (if bit b 5 then 32 else 0) XOR (if bit b 6 then 64 else 0) XOR (if bit b 7 then (128 :: byte) else 0)"
proof (rule bit_word_eqI)
  fix n assume "n < LENGTH(8)"
  then have "n \<in> {0, 1, 2, 3, 4, 5, 6, 7}" by auto
  then show "bit b n = bit ((if bit b 0 then 1 else 0) XOR (if bit b 1 then 2 else 0) XOR (if bit b 2 then 4 else 0) XOR (if bit b 3 then 8 else 0) XOR
     (if bit b 4 then 16 else 0) XOR (if bit b 5 then 32 else 0) XOR (if bit b 6 then 64 else 0) XOR (if bit b 7 then (128 :: byte) else 0)) n"
    by (elim insertE emptyE) (simp_all add: bit_xor_iff)
qed

lemma linear_eq:
  assumes f: "\<And>x y. f (x XOR y) = f x XOR f y" and g: "\<And>x y. g (x XOR y) = g x XOR g y"
    and "\<forall>x \<in> {1, 2, 4, 8, 16, 32, 64, 128}. f x = g x"
  shows "f (b :: byte) = (g b :: byte)"
proof -
  have z: "f 0 = 0" "g 0 = 0" using f [of 0 0] g [of 0 0] by simp_all
  have "f (if c then x else 0) = g (if c then x else 0)" if "x \<in> {1, 2, 4, 8, 16, 32, 64, 128}" for c x
    using z assms(3) that by (cases c) auto
  then show ?thesis by (subst (1 2) byte_bits) (simp only: f g insertI1 insertI2)
qed

lemma xpow_8: "xpow 8 b = b XOR xpow 2 b XOR xpow 3 b XOR xpow 4 b"
  by (rule linear_eq [of "xpow 8" "\<lambda>b. b XOR xpow 2 b XOR xpow 3 b XOR xpow 4 b"])
    (simp_all add: xpow_xor xor.assoc xor.left_commute, simp add: xpow_numeral xtime_def)

lemma product_xtime_left: "gf_product (xtime a) b = xtime (gf_product a b)"
proof -
  have p: "gf_product (push_bit 1 a) b = (if bit a 0 then xpow 1 b else 0) XOR (if bit a 1 then xpow 2 b else 0) XOR
     (if bit a 2 then xpow 3 b else 0) XOR (if bit a 3 then xpow 4 b else 0) XOR (if bit a 4 then xpow 5 b else 0) XOR
     (if bit a 5 then xpow 6 b else 0) XOR (if bit a 6 then xpow 7 b else 0)"
  proof -
    have "bit (push_bit 1 a) 0 = False" "bit (push_bit 1 a) 1 = bit a 0" "bit (push_bit 1 a) 2 = bit a 1" "bit (push_bit 1 a) 3 = bit a 2"
      "bit (push_bit 1 a) 4 = bit a 3" "bit (push_bit 1 a) 5 = bit a 4" "bit (push_bit 1 a) 6 = bit a 5" "bit (push_bit 1 a) 7 = bit a 6"
      unfolding bit_push_bit_iff by simp_all
    then show ?thesis unfolding product_expand by (simp only: if_False xor.left_neutral)
  qed
  have r: "gf_product 0x1d b = xpow 8 b" "gf_product 0 b = 0" unfolding xpow_8 product_expand by (simp_all add: xor.assoc)
  have x: "xtime (if c then y else 0) = (if c then xtime y else 0)" for c y by simp
  have n: "xtime b = xpow 1 b" "xtime (xpow 1 b) = xpow 2 b" "xtime (xpow 2 b) = xpow 3 b" "xtime (xpow 3 b) = xpow 4 b"
    "xtime (xpow 4 b) = xpow 5 b" "xtime (xpow 5 b) = xpow 6 b" "xtime (xpow 6 b) = xpow 7 b" "xtime (xpow 7 b) = xpow 8 b"
    by (simp_all add: xpow_numeral)
  have "xtime (gf_product a b) = gf_product (push_bit 1 a) b XOR (if bit a 7 then xpow 8 b else 0)"
    unfolding p product_expand [of a b] xtime_xor x n by (simp only: xor.assoc)
  then show ?thesis unfolding xtime_def [of a] product_xor(2) by (simp add: r)
qed

lemma product_one [simp]: "gf_product 1 b = b"
  unfolding product_expand by (simp add: bit_1_iff)

lemma product_xpow: "gf_product (xpow n 1) b = xpow n b"
  by (induction n) (simp_all add: product_xtime_left)

text \<open>The order of \<open>x\<close>.\<close>

lemma xpow_values: "xpow 15 1 = 38" "xpow 51 1 = 10" "xpow 85 1 = 214" "xpow 255 1 = 1"
  by (simp_all add: xpow_numeral xtime_def)

lemma xpow_255: "xpow 255 b = b"
  using product_xpow [of 255 b] xpow_values(4) by simp


lemma xpow_multiple: "xpow m b = b \<Longrightarrow> xpow (m * k) b = b"
  by (induction k) (simp_all add: xpow_add)

lemma xpow_cancel: "xpow m 1 = xpow n 1 \<Longrightarrow> m \<le> n \<Longrightarrow> xpow (n - m) 1 = 1"
proof -
  assume e: "xpow m 1 = xpow n 1" and l: "m \<le> n"
  have "xpow (255 * m - m) (xpow m 1) = xpow (255 * m - m) (xpow m (xpow (n - m) 1))"
    using e l by (simp flip: xpow_add)
  then have "xpow (255 * m) 1 = xpow (255 * m) (xpow (n - m) 1)" by (simp flip: xpow_add)
  then show ?thesis using xpow_multiple [OF xpow_255] by simp
qed

lemma order_divisor: "d < 255 \<Longrightarrow> d dvd 255 \<Longrightarrow> d dvd 85 \<or> d dvd 51 \<or> d dvd (15 :: nat)"
proof -
  assume "d < 255" "d dvd 255"
  then obtain m where m: "255 = d * m" by (auto elim: dvdE)
  then have "m dvd 255" "m \<noteq> 1" using \<open>d < 255\<close> by (metis dvd_triv_right, auto)
  have "list_all (\<lambda>m. m dvd 255 \<longrightarrow> 3 dvd m \<or> 5 dvd m \<or> 17 dvd m) [2..<256]" by simp
  moreover have "m < 256" "2 \<le> m" using \<open>m dvd 255\<close> \<open>m \<noteq> 1\<close> by (auto dest: dvd_imp_le) (cases m; auto)
  ultimately have "3 dvd m \<or> 5 dvd m \<or> 17 dvd m" using \<open>m dvd 255\<close> \<open>m \<noteq> 1\<close> by (auto simp: list_all_iff simp del: upt_rec_numeral)
  then consider k where "m = 3 * k" | k where "m = 5 * k" | k where "m = 17 * k" by (elim disjE dvdE) blast+
  then show ?thesis
  proof cases
    case 1
    then have "85 = d * k" using m by simp
    then have "d dvd 85" by (rule dvdI)
    then show ?thesis by simp
  next
    case 2
    then have "51 = d * k" using m by simp
    then have "d dvd 51" by (rule dvdI)
    then show ?thesis by simp
  next
    case 3
    then have "15 = d * k" using m by simp
    then have "d dvd 15" by (rule dvdI)
    then show ?thesis by simp
  qed
qed

lemma xpow_order: "0 < d \<Longrightarrow> d < 255 \<Longrightarrow> xpow d 1 \<noteq> 1"
proof
  assume d: "0 < d" "d < 255" and e: "xpow d 1 = 1"
  have "xpow (gcd d 255) 1 = 1"
  proof -
    obtain u v where "gcd d 255 + 255 * v = d * u" using bezout_nat [of d 255] d by (metis add.commute less_irrefl)
    then have "xpow (gcd d 255 + 255 * v) 1 = 1" using xpow_multiple [OF e] by simp
    then show ?thesis using xpow_multiple [OF xpow_255] by (simp add: xpow_add)
  qed
  moreover have "gcd d 255 dvd 85 \<or> gcd d 255 dvd 51 \<or> gcd d 255 dvd 15"
    using d by (intro order_divisor) (auto intro: le_less_trans [OF gcd_le1_nat])
  moreover have "xpow n 1 = 1" if "gcd d 255 dvd n" for n using xpow_multiple [OF \<open>xpow (gcd d 255) 1 = 1\<close>] that by (metis dvd_def)
  ultimately have "xpow 85 1 = 1 \<or> xpow 51 1 = 1 \<or> xpow 15 1 = 1" by blast
  then show False by (simp add: xpow_values)
qed

lemma xpow_inj: "i < 255 \<Longrightarrow> j < 255 \<Longrightarrow> xpow i 1 = xpow j 1 \<longleftrightarrow> i = j"
proof -
  have le: "xpow i 1 = xpow j 1 \<Longrightarrow> i \<le> j \<Longrightarrow> j < 255 \<Longrightarrow> i = j" for i j
    using xpow_cancel [of i j] xpow_order [of "j - i"] by (cases "i = j") auto
  show "i < 255 \<Longrightarrow> j < 255 \<Longrightarrow> xpow i 1 = xpow j 1 \<longleftrightarrow> i = j"
    using le [of i j] le [of j i] by (cases "i \<le> j") auto
qed

lemma xpow_nonzero: "xpow n 1 \<noteq> 0"
proof
  assume z: "xpow n 1 = 0"
  have "xpow (255 * n - n) (xpow n 1) = xpow (255 * n) 1" by (simp flip: xpow_add)
  then show False using z xpow_multiple [OF xpow_255, of n 1] by simp
qed


section \<open>The tables hold the powers and the logarithms\<close>

lemma bit_285: "bit (0x11d :: int) n \<longleftrightarrow> n \<in> {0, 2, 3, 4, 8}"
proof (cases "n < 9")
  case True
  then have "n \<in> {0, 1, 2, 3, 4, 5, 6, 7, 8}" by auto
  then show ?thesis by (elim insertE emptyE) simp_all
next
  case False
  have "0x11d = take_bit 9 (0x11d :: int)" by simp
  then have "bit (0x11d :: int) n \<longleftrightarrow> bit (take_bit 9 (0x11d :: int)) n" by (rule arg_cong)
  then show ?thesis using False by (simp only: bit_take_bit_iff) auto
qed

lemma bit_29: "bit (0x1d :: byte) n \<longleftrightarrow> n \<in> {0, 2, 3, 4}"
proof (cases "n < 8")
  case True
  then have "n \<in> {0, 1, 2, 3, 4, 5, 6, 7}" by auto
  then show ?thesis by (elim insertE emptyE) simp_all
qed (auto dest: bit_imp_le_length)

lemma gf_shift_xtime: "gf_shift (uint a) = uint (xtime a)"
proof -
  have "uint (xtime a) = (if bit a 7 then push_bit 1 (uint a) XOR 0x11d else push_bit 1 (uint a))"
  proof (rule bit_eqI)
    fix n
    have l: "bit (uint (xtime a)) n \<longleftrightarrow> n < 8 \<and> (1 \<le> n \<and> bit a (n - 1)) \<noteq> (bit a 7 \<and> n \<in> {0, 2, 3, 4})"
      unfolding xtime_def bit_uint_iff bit_xor_iff bit_push_bit_iff if_distrib [of "\<lambda>x. bit x n"] bit_29 by auto
    have r: "bit (if bit a 7 then push_bit 1 (uint a) XOR 0x11d else push_bit 1 (uint a)) n \<longleftrightarrow>
        (1 \<le> n \<and> n - 1 < 8 \<and> bit a (n - 1)) \<noteq> (bit a 7 \<and> n \<in> {0, 2, 3, 4, 8})"
      unfolding if_distrib [of "\<lambda>x. bit x n"] bit_xor_iff bit_push_bit_iff bit_285 bit_uint_iff by simp
    consider "n < 8" | "n = 8" | "8 < n" by linarith
    then have "(n < 8 \<and> (1 \<le> n \<and> bit a (n - 1)) \<noteq> (bit a 7 \<and> n \<in> {0, 2, 3, 4})) \<longleftrightarrow>
        (1 \<le> n \<and> n - 1 < 8 \<and> bit a (n - 1)) \<noteq> (bit a 7 \<and> n \<in> {0, 2, 3, 4, 8})"
    proof cases
      case 1
      then have "n - 1 < 8" "n \<noteq> 8" by simp_all
      then show ?thesis using 1 by simp
    next
      case 3
      then have "\<not> n - 1 < 8" "\<not> n < 8" "n \<noteq> 8" by linarith+
      then show ?thesis using 3 by simp
    qed simp_all
    then show "bit (uint (xtime a)) n = bit (if bit a 7 then push_bit 1 (uint a) XOR 0x11d else push_bit 1 (uint a)) n"
      unfolding l r .
  qed
  moreover have "push_bit 1 (uint a) AND 0x100 \<noteq> 0 \<longleftrightarrow> bit a 7"
  proof -
    have "push_bit 1 (uint a) AND 2 ^ 8 \<noteq> 0 \<longleftrightarrow> bit (push_bit 1 (uint a)) 8"
      using bit_iff_and_push_bit_not_eq_0 [of "push_bit 1 (uint a)" 8] by (simp only: push_bit_eq_mult mult_1)
    also have "\<dots> \<longleftrightarrow> bit a 7" unfolding bit_push_bit_iff bit_uint_iff by simp
    finally show ?thesis by simp
  qed
  ultimately show ?thesis unfolding gf_shift_def primitivePolynomial_def Let_def by presburger
qed

lemma init_loop:
  assumes "i + n \<le> 255" "length ex = 512" "length lg = 256"
    "\<forall>j < i. ex ! j = xpow j 1" "\<forall>j < i. lg ! unat (xpow j 1) = word_of_nat j"
  shows "case gf_init_loop n i (uint (xpow i 1)) ex lg of (ex', lg') \<Rightarrow> length ex' = 512 \<and> length lg' = 256 \<and>
     (\<forall>j < i + n. ex' ! j = xpow j 1) \<and> (\<forall>j < i + n. lg' ! unat (xpow j 1) = word_of_nat j)"
  using assms
proof (induction n arbitrary: i ex lg)
  case (Suc n)
  let ?b = "xpow i 1"
  have b: "unat ?b < 256" using unsigned_less [of ?b] by simp
  have i: "word_of_int (uint ?b) = ?b" by simp
  have "\<forall>j < Suc i. (ex[i := ?b]) ! j = xpow j 1" using Suc.prems by (auto simp: nth_list_update less_Suc_eq)
  moreover have "\<forall>j < Suc i. (lg[unat ?b := word_of_nat i]) ! unat (xpow j 1) = word_of_nat j"
  proof (intro allI impI)
    fix j assume j: "j < Suc i"
    have "unat (xpow j 1) = unat ?b \<longleftrightarrow> j = i" using xpow_inj [of j i] Suc.prems(1) j word_unat_eq_iff [of "xpow j 1" ?b] by auto
    then show "(lg[unat ?b := word_of_nat i]) ! unat (xpow j 1) = word_of_nat j"
      using Suc.prems(3,5) b j by (cases "j = i") (simp_all add: nth_list_update less_Suc_eq)
  qed
  ultimately show ?case
    using Suc.IH [of "Suc i" "ex[i := ?b]" "lg[unat ?b := word_of_nat i]"] Suc.prems by (simp add: gf_shift_xtime)
qed simp

lemma copy_loop:
  assumes "length ex = 512" "\<forall>j < 255. ex ! j = xpow j 1" "k \<le> 257"
  shows "let ex' = foldl (\<lambda>ex i. ex[i := ex ! (i - 255)]) ex [255..<255 + k] in length ex' = 512 \<and> (\<forall>j < 255 + k. ex' ! j = xpow j 1)"
  using assms(3)
proof (induction k)
  case 0
  then show ?case using assms by simp
next
  case (Suc k)
  let ?e = "foldl (\<lambda>ex i. ex[i := ex ! (i - 255)]) ex [255..<255 + k]"
  have l: "length ?e = 512" "\<forall>j < 255 + k. ?e ! j = xpow j 1" using Suc by (simp_all add: Let_def)
  have "xpow (255 + k) 1 = xpow k 1" by (simp add: xpow_add xpow_255)
  then have "\<forall>j < 255 + Suc k. (?e[255 + k := ?e ! k]) ! j = xpow j 1" using l Suc.prems by (auto simp: nth_list_update less_Suc_eq)
  moreover have u: "[255..<255 + Suc k] = [255..<255 + k] @ [255 + k]" by (metis add_Suc_right le_add1 upt_Suc_append)
  ultimately show ?case using l unfolding u by (simp add: Let_def)
qed

lemma gfExp_xpow: "j < 512 \<Longrightarrow> gfExp ! j = xpow j 1"
  and gfLog_xpow: "j < 255 \<Longrightarrow> gfLog ! unat (xpow j 1) = word_of_nat j"
proof -
  obtain ex lg where t: "gf_init_loop 255 0 1 (replicate 512 0) (replicate 256 0) = (ex, lg)" by (cases "gf_init_loop 255 0 1 (replicate 512 0) (replicate 256 0)")
  then have l: "length ex = 512" "\<forall>j < 255. ex ! j = xpow j 1" "\<forall>j < 255. lg ! unat (xpow j 1) = word_of_nat j"
    using init_loop [of 0 255 "replicate 512 0" "replicate 256 0"] by simp_all
  show "j < 512 \<Longrightarrow> gfExp ! j = xpow j 1"
    using copy_loop [OF l(1,2), of 257] by (simp add: gfExp_def gf_init_def t Let_def del: upt_rec_numeral)
  show "j < 255 \<Longrightarrow> gfLog ! unat (xpow j 1) = word_of_nat j" using l(3) by (simp add: gfLog_def gf_init_def t Let_def del: upt_rec_numeral)
qed

text \<open>Every byte but zero is a power of \<open>x\<close>.\<close>

lemma powers_all: "a \<noteq> 0 \<Longrightarrow> \<exists>i < 255. a = xpow i 1"
proof -
  have "card ((\<lambda>i. xpow i 1) ` {..<255}) = 255" by (subst card_image) (auto simp: inj_on_def xpow_inj)
  moreover have "(\<lambda>i. xpow i 1) ` {..<255} \<subseteq> UNIV - {0}" using xpow_nonzero by auto
  moreover have "card (UNIV - {0 :: byte}) = 255" by (simp add: card_Diff_subset card_word)
  ultimately have "(\<lambda>i. xpow i 1) ` {..<255} = UNIV - {0}" by (metis card_subset_eq finite)
  then show "a \<noteq> 0 \<Longrightarrow> \<exists>i < 255. a = xpow i 1" by auto
qed

lemma gfMul_xpow: "i < 255 \<Longrightarrow> j < 255 \<Longrightarrow> gfMul (xpow i 1) (xpow j 1) = xpow (i + j) 1"
  using xpow_nonzero by (simp add: gfMul_def gfLog_xpow gfExp_xpow unat_of_nat)

lemma product_zero [simp]: "gf_product 0 b = 0" "gf_product a 0 = 0"
  using product_xor(2) [of 0 0 b] product_xor(1) [of a 0 0] by simp_all

lemma gfMul_product: "gfMul a b = gf_product a b"
proof (cases "a = 0 \<or> b = 0")
  case True
  then show ?thesis by (auto simp: gfMul_def)
next
  case False
  then obtain i j where "i < 255" "a = xpow i 1" "j < 255" "b = xpow j 1" using powers_all by metis
  then show ?thesis by (simp add: gfMul_xpow product_xpow xpow_add)
qed

lemma gfMul_assoc: "gfMul (gfMul a b) c = gfMul a (gfMul b c)"
proof (cases "a = 0 \<or> b = 0")
  case False
  then obtain i j where "i < 255" "a = xpow i 1" "j < 255" "b = xpow j 1" using powers_all by metis
  then have "gfMul a b = xpow (i + j) 1" by (simp add: gfMul_xpow)
  then have "gfMul (gfMul a b) c = xpow (i + j) c" by (simp only: gfMul_product product_xpow)
  then show ?thesis using \<open>a = xpow i 1\<close> \<open>b = xpow j 1\<close> by (simp add: gfMul_product product_xpow xpow_add)
qed (auto simp: gfMul_product)

lemma gfMul_comm: "gfMul a b = gfMul b a"
  by (simp add: gfMul_def add.commute disj_commute)

lemma gfMul_simps [simp]: "gfMul 0 b = 0" "gfMul a 0 = 0" "gfMul 1 b = b" "gfMul a 1 = a"
  using gfMul_comm [of a 1] by (simp_all add: gfMul_product)

lemma gfMul_xor: "gfMul a (b XOR c) = gfMul a b XOR gfMul a c" "gfMul (a XOR b) c = gfMul a c XOR gfMul b c"
  by (simp_all add: gfMul_product product_xor)

lemma gf_inv_mul: "a \<noteq> 0 \<Longrightarrow> gfMul (gf_inv a) a = 1"
proof -
  assume a: "a \<noteq> 0"
  then obtain i where i: "i < 255" "a = xpow i 1" using powers_all by metis
  then have "gf_inv a = xpow (255 - i) 1" using a by (simp add: gf_inv_def gfLog_xpow gfExp_xpow unat_of_nat)
  then show ?thesis using i by (simp add: gfMul_product product_xpow flip: xpow_add) (simp add: xpow_255)
qed

lemma gfMul_eq_0: "gfMul a b = 0 \<longleftrightarrow> a = 0 \<or> b = 0"
proof -
  have "b = 0" if "a \<noteq> 0" "gfMul a b = 0"
    using gfMul_assoc [of "gf_inv a" a b] that by (simp add: gf_inv_mul)
  then show ?thesis by auto
qed


section \<open>The interface of the coder's field\<close>

text \<open>
  What the encoder and the decoder rely on: the products of a commutative field whose addition is XOR.
  \<open>gsum\<close> is the sum of a list of terms.
\<close>

locale byte_field =
  fixes mul :: "byte \<Rightarrow> byte \<Rightarrow> byte" and inverse :: "byte \<Rightarrow> byte"
  assumes mul_assoc: "mul (mul a b) c = mul a (mul b c)"
    and mul_comm: "mul a b = mul b a"
    and mul_one: "mul 1 a = a"
    and mul_xor: "mul a (b XOR c) = mul a b XOR mul a c"
    and mul_inverse: "a \<noteq> 0 \<Longrightarrow> mul (inverse a) a = 1"
begin

lemma mul_zero: "mul a 0 = 0" "mul 0 a = 0"
  using mul_xor [of a 0 0] mul_comm [of 0 a] by simp_all

lemma xor_mul: "mul (a XOR b) c = mul a c XOR mul b c"
  using mul_xor [of c a b] by (simp add: mul_comm)

lemma mul_cancel: "a \<noteq> 0 \<Longrightarrow> mul a b = mul a c \<longleftrightarrow> b = c"
  by (metis mul_assoc mul_inverse mul_one)

lemma mul_eq_zero: "mul a b = 0 \<longleftrightarrow> a = 0 \<or> b = 0"
  by (metis mul_cancel mul_zero)

fun gsum :: "('e \<Rightarrow> byte) \<Rightarrow> 'e list \<Rightarrow> byte" where
  "gsum f [] = 0"
| "gsum f (x # xs) = f x XOR gsum f xs"

lemma gsum_append: "gsum f (xs @ ys) = gsum f xs XOR gsum f ys"
  by (induction xs) (simp_all add: xor.assoc)

lemma gsum_xor: "gsum (\<lambda>x. f x XOR g x) xs = gsum f xs XOR gsum g xs"
  by (induction xs) (simp_all add: xor.assoc xor.left_commute)

lemma gsum_mul: "gsum (\<lambda>x. mul c (f x)) xs = mul c (gsum f xs)"
  by (induction xs) (simp_all add: mul_xor mul_zero)

lemma gsum_cong: "(\<And>x. x \<in> set xs \<Longrightarrow> f x = g x) \<Longrightarrow> gsum f xs = gsum g xs"
  by (induction xs) simp_all

lemma gsum_zero: "(\<And>x. x \<in> set xs \<Longrightarrow> f x = 0) \<Longrightarrow> gsum f xs = 0"
  by (induction xs) simp_all

lemma gsum_single: "distinct xs \<Longrightarrow> e \<in> set xs \<Longrightarrow> (\<And>x. x \<in> set xs \<Longrightarrow> x \<noteq> e \<Longrightarrow> f x = 0) \<Longrightarrow> gsum f xs = f e"
proof (induction xs)
  case (Cons x xs)
  show ?case
  proof (cases "x = e")
    case True
    have "gsum f xs = 0" by (rule gsum_zero) (use Cons True in auto)
    then show ?thesis using True by simp
  next
    case False
    then show ?thesis using Cons by auto
  qed
qed simp

text \<open>Replacing the factor of one term.\<close>

lemma gsum_drop:
  assumes "distinct xs" "e \<in> set xs" "\<And>x. x \<in> set xs \<Longrightarrow> x \<noteq> e \<Longrightarrow> g x = f x" "g e = 0"
  shows "gsum g xs = gsum f xs XOR f e"
proof -
  have "gsum (\<lambda>x. f x XOR g x) xs = f e" using gsum_single [of xs e "\<lambda>x. f x XOR g x"] assms by simp
  then have x: "gsum f xs XOR gsum g xs = f e" by (simp only: gsum_xor)
  have "gsum g xs = gsum f xs XOR (gsum f xs XOR gsum g xs)" by (simp flip: xor.assoc)
  then show ?thesis unfolding x .
qed

end

interpretation gf: byte_field gfMul gf_inv
  by unfold_locales (simp_all add: gfMul_assoc gfMul_xor gf_inv_mul, rule gfMul_comm)

section \<open>Slices as vectors padded with zeros\<close>

definition pad :: "bytes \<Rightarrow> nat \<Rightarrow> byte" where
  "pad v j = (if j < length v then v ! j else 0)"

lemma pad_simps [simp]: "pad [] j = 0" "pad (replicate n 0) j = 0" "pad (v @ replicate n 0) j = pad v j"
  by (auto simp: pad_def nth_append)

lemma length_mulSliceXor [simp]: "length (mulSliceXor c xs ys) = length ys"
  by (simp add: mulSliceXor_def)

lemma nth_mulSliceXor: "length ys \<le> length xs \<Longrightarrow> i < length ys \<Longrightarrow> mulSliceXor c xs ys ! i = ys ! i XOR gfMul c (xs ! i)"
  by (simp add: mulSliceXor_def)

lemma length_addScaled [simp]: "length (addScaled c xs ys) = length ys"
  by (simp add: addScaled_def Let_def)

lemma pad_addScaled: "length xs \<le> length ys \<Longrightarrow> pad (addScaled c xs ys) j = pad ys j XOR gfMul c (pad xs j)"
  by (auto simp: addScaled_def pad_def Let_def nth_append nth_mulSliceXor)

lemma length_ensure: "length (fec_ensure d n) = max (length d) n"
  by (simp add: fec_ensure_def)

lemma pad_ensure [simp]: "pad (fec_ensure d n) j = pad d j"
  by (simp add: fec_ensure_def)

lemma pad_add_ensure: "pad (addScaled c xs (fec_ensure ys (length xs))) j = pad ys j XOR gfMul c (pad xs j)"
  by (simp add: pad_addScaled length_ensure)

lemma length_scaleBytes [simp]: "length (scaleBytes f bs) = length bs"
  by (simp add: scaleBytes_def)

lemma nth_scaleBytes: "i < length bs \<Longrightarrow> scaleBytes f bs ! i = gfMul f (bs ! i)"
  by (simp add: scaleBytes_def)

lemma pad_scaleBytes: "pad (scaleBytes f bs) j = gfMul f (pad bs j)"
  by (simp add: pad_def nth_scaleBytes)

text \<open>The product table is multiplication in GF(256): \<open>gfMul\<close>, computed by adding logarithms, is the
  product of polynomials modulo \<open>x\<^sup>8 + x\<^sup>4 + x\<^sup>3 + x\<^sup>2 + 1\<close>, and \<open>inv\<close> gives the inverse of every byte but
  zero, for which it returns zero.\<close>

theorem gf_tables_correct: "gfMul a b = gf_product a b \<and> gfMul (gf_inv a) a = (if a = 0 then 0 else 1)"
  by (simp add: gfMul_product [symmetric] gf_inv_mul)

end
