(* ===== verification/FecWindow.thy ===== *)
theory FecWindow
  imports Gf
begin

text \<open>
  The sliding-window erasure code of \<^verbatim>\<open>internal/fec/window.go\<close>: the encoder's ring of source symbols and
  the repairs it builds, the decoder's window of slots and its linear system. Identifiers are 32-bit
  words compared by wrapping subtraction, as in the code; the ring, the slots and the coefficient rows
  are lists indexed by the low bits of the identifier. The owned and copying variants of an operation
  differ only in who may reuse a buffer and are one definition. An operation of the decoder returns the
  new decoder and the \<^verbatim>\<open>Delivery\<close>.
\<close>

section \<open>Parameters and coefficients\<close>

definition MaxShards :: nat where "MaxShards = 256"

definition MaxRepairWindow :: nat where "MaxRepairWindow = MaxShards"

definition MinDecoderWidth :: nat where "MinDecoderWidth = 2 * MaxRepairWindow"

record RepairSymbol =
  RID :: u32
  First :: u32
  Count :: int
  Vector :: bytes

record Delivery =
  Recovered :: "(u32 \<times> bytes) list"
  Lost :: "u32 list"

definition no_delivery :: Delivery where
  "no_delivery = \<lparr>Recovered = [], Lost = []\<rparr>"

definition windowCoefficient :: "u32 \<Rightarrow> nat \<Rightarrow> byte" where
  "windowCoefficient rid index =
     (let x = rid * 2654435761 + word_of_nat index * 2246822519;
          x = x XOR drop_bit 15 x;
          x = x * 2654435761;
          x = x XOR drop_bit 13 x;
          x = x * 2246822519;
          x = x XOR drop_bit 16 x
      in ucast (x mod 255) + 1)"

definition WindowCoefficients :: "u32 \<Rightarrow> int \<Rightarrow> bytes" where
  "WindowCoefficients rid count = (if count \<le> 0 then [] else map (windowCoefficient rid) [0..<nat count])"

function round_up_loop :: "nat \<Rightarrow> nat \<Rightarrow> nat" where
  "round_up_loop n s = (if s < n \<and> 0 < s then round_up_loop n (s * 2) else s)"
  by pat_completeness auto
termination
  by (relation "measure (\<lambda>(n, s). n - s)") auto

declare round_up_loop.simps [simp del]

definition roundUpPowerOfTwo :: "int \<Rightarrow> nat" where
  "roundUpPowerOfTwo n = round_up_loop (nat n) 1"

section \<open>The encoder\<close>

record WindowEncoder =
  we_ring :: "bytes list"
  we_mask :: u32
  we_first :: u32
  we_next :: u32
  we_held :: nat

definition slot_index :: "u32 \<Rightarrow> u32 \<Rightarrow> nat" where
  "slot_index msk esi = unat (esi AND msk)"

definition SetCapacity :: "WindowEncoder \<Rightarrow> int \<Rightarrow> WindowEncoder" where
  "SetCapacity e capacity =
     (let capacity = (if capacity > int MaxRepairWindow then int MaxRepairWindow else capacity);
          sz = roundUpPowerOfTwo capacity
      in if sz = length (we_ring e) then e
         else
           let keep = (if we_held e > sz then sz else we_held e);
               first = we_next e - word_of_nat keep;
               msk = word_of_nat (sz - 1);
               ring = foldl (\<lambda>ring i. let esi = first + word_of_nat i in
                        ring[slot_index msk esi := we_ring e ! slot_index (we_mask e) esi])
                        (replicate sz []) [0..<keep]
           in e\<lparr>we_ring := ring, we_mask := msk, we_first := first, we_held := keep\<rparr>)"

definition NewWindowEncoder :: "int \<Rightarrow> WindowEncoder" where
  "NewWindowEncoder capacity = SetCapacity \<lparr>we_ring = [], we_mask = 0, we_first = 0, we_next = 0, we_held = 0\<rparr> capacity"

definition enc_Capacity :: "WindowEncoder \<Rightarrow> nat" where
  "enc_Capacity e = length (we_ring e)"

definition enc_Held :: "WindowEncoder \<Rightarrow> nat" where
  "enc_Held e = we_held e"

definition AddOwned :: "WindowEncoder \<Rightarrow> bytes \<Rightarrow> u32 \<times> WindowEncoder" where
  "AddOwned e vector =
     (let esi = we_next e;
          e1 = e\<lparr>we_next := we_next e + 1, we_ring := (we_ring e)[slot_index (we_mask e) esi := vector]\<rparr>
      in (esi, if we_held e1 < length (we_ring e1) then e1\<lparr>we_held := we_held e1 + 1\<rparr>
               else e1\<lparr>we_first := we_first e1 + 1\<rparr>))"

definition repairBounds :: "WindowEncoder \<Rightarrow> int \<Rightarrow> (u32 \<times> nat \<times> nat) option" where
  "repairBounds e count =
     (if we_held e = 0 then None
      else
        let c = (if count \<le> 0 \<or> count > int (we_held e) then we_held e else nat count);
            c = (if c > MaxRepairWindow then MaxRepairWindow else c);
            first = we_next e - word_of_nat c;
            n = foldl (\<lambda>n i. let l = length (we_ring e ! slot_index (we_mask e) (first + word_of_nat i)) in if l > n then l else n) 0 [0..<c]
        in Some (first, c, n))"

definition RepairVectorSize :: "WindowEncoder \<Rightarrow> int \<Rightarrow> nat option" where
  "RepairVectorSize e count = map_option (\<lambda>(_, _, n). n) (repairBounds e count)"

definition AppendRepair :: "WindowEncoder \<Rightarrow> bytes \<Rightarrow> u32 \<Rightarrow> int \<Rightarrow> (bytes \<times> RepairSymbol) option" where
  "AppendRepair e dst rid count =
     (case repairBounds e count of
        None \<Rightarrow> None
      | Some (first, c, n) \<Rightarrow>
          let vector = foldl (\<lambda>v i. addScaled (windowCoefficient rid i) (we_ring e ! slot_index (we_mask e) (first + word_of_nat i)) v)
                         (replicate n 0) [0..<c]
          in Some (dst @ vector, \<lparr>RID = rid, First = first, Count = int c, Vector = vector\<rparr>))"

definition enc_Repair :: "WindowEncoder \<Rightarrow> u32 \<Rightarrow> int \<Rightarrow> RepairSymbol option" where
  "enc_Repair e rid count = map_option snd (AppendRepair e [] rid count)"

section \<open>The decoder's state\<close>

record decoderSlot =
  ds_esi :: u32
  ds_vector :: bytes
  ds_live :: bool
  ds_known :: bool

definition empty_slot :: decoderSlot where
  "empty_slot = \<lparr>ds_esi = 0, ds_vector = [], ds_live = False, ds_known = False\<rparr>"

record windowRow =
  wr_pivot :: u32
  wr_coef :: bytes
  wr_data :: bytes

record WindowDecoder =
  wd_slots :: "decoderSlot list"
  wd_mask :: u32
  wd_lo :: u32
  wd_high :: u32
  wd_origin :: u32
  wd_started :: bool
  wd_rows :: "windowRow list"
  wd_recovered :: u64
  wd_lost :: u64
  wd_discarded :: u64

definition dec_index :: "WindowDecoder \<Rightarrow> u32 \<Rightarrow> nat" where
  "dec_index d esi = slot_index (wd_mask d) esi"

text \<open>The identifiers visited by \<^verbatim>\<open>for esi := d.lo; int32(esi-d.high) < 0; esi++\<close>.\<close>

function window_ids :: "u32 \<Rightarrow> u32 \<Rightarrow> u32 list" where
  "window_ids lo high = (if sint (lo - high) < 0 then lo # window_ids (lo + 1) high else [])"
  by pat_completeness auto
termination
proof (relation "measure (\<lambda>(lo, high). unat (high - lo))")
  fix lo high :: u32
  assume "sint (lo - high) < 0"
  then have "high - lo \<noteq> 0" by auto
  then have "unat (high - lo - 1) < unat (high - lo)" by (simp add: unat_minus_one unat_gt_0)
  then show "((lo + 1, high), lo, high) \<in> measure (\<lambda>(lo, high). unat (high - lo))" by (simp add: diff_diff_eq)
qed simp

declare window_ids.simps [simp del]

definition dec_ids :: "WindowDecoder \<Rightarrow> u32 list" where
  "dec_ids d = window_ids (wd_lo d) (wd_high d)"

definition dec_resize :: "WindowDecoder \<Rightarrow> int \<Rightarrow> WindowDecoder" where
  "dec_resize d width =
     (let sz = roundUpPowerOfTwo width;
          msk = word_of_nat (sz - 1);
          slots = (if wd_started d
                   then foldl (\<lambda>slots esi. let s = wd_slots d ! dec_index d esi in
                          if ds_live s \<and> ds_esi s = esi then slots[slot_index msk esi := s] else slots) (replicate sz empty_slot) (dec_ids d)
                   else replicate sz empty_slot);
          rows = map (\<lambda>r. r\<lparr>wr_coef := foldl (\<lambda>coef esi. coef[slot_index msk esi := wr_coef r ! dec_index d esi]) (replicate sz 0) (dec_ids d)\<rparr>) (wd_rows d);
          d1 = d\<lparr>wd_rows := rows, wd_slots := slots, wd_mask := msk\<rparr>
      in if wd_started d1 then d1\<lparr>wd_lo := wd_high d1 - word_of_nat sz\<rparr> else d1)"

definition decoderWidth :: nat where "decoderWidth = MinDecoderWidth"

definition NewWindowDecoder :: WindowDecoder where
  "NewWindowDecoder = dec_resize \<lparr>wd_slots = [], wd_mask = 0, wd_lo = 0, wd_high = 0, wd_origin = 0, wd_started = False,
     wd_rows = [], wd_recovered = 0, wd_lost = 0, wd_discarded = 0\<rparr> (int decoderWidth)"

definition dec_Width :: "WindowDecoder \<Rightarrow> nat" where
  "dec_Width d = length (wd_slots d)"

section \<open>Moving the window\<close>

definition evict :: "WindowDecoder \<Rightarrow> u32 \<Rightarrow> Delivery \<Rightarrow> WindowDecoder \<times> Delivery" where
  "evict d esi out =
     (let index = dec_index d esi; s = wd_slots d ! index;
          held = (ds_live s \<and> ds_esi s = esi);
          (d1, out1) = (if \<not> (held \<and> ds_known s) \<and> 0 \<le> sint (esi - wd_origin d)
                        then (d\<lparr>wd_lost := wd_lost d + 1\<rparr>, out\<lparr>Lost := Lost out @ [esi]\<rparr>) else (d, out));
          d2 = (if held then d1\<lparr>wd_slots := (wd_slots d1)[index := empty_slot]\<rparr> else d1);
          kept = filter (\<lambda>r. wr_coef r ! index = 0) (wd_rows d2)
      in (d2\<lparr>wd_rows := kept, wd_discarded := wd_discarded d2 + word_of_nat (length (wd_rows d2) - length kept)\<rparr>, out1))"

lemma evict_fields [simp]:
  "wd_lo (fst (evict d esi out)) = wd_lo d" "wd_high (fst (evict d esi out)) = wd_high d" "wd_mask (fst (evict d esi out)) = wd_mask d"
  "length (wd_slots (fst (evict d esi out))) = length (wd_slots d)" "wd_started (fst (evict d esi out)) = wd_started d"
  "wd_origin (fst (evict d esi out)) = wd_origin d" "Recovered (snd (evict d esi out)) = Recovered out"
  by (simp_all add: evict_def Let_def split: prod.split)

function evict_loop :: "u32 \<Rightarrow> u32 \<Rightarrow> WindowDecoder \<Rightarrow> Delivery \<Rightarrow> WindowDecoder \<times> Delivery" where
  "evict_loop width walked d out =
     (if wd_high d - wd_lo d > width \<and> sint (wd_lo d - walked) < 0
      then (let (d1, out1) = evict d (wd_lo d) out in evict_loop width walked (d1\<lparr>wd_lo := wd_lo d1 + 1\<rparr>) out1)
      else (d, out))"
  by pat_completeness auto
termination
proof (relation "measure (\<lambda>(width, walked, d, out). unat (walked - wd_lo d))")
  fix width walked :: u32 and d d1 :: WindowDecoder and out out1 x
  assume a: "wd_high d - wd_lo d > width \<and> sint (wd_lo d - walked) < 0" "x = evict d (wd_lo d) out" "(d1, out1) = x"
  then have "wd_lo d1 = wd_lo d" using evict_fields(1) [of d "wd_lo d" out] by (metis fst_conv)
  moreover have "walked - wd_lo d \<noteq> 0" using a(1) by auto
  then have "unat (walked - wd_lo d - 1) < unat (walked - wd_lo d)" by (simp add: unat_minus_one unat_gt_0)
  ultimately show "((width, walked, d1\<lparr>wd_lo := wd_lo d1 + 1\<rparr>, out1), width, walked, d, out)
      \<in> measure (\<lambda>(width, walked, d, out). unat (walked - wd_lo d))" by (simp add: diff_diff_eq)
qed simp

declare evict_loop.simps [simp del]

definition admit :: "WindowDecoder \<Rightarrow> u32 \<Rightarrow> Delivery \<Rightarrow> bool \<times> WindowDecoder \<times> Delivery" where
  "admit d esi out =
     (let width = word_of_nat (length (wd_slots d)) in
      if \<not> wd_started d then (True, d\<lparr>wd_started := True, wd_origin := esi, wd_high := esi + 1, wd_lo := esi + 1 - width\<rparr>, out)
      else if sint (esi - wd_lo d) < 0 then (False, d, out)
      else if 0 \<le> sint (esi - wd_high d) then
        let d1 = d\<lparr>wd_high := esi + 1\<rparr>;
            (d2, out2) = evict_loop width (wd_lo d1 + width) d1 out
        in (True, if wd_high d2 - wd_lo d2 > width then d2\<lparr>wd_lo := wd_high d2 - width\<rparr> else d2, out2)
      else (True, d, out))"

definition witness_esi :: "WindowDecoder \<Rightarrow> u32 \<Rightarrow> WindowDecoder" where
  "witness_esi d esi =
     (if wd_started d \<and> sint (esi - wd_origin d) < 0 \<and> 0 \<le> sint (esi - wd_lo d) then d\<lparr>wd_origin := esi\<rparr> else d)"

section \<open>The linear system\<close>

text \<open>The oldest identifier a row depends on and how many there are.\<close>

definition leading :: "WindowDecoder \<Rightarrow> bytes \<Rightarrow> u32 \<times> nat" where
  "leading d coef =
     foldl (\<lambda>(pivot, count) esi. if coef ! dec_index d esi = 0 then (pivot, count)
              else (if count = 0 then esi else pivot, count + 1)) (0, 0) (dec_ids d)"

definition substitute_row :: "nat \<Rightarrow> bytes \<Rightarrow> windowRow \<Rightarrow> windowRow" where
  "substitute_row index vector r =
     (let c = wr_coef r ! index in
      if c = 0 then r
      else r\<lparr>wr_data := addScaled c vector (fec_ensure (wr_data r) (length vector)), wr_coef := (wr_coef r)[index := 0]\<rparr>)"

definition substitute :: "WindowDecoder \<Rightarrow> u32 \<Rightarrow> bytes \<Rightarrow> Delivery \<Rightarrow> bool \<Rightarrow> WindowDecoder \<times> Delivery" where
  "substitute d esi vector out recovered =
     (let index = dec_index d esi; s = wd_slots d ! index in
      if ds_live s \<and> ds_known s \<and> ds_esi s = esi then (d, out)
      else
        let d1 = d\<lparr>wd_slots := (wd_slots d)[index := \<lparr>ds_esi = esi, ds_vector = vector, ds_live = True, ds_known = True\<rparr>]\<rparr>;
            (d2, out2) = (if recovered then (d1\<lparr>wd_recovered := wd_recovered d1 + 1\<rparr>, out\<lparr>Recovered := Recovered out @ [(esi, vector)]\<rparr>)
                          else (d1, out))
        in (d2\<lparr>wd_rows := map (substitute_row index vector) (wd_rows d2)\<rparr>, out2))"

lemma substitute_rows [simp]: "length (wd_rows (fst (substitute d esi v out b))) = length (wd_rows d)"
  by (simp add: substitute_def Let_def split: prod.split)

text \<open>The inner loop of \<open>harvest\<close> from index \<open>i\<close>, and the repetition while it made progress.\<close>

function harvest_pass :: "nat \<Rightarrow> WindowDecoder \<Rightarrow> Delivery \<Rightarrow> bool \<Rightarrow> WindowDecoder \<times> Delivery \<times> bool" where
  "harvest_pass i d out progress =
     (if i < length (wd_rows d) then
        let r = wd_rows d ! i; (pivot, count) = leading d (wr_coef r) in
        if count = 0 then harvest_pass i (d\<lparr>wd_rows := remove_at i (wd_rows d)\<rparr>) out progress
        else if count > 1 then harvest_pass (i + 1) d out progress
        else
          let (d1, out1) = substitute (d\<lparr>wd_rows := remove_at i (wd_rows d)\<rparr>) pivot (wr_data r) out True
          in harvest_pass i d1 out1 True
      else (d, out, progress))"
  by pat_completeness auto
termination
proof (relation "measure (\<lambda>(i, d, out, progress). length (wd_rows d) - i)")
  fix i d out r x pivot count x1 d1 out1 and progress :: bool
  assume "i < length (wd_rows d)" "x1 = substitute (d\<lparr>wd_rows := remove_at i (wd_rows d)\<rparr>) pivot (wr_data r) out True" "(d1, out1) = x1"
  then have "d1 = fst (substitute (d\<lparr>wd_rows := remove_at i (wd_rows d)\<rparr>) pivot (wr_data r) out True)" by (metis fst_conv)
  then have "length (wd_rows d1) = length (wd_rows d) - 1"
    using \<open>i < length (wd_rows d)\<close> by (simp add: length_remove_at)
  then show "((i, d1, out1, True), i, d, out, progress) \<in> measure (\<lambda>(i, d, out, progress). length (wd_rows d) - i)"
    using \<open>i < length (wd_rows d)\<close> by simp
qed (auto simp: length_remove_at)

declare harvest_pass.simps [simp del]


lemma harvest_pass_rows:
  "length (wd_rows (fst (harvest_pass i d out p))) \<le> length (wd_rows d) \<and>
   (snd (snd (harvest_pass i d out p)) \<longrightarrow> \<not> p \<longrightarrow> length (wd_rows (fst (harvest_pass i d out p))) < length (wd_rows d))"
proof (induction i d out p rule: harvest_pass.induct)
  case (1 i d out p)
  show ?case
  proof (cases "i < length (wd_rows d)")
    case True
    obtain pivot count where l: "leading d (wr_coef (wd_rows d ! i)) = (pivot, count)" by (cases "leading d (wr_coef (wd_rows d ! i))")
    have rm: "length (remove_at i (wd_rows d)) < length (wd_rows d)" using True by (simp add: length_remove_at)
    consider "count = 0" | "count > 1" | "count = 1" by linarith
    then show ?thesis
    proof cases
      case 1
      then show ?thesis using "1.IH"(1) [OF True refl l [symmetric] refl] True l rm
        by (subst (1 2 3) harvest_pass.simps) (auto simp: Let_def)
    next
      case 2
      then show ?thesis using "1.IH"(2) [OF True refl l [symmetric] refl] True l
        by (subst (1 2 3) harvest_pass.simps) (auto simp: Let_def)
    next
      case 3
      obtain d1 out1 where s: "substitute (d\<lparr>wd_rows := remove_at i (wd_rows d)\<rparr>) pivot (wr_data (wd_rows d ! i)) out True = (d1, out1)"
        by (cases "substitute (d\<lparr>wd_rows := remove_at i (wd_rows d)\<rparr>) pivot (wr_data (wd_rows d ! i)) out True")
      have "length (wd_rows d1) < length (wd_rows d)"
        using substitute_rows [of "d\<lparr>wd_rows := remove_at i (wd_rows d)\<rparr>" pivot "wr_data (wd_rows d ! i)" out True] s rm by simp
      then show ?thesis using "1.IH"(3) [OF True refl l [symmetric] refl _ _ s [symmetric] refl] 3 True l s
        by (subst (1 2 3) harvest_pass.simps) (auto simp: Let_def)
    qed
  qed (simp add: harvest_pass.simps)
qed

function harvest :: "WindowDecoder \<Rightarrow> Delivery \<Rightarrow> WindowDecoder \<times> Delivery" where
  "harvest d out =
     (let (d1, out1, progress) = harvest_pass 0 d out False in if progress then harvest d1 out1 else (d1, out1))"
  by pat_completeness auto
termination
proof (relation "measure (\<lambda>(d, out). length (wd_rows d))")
  fix d out x d1 y out1 progress
  assume "x = harvest_pass 0 d out False" "(d1, y) = x" "(out1, progress) = y" progress
  then show "((d1, out1), d, out) \<in> measure (\<lambda>(d, out). length (wd_rows d))"
    using harvest_pass_rows [of 0 d out False] by (auto simp: prod_eq_iff)
qed simp

declare harvest.simps [simp del]

text \<open>\<open>insert\<close>: take out what is known, reduce by the held rows, normalise, reduce the held rows.\<close>

definition insert_known :: "WindowDecoder \<Rightarrow> bytes \<times> bytes \<Rightarrow> u32 \<Rightarrow> bytes \<times> bytes" where
  "insert_known d = (\<lambda>(coef, data) esi.
     let index = dec_index d esi; s = wd_slots d ! index in
     if coef ! index = 0 then (coef, data)
     else if ds_live s \<and> ds_known s
     then (coef[index := 0], addScaled (coef ! index) (ds_vector s) (fec_ensure data (length (ds_vector s))))
     else (coef, data))"

definition insert_reduce :: "WindowDecoder \<Rightarrow> bytes \<times> bytes \<Rightarrow> windowRow \<Rightarrow> bytes \<times> bytes" where
  "insert_reduce d = (\<lambda>(coef, data) r.
     let c = coef ! dec_index d (wr_pivot r) in
     if c = 0 then (coef, data)
     else (mulSliceXor c (wr_coef r) coef, addScaled c (wr_data r) (fec_ensure data (length (wr_data r)))))"

definition insert_clear :: "nat \<Rightarrow> windowRow \<Rightarrow> windowRow \<Rightarrow> windowRow" where
  "insert_clear index row r =
     (let c = wr_coef r ! index in
      if c = 0 then r
      else r\<lparr>wr_data := addScaled c (wr_data row) (fec_ensure (wr_data r) (length (wr_data row))),
             wr_coef := mulSliceXor c (wr_coef row) (wr_coef r)\<rparr>)"

definition dec_insert :: "WindowDecoder \<Rightarrow> bytes \<Rightarrow> bytes \<Rightarrow> Delivery \<Rightarrow> WindowDecoder \<times> Delivery" where
  "dec_insert d coef data out =
     (let (coef, data) = foldl (insert_known d) (coef, data) (dec_ids d);
          (coef, data) = foldl (insert_reduce d) (coef, data) (wd_rows d);
          (pivot, count) = leading d coef
      in if count = 0 then (d\<lparr>wd_discarded := wd_discarded d + 1\<rparr>, out)
         else
           let f = gf_inv (coef ! dec_index d pivot);
               (coef, data) = (if f \<noteq> 1 then (scaleBytes f coef, scaleBytes f data) else (coef, data));
               row = \<lparr>wr_pivot = pivot, wr_coef = coef, wr_data = data\<rparr>
           in harvest (d\<lparr>wd_rows := map (insert_clear (dec_index d pivot) row) (wd_rows d) @ [row]\<rparr>) out)"

section \<open>Arrivals\<close>

definition dec_source :: "WindowDecoder \<Rightarrow> u32 \<Rightarrow> bytes \<Rightarrow> WindowDecoder \<times> Delivery" where
  "dec_source d esi vector =
     (let (ok, d1, out1) = admit d esi no_delivery in
      if \<not> ok then (d1, out1)
      else
        let d2 = witness_esi d1 esi; s = wd_slots d2 ! dec_index d2 esi in
        if ds_live s \<and> ds_known s \<and> ds_esi s = esi then (d2, out1)
        else let (d3, out3) = substitute d2 esi vector out1 False in harvest d3 out3)"

definition repair_coef :: "WindowDecoder \<Rightarrow> RepairSymbol \<Rightarrow> bytes" where
  "repair_coef d r =
     foldl (\<lambda>coef i. let esi = First r + word_of_nat i in
              if sint (esi - wd_lo d) < 0 \<or> 0 \<le> sint (esi - wd_high d) then coef
              else coef[dec_index d esi := windowCoefficient (RID r) i])
       (replicate (length (wd_slots d)) 0) [0..<nat (Count r)]"

definition dec_repair :: "WindowDecoder \<Rightarrow> RepairSymbol \<Rightarrow> WindowDecoder \<times> Delivery" where
  "dec_repair d r =
     (if Count r \<le> 0 \<or> Vector r = [] then (d, no_delivery)
      else if Count r > int MaxRepairWindow then (d\<lparr>wd_discarded := wd_discarded d + 1\<rparr>, no_delivery)
      else
        let (ok, d1, out1) = admit d (First r + word_of_int (Count r - 1)) no_delivery in
        if \<not> ok then (d1, out1)
        else
          let d2 = witness_esi d1 (First r) in
          if sint (First r - wd_lo d2) < 0 then (d2\<lparr>wd_discarded := wd_discarded d2 + 1\<rparr>, out1)
          else dec_insert d2 (repair_coef d2 r) (Vector r) out1)"

end
