(* ===== verification/FecInv.thy ===== *)
theory FecInv
  imports FecWindow
begin

text \<open>
  The invariant of the window decoder. \<open>sy\<close> gives the source symbol behind each identifier. A window of
  \<open>n\<close> identifiers from \<open>lo\<close> is \<open>ids lo n\<close>; on at most 512 of them the slot index is injective. Every known
  slot holds the symbol of its identifier, every row is a true equation over the window, and the rows
  are in reduced form: a row has coefficient one at its pivot, where all other rows have zero.
\<close>

section \<open>Identifiers and slots\<close>

abbreviation idx :: "u32 \<Rightarrow> nat" where
  "idx \<equiv> slot_index 511"

lemma idx_mod: "idx e = unat e mod 512"
proof -
  have "(511 :: u32) = mask 9" by (simp add: mask_eq_exp_minus_1)
  then have "idx e = unat (take_bit 9 e)" by (simp add: slot_index_def take_bit_eq_mask)
  also have "\<dots> = take_bit 9 (unat e)" by (rule unsigned_take_bit_eq)
  also have "\<dots> = unat e mod 512" by (simp add: take_bit_eq_mod)
  finally show ?thesis .
qed

lemma idx_less [simp]: "idx e < 512"
  by (simp add: idx_mod)

lemma offset_mod: "m \<le> 32 \<Longrightarrow> unat (lo + word_of_nat k :: u32) mod 2 ^ m = (unat lo + k) mod 2 ^ m"
proof -
  assume m: "m \<le> 32"
  have "unat (lo + word_of_nat k :: u32) = (unat lo + k) mod 2 ^ 32" by (simp add: unat_word_ariths unat_of_nat mod_add_right_eq)
  then show ?thesis using m by (simp only: mod_mod_cancel [OF le_imp_power_dvd])
qed

lemma idx_offset: "idx (lo + word_of_nat k) = (unat lo + k) mod 512"
  using offset_mod [of 9 lo k] by (simp add: idx_mod)

definition ids :: "u32 \<Rightarrow> nat \<Rightarrow> u32 list" where
  "ids lo n = map (\<lambda>k. lo + word_of_nat k) [0..<n]"

definition within :: "u32 \<Rightarrow> nat \<Rightarrow> u32 \<Rightarrow> bool" where
  "within lo n e \<longleftrightarrow> unat (e - lo) < n"

lemma ids_simps [simp]: "ids lo 0 = []" "length (ids lo n) = n"
  by (simp_all add: ids_def)

lemma ids_Suc: "ids lo (Suc n) = lo # ids (lo + 1) n"
  unfolding ids_def by (subst upt_conv_Cons) (simp_all add: map_Suc_upt [symmetric] add.assoc o_def del: upt_Suc)

lemma ids_snoc: "ids lo (Suc n) = ids lo n @ [lo + word_of_nat n]"
  by (simp add: ids_def)

lemma set_ids: "n \<le> 2 ^ 32 \<Longrightarrow> e \<in> set (ids lo n) \<longleftrightarrow> within lo n e"
proof
  assume n: "n \<le> 2 ^ 32" and "e \<in> set (ids lo n)"
  then obtain k where "k < n" "e = lo + word_of_nat k" by (auto simp: ids_def)
  then show "within lo n e" using n by (simp add: within_def unat_of_nat)
next
  assume "n \<le> 2 ^ 32" "within lo n e"
  then show "e \<in> set (ids lo n)" by (auto simp: within_def ids_def intro!: image_eqI [of _ _ "unat (e - lo)"])
qed

lemma distinct_ids: "n \<le> 2 ^ 32 \<Longrightarrow> distinct (ids lo n)"
proof -
  assume n: "n \<le> 2 ^ 32"
  have "a = b" if "a < n" "b < n" "word_of_nat a = (word_of_nat b :: u32)" for a b
  proof -
    have "unat (word_of_nat a :: u32) = a" "unat (word_of_nat b :: u32) = b" using that(1,2) n by (simp_all add: unat_of_nat)
    then show ?thesis using that(3) by metis
  qed
  then show "distinct (ids lo n)" by (auto simp: ids_def distinct_map inj_on_def)
qed

lemma within_mono: "within lo n e \<Longrightarrow> n \<le> m \<Longrightarrow> within lo m e"
  by (simp add: within_def)

lemma within_Suc: "within lo n e \<Longrightarrow> e \<noteq> lo \<Longrightarrow> within (lo + 1) (n - 1) e"
proof -
  assume w: "within lo n e" and "e \<noteq> lo"
  then have "e - lo \<noteq> 0" by simp
  then have "unat (e - lo - 1) = unat (e - lo) - 1" "0 < unat (e - lo)" by (simp_all add: unat_minus_one unat_gt_0)
  then show ?thesis using w by (simp add: within_def diff_diff_eq)
qed

lemma within_back: "within (lo + 1) n e \<Longrightarrow> n < 2 ^ 32 \<Longrightarrow> within lo (Suc n) e"
proof -
  assume w: "within (lo + 1) n e" and n: "n < 2 ^ 32"
  have g: "unat (x + 1) = unat x + 1" if "unat x + 1 < 2 ^ 32" for x :: u32 using that by (simp add: unat_word_ariths)
  have "unat (e - (lo + 1)) + 1 < 2 ^ 32" using w n by (simp add: within_def)
  from g [OF this] have "unat (e - lo) = unat (e - (lo + 1)) + 1" by simp
  then show ?thesis using w by (simp add: within_def)
qed

lemma window_mod_inj:
  assumes "within lo n a" "within lo n b" "n \<le> 2 ^ m" "m \<le> 32" "unat a mod 2 ^ m = unat b mod 2 ^ m"
  shows "a = b"
proof -
  have "unat a mod 2 ^ m = (unat lo + unat (a - lo)) mod 2 ^ m" "unat b mod 2 ^ m = (unat lo + unat (b - lo)) mod 2 ^ m"
    using offset_mod [OF assms(4), of lo "unat (a - lo)"] offset_mod [OF assms(4), of lo "unat (b - lo)"] by simp_all
  then have "(unat lo + unat (a - lo)) mod 2 ^ m = (unat lo + unat (b - lo)) mod 2 ^ m" using assms(5) by simp
  moreover have "unat (a - lo) < 2 ^ m" "unat (b - lo) < 2 ^ m" using assms(1-3) by (simp_all add: within_def)
  moreover have eq: "x = y" if "(u + x) mod 2 ^ m = (u + y) mod 2 ^ m" "x < 2 ^ m" "y < 2 ^ m" "x \<le> y" for u x y :: nat
  proof -
    have "2 ^ m dvd (u + y) - (u + x)" using that by (subst mod_eq_dvd_iff_nat [symmetric]) simp_all
    then have "2 ^ m dvd y - x" by simp
    then show ?thesis using that by (metis diff_is_0_eq dual_order.antisym less_imp_diff_less nat_dvd_not_less zero_less_diff not_less)
  qed
  ultimately have "unat (a - lo) = unat (b - lo)" by (metis nle_le)
  then have "a - lo = b - lo" by (rule unsigned_word_eqI)
  then show ?thesis by simp
qed

lemma idx_inj:
  assumes "within lo n a" "within lo n b" "n \<le> 512" "idx a = idx b"
  shows "a = b"
  by (rule window_mod_inj [OF assms(1,2), of 9]) (use assms(3,4) in \<open>simp_all add: idx_mod\<close>)

lemma sint_neg: "sint (x :: u32) < 0 \<longleftrightarrow> 2 ^ 31 \<le> unat x"
proof -
  have "sint x < 0 \<longleftrightarrow> bit x 31" using bit_last_iff [of x] by simp
  also have "\<dots> \<longleftrightarrow> 2 ^ 31 \<le> unat x"
  proof -
    have b: "unat x < 2 ^ 32" using unsigned_less [of x] by simp
    have "bit x 31 \<longleftrightarrow> bit (unat x) 31" by (simp add: bit_unsigned_iff)
    also have "\<dots> \<longleftrightarrow> odd (unat x div 2 ^ 31)" by (simp only: bit_iff_odd)
    also have "\<dots> \<longleftrightarrow> 2 ^ 31 \<le> unat x"
    proof (cases "2 ^ 31 \<le> unat x")
      case True
      then have "unat x div 2 ^ 31 = 1" using b by (intro div_nat_eqI) simp_all
      then show ?thesis using True by simp
    next
      case False
      then show ?thesis by simp
    qed
    finally show ?thesis .
  qed
  finally show ?thesis .
qed

lemma window_ids_eq: "n < 2 ^ 31 \<Longrightarrow> window_ids lo (lo + word_of_nat n) = ids lo n"
proof (induction n arbitrary: lo)
  case 0
  then show ?case by (simp add: window_ids.simps)
next
  case (Suc n)
  have "uint (- word_of_nat (Suc n) :: u32) = 2 ^ 32 - int (Suc n)"
    using Suc.prems by (simp add: uint_word_ariths unsigned_of_nat take_bit_eq_mod zmod_zminus1_eq_if zmod_int)
  then have "int (unat (- word_of_nat (Suc n) :: u32)) = 2 ^ 32 - int (Suc n)" by (simp only: uint_nat)
  moreover have "2 ^ 31 \<le> u" if "int u = 2 ^ 32 - int (Suc n)" for u using that Suc.prems by simp
  ultimately have "2 ^ 31 \<le> unat (- word_of_nat (Suc n) :: u32)" by blast
  then have "sint (lo - (lo + word_of_nat (Suc n))) < 0" by (simp add: sint_neg)
  then show ?case using Suc.IH [of "lo + 1"] Suc.prems
    by (subst window_ids.simps) (simp add: ids_Suc add.assoc)
qed


section \<open>The invariant\<close>

definition same_symbol :: "bytes \<Rightarrow> bytes \<Rightarrow> bool" where
  "same_symbol v w \<longleftrightarrow> (\<forall>j. pad v j = pad w j)"

definition combination :: "(u32 \<Rightarrow> bytes) \<Rightarrow> u32 list \<Rightarrow> bytes \<Rightarrow> nat \<Rightarrow> byte" where
  "combination sy es coef j = gf.gsum (\<lambda>e. gfMul (coef ! idx e) (pad (sy e) j)) es"

definition row_ok :: "(u32 \<Rightarrow> bytes) \<Rightarrow> u32 \<Rightarrow> nat \<Rightarrow> windowRow \<Rightarrow> bool" where
  "row_ok sy lo n r \<longleftrightarrow> length (wr_coef r) = 512 \<and> within lo n (wr_pivot r) \<and> wr_coef r ! idx (wr_pivot r) = 1 \<and>
     (\<forall>i < 512. wr_coef r ! i \<noteq> 0 \<longrightarrow> (\<exists>e. within lo n e \<and> idx e = i)) \<and>
     (\<forall>j. pad (wr_data r) j = combination sy (ids lo n) (wr_coef r) j)"

definition slot_ok :: "(u32 \<Rightarrow> bytes) \<Rightarrow> u32 \<Rightarrow> nat \<Rightarrow> nat \<Rightarrow> decoderSlot \<Rightarrow> bool" where
  "slot_ok sy lo n i s \<longleftrightarrow> (ds_live s \<longrightarrow> ds_known s \<and> within lo n (ds_esi s) \<and> idx (ds_esi s) = i \<and> same_symbol (ds_vector s) (sy (ds_esi s)))"

definition orth :: "windowRow \<Rightarrow> windowRow \<Rightarrow> bool" where
  "orth r r' \<longleftrightarrow> wr_coef r' ! idx (wr_pivot r) = 0 \<and> wr_coef r ! idx (wr_pivot r') = 0"

definition apart :: "decoderSlot list \<Rightarrow> windowRow \<Rightarrow> bool" where
  "apart slots r \<longleftrightarrow> (\<forall>i < 512. ds_live (slots ! i) \<longrightarrow> wr_coef r ! i = 0)"

definition win_inv :: "(u32 \<Rightarrow> bytes) \<Rightarrow> u32 \<Rightarrow> nat \<Rightarrow> decoderSlot list \<Rightarrow> windowRow list \<Rightarrow> bool" where
  "win_inv sy lo n slots rows \<longleftrightarrow> length slots = 512 \<and> (\<forall>i < 512. slot_ok sy lo n i (slots ! i)) \<and>
     (\<forall>r \<in> set rows. row_ok sy lo n r \<and> apart slots r) \<and> sorted_wrt orth rows"

lemma combination_grow:
  assumes "\<forall>i < 512. coef ! i \<noteq> 0 \<longrightarrow> (\<exists>e. within lo n e \<and> idx e = i)" "n \<le> m" "m \<le> 512"
  shows "combination sy (ids lo m) coef j = combination sy (ids lo n) coef j"
proof -
  have tk: "take n (ids lo m) = ids lo n" using assms(2) by (simp add: ids_def take_map)
  have z: "coef ! idx e = 0" if "e \<in> set (drop n (ids lo m))" for e
  proof (rule ccontr)
    assume "coef ! idx e \<noteq> 0"
    then obtain e' where e': "within lo n e'" "idx e' = idx e" using assms(1) idx_less by metis
    have em: "e \<in> set (ids lo m)" using that by (rule in_set_dropD)
    then have "e = e'" using idx_inj [of lo m e e'] within_mono [OF e'(1) assms(2)] e'(2) assms(3) by (simp add: set_ids)
    then have "e \<in> set (take n (ids lo m))" using e'(1) assms(2,3) unfolding tk by (simp add: set_ids)
    then show False using that distinct_ids [of m lo] assms(3) set_take_disj_set_drop_if_distinct [of "ids lo m" n n] by auto
  qed
  have "ids lo m = ids lo n @ drop n (ids lo m)"
    using append_take_drop_id [of n "ids lo m"] by (simp add: tk)
  then show ?thesis unfolding combination_def
    by (metis (mono_tags, lifting) gf.gsum_append gf.gsum_zero gfMul_simps(1) xor.right_neutral z)
qed

lemma win_grow:
  assumes "win_inv sy lo n slots rows" "n \<le> m" "m \<le> 512"
  shows "win_inv sy lo m slots rows"
proof -
  have "row_ok sy lo m r" if "row_ok sy lo n r" for r
    using that combination_grow [of "wr_coef r" lo n m sy] within_mono [OF _ assms(2)] assms(2,3) unfolding row_ok_def by metis
  moreover have "slot_ok sy lo m i s" if "slot_ok sy lo n i s" for i s
    using that within_mono [OF _ assms(2)] by (auto simp: slot_ok_def)
  ultimately show ?thesis using assms(1) by (auto simp: win_inv_def)
qed

lemma win_empty:
  assumes "win_inv sy lo 0 slots rows"
  shows "rows = []" "\<forall>i < 512. \<not> ds_live (slots ! i)"
  using assms by (auto simp: win_inv_def row_ok_def slot_ok_def within_def)

lemma win_fresh: "length slots = 512 \<Longrightarrow> \<forall>i < 512. \<not> ds_live (slots ! i) \<Longrightarrow> win_inv sy lo n slots []"
  by (simp add: win_inv_def slot_ok_def)

text \<open>Eviction of the oldest identifier.\<close>

lemma win_evict:
  assumes inv: "win_inv sy lo (Suc n) slots rows" and n: "n < 512"
  defines "slots' \<equiv> (if ds_live (slots ! idx lo) \<and> ds_esi (slots ! idx lo) = lo then slots[idx lo := empty_slot] else slots)"
  shows "win_inv sy (lo + 1) n slots' (filter (\<lambda>r. wr_coef r ! idx lo = 0) rows)"
proof -
  have l: "length slots = 512" and so: "\<And>i. i < 512 \<Longrightarrow> slot_ok sy lo (Suc n) i (slots ! i)"
    and ro: "\<And>r. r \<in> set rows \<Longrightarrow> row_ok sy lo (Suc n) r" and ap: "\<And>r. r \<in> set rows \<Longrightarrow> apart slots r" and or: "sorted_wrt orth rows"
    using inv by (auto simp: win_inv_def)
  have keep: "within (lo + 1) n e" if "within lo (Suc n) e" "idx e \<noteq> idx lo" for e
    using within_Suc [OF that(1)] that(2) by auto
  have live': "ds_live (slots' ! i) \<Longrightarrow> ds_live (slots ! i) \<and> slots' ! i = slots ! i \<and> i \<noteq> idx lo" if "i < 512" for i
  proof -
    assume lv: "ds_live (slots' ! i)"
    have "i \<noteq> idx lo"
    proof
      assume i: "i = idx lo"
      have "ds_live (slots ! i)" using lv l that by (auto simp: slots'_def i empty_slot_def split: if_splits)
      then have "ds_esi (slots ! i) = lo"
        using so [OF that] i idx_inj [of lo "Suc n" "ds_esi (slots ! i)" lo] n by (auto simp: slot_ok_def within_def)
      then show False using lv l i \<open>ds_live (slots ! i)\<close> by (simp add: slots'_def empty_slot_def)
    qed
    then show ?thesis using lv by (auto simp: slots'_def split: if_splits)
  qed
  have "row_ok sy (lo + 1) n r" if "r \<in> set rows" "wr_coef r ! idx lo = 0" for r
  proof -
    note k = ro [OF that(1), unfolded row_ok_def]
    have "idx (wr_pivot r) \<noteq> idx lo" using k that(2) by auto
    then have "within (lo + 1) n (wr_pivot r)" using k keep by blast
    moreover have "\<forall>i < 512. wr_coef r ! i \<noteq> 0 \<longrightarrow> (\<exists>e. within (lo + 1) n e \<and> idx e = i)" using k keep that(2) by metis
    moreover have "combination sy (ids lo (Suc n)) (wr_coef r) j = combination sy (ids (lo + 1) n) (wr_coef r) j" for j
      using that(2) by (simp add: combination_def ids_Suc)
    ultimately show ?thesis using k by (simp add: row_ok_def)
  qed
  moreover have "slot_ok sy (lo + 1) n i (slots' ! i)" if "i < 512" for i
    using live' [OF that] so [OF that] keep by (auto simp: slot_ok_def)
  moreover have "apart slots' r" if "r \<in> set rows" for r using ap [OF that] live' by (auto simp: apart_def)
  ultimately show ?thesis using l or by (auto simp: win_inv_def slots'_def sorted_wrt_filter)
qed


section \<open>Moving the window keeps the invariant\<close>

definition dec_inv :: "(u32 \<Rightarrow> bytes) \<Rightarrow> WindowDecoder \<Rightarrow> bool" where
  "dec_inv sy d \<longleftrightarrow> wd_mask d = 511 \<and> win_inv sy (wd_lo d) 512 (wd_slots d) (wd_rows d) \<and>
     (if wd_started d then wd_high d = wd_lo d + 512 else wd_rows d = [] \<and> (\<forall>i < 512. \<not> ds_live (wd_slots d ! i)))"

lemma evict_state:
  assumes "wd_mask d = 511"
  shows "wd_slots (fst (evict d esi out)) = (if ds_live (wd_slots d ! idx esi) \<and> ds_esi (wd_slots d ! idx esi) = esi
      then (wd_slots d)[idx esi := empty_slot] else wd_slots d)"
    "wd_rows (fst (evict d esi out)) = filter (\<lambda>r. wr_coef r ! idx esi = 0) (wd_rows d)"
    "length (Lost (snd (evict d esi out))) \<le> Suc (length (Lost out))"
  using assms by (auto simp: evict_def dec_index_def Let_def split: prod.split)

lemma neg_step: "n < 2 ^ 31 \<Longrightarrow> sint (lo - (lo + word_of_nat n) :: u32) < 0 \<longleftrightarrow> 0 < n"
proof (cases n)
  case (Suc k)
  assume "n < 2 ^ 31"
  then have "lo \<in> set (window_ids lo (lo + word_of_nat n))" using window_ids_eq [of n lo] ids_Suc [of lo k] Suc by simp
  then have "window_ids lo (lo + word_of_nat n) \<noteq> []" by auto
  then show ?thesis using Suc by (subst (asm) window_ids.simps) (auto split: if_splits)
qed simp

lemma unat_dec: "unat (x :: u32) = Suc k \<Longrightarrow> unat (x - 1) = k"
  by (metis diff_Suc_1 unat_minus_one unat_0 nat.simps(3))

lemma evict_loop_inv:
  assumes "wd_mask d = 511" "win_inv sy (wd_lo d) n (wd_slots d) (wd_rows d)" "n \<le> 512" "512 \<le> unat (wd_high d - wd_lo d)"
  shows "\<exists>m. let (d', out') = evict_loop 512 (wd_lo d + word_of_nat n) d out in m \<le> n \<and>
     win_inv sy (wd_lo d') m (wd_slots d') (wd_rows d') \<and> wd_mask d' = 511 \<and> wd_high d' = wd_high d \<and> wd_started d' = wd_started d \<and>
     Recovered out' = Recovered out \<and> length (Lost out') \<le> length (Lost out) + (n - m) \<and>
     512 \<le> unat (wd_high d - wd_lo d') \<and> (unat (wd_high d - wd_lo d') = 512 \<or> m = 0)"
  using assms
proof (induction n arbitrary: d out)
  case 0
  then show ?case by (intro exI [of _ 0]) (simp add: evict_loop.simps)
next
  case (Suc n)
  show ?case
  proof (cases "wd_high d - wd_lo d > 512")
    case False
    then have "unat (wd_high d - wd_lo d) = 512" using Suc.prems(4) by (simp add: word_less_nat_alt)
    then show ?thesis using False Suc.prems by (intro exI [of _ "Suc n"]) (simp add: evict_loop.simps)
  next
    case True
    obtain d1 out1 where e: "evict d (wd_lo d) out = (d1, out1)" by (cases "evict d (wd_lo d) out")
    let ?d = "d1\<lparr>wd_lo := wd_lo d1 + 1\<rparr>"
    have f: "wd_lo d1 = wd_lo d" "wd_high d1 = wd_high d" "wd_mask d1 = 511" "wd_started d1 = wd_started d" "Recovered out1 = Recovered out"
      "length (Lost out1) \<le> Suc (length (Lost out))"
      using evict_fields [of d "wd_lo d" out] evict_state(3) [OF Suc.prems(1), of "wd_lo d" out] Suc.prems(1) by (simp_all add: e)
    have w: "win_inv sy (wd_lo d + 1) n (wd_slots d1) (wd_rows d1)"
      using win_evict [OF Suc.prems(2)] Suc.prems(3) evict_state(1,2) [OF Suc.prems(1), of "wd_lo d" out] by (simp add: e)
    obtain k where k: "unat (wd_high d - wd_lo d) = Suc k" "512 \<le> k" using True by (cases "unat (wd_high d - wd_lo d)") (auto simp: word_less_nat_alt)
    have k1: "unat (wd_high d - wd_lo d - 1) = k" using unat_dec [OF k(1)] .
    have "sint (wd_lo d - (wd_lo d + word_of_nat (Suc n))) < 0" using Suc.prems(3) by (subst neg_step) simp_all
    then have step: "evict_loop 512 (wd_lo d + word_of_nat (Suc n)) d out = evict_loop 512 (wd_lo ?d + word_of_nat n) ?d out1"
      using True e f(1) by (subst evict_loop.simps) (simp add: add.assoc)
    have "\<exists>m. let (d', out') = evict_loop 512 (wd_lo ?d + word_of_nat n) ?d out1 in m \<le> n \<and>
       win_inv sy (wd_lo d') m (wd_slots d') (wd_rows d') \<and> wd_mask d' = 511 \<and> wd_high d' = wd_high ?d \<and> wd_started d' = wd_started ?d \<and>
       Recovered out' = Recovered out1 \<and> length (Lost out') \<le> length (Lost out1) + (n - m) \<and>
       512 \<le> unat (wd_high ?d - wd_lo d') \<and> (unat (wd_high ?d - wd_lo d') = 512 \<or> m = 0)"
      by (rule Suc.IH) (use f w k k1 Suc.prems(3) in \<open>simp_all add: diff_diff_eq\<close>)
    then obtain m where "let (d', out') = evict_loop 512 (wd_lo ?d + word_of_nat n) ?d out1 in m \<le> n \<and>
       win_inv sy (wd_lo d') m (wd_slots d') (wd_rows d') \<and> wd_mask d' = 511 \<and> wd_high d' = wd_high ?d \<and> wd_started d' = wd_started ?d \<and>
       Recovered out' = Recovered out1 \<and> length (Lost out') \<le> length (Lost out1) + (n - m) \<and>
       512 \<le> unat (wd_high ?d - wd_lo d') \<and> (unat (wd_high ?d - wd_lo d') = 512 \<or> m = 0)" ..
    then show ?thesis unfolding step using f by (intro exI [of _ m]) (auto simp: Let_def split: prod.splits)
  qed
qed

lemma word_ranges:
  fixes x :: u32
  assumes "unat x < 2 ^ 31"
  shows "2 ^ 31 \<le> unat (x - 512) \<longleftrightarrow> unat x < 512" "unat (x + 1) = unat x + 1"
proof -
  have "unat (x - 512) = unat x - 512" if "512 \<le> unat x" using that by (simp add: unat_sub word_le_nat_alt)
  moreover have "2 ^ 31 \<le> unat (x - 512)" if "unat x < 512"
  proof -
    have "unat (512 - x) = 512 - unat x" using that by (simp add: unat_sub word_le_nat_alt)
    then have "unat (512 - x) \<le> 512" "x - 512 = - (512 - x)" "512 - x \<noteq> 0" using that by auto
    moreover have "sint (0 - (0 + word_of_nat (unat (512 - x))) :: u32) < 0" using that \<open>unat (512 - x) = 512 - unat x\<close> by (subst neg_step) auto
    ultimately show ?thesis by (simp add: sint_neg)
  qed
  ultimately show "2 ^ 31 \<le> unat (x - 512) \<longleftrightarrow> unat x < 512" using assms by fastforce
  show "unat (x + 1) = unat x + 1" using assms by (simp add: unat_word_ariths)
qed

lemma admit_inv:
  assumes "dec_inv sy d" "admit d esi out = (ok, d', out')"
  shows "dec_inv sy d'" "ok \<Longrightarrow> within (wd_lo d') 512 esi \<and> wd_started d'" "Recovered out' = Recovered out"
    "length (Lost out') \<le> length (Lost out) + 512" "\<not> ok \<Longrightarrow> d' = d" 
proof -
  have wi: "wd_mask d = 511" "win_inv sy (wd_lo d) 512 (wd_slots d) (wd_rows d)" "length (wd_slots d) = 512"
    using assms(1) by (auto simp: dec_inv_def win_inv_def)
  have "dec_inv sy d' \<and> (ok \<longrightarrow> within (wd_lo d') 512 esi \<and> wd_started d') \<and> Recovered out' = Recovered out \<and>
      length (Lost out') \<le> length (Lost out) + 512 \<and> (\<not> ok \<longrightarrow> d' = d)"
  proof (cases "wd_started d")
    case False
    then have "d' = d\<lparr>wd_started := True, wd_origin := esi, wd_high := esi + 1, wd_lo := esi + 1 - 512\<rparr>" "ok" "out' = out"
      using assms(2) wi(3) by (simp_all add: admit_def Let_def)
    moreover have "rows = []" if "rows = wd_rows d" for rows using assms(1) False that by (simp add: dec_inv_def)
    ultimately show ?thesis using assms(1) False wi win_fresh [of "wd_slots d" sy "esi + 1 - 512" 512]
      by (auto simp: dec_inv_def within_def)
  next
    case st: True
    then have hi: "wd_high d = wd_lo d + 512" using assms(1) by (simp add: dec_inv_def)
    consider "sint (esi - wd_lo d) < 0" | "0 \<le> sint (esi - wd_lo d)" "sint (esi - wd_high d) < 0" | "0 \<le> sint (esi - wd_lo d)" "0 \<le> sint (esi - wd_high d)"
      by linarith
    then show ?thesis
    proof cases
      case 1
      then have "d' = d" "out' = out" "\<not> ok" using assms(2) st wi(3) by (simp_all add: admit_def Let_def)
      then show ?thesis using assms(1) by simp
    next
      case 2
      then have "d' = d" "out' = out" "ok" using assms(2) st wi(3) by (simp_all add: admit_def Let_def)
      moreover have "within (wd_lo d) 512 esi"
        using 2 word_ranges(1) [of "esi - wd_lo d"] hi sint_neg [of "esi - wd_lo d"] sint_neg [of "esi - wd_lo d - 512"]
        by (simp add: within_def diff_diff_eq)
      ultimately show ?thesis using assms(1) st by simp
    next
      case 3
      let ?d = "d\<lparr>wd_high := esi + 1\<rparr>"
      have far: "512 \<le> unat (wd_high ?d - wd_lo ?d)"
      proof -
        have x: "unat (esi - wd_lo d) < 2 ^ 31" "\<not> 2 ^ 31 \<le> unat (esi - wd_lo d - 512)"
          using 3 hi sint_neg [of "esi - wd_lo d"] sint_neg [of "esi - wd_lo d - 512"] by (simp_all add: diff_diff_eq)
        then have "512 \<le> unat (esi - wd_lo d)" "unat (esi - wd_lo d + 1) = unat (esi - wd_lo d) + 1" using word_ranges [OF x(1)] by auto
        then show ?thesis by (simp add: algebra_simps)
      qed
      obtain d2 out2 where e: "evict_loop 512 (wd_lo ?d + word_of_nat 512) ?d out = (d2, out2)" by (cases "evict_loop 512 (wd_lo ?d + word_of_nat 512) ?d out")
      have "\<exists>m. m \<le> 512 \<and> win_inv sy (wd_lo d2) m (wd_slots d2) (wd_rows d2) \<and> wd_mask d2 = 511 \<and> wd_high d2 = esi + 1 \<and>
          wd_started d2 \<and> Recovered out2 = Recovered out \<and> length (Lost out2) \<le> length (Lost out) + (512 - m) \<and>
          512 \<le> unat (esi + 1 - wd_lo d2) \<and> (unat (esi + 1 - wd_lo d2) = 512 \<or> m = 0)"
        using evict_loop_inv [of ?d sy 512 out] wi far st unfolding e Let_def prod.case by simp
      then obtain m where m: "m \<le> 512" "win_inv sy (wd_lo d2) m (wd_slots d2) (wd_rows d2)" "wd_mask d2 = 511" "wd_high d2 = esi + 1"
        "wd_started d2" "Recovered out2 = Recovered out" "length (Lost out2) \<le> length (Lost out) + (512 - m)"
        "512 \<le> unat (esi + 1 - wd_lo d2)" "unat (esi + 1 - wd_lo d2) = 512 \<or> m = 0" by blast
      have l: "length (wd_slots d2) = 512" using m(2) by (simp add: win_inv_def)
      have a: "ok" "out' = out2" "d' = (if wd_high d2 - wd_lo d2 > 512 then d2\<lparr>wd_lo := wd_high d2 - 512\<rparr> else d2)"
        using assms(2) 3 st wi(3) e by (simp_all add: admit_def Let_def)
      show ?thesis
      proof (cases "wd_high d2 - wd_lo d2 > 512")
        case True
        then have "m = 0" using m(4,9) by (auto simp: word_less_nat_alt)
        then have z: "wd_rows d2 = []" "\<forall>i < 512. \<not> ds_live (wd_slots d2 ! i)" using win_empty m(2) by blast+
        then have "dec_inv sy d'" using a(3) True m(3,5) win_fresh [OF l] by (simp add: dec_inv_def)
        moreover have "within (wd_lo d') 512 esi" using a(3) True m(4) by (simp add: within_def)
        ultimately show ?thesis using a m by (simp split: if_splits)
      next
        case False
        then have h: "unat (wd_high d2 - wd_lo d2) = 512" using m(4,8) by (simp add: word_less_nat_alt)
        then have "wd_high d2 - wd_lo d2 = 512" by (intro unsigned_word_eqI) simp
        then have hi2: "wd_high d2 = wd_lo d2 + 512" by (simp add: diff_eq_eq add.commute)
        then have "dec_inv sy d'" using a(3) False m(1-3,5) win_grow [OF m(2)] by (simp add: dec_inv_def)
        moreover have "esi = wd_lo d2 + 511" using hi2 m(4) by (simp add: eq_diff_eq [symmetric])
        then have "within (wd_lo d') 512 esi" using a(3) False by (simp add: within_def)
        ultimately show ?thesis using a m False by simp
      qed
    qed
  qed
  then show "dec_inv sy d'" "ok \<Longrightarrow> within (wd_lo d') 512 esi \<and> wd_started d'" "Recovered out' = Recovered out"
    "length (Lost out') \<le> length (Lost out) + 512" "\<not> ok \<Longrightarrow> d' = d" by auto
qed

end
