(* ===== verification/FecSolve.thy ===== *)
theory FecSolve
  imports FecInv
begin

text \<open>
  The decoder's linear system keeps its invariant: substituting a symbol, harvesting rows with one unknown
  left, inserting a repair. What is harvested is the symbol that was sent. The one condition is that a
  source symbol does not arrive while it is the pivot of a held row (\<open>overtaken\<close>): the last section shows
  what the code does then.
\<close>

section \<open>Reading the system\<close>

lemma lead_foldl:
  "foldl (\<lambda>(pivot, count) esi. if coef ! f esi = 0 then (pivot, count) else (if count = 0 then esi else pivot, count + 1)) (p, c) es =
     (if c = 0 then (case filter (\<lambda>e. coef ! f e \<noteq> 0) es of [] \<Rightarrow> (p, 0) | q # qs \<Rightarrow> (q, Suc (length qs)))
      else (p, c + length (filter (\<lambda>e. coef ! f e \<noteq> 0) es)))"
  for coef :: bytes and c :: nat
  by (induction es arbitrary: p c) auto

lemma leading_eq:
  "leading d coef = (case filter (\<lambda>e. coef ! dec_index d e \<noteq> 0) (dec_ids d) of [] \<Rightarrow> (0, 0) | q # qs \<Rightarrow> (q, Suc (length qs)))"
  by (simp add: leading_def lead_foldl)

definition running :: "(u32 \<Rightarrow> bytes) \<Rightarrow> WindowDecoder \<Rightarrow> bool" where
  "running sy d \<longleftrightarrow> dec_inv sy d \<and> wd_started d"

lemma running_ids: "running sy d \<Longrightarrow> dec_ids d = ids (wd_lo d) 512" "running sy d \<Longrightarrow> dec_index d = idx"
  using window_ids_eq [of 512 "wd_lo d"] by (auto simp: running_def dec_inv_def dec_ids_def dec_index_def)

lemma running_parts:
  assumes "running sy d"
  shows "length (wd_slots d) = 512" "\<And>i. i < 512 \<Longrightarrow> slot_ok sy (wd_lo d) 512 i (wd_slots d ! i)"
    "\<And>r. r \<in> set (wd_rows d) \<Longrightarrow> row_ok sy (wd_lo d) 512 r" "\<And>r. r \<in> set (wd_rows d) \<Longrightarrow> apart (wd_slots d) r" "sorted_wrt orth (wd_rows d)"
  using assms by (auto simp: running_def dec_inv_def win_inv_def)

lemma running_rows:
  assumes "running sy d" "\<And>r. r \<in> set rows \<Longrightarrow> row_ok sy (wd_lo d) 512 r \<and> apart (wd_slots d) r" "sorted_wrt orth rows"
  shows "running sy (d\<lparr>wd_rows := rows\<rparr>)"
  using assms by (simp add: running_def dec_inv_def win_inv_def)

lemma idx_surj: "i < 512 \<Longrightarrow> \<exists>e. within lo 512 e \<and> idx e = i"
proof -
  assume i: "i < 512"
  let ?k = "(i + 512 - unat lo mod 512) mod 512"
  have m: "unat lo mod 512 < 512" by simp
  have "(unat lo + ?k) mod 512 = (unat lo mod 512 + (i + 512 - unat lo mod 512)) mod 512" by (metis mod_add_left_eq mod_add_right_eq)
  also have "\<dots> = i" using i m by simp
  finally have "idx (lo + word_of_nat ?k) = i" by (simp add: idx_offset)
  moreover have "within lo 512 (lo + word_of_nat ?k)" by (simp add: within_def unat_of_nat)
  ultimately show ?thesis by blast
qed

section \<open>Substitution\<close>

lemma combination_zero_at:
  assumes "length coef = 512" "within lo 512 e"
  shows "combination sy (ids lo 512) (coef[idx e := 0]) j = combination sy (ids lo 512) coef j XOR gfMul (coef ! idx e) (pad (sy e) j)"
proof -
  have "e \<in> set (ids lo 512)" using assms(2) by (simp add: set_ids)
  moreover have "(coef[idx e := 0]) ! idx x = coef ! idx x" if "x \<in> set (ids lo 512)" "x \<noteq> e" for x
  proof -
    have "idx e \<noteq> idx x" using idx_inj [of lo 512 x e] that assms by (auto simp: set_ids)
    then show ?thesis by (rule nth_list_update_neq)
  qed
  ultimately show ?thesis unfolding combination_def
    by (intro gf.gsum_drop) (use assms(1) distinct_ids [of 512 lo] in auto)
qed

lemma substitute_row_fields:
  "wr_pivot (substitute_row i v r) = wr_pivot r" "length (wr_coef (substitute_row i v r)) = length (wr_coef r)"
  "i < length (wr_coef r) \<Longrightarrow> wr_coef (substitute_row i v r) ! k = (if k = i then 0 else wr_coef r ! k)"
  by (auto simp: substitute_row_def Let_def)

lemma substitute_row_ok:
  assumes "row_ok sy lo 512 r" "within lo 512 e" "same_symbol v (sy e)" "wr_pivot r \<noteq> e"
  shows "row_ok sy lo 512 (substitute_row (idx e) v r)"
proof (cases "wr_coef r ! idx e = 0")
  case True
  then show ?thesis using assms(1) by (simp add: substitute_row_def)
next
  case False
  note k = assms(1) [unfolded row_ok_def]
  have "idx (wr_pivot r) \<noteq> idx e" using idx_inj [of lo 512 "wr_pivot r" e] k assms(2,4) by auto
  moreover have "pad (addScaled (wr_coef r ! idx e) v (fec_ensure (wr_data r) (length v))) j = combination sy (ids lo 512) ((wr_coef r)[idx e := 0]) j" for j
    using k combination_zero_at [OF _ assms(2)] assms(3) by (simp add: pad_add_ensure same_symbol_def)
  ultimately show ?thesis using False k by (auto simp: substitute_row_def Let_def row_ok_def nth_list_update)
qed

lemma substitute_inv:
  assumes run: "running sy d" and w: "within (wd_lo d) 512 e" and v: "same_symbol v (sy e)"
    and piv: "\<forall>r \<in> set (wd_rows d). wr_pivot r \<noteq> e" and s: "substitute d e v out rec = (d', out')"
  shows "running sy d'" "wd_lo d' = wd_lo d" "Lost out' = Lost out"
    "Recovered out' = Recovered out \<or> Recovered out' = Recovered out @ [(e, v)]"
    "\<not> ds_live (wd_slots d ! idx e) \<Longrightarrow> rec \<Longrightarrow> Recovered out' = Recovered out @ [(e, v)]"
proof -
  note ix = running_ids(2) [OF run] and p = running_parts [OF run]
  have same: "ds_known (wd_slots d ! idx e) \<and> ds_esi (wd_slots d ! idx e) = e" if "ds_live (wd_slots d ! idx e)"
    using p(2) [OF idx_less, of e] that idx_inj [OF _ w, of "ds_esi (wd_slots d ! idx e)"] by (auto simp: slot_ok_def)
  have "running sy d' \<and> wd_lo d' = wd_lo d \<and> Lost out' = Lost out \<and> (Recovered out' = Recovered out \<or> Recovered out' = Recovered out @ [(e, v)]) \<and>
     (\<not> ds_live (wd_slots d ! idx e) \<longrightarrow> rec \<longrightarrow> Recovered out' = Recovered out @ [(e, v)])"
  proof (cases "ds_live (wd_slots d ! idx e)")
    case True
    then show ?thesis using same s run by (simp add: substitute_def ix Let_def)
  next
    case False
    let ?slots = "(wd_slots d)[idx e := \<lparr>ds_esi = e, ds_vector = v, ds_live = True, ds_known = True\<rparr>]"
    let ?rows = "map (substitute_row (idx e) v) (wd_rows d)"
    have d': "wd_slots d' = ?slots" "wd_rows d' = ?rows" "wd_mask d' = wd_mask d" "wd_lo d' = wd_lo d" "wd_high d' = wd_high d" "wd_started d' = wd_started d"
      "Lost out' = Lost out" "Recovered out' = (if rec then Recovered out @ [(e, v)] else Recovered out)"
      using s False by (auto simp: substitute_def ix Let_def split: if_splits)
    have l: "length (wr_coef r) = 512" if "r \<in> set (wd_rows d)" for r using p(3) [OF that] by (simp add: row_ok_def)
    have "slot_ok sy (wd_lo d) 512 i (?slots ! i)" if "i < 512" for i
      using p(1) p(2) [OF that] w v that by (cases "i = idx e") (simp_all add: slot_ok_def)
    moreover have "row_ok sy (wd_lo d) 512 r \<and> apart ?slots r" if rm: "r \<in> set ?rows" for r
    proof -
      obtain r0 where r0: "r0 \<in> set (wd_rows d)" "r = substitute_row (idx e) v r0" using rm by auto
      have "row_ok sy (wd_lo d) 512 r" unfolding r0(2) by (rule substitute_row_ok [OF p(3) [OF r0(1)] w v]) (use piv r0(1) in blast)
      moreover have "apart ?slots r" unfolding r0(2) apart_def
        using p(4) [OF r0(1)] p(1) l [OF r0(1)] by (auto simp: substitute_row_fields apart_def nth_list_update)
      ultimately show ?thesis by blast
    qed
    moreover have "sorted_wrt orth ?rows" unfolding sorted_wrt_map
      by (rule sorted_wrt_mono_rel [OF _ p(5)]) (auto simp: orth_def substitute_row_fields l)
    ultimately have "win_inv sy (wd_lo d') 512 (wd_slots d') (wd_rows d')" using p(1) by (simp add: d' win_inv_def del: set_map)
    then have "running sy d'" using run by (auto simp: running_def dec_inv_def d')
    then show ?thesis using d' by auto
  qed
  then show "running sy d'" "wd_lo d' = wd_lo d" "Lost out' = Lost out"
    "Recovered out' = Recovered out \<or> Recovered out' = Recovered out @ [(e, v)]"
    "\<not> ds_live (wd_slots d ! idx e) \<Longrightarrow> rec \<Longrightarrow> Recovered out' = Recovered out @ [(e, v)]" by blast+
qed

section \<open>Harvest\<close>

definition all_true :: "(u32 \<Rightarrow> bytes) \<Rightarrow> Delivery \<Rightarrow> bool" where
  "all_true sy out \<longleftrightarrow> (\<forall>(e, v) \<in> set (Recovered out). same_symbol v (sy e))"

lemma sorted_remove_at: "sorted_wrt P xs \<Longrightarrow> i < length xs \<Longrightarrow> sorted_wrt P (remove_at i xs)"
  by (subst (asm) id_take_nth_drop [of i xs]) (auto simp: remove_at_def sorted_wrt_append)

lemma remove_at_orth:
  assumes "sorted_wrt orth xs" "i < length xs" "r \<in> set (remove_at i xs)"
  shows "orth (xs ! i) r \<and> r \<in> set xs"
proof -
  have s: "sorted_wrt orth (take i xs @ xs ! i # drop (Suc i) xs)" using assms(1) id_take_nth_drop [OF assms(2)] by simp
  have "r \<in> set (take i xs) \<or> r \<in> set (drop (Suc i) xs)" using assms(3) by (auto simp: remove_at_def)
  then show ?thesis using s by (auto simp: sorted_wrt_append orth_def dest: in_set_takeD in_set_dropD)
qed

lemma single_unknown:
  assumes "row_ok sy lo 512 r" "filter (\<lambda>e. wr_coef r ! idx e \<noteq> 0) (ids lo 512) = [q]"
  shows "q = wr_pivot r" "same_symbol (wr_data r) (sy q)"
proof -
  note k = assms(1) [unfolded row_ok_def]
  have "wr_pivot r \<in> set (filter (\<lambda>e. wr_coef r ! idx e \<noteq> 0) (ids lo 512))" using k by (simp add: set_ids)
  then show q: "q = wr_pivot r" using assms(2) by simp
  have z: "wr_coef r ! idx x = 0" if "x \<in> set (ids lo 512)" "x \<noteq> q" for x
  proof -
    have "set (filter (\<lambda>e. wr_coef r ! idx e \<noteq> 0) (ids lo 512)) = {q}" using assms(2) by simp
    then show ?thesis using that by auto
  qed
  have "q \<in> set (ids lo 512)" using k q by (simp add: set_ids)
  then have "combination sy (ids lo 512) (wr_coef r) j = gfMul (wr_coef r ! idx q) (pad (sy q) j)" for j
    unfolding combination_def using distinct_ids [of 512 lo] z by (intro gf.gsum_single) auto
  then show "same_symbol (wr_data r) (sy q)" using k q by (simp add: same_symbol_def)
qed

text \<open>One row taken out of the system, and the one whose last unknown is read off.\<close>

lemma running_remove:
  assumes run: "running sy d" and i: "i < length (wd_rows d)"
  shows "running sy (d\<lparr>wd_rows := remove_at i (wd_rows d)\<rparr>)"
  by (rule running_rows [OF run]) (use remove_at_orth [OF running_parts(5) [OF run] i] running_parts(3,4) [OF run] sorted_remove_at [OF running_parts(5) [OF run] i] in auto)

lemma pass_single:
  assumes run: "running sy d" and i: "i < length (wd_rows d)" and l: "leading d (wr_coef (wd_rows d ! i)) = (q, 1)"
  shows "within (wd_lo d) 512 q" "q = wr_pivot (wd_rows d ! i)" "same_symbol (wr_data (wd_rows d ! i)) (sy q)"
    "\<forall>r \<in> set (remove_at i (wd_rows d)). wr_coef r ! idx q = 0" "\<forall>r \<in> set (remove_at i (wd_rows d)). wr_pivot r \<noteq> q"
proof -
  let ?r = "wd_rows d ! i"
  note pt = running_parts [OF run]
  have ri: "?r \<in> set (wd_rows d)" using i by simp
  have "filter (\<lambda>e. wr_coef ?r ! idx e \<noteq> 0) (ids (wd_lo d) 512) = [q]"
    using l by (auto simp: leading_eq running_ids [OF run] split: list.splits)
  note su = single_unknown [OF pt(3) [OF ri] this]
  show "q = wr_pivot ?r" "same_symbol (wr_data ?r) (sy q)" by (rule su)+
  show "within (wd_lo d) 512 q" using pt(3) [OF ri] su(1) by (simp add: row_ok_def)
  have z: "wr_coef r ! idx q = 0 \<and> wr_coef r ! idx (wr_pivot r) = 1" if "r \<in> set (remove_at i (wd_rows d))" for r
    using remove_at_orth [OF pt(5) i that] pt(3) [of r] su(1) by (auto simp: orth_def row_ok_def)
  then show "\<forall>r \<in> set (remove_at i (wd_rows d)). wr_coef r ! idx q = 0" by blast
  show "\<forall>r \<in> set (remove_at i (wd_rows d)). wr_pivot r \<noteq> q" using z by force
qed

lemma harvest_pass_inv:
  "running sy d \<Longrightarrow> all_true sy out \<Longrightarrow> harvest_pass i d out p = (d', out', p') \<Longrightarrow>
     running sy d' \<and> all_true sy out' \<and> Lost out' = Lost out"
proof (induction i d out p arbitrary: d' out' p' rule: harvest_pass.induct)
  case (1 i d out p)
  show ?case
  proof (cases "i < length (wd_rows d)")
    case False
    then show ?thesis using "1.prems" by (simp add: harvest_pass.simps)
  next
    case True
    note run = "1.prems"(1)
    obtain q n where l: "leading d (wr_coef (wd_rows d ! i)) = (q, n)" by (cases "leading d (wr_coef (wd_rows d ! i))")
    let ?r = "wd_rows d ! i" and ?d = "d\<lparr>wd_rows := remove_at i (wd_rows d)\<rparr>"
    note run1 = running_remove [OF run True]
    consider "n = 0" | "n > 1" | "n = 1" by linarith
    then show ?thesis
    proof cases
      case 1
      then show ?thesis using "1.IH"(1) [OF True refl l [symmetric] refl 1 run1 "1.prems"(2)] "1.prems"(3) True l
        by (subst (asm) (2) harvest_pass.simps) (simp add: Let_def)
    next
      case 2
      then show ?thesis using "1.IH"(2) [OF True refl l [symmetric] refl _ 2 run "1.prems"(2)] "1.prems"(3) True l
        by (subst (asm) (2) harvest_pass.simps) (simp add: Let_def)
    next
      case 3
      note su = pass_single [OF run True l [unfolded 3]]
      obtain d1 out1 where s: "substitute ?d q (wr_data ?r) out True = (d1, out1)" by (cases "substitute ?d q (wr_data ?r) out True")
      note si = substitute_inv [OF run1 _ su(3) _ s, simplified, OF su(1,5)]
      have at: "all_true sy out1" using si(4) "1.prems"(2) su(3) by (auto simp: all_true_def)
      have step: "harvest_pass i d out p = harvest_pass i d1 out1 True" using True l 3 s by (subst harvest_pass.simps) (simp add: Let_def)
      show ?thesis
        using "1.IH"(3) [OF True refl l [symmetric] refl _ _ s [symmetric] refl si(1) at] "1.prems"(3) 3 si(3) unfolding step by simp
    qed
  qed
qed

lemma harvest_inv: "running sy d \<Longrightarrow> all_true sy out \<Longrightarrow> harvest d out = (d', out') \<Longrightarrow> running sy d' \<and> all_true sy out' \<and> Lost out' = Lost out"
proof (induction d out arbitrary: d' out' rule: harvest.induct)
  case (1 d out)
  obtain d1 out1 p where h: "harvest_pass 0 d out False = (d1, out1, p)" by (cases "harvest_pass 0 d out False") auto
  note i = harvest_pass_inv [OF "1.prems"(1,2) h]
  show ?case
  proof (cases p)
    case True
    then show ?thesis using "1.IH" [OF h [symmetric] refl refl True] i "1.prems"(3) h by (subst (asm) (2) harvest.simps) simp
  next
    case False
    then show ?thesis using i "1.prems"(3) h by (subst (asm) harvest.simps) simp
  qed
qed


section \<open>Insertion of an equation\<close>

text \<open>An equation under reduction: true, and zero at the slots in \<open>Z\<close>.\<close>

definition eqn :: "(u32 \<Rightarrow> bytes) \<Rightarrow> u32 \<Rightarrow> nat set \<Rightarrow> bytes \<times> bytes \<Rightarrow> bool" where
  "eqn sy lo Z cd \<longleftrightarrow> length (fst cd) = 512 \<and> (\<forall>i \<in> Z. fst cd ! i = 0) \<and> (\<forall>j. pad (snd cd) j = combination sy (ids lo 512) (fst cd) j)"

lemma combination_add:
  assumes "length a = 512" "length b = 512"
  shows "combination sy es (mulSliceXor c a b) j = combination sy es b j XOR gfMul c (combination sy es a j)"
  unfolding combination_def
  by (simp add: nth_mulSliceXor assms gfMul_xor gfMul_assoc gf.gsum_xor gf.gsum_mul)

lemma combination_scale:
  assumes "length a = 512"
  shows "combination sy es (scaleBytes f a) j = gfMul f (combination sy es a j)"
  unfolding combination_def by (simp add: nth_scaleBytes assms gfMul_assoc gf.gsum_mul)

lemma known_step:
  assumes run: "running sy d" and e: "within (wd_lo d) 512 e" and q: "eqn sy (wd_lo d) Z cd"
  shows "eqn sy (wd_lo d) (if ds_live (wd_slots d ! idx e) then insert (idx e) Z else Z) (insert_known d cd e)"
proof -
  obtain coef data where cd: "cd = (coef, data)" by (cases cd)
  note ix = running_ids(2) [OF run] and so = running_parts(2) [OF run idx_less, of e]
  have l: "length coef = 512" "\<forall>i \<in> Z. coef ! i = 0" "\<And>j. pad data j = combination sy (ids (wd_lo d) 512) coef j"
    using q by (auto simp: eqn_def cd)
  show ?thesis
  proof (cases "coef ! idx e \<noteq> 0 \<and> ds_live (wd_slots d ! idx e)")
    case True
    then have s: "ds_known (wd_slots d ! idx e)" "ds_esi (wd_slots d ! idx e) = e" "same_symbol (ds_vector (wd_slots d ! idx e)) (sy e)"
      using so idx_inj [OF _ e, of "ds_esi (wd_slots d ! idx e)"] by (auto simp: slot_ok_def)
    then show ?thesis using True l combination_zero_at [OF l(1) e]
      by (auto simp: insert_known_def cd ix Let_def eqn_def pad_add_ensure same_symbol_def nth_list_update)
  next
    case False
    then show ?thesis using l so by (auto simp: insert_known_def cd ix Let_def eqn_def slot_ok_def)
  qed
qed

lemma known_loop:
  assumes run: "running sy d" and q: "eqn sy (wd_lo d) Z cd" and es: "\<And>e. e \<in> set es \<Longrightarrow> within (wd_lo d) 512 e"
  shows "eqn sy (wd_lo d) (Z \<union> {idx e |e. e \<in> set es \<and> ds_live (wd_slots d ! idx e)}) (foldl (insert_known d) cd es)"
  using q es
proof (induction es arbitrary: cd Z)
  case (Cons e es)
  have "eqn sy (wd_lo d) (if ds_live (wd_slots d ! idx e) then insert (idx e) Z else Z) (insert_known d cd e)"
    by (rule known_step [OF run _ Cons.prems(1)]) (simp add: Cons.prems(2))
  note ih = Cons.IH [OF this]
  have "(if ds_live (wd_slots d ! idx e) then insert (idx e) Z else Z) \<union> {idx e |e. e \<in> set es \<and> ds_live (wd_slots d ! idx e)} =
      Z \<union> {idx x |x. x \<in> set (e # es) \<and> ds_live (wd_slots d ! idx x)}" by auto
  then show ?case using ih Cons.prems(2) by simp
qed simp

lemma reduce_step:
  assumes run: "running sy d" and q: "eqn sy (wd_lo d) Z cd" and r: "row_ok sy (wd_lo d) 512 r" "\<forall>i \<in> Z. wr_coef r ! i = 0"
    and z: "\<forall>i \<in> Z. i < 512"
  shows "eqn sy (wd_lo d) (insert (idx (wr_pivot r)) Z) (insert_reduce d cd r)"
proof -
  obtain coef data where cd: "cd = (coef, data)" by (cases cd)
  note ix = running_ids(2) [OF run]
  have l: "length coef = 512" "\<forall>i \<in> Z. coef ! i = 0" "\<And>j. pad data j = combination sy (ids (wd_lo d) 512) coef j"
    using q by (auto simp: eqn_def cd)
  note k = r(1) [unfolded row_ok_def]
  show ?thesis
  proof (cases "coef ! idx (wr_pivot r) = 0")
    case True
    then show ?thesis using l by (simp add: insert_reduce_def cd ix Let_def eqn_def)
  next
    case False
    then show ?thesis using l k r(2) z combination_add [of "wr_coef r" coef]
      by (simp add: insert_reduce_def cd ix Let_def eqn_def pad_add_ensure nth_mulSliceXor)
  qed
qed

lemma reduce_loop:
  assumes run: "running sy d"
  shows "\<lbrakk>eqn sy (wd_lo d) Z cd; \<forall>i \<in> Z. i < 512; \<forall>r \<in> set rs. row_ok sy (wd_lo d) 512 r \<and> (\<forall>i \<in> Z. wr_coef r ! i = 0); sorted_wrt orth rs\<rbrakk> \<Longrightarrow>
     eqn sy (wd_lo d) (Z \<union> (\<lambda>r. idx (wr_pivot r)) ` set rs) (foldl (insert_reduce d) cd rs)"
proof (induction rs arbitrary: cd Z)
  case (Cons r rs)
  have "eqn sy (wd_lo d) (insert (idx (wr_pivot r)) Z) (insert_reduce d cd r)"
    by (rule reduce_step [OF run Cons.prems(1)]) (use Cons.prems in auto)
  then show ?case using Cons.IH [of "insert (idx (wr_pivot r)) Z" "insert_reduce d cd r"] Cons.prems by (simp add: orth_def)
qed simp

lemma clear_row_ok:
  assumes r: "row_ok sy lo 512 r" and n: "row_ok sy lo 512 row" and z: "wr_coef row ! idx (wr_pivot r) = 0"
  shows "row_ok sy lo 512 (insert_clear (idx (wr_pivot row)) row r)"
proof (cases "wr_coef r ! idx (wr_pivot row) = 0")
  case False
  then show ?thesis using r n z combination_add [of "wr_coef row" "wr_coef r"] idx_surj [of _ lo]
    by (simp add: insert_clear_def Let_def row_ok_def pad_add_ensure nth_mulSliceXor)
qed (use r in \<open>simp add: insert_clear_def\<close>)

lemma insert_clear_fields:
  "length (wr_coef r) = 512 \<Longrightarrow> length (wr_coef row) = 512 \<Longrightarrow> k < 512 \<Longrightarrow>
     wr_coef (insert_clear i row r) ! k = wr_coef r ! k XOR gfMul (wr_coef r ! i) (wr_coef row ! k)"
  "wr_pivot (insert_clear i row r) = wr_pivot r"
  by (simp_all add: insert_clear_def Let_def nth_mulSliceXor)

text \<open>The rows \<open>insert\<close> hands to \<open>harvest\<close>, when the equation is not already implied.\<close>

lemma insert_ready:
  assumes run: "running sy d" and len: "length coef = 512" and eq: "\<And>j. pad data j = combination sy (ids (wd_lo d) 512) coef j"
    and k1: "foldl (insert_known d) (coef, data) (dec_ids d) = (c1, x1)" and k2: "foldl (insert_reduce d) (c1, x1) (wd_rows d) = (c2, x2)"
    and ld: "leading d c2 = (p, Suc n)" and f_def: "f = gf_inv (c2 ! idx p)"
    and row_def: "row = \<lparr>wr_pivot = p, wr_coef = scaleBytes f c2, wr_data = scaleBytes f x2\<rparr>"
  shows "running sy (d\<lparr>wd_rows := map (insert_clear (idx p) row) (wd_rows d) @ [row]\<rparr>)"
    "dec_insert d coef data out = harvest (d\<lparr>wd_rows := map (insert_clear (idx p) row) (wd_rows d) @ [row]\<rparr>) out"
proof -
  note ix = running_ids [OF run] and pt = running_parts [OF run]
  let ?lo = "wd_lo d"
  let ?K = "{idx e |e. e \<in> set (ids ?lo 512) \<and> ds_live (wd_slots d ! idx e)}"
  have "eqn sy ?lo ({} \<union> ?K) (c1, x1)" unfolding k1 [symmetric] ix(1)
    by (rule known_loop [OF run]) (use len eq in \<open>auto simp: eqn_def set_ids\<close>)
  then have "eqn sy ?lo (?K \<union> (\<lambda>r. idx (wr_pivot r)) ` set (wd_rows d)) (c2, x2)" unfolding k2 [symmetric]
    by (intro reduce_loop [OF run]) (use pt(3-5) in \<open>auto simp: apart_def\<close>)
  then have q: "length c2 = 512" "\<And>i. i \<in> ?K \<Longrightarrow> c2 ! i = 0" "\<And>r. r \<in> set (wd_rows d) \<Longrightarrow> c2 ! idx (wr_pivot r) = 0"
    "\<And>j. pad x2 j = combination sy (ids ?lo 512) c2 j" by (auto simp: eqn_def)
  have "scaleBytes 1 b = b" for b by (simp add: scaleBytes_def)
  then show "dec_insert d coef data out = harvest (d\<lparr>wd_rows := map (insert_clear (idx p) row) (wd_rows d) @ [row]\<rparr>) out"
    using k1 k2 ld by (simp add: dec_insert_def ix(2) Let_def f_def row_def)
  obtain ps where ps: "filter (\<lambda>e. c2 ! idx e \<noteq> 0) (ids ?lo 512) = p # ps"
    using ld by (auto simp: leading_eq ix split: list.splits)
  have "p \<in> set (filter (\<lambda>e. c2 ! idx e \<noteq> 0) (ids ?lo 512))" unfolding ps by simp
  then have p: "within ?lo 512 p" "c2 ! idx p \<noteq> 0" by (auto simp: set_ids)
  have rok: "row_ok sy ?lo 512 row"
    using q p idx_surj [of _ ?lo] gf_inv_mul [OF p(2)] combination_scale [OF q(1)]
    by (simp add: row_ok_def row_def nth_scaleBytes f_def pad_scaleBytes)
  have zero: "wr_coef row ! i = 0" if "i < 512" "c2 ! i = 0" for i using that q(1) by (simp add: row_def nth_scaleBytes)
  have live: "i \<in> ?K" if "i < 512" "ds_live (wd_slots d ! i)" for i
    using pt(2) [OF that(1)] that by (force simp: slot_ok_def set_ids)
  have apn: "apart (wd_slots d) row" unfolding apart_def using zero live q(2) by blast
  have pz: "wr_coef row ! idx (wr_pivot r) = 0" if "r \<in> set (wd_rows d)" for r using zero q(3) [OF that] by simp
  have ln: "length (wr_coef r) = 512" if "r \<in> set (wd_rows d)" for r using pt(3) [OF that] by (simp add: row_ok_def)
  have lr: "length (wr_coef row) = 512" "wr_coef row ! idx p = 1" "wr_pivot row = p" using rok by (simp_all add: row_ok_def row_def)
  show "running sy (d\<lparr>wd_rows := map (insert_clear (idx p) row) (wd_rows d) @ [row]\<rparr>)"
  proof (rule running_rows [OF run])
    fix r assume "r \<in> set (map (insert_clear (idx p) row) (wd_rows d) @ [row])"
    then consider "r = row" | r0 where "r0 \<in> set (wd_rows d)" "r = insert_clear (idx p) row r0" by auto
    then show "row_ok sy ?lo 512 r \<and> apart (wd_slots d) r"
    proof cases
      case 2
      have "apart (wd_slots d) r" using pt(4) [OF 2(1)] apn ln [OF 2(1)] lr(1) by (simp add: 2(2) apart_def insert_clear_fields)
      then show ?thesis using clear_row_ok [OF pt(3) [OF 2(1)] rok pz [OF 2(1)]] lr(3) by (simp add: 2(2))
    qed (use rok apn in simp)
  next
    have "sorted_wrt (\<lambda>x y. orth (insert_clear (idx p) row x) (insert_clear (idx p) row y)) (wd_rows d)"
      by (rule sorted_wrt_mono_rel [OF _ pt(5)]) (auto simp: orth_def insert_clear_fields ln lr pz)
    then show "sorted_wrt orth (map (insert_clear (idx p) row) (wd_rows d) @ [row])"
      by (auto simp: sorted_wrt_append sorted_wrt_map orth_def insert_clear_fields ln lr pz)
  qed
qed

lemma insert_inv:
  assumes run: "running sy d" and len: "length coef = 512" and eq: "\<And>j. pad data j = combination sy (ids (wd_lo d) 512) coef j"
    and at: "all_true sy out" and s: "dec_insert d coef data out = (d', out')"
  shows "running sy d' \<and> all_true sy out' \<and> Lost out' = Lost out"
proof -
  obtain c1 x1 where k1: "foldl (insert_known d) (coef, data) (dec_ids d) = (c1, x1)" by (cases "foldl (insert_known d) (coef, data) (dec_ids d)")
  obtain c2 x2 where k2: "foldl (insert_reduce d) (c1, x1) (wd_rows d) = (c2, x2)" by (cases "foldl (insert_reduce d) (c1, x1) (wd_rows d)")
  obtain p n where ld: "leading d c2 = (p, n)" by (cases "leading d c2")
  show ?thesis
  proof (cases n)
    case 0
    then have "d' = d\<lparr>wd_discarded := wd_discarded d + 1\<rparr>" "out' = out" using s k1 k2 ld by (simp_all add: dec_insert_def)
    then show ?thesis using run at by (simp add: running_def dec_inv_def)
  next
    case (Suc m)
    note ready = insert_ready [OF run len eq k1 k2 ld [unfolded Suc] refl refl]
    from harvest_inv [OF ready(1) at] ready(2) s show ?thesis by metis
  qed
qed


section \<open>Arrivals\<close>

text \<open>A source symbol is overtaken when a held row has it as its pivot.\<close>

definition overtaken :: "WindowDecoder \<Rightarrow> u32 \<Rightarrow> bool" where
  "overtaken d e \<longleftrightarrow> (\<exists>r \<in> set (wd_rows d). wr_pivot r = e)"

definition true_repair :: "(u32 \<Rightarrow> bytes) \<Rightarrow> RepairSymbol \<Rightarrow> bool" where
  "true_repair sy r \<longleftrightarrow> (\<forall>j. pad (Vector r) j =
     gf.gsum (\<lambda>i. gfMul (windowCoefficient (RID r) i) (pad (sy (First r + word_of_nat i)) j)) [0..<nat (Count r)])"

lemma witness_fields [simp]:
  "wd_rows (witness_esi d e) = wd_rows d" "wd_slots (witness_esi d e) = wd_slots d" "wd_lo (witness_esi d e) = wd_lo d"
  "wd_high (witness_esi d e) = wd_high d" "wd_mask (witness_esi d e) = wd_mask d" "wd_started (witness_esi d e) = wd_started d"
  by (simp_all add: witness_esi_def)

lemma running_witness: "running sy d \<Longrightarrow> running sy (witness_esi d e)"
  by (simp add: running_def dec_inv_def)

lemma evict_rows: "wd_rows (fst (evict d esi out)) = filter (\<lambda>r. wr_coef r ! dec_index d esi = 0) (wd_rows d)"
  by (auto simp: evict_def Let_def split: prod.split)

lemma evict_loop_rows: "set (wd_rows (fst (evict_loop w k d out))) \<subseteq> set (wd_rows d)"
proof (induction w k d out rule: evict_loop.induct)
  case (1 w k d out)
  obtain d1 out1 where e: "evict d (wd_lo d) out = (d1, out1)" by (cases "evict d (wd_lo d) out")
  then have "set (wd_rows d1) \<subseteq> set (wd_rows d)" using evict_rows [of d "wd_lo d" out] by simp
  then show ?case using "1.IH" [OF _ e [symmetric] refl] e by (subst evict_loop.simps) auto
qed

lemma admit_rows: "admit d esi out = (ok, d', out') \<Longrightarrow> set (wd_rows d') \<subseteq> set (wd_rows d)"
  using evict_loop_rows [of "word_of_nat (length (wd_slots d))" "wd_lo d + word_of_nat (length (wd_slots d))" "d\<lparr>wd_high := esi + 1\<rparr>" out]
  by (auto simp: admit_def Let_def split: if_splits prod.splits)

lemma no_delivery_true [simp]: "all_true sy no_delivery" "Recovered no_delivery = []" "Lost no_delivery = []"
  by (simp_all add: all_true_def no_delivery_def)

lemma admit_true: "Recovered out' = Recovered out \<Longrightarrow> all_true sy out \<Longrightarrow> all_true sy out'"
  by (simp add: all_true_def)

lemma source_inv:
  assumes inv: "dec_inv sy d" and v: "same_symbol v (sy e)" and ov: "\<not> overtaken d e" and s: "dec_source d e v = (d', out)"
  shows "dec_inv sy d' \<and> all_true sy out"
proof -
  obtain ok d1 out1 where a: "admit d e no_delivery = (ok, d1, out1)" by (cases "admit d e no_delivery")
  note ai = admit_inv [OF inv a]
  have at1: "all_true sy out1" using admit_true [OF ai(3)] by simp
  show ?thesis
  proof (cases ok)
    case False
    then show ?thesis using s a ai(1) at1 by (simp add: dec_source_def)
  next
    case True
    let ?d = "witness_esi d1 e"
    have run: "running sy ?d" using ai(1,2) True running_witness by (auto simp: running_def)
    have w: "within (wd_lo ?d) 512 e" using ai(2) True by simp
    have piv: "\<forall>r \<in> set (wd_rows ?d). wr_pivot r \<noteq> e" using ov admit_rows [OF a] by (auto simp: overtaken_def)
    obtain d3 out3 where sb: "substitute ?d e v out1 False = (d3, out3)" by (cases "substitute ?d e v out1 False")
    note si = substitute_inv [OF run w v piv sb]
    have at3: "all_true sy out3" using si(4) at1 v by (auto simp: all_true_def)
    show ?thesis
    proof (cases "ds_live (wd_slots ?d ! dec_index ?d e) \<and> ds_known (wd_slots ?d ! dec_index ?d e) \<and> ds_esi (wd_slots ?d ! dec_index ?d e) = e")
      case known: True
      then have "d' = ?d" "out = out1" using s a True by (simp_all add: dec_source_def Let_def)
      then show ?thesis using run at1 by (simp add: running_def)
    next
      case False
      then have "harvest d3 out3 = (d', out)" using s a True sb unfolding dec_source_def Let_def by (auto split: if_splits)
      from harvest_inv [OF si(1) at3 this] show ?thesis by (simp add: running_def)
    qed
  qed
qed

lemma ids_append: "ids lo (a + b) = ids lo a @ ids (lo + word_of_nat a) b"
  by (induction a arbitrary: lo) (simp_all add: ids_Suc add.assoc add_ac)

lemma gsum_map: "gf.gsum f (map g xs) = gf.gsum (\<lambda>x. f (g x)) xs"
  by (induction xs) simp_all

lemma repair_coef_spec:
  assumes run: "running sy d" and c: "nat (Count r) \<le> 512"
    and w: "\<And>i. i < nat (Count r) \<Longrightarrow> within (wd_lo d) 512 (First r + word_of_nat i)"
  shows "length (repair_coef d r) = 512 \<and> (\<forall>e. within (wd_lo d) 512 e \<longrightarrow> repair_coef d r ! idx e =
     (if \<exists>i < nat (Count r). e = First r + word_of_nat i then windowCoefficient (RID r) (unat (e - First r)) else 0))"
proof -
  note ix = running_ids(2) [OF run] and l = running_parts(1) [OF run]
  have hi: "wd_high d = wd_lo d + 512" using run by (simp add: running_def dec_inv_def)
  have inwin: "\<not> (sint (e - wd_lo d) < 0 \<or> 0 \<le> sint (e - wd_high d))" if "within (wd_lo d) 512 e" for e
    using that word_ranges(1) [of "e - wd_lo d"] sint_neg [of "e - wd_lo d"] sint_neg [of "e - wd_lo d - 512"]
    by (simp add: hi within_def diff_diff_eq)
  define f where "f = (\<lambda>coef i. let esi = First r + word_of_nat i in if sint (esi - wd_lo d) < 0 \<or> 0 \<le> sint (esi - wd_high d) then coef
     else coef[dec_index d esi := windowCoefficient (RID r) i])"
  have "length (foldl f (replicate 512 0) [0..<n]) = 512 \<and> (\<forall>e. within (wd_lo d) 512 e \<longrightarrow> foldl f (replicate 512 0) [0..<n] ! idx e =
     (if \<exists>i < n. e = First r + word_of_nat i then windowCoefficient (RID r) (unat (e - First r)) else 0))" if "n \<le> nat (Count r)" for n
    using that
  proof (induction n)
    case (Suc n)
    let ?c = "foldl f (replicate 512 0) [0..<n]" and ?e = "First r + word_of_nat n"
    have we: "within (wd_lo d) 512 ?e" using w Suc.prems by simp
    have u: "unat (word_of_nat n :: u32) = n" using Suc.prems c by (simp add: unat_of_nat)
    have st: "foldl f (replicate 512 0) [0..<Suc n] = ?c[idx ?e := windowCoefficient (RID r) n]"
      using inwin [OF we] by (simp add: f_def ix Let_def)
    have "(?c[idx ?e := windowCoefficient (RID r) n]) ! idx e =
       (if \<exists>i < Suc n. e = First r + word_of_nat i then windowCoefficient (RID r) (unat (e - First r)) else 0)" if e: "within (wd_lo d) 512 e" for e
    proof (cases "e = ?e")
      case True
      then show ?thesis using Suc u by (auto simp: less_Suc_eq)
    next
      case False
      then have "idx ?e \<noteq> idx e" using idx_inj [OF e we] by auto
      then show ?thesis using Suc e False by (auto simp: less_Suc_eq)
    qed
    then show ?case using Suc unfolding st by auto
  qed simp
  from this [of "nat (Count r)"] show ?thesis by (simp add: repair_coef_def l f_def)
qed

end
