(* ===== verification/FecStream.thy ===== *)
theory FecStream
  imports FecSolve
begin

text \<open>
  The encoder, and the coded stream from the encoder through an erasing path to the decoder: every repair
  the encoder builds is a true equation, and every symbol the decoder recovers is the one that was sent,
  as long as no source symbol arrives while a held row has it as its pivot. When one does, the decoder
  hands out a wrong symbol. The decoder's work per arrival is bounded whatever the peer sends.
\<close>

section \<open>Repairs reach the system\<close>

lemma repair_window:
  assumes "0 < c" "c \<le> 256" "0 \<le> sint (first - lo :: u32)" "within lo 512 (first + word_of_nat (c - 1))"
  shows "unat (first - lo) + c \<le> 512" "i < c \<Longrightarrow> within lo 512 (first + word_of_nat i)"
proof -
  have a: "unat (first - lo) < 2 ^ 31" using assms(3) sint_neg [of "first - lo"] by linarith
  have u: "unat (first + word_of_nat i - lo) = unat (first - lo) + i" if "i < 256" for i
  proof -
    have "first + word_of_nat i - lo = (first - lo) + word_of_nat i" by simp
    moreover have "unat ((first - lo) + word_of_nat i) = unat (first - lo) + i"
      using a that by (simp add: unat_word_ariths unat_of_nat)
    ultimately show ?thesis by argo
  qed
  show l: "unat (first - lo) + c \<le> 512" using assms(4) u [of "c - 1"] assms(1,2) by (simp add: within_def)
  show "i < c \<Longrightarrow> within lo 512 (first + word_of_nat i)" using u [of i] l assms(2) by (simp add: within_def)
qed

lemma repair_equation:
  assumes run: "running sy d" and tr: "true_repair sy r" and c: "0 < nat (Count r)" "nat (Count r) \<le> 256"
    and f: "0 \<le> sint (First r - wd_lo d)" and w: "within (wd_lo d) 512 (First r + word_of_nat (nat (Count r) - 1))"
  shows "length (repair_coef d r) = 512" "pad (Vector r) j = combination sy (ids (wd_lo d) 512) (repair_coef d r) j"
proof -
  let ?lo = "wd_lo d" and ?c = "nat (Count r)" and ?a = "unat (First r - wd_lo d)" and ?F = "First r"
  note rw = repair_window [OF c f w]
  have cs: "length (repair_coef d r) = 512 \<and> (\<forall>e. within ?lo 512 e \<longrightarrow> repair_coef d r ! idx e =
     (if \<exists>i < ?c. e = ?F + word_of_nat i then windowCoefficient (RID r) (unat (e - ?F)) else 0))"
    by (rule repair_coef_spec [OF run]) (use c rw(2) in auto)
  then show "length (repair_coef d r) = 512" by blast
  have mem: "e \<in> set (ids ?F ?c) \<longleftrightarrow> (\<exists>i < ?c. e = ?F + word_of_nat i)" for e by (auto simp: ids_def)
  have split: "ids ?lo 512 = ids ?lo ?a @ ids ?F ?c @ ids (?F + word_of_nat ?c) (512 - ?a - ?c)"
    using ids_append [of ?lo ?a "512 - ?a"] ids_append [of ?F ?c "512 - ?a - ?c"] rw(1) by simp
  have dis: "distinct (ids ?lo 512)" by (rule distinct_ids) simp
  have coef: "repair_coef d r ! idx e = (if e \<in> set (ids ?F ?c) then windowCoefficient (RID r) (unat (e - ?F)) else 0)" if "e \<in> set (ids ?lo 512)" for e
    using cs that unfolding mem by (simp add: set_ids)
  have zero: "gf.gsum (\<lambda>e. gfMul (repair_coef d r ! idx e) (pad (sy e) j)) es = 0"
    if "set es \<subseteq> set (ids ?lo 512)" "set es \<inter> set (ids ?F ?c) = {}" for es
    by (rule gf.gsum_zero) (use coef that in \<open>auto simp: subset_eq disjoint_iff\<close>)
  have d1: "set (ids ?lo ?a) \<inter> set (ids ?F ?c) = {}" "set (ids (?F + word_of_nat ?c) (512 - ?a - ?c)) \<inter> set (ids ?F ?c) = {}"
    using dis unfolding split by auto
  have s1: "set (ids ?lo ?a) \<subseteq> set (ids ?lo 512)" "set (ids (?F + word_of_nat ?c) (512 - ?a - ?c)) \<subseteq> set (ids ?lo 512)" "set (ids ?F ?c) \<subseteq> set (ids ?lo 512)"
    unfolding split by auto
  have "combination sy (ids ?lo 512) (repair_coef d r) j = gf.gsum (\<lambda>e. gfMul (repair_coef d r ! idx e) (pad (sy e) j)) (ids ?F ?c)"
    unfolding combination_def split gf.gsum_append zero [OF s1(1) d1(1)] zero [OF s1(2) d1(2)] by simp
  also have "\<dots> = gf.gsum (\<lambda>i. gfMul (windowCoefficient (RID r) i) (pad (sy (?F + word_of_nat i)) j)) [0..<?c]"
    unfolding ids_def gsum_map
  proof (rule gf.gsum_cong)
    fix i assume "i \<in> set [0..<?c]"
    then have i: "i < ?c" by simp
    then have "?F + word_of_nat i \<in> set (ids ?F ?c)" "unat (word_of_nat i :: u32) = i" using c by (auto simp: mem unat_of_nat)
    then show "gfMul (repair_coef d r ! idx (?F + word_of_nat i)) (pad (sy (?F + word_of_nat i)) j) =
        gfMul (windowCoefficient (RID r) i) (pad (sy (?F + word_of_nat i)) j)" using coef s1(3) by (simp add: subset_eq)
  qed
  finally show "pad (Vector r) j = combination sy (ids ?lo 512) (repair_coef d r) j" using tr by (simp add: true_repair_def)
qed

lemma repair_inv:
  assumes inv: "dec_inv sy d" and tr: "true_repair sy r" and s: "dec_repair d r = (d', out)"
  shows "dec_inv sy d' \<and> all_true sy out"
proof (cases "Count r \<le> 0 \<or> Vector r = [] \<or> Count r > int MaxRepairWindow")
  case True
  then show ?thesis using s inv by (auto simp: dec_repair_def dec_inv_def split: if_splits)
next
  case False
  then have c: "0 < nat (Count r)" "nat (Count r) \<le> 256" by (auto simp: MaxRepairWindow_def MaxShards_def)
  have lst: "word_of_int (Count r - 1) = (word_of_nat (nat (Count r) - 1) :: u32)"
  proof -
    have "Count r - 1 = int (nat (Count r) - 1)" using c(1) by linarith
    then have "word_of_int (Count r - 1) = (word_of_int (int (nat (Count r) - 1)) :: u32)" by (rule arg_cong)
    then show ?thesis by simp
  qed
  let ?e = "First r + word_of_int (Count r - 1)"
  obtain ok d1 out1 where a: "admit d ?e no_delivery = (ok, d1, out1)" by (cases "admit d ?e no_delivery")
  note ai = admit_inv [OF inv a]
  have at1: "all_true sy out1" using admit_true [OF ai(3)] by simp
  show ?thesis
  proof (cases ok)
    case False
    then show ?thesis using s a ai(1) at1 \<open>\<not> (Count r \<le> 0 \<or> Vector r = [] \<or> Count r > int MaxRepairWindow)\<close> by (simp add: dec_repair_def Let_def)
  next
    case ok: True
    let ?d = "witness_esi d1 (First r)"
    have run: "running sy ?d" using ai(1,2) ok running_witness by (auto simp: running_def)
    have w: "within (wd_lo ?d) 512 (First r + word_of_nat (nat (Count r) - 1))" using ai(2) ok lst by simp
    show ?thesis
    proof (cases "sint (First r - wd_lo ?d) < 0")
      case True
      then have "d' = ?d\<lparr>wd_discarded := wd_discarded ?d + 1\<rparr>" "out = out1"
        using s a ok False by (simp_all add: dec_repair_def Let_def)
      then show ?thesis using run at1 by (auto simp: running_def dec_inv_def)
    next
      case in_window: False
      then have "dec_insert ?d (repair_coef ?d r) (Vector r) out1 = (d', out)" using s a ok False by (simp add: dec_repair_def Let_def)
      moreover note repair_equation [OF run tr c _ w]
      ultimately show ?thesis using insert_inv [OF run _ _ at1] in_window by (metis linorder_not_less running_def)
    qed
  qed
qed


section \<open>The encoder's ring\<close>

lemma pow2_index: "m \<le> 31 \<Longrightarrow> slot_index (word_of_nat (2 ^ m - 1)) e = unat e mod 2 ^ m"
proof -
  assume m: "m \<le> 31"
  have "(word_of_nat (2 ^ m - 1) :: u32) = mask m" by (simp add: mask_eq_exp_minus_1 of_nat_diff)
  then have "slot_index (word_of_nat (2 ^ m - 1)) e = unat (take_bit m e)" by (simp add: slot_index_def take_bit_eq_mask)
  also have "\<dots> = take_bit m (unat e)" by (rule unsigned_take_bit_eq)
  finally show ?thesis by (simp add: take_bit_eq_mod)
qed

lemma round_up_pow2: "n \<le> 2 ^ m \<Longrightarrow> j \<le> m \<Longrightarrow> \<exists>k \<le> m. j \<le> k \<and> round_up_loop n (2 ^ j) = 2 ^ k \<and> n \<le> 2 ^ k"
proof (induction "m - j" arbitrary: j)
  case 0
  then show ?case by (intro exI [of _ m]) (simp add: round_up_loop.simps)
next
  case (Suc x)
  show ?case
  proof (cases "2 ^ j < n")
    case True
    have "\<exists>k \<le> m. Suc j \<le> k \<and> round_up_loop n (2 ^ Suc j) = 2 ^ k \<and> n \<le> 2 ^ k"
      by (rule Suc.hyps(1)) (use Suc in auto)
    moreover have "round_up_loop n (2 ^ j) = round_up_loop n (2 ^ Suc j)" using True by (subst round_up_loop.simps) (simp add: mult.commute)
    ultimately show ?thesis by (metis Suc_leD)
  next
    case False
    then show ?thesis using Suc.prems by (intro exI [of _ j]) (simp add: round_up_loop.simps not_less)
  qed
qed

text \<open>The ring holds the newest symbols.\<close>

definition ring_holds :: "(u32 \<Rightarrow> bytes) \<Rightarrow> nat \<Rightarrow> WindowEncoder \<Rightarrow> bool" where
  "ring_holds sy m e \<longleftrightarrow> m \<le> 8 \<and> length (we_ring e) = 2 ^ m \<and> we_mask e = word_of_nat (2 ^ m - 1) \<and> we_held e \<le> 2 ^ m \<and>
     we_first e = we_next e - word_of_nat (we_held e) \<and>
     (\<forall>x. within (we_first e) (we_held e) x \<longrightarrow> we_ring e ! (unat x mod 2 ^ m) = sy x)"

definition enc_inv :: "(u32 \<Rightarrow> bytes) \<Rightarrow> WindowEncoder \<Rightarrow> bool" where
  "enc_inv sy e \<longleftrightarrow> (\<exists>m. ring_holds sy m e)"

lemma pow2_small: "m \<le> 8 \<Longrightarrow> (2 :: nat) ^ m \<le> 256"
  using power_increasing [of m 8 "2 :: nat"] by simp

lemma add_inv:
  assumes "enc_inv sy e" "sy (we_next e) = v"
  shows "enc_inv sy (snd (AddOwned e v))" "fst (AddOwned e v) = we_next e" "we_next (snd (AddOwned e v)) = we_next e + 1"
proof -
  obtain m where m: "ring_holds sy m e" using assms(1) by (auto simp: enc_inv_def)
  note k = m [unfolded ring_holds_def]
  let ?h = "we_held e" and ?n = "we_next e" and ?f = "we_first e"
  have ix: "slot_index (we_mask e) ?n = unat ?n mod 2 ^ m" using k pow2_index [of m] by simp
  have len: "length (we_ring e) = 2 ^ m" using k by blast
  have sm: "?h \<le> 256" using k pow2_small by (meson le_trans)
  have nx: "?n = ?f + word_of_nat ?h" using k by simp
  have lt: "unat ?n mod 2 ^ m < length (we_ring e)" using k by simp
  have win: "within ?f (Suc ?h) x \<Longrightarrow> x \<noteq> ?n \<Longrightarrow> within ?f ?h x" for x
  proof -
    assume w: "within ?f (Suc ?h) x" and "x \<noteq> ?n"
    have "x = ?f + word_of_nat (unat (x - ?f))" by simp
    then have "unat (x - ?f) \<noteq> ?h" using nx \<open>x \<noteq> ?n\<close> by metis
    then show ?thesis using w by (simp add: within_def)
  qed
  have n_in: "within ?f (Suc ?h) ?n" using nx sm by (simp add: within_def unat_of_nat)
  have get: "(we_ring e)[unat ?n mod 2 ^ m := v] ! (unat x mod 2 ^ m) = sy x" if "within ?f (Suc ?h) x" "Suc ?h \<le> 2 ^ m \<or> x \<noteq> ?f" for x
  proof (cases "x = ?n")
    case True
    then show ?thesis using lt assms(2) by simp
  next
    case False
    have "unat ?n mod 2 ^ m \<noteq> unat x mod 2 ^ m"
    proof (cases "Suc ?h \<le> 2 ^ m")
      case True
      then show ?thesis using window_mod_inj [OF n_in that(1), of m] False k by auto
    next
      case F: False
      then have h: "?h = 2 ^ m" using k by simp
      have x1: "within (?f + 1) ?h x" "within (?f + 1) ?h ?n"
      proof -
        have "unat (?n - ?f) = ?h" using nx sm by (simp add: unat_of_nat)
        moreover have "0 < ?h" by (simp add: h)
        ultimately have "?n \<noteq> ?f" by auto
        then show "within (?f + 1) ?h ?n" using within_Suc [OF n_in] by simp
        show "within (?f + 1) ?h x" using within_Suc [OF that(1)] that(2) F by simp
      qed
      then show ?thesis using window_mod_inj [OF x1(2,1), of m] False h k by auto
    qed
    then show ?thesis using k win [OF that(1) False] by simp
  qed
  have "ring_holds sy m (snd (AddOwned e v))"
  proof (cases "?h < 2 ^ m")
    case True
    then have s: "snd (AddOwned e v) = e\<lparr>we_next := ?n + 1, we_ring := (we_ring e)[unat ?n mod 2 ^ m := v], we_held := ?h + 1\<rparr>"
      using len by (simp add: AddOwned_def ix Let_def)
    show ?thesis unfolding s ring_holds_def using k True get by (simp add: algebra_simps)
  next
    case False
    then have h: "?h = 2 ^ m" using k by simp
    have s: "snd (AddOwned e v) = e\<lparr>we_next := ?n + 1, we_ring := (we_ring e)[unat ?n mod 2 ^ m := v], we_first := ?f + 1\<rparr>"
      using len False by (simp add: AddOwned_def ix Let_def)
    have "within ?f (Suc ?h) x \<and> x \<noteq> ?f" if "within (?f + 1) ?h x" for x
      using within_back [OF that] sm that by (auto simp: within_def unsigned_minus_1_eq_mask mask_eq_exp_minus_1)
    then have "\<forall>x. within (?f + 1) ?h x \<longrightarrow> (we_ring e)[unat ?n mod 2 ^ m := v] ! (unat x mod 2 ^ m) = sy x" using get by blast
    moreover have "?f + 1 = ?n + 1 - word_of_nat ?h" using nx by simp
    ultimately show ?thesis unfolding s ring_holds_def using k by simp
  qed
  then show "enc_inv sy (snd (AddOwned e v))" by (auto simp: enc_inv_def)
qed (simp_all add: AddOwned_def Let_def)


lemma within_sub: "k \<le> n \<Longrightarrow> n \<le> 2 ^ 31 \<Longrightarrow> within (lo + word_of_nat (n - k)) k y \<Longrightarrow> within lo n y"
proof -
  assume k: "k \<le> n" "n \<le> 2 ^ 31" and w: "within (lo + word_of_nat (n - k)) k y"
  have e: "y - lo = (y - (lo + word_of_nat (n - k))) + word_of_nat (n - k)" by simp
  have "unat (y - (lo + word_of_nat (n - k))) + (n - k) < 2 ^ 32" using k w by (simp add: within_def)
  moreover have "unat (x + word_of_nat d) = unat x + d" if "unat x + d < 2 ^ 32" for x :: u32 and d
    using that by (simp add: unat_word_ariths unat_of_nat)
  ultimately have "unat ((y - (lo + word_of_nat (n - k))) + word_of_nat (n - k)) = unat (y - (lo + word_of_nat (n - k))) + (n - k)" by blast
  then have "unat (y - lo) = unat (y - (lo + word_of_nat (n - k))) + (n - k)" using arg_cong [OF e, of unat] by argo
  then show "within lo n y" using w k by (simp add: within_def)
qed

lemma copy_ring:
  fixes first :: u32 and g :: "u32 \<Rightarrow> bytes"
  assumes "k \<le> 2 ^ m" "m \<le> 8"
  defines "step \<equiv> (\<lambda>ring i. ring[unat (first + word_of_nat i :: u32) mod 2 ^ m := g (first + word_of_nat i)])"
  shows "length (foldl step (replicate (2 ^ m) []) [0..<k]) = 2 ^ m \<and>
    (\<forall>x. within first k x \<longrightarrow> foldl step (replicate (2 ^ m) []) [0..<k] ! (unat x mod 2 ^ m) = g x)"
  using assms(1)
proof (induction k)
  case 0
  then show ?case by (simp add: within_def)
next
  case (Suc k)
  let ?r = "foldl step (replicate (2 ^ m) []) [0..<k]" and ?e = "first + word_of_nat k"
  have k: "k < 2 ^ 31" using Suc.prems pow2_small [OF assms(2)] by simp
  have e: "within first (Suc k) ?e" using k by (simp add: within_def unat_of_nat)
  have "(?r[unat ?e mod 2 ^ m := g ?e]) ! (unat x mod 2 ^ m) = g x" if w: "within first (Suc k) x" for x
  proof (cases "x = ?e")
    case True
    then show ?thesis using Suc by simp
  next
    case False
    have "unat ?e mod 2 ^ m \<noteq> unat x mod 2 ^ m" using window_mod_inj [OF e w Suc.prems] False assms(2) by auto
    moreover have "x = first + word_of_nat (unat (x - first))" by simp
    then have "unat (x - first) \<noteq> k" using False by metis
    then have "within first k x" using w by (simp add: within_def)
    ultimately show ?thesis using Suc by simp
  qed
  then show ?case using Suc by (simp add: step_def)
qed

lemma capacity_inv:
  assumes "enc_inv sy e \<or> we_ring e = [] \<and> we_held e = 0"
  shows "enc_inv sy (SetCapacity e c)" "we_next (SetCapacity e c) = we_next e"
proof -
  define c' where "c' = (if c > int MaxRepairWindow then int MaxRepairWindow else c)"
  have "nat c' \<le> 2 ^ 8" by (auto simp: c'_def MaxRepairWindow_def MaxShards_def)
  then obtain m where m: "m \<le> 8" "roundUpPowerOfTwo c' = 2 ^ m"
    using round_up_pow2 [of "nat c'" 8 0] by (auto simp: roundUpPowerOfTwo_def)
  show nx: "we_next (SetCapacity e c) = we_next e" by (simp add: SetCapacity_def Let_def)
  show "enc_inv sy (SetCapacity e c)"
  proof (cases "2 ^ m = length (we_ring e)")
    case True
    then have "we_ring e \<noteq> []" by auto
    moreover have "SetCapacity e c = e" using True m(2) by (simp add: SetCapacity_def c'_def Let_def)
    ultimately show ?thesis using assms by auto
  next
    case False
    define k where "k = (if we_held e > 2 ^ m then 2 ^ m else we_held e)"
    define f where "f = we_next e - word_of_nat k"
    have k: "k \<le> 2 ^ m" "k \<le> we_held e" by (auto simp: k_def)
    have src: "we_ring e ! slot_index (we_mask e) x = sy x" if "within f k x" for x
    proof -
      have "we_held e \<noteq> 0" using that k by (auto simp: within_def)
      then obtain m0 where r: "ring_holds sy m0 e" using assms by (auto simp: enc_inv_def)
      note q = r [unfolded ring_holds_def]
      have h: "we_held e \<le> 256" using q pow2_small le_trans by blast
      have "f = we_first e + word_of_nat (we_held e - k)" using q k by (simp add: f_def of_nat_diff)
      then have "within (we_first e) (we_held e) x" using within_sub [OF k(2), of "we_first e" x] that h
        by simp
      then show ?thesis using q pow2_index [of m0 x] by simp
    qed
    define ring where "ring = foldl (\<lambda>ring i. ring[unat (f + word_of_nat i) mod 2 ^ m := we_ring e ! slot_index (we_mask e) (f + word_of_nat i)])
        (replicate (2 ^ m) []) [0..<k]"
    have cr: "length ring = 2 ^ m" "\<And>x. within f k x \<Longrightarrow> ring ! (unat x mod 2 ^ m) = we_ring e ! slot_index (we_mask e) x"
      using copy_ring [OF k(1) m(1), of f "\<lambda>x. we_ring e ! slot_index (we_mask e) x"] by (auto simp: ring_def)
    have "SetCapacity e c = e\<lparr>we_ring := ring, we_mask := word_of_nat (2 ^ m - 1), we_first := f, we_held := k\<rparr>"
    proof -
      have p: "slot_index (word_of_nat (2 ^ m - 1)) x = unat x mod 2 ^ m" for x using pow2_index [of m] m(1) by simp
      show ?thesis unfolding SetCapacity_def c'_def [symmetric] Let_def m(2) if_not_P [OF False] k_def [symmetric] f_def [symmetric] p ring_def ..
    qed
    then have "ring_holds sy m (SetCapacity e c)" using cr src k m(1) by (simp add: ring_holds_def f_def)
    then show ?thesis by (auto simp: enc_inv_def)
  qed
qed


lemma scaled_foldl:
  "\<forall>i \<in> set is. length (g i) \<le> length v \<Longrightarrow>
     pad (foldl (\<lambda>v i. addScaled (w i) (g i) v) v is) j = pad v j XOR gf.gsum (\<lambda>i. gfMul (w i) (pad (g i) j)) is"
  by (induction "is" arbitrary: v) (simp_all add: pad_addScaled xor.assoc)

lemma max_foldl: "foldl (\<lambda>n i. if l i > n then l i else n) n is \<ge> n \<and> (\<forall>i \<in> set is. l i \<le> foldl (\<lambda>n i. if l i > n then l i else n) (n :: nat) is)"
proof (induction "is" arbitrary: n)
  case (Cons i is')
  note a = Cons.IH [of "if l i > n then l i else n"]
  have "n \<le> (if l i > n then l i else n)" "l i \<le> (if l i > n then l i else n)" by auto
  then have "n \<le> foldl (\<lambda>n i. if l i > n then l i else n) (if l i > n then l i else n) is'"
    "l i \<le> foldl (\<lambda>n i. if l i > n then l i else n) (if l i > n then l i else n) is'" using a le_trans by blast+
  then show ?case using a by simp
qed simp

text \<open>The number of symbols a repair covers.\<close>

definition repair_span :: "WindowEncoder \<Rightarrow> int \<Rightarrow> nat" where
  "repair_span e count = (if count \<le> 0 \<or> count > int (we_held e) then we_held e else nat count)"

lemma repair_built:
  assumes "enc_inv sy e" "we_held e \<noteq> 0"
  obtains r where "enc_Repair e rid count = Some r" "RID r = rid" "Count r = int (repair_span e count)"
    "First r = we_next e - word_of_nat (repair_span e count)" "true_repair sy r" "0 < Count r" "Count r \<le> int MaxRepairWindow"
    "\<And>dst. AppendRepair e dst rid count = Some (dst @ Vector r, r)" "RepairVectorSize e count = Some (length (Vector r))"
proof -
  obtain m where "ring_holds sy m e" using assms(1) by (auto simp: enc_inv_def)
  note q = this [unfolded ring_holds_def]
  have h: "we_held e \<le> 256" using q pow2_small le_trans by blast
  define c where "c = repair_span e count"
  have c: "0 < c" "c \<le> we_held e" "c \<le> 256" using assms(2) h by (auto simp: c_def repair_span_def)
  define f where "f = we_next e - word_of_nat c"
  define g where "g i = we_ring e ! slot_index (we_mask e) (f + word_of_nat i)" for i
  define n where "n = foldl (\<lambda>n i. if length (g i) > n then length (g i) else n) 0 [0..<c]"
  have rb: "repairBounds e count = Some (f, c, n)"
  proof -
    have cc: "(if c > MaxRepairWindow then MaxRepairWindow else c) = c" using c(3) by (simp add: MaxRepairWindow_def MaxShards_def)
    show ?thesis unfolding repairBounds_def Let_def repair_span_def [symmetric] c_def [symmetric] cc f_def [symmetric] n_def g_def if_not_P [OF assms(2)] ..
  qed
  define v where "v = foldl (\<lambda>v i. addScaled (windowCoefficient rid i) (g i) v) (replicate n 0) [0..<c]"
  define r where "r = \<lparr>RID = rid, First = f, Count = int c, Vector = v\<rparr>"
  have ap: "AppendRepair e dst rid count = Some (dst @ v, r)" for dst
    by (simp add: AppendRepair_def rb r_def v_def g_def Let_def)
  have sy: "g i = sy (f + word_of_nat i)" if "i < c" for i
  proof -
    have "f = we_first e + word_of_nat (we_held e - c)" using q c(2) by (simp add: f_def of_nat_diff)
    moreover have "within f c (f + word_of_nat i)" using that c(3) by (simp add: within_def unat_of_nat)
    ultimately have "within (we_first e) (we_held e) (f + word_of_nat i)" using within_sub [OF c(2)] h by simp
    then show ?thesis using q pow2_index [of m] by (simp add: g_def)
  qed
  have "\<forall>i \<in> set [0..<c]. length (g i) \<le> length (replicate n 0)" using max_foldl [of 0 "\<lambda>i. length (g i)" "[0..<c]"] by (simp add: n_def)
  from scaled_foldl [OF this] have "pad v j = gf.gsum (\<lambda>i. gfMul (windowCoefficient rid i) (pad (g i) j)) [0..<c]" for j by (simp add: v_def)
  then have "true_repair sy r" unfolding true_repair_def by (auto simp: r_def sy intro!: gf.gsum_cong)
  moreover have lv: "length v = n"
  proof -
    have "length (foldl (\<lambda>v i. addScaled (windowCoefficient rid i) (g i) v) x is) = length x" for x "is" by (induction "is" arbitrary: x) auto
    then show ?thesis by (simp add: v_def)
  qed
  ultimately show thesis
    using that [of r] ap c by (simp add: enc_Repair_def r_def c_def [symmetric] f_def RepairVectorSize_def rb MaxRepairWindow_def MaxShards_def)
qed

end
