(* ===== verification/FecCode.thy ===== *)
theory FecCode
  imports FecStream
begin

text \<open>
  The erasure code end to end. An encoder is given the symbols of a source one by one and emits repairs;
  source symbols and repairs reach the decoder in any order, any number of times, or never. What the
  decoder recovers is what was sent, provided a source symbol is not delivered while a held equation has
  it as its pivot; without that proviso the decoder can recover a symbol that was never sent.
\<close>

section \<open>Runs\<close>

record coded_state =
  cs_sent :: nat
  cs_enc :: WindowEncoder
  cs_dec :: WindowDecoder
  cs_repairs :: "RepairSymbol set"
  cs_got :: "(u32 \<times> bytes) list"

definition deliver :: "coded_state \<Rightarrow> WindowDecoder \<times> Delivery \<Rightarrow> coded_state" where
  "deliver s r = s\<lparr>cs_dec := fst r, cs_got := cs_got s @ Recovered (snd r)\<rparr>"

inductive coded_step :: "bytes list \<Rightarrow> coded_state \<Rightarrow> coded_state \<Rightarrow> bool" for xs where
  send: "cs_sent s < length xs \<Longrightarrow>
     coded_step xs s (s\<lparr>cs_sent := Suc (cs_sent s), cs_enc := snd (AddOwned (cs_enc s) (xs ! cs_sent s))\<rparr>)"
| resize: "coded_step xs s (s\<lparr>cs_enc := SetCapacity (cs_enc s) capacity\<rparr>)"
| emit: "enc_Repair (cs_enc s) rid count = Some r \<Longrightarrow> coded_step xs s (s\<lparr>cs_repairs := insert r (cs_repairs s)\<rparr>)"
| source: "k < cs_sent s \<Longrightarrow> \<not> overtaken (cs_dec s) (word_of_nat k) \<Longrightarrow>
     coded_step xs s (deliver s (dec_source (cs_dec s) (word_of_nat k) (xs ! k)))"
| repair: "r \<in> cs_repairs s \<Longrightarrow> coded_step xs s (deliver s (dec_repair (cs_dec s) r))"

definition coded_start :: "int \<Rightarrow> coded_state" where
  "coded_start capacity = \<lparr>cs_sent = 0, cs_enc = NewWindowEncoder capacity, cs_dec = NewWindowDecoder, cs_repairs = {}, cs_got = []\<rparr>"

inductive coded_reach :: "bytes list \<Rightarrow> coded_state \<Rightarrow> bool" for xs where
  start: "coded_reach xs (coded_start capacity)"
| step: "coded_reach xs s \<Longrightarrow> coded_step xs s t \<Longrightarrow> coded_reach xs t"

text \<open>The symbols behind the identifiers are known as far as they have been sent.\<close>

definition agrees :: "bytes list \<Rightarrow> nat \<Rightarrow> (u32 \<Rightarrow> bytes) \<Rightarrow> bool" where
  "agrees xs n sy \<longleftrightarrow> (\<forall>k < n. sy (word_of_nat k) = xs ! k)"

definition coded_inv :: "bytes list \<Rightarrow> coded_state \<Rightarrow> bool" where
  "coded_inv xs s \<longleftrightarrow> cs_sent s \<le> length xs \<and> we_next (cs_enc s) = word_of_nat (cs_sent s) \<and>
     (\<forall>sy. agrees xs (cs_sent s) sy \<longrightarrow> enc_inv sy (cs_enc s) \<and> dec_inv sy (cs_dec s) \<and>
        (\<forall>r \<in> cs_repairs s. true_repair sy r \<and> 0 < Count r \<and> Count r \<le> 256) \<and>
        (\<forall>(e, v) \<in> set (cs_got s). same_symbol v (sy e)))"

lemma new_decoder: "NewWindowDecoder = \<lparr>wd_slots = replicate 512 empty_slot, wd_mask = 511, wd_lo = 0, wd_high = 0, wd_origin = 0,
    wd_started = False, wd_rows = [], wd_recovered = 0, wd_lost = 0, wd_discarded = 0\<rparr>"
proof -
  have "roundUpPowerOfTwo 512 = 512" by (simp add: roundUpPowerOfTwo_def round_up_loop.simps)
  then show ?thesis by (simp add: NewWindowDecoder_def dec_resize_def decoderWidth_def MinDecoderWidth_def MaxRepairWindow_def MaxShards_def Let_def)
qed

lemma dec_inv_new: "dec_inv sy NewWindowDecoder"
  by (simp add: new_decoder dec_inv_def win_fresh empty_slot_def)

lemma next_capacity [simp]: "we_next (SetCapacity e c) = we_next e"
  by (simp add: SetCapacity_def Let_def)

lemma repair_held: "enc_Repair e rid count = Some r \<Longrightarrow> we_held e \<noteq> 0"
  by (rule notI) (simp add: enc_Repair_def AppendRepair_def repairBounds_def)

lemma coded_step_inv:
  assumes st: "coded_step xs s t" and inv: "coded_inv xs s" and len: "length xs < 2 ^ 32"
  shows "coded_inv xs t"
  using st
proof cases
  case send
  have ag: "agrees xs (cs_sent s) sy" "sy (we_next (cs_enc s)) = xs ! cs_sent s" if "agrees xs (Suc (cs_sent s)) sy" for sy
    using that inv by (auto simp: agrees_def coded_inv_def)
  show ?thesis unfolding coded_inv_def
  proof (intro conjI allI impI)
    show "cs_sent t \<le> length xs" using send by simp
    show "we_next (cs_enc t) = word_of_nat (cs_sent t)"
      using send inv by (simp add: AddOwned_def Let_def coded_inv_def)
  next
    fix sy assume "agrees xs (cs_sent t) sy"
    with send ag have a: "agrees xs (cs_sent s) sy" "sy (we_next (cs_enc s)) = xs ! cs_sent s" by simp_all
    with inv have "enc_inv sy (cs_enc s)" by (simp add: coded_inv_def)
    from add_inv(1) [OF this a(2)] show "enc_inv sy (cs_enc t)" using send by simp
    show "dec_inv sy (cs_dec t)" "\<forall>r \<in> cs_repairs t. true_repair sy r \<and> 0 < Count r \<and> Count r \<le> 256" "\<forall>(e, v) \<in> set (cs_got t). same_symbol v (sy e)"
      using send a(1) inv by (simp_all add: coded_inv_def)
  qed
next
  case (resize capacity)
  then show ?thesis using inv capacity_inv by (simp add: coded_inv_def)
next
  case (emit rid count r)
  have "true_repair sy r \<and> 0 < Count r \<and> Count r \<le> 256" if "agrees xs (cs_sent s) sy" for sy
  proof -
    have e: "enc_inv sy (cs_enc s)" using inv that by (simp add: coded_inv_def)
    from repair_built [OF e repair_held [OF emit(2)], of rid count] emit(2) MaxRepairWindow_def MaxShards_def
    show ?thesis by (metis option.inject of_nat_numeral)
  qed
  then show ?thesis using inv emit(1) by (simp add: coded_inv_def)
next
  case (source k)
  obtain d' out where r: "dec_source (cs_dec s) (word_of_nat k) (xs ! k) = (d', out)" by (cases "dec_source (cs_dec s) (word_of_nat k) (xs ! k)")
  have "dec_inv sy d' \<and> all_true sy out" if "agrees xs (cs_sent s) sy" for sy
    by (rule source_inv [OF _ _ source(3) r]) (use that inv source(2) in \<open>auto simp: coded_inv_def agrees_def same_symbol_def\<close>)
  then show ?thesis using inv source(1) r by (auto simp: coded_inv_def deliver_def all_true_def)
next
  case (repair r)
  obtain d' out where q: "dec_repair (cs_dec s) r = (d', out)" by (cases "dec_repair (cs_dec s) r")
  have "dec_inv sy d' \<and> all_true sy out" if "agrees xs (cs_sent s) sy" for sy
    by (rule repair_inv [OF _ _ q]) (use that inv repair(2) in \<open>auto simp: coded_inv_def\<close>)
  then show ?thesis using inv repair(1) q by (auto simp: coded_inv_def deliver_def all_true_def)
qed

lemma enc_inv_new: "enc_inv sy (NewWindowEncoder capacity)" "we_next (NewWindowEncoder capacity) = 0"
  by (simp_all add: NewWindowEncoder_def capacity_inv)

lemma coded_reach_inv: "coded_reach xs s \<Longrightarrow> length xs < 2 ^ 32 \<Longrightarrow> coded_inv xs s"
proof (induction rule: coded_reach.induct)
  case (start capacity)
  then show ?case by (simp add: coded_inv_def coded_start_def enc_inv_new dec_inv_new)
next
  case (step s t)
  then show ?case using coded_step_inv by blast
qed

text \<open>What is true of every stream that agrees with the symbols sent concerns a symbol that was sent.\<close>

lemma agrees_all:
  assumes "\<And>sy. agrees xs n sy \<Longrightarrow> same_symbol v (sy e)" "n < 2 ^ 32"
  shows "unat e < n \<and> same_symbol v (xs ! unat e)"
proof -
  have u: "unat (word_of_nat k :: u32) = k" if "k < n" for k using that assms(2) by (simp add: unat_of_nat)
  define sy where "sy b e = (if unat e < n then xs ! unat e else [b])" for b :: byte and e :: u32
  have "agrees xs n (sy b)" for b using u by (auto simp: agrees_def sy_def)
  then have s: "same_symbol v (sy b e)" for b using assms(1) by blast
  have "unat e < n"
  proof (rule ccontr)
    assume "\<not> unat e < n"
    then have "pad v 0 = pad [b] 0" for b using s [of b] by (simp add: same_symbol_def sy_def)
    from this [of 0] this [of 1] show False by (simp add: pad_def)
  qed
  then show ?thesis using s [of 0] by (simp add: sy_def)
qed

text \<open>C12: refinement of the stream that was sent. Whatever arrives, in whatever order, as often as it likes
  or not at all, every symbol the decoder recovers is one the encoder was given, and its bytes are the
  bytes given, up to trailing zeros; except that no source symbol arrives while a held equation has it as its
  pivot (\<open>overtaken_symbol_corrupts\<close> below).\<close>

theorem recovered_was_sent:
  assumes "coded_reach xs s" "length xs < 2 ^ 32" "(e, v) \<in> set (cs_got s)"
  shows "unat e < cs_sent s \<and> same_symbol v (xs ! unat e)"
proof -
  have inv: "coded_inv xs s" by (rule coded_reach_inv [OF assms(1,2)])
  then have "\<forall>(e, v) \<in> set (cs_got s). same_symbol v (sy e)" if "agrees xs (cs_sent s) sy" for sy using that by (simp add: coded_inv_def)
  moreover have "cs_sent s < 2 ^ 32" using inv assms(2) by (simp add: coded_inv_def)
  ultimately show ?thesis using agrees_all [of xs "cs_sent s" v e] assms(3) by blast
qed


section \<open>A single erasure\<close>

definition known :: "WindowDecoder \<Rightarrow> u32 \<Rightarrow> bool" where
  "known d e \<longleftrightarrow> (let s = wd_slots d ! dec_index d e in ds_live s \<and> ds_known s \<and> ds_esi s = e)"

lemma admit_inside:
  assumes "running sy d" "within (wd_lo d) 512 e"
  shows "admit d e out = (True, d, out)"
proof -
  have hi: "wd_high d = wd_lo d + 512" using assms(1) by (simp add: running_def dec_inv_def)
  have "\<not> (sint (e - wd_lo d) < 0 \<or> 0 \<le> sint (e - wd_high d))"
    using assms(2) word_ranges(1) [of "e - wd_lo d"] sint_neg [of "e - wd_lo d"] sint_neg [of "e - wd_lo d - 512"]
    by (simp add: hi within_def diff_diff_eq)
  then show ?thesis using assms(1) by (simp add: admit_def running_def)
qed

lemma known_keep:
  assumes "\<not> ds_live (wd_slots d ! i)"
  shows "fst (foldl (insert_known d) cd es) ! i = fst cd ! i"
proof (induction es arbitrary: cd)
  case (Cons e es)
  have "fst (insert_known d cd e) ! i = fst cd ! i"
    using assms by (cases "i = dec_index d e") (auto simp: insert_known_def Let_def split: prod.split)
  then show ?case using Cons by simp
qed simp

lemma filter_singleton: "distinct xs \<Longrightarrow> q \<in> set xs \<Longrightarrow> (\<And>x. x \<in> set xs \<Longrightarrow> P x \<longleftrightarrow> x = q) \<Longrightarrow> filter P xs = [q]"
  by (induction xs) (auto simp: filter_empty_conv)

lemma leading_single:
  assumes "dec_ids d = ids lo 512" "dec_index d = idx" "within lo 512 q" "\<And>e. within lo 512 e \<Longrightarrow> coef ! idx e \<noteq> 0 \<longleftrightarrow> e = q"
  shows "leading d coef = (q, 1)"
proof -
  have "filter (\<lambda>e. coef ! idx e \<noteq> 0) (ids lo 512) = [q]"
    by (rule filter_singleton) (use assms(3,4) in \<open>simp_all add: distinct_ids set_ids\<close>)
  then show ?thesis by (simp add: leading_eq assms(1,2))
qed

lemma harvest_single:
  assumes "wd_rows d = [row]" "leading d (wr_coef row) = (q, 1)" "\<not> known d q"
  shows "snd (harvest d out) = out\<lparr>Recovered := Recovered out @ [(q, wr_data row)]\<rparr>"
proof -
  obtain d1 out1 where s: "substitute (d\<lparr>wd_rows := []\<rparr>) q (wr_data row) out True = (d1, out1)"
    by (cases "substitute (d\<lparr>wd_rows := []\<rparr>) q (wr_data row) out True")
  have n: "\<not> (ds_live (wd_slots d ! dec_index (d\<lparr>wd_rows := []\<rparr>) q) \<and> ds_known (wd_slots d ! dec_index (d\<lparr>wd_rows := []\<rparr>) q) \<and>
      ds_esi (wd_slots d ! dec_index (d\<lparr>wd_rows := []\<rparr>) q) = q)"
    using assms(3) by (simp add: known_def Let_def dec_index_def)
  have d1: "wd_rows d1 = []" "out1 = out\<lparr>Recovered := Recovered out @ [(q, wr_data row)]\<rparr>"
    using s n by (auto simp: substitute_def Let_def)
  have "harvest_pass 0 d out False = (d1, out1, True)"
    using assms s d1(1) by (subst harvest_pass.simps) (simp add: remove_at_def harvest_pass.simps)
  moreover have "harvest d1 out1 = (d1, out1)" using d1(1) by (subst harvest.simps) (simp add: harvest_pass.simps)
  ultimately show ?thesis using d1(2) by (subst harvest.simps) simp
qed

lemma coefficient_nonzero: "windowCoefficient rid i \<noteq> 0"
proof -
  have "ucast (x mod 255) + (1 :: byte) \<noteq> 0" for x :: u32
  proof
    assume a: "ucast (x mod 255) + (1 :: byte) = 0"
    have m: "unat (x mod 255) < 255" by (simp add: unat_mod)
    have "unat (ucast (x mod 255) + 1 :: byte) = (unat (x mod 255) + 1) mod 256"
      using m by (simp add: unat_word_ariths unsigned_ucast_eq take_bit_eq_mod)
    then show False using a m by simp
  qed
  then show ?thesis unfolding windowCoefficient_def Let_def .
qed

section \<open>Concrete runs\<close>

text \<open>Two one-byte symbols and a repair over both.\<close>

lemma pair_coefs: "windowCoefficient 0 0 = 1" "windowCoefficient 0 1 = 40"
  by (simp_all add: windowCoefficient_def Let_def)

lemma pair_product: "gfMul 40 7 = 216"
  by (simp add: gfMul_product product_expand xpow_numeral xtime_def)

lemma addScaled_byte: "addScaled c [a] [b] = [b XOR gfMul c a]"
  by (auto simp: addScaled_def mulSliceXor_def)

definition pair_start :: WindowEncoder where
  "pair_start = NewWindowEncoder 2"

definition pair_encoder :: WindowEncoder where
  "pair_encoder = snd (AddOwned (snd (AddOwned pair_start [5])) [7])"

definition pair_repair :: RepairSymbol where
  "pair_repair = \<lparr>RID = 0, First = 0, Count = 2, Vector = [221]\<rparr>"

lemma pair_encoder_eq: "pair_encoder = \<lparr>we_ring = [[5], [7]], we_mask = 1, we_first = 0, we_next = 2, we_held = 2\<rparr>"
proof -
  have "replicate 2 [] = [[], [] :: bytes]" by (simp add: numeral_2_eq_2)
  then have st: "pair_start = \<lparr>we_ring = [[], []], we_mask = 1, we_first = 0, we_next = 0, we_held = 0\<rparr>"
    by (simp add: pair_start_def NewWindowEncoder_def SetCapacity_def MaxRepairWindow_def MaxShards_def roundUpPowerOfTwo_def round_up_loop.simps Let_def)
  show ?thesis unfolding pair_encoder_def st by (simp add: AddOwned_def slot_index_def Let_def)
qed

lemma pair_repair_built: "enc_Repair pair_encoder 0 0 = Some pair_repair"
proof -
  have "[0..<2] = [0, Suc 0]" by (simp add: upt_rec)
  then show ?thesis
    by (simp add: enc_Repair_def AppendRepair_def repairBounds_def pair_encoder_eq pair_repair_def MaxRepairWindow_def MaxShards_def slot_index_def Let_def
      pair_coefs [simplified] addScaled_byte pair_product)
qed

definition pair_state :: "WindowDecoder \<Rightarrow> (u32 \<times> bytes) list \<Rightarrow> coded_state" where
  "pair_state d got = \<lparr>cs_sent = 2, cs_enc = pair_encoder, cs_dec = d, cs_repairs = {pair_repair}, cs_got = got\<rparr>"

lemma pair_reach: "coded_reach [[5], [7]] (pair_state NewWindowDecoder [])"
proof -
  let ?xs = "[[5], [7]] :: bytes list"
  let ?s1 = "(coded_start 2)\<lparr>cs_sent := 1, cs_enc := snd (AddOwned pair_start [5])\<rparr>"
  let ?s2 = "(coded_start 2)\<lparr>cs_sent := 2, cs_enc := pair_encoder\<rparr>"
  have "coded_step ?xs (coded_start 2) ?s1" using coded_step.send [of "coded_start 2" ?xs] by (simp add: coded_start_def pair_start_def)
  moreover have "coded_step ?xs ?s1 ?s2" using coded_step.send [of ?s1 ?xs] by (simp add: pair_encoder_def numeral_2_eq_2)
  moreover have "coded_step ?xs ?s2 (pair_state NewWindowDecoder [])"
    using coded_step.emit [of ?s2 0 0 pair_repair ?xs] pair_repair_built by (simp add: coded_start_def pair_state_def)
  ultimately show ?thesis using coded_reach.start [of ?xs 2] coded_reach.step by blast
qed

definition second_only :: WindowDecoder where
  "second_only = \<lparr>wd_slots = (replicate 512 empty_slot)[1 := \<lparr>ds_esi = 1, ds_vector = [7], ds_live = True, ds_known = True\<rparr>],
     wd_mask = 511, wd_lo = 2 - 512, wd_high = 2, wd_origin = 1, wd_started = True, wd_rows = [], wd_recovered = 0, wd_lost = 0, wd_discarded = 0\<rparr>"

lemma second_arrives: "dec_source NewWindowDecoder 1 [7] = (second_only, no_delivery)"
proof -
  have "slot_index 511 1 = 1" by (simp add: slot_index_def)
  then show ?thesis
    by (simp add: dec_source_def new_decoder admit_def witness_esi_def dec_index_def substitute_def empty_slot_def harvest.simps harvest_pass.simps
      second_only_def Let_def)
qed

lemma pair_second: "coded_reach [[5], [7]] (pair_state second_only [])"
proof -
  have "coded_step [[5], [7]] (pair_state NewWindowDecoder []) (pair_state second_only [])"
    using coded_step.source [of 1 "pair_state NewWindowDecoder []" "[[5], [7]]"] second_arrives
    by (simp add: pair_state_def deliver_def overtaken_def new_decoder no_delivery_def)
  then show ?thesis by (rule coded_reach.step [OF pair_reach])
qed

lemma pair_conditions:
  "0 \<le> sint (First pair_repair - wd_lo second_only)" "within (wd_lo second_only) 512 (First pair_repair + word_of_int (Count pair_repair - 1))"
  "\<forall>i < nat (Count pair_repair). known second_only (First pair_repair + word_of_nat i) \<longleftrightarrow> i \<noteq> 0"
proof -
  have i: "slot_index 511 0 = 0" "slot_index 511 1 = 1" by (simp_all add: slot_index_def)
  show "\<forall>i < nat (Count pair_repair). known second_only (First pair_repair + word_of_nat i) \<longleftrightarrow> i \<noteq> 0"
    by (auto simp: known_def second_only_def pair_repair_def dec_index_def i empty_slot_def less_2_cases_iff)
qed (simp_all add: pair_repair_def second_only_def within_def)

lemmas pair_defs = pair_state_def pair_repair_def second_only_def

text \<open>A repair that overtakes a symbol it covers. The row it leaves has the first symbol as its pivot; when that
  symbol arrives after all, the row has one unknown left, whose coefficient is not one.\<close>

definition overtaking :: WindowDecoder where
  "overtaking = \<lparr>wd_slots = replicate 512 empty_slot, wd_mask = 511, wd_lo = 2 - 512, wd_high = 2, wd_origin = 0, wd_started = True,
     wd_rows = [\<lparr>wr_pivot = 0, wr_coef = (replicate 512 0)[0 := 1, 1 := 40], wr_data = [221]\<rparr>], wd_recovered = 0, wd_lost = 0, wd_discarded = 0\<rparr>"

lemma idx_01: "slot_index 511 0 = 0" "slot_index 511 1 = 1"
  by (simp_all add: slot_index_def)

lemma window_01: "within (2 - 512) 512 (0 :: u32)" "within (2 - 512) 512 (1 :: u32)" "ids (2 - 512) 512 = ids (2 - 512) 510 @ [0, 1]"
proof -
  show "within (2 - 512) 512 (0 :: u32)" "within (2 - 512) 512 (1 :: u32)" by (simp_all add: within_def)
  have "ids (0 :: u32) 2 = [0, 1]" by (simp add: ids_def upt_rec)
  then show "ids (2 - 512) 512 = ids (2 - 512) 510 @ [0, 1 :: u32]" using ids_append [of "2 - 512" 510 2] by simp
qed

lemma window_idx:
  assumes "within (2 - 512) 512 e" "idx e < 2"
  shows "e = 0 \<or> e = 1"
proof -
  have "idx e = idx 0 \<or> idx e = idx 1" using assms(2) by (auto simp: idx_01)
  then show ?thesis using idx_inj [OF assms(1) window_01(1)] idx_inj [OF assms(1) window_01(2)] by auto
qed

lemma window_pair: "filter (\<lambda>e. (replicate 512 0)[0 := a, 1 := b :: byte] ! idx e \<noteq> 0) (ids (2 - 512) 512) =
   (if a \<noteq> 0 then [0] else []) @ (if b \<noteq> 0 then [1] else [])"
proof -
  have "(replicate 512 0)[0 := a, 1 := b] ! idx e = 0" if e: "e \<in> set (ids (2 - 512) 510)" for e
  proof -
    have "within (2 - 512) 510 e" using e by (simp add: set_ids)
    then have "e \<noteq> 0" "e \<noteq> 1" by (auto simp: within_def)
    then have "\<not> idx e < 2" using window_idx [of e] within_mono [OF \<open>within (2 - 512) 510 e\<close>, of 512] by auto
    then show ?thesis by simp
  qed
  then have "filter (\<lambda>e. (replicate 512 0)[0 := a, 1 := b] ! idx e \<noteq> 0) (ids (2 - 512) 510) = []" by (simp add: filter_empty_conv)
  then show ?thesis unfolding window_01(3) filter_append by (simp add: idx_01)
qed

lemma repair_overtakes: "dec_repair NewWindowDecoder pair_repair = (overtaking, no_delivery)"
proof -
  let ?c = "(replicate 512 0)[0 := 1, 1 := 40] :: bytes"
  let ?d = "overtaking\<lparr>wd_rows := []\<rparr>"
  have u: "[0..<2] = [0, Suc 0]" by (simp add: upt_rec)
  have "repair_coef ?d pair_repair = ?c"
    by (simp add: repair_coef_def pair_repair_def overtaking_def u pair_coefs [simplified] dec_index_def idx_01 Let_def)
  moreover have ids: "dec_ids ?d = ids (2 - 512) 512" "dec_ids overtaking = ids (2 - 512) 512" "dec_index overtaking = idx" "dec_index ?d = idx"
    using window_ids_eq [of 512 "2 - 512"] by (simp_all add: dec_ids_def dec_index_def overtaking_def fun_eq_iff)
  moreover have nl: "\<not> ds_live (wd_slots ?d ! i)" if "i < 512" for i using that by (simp add: overtaking_def empty_slot_def)
  have "foldl (insert_known ?d) (?c, [221]) es = (?c, [221])" for es
    by (induction es) (use nl in \<open>simp_all add: insert_known_def ids Let_def\<close>)
  moreover have "leading ?d ?c = (0, 2)" "leading overtaking ?c = (0, 2)"
    using window_pair [of 1 40] by (simp_all add: leading_eq ids)
  moreover have "harvest overtaking no_delivery = (overtaking, no_delivery)"
  proof -
    have "harvest_pass 0 overtaking no_delivery False = (overtaking, no_delivery, False)"
      using \<open>leading overtaking ?c = (0, 2)\<close> by (simp add: harvest_pass.simps overtaking_def)
    then show ?thesis by (simp add: harvest.simps)
  qed
  moreover have "gf_inv 1 = 1" using gf_inv_mul [of 1] by simp
  ultimately have "dec_insert ?d (repair_coef ?d pair_repair) [221] no_delivery = (overtaking, no_delivery)"
    by (simp add: dec_insert_def idx_01 Let_def) (simp add: overtaking_def)
  moreover have "admit NewWindowDecoder 1 no_delivery = (True, ?d\<lparr>wd_origin := 1\<rparr>, no_delivery)"
    by (simp add: admit_def new_decoder overtaking_def Let_def)
  moreover have "witness_esi (?d\<lparr>wd_origin := 1\<rparr>) 0 = ?d" by (simp add: witness_esi_def overtaking_def)
  moreover have "\<not> sint (0 - wd_lo ?d) < 0" by (simp add: overtaking_def)
  ultimately show ?thesis by (simp add: dec_repair_def pair_repair_def MaxRepairWindow_def MaxShards_def Let_def)
qed

text \<open>A symbol that was never sent. The encoder is given the symbols 5 and 7 and emits a repair over both.
  The repair arrives first and then symbol 0, late but intact. The decoder then delivers 216 as symbol 1,
  where 7 was sent: \<open>harvest\<close> takes the constant term of the row for the symbol without dividing by the
  coefficient that is left, which is one only at the row's pivot, and the pivot is the symbol that just
  arrived.\<close>

theorem overtaken_symbol_corrupts:
  "enc_Repair pair_encoder 0 0 = Some pair_repair \<and>
   Recovered (snd (dec_source (fst (dec_repair NewWindowDecoder pair_repair)) 0 [5])) = [(1, [216])] \<and>
   \<not> same_symbol [216] [7]"
proof -
  let ?s = "\<lparr>ds_esi = 0, ds_vector = [5], ds_live = True, ds_known = True\<rparr>"
  let ?row = "\<lparr>wr_pivot = 0, wr_coef = (replicate 512 0)[0 := 0, 1 := 40], wr_data = [216]\<rparr>"
  let ?d = "overtaking\<lparr>wd_slots := (wd_slots overtaking)[0 := ?s], wd_rows := [?row]\<rparr>"
  have a: "admit overtaking 0 no_delivery = (True, overtaking, no_delivery)" by (simp add: admit_def overtaking_def Let_def)
  have w: "witness_esi overtaking 0 = overtaking" by (simp add: witness_esi_def overtaking_def)
  have ix: "dec_index overtaking = idx" "dec_index ?d = idx" "dec_ids ?d = ids (2 - 512) 512"
    using window_ids_eq [of 512 "2 - 512"] by (simp_all add: dec_index_def dec_ids_def overtaking_def fun_eq_iff)
  have l: "\<not> ds_live (wd_slots overtaking ! idx 0)" "\<not> ds_live (wd_slots ?d ! idx 1)" by (simp_all add: overtaking_def empty_slot_def idx_01)
  have "fec_ensure [221] (Suc 0) = [221]" "(replicate 512 0)[0 := 1, Suc 0 := 40, 0 := 0] = (replicate 512 (0 :: byte))[0 := 0, Suc 0 := 40]"
    by (simp_all add: fec_ensure_def list_update_swap [of 0 "Suc 0"])
  then have "substitute overtaking 0 [5] no_delivery False = (?d, no_delivery)"
    using l(1) by (simp add: substitute_def ix(1) idx_01 Let_def) (simp add: overtaking_def substitute_row_def addScaled_byte)
  then have "dec_source overtaking 0 [5] = harvest ?d no_delivery"
    using l(1) by (simp add: dec_source_def a w ix(1) Let_def)
  moreover have "snd (harvest ?d no_delivery) = no_delivery\<lparr>Recovered := Recovered no_delivery @ [(1, wr_data ?row)]\<rparr>"
  proof (rule harvest_single)
    show "leading ?d (wr_coef ?row) = (1, 1)" unfolding leading_eq ix using window_pair [of 0 40] by simp
    show "\<not> known ?d 1" unfolding known_def ix Let_def using l(2) by simp
  qed simp
  moreover have "pad [216] 0 \<noteq> pad [7] 0" by (simp add: pad_def)
  ultimately show ?thesis using pair_repair_built by (auto simp: repair_overtakes no_delivery_def same_symbol_def)
qed

section \<open>Bounds under any input\<close>

text \<open>The geometry of the window, whatever the peer sends.\<close>

definition geometry :: "WindowDecoder \<Rightarrow> bool" where
  "geometry d \<longleftrightarrow> wd_mask d = 511 \<and> length (wd_slots d) = 512 \<and> (wd_started d \<longrightarrow> wd_high d = wd_lo d + 512)"

definition same_frame :: "WindowDecoder \<Rightarrow> WindowDecoder \<Rightarrow> bool" where
  "same_frame d d' \<longleftrightarrow> wd_mask d' = wd_mask d \<and> length (wd_slots d') = length (wd_slots d) \<and> wd_lo d' = wd_lo d \<and> wd_high d' = wd_high d \<and>
     wd_started d' = wd_started d"

lemma same_frame_trans [trans]: "same_frame a b \<Longrightarrow> same_frame b c \<Longrightarrow> same_frame a c"
  by (simp add: same_frame_def)

lemma geometry_frame: "geometry d \<Longrightarrow> same_frame d d' \<Longrightarrow> geometry d'"
  by (simp add: geometry_def same_frame_def)

lemma substitute_frame: "same_frame d (fst (substitute d e v out b))" "Lost (snd (substitute d e v out b)) = Lost out"
  by (simp_all add: same_frame_def substitute_def Let_def split: prod.split)

lemma harvest_pass_frame: "same_frame d (fst (harvest_pass i d out p)) \<and> Lost (fst (snd (harvest_pass i d out p))) = Lost out"
proof (induction i d out p rule: harvest_pass.induct)
  case (1 i d out p)
  let ?rm = "d\<lparr>wd_rows := remove_at i (wd_rows d)\<rparr>" and ?r = "wd_rows d ! i"
  have rm: "same_frame d ?rm" by (simp add: same_frame_def)
  obtain q n where l: "leading d (wr_coef ?r) = (q, n)" by (cases "leading d (wr_coef ?r)")
  obtain d1 out1 where s: "substitute ?rm q (wr_data ?r) out True = (d1, out1)" by (cases "substitute ?rm q (wr_data ?r) out True")
  have "same_frame d d1" "Lost out1 = Lost out" using substitute_frame [of ?rm q "wr_data ?r" out True] s same_frame_trans [OF rm] by simp_all
  moreover note "1.IH"(1,2) [OF _ refl l [symmetric] refl] "1.IH"(3) [OF _ refl l [symmetric] refl _ _ s [symmetric] refl]
  ultimately show ?case using l s rm same_frame_trans by (subst (1 2) harvest_pass.simps) (auto simp: same_frame_def Let_def)
qed

lemma harvest_frame: "same_frame d (fst (harvest d out)) \<and> Lost (snd (harvest d out)) = Lost out"
proof (induction d out rule: harvest.induct)
  case (1 d out)
  obtain d1 out1 p where h: "harvest_pass 0 d out False = (d1, out1, p)" by (cases "harvest_pass 0 d out False")
  show ?case using "1.IH" [OF h [symmetric] refl refl] harvest_pass_frame [of d 0 out False] h same_frame_trans
    by (subst (1 2) harvest.simps) auto
qed

lemma insert_frame: "same_frame d (fst (dec_insert d coef data out)) \<and> Lost (snd (dec_insert d coef data out)) = Lost out"
proof -
  have "same_frame d (fst (harvest (d\<lparr>wd_rows := rows\<rparr>) out)) \<and> Lost (snd (harvest (d\<lparr>wd_rows := rows\<rparr>) out)) = Lost out" for rows
    using harvest_frame [of "d\<lparr>wd_rows := rows\<rparr>" out] by (simp add: same_frame_def)
  then show ?thesis by (simp add: dec_insert_def same_frame_def Let_def split: prod.split)
qed

lemma evict_loop_frame:
  assumes "n \<le> 512" "512 \<le> unat (wd_high d - wd_lo d)" "wd_mask d = 511"
  shows "\<exists>m \<le> n. let (d', out') = evict_loop 512 (wd_lo d + word_of_nat n) d out in
     wd_mask d' = 511 \<and> length (wd_slots d') = length (wd_slots d) \<and> wd_high d' = wd_high d \<and> wd_started d' = wd_started d \<and>
     length (Lost out') \<le> length (Lost out) + (n - m) \<and> 512 \<le> unat (wd_high d - wd_lo d')"
  using assms
proof (induction n arbitrary: d out)
  case 0
  then show ?case by (simp add: evict_loop.simps)
next
  case (Suc n)
  obtain d1 out1 where e: "evict d (wd_lo d) out = (d1, out1)" by (cases "evict d (wd_lo d) out")
  let ?d = "d1\<lparr>wd_lo := wd_lo d1 + 1\<rparr>"
  have f: "wd_lo d1 = wd_lo d" "wd_high d1 = wd_high d" "wd_mask d1 = 511" "wd_started d1 = wd_started d" "length (wd_slots d1) = length (wd_slots d)"
      "length (Lost out1) \<le> Suc (length (Lost out))"
    using evict_fields [of d "wd_lo d" out] evict_state(3) [OF Suc.prems(3), of "wd_lo d" out] Suc.prems(3) by (simp_all add: e)
  show ?case
  proof (cases "wd_high d - wd_lo d > 512")
    case False
    then show ?thesis using Suc.prems by (intro exI [of _ "Suc n"]) (simp add: evict_loop.simps)
  next
    case True
    obtain k where k: "unat (wd_high d - wd_lo d) = Suc k" "512 \<le> k" using True by (cases "unat (wd_high d - wd_lo d)") (auto simp: word_less_nat_alt)
    have "unat (wd_high ?d - wd_lo ?d) = k" using unat_dec [OF k(1)] f by (simp add: diff_diff_eq)
    then have "\<exists>m \<le> n. let (d', out') = evict_loop 512 (wd_lo ?d + word_of_nat n) ?d out1 in
       wd_mask d' = 511 \<and> length (wd_slots d') = length (wd_slots ?d) \<and> wd_high d' = wd_high ?d \<and> wd_started d' = wd_started ?d \<and>
       length (Lost out') \<le> length (Lost out1) + (n - m) \<and> 512 \<le> unat (wd_high ?d - wd_lo d')"
      by (intro Suc.IH) (use f k Suc.prems in simp_all)
    then obtain m where m: "m \<le> n" "let (d', out') = evict_loop 512 (wd_lo ?d + word_of_nat n) ?d out1 in
       wd_mask d' = 511 \<and> length (wd_slots d') = length (wd_slots ?d) \<and> wd_high d' = wd_high ?d \<and> wd_started d' = wd_started ?d \<and>
       length (Lost out') \<le> length (Lost out1) + (n - m) \<and> 512 \<le> unat (wd_high ?d - wd_lo d')" by blast
    have "sint (wd_lo d - (wd_lo d + word_of_nat (Suc n))) < 0" using Suc.prems(1) by (subst neg_step) simp_all
    then have step: "evict_loop 512 (wd_lo d + word_of_nat (Suc n)) d out = evict_loop 512 (wd_lo ?d + word_of_nat n) ?d out1"
      using True e f(1) by (subst evict_loop.simps) (simp add: add.assoc)
    show ?thesis unfolding step using m f by (intro exI [of _ m]) (auto simp: Let_def split: prod.splits)
  qed
qed

lemma admit_far:
  assumes "wd_high d = wd_lo d + 512" "0 \<le> sint (esi - wd_lo d)" "0 \<le> sint (esi - wd_high d)"
  shows "512 \<le> unat (esi + 1 - wd_lo d)"
proof -
  have x: "unat (esi - wd_lo d) < 2 ^ 31" "\<not> 2 ^ 31 \<le> unat (esi - wd_lo d - 512)"
    using assms sint_neg [of "esi - wd_lo d"] sint_neg [of "esi - wd_lo d - 512"] by (simp_all add: diff_diff_eq)
  then have "512 \<le> unat (esi - wd_lo d)" "unat (esi - wd_lo d + 1) = unat (esi - wd_lo d) + 1" using word_ranges [OF x(1)] by auto
  then show ?thesis by (simp add: algebra_simps)
qed

lemma admit_geometry:
  assumes "geometry d" "admit d esi no_delivery = (ok, d', out')"
  shows "geometry d' \<and> length (Lost out') \<le> 512"
proof (cases "wd_started d \<and> \<not> sint (esi - wd_lo d) < 0 \<and> 0 \<le> sint (esi - wd_high d)")
  case False
  then have "out' = no_delivery \<and> geometry d'" using assms by (auto simp: admit_def geometry_def Let_def split: if_splits)
  then show ?thesis by simp
next
  case True
  let ?d = "d\<lparr>wd_high := esi + 1\<rparr>"
  have g: "wd_mask d = 511" "length (wd_slots d) = 512" "wd_high d = wd_lo d + 512" using assms(1) True by (simp_all add: geometry_def)
  obtain d2 out2 where e: "evict_loop 512 (wd_lo ?d + word_of_nat 512) ?d no_delivery = (d2, out2)"
    by (cases "evict_loop 512 (wd_lo ?d + word_of_nat 512) ?d no_delivery")
  have "512 \<le> unat (esi + 1 - wd_lo d)" using admit_far [OF g(3)] True by simp
  then have m: "wd_mask d2 = 511" "length (wd_slots d2) = 512" "wd_high d2 = esi + 1" "wd_started d2" "length (Lost out2) \<le> 512"
      "512 \<le> unat (wd_high d2 - wd_lo d2)"
    using evict_loop_frame [of 512 ?d no_delivery] g True unfolding e Let_def prod.case by auto
  have a: "out' = out2" "d' = (if wd_high d2 - wd_lo d2 > 512 then d2\<lparr>wd_lo := wd_high d2 - 512\<rparr> else d2)"
    using assms(2) True g(2) e by (simp_all add: admit_def Let_def)
  show ?thesis
  proof (cases "wd_high d2 - wd_lo d2 > 512")
    case True
    then show ?thesis using a m by (simp add: geometry_def)
  next
    case False
    then have "unat (wd_high d2 - wd_lo d2) = 512" using m(6) by (simp add: word_less_nat_alt)
    then have "wd_high d2 - wd_lo d2 = 512" by (intro unsigned_word_eqI) simp
    then have "wd_high d2 = wd_lo d2 + 512" by (simp add: diff_eq_eq add.commute)
    then show ?thesis using a False m by (simp add: geometry_def)
  qed
qed

lemma arrival_geometry:
  assumes "geometry d"
  shows "geometry (fst (dec_source d e v)) \<and> length (Lost (snd (dec_source d e v))) \<le> 512"
    "geometry (fst (dec_repair d r)) \<and> length (Lost (snd (dec_repair d r))) \<le> 512"
proof -
  have wit: "geometry d1 \<Longrightarrow> geometry (witness_esi d1 x)" for d1 x by (simp add: geometry_def witness_esi_def)
  obtain ok d1 out1 where a: "admit d e no_delivery = (ok, d1, out1)" by (cases "admit d e no_delivery")
  note ag = admit_geometry [OF assms a]
  let ?d = "witness_esi d1 e"
  obtain d3 out3 where s: "substitute ?d e v out1 False = (d3, out3)" by (cases "substitute ?d e v out1 False")
  have "geometry d3" "Lost out3 = Lost out1"
    using geometry_frame [OF wit substitute_frame(1)] ag substitute_frame(2) [of ?d e v out1 False] s by (metis fst_conv, simp)
  then have "geometry (fst (harvest d3 out3)) \<and> length (Lost (snd (harvest d3 out3))) \<le> 512"
    using harvest_frame [of d3 out3] geometry_frame ag by auto
  then show "geometry (fst (dec_source d e v)) \<and> length (Lost (snd (dec_source d e v))) \<le> 512"
    using a ag s wit [of d1 e] by (simp add: dec_source_def Let_def)
next
  have wit: "geometry d1 \<Longrightarrow> geometry (witness_esi d1 x)" for d1 x by (simp add: geometry_def witness_esi_def)
  let ?e = "First r + word_of_int (Count r - 1)"
  obtain ok d1 out1 where a: "admit d ?e no_delivery = (ok, d1, out1)" by (cases "admit d ?e no_delivery")
  note ag = admit_geometry [OF assms a]
  let ?d = "witness_esi d1 (First r)"
  have g: "geometry ?d" using ag wit by simp
  have "geometry (fst (dec_insert ?d c x out1)) \<and> length (Lost (snd (dec_insert ?d c x out1))) \<le> 512" for c x
    using insert_frame [of ?d c x out1] geometry_frame [OF g] ag by simp
  moreover have "geometry (x\<lparr>wd_discarded := n\<rparr>) = geometry x" for x n by (simp add: geometry_def)
  ultimately show "geometry (fst (dec_repair d r)) \<and> length (Lost (snd (dec_repair d r))) \<le> 512"
    using a ag g assms by (simp add: dec_repair_def Let_def)
qed

inductive decoder_fed :: "WindowDecoder \<Rightarrow> bool" where
  fresh: "decoder_fed NewWindowDecoder"
| fed_source: "decoder_fed d \<Longrightarrow> decoder_fed (fst (dec_source d e v))"
| fed_repair: "decoder_fed d \<Longrightarrow> decoder_fed (fst (dec_repair d r))"

lemma fed_geometry: "decoder_fed d \<Longrightarrow> geometry d"
proof (induction rule: decoder_fed.induct)
  case fresh
  show ?case by (simp add: geometry_def new_decoder)
qed (simp_all add: arrival_geometry)

text \<open>C14: what an arrival can cost. Whatever identifiers, counts and bytes a peer has sent before and sends now, the
  decoder keeps its 512 slots, its window stays 512 identifiers wide once it has started, and no single
  arrival reports more than 512 identifiers lost.\<close>

theorem arrival_cost_bounded:
  assumes "decoder_fed d"
  shows "dec_Width d = 512 \<and> (\<not> wd_started d \<or> wd_high d = wd_lo d + 512) \<and>
    length (Lost (snd (dec_source d e v))) \<le> 512 \<and> length (Lost (snd (dec_repair d r))) \<le> 512"
  using fed_geometry [OF assms] arrival_geometry by (auto simp: geometry_def dec_Width_def)

theorem arrival_cost_bounded_witness:
  "dec_Width NewWindowDecoder = 512 \<and> length (Lost (snd (dec_source NewWindowDecoder 1073741824 [1]))) \<le> 512"
  using arrival_cost_bounded [OF decoder_fed.fresh] by simp

text \<open>What a repair is. The encoder's repair covers the newest symbols it holds, as many as were asked for or all
  of them; its vector has, at every position, the sum of the covered symbols' bytes times the coefficients
  that the receiver regenerates from the repair's identifier alone, and is exactly as long as
  \<open>RepairVectorSize\<close> says.\<close>

theorem repair_is_combination:
  assumes "coded_reach xs s" "length xs < 2 ^ 32" "enc_Repair (cs_enc s) rid count = Some r"
  shows "First r = word_of_nat (cs_sent s) - word_of_nat (repair_span (cs_enc s) count) \<and> Count r = int (repair_span (cs_enc s) count) \<and>
    pad (Vector r) j = gf.gsum (\<lambda>i. gfMul (windowCoefficient rid i) (pad (xs ! unat (First r + word_of_nat i)) j)) [0..<repair_span (cs_enc s) count] \<and>
    RepairVectorSize (cs_enc s) count = Some (length (Vector r))"
proof -
  have inv: "coded_inv xs s" by (rule coded_reach_inv [OF assms(1,2)])
  have "agrees xs (cs_sent s) (\<lambda>e. xs ! unat e)" using inv assms(2) by (simp add: agrees_def coded_inv_def unat_of_nat)
  then have e: "enc_inv (\<lambda>e. xs ! unat e) (cs_enc s)" "we_next (cs_enc s) = word_of_nat (cs_sent s)" using inv by (simp_all add: coded_inv_def)
  from repair_built [OF e(1) repair_held [OF assms(3)], of rid count] assms(3)
  obtain "RID r = rid" "Count r = int (repair_span (cs_enc s) count)" "First r = we_next (cs_enc s) - word_of_nat (repair_span (cs_enc s) count)"
    "true_repair (\<lambda>e. xs ! unat e) r" "RepairVectorSize (cs_enc s) count = Some (length (Vector r))" by (metis option.inject)
  then show ?thesis using e(2) by (simp add: true_repair_def)
qed

theorem repair_is_combination_witness:
  "Count pair_repair = 2 \<and> RepairVectorSize pair_encoder 0 = Some (length (Vector pair_repair))"
proof -
  have "enc_Repair (cs_enc (pair_state second_only [])) 0 0 = Some pair_repair" using pair_repair_built by (simp add: pair_state_def)
  from repair_is_combination [OF pair_second _ this] show ?thesis by (simp add: pair_state_def pair_encoder_eq repair_span_def)
qed

end
