(* ===== verification/FecErasure.thy ===== *)
theory FecErasure
  imports FecCode
begin

text \<open>
  Progress of the erasure decoder: a repair with one unknown left yields it, whatever equations are held. Between two arrivals every held
  equation has at least two unknowns (\<open>settled\<close>), because \<^verbatim>\<open>harvest\<close> goes on until no row has fewer; and a row that has come down to one unknown
  is read off by the next pass.
\<close>

section \<open>What harvest leaves\<close>

definition open_row :: "bytes \<Rightarrow> bool" where
  "open_row c \<longleftrightarrow> (\<exists>i < 512. \<exists>j < 512. i \<noteq> j \<and> c ! i \<noteq> 0 \<and> c ! j \<noteq> 0)"

definition settled :: "WindowDecoder \<Rightarrow> bool" where
  "settled d \<longleftrightarrow> (\<forall>r \<in> set (wd_rows d). open_row (wr_coef r))"

lemma geometry_ids: "geometry d \<Longrightarrow> wd_started d \<Longrightarrow> dec_ids d = ids (wd_lo d) 512 \<and> dec_index d = idx"
  using window_ids_eq [of 512 "wd_lo d"] by (auto simp: geometry_def dec_ids_def dec_index_def)

lemma many_open:
  assumes "dec_ids d = ids lo 512" "dec_index d = idx" "1 < snd (leading d c)"
  shows "open_row c"
proof -
  obtain a b qs where f: "filter (\<lambda>e. c ! idx e \<noteq> 0) (ids lo 512) = a # b # qs"
    using assms by (auto simp: leading_eq split: list.splits) (metis length_0_conv less_not_refl neq_Nil_conv)
  have m: "x \<in> set (ids lo 512) \<and> c ! idx x \<noteq> 0" if "x \<in> set (a # b # qs)" for x using that unfolding f [symmetric] by simp
  have "distinct (filter (\<lambda>e. c ! idx e \<noteq> 0) (ids lo 512))" by (simp add: distinct_ids)
  then have "a \<noteq> b" unfolding f by simp
  then have "idx a \<noteq> idx b" using idx_inj [of lo 512 a b] m [of a] m [of b] by (auto simp: set_ids)
  then show ?thesis unfolding open_row_def using m [of a] m [of b] by (intro exI [of _ "idx a"] exI [of _ "idx b"] conjI) simp_all
qed

lemma nth_remove_at: "i < length xs \<Longrightarrow> k < i \<Longrightarrow> remove_at i xs ! k = xs ! k" "i < k \<Longrightarrow> k < length xs \<Longrightarrow> remove_at i xs ! (k - 1) = xs ! k"
  by (auto simp: remove_at_def nth_append)

lemma pass_progress: "snd (snd (harvest_pass i d out True))"
proof -
  have "p \<Longrightarrow> snd (snd (harvest_pass i d out p))" for p
  proof (induction i d out p rule: harvest_pass.induct)
    case (1 i d out p)
    obtain q n where l: "leading d (wr_coef (wd_rows d ! i)) = (q, n)" by (cases "leading d (wr_coef (wd_rows d ! i))")
    obtain d1 out1 where s: "substitute (d\<lparr>wd_rows := remove_at i (wd_rows d)\<rparr>) q (wr_data (wd_rows d ! i)) out True = (d1, out1)"
      by (cases "substitute (d\<lparr>wd_rows := remove_at i (wd_rows d)\<rparr>) q (wr_data (wd_rows d ! i)) out True")
    show ?case using "1.IH"(1,2) [OF _ refl l [symmetric] refl] "1.IH"(3) [OF _ refl l [symmetric] refl _ _ s [symmetric] refl] "1.prems" l s
      by (subst harvest_pass.simps) (auto simp: Let_def)
  qed
  then show ?thesis by simp
qed

lemma pass_settled:
  "geometry d \<Longrightarrow> wd_started d \<Longrightarrow> harvest_pass i d out p = (d', out', False) \<Longrightarrow> \<forall>k < i. k < length (wd_rows d) \<longrightarrow> open_row (wr_coef (wd_rows d ! k)) \<Longrightarrow>
     settled d'"
proof (induction i d out p arbitrary: d' out' rule: harvest_pass.induct)
  case (1 i d out p)
  show ?case
  proof (cases "i < length (wd_rows d)")
    case False
    then have "d' = d" using "1.prems"(3) by (simp add: harvest_pass.simps)
    then show ?thesis using "1.prems"(4) False unfolding settled_def by (auto simp: in_set_conv_nth)
  next
    case True
    obtain q n where l: "leading d (wr_coef (wd_rows d ! i)) = (q, n)" by (cases "leading d (wr_coef (wd_rows d ! i))")
    let ?d = "d\<lparr>wd_rows := remove_at i (wd_rows d)\<rparr>"
    have g: "geometry ?d" "wd_started ?d" using "1.prems"(1,2) by (simp_all add: geometry_def)
    consider "n = 0" | "n > 1" | "n = 1" by linarith
    then show ?thesis
    proof cases
      case 1
      have "harvest_pass i ?d out p = (d', out', False)" using "1.prems"(3) True l 1 by (subst (asm) harvest_pass.simps) (simp add: Let_def)
      from "1.IH"(1) [OF True refl l [symmetric] refl 1 g this] "1.prems"(4) True show ?thesis by (simp add: nth_remove_at(1) length_remove_at)
    next
      case 2
      have h: "harvest_pass (i + 1) d out p = (d', out', False)" using "1.prems"(3) True l 2 by (subst (asm) harvest_pass.simps) (simp add: Let_def)
      have "open_row (wr_coef (wd_rows d ! i))" by (rule many_open [of d "wd_lo d"]) (use geometry_ids [OF "1.prems"(1,2)] l 2 in simp_all)
      then show ?thesis using "1.IH"(2) [OF True refl l [symmetric] refl _ 2 "1.prems"(1,2) h] "1.prems"(4) 2 by (auto simp: less_Suc_eq)
    next
      case 3
      obtain d1 out1 where s: "substitute ?d q (wr_data (wd_rows d ! i)) out True = (d1, out1)" by (cases "substitute ?d q (wr_data (wd_rows d ! i)) out True")
      have "harvest_pass i d1 out1 True = (d', out', False)" using "1.prems"(3) True l 3 s by (subst (asm) harvest_pass.simps) (simp add: Let_def)
      then show ?thesis using pass_progress [of i d1 out1] by simp
    qed
  qed
qed

lemma harvest_settled: "geometry d \<Longrightarrow> wd_started d \<Longrightarrow> settled (fst (harvest d out))"
proof (induction d out rule: harvest.induct)
  case (1 d out)
  obtain d1 out1 p where h: "harvest_pass 0 d out False = (d1, out1, p)" by (cases "harvest_pass 0 d out False")
  have f: "same_frame d d1" using harvest_pass_frame [of d 0 out False] h by simp
  then have g: "geometry d1" "wd_started d1" using "1.prems" geometry_frame by (auto simp: same_frame_def)
  show ?case
  proof (cases p)
    case True
    then show ?thesis using "1.IH" [OF h [symmetric] refl refl True g] h by (subst harvest.simps) simp
  next
    case False
    then show ?thesis using pass_settled [OF "1.prems", of 0 out False d1 out1] h by (subst harvest.simps) simp
  qed
qed

lemma evict_loop_started: "wd_started (fst (evict_loop w k d out)) = wd_started d"
proof (induction w k d out rule: evict_loop.induct)
  case (1 w k d out)
  obtain d1 out1 where e: "evict d (wd_lo d) out = (d1, out1)" by (cases "evict d (wd_lo d) out")
  then have "wd_started d1 = wd_started d" using evict_fields(5) [of d "wd_lo d" out] by simp
  then show ?case using "1.IH" [OF _ e [symmetric] refl] e by (subst evict_loop.simps) auto
qed

lemma admit_started: "admit d esi out = (True, d', out') \<Longrightarrow> wd_started d'"
  using evict_loop_started [of "word_of_nat (length (wd_slots d))" "wd_lo d + word_of_nat (length (wd_slots d))" "d\<lparr>wd_high := esi + 1\<rparr>" out]
  by (auto simp: admit_def Let_def split: if_splits prod.splits)

lemma settled_fewer: "settled d \<Longrightarrow> set (wd_rows d') \<subseteq> set (wd_rows d) \<Longrightarrow> settled d'"
  by (auto simp: settled_def)

lemma insert_settled: "geometry d \<Longrightarrow> wd_started d \<Longrightarrow> settled d \<Longrightarrow> settled (fst (dec_insert d coef data out))"
proof -
  assume a: "geometry d" "wd_started d" "settled d"
  have "settled (fst (harvest (d\<lparr>wd_rows := rows\<rparr>) out))" for rows by (rule harvest_settled) (use a in \<open>simp_all add: geometry_def\<close>)
  then show ?thesis using a(3) by (simp add: dec_insert_def settled_def Let_def split: prod.split)
qed

lemma source_settled:
  assumes "geometry d" "settled d"
  shows "settled (fst (dec_source d e v))"
proof -
  obtain ok d1 out1 where a: "admit d e no_delivery = (ok, d1, out1)" by (cases "admit d e no_delivery")
  have s1: "settled d1" by (rule settled_fewer [OF assms(2) admit_rows [OF a]])
  show ?thesis
  proof (cases ok)
    case False
    then show ?thesis using a s1 by (simp add: dec_source_def)
  next
    case True
    let ?d = "witness_esi d1 e"
    obtain d3 out3 where s: "substitute ?d e v out1 False = (d3, out3)" by (cases "substitute ?d e v out1 False")
    have g: "geometry ?d" "wd_started ?d" using admit_geometry [OF assms(1) a] admit_started a True by (simp_all add: geometry_def witness_esi_def)
    have "same_frame ?d d3" using substitute_frame(1) [of ?d e v out1 False] s by simp
    then have "settled (fst (harvest d3 out3))" using harvest_settled geometry_frame [OF g(1)] g(2) by (simp add: same_frame_def)
    moreover have "settled ?d" using s1 by (simp add: settled_def)
    ultimately show ?thesis using a True s by (simp add: dec_source_def Let_def)
  qed
qed

lemma repair_settled:
  assumes "geometry d" "settled d"
  shows "settled (fst (dec_repair d r))"
proof -
  let ?e = "First r + word_of_int (Count r - 1)"
  obtain ok d1 out1 where a: "admit d ?e no_delivery = (ok, d1, out1)" by (cases "admit d ?e no_delivery")
  have s1: "settled d1" by (rule settled_fewer [OF assms(2) admit_rows [OF a]])
  let ?d = "witness_esi d1 (First r)"
  have s2: "settled ?d" using s1 by (simp add: settled_def)
  moreover have "settled (fst (dec_insert ?d (repair_coef ?d r) (Vector r) out1))" if ok
    by (rule insert_settled [OF _ _ s2]) (use admit_geometry [OF assms(1) a] admit_started a that in \<open>simp_all add: geometry_def witness_esi_def\<close>)
  moreover have "settled (x\<lparr>wd_discarded := n\<rparr>) = settled x" for x n by (simp add: settled_def)
  ultimately show ?thesis using a s1 assms(2) by (simp add: dec_repair_def Let_def)
qed

lemma fed_settled: "decoder_fed d \<Longrightarrow> settled d"
proof (induction rule: decoder_fed.induct)
  case fresh
  show ?case by (simp add: settled_def new_decoder)
qed (simp_all add: source_settled repair_settled fed_geometry)

lemma coded_fed: "coded_reach xs s \<Longrightarrow> decoder_fed (cs_dec s)"
proof (induction rule: coded_reach.induct)
  case start
  show ?case by (simp add: coded_start_def decoder_fed.fresh)
next
  case (step s t)
  from step(2,3) show ?case by cases (auto simp: deliver_def intro: decoder_fed.intros)
qed

section \<open>What harvest reads off\<close>

text \<open>A row whose only unknown is \<open>q\<close>.\<close>

definition single_at :: "u32 \<Rightarrow> u32 \<Rightarrow> bytes \<Rightarrow> bool" where
  "single_at lo q c \<longleftrightarrow> (\<forall>e. within lo 512 e \<longrightarrow> (c ! idx e \<noteq> 0 \<longleftrightarrow> e = q))"

lemma substitute_recovered: "set (Recovered out) \<subseteq> set (Recovered (snd (substitute d e v out b)))"
  by (auto simp: substitute_def Let_def split: prod.split)

lemma pass_recovered: "set (Recovered out) \<subseteq> set (Recovered (fst (snd (harvest_pass i d out p))))"
proof (induction i d out p rule: harvest_pass.induct)
  case (1 i d out p)
  obtain q n where l: "leading d (wr_coef (wd_rows d ! i)) = (q, n)" by (cases "leading d (wr_coef (wd_rows d ! i))")
  obtain d1 out1 where s: "substitute (d\<lparr>wd_rows := remove_at i (wd_rows d)\<rparr>) q (wr_data (wd_rows d ! i)) out True = (d1, out1)"
    by (cases "substitute (d\<lparr>wd_rows := remove_at i (wd_rows d)\<rparr>) q (wr_data (wd_rows d ! i)) out True")
  have "set (Recovered out) \<subseteq> set (Recovered out1)" using substitute_recovered [of out] s by (metis snd_conv)
  then show ?case using "1.IH"(1,2) [OF _ refl l [symmetric] refl] "1.IH"(3) [OF _ refl l [symmetric] refl _ _ s [symmetric] refl] l s
    by (subst harvest_pass.simps) (auto simp: Let_def)
qed

lemma harvest_recovered: "set (Recovered out) \<subseteq> set (Recovered (snd (harvest d out)))"
proof (induction d out rule: harvest.induct)
  case (1 d out)
  obtain d1 out1 p where h: "harvest_pass 0 d out False = (d1, out1, p)" by (cases "harvest_pass 0 d out False")
  show ?case using "1.IH" [OF h [symmetric] refl refl] pass_recovered [of out 0 d False] h by (subst harvest.simps) auto
qed

lemma pass_reads:
  "running sy d \<Longrightarrow> i \<le> k \<Longrightarrow> k < length (wd_rows d) \<Longrightarrow> within (wd_lo d) 512 q \<Longrightarrow> single_at (wd_lo d) q (wr_coef (wd_rows d ! k)) \<Longrightarrow>
     \<not> ds_live (wd_slots d ! idx q) \<Longrightarrow> \<exists>v. (q, v) \<in> set (Recovered (fst (snd (harvest_pass i d out p))))"
proof (induction i d out p arbitrary: k rule: harvest_pass.induct)
  case (1 i d out p)
  note run = "1.prems"(1) and w = "1.prems"(4) and one = "1.prems"(5)
  have i: "i < length (wd_rows d)" using "1.prems"(2,3) by simp
  let ?r = "wd_rows d ! i" and ?d = "d\<lparr>wd_rows := remove_at i (wd_rows d)\<rparr>"
  obtain q' n where l: "leading d (wr_coef ?r) = (q', n)" by (cases "leading d (wr_coef ?r)")
  have lk: "leading d (wr_coef (wd_rows d ! k)) = (q, 1)"
    by (rule leading_single [OF running_ids [OF run] w]) (use one in \<open>simp add: single_at_def\<close>)
  have moved: "i \<le> k - 1 \<and> k - 1 < length (wd_rows ?d) \<and> wd_rows ?d ! (k - 1) = wd_rows d ! k" if "k \<noteq> i"
    using that "1.prems"(2,3) nth_remove_at(2) [of i k "wd_rows d"] by (auto simp: length_remove_at)
  consider "n = 0" | "n > 1" | "n = 1" by linarith
  then show ?case
  proof cases
    case 1
    then have "k \<noteq> i" using lk l by auto
    then have m: "i \<le> k - 1" "k - 1 < length (wd_rows ?d)" "wd_rows ?d ! (k - 1) = wd_rows d ! k" using moved by blast+
    have "\<exists>v. (q, v) \<in> set (Recovered (fst (snd (harvest_pass i ?d out p))))"
      by (rule "1.IH"(1) [OF i refl l [symmetric] refl 1 running_remove [OF run i] m(1,2)]) (use w one m(3) "1.prems"(6) in simp_all)
    then show ?thesis using i l 1 by (subst harvest_pass.simps) (simp add: Let_def)
  next
    case 2
    then have "i + 1 \<le> k" using lk l "1.prems"(2) by (cases "k = i") auto
    then have "\<exists>v. (q, v) \<in> set (Recovered (fst (snd (harvest_pass (i + 1) d out p))))"
      using "1.IH"(2) [OF i refl l [symmetric] refl _ 2 run _ "1.prems"(3-6)] 2 by simp
    then show ?thesis using i l 2 by (subst harvest_pass.simps) (simp add: Let_def)
  next
    case 3
    note su = pass_single [OF run i l [unfolded 3]]
    obtain d1 out1 where s: "substitute ?d q' (wr_data ?r) out True = (d1, out1)" by (cases "substitute ?d q' (wr_data ?r) out True")
    note si = substitute_inv [OF running_remove [OF run i] _ su(3) _ s, simplified, OF su(1,5)]
    have step: "harvest_pass i d out p = harvest_pass i d1 out1 True" using i l 3 s by (subst harvest_pass.simps) (simp add: Let_def)
    show ?thesis
    proof (cases "k = i")
      case True
      then have "q' = q" using lk l by simp
      then have "(q, wr_data ?r) \<in> set (Recovered out1)" using si(5) "1.prems"(6) by simp
      then show ?thesis unfolding step using pass_recovered [of out1 i d1 True] by blast
    next
      case False
      note m = moved [OF False]
      then have "wd_rows d ! k \<in> set (remove_at i (wd_rows d))" using nth_mem [of "k - 1" "remove_at i (wd_rows d)"] by simp
      then have z: "wr_coef (wd_rows d ! k) ! idx q' = 0" using su(4) by blast
      then have "idx q' \<noteq> idx q" using one w by (auto simp: single_at_def)
      have mk: "wd_mask d = 511" using run by (simp add: running_def dec_inv_def)
      from \<open>idx q' \<noteq> idx q\<close> have slot: "\<not> ds_live (wd_slots d1 ! idx q)" using s "1.prems"(6) mk
        by (auto simp: substitute_def Let_def dec_index_def split: if_splits)
      have rows: "wd_rows d1 = remove_at i (wd_rows d) \<or> wd_rows d1 = map (substitute_row (idx q') (wr_data ?r)) (remove_at i (wd_rows d))"
        using s mk by (auto simp: substitute_def Let_def dec_index_def split: if_splits)
      have "wd_rows d1 ! (k - 1) = wd_rows d ! k" using rows m z by (auto simp: substitute_row_def)
      moreover have "k - 1 < length (wd_rows d1)" using rows m by auto
      ultimately show ?thesis unfolding step using "1.IH"(3) [OF i refl l [symmetric] refl _ _ s [symmetric] refl si(1), of "k - 1"] 3 m w one slot si(2) by simp
    qed
  qed
qed

lemma harvest_reads:
  assumes "running sy d" "r \<in> set (wd_rows d)" "within (wd_lo d) 512 q" "single_at (wd_lo d) q (wr_coef r)" "\<not> ds_live (wd_slots d ! idx q)"
  shows "\<exists>v. (q, v) \<in> set (Recovered (snd (harvest d out)))"
proof -
  obtain k where k: "k < length (wd_rows d)" "wd_rows d ! k = r" using assms(2) by (auto simp: in_set_conv_nth)
  obtain d1 out1 p where h: "harvest_pass 0 d out False = (d1, out1, p)" by (cases "harvest_pass 0 d out False")
  have "\<exists>v. (q, v) \<in> set (Recovered out1)" using pass_reads [OF assms(1) _ k(1) assms(3) _ assms(5), of 0 out False] assms(4) k(2) h by simp
  then show ?thesis using harvest_recovered [of out1 d1] h by (subst harvest.simps) auto
qed

section \<open>An equation with one unknown\<close>

lemma reduce_nothing: "\<forall>r \<in> set rs. c ! dec_index d (wr_pivot r) = 0 \<Longrightarrow> foldl (insert_reduce d) (c, x) rs = (c, x)"
  by (induction rs) (simp_all add: insert_reduce_def)

lemma leading_some:
  assumes "dec_ids d = ids lo 512" "dec_index d = idx" "within lo 512 e" "c ! idx e \<noteq> 0"
  obtains p n where "leading d c = (p, Suc n)" "within lo 512 p" "c ! idx p \<noteq> 0"
proof -
  have "e \<in> set (filter (\<lambda>e. c ! idx e \<noteq> 0) (ids lo 512))" using assms(3,4) by (simp add: set_ids)
  then obtain p ps where p: "filter (\<lambda>e. c ! idx e \<noteq> 0) (ids lo 512) = p # ps" by (cases "filter (\<lambda>e. c ! idx e \<noteq> 0) (ids lo 512)") auto
  have "x \<in> set (ids lo 512) \<and> c ! idx x \<noteq> 0" if "x \<in> set (p # ps)" for x using that unfolding p [symmetric] by simp
  then show thesis using that [of p "length ps"] p assms(1,2) by (simp add: leading_eq set_ids)
qed

text \<open>A held row with the unknown as its pivot: the rest of it becomes the new row, and clearing the held row leaves the unknown alone.\<close>

lemma reduce_to_rest:
  assumes run: "running sy d" and R: "R \<in> set (wd_rows d)" "wr_pivot R = q" and c: "length c = 512" "single_at (wd_lo d) q c" and w: "within (wd_lo d) 512 q"
  shows "\<exists>y. foldl (insert_reduce d) (c, x) (wd_rows d) = (mulSliceXor (c ! idx q) (wr_coef R) c, y)"
proof -
  note ix = running_ids(2) [OF run] and pt = running_parts [OF run]
  obtain rs ts where rows: "wd_rows d = rs @ R # ts" using R(1) by (meson split_list)
  have ok: "row_ok sy (wd_lo d) 512 r" if "r \<in> set (wd_rows d)" for r by (rule pt(3) [OF that])
  have o: "orth R r" if "r \<in> set rs \<or> r \<in> set ts" for r using that pt(5) by (auto simp: rows sorted_wrt_append orth_def)
  have away: "c ! idx (wr_pivot r) = 0" if "r \<in> set rs \<or> r \<in> set ts" for r
  proof -
    have "row_ok sy (wd_lo d) 512 r" using that ok rows by auto
    then have "wr_pivot r \<noteq> q" "within (wd_lo d) 512 (wr_pivot r)" using o [OF that] R(2) by (auto simp: orth_def row_ok_def)
    then show ?thesis using c(2) by (auto simp: single_at_def)
  qed
  have l: "length (wr_coef R) = 512" using ok [OF R(1)] by (simp add: row_ok_def)
  have nz: "c ! idx q \<noteq> 0" using c(2) w by (simp add: single_at_def)
  have first: "foldl (insert_reduce d) (c, x) rs = (c, x)" by (rule reduce_nothing) (use away ix in auto)
  obtain y where step: "insert_reduce d (c, x) R = (mulSliceXor (c ! idx q) (wr_coef R) c, y)" using nz R(2) ix by (simp add: insert_reduce_def Let_def)
  have "foldl (insert_reduce d) (mulSliceXor (c ! idx q) (wr_coef R) c, y) ts = (mulSliceXor (c ! idx q) (wr_coef R) c, y)"
    by (rule reduce_nothing) (use away o R(2) c(1) l in \<open>auto simp: ix nth_mulSliceXor orth_def\<close>)
  then show ?thesis unfolding rows by (simp add: first step)
qed

lemma gf_left_comm: "gfMul a (gfMul b c) = gfMul b (gfMul a c)"
  by (simp only: gfMul_assoc [symmetric] gfMul_comm [of a b])

lemma cleared_single:
  assumes "length c = 512" "length (wr_coef R) = 512" "single_at lo q c" "within lo 512 q" "wr_coef R ! idx q = 1" "within lo 512 p"
    and c2: "c2 = mulSliceXor (c ! idx q) (wr_coef R) c" and p: "c2 ! idx p \<noteq> 0"
    and row: "wr_coef row = scaleBytes (gf_inv (c2 ! idx p)) c2"
  shows "single_at lo q (wr_coef (insert_clear (idx p) row R))"
  unfolding single_at_def
proof (intro allI impI)
  fix e assume e: "within lo 512 e"
  let ?a = "c ! idx q" and ?f = "gf_inv (c2 ! idx p)"
  have at: "c2 ! idx x = c ! idx x XOR gfMul ?a (wr_coef R ! idx x)" for x using assms(1,2) by (simp add: c2 nth_mulSliceXor)
  have off: "c2 ! idx x = gfMul ?a (wr_coef R ! idx x)" if "within lo 512 x" "x \<noteq> q" for x
  proof -
    have "c ! idx x = 0" using assms(3) that by (auto simp: single_at_def)
    then show ?thesis using at [of x] by simp
  qed
  have zq: "c2 ! idx q = 0" using at [of q] assms(5) by simp
  then have "p \<noteq> q" using p by auto
  have l: "length c2 = 512" by (simp add: c2 mulSliceXor_def assms(1,2))
  have out: "wr_coef (insert_clear (idx p) row R) ! idx e = wr_coef R ! idx e XOR gfMul (wr_coef R ! idx p) (gfMul ?f (c2 ! idx e))"
    using insert_clear_fields(1) [of R row "idx e" "idx p"] assms(2) l by (simp add: row nth_scaleBytes scaleBytes_def)
  show "wr_coef (insert_clear (idx p) row R) ! idx e \<noteq> 0 \<longleftrightarrow> e = q"
  proof (cases "e = q")
    case True
    then show ?thesis using out zq assms(5) by simp
  next
    case False
    have "gfMul (wr_coef R ! idx p) (gfMul ?f (gfMul ?a (wr_coef R ! idx e))) = gfMul (gfMul ?f (gfMul ?a (wr_coef R ! idx p))) (wr_coef R ! idx e)"
      by (simp add: gfMul_assoc gf_left_comm)
    also have "gfMul ?f (gfMul ?a (wr_coef R ! idx p)) = 1" using gf_inv_mul [OF p] off [OF assms(6) \<open>p \<noteq> q\<close>] by simp
    finally show ?thesis using out off [OF e False] False by simp
  qed
qed

lemma known_live:
  assumes "running sy d" "within (wd_lo d) 512 e"
  shows "known d e \<longleftrightarrow> ds_live (wd_slots d ! idx e)"
  using running_parts(2) [OF assms(1) idx_less, of e] assms(2) idx_inj [of "wd_lo d" 512 "ds_esi (wd_slots d ! idx e)" e]
  by (auto simp: known_def Let_def running_ids [OF assms(1)] slot_ok_def)

lemma insert_reads:
  assumes run: "running sy d" and len: "length coef = 512" and eq: "\<And>j. pad data j = combination sy (ids (wd_lo d) 512) coef j"
    and st: "settled d" and q: "within (wd_lo d) 512 q" "\<not> known d q" "coef ! idx q \<noteq> 0"
    and rest: "\<And>e. within (wd_lo d) 512 e \<Longrightarrow> e \<noteq> q \<Longrightarrow> coef ! idx e \<noteq> 0 \<Longrightarrow> known d e"
  shows "\<exists>v. (q, v) \<in> set (Recovered (snd (dec_insert d coef data out)))"
proof -
  note ix = running_ids [OF run] and pt = running_parts [OF run] and kn = known_live [OF run]
  let ?lo = "wd_lo d"
  obtain c1 x1 where k1: "foldl (insert_known d) (coef, data) (dec_ids d) = (c1, x1)" by (cases "foldl (insert_known d) (coef, data) (dec_ids d)")
  have "eqn sy ?lo ({} \<union> {idx e |e. e \<in> set (ids ?lo 512) \<and> ds_live (wd_slots d ! idx e)}) (c1, x1)" unfolding k1 [symmetric] ix(1)
    by (rule known_loop [OF run]) (use len eq in \<open>auto simp: eqn_def set_ids\<close>)
  then have z: "length c1 = 512" "\<And>e. within ?lo 512 e \<Longrightarrow> known d e \<Longrightarrow> c1 ! idx e = 0" by (auto simp: eqn_def set_ids kn)
  have keep: "c1 ! idx e = coef ! idx e" if "within ?lo 512 e" "\<not> known d e" for e
    using known_keep [of d "idx e" "(coef, data)" "dec_ids d"] that by (simp add: k1 kn)
  have one: "single_at ?lo q c1" unfolding single_at_def using z(2) keep rest q by metis
  have dead: "\<not> ds_live (wd_slots d ! idx q)" using kn [OF q(1)] q(2) by simp
  have found: "\<exists>v. (q, v) \<in> set (Recovered (snd (dec_insert d coef data out)))"
    if k2: "foldl (insert_reduce d) (c1, x1) (wd_rows d) = (c2, x2)" and ld: "leading d c2 = (p, Suc n)"
      and row: "row = \<lparr>wr_pivot = p, wr_coef = scaleBytes (gf_inv (c2 ! idx p)) c2, wr_data = scaleBytes (gf_inv (c2 ! idx p)) x2\<rparr>"
      and r: "r \<in> set (map (insert_clear (idx p) row) (wd_rows d) @ [row])" "single_at ?lo q (wr_coef r)" for c2 x2 p n row r
  proof -
    note ready = insert_ready [OF run len eq k1 k2 ld refl row]
    show ?thesis unfolding ready(2) by (rule harvest_reads [OF ready(1), of r q]) (use r q(1) dead in simp_all)
  qed
  show ?thesis
  proof (cases "\<exists>R \<in> set (wd_rows d). wr_pivot R = q")
    case False
    have "c1 ! idx (wr_pivot r) = 0" if "r \<in> set (wd_rows d)" for r
      using False that pt(3) [OF that] one by (auto simp: single_at_def row_ok_def)
    then have k2: "foldl (insert_reduce d) (c1, x1) (wd_rows d) = (c1, x1)" by (intro reduce_nothing) (simp add: ix)
    have ld: "leading d c1 = (q, Suc 0)" using leading_single [OF ix q(1), of c1] one by (simp add: single_at_def)
    have nz: "c1 ! idx q \<noteq> 0" using one q(1) by (simp add: single_at_def)
    then have "gf_inv (c1 ! idx q) \<noteq> 0" using gf_inv_mul [of "c1 ! idx q"] by auto
    then have "single_at ?lo q (scaleBytes (gf_inv (c1 ! idx q)) c1)" using one z(1) by (simp add: single_at_def nth_scaleBytes gfMul_eq_0)
    then show ?thesis by (intro found [OF k2 ld refl, of "\<lparr>wr_pivot = q, wr_coef = scaleBytes (gf_inv (c1 ! idx q)) c1, wr_data = scaleBytes (gf_inv (c1 ! idx q)) x1\<rparr>"]) simp_all
  next
    case True
    then obtain R where R: "R \<in> set (wd_rows d)" "wr_pivot R = q" by blast
    have ok: "length (wr_coef R) = 512" "wr_coef R ! idx q = 1" using pt(3) [OF R(1)] R(2) by (auto simp: row_ok_def)
    let ?c2 = "mulSliceXor (c1 ! idx q) (wr_coef R) c1"
    obtain y where k2: "foldl (insert_reduce d) (c1, x1) (wd_rows d) = (?c2, y)" using reduce_to_rest [OF run R z(1) one q(1)] by blast
    obtain i where i: "i < 512" "i \<noteq> idx q" "wr_coef R ! i \<noteq> 0" using st R(1) unfolding settled_def open_row_def by metis
    obtain e where e: "within ?lo 512 e" "idx e = i" using idx_surj [OF i(1)] by blast
    have "c1 ! idx q \<noteq> 0" "c1 ! idx e = 0" using one q(1) e i(2) by (auto simp: single_at_def)
    then have "?c2 ! idx e \<noteq> 0" using i z(1) ok(1) e(2) by (simp add: nth_mulSliceXor gfMul_eq_0)
    from leading_some [OF ix e(1) this] obtain p n where p: "leading d ?c2 = (p, Suc n)" "within ?lo 512 p" "?c2 ! idx p \<noteq> 0" by blast
    show ?thesis
      by (rule found [OF k2 p(1) refl, of "insert_clear (idx p) _ R"]) (use R(1) cleared_single [OF z(1) ok(1) one q(1) ok(2) p(2) refl p(3)] in auto)
  qed
qed

lemma erasure_repaired:
  assumes "coded_reach xs s" "length xs < 2 ^ 32" "r \<in> cs_repairs s" "Vector r \<noteq> []"
    and "admit (cs_dec s) (First r + word_of_int (Count r - 1)) no_delivery = (True, d, out)" "0 \<le> sint (First r - wd_lo d)"
    and "k < nat (Count r)" "\<forall>i < nat (Count r). known d (First r + word_of_nat i) \<longleftrightarrow> i \<noteq> k"
  shows "(\<exists>v. (First r + word_of_nat k, v) \<in> set (Recovered (snd (dec_repair (cs_dec s) r))) \<and> same_symbol v (xs ! unat (First r + word_of_nat k))) \<and>
     Lost (snd (dec_repair (cs_dec s) r)) = Lost out"
proof -
  let ?sy = "\<lambda>e. xs ! unat e" and ?d = "witness_esi d (First r)" and ?q = "First r + word_of_nat k"
  have inv: "coded_inv xs s" by (rule coded_reach_inv [OF assms(1,2)])
  have "agrees xs (cs_sent s) ?sy" using inv assms(2) by (simp add: agrees_def coded_inv_def unat_of_nat)
  then have a: "dec_inv ?sy (cs_dec s)" "true_repair ?sy r" "0 < Count r" "Count r \<le> 256" using inv assms(3) by (auto simp: coded_inv_def)
  note ai = admit_inv [OF a(1) assms(5)]
  have run: "running ?sy ?d" using ai(1,2) running_witness by (simp add: running_def)
  have w: "within (wd_lo ?d) 512 (First r + word_of_nat (nat (Count r) - 1))" using ai(2) a(3) by (simp add: nat_diff_distrib' of_nat_diff)
  have c: "0 < nat (Count r)" "nat (Count r) \<le> 256" "0 \<le> sint (First r - wd_lo ?d)" using a(3,4) assms(6) by simp_all
  note win = repair_window [OF c(1,2,3) w]
  have sp: "repair_coef ?d r ! idx e = (if \<exists>i < nat (Count r). e = First r + word_of_nat i then windowCoefficient (RID r) (unat (e - First r)) else 0)"
    if "within (wd_lo ?d) 512 e" for e using repair_coef_spec [OF run, of r] win(2) c(2) that by simp
  have kn: "known ?d e = known d e" for e by (simp add: known_def dec_index_def)
  have st: "settled ?d" using settled_fewer [OF fed_settled [OF coded_fed [OF assms(1)]] admit_rows [OF assms(5)]] by (simp add: settled_def)
  have eq: "dec_repair (cs_dec s) r = dec_insert ?d (repair_coef ?d r) (Vector r) out"
    using a(3,4) assms(4-6) by (simp add: dec_repair_def MaxRepairWindow_def MaxShards_def Let_def)
  have "\<exists>v. (?q, v) \<in> set (Recovered (snd (dec_insert ?d (repair_coef ?d r) (Vector r) out)))"
  proof (rule insert_reads [OF run repair_equation [OF run a(2) c(1,2,3) w] st])
    show q: "within (wd_lo ?d) 512 ?q" "\<not> known ?d ?q" using assms(7,8) win(2) kn by simp_all
    show "repair_coef ?d r ! idx ?q \<noteq> 0" using sp [OF q(1)] assms(7) coefficient_nonzero by auto
    fix e assume "within (wd_lo ?d) 512 e" "e \<noteq> ?q" "repair_coef ?d r ! idx e \<noteq> 0"
    then show "known ?d e" using sp assms(8) kn by (metis (no_types, lifting))
  qed
  moreover have "all_true ?sy (snd (dec_repair (cs_dec s) r))" using repair_inv [OF a(1,2)] by (metis prod.collapse)
  moreover have "Lost (snd (dec_insert ?d (repair_coef ?d r) (Vector r) out)) = Lost out" using insert_frame by blast
  ultimately show ?thesis unfolding eq by (auto simp: all_true_def)
qed

text \<open>C13: a single erasure is repaired. When a repair arrives whose symbols all lie in the window it is admitted to, and all of them are known but
  one, that symbol is recovered at once, with the bytes that were sent, whatever equations are held; nothing is reported lost but what left the
  window to admit the repair. A repair with an empty vector is ignored by the code and left out here. The runs are those of
  \<open>recovered_was_sent\<close>.\<close>

theorem single_erasure_repaired:
  assumes "coded_reach xs s" "length xs < 2 ^ 32" "r \<in> cs_repairs s" "Vector r \<noteq> []"
    and "admit (cs_dec s) (First r + word_of_int (Count r - 1)) no_delivery = (True, d, out)" "0 \<le> sint (First r - wd_lo d)"
    and "k < nat (Count r)" "\<forall>i < nat (Count r). known d (First r + word_of_nat i) \<longleftrightarrow> i \<noteq> k"
  shows "(\<exists>v. (First r + word_of_nat k, v) \<in> set (Recovered (snd (dec_repair (cs_dec s) r))) \<and> same_symbol v (xs ! unat (First r + word_of_nat k))) \<and>
     Lost (snd (dec_repair (cs_dec s) r)) = Lost out"
  by (rule erasure_repaired [OF assms])

section \<open>Concrete runs\<close>

text \<open>The second of two symbols arrives, then the repair over both.\<close>

lemma pair_admitted: "admit second_only (First pair_repair + word_of_int (Count pair_repair - 1)) no_delivery = (True, second_only, no_delivery)"
  by (simp add: admit_def second_only_def pair_repair_def Let_def)

lemma single_read: "\<exists>v. (0, v) \<in> set (Recovered (snd (dec_repair second_only pair_repair)))"
  using erasure_repaired [OF pair_second, of pair_repair second_only no_delivery 0] pair_conditions pair_admitted by (auto simp: pair_defs)

theorem single_erasure_repaired_witness:
  "(\<exists>v. (0, v) \<in> set (Recovered (snd (dec_repair second_only pair_repair))) \<and> same_symbol v [5]) \<and> Lost (snd (dec_repair second_only pair_repair)) = []"
  using single_erasure_repaired [OF pair_second, of pair_repair second_only no_delivery 0] pair_conditions pair_admitted by (simp add: pair_defs)

theorem recovered_was_sent_witness:
  "\<exists>s v. coded_reach [[5], [7]] s \<and> (0, v) \<in> set (cs_got s) \<and> unat (0 :: u32) < cs_sent s \<and> same_symbol v [5]"
proof -
  have step: "coded_step [[5], [7]] (pair_state second_only []) (deliver (pair_state second_only []) (dec_repair second_only pair_repair))"
    using coded_step.repair [of pair_repair "pair_state second_only []" "[[5], [7]]"] by (simp add: pair_state_def)
  then have r: "coded_reach [[5], [7]] (deliver (pair_state second_only []) (dec_repair second_only pair_repair))" by (rule coded_reach.step [OF pair_second])
  obtain v where "(0, v) \<in> set (Recovered (snd (dec_repair second_only pair_repair)))" using single_read by blast
  then have g: "(0, v) \<in> set (cs_got (deliver (pair_state second_only []) (dec_repair second_only pair_repair)))" by (simp add: deliver_def)
  from recovered_was_sent [OF r _ g] show ?thesis using r g by (intro exI [of _ "deliver (pair_state second_only []) (dec_repair second_only pair_repair)"] exI [of _ v]) (simp add: pair_state_def deliver_def)
qed

end
