(* ===== verification/Coded.thy ===== *)
theory Coded
  imports FecWindow
begin

text \<open>
  The coded path, \<^verbatim>\<open>internal/coded/coded.go\<close>: frames are packed into symbols or cut into fragments, symbols
  are numbered by the window encoder and sent as datagrams with repairs among them, and the receiver
  turns arriving and recovered symbols back into frames. What the carrier answers to each datagram, how
  large a datagram it takes, which window the rate model asks for and how many repairs a symbol or a tail
  has earned (floating-point sizing against the measured path) are the environment of the sender, indexed
  by how often it was asked. A completion callback is a number, and running it appends it to \<open>pt_called\<close>;
  \<open>pt_wire\<close> is what the carrier accepted. The loss estimator and the statistics only observe.
\<close>

section \<open>Formats\<close>

definition sourceHeader :: nat where "sourceHeader = 4 + 1 + 4"
definition repairHeader :: nat where "repairHeader = 4 + 1 + 4 + 4 + 2"
definition kindSource :: byte where "kindSource = 0"
definition kindRepair :: byte where "kindRepair = 1"
definition symbolHeader :: nat where "symbolHeader = 2 + 2 + 2"
definition frameHeader :: nat where "frameHeader = 4"
definition maxFrameBytes :: nat where "maxFrameBytes = 2 ^ 20"
definition maxFragments :: nat where "maxFragments = 0xFFFF"
definition initialWindow :: int where "initialWindow = 16"
definition assemblerSlack :: int where "assemblerSlack = int MinDecoderWidth"

record coded_config =
  cc_SymbolBytes :: int
  cc_RoundTrip :: int
  cc_Pending :: int

definition coded_withDefaults :: "coded_config \<Rightarrow> coded_config" where
  "coded_withDefaults c0 =
     (let c1 = (if cc_SymbolBytes c0 \<le> 0 then c0\<lparr>cc_SymbolBytes := 1100\<rparr> else c0);
          c2 = (if cc_RoundTrip c1 \<le> 0 then c1\<lparr>cc_RoundTrip := 300000000\<rparr> else c1)
      in if cc_Pending c2 \<le> 0 then c2\<lparr>cc_Pending := 256\<rparr> else c2)"

text \<open>\<open>limit\<close> is \<^verbatim>\<open>MaxDatagramBytes\<close> of a carrier that has it.\<close>

definition symbolBytes :: "coded_config \<Rightarrow> int option \<Rightarrow> int" where
  "symbolBytes cfg limit =
     (let n = cc_SymbolBytes cfg;
          n = (case limit of Some l \<Rightarrow> if l > 0 \<and> l < n then l else n | None \<Rightarrow> n);
          least = int (repairHeader + symbolHeader + frameHeader + 1)
      in if n < least then least else n)"

definition symbolPayload :: "coded_config \<Rightarrow> int option \<Rightarrow> nat" where
  "symbolPayload cfg limit = nat (symbolBytes cfg limit - int repairHeader - int symbolHeader)"

function parseFrames :: "bytes \<Rightarrow> bytes list \<Rightarrow> bytes list" where
  "parseFrames payload out =
     (if length payload \<ge> frameHeader then
        let n = unat (get_be (take 4 payload) :: u32); rest = drop frameHeader payload in
        if n > length rest then out else parseFrames (drop n rest) (out @ [take n rest])
      else out)"
  by pat_completeness auto
termination
  by (relation "measure (\<lambda>(payload, out). length payload)") (auto simp: frameHeader_def)

declare parseFrames.simps [simp del]

definition parseSymbol :: "bytes \<Rightarrow> (bytes \<times> nat \<times> nat) option" where
  "parseSymbol vector =
     (if length vector < symbolHeader then None
      else
        let n = unat (get_be (take 2 vector) :: u16);
            index = unat (get_be (take 2 (drop 2 vector)) :: u16);
            count = unat (get_be (take 2 (drop 4 vector)) :: u16)
        in if count < 1 \<or> index \<ge> count \<or> symbolHeader + n > length vector then None
           else Some (take n (drop symbolHeader vector), index, count))"

section \<open>The queue of frames to send\<close>

record outboundFrame =
  ob_frame :: bytes
  ob_done :: "nat option"

definition no_frame :: outboundFrame where "no_frame = \<lparr>ob_frame = [], ob_done = None\<rparr>"

record pending_queue =
  pq_pending :: "outboundFrame list"
  pq_head :: nat
  pq_len :: nat
  pq_closed :: bool

definition new_pending :: "nat \<Rightarrow> pending_queue" where
  "new_pending n = \<lparr>pq_pending = replicate n no_frame, pq_head = 0, pq_len = 0, pq_closed = False\<rparr>"

definition pushPendingLocked :: "pending_queue \<Rightarrow> outboundFrame \<Rightarrow> pending_queue" where
  "pushPendingLocked q frame =
     (let tail = (pq_head q + pq_len q) mod length (pq_pending q)
      in q\<lparr>pq_pending := (pq_pending q)[tail := frame], pq_len := pq_len q + 1\<rparr>)"

definition popPendingLocked :: "pending_queue \<Rightarrow> outboundFrame \<times> pending_queue" where
  "popPendingLocked q =
     (pq_pending q ! pq_head q,
      q\<lparr>pq_pending := (pq_pending q)[pq_head q := no_frame], pq_head := (pq_head q + 1) mod length (pq_pending q), pq_len := pq_len q - 1\<rparr>)"

text \<open>One turn of the waiting loops: \<open>Wait\<close> is another round under the condition variable.\<close>

datatype send_turn = SendWait | SendTooLarge | SendClosed | SendQueued

definition SendOwnedTracked :: "pending_queue \<Rightarrow> outboundFrame \<Rightarrow> send_turn \<times> pending_queue" where
  "SendOwnedTracked q frame =
     (if length (ob_frame frame) > maxFrameBytes then (SendTooLarge, q)
      else if \<not> pq_closed q \<and> pq_len q = length (pq_pending q) then (SendWait, q)
      else if pq_closed q then (SendClosed, q)
      else (SendQueued, pushPendingLocked q frame))"

datatype pending_turn = TakeWait | TakeNone | Taken outboundFrame

definition takePending :: "pending_queue \<Rightarrow> bool \<Rightarrow> pending_turn \<times> pending_queue" where
  "takePending q block =
     (if \<not> pq_closed q \<and> block \<and> pq_len q = 0 then (TakeWait, q)
      else if pq_closed q \<or> pq_len q = 0 then (TakeNone, q)
      else let (frame, q1) = popPendingLocked q in (Taken frame, q1))"

definition closePath :: "pending_queue \<Rightarrow> pending_queue" where
  "closePath q = q\<lparr>pq_closed := True\<rparr>"

definition callDone :: "nat option \<Rightarrow> nat list" where
  "callDone d = (case d of None \<Rightarrow> [] | Some k \<Rightarrow> [k])"

text \<open>The callbacks of the frames the queue still holds, in the order \<open>abandonPending\<close> runs them.\<close>

definition abandon_queue :: "pending_queue \<Rightarrow> nat list \<times> pending_queue" where
  "abandon_queue q =
     (let cap = length (pq_pending q)
      in (concat (map (\<lambda>i. callDone (ob_done (pq_pending q ! ((pq_head q + i) mod cap)))) [0..<pq_len q]),
          q\<lparr>pq_pending := foldl (\<lambda>ring i. ring[(pq_head q + i) mod cap := no_frame]) (pq_pending q) [0..<pq_len q], pq_head := 0, pq_len := 0\<rparr>))"

section \<open>The sending side\<close>

datatype send_result = Accepted | TooLarge | Broken

record path_env =
  env_send :: "nat \<Rightarrow> bytes \<Rightarrow> send_result"
  env_code :: "nat \<Rightarrow> int \<times> nat"
  env_tail :: "nat \<Rightarrow> nat \<Rightarrow> nat"

record coded_send =
  pt_cfg :: coded_config
  pt_encoder :: "WindowEncoder option"
  pt_packed :: bytes
  pt_packedDone :: "nat option list"
  pt_nextSeq :: u32
  pt_nextRID :: u32
  pt_burstSymbols :: nat
  pt_burstRepairs :: nat
  pt_calls :: nat
  pt_emits :: nat
  pt_sent :: u64
  pt_repairs :: u64
  pt_oversize :: u64
  pt_failed :: bool
  pt_wire :: "bytes list"
  pt_called :: "nat list"

definition new_send :: "coded_config \<Rightarrow> coded_send" where
  "new_send cfg = \<lparr>pt_cfg = coded_withDefaults cfg, pt_encoder = None, pt_packed = [], pt_packedDone = [], pt_nextSeq = 0, pt_nextRID = 0,
     pt_burstSymbols = 0, pt_burstRepairs = 0, pt_calls = 0, pt_emits = 0, pt_sent = 0, pt_repairs = 0, pt_oversize = 0, pt_failed = False,
     pt_wire = [], pt_called = []\<rparr>"

definition take_seq :: "coded_send \<Rightarrow> u32 \<times> coded_send" where
  "take_seq p = (pt_nextSeq p, p\<lparr>pt_nextSeq := pt_nextSeq p + 1\<rparr>)"

definition untake :: "coded_send \<Rightarrow> coded_send" where
  "untake p = p\<lparr>pt_nextSeq := pt_nextSeq p - 1\<rparr>"

text \<open>\<open>put\<close> returns whether the datagram was sent, and whether the call failed.\<close>

definition put_datagram :: "path_env \<Rightarrow> bytes \<Rightarrow> coded_send \<Rightarrow> bool \<times> bool \<times> coded_send" where
  "put_datagram env d p0 =
     (let p = p0\<lparr>pt_calls := Suc (pt_calls p0)\<rparr> in
      case env_send env (pt_calls p0) d of
        Accepted \<Rightarrow> (True, False, p\<lparr>pt_sent := pt_sent p + 1, pt_wire := pt_wire p @ [d]\<rparr>)
      | TooLarge \<Rightarrow> (False, False, untake (p\<lparr>pt_oversize := pt_oversize p + 1\<rparr>))
      | Broken \<Rightarrow> (False, True, (untake p)\<lparr>pt_failed := True\<rparr>))"

definition source_datagram :: "u32 \<Rightarrow> u32 \<Rightarrow> bytes \<Rightarrow> bytes" where
  "source_datagram seq esi vector = put_be 4 seq @ [kindSource] @ put_be 4 esi @ vector"

definition sendSource :: "path_env \<Rightarrow> bytes \<Rightarrow> u32 \<Rightarrow> coded_send \<Rightarrow> bool \<times> coded_send" where
  "sendSource env vector esi p0 =
     (let (seq, p1) = take_seq p0;
          (_, err, p2) = put_datagram env (source_datagram seq esi vector) p1
      in (err, p2))"

definition repair_datagram :: "u32 \<Rightarrow> RepairSymbol \<Rightarrow> bytes" where
  "repair_datagram seq r =
     put_be 4 seq @ [kindRepair] @ put_be 4 (RID r) @ put_be 4 (First r) @ put_be 2 (word_of_int (Count r) :: u16) @ Vector r"

definition sendRepair :: "path_env \<Rightarrow> nat \<Rightarrow> WindowEncoder \<Rightarrow> coded_send \<Rightarrow> bool \<times> coded_send" where
  "sendRepair env count e p0 =
     (let rid = pt_nextRID p0; p = p0\<lparr>pt_nextRID := pt_nextRID p0 + 1\<rparr> in
      case RepairVectorSize e (int count) of
        None \<Rightarrow> (False, p)
      | Some _ \<Rightarrow>
          (case AppendRepair e [] rid (int count) of
             None \<Rightarrow> (False, p)
           | Some (_, r) \<Rightarrow>
               let (seq, p1) = take_seq p;
                   (sent, err, p2) = put_datagram env (repair_datagram seq r) p1
               in (err, if sent then p2\<lparr>pt_repairs := pt_repairs p2 + 1\<rparr> else p2)))"

text \<open>The loops that send \<open>n\<close> repairs and stop at an error.\<close>

fun send_repairs :: "path_env \<Rightarrow> nat \<Rightarrow> WindowEncoder \<Rightarrow> nat \<Rightarrow> coded_send \<Rightarrow> bool \<times> coded_send" where
  "send_repairs env count e 0 p = (False, p)"
| "send_repairs env count e (Suc n) p =
     (let (err, p1) = sendRepair env count e p in
      if err then (True, p1) else send_repairs env count e n (p1\<lparr>pt_burstRepairs := pt_burstRepairs p1 + 1\<rparr>))"

definition symbol_vector :: "bytes \<Rightarrow> nat \<Rightarrow> nat \<Rightarrow> bytes" where
  "symbol_vector payload index count =
     put_be 2 (word_of_nat (length payload) :: u16) @ put_be 2 (word_of_nat index :: u16) @ put_be 2 (word_of_nat count :: u16) @ payload"

definition emit :: "path_env \<Rightarrow> bytes \<Rightarrow> nat \<Rightarrow> nat \<Rightarrow> coded_send \<Rightarrow> bool \<times> coded_send" where
  "emit env payload index count p0 =
     (let vector = symbol_vector payload index count;
          (capacity, earned) = env_code env (pt_emits p0);
          e0 = (case pt_encoder p0 of None \<Rightarrow> NewWindowEncoder initialWindow | Some e \<Rightarrow> e);
          (esi, e) = AddOwned (SetCapacity e0 capacity) vector;
          p1 = p0\<lparr>pt_emits := Suc (pt_emits p0), pt_encoder := Some e\<rparr>;
          (err, p2) = sendSource env vector esi p1
      in if err then (True, p2)
         else
           let p3 = p2\<lparr>pt_burstSymbols := pt_burstSymbols p2 + 1\<rparr>;
               p4 = (if pt_burstSymbols p3 \<ge> enc_Capacity e then p3\<lparr>pt_burstSymbols := 0, pt_burstRepairs := 0\<rparr> else p3)
           in send_repairs env 0 e earned p4)"

definition flushPacked :: "path_env \<Rightarrow> coded_send \<Rightarrow> bool \<times> coded_send" where
  "flushPacked env p =
     (if length (pt_packed p) = 0 then (False, p)
      else
        let (err, p1) = emit env (pt_packed p) 0 1 p
        in (err, p1\<lparr>pt_packed := [], pt_called := pt_called p1 @ concat (map callDone (pt_packedDone p1)), pt_packedDone := []\<rparr>))"

fun fragment_loop :: "path_env \<Rightarrow> bytes \<Rightarrow> nat \<Rightarrow> nat \<Rightarrow> nat list \<Rightarrow> coded_send \<Rightarrow> bool \<times> coded_send" where
  "fragment_loop env frame limit count [] p = (False, p)"
| "fragment_loop env frame limit count (i # is) p =
     (let end = min ((i + 1) * limit) (length frame);
          (err, p1) = emit env (take (end - i * limit) (drop (i * limit) frame)) i count p
      in if err then (True, p1) else fragment_loop env frame limit count is p1)"

definition sendFragments :: "path_env \<Rightarrow> bytes \<Rightarrow> nat \<Rightarrow> coded_send \<Rightarrow> bool \<times> coded_send" where
  "sendFragments env frame limit p =
     (let count = (length frame + limit - 1) div limit in
      if count > maxFragments then (True, p) else fragment_loop env frame limit count [0..<count] p)"

definition call_done :: "nat option \<Rightarrow> coded_send \<Rightarrow> coded_send" where
  "call_done d p = p\<lparr>pt_called := pt_called p @ callDone d\<rparr>"

definition appendFrame :: "path_env \<Rightarrow> int option \<Rightarrow> bytes \<Rightarrow> nat option \<Rightarrow> coded_send \<Rightarrow> bool \<times> coded_send" where
  "appendFrame env maxDatagram frame done p =
     (let limit = symbolPayload (pt_cfg p) maxDatagram in
      if frameHeader + length frame > limit then
        (let (err, p1) = flushPacked env p in
         if err then (True, call_done done p1)
         else let (err2, p2) = sendFragments env frame limit p1 in (err2, call_done done p2))
      else
        let (err, p1) = (if length (pt_packed p) + frameHeader + length frame > limit then flushPacked env p else (False, p)) in
        if err then (True, call_done done p1)
        else (False, p1\<lparr>pt_packed := pt_packed p1 @ put_be 4 (word_of_nat (length frame) :: u32) @ frame, pt_packedDone := pt_packedDone p1 @ [done]\<rparr>))"

definition protectBurst :: "path_env \<Rightarrow> coded_send \<Rightarrow> bool \<times> coded_send" where
  "protectBurst env p =
     (if pt_burstSymbols p \<le> 0 then (False, p)
      else (case pt_encoder p of
              None \<Rightarrow> (False, p)
            | Some e \<Rightarrow>
                let want = env_tail env (pt_calls p) (pt_burstSymbols p);
                    (err, p1) = send_repairs env (pt_burstSymbols p) e (want - pt_burstRepairs p) p
                in if err then (True, p1) else (False, p1\<lparr>pt_burstSymbols := 0, pt_burstRepairs := 0\<rparr>)))"

text \<open>The callbacks \<open>abandonPending\<close> runs for the frames that were packed and not flushed.\<close>

definition abandon_packed :: "coded_send \<Rightarrow> coded_send" where
  "abandon_packed p = p\<lparr>pt_called := pt_called p @ concat (map callDone (pt_packedDone p)), pt_packedDone := []\<rparr>"

section \<open>The receiving side\<close>

record fragmentGroup =
  gr_parts :: "bytes option list"
  gr_held :: nat
  gr_bytes :: nat

record assembler =
  as_groups :: "u32 \<rightharpoonup> fragmentGroup"
  as_high :: u32
  as_seen :: bool
  as_lostN :: u64

definition new_assembler :: assembler where
  "new_assembler = \<lparr>as_groups = Map.empty, as_high = 0, as_seen = False, as_lostN = 0\<rparr>"

text \<open>The groups left when every group that satisfies \<open>P\<close> is deleted.\<close>

definition drop_groups :: "(u32 \<Rightarrow> fragmentGroup \<Rightarrow> bool) \<Rightarrow> assembler \<Rightarrow> assembler" where
  "drop_groups P a = a\<lparr>as_groups := (\<lambda>first. case as_groups a first of None \<Rightarrow> None | Some g \<Rightarrow> if P first g then None else Some g)\<rparr>"

definition prune :: "assembler \<Rightarrow> assembler" where
  "prune a = drop_groups (\<lambda>first g. sint (as_high a - (first + word_of_nat (length (gr_parts g)))) > assemblerSlack) a"

definition note_esi :: "u32 \<Rightarrow> assembler \<Rightarrow> assembler" where
  "note_esi esi a =
     (if \<not> as_seen a then a\<lparr>as_seen := True, as_high := esi\<rparr>
      else if sint (esi - as_high a) > 0 then prune (a\<lparr>as_high := esi\<rparr>)
      else a)"

text \<open>A copy of an empty payload is nil, which reads as a part not yet held.\<close>

definition copy_part :: "bytes \<Rightarrow> bytes option" where
  "copy_part payload = (if payload = [] then None else Some payload)"

definition join_parts :: "bytes option list \<Rightarrow> bytes" where
  "join_parts parts = concat (map (\<lambda>p. case p of None \<Rightarrow> [] | Some b \<Rightarrow> b) parts)"

definition arrived :: "u32 \<Rightarrow> bytes \<Rightarrow> bytes list \<Rightarrow> assembler \<Rightarrow> bytes list \<times> bool \<times> assembler" where
  "arrived esi vector out a0 =
     (let a = note_esi esi a0 in
      case parseSymbol vector of
        None \<Rightarrow> (out, False, a)
      | Some (payload, index, count) \<Rightarrow>
          if count = 1 then (parseFrames payload out, True, a)
          else
            let first = esi - word_of_nat index;
                group = (case as_groups a first of Some g \<Rightarrow> g | None \<Rightarrow> \<lparr>gr_parts = replicate count None, gr_held = 0, gr_bytes = 0\<rparr>);
                a1 = a\<lparr>as_groups := (as_groups a)(first \<mapsto> group)\<rparr>
            in if index \<ge> length (gr_parts group) \<or> gr_parts group ! index \<noteq> None then (out, True, a1)
               else
                 let g1 = \<lparr>gr_parts = (gr_parts group)[index := copy_part payload], gr_held = gr_held group + 1, gr_bytes = gr_bytes group + length payload\<rparr>
                 in if gr_held g1 < length (gr_parts g1) then (out, True, a1\<lparr>as_groups := (as_groups a1)(first \<mapsto> g1)\<rparr>)
                    else (out @ [join_parts (gr_parts g1)], True, a1\<lparr>as_groups := (as_groups a1)(first := None)\<rparr>))"

definition symbol_lost :: "u32 \<Rightarrow> assembler \<Rightarrow> assembler" where
  "symbol_lost esi a0 =
     (let a = note_esi esi a0; a1 = a\<lparr>as_lostN := as_lostN a + 1\<rparr>
      in drop_groups (\<lambda>first g. 0 \<le> sint (esi - first) \<and> sint (esi - first) < int (length (gr_parts g))) a1)"

record coded_recv =
  rc_decoder :: "WindowDecoder option"
  rc_assembler :: assembler
  rc_arrivals :: u64
  rc_sources :: u64
  rc_malformed :: u64

definition new_recv :: coded_recv where
  "new_recv = \<lparr>rc_decoder = None, rc_assembler = new_assembler, rc_arrivals = 0, rc_sources = 0, rc_malformed = 0\<rparr>"

fun arrived_all :: "(u32 \<times> bytes) list \<Rightarrow> bytes list \<Rightarrow> assembler \<Rightarrow> bytes list \<times> assembler" where
  "arrived_all [] out a = (out, a)"
| "arrived_all ((esi, v) # rs) out a = (let (out1, _, a1) = arrived esi v out a in arrived_all rs out1 a1)"

definition the_decoder :: "coded_recv \<Rightarrow> WindowDecoder" where
  "the_decoder p = (case rc_decoder p of None \<Rightarrow> NewWindowDecoder | Some d \<Rightarrow> d)"

text \<open>The end of \<open>onDatagram\<close>: the recovered symbols arrive, and the lost ones are dropped.\<close>

definition deliver_symbols :: "WindowDecoder \<times> Delivery \<Rightarrow> bytes list \<Rightarrow> coded_recv \<Rightarrow> bytes list \<times> coded_recv" where
  "deliver_symbols dd frames p =
     (let (frames1, a1) = arrived_all (Recovered (snd dd)) frames (rc_assembler p)
      in (frames1, p\<lparr>rc_decoder := Some (fst dd), rc_assembler := foldl (\<lambda>a esi. symbol_lost esi a) a1 (Lost (snd dd))\<rparr>))"

definition onDatagram :: "bytes \<Rightarrow> coded_recv \<Rightarrow> bytes list \<times> coded_recv" where
  "onDatagram d p0 =
     (if length d < sourceHeader then ([], p0)
      else
        let p = p0\<lparr>rc_arrivals := rc_arrivals p0 + 1\<rparr> in
        if d ! 4 = kindSource then
          let esi = (get_be (take 4 (drop 5 d)) :: u32);
              vector = drop sourceHeader d;
              p1 = p\<lparr>rc_sources := rc_sources p + 1\<rparr>;
              (frames, valid, a) = arrived esi vector [] (rc_assembler p1);
              p2 = p1\<lparr>rc_assembler := a\<rparr>
          in if \<not> valid then (frames, p2) else deliver_symbols (dec_source (the_decoder p2) esi vector) frames p2
        else if d ! 4 = kindRepair then
          if length d < repairHeader then ([], p)
          else
            let count = unat (get_be (take 2 (drop 13 d)) :: u16) in
            if count \<le> 0 \<or> count > MaxRepairWindow then ([], p\<lparr>rc_malformed := rc_malformed p + 1\<rparr>)
            else deliver_symbols (dec_repair (the_decoder p) \<lparr>RID = get_be (take 4 (drop 5 d)), First = get_be (take 4 (drop 9 d)),
                   Count = int count, Vector = drop repairHeader d\<rparr>) [] p
        else ([], p))"

end
