(* ===== verification/CodedRun.thy ===== *)
theory CodedRun
  imports Coded FecCode "HOL-Library.Multiset"
begin

text \<open>
  The coded path end to end. The sender's symbols are a ghost list \<open>xs\<close>; the encoder holds its newest, every
  datagram on the wire is one of its symbols or a true repair, and every symbol is a run of whole frames or
  a fragment of one frame. The receiver's decoder and groups are then consistent with it, and what is
  delivered was sent.
\<close>

section \<open>Symbols and frames\<close>

lemma take_pad: "m \<le> length v \<Longrightarrow> take m v = map (pad v) [0..<m]"
  by (rule nth_equalityI) (simp_all add: pad_def)

lemma slice_pad: "a + m \<le> length v \<Longrightarrow> take m (drop a v) = map (\<lambda>i. pad v (a + i)) [0..<m]"
  by (rule nth_equalityI) (simp_all add: pad_def)

lemma symbol_vector_parts:
  "length (symbol_vector payload i c) = 6 + length payload" "take 2 (symbol_vector payload i c) = put_be 2 (word_of_nat (length payload) :: u16)"
  "take 2 (drop 2 (symbol_vector payload i c)) = put_be 2 (word_of_nat i :: u16)" "take 2 (drop 4 (symbol_vector payload i c)) = put_be 2 (word_of_nat c :: u16)"
  "take (length payload) (drop 6 (symbol_vector payload i c)) = payload"
  by (simp_all add: symbol_vector_def del: put_be.simps)

lemma get_put_u16: "n < 65536 \<Longrightarrow> unat (get_be (put_be 2 (word_of_nat n :: u16)) :: u16) = n"
  by (simp add: unat_of_nat del: put_be.simps)

text \<open>A vector that equals a sent symbol up to trailing zeros parses to that symbol, or not at all.\<close>

lemma parse_same:
  assumes "same_symbol v (symbol_vector payload i c)" "length payload < 65536" "i < 65536" "c < 65536" "parseSymbol v = Some x"
  shows "x = (payload, i, c)"
proof -
  let ?w = "symbol_vector payload i c"
  have p: "pad v = pad ?w" using assms(1) by (auto simp: same_symbol_def)
  have l: "6 \<le> length v" using assms(5) by (auto simp: parseSymbol_def symbolHeader_def split: if_splits)
  have "take 2 v = take 2 ?w" "take 2 (drop 2 v) = take 2 (drop 2 ?w)" "take 2 (drop 4 v) = take 2 (drop 4 ?w)"
    using l p take_pad [of 2 v] take_pad [of 2 ?w] slice_pad [of 2 2 v] slice_pad [of 2 2 ?w] slice_pad [of 4 2 v] slice_pad [of 4 2 ?w]
    by (simp_all add: symbol_vector_parts(1))
  then have h: "unat (get_be (take 2 v) :: u16) = length payload" "unat (get_be (take 2 (drop 2 v)) :: u16) = i" "unat (get_be (take 2 (drop 4 v)) :: u16) = c"
    using get_put_u16 assms(2-4) by (simp_all only: symbol_vector_parts(2-4))
  have "6 + length payload \<le> length v" "x = (take (length payload) (drop 6 v), i, c)"
    using assms(5) unfolding parseSymbol_def Let_def h by (auto simp: symbolHeader_def split: if_splits)
  then show ?thesis using p slice_pad [of 6 "length payload" v] slice_pad [of 6 "length payload" ?w] symbol_vector_parts(1,5) [of payload i c] by simp
qed

lemma parse_symbol:
  "length payload < 65536 \<Longrightarrow> i < c \<Longrightarrow> c < 65536 \<Longrightarrow> parseSymbol (symbol_vector payload i c) = Some (payload, i, c)"
  unfolding parseSymbol_def Let_def symbol_vector_parts(2-4) symbolHeader_def
  using symbol_vector_parts(1,5) [of payload i c] get_put_u16 by (simp del: put_be.simps get_put_be)

definition frame_bytes :: "bytes \<Rightarrow> bytes" where
  "frame_bytes f = put_be 4 (word_of_nat (length f) :: u32) @ f"

lemma parse_frame: "length f < 2 ^ 32 \<Longrightarrow> parseFrames (frame_bytes f @ rest) out = parseFrames rest (out @ [f])"
proof -
  assume "length f < 2 ^ 32"
  then have n: "unat (get_be (put_be 4 (word_of_nat (length f) :: u32)) :: u32) = length f" by (simp add: unat_of_nat del: put_be.simps)
  have "take 4 (frame_bytes f @ rest) = put_be 4 (word_of_nat (length f) :: u32)" "drop 4 (frame_bytes f @ rest) = f @ rest" "4 \<le> length (frame_bytes f @ rest)"
    by (simp_all add: frame_bytes_def del: put_be.simps)
  then show ?thesis unfolding parseFrames.simps [of "frame_bytes f @ rest"] frameHeader_def Let_def using n by (simp del: put_be.simps get_put_be)
qed

lemma parse_frames: "\<forall>f \<in> set fs. length f < 2 ^ 32 \<Longrightarrow> parseFrames (concat (map frame_bytes fs)) out = out @ fs"
proof (induction fs arbitrary: out)
  case Nil
  then show ?case by (simp add: parseFrames.simps frameHeader_def)
qed (simp add: parse_frame)

text \<open>The fragments of a frame.\<close>

definition fcount :: "bytes \<times> nat \<Rightarrow> nat" where
  "fcount fl = (length (fst fl) + snd fl - 1) div snd fl"

definition frag :: "bytes \<times> nat \<Rightarrow> nat \<Rightarrow> bytes" where
  "frag fl i = take (min ((i + 1) * snd fl) (length (fst fl)) - i * snd fl) (drop (i * snd fl) (fst fl))"

lemma frag_prefix: "0 < limit \<Longrightarrow> concat (map (frag (f, limit)) [0..<n]) = take (n * limit) f"
proof (induction n)
  case (Suc n)
  have "frag (f, limit) n = take limit (drop (n * limit) f)" by (auto simp: frag_def min_def)
  then show ?case using Suc take_add [of "n * limit" limit f] by (simp add: add.commute)
qed simp

lemma fcount_cover: "0 < limit \<Longrightarrow> length f \<le> fcount (f, limit) * limit"
proof -
  assume l: "0 < limit"
  have "length f + limit - 1 < (fcount (f, limit) + 1) * limit" using dividend_less_div_times [OF l, of "length f + limit - 1"] by (simp add: fcount_def add.commute)
  then show ?thesis using l by (simp add: algebra_simps)
qed

lemma frag_join: "0 < limit \<Longrightarrow> concat (map (frag (f, limit)) [0..<fcount (f, limit)]) = f"
  using frag_prefix fcount_cover by simp

lemma frag_nonempty:
  assumes "0 < limit" "i < fcount (f, limit)"
  shows "frag (f, limit) i \<noteq> []" "length (frag (f, limit) i) \<le> limit"
proof -
  have "(i + 1) * limit \<le> fcount (f, limit) * limit" using assms by (intro mult_right_mono) auto
  also have "\<dots> \<le> length f + limit - 1" by (simp add: fcount_def)
  finally have "i * limit < length f" using assms(1) by simp
  then show "frag (f, limit) i \<noteq> []" "length (frag (f, limit) i) \<le> limit" using assms(1) by (simp_all add: frag_def)
qed

section \<open>The sender\<close>

definition the_encoder :: "coded_send \<Rightarrow> WindowEncoder" where
  "the_encoder p = (case pt_encoder p of None \<Rightarrow> NewWindowEncoder initialWindow | Some e \<Rightarrow> e)"

definition wire_ok :: "bytes list \<Rightarrow> bytes \<Rightarrow> bool" where
  "wire_ok xs d \<longleftrightarrow> (\<exists>seq k. k < length xs \<and> d = source_datagram seq (word_of_nat k) (xs ! k)) \<or>
     (\<exists>seq r. d = repair_datagram seq r \<and> 0 < Count r \<and> Count r \<le> 256 \<and> (\<forall>sy. agrees xs (length xs) sy \<longrightarrow> true_repair sy r))"

definition send_inv :: "bytes list \<Rightarrow> coded_send \<Rightarrow> bool" where
  "send_inv xs p \<longleftrightarrow> length xs = pt_emits p \<and> we_next (the_encoder p) = word_of_nat (length xs) \<and>
     (\<forall>sy. agrees xs (length xs) sy \<longrightarrow> enc_inv sy (the_encoder p)) \<and> (\<forall>d \<in> set (pt_wire p). wire_ok xs d)"

lemma agrees_append: "agrees (xs @ ys) (length (xs @ ys)) sy \<Longrightarrow> agrees xs (length xs) sy"
  by (auto simp: agrees_def nth_append)

lemma wire_ok_append: "wire_ok xs d \<Longrightarrow> wire_ok (xs @ ys) d"
  unfolding wire_ok_def using agrees_append [of xs ys] by (metis length_append nth_append trans_less_add1)

text \<open>What a step of the sender leaves alone: the frames packed and their callbacks.\<close>

definition same_packing :: "coded_send \<Rightarrow> coded_send \<Rightarrow> bool" where
  "same_packing p p' \<longleftrightarrow> pt_packed p' = pt_packed p \<and> pt_packedDone p' = pt_packedDone p \<and> pt_called p' = pt_called p \<and> pt_cfg p' = pt_cfg p"

lemma same_packing_refl [simp]: "same_packing p p"
  by (simp add: same_packing_def)

lemma same_packing_trans: "same_packing a b \<Longrightarrow> same_packing b c \<Longrightarrow> same_packing a c"
  by (simp add: same_packing_def)

lemma send_inv_cong: "pt_emits p' = pt_emits p \<Longrightarrow> pt_encoder p' = pt_encoder p \<Longrightarrow> pt_wire p' = pt_wire p \<Longrightarrow> send_inv xs p' = send_inv xs p"
  by (simp add: send_inv_def the_encoder_def)

lemma put_inv:
  assumes "send_inv xs p" "wire_ok xs d" "put_datagram env d p = (sent, err, p')"
  shows "send_inv xs p' \<and> same_packing p p' \<and> pt_emits p' = pt_emits p \<and> pt_encoder p' = pt_encoder p"
  using assms by (auto simp: put_datagram_def untake_def send_inv_def the_encoder_def same_packing_def Let_def split: send_result.splits)

lemma take_seq_inv: "take_seq p = (seq, p') \<Longrightarrow> send_inv xs p \<Longrightarrow> send_inv xs p' \<and> same_packing p p' \<and> pt_emits p' = pt_emits p \<and> pt_encoder p' = pt_encoder p"
  by (auto simp: take_seq_def send_inv_def the_encoder_def same_packing_def)

lemma sendSource_inv:
  assumes "send_inv xs p" "k < length xs" "sendSource env (xs ! k) (word_of_nat k) p = (err, p')"
  shows "send_inv xs p' \<and> same_packing p p' \<and> pt_emits p' = pt_emits p \<and> pt_encoder p' = pt_encoder p"
proof -
  obtain seq p1 where t: "take_seq p = (seq, p1)" by (cases "take_seq p")
  let ?d = "source_datagram seq (word_of_nat k) (xs ! k)"
  obtain sent err' p2 where q: "put_datagram env ?d p1 = (sent, err', p2)" by (cases "put_datagram env ?d p1")
  have "wire_ok xs ?d" using assms(2) by (auto simp: wire_ok_def)
  from put_inv [OF _ this q] take_seq_inv [OF t assms(1)] show ?thesis
    using assms(3) t q same_packing_trans by (auto simp: sendSource_def)
qed

lemma repair_count: "enc_Repair e rid n = Some r \<Longrightarrow> 0 < Count r \<and> Count r \<le> 256"
  by (auto simp: enc_Repair_def AppendRepair_def repairBounds_def MaxRepairWindow_def MaxShards_def Let_def split: if_splits)

lemma sendRepair_inv:
  assumes "send_inv xs p" "pt_encoder p = Some e" "sendRepair env cnt e p = (err, p')"
  shows "send_inv xs p' \<and> same_packing p p' \<and> pt_emits p' = pt_emits p \<and> pt_encoder p' = Some e"
proof -
  let ?p = "p\<lparr>pt_nextRID := pt_nextRID p + 1\<rparr>"
  have sp: "send_inv xs ?p" "same_packing p ?p" using assms(1) by (simp_all add: send_inv_def the_encoder_def same_packing_def)
  show ?thesis
  proof (cases "AppendRepair e [] (pt_nextRID p) (int cnt)")
    case None
    then have "p' = ?p" using assms(3) by (auto simp: sendRepair_def Let_def split: option.splits)
    then show ?thesis using sp assms(2) by simp
  next
    case (Some x)
    obtain v r where x: "x = (v, r)" by (cases x)
    have r: "enc_Repair e (pt_nextRID p) (int cnt) = Some r" using Some x by (simp add: enc_Repair_def)
    have tr: "true_repair sy r" if "agrees xs (length xs) sy" for sy
    proof -
      have "enc_inv sy e" using assms(1,2) that by (simp add: send_inv_def the_encoder_def)
      from repair_built [OF this repair_held [OF r], of "pt_nextRID p" "int cnt"] r show ?thesis by (metis option.inject)
    qed
    obtain seq p1 where t: "take_seq ?p = (seq, p1)" by (cases "take_seq ?p")
    obtain sent err' p2 where q: "put_datagram env (repair_datagram seq r) p1 = (sent, err', p2)" by (cases "put_datagram env (repair_datagram seq r) p1")
    have "wire_ok xs (repair_datagram seq r)" unfolding wire_ok_def using tr repair_count [OF r] by blast
    note pi = put_inv [OF _ this q] and ti = take_seq_inv [OF t sp(1)]
    have p': "p' = (if sent then p2\<lparr>pt_repairs := pt_repairs p2 + 1\<rparr> else p2) \<or> p' = ?p"
      using assms(3) Some x t q by (auto simp: sendRepair_def Let_def split: option.splits)
    have "send_inv xs p2 \<and> same_packing p p2 \<and> pt_emits p2 = pt_emits p \<and> pt_encoder p2 = Some e" using pi ti sp(2) same_packing_trans assms(2) by auto
    then show ?thesis using p' sp assms(2) by (cases sent) (auto simp: send_inv_def the_encoder_def same_packing_def)
  qed
qed

lemma send_repairs_inv:
  assumes "send_inv xs p" "pt_encoder p = Some e" "send_repairs env cnt e n p = (err, p')"
  shows "send_inv xs p' \<and> same_packing p p' \<and> pt_emits p' = pt_emits p \<and> pt_encoder p' = Some e"
  using assms
proof (induction n arbitrary: p)
  case (Suc n)
  obtain er p1 where s: "sendRepair env cnt e p = (er, p1)" by (cases "sendRepair env cnt e p")
  note i = sendRepair_inv [OF Suc.prems(1,2) s]
  let ?p = "p1\<lparr>pt_burstRepairs := pt_burstRepairs p1 + 1\<rparr>"
  have "send_inv xs ?p" "same_packing p ?p" "pt_encoder ?p = Some e" "pt_emits ?p = pt_emits p" using i by (auto simp: send_inv_def the_encoder_def same_packing_def)
  then show ?case using Suc.IH [of ?p] Suc.prems(3) s i same_packing_trans by (auto simp: Let_def split: if_splits)
qed simp

lemma emit_inv:
  assumes inv: "send_inv xs p" and e: "emit env payload i c p = (err, p')"
  shows "send_inv (xs @ [symbol_vector payload i c]) p' \<and> same_packing p p' \<and> pt_emits p' = Suc (pt_emits p)"
proof -
  let ?v = "symbol_vector payload i c"
  let ?xs = "xs @ [?v]"
  obtain cap earned where k: "env_code env (pt_emits p) = (cap, earned)" by (cases "env_code env (pt_emits p)")
  define e0 where "e0 = SetCapacity (the_encoder p) cap"
  obtain esi en where a: "AddOwned e0 ?v = (esi, en)" by (cases "AddOwned e0 ?v")
  have nx: "we_next e0 = word_of_nat (length xs)" using inv by (simp add: e0_def send_inv_def)
  define p1 where "p1 = p\<lparr>pt_emits := Suc (pt_emits p), pt_encoder := Some en\<rparr>"
  have en: "enc_inv sy en" if "agrees ?xs (length ?xs) sy" for sy
  proof -
    have "enc_inv sy (the_encoder p)" using inv agrees_append [OF that] by (simp add: send_inv_def)
    then have "enc_inv sy e0" using capacity_inv(1) by (simp add: e0_def)
    moreover have "sy (we_next e0) = ?v" using that nx by (simp add: agrees_def)
    ultimately show ?thesis using add_inv(1) a by (metis snd_conv)
  qed
  have es: "esi = word_of_nat (length xs)" "we_next en = word_of_nat (length ?xs)" using a nx by (auto simp: AddOwned_def Let_def split: if_splits)
  have p1: "send_inv ?xs p1" "same_packing p p1" "pt_encoder p1 = Some en"
    using inv en es wire_ok_append by (auto simp: p1_def send_inv_def the_encoder_def same_packing_def)
  obtain er p2 where s: "sendSource env ?v esi p1 = (er, p2)" by (cases "sendSource env ?v esi p1")
  have i2: "send_inv ?xs p2 \<and> same_packing p1 p2 \<and> pt_emits p2 = pt_emits p1 \<and> pt_encoder p2 = pt_encoder p1"
    using sendSource_inv [OF p1(1), of "length xs" env er p2] s es by simp
  define p4 where "p4 = (if Suc (pt_burstSymbols p2) \<ge> enc_Capacity en then p2\<lparr>pt_burstSymbols := 0, pt_burstRepairs := 0\<rparr>
      else p2\<lparr>pt_burstSymbols := Suc (pt_burstSymbols p2)\<rparr>)"
  have i4: "send_inv ?xs p4" "same_packing p p4" "pt_encoder p4 = Some en" "pt_emits p4 = Suc (pt_emits p)"
  proof -
    have f: "pt_emits p4 = pt_emits p2" "pt_encoder p4 = pt_encoder p2" "pt_wire p4 = pt_wire p2" "same_packing p2 p4" by (simp_all add: p4_def same_packing_def)
    then show "send_inv ?xs p4" using i2 send_inv_cong by blast
    show "same_packing p p4" using f(4) i2 p1(2) same_packing_trans by blast
    show "pt_encoder p4 = Some en" "pt_emits p4 = Suc (pt_emits p)" using f i2 p1(3) by (simp_all add: p1_def)
  qed
  have "emit env payload i c p = (if er then (True, p2) else send_repairs env 0 en earned p4)"
    using k a s by (simp add: emit_def the_encoder_def [symmetric] e0_def [symmetric] p1_def [symmetric] p4_def Let_def)
  then have "er \<and> p' = p2 \<or> send_repairs env 0 en earned p4 = (err, p')" using e by (auto split: if_splits)
  then show ?thesis
  proof
    assume "er \<and> p' = p2"
    then show ?thesis using i2 p1(2) same_packing_trans by (auto simp: p1_def)
  next
    assume "send_repairs env 0 en earned p4 = (err, p')"
    from send_repairs_inv [OF i4(1,3) this] show ?thesis using i4(2,4) same_packing_trans by auto
  qed
qed

text \<open>
  Every symbol is a run of whole frames, or a fragment; the ghost \<open>G\<close> gives the frame and the cut behind a
  group, by the number of its first symbol.
\<close>

definition symbol_ok :: "(nat \<Rightarrow> bytes \<times> nat) \<Rightarrow> bytes list \<Rightarrow> nat \<Rightarrow> bytes \<Rightarrow> bool" where
  "symbol_ok G fs k x \<longleftrightarrow> (\<exists>payload i c. x = symbol_vector payload i c \<and> length payload < 65536 \<and> i < c \<and> c < 65536 \<and>
     (if c = 1 then set (parseFrames payload []) \<subseteq> set fs
      else i \<le> k \<and> payload = frag (G (k - i)) i \<and> c = fcount (G (k - i)) \<and> fst (G (k - i)) \<in> set fs \<and> 0 < snd (G (k - i))))"

definition symbols_ok :: "bytes list \<Rightarrow> (nat \<Rightarrow> bytes \<times> nat) \<Rightarrow> bytes list \<Rightarrow> bool" where
  "symbols_ok xs G fs \<longleftrightarrow> (\<forall>k < length xs. symbol_ok G fs k (xs ! k))"

definition pack_inv :: "bytes list \<Rightarrow> coded_send \<Rightarrow> bool" where
  "pack_inv fs p \<longleftrightarrow> (\<exists>gs. pt_packed p = concat (map frame_bytes gs) \<and> set gs \<subseteq> set fs \<and> (\<forall>f \<in> set gs. length f < 2 ^ 32)) \<and> length (pt_packed p) < 65536"

definition path_inv :: "bytes list \<Rightarrow> (nat \<Rightarrow> bytes \<times> nat) \<Rightarrow> bytes list \<Rightarrow> coded_send \<Rightarrow> bool" where
  "path_inv xs G fs p \<longleftrightarrow> send_inv xs p \<and> symbols_ok xs G fs \<and> pack_inv fs p"

lemma symbols_snoc: "symbols_ok (xs @ [x]) G fs \<longleftrightarrow> symbols_ok xs G fs \<and> symbol_ok G fs (length xs) x"
  by (auto simp: symbols_ok_def nth_append less_Suc_eq)

lemma symbol_ok_mono:
  assumes "symbol_ok G fs k x" "set fs \<subseteq> set fs'" "\<forall>j \<le> k. G' j = G j"
  shows "symbol_ok G' fs' k x"
proof -
  obtain payload i c where x: "x = symbol_vector payload i c" "length payload < 65536" "i < c" "c < 65536"
      "if c = 1 then set (parseFrames payload []) \<subseteq> set fs
       else i \<le> k \<and> payload = frag (G (k - i)) i \<and> c = fcount (G (k - i)) \<and> fst (G (k - i)) \<in> set fs \<and> 0 < snd (G (k - i))"
    using assms(1) unfolding symbol_ok_def by blast
  have "G' (k - i) = G (k - i)" using assms(3) by simp
  then show ?thesis unfolding symbol_ok_def using x assms(2)
    by (intro exI [of _ payload] exI [of _ i] exI [of _ c]) (cases "c = 1", auto)
qed

lemma symbols_ok_mono: "symbols_ok xs G fs \<Longrightarrow> set fs \<subseteq> set fs' \<Longrightarrow> \<forall>j < length xs. G' j = G j \<Longrightarrow> symbols_ok xs G' fs'"
  unfolding symbols_ok_def using symbol_ok_mono by (metis le_less_trans)

lemma pack_inv_mono: "pack_inv fs p \<Longrightarrow> set fs \<subseteq> set fs' \<Longrightarrow> pt_packed p' = pt_packed p \<Longrightarrow> pack_inv fs' p'"
  unfolding pack_inv_def by (metis order_trans)

lemma flush_inv:
  assumes inv: "path_inv xs G fs p" and f: "flushPacked env p = (err, p')"
  shows "\<exists>ys. path_inv (xs @ ys) G fs p' \<and> pt_packed p' = [] \<and> pt_cfg p' = pt_cfg p \<and>
    (pt_packed p = [] \<and> p' = p \<or> pt_called p' = pt_called p @ concat (map callDone (pt_packedDone p)) \<and> pt_packedDone p' = [])"
proof (cases "pt_packed p = []")
  case True
  then show ?thesis using inv f by (intro exI [of _ "[]"]) (simp add: flushPacked_def)
next
  case False
  obtain er p1 where e: "emit env (pt_packed p) 0 1 p = (er, p1)" by (cases "emit env (pt_packed p) 0 1 p")
  let ?x = "symbol_vector (pt_packed p) 0 1"
  have i: "send_inv (xs @ [?x]) p1" "same_packing p p1" using emit_inv [OF _ e, of xs] inv by (simp_all add: path_inv_def)
  obtain gs where g: "pt_packed p = concat (map frame_bytes gs)" "set gs \<subseteq> set fs" "\<forall>f \<in> set gs. length f < 2 ^ 32" "length (pt_packed p) < 65536"
    using inv by (auto simp: path_inv_def pack_inv_def)
  have "set (parseFrames (pt_packed p) []) \<subseteq> set fs" using parse_frames [OF g(3), of "[]"] g(1,2) by simp
  then have "symbol_ok G fs (length xs) ?x" unfolding symbol_ok_def using g(4) by (intro exI [of _ "pt_packed p"] exI [of _ 0] exI [of _ 1]) simp
  then have s: "symbols_ok (xs @ [?x]) G fs" using inv by (simp add: symbols_snoc path_inv_def)
  have p': "p' = p1\<lparr>pt_packed := [], pt_called := pt_called p1 @ concat (map callDone (pt_packedDone p1)), pt_packedDone := []\<rparr>"
    using f e False by (simp add: flushPacked_def)
  then have "send_inv (xs @ [?x]) p'" using i(1) send_inv_cong [of p' p1] by simp
  moreover have "pack_inv fs p'" by (auto simp: pack_inv_def p' intro!: exI [of _ "[]"])
  ultimately show ?thesis using s i(2) by (intro exI [of _ "[?x]"]) (simp add: path_inv_def p' same_packing_def)
qed

lemma fragment_inv:
  assumes "path_inv xs G fs p" "length xs = n + i" "i \<le> fcount (G n)" "fst (G n) = frame" "snd (G n) = limit" "0 < limit" "limit < 65536"
    "frame \<in> set fs" "1 < fcount (G n)" "fcount (G n) < 65536" "fragment_loop env frame limit (fcount (G n)) [i..<fcount (G n)] p = (err, p')"
  shows "\<exists>ys. path_inv (xs @ ys) G fs p' \<and> same_packing p p'"
  using assms
proof (induction "fcount (G n) - i" arbitrary: i xs p)
  case 0
  then show ?case by (intro exI [of _ "[]"]) auto
next
  case (Suc m)
  let ?c = "fcount (G n)"
  have i: "i < ?c" "[i..<?c] = i # [Suc i..<?c]" using Suc.hyps(2) by (simp_all add: upt_conv_Cons)
  have G: "G n = (frame, limit)" using Suc.prems(4,5) by (simp add: prod_eq_iff)
  let ?pl = "frag (G n) i" and ?x = "symbol_vector (frag (G n) i) i ?c"
  obtain er p1 where e: "emit env ?pl i ?c p = (er, p1)" by (cases "emit env ?pl i ?c p")
  have si: "send_inv (xs @ [?x]) p1" "same_packing p p1" using emit_inv [OF _ e, of xs] Suc.prems(1) by (simp_all add: path_inv_def)
  have "length ?pl < 65536" using frag_nonempty(2) [OF Suc.prems(6), of i frame] i(1) Suc.prems(7) by (simp add: G)
  then have "symbol_ok G fs (length xs) ?x" unfolding symbol_ok_def using i(1) Suc.prems(2,6,8,9,10)
    by (intro exI [of _ ?pl] exI [of _ i] exI [of _ ?c]) (simp add: G)
  then have pi: "path_inv (xs @ [?x]) G fs p1" using Suc.prems(1) si pack_inv_mono [of fs p fs p1]
    by (simp add: path_inv_def symbols_snoc same_packing_def)
  have fl: "fragment_loop env frame limit ?c [i..<?c] p = (if er then (True, p1) else fragment_loop env frame limit ?c [Suc i..<?c] p1)"
    unfolding i(2) using e by (simp add: frag_def G Let_def)
  show ?case
  proof (cases er)
    case True
    then show ?thesis using Suc.prems(11) fl pi si(2) by (intro exI [of _ "[?x]"]) simp
  next
    case False
    have m: "m = ?c - Suc i" using Suc.hyps(2) by simp
    have "\<exists>ys. path_inv ((xs @ [?x]) @ ys) G fs p' \<and> same_packing p1 p'"
      by (rule Suc.hyps(1) [OF m pi]) (use Suc.prems i(1) fl False in simp_all)
    then obtain ys where "path_inv ((xs @ [?x]) @ ys) G fs p'" "same_packing p1 p'" by blast
    then show ?thesis using si(2) same_packing_trans by (intro exI [of _ "?x # ys"]) auto
  qed
qed

end
