(* ===== verification/CodedSys.thy ===== *)
theory CodedSys
  imports CodedRun
begin

text \<open>
  The coded path as one system: the sender's packing and fragmenting keep every symbol a run of whole frames or a
  fragment in its place, and the receiver's groups and decoder stay consistent with what was sent.
\<close>

lemma payload_bounds: "cc_SymbolBytes cfg \<le> 65536 \<Longrightarrow> 5 \<le> symbolPayload cfg lim \<and> symbolPayload cfg lim < 65536"
  by (auto simp: symbolPayload_def symbolBytes_def repairHeader_def symbolHeader_def frameHeader_def Let_def split: option.splits)

lemma many_fragments: "0 < limit \<Longrightarrow> limit < length f \<Longrightarrow> 1 < fcount (f, limit)"
proof -
  assume l: "0 < limit" "limit < length f"
  then have "2 * limit div limit \<le> (length f + limit - 1) div limit" by (intro div_le_mono) linarith
  then show ?thesis using l by (simp add: fcount_def)
qed

lemma path_inv_mono:
  assumes "path_inv xs G fs p" "set fs \<subseteq> set fs'" "\<forall>j < length xs. G' j = G j"
  shows "path_inv xs G' fs' p"
  using assms symbols_ok_mono pack_inv_mono unfolding path_inv_def by blast

lemma path_inv_done [simp]: "path_inv xs G fs (call_done d p) = path_inv xs G fs p" "pt_cfg (call_done d p) = pt_cfg p"
  by (simp_all add: path_inv_def send_inv_def the_encoder_def pack_inv_def call_done_def)

text \<open>
  A frame that fits a symbol on its own but not behind its length prefix: \<open>sendFragments\<close> cuts it into one
  fragment, which the receiver reads as packed frames.
\<close>

definition lone_fragment :: "nat \<Rightarrow> bytes \<Rightarrow> bool" where
  "lone_fragment limit frame \<longleftrightarrow> limit < frameHeader + length frame \<and> length frame \<le> limit"

text \<open>What the receiver reads out of it.\<close>

definition misread :: "nat \<Rightarrow> bytes \<Rightarrow> bytes list" where
  "misread limit frame = (if lone_fragment limit frame then parseFrames frame [] else [])"

lemma lone_sent:
  assumes "lone_fragment limit frame" "5 \<le> limit"
  shows "0 < length frame" "length frame \<le> limit" "sendFragments env frame limit p = emit env frame 0 1 p"
proof -
  show l: "0 < length frame" "length frame \<le> limit" using assms unfolding lone_fragment_def frameHeader_def by linarith+
  then have "limit \<le> length frame + limit - 1" "length frame + limit - 1 < limit + limit" using assms(2) by linarith+
  then have "(length frame + limit - 1) div limit = 1" by (intro div_nat_eqI) simp_all
  then show "sendFragments env frame limit p = emit env frame 0 1 p" using l by (simp add: sendFragments_def maxFragments_def split: prod.split)
qed

lemma lone_inv:
  assumes "path_inv xs G fs p" "lone_fragment limit frame" "5 \<le> limit" "limit < 65536" "set (parseFrames frame []) \<subseteq> set fs" "sendFragments env frame limit p = (err, p')"
  shows "\<exists>ys. path_inv (xs @ ys) G fs p' \<and> same_packing p p'"
proof -
  note l = lone_sent [OF assms(2,3)]
  let ?x = "symbol_vector frame 0 1"
  have e: "emit env frame 0 1 p = (err, p')" using assms(6) l(3) by simp
  have i: "send_inv (xs @ [?x]) p'" "same_packing p p'" using emit_inv [OF _ e, of xs] assms(1) by (simp_all add: path_inv_def)
  have "symbol_ok G fs (length xs) ?x" unfolding symbol_ok_def using l(2) assms(4,5) by (intro exI [of _ frame] exI [of _ 0] exI [of _ 1]) simp
  then show ?thesis using assms(1) i pack_inv_mono [of fs p fs p'] by (intro exI [of _ "[?x]"]) (simp add: path_inv_def symbols_snoc same_packing_def)
qed

lemma fragments_inv:
  assumes "path_inv xs G fs p" "frame \<in> set fs" "0 < limit" "limit < 65536" "limit < length frame" "sendFragments env frame limit p = (err, p')"
  shows "\<exists>ys G'. path_inv (xs @ ys) G' fs p' \<and> (\<forall>k < length xs. G' k = G k) \<and> same_packing p p'"
proof (cases "fcount (frame, limit) > maxFragments")
  case True
  then have "p' = p" using assms(6) by (simp add: sendFragments_def fcount_def)
  then show ?thesis using assms(1) by (intro exI [of _ "[]"] exI [of _ G]) simp
next
  case False
  let ?G = "G(length xs := (frame, limit))"
  have p: "path_inv xs ?G fs p" by (rule path_inv_mono [OF assms(1)]) auto
  have G: "?G (length xs) = (frame, limit)" by simp
  have "fragment_loop env frame limit (fcount (frame, limit)) [0..<fcount (frame, limit)] p = (err, p')"
    using assms(6) False by (simp add: sendFragments_def fcount_def Let_def)
  then have "\<exists>ys. path_inv (xs @ ys) ?G fs p' \<and> same_packing p p'"
    using assms(2-5) False many_fragments by (intro fragment_inv [OF p, of "length xs" 0 frame limit]) (simp_all add: G maxFragments_def)
  then obtain ys where "path_inv (xs @ ys) ?G fs p'" "same_packing p p'" by blast
  then show ?thesis by (intro exI [of _ ys] exI [of _ ?G]) auto
qed

lemma append_inv:
  assumes inv: "path_inv xs G fs p" and c: "cc_SymbolBytes (pt_cfg p) \<le> 65536"
    and l: "misread (symbolPayload (pt_cfg p) lim) frame = ms" and a: "appendFrame env lim frame d p = (err, p')"
  shows "\<exists>ys G'. path_inv (xs @ ys) G' (fs @ frame # ms) p' \<and> (\<forall>k < length xs. G' k = G k) \<and> pt_cfg p' = pt_cfg p"
proof -
  define limit where "limit = symbolPayload (pt_cfg p) lim"
  have lm: "5 \<le> limit" "0 < limit" "limit < 65536" using payload_bounds [OF c, of lim] by (simp_all add: limit_def)
  have inv0: "path_inv xs G (fs @ frame # ms) p" by (rule path_inv_mono [OF inv]) auto
  obtain er p1 where f: "flushPacked env p = (er, p1)" by (cases "flushPacked env p")
  obtain ys where y: "path_inv (xs @ ys) G (fs @ frame # ms) p1" "pt_packed p1 = []" "pt_cfg p1 = pt_cfg p" using flush_inv [OF inv0 f] by blast
  have keep: ?thesis if "p' = call_done d p1" using that y by (intro exI [of _ ys] exI [of _ G]) simp
  have pack: ?thesis if q: "path_inv (xs @ zs) G (fs @ frame # ms) q" "pt_cfg q = pt_cfg p" "length (pt_packed q) + frameHeader + length frame \<le> limit"
      "p' = q\<lparr>pt_packed := pt_packed q @ frame_bytes frame, pt_packedDone := pt_packedDone q @ [d]\<rparr>" for q zs
  proof -
    obtain gs where g: "pt_packed q = concat (map frame_bytes gs)" "set gs \<subseteq> set (fs @ frame # ms)" "\<forall>f \<in> set gs. length f < 2 ^ 32"
      using q(1) by (auto simp: path_inv_def pack_inv_def)
    have "length (pt_packed q @ frame_bytes frame) < 65536" "length frame < 2 ^ 32" using q(3) lm(3) by (simp_all add: frameHeader_def frame_bytes_def del: put_be.simps)
    then have "pack_inv (fs @ frame # ms) p'" using g unfolding pack_inv_def q(4) by (intro conjI exI [of _ "gs @ [frame]"]) auto
    moreover have "send_inv (xs @ zs) p'" using q(1) send_inv_cong [of p' q] by (simp add: q(4) path_inv_def)
    ultimately show ?thesis using q(1,2) by (intro exI [of _ zs] exI [of _ G]) (simp add: path_inv_def q(4))
  qed
  show ?thesis
  proof (cases "frameHeader + length frame > limit")
    case True
    obtain e2 p2 where s: "sendFragments env frame limit p1 = (e2, p2)" by (cases "sendFragments env frame limit p1")
    have "\<exists>zs G'. path_inv ((xs @ ys) @ zs) G' (fs @ frame # ms) p2 \<and> (\<forall>k < length (xs @ ys). G' k = G k) \<and> same_packing p1 p2"
    proof (cases "lone_fragment limit frame")
      case lone: True
      then have "set (parseFrames frame []) \<subseteq> set (fs @ frame # ms)" using l by (auto simp: misread_def limit_def)
      from lone_inv [OF y(1) lone lm(1,3) this s] show ?thesis by blast
    next
      case False
      then have "limit < length frame" using True by (simp add: lone_fragment_def)
      from fragments_inv [OF y(1) _ lm(2,3) this s] show ?thesis by auto
    qed
    then obtain zs G' where z: "path_inv ((xs @ ys) @ zs) G' (fs @ frame # ms) p2" "\<forall>k < length (xs @ ys). G' k = G k" "same_packing p1 p2" by blast
    have "p' = call_done d p1 \<or> p' = call_done d p2" using a True f s by (auto simp: appendFrame_def limit_def Let_def split: if_splits)
    then show ?thesis
    proof
      assume "p' = call_done d p2"
      then show ?thesis using z y(3) by (intro exI [of _ "ys @ zs"] exI [of _ G']) (simp add: same_packing_def)
    qed (rule keep)
  next
    case False
    show ?thesis
    proof (cases "length (pt_packed p) + frameHeader + length frame > limit")
      case True
      then have "p' = call_done d p1 \<or> p' = p1\<lparr>pt_packed := pt_packed p1 @ frame_bytes frame, pt_packedDone := pt_packedDone p1 @ [d]\<rparr>"
        using a False f by (auto simp: appendFrame_def limit_def frame_bytes_def Let_def split: if_splits)
      then show ?thesis using keep pack [OF y(1,3)] y(2) False by auto
    next
      case small: False
      then have "p' = p\<lparr>pt_packed := pt_packed p @ frame_bytes frame, pt_packedDone := pt_packedDone p @ [d]\<rparr>"
        using a False by (simp add: appendFrame_def limit_def frame_bytes_def Let_def)
      then show ?thesis using pack [of "[]" p] inv0 small by simp
    qed
  qed
qed

lemma protect_inv:
  assumes "path_inv xs G fs p" "protectBurst env p = (err, p')"
  shows "path_inv xs G fs p' \<and> pt_cfg p' = pt_cfg p"
proof (cases "pt_burstSymbols p \<le> 0 \<or> pt_encoder p = None")
  case True
  then show ?thesis using assms by (auto simp: protectBurst_def split: if_splits)
next
  case False
  then obtain e where e: "pt_encoder p = Some e" by blast
  let ?n = "env_tail env (pt_calls p) (pt_burstSymbols p) - pt_burstRepairs p"
  obtain er p1 where s: "send_repairs env (pt_burstSymbols p) e ?n p = (er, p1)" by (cases "send_repairs env (pt_burstSymbols p) e ?n p")
  have i: "send_inv xs p1 \<and> same_packing p p1" using send_repairs_inv [OF _ e s, of xs] assms(1) by (simp add: path_inv_def)
  have "pt_emits p' = pt_emits p1" "pt_encoder p' = pt_encoder p1" "pt_wire p' = pt_wire p1" "same_packing p1 p'"
    using assms(2) False e s by (auto simp: protectBurst_def same_packing_def split: if_splits)
  then have "send_inv xs p'" "same_packing p p'" using i send_inv_cong [of p' p1] same_packing_trans by blast+
  then show ?thesis using assms(1) pack_inv_mono [of fs p fs p'] by (simp add: path_inv_def same_packing_def)
qed

section \<open>The receiver\<close>

text \<open>A group holds fragments of one frame, each in its place.\<close>

definition group_ok :: "bytes list \<Rightarrow> (nat \<Rightarrow> bytes \<times> nat) \<Rightarrow> bytes list \<Rightarrow> nat \<Rightarrow> fragmentGroup \<Rightarrow> bool" where
  "group_ok xs G fs n g \<longleftrightarrow> n < length xs \<and> fst (G n) \<in> set fs \<and> 0 < snd (G n) \<and> length (gr_parts g) = fcount (G n) \<and>
     (\<forall>i < fcount (G n). gr_parts g ! i = None \<or> gr_parts g ! i = Some (frag (G n) i)) \<and> gr_held g = length (filter (\<lambda>p. p \<noteq> None) (gr_parts g))"

definition groups_ok :: "bytes list \<Rightarrow> (nat \<Rightarrow> bytes \<times> nat) \<Rightarrow> bytes list \<Rightarrow> assembler \<Rightarrow> bool" where
  "groups_ok xs G fs a \<longleftrightarrow> (\<forall>first g. as_groups a first = Some g \<longrightarrow> group_ok xs G fs (unat first) g)"

lemma groups_ok_mono: "groups_ok xs G fs a \<Longrightarrow> set fs \<subseteq> set fs' \<Longrightarrow> \<forall>k < length xs. G' k = G k \<Longrightarrow> groups_ok (xs @ ys) G' fs' a"
  unfolding groups_ok_def group_ok_def by (auto 0 3 intro: trans_less_add1 dest: subsetD)

lemma drop_groups_ok: "groups_ok xs G fs a \<Longrightarrow> groups_ok xs G fs (drop_groups P a)"
  by (auto simp: groups_ok_def drop_groups_def split: option.splits if_splits)

lemma groups_ok_fields [simp]: "groups_ok xs G fs (a\<lparr>as_high := h\<rparr>) = groups_ok xs G fs a" "groups_ok xs G fs (a\<lparr>as_seen := b\<rparr>) = groups_ok xs G fs a"
    "groups_ok xs G fs (a\<lparr>as_lostN := n\<rparr>) = groups_ok xs G fs a"
  by (simp_all add: groups_ok_def)

lemma note_ok: "groups_ok xs G fs a \<Longrightarrow> groups_ok xs G fs (note_esi e a)"
  by (simp add: note_esi_def prune_def drop_groups_ok)

lemma lost_ok: "groups_ok xs G fs a \<Longrightarrow> groups_ok xs G fs (symbol_lost e a)"
  by (simp add: symbol_lost_def Let_def drop_groups_ok note_ok)

lemma lost_all_ok: "groups_ok xs G fs a \<Longrightarrow> groups_ok xs G fs (foldl (\<lambda>a e. symbol_lost e a) a es)"
  by (induction es arbitrary: a) (simp_all add: lost_ok)

lemma held_update:
  "i < length ps \<Longrightarrow> ps ! i = None \<Longrightarrow> length (filter (\<lambda>p. p \<noteq> None) (ps[i := Some x])) = Suc (length (filter (\<lambda>p. p \<noteq> None) ps))"
proof (induction ps arbitrary: i)
  case (Cons p ps)
  then show ?case by (cases i) auto
qed simp

lemma all_held: "length (filter (\<lambda>p. p \<noteq> None) ps) \<ge> length ps \<Longrightarrow> i < length ps \<Longrightarrow> ps ! i \<noteq> None"
  using length_filter_less [OF nth_mem, of i ps "\<lambda>p. p \<noteq> None"] by auto

lemma join_full:
  assumes "group_ok xs G fs n g" "gr_held g \<ge> length (gr_parts g)"
  shows "join_parts (gr_parts g) = fst (G n)"
proof -
  have "gr_parts g ! i = Some (frag (G n) i)" if "i < fcount (G n)" for i
    using assms that all_held [of "gr_parts g" i] by (auto simp: group_ok_def)
  then have "gr_parts g = map (\<lambda>i. Some (frag (G n) i)) [0..<fcount (G n)]" using assms(1) by (intro nth_equalityI) (simp_all add: group_ok_def)
  then show ?thesis using frag_join [of "snd (G n)" "fst (G n)"] assms(1) by (simp add: join_parts_def comp_def group_ok_def)
qed

lemma group_put:
  assumes "group_ok xs G fs n g" "i < fcount (G n)" "gr_parts g ! i = None"
  shows "group_ok xs G fs n \<lparr>gr_parts = (gr_parts g)[i := copy_part (frag (G n) i)], gr_held = gr_held g + 1, gr_bytes = b\<rparr>"
proof -
  have "copy_part (frag (G n) i) = Some (frag (G n) i)" using frag_nonempty(1) [of "snd (G n)" i "fst (G n)"] assms(1,2) by (simp add: copy_part_def group_ok_def)
  then show ?thesis using assms held_update [of i "gr_parts g" "frag (G n) i"] by (auto simp: group_ok_def nth_list_update)
qed

lemma filter_replicate_None [simp]: "filter (\<lambda>p. p \<noteq> None) (replicate n None) = []"
  by (induction n) simp_all

lemma parseFrames_out: "parseFrames payload out = out @ parseFrames payload []"
proof (induction "length payload" arbitrary: payload out rule: less_induct)
  case less
  let ?n = "unat (get_be (take 4 payload) :: u32)" and ?r = "drop frameHeader payload"
  show ?case
  proof (cases "frameHeader \<le> length payload \<and> \<not> ?n > length ?r")
    case True
    then have p: "parseFrames payload o' = parseFrames (drop ?n ?r) (o' @ [take ?n ?r])" for o' by (subst parseFrames.simps) (simp add: Let_def)
    have "length (drop ?n ?r) < length payload" using True by (auto simp: frameHeader_def)
    from less [OF this, of "out @ [take ?n ?r]"] less [OF this, of "[] @ [take ?n ?r]"] show ?thesis unfolding p [of out] p [of "[]"] by simp
  next
    case False
    then show ?thesis by (subst (1 2) parseFrames.simps) (auto simp: Let_def)
  qed
qed

text \<open>A symbol that equals the \<open>k\<close>th one up to trailing zeros completes a frame that was sent, or nothing.\<close>

lemma arrived_ok:
  assumes ok: "symbols_ok xs G fs" "length xs < 2 ^ 32" "groups_ok xs G fs a" and k: "k < length xs" "same_symbol v (xs ! k)"
    and ar: "arrived (word_of_nat k) v out a = (out', valid, a')"
  shows "groups_ok xs G fs a' \<and> (\<exists>new. out' = out @ new \<and> set new \<subseteq> set fs)"
proof -
  let ?a = "note_esi (word_of_nat k) a"
  have na: "groups_ok xs G fs ?a" by (rule note_ok [OF ok(3)])
  obtain pl i c where x: "xs ! k = symbol_vector pl i c" "length pl < 65536" "i < c" "c < 65536"
      "if c = 1 then set (parseFrames pl []) \<subseteq> set fs
       else i \<le> k \<and> pl = frag (G (k - i)) i \<and> c = fcount (G (k - i)) \<and> fst (G (k - i)) \<in> set fs \<and> 0 < snd (G (k - i))"
    using ok(1) k(1) unfolding symbols_ok_def symbol_ok_def by blast
  show ?thesis
  proof (cases "parseSymbol v")
    case None
    then show ?thesis using ar na by (auto simp: arrived_def)
  next
    case (Some y)
    then have y: "parseSymbol v = Some (pl, i, c)" using parse_same [of v pl i c y] k(2) x by simp
    show ?thesis
    proof (cases "c = 1")
      case True
      then have "out' = out @ parseFrames pl []" "a' = ?a" using ar y parseFrames_out [of pl out] by (simp_all add: arrived_def)
      then show ?thesis using True na x(5) by auto
    next
      case False
      define n where "n = k - i"
      have n: "i \<le> k" "pl = frag (G n) i" "c = fcount (G n)" "fst (G n) \<in> set fs" "0 < snd (G n)" "n < length xs" using x(5) False k(1) by (auto simp: n_def)
      define first where "first = (word_of_nat k - word_of_nat i :: u32)"
      have fst: "unat first = n" using n(1,6) ok(2) by (simp add: first_def n_def of_nat_diff [symmetric] unat_of_nat del: of_nat_diff)
      define g where "g = (case as_groups ?a first of Some g \<Rightarrow> g | None \<Rightarrow> \<lparr>gr_parts = replicate c None, gr_held = 0, gr_bytes = 0\<rparr>)"
      have g: "group_ok xs G fs n g" using na n fst unfolding g_def groups_ok_def by (auto simp: group_ok_def split: option.split)
      let ?a1 = "?a\<lparr>as_groups := (as_groups ?a)(first \<mapsto> g)\<rparr>"
      let ?g1 = "\<lparr>gr_parts = (gr_parts g)[i := copy_part pl], gr_held = gr_held g + 1, gr_bytes = gr_bytes g + length pl\<rparr>"
      have put: "groups_ok xs G fs (?a\<lparr>as_groups := (as_groups ?a)(first \<mapsto> h)\<rparr>)" if "group_ok xs G fs n h" for h
        using na that fst by (simp add: groups_ok_def)
      have del: "groups_ok xs G fs (?a\<lparr>as_groups := (as_groups ?a)(first := None)\<rparr>)" using na by (simp add: groups_ok_def)
      have il: "i < length (gr_parts g)" using g x(3) n(3) by (simp add: group_ok_def)
      have res: "arrived (word_of_nat k) v out a = (if gr_parts g ! i \<noteq> None then (out, True, ?a1)
          else if gr_held ?g1 < length (gr_parts ?g1) then (out, True, ?a1\<lparr>as_groups := (as_groups ?a1)(first \<mapsto> ?g1)\<rparr>)
          else (out @ [join_parts (gr_parts ?g1)], True, ?a1\<lparr>as_groups := (as_groups ?a1)(first := None)\<rparr>))"
        unfolding arrived_def y option.case prod.case Let_def first_def [symmetric] g_def [symmetric] using False il by simp
      show ?thesis
      proof (cases "gr_parts g ! i = None")
        case True
        have g1: "group_ok xs G fs n ?g1" using group_put [OF g _ True, of "gr_bytes g + length pl"] x(3) n(2,3) by simp
        show ?thesis
        proof (cases "gr_held ?g1 < length (gr_parts ?g1)")
          case more: True
          then show ?thesis using ar res True put [OF g1] by simp
        next
          case full: False
          then show ?thesis using ar res True del join_full [OF g1] n(4) by auto
        qed
      next
        case held: False
        then show ?thesis using ar res put [OF g] by simp
      qed
    qed
  qed
qed

definition symbol_sent :: "bytes list \<Rightarrow> u32 \<times> bytes \<Rightarrow> bool" where
  "symbol_sent xs ev \<longleftrightarrow> unat (fst ev) < length xs \<and> same_symbol (snd ev) (xs ! unat (fst ev))"

lemma arrived_all_ok:
  assumes "symbols_ok xs G fs" "length xs < 2 ^ 32" "groups_ok xs G fs a" "\<forall>ev \<in> set rs. symbol_sent xs ev" "arrived_all rs out a = (out', a')"
  shows "groups_ok xs G fs a' \<and> (\<exists>new. out' = out @ new \<and> set new \<subseteq> set fs)"
  using assms
proof (induction rs arbitrary: out a)
  case (Cons ev rs)
  obtain e v where ev: "ev = (e, v)" by (cases ev)
  obtain o1 b a1 where ar: "arrived e v out a = (o1, b, a1)" by (cases "arrived e v out a")
  have "unat e < length xs" "same_symbol v (xs ! unat e)" using Cons.prems(4) by (simp_all add: ev symbol_sent_def)
  then have 1: "groups_ok xs G fs a1 \<and> (\<exists>new. o1 = out @ new \<and> set new \<subseteq> set fs)"
    using arrived_ok [OF Cons.prems(1-3), of "unat e" v out o1 b a1] ar by simp
  have "arrived_all rs o1 a1 = (out', a')" using Cons.prems(5) ar by (simp add: ev)
  from Cons.IH [OF Cons.prems(1,2) _ _ this] 1 Cons.prems(4) show ?case by auto
qed simp

definition recv_inv :: "bytes list \<Rightarrow> (nat \<Rightarrow> bytes \<times> nat) \<Rightarrow> bytes list \<Rightarrow> coded_recv \<Rightarrow> bool" where
  "recv_inv xs G fs r \<longleftrightarrow> groups_ok xs G fs (rc_assembler r) \<and> (\<forall>sy. agrees xs (length xs) sy \<longrightarrow> dec_inv sy (the_decoder r))"

lemma recv_inv_mono: "recv_inv xs G fs r \<Longrightarrow> set fs \<subseteq> set fs' \<Longrightarrow> \<forall>k < length xs. G' k = G k \<Longrightarrow> recv_inv (xs @ ys) G' fs' r"
  unfolding recv_inv_def using groups_ok_mono agrees_append by blast

lemma deliver_ok:
  assumes "symbols_ok xs G fs" "length xs < 2 ^ 32" "groups_ok xs G fs (rc_assembler r)"
    and "\<And>sy. agrees xs (length xs) sy \<Longrightarrow> dec_inv sy (fst dd) \<and> all_true sy (snd dd)" and "deliver_symbols dd out r = (out', r')"
  shows "recv_inv xs G fs r' \<and> (\<exists>new. out' = out @ new \<and> set new \<subseteq> set fs)"
proof -
  obtain o1 a1 where a: "arrived_all (Recovered (snd dd)) out (rc_assembler r) = (o1, a1)" by (cases "arrived_all (Recovered (snd dd)) out (rc_assembler r)")
  have "\<forall>ev \<in> set (Recovered (snd dd)). symbol_sent xs ev"
  proof
    fix ev assume e: "ev \<in> set (Recovered (snd dd))"
    have "same_symbol (snd ev) (sy (fst ev))" if "agrees xs (length xs) sy" for sy using assms(4) [OF that] e by (auto simp: all_true_def)
    from agrees_all [OF this assms(2)] show "symbol_sent xs ev" by (simp add: symbol_sent_def)
  qed
  from arrived_all_ok [OF assms(1-3) this a] show ?thesis
    using assms(4,5) a lost_all_ok by (auto simp: deliver_symbols_def recv_inv_def the_decoder_def)
qed

lemma source_parts:
  "4 < length (source_datagram seq e v)" "\<not> length (source_datagram seq e v) < sourceHeader" "source_datagram seq e v ! 4 = kindSource"
  "take 4 (drop 5 (source_datagram seq e v)) = put_be 4 e" "drop sourceHeader (source_datagram seq e v) = v"
  by (simp_all add: source_datagram_def sourceHeader_def nth_append del: put_be.simps)

lemma repair_parts:
  "\<not> length (repair_datagram seq r) < sourceHeader" "\<not> length (repair_datagram seq r) < repairHeader" "repair_datagram seq r ! 4 = kindRepair"
  "take 4 (drop 5 (repair_datagram seq r)) = put_be 4 (RID r)" "take 4 (drop 9 (repair_datagram seq r)) = put_be 4 (First r)"
  "take 2 (drop 13 (repair_datagram seq r)) = put_be 2 (word_of_int (Count r) :: u16)" "drop repairHeader (repair_datagram seq r) = Vector r"
  by (simp_all add: repair_datagram_def sourceHeader_def repairHeader_def nth_append del: put_be.simps)

lemma repair_count_back: "0 < Count r \<Longrightarrow> Count r \<le> 256 \<Longrightarrow> int (unat (get_be (put_be 2 (word_of_int (Count r) :: u16)) :: u16)) = Count r"
  by (simp add: uint_word_of_int_eq unsigned_of_int take_bit_int_eq_self del: put_be.simps)

lemma source_onDatagram:
  "onDatagram (source_datagram seq e v) r0 =
     (let r = r0\<lparr>rc_arrivals := rc_arrivals r0 + 1, rc_sources := rc_sources r0 + 1\<rparr>;
          (frames, valid, a) = arrived e v [] (rc_assembler r0)
      in if \<not> valid then (frames, r\<lparr>rc_assembler := a\<rparr>) else deliver_symbols (dec_source (the_decoder r0) e v) frames (r\<lparr>rc_assembler := a\<rparr>))"
  unfolding onDatagram_def Let_def source_parts by (simp add: source_parts the_decoder_def del: put_be.simps split: prod.split)

lemma repair_onDatagram:
  "0 < Count r \<Longrightarrow> Count r \<le> 256 \<Longrightarrow> onDatagram (repair_datagram seq r) p =
     deliver_symbols (dec_repair (the_decoder p) r) [] (p\<lparr>rc_arrivals := rc_arrivals p + 1\<rparr>)"
proof -
  assume c: "0 < Count r" "Count r \<le> 256"
  have u: "unat (get_be (put_be 2 (word_of_int (Count r) :: u16)) :: u16) = nat (Count r)" using repair_count_back [OF c] by linarith
  have "kindRepair \<noteq> kindSource" "\<not> 256 < nat (Count r)" using c by (simp_all add: kindRepair_def kindSource_def)
  moreover have r: "\<lparr>RID = RID r, First = First r, Count = Count r, Vector = Vector r\<rparr> = r" by simp
  ultimately show ?thesis unfolding onDatagram_def Let_def repair_parts u using c
    by (simp add: r repair_parts the_decoder_def MaxRepairWindow_def MaxShards_def del: put_be.simps)
qed

text \<open>A late source symbol that a repair has overtaken; the code mishandles it.\<close>

definition overtakes :: "coded_recv \<Rightarrow> bytes \<Rightarrow> bool" where
  "overtakes r d \<longleftrightarrow> length d \<ge> sourceHeader \<and> d ! 4 = kindSource \<and> overtaken (the_decoder r) (get_be (take 4 (drop 5 d)))"

lemma onDatagram_ok:
  assumes ok: "symbols_ok xs G fs" "length xs < 2 ^ 32" and inv: "recv_inv xs G fs r" and w: "wire_ok xs d" "\<not> overtakes r d"
    and on: "onDatagram d r = (out, r')"
  shows "recv_inv xs G fs r' \<and> set out \<subseteq> set fs"
proof -
  have dec: "dec_inv sy (the_decoder r)" if "agrees xs (length xs) sy" for sy using inv that by (simp add: recv_inv_def)
  consider (source) seq k where "k < length xs" "d = source_datagram seq (word_of_nat k) (xs ! k)"
    | (repair) seq rp where "d = repair_datagram seq rp" "0 < Count rp" "Count rp \<le> 256" "\<forall>sy. agrees xs (length xs) sy \<longrightarrow> true_repair sy rp"
    using w(1) unfolding wire_ok_def by blast
  then show ?thesis
  proof cases
    case source
    let ?e = "word_of_nat k :: u32"
    let ?r = "r\<lparr>rc_arrivals := rc_arrivals r + 1, rc_sources := rc_sources r + 1\<rparr>"
    obtain fr valid a where ar: "arrived ?e (xs ! k) [] (rc_assembler r) = (fr, valid, a)" by (cases "arrived ?e (xs ! k) [] (rc_assembler r)")
    have a: "groups_ok xs G fs a" "set fr \<subseteq> set fs"
      using arrived_ok [OF ok _ source(1) _ ar] inv by (auto simp: recv_inv_def same_symbol_def)
    have nov: "\<not> overtaken (the_decoder r) ?e" using w(2) source_parts [of seq ?e "xs ! k"] by (simp add: overtakes_def source(2) del: put_be.simps)
    show ?thesis
    proof (cases valid)
      case False
      then have "r' = ?r\<lparr>rc_assembler := a\<rparr>" "out = fr" using on ar by (simp_all add: source(2) source_onDatagram)
      then show ?thesis using a dec by (simp add: recv_inv_def the_decoder_def)
    next
      case True
      then have dl: "deliver_symbols (dec_source (the_decoder r) ?e (xs ! k)) fr (?r\<lparr>rc_assembler := a\<rparr>) = (out, r')"
        using on ar by (simp add: source(2) source_onDatagram)
      have "dec_inv sy (fst (dec_source (the_decoder r) ?e (xs ! k))) \<and> all_true sy (snd (dec_source (the_decoder r) ?e (xs ! k)))"
        if g: "agrees xs (length xs) sy" for sy
        using source_inv [OF dec [OF g] _ nov surjective_pairing, of "xs ! k"] g source(1) by (simp add: agrees_def same_symbol_def)
      from deliver_ok [OF ok _ this dl] a show ?thesis by auto
    qed
  next
    case repair
    have dl: "deliver_symbols (dec_repair (the_decoder r) rp) [] (r\<lparr>rc_arrivals := rc_arrivals r + 1\<rparr>) = (out, r')"
      using on repair_onDatagram [OF repair(2,3)] by (simp add: repair(1))
    have "dec_inv sy (fst (dec_repair (the_decoder r) rp)) \<and> all_true sy (snd (dec_repair (the_decoder r) rp))" if g: "agrees xs (length xs) sy" for sy
      using repair_inv [OF dec [OF g] _ surjective_pairing] repair(4) g by blast
    from deliver_ok [OF ok _ this dl] inv show ?thesis by (auto simp: recv_inv_def)
  qed
qed

section \<open>Runs\<close>

text \<open>A run notes what the two defects of the code can spoil: \<open>cy_misread\<close> is what the receiver can read out of frames in the gap of \<open>lone_fragment\<close>,
  \<open>cy_overtook\<close> says that a source symbol has arrived which a repair had overtaken.\<close>

record coded_sys =
  cy_send :: coded_send
  cy_recv :: coded_recv
  cy_frames :: "bytes list"
  cy_misread :: "bytes list"
  cy_got :: "bytes list"
  cy_overtook :: bool

inductive path_step :: "path_env \<Rightarrow> coded_sys \<Rightarrow> coded_sys \<Rightarrow> bool" for env where
  step_append: "appendFrame env lim frame d (cy_send s) = (err, p) \<Longrightarrow>
     path_step env s (s\<lparr>cy_send := p, cy_frames := cy_frames s @ [frame],
       cy_misread := cy_misread s @ misread (symbolPayload (pt_cfg (cy_send s)) lim) frame\<rparr>)"
| step_flush: "flushPacked env (cy_send s) = (err, p) \<Longrightarrow> path_step env s (s\<lparr>cy_send := p\<rparr>)"
| step_protect: "protectBurst env (cy_send s) = (err, p) \<Longrightarrow> path_step env s (s\<lparr>cy_send := p\<rparr>)"
| step_arrive: "d \<in> set (pt_wire (cy_send s)) \<Longrightarrow> onDatagram d (cy_recv s) = (out, r) \<Longrightarrow>
     path_step env s (s\<lparr>cy_recv := r, cy_got := cy_got s @ out, cy_overtook := (cy_overtook s \<or> overtakes (cy_recv s) d)\<rparr>)"

definition path_start :: "coded_config \<Rightarrow> coded_sys" where
  "path_start cfg = \<lparr>cy_send = new_send cfg, cy_recv = new_recv, cy_frames = [], cy_misread = [], cy_got = [], cy_overtook = False\<rparr>"

inductive path_reach :: "path_env \<Rightarrow> coded_config \<Rightarrow> coded_sys \<Rightarrow> bool" for env cfg where
  path_begin: "path_reach env cfg (path_start cfg)"
| path_more: "path_reach env cfg s \<Longrightarrow> path_step env s s' \<Longrightarrow> path_reach env cfg s'"

text \<open>The frames that can come out.\<close>

abbreviation cy_open :: "coded_sys \<Rightarrow> bytes list" where
  "cy_open s \<equiv> cy_frames s @ cy_misread s"

definition coded_sys_inv :: "coded_config \<Rightarrow> coded_sys \<Rightarrow> bool" where
  "coded_sys_inv cfg s \<longleftrightarrow> pt_cfg (cy_send s) = coded_withDefaults cfg \<and>
     (\<exists>xs G. path_inv xs G (cy_open s) (cy_send s) \<and>
        (length xs < 2 ^ 32 \<longrightarrow> \<not> cy_overtook s \<longrightarrow> recv_inv xs G (cy_open s) (cy_recv s) \<and> set (cy_got s) \<subseteq> set (cy_open s)))"

lemma sys_invI:
  assumes "pt_cfg (cy_send s) = coded_withDefaults cfg" "path_inv xs G (cy_open s) (cy_send s)"
    "length xs < 2 ^ 32 \<Longrightarrow> \<not> cy_overtook s \<Longrightarrow> recv_inv xs G (cy_open s) (cy_recv s) \<and> set (cy_got s) \<subseteq> set (cy_open s)"
  shows "coded_sys_inv cfg s"
  using assms unfolding coded_sys_inv_def by blast

lemma sys_start: "coded_sys_inv cfg (path_start cfg)"
  unfolding coded_sys_inv_def
proof (intro conjI exI impI)
  show "path_inv [] (\<lambda>_. ([], 0)) (cy_open (path_start cfg)) (cy_send (path_start cfg))"
    by (simp add: path_start_def new_send_def path_inv_def send_inv_def the_encoder_def symbols_ok_def pack_inv_def enc_inv_new)
  show "recv_inv [] (\<lambda>_. ([], 0)) (cy_open (path_start cfg)) (cy_recv (path_start cfg))"
    by (simp add: path_start_def new_recv_def recv_inv_def groups_ok_def new_assembler_def the_decoder_def dec_inv_new)
qed (simp_all add: path_start_def new_send_def)

lemma sys_step:
  assumes "path_step env s s'" "coded_sys_inv cfg s" "cc_SymbolBytes cfg \<le> 65536"
  shows "coded_sys_inv cfg s'"
proof -
  obtain xs G where i: "path_inv xs G (cy_open s) (cy_send s)"
      "length xs < 2 ^ 32 \<Longrightarrow> \<not> cy_overtook s \<Longrightarrow> recv_inv xs G (cy_open s) (cy_recv s) \<and> set (cy_got s) \<subseteq> set (cy_open s)"
      and c: "pt_cfg (cy_send s) = coded_withDefaults cfg" using assms(2) by (auto simp: coded_sys_inv_def)
  have b: "cc_SymbolBytes (pt_cfg (cy_send s)) \<le> 65536" using assms(3) by (simp add: c coded_withDefaults_def Let_def)
  have more: "recv_inv (xs @ ys) G' fs' (cy_recv s) \<and> set (cy_got s) \<subseteq> set fs'"
    if "length (xs @ ys) < 2 ^ 32" "\<not> cy_overtook s" "set (cy_open s) \<subseteq> set fs'" "\<forall>k < length xs. G' k = G k" for ys G' fs'
    using i(2) that recv_inv_mono [OF _ that(3,4)] by auto
  show ?thesis using assms(1)
  proof cases
    case (step_append lim frame d err p)
    let ?ms = "misread (symbolPayload (pt_cfg (cy_send s)) lim) frame"
    obtain ys G' where y: "path_inv (xs @ ys) G' (cy_open s @ frame # ?ms) p" "\<forall>k < length xs. G' k = G k" "pt_cfg p = pt_cfg (cy_send s)"
      using append_inv [OF i(1) b refl step_append(2)] by blast
    have same: "set (cy_open s @ frame # ?ms) = set (cy_open s')" by (auto simp: step_append(1))
    have "path_inv (xs @ ys) G' (cy_open s') p" by (rule path_inv_mono [OF y(1)]) (use same in simp_all)
    moreover have "set (cy_open s) \<subseteq> set (cy_open s')" by (auto simp: step_append(1))
    note more [OF _ _ this y(2)]
    moreover have "cy_send s' = p" "cy_recv s' = cy_recv s" "cy_got s' = cy_got s" "cy_overtook s' = cy_overtook s" by (simp_all add: step_append(1))
    ultimately show ?thesis using y(3) c by (intro sys_invI [of s' cfg "xs @ ys" G']) simp_all
  next
    case (step_flush err p)
    obtain ys where y: "path_inv (xs @ ys) G (cy_open s) p" "pt_cfg p = pt_cfg (cy_send s)" using flush_inv [OF i(1) step_flush(2)] by blast
    then show ?thesis by (intro sys_invI [of s' cfg "xs @ ys" G]) (use c more [of ys "cy_open s" G] in \<open>simp_all add: step_flush(1)\<close>)
  next
    case (step_protect err p)
    show ?thesis by (intro sys_invI [of s' cfg xs G]) (use protect_inv [OF i(1) step_protect(2)] i(2) c in \<open>simp_all add: step_protect(1)\<close>)
  next
    case (step_arrive d out r)
    have w: "wire_ok xs d" "symbols_ok xs G (cy_open s)" using i(1) step_arrive(2) by (auto simp: path_inv_def send_inv_def)
    have "recv_inv xs G (cy_open s) r \<and> set (cy_got s @ out) \<subseteq> set (cy_open s)" if l: "length xs < 2 ^ 32" "\<not> (cy_overtook s \<or> overtakes (cy_recv s) d)"
    proof -
      have "recv_inv xs G (cy_open s) (cy_recv s)" "\<not> overtakes (cy_recv s) d" using i(2) l by simp_all
      from onDatagram_ok [OF w(2) l(1) this(1) w(1) this(2) step_arrive(3)] i(2) l show ?thesis by simp
    qed
    then show ?thesis by (intro sys_invI [of s' cfg xs G]) (use i(1) c in \<open>simp_all add: step_arrive(1)\<close>)
  qed
qed

lemma sys_reach: "path_reach env cfg s \<Longrightarrow> cc_SymbolBytes cfg \<le> 65536 \<Longrightarrow> coded_sys_inv cfg s"
  by (induction rule: path_reach.induct) (use sys_start sys_step in blast)+

end
