(* ===== verification/CodedFlow.thy ===== *)
theory CodedFlow
  imports CodedSys
begin

text \<open>
  The coded path on a carrier that accepts every datagram, and the properties of whole runs: a decoder fed in
  order reports nothing lost and recovers nothing, so frames come out once each and in order; on any carrier,
  what comes out was put in.
\<close>

section \<open>Symbols that arrive in order\<close>

definition held_slot :: "nat \<Rightarrow> decoderSlot \<Rightarrow> bool" where
  "held_slot m s \<longleftrightarrow> ds_live s \<and> ds_known s \<and> ds_esi s = word_of_nat m"

definition in_order :: "nat \<Rightarrow> WindowDecoder \<Rightarrow> bool" where
  "in_order n d \<longleftrightarrow> wd_mask d = 511 \<and> length (wd_slots d) = 512 \<and> wd_rows d = [] \<and> (wd_started d \<longleftrightarrow> 0 < n) \<and>
     (0 < n \<longrightarrow> wd_origin d = 0 \<and> wd_high d = word_of_nat n \<and> wd_lo d = word_of_nat n - 512) \<and>
     (\<forall>m < n. n \<le> m + 512 \<longrightarrow> held_slot m (wd_slots d ! (m mod 512))) \<and> (\<forall>m < 512. n \<le> m \<longrightarrow> \<not> ds_live (wd_slots d ! m))"

lemma harvest_no_rows: "wd_rows d = [] \<Longrightarrow> harvest d out = (d, out)"
  by (subst harvest.simps) (simp add: harvest_pass.simps)

lemma slot_of_nat: "wd_mask d = 511 \<Longrightarrow> n < 2 ^ 32 \<Longrightarrow> dec_index d (word_of_nat n) = n mod 512"
  using idx_mod [of "word_of_nat n"] by (simp add: dec_index_def unat_of_nat)

lemma slot_of_oldest: "wd_mask d = 511 \<Longrightarrow> n < 2 ^ 32 \<Longrightarrow> dec_index d (word_of_nat n - 512) = n mod 512"
  using idx_offset [of "word_of_nat n - 512" 512] idx_mod [of "word_of_nat n - 512"] idx_mod [of "word_of_nat n"]
  by (simp add: dec_index_def unat_of_nat)

lemma oldest_sign: "n < 2 ^ 31 \<Longrightarrow> 0 \<le> sint (word_of_nat n - 512 :: u32) \<longleftrightarrow> 512 \<le> n"
proof -
  assume n: "n < 2 ^ 31"
  show ?thesis
  proof (cases "512 \<le> n")
    case True
    then have "word_of_nat n - 512 = (word_of_nat (n - 512) :: u32)" by simp
    moreover have "\<not> sint (word_of_nat (n - 512) :: u32) < 0" unfolding sint_neg using n by (simp add: unat_of_nat del: of_nat_diff)
    ultimately show ?thesis using True by (simp del: of_nat_diff)
  next
    case False
    then have "word_of_nat n - 512 = (- word_of_nat (512 - n) :: u32)" by simp
    then have "sint (word_of_nat n - 512 :: u32) < 0" using False neg_step [of "512 - n" 0] by (simp del: of_nat_diff)
    then show ?thesis using False by simp
  qed
qed

lemma source_in_order:
  assumes "in_order n d" "n < 2 ^ 31" "dec_source d (word_of_nat n) v = (d', out)"
  shows "in_order (Suc n) d' \<and> out = no_delivery"
proof -
  let ?e = "word_of_nat n :: u32"
  let ?s = "\<lparr>ds_esi = ?e, ds_vector = v, ds_live = True, ds_known = True\<rparr>"
  have d: "wd_mask d = 511" "length (wd_slots d) = 512" "wd_rows d = []" using assms(1) by (simp_all add: in_order_def)
  have ix: "n mod 512 < 512" by simp
  show ?thesis
  proof (cases "n = 0")
    case True
    then have "admit d ?e no_delivery = (True, d\<lparr>wd_started := True, wd_origin := 0, wd_high := 1, wd_lo := 1 - 512\<rparr>, no_delivery)"
      using assms(1) by (simp add: admit_def in_order_def)
    moreover have "\<not> ds_live (wd_slots d ! 0)" "dec_index d 0 = 0" using assms(1) True slot_of_nat [OF d(1), of 0] by (simp_all add: in_order_def)
    ultimately have "d' = d\<lparr>wd_started := True, wd_origin := 0, wd_high := 1, wd_lo := 1 - 512, wd_slots := (wd_slots d)[0 := ?s]\<rparr>" "out = no_delivery"
      using assms(3) True d(3) by (auto simp: dec_source_def witness_esi_def substitute_def dec_index_def harvest_no_rows Let_def)
    then show ?thesis using assms(1) True d by (auto simp: in_order_def held_slot_def nth_list_update)
  next
    case False
    then have w: "wd_started d" "wd_origin d = 0" "wd_high d = ?e" "wd_lo d = ?e - 512" using assms(1) by (simp_all add: in_order_def)
    let ?o = "wd_slots d ! (n mod 512)"
    let ?d1 = "d\<lparr>wd_high := ?e + 1\<rparr>"
    have held: "512 \<le> n \<Longrightarrow> held_slot (n - 512) ?o" and free: "n < 512 \<Longrightarrow> \<not> ds_live ?o"
      using assms(1) False le_mod_geq [of 512 n] by (auto simp: in_order_def)
    have oi: "dec_index ?d1 (?e - 512) = n mod 512" using slot_of_oldest [OF d(1)] assms(2) by (simp add: dec_index_def)
    define sl where "sl = (if 512 \<le> n then (wd_slots d)[n mod 512 := empty_slot] else wd_slots d)"
    have ev: "evict ?d1 (?e - 512) no_delivery = (?d1\<lparr>wd_slots := sl\<rparr>, no_delivery)"
    proof (cases "512 \<le> n")
      case True
      then show ?thesis using held d(3) oi by (auto simp: evict_def held_slot_def sl_def)
    next
      case False
      then show ?thesis using free d(3) oi oldest_sign [OF assms(2)] w(2) by (auto simp: evict_def sl_def)
    qed
    let ?d2 = "?d1\<lparr>wd_slots := sl, wd_lo := ?e - 512 + 1\<rparr>"
    have l: "evict_loop 512 (wd_lo ?d1 + 512) ?d1 no_delivery = (?d2, no_delivery)"
    proof -
      have "evict_loop 512 (?e - 512 + 512) ?d2 no_delivery = (?d2, no_delivery)" by (subst evict_loop.simps) (simp add: w)
      moreover have "sint (- 512 :: u32) < 0" by simp
      ultimately show ?thesis using w by (subst evict_loop.simps) (simp add: ev)
    qed
    have "admit d ?e no_delivery = (True, ?d2, no_delivery)" using w d l by (simp add: admit_def)
    moreover have "sl ! (n mod 512) = empty_slot \<or> \<not> ds_live (sl ! (n mod 512))" using free d by (simp add: sl_def)
    then have "\<not> ds_live (sl ! (n mod 512))" by (auto simp: empty_slot_def)
    moreover have "\<not> sint ?e < 0" using sint_neg [of ?e] assms(2) by (simp add: unat_of_nat)
    moreover have "dec_index ?d2 ?e = n mod 512" using slot_of_nat [of ?d2 n] d(1) assms(2) by simp
    ultimately have r: "d' = ?d2\<lparr>wd_slots := sl[n mod 512 := ?s]\<rparr>" "out = no_delivery"
      using assms(3) d(3) w(2) by (auto simp: dec_source_def witness_esi_def substitute_def harvest_no_rows Let_def)
    have neq: "m mod 512 \<noteq> n mod 512" if "m < n" "n < m + 512" for m
    proof
      assume "m mod 512 = n mod 512"
      then have "512 dvd n - m" using that(1) by (metis less_imp_le mod_eq_dvd_iff_nat)
      then show False using that by (auto dest: dvd_imp_le)
    qed
    have sl: "length sl = 512" "i \<noteq> n mod 512 \<Longrightarrow> sl ! i = wd_slots d ! i" for i using d by (simp_all add: sl_def)
    have a: "held_slot m ((sl[n mod 512 := ?s]) ! (m mod 512))" if "m < Suc n" "Suc n \<le> m + 512" for m
      using that assms(1) neq [of m] sl by (cases "m = n") (auto simp: in_order_def held_slot_def)
    have b: "\<not> ds_live ((sl[n mod 512 := ?s]) ! m)" if "m < 512" "Suc n \<le> m" for m using that assms(1) sl by (auto simp: in_order_def)
    have "in_order (Suc n) d'" unfolding in_order_def r using a b d sl(1) w False by (simp add: r algebra_simps)
    then show ?thesis using r(2) by simp
  qed
qed

text \<open>A repair over symbols that are all known leaves such a decoder as it is.\<close>

lemma insert_known_zero:
  "fst cd ! i = 0 \<or> (\<exists>e \<in> set es. dec_index d e = i) \<and> i < length (fst cd) \<and> ds_live (wd_slots d ! i) \<and> ds_known (wd_slots d ! i) \<Longrightarrow>
     fst (foldl (insert_known d) cd es) ! i = 0"
proof (induction es arbitrary: cd)
  case (Cons e es)
  obtain c x where cd: "cd = (c, x)" by (cases cd)
  have "fst (insert_known d cd e) ! i = 0 \<or> (\<exists>e \<in> set es. dec_index d e = i) \<and> i < length (fst (insert_known d cd e)) \<and> ds_live (wd_slots d ! i) \<and> ds_known (wd_slots d ! i)"
    using Cons.prems by (cases "dec_index d e = i") (auto simp: cd insert_known_def Let_def)
  from Cons.IH [OF this] show ?case by simp
qed auto

lemma repair_coef_covered:
  assumes "repair_coef d r ! j \<noteq> 0" "j < length (wd_slots d)"
  shows "\<exists>i < nat (Count r). j = dec_index d (First r + word_of_nat i)"
proof -
  define f where "f = (\<lambda>coef i. let esi = First r + word_of_nat i in if sint (esi - wd_lo d) < 0 \<or> 0 \<le> sint (esi - wd_high d) then coef
     else coef[dec_index d esi := windowCoefficient (RID r) i])"
  have "foldl f (replicate (length (wd_slots d)) 0) [0..<n] ! j \<noteq> 0 \<longrightarrow> (\<exists>i < n. j = dec_index d (First r + word_of_nat i))" for n
  proof (induction n)
    case (Suc n)
    have "f c n ! j = c ! j \<or> j = dec_index d (First r + word_of_nat n)" for c by (auto simp: f_def Let_def nth_list_update_neq)
    from this [of "foldl f (replicate (length (wd_slots d)) 0) [0..<n]"] show ?case using Suc by (auto simp: less_Suc_eq)
  qed (use assms(2) in simp)
  then show ?thesis using assms(1) by (simp add: repair_coef_def f_def)
qed

lemma length_insert_known [simp]: "length (fst (foldl (insert_known d) cd es)) = length (fst cd)"
  by (induction es arbitrary: cd) (auto simp: insert_known_def Let_def split: prod.split)

lemma repair_in_order:
  assumes o: "in_order n d" "n \<le> 2 ^ 31" and c: "0 < c" "c \<le> n" "c \<le> 256" and r: "Count r = int c" "First r = word_of_nat (n - c)"
    and s: "dec_repair d r = (d', out)"
  shows "in_order n d' \<and> out = no_delivery"
proof (cases "Vector r = []")
  case True
  then show ?thesis using s o(1) by (simp add: dec_repair_def)
next
  case False
  have d: "wd_mask d = 511" "length (wd_slots d) = 512" "wd_rows d = []" "wd_started d" "wd_origin d = 0" "wd_high d = word_of_nat n" "wd_lo d = word_of_nat n - 512"
    using o(1) c by (simp_all add: in_order_def)
  have l: "First r + (word_of_nat c - 1) = word_of_nat n - 1" using c r by (simp add: of_nat_diff)
  have a: "admit d (word_of_nat n - 1) no_delivery = (True, d, no_delivery)" by (simp add: admit_def d)
  have "\<not> sint (word_of_nat (n - c) :: u32) < 0" unfolding sint_neg using o(2) c by (simp add: unat_of_nat del: of_nat_diff)
  then have w: "witness_esi d (First r) = d" by (simp add: witness_esi_def d r(2))
  have f: "First r - wd_lo d = word_of_nat (512 - c)" using c by (simp add: r(2) d of_nat_diff)
  have "\<not> sint (word_of_nat (512 - c) :: u32) < 0" unfolding sint_neg using c by (simp add: unat_of_nat del: of_nat_diff)
  then have lo: "\<not> sint (First r - wd_lo d) < 0" unfolding f .
  obtain c1 x1 where k: "foldl (insert_known d) (repair_coef d r, Vector r) (dec_ids d) = (c1, x1)" by (cases "foldl (insert_known d) (repair_coef d r, Vector r) (dec_ids d)")
  have len: "length (repair_coef d r) = 512"
  proof -
    have "length (foldl (\<lambda>coef i. let esi = First r + word_of_nat i in if sint (esi - wd_lo d) < 0 \<or> 0 \<le> sint (esi - wd_high d) then coef
       else coef[dec_index d esi := windowCoefficient (RID r) i]) z is) = length z" for z "is" by (induction "is" arbitrary: z) (auto simp: Let_def)
    then show ?thesis by (simp add: repair_coef_def d)
  qed
  have "c1 ! dec_index d e = 0" if e: "e \<in> set (dec_ids d)" for e
  proof -
    have j: "dec_index d e < 512" using idx_less [of e] by (simp add: dec_index_def d)
    have "repair_coef d r ! dec_index d e = 0 \<or> ds_live (wd_slots d ! dec_index d e) \<and> ds_known (wd_slots d ! dec_index d e)"
    proof (rule disjCI)
      assume nl: "\<not> (ds_live (wd_slots d ! dec_index d e) \<and> ds_known (wd_slots d ! dec_index d e))"
      show "repair_coef d r ! dec_index d e = 0"
      proof (rule ccontr)
        assume "repair_coef d r ! dec_index d e \<noteq> 0"
        then obtain i where i: "i < c" "dec_index d e = dec_index d (word_of_nat (n - c + i))" using repair_coef_covered [of d r "dec_index d e"] j r by (auto simp: d)
        then have "dec_index d e = (n - c + i) mod 512" using slot_of_nat [OF d(1), of "n - c + i"] o(2) c by simp
        moreover have "held_slot (n - c + i) (wd_slots d ! ((n - c + i) mod 512))" using o(1) c i(1) by (simp add: in_order_def)
        ultimately show False using nl by (simp add: held_slot_def)
      qed
    qed
    then have "fst (foldl (insert_known d) (repair_coef d r, Vector r) (dec_ids d)) ! dec_index d e = 0"
      by (intro insert_known_zero) (use e j len in auto)
    then show ?thesis by (simp add: k)
  qed
  then have "leading d c1 = (0, 0)" by (simp add: leading_eq filter_False)
  then have "dec_insert d (repair_coef d r) (Vector r) no_delivery = (d\<lparr>wd_discarded := wd_discarded d + 1\<rparr>, no_delivery)" using k d(3) by (simp add: dec_insert_def)
  then have "d' = d\<lparr>wd_discarded := wd_discarded d + 1\<rparr>" "out = no_delivery"
    using s False c lo w a l by (simp_all add: dec_repair_def r(1) MaxRepairWindow_def MaxShards_def)
  then show ?thesis using o(1) by (simp add: in_order_def)
qed

section \<open>A carrier that accepts everything\<close>

definition accepts :: "path_env \<Rightarrow> bool" where
  "accepts env \<longleftrightarrow> (\<forall>k d. env_send env k d = Accepted)"

fun recv_all :: "bytes list \<Rightarrow> coded_recv \<Rightarrow> bytes list \<times> coded_recv" where
  "recv_all [] r = ([], r)"
| "recv_all (d # ds) r = (let (o1, r1) = onDatagram d r; (o2, r2) = recv_all ds r1 in (o1 @ o2, r2))"

lemma recv_all_snoc: "recv_all ds r = (out, r1) \<Longrightarrow> onDatagram d r1 = (o2, r2) \<Longrightarrow> recv_all (ds @ [d]) r = (out @ o2, r2)"
proof (induction ds arbitrary: r out)
  case (Cons x ds)
  obtain o0 r0 where x: "onDatagram x r = (o0, r0)" by (cases "onDatagram x r")
  obtain oa ra where a: "recv_all ds r0 = (oa, ra)" by (cases "recv_all ds r0")
  then show ?case using Cons.IH [of r0 oa] Cons.prems x by auto
qed simp

lemma put_accept: "accepts env \<Longrightarrow> put_datagram env d p = (True, False, p\<lparr>pt_calls := Suc (pt_calls p), pt_sent := pt_sent p + 1, pt_wire := pt_wire p @ [d]\<rparr>)"
  by (simp add: put_datagram_def accepts_def)

text \<open>A symbol goes out, and the repairs it has earned behind it.\<close>

lemma emit_split:
  assumes "accepts env" "send_inv xs p" "emit env payload i c p = (err, p')"
  shows "\<exists>q e earned seq. send_inv (xs @ [symbol_vector payload i c]) q \<and> same_packing p q \<and> pt_encoder q = Some e \<and>
    we_held e \<le> Suc (we_held (the_encoder p)) \<and> pt_wire q = pt_wire p @ [source_datagram seq (word_of_nat (length xs)) (symbol_vector payload i c)] \<and>
    send_repairs env 0 e earned q = (err, p')"
proof -
  let ?v = "symbol_vector payload i c" and ?env = "env\<lparr>env_code := \<lambda>k. (fst (env_code env k), 0)\<rparr>"
  obtain cap earned where k: "env_code env (pt_emits p) = (cap, earned)" by (cases "env_code env (pt_emits p)")
  obtain esi e where a: "AddOwned (SetCapacity (the_encoder p) cap) ?v = (esi, e)" by (cases "AddOwned (SetCapacity (the_encoder p) cap) ?v")
  have es: "esi = word_of_nat (length xs)" using a assms(2) by (auto simp: send_inv_def AddOwned_def Let_def split: if_splits)
  have "we_held (SetCapacity (the_encoder p) cap) \<le> we_held (the_encoder p)" by (simp add: SetCapacity_def Let_def)
  then have h: "we_held e \<le> Suc (we_held (the_encoder p))" using a by (auto simp: AddOwned_def Let_def split: if_splits)
  define p1 where "p1 = p\<lparr>pt_emits := Suc (pt_emits p), pt_encoder := Some e\<rparr>"
  obtain p2 where s: "sendSource env ?v esi p1 = (False, p2)" "sendSource ?env ?v esi p1 = (False, p2)"
      "pt_wire p2 = pt_wire p @ [source_datagram (pt_nextSeq p) esi ?v]" "pt_encoder p2 = Some e"
    using assms(1) by (simp add: sendSource_def take_seq_def put_accept accepts_def p1_def)
  define q where "q = (if Suc (pt_burstSymbols p2) \<ge> enc_Capacity e then p2\<lparr>pt_burstSymbols := 0, pt_burstRepairs := 0\<rparr>
      else p2\<lparr>pt_burstSymbols := Suc (pt_burstSymbols p2)\<rparr>)"
  have r: "emit env payload i c p = send_repairs env 0 e earned q" "emit ?env payload i c p = (False, q)"
    using k a s by (simp_all add: emit_def the_encoder_def [symmetric] p1_def [symmetric] q_def Let_def)
  have "pt_wire q = pt_wire p2" "pt_encoder q = Some e" using s(4) by (simp_all add: q_def)
  then show ?thesis using emit_inv [OF assms(2) r(2)] r(1) assms(3) s(3) h es
    by (intro exI [of _ q] exI [of _ e] exI [of _ earned] exI [of _ "pt_nextSeq p"]) simp
qed

text \<open>The receiver that has seen the first \<open>n\<close> symbols and no other.\<close>

definition ready :: "nat \<Rightarrow> coded_recv \<Rightarrow> bool" where
  "ready n r \<longleftrightarrow> in_order n (the_decoder r) \<and> as_seen (rc_assembler r) = (0 < n) \<and> (0 < n \<longrightarrow> as_high (rc_assembler r) = word_of_nat (n - 1))"

lemma note_ready:
  assumes "ready n r"
  shows "note_esi (word_of_nat n) (rc_assembler r) = (if n = 0 then (rc_assembler r)\<lparr>as_seen := True, as_high := 0\<rparr> else prune ((rc_assembler r)\<lparr>as_high := word_of_nat n\<rparr>))"
proof (cases n)
  case (Suc m)
  then have "as_high (rc_assembler r) = word_of_nat m" "as_seen (rc_assembler r)" using assms by (simp_all add: ready_def)
  then show ?thesis by (simp add: note_esi_def Suc)
qed (use assms in \<open>simp add: ready_def note_esi_def\<close>)

lemma source_ready:
  assumes "ready n r" "n < 2 ^ 31" "arrived (word_of_nat n) v [] (rc_assembler r) = (fr, True, a)" "as_seen a" "as_high a = word_of_nat n"
  shows "\<exists>r'. onDatagram (source_datagram seq (word_of_nat n) v) r = (fr, r') \<and> ready (Suc n) r' \<and> rc_assembler r' = a"
proof -
  obtain d out where d: "dec_source (the_decoder r) (word_of_nat n) v = (d, out)" by (cases "dec_source (the_decoder r) (word_of_nat n) v")
  have "in_order (Suc n) d" "out = no_delivery" using source_in_order [OF _ assms(2) d] assms(1) by (simp_all add: ready_def)
  then show ?thesis using assms(3-5) d by (simp add: source_onDatagram deliver_symbols_def no_delivery_def ready_def the_decoder_def)
qed

lemma repair_ready:
  assumes "ready n r" "n \<le> 2 ^ 31" "0 < c" "c \<le> n" "c \<le> 256" "Count rp = int c" "First rp = word_of_nat (n - c)"
  shows "\<exists>r'. onDatagram (repair_datagram seq rp) r = ([], r') \<and> ready n r' \<and> as_groups (rc_assembler r') = as_groups (rc_assembler r)"
proof -
  obtain d out where d: "dec_repair (the_decoder r) rp = (d, out)" by (cases "dec_repair (the_decoder r) rp")
  have "in_order n d" "out = no_delivery" using repair_in_order [OF _ assms(2-7) d] assms(1) by (simp_all add: ready_def)
  then show ?thesis using assms(1,3,5,6) d by (simp add: repair_onDatagram deliver_symbols_def no_delivery_def ready_def the_decoder_def)
qed

lemma packed_ready:
  assumes "ready n r" "n < 2 ^ 31" "as_groups (rc_assembler r) = Map.empty" "length pl < 65536"
  shows "\<exists>r'. onDatagram (source_datagram seq (word_of_nat n) (symbol_vector pl 0 1)) r = (parseFrames pl [], r') \<and> ready (Suc n) r' \<and>
    as_groups (rc_assembler r') = Map.empty"
proof -
  let ?a = "note_esi (word_of_nat n) (rc_assembler r)"
  have a: "as_seen ?a" "as_high ?a = word_of_nat n" "as_groups ?a = Map.empty"
    using assms(1,3) unfolding note_ready [OF assms(1)] by (auto simp: prune_def drop_groups_def ready_def)
  have "arrived (word_of_nat n) (symbol_vector pl 0 1) [] (rc_assembler r) = (parseFrames pl [], True, ?a)"
    using parse_symbol [OF assms(4), of 0 1] by (simp add: arrived_def)
  from source_ready [OF assms(1,2) this a(1,2)] show ?thesis using a(3) by metis
qed






section \<open>A lossless run\<close>

text \<open>
  The frames \<open>out\<close> have come out of the datagrams sent so far and the frames \<open>gs\<close> are packed and not yet
  sent, as long as the symbol numbers have not wrapped.
\<close>

definition caught_up :: "bytes list \<Rightarrow> (u32 \<rightharpoonup> fragmentGroup) \<Rightarrow> bytes list \<Rightarrow> coded_send \<Rightarrow> bool" where
  "caught_up xs groups out p \<longleftrightarrow> send_inv xs p \<and> we_held (the_encoder p) \<le> length xs \<and> (length xs \<le> 2 ^ 31 \<longrightarrow>
     (\<exists>r. recv_all (pt_wire p) new_recv = (out, r) \<and> ready (length xs) r \<and> as_groups (rc_assembler r) = groups))"


lemma caught_up_cong:
  "pt_emits p' = pt_emits p \<Longrightarrow> pt_encoder p' = pt_encoder p \<Longrightarrow> pt_wire p' = pt_wire p \<Longrightarrow> caught_up xs g out p' = caught_up xs g out p"
  using send_inv_cong [of p' p xs] by (simp add: caught_up_def the_encoder_def)

lemma sendRepair_caught_up:
  assumes "accepts env" "caught_up xs g out p" "pt_encoder p = Some e" "sendRepair env n e p = (err, p')"
  shows "\<not> err \<and> caught_up xs g out p' \<and> pt_encoder p' = Some e"
proof -
  have inv: "send_inv xs p" "we_held e \<le> length xs" using assms(2,3) by (simp_all add: caught_up_def the_encoder_def)
  note i = sendRepair_inv [OF inv(1) assms(3,4)]
  have same: ?thesis if "pt_wire p' = pt_wire p" "\<not> err" using that i assms(2,3) by (simp add: caught_up_def the_encoder_def)
  show ?thesis
  proof (cases "AppendRepair e [] (pt_nextRID p) (int n)")
    case None
    then show ?thesis using assms(4) by (intro same) (auto simp: sendRepair_def Let_def split: option.splits)
  next
    case (Some x)
    obtain v r where x: "x = (v, r)" by (cases x)
    obtain c where c: "0 < c" "c \<le> we_held e" "c \<le> 256" "Count r = int c" "First r = we_next e - word_of_nat c"
      using Some x by (auto simp: AppendRepair_def repairBounds_def MaxRepairWindow_def MaxShards_def Let_def split: if_splits)
    have f: "First r = word_of_nat (length xs - c)" using c inv by (simp add: send_inv_def the_encoder_def assms(3) of_nat_diff)
    obtain sz where "RepairVectorSize e (int n) = Some sz" using Some by (auto simp: AppendRepair_def RepairVectorSize_def split: option.splits)
    then have w: "\<not> err" "pt_wire p' = pt_wire p @ [repair_datagram (pt_nextSeq p) r]"
      using assms(1,4) Some x by (auto simp: sendRepair_def take_seq_def put_accept Let_def)
    have "\<exists>r'. recv_all (pt_wire p') new_recv = (out, r') \<and> ready (length xs) r' \<and> as_groups (rc_assembler r') = g" if l: "length xs \<le> 2 ^ 31"
    proof -
      obtain ra where ra: "recv_all (pt_wire p) new_recv = (out, ra)" "ready (length xs) ra" "as_groups (rc_assembler ra) = g" using assms(2) l by (auto simp: caught_up_def)
      from repair_ready [OF ra(2) l c(1) _ c(3,4) f, of "pt_nextSeq p"] c(2) inv(2) obtain r' where
          "onDatagram (repair_datagram (pt_nextSeq p) r) ra = ([], r')" "ready (length xs) r'" "as_groups (rc_assembler r') = g" using ra(3) by auto
      then show ?thesis using recv_all_snoc [OF ra(1)] by (auto simp: w(2))
    qed
    then show ?thesis using w(1) i inv(2) by (simp add: caught_up_def the_encoder_def)
  qed
qed

lemma send_repairs_caught_up:
  "accepts env \<Longrightarrow> caught_up xs g out p \<Longrightarrow> pt_encoder p = Some e \<Longrightarrow> send_repairs env n e k p = (err, p') \<Longrightarrow> \<not> err \<and> caught_up xs g out p'"
proof (induction k arbitrary: p)
  case (Suc k)
  obtain er p1 where s: "sendRepair env n e p = (er, p1)" by (cases "sendRepair env n e p")
  note i = sendRepair_caught_up [OF Suc.prems(1-3) s]
  let ?q = "p1\<lparr>pt_burstRepairs := pt_burstRepairs p1 + 1\<rparr>"
  have "caught_up xs g out ?q" "pt_encoder ?q = Some e" using i caught_up_cong [of ?q p1] by simp_all
  from Suc.IH [OF Suc.prems(1) this] show ?case using Suc.prems(4) s i by (simp add: Let_def)
qed simp

lemma emit_caught_up:
  assumes "accepts env" "caught_up xs g out p" "emit env pl i c p = (err, p')"
    and step: "\<And>r seq. length xs < 2 ^ 31 \<Longrightarrow> ready (length xs) r \<Longrightarrow> as_groups (rc_assembler r) = g \<Longrightarrow>
      \<exists>r'. onDatagram (source_datagram seq (word_of_nat (length xs)) (symbol_vector pl i c)) r = (new, r') \<and> ready (Suc (length xs)) r' \<and> as_groups (rc_assembler r') = g'"
  shows "\<not> err \<and> caught_up (xs @ [symbol_vector pl i c]) g' (out @ new) p' \<and> same_packing p p'"
proof -
  let ?v = "symbol_vector pl i c"
  have s: "send_inv xs p" "we_held (the_encoder p) \<le> length xs" using assms(2) by (simp_all add: caught_up_def)
  obtain q e earned seq where q: "send_inv (xs @ [?v]) q" "same_packing p q" "pt_encoder q = Some e" "we_held e \<le> Suc (we_held (the_encoder p))"
      "pt_wire q = pt_wire p @ [source_datagram seq (word_of_nat (length xs)) ?v]" "send_repairs env 0 e earned q = (err, p')"
    using emit_split [OF assms(1) s(1) assms(3)] by blast
  have "\<exists>r'. recv_all (pt_wire q) new_recv = (out @ new, r') \<and> ready (Suc (length xs)) r' \<and> as_groups (rc_assembler r') = g'" if l: "Suc (length xs) \<le> 2 ^ 31"
  proof -
    obtain r where r: "recv_all (pt_wire p) new_recv = (out, r)" "ready (length xs) r" "as_groups (rc_assembler r) = g"
      using assms(2) l by (auto simp: caught_up_def)
    from step [OF _ r(2,3), of seq] l obtain r' where
        "onDatagram (source_datagram seq (word_of_nat (length xs)) ?v) r = (new, r')" "ready (Suc (length xs)) r'" "as_groups (rc_assembler r') = g'"
      by auto
    then show ?thesis using recv_all_snoc [OF r(1)] by (auto simp: q(5))
  qed
  then have "caught_up (xs @ [?v]) g' (out @ new) q" using q(1,3,4) s(2) by (simp add: caught_up_def the_encoder_def)
  from send_repairs_caught_up [OF assms(1) this q(3,6)] show ?thesis using emit_inv [OF s(1) assms(3)] by blast
qed







lemma in_order_new: "in_order 0 NewWindowDecoder"
  by (simp add: in_order_def new_decoder empty_slot_def)

lemma new_encoder_held: "we_held (NewWindowEncoder capacity) = 0"
  by (simp add: NewWindowEncoder_def SetCapacity_def Let_def)

lemma caught_up_start: "caught_up [] Map.empty [] (new_send cfg)"
  using in_order_new by (simp add: caught_up_def new_send_def send_inv_def the_encoder_def enc_inv_new new_encoder_held ready_def new_recv_def new_assembler_def the_decoder_def)

section \<open>Properties\<close>

definition clear_env :: path_env where
  "clear_env = \<lparr>env_send = (\<lambda>_ _. Accepted), env_code = (\<lambda>_. (16, 0)), env_tail = (\<lambda>_ _. 0)\<rparr>"

definition small_cfg :: coded_config where
  "small_cfg = \<lparr>cc_SymbolBytes = 31, cc_RoundTrip = 0, cc_Pending = 2\<rparr>"

definition quiet_next :: "bytes \<Rightarrow> nat \<Rightarrow> nat \<Rightarrow> coded_send \<Rightarrow> coded_send" where
  "quiet_next pl i c p = snd (emit clear_env pl i c p)"

lemma emit_quiet: "emit clear_env pl i c p = (False, quiet_next pl i c p)" "pt_emits (quiet_next pl i c p) = Suc (pt_emits p)"
    "pt_packed (quiet_next pl i c p) = pt_packed p" "pt_packedDone (quiet_next pl i c p) = pt_packedDone p" "pt_cfg (quiet_next pl i c p) = pt_cfg p"
    "pt_wire (quiet_next pl i c p) = pt_wire p @ [source_datagram (pt_nextSeq p) (we_next (the_encoder p)) (symbol_vector pl i c)]"
proof -
  obtain e where a: "AddOwned (SetCapacity (the_encoder p) 16) (symbol_vector pl i c) = (we_next (the_encoder p), e)" by (auto simp: AddOwned_def Let_def)
  show "emit clear_env pl i c p = (False, quiet_next pl i c p)" "pt_emits (quiet_next pl i c p) = Suc (pt_emits p)"
    "pt_packed (quiet_next pl i c p) = pt_packed p" "pt_packedDone (quiet_next pl i c p) = pt_packedDone p" "pt_cfg (quiet_next pl i c p) = pt_cfg p"
    "pt_wire (quiet_next pl i c p) = pt_wire p @ [source_datagram (pt_nextSeq p) (we_next (the_encoder p)) (symbol_vector pl i c)]"
    using a by (simp_all add: quiet_next_def emit_def the_encoder_def [symmetric] clear_env_def sendSource_def put_datagram_def take_seq_def Let_def)
qed


lemma small_cfg_bytes: "cc_SymbolBytes small_cfg = 31"
  by (simp add: small_cfg_def)

lemma small_payload: "symbolPayload (coded_withDefaults small_cfg) None = 10"
  by (simp add: small_cfg_def coded_withDefaults_def symbolPayload_def symbolBytes_def repairHeader_def symbolHeader_def frameHeader_def)





text \<open>C18: nothing is made up. Over any run, with a carrier that accepts, refuses or loses datagrams, delivers them in any order and as often as it
  likes, with repairs used to recover what is missing and groups dropped when a symbol is lost, every frame the receiver delivers is one the
  sender was given, or was read out of one in the gap of \<open>lone_fragment\<close>; so it is one the sender was given when none was in the gap. The run has
  sent fewer than \<open>2 ^ 32\<close> symbols, and no source symbol has arrived while a held equation had it as its pivot, which is the defect of
  \<open>overtaken_symbol_corrupts\<close>.\<close>

theorem delivered_was_sent:
  assumes "path_reach env cfg s" "cc_SymbolBytes cfg \<le> 65536" "pt_emits (cy_send s) < 2 ^ 32" "\<not> cy_overtook s"
  shows "set (cy_got s) \<subseteq> set (cy_frames s) \<union> set (cy_misread s)"
proof -
  obtain xs G where "path_inv xs G (cy_open s) (cy_send s)" "length xs < 2 ^ 32 \<longrightarrow> \<not> cy_overtook s \<longrightarrow> set (cy_got s) \<subseteq> set (cy_open s)"
    using sys_reach [OF assms(1,2)] by (auto simp: coded_sys_inv_def)
  then show ?thesis using assms(3,4) by (simp add: path_inv_def send_inv_def)
qed

theorem delivered_was_sent_witness:
  "\<exists>s. path_reach clear_env small_cfg s \<and> cy_got s = [[1, 2, 3]] \<and> cy_misread s = [] \<and> set (cy_got s) \<subseteq> set (cy_frames s) \<union> set (cy_misread s)"
proof -
  let ?s0 = "path_start small_cfg" and ?pk = "put_be 4 (3 :: u32) @ [1, 2, 3]"
  let ?p1 = "(new_send small_cfg)\<lparr>pt_packed := ?pk, pt_packedDone := [None]\<rparr>"
  let ?s1 = "?s0\<lparr>cy_send := ?p1, cy_frames := [[1, 2, 3]]\<rparr>"
  let ?q = "quiet_next ?pk 0 1 ?p1"
  let ?p2 = "?q\<lparr>pt_packed := [], pt_called := pt_called ?q @ concat (map callDone (pt_packedDone ?q)), pt_packedDone := []\<rparr>"
  let ?s2 = "?s1\<lparr>cy_send := ?p2\<rparr>" and ?d = "source_datagram 0 0 (symbol_vector ?pk 0 1)"
  have l: "symbolPayload (pt_cfg (cy_send ?s0)) None = 10" using small_payload by (simp add: new_send_def path_start_def)
  then have "appendFrame clear_env None [1, 2, 3] None (cy_send ?s0) = (False, ?p1)" by (simp add: appendFrame_def frameHeader_def new_send_def path_start_def)
  from step_append [OF this] l have "path_step clear_env ?s0 ?s1" by (simp add: path_start_def misread_def lone_fragment_def frameHeader_def)
  then have r1: "path_reach clear_env small_cfg ?s1" by (rule path_more [OF path_begin])
  have "path_step clear_env ?s1 ?s2" by (intro step_flush [where err = False]) (simp add: flushPacked_def emit_quiet)
  then have r2: "path_reach clear_env small_cfg ?s2" by (rule path_more [OF r1])
  have "?d \<in> set (pt_wire (cy_send ?s2))" by (simp add: emit_quiet new_send_def the_encoder_def enc_inv_new)
  moreover have nov: "\<not> overtakes (cy_recv ?s2) ?d" by (simp add: overtakes_def path_start_def new_recv_def the_decoder_def new_decoder overtaken_def)
  moreover have "ready 0 new_recv" using in_order_new by (simp add: ready_def new_recv_def new_assembler_def the_decoder_def)
  then obtain r where "onDatagram ?d new_recv = (parseFrames ?pk [], r)" using packed_ready [of 0 new_recv ?pk 0] by (auto simp: new_recv_def new_assembler_def)
  then have on: "onDatagram ?d (cy_recv ?s2) = ([[1, 2, 3]], r)" using parse_frames [of "[[1, 2, 3]]" "[]"] by (simp add: path_start_def frame_bytes_def)
  let ?s3 = "?s2\<lparr>cy_recv := r, cy_got := cy_got ?s2 @ [[1, 2, 3]], cy_overtook := (cy_overtook ?s2 \<or> overtakes (cy_recv ?s2) ?d)\<rparr>"
  have r3: "path_reach clear_env small_cfg ?s3" using path_more [OF r2 step_arrive [OF calculation(1) on]] .
  have "cy_got ?s3 = [[1, 2, 3]]" "cy_misread ?s3 = []" "pt_emits (cy_send ?s3) < 2 ^ 32" "\<not> cy_overtook ?s3"
    using nov by (simp_all add: path_start_def emit_quiet new_send_def)
  then show ?thesis using delivered_was_sent [OF r3] small_cfg_bytes r3 by (intro exI [of _ ?s3]) simp
qed

lemma parseFrames_shorter: "f \<in> set (parseFrames pl []) \<Longrightarrow> length f < length pl"
proof (induction "length pl" arbitrary: pl rule: less_induct)
  case less
  let ?n = "unat (get_be (take 4 pl) :: u32)" and ?r = "drop frameHeader pl"
  show ?case
  proof (cases "frameHeader \<le> length pl \<and> \<not> ?n > length ?r")
    case True
    then have p: "parseFrames pl [] = take ?n ?r # parseFrames (drop ?n ?r) []"
      using parseFrames_out [of "drop ?n ?r" "[take ?n ?r]"] by (subst parseFrames.simps) (simp add: Let_def)
    have l: "length (drop ?n ?r) < length pl" "length (take ?n ?r) < length pl" using True by (auto simp: frameHeader_def)
    have "f = take ?n ?r \<or> f \<in> set (parseFrames (drop ?n ?r) [])" using less.prems p by simp
    then show ?thesis using l less.hyps [OF l(1)] by fastforce
  next
    case False
    then show ?thesis using less.prems by (subst (asm) parseFrames.simps) (auto simp: Let_def split: if_splits)
  qed
qed

text \<open>A frame that never arrives. A frame that fits a symbol but not together with its length prefix is sent as a
  single fragment, and the receiver reads a symbol with one fragment as packed frames: nothing is lost on the
  way and the sender's callback runs, but the frame is not among what is delivered, and what is delivered is
  whatever its bytes happen to frame.\<close>

theorem lone_fragment_misread:
  assumes "accepts env" "cc_SymbolBytes cfg \<le> 65536" "lone_fragment (symbolPayload (coded_withDefaults cfg) lim) frame" "appendFrame env lim frame d (new_send cfg) = (err, p)"
  shows "\<not> err \<and> pt_called p = callDone d \<and> fst (recv_all (pt_wire p) new_recv) = parseFrames frame [] \<and> frame \<notin> set (parseFrames frame [])"
proof -
  let ?l = "symbolPayload (coded_withDefaults cfg) lim"
  have "cc_SymbolBytes (coded_withDefaults cfg) \<le> 65536" using assms(2) by (simp add: coded_withDefaults_def Let_def)
  from payload_bounds [OF this, of lim] have b: "5 \<le> ?l" "?l < 65536" by simp_all
  have l: "?l < 4 + length frame" "length frame \<le> ?l" "0 < length frame" using assms(3) b(1) unfolding lone_fragment_def frameHeader_def by linarith+
  have c: "(length frame + ?l - 1) div ?l = 1" 
  proof -
    have "?l \<le> length frame + ?l - 1" "length frame + ?l - 1 < ?l + ?l" using l(2,3) b(1) by linarith+
    then show ?thesis by (intro div_nat_eqI) simp_all
  qed
  obtain er p1 where e: "emit env frame 0 1 (new_send cfg) = (er, p1)" by (cases "emit env frame 0 1 (new_send cfg)")
  have "caught_up [] Map.empty [] (new_send cfg)" by (rule caught_up_start)
  then have "\<not> er \<and> caught_up ([] @ [symbol_vector frame 0 1]) Map.empty ([] @ parseFrames frame []) p1 \<and> same_packing (new_send cfg) p1"
    by (rule emit_caught_up [OF assms(1) _ e]) (use packed_ready [of 0 _ frame] l(2) b(2) in simp)
  moreover have "flushPacked env (new_send cfg) = (False, new_send cfg)" "pt_cfg (new_send cfg) = coded_withDefaults cfg" by (simp_all add: flushPacked_def new_send_def)
  then have "appendFrame env lim frame d (new_send cfg) = (er, call_done d p1)"
    using e c l by (auto simp: appendFrame_def sendFragments_def maxFragments_def frameHeader_def)
  moreover have "frame \<notin> set (parseFrames frame [])" using parseFrames_shorter by blast
  ultimately show ?thesis using assms(4) by (auto simp: caught_up_def call_done_def same_packing_def new_send_def)
qed

theorem lone_fragment_misread_witness:
  "fst (recv_all (pt_wire (snd (appendFrame clear_env None [0, 0, 0, 3, 7, 8, 9, 0] (Some 1) (new_send small_cfg)))) new_recv) = [[7, 8, 9]]"
proof -
  have pf: "parseFrames [0, 0, 0, 3, 7, 8, 9, 0] [] = [[7, 8, 9]]" 
  proof -
    have "get_be [0, 0, 0, 3] = (3 :: u32)" by (simp add: get_be_def)
    then show ?thesis by (simp add: parseFrames.simps [of "[0, 0, 0, 3, 7, 8, 9, 0]"] parseFrames.simps [of "[0]"] frameHeader_def)
  qed
  have "accepts clear_env" "cc_SymbolBytes small_cfg \<le> 65536" "lone_fragment (symbolPayload (coded_withDefaults small_cfg) None) [0, 0, 0, 3, 7, 8, 9, 0]"
    by (simp_all add: accepts_def clear_env_def small_payload small_cfg_bytes lone_fragment_def frameHeader_def)
  from lone_fragment_misread [OF this surjective_pairing, of "Some 1"] show ?thesis by (simp add: pf)
qed

end
