(* ===== verification/CodedQueue.thy ===== *)
theory CodedQueue
  imports CodedFlow
begin

text \<open>
  The queue of a coded path and the loop that drains it, \<^verbatim>\<open>sendLoop\<close> in \<^verbatim>\<open>internal/coded/coded.go\<close>: frames leave in
  the order they were accepted, and the callback of each runs once.
\<close>

section \<open>First in, first out\<close>

locale fifo =
  fixes ok :: "'q \<Rightarrow> bool" and items :: "'q \<Rightarrow> 'a list" and room :: "'q \<Rightarrow> bool" and push :: "'q \<Rightarrow> 'a \<Rightarrow> 'q" and pop :: "'q \<Rightarrow> 'a \<times> 'q"
  assumes push_law: "ok q \<Longrightarrow> room q \<Longrightarrow> ok (push q x) \<and> items (push q x) = items q @ [x]"
    and pop_law: "ok q \<Longrightarrow> items q \<noteq> [] \<Longrightarrow> ok (snd (pop q)) \<and> items q = fst (pop q) # items (snd (pop q))"
begin

fun drain_n :: "nat \<Rightarrow> 'q \<Rightarrow> 'a list \<times> 'q" where
  "drain_n 0 q = ([], q)"
| "drain_n (Suc n) q = (let (x, q1) = pop q; (xs, q2) = drain_n n q1 in (x # xs, q2))"

lemma drain_items: "ok q \<Longrightarrow> n \<le> length (items q) \<Longrightarrow> drain_n n q = (xs, q') \<Longrightarrow> ok q' \<and> xs @ items q' = items q \<and> length xs = n"
proof (induction n arbitrary: q xs)
  case (Suc n)
  obtain x q1 where p: "pop q = (x, q1)" by (cases "pop q")
  obtain ys q2 where d: "drain_n n q1 = (ys, q2)" by (cases "drain_n n q1")
  have "items q \<noteq> []" using Suc.prems(2) by auto
  from pop_law [OF Suc.prems(1) this] have "ok q1" "items q = x # items q1" by (simp_all add: p)
  then show ?case using Suc.IH [of q1 ys] Suc.prems p d by auto
qed simp

lemma push_then_drain: "ok q \<Longrightarrow> room q \<Longrightarrow> fst (drain_n (Suc (length (items q))) (push q x)) = items q @ [x]"
  using push_law [of q x] drain_items [of "push q x" "Suc (length (items q))"] by (metis append_self_conv append_eq_append_conv length_append_singleton le_refl surjective_pairing)

end

definition ring_ok :: "pending_queue \<Rightarrow> bool" where
  "ring_ok q \<longleftrightarrow> pq_head q < length (pq_pending q) \<and> pq_len q \<le> length (pq_pending q)"

definition ring_items :: "pending_queue \<Rightarrow> outboundFrame list" where
  "ring_items q = map (\<lambda>i. pq_pending q ! ((pq_head q + i) mod length (pq_pending q))) [0..<pq_len q]"

lemma ring_slot_le: "i \<le> j \<Longrightarrow> j < n \<Longrightarrow> (h + i) mod n = (h + j) mod n \<Longrightarrow> i = (j :: nat)"
proof -
  assume a: "i \<le> j" "j < n" "(h + i) mod n = (h + j) mod n"
  then have "n dvd h + j - (h + i)" by (metis add_le_cancel_left mod_eq_dvd_iff_nat)
  then show ?thesis using a(1,2) by (auto dest: dvd_imp_le)
qed

lemma ring_slot: "i < n \<Longrightarrow> j < n \<Longrightarrow> (h + i) mod n = (h + j) mod n \<Longrightarrow> i = (j :: nat)"
  using ring_slot_le [of i j n h] ring_slot_le [of j i n h] by linarith

interpretation ring: fifo ring_ok ring_items "\<lambda>q. pq_len q < length (pq_pending q)" pushPendingLocked popPendingLocked
proof
  fix q x assume q: "ring_ok q" "pq_len q < length (pq_pending q)"
  let ?n = "length (pq_pending q)"
  have "(pq_head q + pq_len q) mod ?n \<noteq> (pq_head q + i) mod ?n" if "i < pq_len q" for i using ring_slot [of i ?n "pq_len q" "pq_head q"] that q by auto
  moreover have "(pq_head q + pq_len q) mod ?n < ?n" using q by (intro mod_less_divisor) linarith
  ultimately show "ring_ok (pushPendingLocked q x) \<and> ring_items (pushPendingLocked q x) = ring_items q @ [x]"
    using q by (auto simp: ring_ok_def ring_items_def pushPendingLocked_def Let_def)
next
  fix q assume q: "ring_ok q" "ring_items q \<noteq> []"
  let ?n = "length (pq_pending q)"
  obtain m where m: "pq_len q = Suc m" using q(2) by (cases "pq_len q") (simp_all add: ring_items_def)
  have h: "pq_head q < ?n" "Suc m \<le> ?n" using q(1) m by (simp_all add: ring_ok_def)
  have pn: "pq_pending q \<noteq> []" using h(1) by auto
  have ne: "((pq_head q + 1) mod ?n + i) mod ?n = (pq_head q + Suc i) mod ?n \<and> pq_head q \<noteq> (pq_head q + Suc i) mod ?n" if "i < m" for i
    using ring_slot [of "Suc i" ?n 0 "pq_head q"] that h pn by (auto simp: mod_simps)
  have "ring_items q = (pq_pending q ! pq_head q) # map (\<lambda>i. pq_pending q ! ((pq_head q + Suc i) mod ?n)) [0..<m]"
    using h unfolding ring_items_def m upt_conv_Cons [OF zero_less_Suc] by (simp add: map_Suc_upt [symmetric] comp_def del: upt_Suc map_Suc_upt)
  moreover have "map (\<lambda>i. pq_pending q ! ((pq_head q + Suc i) mod ?n)) [0..<m] = ring_items (snd (popPendingLocked q))"
    using ne m by (auto simp: ring_items_def popPendingLocked_def)
  ultimately show "ring_ok (snd (popPendingLocked q)) \<and> ring_items q = fst (popPendingLocked q) # ring_items (snd (popPendingLocked q))"
    using h m pn by (simp add: ring_ok_def popPendingLocked_def)
qed

section \<open>The send loop\<close>

datatype loop_phase = Waiting | Draining | Ended

record path_loop =
  lp_queue :: pending_queue
  lp_send :: coded_send
  lp_phase :: loop_phase

text \<open>A failing carrier closes the path from inside \<open>put\<close>.\<close>

definition after_send :: "path_loop \<Rightarrow> coded_send \<Rightarrow> path_loop" where
  "after_send s p = s\<lparr>lp_send := p, lp_queue := (if pt_failed p then closePath (lp_queue s) else lp_queue s)\<rparr>"

definition abandonPending :: "path_loop \<Rightarrow> path_loop" where
  "abandonPending s =
     (let (called, q) = abandon_queue (lp_queue s); p = lp_send s
      in s\<lparr>lp_queue := q, lp_send := abandon_packed (p\<lparr>pt_called := pt_called p @ called\<rparr>), lp_phase := Ended\<rparr>)"

definition loop_append :: "path_env \<Rightarrow> int option \<Rightarrow> outboundFrame \<Rightarrow> path_loop \<Rightarrow> path_loop" where
  "loop_append env lim f s =
     (let (err, p) = appendFrame env lim (ob_frame f) (ob_done f) (lp_send s); s1 = after_send s p
      in if err then abandonPending s1 else s1\<lparr>lp_phase := Draining\<rparr>)"

definition loop_seal :: "path_env \<Rightarrow> path_loop \<Rightarrow> path_loop" where
  "loop_seal env s =
     (let (err, p) = flushPacked env (lp_send s); s1 = after_send s p in
      if err then abandonPending s1
      else let (err2, p2) = protectBurst env (lp_send s1); s2 = after_send s1 p2
           in if err2 then abandonPending s2 else s2\<lparr>lp_phase := Waiting\<rparr>)"

text \<open>One turn of \<^verbatim>\<open>sendLoop\<close>; the carrier's limit is read again in every turn.\<close>

definition sendLoop :: "path_env \<Rightarrow> int option \<Rightarrow> path_loop \<Rightarrow> path_loop" where
  "sendLoop env lim s =
     (case lp_phase s of
        Ended \<Rightarrow> s
      | Waiting \<Rightarrow>
          (case takePending (lp_queue s) True of
             (TakeWait, q) \<Rightarrow> s
           | (TakeNone, q) \<Rightarrow> abandonPending s
           | (Taken f, q) \<Rightarrow> loop_append env lim f (s\<lparr>lp_queue := q\<rparr>))
      | Draining \<Rightarrow>
          (case takePending (lp_queue s) False of
             (Taken f, q) \<Rightarrow> loop_append env lim f (s\<lparr>lp_queue := q\<rparr>)
           | (_, q) \<Rightarrow> loop_seal env s))"

text \<open>Runs: senders, the closer and the loop take turns; \<open>fs\<close> are the frames accepted, \<open>L\<close> the limits the
  carrier reports.\<close>

inductive loop_run :: "path_env \<Rightarrow> coded_config \<Rightarrow> int option set \<Rightarrow> path_loop \<Rightarrow> outboundFrame list \<Rightarrow> bool" for env cfg L where
  loop_begin: "loop_run env cfg L \<lparr>lp_queue = new_pending (nat (cc_Pending (coded_withDefaults cfg))), lp_send = new_send cfg, lp_phase = Waiting\<rparr> []"
| loop_accept: "loop_run env cfg L s fs \<Longrightarrow> SendOwnedTracked (lp_queue s) f = (SendQueued, q) \<Longrightarrow> loop_run env cfg L (s\<lparr>lp_queue := q\<rparr>) (fs @ [f])"
| loop_close: "loop_run env cfg L s fs \<Longrightarrow> loop_run env cfg L (s\<lparr>lp_queue := closePath (lp_queue s)\<rparr>) fs"
| loop_turn: "loop_run env cfg L s fs \<Longrightarrow> lim \<in> L \<Longrightarrow> loop_run env cfg L (sendLoop env lim s) fs"

subsection \<open>Callbacks\<close>

definition dones :: "outboundFrame list \<Rightarrow> nat list" where
  "dones fs = concat (map (\<lambda>f. callDone (ob_done f)) fs)"

lemma dones_simps [simp]: "dones [] = []" "dones (f # fs) = callDone (ob_done f) @ dones fs" "dones (fs @ gs) = dones fs @ dones gs"
  by (simp_all add: dones_def)

text \<open>The callbacks a sender has run, and those it still holds, in order.\<close>

definition called_or_packed :: "coded_send \<Rightarrow> nat list" where
  "called_or_packed p = pt_called p @ concat (map callDone (pt_packedDone p))"

text \<open>What a call that sends datagrams does: it leaves the callbacks alone, and fails only with the carrier.\<close>

definition sends :: "coded_send \<Rightarrow> bool \<Rightarrow> coded_send \<Rightarrow> bool" where
  "sends p err p' \<longleftrightarrow> pt_packedDone p' = pt_packedDone p \<and> pt_called p' = pt_called p \<and> pt_cfg p' = pt_cfg p \<and> (err \<longrightarrow> pt_failed p')"

lemma sends_trans: "sends a e b \<Longrightarrow> sends b f c \<Longrightarrow> sends a f c"
  by (simp add: sends_def)

lemma put_sends: "put_datagram env d p = (s, err, p') \<Longrightarrow> sends p err p'"
  by (auto simp: put_datagram_def untake_def sends_def Let_def split: send_result.splits)

lemma sendSource_sends: "sendSource env v e p = (err, p') \<Longrightarrow> sends p err p'"
  using put_sends [of env "source_datagram (pt_nextSeq p) e v" "p\<lparr>pt_nextSeq := pt_nextSeq p + 1\<rparr>"]
  by (auto simp: sendSource_def take_seq_def sends_def split: prod.splits)

lemma sendRepair_sends: "sendRepair env c e p = (err, p') \<Longrightarrow> sends p err p'"
  by (auto simp: sendRepair_def take_seq_def put_datagram_def untake_def sends_def Let_def split: option.splits prod.splits send_result.splits if_splits)

lemma send_repairs_sends: "send_repairs env c e n p = (err, p') \<Longrightarrow> sends p err p'"
proof (induction n arbitrary: p)
  case (Suc n)
  obtain er p1 where s: "sendRepair env c e p = (er, p1)" by (cases "sendRepair env c e p")
  have "sends p er p1" by (rule sendRepair_sends [OF s])
  then show ?case using Suc.IH [of "p1\<lparr>pt_burstRepairs := pt_burstRepairs p1 + 1\<rparr>"] Suc.prems s by (auto simp: sends_def Let_def split: if_splits)
qed (simp add: sends_def)

lemma emit_sends: "emit env pl i c p = (err, p') \<Longrightarrow> sends p err p'"
proof -
  assume e: "emit env pl i c p = (err, p')"
  obtain cap n where k: "env_code env (pt_emits p) = (cap, n)" by (cases "env_code env (pt_emits p)")
  obtain esi en where a: "AddOwned (SetCapacity (the_encoder p) cap) (symbol_vector pl i c) = (esi, en)" by (cases "AddOwned (SetCapacity (the_encoder p) cap) (symbol_vector pl i c)")
  let ?p1 = "p\<lparr>pt_emits := Suc (pt_emits p), pt_encoder := Some en\<rparr>"
  obtain er p2 where s: "sendSource env (symbol_vector pl i c) esi ?p1 = (er, p2)" by (cases "sendSource env (symbol_vector pl i c) esi ?p1")
  have p2: "sends p er p2" using sendSource_sends [OF s] by (simp add: sends_def)
  define p4 where "p4 = (if Suc (pt_burstSymbols p2) \<ge> enc_Capacity en then p2\<lparr>pt_burstSymbols := 0, pt_burstRepairs := 0\<rparr>
      else p2\<lparr>pt_burstSymbols := Suc (pt_burstSymbols p2)\<rparr>)"
  have p4: "sends p2 False p4" by (simp add: p4_def sends_def)
  have "emit env pl i c p = (if er then (True, p2) else send_repairs env 0 en n p4)"
    using k a s by (simp add: emit_def the_encoder_def [symmetric] p4_def Let_def)
  then have "err = er \<and> p' = p2 \<or> send_repairs env 0 en n p4 = (err, p')" using e by (auto split: if_splits)
  moreover have "sends p err p'" if "send_repairs env 0 en n p4 = (err, p')"
    using sends_trans [OF p2 sends_trans [OF p4 send_repairs_sends [OF that]]] .
  ultimately show ?thesis using p2 by blast
qed

lemma fragments_sends: "fragment_loop env f l c is p = (err, p') \<Longrightarrow> sends p err p'"
proof (induction "is" arbitrary: p)
  case (Cons i "is")
  let ?e = "emit env (take (min ((i + 1) * l) (length f) - i * l) (drop (i * l) f)) i c p"
  obtain er p1 where e: "?e = (er, p1)" by (cases ?e)
  then show ?case using Cons emit_sends [OF e] sends_trans by (auto simp: Let_def split: if_splits)
qed (simp add: sends_def)

text \<open>What a call of the loop does to the callbacks: it accounts for \<open>ds\<close> more.\<close>

definition settles :: "coded_send \<Rightarrow> bool \<Rightarrow> coded_send \<Rightarrow> nat list \<Rightarrow> bool" where
  "settles p err p' ds \<longleftrightarrow> called_or_packed p' = called_or_packed p @ ds \<and> pt_cfg p' = pt_cfg p \<and> (err \<longrightarrow> pt_failed p')"

lemma flush_settles: "flushPacked env p = (err, p') \<Longrightarrow> settles p err p' [] \<and> (err \<or> pt_packed p' = []) \<and> (pt_packed p = [] \<and> p' = p \<or> pt_packedDone p' = [])"
proof (cases "pt_packed p = []")
  case False
  obtain er p1 where e: "emit env (pt_packed p) 0 1 p = (er, p1)" by (cases "emit env (pt_packed p) 0 1 p")
  assume "flushPacked env p = (err, p')"
  then show ?thesis using False e emit_sends [OF e] by (auto simp: flushPacked_def settles_def called_or_packed_def sends_def)
qed (auto simp: flushPacked_def settles_def)

lemma protect_settles: "protectBurst env p = (err, p') \<Longrightarrow> settles p err p' []"
  using send_repairs_sends by (auto simp: protectBurst_def settles_def called_or_packed_def sends_def Let_def split: if_splits option.splits prod.splits)

lemma protect_dones: "protectBurst env p = (err, p') \<Longrightarrow> pt_packedDone p' = pt_packedDone p"
  using send_repairs_sends by (auto simp: protectBurst_def sends_def Let_def split: if_splits option.splits prod.splits)

lemma fragments_fit: "16 < limit \<Longrightarrow> length frame \<le> maxFrameBytes \<Longrightarrow> (length frame + limit - 1) div limit \<le> maxFragments"
proof -
  assume "16 < limit" "length frame \<le> maxFrameBytes"
  then have "length frame + limit - 1 < 65536 * limit" by (simp add: maxFrameBytes_def)
  from less_mult_imp_div_less [OF this] show ?thesis by (simp add: maxFragments_def)
qed

lemma append_settles:
  assumes a: "appendFrame env lim (ob_frame f) (ob_done f) p = (err, p')" and l: "16 < symbolPayload (pt_cfg p) lim" "length (ob_frame f) \<le> maxFrameBytes"
    and e: "pt_packed p = [] \<longrightarrow> pt_packedDone p = []"
  shows "settles p err p' (callDone (ob_done f)) \<and> (pt_packed p' = [] \<longrightarrow> pt_packedDone p' = [])"
proof -
  define limit where "limit = symbolPayload (pt_cfg p) lim"
  let ?n = "length (ob_frame f)"
  obtain er p1 where fl: "flushPacked env p = (er, p1)" by (cases "flushPacked env p")
  have s1: "settles p er p1 []" "pt_packedDone p1 = []" using flush_settles [OF fl] e by auto
  have fin: "settles p er' (call_done (ob_done f) q) (callDone (ob_done f))" "pt_packedDone (call_done (ob_done f) q) = []"
    if "settles p er' q []" "pt_packedDone q = []" for q er' using that by (simp_all add: settles_def called_or_packed_def call_done_def)
  have pack: ?thesis if "settles p False q []" "err = False"
      "p' = q\<lparr>pt_packed := pt_packed q @ put_be 4 (word_of_nat ?n :: u32) @ ob_frame f, pt_packedDone := pt_packedDone q @ [ob_done f]\<rparr>" for q
    using that by (simp add: settles_def called_or_packed_def flip: length_0_conv)
  show ?thesis
  proof (cases "frameHeader + ?n > limit")
    case True
    obtain e2 p2 where s: "sendFragments env (ob_frame f) limit p1 = (e2, p2)" by (cases "sendFragments env (ob_frame f) limit p1")
    have "sends p1 e2 p2" using s fragments_fit [of limit "ob_frame f"] l fragments_sends by (auto simp: sendFragments_def limit_def Let_def split: if_splits)
    then have s2: "settles p e2 p2 []" "pt_packedDone p2 = []" using s1 by (simp_all add: sends_def settles_def called_or_packed_def)
    have "er \<and> err \<and> p' = call_done (ob_done f) p1 \<or> err = e2 \<and> p' = call_done (ob_done f) p2"
      using a True fl s by (auto simp: appendFrame_def limit_def Let_def split: if_splits)
    then show ?thesis using fin [OF s1] fin [OF s2] by auto
  next
    case False
    then have "er \<and> err \<and> p' = call_done (ob_done f) p1 \<or> \<not> er \<and> err = False \<and> (p' = p1\<lparr>pt_packed := pt_packed p1 @ put_be 4 (word_of_nat ?n :: u32) @ ob_frame f, pt_packedDone := pt_packedDone p1 @ [ob_done f]\<rparr>) \<or>
        err = False \<and> p' = p\<lparr>pt_packed := pt_packed p @ put_be 4 (word_of_nat ?n :: u32) @ ob_frame f, pt_packedDone := pt_packedDone p @ [ob_done f]\<rparr>"
      using a fl by (auto simp: appendFrame_def limit_def Let_def split: if_splits)
    moreover have "settles p False p []" by (simp add: settles_def)
    ultimately show ?thesis using fin [OF s1] pack [of p1] pack [of p] s1(1) by auto
  qed
qed

definition loop_inv :: "coded_config \<Rightarrow> path_loop \<Rightarrow> outboundFrame list \<Rightarrow> bool" where
  "loop_inv cfg s fs \<longleftrightarrow> ring_ok (lp_queue s) \<and> pt_cfg (lp_send s) = coded_withDefaults cfg \<and> (\<forall>f \<in> set (ring_items (lp_queue s)). length (ob_frame f) \<le> maxFrameBytes) \<and>
     (if lp_phase s = Ended then mset (pt_called (lp_send s)) = mset (dones fs) \<and> pq_closed (lp_queue s) \<and> ring_items (lp_queue s) = [] \<and> pt_packedDone (lp_send s) = []
      else called_or_packed (lp_send s) @ dones (ring_items (lp_queue s)) = dones fs \<and> (pt_packed (lp_send s) = [] \<longrightarrow> pt_packedDone (lp_send s) = []))"

lemma ring_close [simp]: "ring_ok (closePath q) = ring_ok q" "ring_items (closePath q) = ring_items q"
  by (simp_all add: closePath_def ring_ok_def ring_items_def)

lemma ring_taken:
  assumes "ring_ok q" "takePending q b = (Taken f, q')"
  shows "ring_ok q' \<and> ring_items q = f # ring_items q' \<and> pq_closed q' = pq_closed q"
proof -
  have "pq_len q \<noteq> 0" "popPendingLocked q = (f, q')" using assms(2) by (auto simp: takePending_def split: if_splits prod.splits)
  then show ?thesis using ring.pop_law [OF assms(1)] by (auto simp: ring_items_def popPendingLocked_def)
qed

lemma abandon_ring: "ring_ok q \<Longrightarrow> abandon_queue q = (ds, q') \<Longrightarrow> ds = dones (ring_items q) \<and> ring_ok q' \<and> ring_items q' = [] \<and> pq_closed q' = pq_closed q"
proof -
  assume a: "ring_ok q" "abandon_queue q = (ds, q')"
  have l: "length (foldl (\<lambda>ring i. ring[(pq_head q + i) mod length (pq_pending q) := no_frame]) xs is) = length xs" for xs "is"
    by (induction "is" arbitrary: xs) simp_all
  show ?thesis using a by (auto simp: abandon_queue_def dones_def ring_items_def ring_ok_def l comp_def Let_def)
qed

lemma abandon_inv:
  assumes "ring_ok (lp_queue s)" "pt_cfg (lp_send s) = coded_withDefaults cfg" "pq_closed (lp_queue s)" "called_or_packed (lp_send s) @ dones (ring_items (lp_queue s)) = dones fs"
  shows "loop_inv cfg (abandonPending s) fs"
proof -
  obtain ds q where a: "abandon_queue (lp_queue s) = (ds, q)" by (cases "abandon_queue (lp_queue s)")
  have "mset (dones fs) = mset (called_or_packed (lp_send s)) + mset (dones (ring_items (lp_queue s)))" by (metis assms(4) mset_append)
  then show ?thesis using abandon_ring [OF assms(1) a] assms(2,3) a by (simp add: abandonPending_def loop_inv_def abandon_packed_def called_or_packed_def Let_def)
qed

lemma loop_append_inv:
  assumes "ring_ok (lp_queue s)" "pt_cfg (lp_send s) = coded_withDefaults cfg" "\<forall>f \<in> set (ring_items (lp_queue s)). length (ob_frame f) \<le> maxFrameBytes"
    "length (ob_frame f) \<le> maxFrameBytes" "called_or_packed (lp_send s) @ dones (f # ring_items (lp_queue s)) = dones fs" "pt_packed (lp_send s) = [] \<longrightarrow> pt_packedDone (lp_send s) = []"
    "16 < symbolPayload (coded_withDefaults cfg) lim"
  shows "loop_inv cfg (loop_append env lim f s) fs"
proof -
  obtain err p where a: "appendFrame env lim (ob_frame f) (ob_done f) (lp_send s) = (err, p)" by (cases "appendFrame env lim (ob_frame f) (ob_done f) (lp_send s)")
  let ?s = "after_send s p"
  have st: "settles (lp_send s) err p (callDone (ob_done f))" "pt_packed p = [] \<longrightarrow> pt_packedDone p = []"
    using append_settles [OF a _ assms(4,6)] assms(2,7) by simp_all
  have q: "ring_ok (lp_queue ?s)" "ring_items (lp_queue ?s) = ring_items (lp_queue s)" "lp_send ?s = p" "err \<Longrightarrow> pq_closed (lp_queue ?s)"
    using assms(1) st(1) by (simp_all add: after_send_def settles_def closePath_def ring_ok_def ring_items_def)
  have d: "pt_cfg p = coded_withDefaults cfg" "called_or_packed p @ dones (ring_items (lp_queue ?s)) = dones fs" using st(1) assms(2,5) q(2) by (simp_all add: settles_def)
  show ?thesis
  proof (cases err)
    case True
    then show ?thesis using abandon_inv [of ?s cfg fs] q d a by (simp add: loop_append_def)
  next
    case False
    then show ?thesis using q d a st(2) assms(3) by (simp add: loop_append_def loop_inv_def)
  qed
qed

lemma loop_call_inv:
  assumes "ring_ok (lp_queue s)" "pt_cfg (lp_send s) = coded_withDefaults cfg" "called_or_packed (lp_send s) @ dones (ring_items (lp_queue s)) = dones fs" "settles (lp_send s) err p []"
  shows "ring_ok (lp_queue (after_send s p)) \<and> ring_items (lp_queue (after_send s p)) = ring_items (lp_queue s) \<and> lp_send (after_send s p) = p \<and> (err \<longrightarrow> pq_closed (lp_queue (after_send s p))) \<and>
    pt_cfg p = coded_withDefaults cfg \<and> called_or_packed p @ dones (ring_items (lp_queue s)) = dones fs"
  using assms by (simp add: after_send_def settles_def closePath_def ring_ok_def ring_items_def)

lemma loop_seal_inv:
  assumes "loop_inv cfg s fs" "lp_phase s \<noteq> Ended"
  shows "loop_inv cfg (loop_seal env s) fs"
proof -
  have i: "ring_ok (lp_queue s)" "pt_cfg (lp_send s) = coded_withDefaults cfg" "called_or_packed (lp_send s) @ dones (ring_items (lp_queue s)) = dones fs"
      "pt_packed (lp_send s) = [] \<longrightarrow> pt_packedDone (lp_send s) = []" "\<forall>f \<in> set (ring_items (lp_queue s)). length (ob_frame f) \<le> maxFrameBytes"
    using assms by (simp_all add: loop_inv_def)
  obtain err p where f: "flushPacked env (lp_send s) = (err, p)" by (cases "flushPacked env (lp_send s)")
  let ?s = "after_send s p"
  have fs: "settles (lp_send s) err p []" "pt_packedDone p = []" using flush_settles [OF f] i(4) by auto
  note c = loop_call_inv [OF i(1-3) fs(1)]
  show ?thesis
  proof (cases err)
    case True
    then show ?thesis using abandon_inv [of ?s cfg fs] c f by (simp add: loop_seal_def)
  next
    case False
    obtain err2 p2 where g: "protectBurst env p = (err2, p2)" by (cases "protectBurst env p")
    let ?t = "after_send ?s p2"
    have ps: "settles (lp_send ?s) err2 p2 []" "pt_packedDone p2 = []" using protect_settles [OF g] protect_dones [OF g] c fs(2) by simp_all
    note c2 = loop_call_inv [of ?s cfg fs err2 p2, OF _ _ _ ps(1)]
    show ?thesis
    proof (cases err2)
      case True
      then show ?thesis using abandon_inv [of ?t cfg fs] c c2 f g False by (simp add: loop_seal_def)
    next
      case no: False
      then show ?thesis using c c2 f g False i(5) ps(2) by (simp add: loop_seal_def loop_inv_def)
    qed
  qed
qed

lemma sendLoop_inv:
  assumes "loop_inv cfg s fs" "16 < symbolPayload (coded_withDefaults cfg) lim"
  shows "loop_inv cfg (sendLoop env lim s) fs"
proof (cases "lp_phase s = Ended")
  case True
  then show ?thesis using assms(1) by (simp add: sendLoop_def)
next
  case False
  have i: "ring_ok (lp_queue s)" "pt_cfg (lp_send s) = coded_withDefaults cfg" "called_or_packed (lp_send s) @ dones (ring_items (lp_queue s)) = dones fs"
      "pt_packed (lp_send s) = [] \<longrightarrow> pt_packedDone (lp_send s) = []" "\<forall>f \<in> set (ring_items (lp_queue s)). length (ob_frame f) \<le> maxFrameBytes"
    using assms False by (simp_all add: loop_inv_def)
  have taken: "loop_inv cfg (loop_append env lim f (s\<lparr>lp_queue := q\<rparr>)) fs" if "takePending (lp_queue s) b = (Taken f, q)" for b f q
    using ring_taken [OF i(1) that] i assms(2) by (intro loop_append_inv) simp_all
  obtain t q where tk: "takePending (lp_queue s) (lp_phase s = Waiting) = (t, q)" by (cases "takePending (lp_queue s) (lp_phase s = Waiting)")
  have closed: "pq_closed (lp_queue s)" if "t = TakeNone" "lp_phase s = Waiting" using tk that by (auto simp: takePending_def split: if_splits prod.splits)
  show ?thesis
  proof (cases "lp_phase s")
    case Waiting
    then show ?thesis using tk taken [of True] abandon_inv [OF i(1,2) closed i(3)] assms(1) by (auto simp: sendLoop_def split: pending_turn.split)
  next
    case Draining
    then show ?thesis using tk taken [of False] loop_seal_inv [OF assms(1) False] by (auto simp: sendLoop_def split: pending_turn.split)
  qed (use False in simp)
qed

lemma loop_run_inv:
  assumes "loop_run env cfg L s fs" "\<forall>lim \<in> L. 16 < symbolPayload (coded_withDefaults cfg) lim"
  shows "loop_inv cfg s fs"
  using assms(1)
proof (induction rule: loop_run.induct)
  case loop_begin
  have "0 < nat (cc_Pending (coded_withDefaults cfg))" by (simp add: coded_withDefaults_def Let_def)
  then show ?case by (simp add: loop_inv_def ring_ok_def ring_items_def new_pending_def new_send_def called_or_packed_def)
next
  case (loop_accept s fs f q)
  have q: "\<not> pq_closed (lp_queue s)" "pq_len (lp_queue s) \<noteq> length (pq_pending (lp_queue s))" "q = pushPendingLocked (lp_queue s) f" "length (ob_frame f) \<le> maxFrameBytes"
    using loop_accept(2) by (auto simp: SendOwnedTracked_def split: if_splits)
  have r: "ring_ok (lp_queue s)" "lp_phase s \<noteq> Ended" using loop_accept(3) q(1) by (auto simp: loop_inv_def split: if_splits)
  then have "pq_len (lp_queue s) < length (pq_pending (lp_queue s))" using q(2) by (simp add: ring_ok_def)
  from ring.push_law [OF r(1) this, of f] have "ring_ok q" "ring_items q = ring_items (lp_queue s) @ [f]" by (simp_all add: q(3))
  then show ?case using loop_accept(3) r(2) q(4) by (auto simp: loop_inv_def simp flip: append_assoc)
next
  case (loop_close s fs)
  then show ?case by (simp add: loop_inv_def) (simp add: closePath_def)
next
  case (loop_turn s fs lim)
  then show ?case using sendLoop_inv assms(2) by blast
qed

definition broken_env :: path_env where
  "broken_env = \<lparr>env_send = (\<lambda>_ _. Broken), env_code = (\<lambda>_. (16, 0)), env_tail = (\<lambda>_ _. 0)\<rparr>"


lemma emit_broken: "fst (emit broken_env pl i c p)"
proof -
  obtain e where "AddOwned (SetCapacity (the_encoder p) 16) (symbol_vector pl i c) = (we_next (the_encoder p), e)" by (auto simp: AddOwned_def Let_def)
  then show ?thesis by (simp add: emit_def the_encoder_def [symmetric] broken_env_def sendSource_def put_datagram_def take_seq_def Let_def)
qed

definition loop_cfg :: coded_config where
  "loop_cfg = \<lparr>cc_SymbolBytes = 41, cc_RoundTrip = 0, cc_Pending = 2\<rparr>"

definition tracked :: "nat \<Rightarrow> outboundFrame" where
  "tracked n = \<lparr>ob_frame = replicate 10 1, ob_done = Some n\<rparr>"

definition loop_start :: path_loop where
  "loop_start = \<lparr>lp_queue = new_pending 2, lp_send = new_send loop_cfg, lp_phase = Waiting\<rparr>"

definition queue_two :: path_loop where
  "queue_two = loop_start\<lparr>lp_queue := \<lparr>pq_pending = [tracked 7, tracked 8], pq_head = 0, pq_len = 2, pq_closed = False\<rparr>\<rparr>"

definition one_packed :: path_loop where
  "one_packed = \<lparr>lp_queue = \<lparr>pq_pending = [no_frame, tracked 8], pq_head = 1, pq_len = 1, pq_closed = False\<rparr>,
     lp_send = (new_send loop_cfg)\<lparr>pt_packed := put_be 4 (10 :: u32) @ replicate 10 1, pt_packedDone := [Some 7]\<rparr>, lp_phase = Draining\<rparr>"

lemma loop_payload: "symbolPayload (coded_withDefaults loop_cfg) None = 20"
  by (simp add: loop_cfg_def coded_withDefaults_def symbolPayload_def symbolBytes_def repairHeader_def symbolHeader_def frameHeader_def)

lemma new_two: "new_pending 2 = \<lparr>pq_pending = [no_frame, no_frame], pq_head = 0, pq_len = 0, pq_closed = False\<rparr>"
  by (simp add: new_pending_def numeral_2_eq_2)

lemma queue_two_run: "loop_run broken_env loop_cfg {None} queue_two [tracked 7, tracked 8]"
proof -
  have p: "nat (cc_Pending (coded_withDefaults loop_cfg)) = 2" by (simp add: loop_cfg_def coded_withDefaults_def)
  let ?s1 = "loop_start\<lparr>lp_queue := \<lparr>pq_pending = [tracked 7, no_frame], pq_head = 0, pq_len = 1, pq_closed = False\<rparr>\<rparr>"
  have "loop_run broken_env loop_cfg {None} loop_start []" using loop_begin [of broken_env loop_cfg "{None}"] by (simp add: p loop_start_def)
  then have "loop_run broken_env loop_cfg {None} ?s1 ([] @ [tracked 7])"
    by (rule loop_accept) (simp add: SendOwnedTracked_def pushPendingLocked_def loop_start_def new_two tracked_def maxFrameBytes_def)
  then have "loop_run broken_env loop_cfg {None} (?s1\<lparr>lp_queue := \<lparr>pq_pending = [tracked 7, tracked 8], pq_head = 0, pq_len = 2, pq_closed = False\<rparr>\<rparr>) (([] @ [tracked 7]) @ [tracked 8])"
    by (rule loop_accept) (simp add: SendOwnedTracked_def pushPendingLocked_def tracked_def maxFrameBytes_def)
  then show ?thesis by (simp add: queue_two_def)
qed

lemma one_packed_run: "loop_run broken_env loop_cfg {None} one_packed [tracked 7, tracked 8]"
proof -
  have p0: "symbolPayload (pt_cfg (new_send loop_cfg)) None = 20" using loop_payload by (simp add: new_send_def)
  have "appendFrame broken_env None (replicate 10 1) (Some 7) (new_send loop_cfg) =
      (False, (new_send loop_cfg)\<lparr>pt_packed := put_be 4 (10 :: u32) @ replicate 10 1, pt_packedDone := [Some 7]\<rparr>)"
    unfolding appendFrame_def p0 by (simp add: frameHeader_def new_send_def)
  then have "sendLoop broken_env None queue_two = one_packed"
    by (simp add: sendLoop_def queue_two_def loop_start_def takePending_def popPendingLocked_def loop_append_def after_send_def one_packed_def tracked_def new_send_def)
  then show ?thesis using loop_turn [OF queue_two_run, of None] by simp
qed

text \<open>Completion callbacks, in order. While the send loop runs, the callbacks run so far, then those of the frames
  packed and not yet sent, then those of the frames still queued, are the callbacks of the frames accepted,
  in the order they were accepted: no frame overtakes another, none is dropped and none is called twice.\<close>

theorem callbacks_in_order:
  assumes "loop_run env cfg L s fs" "\<forall>lim \<in> L. 16 < symbolPayload (coded_withDefaults cfg) lim" "lp_phase s \<noteq> Ended"
  shows "pt_called (lp_send s) @ concat (map callDone (pt_packedDone (lp_send s))) @ dones (ring_items (lp_queue s)) = dones fs"
  using loop_run_inv [OF assms(1,2)] assms(3) by (simp add: loop_inv_def called_or_packed_def)

theorem callbacks_in_order_witness:
  "pt_called (lp_send one_packed) @ concat (map callDone (pt_packedDone (lp_send one_packed))) @ dones (ring_items (lp_queue one_packed)) = [7, 8]"
proof -
  have "\<forall>lim \<in> {None}. 16 < symbolPayload (coded_withDefaults loop_cfg) lim" "lp_phase one_packed \<noteq> Ended" by (simp_all add: loop_payload one_packed_def)
  from callbacks_in_order [OF one_packed_run this] show ?thesis by (simp add: tracked_def callDone_def)
qed

lemma second_ends: "lp_phase (sendLoop broken_env None one_packed) = Ended"
proof -
  have p0: "symbolPayload (pt_cfg (lp_send one_packed)) None = 20" using loop_payload by (simp add: new_send_def one_packed_def)
  obtain er p1 where e: "emit broken_env (pt_packed (lp_send one_packed)) 0 1 (lp_send one_packed) = (er, p1)" by (cases "emit broken_env (pt_packed (lp_send one_packed)) 0 1 (lp_send one_packed)")
  then have "er" using emit_broken [of "pt_packed (lp_send one_packed)" 0 1 "lp_send one_packed"] by simp
  moreover have l: "length (pt_packed (lp_send one_packed)) = 14" by (simp add: one_packed_def)
  ultimately obtain p where f: "flushPacked broken_env (lp_send one_packed) = (True, p)" using e by (auto simp: flushPacked_def)
  have "appendFrame broken_env None (replicate 10 1) (Some 8) (lp_send one_packed) = (True, call_done (Some 8) p)"
    unfolding appendFrame_def p0 using l by (simp add: frameHeader_def f)
  then show ?thesis
    by (simp add: sendLoop_def one_packed_def takePending_def popPendingLocked_def loop_append_def after_send_def tracked_def abandonPending_def Let_def split: prod.split)
qed

text \<open>C20: completion callbacks, exactly once. When the send loop has ended, closed or with a carrier that failed in the
  middle of a frame, every frame ever accepted has had its callback run, and none has had it run twice.\<close>

theorem callbacks_exactly_once:
  assumes "loop_run env cfg L s fs" "\<forall>lim \<in> L. 16 < symbolPayload (coded_withDefaults cfg) lim" "lp_phase s = Ended"
  shows "mset (pt_called (lp_send s)) = mset (dones fs)"
  using loop_run_inv [OF assms(1,2)] assms(3) by (simp add: loop_inv_def)

theorem callbacks_exactly_once_witness: "mset (pt_called (lp_send (sendLoop broken_env None one_packed))) = {#7, 8#}"
proof -
  have "\<forall>lim \<in> {None}. 16 < symbolPayload (coded_withDefaults loop_cfg) lim" by (simp add: loop_payload)
  from callbacks_exactly_once [OF loop_turn [OF one_packed_run, of None] this second_ends] show ?thesis by (simp add: tracked_def callDone_def)
qed

text \<open>A path that accepts frames it will never send. A frame that needs more fragments than the count field holds ends
  the send loop with an error that does not close the path, so the path goes on accepting frames, and no turn
  of the loop will take them.\<close>

theorem oversized_frame_strands_path:
  assumes "lp_phase s = Waiting" "\<not> pq_closed (lp_queue s)" "ring_ok (lp_queue s)" "ring_items (lp_queue s) = [f]" "pt_packed (lp_send s) = []" "\<not> pt_failed (lp_send s)"
    "65535 * symbolPayload (pt_cfg (lp_send s)) lim < length (ob_frame f)" "0 < symbolPayload (pt_cfg (lp_send s)) lim" "length (ob_frame g) \<le> maxFrameBytes"
  shows "lp_phase (sendLoop env lim s) = Ended \<and> fst (SendOwnedTracked (lp_queue (sendLoop env lim s)) g) = SendQueued"
proof -
  let ?l = "symbolPayload (pt_cfg (lp_send s)) lim"
  have "pq_len (lp_queue s) \<noteq> 0" using assms(4) by (cases "pq_len (lp_queue s)") (simp_all add: ring_items_def)
  then obtain q where q: "takePending (lp_queue s) True = (Taken f, q)" "popPendingLocked (lp_queue s) = (f, q)"
    using ring.pop_law [OF assms(3)] assms(2,4) by (cases "popPendingLocked (lp_queue s)") (auto simp: takePending_def)
  have "65536 \<le> (length (ob_frame f) + ?l - 1) div ?l" using assms(7,8) by (subst less_eq_div_iff_mult_less_eq) simp_all
  then have "sendFragments env (ob_frame f) ?l (lp_send s) = (True, lp_send s)" by (simp add: sendFragments_def maxFragments_def Let_def)
  moreover have "frameHeader + length (ob_frame f) > ?l" using assms(7) by simp
  ultimately have "appendFrame env lim (ob_frame f) (ob_done f) (lp_send s) = (True, call_done (ob_done f) (lp_send s))"
    using assms(5) by (simp add: appendFrame_def flushPacked_def Let_def)
  then have l: "sendLoop env lim s = abandonPending (s\<lparr>lp_send := call_done (ob_done f) (lp_send s), lp_queue := q\<rparr>)"
    using assms(1,6) q(1) by (simp add: sendLoop_def loop_append_def after_send_def call_done_def)
  have r: "ring_ok q" "\<not> pq_closed q" using ring_taken [OF assms(3) q(1)] assms(2) by simp_all
  obtain ds q2 where a: "abandon_queue q = (ds, q2)" by (cases "abandon_queue q")
  have "ring_ok q2" "ring_items q2 = []" "\<not> pq_closed q2" using abandon_ring [OF r(1) a] r(2) by simp_all
  then have "0 < length (pq_pending q2)" "pq_len q2 = 0" by (auto simp: ring_ok_def ring_items_def)
  then show ?thesis using l a assms(9) \<open>\<not> pq_closed q2\<close> by (simp add: abandonPending_def SendOwnedTracked_def Let_def)
qed

theorem oversized_frame_strands_path_witness:
  "lp_phase (sendLoop clear_env None (loop_start\<lparr>lp_send := new_send (small_cfg\<lparr>cc_SymbolBytes := 26\<rparr>), lp_queue := pushPendingLocked (new_pending 2) \<lparr>ob_frame = replicate 400000 0, ob_done = None\<rparr>\<rparr>)) = Ended"
proof -
  let ?f = "\<lparr>ob_frame = replicate 400000 0, ob_done = None\<rparr>" and ?c = "small_cfg\<lparr>cc_SymbolBytes := 26\<rparr>"
  let ?s = "loop_start\<lparr>lp_send := new_send ?c, lp_queue := pushPendingLocked (new_pending 2) ?f\<rparr>"
  have l: "symbolPayload (pt_cfg (lp_send ?s)) None = 5"
    by (simp add: new_send_def small_cfg_def coded_withDefaults_def symbolPayload_def symbolBytes_def repairHeader_def symbolHeader_def frameHeader_def)
  have "lp_phase ?s = Waiting" "\<not> pq_closed (lp_queue ?s)" "ring_ok (lp_queue ?s)" "ring_items (lp_queue ?s) = [?f]" "pt_packed (lp_send ?s) = []" "\<not> pt_failed (lp_send ?s)"
    by (simp_all add: loop_start_def new_two pushPendingLocked_def ring_ok_def ring_items_def new_send_def)
  moreover have "65535 * symbolPayload (pt_cfg (lp_send ?s)) None < length (ob_frame ?f)" "0 < symbolPayload (pt_cfg (lp_send ?s)) None" unfolding l by simp_all
  ultimately show ?thesis using oversized_frame_strands_path [of ?s ?f None "tracked 1" clear_env] by (simp add: tracked_def maxFrameBytes_def)
qed

end
