(* ===== verification/Session.thy ===== *)
theory Session
  imports Frame
begin

text \<open>
  Flow metadata, \<^verbatim>\<open>internal/session\<close>: destinations and their canonical form, the payload of a PACKET frame,
  the payloads that open and resume a UDP association, reset payloads and session identifiers. A Go string
  is its bytes. The functions of the standard library the package calls are written out: \<^verbatim>\<open>strings.TrimSpace\<close>
  with the UTF-8 encodings of the Unicode spaces, \<^verbatim>\<open>net.SplitHostPort\<close>, \<^verbatim>\<open>net.JoinHostPort\<close>, \<^verbatim>\<open>strconv.Atoi\<close>
  and \<^verbatim>\<open>strconv.Itoa\<close>.
\<close>

section \<open>Strings\<close>

text \<open>The encodings of the runes for which \<^verbatim>\<open>unicode.IsSpace\<close> holds.\<close>

definition space_codes :: "bytes list" where
  "space_codes = [[9], [10], [11], [12], [13], [32], [0xC2, 0x85], [0xC2, 0xA0], [0xE1, 0x9A, 0x80],
     [0xE2, 0x80, 0x80], [0xE2, 0x80, 0x81], [0xE2, 0x80, 0x82], [0xE2, 0x80, 0x83], [0xE2, 0x80, 0x84], [0xE2, 0x80, 0x85],
     [0xE2, 0x80, 0x86], [0xE2, 0x80, 0x87], [0xE2, 0x80, 0x88], [0xE2, 0x80, 0x89], [0xE2, 0x80, 0x8A],
     [0xE2, 0x80, 0xA8], [0xE2, 0x80, 0xA9], [0xE2, 0x80, 0xAF], [0xE2, 0x81, 0x9F], [0xE3, 0x80, 0x80]]"

function strip :: "bytes list \<Rightarrow> bytes \<Rightarrow> bytes" where
  "strip codes s =
     (case find (\<lambda>c. c \<noteq> [] \<and> take (length c) s = c) codes of
        None \<Rightarrow> s
      | Some c \<Rightarrow> strip codes (drop (length c) s))"
  by pat_completeness auto
termination
proof (relation "measure (\<lambda>(codes, s). length s)")
  fix codes :: "bytes list" and s c :: bytes
  assume "find (\<lambda>c. c \<noteq> [] \<and> take (length c) s = c) codes = Some c"
  then have "c \<noteq> [] \<and> take (length c) s = c" by (auto simp: find_Some_iff)
  then have "0 < length c" "s \<noteq> []" by auto
  then show "((codes, drop (length c) s), codes, s) \<in> measure (\<lambda>(codes, s). length s)" by simp
qed simp

declare strip.simps [simp del]

lemma strip_if:
  "strip codes s = (if find (\<lambda>c. c \<noteq> [] \<and> take (length c) s = c) codes = None then s
     else strip codes (drop (length (the (find (\<lambda>c. c \<noteq> [] \<and> take (length c) s = c) codes))) s))"
  by (subst strip.simps) (auto split: option.split)

definition TrimSpace :: "bytes \<Rightarrow> bytes" where
  "TrimSpace s = rev (strip (map rev space_codes) (rev (strip space_codes s)))"

primrec IndexByte :: "byte \<Rightarrow> bytes \<Rightarrow> nat option" where
  "IndexByte b [] = None"
| "IndexByte b (x # xs) = (if x = b then Some 0 else map_option Suc (IndexByte b xs))"

definition LastIndexByte :: "byte \<Rightarrow> bytes \<Rightarrow> nat option" where
  "LastIndexByte b s = map_option (\<lambda>i. length s - 1 - i) (IndexByte b (rev s))"

abbreviation colon :: byte where "colon \<equiv> 58"
abbreviation lbracket :: byte where "lbracket \<equiv> 91"
abbreviation rbracket :: byte where "rbracket \<equiv> 93"

definition SplitHostPort :: "bytes \<Rightarrow> (bytes \<times> bytes) option" where
  "SplitHostPort hostport =
     (case LastIndexByte colon hostport of
        None \<Rightarrow> None
      | Some i \<Rightarrow>
          let finish = (\<lambda>host j k.
                if lbracket \<in> set (drop j hostport) \<or> rbracket \<in> set (drop k hostport) then None
                else Some (host, drop (i + 1) hostport))
          in if hostport ! 0 = lbracket then
               (case IndexByte rbracket hostport of
                  None \<Rightarrow> None
                | Some j \<Rightarrow> if j + 1 = length hostport then None
                           else if j + 1 = i then finish (take (j - 1) (drop 1 hostport)) 1 (j + 1)
                           else None)
             else let host = take i hostport in if colon \<in> set host then None else finish host 0 0)"

definition JoinHostPort :: "bytes \<Rightarrow> bytes \<Rightarrow> bytes" where
  "JoinHostPort host port =
     (if colon \<in> set host then lbracket # host @ [rbracket, colon] @ port else host @ [colon] @ port)"

definition is_digit :: "byte \<Rightarrow> bool" where
  "is_digit b \<longleftrightarrow> 48 \<le> unat b \<and> unat b \<le> 57"

definition decimal :: "bytes \<Rightarrow> nat" where
  "decimal ds = foldl (\<lambda>a d. a * 10 + (unat d - 48)) 0 ds"

text \<open>\<^verbatim>\<open>Atoi\<close> takes an optional sign and digits, and fails outside the range of a 64-bit integer.\<close>

definition Atoi :: "bytes \<Rightarrow> int option" where
  "Atoi s =
     (let neg = (s \<noteq> [] \<and> s ! 0 = 45);
          ds = (if s \<noteq> [] \<and> (s ! 0 = 43 \<or> s ! 0 = 45) then drop 1 s else s);
          v = (if neg then - int (decimal ds) else int (decimal ds))
      in if ds = [] \<or> list_ex (\<lambda>d. \<not> is_digit d) ds then None
         else if v < - (2 ^ 63) \<or> 2 ^ 63 \<le> v then None
         else Some v)"

fun digits :: "nat \<Rightarrow> bytes" where
  "digits n = (if n < 10 then [word_of_nat (48 + n)] else digits (n div 10) @ [word_of_nat (48 + n mod 10)])"

declare digits.simps [simp del]

definition Itoa :: "int \<Rightarrow> bytes" where
  "Itoa v = (if v < 0 then 45 # digits (nat (- v)) else digits (nat v))"

section \<open>Destinations\<close>

datatype session_error =
    DestinationEmptyOrLong | DestinationNotHostPort | DestinationHostCharacters | DestinationPort
  | DestinationPayloadLength | InvalidDestination session_error
  | UDPPayloadExceeds | UDPPacketExceeds | UDPPacketTruncated | UDPDestinationLength
  | InvalidUDPDestination session_error | UDPPayloadLength | UDPSourceAddress
  | ResumeTokenLength nat | SessionIdRandom

definition maxDestinationLength :: nat where "maxDestinationLength = 255"

definition host_character :: "byte \<Rightarrow> bool" where
  "host_character b \<longleftrightarrow> \<not> (unat b \<le> 32 \<or> b = 0x7f)"

definition EncodeDestination :: "bytes \<Rightarrow> session_error + bytes" where
  "EncodeDestination destination0 =
     (let destination = TrimSpace destination0 in
      if length destination = 0 \<or> length destination > maxDestinationLength then Inl DestinationEmptyOrLong
      else (case SplitHostPort destination of
              None \<Rightarrow> Inl DestinationNotHostPort
            | Some (host, port) \<Rightarrow>
                if host = [] then Inl DestinationNotHostPort
                else if list_ex (\<lambda>b. \<not> host_character b) host then Inl DestinationHostCharacters
                else (case Atoi port of
                        None \<Rightarrow> Inl DestinationPort
                      | Some p \<Rightarrow> if p < 1 \<or> p > 65535 then Inl DestinationPort else Inr (JoinHostPort host (Itoa p)))))"

definition DecodeDestination :: "bytes \<Rightarrow> session_error + bytes" where
  "DecodeDestination payload =
     (if length payload = 0 \<or> length payload > maxDestinationLength then Inl DestinationPayloadLength
      else (case EncodeDestination payload of Inl err \<Rightarrow> Inl (InvalidDestination err) | Inr canonical \<Rightarrow> Inr canonical))"

section \<open>UDP packets and associations\<close>

definition UDPAssociationMarker :: bytes where "UDPAssociationMarker = [87, 79, 85, 68, 1]"

definition packetDestinationLength :: nat where "packetDestinationLength = 2"
definition packetHeaderLength :: nat where "packetHeaderLength = packetDestinationLength"
definition maxUDPPayload :: nat where "maxUDPPayload = 65507"

definition MaxPacketPayload :: nat where
  "MaxPacketPayload = packetDestinationLength + maxDestinationLength + maxUDPPayload"

definition IsUDPAssociation :: "bytes \<Rightarrow> bool" where
  "IsUDPAssociation payload \<longleftrightarrow> payload = UDPAssociationMarker"

definition EncodeUDPPacket :: "bytes \<Rightarrow> bytes \<Rightarrow> session_error + bytes" where
  "EncodeUDPPacket destination payload =
     (case EncodeDestination destination of
        Inl err \<Rightarrow> Inl err
      | Inr destinationBytes \<Rightarrow>
          if length payload > maxUDPPayload then Inl UDPPayloadExceeds
          else if length destinationBytes > 65535 \<or>
            length destinationBytes + packetHeaderLength + length payload > maxUDPPayload + maxDestinationLength + packetHeaderLength
          then Inl UDPPacketExceeds
          else Inr (put_be 2 (word_of_nat (length destinationBytes) :: u16) @ destinationBytes @ payload))"

definition DecodeUDPPacket :: "bytes \<Rightarrow> session_error + (bytes \<times> bytes)" where
  "DecodeUDPPacket payload =
     (if length payload < packetHeaderLength + 1 then Inl UDPPacketTruncated
      else
        let destinationLength = unat (get_be (take packetDestinationLength payload) :: u16) in
        if destinationLength = 0 \<or> destinationLength > maxDestinationLength \<or> packetHeaderLength + destinationLength > length payload
        then Inl UDPDestinationLength
        else (case DecodeDestination (take destinationLength (drop packetHeaderLength payload)) of
                Inl err \<Rightarrow> Inl (InvalidUDPDestination err)
              | Inr destination \<Rightarrow>
                  let packet = drop (packetHeaderLength + destinationLength) payload in
                  if length packet > maxUDPPayload then Inl UDPPayloadLength else Inr (destination, packet)))"

record UDPAddr =
  ua_IP :: "bytes option"
  ua_Port :: int

text \<open>\<open>ipString\<close> is \<^verbatim>\<open>net.IP.String\<close>.\<close>

definition DestinationFromUDPAddr :: "(bytes \<Rightarrow> bytes) \<Rightarrow> UDPAddr option \<Rightarrow> session_error + bytes" where
  "DestinationFromUDPAddr ipString addr =
     (case addr of
        None \<Rightarrow> Inl UDPSourceAddress
      | Some a \<Rightarrow>
          if ua_Port a < 1 \<or> ua_Port a > 65535 then Inl UDPSourceAddress
          else (case ua_IP a of None \<Rightarrow> Inl UDPSourceAddress | Some ip \<Rightarrow> Inr (JoinHostPort (ipString ip) (Itoa (ua_Port a)))))"

definition UDPResumeMarker :: bytes where "UDPResumeMarker = [87, 79, 85, 68, 2]"

definition UDPResumeTokenSize :: nat where "UDPResumeTokenSize = 16"

definition EncodeUDPResumeOpen :: "bytes \<Rightarrow> session_error + bytes" where
  "EncodeUDPResumeOpen token =
     (if length token \<noteq> 0 \<and> length token \<noteq> UDPResumeTokenSize then Inl (ResumeTokenLength (length token))
      else Inr (UDPResumeMarker @ token))"

text \<open>\<open>None\<close> is a payload that opens no resumable association; a nil token is empty.\<close>

definition DecodeUDPResumeOpen :: "bytes \<Rightarrow> bytes option" where
  "DecodeUDPResumeOpen payload =
     (if length payload < length UDPResumeMarker \<or> take (length UDPResumeMarker) payload \<noteq> UDPResumeMarker then None
      else let rest = drop (length UDPResumeMarker) payload in
        if length rest = 0 then Some [] else if length rest = UDPResumeTokenSize then Some rest else None)"

definition EncodeUDPResumeGrant :: "bool \<Rightarrow> bytes \<Rightarrow> bytes" where
  "EncodeUDPResumeGrant resumed token = (if resumed then 1 else 0) # token"

definition DecodeUDPResumeGrant :: "bytes \<Rightarrow> (bool \<times> bytes) option" where
  "DecodeUDPResumeGrant payload =
     (if length payload \<noteq> 1 + UDPResumeTokenSize \<or> payload ! 0 > 1 then None else Some (payload ! 0 = 1, drop 1 payload))"

section \<open>Session identifiers and resets\<close>

text \<open>\<open>random\<close> is what \<^verbatim>\<open>rand.Read\<close> left in the sixteen bytes, \<open>None\<close> its failure.\<close>

definition NewSessionID :: "bytes option \<Rightarrow> session_error + bytes" where
  "NewSessionID random = (case random of None \<Rightarrow> Inl SessionIdRandom | Some bs \<Rightarrow> Inr bs)"

definition IsZeroSessionID :: "bytes \<Rightarrow> bool" where
  "IsZeroSessionID sid \<longleftrightarrow> sid = replicate 16 0"

datatype ResetCode = ResetProtocol | ResetAuthentication | ResetDestination | ResetFlowLimit | ResetTransport

primrec reset_code_byte :: "ResetCode \<Rightarrow> byte" where
  "reset_code_byte ResetProtocol = 1"
| "reset_code_byte ResetAuthentication = 2"
| "reset_code_byte ResetDestination = 3"
| "reset_code_byte ResetFlowLimit = 4"
| "reset_code_byte ResetTransport = 5"

definition ResetPayload :: "ResetCode \<Rightarrow> bytes \<Rightarrow> bytes" where
  "ResetPayload code message = reset_code_byte code # take 256 message"

section \<open>Decimal numbers\<close>

lemma digit_byte: "n < 10 \<Longrightarrow> unat (word_of_nat (48 + n) :: byte) = 48 + n"
  by (simp only: unat_of_nat) simp

lemma decimal_snoc: "decimal (ds @ [d]) = decimal ds * 10 + (unat d - 48)"
  by (simp add: decimal_def)

lemma digits_props:
  "decimal (digits n) = n \<and> digits n \<noteq> [] \<and> list_all is_digit (digits n) \<and> (0 < n \<longrightarrow> 10 ^ (length (digits n) - 1) \<le> n)"
proof (induction n rule: digits.induct)
  case (1 n)
  show ?case
  proof (cases "n < 10")
    case True
    then show ?thesis by (simp add: digits.simps [of n] decimal_def is_digit_def digit_byte del: of_nat_add)
  next
    case False
    define q where "q = n div 10"
    have q: "0 < q" "n = q * 10 + n mod 10" "n mod 10 < 10" using False by (auto simp: q_def)
    have ih: "decimal (digits q) = q" "digits q \<noteq> []" "list_all is_digit (digits q)" "10 ^ (length (digits q) - 1) \<le> q"
      using "1.IH" [OF False] q(1) by (simp_all add: q_def)
    have e: "digits n = digits q @ [word_of_nat (48 + n mod 10)]" using False by (simp add: digits.simps [of n] q_def)
    have "10 ^ length (digits q) \<le> q * 10" using ih(2,4) by (cases "length (digits q)") auto
    then have "10 ^ (length (digits n) - 1) \<le> n" using q(2) by (simp add: e)
    moreover have "is_digit (word_of_nat (48 + n mod 10))" using digit_byte [OF q(3)] q(3) by (simp add: is_digit_def del: of_nat_add)
    moreover have "decimal (digits n) = n" using ih(1) q(2) digit_byte [OF q(3)] by (simp add: e decimal_snoc del: of_nat_add)
    ultimately show ?thesis using ih(3) by (simp add: e)
  qed
qed

lemma decimal_bound: "list_all is_digit ds \<Longrightarrow> decimal ds < 10 ^ length ds"
proof (induction ds rule: rev_induct)
  case (snoc d ds)
  then show ?case by (auto simp: decimal_snoc is_digit_def)
qed (simp add: decimal_def)

lemma digit_not: "is_digit d \<Longrightarrow> d \<noteq> colon \<and> d \<noteq> lbracket \<and> d \<noteq> rbracket \<and> d \<noteq> 43 \<and> d \<noteq> 45"
  by (auto simp: is_digit_def)

lemma Atoi_Itoa:
  assumes "1 \<le> p" "p \<le> 65535"
  shows "Atoi (Itoa p) = Some p" "list_all is_digit (Itoa p)" "Itoa p \<noteq> []"
proof -
  note d = digits_props [of "nat p"]
  have i: "Itoa p = digits (nat p)" using assms by (simp add: Itoa_def)
  show "list_all is_digit (Itoa p)" "Itoa p \<noteq> []" using d i by simp_all
  then have "is_digit (Itoa p ! 0)" by (simp add: list_all_length)
  then have h: "Itoa p ! 0 \<noteq> 43" "Itoa p ! 0 \<noteq> 45" using digit_not by blast+
  have "\<not> list_ex (\<lambda>d. \<not> is_digit d) (Itoa p)" using d i by (simp add: list_all_iff list_ex_iff)
  then show "Atoi (Itoa p) = Some p" using h d i assms by (simp add: Atoi_def Let_def)
qed

lemma Itoa_length:
  assumes "Atoi s = Some p" "1 \<le> p"
  shows "length (Itoa p) \<le> length s"
proof -
  obtain ds where ds: "length ds \<le> length s" "\<not> list_ex (\<lambda>d. \<not> is_digit d) ds" "p = int (decimal ds)"
    using assms by (cases "s \<noteq> [] \<and> (s ! 0 = 43 \<or> s ! 0 = 45)")
      (auto simp: Atoi_def Let_def split: if_splits intro: that [of "drop 1 s"] that [of s])
  then have "nat p < 10 ^ length ds" using decimal_bound [of ds] by (simp add: list_all_iff list_ex_iff)
  moreover have "10 ^ (length (digits (nat p)) - 1) \<le> nat p" using digits_props [of "nat p"] assms(2) by simp
  ultimately have "(10 :: nat) ^ (length (digits (nat p)) - 1) < 10 ^ length ds" by (rule le_less_trans [rotated])
  then have "length (digits (nat p)) - 1 < length ds" by (rule power_less_imp_less_exp [rotated]) simp
  then show ?thesis using ds(1) assms(2) by (simp add: Itoa_def)
qed

section \<open>Canonical destinations\<close>

lemma IndexByte_None: "IndexByte b s = None \<longleftrightarrow> b \<notin> set s"
  by (induction s) auto

lemma IndexByte_append: "b \<notin> set xs \<Longrightarrow> IndexByte b (xs @ b # ys) = Some (length xs)"
  by (induction xs) auto

lemma IndexByte_Some: "IndexByte b s = Some i \<Longrightarrow> i < length s \<and> s ! i = b \<and> b \<notin> set (take i s)"
  by (induction s arbitrary: i) (auto split: if_splits)

lemma LastIndexByte_append: "b \<notin> set ys \<Longrightarrow> LastIndexByte b (xs @ b # ys) = Some (length xs)"
  using IndexByte_append [of b "rev ys" "rev xs"] by (simp add: LastIndexByte_def)

lemma LastIndexByte_Some:
  assumes "LastIndexByte b s = Some i"
  shows "i < length s \<and> s = take i s @ b # drop (Suc i) s \<and> b \<notin> set (drop (Suc i) s)"
proof -
  obtain k where k: "IndexByte b (rev s) = Some k" "i = length s - 1 - k" using assms by (auto simp: LastIndexByte_def)
  note f = IndexByte_Some [OF k(1)]
  have i: "i < length s" using f k(2) by auto
  moreover have "s ! i = b" using f k(2) rev_nth [of k s] by auto
  moreover have "drop (Suc i) s = rev (take k (rev s))" using f k(2) by (simp add: rev_take Suc_diff_Suc)
  ultimately show ?thesis using f id_take_nth_drop [OF i] by simp
qed

lemma split_facts:
  assumes "SplitHostPort s = Some (host, port)"
  shows "lbracket \<notin> set host \<and> rbracket \<notin> set host \<and> length host + 1 + length port \<le> length s \<and>
    (colon \<in> set host \<longrightarrow> length host + 3 + length port \<le> length s)"
proof -
  obtain i where i: "LastIndexByte colon s = Some i" using assms by (auto simp: SplitHostPort_def split: option.splits)
  note li = LastIndexByte_Some [OF i]
  show ?thesis
  proof (cases "s ! 0 = lbracket")
    case True
    then obtain j where j: "IndexByte rbracket s = Some j" "j + 1 = i" "host = take (j - 1) (drop 1 s)" "port = drop (i + 1) s"
        "lbracket \<notin> set (drop 1 s)"
      using assms i by (auto simp: SplitHostPort_def Let_def split: option.splits if_splits)
    note ij = IndexByte_Some [OF j(1)]
    have "j \<noteq> 0" using True ij by (cases j) auto
    then have "host = drop 1 (take j s)" using j(3) by (simp add: drop_take)
    then have "rbracket \<notin> set host" using ij in_set_dropD by metis
    moreover have "lbracket \<notin> set host" using j(3,5) in_set_takeD by metis
    moreover have "length host + 3 + length port \<le> length s" using ij li j \<open>j \<noteq> 0\<close> by simp
    ultimately show ?thesis by simp
  next
    case False
    then have h: "host = take i s" "port = drop (i + 1) s" "colon \<notin> set host" "lbracket \<notin> set s" "rbracket \<notin> set s"
      using assms i by (auto simp: SplitHostPort_def Let_def split: if_splits)
    then show ?thesis using li in_set_takeD [of _ i s] by auto
  qed
qed

lemma split_join:
  assumes "host \<noteq> []" "lbracket \<notin> set host" "rbracket \<notin> set host" "colon \<notin> set port" "lbracket \<notin> set port" "rbracket \<notin> set port"
  shows "SplitHostPort (JoinHostPort host port) = Some (host, port)"
proof (cases "colon \<in> set host")
  case True
  let ?s = "lbracket # host @ [rbracket, colon] @ port"
  have "LastIndexByte colon ?s = Some (length host + 2)" using LastIndexByte_append [OF assms(4), of "lbracket # host @ [rbracket]"] by simp
  moreover have "IndexByte rbracket ?s = Some (length host + 1)" using IndexByte_append [of rbracket "lbracket # host" "colon # port"] assms(3) by simp
  ultimately show ?thesis using True assms by (simp add: JoinHostPort_def SplitHostPort_def Let_def)
next
  case False
  have "LastIndexByte colon (host @ [colon] @ port) = Some (length host)" using LastIndexByte_append [OF assms(4), of host] by simp
  moreover have "(host @ [colon] @ port) ! 0 \<noteq> lbracket" using assms(1,2) by (cases host) auto
  ultimately show ?thesis using False assms by (simp add: JoinHostPort_def SplitHostPort_def Let_def)
qed

lemma encode_parts:
  assumes "EncodeDestination d = Inr c"
  obtains host p where "c = JoinHostPort host (Itoa p)" "1 \<le> p" "p \<le> 65535" "host \<noteq> []" "\<not> list_ex (\<lambda>b. \<not> host_character b) host"
    "lbracket \<notin> set host" "rbracket \<notin> set host" "length c \<le> 255" "c \<noteq> []"
proof -
  obtain host port p where p: "SplitHostPort (TrimSpace d) = Some (host, port)" "Atoi port = Some p" "1 \<le> p" "p \<le> 65535" "host \<noteq> []"
      "\<not> list_ex (\<lambda>b. \<not> host_character b) host" "c = JoinHostPort host (Itoa p)" "length (TrimSpace d) \<le> 255"
    using assms by (auto simp: EncodeDestination_def Let_def maxDestinationLength_def split: if_splits option.splits)
  note f = split_facts [OF p(1)] and l = Itoa_length [OF p(2,3)]
  have "length c \<le> length (TrimSpace d)" using f l by (auto simp: p(7) JoinHostPort_def)
  moreover have "c \<noteq> []" by (simp add: p(7) JoinHostPort_def)
  ultimately show thesis using that p f by auto
qed

text \<open>A canonical form that \<^verbatim>\<open>TrimSpace\<close> leaves alone is a fixed point.\<close>

lemma canonical_fixed:
  assumes "EncodeDestination d = Inr c" "TrimSpace c = c"
  shows "EncodeDestination c = Inr c" "DecodeDestination c = Inr c"
proof -
  obtain host p where h: "c = JoinHostPort host (Itoa p)" "1 \<le> p" "p \<le> 65535" "host \<noteq> []" "\<not> list_ex (\<lambda>b. \<not> host_character b) host"
    "lbracket \<notin> set host" "rbracket \<notin> set host" "length c \<le> 255" "c \<noteq> []" by (rule encode_parts [OF assms(1)])
  note a = Atoi_Itoa [OF h(2,3)]
  have "colon \<notin> set (Itoa p)" "lbracket \<notin> set (Itoa p)" "rbracket \<notin> set (Itoa p)" using a(2) digit_not by (auto simp: list_all_iff)
  from split_join [OF h(4,6,7) this] show e: "EncodeDestination c = Inr c"
    using h a assms(2) by (simp add: EncodeDestination_def maxDestinationLength_def Let_def)
  then show "DecodeDestination c = Inr c" using h(8,9) by (simp add: DecodeDestination_def maxDestinationLength_def)
qed

section \<open>Properties\<close>

text \<open>A UDP packet survives its encoding. What \<open>EncodeUDPPacket\<close> produces is decoded to the canonical destination and
  the payload, it is no longer than the largest legal PACKET payload, which fits in a frame, and the
  canonical destination is a fixed point of \<open>EncodeDestination\<close> and \<open>DecodeDestination\<close>; this holds as long as the
  canonical form does not begin or end in a Unicode space.\<close>

theorem udp_packet_roundtrip:
  assumes "EncodeUDPPacket d payload = Inr out" "EncodeDestination d = Inr c" "TrimSpace c = c"
  shows "DecodeUDPPacket out = Inr (c, payload) \<and> EncodeDestination c = Inr c \<and> length out \<le> MaxPacketPayload \<and> MaxPacketPayload \<le> MaxPayload"
proof -
  note k = canonical_fixed [OF assms(2,3)]
  have l: "length c \<le> 255" "c \<noteq> []" using encode_parts [OF assms(2)] by metis+
  have o: "out = put_be 2 (word_of_nat (length c) :: u16) @ c @ payload" "length payload \<le> 65507"
    using assms(1,2) by (auto simp: EncodeUDPPacket_def maxUDPPayload_def split: if_splits)
  have t: "take 2 out = put_be 2 (word_of_nat (length c) :: u16)" "drop 2 out = c @ payload" by (simp_all add: o(1) del: put_be.simps)
  have "get_be (take 2 out) = (word_of_nat (length c) :: u16)" unfolding t(1) by (rule get_put_be) simp
  then have n: "unat (get_be (take 2 out) :: u16) = length c" using l(1) by (simp add: unat_of_nat)
  have "drop (2 + length c) out = payload" using t(2) by (metis append_eq_conv_conj drop_drop add.commute)
  moreover have "length out = 2 + length c + length payload" by (simp add: o(1))
  ultimately show ?thesis using n t(2) k l o(2)
    by (simp add: DecodeUDPPacket_def packetHeaderLength_def packetDestinationLength_def maxDestinationLength_def maxUDPPayload_def
      MaxPacketPayload_def MaxPayload_def Let_def)
qed

lemmas split_defs = SplitHostPort_def LastIndexByte_def JoinHostPort_def Let_def

theorem udp_packet_roundtrip_witness:
  "DecodeUDPPacket [0, 3, 97, 58, 49, 7, 8] = Inr ([97, 58, 49], [7, 8])"
proof -
  have t: "TrimSpace [97, 58, 49] = [97, 58, 49]" by (simp add: TrimSpace_def strip_if space_codes_def)
  have e: "EncodeDestination [97, 58, 49] = Inr [97, 58, 49]"
    by (simp add: EncodeDestination_def t split_defs maxDestinationLength_def host_character_def Atoi_def is_digit_def decimal_def Itoa_def digits.simps)
  have p: "put_be 2 (3 :: u16) = [0, 3]" unfolding numeral_2_eq_2 put_be.simps by simp
  have "EncodeUDPPacket [97, 58, 49] [7, 8] = Inr [0, 3, 97, 58, 49, 7, 8]"
    by (simp add: EncodeUDPPacket_def e p maxUDPPayload_def maxDestinationLength_def packetHeaderLength_def packetDestinationLength_def)
  from udp_packet_roundtrip [OF this e t] show ?thesis by simp
qed

text \<open>\<open>EncodeDestination\<close> is not idempotent. A bracketed host that is a no-break space is accepted, and the
  canonical form produced for it is refused by the same function, because \<^verbatim>\<open>TrimSpace\<close> removes Unicode spaces
  and the check on the host looks for ASCII ones; with a letter after the space the second application
  names a different host. A packet so encoded is refused by its own decoder.\<close>

theorem destination_not_idempotent:
  "EncodeDestination [91, 0xC2, 0xA0, 93, 58, 49] = Inr [0xC2, 0xA0, 58, 49] \<and>
   EncodeDestination [0xC2, 0xA0, 58, 49] = Inl DestinationNotHostPort \<and>
   EncodeDestination [91, 0xC2, 0xA0, 97, 93, 58, 49] = Inr [0xC2, 0xA0, 97, 58, 49] \<and>
   EncodeDestination [0xC2, 0xA0, 97, 58, 49] = Inr [97, 58, 49]"
proof -
  have t: "TrimSpace [91, 0xC2, 0xA0, 93, 58, 49] = [91, 0xC2, 0xA0, 93, 58, 49]" "TrimSpace [0xC2, 0xA0, 58, 49] = [58, 49]"
    "TrimSpace [91, 0xC2, 0xA0, 97, 93, 58, 49] = [91, 0xC2, 0xA0, 97, 93, 58, 49]" "TrimSpace [0xC2, 0xA0, 97, 58, 49] = [97, 58, 49]"
    by (simp_all add: TrimSpace_def strip_if space_codes_def)
  show ?thesis
    by (simp add: EncodeDestination_def t split_defs maxDestinationLength_def host_character_def Atoi_def is_digit_def decimal_def Itoa_def digits.simps)
qed

lemma strip_keeps:
  assumes "\<forall>c \<in> set codes. z \<notin> set c"
  shows "\<exists>ys'. strip codes (ys @ z # zs) = ys' @ z # zs"
proof (induction "length ys" arbitrary: ys rule: less_induct)
  case less
  show ?case
  proof (cases "find (\<lambda>c. c \<noteq> [] \<and> take (length c) (ys @ z # zs) = c) codes")
    case None
    then show ?thesis by (subst strip.simps) auto
  next
    case (Some c)
    then have c: "c \<in> set codes" "c \<noteq> []" "take (length c) (ys @ z # zs) = c" by (auto simp: find_Some_iff)
    have le: "length c \<le> length ys"
    proof (rule ccontr)
      assume "\<not> length c \<le> length ys"
      then have "z \<in> set (take (length c) (ys @ z # zs))" by (cases "length c - length ys") auto
      then have "z \<in> set c" unfolding c(3) .
      then show False using c(1) assms by auto
    qed
    then have "\<exists>ys'. strip codes (drop (length c) ys @ z # zs) = ys' @ z # zs" using c(2) by (intro less) (cases ys, auto)
    then show ?thesis using Some le by (subst strip.simps) simp
  qed
qed

lemma trim_marker:
  assumes "\<forall>c \<in> set space_codes. a \<notin> set c \<and> z \<notin> set c"
  shows "\<exists>rest. TrimSpace (a # xs @ z # ys) = a # xs @ z # rest"
proof -
  have "find (\<lambda>c. c \<noteq> [] \<and> take (length c) (a # xs @ z # ys) = c) space_codes = None"
    using assms by (auto simp: find_None_iff dest!: bspec) (metis list.set_intros(1) take_Cons' length_0_conv)
  then have "strip space_codes (a # xs @ z # ys) = a # xs @ z # ys" by (subst strip.simps) simp
  moreover have "\<exists>ys'. strip (map rev space_codes) (rev ys @ z # rev (a # xs)) = ys' @ z # rev (a # xs)"
    by (rule strip_keeps) (use assms in auto)
  ultimately show ?thesis by (auto simp: TrimSpace_def) (metis rev.simps(2) rev_append rev_rev_ident append.assoc append_Cons append_Nil)
qed

text \<open>A string with a control character after a first byte that is no bracket, and no colon before it, is no destination.\<close>

lemma marker_no_destination:
  assumes "a \<noteq> lbracket" "colon \<notin> set (a # xs @ [z])" "\<not> host_character z" "\<forall>c \<in> set space_codes. a \<notin> set c \<and> z \<notin> set c"
  shows "isl (EncodeDestination (a # xs @ z # ys))"
proof -
  obtain rest where t: "TrimSpace (a # xs @ z # ys) = a # xs @ z # rest" using trim_marker [OF assms(4)] by blast
  have "list_ex (\<lambda>b. \<not> host_character b) host" if sp: "SplitHostPort (a # xs @ z # rest) = Some (host, port)" for host port
  proof -
    obtain i where i: "LastIndexByte colon (a # xs @ z # rest) = Some i" "host = take i (a # xs @ z # rest)"
      using sp assms(1) by (auto simp: SplitHostPort_def Let_def split: option.splits if_splits)
    note li = LastIndexByte_Some [OF i(1)]
    have "(a # xs @ z # rest) ! i = colon" using li by (metis nth_append_length length_take min.absorb2 less_imp_le)
    then have "length xs + 1 < i" using assms(2)
      by (cases "i < length (a # xs @ [z])") (auto simp: nth_append nth_Cons split: nat.splits if_splits dest: nth_mem)
    then have "z \<in> set host" by (simp add: i(2) take_Cons' take_append)
    then show ?thesis using assms(3) by (auto simp: list_ex_iff)
  qed
  then show ?thesis by (auto simp: EncodeDestination_def t Let_def split: option.split prod.split)
qed

text \<open>The payloads that open and answer a resumable association decode to what was encoded, and no payload is
  taken for both kinds of association: a resumable open, whatever its token, is neither the plain marker nor
  a destination.\<close>

theorem resume_roundtrip:
  assumes "EncodeUDPResumeOpen token = Inr out" "length grant = UDPResumeTokenSize"
  shows "DecodeUDPResumeOpen out = Some token \<and> \<not> IsUDPAssociation out \<and> isl (EncodeDestination out) \<and>
    DecodeUDPResumeGrant (EncodeUDPResumeGrant resumed grant) = Some (resumed, grant)"
  using assms marker_no_destination [of 87 "[79, 85, 68]" 2 token]
  by (auto simp: space_codes_def host_character_def EncodeUDPResumeOpen_def DecodeUDPResumeOpen_def UDPResumeMarker_def UDPAssociationMarker_def IsUDPAssociation_def
    DecodeUDPResumeGrant_def EncodeUDPResumeGrant_def UDPResumeTokenSize_def split: if_splits)

theorem resume_roundtrip_witness:
  "DecodeUDPResumeOpen (UDPResumeMarker @ replicate 16 3) = Some (replicate 16 3)"
  using resume_roundtrip [of "replicate 16 3" "UDPResumeMarker @ replicate 16 3" "replicate 16 4"]
  by (simp add: EncodeUDPResumeOpen_def UDPResumeTokenSize_def)

end
