(* ===== verification/FlowSched.thy ===== *)
theory FlowSched
  imports Frame
begin

text \<open>
  Admission of frames to a provider path, \<^verbatim>\<open>internal/pep/flowscheduler.go\<close>: one scheduler per path with a
  queue of urgent and a queue of bulk requests, a bound on the grants outstanding and on those of one
  flow, and the set of schedulers by path. Grants and per-flow states are shared through pointers, so both
  live in a store of the scheduler and are named by numbers; a flow's state survives in the store after
  the map forgets it. The critical sections of a mutex are the operations; the clock is an argument. A
  second \<^verbatim>\<open>close\<close> of a grant's channel would panic and sets \<open>fs_panic\<close>.
\<close>

section \<open>Configuration\<close>

definition defaultFlowStartupBytes :: int where "defaultFlowStartupBytes = 512 * 1024"

datatype grant_error = errFlowSchedulingClosed | Canceled

record flowSchedulerConfig =
  startupBytes :: int
  perFlow :: int
  maxActive :: int
  interactiveBurst :: int
  bulkAge :: int

definition defaultFlowSchedulerConfig :: flowSchedulerConfig where
  "defaultFlowSchedulerConfig =
     \<lparr>startupBytes = defaultFlowStartupBytes, perFlow = 2, maxActive = 8, interactiveBurst = 3, bulkAge = 250000000\<rparr>"

definition withDefaults :: "flowSchedulerConfig \<Rightarrow> flowSchedulerConfig" where
  "withDefaults c0 =
     (let defaults = defaultFlowSchedulerConfig;
          c1 = (if startupBytes c0 \<le> 0 then c0\<lparr>startupBytes := startupBytes defaults\<rparr> else c0);
          c2 = (if perFlow c1 \<le> 0 then c1\<lparr>perFlow := perFlow defaults\<rparr> else c1);
          c3 = (if maxActive c2 \<le> 0 then c2\<lparr>maxActive := maxActive defaults\<rparr> else c2);
          c4 = (if interactiveBurst c3 \<le> 0 then c3\<lparr>interactiveBurst := interactiveBurst defaults\<rparr> else c3)
      in if bulkAge c4 \<le> 0 then c4\<lparr>bulkAge := bulkAge defaults\<rparr> else c4)"

section \<open>One path\<close>

record flowGrant =
  fg_flowID :: u64
  fg_bytes :: int
  fg_high :: bool
  fg_queued :: int
  fg_ready :: bool
  fg_granted :: bool
  fg_done :: "grant_error option"
  fg_state :: nat

record flowScheduleState =
  ss_active :: int
  ss_pending :: int
  ss_startupAssigned :: int
  ss_grants :: "nat list"

record flowScheduler =
  fs_cfg :: flowSchedulerConfig
  fs_states :: "u64 \<rightharpoonup> nat"
  fs_high :: "nat list"
  fs_bulk :: "nat list"
  fs_active :: int
  fs_highRun :: int
  fs_lastFlow :: u64
  fs_grants :: "nat \<Rightarrow> flowGrant"
  fs_sstates :: "nat \<Rightarrow> flowScheduleState"
  fs_next :: nat
  fs_nextState :: nat
  fs_panic :: bool

definition no_grant :: flowGrant where
  "no_grant = \<lparr>fg_flowID = 0, fg_bytes = 0, fg_high = False, fg_queued = 0, fg_ready = False, fg_granted = False, fg_done = None, fg_state = 0\<rparr>"

definition new_state :: flowScheduleState where
  "new_state = \<lparr>ss_active = 0, ss_pending = 0, ss_startupAssigned = 0, ss_grants = []\<rparr>"

definition newFlowScheduler :: "flowSchedulerConfig \<Rightarrow> flowScheduler" where
  "newFlowScheduler cfg = \<lparr>fs_cfg = withDefaults cfg, fs_states = Map.empty, fs_high = [], fs_bulk = [], fs_active = 0, fs_highRun = 0,
     fs_lastFlow = 0, fs_grants = (\<lambda>_. no_grant), fs_sstates = (\<lambda>_. new_state), fs_next = 0, fs_nextState = 0, fs_panic = False\<rparr>"

abbreviation upd_grant :: "nat \<Rightarrow> (flowGrant \<Rightarrow> flowGrant) \<Rightarrow> flowScheduler \<Rightarrow> flowScheduler" where
  "upd_grant g f s \<equiv> s\<lparr>fs_grants := (fs_grants s)(g := f (fs_grants s g))\<rparr>"

abbreviation upd_state :: "nat \<Rightarrow> (flowScheduleState \<Rightarrow> flowScheduleState) \<Rightarrow> flowScheduler \<Rightarrow> flowScheduler" where
  "upd_state p f s \<equiv> s\<lparr>fs_sstates := (fs_sstates s)(p := f (fs_sstates s p))\<rparr>"

definition close_ready :: "nat \<Rightarrow> flowScheduler \<Rightarrow> flowScheduler" where
  "close_ready g s = (if fg_ready (fs_grants s g) then s\<lparr>fs_panic := True\<rparr> else upd_grant g (fg_ready_update (\<lambda>_. True)) s)"

text \<open>The scan of \<open>takeEligibleLocked\<close>: the first grant of another flow, or the first at all.\<close>

definition skips :: "flowScheduler \<Rightarrow> nat \<Rightarrow> bool" where
  "skips s g \<longleftrightarrow> fg_done (fs_grants s g) \<noteq> None \<or> ss_active (fs_sstates s (fg_state (fs_grants s g))) \<ge> perFlow (fs_cfg s)"

fun take_scan_eligible :: "flowScheduler \<Rightarrow> nat \<Rightarrow> nat option \<Rightarrow> nat list \<Rightarrow> nat option" where
  "take_scan_eligible s i fallback [] = fallback"
| "take_scan_eligible s i fallback (g # gs) =
     (if skips s g then take_scan_eligible s (Suc i) fallback gs
      else
        let fallback = (if fallback = None then Some i else fallback) in
        if fg_flowID (fs_grants s g) \<noteq> fs_lastFlow s then Some i else take_scan_eligible s (Suc i) fallback gs)"

definition takeEligibleLocked :: "flowScheduler \<Rightarrow> nat list \<Rightarrow> nat option \<times> nat list" where
  "takeEligibleLocked s queue =
     (case take_scan_eligible s 0 None queue of
        None \<Rightarrow> (None, queue)
      | Some selected \<Rightarrow> (Some (queue ! selected), remove_at selected queue))"

text \<open>One pass of the loop of \<open>dispatchLocked\<close>: the choice, and the grant.\<close>

definition chooseBulk :: "int \<Rightarrow> flowScheduler \<Rightarrow> bool" where
  "chooseBulk now s \<longleftrightarrow> 0 < length (fs_bulk s) \<and>
     (length (fs_high s) = 0 \<or> fs_highRun s \<ge> interactiveBurst (fs_cfg s) \<or>
      now - fg_queued (fs_grants s (fs_bulk s ! 0)) \<ge> bulkAge (fs_cfg s))"

definition pick_bulk :: "flowScheduler \<Rightarrow> nat option \<times> flowScheduler" where
  "pick_bulk s =
     (case takeEligibleLocked s (fs_bulk s) of
        (None, bulk) \<Rightarrow> (None, s\<lparr>fs_bulk := bulk\<rparr>)
      | (Some g, bulk) \<Rightarrow> (Some g, s\<lparr>fs_bulk := bulk, fs_highRun := 0\<rparr>))"

definition pick_high :: "flowScheduler \<Rightarrow> nat option \<times> flowScheduler" where
  "pick_high s =
     (case takeEligibleLocked s (fs_high s) of
        (None, high) \<Rightarrow> (None, s\<lparr>fs_high := high\<rparr>)
      | (Some g, high) \<Rightarrow> (Some g, s\<lparr>fs_high := high, fs_highRun := fs_highRun s + 1\<rparr>))"

definition dispatch_pick :: "int \<Rightarrow> flowScheduler \<Rightarrow> nat option \<times> flowScheduler" where
  "dispatch_pick now s =
     (let (g1, s1) = (if chooseBulk now s then pick_bulk s else (None, s));
          (g2, s2) = (if g1 = None \<and> 0 < length (fs_high s1) then pick_high s1 else (g1, s1))
      in if g2 = None \<and> 0 < length (fs_bulk s2) then pick_bulk s2 else (g2, s2))"

definition dispatch_grant :: "nat \<Rightarrow> flowScheduler \<Rightarrow> flowScheduler" where
  "dispatch_grant g s =
     (let p = fg_state (fs_grants s g);
          s1 = upd_grant g (fg_granted_update (\<lambda>_. True)) s;
          s2 = upd_state p (\<lambda>st. st\<lparr>ss_pending := ss_pending st - 1, ss_active := ss_active st + 1, ss_grants := List.insert g (ss_grants st)\<rparr>) s1;
          s3 = s2\<lparr>fs_active := fs_active s2 + 1, fs_lastFlow := fg_flowID (fs_grants s2 g)\<rparr>
      in close_ready g s3)"

lemma dispatch_measure: "fs_active (dispatch_grant g s) = fs_active s + 1" "fs_cfg (dispatch_grant g s) = fs_cfg s"
  by (simp_all add: dispatch_grant_def close_ready_def Let_def)

lemma pick_queue_fields [simp]:
  "fs_active (snd (pick_bulk s)) = fs_active s" "fs_cfg (snd (pick_bulk s)) = fs_cfg s"
  "fs_active (snd (pick_high s)) = fs_active s" "fs_cfg (snd (pick_high s)) = fs_cfg s"
  by (auto simp: pick_bulk_def pick_high_def split: prod.splits option.splits)

lemma pick_fields: "fs_active (snd (dispatch_pick now s)) = fs_active s" "fs_cfg (snd (dispatch_pick now s)) = fs_cfg s"
  by (simp_all add: dispatch_pick_def Let_def split_beta)

lemma pick_some: "dispatch_pick now s = (x, s1) \<Longrightarrow> fs_active s1 = fs_active s \<and> fs_cfg s1 = fs_cfg s"
  using pick_fields [of now s] by simp

function dispatchLocked :: "int \<Rightarrow> flowScheduler \<Rightarrow> flowScheduler" where
  "dispatchLocked now s =
     (if fs_active s < maxActive (fs_cfg s) then
        (case dispatch_pick now s of
           (None, s1) \<Rightarrow> s1
         | (Some g, s1) \<Rightarrow> dispatchLocked now (dispatch_grant g s1))
      else s)"
  by pat_completeness auto
termination
  by (relation "measure (\<lambda>(now, s). nat (maxActive (fs_cfg s) - fs_active s))") (auto simp: dispatch_measure dest: pick_some pick_some [OF sym])

declare dispatchLocked.simps [simp del]

text \<open>Each operation is what it does to the queues and counters, followed by \<open>dispatchLocked\<close>.\<close>

definition request_queued :: "u64 \<Rightarrow> byte \<Rightarrow> int \<Rightarrow> int \<Rightarrow> flowScheduler \<Rightarrow> nat \<times> flowScheduler" where
  "request_queued flowID class n now s =
     (let (p, s1) = (case fs_states s flowID of
            Some p \<Rightarrow> (p, s)
          | None \<Rightarrow> (fs_nextState s, s\<lparr>fs_nextState := Suc (fs_nextState s), fs_sstates := (fs_sstates s)(fs_nextState s := new_state),
                         fs_states := (fs_states s)(flowID \<mapsto> fs_nextState s)\<rparr>));
          urgent = (class = ClassNew \<or> class = ClassInteractive);
          start = (\<not> urgent \<and> ss_startupAssigned (fs_sstates s1 p) < startupBytes (fs_cfg s1));
          s2 = (if start then upd_state p (\<lambda>st. st\<lparr>ss_startupAssigned := ss_startupAssigned st + n\<rparr>) s1 else s1);
          high = (urgent \<or> start);
          g = fs_next s2;
          s3 = s2\<lparr>fs_next := Suc g, fs_grants := (fs_grants s2)(g := \<lparr>fg_flowID = flowID, fg_bytes = n, fg_high = high, fg_queued = now,
                 fg_ready = False, fg_granted = False, fg_done = None, fg_state = p\<rparr>)\<rparr>;
          s4 = upd_state p (\<lambda>st. st\<lparr>ss_pending := ss_pending st + 1\<rparr>) s3;
          s5 = (if high then s4\<lparr>fs_high := fs_high s4 @ [g]\<rparr> else s4\<lparr>fs_bulk := fs_bulk s4 @ [g]\<rparr>)
      in (g, s5))"

definition request :: "u64 \<Rightarrow> byte \<Rightarrow> int \<Rightarrow> int \<Rightarrow> flowScheduler \<Rightarrow> nat \<times> flowScheduler" where
  "request flowID class n now s = (let (g, s1) = request_queued flowID class n now s in (g, dispatchLocked now s1))"

definition emptyLocked :: "flowScheduler \<Rightarrow> bool" where
  "emptyLocked s \<longleftrightarrow> fs_active s = 0 \<and> length (fs_high s) = 0 \<and> length (fs_bulk s) = 0 \<and> fs_states s = Map.empty"

text \<open>The end of a granted request, shared by \<open>release\<close> and \<open>cancel\<close>.\<close>

definition return_grant :: "nat \<Rightarrow> flowScheduler \<Rightarrow> flowScheduler" where
  "return_grant g s =
     (let p = fg_state (fs_grants s g)
      in (upd_state p (\<lambda>st. st\<lparr>ss_active := ss_active st - 1, ss_grants := List.remove1 g (ss_grants st)\<rparr>) s)\<lparr>fs_active := fs_active s - 1\<rparr>)"

definition release_returned :: "nat \<Rightarrow> flowScheduler \<Rightarrow> flowScheduler" where
  "release_returned g s =
     (let s1 = upd_grant g (fg_done_update (\<lambda>_. Some errFlowSchedulingClosed)) s
      in if fg_granted (fs_grants s1 g) then return_grant g s1 else s1)"

definition fs_release :: "nat option \<Rightarrow> int \<Rightarrow> flowScheduler \<Rightarrow> bool \<times> flowScheduler" where
  "fs_release grant now s =
     (case grant of
        None \<Rightarrow> (emptyLocked s, s)
      | Some g \<Rightarrow>
          if fg_done (fs_grants s g) \<noteq> None then (emptyLocked s, s)
          else
            let s1 = dispatchLocked now (release_returned g s) in (emptyLocked s1, s1))"

fun removeFlowGrant :: "nat list \<Rightarrow> nat \<Rightarrow> nat list" where
  "removeFlowGrant [] target = []"
| "removeFlowGrant (g # gs) target = (if g \<noteq> target then g # removeFlowGrant gs target else gs)"

definition cancel_returned :: "nat \<Rightarrow> flowScheduler \<Rightarrow> flowScheduler" where
  "cancel_returned g s =
     (let s1 = upd_grant g (fg_done_update (\<lambda>_. Some Canceled)) s;
          p = fg_state (fs_grants s1 g)
      in if fg_granted (fs_grants s1 g) then return_grant g s1
         else (upd_state p (\<lambda>st. st\<lparr>ss_pending := ss_pending st - 1\<rparr>) s1)
                \<lparr>fs_high := removeFlowGrant (fs_high s1) g, fs_bulk := removeFlowGrant (fs_bulk s1) g\<rparr>)"

definition fs_cancel :: "nat option \<Rightarrow> int \<Rightarrow> flowScheduler \<Rightarrow> bool \<times> flowScheduler" where
  "fs_cancel grant now s =
     (case grant of
        None \<Rightarrow> (emptyLocked s, s)
      | Some g \<Rightarrow>
          if fg_done (fs_grants s g) \<noteq> None then (emptyLocked s, s)
          else
            let s1 = dispatchLocked now (cancel_returned g s) in (emptyLocked s1, s1))"

text \<open>\<open>closePending\<close> on one queue, and the loop over the flow's grants.\<close>

fun closePending :: "u64 \<Rightarrow> nat \<Rightarrow> nat list \<Rightarrow> flowScheduler \<Rightarrow> nat list \<times> flowScheduler" where
  "closePending flowID p [] s = ([], s)"
| "closePending flowID p (g # gs) s =
     (if fg_flowID (fs_grants s g) \<noteq> flowID \<or> fg_done (fs_grants s g) \<noteq> None
      then (let (kept, s1) = closePending flowID p gs s in (g # kept, s1))
      else
        let s1 = upd_grant g (fg_done_update (\<lambda>_. Some errFlowSchedulingClosed)) s;
            s2 = upd_state p (\<lambda>st. st\<lparr>ss_pending := ss_pending st - 1\<rparr>) s1
        in closePending flowID p gs (close_ready g s2))"

fun close_granted :: "nat \<Rightarrow> nat list \<Rightarrow> flowScheduler \<Rightarrow> flowScheduler" where
  "close_granted p [] s = s"
| "close_granted p (g # gs) s =
     (let s1 = (if fg_done (fs_grants s g) = None
                then (upd_state p (\<lambda>st. st\<lparr>ss_active := ss_active st - 1\<rparr>) (upd_grant g (fg_done_update (\<lambda>_. Some errFlowSchedulingClosed)) s))
                       \<lparr>fs_active := fs_active s - 1\<rparr>
                else s)
      in close_granted p gs (upd_state p (\<lambda>st. st\<lparr>ss_grants := List.remove1 g (ss_grants st)\<rparr>) s1))"

definition closeFlow_returned :: "u64 \<Rightarrow> nat \<Rightarrow> flowScheduler \<Rightarrow> flowScheduler" where
  "closeFlow_returned flowID p s =
     (let (high, s1) = closePending flowID p (fs_high s) s;
          s2 = s1\<lparr>fs_high := high\<rparr>;
          (bulk, s3) = closePending flowID p (fs_bulk s2) s2;
          s4 = s3\<lparr>fs_bulk := bulk\<rparr>;
          s5 = close_granted p (ss_grants (fs_sstates s4 p)) s4
      in s5\<lparr>fs_states := (fs_states s5)(flowID := None)\<rparr>)"

definition fs_closeFlow :: "u64 \<Rightarrow> int \<Rightarrow> flowScheduler \<Rightarrow> bool \<times> flowScheduler" where
  "fs_closeFlow flowID now s =
     (case fs_states s flowID of
        None \<Rightarrow> (emptyLocked s, s)
      | Some p \<Rightarrow> let s1 = dispatchLocked now (closeFlow_returned flowID p s) in (emptyLocked s1, s1))"

section \<open>The schedulers of all paths\<close>

record flowSchedulerSet =
  fss_cfg :: flowSchedulerConfig
  fss_paths :: "bytes \<rightharpoonup> nat"
  fss_scheds :: "nat \<Rightarrow> flowScheduler"
  fss_next :: nat

definition newFlowSchedulerSet :: "int \<Rightarrow> flowSchedulerSet" where
  "newFlowSchedulerSet n =
     (let cfg = defaultFlowSchedulerConfig;
          cfg = (if n > 0 then cfg\<lparr>startupBytes := n\<rparr> else cfg)
      in \<lparr>fss_cfg = cfg, fss_paths = Map.empty, fss_scheds = (\<lambda>_. newFlowScheduler cfg), fss_next = 0\<rparr>)"

definition removeIfEmpty :: "bytes \<Rightarrow> nat \<Rightarrow> flowSchedulerSet \<Rightarrow> flowSchedulerSet" where
  "removeIfEmpty path q S =
     (if fss_paths S path = Some q \<and> emptyLocked (fss_scheds S q) then S\<lparr>fss_paths := (fss_paths S)(path := None)\<rparr> else S)"

text \<open>
  \<open>acquire\<close> up to the unlocking of the set: \<open>None\<close> is the nil closure with no error; otherwise the error, or the
  scheduler and the grant to wait for. \<open>stop\<close> tells whether the stop channel is closed.
\<close>

definition acquire_locked :: "bool \<Rightarrow> bytes \<Rightarrow> u64 \<Rightarrow> byte \<Rightarrow> int \<Rightarrow> int \<Rightarrow> flowSchedulerSet \<Rightarrow>
    (grant_error + nat \<times> nat) option \<times> flowSchedulerSet" where
  "acquire_locked stop path flowID class n now S =
     (if path = [] \<or> n \<le> 0 then (None, S)
      else if stop then (Some (Inl errFlowSchedulingClosed), S)
      else
        let (q, S1) = (case fss_paths S path of
              Some q \<Rightarrow> (q, S)
            | None \<Rightarrow> (fss_next S, S\<lparr>fss_next := Suc (fss_next S), fss_scheds := (fss_scheds S)(fss_next S := newFlowScheduler (fss_cfg S)),
                          fss_paths := (fss_paths S)(path \<mapsto> fss_next S)\<rparr>));
            (g, s) = request flowID class n now (fss_scheds S1 q)
        in (Some (Inr (q, g)), S1\<lparr>fss_scheds := (fss_scheds S1)(q := s)\<rparr>))"

definition cancel_in :: "bytes \<Rightarrow> nat \<Rightarrow> nat \<Rightarrow> int \<Rightarrow> flowSchedulerSet \<Rightarrow> flowSchedulerSet" where
  "cancel_in path q g now S =
     (let (e, s) = fs_cancel (Some g) now (fss_scheds S q); S1 = S\<lparr>fss_scheds := (fss_scheds S)(q := s)\<rparr>
      in if e then removeIfEmpty path q S1 else S1)"

text \<open>What the wait of \<open>acquire\<close> ends with, and what it then does; \<open>None\<close> is success.\<close>

datatype wake = WakeReady | WakeContext | WakeStop

definition acquire_wake :: "wake \<Rightarrow> bool \<Rightarrow> bytes \<Rightarrow> nat \<Rightarrow> nat \<Rightarrow> int \<Rightarrow> flowSchedulerSet \<Rightarrow> grant_error option \<times> flowSchedulerSet" where
  "acquire_wake w stop path q g now S =
     (case w of
        WakeReady \<Rightarrow>
          if stop then (Some errFlowSchedulingClosed, cancel_in path q g now S)
          else (case fg_done (fs_grants (fss_scheds S q) g) of
                  Some err \<Rightarrow> (Some err, if emptyLocked (fss_scheds S q) then removeIfEmpty path q S else S)
                | None \<Rightarrow> (None, S))
      | WakeContext \<Rightarrow> (Some Canceled, cancel_in path q g now S)
      | WakeStop \<Rightarrow> (Some errFlowSchedulingClosed, cancel_in path q g now S))"

text \<open>The closure \<open>acquire\<close> returns, run once.\<close>

definition release_in :: "bytes \<Rightarrow> nat \<Rightarrow> nat \<Rightarrow> int \<Rightarrow> flowSchedulerSet \<Rightarrow> flowSchedulerSet" where
  "release_in path q g now S =
     (let (e, s) = fs_release (Some g) now (fss_scheds S q); S1 = S\<lparr>fss_scheds := (fss_scheds S)(q := s)\<rparr>
      in if e then removeIfEmpty path q S1 else S1)"

text \<open>\<open>closeFlow\<close> over the snapshot of the paths, in the order the map is ranged over.\<close>

fun close_paths :: "u64 \<Rightarrow> int \<Rightarrow> (bytes \<times> nat) list \<Rightarrow> flowSchedulerSet \<Rightarrow> flowSchedulerSet" where
  "close_paths flowID now [] S = S"
| "close_paths flowID now ((path, q) # rest) S =
     (let (e, s) = fs_closeFlow flowID now (fss_scheds S q); S1 = S\<lparr>fss_scheds := (fss_scheds S)(q := s)\<rparr>
      in close_paths flowID now rest (if e then removeIfEmpty path q S1 else S1))"

end
