(* ===== verification/FlowSchedInv.thy ===== *)
theory FlowSchedInv
  imports FlowSched "HOL-Library.Multiset"
begin

text \<open>
  The invariant of one scheduler and the runs of its operations. The grants that wait are a multiset
  \<open>q\<close>, the two queues together outside the loops; each waits once, belongs to a flow the map knows and has an
  open channel. A flow's counters are those of its grants, and the scheduler's counter is the number of
  grants outstanding. Every operation keeps the invariant, and ends with no slot free for a grant that
  could take it.
\<close>

section \<open>Choosing a grant\<close>

lemma scan_spec:
  "case take_scan_eligible s i fb gs of
     None \<Rightarrow> fb = None \<and> (\<forall>g \<in> set gs. skips s g)
   | Some j \<Rightarrow> fb = Some j \<or> (i \<le> j \<and> j < i + length gs \<and> \<not> skips s (gs ! (j - i)))"
proof (induction gs arbitrary: i fb)
  case (Cons g gs)
  consider "skips s g" | "\<not> skips s g" "fg_flowID (fs_grants s g) \<noteq> fs_lastFlow s" | "\<not> skips s g" "fg_flowID (fs_grants s g) = fs_lastFlow s" by blast
  then show ?case
  proof cases
    case 1
    have "take_scan_eligible s i fb (g # gs) = take_scan_eligible s (Suc i) fb gs" using 1 by simp
    then show ?thesis using Cons.IH [of fb "Suc i"] 1 by (auto split: option.splits simp: nth_Cons' Suc_diff_le)
  next
    case 2
    then show ?thesis by simp
  next
    case 3
    let ?fb = "if fb = None then Some i else fb"
    have "take_scan_eligible s i fb (g # gs) = take_scan_eligible s (Suc i) ?fb gs" using 3 by (simp add: Let_def)
    then show ?thesis using Cons.IH [of ?fb "Suc i"] 3 by (auto split: option.splits if_splits simp: nth_Cons' Suc_diff_le)
  qed
qed (simp split: option.split)

lemma take_eligible_None: "takeEligibleLocked s queue = (None, q') \<Longrightarrow> q' = queue \<and> (\<forall>g \<in> set queue. skips s g)"
  using scan_spec [where s = s and i = 0 and fb = None and gs = queue] by (auto simp: takeEligibleLocked_def split: option.splits)

lemma mset_remove_at: "i < length xs \<Longrightarrow> mset xs = add_mset (xs ! i) (mset (remove_at i xs))"
  using id_take_nth_drop [of i xs] by (metis remove_at_def mset_append mset.simps(2) union_mset_add_mset_right)

lemma take_eligible_Some:
  assumes "takeEligibleLocked s queue = (Some g, q')"
  shows "mset queue = add_mset g (mset q') \<and> \<not> skips s g"
proof -
  obtain j where j: "take_scan_eligible s 0 None queue = Some j" "g = queue ! j" "q' = remove_at j queue"
    using assms by (auto simp: takeEligibleLocked_def split: option.splits)
  then have "j < length queue" "\<not> skips s g" using scan_spec [where s = s and i = 0 and fb = None and gs = queue] by simp_all
  then show ?thesis using mset_remove_at j by metis
qed

text \<open>What one pass takes: nothing, and then every waiting grant is skipped; or a grant from one of the queues.\<close>

lemma skips_queues [simp]: "skips (s\<lparr>fs_high := h\<rparr>) = skips s" "skips (s\<lparr>fs_bulk := h\<rparr>) = skips s" "skips (s\<lparr>fs_highRun := r\<rparr>) = skips s"
  by (simp_all add: skips_def fun_eq_iff)

lemma pick_bulk_cases:
  obtains "pick_bulk s = (None, s)" "\<forall>g \<in> set (fs_bulk s). skips s g"
  | g b where "pick_bulk s = (Some g, s\<lparr>fs_bulk := b, fs_highRun := 0\<rparr>)" "mset (fs_bulk s) = add_mset g (mset b)" "\<not> skips s g"
proof -
  obtain x b where t: "takeEligibleLocked s (fs_bulk s) = (x, b)" by (cases "takeEligibleLocked s (fs_bulk s)")
  show thesis
  proof (cases x)
    case None
    then show thesis using that(1) take_eligible_None [of s "fs_bulk s" b] t by (simp add: pick_bulk_def)
  next
    case (Some g)
    then show thesis using that(2) take_eligible_Some [of s "fs_bulk s" g b] t by (simp add: pick_bulk_def)
  qed
qed

lemma pick_high_cases:
  obtains "pick_high s = (None, s)" "\<forall>g \<in> set (fs_high s). skips s g"
  | g b where "pick_high s = (Some g, s\<lparr>fs_high := b, fs_highRun := fs_highRun s + 1\<rparr>)" "mset (fs_high s) = add_mset g (mset b)" "\<not> skips s g"
proof -
  obtain x b where t: "takeEligibleLocked s (fs_high s) = (x, b)" by (cases "takeEligibleLocked s (fs_high s)")
  show thesis
  proof (cases x)
    case None
    then show thesis using that(1) take_eligible_None [of s "fs_high s" b] t by (simp add: pick_high_def)
  next
    case (Some g)
    then show thesis using that(2) take_eligible_Some [of s "fs_high s" g b] t by (simp add: pick_high_def)
  qed
qed

abbreviation waiting_grants :: "flowScheduler \<Rightarrow> nat multiset" where
  "waiting_grants s \<equiv> mset (fs_high s) + mset (fs_bulk s)"

lemma pick_cases:
  obtains "dispatch_pick now s = (None, s)" "\<forall>g \<in># waiting_grants s. skips s g"
  | g b where "dispatch_pick now s = (Some g, s\<lparr>fs_bulk := b, fs_highRun := 0\<rparr>)" "mset (fs_bulk s) = add_mset g (mset b)" "\<not> skips s g"
      "chooseBulk now s \<or> (\<forall>g \<in> set (fs_high s). skips s g)"
  | g h where "dispatch_pick now s = (Some g, s\<lparr>fs_high := h, fs_highRun := fs_highRun s + 1\<rparr>)" "mset (fs_high s) = add_mset g (mset h)" "\<not> skips s g"
      "\<not> chooseBulk now s \<or> (\<forall>g \<in> set (fs_bulk s). skips s g)"
proof (rule pick_bulk_cases [of s], goal_cases)
  case 1
  then have b: "dispatch_pick now s = (if 0 < length (fs_high s) then pick_high s else (None, s))" if "\<not> (fst (pick_high s) = None)"
    using that by (auto simp: dispatch_pick_def Let_def split: prod.splits if_splits)
  show ?case
  proof (rule pick_high_cases [of s], goal_cases)
    case high: 1
    then have "dispatch_pick now s = (None, s)" using 1 by (simp add: dispatch_pick_def Let_def)
    then show ?case using that(1) 1 high by auto
  next
    case high: (2 g h)
    then have "fs_high s \<noteq> []" by auto
    then have "dispatch_pick now s = (Some g, s\<lparr>fs_high := h, fs_highRun := fs_highRun s + 1\<rparr>)" using b high by simp
    then show ?case using that(3) 1 high by blast
  qed
next
  case (2 g b)
  show ?case
  proof (cases "chooseBulk now s")
    case True
    then have "dispatch_pick now s = (Some g, s\<lparr>fs_bulk := b, fs_highRun := 0\<rparr>)" using 2 by (simp add: dispatch_pick_def)
    then show ?thesis using that(2) 2 True by blast
  next
    case False
    show ?thesis
    proof (rule pick_high_cases [of s], goal_cases)
      case high: 1
      have "fs_bulk s \<noteq> []" using 2 by auto
      then have "dispatch_pick now s = (Some g, s\<lparr>fs_bulk := b, fs_highRun := 0\<rparr>)" using 2 high False by (simp add: dispatch_pick_def Let_def)
      then show ?case using that(2) 2 high by blast
    next
      case high: (2 g' h)
      then have "fs_high s \<noteq> []" by auto
      then have "dispatch_pick now s = (Some g', s\<lparr>fs_high := h, fs_highRun := fs_highRun s + 1\<rparr>)" using high False by (simp add: dispatch_pick_def)
      then show ?case using that(3) high False by blast
    qed
  qed
qed

section \<open>The invariant\<close>

definition live :: "flowScheduler \<Rightarrow> nat \<Rightarrow> bool" where
  "live s g \<longleftrightarrow> g < fs_next s \<and> fg_done (fs_grants s g) = None"

definition granted_set :: "flowScheduler \<Rightarrow> nat set" where
  "granted_set s = {g. live s g \<and> fg_granted (fs_grants s g)}"

definition known_flow :: "flowScheduler \<Rightarrow> nat \<Rightarrow> bool" where
  "known_flow s g \<longleftrightarrow> fs_states s (fg_flowID (fs_grants s g)) = Some (fg_state (fs_grants s g))"

definition state_ok :: "nat multiset \<Rightarrow> flowScheduler \<Rightarrow> nat \<Rightarrow> bool" where
  "state_ok q s p \<longleftrightarrow> (let st = fs_sstates s p in
     distinct (ss_grants st) \<and> set (ss_grants st) = {g \<in> granted_set s. fg_state (fs_grants s g) = p} \<and>
     ss_active st = int (length (ss_grants st)) \<and> ss_active st \<le> perFlow (fs_cfg s) \<and>
     ss_pending st = int (size {#g \<in># q. fg_state (fs_grants s g) = p#}))"

definition core :: "nat multiset \<Rightarrow> flowScheduler \<Rightarrow> bool" where
  "core q s \<longleftrightarrow>
     (\<forall>g \<in># q. count q g = 1 \<and> live s g \<and> \<not> fg_granted (fs_grants s g) \<and> \<not> fg_ready (fs_grants s g) \<and> known_flow s g) \<and>
     (\<forall>g. live s g \<and> \<not> fg_granted (fs_grants s g) \<longrightarrow> g \<in># q) \<and>
     (\<forall>g \<in> granted_set s. fg_ready (fs_grants s g) \<and> known_flow s g) \<and>
     (\<forall>f p. fs_states s f = Some p \<longrightarrow> p < fs_nextState s \<and> state_ok q s p) \<and>
     (\<forall>f f' p. fs_states s f = Some p \<and> fs_states s f' = Some p \<longrightarrow> f = f') \<and>
     fs_active s = int (card (granted_set s)) \<and> fs_active s \<le> maxActive (fs_cfg s) \<and> \<not> fs_panic s \<and>
     0 < perFlow (fs_cfg s) \<and> 0 < maxActive (fs_cfg s) \<and> 0 < interactiveBurst (fs_cfg s)"

definition fs_inv :: "flowScheduler \<Rightarrow> bool" where
  "fs_inv s \<longleftrightarrow> core (waiting_grants s) s"

lemma core_queues [simp]:
  "core q (s\<lparr>fs_high := h\<rparr>) = core q s" "core q (s\<lparr>fs_bulk := b\<rparr>) = core q s" "core q (s\<lparr>fs_highRun := r\<rparr>) = core q s"
  "core q (s\<lparr>fs_lastFlow := l\<rparr>) = core q s"
  by (simp_all add: core_def live_def granted_set_def known_flow_def state_ok_def)

lemma finite_granted [simp]: "finite (granted_set s)"
  by (rule finite_subset [of _ "{..<fs_next s}"]) (auto simp: granted_set_def live_def)

lemma coreD:
  assumes "core q s"
  shows "\<And>g. g \<in># q \<Longrightarrow> count q g = 1 \<and> live s g \<and> \<not> fg_granted (fs_grants s g) \<and> \<not> fg_ready (fs_grants s g) \<and> known_flow s g"
    "\<And>g. live s g \<Longrightarrow> \<not> fg_granted (fs_grants s g) \<Longrightarrow> g \<in># q"
    "\<And>g. g \<in> granted_set s \<Longrightarrow> fg_ready (fs_grants s g) \<and> known_flow s g"
    "\<And>f p. fs_states s f = Some p \<Longrightarrow> p < fs_nextState s \<and> state_ok q s p"
    "\<And>f f' p. fs_states s f = Some p \<Longrightarrow> fs_states s f' = Some p \<Longrightarrow> f = f'"
    "fs_active s = int (card (granted_set s))" "fs_active s \<le> maxActive (fs_cfg s)" "\<not> fs_panic s"
    "0 < perFlow (fs_cfg s)" "0 < maxActive (fs_cfg s)" "0 < interactiveBurst (fs_cfg s)"
  using assms unfolding core_def by blast+

lemma coreI:
  assumes "\<And>g. g \<in># q \<Longrightarrow> count q g = 1 \<and> live s g \<and> \<not> fg_granted (fs_grants s g) \<and> \<not> fg_ready (fs_grants s g) \<and> known_flow s g"
    "\<And>g. live s g \<Longrightarrow> \<not> fg_granted (fs_grants s g) \<Longrightarrow> g \<in># q"
    "\<And>g. g \<in> granted_set s \<Longrightarrow> fg_ready (fs_grants s g) \<and> known_flow s g"
    "\<And>f p. fs_states s f = Some p \<Longrightarrow> p < fs_nextState s \<and> state_ok q s p"
    "\<And>f f' p. fs_states s f = Some p \<Longrightarrow> fs_states s f' = Some p \<Longrightarrow> f = f'"
    "fs_active s = int (card (granted_set s))" "fs_active s \<le> maxActive (fs_cfg s)" "\<not> fs_panic s"
    "0 < perFlow (fs_cfg s)" "0 < maxActive (fs_cfg s)" "0 < interactiveBurst (fs_cfg s)"
  shows "core q s"
  using assms unfolding core_def by blast

text \<open>A waiting grant leaves the queues: it is granted, or it is done.\<close>

lemma count_removed: "core (add_mset g q) s \<Longrightarrow> g \<notin># q \<and> (\<forall>x \<in># q. count q x = 1)"
proof -
  assume c: "core (add_mset g q) s"
  have "count (add_mset g q) g = 1" using coreD(1) [OF c, of g] by simp
  then have n: "g \<notin># q" by (simp add: not_in_iff)
  have "count q x = 1" if "x \<in># q" for x using coreD(1) [OF c, of x] that n by (auto split: if_splits)
  then show ?thesis using n by blast
qed

lemma grant_core:
  assumes c: "core (add_mset g q) s" and a: "fs_active s < maxActive (fs_cfg s)" and e: "\<not> skips s g"
  shows "core q (dispatch_grant g s)"
proof -
  let ?t = "dispatch_grant g s" and ?p = "fg_state (fs_grants s g)"
  note gq = coreD(1) [OF c, of g, simplified] and nq = count_removed [OF c]
  have room: "ss_active (fs_sstates s ?p) < perFlow (fs_cfg s)" using e by (simp add: skips_def linorder_not_le)
  have gr: "fs_grants ?t = (fs_grants s)(g := (fs_grants s g)\<lparr>fg_granted := True, fg_ready := True\<rparr>)" "\<not> fs_panic ?t"
    "fs_next ?t = fs_next s" "fs_nextState ?t = fs_nextState s" "fs_states ?t = fs_states s" "fs_cfg ?t = fs_cfg s" "fs_active ?t = fs_active s + 1"
    "fs_sstates ?t = (fs_sstates s)(?p := (fs_sstates s ?p)\<lparr>ss_pending := ss_pending (fs_sstates s ?p) - 1,
        ss_active := ss_active (fs_sstates s ?p) + 1, ss_grants := List.insert g (ss_grants (fs_sstates s ?p))\<rparr>)"
    using gq coreD(8) [OF c] by (simp_all add: dispatch_grant_def close_ready_def Let_def fun_eq_iff)
  have lv: "live ?t = live s" by (simp add: live_def gr fun_eq_iff)
  have kf: "known_flow ?t = known_flow s" by (simp add: known_flow_def gr fun_eq_iff)
  have st: "fg_state (fs_grants ?t x) = fg_state (fs_grants s x)" for x by (simp add: gr)
  have gs: "granted_set ?t = insert g (granted_set s)" "g \<notin> granted_set s" using gq by (auto simp: granted_set_def lv gr)
  show ?thesis
  proof (rule coreI)
    fix x assume x: "x \<in># q"
    then have "x \<noteq> g" using nq by auto
    then show "count q x = 1 \<and> live ?t x \<and> \<not> fg_granted (fs_grants ?t x) \<and> \<not> fg_ready (fs_grants ?t x) \<and> known_flow ?t x"
      using coreD(1) [OF c, of x] x nq by (simp add: lv kf gr)
  next
    fix x assume "live ?t x" "\<not> fg_granted (fs_grants ?t x)"
    then show "x \<in># q" using coreD(2) [OF c, of x] by (auto simp: lv gr split: if_splits)
  next
    fix x assume "x \<in> granted_set ?t"
    then show "fg_ready (fs_grants ?t x) \<and> known_flow ?t x" using coreD(3) [OF c, of x] gq by (auto simp: gs kf gr)
  next
    fix f p assume f: "fs_states ?t f = Some p"
    then have o: "p < fs_nextState s" "state_ok (add_mset g q) s p" using coreD(4) [OF c] by (simp_all add: gr)
    note k = o(2) [unfolded state_ok_def Let_def]
    have "state_ok q ?t p"
    proof (cases "p = ?p")
      case True
      have "{x \<in> insert g (granted_set s). fg_state (fs_grants s x) = p} = insert g {x \<in> granted_set s. fg_state (fs_grants s x) = p}" using True by blast
      moreover have "g \<notin> set (ss_grants (fs_sstates s p))" using k gs(2) by simp
      ultimately show ?thesis using k room True unfolding state_ok_def Let_def st gs(1) gr(6,8) by simp
    next
      case False
      have "{x \<in> insert g (granted_set s). fg_state (fs_grants s x) = p} = {x \<in> granted_set s. fg_state (fs_grants s x) = p}" using False by blast
      then show ?thesis using k False unfolding state_ok_def Let_def st gs(1) gr(6,8) by simp
    qed
    then show "p < fs_nextState ?t \<and> state_ok q ?t p" using o(1) by (simp add: gr)
  next
    show "fs_active ?t = int (card (granted_set ?t))" using coreD(6) [OF c] gs by (simp add: gr)
  qed (use coreD(5,9-11) [OF c] a gr in auto)
qed

lemma finish_core:
  assumes c: "core (add_mset g q) s"
    and t: "fs_grants t = (fs_grants s)(g := x)"
      "fs_sstates t = (fs_sstates s)(fg_state (fs_grants s g) := (fs_sstates s (fg_state (fs_grants s g)))
          \<lparr>ss_pending := ss_pending (fs_sstates s (fg_state (fs_grants s g))) - 1\<rparr>)"
      "fs_next t = fs_next s" "fs_nextState t = fs_nextState s" "fs_states t = fs_states s" "fs_cfg t = fs_cfg s" "fs_active t = fs_active s"
      "fs_panic t = fs_panic s"
      "fg_done x = Some e" "fg_state x = fg_state (fs_grants s g)" "fg_flowID x = fg_flowID (fs_grants s g)" "fg_granted x = fg_granted (fs_grants s g)"
  shows "core q t"
proof -
  let ?p = "fg_state (fs_grants s g)"
  note gq = coreD(1) [OF c, of g, simplified] and nq = count_removed [OF c]
  have lv: "live t y \<longleftrightarrow> live s y \<and> y \<noteq> g" for y by (simp add: live_def t)
  have kf: "known_flow t = known_flow s" by (simp add: known_flow_def t fun_eq_iff)
  have st: "fg_state (fs_grants t y) = fg_state (fs_grants s y)" "fg_granted (fs_grants t y) = fg_granted (fs_grants s y)" for y by (simp_all add: t)
  have gs: "granted_set t = granted_set s" using gq by (auto simp: granted_set_def lv st)
  show ?thesis
  proof (rule coreI)
    fix y assume y: "y \<in># q"
    then have "y \<noteq> g" using nq by auto
    then show "count q y = 1 \<and> live t y \<and> \<not> fg_granted (fs_grants t y) \<and> \<not> fg_ready (fs_grants t y) \<and> known_flow t y"
      using coreD(1) [OF c, of y] y nq by (simp add: lv kf t)
  next
    fix y assume "live t y" "\<not> fg_granted (fs_grants t y)"
    then show "y \<in># q" using coreD(2) [OF c, of y] by (simp add: lv st)
  next
    fix y assume y: "y \<in> granted_set t"
    then have "y \<noteq> g" by (auto simp: granted_set_def lv)
    then show "fg_ready (fs_grants t y) \<and> known_flow t y" using coreD(3) [OF c, of y] y by (simp add: gs kf t)
  next
    fix f p assume "fs_states t f = Some p"
    then have o: "p < fs_nextState s" "state_ok (add_mset g q) s p" using coreD(4) [OF c] by (simp_all add: t)
    have "state_ok q t p" using o(2) unfolding state_ok_def Let_def st gs t(2,6) by (cases "p = ?p") simp_all
    then show "p < fs_nextState t \<and> state_ok q t p" using o(1) by (simp add: t)
  qed (use coreD(5-11) [OF c] t gs in auto)
qed

text \<open>A granted request ends.\<close>

lemma return_core:
  assumes c: "core q s" and g: "g \<in> granted_set s"
    and t: "fs_grants t = (fs_grants s)(g := (fs_grants s g)\<lparr>fg_done := Some e\<rparr>)"
      "fs_sstates t = (fs_sstates s)(fg_state (fs_grants s g) := (fs_sstates s (fg_state (fs_grants s g)))
          \<lparr>ss_active := ss_active (fs_sstates s (fg_state (fs_grants s g))) - 1, ss_grants := remove1 g (ss_grants (fs_sstates s (fg_state (fs_grants s g))))\<rparr>)"
      "fs_next t = fs_next s" "fs_nextState t = fs_nextState s" "fs_states t = fs_states s" "fs_cfg t = fs_cfg s" "fs_active t = fs_active s - 1"
      "fs_panic t = fs_panic s"
  shows "core q t"
proof -
  let ?p = "fg_state (fs_grants s g)"
  have lv: "live t x \<longleftrightarrow> live s x \<and> x \<noteq> g" for x by (simp add: live_def t)
  have kf: "known_flow t = known_flow s" by (simp add: known_flow_def t fun_eq_iff)
  have st: "fg_state (fs_grants t x) = fg_state (fs_grants s x)" "fg_granted (fs_grants t x) = fg_granted (fs_grants s x)"
    "fg_ready (fs_grants t x) = fg_ready (fs_grants s x)" for x by (simp_all add: t)
  have gs: "granted_set t = granted_set s - {g}" by (auto simp: granted_set_def lv st)
  have qg: "g \<notin># q" using coreD(1) [OF c, of g] g by (auto simp: granted_set_def)
  have pos: "0 < card (granted_set s)" using g by (auto simp: card_gt_0_iff)
  show ?thesis
  proof (rule coreI)
    fix x assume x: "x \<in># q"
    then show "count q x = 1 \<and> live t x \<and> \<not> fg_granted (fs_grants t x) \<and> \<not> fg_ready (fs_grants t x) \<and> known_flow t x"
      using coreD(1) [OF c, of x] qg by (auto simp: lv kf st)
  next
    fix x assume "live t x" "\<not> fg_granted (fs_grants t x)"
    then show "x \<in># q" using coreD(2) [OF c, of x] by (simp add: lv st)
  next
    fix x assume "x \<in> granted_set t"
    then show "fg_ready (fs_grants t x) \<and> known_flow t x" using coreD(3) [OF c, of x] by (simp add: gs kf st)
  next
    fix f p assume "fs_states t f = Some p"
    then have o: "p < fs_nextState s" "state_ok q s p" using coreD(4) [OF c] by (simp_all add: t)
    note k = o(2) [unfolded state_ok_def Let_def]
    have "state_ok q t p"
    proof (cases "p = ?p")
      case True
      have gp: "g \<in> set (ss_grants (fs_sstates s p))" using k g True by simp
      then have "int (length (ss_grants (fs_sstates s p)) - Suc 0) = int (length (ss_grants (fs_sstates s p))) - 1"
        by (cases "ss_grants (fs_sstates s p)") simp_all
      moreover have "{x \<in> granted_set s - {g}. fg_state (fs_grants s x) = p} = {x \<in> granted_set s. fg_state (fs_grants s x) = p} - {g}" by blast
      ultimately show ?thesis using k gp True unfolding state_ok_def Let_def st gs t(2,6) by (simp add: length_remove1 of_nat_diff)
    next
      case False
      have "{x \<in> granted_set s - {g}. fg_state (fs_grants s x) = p} = {x \<in> granted_set s. fg_state (fs_grants s x) = p}" using False by blast
      then show ?thesis using k False unfolding state_ok_def Let_def st gs t(2,6) by simp
    qed
    then show "p < fs_nextState t \<and> state_ok q t p" using o(1) by (simp add: t)
  next
    show "fs_active t = int (card (granted_set t))" using coreD(6) [OF c] g pos by (simp add: t gs of_nat_diff)
  qed (use coreD(5-11) [OF c] t in auto)
qed

text \<open>A flow with no grants left is forgotten, and a new flow is learnt.\<close>

lemma forget_core:
  assumes c: "core q s" and f: "fs_states s f = Some p" "ss_grants (fs_sstates s p) = []" "\<forall>g \<in># q. fg_flowID (fs_grants s g) \<noteq> f"
  shows "core q (s\<lparr>fs_states := (fs_states s)(f := None)\<rparr>)"
proof -
  let ?t = "s\<lparr>fs_states := (fs_states s)(f := None)\<rparr>"
  have gs: "granted_set ?t = granted_set s" "live ?t = live s" by (simp_all add: granted_set_def live_def fun_eq_iff)
  have ok: "state_ok q s p" using coreD(4) [OF c f(1)] by blast
  then have none: "\<not> (g \<in> granted_set s \<and> fg_state (fs_grants s g) = p)" for g using f(2) by (auto simp: state_ok_def Let_def)
  have kf: "known_flow ?t g" if "known_flow s g" "fg_flowID (fs_grants s g) \<noteq> f" for g using that by (simp add: known_flow_def)
  show ?thesis
  proof (rule coreI)
    fix x assume "x \<in> granted_set ?t"
    then have x: "x \<in> granted_set s" "known_flow s x" "fg_ready (fs_grants s x)" using coreD(3) [OF c] by (simp_all add: gs)
    then have "fg_flowID (fs_grants s x) \<noteq> f" using none [of x] f(1) by (auto simp: known_flow_def)
    then show "fg_ready (fs_grants ?t x) \<and> known_flow ?t x" using kf x by simp
  next
    fix f' p' assume "fs_states ?t f' = Some p'"
    then have "p' < fs_nextState s \<and> state_ok q s p'" using coreD(4) [OF c, of f' p'] by (auto split: if_splits)
    then show "p' < fs_nextState ?t \<and> state_ok q ?t p'" by (simp add: state_ok_def gs)
  qed (use coreD(1,2,5-11) [OF c] f(3) kf gs in \<open>auto split: if_splits\<close>)
qed

lemma learn_core:
  assumes c: "core q s" and f: "fs_states s f = None"
  shows "core q (s\<lparr>fs_nextState := Suc (fs_nextState s), fs_sstates := (fs_sstates s)(fs_nextState s := new_state),
     fs_states := (fs_states s)(f \<mapsto> fs_nextState s)\<rparr>)" (is "core q ?t")
proof -
  have gs: "granted_set ?t = granted_set s" "live ?t = live s" by (simp_all add: granted_set_def live_def fun_eq_iff)
  have kf: "known_flow ?t g" if "known_flow s g" for g using that f by (auto simp: known_flow_def)
  have below: "fg_state (fs_grants s g) < fs_nextState s" if "known_flow s g" for g using coreD(4) [OF c] that by (auto simp: known_flow_def)
  show ?thesis
  proof (rule coreI)
    fix f' p' assume a: "fs_states ?t f' = Some p'"
    show "p' < fs_nextState ?t \<and> state_ok q ?t p'"
    proof (cases "f' = f")
      case True
      then have p: "p' = fs_nextState s" using a by simp
      have "fg_state (fs_grants s g) \<noteq> p'" if "g \<in># q" for g using coreD(1) [OF c that] below [of g] p by simp
      then have "{#g \<in># q. fg_state (fs_grants s g) = p'#} = {#g \<in># q. False#}" by (intro filter_mset_cong) auto
      moreover have "{g \<in> granted_set s. fg_state (fs_grants s g) = p'} = {}" using coreD(3) [OF c] below p by fastforce
      ultimately show ?thesis using p coreD(9) [OF c] unfolding state_ok_def Let_def gs(1) by (simp add: new_state_def)
    next
      case False
      then have "p' < fs_nextState s \<and> state_ok q s p'" using a coreD(4) [OF c, of f' p'] by simp
      then show ?thesis by (simp add: state_ok_def gs)
    qed
  next
    fix f1 f2 p' assume "fs_states ?t f1 = Some p'" "fs_states ?t f2 = Some p'"
    then show "f1 = f2" using coreD(4,5) [OF c] by (auto split: if_splits)
  next
    fix x assume "x \<in> granted_set ?t"
    then show "fg_ready (fs_grants ?t x) \<and> known_flow ?t x" using coreD(3) [OF c, of x] kf by (simp add: gs)
  next
    fix x assume "x \<in># q"
    then show "count q x = 1 \<and> live ?t x \<and> \<not> fg_granted (fs_grants ?t x) \<and> \<not> fg_ready (fs_grants ?t x) \<and> known_flow ?t x"
      using coreD(1) [OF c, of x] kf by (simp add: gs)
  qed (use coreD(2,6-11) [OF c] gs in auto)
qed

lemma add_core:
  assumes c: "core q s" and f: "fs_states s f = Some p"
    and t: "fs_grants t = (fs_grants s)(fs_next s := \<lparr>fg_flowID = f, fg_bytes = n, fg_high = h, fg_queued = now,
        fg_ready = False, fg_granted = False, fg_done = None, fg_state = p\<rparr>)"
      "ss_active (fs_sstates t p) = ss_active (fs_sstates s p)" "ss_grants (fs_sstates t p) = ss_grants (fs_sstates s p)"
      "ss_pending (fs_sstates t p) = ss_pending (fs_sstates s p) + 1" "\<And>p'. p' \<noteq> p \<Longrightarrow> fs_sstates t p' = fs_sstates s p'"
      "fs_next t = Suc (fs_next s)" "fs_nextState t = fs_nextState s" "fs_states t = fs_states s" "fs_cfg t = fs_cfg s" "fs_active t = fs_active s"
      "fs_panic t = fs_panic s"
  shows "core (add_mset (fs_next s) q) t"
proof -
  let ?g = "fs_next s"
  have nq: "?g \<notin># q" using coreD(1) [OF c, of ?g] by (auto simp: live_def)
  have lv: "live t x \<longleftrightarrow> live s x \<or> x = ?g" for x by (auto simp: live_def t)
  have old: "fs_grants t x = fs_grants s x" if "live s x" for x using that by (auto simp: live_def t)
  have gs: "granted_set t = granted_set s" by (auto simp: granted_set_def lv t) (auto simp: live_def)
  have gl: "live s x" if "x \<in> granted_set s" for x using that by (simp add: granted_set_def)
  have ql: "live s x" if "x \<in># q" for x using coreD(1) [OF c that] by simp
  have kf: "known_flow t x = known_flow s x" if "live s x" for x unfolding known_flow_def old [OF that] t(8) ..
  show ?thesis
  proof (rule coreI)
    fix x assume "x \<in># add_mset ?g q"
    then consider "x = ?g" | "x \<in># q" "x \<noteq> ?g" by auto
    then show "count (add_mset ?g q) x = 1 \<and> live t x \<and> \<not> fg_granted (fs_grants t x) \<and> \<not> fg_ready (fs_grants t x) \<and> known_flow t x"
    proof cases
      case 1
      then show ?thesis using nq f by (simp add: lv t known_flow_def not_in_iff)
    next
      case 2
      then show ?thesis using coreD(1) [OF c 2(1)] ql [OF 2(1)] kf old by (simp add: lv)
    qed
  next
    fix x assume "live t x" "\<not> fg_granted (fs_grants t x)"
    then show "x \<in># add_mset ?g q" using coreD(2) [OF c, of x] old by (auto simp: lv)
  next
    fix x assume "x \<in> granted_set t"
    then show "fg_ready (fs_grants t x) \<and> known_flow t x" using coreD(3) [OF c, of x] gl [of x] old kf by (simp add: gs)
  next
    fix f' p' assume "fs_states t f' = Some p'"
    then have o: "p' < fs_nextState s" "state_ok q s p'" using coreD(4) [OF c] by (simp_all add: t)
    have "{#g \<in># q. fg_state (fs_grants t g) = p'#} = {#g \<in># q. fg_state (fs_grants s g) = p'#}" using ql old by (intro filter_mset_cong) auto
    moreover have "{g \<in> granted_set s. fg_state (fs_grants t g) = p'} = {g \<in> granted_set s. fg_state (fs_grants s g) = p'}" using gl old by auto
    moreover have "fg_state (fs_grants t ?g) = p" by (simp add: t)
    ultimately have "state_ok (add_mset ?g q) t p'" using o(2) t(2-5,9) unfolding state_ok_def Let_def gs by (cases "p' = p") simp_all
    then show "p' < fs_nextState t \<and> state_ok (add_mset ?g q) t p'" using o(1) by (simp add: t)
  qed (use coreD(5-11) [OF c] t gs in auto)
qed

section \<open>The operations\<close>

definition settled :: "flowScheduler \<Rightarrow> bool" where
  "settled s \<longleftrightarrow> fs_active s = maxActive (fs_cfg s) \<or> (\<forall>g \<in># waiting_grants s. skips s g)"

lemma grant_queues [simp]: "fs_high (dispatch_grant g s) = fs_high s" "fs_bulk (dispatch_grant g s) = fs_bulk s"
  by (simp_all add: dispatch_grant_def close_ready_def Let_def)

lemma dispatch_inv: "fs_inv s \<Longrightarrow> fs_inv (dispatchLocked now s) \<and> settled (dispatchLocked now s)"
proof (induction now s rule: dispatchLocked.induct)
  case (1 now s)
  then have c: "core (waiting_grants s) s" by (simp add: fs_inv_def)
  show ?case
  proof (cases "fs_active s < maxActive (fs_cfg s)")
    case False
    then have "dispatchLocked now s = s" by (simp add: dispatchLocked.simps)
    then show ?thesis using "1.prems" False coreD(7) [OF c] by (simp add: settled_def)
  next
    case True
    show ?thesis
    proof (rule pick_cases [of now s], goal_cases)
      case p: 1
      then have "dispatchLocked now s = s" using True by (simp add: dispatchLocked.simps)
      then show ?case using "1.prems" p by (simp add: settled_def)
    next
      case p: (2 g b)
      let ?s = "s\<lparr>fs_bulk := b, fs_highRun := 0\<rparr>"
      have "core (add_mset g (waiting_grants ?s)) ?s" using c p(2) by simp
      from grant_core [OF this] have "fs_inv (dispatch_grant g ?s)" using True p(3) by (simp add: fs_inv_def)
      moreover have "dispatchLocked now s = dispatchLocked now (dispatch_grant g ?s)" using True p(1) by (simp add: dispatchLocked.simps [of now s])
      ultimately show ?case using "1.IH" [OF True p(1) [symmetric] refl] by simp
    next
      case p: (3 g h)
      let ?s = "s\<lparr>fs_high := h, fs_highRun := fs_highRun s + 1\<rparr>"
      have "core (add_mset g (waiting_grants ?s)) ?s" using c p(2) by simp
      from grant_core [OF this] have "fs_inv (dispatch_grant g ?s)" using True p(3) by (simp add: fs_inv_def)
      moreover have "dispatchLocked now s = dispatchLocked now (dispatch_grant g ?s)" using True p(1) by (simp add: dispatchLocked.simps [of now s])
      ultimately show ?case using "1.IH" [OF True p(1) [symmetric] refl] by simp
    qed
  qed
qed

lemma core_startup: "core q (upd_state p (ss_startupAssigned_update f) s) = core q s"
proof -
  let ?t = "upd_state p (ss_startupAssigned_update f) s"
  have e: "granted_set ?t = granted_set s" "live ?t = live s" "known_flow ?t = known_flow s"
    by (simp_all add: granted_set_def live_def known_flow_def fun_eq_iff)
  have "state_ok q ?t p' = state_ok q s p'" for p' unfolding state_ok_def Let_def e by (cases "p' = p") simp_all
  then show ?thesis unfolding core_def e by simp
qed

lemma request_inv:
  assumes inv: "fs_inv s" and r: "request f class n now s = (g, s')"
  shows "fs_inv s' \<and> settled s' \<and> g = fs_next s"
proof -
  let ?W = "waiting_grants s"
  define s1 where "s1 = (case fs_states s f of Some p \<Rightarrow> s | None \<Rightarrow> s\<lparr>fs_nextState := Suc (fs_nextState s),
      fs_sstates := (fs_sstates s)(fs_nextState s := new_state), fs_states := (fs_states s)(f \<mapsto> fs_nextState s)\<rparr>)"
  define p where "p = (case fs_states s f of Some p \<Rightarrow> p | None \<Rightarrow> fs_nextState s)"
  have c1: "core ?W s1" "fs_states s1 f = Some p" "fs_next s1 = fs_next s" "fs_high s1 = fs_high s" "fs_bulk s1 = fs_bulk s"
    using inv learn_core [of ?W s f] by (auto simp: fs_inv_def s1_def p_def split: option.split)
  define urgent where "urgent = (class = ClassNew \<or> class = ClassInteractive)"
  define start where "start = (\<not> urgent \<and> ss_startupAssigned (fs_sstates s1 p) < startupBytes (fs_cfg s1))"
  define s2 where "s2 = (if start then upd_state p (\<lambda>st. st\<lparr>ss_startupAssigned := ss_startupAssigned st + n\<rparr>) s1 else s1)"
  have c2: "core ?W s2" "fs_states s2 f = Some p" "fs_next s2 = fs_next s" "fs_high s2 = fs_high s" "fs_bulk s2 = fs_bulk s"
    using c1 core_startup [where q = ?W and p = p and f = "\<lambda>_. ss_startupAssigned (fs_sstates s1 p) + n" and s = s1] by (auto simp: s2_def)
  define gr where "gr = \<lparr>fg_flowID = f, fg_bytes = n, fg_high = urgent \<or> start, fg_queued = now, fg_ready = False, fg_granted = False,
      fg_done = None, fg_state = p\<rparr>"
  define s4 where "s4 = upd_state p (\<lambda>st. st\<lparr>ss_pending := ss_pending st + 1\<rparr>) (s2\<lparr>fs_next := Suc (fs_next s2), fs_grants := (fs_grants s2)(fs_next s2 := gr)\<rparr>)"
  have c4: "core (add_mset (fs_next s2) ?W) s4" by (rule add_core [OF c2(1,2)]) (simp_all add: s4_def gr_def)
  define s5 where "s5 = (if urgent \<or> start then s4\<lparr>fs_high := fs_high s4 @ [fs_next s2]\<rparr> else s4\<lparr>fs_bulk := fs_bulk s4 @ [fs_next s2]\<rparr>)"
  have "fs_high s4 = fs_high s" "fs_bulk s4 = fs_bulk s" by (simp_all add: s4_def c2)
  then have "fs_inv s5" using c4 by (auto simp: fs_inv_def s5_def)
  moreover have "request f class n now s = (fs_next s2, dispatchLocked now s5)"
  proof -
    have "(case fs_states s f of Some p \<Rightarrow> (p, s) | None \<Rightarrow> (fs_nextState s, s\<lparr>fs_nextState := Suc (fs_nextState s),
        fs_sstates := (fs_sstates s)(fs_nextState s := new_state), fs_states := (fs_states s)(f \<mapsto> fs_nextState s)\<rparr>)) = (p, s1)"
      by (simp add: p_def s1_def split: option.split)
    then show ?thesis unfolding request_def request_queued_def Let_def by (simp only: prod.case urgent_def [symmetric] start_def [symmetric] s2_def [symmetric]
      gr_def [symmetric] s4_def [symmetric] s5_def [symmetric])
  qed
  ultimately show ?thesis using dispatch_inv r c2(3) by auto
qed

lemma mset_removeFlowGrant: "g \<in> set xs \<Longrightarrow> mset xs = add_mset g (mset (removeFlowGrant xs g))"
  by (induction xs) auto

lemma removeFlowGrant_id: "g \<notin> set xs \<Longrightarrow> removeFlowGrant xs g = xs"
  by (induction xs) auto

lemma return_inv:
  assumes "fs_inv s" "g \<in> granted_set s"
  shows "fs_inv (return_grant g (upd_grant g (fg_done_update (\<lambda>_. Some e)) s))"
proof -
  let ?t = "return_grant g (upd_grant g (fg_done_update (\<lambda>_. Some e)) s)"
  have "core (waiting_grants s) ?t" by (rule return_core [OF _ assms(2)]) (use assms(1) in \<open>simp_all add: return_grant_def fs_inv_def Let_def\<close>)
  moreover have "fs_high ?t = fs_high s" "fs_bulk ?t = fs_bulk s" by (simp_all add: return_grant_def Let_def)
  ultimately show ?thesis by (simp add: fs_inv_def)
qed

lemma release_inv:
  assumes inv: "fs_inv s" "settled s" and g: "g < fs_next s" "fg_granted (fs_grants s g)" and r: "fs_release (Some g) now s = (e, s')"
  shows "fs_inv s' \<and> settled s'"
proof (cases "fg_done (fs_grants s g)")
  case None
  then have "g \<in> granted_set s" using g by (simp add: granted_set_def live_def)
  from return_inv [OF inv(1) this] show ?thesis using r None g dispatch_inv by (auto simp: fs_release_def release_returned_def Let_def)
next
  case (Some x)
  then show ?thesis using r inv by (simp add: fs_release_def)
qed

lemma cancel_inv:
  assumes inv: "fs_inv s" "settled s" and g: "g < fs_next s" and r: "fs_cancel (Some g) now s = (e, s')"
  shows "fs_inv s' \<and> settled s'"
proof (cases "fg_done (fs_grants s g)")
  case (Some x)
  then show ?thesis using r inv by (simp add: fs_cancel_def)
next
  case None
  show ?thesis
  proof (cases "fg_granted (fs_grants s g)")
    case True
    then have "g \<in> granted_set s" using g None by (simp add: granted_set_def live_def)
    from return_inv [OF inv(1) this] show ?thesis using r None True dispatch_inv by (auto simp: fs_cancel_def cancel_returned_def Let_def)
  next
    case False
    let ?s1 = "upd_grant g (fg_done_update (\<lambda>_. Some Canceled)) s"
    define t where "t = (upd_state (fg_state (fs_grants s g)) (\<lambda>st. st\<lparr>ss_pending := ss_pending st - 1\<rparr>) ?s1)
        \<lparr>fs_high := removeFlowGrant (fs_high s) g, fs_bulk := removeFlowGrant (fs_bulk s) g\<rparr>"
    have c: "core (waiting_grants s) s" using inv by (simp add: fs_inv_def)
    have w: "g \<in># waiting_grants s" using coreD(2) [OF c, of g] g None False by (simp add: live_def)
    then have one: "count (waiting_grants s) g = 1" and nr: "\<not> fg_ready (fs_grants s g)" using coreD(1) [OF c w] by simp_all
    have "waiting_grants s = add_mset g (waiting_grants t)"
    proof (cases "g \<in> set (fs_high s)")
      case True
      then have "g \<notin> set (fs_bulk s)" using one by (metis One_nat_def count_union count_greater_zero_iff in_multiset_in_set add_eq_if
        add_is_0 not_gr_zero nat.inject)
      then show ?thesis using mset_removeFlowGrant [OF True] by (simp add: t_def removeFlowGrant_id)
    next
      case False
      then have "g \<in> set (fs_bulk s)" using w by simp
      then show ?thesis using mset_removeFlowGrant [of g "fs_bulk s"] False by (simp add: t_def removeFlowGrant_id)
    qed
    then have "core (add_mset g (waiting_grants t)) s" using c by simp
    then have "core (waiting_grants t) t"
      by (rule finish_core [where x = "(fs_grants s g)\<lparr>fg_done := Some Canceled\<rparr>" and e = Canceled]) (simp_all add: t_def)
    then have "fs_inv t" by (simp add: fs_inv_def)
    moreover have "s' = dispatchLocked now t" using r None False by (auto simp: fs_cancel_def cancel_returned_def Let_def t_def)
    ultimately show ?thesis using dispatch_inv by blast
  qed
qed

lemma dispatch_states [simp]: "fs_states (dispatchLocked now s) = fs_states s" "fs_next (dispatchLocked now s) = fs_next s"
proof (induction now s rule: dispatchLocked.induct)
  case (1 now s)
  have g: "fs_states (dispatch_grant g x) = fs_states x" "fs_next (dispatch_grant g x) = fs_next x" for g x
    by (simp_all add: dispatch_grant_def close_ready_def Let_def)
  { case 1 then show ?case
      by (rule pick_cases [of now s]) (use "1.IH" g in \<open>auto simp: dispatchLocked.simps [of now s]\<close>)
  next
    case 2 then show ?case
      by (rule pick_cases [of now s]) (use "1.IH" g in \<open>auto simp: dispatchLocked.simps [of now s]\<close>) }
qed

text \<open>\<open>closePending\<close> on a queue \<open>gs\<close>, beside the grants \<open>q\<close> of the other.\<close>

lemma closePending_core:
  assumes "core (mset gs + q) s" "fs_states s f = Some p" "closePending f p gs s = (kept, s')"
  shows "core (mset kept + q) s' \<and> fs_states s' = fs_states s \<and> fs_high s' = fs_high s \<and> fs_bulk s' = fs_bulk s \<and>
    (\<forall>g. fg_flowID (fs_grants s' g) = fg_flowID (fs_grants s g)) \<and> (\<forall>g \<in> set kept. fg_flowID (fs_grants s g) \<noteq> f)"
  using assms
proof (induction gs arbitrary: q s kept s')
  case (Cons g gs)
  have gq: "live s g" "\<not> fg_ready (fs_grants s g)" "known_flow s g" using coreD(1) [OF Cons.prems(1), of g] by simp_all
  then have dn: "fg_done (fs_grants s g) = None" by (simp add: live_def)
  show ?case
  proof (cases "fg_flowID (fs_grants s g) = f")
    case False
    obtain k1 s1 where k: "closePending f p gs s = (k1, s1)" by (cases "closePending f p gs s")
    then have kept: "kept = g # k1" "s' = s1" using Cons.prems(3) False by simp_all
    have "core (mset gs + add_mset g q) s" using Cons.prems(1) by simp
    from Cons.IH [OF this Cons.prems(2) k] show ?thesis using False by (simp add: kept)
  next
    case True
    let ?t = "close_ready g (upd_state p (\<lambda>st. st\<lparr>ss_pending := ss_pending st - 1\<rparr>) (upd_grant g (fg_done_update (\<lambda>_. Some errFlowSchedulingClosed)) s))"
    have st: "fg_state (fs_grants s g) = p" using gq(3) True Cons.prems(2) by (simp add: known_flow_def)
    have t: "fs_grants ?t = (fs_grants s)(g := (fs_grants s g)\<lparr>fg_done := Some errFlowSchedulingClosed, fg_ready := True\<rparr>)"
      using gq(2) by (simp add: close_ready_def)
    have "core (mset gs + q) ?t"
      by (rule finish_core [where e = errFlowSchedulingClosed, OF _ t]) (use Cons.prems(1) gq(2) st in \<open>simp_all add: close_ready_def\<close>)
    moreover have "fs_states ?t = fs_states s" "fs_high ?t = fs_high s" "fs_bulk ?t = fs_bulk s" by (simp_all add: close_ready_def)
    moreover have fl: "fg_flowID (fs_grants ?t x) = fg_flowID (fs_grants s x)" for x unfolding t by simp
    moreover have "closePending f p gs ?t = (kept, s')" using Cons.prems(3) True dn by (simp add: Let_def)
    ultimately show ?thesis using Cons.IH [of q ?t kept s'] Cons.prems(2) unfolding fl by simp
  qed
qed simp

lemma close_granted_core:
  assumes "core q s" "fs_states s f = Some p" "ss_grants (fs_sstates s p) = gs"
  shows "core q (close_granted p gs s) \<and> fs_states (close_granted p gs s) = fs_states s \<and> fs_high (close_granted p gs s) = fs_high s \<and>
    fs_bulk (close_granted p gs s) = fs_bulk s \<and> ss_grants (fs_sstates (close_granted p gs s) p) = [] \<and>
    (\<forall>g. fg_flowID (fs_grants (close_granted p gs s) g) = fg_flowID (fs_grants s g))"
  using assms
proof (induction gs arbitrary: s)
  case (Cons g gs)
  have "state_ok q s p" using coreD(4) [OF Cons.prems(1,2)] by blast
  then have "g \<in> {g \<in> granted_set s. fg_state (fs_grants s g) = p}" using Cons.prems(3) by (auto simp: state_ok_def Let_def)
  then have g: "g \<in> granted_set s" "fg_state (fs_grants s g) = p" by simp_all
  then have dn: "fg_done (fs_grants s g) = None" by (simp add: granted_set_def live_def)
  define t where "t = upd_state p (\<lambda>st. st\<lparr>ss_grants := List.remove1 g (ss_grants st)\<rparr>)
      ((upd_state p (\<lambda>st. st\<lparr>ss_active := ss_active st - 1\<rparr>) (upd_grant g (fg_done_update (\<lambda>_. Some errFlowSchedulingClosed)) s))\<lparr>fs_active := fs_active s - 1\<rparr>)"
  have cg: "close_granted p (g # gs) s = close_granted p gs t" using dn by (simp add: t_def Let_def)
  have "core q t" by (rule return_core [OF Cons.prems(1) g(1), where e = errFlowSchedulingClosed]) (simp_all add: t_def g(2))
  moreover have "fs_states t = fs_states s" "fs_high t = fs_high s" "fs_bulk t = fs_bulk s" "ss_grants (fs_sstates t p) = gs"
      "\<forall>x. fg_flowID (fs_grants t x) = fg_flowID (fs_grants s x)"
    using Cons.prems(3) by (simp_all add: t_def)
  ultimately show ?case unfolding cg using Cons.IH [of t] Cons.prems(2) by simp
qed simp

lemma closeFlow_inv:
  assumes inv: "fs_inv s" "settled s" and r: "fs_closeFlow f now s = (e, s')"
  shows "fs_inv s' \<and> settled s' \<and> fs_states s' f = None"
proof (cases "fs_states s f")
  case None
  then show ?thesis using r inv by (simp add: fs_closeFlow_def)
next
  case (Some p)
  obtain h s1 where h: "closePending f p (fs_high s) s = (h, s1)" by (cases "closePending f p (fs_high s) s")
  have c: "core (mset (fs_high s) + mset (fs_bulk s)) s" using inv(1) by (simp add: fs_inv_def)
  note k1 = closePending_core [OF c Some h]
  let ?s2 = "s1\<lparr>fs_high := h\<rparr>"
  obtain b s3 where b: "closePending f p (fs_bulk ?s2) ?s2 = (b, s3)" by (cases "closePending f p (fs_bulk ?s2) ?s2")
  have "core (mset (fs_bulk ?s2) + mset h) ?s2" using k1 by (simp add: add.commute)
  note k2 = closePending_core [OF this _ b]
  let ?s4 = "s3\<lparr>fs_bulk := b\<rparr>"
  define s5 where "s5 = close_granted p (ss_grants (fs_sstates ?s4 p)) ?s4"
  have st2: "fs_states ?s2 f = Some p" using k1 Some by simp
  note k2' = k2 [OF st2]
  have c4: "core (mset h + mset b) ?s4" "fs_states ?s4 f = Some p" using k2' st2 by (simp_all add: add.commute)
  note k3 = close_granted_core [OF c4 refl, folded s5_def]
  define s6 where "s6 = s5\<lparr>fs_states := (fs_states s5)(f := None)\<rparr>"
  have fl: "fg_flowID (fs_grants s5 g) = fg_flowID (fs_grants s g)" for g using k1 k2' k3 by simp
  have "\<forall>g \<in># mset h + mset b. fg_flowID (fs_grants s5 g) \<noteq> f" using k1 k2' by (auto simp: fl)
  then have "core (mset h + mset b) s6" unfolding s6_def using k3 c4(2) by (intro forget_core [where p = p]) simp_all
  moreover have "fs_high s6 = h" "fs_bulk s6 = b" using k2' k3 by (simp_all add: s6_def)
  ultimately have "fs_inv s6" by (simp add: fs_inv_def)
  moreover have "s' = dispatchLocked now s6" using r Some h b by (simp add: fs_closeFlow_def closeFlow_returned_def Let_def s5_def s6_def)
  ultimately show ?thesis using dispatch_inv by (simp add: s6_def)
qed

section \<open>Runs\<close>

inductive fs_reach :: "flowScheduler \<Rightarrow> bool" where
  new: "fs_reach (newFlowScheduler cfg)"
| ask: "fs_reach s \<Longrightarrow> fs_reach (snd (request f class n now s))"
| give_back: "fs_reach s \<Longrightarrow> g < fs_next s \<Longrightarrow> fg_granted (fs_grants s g) \<Longrightarrow> fs_reach (snd (fs_release (Some g) now s))"
| give_up: "fs_reach s \<Longrightarrow> g < fs_next s \<Longrightarrow> fs_reach (snd (fs_cancel (Some g) now s))"
| close_flow: "fs_reach s \<Longrightarrow> fs_reach (snd (fs_closeFlow f now s))"

lemma withDefaults_pos:
  "0 < perFlow (withDefaults c)" "0 < maxActive (withDefaults c)" "0 < interactiveBurst (withDefaults c)"
  by (simp_all add: withDefaults_def defaultFlowSchedulerConfig_def Let_def)

lemma fs_reach_inv: "fs_reach s \<Longrightarrow> fs_inv s \<and> settled s"
proof (induction rule: fs_reach.induct)
  case (new cfg)
  have "granted_set (newFlowScheduler cfg) = {}" "live (newFlowScheduler cfg) = (\<lambda>_. False)"
    by (simp_all add: granted_set_def live_def newFlowScheduler_def fun_eq_iff)
  then show ?case using withDefaults_pos [of cfg] by (simp add: fs_inv_def core_def settled_def) (simp add: newFlowScheduler_def)
next
  case (ask s f cls n now)
  then show ?case using request_inv by (metis prod.collapse)
next
  case (give_back s g now)
  then show ?case using release_inv by (metis prod.collapse)
next
  case (give_up s g now)
  then show ?case using cancel_inv by (metis prod.collapse)
next
  case (close_flow s f now)
  then show ?case using closeFlow_inv by (metis prod.collapse)
qed

text \<open>The grants of a flow that are outstanding.\<close>

definition outstanding :: "flowScheduler \<Rightarrow> u64 \<Rightarrow> nat set" where
  "outstanding s f = {g \<in> granted_set s. fg_flowID (fs_grants s g) = f}"

lemma state_facts:
  assumes "core q s" "fs_states s f = Some p"
  shows "distinct (ss_grants (fs_sstates s p))" "set (ss_grants (fs_sstates s p)) = {g \<in> granted_set s. fg_state (fs_grants s g) = p}"
    "ss_active (fs_sstates s p) = int (length (ss_grants (fs_sstates s p)))" "ss_active (fs_sstates s p) \<le> perFlow (fs_cfg s)"
proof -
  have "state_ok q s p" using coreD(4) [OF assms] by blast
  then show "distinct (ss_grants (fs_sstates s p))" "set (ss_grants (fs_sstates s p)) = {g \<in> granted_set s. fg_state (fs_grants s g) = p}"
    "ss_active (fs_sstates s p) = int (length (ss_grants (fs_sstates s p)))" "ss_active (fs_sstates s p) \<le> perFlow (fs_cfg s)"
    unfolding state_ok_def Let_def by blast+
qed

lemma outstanding_state:
  assumes "fs_inv s"
  shows "int (card (outstanding s f)) = (case fs_states s f of None \<Rightarrow> 0 | Some p \<Rightarrow> ss_active (fs_sstates s p))"
proof -
  have c: "core (waiting_grants s) s" using assms by (simp add: fs_inv_def)
  show ?thesis
  proof (cases "fs_states s f")
    case None
    then have "outstanding s f = {}" using coreD(3) [OF c] by (auto simp: outstanding_def known_flow_def)
    then show ?thesis using None by simp
  next
    case (Some p)
    note k = state_facts [OF c Some]
    have "fg_flowID (fs_grants s g) = f \<longleftrightarrow> fg_state (fs_grants s g) = p" if "g \<in> granted_set s" for g
      using coreD(3) [OF c that] coreD(5) [OF c, of "fg_flowID (fs_grants s g)" p f] Some by (auto simp: known_flow_def)
    then have "outstanding s f = {g \<in> granted_set s. fg_state (fs_grants s g) = p}" by (auto simp: outstanding_def)
    then have "outstanding s f = set (ss_grants (fs_sstates s p))" using k(2) by simp
    then show ?thesis using k(1,3) Some by (simp add: distinct_card)
  qed
qed

text \<open>C15: the bounds of a path. In every state the operations can reach, the scheduler's counter is the number of
  grants outstanding and at most \<open>maxActive\<close>, no flow has more than \<open>perFlow\<close> of them, a request that is
  not done either waits in one of the queues, once, with its channel open, or is outstanding with its channel
  closed, and no channel was ever closed twice.\<close>

theorem path_bounds:
  assumes "fs_reach s"
  shows "fs_active s = int (card (granted_set s)) \<and> fs_active s \<le> maxActive (fs_cfg s) \<and>
    int (card (outstanding s f)) \<le> perFlow (fs_cfg s) \<and> \<not> fs_panic s \<and> distinct (fs_high s @ fs_bulk s) \<and>
    (live s g \<longleftrightarrow> g \<in> granted_set s \<or> g \<in> set (fs_high s @ fs_bulk s)) \<and> (live s g \<longrightarrow> fg_ready (fs_grants s g) = (g \<in> granted_set s))"
proof -
  have inv: "fs_inv s" using fs_reach_inv [OF assms] by blast
  then have c: "core (waiting_grants s) s" by (simp add: fs_inv_def)
  have "int (card (outstanding s f)) \<le> perFlow (fs_cfg s)"
    using outstanding_state [OF inv, of f] state_facts(4) [OF c, of f] coreD(9) [OF c] by (simp split: option.splits)
  moreover have "count (mset (fs_high s @ fs_bulk s)) x = (if x \<in> set (fs_high s @ fs_bulk s) then 1 else 0)" for x
  proof (cases "x \<in> set (fs_high s @ fs_bulk s)")
    case True
    then show ?thesis using coreD(1) [OF c, of x] by simp
  next
    case False
    then show ?thesis by (simp add: count_eq_zero_iff)
  qed
  then have "distinct (fs_high s @ fs_bulk s)" unfolding distinct_count_atmost_1 by blast
  moreover have "live s g \<longleftrightarrow> g \<in> granted_set s \<or> g \<in> set (fs_high s @ fs_bulk s)"
    using coreD(1) [OF c, of g] coreD(2) [OF c, of g] by (auto simp: granted_set_def)
  moreover have "fg_ready (fs_grants s g) = (g \<in> granted_set s)" if "live s g"
    using coreD(1) [OF c, of g] coreD(2) [OF c, of g] coreD(3) [OF c, of g] that by (auto simp: granted_set_def)
  ultimately show ?thesis using coreD(6-8) [OF c] by blast
qed

theorem path_bounds_witness: "fs_active (newFlowScheduler defaultFlowSchedulerConfig) \<le> maxActive (fs_cfg (newFlowScheduler defaultFlowSchedulerConfig))"
  using path_bounds [OF fs_reach.new [of defaultFlowSchedulerConfig]] by blast

text \<open>C16: No slot stays free while a request could take it. Whenever a request waits, the path has \<open>maxActive\<close> grants
  outstanding or the request's flow has \<open>perFlow\<close> of them.\<close>

theorem no_idle_slot:
  assumes "fs_reach s" "g \<in> set (fs_high s) \<union> set (fs_bulk s)"
  shows "int (card (granted_set s)) = maxActive (fs_cfg s) \<or> int (card (outstanding s (fg_flowID (fs_grants s g)))) = perFlow (fs_cfg s)"
proof -
  have inv: "fs_inv s" "settled s" using fs_reach_inv [OF assms(1)] by blast+
  then have c: "core (waiting_grants s) s" by (simp add: fs_inv_def)
  have w: "live s g" "known_flow s g" using coreD(1) [OF c, of g] assms(2) by auto
  show ?thesis
  proof (cases "fs_active s = maxActive (fs_cfg s)")
    case False
    then have "skips s g" using inv(2) assms(2) by (auto simp: settled_def)
    then have "perFlow (fs_cfg s) \<le> ss_active (fs_sstates s (fg_state (fs_grants s g)))" using w by (simp add: skips_def live_def)
    moreover have "ss_active (fs_sstates s (fg_state (fs_grants s g))) \<le> perFlow (fs_cfg s)"
      using state_facts(4) [OF c] w(2) by (simp add: known_flow_def)
    ultimately show ?thesis using outstanding_state [OF inv(1)] w(2) by (simp add: known_flow_def)
  qed (use coreD(6) [OF c] in simp)
qed

definition narrow :: flowSchedulerConfig where
  "narrow = \<lparr>startupBytes = 1, perFlow = 1, maxActive = 1, interactiveBurst = 1, bulkAge = 1\<rparr>"

definition two_requests :: flowScheduler where
  "two_requests = snd (request 5 ClassNew 10 1 (snd (request 5 ClassNew 10 0 (newFlowScheduler narrow))))"

lemma two_requests_reach: "fs_reach two_requests"
  unfolding two_requests_def by (intro fs_reach.ask fs_reach.new)

lemma two_requests_waits: "1 \<in> set (fs_high two_requests)"
  by (simp add: two_requests_def request_def request_queued_def newFlowScheduler_def narrow_def withDefaults_def dispatchLocked.simps dispatch_pick_def chooseBulk_def
    pick_high_def takeEligibleLocked_def skips_def dispatch_grant_def close_ready_def remove_at_def new_state_def no_grant_def Let_def)

theorem no_idle_slot_witness:
  "int (card (granted_set two_requests)) = maxActive (fs_cfg two_requests) \<or>
   int (card (outstanding two_requests (fg_flowID (fs_grants two_requests 1)))) = perFlow (fs_cfg two_requests)"
  using no_idle_slot [OF two_requests_reach, of 1] two_requests_waits by blast

section \<open>The order of grants\<close>

text \<open>
  The same runs cut at the passes of the loop of \<open>dispatchLocked\<close>, with a log of the grants made, the newest first: \<open>True\<close> for one taken from the
  bulk queue, \<open>False\<close> for an urgent one. \<open>fs_run\<close> is between operations, \<open>fs_busy\<close> at the head of the loop of one.
\<close>

inductive fs_run :: "bool list \<Rightarrow> flowScheduler \<Rightarrow> bool" and fs_busy :: "int \<Rightarrow> bool list \<Rightarrow> flowScheduler \<Rightarrow> bool" where
  run_new: "fs_run [] (newFlowScheduler cfg)"
| run_ask: "fs_run log s \<Longrightarrow> fs_busy now log (snd (request_queued f class n now s))"
| run_give_back: "fs_run log s \<Longrightarrow> g < fs_next s \<Longrightarrow> fg_granted (fs_grants s g) \<Longrightarrow> fg_done (fs_grants s g) = None \<Longrightarrow> fs_busy now log (release_returned g s)"
| run_give_up: "fs_run log s \<Longrightarrow> g < fs_next s \<Longrightarrow> fg_done (fs_grants s g) = None \<Longrightarrow> fs_busy now log (cancel_returned g s)"
| run_close_flow: "fs_run log s \<Longrightarrow> fs_states s f = Some p \<Longrightarrow> fs_busy now log (closeFlow_returned f p s)"
| busy_grant: "fs_busy now log s \<Longrightarrow> fs_active s < maxActive (fs_cfg s) \<Longrightarrow> dispatch_pick now s = (Some g, s1) \<Longrightarrow>
    fs_busy now ((length (fs_bulk s1) < length (fs_bulk s)) # log) (dispatch_grant g s1)"
| busy_none: "fs_busy now log s \<Longrightarrow> fs_active s < maxActive (fs_cfg s) \<Longrightarrow> dispatch_pick now s = (None, s1) \<Longrightarrow> fs_run log s1"
| busy_full: "fs_busy now log s \<Longrightarrow> \<not> fs_active s < maxActive (fs_cfg s) \<Longrightarrow> fs_run log s"

lemma dispatch_run: "fs_busy now log s \<Longrightarrow> \<exists>more. fs_run (more @ log) (dispatchLocked now s)"
proof (induction now s arbitrary: log rule: dispatchLocked.induct)
  case (1 now s)
  show ?case
  proof (cases "fs_active s < maxActive (fs_cfg s)")
    case False
    then show ?thesis using busy_full [OF 1(2)] by (intro exI [of _ "[]"]) (simp add: dispatchLocked.simps)
  next
    case True
    obtain x s1 where p: "dispatch_pick now s = (x, s1)" by (cases "dispatch_pick now s")
    show ?thesis
    proof (cases x)
      case None
      then show ?thesis using busy_none [OF 1(2) True] p True by (intro exI [of _ "[]"]) (simp add: dispatchLocked.simps)
    next
      case (Some g)
      obtain more where "fs_run (more @ (length (fs_bulk s1) < length (fs_bulk s)) # log) (dispatchLocked now (dispatch_grant g s1))"
        using "1.IH" [OF True p [symmetric] Some busy_grant [OF 1(2) True p [unfolded Some]]] by blast
      then show ?thesis using p Some True by (intro exI [of _ "more @ [length (fs_bulk s1) < length (fs_bulk s)]"]) (simp add: dispatchLocked.simps)
    qed
  qed
qed

text \<open>These are the runs of the operations.\<close>

lemma reach_run: "fs_reach s \<Longrightarrow> \<exists>log. fs_run log s"
proof (induction rule: fs_reach.induct)
  case (new cfg)
  then show ?case using run_new by blast
next
  case (ask s f cls n now)
  then obtain log where "fs_run log s" by blast
  then show ?case using dispatch_run [OF run_ask, of log s now f cls n] by (auto simp: request_def split_beta Let_def)
next
  case (give_back s g now)
  then obtain log where "fs_run log s" by blast
  then show ?case using give_back dispatch_run [OF run_give_back, of log s g now] by (cases "fg_done (fs_grants s g)") (auto simp: fs_release_def Let_def)
next
  case (give_up s g now)
  then obtain log where "fs_run log s" by blast
  then show ?case using give_up dispatch_run [OF run_give_up, of log s g now] by (cases "fg_done (fs_grants s g)") (auto simp: fs_cancel_def Let_def)
next
  case (close_flow s f now)
  then obtain log where "fs_run log s" by blast
  then show ?case using dispatch_run [OF run_close_flow, of log s f _ now] by (cases "fs_states s f") (auto simp: fs_closeFlow_def Let_def)
qed

lemma highRun_closePending: "fs_highRun (snd (closePending f p gs s)) = fs_highRun s"
proof (induction gs arbitrary: s)
  case (Cons g gs)
  then show ?case by (simp add: close_ready_def split_beta Let_def)
qed simp

lemma highRun_close_granted: "fs_highRun (close_granted p gs s) = fs_highRun s"
  by (induction gs arbitrary: s) (auto simp: Let_def)

lemma highRun_kept:
  "fs_highRun (snd (request_queued f class n now s)) = fs_highRun s" "fs_highRun (release_returned g s) = fs_highRun s"
  "fs_highRun (cancel_returned g s) = fs_highRun s" "fs_highRun (closeFlow_returned f p s) = fs_highRun s" "fs_highRun (dispatch_grant g s) = fs_highRun s"
proof -
  show "fs_highRun (snd (request_queued f class n now s)) = fs_highRun s" by (cases "fs_states s f") (simp_all add: request_queued_def Let_def)
  show "fs_highRun (closeFlow_returned f p s) = fs_highRun s"
    by (simp add: closeFlow_returned_def split_beta Let_def highRun_close_granted highRun_closePending)
qed (simp_all add: release_returned_def cancel_returned_def dispatch_grant_def return_grant_def close_ready_def Let_def)

text \<open>\<open>fs_highRun\<close> counts the urgent grants since the last bulk one.\<close>

lemma shorter: "mset xs = add_mset g (mset ys) \<Longrightarrow> length ys < length xs"
  by (metis size_mset size_add_mset lessI)

lemma pick_log:
  assumes "dispatch_pick now s = (Some g, s1)" "fs_highRun s = int (length (takeWhile Not log))"
  shows "fs_highRun s1 = int (length (takeWhile Not ((length (fs_bulk s1) < length (fs_bulk s)) # log)))"
proof (rule pick_cases [of now s], goal_cases)
  case (2 g' b)
  then have "length (fs_bulk s1) < length (fs_bulk s)" using assms(1) shorter by auto
  then show ?case using 2 assms(1) by auto
qed (use assms in auto)

lemma highRun_log:
  "fs_run log s \<Longrightarrow> fs_highRun s = int (length (takeWhile Not log))" "fs_busy now log s \<Longrightarrow> fs_highRun s = int (length (takeWhile Not log))"
proof (induction rule: fs_run_fs_busy.inducts)
  case (busy_grant now log s g s1)
  then show ?case using pick_log by (simp add: highRun_kept)
next
  case (busy_none now log s s1)
  have "s1 = s" by (rule pick_cases [of now s]) (use busy_none(3) in auto)
  then show ?case using busy_none by simp
qed (simp_all add: highRun_kept newFlowScheduler_def)

text \<open>C17: bulk requests are not starved. In every run, whatever is requested, released, cancelled and closed in between, whenever the path can make a grant while a bulk request could take it,
  a grant is made, and it is a bulk request, unless fewer than \<open>interactiveBurst\<close> urgent requests have been granted since the last bulk one
  and the oldest bulk request has waited less than \<open>bulkAge\<close>.\<close>

theorem bulk_not_starved:
  assumes "fs_busy now log s" "fs_active s < maxActive (fs_cfg s)" "x \<in> set (fs_bulk s)" "\<not> skips s x"
  shows "\<exists>g s1. dispatch_pick now s = (Some g, s1) \<and> fs_busy now ((length (fs_bulk s1) < length (fs_bulk s)) # log) (dispatch_grant g s1) \<and>
    (g \<in> set (fs_bulk s) \<and> length (fs_bulk s1) < length (fs_bulk s) \<or>
     g \<in> set (fs_high s) \<and> int (length (takeWhile Not log)) < interactiveBurst (fs_cfg s) \<and>
     now - fg_queued (fs_grants s (fs_bulk s ! 0)) < bulkAge (fs_cfg s))"
proof (rule pick_cases [of now s], goal_cases)
  case 1
  then show ?case using assms by auto
next
  case (2 g b)
  then have "g \<in> set (fs_bulk s)" by (metis set_mset_mset union_single_eq_member add_mset_add_single union_commute)
  moreover have "length b < length (fs_bulk s)" using 2(2) by (rule shorter)
  ultimately show ?case using 2(1) busy_grant [OF assms(1,2) 2(1)] by simp
next
  case (3 g h)
  then have "g \<in> set (fs_high s)" by (metis set_mset_mset union_single_eq_member add_mset_add_single union_commute)
  moreover have "\<not> chooseBulk now s" using 3(4) assms by blast
  moreover have "fs_bulk s \<noteq> []" using assms(3) by auto
  ultimately show ?case using 3(1) busy_grant [OF assms(1,2) 3(1)] highRun_log(2) [OF assms(1)] by (simp add: chooseBulk_def linorder_not_le)
qed

text \<open>One slot, one urgent grant in a row: the second request of a bulk flow is granted before its first, which was taken for urgent, because another flow's urgent one came before.\<close>

definition starving :: flowScheduler where
  "starving = release_returned 0 (snd (request 6 ClassBulk 10 2 (snd (request 6 ClassBulk 10 1 (snd (request 5 ClassNew 10 0 (newFlowScheduler narrow)))))))"

lemmas sched_eval = request_def request_queued_def newFlowScheduler_def narrow_def withDefaults_def dispatchLocked.simps dispatch_pick_def chooseBulk_def
  pick_high_def pick_bulk_def takeEligibleLocked_def skips_def dispatch_grant_def close_ready_def remove_at_def new_state_def no_grant_def
  ClassBulk_def ClassNew_def ClassInteractive_def release_returned_def return_grant_def Let_def

lemma starving_state: "fs_active starving = 0" "maxActive (fs_cfg starving) = 1" "fs_high starving = [1]" "fs_bulk starving = [2]" "fs_highRun starving = 1" "interactiveBurst (fs_cfg starving) = 1"
  "\<not> skips starving 2"
  by (simp_all add: starving_def sched_eval)

lemma starving_run: "\<exists>log. fs_busy 3 log starving"
proof -
  let ?s = "snd (request 6 ClassBulk 10 2 (snd (request 6 ClassBulk 10 1 (snd (request 5 ClassNew 10 0 (newFlowScheduler narrow))))))"
  have "fs_reach ?s" by (intro fs_reach.ask fs_reach.new)
  then obtain log where "fs_run log ?s" using reach_run by blast
  moreover have "0 < fs_next ?s" "fg_granted (fs_grants ?s 0)" "fg_done (fs_grants ?s 0) = None" by (simp_all add: sched_eval)
  ultimately show ?thesis unfolding starving_def using run_give_back by blast
qed

theorem bulk_not_starved_witness: "\<exists>s1. dispatch_pick 3 starving = (Some 2, s1)"
proof -
  obtain log where log: "fs_busy 3 log starving" using starving_run by blast
  then have "int (length (takeWhile Not log)) = 1" using highRun_log(2) starving_state(5) by simp
  then show ?thesis using bulk_not_starved [OF log, of 2] starving_state by auto
qed

text \<open>After \<open>closeFlow\<close> the flow has no state and none of its requests waits or is outstanding.\<close>

lemma closed_flow_gone:
  assumes "fs_reach s" "fs_closeFlow f now s = (e, s')" "fg_flowID (fs_grants s' g) = f"
  shows "fs_states s' f = None \<and> \<not> live s' g \<and> outstanding s' f = {}"
proof -
  have k: "fs_inv s'" "fs_states s' f = None" using closeFlow_inv [OF _ _ assms(2)] fs_reach_inv [OF assms(1)] by blast+
  then have c: "core (waiting_grants s') s'" by (simp add: fs_inv_def)
  have "\<not> known_flow s' g" using k(2) assms(3) by (simp add: known_flow_def)
  then have "\<not> live s' g" using coreD(1-3) [OF c, of g] by (auto simp: granted_set_def)
  moreover have "outstanding s' f = {}" using coreD(3) [OF c] k(2) by (auto simp: outstanding_def known_flow_def)
  ultimately show ?thesis using k(2) by blast
qed

end
