(* ===== verification/NetAddr.thy ===== *)
theory NetAddr
  imports Session
begin

text \<open>
  What the program uses of \<^verbatim>\<open>net\<close> and \<^verbatim>\<open>net/netip\<close>: the textual form of an address, its parser, the classes of
  addresses and prefixes. An address is four or sixteen bytes.
\<close>

section \<open>Text\<close>

abbreviation dot :: byte where "dot \<equiv> 46"
abbreviation percent :: byte where "percent \<equiv> 37"

definition v4_prefix :: bytes where
  "v4_prefix = replicate 10 0 @ [0xff, 0xff]"

definition To4 :: "bytes \<Rightarrow> bytes option" where
  "To4 ip = (if length ip = 4 then Some ip else if length ip = 16 \<and> take 12 ip = v4_prefix then Some (drop 12 ip) else None)"

definition To16 :: "bytes \<Rightarrow> bytes option" where
  "To16 ip = (if length ip = 4 then Some (v4_prefix @ ip) else if length ip = 16 then Some ip else None)"

definition dotted :: "bytes \<Rightarrow> bytes" where
  "dotted ip = digits (unat (ip ! 0)) @ dot # digits (unat (ip ! 1)) @ dot # digits (unat (ip ! 2)) @ dot # digits (unat (ip ! 3))"

definition hex_digit :: "nat \<Rightarrow> byte" where
  "hex_digit n = (if n < 10 then word_of_nat (48 + n) else word_of_nat (87 + n))"

fun hex :: "nat \<Rightarrow> bytes" where
  "hex n = (if n < 16 then [hex_digit n] else hex (n div 16) @ [hex_digit (n mod 16)])"

declare hex.simps [simp del]

fun groups :: "bytes \<Rightarrow> nat list" where
  "groups (a # b # rest) = (unat a * 256 + unat b) # groups rest"
| "groups _ = []"

definition zero_run :: "nat list \<Rightarrow> nat \<Rightarrow> nat" where
  "zero_run gs i = length (takeWhile (\<lambda>g. g = 0) (drop i gs))"

text \<open>The first longest run of at least two zero groups.\<close>

definition ellipsis_at :: "nat list \<Rightarrow> (nat \<times> nat) option" where
  "ellipsis_at gs =
     foldl (\<lambda>best i. let n = zero_run gs i in
              if n \<ge> 2 \<and> (case best of None \<Rightarrow> True | Some (_, m) \<Rightarrow> n > m) then Some (i, n) else best) None [0..<length gs]"

definition colons :: "nat list \<Rightarrow> bytes" where
  "colons gs = concat (map (\<lambda>i. (if i = 0 then [] else [colon]) @ hex (gs ! i)) [0..<length gs])"

definition string6 :: "bytes \<Rightarrow> bytes" where
  "string6 ip =
     (let gs = groups ip in
      case ellipsis_at gs of
        None \<Rightarrow> colons gs
      | Some (i, n) \<Rightarrow> colons (take i gs) @ [colon, colon] @ colons (drop (i + n) gs))"

definition ip_String :: "bytes \<Rightarrow> bytes" where
  "ip_String ip =
     (case To4 ip of
        Some v4 \<Rightarrow> dotted v4
      | None \<Rightarrow> if length ip = 16 then string6 ip
               else if ip = [] then [60, 110, 105, 108, 62]
               else 63 # concat (map (\<lambda>b. [hex_digit (unat b div 16), hex_digit (unat b mod 16)]) ip))"

section \<open>The parser\<close>

fun split_on :: "byte \<Rightarrow> bytes \<Rightarrow> bytes list" where
  "split_on b [] = [[]]"
| "split_on b (x # xs) = (if x = b then [] # split_on b xs else (case split_on b xs of y # ys \<Rightarrow> (x # y) # ys | [] \<Rightarrow> [[x]]))"

definition octet :: "bytes \<Rightarrow> byte option" where
  "octet f = (if f = [] \<or> list_ex (\<lambda>d. \<not> is_digit d) f \<or> length f > 1 \<and> f ! 0 = 48 \<or> decimal f > 255 then None else Some (word_of_nat (decimal f)))"

definition parseIPv4Fields :: "bytes \<Rightarrow> bytes option" where
  "parseIPv4Fields s =
     (let fs = map octet (split_on dot s) in if length fs \<noteq> 4 \<or> None \<in> set fs then None else Some (map the fs))"

definition hex_value :: "byte \<Rightarrow> nat option" where
  "hex_value b =
     (let n = unat b in
      if 48 \<le> n \<and> n \<le> 57 then Some (n - 48) else if 97 \<le> n \<and> n \<le> 102 then Some (n - 87)
      else if 65 \<le> n \<and> n \<le> 70 then Some (n - 55) else None)"

definition hex_run :: "bytes \<Rightarrow> bytes" where
  "hex_run s = takeWhile (\<lambda>b. hex_value b \<noteq> None) s"

definition hex_number :: "bytes \<Rightarrow> nat" where
  "hex_number s = foldl (\<lambda>a b. a * 16 + the (hex_value b)) 0 s"

text \<open>The loop over the groups: \<open>ip\<close> holds the bytes so far, \<open>ell\<close> where the ellipsis stood.\<close>

function parse6 :: "bytes \<Rightarrow> bytes \<Rightarrow> nat option \<Rightarrow> (bytes \<times> bytes \<times> nat option) option" where
  "parse6 s ip ell =
     (if length ip \<ge> 16 then Some (s, ip, ell)
      else
        let run = hex_run s; rest = drop (length run) s in
        if run = [] \<or> length run > 4 then None
        else if rest \<noteq> [] \<and> rest ! 0 = dot then
          (if ell = None \<and> length ip \<noteq> 12 \<or> length ip + 4 > 16 then None
           else (case parseIPv4Fields s of None \<Rightarrow> None | Some v4 \<Rightarrow> Some ([], ip @ v4, ell)))
        else
          let acc = hex_number run; ip1 = ip @ [word_of_nat (acc div 256), word_of_nat (acc mod 256)] in
          if rest = [] then Some ([], ip1, ell)
          else if rest ! 0 \<noteq> colon \<or> length rest = 1 then None
          else
            let s1 = drop 1 rest in
            if s1 ! 0 = colon then
              (if ell \<noteq> None then None
               else let s2 = drop 1 s1 in if s2 = [] then Some ([], ip1, Some (length ip1)) else parse6 s2 ip1 (Some (length ip1)))
            else parse6 s1 ip1 ell)"
  by pat_completeness auto
termination
  by (relation "measure (\<lambda>(s, ip, ell). length s)") auto

declare parse6.simps [simp del]

definition parseIPv6 :: "bytes \<Rightarrow> bytes option" where
  "parseIPv6 s0 =
     (let leading = (length s0 \<ge> 2 \<and> s0 ! 0 = colon \<and> s0 ! 1 = colon);
          s = (if leading then drop 2 s0 else s0)
      in if leading \<and> s = [] then Some (replicate 16 0)
         else case parse6 s [] (if leading then Some 0 else None) of
           None \<Rightarrow> None
         | Some (rest, ip, ell) \<Rightarrow>
             if rest \<noteq> [] then None
             else if length ip < 16 then
               (case ell of None \<Rightarrow> None | Some e \<Rightarrow> Some (take e ip @ replicate (16 - length ip) 0 @ drop e ip))
             else if ell \<noteq> None then None else Some ip)"

text \<open>An address with a zone is refused.\<close>

definition ParseIP :: "bytes \<Rightarrow> bytes option" where
  "ParseIP s =
     (case find (\<lambda>b. b = dot \<or> b = colon \<or> b = percent) s of
        None \<Rightarrow> None
      | Some b \<Rightarrow>
          if b = dot then map_option (\<lambda>v4. v4_prefix @ v4) (parseIPv4Fields s)
          else if b = colon then (if percent \<in> set s then None else parseIPv6 s)
          else None)"

section \<open>Classes of addresses\<close>

text \<open>The predicates of \<^verbatim>\<open>netip.Addr\<close>, on an address without a zone.\<close>

definition Unmap :: "bytes \<Rightarrow> bytes" where
  "Unmap a = (if length a = 16 \<and> take 12 a = v4_prefix then drop 12 a else a)"

definition IsLoopback :: "bytes \<Rightarrow> bool" where
  "IsLoopback a = (if length a = 4 then a ! 0 = 127 else a = replicate 15 0 @ [1])"

definition IsMulticast :: "bytes \<Rightarrow> bool" where
  "IsMulticast a = (if length a = 4 then a ! 0 AND 0xF0 = 0xE0 else a ! 0 = 0xFF)"

definition IsLinkLocalMulticast :: "bytes \<Rightarrow> bool" where
  "IsLinkLocalMulticast a =
     (if length a = 4 then a ! 0 = 224 \<and> a ! 1 = 0 \<and> a ! 2 = 0 else a ! 0 = 0xFF \<and> a ! 1 AND 0x0F = 0x02)"

definition IsLinkLocalUnicast :: "bytes \<Rightarrow> bool" where
  "IsLinkLocalUnicast a = (if length a = 4 then a ! 0 = 169 \<and> a ! 1 = 254 else a ! 0 = 0xFE \<and> a ! 1 AND 0xC0 = 0x80)"

definition IsPrivate :: "bytes \<Rightarrow> bool" where
  "IsPrivate a =
     (if length a = 4 then a ! 0 = 10 \<or> a ! 0 = 172 \<and> a ! 1 AND 0xF0 = 16 \<or> a ! 0 = 192 \<and> a ! 1 = 168
      else a ! 0 AND 0xFE = 0xFC)"

definition IsUnspecified :: "bytes \<Rightarrow> bool" where
  "IsUnspecified a \<longleftrightarrow> a = replicate 4 0 \<or> a = replicate 16 0"

definition IsGlobalUnicast :: "bytes \<Rightarrow> bool" where
  "IsGlobalUnicast a \<longleftrightarrow>
     \<not> (length a = 4 \<and> (a = replicate 4 0 \<or> a = replicate 4 0xFF)) \<and>
     a \<noteq> replicate 16 0 \<and> \<not> IsLoopback a \<and> \<not> IsMulticast a \<and> \<not> IsLinkLocalUnicast a"

definition addr_num :: "bytes \<Rightarrow> nat" where
  "addr_num a = foldl (\<lambda>n b. n * 256 + unat b) 0 a"

text \<open>A prefix is its address and its length; only an address of the same family is inside.\<close>

definition prefix_Contains :: "bytes \<times> nat \<Rightarrow> bytes \<Rightarrow> bool" where
  "prefix_Contains p a \<longleftrightarrow> length (fst p) = length a \<and>
     addr_num (fst p) div 2 ^ (8 * length a - snd p) = addr_num a div 2 ^ (8 * length a - snd p)"

end
