(* ===== verification/Socks5.thy ===== *)
theory Socks5
  imports NetAddr
begin

text \<open>
  The local SOCKS5 front, \<^verbatim>\<open>internal/socks5/socks5.go\<close>. A connection is the bytes the client has yet to send, read by
  \<^verbatim>\<open>io.ReadFull\<close>, and the state of its writer; an operation returns an error or a value with the connection after
  it. A string is its bytes.
\<close>

section \<open>Values\<close>

definition version5 :: byte where "version5 = 5"
definition methodNone :: byte where "methodNone = 0"
definition methodUserPass :: byte where "methodUserPass = 2"
definition methodNoneAcceptable :: byte where "methodNoneAcceptable = 0xff"
definition userPassVersion :: byte where "userPassVersion = 1"
definition userPassSuccess :: byte where "userPassSuccess = 0"
definition userPassFailure :: byte where "userPassFailure = 1"
definition maxUserPassFieldLength :: nat where "maxUserPassFieldLength = 255"
definition CommandConnect :: byte where "CommandConnect = 1"
definition CommandUDPAssociate :: byte where "CommandUDPAssociate = 3"
definition ReplyCommandNotSupported :: byte where "ReplyCommandNotSupported = 7"
definition ReplyAddressTypeUnsupported :: byte where "ReplyAddressTypeUnsupported = 8"
definition udpHeaderSize :: nat where "udpHeaderSize = 4"
definition maxUDPDatagramSize :: nat where "maxUDPDatagramSize = 65507"
definition maxUDPDomainLength :: nat where "maxUDPDomainLength = 255"

datatype socks_error =
    UnexpectedEOF | WriterFailed | ShortWrite | WriterOverrun
  | EmptyUsername | UsernameTooLong | PasswordTooLong
  | InvalidGreeting | MethodNotOffered | AuthenticationVersion | EmptyPresentedUsername | AuthenticationRejected
  | InvalidRequestHeader | CommandUnsupported | EmptyDomain | AddressTypeUnsupported | ZeroPort
  | DatagramLength | DatagramReserved | DatagramFragmented | DatagramDomain | DatagramPort
  | PayloadTooLarge | InvalidUDPTarget | InvalidUDPPort | DomainLength

record Request =
  Command :: byte
  rq_Destination :: bytes

record Credentials =
  Username :: bytes
  Password :: bytes

record UDPDatagram =
  dg_Destination :: bytes
  dg_Payload :: bytes

definition cred_Validate :: "Credentials option \<Rightarrow> socks_error option" where
  "cred_Validate c =
     (case c of
        None \<Rightarrow> None
      | Some c \<Rightarrow>
          if Username c = [] then Some EmptyUsername
          else if length (Username c) > maxUserPassFieldLength then Some UsernameTooLong
          else if length (Password c) > maxUserPassFieldLength then Some PasswordTooLong
          else None)"

text \<open>\<^verbatim>\<open>subtle.ConstantTimeCompare\<close> is 1 on equal slices and 0 otherwise.\<close>

definition ConstantTimeCompare :: "bytes \<Rightarrow> bytes \<Rightarrow> int" where
  "ConstantTimeCompare x y = (if x = y then 1 else 0)"

definition cred_matches :: "Credentials \<Rightarrow> bytes \<Rightarrow> bytes \<Rightarrow> bool" where
  "cred_matches c username password =
     (let user = ConstantTimeCompare (Username c) username; pass = ConstantTimeCompare (Password c) password in user AND pass = 1)"

section \<open>Connections\<close>

record 's socks_conn =
  sc_in :: bytes
  sc_out :: 's

text \<open>Sequencing: an error ends the operation with the connection as it stands.\<close>

definition andThen :: "('s socks_conn \<Rightarrow> (socks_error + 'a) \<times> 's socks_conn) \<Rightarrow> ('a \<Rightarrow> 's socks_conn \<Rightarrow> (socks_error + 'b) \<times> 's socks_conn)
    \<Rightarrow> 's socks_conn \<Rightarrow> (socks_error + 'b) \<times> 's socks_conn" where
  "andThen m f c = (case m c of (Inl e, c1) \<Rightarrow> (Inl e, c1) | (Inr x, c1) \<Rightarrow> f x c1)"

definition fail_with :: "socks_error \<Rightarrow> 's socks_conn \<Rightarrow> (socks_error + 'a) \<times> 's socks_conn" where
  "fail_with e c = (Inl e, c)"

definition give :: "'a \<Rightarrow> 's socks_conn \<Rightarrow> (socks_error + 'a) \<times> 's socks_conn" where
  "give x c = (Inr x, c)"

definition ReadFull :: "nat \<Rightarrow> 's socks_conn \<Rightarrow> (socks_error + bytes) \<times> 's socks_conn" where
  "ReadFull n c =
     (if n \<le> length (sc_in c) then (Inr (take n (sc_in c)), c\<lparr>sc_in := drop n (sc_in c)\<rparr>) else (Inl UnexpectedEOF, c\<lparr>sc_in := []\<rparr>))"

text \<open>The writer returns how much it took and whether it failed; a count beyond the slice panics in the source.\<close>

function socks_writeFull :: "'s writer \<Rightarrow> 's \<Rightarrow> bytes \<Rightarrow> socks_error option \<times> 's" where
  "socks_writeFull wr s p =
     (if p = [] then (None, s)
      else case wr s p of (n, err, s1) \<Rightarrow>
        if n > length p then (Some WriterOverrun, s1) else if err then (Some WriterFailed, s1) else if n = 0 then (Some ShortWrite, s1) else socks_writeFull wr s1 (drop n p))"
  by pat_completeness auto
termination
  by (relation "measure (\<lambda>(wr, s, p). length p)") auto

declare socks_writeFull.simps [simp del]

definition put_bytes :: "'s writer \<Rightarrow> bytes \<Rightarrow> 's socks_conn \<Rightarrow> (socks_error + unit) \<times> 's socks_conn" where
  "put_bytes wr p c =
     (case socks_writeFull wr (sc_out c) p of
        (None, s) \<Rightarrow> (Inr (), c\<lparr>sc_out := s\<rparr>)
      | (Some e, s) \<Rightarrow> (Inl e, c\<lparr>sc_out := s\<rparr>))"

text \<open>A write whose error is dropped.\<close>

definition try_put :: "'s writer \<Rightarrow> bytes \<Rightarrow> 's socks_conn \<Rightarrow> (socks_error + unit) \<times> 's socks_conn" where
  "try_put wr p c = (Inr (), snd (put_bytes wr p c))"

text \<open>\<open>negotiateMethod\<close> writes its refusal with one call of the writer.\<close>

definition write_once :: "'s writer \<Rightarrow> bytes \<Rightarrow> 's socks_conn \<Rightarrow> (socks_error + unit) \<times> 's socks_conn" where
  "write_once wr p c = (Inr (), c\<lparr>sc_out := snd (snd (wr (sc_out c) p))\<rparr>)"

definition reply_bytes :: "byte \<Rightarrow> (bytes \<times> int) option \<Rightarrow> bytes" where
  "reply_bytes code bound =
     (let (ip, port) = (case bound of None \<Rightarrow> (v4_prefix @ [0, 0, 0, 0], 0) | Some a \<Rightarrow> a) in
      case To4 ip of
        Some ip4 \<Rightarrow> [version5, code, 0, 1] @ ip4 @ put_be 2 (word_of_int port :: u16)
      | None \<Rightarrow> [version5, code, 0, 4] @ (case To16 ip of Some ip16 \<Rightarrow> ip16 | None \<Rightarrow> replicate 16 0) @ put_be 2 (word_of_int port :: u16))"

definition WriteReply :: "'s writer \<Rightarrow> byte \<Rightarrow> (bytes \<times> int) option \<Rightarrow> 's socks_conn \<Rightarrow> (socks_error + unit) \<times> 's socks_conn" where
  "WriteReply wr code bound = put_bytes wr (reply_bytes code bound)"

definition WriteMethodUnavailable :: "'s writer \<Rightarrow> 's socks_conn \<Rightarrow> (socks_error + unit) \<times> 's socks_conn" where
  "WriteMethodUnavailable wr = put_bytes wr [version5, methodNoneAcceptable]"

definition try_reply :: "'s writer \<Rightarrow> byte \<Rightarrow> 's socks_conn \<Rightarrow> (socks_error + unit) \<times> 's socks_conn" where
  "try_reply wr code c = (Inr (), snd (WriteReply wr code None c))"

section \<open>The handshake\<close>

definition authenticate :: "'s writer \<Rightarrow> Credentials \<Rightarrow> 's socks_conn \<Rightarrow> (socks_error + unit) \<times> 's socks_conn" where
  "authenticate wr credentials =
     andThen (ReadFull 2) (\<lambda>prefix.
       if prefix ! 0 \<noteq> userPassVersion then andThen (try_put wr [userPassVersion, userPassFailure]) (\<lambda>_. fail_with AuthenticationVersion)
       else if prefix ! 1 = 0 then andThen (try_put wr [userPassVersion, userPassFailure]) (\<lambda>_. fail_with EmptyPresentedUsername)
       else
         andThen (ReadFull (unat (prefix ! 1))) (\<lambda>username.
         andThen (ReadFull 1) (\<lambda>passwordLength.
         andThen (ReadFull (unat (passwordLength ! 0))) (\<lambda>password.
           if \<not> cred_matches credentials username password
           then andThen (try_put wr [userPassVersion, userPassFailure]) (\<lambda>_. fail_with AuthenticationRejected)
           else put_bytes wr [userPassVersion, userPassSuccess]))))"

definition negotiateMethod :: "'s writer \<Rightarrow> Credentials option \<Rightarrow> 's socks_conn \<Rightarrow> (socks_error + unit) \<times> 's socks_conn" where
  "negotiateMethod wr credentials =
     (let required = (if credentials \<noteq> None then methodUserPass else methodNone) in
      andThen (ReadFull 2) (\<lambda>greeting.
        if greeting ! 0 \<noteq> version5 \<or> greeting ! 1 = 0 then fail_with InvalidGreeting
        else
          andThen (ReadFull (unat (greeting ! 1))) (\<lambda>methods.
            if required \<notin> set methods then andThen (write_once wr [version5, methodNoneAcceptable]) (\<lambda>_. fail_with MethodNotOffered)
            else
              andThen (put_bytes wr [version5, required]) (\<lambda>_.
                case credentials of None \<Rightarrow> give () | Some c \<Rightarrow> authenticate wr c))))"

definition readHost :: "byte \<Rightarrow> 's socks_conn \<Rightarrow> (socks_error + bytes) \<times> 's socks_conn" where
  "readHost addressType =
     (if addressType = 1 then andThen (ReadFull 4) (\<lambda>ip. give (ip_String ip))
      else if addressType = 3 then
        andThen (ReadFull 1) (\<lambda>len. if len ! 0 = 0 then fail_with EmptyDomain else ReadFull (unat (len ! 0)))
      else if addressType = 4 then andThen (ReadFull 16) (\<lambda>ip. give (ip_String ip))
      else fail_with AddressTypeUnsupported)"

definition ReadRequest :: "'s writer \<Rightarrow> Credentials option \<Rightarrow> 's socks_conn \<Rightarrow> (socks_error + Request) \<times> 's socks_conn" where
  "ReadRequest wr credentials c0 =
     (case cred_Validate credentials of
        Some e \<Rightarrow> (Inl e, c0)
      | None \<Rightarrow>
          andThen (negotiateMethod wr credentials) (\<lambda>_.
          andThen (ReadFull 4) (\<lambda>header.
            if header ! 0 \<noteq> version5 \<or> header ! 2 \<noteq> 0 then fail_with InvalidRequestHeader
            else if header ! 1 \<noteq> CommandConnect \<and> header ! 1 \<noteq> CommandUDPAssociate
            then andThen (try_reply wr ReplyCommandNotSupported) (\<lambda>_. fail_with CommandUnsupported)
            else
              (\<lambda>c. case readHost (header ! 3) c of
                 (Inl e, c1) \<Rightarrow> andThen (try_reply wr ReplyAddressTypeUnsupported) (\<lambda>_. fail_with e) c1
               | (Inr host, c1) \<Rightarrow>
                   andThen (ReadFull 2) (\<lambda>portBytes.
                     let port = (get_be portBytes :: u16) in
                     if port = 0 \<and> header ! 1 = CommandConnect
                     then andThen (try_reply wr ReplyAddressTypeUnsupported) (\<lambda>_. fail_with ZeroPort)
                     else give \<lparr>Command = header ! 1, rq_Destination = JoinHostPort host (Itoa (uint port))\<rparr>) c1))) c0)"

section \<open>Datagrams\<close>

definition readHostBytes :: "bytes \<Rightarrow> byte \<Rightarrow> socks_error + (bytes \<times> nat)" where
  "readHostBytes packet addressType =
     (if addressType = 1 then (if length packet < 4 then Inl UnexpectedEOF else Inr (ip_String (take 4 packet), 4))
      else if addressType = 3 then
        (if length packet < 1 then Inl UnexpectedEOF
         else let len = unat (packet ! 0) in
           if len = 0 \<or> len > maxUDPDomainLength \<or> length packet < 1 + len then Inl DatagramDomain
           else Inr (take len (drop 1 packet), 1 + len))
      else if addressType = 4 then (if length packet < 16 then Inl UnexpectedEOF else Inr (ip_String (take 16 packet), 16))
      else Inl AddressTypeUnsupported)"

definition ReadUDPDatagram :: "bytes \<Rightarrow> socks_error + UDPDatagram" where
  "ReadUDPDatagram packet =
     (if length packet < udpHeaderSize + 2 \<or> length packet > maxUDPDatagramSize then Inl DatagramLength
      else if packet ! 0 \<noteq> 0 \<or> packet ! 1 \<noteq> 0 then Inl DatagramReserved
      else if packet ! 2 \<noteq> 0 then Inl DatagramFragmented
      else (case readHostBytes (drop udpHeaderSize packet) (packet ! 3) of
              Inl e \<Rightarrow> Inl e
            | Inr (host, used) \<Rightarrow>
                let portOffset = udpHeaderSize + used in
                if portOffset + 2 > length packet then Inl UnexpectedEOF
                else
                  let port = (get_be (take 2 (drop portOffset packet)) :: u16) in
                  if port = 0 then Inl DatagramPort
                  else Inr \<lparr>dg_Destination = JoinHostPort host (Itoa (uint port)), dg_Payload = drop (portOffset + 2) packet\<rparr>))"

definition encodeHost :: "bytes \<Rightarrow> socks_error + bytes" where
  "encodeHost host =
     (case ParseIP host of
        Some ip \<Rightarrow> (case To4 ip of Some ip4 \<Rightarrow> Inr (1 # ip4) | None \<Rightarrow> Inr (4 # ip))
      | None \<Rightarrow> if length host = 0 \<or> length host > maxUDPDomainLength then Inl DomainLength
               else Inr (3 # word_of_nat (length host) # host))"

definition datagram_bytes :: "bytes \<Rightarrow> bytes \<Rightarrow> socks_error + bytes" where
  "datagram_bytes destination payload =
     (if length payload > maxUDPDatagramSize then Inl PayloadTooLarge
      else (case SplitHostPort destination of
              None \<Rightarrow> Inl InvalidUDPTarget
            | Some (host, portText) \<Rightarrow>
                if host = [] then Inl InvalidUDPTarget
                else (case Atoi portText of
                        None \<Rightarrow> Inl InvalidUDPPort
                      | Some port \<Rightarrow>
                          if port < 1 \<or> port > 65535 then Inl InvalidUDPPort
                          else (case encodeHost host of
                                  Inl e \<Rightarrow> Inl e
                                | Inr address \<Rightarrow> Inr ([0, 0, 0] @ address @ put_be 2 (word_of_int port :: u16) @ payload)))))"

definition WriteUDPDatagram :: "'s writer \<Rightarrow> 's \<Rightarrow> bytes \<Rightarrow> bytes \<Rightarrow> socks_error option \<times> 's" where
  "WriteUDPDatagram wr s destination payload =
     (case datagram_bytes destination payload of Inl e \<Rightarrow> (Some e, s) | Inr packet \<Rightarrow> socks_writeFull wr s packet)"

section \<open>Who is let in\<close>

lemma andThen_ok: "andThen m f c = (Inr y, c') \<longleftrightarrow> (\<exists>x c1. m c = (Inr x, c1) \<and> f x c1 = (Inr y, c'))"
  by (auto simp: andThen_def split: prod.splits sum.splits)

lemma ReadFull_ok: "ReadFull n c = (Inr x, c') \<longleftrightarrow> sc_in c = x @ sc_in c' \<and> length x = n \<and> sc_out c' = sc_out c"
proof -
  obtain i w i' w' where c: "c = \<lparr>sc_in = i, sc_out = w\<rparr>" "c' = \<lparr>sc_in = i', sc_out = w'\<rparr>" by (cases c; cases c')
  show ?thesis unfolding c ReadFull_def by (auto simp: append_eq_conv_conj)
qed

lemma fail_ok [simp]: "fail_with e c \<noteq> (Inr y, c')"
  by (simp add: fail_with_def)

lemma try_fail [simp]: "andThen m (\<lambda>_. fail_with e) c \<noteq> (Inr y, c')"
  by (simp add: andThen_ok)

lemma put_in: "put_bytes wr p c = (r, c') \<Longrightarrow> sc_in c' = sc_in c"
  by (auto simp: put_bytes_def split: prod.splits option.splits)

lemma matches_iff: "cred_matches c u p \<longleftrightarrow> u = Username c \<and> p = Password c"
  by (auto simp: cred_matches_def ConstantTimeCompare_def)

lemma two: "length x = 2 \<Longrightarrow> \<exists>a b. x = [a, b]" "length x = 1 \<Longrightarrow> \<exists>a. x = [a]"
  by (auto simp: numeral_2_eq_2 length_Suc_conv)

lemma authenticate_ok:
  assumes "authenticate wr cr c = (Inr (), c')"
  shows "sc_in c = [userPassVersion, word_of_nat (length (Username cr))] @ Username cr @ [word_of_nat (length (Password cr))] @ Password cr @ sc_in c'"
proof -
  obtain pre c1 u c2 l c3 p c4 where
    r: "ReadFull 2 c = (Inr pre, c1)" "ReadFull (unat (pre ! 1)) c1 = (Inr u, c2)" "ReadFull 1 c2 = (Inr l, c3)" "ReadFull (unat (l ! 0)) c3 = (Inr p, c4)"
    and v: "pre ! 0 = userPassVersion" "cred_matches cr u p" "put_bytes wr [userPassVersion, userPassSuccess] c4 = (Inr (), c')"
    using assms unfolding authenticate_def andThen_ok by (auto simp: andThen_ok split: if_splits)
  have f: "sc_in c = pre @ u @ l @ p @ sc_in c'" "length pre = 2" "length l = 1" "length u = unat (pre ! 1)" "length p = unat (l ! 0)"
    using r put_in [OF v(3)] by (auto simp: ReadFull_ok)
  have "pre = [userPassVersion, word_of_nat (length u)]" "l = [word_of_nat (length p)]"
    using f(4,5) two(1) [OF f(2)] two(2) [OF f(3)] v(1) by auto
  then show ?thesis using v(2) f(1) by (simp add: matches_iff)
qed

lemma negotiate_ok:
  assumes "negotiateMethod wr (Some cr) c = (Inr (), c')"
  shows "\<exists>methods. sc_in c = [version5, word_of_nat (length methods)] @ methods @ [userPassVersion, word_of_nat (length (Username cr))] @ Username cr @
    [word_of_nat (length (Password cr))] @ Password cr @ sc_in c' \<and> methodUserPass \<in> set methods"
proof -
  obtain g c1 ms c2 c3 where r: "ReadFull 2 c = (Inr g, c1)" "ReadFull (unat (g ! 1)) c1 = (Inr ms, c2)" and v: "g ! 0 = version5" "methodUserPass \<in> set ms"
      "put_bytes wr [version5, methodUserPass] c2 = (Inr (), c3)" "authenticate wr cr c3 = (Inr (), c')"
    using assms unfolding negotiateMethod_def Let_def andThen_ok by (auto simp: andThen_ok split: if_splits)
  have f: "sc_in c = g @ ms @ sc_in c3" "length g = 2" "length ms = unat (g ! 1)" using r put_in [OF v(3)] by (auto simp: ReadFull_ok)
  have "g = [version5, word_of_nat (length ms)]" using f(3) two(1) [OF f(2)] v(1) by auto
  then show ?thesis using f(1) authenticate_ok [OF v(4)] v(2) by (intro exI [of _ ms]) simp
qed

text \<open>C22: no request without the credentials. When a listener has credentials, a request is read only from a client that offered
  username and password among its methods and then sent exactly the configured pair; what else it offered,
  and in which order, makes no difference.\<close>

theorem request_needs_credentials:
  assumes "ReadRequest wr (Some cr) c = (Inr rq, c')"
  shows "\<exists>methods rest. sc_in c = [version5, word_of_nat (length methods)] @ methods @ [userPassVersion, word_of_nat (length (Username cr))] @ Username cr @
    [word_of_nat (length (Password cr))] @ Password cr @ rest \<and> methodUserPass \<in> set methods"
proof -
  have "cred_Validate (Some cr) = None" using assms by (auto simp: ReadRequest_def split: option.splits)
  then obtain c1 where "negotiateMethod wr (Some cr) c = (Inr (), c1)" using assms by (auto simp: ReadRequest_def andThen_ok)
  from negotiate_ok [OF this] show ?thesis by blast
qed

section \<open>The whole exchange\<close>

definition append_writer :: "bytes writer" where
  "append_writer s p = (length p, False, s @ p)"

lemma append_put [simp]: "put_bytes append_writer p c = (Inr (), c\<lparr>sc_out := sc_out c @ p\<rparr>)"
proof -
  have "socks_writeFull append_writer (sc_out c) p = (None, sc_out c @ p)"
    by (subst socks_writeFull.simps) (simp add: append_writer_def socks_writeFull.simps [of _ _ "[]"])
  then show ?thesis by (simp add: put_bytes_def)
qed

lemma append_then [simp]: "andThen (put_bytes append_writer p) f c = f () (c\<lparr>sc_out := sc_out c @ p\<rparr>)"
  by (simp add: andThen_def)

lemma read_next [simp]: "sc_in c = x @ y \<Longrightarrow> length x = n \<Longrightarrow> andThen (ReadFull n) f c = f x (c\<lparr>sc_in := y\<rparr>)"
  by (simp add: andThen_def ReadFull_def)

lemma read_few [simp]:
  "andThen (ReadFull (Suc 0)) f \<lparr>sc_in = a # y, sc_out = w\<rparr> = f [a] \<lparr>sc_in = y, sc_out = w\<rparr>"
  "andThen (ReadFull 2) f \<lparr>sc_in = a # b # y, sc_out = w\<rparr> = f [a, b] \<lparr>sc_in = y, sc_out = w\<rparr>"
  "andThen (ReadFull 4) f \<lparr>sc_in = a # b # c # d # y, sc_out = w\<rparr> = f [a, b, c, d] \<lparr>sc_in = y, sc_out = w\<rparr>"
  by (simp_all add: andThen_def ReadFull_def numeral_eq_Suc)

lemma byte_length: "n < 256 \<Longrightarrow> unat (word_of_nat n :: byte) = n"
  by (simp add: unat_of_nat)

lemma byte_nonzero: "0 < n \<Longrightarrow> n < 256 \<Longrightarrow> (word_of_nat n :: byte) \<noteq> 0"
  by (metis byte_length less_numeral_extra(3) unat_0)

lemma authenticate_reads:
  assumes "cred_Validate (Some cr) = None"
  shows "authenticate append_writer cr \<lparr>sc_in = [userPassVersion, word_of_nat (length (Username cr))] @ Username cr @ [word_of_nat (length (Password cr))] @ Password cr @ rest, sc_out = w\<rparr>
    = (Inr (), \<lparr>sc_in = rest, sc_out = w @ [userPassVersion, userPassSuccess]\<rparr>)"
proof -
  have l: "0 < length (Username cr)" "length (Username cr) < 256" "length (Password cr) < 256"
    using assms by (auto simp: cred_Validate_def maxUserPassFieldLength_def split: if_splits)
  then show ?thesis unfolding authenticate_def by (simp add: byte_length byte_nonzero matches_iff)
qed

lemma negotiate_reads:
  assumes "cred_Validate (Some cr) = None" "methodUserPass \<in> set methods" "length methods < 256"
  shows "negotiateMethod append_writer (Some cr) \<lparr>sc_in = [version5, word_of_nat (length methods)] @ methods @ [userPassVersion, word_of_nat (length (Username cr))] @ Username cr @
      [word_of_nat (length (Password cr))] @ Password cr @ rest, sc_out = w\<rparr> = (Inr (), \<lparr>sc_in = rest, sc_out = w @ [version5, methodUserPass, userPassVersion, userPassSuccess]\<rparr>)"
proof -
  have "0 < length methods" using assms(2) by (cases methods) auto
  then show ?thesis unfolding negotiateMethod_def Let_def
    using assms(2,3) authenticate_reads [OF assms(1), of rest "w @ [version5, methodUserPass]"] by (simp add: byte_length byte_nonzero)
qed

lemma exchange_reads:
  assumes "cred_Validate (Some cr) = None" "methodUserPass \<in> set methods" "length methods < 256" "cmd = CommandConnect \<or> cmd = CommandUDPAssociate"
    "0 < length domain" "length domain < 256" "port \<noteq> 0 \<or> cmd = CommandUDPAssociate"
  shows "ReadRequest append_writer (Some cr) \<lparr>sc_in = [version5, word_of_nat (length methods)] @ methods @ [userPassVersion, word_of_nat (length (Username cr))] @ Username cr @
      [word_of_nat (length (Password cr))] @ Password cr @ [version5, cmd, 0, 3, word_of_nat (length domain)] @ domain @ put_be 2 (port :: u16) @ rest, sc_out = []\<rparr> =
    (Inr \<lparr>Command = cmd, rq_Destination = JoinHostPort domain (Itoa (uint port))\<rparr>,
     \<lparr>sc_in = rest, sc_out = [version5, methodUserPass, userPassVersion, userPassSuccess]\<rparr>)"
proof -
  let ?w = "[version5, methodUserPass, userPassVersion, userPassSuccess]"
  have host: "readHost 3 \<lparr>sc_in = word_of_nat (length domain) # domain @ put_be 2 port @ rest, sc_out = ?w\<rparr> = (Inr domain, \<lparr>sc_in = put_be 2 port @ rest, sc_out = ?w\<rparr>)"
    using assms(5,6) by (simp add: readHost_def byte_length byte_nonzero) (simp add: ReadFull_def)
  have u: "CommandConnect \<noteq> CommandUDPAssociate" by (simp add: CommandConnect_def CommandUDPAssociate_def)
  have p: "andThen (ReadFull 2) f \<lparr>sc_in = put_be 2 port @ rest, sc_out = ?w\<rparr> = f (put_be 2 port) \<lparr>sc_in = rest, sc_out = ?w\<rparr>" for f :: "bytes \<Rightarrow> bytes socks_conn \<Rightarrow> (socks_error + Request) \<times> bytes socks_conn"
    by (simp del: put_be.simps)
  show ?thesis unfolding ReadRequest_def assms(1) option.case
    unfolding andThen_def [of "negotiateMethod append_writer (Some cr)"] negotiate_reads [OF assms(1-3), simplified append_assoc] 
    using assms(4,7) u p by (auto simp: host give_def Let_def simp del: put_be.simps)
qed

text \<open>The whole exchange. A client that offers username and password, presents the configured pair and asks for a domain is answered
  with the method selected and the success of its authentication, nothing else, and the request read is the
  one it sent; the bytes after it are left unread.\<close>

theorem authenticated_exchange:
  assumes "cred_Validate (Some cr) = None" "methodUserPass \<in> set methods" "length methods < 256" "cmd = CommandConnect \<or> cmd = CommandUDPAssociate"
    "0 < length domain" "length domain < 256" "port \<noteq> 0 \<or> cmd = CommandUDPAssociate"
  shows "ReadRequest append_writer (Some cr) \<lparr>sc_in = [version5, word_of_nat (length methods)] @ methods @ [userPassVersion, word_of_nat (length (Username cr))] @ Username cr @
      [word_of_nat (length (Password cr))] @ Password cr @ [version5, cmd, 0, 3, word_of_nat (length domain)] @ domain @ put_be 2 (port :: u16) @ rest, sc_out = []\<rparr> =
    (Inr \<lparr>Command = cmd, rq_Destination = JoinHostPort domain (Itoa (uint port))\<rparr>,
     \<lparr>sc_in = rest, sc_out = [version5, methodUserPass, userPassVersion, userPassSuccess]\<rparr>)"
  using assms by (rule exchange_reads)

definition sample_cred :: Credentials where
  "sample_cred = \<lparr>Username = [117], Password = [112, 119]\<rparr>"

definition sample_conn :: "bytes socks_conn" where
  "sample_conn = \<lparr>sc_in = [5, 2, 0, 2, 1, 1, 117, 2, 112, 119, 5, 1, 0, 3, 1, 97, 0, 80], sc_out = []\<rparr>"

lemma put_80: "put_be 2 (80 :: u16) = [0, 80]"
  unfolding numeral_2_eq_2 put_be.simps by simp

lemma sample_reads: "ReadRequest append_writer (Some sample_cred) sample_conn = (Inr \<lparr>Command = 1, rq_Destination = JoinHostPort [97] (Itoa 80)\<rparr>, \<lparr>sc_in = [], sc_out = [5, 2, 1, 0]\<rparr>)"
  using exchange_reads [of sample_cred "[0, 2]" CommandConnect "[97]" 80 "[]"]
  by (simp add: put_80 sample_cred_def sample_conn_def cred_Validate_def maxUserPassFieldLength_def version5_def methodUserPass_def userPassVersion_def userPassSuccess_def CommandConnect_def del: put_be.simps)

theorem authenticated_exchange_witness:
  "fst (ReadRequest append_writer (Some sample_cred) sample_conn) = Inr \<lparr>Command = 1, rq_Destination = JoinHostPort [97] (Itoa 80)\<rparr>"
  using authenticated_exchange [of sample_cred "[0, 2]" CommandConnect "[97]" 80 "[]"]
  by (simp add: put_80 sample_cred_def sample_conn_def cred_Validate_def maxUserPassFieldLength_def version5_def methodUserPass_def userPassVersion_def userPassSuccess_def CommandConnect_def del: put_be.simps)

theorem request_needs_credentials_witness:
  "\<exists>methods rest. sc_in sample_conn = [5, word_of_nat (length methods)] @ methods @ [1, 1, 117, 2, 112, 119] @ rest \<and> 2 \<in> set methods"
  using request_needs_credentials [OF sample_reads] by (simp add: sample_cred_def version5_def userPassVersion_def methodUserPass_def)

section \<open>Datagrams, there and back\<close>

lemma fields_length: "parseIPv4Fields s = Some v \<Longrightarrow> length v = 4"
  by (auto simp: parseIPv4Fields_def Let_def split: if_splits)

lemma parse6_length: "parse6 s ip ell = Some (r, ip', e) \<Longrightarrow> even (length ip) \<Longrightarrow> length ip \<le> 16 \<Longrightarrow> length ip' \<le> 16"
proof (induction s ip ell rule: parse6.induct)
  case (1 s ip ell)
  show ?case
  proof (cases "length ip \<ge> 16")
    case True
    then show ?thesis using "1.prems" by (simp add: parse6.simps [of s])
  next
    case False
    then have l: "even (length ip + 2)" "length ip + 2 \<le> 16" using "1.prems"(2) by presburger+
    let ?rest = "drop (length (hex_run s)) s" and ?ip = "ip @ [word_of_nat (hex_number (hex_run s) div 256), word_of_nat (hex_number (hex_run s) mod 256)]"
    have "length ip' \<le> 16" if "parse6 (drop 1 ?rest) ?ip ell = Some (r, ip', e)" "hex_run s \<noteq> []" "\<not> length (hex_run s) > 4" "\<not> (?rest \<noteq> [] \<and> ?rest ! 0 = dot)"
        "?rest \<noteq> []" "\<not> (?rest ! 0 \<noteq> colon \<or> length ?rest = 1)" "drop 1 ?rest ! 0 \<noteq> colon"
      using "1.IH"(2) [OF False refl refl _ _ refl refl _ _ refl] that l by simp
    moreover have "length ip' \<le> 16" if "parse6 (drop 1 (drop 1 ?rest)) ?ip (Some (length ?ip)) = Some (r, ip', e)" "hex_run s \<noteq> []" "\<not> length (hex_run s) > 4" "\<not> (?rest \<noteq> [] \<and> ?rest ! 0 = dot)"
        "?rest \<noteq> []" "\<not> (?rest ! 0 \<noteq> colon \<or> length ?rest = 1)" "drop 1 ?rest ! 0 = colon" "ell = None" "drop 1 (drop 1 ?rest) \<noteq> []"
      using "1.IH"(1) [OF False refl refl _ _ refl refl _ _ refl] that l by simp
    ultimately show ?thesis using "1.prems"(1) l by (subst (asm) parse6.simps) (auto simp: Let_def False dest: fields_length split: if_splits option.splits)
  qed
qed

lemma parseIPv6_length: "parseIPv6 s = Some ip \<Longrightarrow> length ip = 16"
  unfolding parseIPv6_def Let_def
  by (auto dest!: parse6_length split: option.splits if_splits prod.splits)

lemma ParseIP_length: "ParseIP s = Some ip \<Longrightarrow> length ip = 16"
  by (auto simp: ParseIP_def v4_prefix_def dest: fields_length parseIPv6_length split: option.splits if_splits)

text \<open>The host a datagram comes back with: an address in its canonical text, a domain as it is.\<close>

definition canonical_host :: "bytes \<Rightarrow> bytes" where
  "canonical_host host = (case ParseIP host of None \<Rightarrow> host | Some ip \<Rightarrow> ip_String ip)"

lemma host_roundtrip:
  assumes "encodeHost host = Inr address"
  shows "readHostBytes (drop 1 address @ tail) (address ! 0) = Inr (canonical_host host, length address - 1) \<and> 2 \<le> length address"
proof (cases "ParseIP host")
  case None
  then show ?thesis using assms by (auto simp: encodeHost_def readHostBytes_def canonical_host_def maxUDPDomainLength_def byte_length Let_def split: if_splits)
next
  case ip: (Some ip)
  note l = ParseIP_length [OF ip]
  show ?thesis
  proof (cases "To4 ip")
    case None
    then have "address = 4 # ip" using assms ip by (simp add: encodeHost_def)
    then show ?thesis using ip l by (simp add: readHostBytes_def canonical_host_def)
  next
    case (Some ip4)
    then have "length ip4 = 4" "ip_String ip4 = ip_String ip" using l by (auto simp: To4_def ip_String_def split: if_splits)
    moreover have "address = 1 # ip4" using assms Some ip by (simp add: encodeHost_def)
    ultimately show ?thesis using ip by (simp add: readHostBytes_def canonical_host_def)
  qed
qed

text \<open>Round trip of a datagram. What \<open>WriteUDPDatagram\<close> puts on the wire for a destination and a payload, when it is no longer than
  \<open>maxUDPDatagramSize\<close>, is read back as the same payload for the same destination, with a literal address in its
  canonical text and the port in decimal; a longer one is refused.\<close>

theorem datagram_roundtrip:
  assumes "datagram_bytes destination payload = Inr packet" "SplitHostPort destination = Some (host, portText)" "Atoi portText = Some port"
  shows "ReadUDPDatagram packet = (if length packet \<le> maxUDPDatagramSize then Inr \<lparr>dg_Destination = JoinHostPort (canonical_host host) (Itoa port), dg_Payload = payload\<rparr> else Inl DatagramLength)"
proof -
  have p: "1 \<le> port" "port \<le> 65535" "host \<noteq> []" using assms by (auto simp: datagram_bytes_def split: if_splits sum.splits)
  obtain address where a: "encodeHost host = Inr address" "packet = [0, 0, 0] @ address @ put_be 2 (word_of_int port :: u16) @ payload"
    using assms by (auto simp: datagram_bytes_def split: if_splits sum.splits)
  let ?tail = "put_be 2 (word_of_int port :: u16) @ payload"
  obtain x xs where x: "address = x # xs" using host_roundtrip [OF a(1)] by (cases address) auto
  have h: "readHostBytes (xs @ ?tail) x = Inr (canonical_host host, length xs)" "1 \<le> length xs" using host_roundtrip [OF a(1), of ?tail] by (simp_all add: x del: put_be.simps)
  have port: "(word_of_int port :: u16) \<noteq> 0" "uint (word_of_int port :: u16) = port"
  proof -
    show "uint (word_of_int port :: u16) = port" using p by (simp add: unsigned_of_int take_bit_int_eq_self)
    then show "(word_of_int port :: u16) \<noteq> 0" using p(1) by auto
  qed
  have packet: "packet = 0 # 0 # 0 # x # xs @ ?tail" by (simp add: a(2) x)
  have d: "drop (4 + length xs) packet = ?tail"
  proof -
    have "4 + length xs = length ([0, 0, 0, x] @ xs)" "packet = ([0, 0, 0, x] @ xs) @ ?tail" by (simp_all add: packet)
    then show ?thesis by (metis append_eq_conv_conj)
  qed
  have parts: "take 2 (drop (4 + length xs) packet) = put_be 2 (word_of_int port :: u16)" "drop (4 + length xs + 2) packet = payload"
      "length packet = 6 + length xs + length payload"
    using d drop_drop [of 2 "4 + length xs" packet] by (simp_all add: add.commute packet del: put_be.simps)
  show ?thesis unfolding ReadUDPDatagram_def udpHeaderSize_def maxUDPDatagramSize_def Let_def using h port parts
    by (simp add: packet del: put_be.simps)
qed

lemma sample_datagram:
  "SplitHostPort [97, 58, 56, 48] = Some ([97], [56, 48])" "Atoi [56, 48] = Some 80" "ParseIP [97] = None"
  "length payload \<le> 65507 \<Longrightarrow> datagram_bytes [97, 58, 56, 48] payload = Inr ([0, 0, 0, 3, 1, 97] @ put_be 2 (80 :: u16) @ payload)"
proof -
  show s: "SplitHostPort [97, 58, 56, 48] = Some ([97], [56, 48])" by (simp add: split_defs)
  show a: "Atoi [56, 48] = Some 80" by (simp add: Atoi_def is_digit_def decimal_def)
  show p: "ParseIP [97] = None" by (simp add: ParseIP_def)
  show "length payload \<le> 65507 \<Longrightarrow> datagram_bytes [97, 58, 56, 48] payload = Inr ([0, 0, 0, 3, 1, 97] @ put_be 2 (80 :: u16) @ payload)"
    by (simp add: datagram_bytes_def s a p encodeHost_def maxUDPDomainLength_def maxUDPDatagramSize_def del: put_be.simps)
qed

theorem datagram_roundtrip_witness:
  "ReadUDPDatagram ([0, 0, 0, 3, 1, 97] @ put_be 2 (80 :: u16) @ [1, 2]) = Inr \<lparr>dg_Destination = JoinHostPort [97] (Itoa 80), dg_Payload = [1, 2]\<rparr> \<and>
   ReadUDPDatagram ([0, 0, 0, 3, 1, 97] @ put_be 2 (80 :: u16) @ replicate 65507 0) = Inl DatagramLength"
  using datagram_roundtrip [OF sample_datagram(4) sample_datagram(1,2), of "[1, 2]"] datagram_roundtrip [OF sample_datagram(4) sample_datagram(1,2), of "replicate 65507 0"]
  by (simp add: canonical_host_def sample_datagram(3) maxUDPDatagramSize_def del: put_be.simps)

end
