(* ===== verification/Classifier.thy ===== *)
theory Classifier
  imports Prelude Complex_Main
begin

text \<open>
  The flow classifier, \<^verbatim>\<open>internal/classifier/classifier.go\<close>. Byte counts are 64-bit words, durations are integers in
  nanoseconds and rates, which are only compared, rational numbers.
\<close>

datatype flow_class = CNew | CInteractive | CBulk

record classifier_config =
  NewBytes :: u64
  NewAge :: int
  BulkBytes :: u64
  BulkRateBytesPerSec :: rat
  BulkMinimumAge :: int
  InteractiveMaxRate :: rat
  InteractiveIdleGap :: int

definition classifier_DefaultConfig :: classifier_config where
  "classifier_DefaultConfig = \<lparr>NewBytes = 64 * 1024, NewAge = 3000000000, BulkBytes = 128 * 1024, BulkRateBytesPerSec = 256 * 1024,
     BulkMinimumAge = 1000000000, InteractiveMaxRate = 1024 * 1024, InteractiveIdleGap = 250000000\<rparr>"

record Observation =
  BytesUp :: u64
  BytesDown :: u64
  UpRate :: rat
  DownRate :: rat
  Age :: int
  SinceLastPayload :: int
  Bidirectional :: bool
  SmallBidirectionalBursts :: bool

record Classifier =
  cl_cfg :: classifier_config
  cl_class :: flow_class

definition new_classifier :: "classifier_config \<Rightarrow> Classifier" where
  "new_classifier cfg =
     (let cfg1 = (if NewBytes cfg = 0 \<or> NewAge cfg \<le> 0 \<or> BulkBytes cfg = 0 \<or> BulkRateBytesPerSec cfg \<le> 0 \<or> BulkMinimumAge cfg \<le> 0
                  then classifier_DefaultConfig else cfg)
      in \<lparr>cl_cfg = cfg1, cl_class = CNew\<rparr>)"

definition isBulk :: "classifier_config \<Rightarrow> Observation \<Rightarrow> bool" where
  "isBulk cfg ob \<longleftrightarrow> Age ob \<ge> BulkMinimumAge cfg \<and> BytesUp ob + BytesDown ob \<ge> BulkBytes cfg \<and> (\<not> Bidirectional ob \<or> \<not> SmallBidirectionalBursts ob)"

definition rate_max :: "rat \<Rightarrow> rat \<Rightarrow> rat" where
  "rate_max a b = (if a > b then a else b)"

definition isInteractive :: "classifier_config \<Rightarrow> Observation \<Rightarrow> bool" where
  "isInteractive cfg ob =
     (if Bidirectional ob \<and> SmallBidirectionalBursts ob then True
      else SinceLastPayload ob \<ge> InteractiveIdleGap cfg \<and> rate_max (UpRate ob) (DownRate ob) \<le> InteractiveMaxRate cfg)"

definition Observe :: "Classifier \<Rightarrow> Observation \<Rightarrow> Classifier" where
  "Observe c ob =
     (if cl_class c = CBulk then c
      else if isBulk (cl_cfg c) ob then c\<lparr>cl_class := CBulk\<rparr>
      else if cl_class c = CNew \<and> Age ob \<ge> NewAge (cl_cfg c) then
        (if isInteractive (cl_cfg c) ob \<or> BytesUp ob + BytesDown ob \<ge> NewBytes (cl_cfg c) then c\<lparr>cl_class := CInteractive\<rparr> else c)
      else c)"

section \<open>Hysteresis\<close>

definition settles_interactive :: "classifier_config \<Rightarrow> Observation \<Rightarrow> bool" where
  "settles_interactive cfg ob \<longleftrightarrow> Age ob \<ge> NewAge cfg \<and> (isInteractive cfg ob \<or> BytesUp ob + BytesDown ob \<ge> NewBytes cfg)"

text \<open>The class a history of observations calls for, without any state.\<close>

definition history_class :: "classifier_config \<Rightarrow> Observation list \<Rightarrow> flow_class" where
  "history_class cfg obs =
     (if list_ex (isBulk cfg) obs then CBulk else if list_ex (settles_interactive cfg) obs then CInteractive else CNew)"

lemma observe_step:
  "cl_cfg c = cfg \<Longrightarrow> cl_class c = history_class cfg obs \<Longrightarrow> cl_cfg (Observe c ob) = cfg \<and> cl_class (Observe c ob) = history_class cfg (obs @ [ob])"
  by (auto simp: Observe_def history_class_def settles_interactive_def split: if_splits)

text \<open>Equivalence with a stateless reference. Whatever is observed, in whatever order, the class of a flow is the class its whole history calls
  for: bulk as soon as one observation was bulk, interactive once one settled it, and new before; so it only
  ever moves towards bulk, and bulk is left only by closing the flow.\<close>

theorem classifier_is_history:
  "cl_class (foldl Observe (new_classifier cfg) obs) = history_class (cl_cfg (new_classifier cfg)) obs"
proof -
  have "cl_cfg (foldl Observe (new_classifier cfg) obs) = cl_cfg (new_classifier cfg) \<and>
      cl_class (foldl Observe (new_classifier cfg) obs) = history_class (cl_cfg (new_classifier cfg)) obs"
  proof (induction obs rule: rev_induct)
    case Nil
    show ?case by (simp add: new_classifier_def history_class_def Let_def)
  next
    case (snoc ob obs)
    then show ?case using observe_step by auto
  qed
  then show ?thesis ..
qed

end
