(* ===== verification/MemProfile.thy ===== *)
theory MemProfile
  imports Memlimit
begin

text \<open>
  The memory profile of an endpoint, \<^verbatim>\<open>internal/pep/memory.go\<close>: a configured profile is merged with the defaults, checked
  and turned into per-flow limits and the two shared budgets of \<^verbatim>\<open>internal/memlimit\<close>. Every figure is an integer.
\<close>

definition maxFlowOutstandingBytes :: int where "maxFlowOutstandingBytes = 64 * 1024 * 1024"
definition maxFlowOutstandingChunks :: int where "maxFlowOutstandingChunks = 16384"
definition maxReassemblyBytes :: int where "maxReassemblyBytes = 2 * maxFlowOutstandingBytes"
definition maxReassemblyFrames :: int where "maxReassemblyFrames = 16384"
definition maxLaneEvents :: int where "maxLaneEvents = 256"
definition maxLaneWriteQueue :: int where "maxLaneWriteQueue = 64"
definition maxLaneInteractiveReserve :: int where "maxLaneInteractiveReserve = 8"
definition defaultChunkSize :: int where "defaultChunkSize = 32 * 1024"
definition defaultFrameReadBuffer :: int where "defaultFrameReadBuffer = 46 + defaultChunkSize"
definition maxFrameReadBuffer :: int where "maxFrameReadBuffer = 64 * 1024"
definition isolatedBulkConns :: int where "isolatedBulkConns = 8"

record MemoryLimits =
  SendBudgetBytes :: int
  ReceiveBudgetBytes :: int
  MaxFlowSendBytes :: int
  MaxFlowReceiveBytes :: int
  MaxFlowOutstanding :: int
  MaxFlowReceiveFrames :: int
  EventQueueFrames :: int
  LaneWriteQueueFrames :: int
  LaneInteractiveReserve :: int
  FrameReadBufferBytes :: int
  MaxUDPPacketBytes :: int
  MaxBulkConnections :: int

record flowMemoryLimits =
  maxSendBytes :: int
  maxReceiveBytes :: int
  maxOutstanding :: int
  maxReceiveFrames :: int
  eventQueue :: int
  laneWriteQueue :: int
  laneControlReserve :: int
  frameReadBuffer :: int
  maxUDPPacketBytes :: int
  maxBulkConnections :: int

definition defaultFlowMemoryLimits :: flowMemoryLimits where
  "defaultFlowMemoryLimits = \<lparr>maxSendBytes = maxFlowOutstandingBytes, maxReceiveBytes = maxReassemblyBytes, maxOutstanding = maxFlowOutstandingChunks,
     maxReceiveFrames = maxReassemblyFrames, eventQueue = maxLaneEvents, laneWriteQueue = maxLaneWriteQueue,
     laneControlReserve = maxLaneInteractiveReserve, frameReadBuffer = defaultFrameReadBuffer, maxUDPPacketBytes = 65535,
     maxBulkConnections = isolatedBulkConns\<rparr>"

datatype memory_error =
    FlowSendBelowChunk | SendBudgetBelowChunk | ReceiveBudgetNotPositive | FlowSendAboveBudget | FlowReceiveAboveBudget | FlowLimitsNotPositive
  | EventQueueRange | LaneWriteQueueRange | LaneReserveRange | FrameReadBufferRange | UDPPacketRange | BulkConnectionRange

definition over :: "int \<Rightarrow> int \<Rightarrow> int" where
  "over configured fallback = (if configured > 0 then configured else fallback)"

definition merged :: "MemoryLimits \<Rightarrow> flowMemoryLimits" where
  "merged c =
     (let d = defaultFlowMemoryLimits
      in \<lparr>maxSendBytes = over (MaxFlowSendBytes c) (maxSendBytes d), maxReceiveBytes = over (MaxFlowReceiveBytes c) (maxReceiveBytes d),
          maxOutstanding = over (MaxFlowOutstanding c) (maxOutstanding d), maxReceiveFrames = over (MaxFlowReceiveFrames c) (maxReceiveFrames d),
          eventQueue = over (EventQueueFrames c) (eventQueue d), laneWriteQueue = over (LaneWriteQueueFrames c) (laneWriteQueue d),
          laneControlReserve = over (LaneInteractiveReserve c) (laneControlReserve d), frameReadBuffer = over (FrameReadBufferBytes c) (frameReadBuffer d),
          maxUDPPacketBytes = over (MaxUDPPacketBytes c) (maxUDPPacketBytes d), maxBulkConnections = over (MaxBulkConnections c) (maxBulkConnections d)\<rparr>)"

definition resolveMemoryLimits :: "MemoryLimits option \<Rightarrow> int \<Rightarrow> memory_error + (flowMemoryLimits \<times> budget option \<times> budget option)" where
  "resolveMemoryLimits configured chunkSize =
     (case configured of
        None \<Rightarrow> Inr (defaultFlowMemoryLimits, None, None)
      | Some c \<Rightarrow>
          let limits = merged c in
          if chunkSize \<le> 0 \<or> maxSendBytes limits < chunkSize then Inl FlowSendBelowChunk
          else if SendBudgetBytes c < chunkSize then Inl SendBudgetBelowChunk
          else if ReceiveBudgetBytes c \<le> 0 then Inl ReceiveBudgetNotPositive
          else if maxSendBytes limits > SendBudgetBytes c then Inl FlowSendAboveBudget
          else if maxReceiveBytes limits > ReceiveBudgetBytes c then Inl FlowReceiveAboveBudget
          else if maxReceiveBytes limits = 0 \<or> maxOutstanding limits < 1 \<or> maxReceiveFrames limits < 1 then Inl FlowLimitsNotPositive
          else if eventQueue limits < 1 \<or> eventQueue limits > maxLaneEvents then Inl EventQueueRange
          else if laneWriteQueue limits < 2 \<or> laneWriteQueue limits > maxLaneWriteQueue then Inl LaneWriteQueueRange
          else if laneControlReserve limits < 1 \<or> laneControlReserve limits \<ge> laneWriteQueue limits then Inl LaneReserveRange
          else if frameReadBuffer limits < 512 \<or> frameReadBuffer limits > maxFrameReadBuffer then Inl FrameReadBufferRange
          else if maxUDPPacketBytes limits < 1280 \<or> maxUDPPacketBytes limits > 65535 then Inl UDPPacketRange
          else if maxBulkConnections limits < 1 \<or> maxBulkConnections limits > isolatedBulkConns then Inl BulkConnectionRange
          else Inr (limits, mem_new (SendBudgetBytes c), mem_new (ReceiveBudgetBytes c)))"

section \<open>The budgets\<close>

lemmas memory_consts = maxFlowOutstandingBytes_def maxFlowOutstandingChunks_def maxReassemblyBytes_def maxReassemblyFrames_def maxLaneEvents_def
  maxLaneWriteQueue_def maxLaneInteractiveReserve_def defaultChunkSize_def defaultFrameReadBuffer_def maxFrameReadBuffer_def isolatedBulkConns_def

definition small_profile :: MemoryLimits where
  "small_profile = \<lparr>SendBudgetBytes = 1048576, ReceiveBudgetBytes = 1048576, MaxFlowSendBytes = 131072, MaxFlowReceiveBytes = 262144, MaxFlowOutstanding = 8,
     MaxFlowReceiveFrames = 64, EventQueueFrames = 16, LaneWriteQueueFrames = 4, LaneInteractiveReserve = 1, FrameReadBufferBytes = 4096,
     MaxUDPPacketBytes = 1500, MaxBulkConnections = 1\<rparr>"

lemma small_resolves: "resolveMemoryLimits (Some small_profile) 32768 = Inr (merged small_profile, mem_new 1048576, mem_new 1048576)"
  by (simp add: resolveMemoryLimits_def merged_def over_def small_profile_def memory_consts Let_def)

text \<open>Budgets that can be met. The shared budgets of an accepted profile admit the whole allowance of a flow when nothing else holds any of it, so
  a flow alone is never blocked by the budget: a chunk, and all its send and receive memory, are granted at once.\<close>

theorem resolved_budgets_grant:
  assumes "resolveMemoryLimits (Some c) chunkSize = Inr (limits, sending, receiving)"
  shows "sending \<noteq> None \<and> receiving \<noteq> None \<and> fst (TryAcquire sending chunkSize) \<and> fst (TryAcquire sending (maxSendBytes limits)) \<and> fst (TryAcquire receiving (maxReceiveBytes limits))"
proof -
  have "0 < chunkSize" "chunkSize \<le> SendBudgetBytes c" "0 < ReceiveBudgetBytes c" "maxSendBytes limits \<le> SendBudgetBytes c"
      "maxReceiveBytes limits \<le> ReceiveBudgetBytes c" "sending = mem_new (SendBudgetBytes c)" "receiving = mem_new (ReceiveBudgetBytes c)"
    using assms unfolding resolveMemoryLimits_def Let_def by (auto split: if_splits)
  then show ?thesis by (simp add: TryAcquire_def mem_new_def)
qed

theorem resolved_budgets_grant_witness:
  "fst (TryAcquire (mem_new 1048576) 32768) \<and> fst (TryAcquire (mem_new 1048576) (maxReceiveBytes (merged small_profile)))"
  using resolved_budgets_grant [OF small_resolves] by blast

end
