(* ===== verification/Assoc.thy ===== *)
theory Assoc
  imports Main "HOL-Library.AList"
begin

text \<open>Association lists as the model's maps: what updating and deleting a key does to the list itself. The order of a list is the order of insertion.\<close>

lemma delete_is_filter: "AList.delete k xs = filter (\<lambda>e. fst e \<noteq> k) xs"
  by (simp add: AList.delete_eq split_def eq_commute)

lemma update_fresh: "k \<notin> fst ` set xs \<Longrightarrow> AList.update k v xs = xs @ [(k, v)]"
  by (induction xs) auto

lemma in_set_update: "e \<in> set (AList.update k v xs) \<Longrightarrow> e \<in> set xs \<or> e = (k, v)"
  by (induction xs) (auto split: if_splits)

lemma set_update: "distinct (map fst xs) \<Longrightarrow> set (AList.update k v xs) = {e \<in> set xs. fst e \<noteq> k} \<union> {(k, v)}"
  by (induction xs) (auto simp: image_iff)

lemma update_present: "distinct (map fst xs) \<Longrightarrow> (k, v) \<in> set xs \<Longrightarrow> AList.update k v xs = xs"
  by (induction xs) (auto simp: image_iff)

lemma delete_fresh: "k \<notin> fst ` set xs \<Longrightarrow> AList.delete k (AList.update k v xs) = xs"
  by (auto simp: delete_is_filter update_fresh filter_id_conv)

end
