(* ===== verification/Identity.thy ===== *)
theory Identity
  imports NetAddr Assoc
begin

text \<open>
  The authorization store of a provider, \<^verbatim>\<open>internal/identity/store.go\<close>: accounts, devices and invitations, kept in memory and in a
  JSON file that several processes replace. A map is an association list with distinct keys, in the order an iteration meets them. The file is
  represented by what decoding it yields; a timestamp string by what parsing it yields, in nanoseconds. Case folding and SHA-256 are the
  fields of \<open>store_lib\<close>; the outcome of a lock, of the random source, of a write and the reading of the clock are the fields of \<open>store_env\<close>.
\<close>

section \<open>Text encodings\<close>

text \<open>\<^verbatim>\<open>base64.RawURLEncoding\<close>: no padding, line breaks ignored when decoding, spare bits of the last digit ignored.\<close>

definition b64_char :: "nat \<Rightarrow> byte" where
  "b64_char n = (if n < 26 then word_of_nat (65 + n) else if n < 52 then word_of_nat (71 + n) else if n < 62 then word_of_nat (n - 4)
     else if n = 62 then 45 else 95)"

definition b64_value :: "byte \<Rightarrow> nat option" where
  "b64_value c =
     (let n = unat c in
      if 65 \<le> n \<and> n \<le> 90 then Some (n - 65) else if 97 \<le> n \<and> n \<le> 122 then Some (n - 71) else if 48 \<le> n \<and> n \<le> 57 then Some (n + 4)
      else if n = 45 then Some 62 else if n = 95 then Some 63 else None)"

fun b64_digits :: "bytes \<Rightarrow> nat list" where
  "b64_digits [] = []"
| "b64_digits [a] = [unat a div 4, unat a mod 4 * 16]"
| "b64_digits [a, b] = [unat a div 4, unat a mod 4 * 16 + unat b div 16, unat b mod 16 * 4]"
| "b64_digits (a # b # c # rest) =
     unat a div 4 # (unat a mod 4 * 16 + unat b div 16) # (unat b mod 16 * 4 + unat c div 64) # unat c mod 64 # b64_digits rest"

definition EncodeToString :: "bytes \<Rightarrow> bytes" where
  "EncodeToString bs = map b64_char (b64_digits bs)"

fun b64_join :: "nat list \<Rightarrow> bytes option" where
  "b64_join [] = Some []"
| "b64_join [x] = None"
| "b64_join [x, y] = Some [word_of_nat (x * 4 + y div 16)]"
| "b64_join [x, y, z] = Some [word_of_nat (x * 4 + y div 16), word_of_nat (y mod 16 * 16 + z div 4)]"
| "b64_join (x # y # z # w # rest) =
     map_option (\<lambda>r. [word_of_nat (x * 4 + y div 16), word_of_nat (y mod 16 * 16 + z div 4), word_of_nat (z mod 4 * 64 + w)] @ r) (b64_join rest)"

definition DecodeString :: "bytes \<Rightarrow> bytes option" where
  "DecodeString text =
     (let vs = map b64_value (filter (\<lambda>c. c \<noteq> 10 \<and> c \<noteq> 13) text) in if None \<in> set vs then None else b64_join (map the vs))"

lemma b64_char_value: "n < 64 \<Longrightarrow> b64_value (b64_char n) = Some n \<and> b64_char n \<noteq> 10 \<and> b64_char n \<noteq> 13"
proof -
  assume n: "n < 64"
  have *: "b64_value (b64_char m) = Some m \<and> b64_char m \<noteq> 10 \<and> b64_char m \<noteq> 13" if "m \<in> set [0..<64]" for m
  proof -
    have "list_all (\<lambda>m. b64_value (b64_char m) = Some m \<and> b64_char m \<noteq> 10 \<and> b64_char m \<noteq> 13) [0..<64]"
      by (simp add: upt_rec b64_char_def b64_value_def)
    with that show ?thesis by (auto simp only: list_all_iff)
  qed
  from n show ?thesis by (intro *) simp
qed

lemma byte_lt: "unat (a :: byte) < 256"
  using unsigned_less [of a] by simp

lemma b64_digit_bounds: "unat (a :: byte) div 4 < 64" "unat (a :: byte) mod 4 * 16 + unat (b :: byte) div 16 < 64" "unat (b :: byte) mod 16 * 4 + unat (c :: byte) div 64 < 64"
  using byte_lt [of a] byte_lt [of b] byte_lt [of c] by linarith+

lemma b64_digits_bound: "list_all (\<lambda>n. n < 64) (b64_digits bs)"
proof -
  have "unat a mod 4 * 16 < 64" "unat a mod 16 * 4 < 64" for a :: byte by linarith+
  then show ?thesis by (induction bs rule: b64_digits.induct) (simp_all add: b64_digit_bounds)
qed

lemma b64_bytes:
  fixes a b c :: byte
  shows "unat a div 4 * 4 + unat a mod 4 * 16 div 16 = unat a" "unat a div 4 * 4 + (unat a mod 4 * 16 + unat b div 16) div 16 = unat a"
    "(unat a mod 4 * 16 + unat b div 16) mod 16 * 16 + unat b mod 16 * 4 div 4 = unat b"
    "(unat a mod 4 * 16 + unat b div 16) mod 16 * 16 + (unat b mod 16 * 4 + unat c div 64) div 4 = unat b"
    "(unat b mod 16 * 4 + unat c div 64) mod 4 * 64 + unat c mod 64 = unat c"
  using byte_lt [of b] byte_lt [of c] by simp_all

lemma b64_join_digits: "b64_join (b64_digits bs) = Some bs"
proof -
  have "word_of_nat (unat x) = x" for x :: byte by simp
  then show ?thesis by (induction bs rule: b64_digits.induct) (simp_all only: b64_digits.simps b64_join.simps b64_bytes option.map append.simps)
qed

lemma DecodeString_EncodeToString [simp]: "DecodeString (EncodeToString bs) = Some bs"
proof -
  have "b64_value (b64_char n) = Some n \<and> b64_char n \<noteq> 10 \<and> b64_char n \<noteq> 13" if "n \<in> set (b64_digits bs)" for n
    using b64_digits_bound [of bs] that by (intro b64_char_value) (simp add: list_all_iff)
  then have "filter (\<lambda>c. c \<noteq> 10 \<and> c \<noteq> 13) (EncodeToString bs) = EncodeToString bs" "map b64_value (EncodeToString bs) = map Some (b64_digits bs)"
    by (auto simp: EncodeToString_def filter_id_conv)
  then show ?thesis by (simp add: DecodeString_def Let_def b64_join_digits comp_def)
qed

lemma EncodeToString_inj: "EncodeToString a = EncodeToString b \<longleftrightarrow> a = b"
  by (metis DecodeString_EncodeToString option.inject)

text \<open>\<^verbatim>\<open>hex.EncodeToString\<close> of random bytes.\<close>

definition hex_encode :: "bytes \<Rightarrow> bytes" where
  "hex_encode bs = concat (map (\<lambda>b. [hex_digit (unat b div 16), hex_digit (unat b mod 16)]) bs)"

section \<open>UTF-8\<close>

text \<open>The table of \<^verbatim>\<open>unicode/utf8\<close>: by the first byte of a character its number of bytes, 0 when none starts so, and the range of the second byte.\<close>

definition rune_lead :: "byte \<Rightarrow> nat \<times> nat \<times> nat" where
  "rune_lead a =
     (let n = unat a in
      if n < 128 then (1, 128, 191) else if n < 194 then (0, 128, 191) else if n < 224 then (2, 128, 191)
      else if n < 240 then (3, if n = 224 then 160 else 128, if n = 237 then 159 else 191)
      else if n < 245 then (4, if n = 240 then 144 else 128, if n = 244 then 143 else 191)
      else (0, 128, 191))"

text \<open>How many bytes the encoding of the character at the front of a string has, 0 when there is none.\<close>

definition rune_size :: "bytes \<Rightarrow> nat" where
  "rune_size s =
     (case s of
        [] \<Rightarrow> 0
      | a # r \<Rightarrow>
          (case rune_lead a of
             (n, lo, hi) \<Rightarrow>
               if n \<le> length s \<and> (2 \<le> n \<longrightarrow> lo \<le> unat (r ! 0) \<and> unat (r ! 0) \<le> hi) \<and>
                 list_all (\<lambda>b. 128 \<le> unat b \<and> unat b \<le> 191) (take (n - 2) (drop 1 r))
               then n else 0))"

text \<open>\<^verbatim>\<open>utf8.ValidString\<close>, and a string written by \<^verbatim>\<open>encoding/json\<close> and read back: every byte that starts no character becomes U+FFFD.\<close>

fun ValidString :: "bytes \<Rightarrow> bool" where
  "ValidString [] = True"
| "ValidString (a # s) = (let n = rune_size (a # s) in n \<noteq> 0 \<and> ValidString (drop (n - 1) s))"

fun json_text :: "bytes \<Rightarrow> bytes" where
  "json_text [] = []"
| "json_text (a # s) =
     (let n = rune_size (a # s) in
      if n = 0 then [0xEF, 0xBF, 0xBD] @ json_text s else take n (a # s) @ json_text (drop (n - 1) s))"

declare ValidString.simps [simp del] json_text.simps [simp del]

lemma rune_size_bound: "rune_size s \<le> length s"
  by (auto simp: rune_size_def split: list.split prod.split)

lemma rune_size_prefix:
  assumes "rune_size s \<noteq> 0"
  shows "rune_size (take (rune_size s) s @ t) = rune_size s"
proof -
  obtain a r where s: "s = a # r" using assms by (cases s) (auto simp: rune_size_def)
  obtain n lo hi where l: "rune_lead a = (n, lo, hi)" by (cases "rune_lead a") auto
  have n: "rune_size s = n" "n \<noteq> 0" "n \<le> Suc (length r)" using assms by (auto simp: rune_size_def s l split: if_splits)
  then obtain m where m: "n = Suc m" using not0_implies_Suc by blast
  have "(take m r @ t) ! 0 = r ! 0" if "2 \<le> n" using that m n(3) by (simp add: nth_append)
  moreover have "take (n - 2) (drop 1 (take m r @ t)) = take (n - 2) (drop 1 r)" using m n(3) by (cases m) (auto simp: drop_take min_def)
  ultimately have "rune_size (a # take m r @ t) = rune_size (a # r)" using n(3) m by (simp add: rune_size_def l)
  then show ?thesis using n(1) m s by simp
qed

lemma rune_size_append: "rune_size s = length s \<Longrightarrow> s \<noteq> [] \<Longrightarrow> rune_size (s @ t) = length s"
  using rune_size_prefix [of s t] by simp

lemma ValidString_append:
  assumes "rune_size s = length s" "s \<noteq> []"
  shows "ValidString (s @ t) \<longleftrightarrow> ValidString t"
proof -
  obtain a r where "s = a # r" using assms(2) by (cases s) auto
  then show ?thesis using rune_size_append [OF assms, of t] by (simp add: ValidString.simps(2) Let_def)
qed

lemma rune_size_take: "rune_size s \<noteq> 0 \<Longrightarrow> rune_size (take (rune_size s) s) = length (take (rune_size s) s)"
  using rune_size_prefix [of s "[]"] rune_size_bound [of s] by simp

lemma ValidString_json_text [simp]: "ValidString (json_text s)"
proof (induction s rule: json_text.induct)
  case (2 a s)
  have r: "rune_size [0xEF, 0xBF, 0xBD] = 3" by (simp add: rune_size_def rune_lead_def)
  show ?case
  proof (cases "rune_size (a # s) = 0")
    case True
    then have "json_text (a # s) = [0xEF, 0xBF, 0xBD] @ json_text s" by (simp add: json_text.simps(2))
    then show ?thesis using ValidString_append [of "[0xEF, 0xBF, 0xBD]" "json_text s"] 2(1) True r by simp
  next
    case False
    then have "json_text (a # s) = take (rune_size (a # s)) (a # s) @ json_text (drop (rune_size (a # s) - 1) s)" by (simp add: json_text.simps(2) Let_def)
    then show ?thesis using ValidString_append [OF rune_size_take [OF False]] 2(2) False by simp
  qed
qed (simp add: json_text.simps ValidString.simps)

lemma json_text_valid: "ValidString s \<Longrightarrow> json_text s = s"
proof (induction s rule: ValidString.induct)
  case (2 a s)
  have n: "rune_size (a # s) \<noteq> 0" using 2(2) by (simp add: ValidString.simps(2) Let_def)
  then obtain m where m: "rune_size (a # s) = Suc m" using not0_implies_Suc by blast
  then show ?case using 2 by (simp add: ValidString.simps(2) json_text.simps(2) Let_def)
qed (simp add: json_text.simps)

section \<open>Time\<close>

text \<open>A timestamp field: absent, an instant in nanoseconds, or a text that \<^verbatim>\<open>time.Parse\<close> refuses. \<^verbatim>\<open>Format(time.RFC3339)\<close> drops the
  fraction of the second, and gives a year of four digits only from year 0 to year 9999.\<close>

datatype stamp = NoStamp | Stamp int | BadStamp

definition second :: int where "second = 1000000000"

definition format_time :: "int \<Rightarrow> stamp" where
  "format_time t =
     (let s = t div second in if -62167219200 \<le> s \<and> s < 253402300800 then Stamp (s * second) else BadStamp)"

definition parse_time :: "stamp \<Rightarrow> int option" where
  "parse_time v = (case v of Stamp t \<Rightarrow> Some t | _ \<Rightarrow> None)"

definition parseStateTime :: "stamp \<Rightarrow> int option" where
  "parseStateTime v = (if v = NoStamp then None else parse_time v)"

definition zero_time :: int where "zero_time = -62135596800 * second"

definition or_clock :: "int \<Rightarrow> int \<Rightarrow> int" where
  "or_clock clock now = (if now = zero_time then clock else now)"

definition expired :: "stamp \<Rightarrow> int \<Rightarrow> bool" where
  "expired text now = (if text = NoStamp then False else case parse_time text of None \<Rightarrow> True | Some when \<Rightarrow> \<not> now < when)"

section \<open>Data\<close>

definition DefaultAccountMaxFlows :: int where "DefaultAccountMaxFlows = 1024"
definition DefaultAccountMaxClients :: int where "DefaultAccountMaxClients = 8"
definition maxAccountLimit :: int where "maxAccountLimit = 65536"
definition consumedInviteRecoveryWindow :: int where "consumedInviteRecoveryWindow = 7 * 24 * 3600 * second"
definition ProviderStateVersion :: int where "ProviderStateVersion = 3"

record AccountLimits =
  al_MaxFlows :: int
  al_MaxClients :: int

record Account =
  ac_ID :: bytes
  ac_Name :: bytes
  ac_Enabled :: bool
  ac_ExpiresAt :: stamp
  ac_MaxFlows :: int
  ac_MaxClients :: int
  ac_CreatedAt :: stamp

record Device =
  dv_ID :: bytes
  dv_AccountID :: bytes
  dv_Name :: bytes
  dv_PublicKey :: bytes
  dv_Enabled :: bool
  dv_CreatedAt :: stamp
  dv_RevokedAt :: stamp

record InviteRecord =
  iv_ID :: bytes
  iv_AccountID :: bytes
  iv_TokenHash :: bytes
  iv_ExpiresAt :: stamp
  iv_CreatedAt :: stamp
  iv_ConsumedAt :: stamp
  iv_DeviceID :: bytes

text \<open>\<open>sd_complete\<close> says that none of the three maps is nil.\<close>

record storeData =
  sd_Version :: int
  sd_complete :: bool
  sd_Accounts :: "(bytes \<times> Account) list"
  sd_Devices :: "(bytes \<times> Device) list"
  sd_Invites :: "(bytes \<times> InviteRecord) list"

record Principal =
  ProviderID :: bytes
  AccountID :: bytes
  DeviceID :: bytes
  PublicKey :: bytes

record Authorization =
  au_Account :: Account
  au_Device :: Device

record Store =
  st_data :: storeData
  st_lastGoodAt :: "int option"

datatype store_file = Absent | Unreadable | Decoded storeData

record store_lib =
  lib_ToLower :: "bytes \<Rightarrow> bytes"
  lib_EqualFold :: "bytes \<Rightarrow> bytes \<Rightarrow> bool"
  lib_Sum256 :: "bytes \<Rightarrow> bytes"

record store_env =
  en_lock :: bool
  en_clock :: int
  en_id :: "bytes option"
  en_token :: "bytes option"
  en_prune_write :: bool
  en_write :: bool

datatype state_error =
    MissingCollections | AccountIdentity | AccountBadName | AccountNamesNotUnique | AccountPolicy | AccountExpiration
  | DeviceIdentity | DeviceAccount | DeviceBadName | DeviceBadKey | DeviceKeysNotUnique | DeviceCreation | DeviceEnabledRevoked | DeviceRevocation
  | InviteIdentity | InviteAccount | InviteDigest | InviteDigestsNotUnique | InviteTimes | InviteIncomplete | InviteConsumption

datatype store_error =
    MaxFlowsRange | MaxClientsRange | AccountName | RandomFailed | ErrStoreUnavailable | InvalidState state_error | StoreExists | StoreNotRead
  | AccountExists | ExpirationPast | ExpirationNow | UnknownAccount | InviteLifetime | AccountDisabled | AccountHasExpired
  | DeviceName | DeviceKeyInvalid | InvitationInvalid | InvitationRefused | InvitationAccount | InvitationUsed | DeviceKeyRegistered | IssueFailed
  | Unauthorized | DeviceUnauthorized | KeyMismatch | UnknownDevice | UnknownInvitation

definition limits_validate :: "AccountLimits \<Rightarrow> store_error option" where
  "limits_validate l =
     (if al_MaxFlows l < 0 \<or> al_MaxFlows l > maxAccountLimit then Some MaxFlowsRange
      else if al_MaxClients l < 0 \<or> al_MaxClients l > maxAccountLimit then Some MaxClientsRange
      else None)"

definition account_Limits :: "Account \<Rightarrow> AccountLimits" where
  "account_Limits a = \<lparr>al_MaxFlows = ac_MaxFlows a, al_MaxClients = ac_MaxClients a\<rparr>"

definition emptyStoreData :: storeData where
  "emptyStoreData = \<lparr>sd_Version = ProviderStateVersion, sd_complete = True, sd_Accounts = [], sd_Devices = [], sd_Invites = []\<rparr>"

definition NewStore :: Store where
  "NewStore = \<lparr>st_data = \<lparr>sd_Version = 0, sd_complete = False, sd_Accounts = [], sd_Devices = [], sd_Invites = []\<rparr>, st_lastGoodAt = None\<rparr>"

definition randomID :: "store_env \<Rightarrow> bytes option" where
  "randomID en = map_option hex_encode (en_id en)"

section \<open>Validation\<close>

definition validID :: "store_lib \<Rightarrow> bytes \<Rightarrow> bool" where
  "validID lib v = (if length v \<noteq> 32 \<or> v \<noteq> lib_ToLower lib v then False else list_all (\<lambda>c. hex_value c \<noteq> None) v)"

definition name_ok :: "bytes \<Rightarrow> bool" where
  "name_ok name \<longleftrightarrow> \<not> (name \<noteq> TrimSpace name \<or> name = [] \<or> length name > 128)"

definition account_error :: "store_lib \<Rightarrow> bytes list \<Rightarrow> bytes \<Rightarrow> Account \<Rightarrow> state_error option" where
  "account_error lib names k a =
     (if k \<noteq> ac_ID a \<or> \<not> validID lib k then Some AccountIdentity
      else if \<not> name_ok (ac_Name a) then Some AccountBadName
      else if lib_ToLower lib (ac_Name a) \<in> set names then Some AccountNamesNotUnique
      else case parseStateTime (ac_CreatedAt a) of
        None \<Rightarrow> Some AccountPolicy
      | Some created \<Rightarrow>
          if limits_validate (account_Limits a) \<noteq> None then Some AccountPolicy
          else if ac_ExpiresAt a = NoStamp then None
          else case parseStateTime (ac_ExpiresAt a) of
            None \<Rightarrow> Some AccountExpiration
          | Some expires \<Rightarrow> if \<not> expires > created then Some AccountExpiration else None)"

fun accounts_error :: "store_lib \<Rightarrow> bytes list \<Rightarrow> (bytes \<times> Account) list \<Rightarrow> state_error option" where
  "accounts_error lib names [] = None"
| "accounts_error lib names ((k, a) # as) =
     (case account_error lib names k a of
        Some e \<Rightarrow> Some e
      | None \<Rightarrow> accounts_error lib (lib_ToLower lib (ac_Name a) # names) as)"

definition device_error :: "store_lib \<Rightarrow> (bytes \<times> Account) list \<Rightarrow> bytes list \<Rightarrow> bytes \<Rightarrow> Device \<Rightarrow> state_error option" where
  "device_error lib accounts keys k d =
     (if k \<noteq> dv_ID d \<or> \<not> validID lib k \<or> \<not> validID lib (dv_AccountID d) then Some DeviceIdentity
      else if map_of accounts (dv_AccountID d) = None then Some DeviceAccount
      else if \<not> name_ok (dv_Name d) then Some DeviceBadName
      else case DecodeString (dv_PublicKey d) of
        None \<Rightarrow> Some DeviceBadKey
      | Some publicKey \<Rightarrow>
          if length publicKey \<noteq> 32 then Some DeviceBadKey
          else if dv_PublicKey d \<in> set keys then Some DeviceKeysNotUnique
          else case parseStateTime (dv_CreatedAt d) of
            None \<Rightarrow> Some DeviceCreation
          | Some created \<Rightarrow>
              if dv_Enabled d \<and> dv_RevokedAt d \<noteq> NoStamp then Some DeviceEnabledRevoked
              else if dv_RevokedAt d = NoStamp then None
              else case parseStateTime (dv_RevokedAt d) of
                None \<Rightarrow> Some DeviceRevocation
              | Some revoked \<Rightarrow> if revoked < created then Some DeviceRevocation else None)"

fun devices_error :: "store_lib \<Rightarrow> (bytes \<times> Account) list \<Rightarrow> bytes list \<Rightarrow> (bytes \<times> Device) list \<Rightarrow> state_error option" where
  "devices_error lib accounts keys [] = None"
| "devices_error lib accounts keys ((k, d) # ds) =
     (case device_error lib accounts keys k d of
        Some e \<Rightarrow> Some e
      | None \<Rightarrow> devices_error lib accounts (dv_PublicKey d # keys) ds)"

definition invite_error :: "store_lib \<Rightarrow> (bytes \<times> Account) list \<Rightarrow> (bytes \<times> Device) list \<Rightarrow> bytes list \<Rightarrow> bytes \<Rightarrow> InviteRecord \<Rightarrow> state_error option" where
  "invite_error lib accounts devices hashes k i =
     (if k \<noteq> iv_ID i \<or> \<not> validID lib k \<or> \<not> validID lib (iv_AccountID i) then Some InviteIdentity
      else if map_of accounts (iv_AccountID i) = None then Some InviteAccount
      else case DecodeString (iv_TokenHash i) of
        None \<Rightarrow> Some InviteDigest
      | Some digest \<Rightarrow>
          if length digest \<noteq> 32 then Some InviteDigest
          else if iv_TokenHash i \<in> set hashes then Some InviteDigestsNotUnique
          else case (parseStateTime (iv_CreatedAt i), parseStateTime (iv_ExpiresAt i)) of
            (Some created, Some expires) \<Rightarrow>
              if \<not> expires > created \<or> expires > created + (7 * 24 * 3600 * second + second) then Some InviteTimes
              else if (iv_ConsumedAt i = NoStamp) \<noteq> (iv_DeviceID i = []) then Some InviteIncomplete
              else if iv_ConsumedAt i = NoStamp then None
              else (case (parseStateTime (iv_ConsumedAt i), map_of devices (iv_DeviceID i)) of
                (Some consumed, Some device) \<Rightarrow> if consumed < created \<or> dv_AccountID device \<noteq> iv_AccountID i then Some InviteConsumption else None
              | _ \<Rightarrow> Some InviteConsumption)
          | _ \<Rightarrow> Some InviteTimes)"

fun invites_error :: "store_lib \<Rightarrow> (bytes \<times> Account) list \<Rightarrow> (bytes \<times> Device) list \<Rightarrow> bytes list \<Rightarrow> (bytes \<times> InviteRecord) list \<Rightarrow> state_error option" where
  "invites_error lib accounts devices hashes [] = None"
| "invites_error lib accounts devices hashes ((k, i) # is) =
     (case invite_error lib accounts devices hashes k i of
        Some e \<Rightarrow> Some e
      | None \<Rightarrow> invites_error lib accounts devices (iv_TokenHash i # hashes) is)"

definition validateStoreData :: "store_lib \<Rightarrow> storeData \<Rightarrow> state_error option" where
  "validateStoreData lib d =
     (if sd_Version d \<noteq> ProviderStateVersion \<or> \<not> sd_complete d then Some MissingCollections
      else case accounts_error lib [] (sd_Accounts d) of
        Some e \<Rightarrow> Some e
      | None \<Rightarrow>
          (case devices_error lib (sd_Accounts d) [] (sd_Devices d) of
             Some e \<Rightarrow> Some e
           | None \<Rightarrow> invites_error lib (sd_Accounts d) (sd_Devices d) [] (sd_Invites d)))"

end
