(* ===== verification/IdentityOps.thy ===== *)
theory IdentityOps
  imports Identity
begin

text \<open>
  The operations of the authorization store, \<^verbatim>\<open>internal/identity/store.go\<close>. An operation takes the store in memory and the file and
  returns its answer with both of them after it; it holds the file lock and the mutex throughout, so it is one step. A write that fails leaves
  the file as it was (\<^verbatim>\<open>writeFileAtomic\<close> renames a complete temporary file over it as its last fallible action).
\<close>

type_synonym 'r store_op = "Store \<Rightarrow> store_file \<Rightarrow> (store_error + 'r) \<times> Store \<times> store_file"

section \<open>Reading and writing the file\<close>

definition readStoreData :: "store_lib \<Rightarrow> store_file \<Rightarrow> store_error + storeData" where
  "readStoreData lib f =
     (case f of
        Decoded d \<Rightarrow> (case validateStoreData lib d of None \<Rightarrow> Inr d | Some e \<Rightarrow> Inl (InvalidState e))
      | _ \<Rightarrow> Inl StoreNotRead)"

definition beginWrite :: "store_lib \<Rightarrow> store_env \<Rightarrow> bool \<Rightarrow> Store \<Rightarrow> store_file \<Rightarrow> store_error + Store" where
  "beginWrite lib en initialize s f =
     (if \<not> en_lock en then Inl ErrStoreUnavailable
      else if initialize then Inr s
      else case readStoreData lib f of
        Inl e \<Rightarrow> Inl ErrStoreUnavailable
      | Inr d \<Rightarrow> Inr (s\<lparr>st_data := d, st_lastGoodAt := Some (en_clock en)\<rparr>))"

text \<open>What \<^verbatim>\<open>json.MarshalIndent\<close> leaves in the file, as decoding it gives it back. Only the names can hold bytes that are not UTF-8: every other
  string of data that validates is hexadecimal or base64.\<close>

definition json_data :: "storeData \<Rightarrow> storeData" where
  "json_data d =
     d\<lparr>sd_Accounts := map (\<lambda>(k, a). (k, a\<lparr>ac_Name := json_text (ac_Name a)\<rparr>)) (sd_Accounts d),
       sd_Devices := map (\<lambda>(k, v). (k, v\<lparr>dv_Name := json_text (dv_Name v)\<rparr>)) (sd_Devices d)\<rparr>"

definition saveLocked :: "store_lib \<Rightarrow> bool \<Rightarrow> Store \<Rightarrow> store_file \<Rightarrow> store_error option \<times> store_file" where
  "saveLocked lib write_ok s f =
     (case validateStoreData lib (st_data s) of
        Some e \<Rightarrow> (Some (InvalidState e), f)
      | None \<Rightarrow> if write_ok then (None, Decoded (json_data (st_data s))) else (Some ErrStoreUnavailable, f))"

text \<open>Save, and on failure put the data back by \<open>undo\<close>.\<close>

definition save_or_undo :: "store_lib \<Rightarrow> bool \<Rightarrow> (storeData \<Rightarrow> storeData) \<Rightarrow> 'r \<Rightarrow> 'r store_op" where
  "save_or_undo lib write_ok undo res s f =
     (case saveLocked lib write_ok s f of
        (None, f') \<Rightarrow> (Inr res, s, f')
      | (Some e, f') \<Rightarrow> (Inl e, s\<lparr>st_data := undo (st_data s)\<rparr>, f'))"

definition Initialize :: "store_lib \<Rightarrow> store_env \<Rightarrow> unit store_op" where
  "Initialize lib en s f =
     (case beginWrite lib en True s f of
        Inl e \<Rightarrow> (Inl e, s, f)
      | Inr s1 \<Rightarrow>
          (case f of
             Decoded _ \<Rightarrow> (Inl StoreExists, s1, f)
           | Unreadable \<Rightarrow> (Inl StoreExists, s1, f)
           | Absent \<Rightarrow>
               (let s2 = s1\<lparr>st_data := emptyStoreData\<rparr> in
                case saveLocked lib (en_write en) s2 f of
                  (Some e, f') \<Rightarrow> (Inl e, s2, f')
                | (None, f') \<Rightarrow> (Inr (), s2\<lparr>st_lastGoodAt := Some (en_clock en)\<rparr>, f'))))"

definition Load :: "store_lib \<Rightarrow> store_env \<Rightarrow> unit store_op" where
  "Load lib en s f =
     (case readStoreData lib f of
        Inl e \<Rightarrow> (Inl e, s, f)
      | Inr d \<Rightarrow> (Inr (), s\<lparr>st_data := d, st_lastGoodAt := Some (en_clock en)\<rparr>, f))"

text \<open>\<^verbatim>\<open>reflect.DeepEqual\<close>: the order of an association list is none of the map's.\<close>

definition DeepEqual :: "storeData \<Rightarrow> storeData \<Rightarrow> bool" where
  "DeepEqual d e \<longleftrightarrow> sd_Version d = sd_Version e \<and> sd_complete d = sd_complete e \<and>
     set (sd_Accounts d) = set (sd_Accounts e) \<and> set (sd_Devices d) = set (sd_Devices e) \<and> set (sd_Invites d) = set (sd_Invites e)"

definition Refresh :: "store_lib \<Rightarrow> store_env \<Rightarrow> bool store_op" where
  "Refresh lib en s f =
     (case readStoreData lib f of
        Inl e \<Rightarrow> (Inl e, s, f)
      | Inr d \<Rightarrow>
          let s1 = s\<lparr>st_lastGoodAt := Some (en_clock en)\<rparr> in
          if DeepEqual d (st_data s1) then (Inr False, s1, f) else (Inr True, s1\<lparr>st_data := d\<rparr>, f))"

section \<open>Accounts\<close>

definition put_account :: "bytes \<Rightarrow> Account \<Rightarrow> storeData \<Rightarrow> storeData" where
  "put_account k a d = d\<lparr>sd_Accounts := AList.update k a (sd_Accounts d)\<rparr>"

definition AddAccount :: "store_lib \<Rightarrow> store_env \<Rightarrow> bytes \<Rightarrow> int \<Rightarrow> AccountLimits \<Rightarrow> int \<Rightarrow> Account store_op" where
  "AddAccount lib en name0 expiresAt limits now0 s f =
     (let name = TrimSpace name0 in
      if name = [] \<or> length name > 128 then (Inl AccountName, s, f)
      else case limits_validate limits of
        Some e \<Rightarrow> (Inl e, s, f)
      | None \<Rightarrow>
        let now = or_clock (en_clock en) now0 in
        (case randomID en of
           None \<Rightarrow> (Inl RandomFailed, s, f)
         | Some k \<Rightarrow>
           (case beginWrite lib en False s f of
              Inl e \<Rightarrow> (Inl e, s, f)
            | Inr s1 \<Rightarrow>
              if list_ex (\<lambda>(_, account). lib_EqualFold lib (ac_Name account) name) (sd_Accounts (st_data s1)) then (Inl AccountExists, s1, f)
              else
                let account = \<lparr>ac_ID = k, ac_Name = name, ac_Enabled = True, ac_ExpiresAt = NoStamp, ac_MaxFlows = al_MaxFlows limits,
                               ac_MaxClients = al_MaxClients limits, ac_CreatedAt = format_time now\<rparr>;
                    account1 = (if expiresAt \<noteq> zero_time then account\<lparr>ac_ExpiresAt := format_time expiresAt\<rparr> else account) in
                if expiresAt \<noteq> zero_time \<and> \<not> expiresAt > now then (Inl ExpirationPast, s1, f)
                else if expiresAt \<noteq> zero_time \<and> ac_ExpiresAt account1 = ac_CreatedAt account1 then (Inl ExpirationNow, s1, f)
                else save_or_undo lib (en_write en) (\<lambda>d. d\<lparr>sd_Accounts := AList.delete k (sd_Accounts d)\<rparr>) account1
                       (s1\<lparr>st_data := put_account k account1 (st_data s1)\<rparr>) f)))"

text \<open>What \<^verbatim>\<open>SetAccountEnabled\<close> and \<^verbatim>\<open>SetAccountLimits\<close> share: the account changed, saved, and put back on failure.\<close>

definition change_account :: "store_lib \<Rightarrow> store_env \<Rightarrow> bytes \<Rightarrow> (Account \<Rightarrow> Account) \<Rightarrow> unit store_op" where
  "change_account lib en accountID change s f =
     (case beginWrite lib en False s f of
        Inl e \<Rightarrow> (Inl e, s, f)
      | Inr s1 \<Rightarrow>
          (case map_of (sd_Accounts (st_data s1)) accountID of
             None \<Rightarrow> (Inl UnknownAccount, s1, f)
           | Some account \<Rightarrow>
               save_or_undo lib (en_write en) (put_account accountID account) () (s1\<lparr>st_data := put_account accountID (change account) (st_data s1)\<rparr>) f))"

definition SetAccountEnabled :: "store_lib \<Rightarrow> store_env \<Rightarrow> bytes \<Rightarrow> bool \<Rightarrow> unit store_op" where
  "SetAccountEnabled lib en accountID enabled = change_account lib en accountID (\<lambda>a. a\<lparr>ac_Enabled := enabled\<rparr>)"

definition SetAccountLimits :: "store_lib \<Rightarrow> store_env \<Rightarrow> bytes \<Rightarrow> AccountLimits \<Rightarrow> unit store_op" where
  "SetAccountLimits lib en accountID limits s f =
     (case limits_validate limits of
        Some e \<Rightarrow> (Inl e, s, f)
      | None \<Rightarrow> change_account lib en accountID (\<lambda>a. a\<lparr>ac_MaxFlows := al_MaxFlows limits, ac_MaxClients := al_MaxClients limits\<rparr>) s f)"

definition FindAccount :: "store_lib \<Rightarrow> bytes \<Rightarrow> Store \<Rightarrow> Account option" where
  "FindAccount lib v s =
     (case map_of (sd_Accounts (st_data s)) v of
        Some account \<Rightarrow> Some account
      | None \<Rightarrow> map_option snd (find (\<lambda>(_, account). lib_EqualFold lib (ac_Name account) v) (sd_Accounts (st_data s))))"

section \<open>Invitations and devices\<close>

definition prunable :: "int \<Rightarrow> InviteRecord \<Rightarrow> bool" where
  "prunable now i =
     (if iv_ConsumedAt i \<noteq> NoStamp
      then (case parse_time (iv_ConsumedAt i) of None \<Rightarrow> True | Some consumed \<Rightarrow> \<not> now < consumed + consumedInviteRecoveryWindow)
      else expired (iv_ExpiresAt i) now)"

definition pruneInvitesLocked :: "int \<Rightarrow> Store \<Rightarrow> bool \<times> Store" where
  "pruneInvitesLocked now s =
     (list_ex (\<lambda>(_, i). prunable now i) (sd_Invites (st_data s)),
      s\<lparr>st_data := (st_data s)\<lparr>sd_Invites := filter (\<lambda>(_, i). \<not> prunable now i) (sd_Invites (st_data s))\<rparr>\<rparr>)"

text \<open>Prune, and save when something was pruned; a failure to save is the error, and the file is then untouched.\<close>

definition prune_saved :: "store_lib \<Rightarrow> bool \<Rightarrow> int \<Rightarrow> Store \<Rightarrow> store_file \<Rightarrow> store_error option \<times> Store \<times> store_file" where
  "prune_saved lib write_ok now s f =
     (let (changed, s1) = pruneInvitesLocked now s in
      if changed then (case saveLocked lib write_ok s1 f of (err, f1) \<Rightarrow> (err, s1, f1)) else (None, s1, f))"

definition CreateInvite :: "store_lib \<Rightarrow> store_env \<Rightarrow> bytes \<Rightarrow> int \<Rightarrow> int \<Rightarrow> (InviteRecord \<times> bytes) store_op" where
  "CreateInvite lib en accountID ttl now0 s f =
     (if ttl < second \<or> ttl > 7 * 24 * 3600 * second then (Inl InviteLifetime, s, f)
      else
        let now = or_clock (en_clock en) now0 in
        case en_token en of
          None \<Rightarrow> (Inl RandomFailed, s, f)
        | Some tokenBytes \<Rightarrow>
          (case randomID en of
             None \<Rightarrow> (Inl RandomFailed, s, f)
           | Some k \<Rightarrow>
             (case beginWrite lib en False s f of
                Inl e \<Rightarrow> (Inl e, s, f)
              | Inr s1 \<Rightarrow>
                (case prune_saved lib (en_prune_write en) now s1 f of
                   (Some e, s2, f2) \<Rightarrow> (Inl e, s2, f2)
                 | (None, s2, f2) \<Rightarrow>
                   (case map_of (sd_Accounts (st_data s2)) accountID of
                      None \<Rightarrow> (Inl AccountDisabled, s2, f2)
                    | Some account \<Rightarrow>
                      if \<not> ac_Enabled account then (Inl AccountDisabled, s2, f2)
                      else if expired (ac_ExpiresAt account) now then (Inl AccountHasExpired, s2, f2)
                      else
                        let record = \<lparr>iv_ID = k, iv_AccountID = accountID, iv_TokenHash = EncodeToString (lib_Sum256 lib tokenBytes),
                                      iv_ExpiresAt = format_time (now + ttl), iv_CreatedAt = format_time now, iv_ConsumedAt = NoStamp, iv_DeviceID = []\<rparr>
                        in save_or_undo lib (en_write en) (\<lambda>d. d\<lparr>sd_Invites := AList.delete k (sd_Invites d)\<rparr>) (record, EncodeToString tokenBytes)
                             (s2\<lparr>st_data := (st_data s2)\<lparr>sd_Invites := AList.update k record (sd_Invites (st_data s2))\<rparr>\<rparr>) f2)))))"

text \<open>The certificate of a device; \<open>issue\<close> is nil for administrative tooling.\<close>

definition issue_credential :: "(Account \<Rightarrow> Device \<Rightarrow> bytes option) option \<Rightarrow> Account \<Rightarrow> Device \<Rightarrow> store_error + bytes" where
  "issue_credential issue account device =
     (case issue of
        None \<Rightarrow> Inr []
      | Some g \<Rightarrow> (case g account device of None \<Rightarrow> Inl IssueFailed | Some credential \<Rightarrow> Inr credential))"

text \<open>\<^verbatim>\<open>EnrollDevice\<close> for an invitation already consumed: only an exact repetition is answered.\<close>

definition enroll_again :: "bytes \<Rightarrow> bytes \<Rightarrow> (Account \<Rightarrow> Device \<Rightarrow> bytes option) option \<Rightarrow> Account \<Rightarrow> InviteRecord \<Rightarrow> (Account \<times> Device \<times> bytes) store_op" where
  "enroll_again deviceName publicText issue account invite s f =
     (case map_of (sd_Devices (st_data s)) (iv_DeviceID invite) of
        None \<Rightarrow> (Inl InvitationUsed, s, f)
      | Some device \<Rightarrow>
          if dv_AccountID device \<noteq> ac_ID account \<or> dv_Name device \<noteq> deviceName \<or> dv_PublicKey device \<noteq> publicText then (Inl InvitationUsed, s, f)
          else (case issue_credential issue account device of
                  Inl e \<Rightarrow> (Inl e, s, f)
                | Inr credential \<Rightarrow> (Inr (account, device, credential), s, f)))"

text \<open>\<^verbatim>\<open>EnrollDevice\<close> for an unused invitation: the certificate first, then both records in one save.\<close>

definition enroll_new :: "store_lib \<Rightarrow> store_env \<Rightarrow> bytes \<Rightarrow> bytes \<Rightarrow> int \<Rightarrow> (Account \<Rightarrow> Device \<Rightarrow> bytes option) option \<Rightarrow> Account \<Rightarrow> InviteRecord
    \<Rightarrow> (Account \<times> Device \<times> bytes) store_op" where
  "enroll_new lib en deviceName publicText now issue account invite s f =
     (if list_ex (\<lambda>(_, existing). dv_PublicKey existing = publicText) (sd_Devices (st_data s)) then (Inl DeviceKeyRegistered, s, f)
      else case randomID en of
        None \<Rightarrow> (Inl RandomFailed, s, f)
      | Some deviceID \<Rightarrow>
          let device = \<lparr>dv_ID = deviceID, dv_AccountID = ac_ID account, dv_Name = deviceName, dv_PublicKey = publicText, dv_Enabled = True,
                        dv_CreatedAt = format_time now, dv_RevokedAt = NoStamp\<rparr> in
          (case issue_credential issue account device of
             Inl e \<Rightarrow> (Inl e, s, f)
           | Inr credential \<Rightarrow>
               let invite1 = invite\<lparr>iv_ConsumedAt := format_time now, iv_DeviceID := deviceID\<rparr> in
               save_or_undo lib (en_write en)
                 (\<lambda>d. d\<lparr>sd_Invites := AList.update (iv_ID invite) invite (sd_Invites d), sd_Devices := AList.delete deviceID (sd_Devices d)\<rparr>)
                 (account, device, credential)
                 (s\<lparr>st_data := (st_data s)\<lparr>sd_Invites := AList.update (iv_ID invite) invite1 (sd_Invites (st_data s)),
                      sd_Devices := AList.update deviceID device (sd_Devices (st_data s))\<rparr>\<rparr>) f))"

definition EnrollDevice :: "store_lib \<Rightarrow> store_env \<Rightarrow> bytes \<Rightarrow> bytes \<Rightarrow> bytes \<Rightarrow> int \<Rightarrow> (Account \<Rightarrow> Device \<Rightarrow> bytes option) option
    \<Rightarrow> (Account \<times> Device \<times> bytes) store_op" where
  "EnrollDevice lib en token deviceName0 publicKey now0 issue s f =
     (let now = or_clock (en_clock en) now0; deviceName = TrimSpace deviceName0 in
      if deviceName = [] \<or> length deviceName > 128 then (Inl DeviceName, s, f)
      else if length publicKey \<noteq> 32 then (Inl DeviceKeyInvalid, s, f)
      else case DecodeString token of
        None \<Rightarrow> (Inl InvitationInvalid, s, f)
      | Some tokenBytes \<Rightarrow>
        if length tokenBytes \<noteq> 32 then (Inl InvitationInvalid, s, f)
        else
          let hashText = EncodeToString (lib_Sum256 lib tokenBytes); publicText = EncodeToString publicKey in
          (case beginWrite lib en False s f of
             Inl e \<Rightarrow> (Inl e, s, f)
           | Inr s1 \<Rightarrow>
             (case prune_saved lib (en_prune_write en) now s1 f of
                (Some e, s2, f2) \<Rightarrow> (Inl e, s2, f2)
              | (None, s2, f2) \<Rightarrow>
                (case find (\<lambda>(_, candidate). iv_TokenHash candidate = hashText) (sd_Invites (st_data s2)) of
                   None \<Rightarrow> (Inl InvitationRefused, s2, f2)
                 | Some (_, invite) \<Rightarrow>
                   if iv_ConsumedAt invite = NoStamp \<and> expired (iv_ExpiresAt invite) now then (Inl InvitationRefused, s2, f2)
                   else (case map_of (sd_Accounts (st_data s2)) (iv_AccountID invite) of
                           None \<Rightarrow> (Inl InvitationAccount, s2, f2)
                         | Some account \<Rightarrow>
                           if \<not> ac_Enabled account \<or> expired (ac_ExpiresAt account) now then (Inl InvitationAccount, s2, f2)
                           else if iv_ConsumedAt invite \<noteq> NoStamp then enroll_again deviceName publicText issue account invite s2 f2
                           else enroll_new lib en deviceName publicText now issue account invite s2 f2)))))"

definition ConsumeInvite :: "store_lib \<Rightarrow> store_env \<Rightarrow> bytes \<Rightarrow> bytes \<Rightarrow> bytes \<Rightarrow> int \<Rightarrow> (Account \<times> Device) store_op" where
  "ConsumeInvite lib en token deviceName publicKey now s f =
     (case EnrollDevice lib en token deviceName publicKey now None s f of
        (res, s', f') \<Rightarrow> (map_sum id (\<lambda>(account, device, _). (account, device)) res, s', f'))"

definition Authorize :: "int \<Rightarrow> Principal \<Rightarrow> int \<Rightarrow> Store \<Rightarrow> store_error + Authorization" where
  "Authorize clock who now0 s =
     (let now = or_clock clock now0 in
      case map_of (sd_Accounts (st_data s)) (AccountID who) of
        None \<Rightarrow> Inl Unauthorized
      | Some account \<Rightarrow>
          if \<not> ac_Enabled account \<or> expired (ac_ExpiresAt account) now then Inl Unauthorized
          else case map_of (sd_Devices (st_data s)) (DeviceID who) of
            None \<Rightarrow> Inl DeviceUnauthorized
          | Some device \<Rightarrow>
              if dv_AccountID device \<noteq> ac_ID account \<or> \<not> dv_Enabled device \<or> dv_RevokedAt device \<noteq> NoStamp then Inl DeviceUnauthorized
              else if DecodeString (dv_PublicKey device) \<noteq> Some (PublicKey who) then Inl KeyMismatch
              else Inr \<lparr>au_Account = account, au_Device = device\<rparr>)"

definition RevokeDevice :: "store_lib \<Rightarrow> store_env \<Rightarrow> bytes \<Rightarrow> int \<Rightarrow> unit store_op" where
  "RevokeDevice lib en deviceID now0 s f =
     (let now = or_clock (en_clock en) now0 in
      case beginWrite lib en False s f of
        Inl e \<Rightarrow> (Inl e, s, f)
      | Inr s1 \<Rightarrow>
          (case map_of (sd_Devices (st_data s1)) deviceID of
             None \<Rightarrow> (Inl UnknownDevice, s1, f)
           | Some device \<Rightarrow>
               save_or_undo lib (en_write en) (\<lambda>d. d\<lparr>sd_Devices := AList.update deviceID device (sd_Devices d)\<rparr>) ()
                 (s1\<lparr>st_data := (st_data s1)\<lparr>sd_Devices :=
                    AList.update deviceID (device\<lparr>dv_Enabled := False, dv_RevokedAt := format_time now\<rparr>) (sd_Devices (st_data s1))\<rparr>\<rparr>) f))"

definition RevokeInvite :: "store_lib \<Rightarrow> store_env \<Rightarrow> bytes \<Rightarrow> unit store_op" where
  "RevokeInvite lib en invitationID s f =
     (case beginWrite lib en False s f of
        Inl e \<Rightarrow> (Inl e, s, f)
      | Inr s1 \<Rightarrow>
          (case map_of (sd_Invites (st_data s1)) invitationID of
             None \<Rightarrow> (Inl UnknownInvitation, s1, f)
           | Some invitation \<Rightarrow>
               if iv_ConsumedAt invitation \<noteq> NoStamp then (Inl UnknownInvitation, s1, f)
               else save_or_undo lib (en_write en) (\<lambda>d. d\<lparr>sd_Invites := AList.update invitationID invitation (sd_Invites d)\<rparr>) ()
                      (s1\<lparr>st_data := (st_data s1)\<lparr>sd_Invites := AList.delete invitationID (sd_Invites (st_data s1))\<rparr>\<rparr>) f))"

end
