(* ===== verification/IdentityInv.thy ===== *)
theory IdentityInv
  imports IdentityOps
begin

text \<open>
  What the authorization store keeps. Several processes, each with its own copy in memory, run the operations of \<open>IdentityOps\<close> on one file in any
  order, with any of their locks, writes and random draws failing: \<open>provider_step\<close>. The file decodes and, when the account names given are UTF-8,
  validates; a token enrols one device, a revoked device stays revoked, and a failed enrolment costs nothing.
\<close>

section \<open>What validation means\<close>

abbreviation valid_data :: "store_lib \<Rightarrow> storeData \<Rightarrow> bool" where
  "valid_data lib d \<equiv> validateStoreData lib d = None"

lemma account_error_names: "account_error lib names k a = None \<longleftrightarrow> account_error lib [] k a = None \<and> lib_ToLower lib (ac_Name a) \<notin> set names"
  by (simp add: account_error_def)

lemma device_error_keys: "device_error lib as keys k v = None \<longleftrightarrow> device_error lib as [] k v = None \<and> dv_PublicKey v \<notin> set keys"
  by (auto simp: device_error_def split: option.splits if_splits)

lemma invite_error_hashes: "invite_error lib as ds hashes k i = None \<longleftrightarrow> invite_error lib as ds [] k i = None \<and> iv_TokenHash i \<notin> set hashes"
  by (auto simp: invite_error_def split: option.splits if_splits prod.splits)

lemma errors_Cons:
  "accounts_error lib names ((k, a) # as) = None \<longleftrightarrow> account_error lib names k a = None \<and> accounts_error lib (lib_ToLower lib (ac_Name a) # names) as = None"
  "devices_error lib as keys ((k, v) # ds) = None \<longleftrightarrow> device_error lib as keys k v = None \<and> devices_error lib as (dv_PublicKey v # keys) ds = None"
  "invites_error lib as ds hashes ((k, i) # is) = None \<longleftrightarrow> invite_error lib as ds hashes k i = None \<and> invites_error lib as ds (iv_TokenHash i # hashes) is = None"
  by (simp_all split: option.split)

lemma accounts_valid:
  "accounts_error lib names as = None \<longleftrightarrow> (\<forall>(k, a) \<in> set as. account_error lib [] k a = None) \<and>
     distinct (map (\<lambda>(_, a). lib_ToLower lib (ac_Name a)) as) \<and> set (map (\<lambda>(_, a). lib_ToLower lib (ac_Name a)) as) \<inter> set names = {}"
proof (induction as arbitrary: names)
  case (Cons x as)
  obtain k a where "x = (k, a)" by (cases x)
  then show ?case using account_error_names [of lib names k a] Cons [of "lib_ToLower lib (ac_Name a) # names"]
    by (auto simp: errors_Cons simp del: accounts_error.simps)
qed simp

lemma devices_valid:
  "devices_error lib as keys ds = None \<longleftrightarrow> (\<forall>(k, v) \<in> set ds. device_error lib as [] k v = None) \<and>
     distinct (map (\<lambda>(_, v). dv_PublicKey v) ds) \<and> set (map (\<lambda>(_, v). dv_PublicKey v) ds) \<inter> set keys = {}"
proof (induction ds arbitrary: keys)
  case (Cons x ds)
  obtain k v where "x = (k, v)" by (cases x)
  then show ?case using device_error_keys [of lib as keys k v] Cons [of "dv_PublicKey v # keys"] by (auto simp: errors_Cons simp del: devices_error.simps)
qed simp

lemma invites_valid:
  "invites_error lib as ds hashes is = None \<longleftrightarrow> (\<forall>(k, i) \<in> set is. invite_error lib as ds [] k i = None) \<and>
     distinct (map (\<lambda>(_, i). iv_TokenHash i) is) \<and> set (map (\<lambda>(_, i). iv_TokenHash i) is) \<inter> set hashes = {}"
proof (induction "is" arbitrary: hashes)
  case (Cons x "is")
  obtain k i where "x = (k, i)" by (cases x)
  then show ?case using invite_error_hashes [of lib as ds hashes k i] Cons [of "iv_TokenHash i # hashes"] by (auto simp: errors_Cons simp del: invites_error.simps)
qed simp

lemma valid_iff:
  "valid_data lib d \<longleftrightarrow> sd_Version d = ProviderStateVersion \<and> sd_complete d \<and>
     (\<forall>(k, a) \<in> set (sd_Accounts d). account_error lib [] k a = None) \<and> distinct (map (\<lambda>(_, a). lib_ToLower lib (ac_Name a)) (sd_Accounts d)) \<and>
     (\<forall>(k, v) \<in> set (sd_Devices d). device_error lib (sd_Accounts d) [] k v = None) \<and> distinct (map (\<lambda>(_, v). dv_PublicKey v) (sd_Devices d)) \<and>
     (\<forall>(k, i) \<in> set (sd_Invites d). invite_error lib (sd_Accounts d) (sd_Devices d) [] k i = None) \<and>
     distinct (map (\<lambda>(_, i). iv_TokenHash i) (sd_Invites d))"
proof -
  have "valid_data lib d \<longleftrightarrow> sd_Version d = ProviderStateVersion \<and> sd_complete d \<and> accounts_error lib [] (sd_Accounts d) = None \<and>
      devices_error lib (sd_Accounts d) [] (sd_Devices d) = None \<and> invites_error lib (sd_Accounts d) (sd_Devices d) [] (sd_Invites d) = None"
    by (auto simp: validateStoreData_def split: option.split)
  then show ?thesis by (simp only: accounts_valid devices_valid invites_valid list.set Int_empty_right conj_assoc simp_thms)
qed

lemma valid_hash_unique:
  assumes "valid_data lib d" "(k, i) \<in> set (sd_Invites d)" "(k', i') \<in> set (sd_Invites d)" "iv_TokenHash i = iv_TokenHash i'"
  shows "k = k' \<and> i = i'"
proof -
  have "inj_on (\<lambda>(_, i). iv_TokenHash i) (set (sd_Invites d))" using assms(1) by (simp add: valid_iff distinct_map)
  from inj_onD [OF this _ assms(2,3)] show ?thesis using assms(4) by simp
qed

lemma device_error_id: "device_error lib as keys k v = None \<Longrightarrow> k = dv_ID v"
  by (auto simp: device_error_def split: if_splits)

lemma invite_error_id: "invite_error lib as ds hashes k i = None \<Longrightarrow> k = iv_ID i"
  by (auto simp: invite_error_def split: if_splits)

lemma valid_device_id: "valid_data lib d \<Longrightarrow> map_of (sd_Devices d) k = Some v \<Longrightarrow> dv_ID v = k"
  by (fastforce simp: valid_iff dest!: map_of_SomeD device_error_id)

lemma valid_invite_id: "valid_data lib d \<Longrightarrow> (k, i) \<in> set (sd_Invites d) \<Longrightarrow> iv_ID i = k"
  by (fastforce simp: valid_iff dest!: invite_error_id)

lemma valid_filter_invites:
  assumes "valid_data lib d"
  shows "valid_data lib (d\<lparr>sd_Invites := filter P (sd_Invites d)\<rparr>)"
  using assms by (auto simp: valid_iff distinct_map_filter)

text \<open>A map has distinct keys; what decoding a JSON file yields has them too, and its names are UTF-8.\<close>

definition maps_ok :: "storeData \<Rightarrow> bool" where
  "maps_ok d \<longleftrightarrow> distinct (map fst (sd_Accounts d)) \<and> distinct (map fst (sd_Devices d)) \<and> distinct (map fst (sd_Invites d))"

definition plain :: "storeData \<Rightarrow> bool" where
  "plain d \<longleftrightarrow> list_all (\<lambda>(_, a). ValidString (ac_Name a)) (sd_Accounts d) \<and> list_all (\<lambda>(_, v). ValidString (dv_Name v)) (sd_Devices d)"

definition decoded_ok :: "storeData \<Rightarrow> bool" where
  "decoded_ok d \<longleftrightarrow> maps_ok d \<and> plain d"

lemma json_plain: "plain d \<Longrightarrow> json_data d = d"
proof -
  assume p: "plain d"
  have "map (\<lambda>(k, a). (k, a\<lparr>ac_Name := json_text (ac_Name a)\<rparr>)) (sd_Accounts d) = sd_Accounts d"
    using p by (intro map_idI) (auto simp: plain_def list_all_iff json_text_valid)
  moreover have "map (\<lambda>(k, v). (k, v\<lparr>dv_Name := json_text (dv_Name v)\<rparr>)) (sd_Devices d) = sd_Devices d"
    using p by (intro map_idI) (auto simp: plain_def list_all_iff json_text_valid)
  ultimately show "json_data d = d" by (simp add: json_data_def)
qed

lemma plain_json [simp]: "plain (json_data d)"
  by (auto simp: plain_def json_data_def list_all_iff)

lemma json_keys [simp]:
  "map fst (sd_Accounts (json_data d)) = map fst (sd_Accounts d)" "map fst (sd_Devices (json_data d)) = map fst (sd_Devices d)" "sd_Invites (json_data d) = sd_Invites d"
  by (simp_all add: json_data_def comp_def split_beta)

lemma json_maps [simp]: "maps_ok (json_data d) = maps_ok d"
  by (simp add: maps_ok_def)

text \<open>The strings that JSON can leave alone: hexadecimal and base64 are ASCII.\<close>

lemma ascii_valid: "list_all (\<lambda>b. unat b < 128) s \<Longrightarrow> ValidString s"
  by (induction s) (auto simp: ValidString.simps rune_size_def rune_lead_def Let_def)

lemma hex_text_plain: "validID lib k \<Longrightarrow> json_text k = k"
  by (rule json_text_valid, rule ascii_valid) (auto simp: validID_def list_all_iff hex_value_def Let_def split: if_splits)

lemma base64_text_plain: "DecodeString text \<noteq> None \<Longrightarrow> json_text text = text"
proof -
  assume "DecodeString text \<noteq> None"
  then have n: "None \<notin> b64_value ` set (filter (\<lambda>c. c \<noteq> 10 \<and> c \<noteq> 13) text)" by (simp only: DecodeString_def Let_def set_map split: if_splits) simp_all
  have "unat c < 128" if "b64_value c \<noteq> None" for c using that by (simp add: b64_value_def Let_def split: if_splits)
  moreover have "b64_value c \<noteq> None" if "c \<in> set text" "c \<noteq> 10" "c \<noteq> 13" for c
  proof
    assume "b64_value c = None"
    then have "None \<in> b64_value ` set (filter (\<lambda>c. c \<noteq> 10 \<and> c \<noteq> 13) text)" using that by (intro image_eqI [of _ _ c]) simp_all
    with n show False by contradiction
  qed
  ultimately have "unat c < 128" if "c \<in> set text" for c using that by (cases "c = 10 \<or> c = 13") auto
  then show "json_text text = text" by (intro json_text_valid ascii_valid) (simp add: list_all_iff)
qed

lemma json_other_strings:
  assumes "valid_data lib d"
  shows "\<forall>(k, a) \<in> set (sd_Accounts d). json_text k = k \<and> json_text (ac_ID a) = ac_ID a"
    "\<forall>(k, v) \<in> set (sd_Devices d). json_text k = k \<and> json_text (dv_ID v) = dv_ID v \<and> json_text (dv_AccountID v) = dv_AccountID v \<and>
       json_text (dv_PublicKey v) = dv_PublicKey v"
    "\<forall>(k, i) \<in> set (sd_Invites d). json_text k = k \<and> json_text (iv_ID i) = iv_ID i \<and> json_text (iv_AccountID i) = iv_AccountID i \<and>
       json_text (iv_TokenHash i) = iv_TokenHash i \<and> json_text (iv_DeviceID i) = iv_DeviceID i"
proof -
  have a: "json_text k = k \<and> json_text (ac_ID a) = ac_ID a" if "account_error lib [] k a = None" for k a
    using that by (auto simp: account_error_def hex_text_plain split: if_splits)
  have v: "json_text k = k \<and> json_text (dv_ID v) = dv_ID v \<and> json_text (dv_AccountID v) = dv_AccountID v \<and> json_text (dv_PublicKey v) = dv_PublicKey v"
    if "device_error lib as [] k v = None" for as k v
    using that by (auto simp: device_error_def hex_text_plain base64_text_plain split: if_splits option.splits)
  from a assms show "\<forall>(k, a) \<in> set (sd_Accounts d). json_text k = k \<and> json_text (ac_ID a) = ac_ID a" by (auto simp: valid_iff)
  from v assms show dev: "\<forall>(k, v) \<in> set (sd_Devices d). json_text k = k \<and> json_text (dv_ID v) = dv_ID v \<and> json_text (dv_AccountID v) = dv_AccountID v \<and>
       json_text (dv_PublicKey v) = dv_PublicKey v" by (fastforce simp: valid_iff)
  have "json_text k = k \<and> json_text (iv_ID i) = iv_ID i \<and> json_text (iv_AccountID i) = iv_AccountID i \<and>
      json_text (iv_TokenHash i) = iv_TokenHash i \<and> json_text (iv_DeviceID i) = iv_DeviceID i"
    if i: "invite_error lib (sd_Accounts d) (sd_Devices d) [] k i = None" for k i
  proof -
    have "iv_DeviceID i = [] \<or> (\<exists>v. map_of (sd_Devices d) (iv_DeviceID i) = Some v)"
      using i by (auto simp: invite_error_def split: if_splits option.splits prod.splits)
    then have "json_text (iv_DeviceID i) = iv_DeviceID i" using dev by (auto simp: json_text.simps dest!: map_of_SomeD)
    then show ?thesis using i by (auto simp: invite_error_def hex_text_plain base64_text_plain split: if_splits option.splits)
  qed
  then show "\<forall>(k, i) \<in> set (sd_Invites d). json_text k = k \<and> json_text (iv_ID i) = iv_ID i \<and> json_text (iv_AccountID i) = iv_AccountID i \<and>
       json_text (iv_TokenHash i) = iv_TokenHash i \<and> json_text (iv_DeviceID i) = iv_DeviceID i" using assms by (auto simp: valid_iff)
qed

section \<open>What an operation does to the file\<close>

definition plain_file :: "store_file \<Rightarrow> bool" where
  "plain_file f = (case f of Decoded d \<Rightarrow> plain d | _ \<Rightarrow> True)"

lemma begin_ok: "beginWrite lib en False s f = Inr s1 \<Longrightarrow> \<exists>d. f = Decoded d \<and> valid_data lib d \<and> st_data s1 = d"
  by (auto simp: beginWrite_def readStoreData_def split: if_splits sum.splits store_file.splits option.splits)

lemma save_cases:
  assumes "save_or_undo lib w undo res s f = (r, s', f')"
  obtains e where "r = Inl e" "f' = f" "s' = s\<lparr>st_data := undo (st_data s)\<rparr>"
  | "r = Inr res" "s' = s" "valid_data lib (st_data s)" "f' = Decoded (json_data (st_data s))"
  using assms by (auto simp: save_or_undo_def saveLocked_def split: option.splits if_splits prod.splits)

definition pruned :: "int \<Rightarrow> storeData \<Rightarrow> storeData" where
  "pruned now d = d\<lparr>sd_Invites := filter (\<lambda>(_, i). \<not> prunable now i) (sd_Invites d)\<rparr>"

lemma prune_cases:
  assumes "prune_saved lib w now s f = (err, s', f')" "f = Decoded (st_data s)" "valid_data lib (st_data s)" "plain (st_data s)"
  shows "st_data s' = pruned now (st_data s) \<and> valid_data lib (st_data s') \<and> (f' = f \<or> f' = Decoded (st_data s')) \<and> (err = None \<longrightarrow> f' = Decoded (st_data s'))"
proof -
  have v: "valid_data lib (pruned now (st_data s))" unfolding pruned_def by (rule valid_filter_invites [OF assms(3)])
  have id: "pruned now (st_data s) = st_data s" if "\<not> list_ex (\<lambda>(_, i). prunable now i) (sd_Invites (st_data s))"
    using that by (simp add: pruned_def list_ex_iff filter_id_conv split_beta)
  have "json_data (pruned now (st_data s)) = pruned now (st_data s)" using assms(4) by (intro json_plain) (simp add: plain_def pruned_def)
  then show ?thesis using assms(1,2) v id by (auto simp: prune_saved_def pruneInvitesLocked_def saveLocked_def pruned_def [symmetric] split: if_splits)
qed

section \<open>Runs of a provider\<close>

text \<open>\<open>pv_enrolled\<close> lists the enrolments answered with success: token digest, name, key and device; \<open>pv_revoked\<close> the devices revoked; \<open>pv_drawn\<close>
  the digests of the tokens drawn; \<open>pv_names\<close> the names given to \<^verbatim>\<open>AddAccount\<close>, which the command line takes as they come. The premises on
  identifiers and tokens are what 128 and 256 random bits are relied on for; the name of a device arrives in a JSON request, so it is UTF-8.\<close>

record provider =
  pv_file :: store_file
  pv_stores :: "nat \<Rightarrow> Store"
  pv_enrolled :: "(bytes \<times> bytes \<times> bytes \<times> bytes) list"
  pv_revoked :: "bytes list"
  pv_drawn :: "bytes list"
  pv_names :: "bytes list"

definition fresh_id :: "store_env \<Rightarrow> store_file \<Rightarrow> bool" where
  "fresh_id en f \<longleftrightarrow>
     (case (randomID en, f) of
        (Some k, Decoded d) \<Rightarrow> k \<notin> fst ` set (sd_Accounts d) \<and> k \<notin> fst ` set (sd_Devices d) \<and> k \<notin> fst ` set (sd_Invites d)
      | _ \<Rightarrow> True)"

definition token_digest :: "store_lib \<Rightarrow> bytes \<Rightarrow> bytes" where
  "token_digest lib tokenBytes = EncodeToString (lib_Sum256 lib tokenBytes)"

definition text_digest :: "store_lib \<Rightarrow> bytes \<Rightarrow> bytes" where
  "text_digest lib token = (case DecodeString token of None \<Rightarrow> [] | Some tokenBytes \<Rightarrow> token_digest lib tokenBytes)"

definition step_to :: "provider \<Rightarrow> nat \<Rightarrow> Store \<Rightarrow> store_file \<Rightarrow> provider" where
  "step_to p n s f = p\<lparr>pv_stores := (pv_stores p)(n := s), pv_file := f\<rparr>"

inductive provider_step :: "store_lib \<Rightarrow> provider \<Rightarrow> provider \<Rightarrow> bool" for lib where
  initialize: "Initialize lib en (pv_stores p n) (pv_file p) = (r, s, f) \<Longrightarrow> provider_step lib p (step_to p n s f)"
| load: "Load lib en (pv_stores p n) (pv_file p) = (r, s, f) \<Longrightarrow> provider_step lib p (step_to p n s f)"
| refresh: "Refresh lib en (pv_stores p n) (pv_file p) = (r, s, f) \<Longrightarrow> provider_step lib p (step_to p n s f)"
| add_account: "AddAccount lib en name expiresAt limits now (pv_stores p n) (pv_file p) = (r, s, f) \<Longrightarrow>
    provider_step lib p ((step_to p n s f)\<lparr>pv_names := pv_names p @ [TrimSpace name]\<rparr>)"
| set_enabled: "SetAccountEnabled lib en accountID enabled (pv_stores p n) (pv_file p) = (r, s, f) \<Longrightarrow> provider_step lib p (step_to p n s f)"
| set_limits: "SetAccountLimits lib en accountID limits (pv_stores p n) (pv_file p) = (r, s, f) \<Longrightarrow> provider_step lib p (step_to p n s f)"
| create_invite: "CreateInvite lib en accountID ttl now (pv_stores p n) (pv_file p) = (r, s, f) \<Longrightarrow> fresh_id en (pv_file p) \<Longrightarrow>
    en_token en = Some tk \<Longrightarrow> token_digest lib tk \<notin> set (pv_drawn p) \<Longrightarrow>
    provider_step lib p ((step_to p n s f)\<lparr>pv_drawn := pv_drawn p @ [token_digest lib tk]\<rparr>)"
| enroll: "EnrollDevice lib en token name key now issue (pv_stores p n) (pv_file p) = (Inr (account, device, credential), s, f) \<Longrightarrow> fresh_id en (pv_file p) \<Longrightarrow>
    ValidString (TrimSpace name) \<Longrightarrow>
    provider_step lib p ((step_to p n s f)\<lparr>pv_enrolled := pv_enrolled p @ [(text_digest lib token, TrimSpace name, EncodeToString key, dv_ID device)]\<rparr>)"
| enroll_fails: "EnrollDevice lib en token name key now issue (pv_stores p n) (pv_file p) = (Inl e, s, f) \<Longrightarrow> provider_step lib p (step_to p n s f)"
| revoke_device: "RevokeDevice lib en deviceID now (pv_stores p n) (pv_file p) = (Inr (), s, f) \<Longrightarrow>
    provider_step lib p ((step_to p n s f)\<lparr>pv_revoked := pv_revoked p @ [deviceID]\<rparr>)"
| revoke_device_fails: "RevokeDevice lib en deviceID now (pv_stores p n) (pv_file p) = (Inl e, s, f) \<Longrightarrow> provider_step lib p (step_to p n s f)"
| revoke_invite: "RevokeInvite lib en invitationID (pv_stores p n) (pv_file p) = (r, s, f) \<Longrightarrow> provider_step lib p (step_to p n s f)"

definition new_provider :: provider where
  "new_provider = \<lparr>pv_file = Absent, pv_stores = \<lambda>_. NewStore, pv_enrolled = [], pv_revoked = [], pv_drawn = [], pv_names = []\<rparr>"

inductive provider_reach :: "store_lib \<Rightarrow> provider \<Rightarrow> bool" for lib where
  start: "provider_reach lib new_provider"
| step: "provider_reach lib p \<Longrightarrow> provider_step lib p p' \<Longrightarrow> provider_reach lib p'"

section \<open>The invariant\<close>

definition enrolment_kept :: "storeData \<Rightarrow> bytes \<times> bytes \<times> bytes \<times> bytes \<Rightarrow> bool" where
  "enrolment_kept d e =
     (case e of (digest, name, key, k) \<Rightarrow>
        (\<exists>v. map_of (sd_Devices d) k = Some v \<and> dv_Name v = name \<and> dv_PublicKey v = key) \<and>
        (\<forall>(j, i) \<in> set (sd_Invites d). iv_TokenHash i = digest \<longrightarrow> iv_ConsumedAt i \<noteq> NoStamp \<and> iv_DeviceID i = k))"

definition data_inv :: "store_lib \<Rightarrow> provider \<Rightarrow> storeData \<Rightarrow> bool" where
  "data_inv lib p d \<longleftrightarrow> (list_all ValidString (pv_names p) \<longrightarrow> valid_data lib d) \<and> decoded_ok d \<and> list_all (enrolment_kept d) (pv_enrolled p) \<and>
     (\<forall>k \<in> set (pv_revoked p). \<exists>v. map_of (sd_Devices d) k = Some v \<and> \<not> dv_Enabled v) \<and>
     (\<forall>(j, i) \<in> set (sd_Invites d). iv_TokenHash i \<in> set (pv_drawn p)) \<and> fst ` set (pv_enrolled p) \<subseteq> set (pv_drawn p)"

definition provider_inv :: "store_lib \<Rightarrow> provider \<Rightarrow> bool" where
  "provider_inv lib p \<longleftrightarrow> (pv_file p = Absent \<and> pv_enrolled p = [] \<and> pv_revoked p = [] \<or> (\<exists>d. pv_file p = Decoded d \<and> data_inv lib p d)) \<and>
     (\<forall>a \<in> set (pv_enrolled p). \<forall>b \<in> set (pv_enrolled p). fst a = fst b \<longrightarrow> a = b)"

text \<open>A change of the accounts, or invitations removed, keeps it.\<close>

lemma json_devices: "plain d \<Longrightarrow> sd_Devices (json_data (put_account k a d)) = sd_Devices d"
  using arg_cong [OF json_plain, of d sd_Devices] by (simp add: json_data_def put_account_def)

lemma plain_put: "plain d \<Longrightarrow> ValidString (ac_Name a) \<Longrightarrow> plain (put_account k a d)"
  by (auto simp: plain_def put_account_def list_all_iff dest!: in_set_update)

lemma inv_accounts:
  assumes "data_inv lib p d" "valid_data lib (put_account k a d)" "ac_Name a \<in> names \<union> (\<lambda>(_, a). ac_Name a) ` set (sd_Accounts d)"
    "pv_enrolled p' = pv_enrolled p" "pv_revoked p' = pv_revoked p" "pv_drawn p' = pv_drawn p" "names \<subseteq> set (pv_names p')" "set (pv_names p) \<subseteq> set (pv_names p')"
  shows "data_inv lib p' (json_data (put_account k a d))"
proof -
  have pl: "plain d" using assms(1) by (simp add: data_inv_def decoded_ok_def)
  have "json_data (put_account k a d) = put_account k a d" if "list_all ValidString (pv_names p')"
  proof (rule json_plain, rule plain_put [OF pl])
    show "ValidString (ac_Name a)" using assms(3,7) that pl by (auto simp: plain_def list_all_iff)
  qed
  moreover have "maps_ok (put_account k a d)" using assms(1) by (simp add: data_inv_def decoded_ok_def maps_ok_def put_account_def distinct_update)
  moreover have "enrolment_kept (json_data (put_account k a d)) e" if "enrolment_kept d e" for e
    using that json_devices [OF pl] by (cases e) (simp add: enrolment_kept_def put_account_def)
  ultimately show ?thesis using assms(1,2,4-6) json_devices [OF pl] by (auto simp: data_inv_def decoded_ok_def list_all_iff put_account_def)
qed

lemma kept_fewer: "enrolment_kept d e \<Longrightarrow> enrolment_kept (d\<lparr>sd_Invites := filter P (sd_Invites d)\<rparr>) e"
  by (cases e) (auto simp: enrolment_kept_def)

lemma inv_fewer_invites: "data_inv lib p d \<Longrightarrow> data_inv lib p (d\<lparr>sd_Invites := filter P (sd_Invites d)\<rparr>)"
  by (auto simp: data_inv_def decoded_ok_def plain_def maps_ok_def list_all_iff distinct_map_filter intro!: valid_filter_invites kept_fewer)

lemma inv_pruned: "data_inv lib p d \<Longrightarrow> data_inv lib p (pruned now d)"
  by (simp add: pruned_def inv_fewer_invites)

lemma inv_device:
  assumes "data_inv lib p d" "map_of (sd_Devices d) k = Some v" "dv_Name v' = dv_Name v" "dv_PublicKey v' = dv_PublicKey v" "\<not> dv_Enabled v'"
    and "valid_data lib (d\<lparr>sd_Devices := AList.update k v' (sd_Devices d)\<rparr>)"
  shows "data_inv lib (p\<lparr>pv_revoked := pv_revoked p @ [k]\<rparr>) (d\<lparr>sd_Devices := AList.update k v' (sd_Devices d)\<rparr>)"
proof -
  have "enrolment_kept (d\<lparr>sd_Devices := AList.update k v' (sd_Devices d)\<rparr>) e" if "enrolment_kept d e" for e
    using that assms(2-4) by (cases e) (auto simp: enrolment_kept_def update_conv')
  moreover have "plain (d\<lparr>sd_Devices := AList.update k v' (sd_Devices d)\<rparr>)" using assms(1-3)
    by (auto simp: data_inv_def decoded_ok_def plain_def list_all_iff dest!: map_of_SomeD in_set_update)
  ultimately show ?thesis using assms by (auto simp: data_inv_def decoded_ok_def maps_ok_def list_all_iff distinct_update update_conv')
qed

lemma inv_new_invite:
  assumes "data_inv lib p d" "k \<notin> fst ` set (sd_Invites d)" "iv_TokenHash i \<notin> set (pv_drawn p)"
    and "valid_data lib (d\<lparr>sd_Invites := AList.update k i (sd_Invites d)\<rparr>)"
  shows "data_inv lib (p\<lparr>pv_drawn := pv_drawn p @ [iv_TokenHash i]\<rparr>) (d\<lparr>sd_Invites := AList.update k i (sd_Invites d)\<rparr>)"
proof -
  have u: "AList.update k i (sd_Invites d) = sd_Invites d @ [(k, i)]" by (rule update_fresh [OF assms(2)])
  have "enrolment_kept (d\<lparr>sd_Invites := sd_Invites d @ [(k, i)]\<rparr>) e" if "enrolment_kept d e" "fst e \<in> set (pv_drawn p)" for e
    using that assms(3) by (cases e) (auto simp: enrolment_kept_def)
  then show ?thesis using assms by (auto simp: u data_inv_def decoded_ok_def plain_def maps_ok_def list_all_iff image_subset_iff)
qed

lemma inv_new_device:
  assumes "data_inv lib p d" "k \<notin> fst ` set (sd_Devices d)" "(j, i) \<in> set (sd_Invites d)" "iv_ConsumedAt i = NoStamp"
    and v: "dv_Name v = name" "dv_PublicKey v = key"
    and d': "d' = d\<lparr>sd_Invites := AList.update j (i\<lparr>iv_ConsumedAt := t, iv_DeviceID := k\<rparr>) (sd_Invites d), sd_Devices := AList.update k v (sd_Devices d)\<rparr>"
    and "valid_data lib d'" "t \<noteq> NoStamp" "ValidString name"
  shows "data_inv lib (p\<lparr>pv_enrolled := pv_enrolled p @ [(iv_TokenHash i, name, key, k)]\<rparr>) d'" "\<forall>e \<in> set (pv_enrolled p). fst e \<noteq> iv_TokenHash i"
proof -
  show new: "\<forall>e \<in> set (pv_enrolled p). fst e \<noteq> iv_TokenHash i"
    using assms(1,3,4) by (fastforce simp: data_inv_def enrolment_kept_def list_all_iff)
  have dist: "distinct (map fst (sd_Invites d))" using assms(1) by (simp add: data_inv_def decoded_ok_def maps_ok_def)
  have dev: "map_of (sd_Devices d') = (map_of (sd_Devices d))(k \<mapsto> v)" by (simp add: d' update_conv')
  have old: "map_of (sd_Devices d) k = None" using assms(2) by (auto simp: map_of_eq_None_iff)
  have inv: "e \<in> set (sd_Invites d) \<or> e = (j, i\<lparr>iv_ConsumedAt := t, iv_DeviceID := k\<rparr>)" if "e \<in> set (sd_Invites d')" for e
    using that dist by (auto simp: d' set_update)
  have "enrolment_kept d' e" if "e \<in> set (pv_enrolled p)" for e
  proof -
    have "enrolment_kept d e" using that assms(1) by (simp add: data_inv_def list_all_iff)
    then show ?thesis using new that inv dev old by (cases e) (fastforce simp: enrolment_kept_def)
  qed
  moreover have "enrolment_kept d' (iv_TokenHash i, name, key, k)"
  proof -
    have "iv_ConsumedAt i' \<noteq> NoStamp \<and> iv_DeviceID i' = k" if "(j', i') \<in> set (sd_Invites d')" "iv_TokenHash i' = iv_TokenHash i" for j' i'
    proof -
      have "(j, i\<lparr>iv_ConsumedAt := t, iv_DeviceID := k\<rparr>) \<in> set (sd_Invites d')" using dist by (auto simp: d' set_update)
      from valid_hash_unique [OF assms(8) that(1) this] that(2) show ?thesis using assms(9) by auto
    qed
    then show ?thesis using v dev by (auto simp: enrolment_kept_def)
  qed
  moreover have "iv_TokenHash i \<in> set (pv_drawn p)" using assms(1,3) by (auto simp: data_inv_def)
  moreover have "iv_TokenHash i' \<in> set (pv_drawn p)" if "(j', i') \<in> set (sd_Invites d')" for j' i'
    using inv [OF that] assms(1,3) by (auto simp: data_inv_def)
  moreover have "decoded_ok d'" using assms(1,10) v(1)
    by (auto simp: data_inv_def decoded_ok_def plain_def list_all_iff maps_ok_def d' distinct_update dest!: in_set_update)
  moreover have "\<exists>w. map_of (sd_Devices d') k' = Some w \<and> \<not> dv_Enabled w" if "k' \<in> set (pv_revoked p)" for k'
    using that assms(1) dev old by (fastforce simp: data_inv_def)
  ultimately show "data_inv lib (p\<lparr>pv_enrolled := pv_enrolled p @ [(iv_TokenHash i, name, key, k)]\<rparr>) d'"
    using assms(1,8) by (auto simp: data_inv_def list_all_iff)
qed

lemma data_inv_stores [simp]: "data_inv lib (step_to p n s f) d = data_inv lib p d"
  by (simp add: data_inv_def step_to_def)

lemma inv_quiet:
  assumes "provider_inv lib p" "f = pv_file p \<or> (\<exists>d d'. pv_file p = Decoded d \<and> f = Decoded d' \<and> (data_inv lib p d \<longrightarrow> data_inv lib p d'))"
  shows "provider_inv lib (step_to p n s f)"
  using assms by (auto simp: provider_inv_def step_to_def data_inv_def)

section \<open>Every operation keeps it\<close>

lemma save_file:
  assumes "save_or_undo lib w undo res s0 f0 = (r, s, f)"
  shows "f = f0 \<or> f = Decoded (json_data (st_data s0)) \<and> valid_data lib (st_data s0)"
  using assms by (cases rule: save_cases) auto

text \<open>The file untouched, or with one account added or replaced; its name is one of \<open>names\<close> or on file already.\<close>

definition accounts_file :: "store_lib \<Rightarrow> bytes set \<Rightarrow> store_file \<Rightarrow> store_file \<Rightarrow> bool" where
  "accounts_file lib names f0 f \<longleftrightarrow> f = f0 \<or> (\<exists>d k a. f0 = Decoded d \<and> f = Decoded (json_data (put_account k a d)) \<and> valid_data lib (put_account k a d) \<and>
     ac_Name a \<in> names \<union> (\<lambda>(_, a). ac_Name a) ` set (sd_Accounts d))"

lemma accounts_file_refl: "accounts_file lib names f f"
  by (simp add: accounts_file_def)

lemma save_account_file:
  "save_or_undo lib w undo res (s1\<lparr>st_data := put_account k a (st_data s1)\<rparr>) f0 = (r, s, f) \<Longrightarrow> f0 = Decoded (st_data s1) \<Longrightarrow>
     ac_Name a \<in> names \<union> (\<lambda>(_, a). ac_Name a) ` set (sd_Accounts (st_data s1)) \<Longrightarrow> accounts_file lib names f0 f"
  unfolding accounts_file_def by (drule save_file) fastforce

lemma AddAccount_file: "AddAccount lib en name expiresAt limits now s0 f0 = (r, s, f) \<Longrightarrow> accounts_file lib {TrimSpace name} f0 f"
  by (auto simp: AddAccount_def Let_def accounts_file_refl split: if_splits option.splits sum.splits dest!: begin_ok elim!: save_account_file)

lemma change_account_file:
  assumes "change_account lib en k change s0 f0 = (r, s, f)" "\<forall>a. ac_Name (change a) = ac_Name a"
  shows "accounts_file lib {} f0 f"
proof -
  have "ac_Name (change a) \<in> {} \<union> (\<lambda>(_, a). ac_Name a) ` set as" if "map_of as k = Some a" for as a
    using that assms(2) by (force dest: map_of_SomeD)
  then show ?thesis using assms(1) by (auto simp: change_account_def accounts_file_refl split: option.splits sum.splits dest!: begin_ok elim!: save_account_file)
qed

lemma RevokeInvite_file:
  assumes "RevokeInvite lib en k s0 f0 = (r, s, f)" "plain_file f0"
  shows "f = f0 \<or> (\<exists>d. f0 = Decoded d \<and> f = Decoded (d\<lparr>sd_Invites := filter (\<lambda>e. fst e \<noteq> k) (sd_Invites d)\<rparr>))"
proof -
  have "json_data (d\<lparr>sd_Invites := is\<rparr>) = d\<lparr>sd_Invites := is\<rparr>" if "f0 = Decoded d" for d "is"
    using that assms(2) by (intro json_plain) (simp add: plain_file_def plain_def)
  then show ?thesis using assms(1) by (auto simp: RevokeInvite_def delete_is_filter split: option.splits sum.splits if_splits dest!: save_file begin_ok)
qed

lemma RevokeDevice_file:
  assumes "RevokeDevice lib en k now s0 f0 = (r, s, f)" "plain_file f0"
  obtains e where "r = Inl e" "f = f0"
  | d v v' where "r = Inr ()" "f0 = Decoded d" "f = Decoded (d\<lparr>sd_Devices := AList.update k v' (sd_Devices d)\<rparr>)" "map_of (sd_Devices d) k = Some v"
      "dv_Name v' = dv_Name v" "dv_PublicKey v' = dv_PublicKey v" "\<not> dv_Enabled v'" "valid_data lib (d\<lparr>sd_Devices := AList.update k v' (sd_Devices d)\<rparr>)"
proof (cases "beginWrite lib en False s0 f0")
  case (Inl e)
  then show thesis using assms(1) by (intro that(1) [of e]) (simp_all add: RevokeDevice_def Let_def)
next
  case (Inr s1)
  from begin_ok [OF Inr] obtain d where d: "f0 = Decoded d" "st_data s1 = d" by blast
  show thesis
  proof (cases "map_of (sd_Devices d) k")
    case None
    then show thesis using assms(1) Inr d by (intro that(1) [of UnknownDevice]) (simp_all add: RevokeDevice_def Let_def)
  next
    case (Some v)
    let ?v = "v\<lparr>dv_Enabled := False, dv_RevokedAt := format_time (or_clock (en_clock en) now)\<rparr>"
    have "save_or_undo lib (en_write en) (\<lambda>d. d\<lparr>sd_Devices := AList.update k v (sd_Devices d)\<rparr>) ()
        (s1\<lparr>st_data := d\<lparr>sd_Devices := AList.update k ?v (sd_Devices d)\<rparr>\<rparr>) f0 = (r, s, f)"
      using assms(1) Inr d Some by (simp add: RevokeDevice_def Let_def)
    moreover have "json_data (d\<lparr>sd_Devices := AList.update k ?v (sd_Devices d)\<rparr>) = d\<lparr>sd_Devices := AList.update k ?v (sd_Devices d)\<rparr>"
      using assms(2) d(1) Some
      by (intro json_plain) (auto simp: plain_file_def plain_def list_all_iff dest!: map_of_SomeD in_set_update)
    ultimately show thesis by (elim save_cases) (use that Some d in auto)
  qed
qed

lemma Initialize_file:
  assumes "Initialize lib en s0 f0 = (r, s, f)"
  shows "f = f0 \<or> f0 = Absent \<and> f = Decoded emptyStoreData \<and> valid_data lib emptyStoreData"
  using assms by (auto simp: Initialize_def json_data_def emptyStoreData_def saveLocked_def Let_def split: option.splits sum.splits store_file.splits if_splits prod.splits)

lemma CreateInvite_file:
  assumes "CreateInvite lib en accountID ttl now s0 f0 = (r, s, f)" "fresh_id en f0" "en_token en = Some tk" "plain_file f0"
  obtains "f = f0" | d t where "f0 = Decoded d" "f = Decoded (pruned t d)"
  | d t k i where "f0 = Decoded d" "f = Decoded ((pruned t d)\<lparr>sd_Invites := AList.update k i (sd_Invites (pruned t d))\<rparr>)" "k \<notin> fst ` set (sd_Invites d)"
      "iv_TokenHash i = token_digest lib tk" "valid_data lib ((pruned t d)\<lparr>sd_Invites := AList.update k i (sd_Invites (pruned t d))\<rparr>)"
proof (cases "ttl < second \<or> ttl > 7 * 24 * 3600 * second \<or> randomID en = None \<or> (\<exists>e. beginWrite lib en False s0 f0 = Inl e)")
  case True
  then show thesis using assms(1,3) that(1) by (auto simp: CreateInvite_def Let_def split: option.splits sum.splits if_splits)
next
  case False
  note leave = that
  define t where "t = or_clock (en_clock en) now"
  from False obtain k s1 where k: "randomID en = Some k" "beginWrite lib en False s0 f0 = Inr s1" by (cases "beginWrite lib en False s0 f0") auto
  from begin_ok [OF k(2)] obtain d where d: "f0 = Decoded d" "st_data s1 = d" "valid_data lib d" by blast
  obtain err s2 f2 where p: "prune_saved lib (en_prune_write en) t s1 f0 = (err, s2, f2)" by (cases "prune_saved lib (en_prune_write en) t s1 f0") auto
  have pl: "plain d" using assms(4) d(1) by (simp add: plain_file_def)
  have s2: "st_data s2 = pruned t d" "f2 = f0 \<or> f2 = Decoded (pruned t d)" using prune_cases [OF p] d pl by auto
  have js: "json_data ((pruned t d)\<lparr>sd_Invites := is\<rparr>) = (pruned t d)\<lparr>sd_Invites := is\<rparr>" for "is"
    using pl by (intro json_plain) (simp add: plain_def pruned_def)
  have early: thesis if "f = f2"
  proof -
    from s2(2) show thesis
    proof
      assume "f2 = f0"
      then show thesis using \<open>f = f2\<close> by (intro leave(1)) simp
    next
      assume "f2 = Decoded (pruned t d)"
      then show thesis using \<open>f = f2\<close> by (intro leave(2) [OF d(1)]) simp
    qed
  qed
  have run: "(case err of Some e \<Rightarrow> (Inl e, s2, f2) | None \<Rightarrow>
      (case map_of (sd_Accounts (st_data s2)) accountID of
         None \<Rightarrow> (Inl AccountDisabled, s2, f2)
       | Some account \<Rightarrow>
         if \<not> ac_Enabled account then (Inl AccountDisabled, s2, f2)
         else if expired (ac_ExpiresAt account) t then (Inl AccountHasExpired, s2, f2)
         else save_or_undo lib (en_write en) (\<lambda>d. d\<lparr>sd_Invites := AList.delete k (sd_Invites d)\<rparr>) (i, EncodeToString tk)
                (s2\<lparr>st_data := (st_data s2)\<lparr>sd_Invites := AList.update k i (sd_Invites (st_data s2))\<rparr>\<rparr>) f2)) = (r, s, f)"
    if "i = \<lparr>iv_ID = k, iv_AccountID = accountID, iv_TokenHash = token_digest lib tk, iv_ExpiresAt = format_time (t + ttl), iv_CreatedAt = format_time t,
      iv_ConsumedAt = NoStamp, iv_DeviceID = []\<rparr>" for i
    using assms(1,3) k p False that by (auto simp: CreateInvite_def Let_def t_def [symmetric] token_digest_def split: option.splits if_splits)
  define i where "i = \<lparr>iv_ID = k, iv_AccountID = accountID, iv_TokenHash = token_digest lib tk, iv_ExpiresAt = format_time (t + ttl), iv_CreatedAt = format_time t,
      iv_ConsumedAt = NoStamp, iv_DeviceID = []\<rparr>"
  from run [OF i_def] have "f = f2 \<or> (\<exists>r s. save_or_undo lib (en_write en) (\<lambda>d. d\<lparr>sd_Invites := AList.delete k (sd_Invites d)\<rparr>) (i, EncodeToString tk)
                (s2\<lparr>st_data := (st_data s2)\<lparr>sd_Invites := AList.update k i (sd_Invites (st_data s2))\<rparr>\<rparr>) f2 = (r, s, f))"
    by (auto split: option.splits if_splits)
  then have "f = f2 \<or> f = Decoded ((pruned t d)\<lparr>sd_Invites := AList.update k i (sd_Invites (pruned t d))\<rparr>) \<and>
      valid_data lib ((pruned t d)\<lparr>sd_Invites := AList.update k i (sd_Invites (pruned t d))\<rparr>)" using s2(1) by (auto simp: js dest!: save_file)
  moreover have "iv_TokenHash i = token_digest lib tk" by (simp add: i_def)
  moreover have "k \<notin> fst ` set (sd_Invites d)" using assms(2) k(1) d(1) by (simp add: fresh_id_def)
  ultimately show thesis using early leave(3) [OF d(1)] by blast
qed

definition enrolled_data :: "bytes \<Rightarrow> InviteRecord \<Rightarrow> stamp \<Rightarrow> Device \<Rightarrow> storeData \<Rightarrow> storeData" where
  "enrolled_data j i t v d = d\<lparr>sd_Invites := AList.update j (i\<lparr>iv_ConsumedAt := t, iv_DeviceID := dv_ID v\<rparr>) (sd_Invites d),
     sd_Devices := AList.update (dv_ID v) v (sd_Devices d)\<rparr>"

text \<open>When what is changed can be put back exactly: the identifier drawn is fresh and the invitation is the one in the map.\<close>

definition undoable :: "store_env \<Rightarrow> InviteRecord \<Rightarrow> storeData \<Rightarrow> bool" where
  "undoable en i d \<longleftrightarrow> (\<forall>k. randomID en = Some k \<longrightarrow> k \<notin> fst ` set (sd_Devices d)) \<and> distinct (map fst (sd_Invites d)) \<and> (iv_ID i, i) \<in> set (sd_Invites d)"

lemma enroll_new_cases:
  assumes "enroll_new lib en name key t issue account i s0 f0 = (r, s, f)"
  obtains e where "r = Inl e" "f = f0" "undoable en i (st_data s0) \<longrightarrow> st_data s = st_data s0"
  | k v c where "randomID en = Some k" "v = \<lparr>dv_ID = k, dv_AccountID = ac_ID account, dv_Name = name, dv_PublicKey = key, dv_Enabled = True,
        dv_CreatedAt = format_time t, dv_RevokedAt = NoStamp\<rparr>" "r = Inr (account, v, c)" "st_data s = enrolled_data (iv_ID i) i (format_time t) v (st_data s0)"
      "f = Decoded (json_data (st_data s))" "valid_data lib (st_data s)"
proof (cases "list_ex (\<lambda>(_, existing). dv_PublicKey existing = key) (sd_Devices (st_data s0)) \<or> randomID en = None")
  case True
  then show thesis using assms that(1) by (auto simp: enroll_new_def split: if_splits)
next
  case False
  then obtain k where k: "randomID en = Some k" by auto
  define v where "v = \<lparr>dv_ID = k, dv_AccountID = ac_ID account, dv_Name = name, dv_PublicKey = key, dv_Enabled = True, dv_CreatedAt = format_time t, dv_RevokedAt = NoStamp\<rparr>"
  show thesis
  proof (cases "issue_credential issue account v")
    case (Inl e)
    then show thesis using assms that(1) False k by (auto simp: enroll_new_def v_def Let_def)
  next
    case (Inr c)
    have "save_or_undo lib (en_write en) (\<lambda>d. d\<lparr>sd_Invites := AList.update (iv_ID i) i (sd_Invites d), sd_Devices := AList.delete k (sd_Devices d)\<rparr>) (account, v, c)
        (s0\<lparr>st_data := enrolled_data (iv_ID i) i (format_time t) v (st_data s0)\<rparr>) f0 = (r, s, f)"
      using assms False k Inr by (simp add: enroll_new_def v_def Let_def enrolled_data_def)
    then show thesis
    proof (cases rule: save_cases)
      case (1 e)
      then show thesis using k by (intro that(1) [of e]) (auto simp: enrolled_data_def v_def undoable_def update_present delete_fresh)
    next
      case 2
      then show thesis by (intro that(2) [OF k v_def]) simp_all
    qed
  qed
qed

lemma EnrollDevice_cases:
  assumes "EnrollDevice lib en token name key now issue s0 f0 = (r, s, f)" "plain_file f0"
  obtains e where "r = Inl e" "f = f0" "st_data s = st_data s0"
  | e d where "r = Inl e" "f0 = Decoded d" "valid_data lib d" "st_data s = pruned (or_clock (en_clock en) now) d" "f = f0 \<or> f = Decoded (st_data s)"
  | d j i account where "f0 = Decoded d" "valid_data lib d" "(j, i) \<in> set (sd_Invites (pruned (or_clock (en_clock en) now) d))"
      "iv_TokenHash i = text_digest lib token"
      "map_of (sd_Accounts d) (iv_AccountID i) = Some account" "ac_Enabled account" "\<not> expired (ac_ExpiresAt account) (or_clock (en_clock en) now)"
      "\<exists>s2 f2. st_data s2 = pruned (or_clock (en_clock en) now) d \<and> f2 = Decoded (st_data s2) \<and>
         (if iv_ConsumedAt i \<noteq> NoStamp then enroll_again (TrimSpace name) (EncodeToString key) issue account i s2 f2
          else enroll_new lib en (TrimSpace name) (EncodeToString key) (or_clock (en_clock en) now) issue account i s2 f2) = (r, s, f)"
proof -
  define t where "t = or_clock (en_clock en) now"
  note leave = that
  show thesis
  proof (cases "TrimSpace name = [] \<or> length (TrimSpace name) > 128 \<or> length key \<noteq> 32 \<or> DecodeString token = None \<or> length (the (DecodeString token)) \<noteq> 32 \<or>
      (\<exists>e. beginWrite lib en False s0 f0 = Inl e)")
    case True
    then show thesis using assms(1) leave(1) by (auto simp: EnrollDevice_def Let_def split: if_splits option.splits sum.splits)
  next
    case False
    then obtain tk s1 where k: "DecodeString token = Some tk" "length tk = 32" "beginWrite lib en False s0 f0 = Inr s1" by (cases "beginWrite lib en False s0 f0") auto
    have h: "EncodeToString (lib_Sum256 lib tk) = text_digest lib token" by (simp add: text_digest_def token_digest_def k)
    from begin_ok [OF k(3)] obtain d where d: "f0 = Decoded d" "st_data s1 = d" "valid_data lib d" by blast
    obtain err s2 f2 where p: "prune_saved lib (en_prune_write en) t s1 f0 = (err, s2, f2)" by (cases "prune_saved lib (en_prune_write en) t s1 f0") auto
    have s2: "st_data s2 = pruned t d" "f2 = f0 \<or> f2 = Decoded (pruned t d)" "err = None \<Longrightarrow> f2 = Decoded (pruned t d)"
      using prune_cases [OF p] d assms(2) by (auto simp: plain_file_def)
    have early: thesis if "r = Inl e" "s = s2" "f = f2" for e
      by (rule leave(2) [OF that(1) d(1,3)]) (use that s2 in \<open>auto simp: t_def\<close>)
    have run: "(case err of Some e \<Rightarrow> (Inl e, s2, f2) | None \<Rightarrow>
        (case find (\<lambda>(_, candidate). iv_TokenHash candidate = text_digest lib token) (sd_Invites (st_data s2)) of
           None \<Rightarrow> (Inl InvitationRefused, s2, f2)
         | Some (_, invite) \<Rightarrow>
           if iv_ConsumedAt invite = NoStamp \<and> expired (iv_ExpiresAt invite) t then (Inl InvitationRefused, s2, f2)
           else (case map_of (sd_Accounts (st_data s2)) (iv_AccountID invite) of
                   None \<Rightarrow> (Inl InvitationAccount, s2, f2)
                 | Some account \<Rightarrow>
                   if \<not> ac_Enabled account \<or> expired (ac_ExpiresAt account) t then (Inl InvitationAccount, s2, f2)
                   else if iv_ConsumedAt invite \<noteq> NoStamp then enroll_again (TrimSpace name) (EncodeToString key) issue account invite s2 f2
                   else enroll_new lib en (TrimSpace name) (EncodeToString key) t issue account invite s2 f2))) = (r, s, f)"
      using assms(1) k p False by (cases err) (simp_all add: EnrollDevice_def Let_def t_def [symmetric] h)
    show thesis
    proof (cases "\<exists>e. r = Inl e \<and> s = s2 \<and> f = f2")
      case True
      then show thesis using early by blast
    next
      case False
      from run False obtain j i where i: "err = None" "find (\<lambda>(_, candidate). iv_TokenHash candidate = text_digest lib token) (sd_Invites (st_data s2)) = Some (j, i)"
        by (auto split: option.splits)
      from run False i obtain account where a: "map_of (sd_Accounts (st_data s2)) (iv_AccountID i) = Some account" by (auto split: option.splits if_splits)
      have e: "ac_Enabled account \<and> \<not> expired (ac_ExpiresAt account) t" using run False i a by (auto split: if_splits)
      have x: "(if iv_ConsumedAt i \<noteq> NoStamp then enroll_again (TrimSpace name) (EncodeToString key) issue account i s2 f2
          else enroll_new lib en (TrimSpace name) (EncodeToString key) t issue account i s2 f2) = (r, s, f)" using run False i a e by (auto split: if_splits)
      have m: "(j, i) \<in> set (sd_Invites (st_data s2))" "iv_TokenHash i = text_digest lib token" using i(2) by (auto simp: find_Some_iff in_set_conv_nth)
      have acc: "map_of (sd_Accounts d) (iv_AccountID i) = Some account" using a s2(1) by (simp add: pruned_def)
      have "\<exists>s2 f2. st_data s2 = pruned t d \<and> f2 = Decoded (st_data s2) \<and>
         (if iv_ConsumedAt i \<noteq> NoStamp then enroll_again (TrimSpace name) (EncodeToString key) issue account i s2 f2
          else enroll_new lib en (TrimSpace name) (EncodeToString key) t issue account i s2 f2) = (r, s, f)"
        using x s2(1) s2(3) [OF i(1)] by (intro exI [of _ s2] exI [of _ f2]) simp
      from leave(3) [OF d(1,3), folded t_def, OF m(1) [unfolded s2(1)] m(2) acc _ _ this] e show thesis by blast
    qed
  qed
qed

lemma enroll_success:
  assumes "EnrollDevice lib en token name key now issue s0 f0 = (Inr (account, device, credential), s, f)" "fresh_id en f0" "plain_file f0" "ValidString (TrimSpace name)"
  obtains (again) d i j where "f0 = Decoded d" "valid_data lib d" "f = Decoded (pruned (or_clock (en_clock en) now) d)"
      "(j, i) \<in> set (sd_Invites (pruned (or_clock (en_clock en) now) d))" "iv_TokenHash i = text_digest lib token" "iv_ConsumedAt i \<noteq> NoStamp"
      "map_of (sd_Devices d) (iv_DeviceID i) = Some device" "dv_Name device = TrimSpace name" "dv_PublicKey device = EncodeToString key"
  | (new) d i j where "f0 = Decoded d" "valid_data lib d" "(j, i) \<in> set (sd_Invites (pruned (or_clock (en_clock en) now) d))"
      "iv_TokenHash i = text_digest lib token" "iv_ConsumedAt i = NoStamp" "dv_ID device \<notin> fst ` set (sd_Devices d)"
      "dv_Name device = TrimSpace name" "dv_PublicKey device = EncodeToString key"
      "f = Decoded (enrolled_data j i (format_time (or_clock (en_clock en) now)) device (pruned (or_clock (en_clock en) now) d))"
      "valid_data lib (enrolled_data j i (format_time (or_clock (en_clock en) now)) device (pruned (or_clock (en_clock en) now) d))"
  using assms(1,3)
proof (cases rule: EnrollDevice_cases)
  case (3 d j i account')
  let ?t = "or_clock (en_clock en) now"
  from 3(8) obtain s2 f2 where s2: "st_data s2 = pruned ?t d" "f2 = Decoded (st_data s2)" and
    x: "(if iv_ConsumedAt i \<noteq> NoStamp then enroll_again (TrimSpace name) (EncodeToString key) issue account' i s2 f2
          else enroll_new lib en (TrimSpace name) (EncodeToString key) ?t issue account' i s2 f2) = (Inr (account, device, credential), s, f)" by blast
  show thesis
  proof (cases "iv_ConsumedAt i = NoStamp")
    case False
    with x s2 have "f = Decoded (pruned ?t d)" "map_of (sd_Devices d) (iv_DeviceID i) = Some device" "dv_Name device = TrimSpace name"
        "dv_PublicKey device = EncodeToString key"
      by (auto simp: enroll_again_def pruned_def split: option.splits if_splits sum.splits)
    then show thesis using again [OF 3(1,2) _ 3(3,4) False] by blast
  next
    case True
    with x have "enroll_new lib en (TrimSpace name) (EncodeToString key) ?t issue account' i s2 f2 = (Inr (account, device, credential), s, f)" by simp
    then show thesis
    proof (cases rule: enroll_new_cases)
      case (2 k v c)
      have j: "iv_ID i = j" using 3(2,3) by (auto simp: pruned_def intro: valid_invite_id)
      have "dv_ID device \<notin> fst ` set (sd_Devices d)" using assms(2) 2(1,2,3) 3(1) by (auto simp: fresh_id_def)
      moreover have "plain (enrolled_data j i (format_time ?t) device (pruned ?t d))" using assms(3,4) 2(2,3) 3(1)
        by (auto simp: plain_file_def plain_def list_all_iff enrolled_data_def pruned_def dest!: in_set_update)
      note json_plain [OF this]
      ultimately show thesis using new [OF 3(1,2,3,4) True] 2 s2 j by auto
    qed simp
  qed
qed simp_all

lemma enroll_fails_file:
  assumes "EnrollDevice lib en token name key now issue s0 f0 = (Inl e, s, f)" "plain_file f0"
  shows "f = f0 \<or> (\<exists>d. f0 = Decoded d \<and> f = Decoded (pruned (or_clock (en_clock en) now) d))"
  using assms
proof (cases rule: EnrollDevice_cases)
  case (3 d j i account)
  let ?t = "or_clock (en_clock en) now"
  from 3(8) obtain s2 f2 where s2: "f2 = Decoded (pruned ?t d)" and
    x: "(if iv_ConsumedAt i \<noteq> NoStamp then enroll_again (TrimSpace name) (EncodeToString key) issue account i s2 f2
          else enroll_new lib en (TrimSpace name) (EncodeToString key) ?t issue account i s2 f2) = (Inl e, s, f)" by auto
  have "f = f2"
  proof (cases "iv_ConsumedAt i = NoStamp")
    case False
    with x show ?thesis by (auto simp: enroll_again_def split: option.splits if_splits sum.splits)
  next
    case True
    with x have "enroll_new lib en (TrimSpace name) (EncodeToString key) ?t issue account i s2 f2 = (Inl e, s, f)" by simp
    then show ?thesis by (cases rule: enroll_new_cases) auto
  qed
  then show ?thesis using s2 3(1) by auto
qed auto

lemma inv_drawn: "data_inv lib p d \<Longrightarrow> data_inv lib (p\<lparr>pv_drawn := pv_drawn p @ xs\<rparr>) d"
  by (auto simp: data_inv_def)

lemma inv_again:
  assumes "data_inv lib p d" and d: "valid_data lib d" and "(j, i) \<in> set (sd_Invites d)" "iv_ConsumedAt i \<noteq> NoStamp" "map_of (sd_Devices d) (iv_DeviceID i) = Some v"
  shows "data_inv lib (p\<lparr>pv_enrolled := pv_enrolled p @ [(iv_TokenHash i, dv_Name v, dv_PublicKey v, dv_ID v)]\<rparr>) d"
    "\<forall>e \<in> set (pv_enrolled p). fst e = iv_TokenHash i \<longrightarrow> e = (iv_TokenHash i, dv_Name v, dv_PublicKey v, dv_ID v)"
proof -
  have id: "dv_ID v = iv_DeviceID i" by (rule valid_device_id [OF d assms(5)])
  have "enrolment_kept d (iv_TokenHash i, dv_Name v, dv_PublicKey v, dv_ID v)"
    using assms(4,5) id valid_hash_unique [OF d _ assms(3)] by (auto simp: enrolment_kept_def)
  then show "data_inv lib (p\<lparr>pv_enrolled := pv_enrolled p @ [(iv_TokenHash i, dv_Name v, dv_PublicKey v, dv_ID v)]\<rparr>) d"
    using assms(1,3) by (auto simp: data_inv_def)
  show "\<forall>e \<in> set (pv_enrolled p). fst e = iv_TokenHash i \<longrightarrow> e = (iv_TokenHash i, dv_Name v, dv_PublicKey v, dv_ID v)"
  proof (intro ballI impI)
    fix e assume e: "e \<in> set (pv_enrolled p)" "fst e = iv_TokenHash i"
    then have "enrolment_kept d e" using assms(1) by (simp add: data_inv_def list_all_iff)
    then show "e = (iv_TokenHash i, dv_Name v, dv_PublicKey v, dv_ID v)"
      using e(2) assms(3,5) id by (cases e) (auto simp: enrolment_kept_def)
  qed
qed

lemma inv_plain: "provider_inv lib p \<Longrightarrow> plain_file (pv_file p)"
  by (auto simp: provider_inv_def plain_file_def data_inv_def decoded_ok_def)

lemma inv_accounts_file:
  assumes "provider_inv lib p" "accounts_file lib names (pv_file p) f" "names \<subseteq> set xs"
  shows "provider_inv lib ((step_to p n s f)\<lparr>pv_names := pv_names p @ xs\<rparr>)"
proof -
  let ?q = "(step_to p n s f)\<lparr>pv_names := pv_names p @ xs\<rparr>"
  have same: "data_inv lib ?q d" if "data_inv lib p d" for d using that by (auto simp: data_inv_def step_to_def)
  have "data_inv lib ?q (json_data (put_account k a d))"
    if "data_inv lib p d" "valid_data lib (put_account k a d)" "ac_Name a \<in> names \<union> (\<lambda>(_, a). ac_Name a) ` set (sd_Accounts d)" for k a d
    by (rule inv_accounts [OF that]) (use assms(3) in \<open>auto simp: step_to_def\<close>)
  then have "f = pv_file p \<or> (\<exists>d d'. pv_file p = Decoded d \<and> f = Decoded d' \<and> (data_inv lib p d \<longrightarrow> data_inv lib ?q d'))"
    using assms(2) unfolding accounts_file_def by blast
  then show ?thesis using assms(1) same by (auto simp: provider_inv_def step_to_def)
qed

lemma provider_step_inv:
  assumes "provider_step lib p p'" "provider_inv lib p"
  shows "provider_inv lib p'"
  using assms(1)
proof (cases rule: provider_step.cases)
  case (initialize en n r s f)
  have "data_inv lib (step_to p n s f) emptyStoreData" if "valid_data lib emptyStoreData" "pv_file p = Absent" using that assms(2)
    by (auto simp: provider_inv_def data_inv_def decoded_ok_def plain_def maps_ok_def emptyStoreData_def step_to_def)
  then show ?thesis using assms(2) Initialize_file [OF initialize(2)] initialize(1) by (auto simp: provider_inv_def step_to_def data_inv_def)
next
  case (add_account en name expiresAt limits now n r s f)
  then show ?thesis using inv_accounts_file [OF assms(2) AddAccount_file [OF add_account(2)]] by simp
next
  case (set_enabled en accountID enabled n r s f)
  have "accounts_file lib {} (pv_file p) f" by (rule change_account_file [OF set_enabled(2) [unfolded SetAccountEnabled_def]]) simp
  from inv_accounts_file [OF assms(2) this, of "[]"] show ?thesis by (simp add: set_enabled(1) step_to_def)
next
  case (set_limits en accountID limits n r s f)
  have "accounts_file lib {} (pv_file p) f" using set_limits(2) change_account_file by (auto simp: SetAccountLimits_def accounts_file_refl split: option.splits)
  from inv_accounts_file [OF assms(2) this, of "[]"] show ?thesis by (simp add: set_limits(1) step_to_def)
next
  case (load en n r s f)
  then show ?thesis by (auto simp: Load_def intro!: inv_quiet [OF assms(2)] split: sum.splits)
next
  case (refresh en n r s f)
  then show ?thesis by (auto simp: Refresh_def Let_def intro!: inv_quiet [OF assms(2)] split: sum.splits if_splits)
next
  case (revoke_invite en invitationID n r s f)
  then show ?thesis using RevokeInvite_file [OF revoke_invite(2) inv_plain [OF assms(2)]] by (auto intro!: inv_quiet [OF assms(2)] intro: inv_fewer_invites)
next
  case (revoke_device_fails en deviceID now n e s f)
  show ?thesis using revoke_device_fails(2) inv_plain [OF assms(2)] by (cases rule: RevokeDevice_file) (auto simp: revoke_device_fails(1) intro!: inv_quiet [OF assms(2)])
next
  case (enroll_fails en token name key now issue n e s f)
  then show ?thesis using enroll_fails_file [OF enroll_fails(2) inv_plain [OF assms(2)]] by (auto intro!: inv_quiet [OF assms(2)] intro: inv_pruned)
next
  case (revoke_device en deviceID now n s f)
  show ?thesis using revoke_device(2) inv_plain [OF assms(2)]
  proof (cases rule: RevokeDevice_file)
    case (2 d v v')
    then show ?thesis using inv_device [OF _ 2(4-8), of p] assms(2) revoke_device(1) by (auto simp: provider_inv_def step_to_def data_inv_def)
  qed simp
next
  case (create_invite en accountID ttl now n r s f tk)
  let ?q = "p\<lparr>pv_drawn := pv_drawn p @ [token_digest lib tk]\<rparr>"
  have "f = pv_file p \<or> (\<exists>d d'. pv_file p = Decoded d \<and> f = Decoded d' \<and> (data_inv lib p d \<longrightarrow> data_inv lib ?q d'))"
    using create_invite(2-4) inv_plain [OF assms(2)]
  proof (cases rule: CreateInvite_file)
    case (2 d t)
    then show ?thesis using inv_drawn [OF inv_pruned] by blast
  next
    case (3 d t k i)
    have "k \<notin> fst ` set (sd_Invites (pruned t d))" using 3(3) by (auto simp: pruned_def)
    then show ?thesis using inv_new_invite [OF inv_pruned] 3 create_invite(5) by metis
  qed simp
  then show ?thesis using assms(2) create_invite(1) inv_drawn by (fastforce simp: provider_inv_def step_to_def data_inv_def)
next
  case (enroll en token name key now issue n account device credential s f)
  let ?e = "(text_digest lib token, TrimSpace name, EncodeToString key, dv_ID device)" and ?t = "or_clock (en_clock en) now"
  have "(\<exists>d'. f = Decoded d' \<and> data_inv lib (p\<lparr>pv_enrolled := pv_enrolled p @ [?e]\<rparr>) d') \<and> (\<forall>a \<in> set (pv_enrolled p). fst a = fst ?e \<longrightarrow> a = ?e)"
    using enroll(2,3) inv_plain [OF assms(2)] enroll(4)
  proof (cases rule: enroll_success)
    case (again d i j)
    have "data_inv lib p (pruned ?t d)" using assms(2) again(1) inv_pruned by (simp add: provider_inv_def)
    from inv_again [OF this _ again(4,6)] valid_filter_invites [OF again(2)] again show ?thesis by (simp add: pruned_def)
  next
    case (new d i j)
    have "data_inv lib p (pruned ?t d)" using assms(2) new(1) inv_pruned by (simp add: provider_inv_def)
    moreover have "dv_ID device \<notin> fst ` set (sd_Devices (pruned ?t d))" using new(6) by (simp add: pruned_def)
    ultimately show ?thesis using inv_new_device [OF _ _ new(3,5,7,8) enrolled_data_def new(10) _ enroll(4)] new(4,9) by (auto simp: format_time_def Let_def)
  qed
  then show ?thesis using assms(2) enroll(1) by (auto simp: provider_inv_def step_to_def data_inv_def)
qed

lemma provider_reach_inv: "provider_reach lib p \<Longrightarrow> provider_inv lib p"
proof (induction rule: provider_reach.induct)
  case start
  then show ?case by (simp add: new_provider_def provider_inv_def)
qed (rule provider_step_inv)

section \<open>Enrolment succeeds\<close>

lemma device_error_ok:
  assumes "k = dv_ID v" "validID lib k" "validID lib (dv_AccountID v)" "map_of as (dv_AccountID v) \<noteq> None" "name_ok (dv_Name v)"
    "dv_PublicKey v = EncodeToString key" "length key = 32" "dv_CreatedAt v = Stamp ts" "dv_RevokedAt v = NoStamp"
  shows "device_error lib as [] k v = None"
  using assms by (simp add: device_error_def parseStateTime_def parse_time_def)

lemma invite_error_more_devices:
  assumes "invite_error lib as ds [] j i = None" "k \<notin> fst ` set ds"
  shows "invite_error lib as (ds @ [(k, v)]) [] j i = None"
proof -
  have "map_of (ds @ [(k, v)]) x = Some w" if "map_of ds x = Some w" for x w using that by (simp add: map_add_Some_iff)
  then show ?thesis using assms(1) by (auto simp: invite_error_def split: if_splits option.splits prod.splits)
qed

lemma invite_error_consumed:
  assumes "invite_error lib as ds [] j i = None" "parseStateTime (iv_CreatedAt i) = Some created" "created \<le> ts"
    "map_of ds k = Some v" "dv_AccountID v = iv_AccountID i" "k \<noteq> []"
  shows "invite_error lib as ds [] j (i\<lparr>iv_ConsumedAt := Stamp ts, iv_DeviceID := k\<rparr>) = None"
  using assms by (auto simp: invite_error_def parseStateTime_def parse_time_def split: if_splits option.splits prod.splits)

lemma hashes_kept:
  assumes "distinct (map fst xs)" "(j, i) \<in> set xs" "iv_TokenHash i' = iv_TokenHash i"
  shows "map (\<lambda>(_, i). iv_TokenHash i) (AList.update j i' xs) = map (\<lambda>(_, i). iv_TokenHash i) xs"
  using assms by (induction xs) (auto simp: image_iff)

lemma enrolled_valid:
  assumes "valid_data lib d" "maps_ok d" "(j, i) \<in> set (sd_Invites d)" "parseStateTime (iv_CreatedAt i) = Some created" "created \<le> ts"
    and k: "dv_ID v = k" "validID lib k" "k \<notin> fst ` set (sd_Devices d)" "dv_AccountID v = iv_AccountID i" "name_ok (dv_Name v)"
    and "dv_PublicKey v = EncodeToString key" "length key = 32" "dv_CreatedAt v = Stamp ts" "dv_RevokedAt v = NoStamp"
    and new: "\<not> list_ex (\<lambda>(_, existing). dv_PublicKey existing = dv_PublicKey v) (sd_Devices d)"
  shows "valid_data lib (enrolled_data j i (Stamp ts) v d)"
proof -
  have V: "\<forall>(k, v) \<in> set (sd_Devices d). device_error lib (sd_Accounts d) [] k v = None" "distinct (map (\<lambda>(_, v). dv_PublicKey v) (sd_Devices d))"
      "\<forall>(k, i) \<in> set (sd_Invites d). invite_error lib (sd_Accounts d) (sd_Devices d) [] k i = None" "distinct (map (\<lambda>(_, i). iv_TokenHash i) (sd_Invites d))"
    using assms(1) unfolding valid_iff by blast+
  have D: "AList.update k v (sd_Devices d) = sd_Devices d @ [(k, v)]" by (rule update_fresh [OF k(3)])
  have i: "invite_error lib (sd_Accounts d) (sd_Devices d) [] j i = None" using V(3) assms(3) by auto
  then have acc: "validID lib (iv_AccountID i)" "map_of (sd_Accounts d) (iv_AccountID i) \<noteq> None" by (auto simp: invite_error_def split: if_splits)
  have "device_error lib (sd_Accounts d) [] k v = None" using assms acc by (intro device_error_ok [of k v lib _ key ts]) simp_all
  moreover have "distinct (map (\<lambda>(_, v). dv_PublicKey v) (sd_Devices d @ [(k, v)]))" using V(2) new by (auto simp: list_ex_iff)
  moreover have "k \<noteq> []" using k(2) by (auto simp: validID_def split: if_splits)
  moreover have "map_of (sd_Devices d @ [(k, v)]) k = Some v" using k(3) by (auto simp: map_add_Some_iff map_of_eq_None_iff)
  ultimately have new_i: "invite_error lib (sd_Accounts d) (sd_Devices d @ [(k, v)]) [] j (i\<lparr>iv_ConsumedAt := Stamp ts, iv_DeviceID := k\<rparr>) = None"
    and dev: "device_error lib (sd_Accounts d) [] k v = None" "distinct (map (\<lambda>(_, v). dv_PublicKey v) (sd_Devices d @ [(k, v)]))"
    using invite_error_consumed [OF invite_error_more_devices [OF i k(3)] assms(4,5), where k = k and v = v] k(4) by simp_all
  have "\<forall>(k', i') \<in> set (AList.update j (i\<lparr>iv_ConsumedAt := Stamp ts, iv_DeviceID := k\<rparr>) (sd_Invites d)).
      invite_error lib (sd_Accounts d) (sd_Devices d @ [(k, v)]) [] k' i' = None"
  proof (rule ballI, clarify)
    fix k' i' assume "(k', i') \<in> set (AList.update j (i\<lparr>iv_ConsumedAt := Stamp ts, iv_DeviceID := k\<rparr>) (sd_Invites d))"
    then consider "(k', i') \<in> set (sd_Invites d)" | "k' = j" "i' = i\<lparr>iv_ConsumedAt := Stamp ts, iv_DeviceID := k\<rparr>"
      using set_update [of "sd_Invites d"] assms(2) by (auto simp only: maps_ok_def)
    then show "invite_error lib (sd_Accounts d) (sd_Devices d @ [(k, v)]) [] k' i' = None"
    proof cases
      case 1
      then have "invite_error lib (sd_Accounts d) (sd_Devices d) [] k' i' = None" using V(3) by auto
      then show ?thesis by (rule invite_error_more_devices [OF _ k(3)])
    qed (simp add: new_i)
  qed
  moreover have "map (\<lambda>(_, i). iv_TokenHash i) (AList.update j (i\<lparr>iv_ConsumedAt := Stamp ts, iv_DeviceID := k\<rparr>) (sd_Invites d)) =
      map (\<lambda>(_, i). iv_TokenHash i) (sd_Invites d)" by (rule hashes_kept [OF _ assms(3)]) (use assms(2) in \<open>simp_all add: maps_ok_def\<close>)
  ultimately show ?thesis using assms(1) V dev by (simp add: valid_iff enrolled_data_def k(1) D)
qed

end
