(* ===== verification/IdentityProps.thy ===== *)
theory IdentityProps
  imports IdentityInv
begin

text \<open>
  The properties of the authorization store, with a run that shows them at work: a provider is initialised, an account added, an invitation
  created and used, and the device revoked.
\<close>

text \<open>The clock of an operation when it is given no time of its own.\<close>

abbreviation at :: "store_env \<Rightarrow> int \<Rightarrow> int" where
  "at en now \<equiv> or_clock (en_clock en) now"

lemma enroll_memory:
  assumes "EnrollDevice lib en token name key now issue s0 f0 = (Inl e, s, f)" "fresh_id en f0" "f0 = Decoded d0" "decoded_ok d0"
  shows "st_data s = st_data s0 \<or> st_data s = pruned (at en now) d0"
proof -
  have "plain_file f0" using assms(3,4) by (simp add: plain_file_def decoded_ok_def)
  with assms(1) show ?thesis
  proof (cases rule: EnrollDevice_cases)
    case (2 e d)
    then show ?thesis using assms(3) by simp
  next
    case (3 d j i account)
    from 3(8) obtain s2 f2 where s2: "st_data s2 = pruned (at en now) d" and
      x: "(if iv_ConsumedAt i \<noteq> NoStamp then enroll_again (TrimSpace name) (EncodeToString key) issue account i s2 f2
            else enroll_new lib en (TrimSpace name) (EncodeToString key) (at en now) issue account i s2 f2) = (Inl e, s, f)" by auto
    have "st_data s = st_data s2"
    proof (cases "iv_ConsumedAt i = NoStamp")
      case False
      with x show ?thesis by (auto simp: enroll_again_def split: option.splits if_splits sum.splits)
    next
      case True
      have "iv_ID i = j" using 3(2,3) by (auto simp: pruned_def intro: valid_invite_id)
      then have u: "undoable en i (st_data s2)" using assms(2-4) 3(1,3) s2
        by (cases "randomID en") (simp_all add: undoable_def fresh_id_def pruned_def decoded_ok_def maps_ok_def distinct_map_filter)
      have "enroll_new lib en (TrimSpace name) (EncodeToString key) (at en now) issue account i s2 f2 = (Inl e, s, f)" using x True by simp
      then show ?thesis by (cases rule: enroll_new_cases) (use u in auto)
    qed
    then show ?thesis using s2 3(1) assms(3) by simp
  qed auto
qed

text \<open>C27: a failed enrolment costs nothing. When \<^verbatim>\<open>EnrollDevice\<close> answers with an error, whether the request was refused, the certificate was not issued or
  the file could not be written, the accounts and devices on file are what they were, every invitation that is not out of date is still there
  unchanged, and the copy in memory is either what it was or the file without the invitations that are out of date.\<close>

theorem failed_enrolment_costs_nothing:
  assumes "EnrollDevice lib en token name key now issue s (Decoded d) = (Inl e, s', f')" "fresh_id en (Decoded d)" "decoded_ok d"
  shows "\<exists>d'. f' = Decoded d' \<and> sd_Accounts d' = sd_Accounts d \<and> sd_Devices d' = sd_Devices d \<and>
    (\<forall>k i. map_of (sd_Invites d) k = Some i \<and> \<not> prunable (at en now) i \<longrightarrow> map_of (sd_Invites d') k = Some i) \<and>
    (st_data s' = st_data s \<or> st_data s' = pruned (at en now) d)"
proof -
  have "map_of (filter (\<lambda>(_, i). \<not> prunable (at en now) i) (sd_Invites d)) k = Some i" if "(k, i) \<in> set (sd_Invites d)" "\<not> prunable (at en now) i" for k i
    using that assms(3) by (simp add: distinct_map_filter decoded_ok_def maps_ok_def)
  moreover have "plain_file (Decoded d)" using assms(3) by (simp add: plain_file_def decoded_ok_def)
  ultimately show ?thesis using enroll_fails_file [OF assms(1)] enroll_memory [OF assms(1,2) refl assms(3)] assms(3)
    by (auto simp: pruned_def decoded_ok_def maps_ok_def)
qed

text \<open>C28: the file can always be read. In every run in which the names given to \<^verbatim>\<open>AddAccount\<close> are UTF-8, with processes that interleave and any of
  their operations failing, the authorization file does not exist yet or \<^verbatim>\<open>readStoreData\<close> accepts it, so no operation of the store can lock
  a provider out of its own state. The condition is needed: \<open>mangled_name_locks_out\<close> below.\<close>

theorem provider_file_readable:
  assumes "provider_reach lib p" "list_all ValidString (pv_names p)"
  shows "pv_file p = Absent \<or> (\<exists>d. pv_file p = Decoded d \<and> readStoreData lib (pv_file p) = Inr d)"
  using provider_reach_inv [OF assms(1)] assms(2) by (auto simp: provider_inv_def data_inv_def readStoreData_def)

text \<open>C24: a token enrols one device. In every run, any two enrolments that succeed with the same token were given the same device name and
  the same key and returned the same device, however often the invitation is presented and whatever happens in between.\<close>

theorem token_enrols_one_device:
  assumes "provider_reach lib p" "(digest, name, key, k) \<in> set (pv_enrolled p)" "(digest, name', key', k') \<in> set (pv_enrolled p)"
  shows "name' = name \<and> key' = key \<and> k' = k"
proof -
  have "\<forall>a \<in> set (pv_enrolled p). \<forall>b \<in> set (pv_enrolled p). fst a = fst b \<longrightarrow> a = b" using provider_reach_inv [OF assms(1)] by (simp add: provider_inv_def)
  from bspec [OF bspec [OF this assms(2)] assms(3)] show ?thesis by simp
qed

text \<open>C25: revocation is final. Once \<^verbatim>\<open>RevokeDevice\<close> has answered with success, no later operation of any process makes the device acceptable
  again: a store that reads the file after it, with \<^verbatim>\<open>Load\<close> or with the \<^verbatim>\<open>Refresh\<close> of a gateway, whether or not it finds the file changed and
  whatever it held before, authorizes the device at no time and under no key.\<close>

theorem revoked_device_refused:
  assumes "provider_reach lib p" "DeviceID who \<in> set (pv_revoked p)" "maps_ok (st_data s)"
    and "Load lib en s (pv_file p) = (Inr (), s', f') \<or> Refresh lib en s (pv_file p) = (Inr changed, s', f')"
  shows "\<exists>e. Authorize clock who now s' = Inl e"
proof -
  from provider_reach_inv [OF assms(1)] assms(2) obtain d where d: "pv_file p = Decoded d" "data_inv lib p d" by (auto simp: provider_inv_def)
  then obtain v where v: "map_of (sd_Devices d) (DeviceID who) = Some v" "\<not> dv_Enabled v" using assms(2) by (auto simp: data_inv_def)
  have "map_of (sd_Devices (st_data s)) = map_of (sd_Devices d)" if "set (sd_Devices d) = set (sd_Devices (st_data s))"
    using that assms(3) d(2) by (intro map_of_eqI) (auto simp: data_inv_def decoded_ok_def maps_ok_def)
  then have "map_of (sd_Devices (st_data s')) (DeviceID who) = Some v" using assms(4) d(1) v(1)
    by (auto simp: Load_def Refresh_def readStoreData_def DeepEqual_def Let_def split: option.splits if_splits)
  then show ?thesis using v(2) by (auto simp: Authorize_def Let_def split: option.splits)
qed

lemma valid_account_id: "valid_data lib d \<Longrightarrow> map_of (sd_Accounts d) k = Some a \<Longrightarrow> ac_ID a = k"
proof -
  have *: "k = ac_ID a" if "account_error lib [] k a = None" for k a using that by (auto simp: account_error_def split: if_splits)
  show "valid_data lib d \<Longrightarrow> map_of (sd_Accounts d) k = Some a \<Longrightarrow> ac_ID a = k" by (fastforce simp: valid_iff dest!: map_of_SomeD *)
qed

lemma find_hash:
  assumes "valid_data lib d" "(j, i) \<in> set (sd_Invites d)" "iv_TokenHash i = h"
  shows "find (\<lambda>(_, candidate). iv_TokenHash candidate = h) (sd_Invites d) = Some (j, i)"
proof (cases "find (\<lambda>(_, candidate). iv_TokenHash candidate = h) (sd_Invites d)")
  case None
  then show ?thesis using assms(2,3) by (auto simp: find_None_iff)
next
  case (Some e)
  obtain j' i' where e: "e = (j', i')" by (cases e)
  with Some have "(j', i') \<in> set (sd_Invites d)" "iv_TokenHash i' = h" by (auto simp: find_Some_iff in_set_conv_nth)
  from valid_hash_unique [OF assms(1) this(1) assms(2)] show ?thesis using Some e assms(3) \<open>iv_TokenHash i' = h\<close> by simp
qed

lemma honoured_run:
  assumes d: "valid_data lib d" "decoded_ok d" "(j, i) \<in> set (sd_Invites d)" "iv_TokenHash i = text_digest lib token" "iv_ConsumedAt i = NoStamp"
      "\<not> expired (iv_ExpiresAt i) (at en now)" "map_of (sd_Accounts d) (iv_AccountID i) = Some account" "ac_Enabled account"
      "\<not> expired (ac_ExpiresAt account) (at en now)"
    and input: "DecodeString token = Some tk" "length tk = 32" "name_ok (TrimSpace name)" "ValidString (TrimSpace name)" "length key = 32"
      "\<not> list_ex (\<lambda>(_, v). dv_PublicKey v = EncodeToString key) (sd_Devices d)"
    and env: "en_lock en" "en_prune_write en" "en_write en" "randomID en = Some k" "validID lib k" "fresh_id en (Decoded d)"
      "format_time (at en now) = Stamp ts" "parseStateTime (iv_CreatedAt i) = Some created" "created \<le> ts"
    and issue: "\<forall>a v. issue a v = Some (sign a v)"
    and v: "v = \<lparr>dv_ID = k, dv_AccountID = ac_ID account, dv_Name = TrimSpace name, dv_PublicKey = EncodeToString key, dv_Enabled = True,
      dv_CreatedAt = Stamp ts, dv_RevokedAt = NoStamp\<rparr>"
    and s3: "s3 = s\<lparr>st_data := enrolled_data j i (Stamp ts) v (pruned (at en now) d), st_lastGoodAt := Some (en_clock en)\<rparr>"
  shows "EnrollDevice lib en token name key now (Some issue) s (Decoded d) = (Inr (account, v, sign account v), s3, Decoded (st_data s3))"
proof -
  let ?t = "at en now"
  define d1 where "d1 = pruned ?t d"
  define s1 where "s1 = s\<lparr>st_data := d, st_lastGoodAt := Some (en_clock en)\<rparr>"
  obtain err s2 f2 where p: "prune_saved lib (en_prune_write en) ?t s1 (Decoded d) = (err, s2, f2)" by (cases "prune_saved lib (en_prune_write en) ?t s1 (Decoded d)") auto
  have err: "err = None" using p env(2) valid_filter_invites [OF d(1)]
    by (auto simp: prune_saved_def pruneInvitesLocked_def saveLocked_def s1_def split: if_splits)
  have s2_eq: "s2 = s1\<lparr>st_data := d1\<rparr>" using p by (auto simp: prune_saved_def pruneInvitesLocked_def d1_def pruned_def s1_def Let_def split: if_splits prod.splits)
  have s2: "st_data s2 = d1" "valid_data lib d1" "f2 = Decoded d1" using prune_cases [OF p] err d(1,2) by (auto simp: s1_def d1_def decoded_ok_def)
  have i: "(j, i) \<in> set (sd_Invites d1)" using d(3,5,6) by (simp add: d1_def pruned_def prunable_def)
  have same: "sd_Accounts d1 = sd_Accounts d" "sd_Devices d1 = sd_Devices d" by (simp_all add: d1_def pruned_def)
  have ok: "maps_ok d1" using d(2) by (simp add: decoded_ok_def maps_ok_def d1_def pruned_def distinct_map_filter)
  have fr: "k \<notin> fst ` set (sd_Devices d1)" using env(4,6) by (simp add: fresh_id_def same)
  have acc: "ac_ID account = iv_AccountID i" by (rule valid_account_id [OF d(1,7)])
  have j: "iv_ID i = j" by (rule valid_invite_id [OF d(1,3)])
  have found: "find (\<lambda>(_, candidate). iv_TokenHash candidate = text_digest lib token) (sd_Invites d1) = Some (j, i)"
    by (rule find_hash [OF s2(2) i d(4)])
  have valid: "valid_data lib (enrolled_data j i (Stamp ts) v d1)"
    by (rule enrolled_valid [OF s2(2) ok i env(8,9), of v k key]) (use fr acc input env(5) in \<open>simp_all add: v same\<close>)
  have s3_eq: "s3 = s2\<lparr>st_data := enrolled_data j i (Stamp ts) v d1\<rparr>" by (simp add: s3 s2_eq s1_def d1_def)
  have pl: "plain (enrolled_data j i (Stamp ts) v d1)" using d(2) input(4)
    by (auto simp: decoded_ok_def plain_def list_all_iff enrolled_data_def same v dest!: in_set_update)
  have "enroll_new lib en (TrimSpace name) (EncodeToString key) ?t (Some issue) account i s2 f2 = (Inr (account, v, sign account v), s3, Decoded (st_data s3))"
    using input(6) env(3,4,7) issue valid s2(1) json_plain [OF pl]
    by (simp add: enroll_new_def issue_credential_def save_or_undo_def saveLocked_def Let_def same v [symmetric] s3_eq j enrolled_data_def) (simp add: v)
  then show ?thesis
    using input(1-5) env(1) p err s2 found d(1,5-9) same
    by (simp add: EnrollDevice_def Let_def beginWrite_def readStoreData_def s1_def [symmetric] name_ok_def text_digest_def token_digest_def)
qed

lemma save_result: "save_or_undo lib w undo res s f = (Inr r, s', f') \<Longrightarrow> r = res \<and> f' = Decoded (json_data (st_data s))"
  by (erule save_cases) simp_all

text \<open>What a successful \<^verbatim>\<open>CreateInvite\<close> returns and leaves on file.\<close>

lemma CreateInvite_success:
  assumes "CreateInvite lib en accountID ttl now s (Decoded d0) = (Inr (invite, token), s1, f1)" "en_token en = Some tk"
  shows "token = EncodeToString tk" "iv_AccountID invite = accountID" "iv_TokenHash invite = token_digest lib tk" "iv_ConsumedAt invite = NoStamp"
    "iv_CreatedAt invite = format_time (at en now)" "iv_ExpiresAt invite = format_time (at en now + ttl)"
    "\<exists>d1. f1 = Decoded d1 \<and> map_of (sd_Invites d1) (iv_ID invite) = Some invite"
proof -
  have "\<exists>k d. invite = \<lparr>iv_ID = k, iv_AccountID = accountID, iv_TokenHash = token_digest lib tk, iv_ExpiresAt = format_time (at en now + ttl),
        iv_CreatedAt = format_time (at en now), iv_ConsumedAt = NoStamp, iv_DeviceID = []\<rparr> \<and> token = EncodeToString tk \<and>
      f1 = Decoded (json_data (d\<lparr>sd_Invites := AList.update k invite (sd_Invites d)\<rparr>))"
    using assms unfolding CreateInvite_def token_digest_def
    by (auto simp: Let_def split: if_splits option.splits sum.splits prod.splits dest!: save_result)
  then obtain k d where k: "invite = \<lparr>iv_ID = k, iv_AccountID = accountID, iv_TokenHash = token_digest lib tk, iv_ExpiresAt = format_time (at en now + ttl),
        iv_CreatedAt = format_time (at en now), iv_ConsumedAt = NoStamp, iv_DeviceID = []\<rparr>" "token = EncodeToString tk"
    and f1: "f1 = Decoded (json_data (d\<lparr>sd_Invites := AList.update k invite (sd_Invites d)\<rparr>))" by blast
  then show "token = EncodeToString tk" "iv_AccountID invite = accountID" "iv_TokenHash invite = token_digest lib tk" "iv_ConsumedAt invite = NoStamp"
    "iv_CreatedAt invite = format_time (at en now)" "iv_ExpiresAt invite = format_time (at en now + ttl)" by simp_all
  show "\<exists>d1. f1 = Decoded d1 \<and> map_of (sd_Invites d1) (iv_ID invite) = Some invite" using f1 by (simp add: k(1) update_conv')
qed

text \<open>The stamps of an invitation bound the instants at which it can be used.\<close>

lemma stamp_within:
  assumes "parseStateTime (format_time lo) = Some a" "parseStateTime (format_time hi) = Some b" "lo \<le> t" "t div second < hi div second"
  shows "format_time t = Stamp (t div second * second)" "a \<le> t div second * second" "\<not> expired (format_time hi) t"
proof -
  have s: "second > 0" by (simp add: second_def)
  have lo: "-62167219200 \<le> lo div second" "a = lo div second * second" and hi: "hi div second < 253402300800" "format_time hi = Stamp (hi div second * second)"
    using assms(1,2) by (auto simp: parseStateTime_def parse_time_def format_time_def Let_def split: if_splits)
  have m: "lo div second \<le> t div second" using assms(3) s by (simp add: zdiv_mono1)
  show "format_time t = Stamp (t div second * second)" using lo(1) hi(1) m assms(4) by (simp add: format_time_def Let_def)
  show "a \<le> t div second * second" using lo(2) m s by (simp add: mult_right_mono)
  have "t = t div second * second + t mod second" "t mod second < second" using s by simp_all
  moreover have "t div second * second + second \<le> hi div second * second"
    using mult_right_mono [of "t div second + 1" "hi div second" second] assms(4) s by (simp add: algebra_simps)
  ultimately have "t < hi div second * second" by linarith
  then show "\<not> expired (format_time hi) t" by (simp add: hi(2) expired_def parse_time_def)
qed

lemma valid_invite_times:
  assumes "valid_data lib d" "(k, i) \<in> set (sd_Invites d)"
  shows "\<exists>a b. parseStateTime (iv_CreatedAt i) = Some a \<and> parseStateTime (iv_ExpiresAt i) = Some b"
proof -
  have "invite_error lib (sd_Accounts d) (sd_Devices d) [] k i = None" using assms by (auto simp: valid_iff)
  then show ?thesis by (auto simp: invite_error_def split: if_splits option.splits)
qed

text \<open>C26: an invitation that was created is honoured. After \<^verbatim>\<open>CreateInvite\<close> has answered with a token of 32 random bytes, the invitation is on file.
  While the file still holds it unchanged, the account is in force, the clock is not before the creation and not yet in the second in which the
  invitation expires, an enrolment with that token, a UTF-8 name of at most 128 bytes and a key that is not registered yet succeeds, provided
  the lock is taken, the random source, the writes and the issuer work and the identifier drawn is new; the new state is on file, and the store
  authorizes the device with that key at once.\<close>

theorem invitation_honoured:
  assumes created: "CreateInvite lib en accountID ttl now s (Decoded d0) = (Inr (invite, token), s1, f1)" "en_token en = Some tk" "length tk = 32"
    and held: "valid_data lib d" "decoded_ok d" "map_of (sd_Invites d) (iv_ID invite) = Some invite"
    and account: "map_of (sd_Accounts d) accountID = Some account" "ac_Enabled account" "\<not> expired (ac_ExpiresAt account) (at en' now')"
    and clock: "at en now \<le> at en' now'" "at en' now' div second < (at en now + ttl) div second"
    and input: "name_ok (TrimSpace name)" "ValidString (TrimSpace name)" "length key = 32"
      "\<not> list_ex (\<lambda>(_, v). dv_PublicKey v = EncodeToString key) (sd_Devices d)"
    and env: "en_lock en'" "en_prune_write en'" "en_write en'" "randomID en' = Some k" "validID lib k" "fresh_id en' (Decoded d)"
    and issue: "\<forall>a v. issue a v = Some (sign a v)"
  shows "(\<exists>d1. f1 = Decoded d1 \<and> map_of (sd_Invites d1) (iv_ID invite) = Some invite) \<and>
    (\<exists>v s'' d'. EnrollDevice lib en' token name key now' (Some issue) s' (Decoded d) = (Inr (account, v, sign account v), s'', Decoded d') \<and>
       st_data s'' = d' \<and> Authorize (en_clock en') \<lparr>ProviderID = p, AccountID = accountID, DeviceID = k, PublicKey = key\<rparr> now' s'' =
         Inr \<lparr>au_Account = account, au_Device = v\<rparr>)"
proof -
  note made = CreateInvite_success [OF created(1,2)]
  have i: "(iv_ID invite, invite) \<in> set (sd_Invites d)" using held(3) by (rule map_of_SomeD)
  obtain a b where ab: "parseStateTime (iv_CreatedAt invite) = Some a" "parseStateTime (iv_ExpiresAt invite) = Some b" using valid_invite_times [OF held(1) i] by blast
  note t = stamp_within [OF ab [unfolded made(5,6)] clock]
  let ?ts = "at en' now' div second * second"
  define v where "v = \<lparr>dv_ID = k, dv_AccountID = ac_ID account, dv_Name = TrimSpace name, dv_PublicKey = EncodeToString key, dv_Enabled = True,
      dv_CreatedAt = Stamp ?ts, dv_RevokedAt = NoStamp\<rparr>"
  define s3 where "s3 = s'\<lparr>st_data := enrolled_data (iv_ID invite) invite (Stamp ?ts) v (pruned (at en' now') d), st_lastGoodAt := Some (en_clock en')\<rparr>"
  have digest: "iv_TokenHash invite = text_digest lib token" "DecodeString token = Some tk" by (simp_all add: made(1,3) text_digest_def)
  have acc: "map_of (sd_Accounts d) (iv_AccountID invite) = Some account" "ac_ID account = accountID"
    using account(1) valid_account_id [OF held(1) account(1)] by (simp_all add: made(2))
  have "EnrollDevice lib en' token name key now' (Some issue) s' (Decoded d) = (Inr (account, v, sign account v), s3, Decoded (st_data s3))"
    by (rule honoured_run [OF held(1,2) i digest(1) made(4) t(3) [folded made(6)] acc(1) account(2,3) digest(2) created(3) input env t(1) ab(1) t(2) issue v_def s3_def])
  moreover have "map_of (sd_Devices (st_data s3)) k = Some v" "map_of (sd_Accounts (st_data s3)) accountID = Some account"
    using account(1) by (simp_all add: s3_def enrolled_data_def v_def update_conv' pruned_def)
  then have "Authorize (en_clock en') \<lparr>ProviderID = p, AccountID = accountID, DeviceID = k, PublicKey = key\<rparr> now' s3 = Inr \<lparr>au_Account = account, au_Device = v\<rparr>"
    using account(2,3) acc(2) by (simp add: Authorize_def Let_def v_def)
  ultimately show ?thesis using made(7) by blast
qed

section \<open>A sample run\<close>

definition sample_lib :: store_lib where
  "sample_lib = \<lparr>lib_ToLower = \<lambda>s. s, lib_EqualFold = (=), lib_Sum256 = \<lambda>_. replicate 32 7\<rparr>"

definition sample_id :: "byte \<Rightarrow> bytes" where
  "sample_id b = hex_encode (replicate 16 b)"

definition sample_env :: "byte \<Rightarrow> store_env" where
  "sample_env b = \<lparr>en_lock = True, en_clock = 1000000000000000000, en_id = Some (replicate 16 b), en_token = Some (replicate 32 9), en_prune_write = True, en_write = True\<rparr>"

definition sample_key :: bytes where "sample_key = replicate 32 5"

lemma sample_trim: "TrimSpace [97] = [97]"
  by (simp add: TrimSpace_def strip_if space_codes_def)

definition sample_account :: Account where
  "sample_account = \<lparr>ac_ID = sample_id 1, ac_Name = [97], ac_Enabled = True, ac_ExpiresAt = NoStamp, ac_MaxFlows = 0, ac_MaxClients = 8, ac_CreatedAt = Stamp 1000000000000000000\<rparr>"

definition sample_invite :: InviteRecord where
  "sample_invite = \<lparr>iv_ID = sample_id 2, iv_AccountID = sample_id 1, iv_TokenHash = EncodeToString (replicate 32 7), iv_ExpiresAt = Stamp 1000000060000000000,
     iv_CreatedAt = Stamp 1000000000000000000, iv_ConsumedAt = NoStamp, iv_DeviceID = []\<rparr>"

definition sample_data :: storeData where
  "sample_data = \<lparr>sd_Version = 3, sd_complete = True, sd_Accounts = [(sample_id 1, sample_account)], sd_Devices = [], sd_Invites = [(sample_id 2, sample_invite)]\<rparr>"

lemma hex_digit_value: "n < 16 \<Longrightarrow> hex_value (hex_digit n) \<noteq> None"
proof -
  assume "n < 16"
  have "list_all (\<lambda>m. hex_value (hex_digit m) \<noteq> None) [0..<16]" by (simp add: upt_rec hex_value_def hex_digit_def)
  with \<open>n < 16\<close> show ?thesis by (auto simp only: list_all_iff set_upt atLeastLessThan_iff)
qed

lemma hex_encode_digits: "list_all (\<lambda>c. hex_value c \<noteq> None) (hex_encode bs) \<and> length (hex_encode bs) = 2 * length bs"
proof (induction bs)
  case (Cons b bs)
  have "unat b div 16 < 16" using byte_lt [of b] by linarith
  then show ?case using Cons hex_digit_value [of "unat b div 16"] hex_digit_value [of "unat b mod 16"] by (simp add: hex_encode_def)
qed (simp add: hex_encode_def)

lemma sample_valid_id: "validID sample_lib (sample_id b)"
  using hex_encode_digits [of "replicate 16 b"] by (simp add: validID_def sample_lib_def sample_id_def)

lemma sample_id_head: "sample_id b ! 1 = hex_digit (unat b mod 16)"
proof -
  have "replicate 16 b = b # replicate 15 b" by (simp flip: replicate_Suc)
  then show ?thesis by (simp add: sample_id_def hex_encode_def)
qed

lemma sample_ids_distinct: "distinct (map sample_id [1, 2, 3, 4])"
proof -
  have "sample_id 1 ! 1 = 49" "sample_id 2 ! 1 = 50" "sample_id 3 ! 1 = 51" "sample_id 4 ! 1 = 52" unfolding sample_id_head by (simp_all add: hex_digit_def)
  then show ?thesis by auto
qed

lemma sample_random: "randomID (sample_env b) = Some (sample_id b)"
  by (simp add: randomID_def sample_env_def sample_id_def)

lemma sample_name: "name_ok [97]"
  by (simp add: name_ok_def sample_trim)

lemma sample_now: "format_time 1000000000000000000 = Stamp 1000000000000000000" "format_time 1000000060000000000 = Stamp 1000000060000000000"
    "or_clock 1000000000000000000 zero_time = 1000000000000000000"
  by (simp_all add: format_time_def second_def or_clock_def)

lemma sample_utf8: "ValidString [97]"
  by (rule ascii_valid) simp

lemma sample_valid: "valid_data sample_lib sample_data"
  using sample_valid_id [of 1] sample_valid_id [of 2] sample_name
  by (simp add: valid_iff sample_data_def ProviderStateVersion_def account_error_def sample_account_def limits_validate_def account_Limits_def maxAccountLimit_def
      parseStateTime_def parse_time_def invite_error_def sample_invite_def second_def)

definition sample_store :: "storeData \<Rightarrow> Store" where
  "sample_store d = \<lparr>st_data = d, st_lastGoodAt = Some 1000000000000000000\<rparr>"

definition sample_accounts :: storeData where
  "sample_accounts = sample_data\<lparr>sd_Invites := []\<rparr>"

lemma sample_accounts_valid: "valid_data sample_lib sample_accounts"
  using valid_filter_invites [OF sample_valid, of "\<lambda>_. False"] by (simp add: sample_accounts_def)

lemma sample_json [simp]: "json_data emptyStoreData = emptyStoreData" "json_data sample_accounts = sample_accounts" "json_data sample_data = sample_data"
  by (rule json_plain, simp add: plain_def emptyStoreData_def sample_accounts_def sample_data_def sample_account_def sample_utf8)+

lemmas sample_defs = sample_env_def sample_store_def beginWrite_def readStoreData_def saveLocked_def save_or_undo_def Let_def

lemma sample_initialize:
  "Initialize sample_lib (sample_env 0) NewStore Absent = (Inr (), sample_store emptyStoreData, Decoded emptyStoreData)"
  by (simp add: Initialize_def sample_defs NewStore_def validateStoreData_def emptyStoreData_def json_data_def)

lemma sample_add:
  "AddAccount sample_lib (sample_env 1) [97] zero_time \<lparr>al_MaxFlows = 0, al_MaxClients = 8\<rparr> zero_time (sample_store emptyStoreData) (Decoded emptyStoreData) =
     (Inr sample_account, sample_store sample_accounts, Decoded sample_accounts)"
proof -
  have a: "put_account (sample_id 1) sample_account emptyStoreData = sample_accounts"
    by (simp add: put_account_def emptyStoreData_def sample_accounts_def sample_data_def ProviderStateVersion_def)
  have "valid_data sample_lib emptyStoreData" by (simp add: validateStoreData_def emptyStoreData_def)
  moreover have "sd_Accounts emptyStoreData = []" by (simp add: emptyStoreData_def)
  ultimately show ?thesis using a sample_accounts_valid sample_now sample_random [of 1]
    by (simp add: AddAccount_def sample_trim sample_defs limits_validate_def maxAccountLimit_def sample_account_def [symmetric])
qed

lemma sample_create:
  "CreateInvite sample_lib (sample_env 2) (sample_id 1) 60000000000 zero_time (sample_store sample_accounts) (Decoded sample_accounts) =
     (Inr (sample_invite, EncodeToString (replicate 32 9)), sample_store sample_data, Decoded sample_data)"
proof -
  have "sample_accounts\<lparr>sd_Invites := [(sample_id 2, sample_invite)]\<rparr> = sample_data" "sd_Invites sample_accounts = []"
      "sd_Accounts sample_accounts = [(sample_id 1, sample_account)]" "ac_Enabled sample_account" "ac_ExpiresAt sample_account = NoStamp"
    "sample_accounts\<lparr>sd_Invites := []\<rparr> = sample_accounts"
    by (simp_all add: sample_accounts_def sample_data_def sample_account_def)
  then show ?thesis using sample_accounts_valid sample_valid sample_now sample_random [of 2]
    by (simp add: CreateInvite_def sample_defs prune_saved_def pruneInvitesLocked_def second_def expired_def sample_invite_def [symmetric])
      (simp add: sample_lib_def sample_invite_def)
qed

definition sample_device :: Device where
  "sample_device = \<lparr>dv_ID = sample_id 3, dv_AccountID = sample_id 1, dv_Name = [97], dv_PublicKey = EncodeToString sample_key, dv_Enabled = True,
     dv_CreatedAt = Stamp 1000000000000000000, dv_RevokedAt = NoStamp\<rparr>"

definition sample_token :: bytes where "sample_token = EncodeToString (replicate 32 9)"

definition sample_issue :: "Account \<Rightarrow> Device \<Rightarrow> bytes option" where "sample_issue a v = Some []"

definition sample_enrolled :: storeData where
  "sample_enrolled = enrolled_data (sample_id 2) sample_invite (Stamp 1000000000000000000) sample_device sample_data"

lemma sample_at: "at (sample_env b) zero_time = 1000000000000000000"
  by (simp add: sample_env_def sample_now)

lemma sample_unexpired: "\<not> expired (iv_ExpiresAt sample_invite) 1000000000000000000" "\<not> expired (ac_ExpiresAt sample_account) 1000000000000000000"
  by (simp_all add: expired_def sample_invite_def sample_account_def parse_time_def)

lemma sample_pruned: "pruned 1000000000000000000 sample_data = sample_data"
  using sample_unexpired by (simp add: pruned_def sample_data_def prunable_def) (simp add: sample_invite_def)

lemma sample_current:
  "\<not> list_ex (\<lambda>(_, i). prunable 1000000000000000000 i) (sd_Invites sample_data)"
  "filter (\<lambda>(_, i). \<not> prunable 1000000000000000000 i) (sd_Invites sample_data) = sd_Invites sample_data"
  "EncodeToString (lib_Sum256 sample_lib (replicate 32 9)) = text_digest sample_lib sample_token"
  using sample_unexpired(1) by (simp_all add: sample_data_def prunable_def sample_invite_def text_digest_def sample_token_def token_digest_def)

lemma sample_digest: "text_digest sample_lib sample_token = EncodeToString (replicate 32 7)"
  by (simp add: text_digest_def sample_token_def token_digest_def sample_lib_def)

lemma sample_maps: "decoded_ok sample_data"
  by (simp add: decoded_ok_def plain_def maps_ok_def sample_data_def sample_account_def sample_utf8)

lemma sample_fresh: "fresh_id (sample_env 3) (Decoded sample_data)"
  using sample_ids_distinct by (auto simp: fresh_id_def sample_random sample_data_def)

lemma sample_premises:
  "(sample_id 2, sample_invite) \<in> set (sd_Invites sample_data)" "iv_TokenHash sample_invite = text_digest sample_lib sample_token" "iv_ConsumedAt sample_invite = NoStamp"
  "map_of (sd_Accounts sample_data) (iv_AccountID sample_invite) = Some sample_account" "ac_Enabled sample_account"
  "DecodeString sample_token = Some (replicate 32 9)" "name_ok (TrimSpace [97])" "ValidString (TrimSpace [97])" "length sample_key = 32"
  "\<not> list_ex (\<lambda>(_, v). dv_PublicKey v = EncodeToString sample_key) (sd_Devices sample_data)" "en_lock (sample_env b)" "en_prune_write (sample_env b)" "en_write (sample_env b)"
  "parseStateTime (iv_CreatedAt sample_invite) = Some 1000000000000000000"
  by (simp_all add: sample_digest [unfolded sample_token_def] sample_data_def sample_invite_def sample_account_def sample_token_def sample_key_def sample_env_def sample_trim sample_name sample_utf8 parseStateTime_def parse_time_def)

lemma sample_enroll:
  "EnrollDevice sample_lib (sample_env 3) sample_token [97] sample_key zero_time (Some sample_issue) (sample_store sample_data) (Decoded sample_data) =
     (Inr (sample_account, sample_device, []), sample_store sample_enrolled, Decoded sample_enrolled)"
proof -
  have v: "sample_device = \<lparr>dv_ID = sample_id 3, dv_AccountID = ac_ID sample_account, dv_Name = TrimSpace [97], dv_PublicKey = EncodeToString sample_key, dv_Enabled = True,
      dv_CreatedAt = Stamp 1000000000000000000, dv_RevokedAt = NoStamp\<rparr>" by (simp add: sample_device_def sample_account_def sample_trim)
  have s: "sample_store sample_enrolled = (sample_store sample_data)\<lparr>st_data := enrolled_data (sample_id 2) sample_invite (Stamp 1000000000000000000) sample_device
      (pruned (at (sample_env 3) zero_time) sample_data), st_lastGoodAt := Some (en_clock (sample_env 3))\<rparr>"
    unfolding sample_at sample_pruned by (simp add: sample_store_def sample_enrolled_def sample_env_def)
  have u: "\<not> expired (iv_ExpiresAt sample_invite) (at (sample_env 3) zero_time)" "\<not> expired (ac_ExpiresAt sample_account) (at (sample_env 3) zero_time)"
      "format_time (at (sample_env 3) zero_time) = Stamp 1000000000000000000" unfolding sample_at by (rule sample_unexpired sample_now)+
  show ?thesis
    using honoured_run [OF sample_valid sample_maps sample_premises(1-3) u(1) sample_premises(4,5) u(2) sample_premises(6) _ sample_premises(7-13) sample_random
        sample_valid_id sample_fresh u(3) sample_premises(14) order_refl _ v s, of sample_issue "\<lambda>_ _. []"]
    by (simp add: sample_issue_def sample_store_def)
qed

text \<open>The same request again, and the revocation of the device.\<close>

definition sample_used :: InviteRecord where
  "sample_used = sample_invite\<lparr>iv_ConsumedAt := Stamp 1000000000000000000, iv_DeviceID := sample_id 3\<rparr>"

definition sample_gone :: Device where
  "sample_gone = sample_device\<lparr>dv_Enabled := False, dv_RevokedAt := Stamp 1000000000000000000\<rparr>"

definition sample_revoked :: storeData where
  "sample_revoked = sample_enrolled\<lparr>sd_Devices := [(sample_id 3, sample_gone)]\<rparr>"

lemma sample_enrolled_eq:
  "sd_Accounts sample_enrolled = [(sample_id 1, sample_account)]" "sd_Devices sample_enrolled = [(sample_id 3, sample_device)]"
  "sd_Invites sample_enrolled = [(sample_id 2, sample_used)]" "sd_Version sample_enrolled = 3" "sd_complete sample_enrolled"
  by (simp_all add: sample_enrolled_def enrolled_data_def sample_data_def sample_used_def) (simp_all add: sample_device_def)

lemma sample_enrolled_valid: "valid_data sample_lib sample_enrolled"
  unfolding sample_enrolled_def
  by (rule enrolled_valid [OF sample_valid sample_maps [unfolded decoded_ok_def, THEN conjunct1] sample_premises(1,14) order_refl, of sample_device "sample_id 3" sample_key])
    (simp_all add: sample_valid_id sample_device_def sample_data_def sample_invite_def sample_name sample_key_def)

lemma sample_revoked_json [simp]: "json_data sample_enrolled = sample_enrolled" "json_data sample_revoked = sample_revoked"
  by (rule json_plain, simp add: plain_def sample_enrolled_eq sample_revoked_def sample_account_def sample_device_def sample_gone_def sample_utf8)+

lemma sample_again:
  "EnrollDevice sample_lib (sample_env 4) sample_token [97] sample_key zero_time (Some sample_issue) (sample_store sample_enrolled) (Decoded sample_enrolled) =
     (Inr (sample_account, sample_device, []), sample_store sample_enrolled, Decoded sample_enrolled)"
proof -
  have u: "\<not> prunable 1000000000000000000 sample_used" "iv_ConsumedAt sample_used \<noteq> NoStamp" "iv_TokenHash sample_used = EncodeToString (replicate 32 7)"
      "iv_AccountID sample_used = sample_id 1" "iv_DeviceID sample_used = sample_id 3"
    by (simp_all add: prunable_def sample_used_def parse_time_def consumedInviteRecoveryWindow_def second_def sample_invite_def)
  have same: "sample_enrolled\<lparr>sd_Invites := [(sample_id 2, sample_used)]\<rparr> = sample_enrolled" using sample_enrolled_eq(3) by (metis storeData.update_convs(5) storeData.surjective storeData.select_convs(5))
  have dev: "dv_AccountID sample_device = ac_ID sample_account" "dv_Name sample_device = [97]" "dv_PublicKey sample_device = EncodeToString sample_key" "ac_Enabled sample_account"
    by (simp_all add: sample_device_def sample_account_def)
  have key: "length sample_key = 32" "DecodeString sample_token = Some (replicate 32 9)" "EncodeToString (lib_Sum256 sample_lib (replicate 32 9)) = EncodeToString (replicate 32 7)"
    by (simp_all add: sample_key_def sample_token_def sample_lib_def)
  show ?thesis using sample_enrolled_valid sample_at [of 4] sample_enrolled_eq same u dev key sample_unexpired(2)
    by (simp add: EnrollDevice_def sample_trim sample_defs prune_saved_def pruneInvitesLocked_def enroll_again_def issue_credential_def sample_issue_def)
qed

lemma sample_revoked_valid: "valid_data sample_lib sample_revoked"
proof -
  have "sample_id 3 \<noteq> []" "length sample_key = 32" using sample_valid_id [of 3] by (auto simp: validID_def sample_key_def split: if_splits)
  then show ?thesis using sample_valid_id sample_name
    by (simp add: valid_iff sample_revoked_def sample_enrolled_eq ProviderStateVersion_def account_error_def sample_account_def limits_validate_def account_Limits_def
        maxAccountLimit_def parseStateTime_def parse_time_def device_error_def sample_gone_def sample_device_def invite_error_def sample_used_def sample_invite_def second_def)
qed

lemma sample_revoke:
  "RevokeDevice sample_lib (sample_env 0) (sample_id 3) zero_time (sample_store sample_enrolled) (Decoded sample_enrolled) =
     (Inr (), sample_store sample_revoked, Decoded sample_revoked)"
  using sample_enrolled_valid sample_revoked_valid sample_at [of 0] sample_now(1)
  by (simp add: RevokeDevice_def sample_defs sample_enrolled_eq sample_gone_def [symmetric] sample_revoked_def sample_revoked_json(2) [unfolded sample_revoked_def])

definition sample_provider :: provider where
  "sample_provider = \<lparr>pv_file = Decoded sample_revoked, pv_stores = (\<lambda>_. NewStore)(0 := sample_store sample_revoked),
     pv_enrolled = [(EncodeToString (replicate 32 7), [97], EncodeToString sample_key, sample_id 3), (EncodeToString (replicate 32 7), [97], EncodeToString sample_key, sample_id 3)],
     pv_revoked = [sample_id 3], pv_drawn = [EncodeToString (replicate 32 7)], pv_names = [[97]]\<rparr>"

lemma sample_reach: "provider_reach sample_lib sample_provider"
proof -
  let ?p0 = new_provider
  have s0: "pv_stores ?p0 0 = NewStore" "pv_file ?p0 = Absent" by (simp_all add: new_provider_def)
  let ?p1 = "step_to ?p0 0 (sample_store emptyStoreData) (Decoded emptyStoreData)"
  have "Initialize sample_lib (sample_env 0) (pv_stores ?p0 0) (pv_file ?p0) = (Inr (), sample_store emptyStoreData, Decoded emptyStoreData)"
    by (simp add: s0 sample_initialize)
  note p1 = provider_reach.step [OF provider_reach.start provider_step.initialize [OF this]]
  let ?p2 = "(step_to ?p1 0 (sample_store sample_accounts) (Decoded sample_accounts))\<lparr>pv_names := pv_names ?p1 @ [TrimSpace [97]]\<rparr>"
  have "AddAccount sample_lib (sample_env 1) [97] zero_time \<lparr>al_MaxFlows = 0, al_MaxClients = 8\<rparr> zero_time (pv_stores ?p1 0) (pv_file ?p1) =
      (Inr sample_account, sample_store sample_accounts, Decoded sample_accounts)" by (simp add: step_to_def sample_add)
  note p2 = provider_reach.step [OF p1 provider_step.add_account [OF this]]
  let ?p3 = "(step_to ?p2 0 (sample_store sample_data) (Decoded sample_data))\<lparr>pv_drawn := pv_drawn ?p2 @ [token_digest sample_lib (replicate 32 9)]\<rparr>"
  have c: "CreateInvite sample_lib (sample_env 2) (sample_id 1) 60000000000 zero_time (pv_stores ?p2 0) (pv_file ?p2) =
      (Inr (sample_invite, EncodeToString (replicate 32 9)), sample_store sample_data, Decoded sample_data)" by (simp add: step_to_def sample_create)
  have tk: "en_token (sample_env 2) = Some (replicate 32 9)" by (simp add: sample_env_def)
  have p3: "provider_reach sample_lib ?p3"
    by (rule provider_reach.step [OF p2 provider_step.create_invite [OF c]])
      (use sample_ids_distinct tk in \<open>auto simp: step_to_def fresh_id_def sample_random sample_accounts_def sample_data_def new_provider_def\<close>)
  let ?e = "(text_digest sample_lib sample_token, TrimSpace [97], EncodeToString sample_key, dv_ID sample_device)"
  let ?p4 = "(step_to ?p3 0 (sample_store sample_enrolled) (Decoded sample_enrolled))\<lparr>pv_enrolled := pv_enrolled ?p3 @ [?e]\<rparr>"
  have c: "EnrollDevice sample_lib (sample_env 3) sample_token [97] sample_key zero_time (Some sample_issue) (pv_stores ?p3 0) (pv_file ?p3) =
      (Inr (sample_account, sample_device, []), sample_store sample_enrolled, Decoded sample_enrolled)" by (simp add: step_to_def sample_enroll)
  have p4: "provider_reach sample_lib ?p4" by (rule provider_reach.step [OF p3 provider_step.enroll [OF c]]) (simp_all add: step_to_def sample_fresh sample_trim sample_utf8)
  let ?p5 = "(step_to ?p4 0 (sample_store sample_enrolled) (Decoded sample_enrolled))\<lparr>pv_enrolled := pv_enrolled ?p4 @ [?e]\<rparr>"
  have c: "EnrollDevice sample_lib (sample_env 4) sample_token [97] sample_key zero_time (Some sample_issue) (pv_stores ?p4 0) (pv_file ?p4) =
      (Inr (sample_account, sample_device, []), sample_store sample_enrolled, Decoded sample_enrolled)" by (simp add: step_to_def sample_again)
  have p5: "provider_reach sample_lib ?p5"
    by (rule provider_reach.step [OF p4 provider_step.enroll [OF c]]) (use sample_ids_distinct in \<open>auto simp: step_to_def fresh_id_def sample_random sample_enrolled_eq sample_trim sample_utf8\<close>)
  let ?p6 = "(step_to ?p5 0 (sample_store sample_revoked) (Decoded sample_revoked))\<lparr>pv_revoked := pv_revoked ?p5 @ [sample_id 3]\<rparr>"
  have "RevokeDevice sample_lib (sample_env 0) (sample_id 3) zero_time (pv_stores ?p5 0) (pv_file ?p5) = (Inr (), sample_store sample_revoked, Decoded sample_revoked)"
    by (simp add: step_to_def sample_revoke)
  note p6 = provider_reach.step [OF p5 provider_step.revoke_device [OF this]]
  have "?p6 = sample_provider"
    by (simp add: step_to_def sample_provider_def new_provider_def sample_digest [unfolded sample_lib_def] sample_trim sample_device_def token_digest_def sample_lib_def)
  with p6 show ?thesis by simp
qed

section \<open>Witnesses\<close>

theorem provider_file_readable_witness: "\<exists>d. pv_file sample_provider = Decoded d \<and> readStoreData sample_lib (pv_file sample_provider) = Inr d"
  using provider_file_readable [OF sample_reach] sample_utf8 by (auto simp: sample_provider_def)

theorem token_enrols_one_device_witness:
  "length (pv_enrolled sample_provider) = 2 \<and> snd (snd (pv_enrolled sample_provider ! 1)) = snd (snd (pv_enrolled sample_provider ! 0))"
  using token_enrols_one_device [OF sample_reach, of "EncodeToString (replicate 32 7)" "[97]" "EncodeToString sample_key" "sample_id 3" "[97]" "EncodeToString sample_key" "sample_id 3"]
  by (simp add: sample_provider_def)

theorem revoked_device_refused_witness:
  "\<exists>s'. Refresh sample_lib (sample_env 0) (sample_store sample_enrolled) (Decoded sample_revoked) = (Inr True, s', Decoded sample_revoked) \<and>
     (\<exists>e. Authorize 0 \<lparr>ProviderID = [], AccountID = sample_id 1, DeviceID = sample_id 3, PublicKey = sample_key\<rparr> 7 s' = Inl e)"
proof -
  have "sample_gone \<noteq> sample_device" by (simp add: sample_gone_def sample_device_def)
  then have r: "Refresh sample_lib (sample_env 0) (sample_store sample_enrolled) (pv_file sample_provider) = (Inr True, sample_store sample_revoked, Decoded sample_revoked)"
    by (simp add: Refresh_def readStoreData_def sample_provider_def sample_revoked_valid sample_store_def sample_env_def DeepEqual_def sample_enrolled_eq)
      (simp add: sample_revoked_def)
  have "maps_ok (st_data (sample_store sample_enrolled))" by (simp add: sample_store_def maps_ok_def sample_enrolled_eq)
  from revoked_device_refused [OF sample_reach _ this disjI2 [OF r], of "\<lparr>ProviderID = [], AccountID = sample_id 1, DeviceID = sample_id 3, PublicKey = sample_key\<rparr>"] r
  show ?thesis by (simp add: sample_provider_def)
qed

theorem failed_enrolment_costs_nothing_witness:
  "\<exists>d' f s. EnrollDevice sample_lib (sample_env 3) sample_token [97] sample_key zero_time (Some (\<lambda>_ _. None)) (sample_store sample_data) (Decoded sample_data) = (Inl IssueFailed, s, f) \<and>
     f = Decoded d' \<and> map_of (sd_Invites d') (sample_id 2) = Some sample_invite"
proof -
  have "\<exists>s f. EnrollDevice sample_lib (sample_env 3) sample_token [97] sample_key zero_time (Some (\<lambda>_ _. None)) (sample_store sample_data) (Decoded sample_data) = (Inl IssueFailed, s, f)"
    using sample_valid sample_at [of 3] sample_current sample_premises sample_unexpired sample_random [of 3] find_hash [OF sample_valid sample_premises(1,2)]
    by (simp add: EnrollDevice_def sample_trim Let_def beginWrite_def readStoreData_def prune_saved_def pruneInvitesLocked_def enroll_new_def issue_credential_def)
  then obtain s f where r: "EnrollDevice sample_lib (sample_env 3) sample_token [97] sample_key zero_time (Some (\<lambda>_ _. None)) (sample_store sample_data) (Decoded sample_data) = (Inl IssueFailed, s, f)"
    by blast
  have "map_of (sd_Invites sample_data) (sample_id 2) = Some sample_invite" by (simp add: sample_data_def)
  moreover have "\<not> prunable (at (sample_env 3) zero_time) sample_invite" using sample_unexpired(1) unfolding sample_at by (simp add: prunable_def sample_premises(3))
  ultimately show ?thesis using failed_enrolment_costs_nothing [OF r sample_fresh sample_maps] r by blast
qed

theorem invitation_honoured_witness:
  "\<exists>v s' d'. EnrollDevice sample_lib (sample_env 3) sample_token [97] sample_key zero_time (Some sample_issue) (sample_store sample_data) (Decoded sample_data) =
     (Inr (sample_account, v, []), s', Decoded d') \<and> st_data s' = d' \<and>
     Authorize 1000000000000000000 \<lparr>ProviderID = [1], AccountID = sample_id 1, DeviceID = sample_id 3, PublicKey = sample_key\<rparr> zero_time s' =
       Inr \<lparr>au_Account = sample_account, au_Device = v\<rparr>"
proof -
  have u: "\<not> expired (ac_ExpiresAt sample_account) (at (sample_env 3) zero_time)" unfolding sample_at by (rule sample_unexpired)
  have c: "at (sample_env 2) zero_time \<le> at (sample_env 3) zero_time" "at (sample_env 3) zero_time div second < (at (sample_env 2) zero_time + 60000000000) div second"
    by (simp_all add: sample_at second_def)
  have "en_clock (sample_env 3) = 1000000000000000000" "en_token (sample_env 2) = Some (replicate 32 9)" "map_of (sd_Invites sample_data) (iv_ID sample_invite) = Some sample_invite"
      "map_of (sd_Accounts sample_data) (sample_id 1) = Some sample_account" by (simp_all add: sample_env_def sample_data_def sample_invite_def)
  note e = this
  from invitation_honoured [OF sample_create e(2) _ sample_valid sample_maps e(3,4) sample_premises(5) u c sample_premises(7-13) sample_random
        sample_valid_id sample_fresh, of sample_issue "\<lambda>_ _. []" "sample_store sample_data" "[1]"] e(1)
  show ?thesis by (simp add: sample_issue_def sample_token_def)
qed

section \<open>A name that JSON does not keep\<close>

lemma json_text_ff: "json_text (replicate n 0xFF) = concat (replicate n [0xEF, 0xBF, 0xBD])"
  by (induction n) (simp_all add: json_text.simps rune_size_def rune_lead_def)

lemma trim_ff: "TrimSpace (replicate n 0xFF) = replicate n 0xFF"
proof -
  have f: "find (\<lambda>c. c \<noteq> [] \<and> take (length c) (replicate n 0xFF) = c) cs = None" if "list_all (\<lambda>c. 0xFF \<notin> set c) cs" for cs :: "bytes list"
  proof (unfold find_None_iff, rule notI, elim exE conjE)
    fix c assume c: "c \<in> set cs" "c \<noteq> []" "take (length c) (replicate n 0xFF) = c"
    then obtain m where "c = replicate m 0xFF" "m \<noteq> 0" by (metis take_replicate replicate_0)
    then show False using that c(1) by (auto simp: list_all_iff)
  qed
  have "list_all (\<lambda>c. 0xFF \<notin> set c) space_codes" by (simp add: space_codes_def)
  moreover from this have "list_all (\<lambda>c. 0xFF \<notin> set c) (map rev space_codes)" by (simp add: list_all_iff)
  ultimately show ?thesis using f by (simp add: TrimSpace_def strip_if [of _ "replicate n 0xFF"])
qed

text \<open>43 bytes that are not UTF-8 are a good account name in memory; the file then holds 129 bytes, and no process reads it again.\<close>

theorem mangled_name_locks_out:
  "\<exists>account s f. AddAccount sample_lib (sample_env 1) (replicate 43 0xFF) zero_time \<lparr>al_MaxFlows = 0, al_MaxClients = 8\<rparr> zero_time
      (sample_store emptyStoreData) (Decoded emptyStoreData) = (Inr account, s, f) \<and> readStoreData sample_lib f = Inl (InvalidState AccountBadName)"
proof -
  define a where "a = sample_account\<lparr>ac_Name := replicate 43 0xFF\<rparr>"
  define d where "d = put_account (sample_id 1) a emptyStoreData"
  have d: "sd_Version d = 3" "sd_complete d" "sd_Accounts d = [(sample_id 1, a)]" "sd_Devices d = []" "sd_Invites d = []"
    by (simp_all add: d_def put_account_def emptyStoreData_def ProviderStateVersion_def)
  have k: "ac_ID a = sample_id 1" "ac_Name a = replicate 43 0xFF" by (simp_all add: a_def sample_account_def)
  have ok: "name_ok (replicate 43 0xFF)" by (simp add: name_ok_def trim_ff)
  have v: "valid_data sample_lib d" using sample_valid_id [of 1] ok
    by (simp add: valid_iff d ProviderStateVersion_def account_error_def k)
      (simp add: a_def sample_account_def limits_validate_def account_Limits_def maxAccountLimit_def parseStateTime_def parse_time_def)
  have e: "valid_data sample_lib emptyStoreData" "sd_Accounts emptyStoreData = []" by (simp_all add: validateStoreData_def emptyStoreData_def)
  have a: "a = \<lparr>ac_ID = sample_id 1, ac_Name = replicate 43 0xFF, ac_Enabled = True, ac_ExpiresAt = NoStamp, ac_MaxFlows = 0, ac_MaxClients = 8,
      ac_CreatedAt = format_time 1000000000000000000\<rparr>" by (simp add: a_def sample_account_def sample_now)
  have run: "AddAccount sample_lib (sample_env 1) (replicate 43 0xFF) zero_time \<lparr>al_MaxFlows = 0, al_MaxClients = 8\<rparr> zero_time
      (sample_store emptyStoreData) (Decoded emptyStoreData) = (Inr a, sample_store d, Decoded (json_data d))"
    using sample_now(3) sample_random [of 1] v e d_def [symmetric]
    by (simp add: AddAccount_def trim_ff sample_defs limits_validate_def maxAccountLimit_def a [symmetric])
  have "\<not> name_ok (json_text (ac_Name a))" by (simp add: name_ok_def k json_text_ff length_concat sum_list_replicate)
  then have "readStoreData sample_lib (Decoded (json_data d)) = Inl (InvalidState AccountBadName)" using sample_valid_id [of 1] d k
    by (simp add: readStoreData_def validateStoreData_def json_data_def ProviderStateVersion_def account_error_def)
  with run show ?thesis by blast
qed

end
