(* ===== verification/RecordLimiter.thy ===== *)
theory RecordLimiter
  imports Prelude
begin

text \<open>
  The limiter of repeated log records, \<^verbatim>\<open>internal/pep/recordlimiter.go\<close>. Time is an integer in nanoseconds; the zero time of
  a counter that never wrote is \<open>None\<close>.
\<close>

definition recordLogInterval :: int where "recordLogInterval = 10000000000"

record recordCounter =
  co_last :: "int option"
  co_suppressed :: u64
  co_total :: u64

type_synonym recordLimiter = "string \<rightharpoonup> recordCounter"

definition due :: "recordLimiter \<Rightarrow> string \<Rightarrow> int \<Rightarrow> (bool \<times> u64 \<times> u64) \<times> recordLimiter" where
  "due l key now =
     (let counter = (case l key of Some c \<Rightarrow> c | None \<Rightarrow> \<lparr>co_last = None, co_suppressed = 0, co_total = 0\<rparr>);
          c1 = counter\<lparr>co_total := co_total counter + 1\<rparr>;
          quiet = (case co_last c1 of None \<Rightarrow> False | Some previous \<Rightarrow> now - previous < recordLogInterval)
      in if quiet then ((False, 0, co_total c1), l(key \<mapsto> c1\<lparr>co_suppressed := co_suppressed c1 + 1\<rparr>))
         else ((True, co_suppressed c1, co_total c1), l(key \<mapsto> c1\<lparr>co_last := Some now, co_suppressed := 0\<rparr>)))"

fun dues :: "recordLimiter \<Rightarrow> (string \<times> int) list \<Rightarrow> (string \<times> bool \<times> u64 \<times> u64) list \<times> recordLimiter" where
  "dues l [] = ([], l)"
| "dues l ((key, now) # es) = (let (r, l1) = due l key now; (rs, l2) = dues l1 es in ((key, r) # rs, l2))"

text \<open>The events a list of answers about one label accounts for: one for each record written and those it stands for.\<close>

definition written :: "string \<Rightarrow> (string \<times> bool \<times> u64 \<times> u64) list \<Rightarrow> u64" where
  "written key rs = sum_list (map (\<lambda>(k, w, suppressed, total). if k = key \<and> w then 1 + suppressed else 0) rs)"

definition pending :: "recordLimiter \<Rightarrow> string \<Rightarrow> u64" where
  "pending l key = (case l key of None \<Rightarrow> 0 | Some c \<Rightarrow> co_suppressed c)"

definition counted :: "recordLimiter \<Rightarrow> string \<Rightarrow> u64" where
  "counted l key = (case l key of None \<Rightarrow> 0 | Some c \<Rightarrow> co_total c)"

lemma due_counts:
  "due l key now = ((w, s, t), l') \<Longrightarrow> counted l' k = counted l k + (if k = key then 1 else 0) \<and>
     (if k = key \<and> w then 1 + s else 0) + pending l' k = pending l k + (if k = key then 1 else 0) \<and> (t = counted l' key)"
  by (auto simp: due_def counted_def pending_def Let_def split: option.splits if_splits)

text \<open>No event is forgotten. For every label and any sequence of events, the records written, the events they say they stand for and the events
  suppressed since the last one add up to the events that happened, which is the total every answer reports.\<close>

theorem records_account_for_events:
  assumes "dues l es = (rs, l')"
  shows "written key rs + pending l' key = pending l key + of_nat (length (filter (\<lambda>e. fst e = key) es)) \<and>
    counted l' key = counted l key + of_nat (length (filter (\<lambda>e. fst e = key) es))"
  using assms
proof (induction es arbitrary: l rs)
  case Nil
  then show ?case by (simp add: written_def)
next
  case (Cons e es)
  obtain k now where e: "e = (k, now)" by (cases e)
  obtain w s t l1 where d: "due l k now = ((w, s, t), l1)" by (metis prod.collapse)
  obtain rs1 l2 where r: "dues l1 es = (rs1, l2)" by (cases "dues l1 es")
  have rs: "rs = (k, w, s, t) # rs1" "l2 = l'" using Cons.prems e d r by simp_all
  then show ?case using Cons.IH [OF r [unfolded rs(2)]] due_counts [OF d, of key] e by (auto simp: written_def algebra_simps)
qed

theorem records_account_for_events_witness:
  "written ''x'' (fst (dues Map.empty [(''x'', 0), (''y'', 1), (''x'', 5)])) + pending (snd (dues Map.empty [(''x'', 0), (''y'', 1), (''x'', 5)])) ''x'' = 2"
  using records_account_for_events [OF surjective_pairing, where l = Map.empty and es = "[(''x'', 0), (''y'', 1), (''x'', 5)]" and key = "''x''"] by (simp add: pending_def)

end
