(* ===== verification/Admission.thy ===== *)
theory Admission
  imports IdentityOps RecordLimiter "HOL-Library.Multiset"
begin

text \<open>
  What a gateway holds per account and per session, \<^verbatim>\<open>internal/pep/server.go\<close>: the flows and devices counted against an account's policy, the
  refusals it logs and counts, and the table of sessions. Maps are association lists with distinct keys; a flow is its address in the heap of
  flows, since the table compares pointers.
\<close>

section \<open>Accounts\<close>

record accountUsage =
  ug_flows :: int
  ug_devices :: "(bytes \<times> int) list"

type_synonym account_table = "(bytes \<times> accountUsage) list"

datatype accountRefusal = errAccountFlowLimit | errAccountClientLimit | errAccountUnauthorized

definition text_bytes :: "string \<Rightarrow> bytes" where
  "text_bytes s = map of_char s"

primrec refusal_reason :: "accountRefusal \<Rightarrow> string" where
  "refusal_reason errAccountFlowLimit = ''flow_limit''"
| "refusal_reason errAccountClientLimit = ''client_limit''"
| "refusal_reason errAccountUnauthorized = ''unauthorized''"

primrec refusal_code :: "accountRefusal \<Rightarrow> ResetCode" where
  "refusal_code errAccountFlowLimit = ResetFlowLimit"
| "refusal_code errAccountClientLimit = ResetFlowLimit"
| "refusal_code errAccountUnauthorized = ResetAuthentication"

primrec refusal_message :: "accountRefusal \<Rightarrow> string" where
  "refusal_message errAccountFlowLimit = ''account flow limit reached''"
| "refusal_message errAccountClientLimit = ''account device limit reached''"
| "refusal_message errAccountUnauthorized = ''device is not authorized''"

text \<open>A missing entry of a Go map reads as zero.\<close>

definition device_count :: "(bytes \<times> int) list \<Rightarrow> bytes \<Rightarrow> int" where
  "device_count devices k = (case map_of devices k of None \<Rightarrow> 0 | Some n \<Rightarrow> n)"

definition admitAccountFlow :: "Store \<Rightarrow> int \<Rightarrow> Principal \<Rightarrow> account_table \<Rightarrow> accountRefusal option \<times> account_table" where
  "admitAccountFlow store clock who table =
     (case Authorize clock who clock store of
        Inl _ \<Rightarrow> (Some errAccountUnauthorized, table)
      | Inr authorization \<Rightarrow>
          let limits = account_Limits (au_Account authorization);
              usage = map_of table (AccountID who);
              flows = (case usage of None \<Rightarrow> 0 | Some u \<Rightarrow> ug_flows u);
              clients = (case usage of None \<Rightarrow> 0 | Some u \<Rightarrow> int (length (ug_devices u)));
              known = (case usage of None \<Rightarrow> False | Some u \<Rightarrow> map_of (ug_devices u) (DeviceID who) \<noteq> None)
          in if al_MaxFlows limits > 0 \<and> flows \<ge> al_MaxFlows limits then (Some errAccountFlowLimit, table)
             else if al_MaxClients limits > 0 \<and> \<not> known \<and> clients \<ge> al_MaxClients limits then (Some errAccountClientLimit, table)
             else
               let u = (case usage of None \<Rightarrow> \<lparr>ug_flows = 0, ug_devices = []\<rparr> | Some u \<Rightarrow> u)
               in (None, AList.update (AccountID who)
                     \<lparr>ug_flows = ug_flows u + 1, ug_devices = AList.update (DeviceID who) (device_count (ug_devices u) (DeviceID who) + 1) (ug_devices u)\<rparr> table))"

definition releaseAccountFlow :: "Principal \<Rightarrow> account_table \<Rightarrow> account_table" where
  "releaseAccountFlow who table =
     (case map_of table (AccountID who) of
        None \<Rightarrow> table
      | Some u \<Rightarrow>
          if ug_flows u \<le> 1 then AList.delete (AccountID who) table
          else
            let n = device_count (ug_devices u) (DeviceID who);
                devices = (if n \<le> 1 then AList.delete (DeviceID who) (ug_devices u) else AList.update (DeviceID who) (n - 1) (ug_devices u))
            in AList.update (AccountID who) \<lparr>ug_flows = ug_flows u - 1, ug_devices = devices\<rparr> table)"

section \<open>Sessions\<close>

type_synonym session_table = "(bytes \<times> nat) list"

definition registerSession :: "int \<Rightarrow> bytes \<Rightarrow> nat \<Rightarrow> session_table \<Rightarrow> bool \<times> session_table" where
  "registerSession maxSessions sid flow sessions =
     (if int (length sessions) \<ge> maxSessions then (False, sessions)
      else if map_of sessions sid \<noteq> None then (False, sessions)
      else (True, AList.update sid flow sessions))"

definition lookupSession :: "bytes \<Rightarrow> session_table \<Rightarrow> nat option" where
  "lookupSession sid sessions = map_of sessions sid"

definition unregisterSession :: "bytes \<Rightarrow> nat \<Rightarrow> session_table \<Rightarrow> session_table" where
  "unregisterSession sid flow sessions = (if map_of sessions sid = Some flow then AList.delete sid sessions else sessions)"

section \<open>The table is exact\<close>

text \<open>The flows admitted and not yet released, each with its principal.\<close>

definition account_flows :: "Principal multiset \<Rightarrow> bytes \<Rightarrow> nat" where
  "account_flows live a = size (filter_mset (\<lambda>q. AccountID q = a) live)"

definition device_flows :: "Principal multiset \<Rightarrow> bytes \<Rightarrow> bytes \<Rightarrow> nat" where
  "device_flows live a k = size (filter_mset (\<lambda>q. AccountID q = a \<and> DeviceID q = k) live)"

text \<open>One account's entry: the flows of the account, and for every device of the account that holds a flow, and no other, how many it holds.\<close>

definition usage_exact :: "Principal multiset \<Rightarrow> bytes \<Rightarrow> accountUsage \<Rightarrow> bool" where
  "usage_exact live a u \<longleftrightarrow> ug_flows u = int (account_flows live a) \<and> distinct (map fst (ug_devices u)) \<and>
     (\<forall>k. map_of (ug_devices u) k = (if device_flows live a k = 0 then None else Some (int (device_flows live a k))))"

definition entry_exact :: "Principal multiset \<Rightarrow> bytes \<Rightarrow> accountUsage option \<Rightarrow> bool" where
  "entry_exact live a e = (case e of None \<Rightarrow> account_flows live a = 0 | Some u \<Rightarrow> account_flows live a > 0 \<and> usage_exact live a u)"

definition table_exact :: "Principal multiset \<Rightarrow> account_table \<Rightarrow> bool" where
  "table_exact live table \<longleftrightarrow> distinct (map fst table) \<and> (\<forall>a. entry_exact live a (map_of table a))"

lemma flows_add [simp]:
  "account_flows (add_mset q live) a = account_flows live a + (if AccountID q = a then 1 else 0)"
  "device_flows (add_mset q live) a k = device_flows live a k + (if AccountID q = a \<and> DeviceID q = k then 1 else 0)"
  by (simp_all add: account_flows_def device_flows_def)

lemma flows_empty [simp]: "account_flows {#} a = 0" "device_flows {#} a k = 0"
  by (simp_all add: account_flows_def device_flows_def)

lemma device_flows_le: "device_flows live a k \<le> account_flows live a"
  by (induction live) (auto simp: account_flows_def device_flows_def)

lemma table_entry:
  assumes "table_exact live t" "map_of t a = Some u"
  shows "account_flows live a > 0 \<and> usage_exact live a u"
proof -
  have "entry_exact live a (map_of t a)" using assms(1) by (simp add: table_exact_def)
  then show ?thesis by (simp add: assms(2) entry_exact_def)
qed

lemma table_no_entry:
  assumes "table_exact live t" "map_of t a = None"
  shows "account_flows live a = 0"
proof -
  have "entry_exact live a (map_of t a)" using assms(1) by (simp add: table_exact_def)
  then show ?thesis by (simp add: assms(2) entry_exact_def)
qed

lemma count_exact: "usage_exact live a u \<Longrightarrow> device_count (ug_devices u) k = int (device_flows live a k)"
  by (auto simp: usage_exact_def device_count_def)

text \<open>Changing one account's entry.\<close>

lemma entry_other:
  "account_flows live' b = account_flows live b \<and> (\<forall>k. device_flows live' b k = device_flows live b k) \<Longrightarrow> entry_exact live' b e = entry_exact live b e"
  by (simp add: entry_exact_def usage_exact_def split: option.split)

lemma table_update:
  assumes "table_exact live t" "\<And>b. b \<noteq> a \<Longrightarrow> account_flows live' b = account_flows live b \<and> (\<forall>k. device_flows live' b k = device_flows live b k)"
    and "account_flows live' a > 0" "usage_exact live' a u"
  shows "table_exact live' (AList.update a u t)"
proof -
  have "entry_exact live' b (map_of (AList.update a u t) b)" for b
    using assms(1,3,4) entry_other [OF assms(2)] by (cases "b = a") (simp_all add: update_conv' table_exact_def, simp add: entry_exact_def)
  then show ?thesis using assms(1) by (simp add: table_exact_def distinct_update)
qed

lemma table_delete:
  assumes "table_exact live t" "\<And>b. b \<noteq> a \<Longrightarrow> account_flows live' b = account_flows live b \<and> (\<forall>k. device_flows live' b k = device_flows live b k)"
    and "account_flows live' a = 0"
  shows "table_exact live' (AList.delete a t)"
proof -
  have "entry_exact live' b (map_of (AList.delete a t) b)" for b
    using assms(1,3) entry_other [OF assms(2)] by (cases "b = a") (simp_all add: delete_conv' table_exact_def, simp add: entry_exact_def)
  then show ?thesis using assms(1) by (simp add: table_exact_def distinct_delete)
qed

lemma admit_exact:
  assumes "table_exact live t" "admitAccountFlow store clock who t = (None, t')"
  shows "table_exact (add_mset who live) t'"
proof -
  define u where "u = (case map_of t (AccountID who) of None \<Rightarrow> \<lparr>ug_flows = 0, ug_devices = []\<rparr> | Some u \<Rightarrow> u)"
  have u: "usage_exact live (AccountID who) u"
  proof (cases "map_of t (AccountID who)")
    case None
    with table_no_entry [OF assms(1) None] device_flows_le [of live "AccountID who"] show ?thesis by (simp add: u_def usage_exact_def)
  next
    case (Some v)
    with table_entry [OF assms(1) Some] show ?thesis by (simp add: u_def)
  qed
  have t': "t' = AList.update (AccountID who)
      \<lparr>ug_flows = ug_flows u + 1, ug_devices = AList.update (DeviceID who) (device_count (ug_devices u) (DeviceID who) + 1) (ug_devices u)\<rparr> t"
    using assms(2) by (auto simp: admitAccountFlow_def Let_def u_def split: sum.splits if_splits)
  show ?thesis unfolding t'
  proof (rule table_update [OF assms(1)])
    show "usage_exact (add_mset who live) (AccountID who)
        \<lparr>ug_flows = ug_flows u + 1, ug_devices = AList.update (DeviceID who) (device_count (ug_devices u) (DeviceID who) + 1) (ug_devices u)\<rparr>"
      using u count_exact [OF u] by (auto simp: usage_exact_def distinct_update update_conv')
  qed auto
qed

lemma release_exact:
  assumes "table_exact (add_mset who live) t"
  shows "table_exact live (releaseAccountFlow who t)"
proof -
  let ?a = "AccountID who"
  obtain u where u: "map_of t ?a = Some u" using table_no_entry [OF assms, of ?a] by (cases "map_of t ?a") auto
  have e: "usage_exact (add_mset who live) ?a u" using table_entry [OF assms u] by simp
  show ?thesis
  proof (cases "ug_flows u \<le> 1")
    case True
    then have "account_flows live ?a = 0" using e by (simp add: usage_exact_def)
    then have "table_exact live (AList.delete ?a t)" by (intro table_delete [OF assms]) auto
    then show ?thesis using True u by (simp add: releaseAccountFlow_def)
  next
    case False
    define n where "n = device_count (ug_devices u) (DeviceID who)"
    define devices where "devices = (if n \<le> 1 then AList.delete (DeviceID who) (ug_devices u) else AList.update (DeviceID who) (n - 1) (ug_devices u))"
    have n: "n = int (device_flows live ?a (DeviceID who)) + 1" using count_exact [OF e] by (simp add: n_def)
    have "usage_exact live ?a \<lparr>ug_flows = ug_flows u - 1, ug_devices = devices\<rparr>"
      using e n by (auto simp: usage_exact_def devices_def distinct_delete distinct_update delete_conv' update_conv')
    moreover have "account_flows live ?a > 0" using False e by (simp add: usage_exact_def)
    ultimately have "table_exact live (AList.update ?a \<lparr>ug_flows = ug_flows u - 1, ug_devices = devices\<rparr> t)" by (intro table_update [OF assms]) auto
    then show ?thesis using False u by (simp add: releaseAccountFlow_def Let_def n_def [symmetric] devices_def [symmetric])
  qed
qed

lemma clients_exact:
  assumes "usage_exact live a u"
  shows "length (ug_devices u) = card (DeviceID ` {q. q \<in># live \<and> AccountID q = a})"
proof -
  have "dom (map_of (ug_devices u)) = DeviceID ` {q. q \<in># live \<and> AccountID q = a}"
  proof -
    have "device_flows live a k = 0 \<longleftrightarrow> k \<notin> DeviceID ` {q. q \<in># live \<and> AccountID q = a}" for k
      by (auto simp: device_flows_def filter_mset_eq_mempty_iff)
    then have "k \<in> dom (map_of (ug_devices u)) \<longleftrightarrow> k \<in> DeviceID ` {q. q \<in># live \<and> AccountID q = a}" for k
      using assms by (simp add: usage_exact_def domIff)
    then show ?thesis by blast
  qed
  moreover have "card (dom (map_of (ug_devices u))) = length (ug_devices u)"
    using assms distinct_card [of "map fst (ug_devices u)"] by (simp add: usage_exact_def dom_map_of_conv_image_fst)
  ultimately show ?thesis by simp
qed

section \<open>Admission over time\<close>

text \<open>Flows open and end in any order. The authorization snapshot changes between openings, so each opening has its own.\<close>

inductive admission_reach :: "Principal multiset \<Rightarrow> account_table \<Rightarrow> bool" where
  start: "admission_reach {#} []"
| admit: "admission_reach live t \<Longrightarrow> admitAccountFlow store clock who t = (None, t') \<Longrightarrow> admission_reach (add_mset who live) t'"
| refuse: "admission_reach live t \<Longrightarrow> admitAccountFlow store clock who t = (Some r, t') \<Longrightarrow> admission_reach live t'"
| release: "admission_reach (add_mset who live) t \<Longrightarrow> admission_reach live (releaseAccountFlow who t)"

lemma admission_exact: "admission_reach live t \<Longrightarrow> table_exact live t"
proof (induction rule: admission_reach.induct)
  case start
  then show ?case by (simp add: table_exact_def entry_exact_def account_flows_def)
next
  case (admit live t store clock who t')
  then show ?case by (blast intro: admit_exact)
next
  case (refuse live t store clock who r t')
  then have "t' = t" by (auto simp: admitAccountFlow_def Let_def split: sum.splits if_splits)
  with refuse show ?case by simp
next
  case (release who live t)
  then show ?case by (blast intro: release_exact)
qed

text \<open>Exact accounting. However flows open, are refused and end, an account's entry counts exactly the flows its devices hold and names
  exactly the devices that hold one, each with its number, and an account that holds nothing has no entry.\<close>

theorem account_usage_exact:
  assumes "admission_reach live t"
  shows "case map_of t a of None \<Rightarrow> account_flows live a = 0
    | Some u \<Rightarrow> ug_flows u = int (account_flows live a) \<and> account_flows live a > 0 \<and>
        (\<forall>k. device_count (ug_devices u) k = int (device_flows live a k)) \<and> length (ug_devices u) = card (DeviceID ` {q. q \<in># live \<and> AccountID q = a})"
proof (cases "map_of t a")
  case None
  then show ?thesis using table_no_entry [OF admission_exact [OF assms]] by simp
next
  case (Some u)
  from table_entry [OF admission_exact [OF assms] Some] show ?thesis using Some count_exact [of live a u] clients_exact [of live a u] by (simp add: usage_exact_def)
qed

text \<open>Limits respected. A flow is admitted only for a device that is authorized at that moment; with it the account holds at most
  \<^verbatim>\<open>MaxFlows\<close> flows, and either the device already held one or at most \<^verbatim>\<open>MaxClients\<close> devices hold one now (a limit of
  zero is no limit).\<close>

theorem admission_within_limits:
  assumes "admission_reach live t" "admitAccountFlow store clock who t = (None, t')"
  shows "\<exists>auth. Authorize clock who clock store = Inr auth \<and>
    (ac_MaxFlows (au_Account auth) \<le> 0 \<or> int (account_flows (add_mset who live) (AccountID who)) \<le> ac_MaxFlows (au_Account auth)) \<and>
    (ac_MaxClients (au_Account auth) \<le> 0 \<or> device_flows live (AccountID who) (DeviceID who) > 0 \<or>
       int (card (DeviceID ` {q. q \<in># add_mset who live \<and> AccountID q = AccountID who})) \<le> ac_MaxClients (au_Account auth))"
proof -
  let ?a = "AccountID who" and ?D = "DeviceID ` {q. q \<in># live \<and> AccountID q = AccountID who}"
  from assms(2) obtain auth where auth: "Authorize clock who clock store = Inr auth" by (auto simp: admitAccountFlow_def split: sum.splits)
  have ex: "table_exact live t" by (rule admission_exact [OF assms(1)])
  have f: "(case map_of t ?a of None \<Rightarrow> 0 | Some u \<Rightarrow> ug_flows u) = int (account_flows live ?a)"
    using table_no_entry [OF ex, of ?a] table_entry [OF ex, of ?a] by (auto simp: usage_exact_def split: option.splits)
  have none: "?D = {}" if "map_of t ?a = None" using table_no_entry [OF ex that] by (auto simp: account_flows_def)
  have c: "(case map_of t ?a of None \<Rightarrow> 0 | Some u \<Rightarrow> int (length (ug_devices u))) = int (card ?D)"
    using none table_entry [OF ex, of ?a] clients_exact [of live ?a] by (auto split: option.splits)
  have k: "(case map_of t ?a of None \<Rightarrow> False | Some u \<Rightarrow> map_of (ug_devices u) (DeviceID who) \<noteq> None) \<longrightarrow> device_flows live ?a (DeviceID who) > 0"
    using table_entry [OF ex, of ?a] by (auto simp: usage_exact_def split: option.splits if_splits)
  have "card (DeviceID ` {q. q \<in># add_mset who live \<and> AccountID q = ?a}) \<le> card ?D + 1"
  proof -
    have "DeviceID ` {q. q \<in># add_mset who live \<and> AccountID q = ?a} = insert (DeviceID who) ?D" by auto
    then show ?thesis by (simp add: card_insert_le_m1 card_insert_if)
  qed
  then show ?thesis using assms(2) auth f c k
    by (auto simp: admitAccountFlow_def Let_def account_Limits_def simp del: option.case_eq_if split: if_splits)
qed

section \<open>A policy over time\<close>

text \<open>
  The runs in which, whenever a flow of account \<open>a\<close> is admitted, the policy in force for it is at most \<open>maxFlows\<close> flows and \<open>maxClients\<close> devices: the policy
  may change, within these. A policy that is lowered ends no flow, so the bound of a run is the largest in force at an admission.
\<close>

definition policy_within :: "bytes \<Rightarrow> int \<Rightarrow> int \<Rightarrow> Store \<Rightarrow> int \<Rightarrow> Principal \<Rightarrow> bool" where
  "policy_within a maxFlows maxClients store clock who \<longleftrightarrow> (AccountID who = a \<longrightarrow>
     (case Authorize clock who clock store of Inl _ \<Rightarrow> True
      | Inr auth \<Rightarrow> 0 < ac_MaxFlows (au_Account auth) \<and> ac_MaxFlows (au_Account auth) \<le> maxFlows \<and>
          0 < ac_MaxClients (au_Account auth) \<and> ac_MaxClients (au_Account auth) \<le> maxClients))"

inductive admission_under :: "bytes \<Rightarrow> int \<Rightarrow> int \<Rightarrow> Principal multiset \<Rightarrow> account_table \<Rightarrow> bool" for a maxFlows maxClients where
  fresh_table: "admission_under a maxFlows maxClients {#} []"
| under: "admission_under a maxFlows maxClients live t \<Longrightarrow> policy_within a maxFlows maxClients store clock who \<Longrightarrow>
    admitAccountFlow store clock who t = (None, t') \<Longrightarrow> admission_under a maxFlows maxClients (add_mset who live) t'"
| refused: "admission_under a maxFlows maxClients live t \<Longrightarrow> admitAccountFlow store clock who t = (Some r, t') \<Longrightarrow> admission_under a maxFlows maxClients live t'"
| released: "admission_under a maxFlows maxClients (add_mset who live) t \<Longrightarrow> admission_under a maxFlows maxClients live (releaseAccountFlow who t)"

lemma under_reach: "admission_under a maxFlows maxClients live t \<Longrightarrow> admission_reach live t"
  by (induction rule: admission_under.induct) (blast intro: admission_reach.intros)+

abbreviation account_devices :: "Principal multiset \<Rightarrow> bytes \<Rightarrow> bytes set" where
  "account_devices live a \<equiv> DeviceID ` {q. q \<in># live \<and> AccountID q = a}"

lemma under_bounds:
  assumes "admission_under a maxFlows maxClients live t" "0 \<le> maxFlows" "0 \<le> maxClients"
  shows "int (account_flows live a) \<le> maxFlows \<and> int (card (account_devices live a)) \<le> maxClients"
  using assms
proof (induction rule: admission_under.induct)
  case fresh_table
  then show ?case by (simp add: account_flows_def)
next
  case (under live t store clock who t')
  show ?case
  proof (cases "AccountID who = a")
    case False
    then have "account_devices (add_mset who live) a = account_devices live a" by auto
    then show ?thesis using False under by (simp add: account_flows_def)
  next
    case True
    from admission_within_limits [OF under_reach [OF under(1)] under(3)] obtain auth where
      auth: "Authorize clock who clock store = Inr auth"
      and f: "ac_MaxFlows (au_Account auth) \<le> 0 \<or> int (account_flows (add_mset who live) a) \<le> ac_MaxFlows (au_Account auth)"
      and c: "ac_MaxClients (au_Account auth) \<le> 0 \<or> device_flows live a (DeviceID who) > 0 \<or> int (card (account_devices (add_mset who live) a)) \<le> ac_MaxClients (au_Account auth)"
      unfolding True by blast
    have b: "0 < ac_MaxFlows (au_Account auth)" "ac_MaxFlows (au_Account auth) \<le> maxFlows" "0 < ac_MaxClients (au_Account auth)" "ac_MaxClients (au_Account auth) \<le> maxClients"
      using under(2) True auth by (simp_all add: policy_within_def)
    have "account_devices (add_mset who live) a = account_devices live a" if "device_flows live a (DeviceID who) > 0"
      using that True by (fastforce simp: device_flows_def image_iff dest!: gr0_implies_Suc size_eq_Suc_imp_elem)
    then have "int (card (account_devices (add_mset who live) a)) \<le> maxClients" using c b under by auto
    then show ?thesis using f b by simp
  qed
next
  case (released who live t)
  have "account_devices live a \<subseteq> account_devices (add_mset who live) a" by auto
  moreover have "finite (account_devices (add_mset who live) a)" by (rule finite_subset [of _ "DeviceID ` set_mset (add_mset who live)"]) auto
  ultimately have "card (account_devices live a) \<le> card (account_devices (add_mset who live) a)" by (rule card_mono [rotated])
  moreover have "account_flows live a \<le> account_flows (add_mset who live) a" by (simp add: account_flows_def)
  ultimately show ?case using released by linarith
qed simp

text \<open>C29: An account stays within its policy. In every run in which the policy in force at each admission of the account allows at most so many flows and so many devices, however often it changes
  within that, the account never holds more flows, its flows never come from more devices, and its entry never counts more of either.\<close>

theorem account_within_policy:
  assumes "admission_under a maxFlows maxClients live t" "0 \<le> maxFlows" "0 \<le> maxClients"
  shows "int (account_flows live a) \<le> maxFlows \<and> int (card (account_devices live a)) \<le> maxClients \<and>
    (case map_of t a of None \<Rightarrow> True | Some u \<Rightarrow> ug_flows u \<le> maxFlows \<and> int (length (ug_devices u)) \<le> maxClients)"
proof -
  note b = under_bounds [OF assms] and ex = admission_exact [OF under_reach [OF assms(1)]]
  have "ug_flows u \<le> maxFlows \<and> int (length (ug_devices u)) \<le> maxClients" if "map_of t a = Some u" for u
    using table_entry [OF ex that] clients_exact [of live a u] b by (simp add: usage_exact_def)
  then show ?thesis using b by (simp split: option.split)
qed

definition one_account :: Account where
  "one_account = \<lparr>ac_ID = [1], ac_Name = [97], ac_Enabled = True, ac_ExpiresAt = NoStamp, ac_MaxFlows = 2, ac_MaxClients = 1, ac_CreatedAt = Stamp 0\<rparr>"

definition one_device :: Device where
  "one_device = \<lparr>dv_ID = [2], dv_AccountID = [1], dv_Name = [98], dv_PublicKey = EncodeToString [9], dv_Enabled = True, dv_CreatedAt = Stamp 0, dv_RevokedAt = NoStamp\<rparr>"

definition one_store :: Store where
  "one_store = \<lparr>st_data = \<lparr>sd_Version = 3, sd_complete = True, sd_Accounts = [([1], one_account)], sd_Devices = [([2], one_device)], sd_Invites = []\<rparr>, st_lastGoodAt = Some 0\<rparr>"

definition one_principal :: Principal where
  "one_principal = \<lparr>ProviderID = [7], AccountID = [1], DeviceID = [2], PublicKey = [9]\<rparr>"

definition one_table :: account_table where
  "one_table = [([1], \<lparr>ug_flows = 1, ug_devices = [([2], 1)]\<rparr>)]"

lemma one_authorized: "Authorize clock one_principal now one_store = Inr \<lparr>au_Account = one_account, au_Device = one_device\<rparr>"
  by (simp add: Authorize_def one_store_def one_principal_def one_account_def one_device_def expired_def)

lemma one_admitted: "admitAccountFlow one_store clock one_principal [] = (None, one_table)"
  unfolding admitAccountFlow_def one_authorized
  by (simp add: account_Limits_def one_account_def one_principal_def one_table_def device_count_def)

lemma one_reach: "admission_reach {#one_principal#} one_table"
  using admission_reach.admit [OF admission_reach.start one_admitted] by simp

theorem account_usage_exact_witness:
  "map_of one_table [1] = Some \<lparr>ug_flows = 1, ug_devices = [([2], 1)]\<rparr> \<and> int (account_flows {#one_principal#} [1]) = 1 \<and> device_flows {#one_principal#} [1] [2] = 1"
  using account_usage_exact [OF one_reach, of "[1]"] by (auto simp: one_table_def device_count_def one_principal_def)

theorem admission_within_limits_witness:
  "admitAccountFlow one_store 5 one_principal one_table = (None, [([1], \<lparr>ug_flows = 2, ug_devices = [([2], 2)]\<rparr>)]) \<and>
     int (account_flows {#one_principal, one_principal#} [1]) \<le> 2"
proof -
  have r: "admitAccountFlow one_store 5 one_principal one_table = (None, [([1], \<lparr>ug_flows = 2, ug_devices = [([2], 2)]\<rparr>)])"
    unfolding admitAccountFlow_def one_authorized
    by (simp add: account_Limits_def one_account_def one_principal_def one_table_def device_count_def)
  from admission_within_limits [OF one_reach r] show ?thesis using r by (auto simp: one_authorized one_account_def)
qed

theorem account_within_policy_witness: "map_of one_table [1] = Some \<lparr>ug_flows = 1, ug_devices = [([2], 1)]\<rparr> \<and> int (account_flows {#one_principal#} [1]) \<le> 2"
proof -
  have "policy_within [1] 2 1 one_store 5 one_principal" by (simp add: policy_within_def one_authorized one_account_def)
  from admission_under.under [OF admission_under.fresh_table this one_admitted] have "admission_under [1] 2 1 {#one_principal#} one_table" by simp
  from account_within_policy [OF this] show ?thesis by (simp add: one_table_def)
qed

end
