(* ===== verification/Destination.thy ===== *)
theory Destination
  imports NetAddr
begin

text \<open>
  Which destinations the server dials, \<^verbatim>\<open>internal/pep/destination.go\<close>. The resolver and the dialer are arguments:
  \<open>lookup\<close> gives the addresses of a name or fails, \<open>dial\<close> gives a connection for an address or fails. What was
  handed to the dialer is returned beside the result.
\<close>

record DestinationPolicy =
  AllowPrivate :: bool
  DialTimeout :: int

definition v6_addr :: "nat list \<Rightarrow> bytes" where
  "v6_addr gs = concat (map (\<lambda>g. [word_of_nat (g div 256), word_of_nat (g mod 256)]) gs)"

definition additionallyForbidden :: "(bytes \<times> nat) list" where
  "additionallyForbidden =
     [([0, 0, 0, 0], 8), ([100, 64, 0, 0], 10), ([192, 0, 0, 0], 24), ([192, 0, 2, 0], 24), ([192, 88, 99, 0], 24), ([198, 18, 0, 0], 15),
      ([198, 51, 100, 0], 24), ([203, 0, 113, 0], 24), ([240, 0, 0, 0], 4),
      (v6_addr [0x64, 0xff9b, 0, 0, 0, 0, 0, 0], 96), (v6_addr [0x64, 0xff9b, 1, 0, 0, 0, 0, 0], 48), (v6_addr [0x2002, 0, 0, 0, 0, 0, 0, 0], 16),
      (v6_addr [0x100, 0, 0, 0, 0, 0, 0, 0], 64), (v6_addr [0x100, 0, 0, 1, 0, 0, 0, 0], 64), (v6_addr [0x2001, 2, 0, 0, 0, 0, 0, 0], 48),
      (v6_addr [0x2001, 0x10, 0, 0, 0, 0, 0, 0], 28), (v6_addr [0x2001, 0xdb8, 0, 0, 0, 0, 0, 0], 32), (v6_addr [0x3fff, 0, 0, 0, 0, 0, 0, 0], 20),
      (v6_addr [0x5f00, 0, 0, 0, 0, 0, 0, 0], 16)]"

definition publicDestinationIP :: "bytes \<Rightarrow> bool" where
  "publicDestinationIP ip =
     (if length ip \<noteq> 4 \<and> length ip \<noteq> 16 then False
      else
        let addr = Unmap ip in
        if \<not> IsGlobalUnicast addr \<or> IsPrivate addr \<or> IsLoopback addr \<or> IsLinkLocalUnicast addr \<or> IsLinkLocalMulticast addr \<or>
           IsMulticast addr \<or> IsUnspecified addr then False
        else \<not> list_ex (\<lambda>prefix. prefix_Contains prefix addr) additionallyForbidden)"

datatype destination_error = BadDestination | BadPort | ResolutionFailed | NotResolved | NotPublic | DialFailed | NotPublicOrResolved

definition parseDestination :: "bytes \<Rightarrow> destination_error + (bytes \<times> int)" where
  "parseDestination destination =
     (case SplitHostPort destination of
        None \<Rightarrow> Inl BadDestination
      | Some (host, portText) \<Rightarrow>
          if host = [] then Inl BadDestination
          else (case Atoi portText of
                  None \<Rightarrow> Inl BadPort
                | Some port \<Rightarrow> if port < 1 \<or> port > 65535 then Inl BadPort else Inr (host, port)))"

definition destination_addresses :: "(bytes \<Rightarrow> bytes list option) \<Rightarrow> bytes \<Rightarrow> bytes list option" where
  "destination_addresses lookup host = (case ParseIP host of Some ip \<Rightarrow> Some [ip] | None \<Rightarrow> lookup host)"

text \<open>The loop over the candidates; \<open>lastErr\<close> is the reason the last one failed.\<close>

fun dial_loop :: "DestinationPolicy \<Rightarrow> (bytes \<Rightarrow> 'c option) \<Rightarrow> int \<Rightarrow> bytes list \<Rightarrow> bytes list \<Rightarrow> destination_error \<Rightarrow> (destination_error + 'c) \<times> bytes list" where
  "dial_loop p dial port [] dialed lastErr = (Inl lastErr, dialed)"
| "dial_loop p dial port (ip # ips) dialed lastErr =
     (if \<not> AllowPrivate p \<and> \<not> publicDestinationIP ip then dial_loop p dial port ips dialed NotPublic
      else
        let address = JoinHostPort (ip_String ip) (Itoa port) in
        case dial address of
          Some conn \<Rightarrow> (Inr conn, dialed @ [address])
        | None \<Rightarrow> dial_loop p dial port ips (dialed @ [address]) DialFailed)"

definition DialContext :: "DestinationPolicy \<Rightarrow> (bytes \<Rightarrow> bytes list option) \<Rightarrow> (bytes \<Rightarrow> 'c option) \<Rightarrow> bytes \<Rightarrow> (destination_error + 'c) \<times> bytes list" where
  "DialContext p lookup dial destination =
     (case parseDestination destination of
        Inl err \<Rightarrow> (Inl err, [])
      | Inr (host, port) \<Rightarrow>
          (case destination_addresses lookup host of
             None \<Rightarrow> (Inl ResolutionFailed, [])
           | Some addresses \<Rightarrow>
               if addresses = [] then (Inl NotResolved, []) else dial_loop p dial port addresses [] DialFailed))"

definition ResolveUDPAddr :: "DestinationPolicy \<Rightarrow> (bytes \<Rightarrow> bytes list option) \<Rightarrow> bytes \<Rightarrow> destination_error + (bytes \<times> int) list" where
  "ResolveUDPAddr p lookup destination =
     (case parseDestination destination of
        Inl err \<Rightarrow> Inl err
      | Inr (host, port) \<Rightarrow>
          (case destination_addresses lookup host of
             None \<Rightarrow> Inl ResolutionFailed
           | Some addresses \<Rightarrow>
               let result = map (\<lambda>ip. (ip, port)) (filter (\<lambda>ip. AllowPrivate p \<or> publicDestinationIP ip) addresses)
               in if result = [] then Inl NotPublicOrResolved else Inr result))"

section \<open>The public IPv4 addresses\<close>

text \<open>The special-purpose IPv4 blocks, by their first and last address.\<close>

definition v4_num :: "nat \<Rightarrow> nat \<Rightarrow> nat \<Rightarrow> nat \<Rightarrow> nat" where
  "v4_num a b c d = ((a * 256 + b) * 256 + c) * 256 + d"

definition special_v4 :: "(nat \<times> nat) list" where
  "special_v4 =
     [(v4_num 0 0 0 0, v4_num 0 255 255 255), (v4_num 10 0 0 0, v4_num 10 255 255 255), (v4_num 100 64 0 0, v4_num 100 127 255 255),
      (v4_num 127 0 0 0, v4_num 127 255 255 255), (v4_num 169 254 0 0, v4_num 169 254 255 255), (v4_num 172 16 0 0, v4_num 172 31 255 255),
      (v4_num 192 0 0 0, v4_num 192 0 0 255), (v4_num 192 0 2 0, v4_num 192 0 2 255), (v4_num 192 88 99 0, v4_num 192 88 99 255),
      (v4_num 192 168 0 0, v4_num 192 168 255 255), (v4_num 198 18 0 0, v4_num 198 19 255 255), (v4_num 198 51 100 0, v4_num 198 51 100 255),
      (v4_num 203 0 113 0, v4_num 203 0 113 255), (v4_num 224 0 0 0, v4_num 255 255 255 255)]"

lemma high_nibble: "(b AND 0xF0 = (k :: byte)) \<longleftrightarrow> push_bit 4 (drop_bit 4 b) = k"
proof -
  have "(0xF0 :: byte) = NOT (mask 4)" by (simp add: mask_eq_decr_exp)
  moreover have "b AND NOT (mask 4) = push_bit 4 (drop_bit 4 b)" by (rule bit_eqI) (auto simp: bit_simps)
  ultimately show ?thesis by simp
qed

lemma byte_less [simp]: "unat (b :: byte) < 256"
  using unsigned_less [of b, where ?'a = nat] by simp

lemma byte_eq: "k < 256 \<Longrightarrow> (b :: byte) = word_of_nat k \<longleftrightarrow> unat b = k"
  by (auto simp: unat_of_nat)

lemma high_nibble_nat: "k < 16 \<Longrightarrow> (b AND 0xF0 = (word_of_nat (16 * k) :: byte)) \<longleftrightarrow> unat b div 16 = k"
proof -
  assume k: "k < 16"
  have "unat (push_bit 4 (drop_bit 4 b)) = take_bit 8 (push_bit 4 (drop_bit 4 (unat b)))"
    by (simp only: unsigned_push_bit_eq unsigned_drop_bit_eq) (simp add: take_bit_nat_eq_self)
  also have "\<dots> = 16 * (unat b div 16)" 
  proof -
    have "unat b div 16 * 16 < 256" using div_times_less_eq_dividend [of "unat b" 16] byte_less [of b] by linarith
    then show ?thesis by (simp add: push_bit_eq_mult drop_bit_eq_div take_bit_eq_mod)
  qed
  finally have "unat (push_bit 4 (drop_bit 4 b)) = 16 * (unat b div 16)" .
  then show ?thesis unfolding high_nibble using byte_eq [of "16 * k"] k by simp
qed

lemma same_block:
  fixes n :: nat
  shows "(q * 2 ^ k) div 2 ^ k = n div 2 ^ k \<longleftrightarrow> q * 2 ^ k \<le> n \<and> n < (q + 1) * 2 ^ k"
proof -
  have "(q * 2 ^ k) div 2 ^ k = q" by simp
  moreover have "q = n div 2 ^ k \<longleftrightarrow> q * 2 ^ k \<le> n \<and> n < (q + 1) * 2 ^ k"
    using div_nat_eqI [of "2 ^ k" q n] div_times_less_eq_dividend [of n "2 ^ k"] dividend_less_div_times [of "2 ^ k" n] by (auto simp: algebra_simps)
  ultimately show ?thesis by simp
qed

lemma block_v4:
  assumes "addr_num p = q * 2 ^ (32 - s)" "length p = 4" "length ip = 4" "s \<le> 32"
  shows "prefix_Contains (p, s) ip \<longleftrightarrow> addr_num p \<le> addr_num ip \<and> addr_num ip < (q + 1) * 2 ^ (32 - s)"
  using same_block [of q "32 - s" "addr_num ip"] assms by (simp add: prefix_Contains_def)

lemma v6_length: "length (v6_addr gs) = 2 * length gs"
  by (induction gs) (simp_all add: v6_addr_def)

lemma forbidden_v4:
  assumes ip: "length ip = 4" and n: "addr_num ip = n"
  shows "list_ex (\<lambda>p. prefix_Contains p ip) additionallyForbidden \<longleftrightarrow>
    0 \<le> n \<and> n < 16777216 \<or>
    1681915904 \<le> n \<and> n < 1686110208 \<or>
    3221225472 \<le> n \<and> n < 3221225728 \<or>
    3221225984 \<le> n \<and> n < 3221226240 \<or>
    3227017984 \<le> n \<and> n < 3227018240 \<or>
    3323068416 \<le> n \<and> n < 3323199488 \<or>
    3325256704 \<le> n \<and> n < 3325256960 \<or>
    3405803776 \<le> n \<and> n < 3405804032 \<or>
    4026531840 \<le> n \<and> n < 4294967296"
proof -
  have c0: "prefix_Contains ([0, 0, 0, 0], 8) ip \<longleftrightarrow> 0 \<le> n \<and> n < 16777216" using block_v4 [of "[0, 0, 0, 0]" 0 8 ip] ip n by (simp add: addr_num_def)
  have c1: "prefix_Contains ([100, 64, 0, 0], 10) ip \<longleftrightarrow> 1681915904 \<le> n \<and> n < 1686110208" using block_v4 [of "[100, 64, 0, 0]" 401 10 ip] ip n by (simp add: addr_num_def)
  have c2: "prefix_Contains ([192, 0, 0, 0], 24) ip \<longleftrightarrow> 3221225472 \<le> n \<and> n < 3221225728" using block_v4 [of "[192, 0, 0, 0]" 12582912 24 ip] ip n by (simp add: addr_num_def)
  have c3: "prefix_Contains ([192, 0, 2, 0], 24) ip \<longleftrightarrow> 3221225984 \<le> n \<and> n < 3221226240" using block_v4 [of "[192, 0, 2, 0]" 12582914 24 ip] ip n by (simp add: addr_num_def)
  have c4: "prefix_Contains ([192, 88, 99, 0], 24) ip \<longleftrightarrow> 3227017984 \<le> n \<and> n < 3227018240" using block_v4 [of "[192, 88, 99, 0]" 12605539 24 ip] ip n by (simp add: addr_num_def)
  have c5: "prefix_Contains ([198, 18, 0, 0], 15) ip \<longleftrightarrow> 3323068416 \<le> n \<and> n < 3323199488" using block_v4 [of "[198, 18, 0, 0]" 25353 15 ip] ip n by (simp add: addr_num_def)
  have c6: "prefix_Contains ([198, 51, 100, 0], 24) ip \<longleftrightarrow> 3325256704 \<le> n \<and> n < 3325256960" using block_v4 [of "[198, 51, 100, 0]" 12989284 24 ip] ip n by (simp add: addr_num_def)
  have c7: "prefix_Contains ([203, 0, 113, 0], 24) ip \<longleftrightarrow> 3405803776 \<le> n \<and> n < 3405804032" using block_v4 [of "[203, 0, 113, 0]" 13303921 24 ip] ip n by (simp add: addr_num_def)
  have c8: "prefix_Contains ([240, 0, 0, 0], 4) ip \<longleftrightarrow> 4026531840 \<le> n \<and> n < 4294967296" using block_v4 [of "[240, 0, 0, 0]" 15 4 ip] ip n by (simp add: addr_num_def)
  have v6: "\<not> prefix_Contains (v6_addr [g0, g1, g2, g3, g4, g5, g6, g7], s) ip" for g0 g1 g2 g3 g4 g5 g6 g7 s
    using ip v6_length [of "[g0, g1, g2, g3, g4, g5, g6, g7]"] by (simp add: prefix_Contains_def)
  show ?thesis by (simp add: additionallyForbidden_def c0 c1 c2 c3 c4 c5 c6 c7 c8 v6)
qed

lemma replicate_4: "replicate 4 x = [x, x, x, x]"
  by (simp add: numeral_eq_Suc)

lemma div16_iff: "x div 16 = k \<longleftrightarrow> 16 * k \<le> x \<and> x < 16 * k + 16" for x k :: nat
proof -
  have "x = x div 16 * 16 + x mod 16" "x mod 16 < 16" by simp_all
  then show ?thesis by linarith
qed

lemma class_v4:
  assumes lt: "A < 256" "B < 256" "C < 256" "D < 256" and n: "n = v4_num A B C D"
  shows "A = k \<longleftrightarrow> k * 16777216 \<le> n \<and> n < (k + 1) * 16777216"
    "j < 256 \<Longrightarrow> A = k \<and> B = j \<longleftrightarrow> k * 16777216 + j * 65536 \<le> n \<and> n < k * 16777216 + (j + 1) * 65536"
    "j < 16 \<Longrightarrow> A = k \<and> B div 16 = j \<longleftrightarrow> k * 16777216 + j * 1048576 \<le> n \<and> n < k * 16777216 + (j + 1) * 1048576"
    "A div 16 = k \<longleftrightarrow> k * 268435456 \<le> n \<and> n < (k + 1) * 268435456"
proof -
  have n': "n = A * 16777216 + B * 65536 + C * 256 + D" by (simp add: n v4_num_def)
  show "A = k \<longleftrightarrow> k * 16777216 \<le> n \<and> n < (k + 1) * 16777216" using lt n' by (auto; linarith)
  have "A = k \<and> B = j \<longleftrightarrow> A * 256 + B = k * 256 + j" if "j < 256"
  proof -
    have "(x * 256 + y) div 256 = x \<and> (x * 256 + y) mod 256 = y" if "y < 256" for x y :: nat using that by simp
    from this [of B A] this [of j k] show ?thesis using lt(2) \<open>j < 256\<close> by metis
  qed
  moreover have "A * 256 + B = m \<longleftrightarrow> m * 65536 \<le> n \<and> n < (m + 1) * 65536" for m using lt n' by (auto; linarith)
  ultimately show "j < 256 \<Longrightarrow> A = k \<and> B = j \<longleftrightarrow> k * 16777216 + j * 65536 \<le> n \<and> n < k * 16777216 + (j + 1) * 65536" by (simp add: algebra_simps)
  have q: "B div 16 = j \<longleftrightarrow> 16 * j \<le> B \<and> B < 16 * j + 16" "A div 16 = k \<longleftrightarrow> 16 * k \<le> A \<and> A < 16 * k + 16" for j k
    by (rule div16_iff)+
  show "A div 16 = k \<longleftrightarrow> k * 268435456 \<le> n \<and> n < (k + 1) * 268435456" unfolding q using lt n' by (auto; linarith)
  show "A = k \<and> B div 16 = j \<longleftrightarrow> k * 16777216 + j * 1048576 \<le> n \<and> n < k * 16777216 + (j + 1) * 1048576" if "j < 16"
  proof -
    have s: "(x * 16 + y) div 16 = x \<and> (x * 16 + y) mod 16 = y" if "y < 16" for x y :: nat using that by simp
    have b: "B div 16 < 16" using lt(2) by simp
    then have "A = k \<and> B div 16 = j \<longleftrightarrow> A * 16 + B div 16 = k * 16 + j" using s [of "B div 16" A] s [of j k] that by metis
    moreover have "16 * (B div 16) \<le> B" "B < 16 * (B div 16) + 16" using q(1) [of "B div 16"] by simp_all
    then have "A * 16 + B div 16 = m \<longleftrightarrow> m * 1048576 \<le> n \<and> n < (m + 1) * 1048576" for m using lt n' by (auto; linarith)
    ultimately show ?thesis by (simp add: algebra_simps)
  qed
qed

lemma public_v4:
  assumes "length ip = 4" "addr_num ip = n"
  shows "publicDestinationIP ip \<longleftrightarrow> list_all (\<lambda>(lo, hi). n < lo \<or> hi < n) special_v4"
proof -
  obtain a b c d where ip: "ip = [a, b, c, d]" using assms by (auto simp: numeral_eq_Suc length_Suc_conv)
  define A B C D where "A = unat a" and "B = unat b" and "C = unat c" and "D = unat d"
  have lt: "A < 256" "B < 256" "C < 256" "D < 256" by (simp_all add: A_def B_def C_def D_def)
  have n: "n = v4_num A B C D" using assms(2) by (simp add: addr_num_def v4_num_def ip A_def B_def C_def D_def)
  have loop: "IsLoopback ip \<longleftrightarrow> 2130706432 \<le> n \<and> n < 2147483648" using class_v4(1) [OF lt n, of 127] by (simp add: IsLoopback_def ip A_def word_unat_eq_iff)
  have multi: "IsMulticast ip \<longleftrightarrow> 3758096384 \<le> n \<and> n < 4026531840" using class_v4(4) [OF lt n, of 14] high_nibble_nat [of 14 a] by (simp add: IsMulticast_def ip A_def)
  have link: "IsLinkLocalUnicast ip \<longleftrightarrow> 2851995648 \<le> n \<and> n < 2852061184"
    using class_v4(2) [OF lt n, of 254 169] by (simp add: IsLinkLocalUnicast_def ip A_def B_def word_unat_eq_iff)
  have priv: "IsPrivate ip \<longleftrightarrow> 167772160 \<le> n \<and> n < 184549376 \<or> 2886729728 \<le> n \<and> n < 2887778304 \<or> 3232235520 \<le> n \<and> n < 3232301056"
    using class_v4(1) [OF lt n, of 10] class_v4(3) [OF lt n, of 1 172] class_v4(2) [OF lt n, of 168 192] high_nibble_nat [of 1 b]
    by (simp add: IsPrivate_def ip A_def B_def word_unat_eq_iff)
  have lm: "IsLinkLocalMulticast ip \<Longrightarrow> IsMulticast ip" using multi class_v4(1) [OF lt n, of 224] by (auto simp: IsLinkLocalMulticast_def ip A_def word_unat_eq_iff)
  have zero: "ip = replicate 4 0 \<Longrightarrow> n = 0" "ip = replicate 4 255 \<Longrightarrow> n = 4294967295" using assms(2) by (auto simp: addr_num_def replicate_4)
  have top: "n < 4294967296" using lt by (simp add: n v4_num_def)
  have un: "Unmap ip = ip" "ip \<noteq> replicate 16 0" using assms(1) by (auto simp: Unmap_def)
  have gl: "IsGlobalUnicast ip \<longleftrightarrow> ip \<noteq> replicate 4 0 \<and> ip \<noteq> replicate 4 255 \<and> \<not> IsLoopback ip \<and> \<not> IsMulticast ip \<and> \<not> IsLinkLocalUnicast ip"
    using un assms(1) by (auto simp: IsGlobalUnicast_def)
  let ?f = "list_ex (\<lambda>p. prefix_Contains p ip) additionallyForbidden"
  have "ip = replicate 4 0 \<Longrightarrow> ?f" "ip = replicate 4 255 \<Longrightarrow> ?f" unfolding forbidden_v4 [OF assms] using zero by simp_all
  then have pub: "publicDestinationIP ip \<longleftrightarrow> \<not> (IsLoopback ip \<or> IsMulticast ip \<or> IsLinkLocalUnicast ip \<or> IsPrivate ip \<or> ?f)"
    unfolding publicDestinationIP_def Let_def un(1) gl using assms(1) lm un(2) by (auto simp: IsUnspecified_def)
  have sp: "special_v4 = [(0, 16777215), (167772160, 184549375), (1681915904, 1686110207), (2130706432, 2147483647), (2851995648, 2852061183), (2886729728, 2887778303), (3221225472, 3221225727), (3221225984, 3221226239), (3227017984, 3227018239), (3232235520, 3232301055), (3323068416, 3323199487), (3325256704, 3325256959), (3405803776, 3405804031), (3758096384, 4294967295)]" by (simp add: special_v4_def v4_num_def)
  have o:
    "n < 0 \<or> 16777215 < n \<longleftrightarrow> \<not> (0 \<le> n \<and> n < 16777216)"
    "n < 167772160 \<or> 184549375 < n \<longleftrightarrow> \<not> (167772160 \<le> n \<and> n < 184549376)"
    "n < 1681915904 \<or> 1686110207 < n \<longleftrightarrow> \<not> (1681915904 \<le> n \<and> n < 1686110208)"
    "n < 2130706432 \<or> 2147483647 < n \<longleftrightarrow> \<not> (2130706432 \<le> n \<and> n < 2147483648)"
    "n < 2851995648 \<or> 2852061183 < n \<longleftrightarrow> \<not> (2851995648 \<le> n \<and> n < 2852061184)"
    "n < 2886729728 \<or> 2887778303 < n \<longleftrightarrow> \<not> (2886729728 \<le> n \<and> n < 2887778304)"
    "n < 3221225472 \<or> 3221225727 < n \<longleftrightarrow> \<not> (3221225472 \<le> n \<and> n < 3221225728)"
    "n < 3221225984 \<or> 3221226239 < n \<longleftrightarrow> \<not> (3221225984 \<le> n \<and> n < 3221226240)"
    "n < 3227017984 \<or> 3227018239 < n \<longleftrightarrow> \<not> (3227017984 \<le> n \<and> n < 3227018240)"
    "n < 3232235520 \<or> 3232301055 < n \<longleftrightarrow> \<not> (3232235520 \<le> n \<and> n < 3232301056)"
    "n < 3323068416 \<or> 3323199487 < n \<longleftrightarrow> \<not> (3323068416 \<le> n \<and> n < 3323199488)"
    "n < 3325256704 \<or> 3325256959 < n \<longleftrightarrow> \<not> (3325256704 \<le> n \<and> n < 3325256960)"
    "n < 3405803776 \<or> 3405804031 < n \<longleftrightarrow> \<not> (3405803776 \<le> n \<and> n < 3405804032)"
    "n < 3758096384 \<or> 4294967295 < n \<longleftrightarrow> \<not> (3758096384 \<le> n \<and> n < 4026531840 \<or> 4026531840 \<le> n \<and> n < 4294967296)"
    by auto
  show ?thesis unfolding pub loop multi link priv forbidden_v4 [OF assms] sp list.pred_inject prod.case o by (simp only: de_Morgan_disj list.pred_inject simp_thms conj_ac)
qed

lemma mapped_same: "length ip = 4 \<Longrightarrow> publicDestinationIP (v4_prefix @ ip) = publicDestinationIP ip"
proof -
  assume "length ip = 4"
  then have "Unmap (v4_prefix @ ip) = ip" "Unmap ip = ip" "length (v4_prefix @ ip) = 16" by (simp_all add: Unmap_def v4_prefix_def)
  then show ?thesis using \<open>length ip = 4\<close> by (simp add: publicDestinationIP_def)
qed

lemma unmap_first: "a ! 0 \<noteq> 0 \<Longrightarrow> Unmap a = a"
proof -
  assume a: "a ! 0 \<noteq> 0"
  have "take 12 a \<noteq> v4_prefix"
  proof
    assume "take 12 a = v4_prefix"
    then have "take 12 a ! 0 = v4_prefix ! 0" by simp
    then show False using a by (simp add: v4_prefix_def nth_append)
  qed
  then show ?thesis by (simp add: Unmap_def)
qed

lemma addr_num_snoc: "addr_num (a @ [b]) = addr_num a * 256 + unat b"
  by (simp add: addr_num_def)

lemma addr_num_append: "addr_num (a @ b) = addr_num a * 256 ^ length b + addr_num b" "addr_num b < 256 ^ length b"
proof -
  have "addr_num (a @ b) = addr_num a * 256 ^ length b + addr_num b \<and> addr_num b < 256 ^ length b"
  proof (induction b rule: rev_induct)
    case (snoc x b)
    have "addr_num (a @ b @ [x]) = addr_num (a @ b) * 256 + unat x" using addr_num_snoc [of "a @ b" x] by simp
    moreover have "Suc (addr_num b) * 256 \<le> 256 ^ length b * 256" using snoc by (intro mult_right_mono) simp_all
    then have "addr_num b * 256 + unat x < 256 * 256 ^ length b" using byte_less [of x] by (simp only: mult_Suc mult.commute)
    ultimately show ?case using snoc by (simp add: addr_num_snoc algebra_simps)
  qed (simp add: addr_num_def)
  then show "addr_num (a @ b) = addr_num a * 256 ^ length b + addr_num b" "addr_num b < 256 ^ length b" by simp_all
qed

lemma whole_prefix: "length (a @ b) = length p \<Longrightarrow> take (length a) p = a \<Longrightarrow> prefix_Contains (p, 8 * length a) (a @ b)"
proof -
  assume l: "length (a @ b) = length p" and t: "take (length a) p = a"
  define c where "c = drop (length a) p"
  have p: "p = a @ c" "length c = length b" using l t append_take_drop_id [of "length a" p] by (simp_all add: c_def)
  have "8 * length (a @ b) - 8 * length a = 8 * length b" by simp
  moreover have "(2 :: nat) ^ (8 * length b) = 256 ^ length b" by (simp add: power_mult)
  moreover have "addr_num (a @ x) div 256 ^ length b = addr_num a" if "length x = length b" for x
    using addr_num_append(1) [of a x] addr_num_append(2) [of x] that by simp
  ultimately show ?thesis using p by (simp add: prefix_Contains_def)
qed

text \<open>C21: equivalence with the special-purpose registry. An IPv4 destination is public exactly when it lies in none of the
  blocks of the registry, given by their first and last address, and writing it as an IPv4-mapped, a NAT64 or
  a 6to4 address never makes more destinations reachable.\<close>

theorem public_v4_exact:
  assumes "length ip = 4" "length rest = 10"
  shows "(publicDestinationIP ip \<longleftrightarrow> list_all (\<lambda>(lo, hi). addr_num ip < lo \<or> hi < addr_num ip) special_v4) \<and>
    publicDestinationIP (v4_prefix @ ip) = publicDestinationIP ip \<and>
    \<not> publicDestinationIP (v6_addr [0x64, 0xff9b, 0, 0, 0, 0] @ ip) \<and> \<not> publicDestinationIP ([0x20, 0x02] @ ip @ rest)"
proof -
  have in6: "\<not> publicDestinationIP a" if "length a = 16" "Unmap a = a" "pre \<in> set additionallyForbidden" "prefix_Contains pre a" for a pre
    using that by (auto simp: publicDestinationIP_def list_ex_iff)
  let ?n = "v6_addr [0x64, 0xff9b, 0, 0, 0, 0]" and ?s = "[0x20, 0x02] :: bytes"
  have n: "length ?n = 12" "length (?n @ ip) = 16" "take 12 (v6_addr [0x64, 0xff9b, 0, 0, 0, 0, 0, 0]) = ?n" "?n \<noteq> v4_prefix"
    using assms by (simp_all add: v6_addr_def v4_prefix_def)
  have "prefix_Contains (v6_addr [0x64, 0xff9b, 0, 0, 0, 0, 0, 0], 96) (?n @ ip)"
    using whole_prefix [of ?n ip "v6_addr [0x64, 0xff9b, 0, 0, 0, 0, 0, 0]"] n v6_length assms(1) by simp
  then have "\<not> publicDestinationIP (?n @ ip)"
    by (intro in6 [of _ "(v6_addr [0x64, 0xff9b, 0, 0, 0, 0, 0, 0], 96)"]) (use n in \<open>simp_all add: Unmap_def additionallyForbidden_def\<close>)
  moreover have "prefix_Contains (v6_addr [0x2002, 0, 0, 0, 0, 0, 0, 0], 16) (?s @ ip @ rest)"
    using whole_prefix [of ?s "ip @ rest" "v6_addr [0x2002, 0, 0, 0, 0, 0, 0, 0]"] assms v6_length by (simp add: v6_addr_def)
  then have "\<not> publicDestinationIP (?s @ ip @ rest)"
    by (intro in6 [of _ "(v6_addr [0x2002, 0, 0, 0, 0, 0, 0, 0], 16)"]) (use assms in \<open>simp_all add: unmap_first additionallyForbidden_def\<close>)
  ultimately show ?thesis using public_v4 [OF assms(1) refl] mapped_same [OF assms(1)] by simp
qed

theorem public_v4_exact_witness: "publicDestinationIP [8, 8, 8, 8] \<and> \<not> publicDestinationIP (v4_prefix @ [192, 168, 1, 1])"
proof -
  have "list_all (\<lambda>(lo, hi). addr_num [8, 8, 8, 8] < lo \<or> hi < addr_num [8, 8, 8, 8]) special_v4"
    "\<not> list_all (\<lambda>(lo, hi). addr_num [192, 168, 1, 1] < lo \<or> hi < addr_num [192, 168, 1, 1]) special_v4"
    by (simp_all add: special_v4_def v4_num_def addr_num_def)
  then show ?thesis using public_v4_exact [of "[8, 8, 8, 8]" "replicate 10 0"] public_v4_exact [of "[192, 168, 1, 1]" "replicate 10 0"] by simp
qed

section \<open>What is dialed\<close>

definition policy_allows :: "DestinationPolicy \<Rightarrow> bytes \<Rightarrow> bool" where
  "policy_allows p ip \<longleftrightarrow> AllowPrivate p \<or> publicDestinationIP ip"

lemma dial_loop_dialed:
  "dial_loop p dial port ips dialed e = (res, dialed') \<Longrightarrow>
     \<exists>n. dialed' = dialed @ take n (map (\<lambda>ip. JoinHostPort (ip_String ip) (Itoa port)) (filter (policy_allows p) ips)) \<and>
       (case res of Inr c \<Rightarrow> dialed' \<noteq> [] \<and> dial (last dialed') = Some c | Inl _ \<Rightarrow> length (filter (policy_allows p) ips) \<le> n)"
proof (induction ips arbitrary: dialed e)
  case (Cons ip ips)
  let ?a = "JoinHostPort (ip_String ip) (Itoa port)"
  show ?case
  proof (cases "policy_allows p ip")
    case False
    then have "dial_loop p dial port ips dialed NotPublic = (res, dialed')" using Cons.prems by (simp add: policy_allows_def)
    moreover have "filter (policy_allows p) (ip # ips) = filter (policy_allows p) ips" using False by simp
    ultimately show ?thesis using Cons.IH by metis
  next
    case True
    show ?thesis
    proof (cases "dial ?a")
      case None
      then have l: "dial_loop p dial port ips (dialed @ [?a]) DialFailed = (res, dialed')" using Cons.prems True by (auto simp: policy_allows_def)
      obtain n where "dialed' = (dialed @ [?a]) @ take n (map (\<lambda>ip. JoinHostPort (ip_String ip) (Itoa port)) (filter (policy_allows p) ips))"
          "case res of Inr c \<Rightarrow> dialed' \<noteq> [] \<and> dial (last dialed') = Some c | Inl _ \<Rightarrow> length (filter (policy_allows p) ips) \<le> n"
        using Cons.IH [OF l] by blast
      then show ?thesis using True by (intro exI [of _ "Suc n"]) (auto split: sum.splits)
    next
      case (Some c)
      then show ?thesis using Cons.prems True by (intro exI [of _ 1]) (auto simp: policy_allows_def)
    qed
  qed
qed auto

text \<open>The server is not a way into its own network. Whatever the resolver answers, every address the dialer is given is
  the textual form of an address of the destination that the policy allows, tried in order until one
  connects; when none connects, every allowed one has been tried.\<close>

theorem dials_only_allowed:
  assumes "DialContext p lookup dial destination = (res, dialed)" "parseDestination destination = Inr (host, port)" "destination_addresses lookup host = Some ips"
  shows "\<exists>n. dialed = take n (map (\<lambda>ip. JoinHostPort (ip_String ip) (Itoa port)) (filter (policy_allows p) ips)) \<and>
    (case res of Inr c \<Rightarrow> dialed \<noteq> [] \<and> dial (last dialed) = Some c | Inl _ \<Rightarrow> length (filter (policy_allows p) ips) \<le> n)"
proof (cases "ips = []")
  case True
  then show ?thesis using assms by (auto simp: DialContext_def)
next
  case False
  then have "dial_loop p dial port ips [] DialFailed = (res, dialed)" using assms by (simp add: DialContext_def)
  from dial_loop_dialed [OF this] show ?thesis by simp
qed

theorem dials_only_allowed_witness:
  "\<exists>n. snd (DialContext \<lparr>AllowPrivate = False, DialTimeout = 0\<rparr> (\<lambda>_. Some [[10, 0, 0, 1], [8, 8, 8, 8]]) (\<lambda>_. None :: nat option) [97, 58, 56, 48]) =
     take n [JoinHostPort (ip_String [8, 8, 8, 8]) (Itoa 80)]"
proof -
  let ?p = "\<lparr>AllowPrivate = False, DialTimeout = 0\<rparr>" and ?l = "\<lambda>_ :: bytes. Some [[10, 0, 0, 1], [8, 8, 8, 8] :: bytes]"
  have "\<not> publicDestinationIP [10, 0, 0, 1]" "publicDestinationIP [8, 8, 8, 8]"
    by (simp_all add: public_v4 special_v4_def v4_num_def addr_num_def)
  then have f: "filter (policy_allows ?p) [[10, 0, 0, 1], [8, 8, 8, 8]] = [[8, 8, 8, 8]]" by (simp add: policy_allows_def)
  have "SplitHostPort [97, 58, 56, 48] = Some ([97], [56, 48])" by (simp add: split_defs)
  moreover have "Atoi [56, 48] = Some 80" by (simp add: Atoi_def is_digit_def decimal_def)
  ultimately have "parseDestination [97, 58, 56, 48] = Inr ([97], 80)" by (simp add: parseDestination_def)
  moreover have "ParseIP [97] = None" by (simp add: ParseIP_def)
  then have "destination_addresses ?l [97] = Some [[10, 0, 0, 1], [8, 8, 8, 8]]" by (simp add: destination_addresses_def)
  ultimately show ?thesis using dials_only_allowed [OF surjective_pairing, of "[97, 58, 56, 48]" "[97]" 80 ?l "[[10, 0, 0, 1], [8, 8, 8, 8]]" ?p "\<lambda>_. None :: nat option"]
    unfolding f by auto
qed

end
