(* ===== verification/UdpRelay.thy ===== *)
theory UdpRelay
  imports Identity "HOL-Library.Multiset"
begin

text \<open>
  The relays of UDP associations whose lane died, \<^verbatim>\<open>internal/pep/udprelay.go\<close>. The map of the store is an association
  list with distinct tokens, a connection is a number, time is an integer, and the connections an operation
  closes are returned beside its result. \<open>now\<close> is the instant the operation reads.
\<close>

section \<open>The store\<close>

definition samePrincipal :: "Principal \<Rightarrow> Principal \<Rightarrow> bool" where
  "samePrincipal a b \<longleftrightarrow> ProviderID a = ProviderID b \<and> AccountID a = AccountID b \<and> DeviceID a = DeviceID b"

record retainedRelay =
  rr_conn :: nat
  rr_expires :: int
  rr_principal :: Principal

record udpRelayStore =
  us_grace :: int
  us_maximum :: nat
  us_relays :: "(bytes \<times> retainedRelay) list"
  us_sweeping :: bool

definition udpRelayGrace :: int where "udpRelayGrace = 30000000000"
definition udpRelaysRetained :: nat where "udpRelaysRetained = 256"

definition newUDPRelayStoreWith :: "int \<Rightarrow> nat \<Rightarrow> udpRelayStore" where
  "newUDPRelayStoreWith grace maximum = \<lparr>us_grace = grace, us_maximum = maximum, us_relays = [], us_sweeping = False\<rparr>"

definition newUDPRelayStore :: udpRelayStore where
  "newUDPRelayStore = newUDPRelayStoreWith udpRelayGrace udpRelaysRetained"

definition after_expiry :: "int \<Rightarrow> bytes \<times> retainedRelay \<Rightarrow> bool" where
  "after_expiry now e \<longleftrightarrow> now > rr_expires (snd e)"

definition sweepLocked :: "int \<Rightarrow> udpRelayStore \<Rightarrow> nat list \<times> udpRelayStore" where
  "sweepLocked now s =
     (map (\<lambda>e. rr_conn (snd e)) (filter (after_expiry now) (us_relays s)), s\<lparr>us_relays := filter (\<lambda>e. \<not> after_expiry now e) (us_relays s)\<rparr>)"

text \<open>The flag says whether the caller starts a sweeper.\<close>

definition retain :: "bytes \<Rightarrow> Principal \<Rightarrow> nat option \<Rightarrow> int \<Rightarrow> udpRelayStore \<Rightarrow> bool \<times> nat list \<times> udpRelayStore" where
  "retain token who conn now s0 =
     (case conn of
        None \<Rightarrow> (False, [], s0)
      | Some c \<Rightarrow>
          let (closed, s) = sweepLocked now s0 in
          if length (us_relays s) \<ge> us_maximum s then (False, closed @ [c], s)
          else (\<not> us_sweeping s, closed,
                s\<lparr>us_relays := AList.update token \<lparr>rr_conn = c, rr_expires = now + us_grace s, rr_principal = who\<rparr> (us_relays s), us_sweeping := True\<rparr>))"

text \<open>One tick of the sweeper; it stops when the flag is set.\<close>

definition sweep_tick :: "int \<Rightarrow> udpRelayStore \<Rightarrow> bool \<times> nat list \<times> udpRelayStore" where
  "sweep_tick now s0 =
     (let (closed, s) = sweepLocked now s0 in
      if us_relays s = [] then (True, closed, s\<lparr>us_sweeping := False\<rparr>) else (False, closed, s))"

definition claim :: "bytes \<Rightarrow> Principal \<Rightarrow> int \<Rightarrow> udpRelayStore \<Rightarrow> nat option \<times> nat list \<times> udpRelayStore" where
  "claim token who now s0 =
     (if length token \<noteq> UDPResumeTokenSize then (None, [], s0)
      else
        let (closed, s) = sweepLocked now s0 in
        case map_of (us_relays s) token of
          None \<Rightarrow> (None, closed, s)
        | Some held \<Rightarrow>
            let s1 = s\<lparr>us_relays := AList.delete token (us_relays s)\<rparr> in
            if now > rr_expires held \<or> \<not> samePrincipal (rr_principal held) who then (None, closed @ [rr_conn held], s1)
            else (Some (rr_conn held), closed, s1))"

definition closeAll :: "udpRelayStore \<Rightarrow> nat list \<times> udpRelayStore" where
  "closeAll s = (map (\<lambda>e. rr_conn (snd e)) (us_relays s), s\<lparr>us_relays := []\<rparr>)"

definition retained :: "udpRelayStore \<Rightarrow> nat" where
  "retained s = length (us_relays s)"

section \<open>Runs\<close>

text \<open>The history of a run: the connections given to the store, those it closed, those it handed back, and the sweepers alive.\<close>

record relay_run =
  ru_store :: udpRelayStore
  ru_given :: "nat list"
  ru_closed :: "nat list"
  ru_claimed :: "nat list"
  ru_sweepers :: nat

inductive relay_step :: "relay_run \<Rightarrow> relay_run \<Rightarrow> bool" where
  step_retain: "map_of (us_relays (ru_store r)) token = None \<Longrightarrow> retain token p (Some c) now (ru_store r) = (start, closed, s) \<Longrightarrow>
     relay_step r (r\<lparr>ru_store := s, ru_given := ru_given r @ [c], ru_closed := ru_closed r @ closed, ru_sweepers := ru_sweepers r + (if start then 1 else 0)\<rparr>)"
| step_claim: "claim token p now (ru_store r) = (res, closed, s) \<Longrightarrow>
     relay_step r (r\<lparr>ru_store := s, ru_closed := ru_closed r @ closed, ru_claimed := ru_claimed r @ (case res of None \<Rightarrow> [] | Some c \<Rightarrow> [c])\<rparr>)"
| step_sweep: "0 < ru_sweepers r \<Longrightarrow> sweep_tick now (ru_store r) = (stop, closed, s) \<Longrightarrow>
     relay_step r (r\<lparr>ru_store := s, ru_closed := ru_closed r @ closed, ru_sweepers := ru_sweepers r - (if stop then 1 else 0)\<rparr>)"
| step_closeAll: "closeAll (ru_store r) = (closed, s) \<Longrightarrow> relay_step r (r\<lparr>ru_store := s, ru_closed := ru_closed r @ closed\<rparr>)"

inductive relay_reach :: "int \<Rightarrow> nat \<Rightarrow> relay_run \<Rightarrow> bool" for grace maximum where
  relay_begin: "relay_reach grace maximum \<lparr>ru_store = newUDPRelayStoreWith grace maximum, ru_given = [], ru_closed = [], ru_claimed = [], ru_sweepers = 0\<rparr>"
| relay_more: "relay_reach grace maximum r \<Longrightarrow> relay_step r r' \<Longrightarrow> relay_reach grace maximum r'"

definition conns :: "udpRelayStore \<Rightarrow> nat multiset" where
  "conns s = mset (map (\<lambda>e. rr_conn (snd e)) (us_relays s))"

definition relay_inv :: "nat \<Rightarrow> relay_run \<Rightarrow> bool" where
  "relay_inv maximum r \<longleftrightarrow> distinct (map fst (us_relays (ru_store r))) \<and> length (us_relays (ru_store r)) \<le> maximum \<and> us_maximum (ru_store r) = maximum \<and>
     mset (ru_given r) = mset (ru_closed r) + mset (ru_claimed r) + conns (ru_store r) \<and>
     ru_sweepers r = (if us_sweeping (ru_store r) then 1 else 0) \<and> (us_relays (ru_store r) \<noteq> [] \<longrightarrow> us_sweeping (ru_store r))"

lemma sweep_facts:
  assumes "sweepLocked now s = (closed, s')"
  shows "mset closed + conns s' = conns s" "distinct (map fst (us_relays s)) \<Longrightarrow> distinct (map fst (us_relays s'))" "length (us_relays s') \<le> length (us_relays s)"
    "us_maximum s' = us_maximum s" "us_sweeping s' = us_sweeping s" "map_of (us_relays s) t = None \<Longrightarrow> map_of (us_relays s') t = None"
    "us_relays s' \<noteq> [] \<Longrightarrow> us_relays s \<noteq> []" "\<forall>e \<in> set (us_relays s'). now \<le> rr_expires (snd e)"
proof -
  have s': "s' = s\<lparr>us_relays := filter (\<lambda>e. \<not> after_expiry now e) (us_relays s)\<rparr>" and c: "closed = map (\<lambda>e. rr_conn (snd e)) (filter (after_expiry now) (us_relays s))"
    using assms by (simp_all add: sweepLocked_def)
  have "image_mset f (mset (filter P xs)) + image_mset f (mset (filter (\<lambda>x. \<not> P x) xs)) = image_mset f (mset xs)" for f :: "bytes \<times> retainedRelay \<Rightarrow> nat" and P xs
    by (simp only: mset_filter image_mset_union [symmetric] multiset_partition [symmetric])
  then show "mset closed + conns s' = conns s" by (simp add: conns_def s' c)
  show "distinct (map fst (us_relays s)) \<Longrightarrow> distinct (map fst (us_relays s'))" by (simp add: s' distinct_map_filter)
  show "map_of (us_relays s) t = None \<Longrightarrow> map_of (us_relays s') t = None" by (auto simp: s' map_of_eq_None_iff)
  show "us_relays s' \<noteq> [] \<Longrightarrow> us_relays s \<noteq> []" by (auto simp: s')
  show "\<forall>e \<in> set (us_relays s'). now \<le> rr_expires (snd e)" by (auto simp: s' after_expiry_def)
qed (use assms in \<open>auto simp: sweepLocked_def\<close>)

lemma update_new: "map_of al k = None \<Longrightarrow> AList.update k v al = al @ [(k, v)]"
  by (induction al) (auto split: if_splits)

lemma retain_inv:
  assumes inv: "relay_inv m r" and n: "map_of (us_relays (ru_store r)) token = None" and rt: "retain token who (Some c) now (ru_store r) = (start, closed, s)"
  shows "relay_inv m (r\<lparr>ru_store := s, ru_given := ru_given r @ [c], ru_closed := ru_closed r @ closed, ru_sweepers := ru_sweepers r + (if start then 1 else 0)\<rparr>)"
proof -
  obtain cl s1 where sw: "sweepLocked now (ru_store r) = (cl, s1)" by (cases "sweepLocked now (ru_store r)")
  note f = sweep_facts [OF sw]
  have i: "distinct (map fst (us_relays s1))" "length (us_relays s1) \<le> m" "us_maximum s1 = m" "mset (ru_given r) = mset (ru_closed r @ cl) + mset (ru_claimed r) + conns s1"
      "ru_sweepers r = (if us_sweeping s1 then 1 else 0)" "us_relays s1 \<noteq> [] \<longrightarrow> us_sweeping s1"
    using inv f(1-5,7) by (auto simp: relay_inv_def)
  show ?thesis
  proof (cases "length (us_relays s1) \<ge> us_maximum s1")
    case True
    then have "start = False" "closed = cl @ [c]" "s = s1" using rt sw by (simp_all add: retain_def)
    then show ?thesis using i by (simp add: relay_inv_def)
  next
    case False
    let ?e = "\<lparr>rr_conn = c, rr_expires = now + us_grace s1, rr_principal = who\<rparr>"
    have n1: "map_of (us_relays s1) token = None" by (rule f(6) [OF n])
    then have "start = (\<not> us_sweeping s1)" "closed = cl" "s = s1\<lparr>us_relays := us_relays s1 @ [(token, ?e)], us_sweeping := True\<rparr>"
      using rt sw False update_new [OF n1] by (simp_all add: retain_def)
    then show ?thesis using i False n1 by (auto simp: relay_inv_def conns_def map_of_eq_None_iff)
  qed
qed

lemma delete_held:
  "distinct (map fst al) \<Longrightarrow> map_of al k = Some v \<Longrightarrow> mset (map f al) = add_mset (f (k, v)) (mset (map f (AList.delete k al)))"
proof (induction al)
  case (Cons e al)
  show ?case
  proof (cases "fst e = k")
    case True
    then have "k \<notin> fst ` set al" "e = (k, v)" using Cons.prems by (auto simp: prod_eq_iff)
    then have "AList.delete k al = al" by (force simp: AList.delete_eq filter_id_conv)
    then show ?thesis using \<open>e = (k, v)\<close> by simp
  next
    case False
    then show ?thesis using Cons by (cases e) auto
  qed
qed simp

lemma claim_inv:
  assumes inv: "relay_inv m r" and cl: "claim token who now (ru_store r) = (res, closed, s)"
  shows "relay_inv m (r\<lparr>ru_store := s, ru_closed := ru_closed r @ closed, ru_claimed := ru_claimed r @ (case res of None \<Rightarrow> [] | Some c \<Rightarrow> [c])\<rparr>)"
proof -
  obtain c0 s1 where sw: "sweepLocked now (ru_store r) = (c0, s1)" by (cases "sweepLocked now (ru_store r)")
  note f = sweep_facts [OF sw]
  have i: "distinct (map fst (us_relays s1))" "length (us_relays s1) \<le> m" "us_maximum s1 = m" "mset (ru_given r) = mset (ru_closed r @ c0) + mset (ru_claimed r) + conns s1"
      "ru_sweepers r = (if us_sweeping s1 then 1 else 0)" "us_relays s1 \<noteq> [] \<longrightarrow> us_sweeping s1"
    using inv f(1-5,7) by (auto simp: relay_inv_def)
  show ?thesis
  proof (cases "length token \<noteq> UDPResumeTokenSize")
    case True
    then show ?thesis using inv cl by (auto simp: claim_def)
  next
    case tok: False
    show ?thesis
    proof (cases "map_of (us_relays s1) token")
      case None
      then show ?thesis using i cl tok sw by (auto simp: claim_def relay_inv_def)
    next
      case (Some held)
      let ?s = "s1\<lparr>us_relays := AList.delete token (us_relays s1)\<rparr>"
      have d: "conns s1 = add_mset (rr_conn held) (conns ?s)" using delete_held [OF i(1) Some, of "\<lambda>e. rr_conn (snd e)"] by (simp add: conns_def)
      have k: "distinct (map fst (us_relays ?s))" "length (us_relays ?s) \<le> m" "us_relays ?s \<noteq> [] \<longrightarrow> us_sweeping s1"
        using i(1,2,6) by (auto simp: AList.delete_eq distinct_map_filter intro: order_trans [OF length_filter_le])
      have "res = None \<and> closed = c0 @ [rr_conn held] \<and> s = ?s \<or> res = Some (rr_conn held) \<and> closed = c0 \<and> s = ?s"
        using cl tok sw Some by (auto simp: claim_def Let_def split: if_splits)
      then show ?thesis using i d k by (auto simp: relay_inv_def)
    qed
  qed
qed

lemma step_inv: "relay_step r r' \<Longrightarrow> relay_inv m r \<Longrightarrow> relay_inv m r'"
proof (induction rule: relay_step.induct)
  case (step_retain r token p c now start closed s)
  then show ?case using retain_inv by blast
next
  case (step_claim token p now r res closed s)
  then show ?case using claim_inv by blast
next
  case (step_sweep r now stop closed s)
  obtain c0 s1 where sw: "sweepLocked now (ru_store r) = (c0, s1)" by (cases "sweepLocked now (ru_store r)")
  note f = sweep_facts [OF sw]
  have "us_sweeping (ru_store r)" using step_sweep by (auto simp: relay_inv_def split: if_splits)
  then show ?case using step_sweep sw f by (auto simp: relay_inv_def sweep_tick_def conns_def split: if_splits)
next
  case (step_closeAll r closed s)
  then show ?case by (auto simp: relay_inv_def closeAll_def conns_def)
qed

lemma reach_inv: "relay_reach g m r \<Longrightarrow> relay_inv m r"
  by (induction rule: relay_reach.induct) (use step_inv in \<open>auto simp: relay_inv_def newUDPRelayStoreWith_def conns_def\<close>)

lemma map_of_filter_value:
  "distinct (map fst al) \<Longrightarrow> map_of (filter (\<lambda>e. \<not> P (snd e)) al) k = (case map_of al k of None \<Rightarrow> None | Some v \<Rightarrow> if P v then None else Some v)"
proof (induction al)
  case (Cons e al)
  then have "fst e = k \<Longrightarrow> map_of al k = None" by (auto simp: map_of_eq_None_iff)
  then show ?case using Cons by (cases e) (auto split: option.splits)
qed simp

section \<open>Properties\<close>

text \<open>C23: a relay has one owner. Over any interleaving of associations that fail, reclaim, sweeps and shutdown, every socket given to the
  store is in it, or was closed, or was handed back, once; the store never holds more than its maximum; and as long
  as it holds one, exactly one sweeper is running.\<close>

theorem relay_ownership:
  assumes "relay_reach grace maximum r"
  shows "mset (ru_given r) = mset (ru_closed r) + mset (ru_claimed r) + conns (ru_store r) \<and> retained (ru_store r) \<le> maximum \<and>
    ru_sweepers r \<le> 1 \<and> (us_relays (ru_store r) = [] \<or> ru_sweepers r = 1)"
  using reach_inv [OF assms] by (auto simp: relay_inv_def retained_def)

definition owner :: Principal where
  "owner = \<lparr>ProviderID = [1], AccountID = [2], DeviceID = [3], PublicKey = []\<rparr>"

definition parked :: relay_run where
  "parked = \<lparr>ru_store = \<lparr>us_grace = 30, us_maximum = 2, us_relays = [(replicate 16 7, \<lparr>rr_conn = 3, rr_expires = 30, rr_principal = owner\<rparr>)], us_sweeping = True\<rparr>,
     ru_given = [3], ru_closed = [], ru_claimed = [], ru_sweepers = 1\<rparr>"

lemma parked_reach: "relay_reach 30 2 parked"
proof -
  let ?r = "\<lparr>ru_store = newUDPRelayStoreWith 30 2, ru_given = [], ru_closed = [], ru_claimed = [], ru_sweepers = 0\<rparr>"
  have "relay_step ?r parked"
    using step_retain [of ?r "replicate 16 7" owner 3 0 True "[]" "ru_store parked"]
    by (simp add: parked_def newUDPRelayStoreWith_def retain_def sweepLocked_def)
  then show ?thesis by (rule relay_more [OF relay_begin])
qed

theorem relay_ownership_witness: "conns (ru_store parked) = {#3#} \<and> retained (ru_store parked) \<le> 2"
  using relay_ownership [OF parked_reach] by (simp add: parked_def)

text \<open>A token is good once, for its owner, in time. A claim hands back a socket only when the token names a relay that was retained for
  the same provider, account and device and has not expired, and after any claim with the token it names nothing.\<close>

theorem claim_is_single_use:
  assumes "relay_reach grace maximum r" "claim token who now (ru_store r) = (res, closed, s)" "length token = UDPResumeTokenSize"
  shows "res = (case map_of (us_relays (ru_store r)) token of None \<Rightarrow> None
      | Some held \<Rightarrow> if rr_expires held < now \<or> \<not> samePrincipal (rr_principal held) who then None else Some (rr_conn held)) \<and>
    map_of (us_relays s) token = None"
proof -
  have d: "distinct (map fst (us_relays (ru_store r)))" using reach_inv [OF assms(1)] by (simp add: relay_inv_def)
  obtain c0 s1 where sw: "sweepLocked now (ru_store r) = (c0, s1)" by (cases "sweepLocked now (ru_store r)")
  have s1: "us_relays s1 = filter (\<lambda>e. \<not> after_expiry now e) (us_relays (ru_store r))" using sw by (auto simp: sweepLocked_def)
  have m: "map_of (us_relays s1) token = (case map_of (us_relays (ru_store r)) token of None \<Rightarrow> None | Some held \<Rightarrow> if rr_expires held < now then None else Some held)"
    unfolding s1 using map_of_filter_value [OF d, of "\<lambda>v. rr_expires v < now" token] by (simp add: after_expiry_def)
  show ?thesis
  proof (cases "map_of (us_relays s1) token")
    case None
    then show ?thesis using assms(2,3) sw m by (auto simp: claim_def split: option.splits if_splits)
  next
    case (Some held)
    moreover have "map_of (AList.delete token (us_relays s1)) token = None" by (simp add: delete_conv')
    ultimately show ?thesis using assms(2,3) sw m by (auto simp: claim_def Let_def split: option.splits if_splits)
  qed
qed

theorem claim_is_single_use_witness:
  "fst (claim (replicate 16 7) owner 10 (ru_store parked)) = Some 3 \<and> fst (claim (replicate 16 7) owner 40 (ru_store parked)) = None"
proof -
  obtain a b c where 1: "claim (replicate 16 7) owner 10 (ru_store parked) = (a, b, c)" by (cases "claim (replicate 16 7) owner 10 (ru_store parked)")
  obtain d e f where 2: "claim (replicate 16 7) owner 40 (ru_store parked) = (d, e, f)" by (cases "claim (replicate 16 7) owner 40 (ru_store parked)")
  show ?thesis using claim_is_single_use [OF parked_reach 1] claim_is_single_use [OF parked_reach 2] 1 2
    by (simp add: parked_def UDPResumeTokenSize_def samePrincipal_def)
qed

section \<open>The sweeper ends\<close>

text \<open>\<^verbatim>\<open>sweep\<close> with nothing retained or claimed meanwhile: a tick every interval from \<open>t\<close> on. The first argument bounds the ticks; \<open>None\<close> is a sweeper
  that still runs after them.\<close>

definition sweep_interval :: "udpRelayStore \<Rightarrow> int" where
  "sweep_interval s = (let interval = us_grace s div 2 in if interval < 1000000 then 1000000 else interval)"

fun sweep :: "nat \<Rightarrow> int \<Rightarrow> udpRelayStore \<Rightarrow> (nat list \<times> udpRelayStore) option" where
  "sweep 0 t s = None"
| "sweep (Suc ticks) t s =
     (case sweep_tick (t + sweep_interval s) s of
        (True, closed, s1) \<Rightarrow> Some (closed, s1)
      | (False, closed, s1) \<Rightarrow> map_option (\<lambda>(rest, s2). (closed @ rest, s2)) (sweep ticks (t + sweep_interval s) s1))"

lemma sweep_tick_fields:
  assumes "sweep_tick now s = (stop, closed, s1)"
  shows "us_grace s1 = us_grace s" "mset closed + conns s1 = conns s" "set (us_relays s1) \<subseteq> {e \<in> set (us_relays s). now \<le> rr_expires (snd e)}"
    "stop \<longleftrightarrow> us_relays s1 = []" "stop \<Longrightarrow> \<not> us_sweeping s1"
proof -
  have part: "mset (map f (filter P xs)) + mset (map f (filter (\<lambda>e. \<not> P e) xs)) = mset (map f xs)" for f :: "bytes \<times> retainedRelay \<Rightarrow> nat" and P xs
    by (induction xs) auto
  have s1: "us_grace s1 = us_grace s" "us_relays s1 = filter (\<lambda>e. \<not> after_expiry now e) (us_relays s)"
    and c: "closed = map (rr_conn \<circ> snd) (filter (after_expiry now) (us_relays s))"
    and stop: "stop \<longleftrightarrow> us_relays s1 = []" "stop \<Longrightarrow> \<not> us_sweeping s1"
    using assms by (auto simp: sweep_tick_def sweepLocked_def Let_def comp_def split: if_splits)
  show "us_grace s1 = us_grace s" "stop \<longleftrightarrow> us_relays s1 = []" "stop \<Longrightarrow> \<not> us_sweeping s1" by fact+
  show "mset closed + conns s1 = conns s" using part [of "rr_conn \<circ> snd" "after_expiry now" "us_relays s"] by (simp add: conns_def s1 c comp_def)
  show "set (us_relays s1) \<subseteq> {e \<in> set (us_relays s). now \<le> rr_expires (snd e)}" by (auto simp: s1 after_expiry_def)
qed

lemma sweep_ends:
  assumes "\<forall>e \<in> set (us_relays s). rr_expires (snd e) < t + int (Suc n) * sweep_interval s"
  shows "\<exists>closed s'. sweep (Suc n) t s = Some (closed, s') \<and> us_relays s' = [] \<and> \<not> us_sweeping s' \<and> mset closed = conns s"
  using assms
proof (induction n arbitrary: t s)
  case 0
  obtain stop closed s1 where k: "sweep_tick (t + sweep_interval s) s = (stop, closed, s1)" by (metis prod_cases3)
  have "us_relays s1 = []" using sweep_tick_fields(3) [OF k] 0 by (cases "us_relays s1") auto
  then show ?case using sweep_tick_fields [OF k] k by (auto simp: conns_def)
next
  case (Suc n)
  obtain stop closed s1 where k: "sweep_tick (t + sweep_interval s) s = (stop, closed, s1)" by (metis prod_cases3)
  note K = sweep_tick_fields [OF k]
  show ?case
  proof (cases stop)
    case True
    then show ?thesis using k K by (auto simp: conns_def)
  next
    case False
    have i: "sweep_interval s1 = sweep_interval s" using K(1) by (simp add: sweep_interval_def)
    have "\<forall>e \<in> set (us_relays s1). rr_expires (snd e) < (t + sweep_interval s) + int (Suc n) * sweep_interval s1"
      using Suc.prems K(3) i by (auto simp: algebra_simps)
    from Suc.IH [OF this] obtain rest s2 where "sweep (Suc n) (t + sweep_interval s) s1 = Some (rest, s2)" "us_relays s2 = []" "\<not> us_sweeping s2" "mset rest = conns s1" by blast
    then show ?thesis using k K(2) False by (simp del: sweep.simps(2) add: sweep.simps(2) [of "Suc n"])
  qed
qed

text \<open>C34: the sweeper ends. A relay nobody reclaims is given up: once nothing is retained any more, the sweeper stops by its third tick, having closed every
  socket the store held, and leaves the store empty and ready to start another.\<close>

theorem sweeper_terminates:
  assumes "\<forall>e \<in> set (us_relays s). rr_expires (snd e) \<le> t + us_grace s"
  shows "\<exists>closed s'. sweep 3 t s = Some (closed, s') \<and> us_relays s' = [] \<and> \<not> us_sweeping s' \<and> mset closed = conns s"
proof -
  have "us_grace s < 3 * sweep_interval s" by (auto simp: sweep_interval_def Let_def)
  then have "\<forall>e \<in> set (us_relays s). rr_expires (snd e) < t + int (Suc 2) * sweep_interval s" using assms by fastforce
  from sweep_ends [OF this] show ?thesis by (simp add: numeral_3_eq_3 numeral_2_eq_2)
qed

theorem sweeper_terminates_witness: "\<exists>closed s'. sweep 3 0 (ru_store parked) = Some (closed, s') \<and> us_relays s' = [] \<and> mset closed = {#3#}"
  using sweeper_terminates [of "ru_store parked" 0] by (auto simp: parked_def conns_def)

end
