(* ===== verification/ServerOpen.thy ===== *)
theory ServerOpen
  imports Admission Destination UdpRelay
begin

text \<open>
  What a gateway does with the first frame of an authenticated stream, \<^verbatim>\<open>handleSession\<close> and \<^verbatim>\<open>handleLaneJoinOpen\<close> of
  \<^verbatim>\<open>internal/pep/server.go\<close>: it authorizes the device again, admits the flow against its account, reads the destination, dials it and
  registers the session, or joins the stream to a session its own device has opened. The parts it composes are the models of the frame
  protocol, the flow metadata, the authorization store, admission, the destination policy and the record limiter. What the flow engine answers
  (\<^verbatim>\<open>addLane\<close>, \<^verbatim>\<open>commitJoinedLane\<close>) and whether a frame could be written are fields of the environment; metrics and log text are left out.
  An opening, from its first frame to the running flow, is one step of a run: the dials of two openings do not overlap in a run, while their
  admissions and releases, which are the critical sections of the account mutex, are interleaved freely in the runs of the admission model.
\<close>

section \<open>State\<close>

record serverFlow =
  sf_flowID :: u64
  sf_principal :: Principal
  sf_reserveControl :: bool
  sf_completed :: bool
  sf_recvAckFlag :: u16
  sf_remoteFinSeen :: bool
  sf_remoteFinSequence :: u64
  sf_finSent :: bool
  sf_finSequence :: u64
  sf_localAbortSent :: bool

record server =
  sv_maxSessions :: int
  sv_policy :: DestinationPolicy
  sv_accounts :: account_table
  sv_sessions :: session_table
  sv_heap :: "nat \<Rightarrow> serverFlow"
  sv_refusals :: recordLimiter
  sv_accountRefusals :: recordLimiter

record 'c open_env =
  oe_store :: Store
  oe_clock :: int
  oe_lookup :: "bytes \<Rightarrow> bytes list option"
  oe_dial :: "bytes \<Rightarrow> 'c option"
  oe_flow :: nat
  oe_addLane :: bool
  oe_written :: bool
  oe_committed :: bool
  oe_closed :: bool

definition server_frame :: "byte \<Rightarrow> u16 \<Rightarrow> bytes \<Rightarrow> u64 \<Rightarrow> u64 \<Rightarrow> byte \<Rightarrow> bytes \<Rightarrow> frame" where
  "server_frame t flags sid fid sequence cls payload =
     \<lparr>fHeader = \<lparr>hVersion = Version, hType = t, hFlags = flags, hSessionID = sid, hFlowID = fid, hSequence = sequence, hPayloadLen = 0, hClass = cls\<rparr>, fPayload = payload\<rparr>"

definition reset_frame :: "bytes \<Rightarrow> u64 \<Rightarrow> byte \<Rightarrow> ResetCode \<Rightarrow> string \<Rightarrow> frame" where
  "reset_frame sid fid cls code message = server_frame TypeReset 0 sid fid 0 cls (ResetPayload code (text_bytes message))"

definition refuseAccountFlow :: "int \<Rightarrow> bytes \<Rightarrow> u64 \<Rightarrow> accountRefusal \<Rightarrow> server \<Rightarrow> frame \<times> server" where
  "refuseAccountFlow clock sid fid refusal sv =
     (reset_frame sid fid ClassNew (refusal_code refusal) (refusal_message refusal),
      sv\<lparr>sv_accountRefusals := snd (due (sv_accountRefusals sv) (refusal_reason refusal) clock)\<rparr>)"

section \<open>Opening a flow\<close>

text \<open>Whether the stream is dropped without an answer, answered with a reset, joined to a lane, or becomes an association or a flow.\<close>

datatype 'c open_result = Dropped | Answered frame | Joining u64 | Associated "bytes option" | Opened 'c

definition release_account :: "Principal \<Rightarrow> server \<Rightarrow> server" where
  "release_account who sv = sv\<lparr>sv_accounts := releaseAccountFlow who (sv_accounts sv)\<rparr>"

definition new_server_flow :: "Principal \<Rightarrow> frame \<Rightarrow> serverFlow" where
  "new_server_flow who fr =
     \<lparr>sf_flowID = hFlowID (fHeader fr), sf_principal = who, sf_reserveControl = (hFlags (fHeader fr) AND FlagReserveControl \<noteq> 0), sf_completed = False,
      sf_recvAckFlag = FlagAckUp, sf_remoteFinSeen = False, sf_remoteFinSequence = 0, sf_finSent = False, sf_finSequence = 0, sf_localAbortSent = False\<rparr>"

text \<open>From the destination on, the account's slot being held: every way out before the flow runs gives it back.\<close>

definition open_destination :: "'c open_env \<Rightarrow> Principal \<Rightarrow> frame \<Rightarrow> server \<Rightarrow> 'c open_result \<times> bytes list \<times> server" where
  "open_destination en who fr sv =
     (let sid = hSessionID (fHeader fr); fid = hFlowID (fHeader fr); unavailable = reset_frame sid fid ClassNew ResetDestination ''destination unavailable'' in
      case DecodeDestination (fPayload fr) of
        Inl _ \<Rightarrow> (Answered unavailable, [], release_account who sv)
      | Inr destination \<Rightarrow>
          (case DialContext (sv_policy sv) (oe_lookup en) (oe_dial en) destination of
             (Inl _, dialed) \<Rightarrow> (Answered unavailable, dialed, release_account who sv)
           | (Inr conn, dialed) \<Rightarrow>
               if \<not> oe_addLane en then (Dropped, dialed, release_account who sv)
               else
                 (case registerSession (sv_maxSessions sv) sid (oe_flow en) (sv_sessions sv) of
                    (False, _) \<Rightarrow> (Answered (reset_frame sid fid ClassNew ResetFlowLimit ''session already exists''), dialed, release_account who sv)
                  | (True, sessions) \<Rightarrow>
                      let sv1 = sv\<lparr>sv_sessions := sessions, sv_heap := (sv_heap sv)(oe_flow en := new_server_flow who fr)\<rparr> in
                      if \<not> oe_written en then (Dropped, dialed, release_account who (sv1\<lparr>sv_sessions := unregisterSession sid (oe_flow en) (sv_sessions sv1)\<rparr>))
                      else (Opened conn, dialed, sv1))))"

definition handleSession :: "'c open_env \<Rightarrow> Principal \<Rightarrow> frame \<Rightarrow> server \<Rightarrow> 'c open_result \<times> bytes list \<times> server" where
  "handleSession en who fr sv =
     (let h = fHeader fr; sid = hSessionID h; fid = hFlowID h in
      case Authorize (oe_clock en) who (oe_clock en) (oe_store en) of
        Inl _ \<Rightarrow> (Dropped, [], sv)
      | Inr _ \<Rightarrow>
          if hType h = TypeJoin then
            if IsZeroSessionID sid \<or> fid = 0 \<or> hSequence h \<noteq> 0 \<or> hFlags h AND NOT FlagReserveControl \<noteq> 0 \<or> length (fPayload fr) \<noteq> 8
            then (Answered (reset_frame sid fid ClassBulk ResetProtocol ''invalid lane join''), [], sv)
            else if (get_be (fPayload fr) :: u64) = 0 then (Answered (reset_frame sid fid ClassBulk ResetProtocol ''invalid lane join''), [], sv)
            else (Joining (get_be (fPayload fr)), [], sv)
          else if hType h \<noteq> TypeOpen \<or> IsZeroSessionID sid \<or> fid = 0 \<or> hSequence h \<noteq> 0
          then (Answered (reset_frame sid fid ClassNew ResetProtocol ''invalid flow open''), [], sv)
          else
            (case admitAccountFlow (oe_store en) (oe_clock en) who (sv_accounts sv) of
               (Some refusal, table) \<Rightarrow>
                 (case refuseAccountFlow (oe_clock en) sid fid refusal (sv\<lparr>sv_accounts := table\<rparr>) of (answer, sv1) \<Rightarrow> (Answered answer, [], sv1))
             | (None, table) \<Rightarrow>
                 let sv1 = sv\<lparr>sv_accounts := table\<rparr> in
                 if IsUDPAssociation (fPayload fr) then (Associated None, [], sv1)
                 else (case DecodeUDPResumeOpen (fPayload fr) of
                         Some token \<Rightarrow> (Associated (Some token), [], sv1)
                       | None \<Rightarrow> open_destination en who fr sv1)))"

section \<open>The end of a flow\<close>

text \<open>A flow that completed leaves a tombstone in the table until the linger timer removes it; any other is removed at once.\<close>

text \<open>The mark is set once, under a \<^verbatim>\<open>sync.Once\<close>; the flag says whether this call set it and so started the linger timer.\<close>

definition retainCompletedSession :: "nat \<Rightarrow> server \<Rightarrow> bool \<times> server" where
  "retainCompletedSession flow sv =
     (if sf_completed (sv_heap sv flow) then (False, sv) else (True, sv\<lparr>sv_heap := (sv_heap sv)(flow := (sv_heap sv flow)\<lparr>sf_completed := True\<rparr>)\<rparr>))"

text \<open>A tick of \<^verbatim>\<open>watchFlowCompletion\<close>, which marks a flow that still runs.\<close>

definition completion_tick :: "nat \<Rightarrow> server \<Rightarrow> bool \<times> server" where
  "completion_tick flow sv =
     (if sf_finSent (sv_heap sv flow) \<and> sf_remoteFinSeen (sv_heap sv flow) then retainCompletedSession flow sv else (False, sv))"

text \<open>How \<^verbatim>\<open>flow.run\<close> returned: with an error, in a cancelled context, with an error a closing destination gives.\<close>

record flow_outcome =
  fo_failed :: bool
  fo_cancelled :: bool
  fo_expectedClose :: bool

definition flowComplete :: "flow_outcome \<Rightarrow> serverFlow \<Rightarrow> bool" where
  "flowComplete fo sf \<longleftrightarrow>
     \<not> fo_failed fo \<or> (\<not> fo_cancelled fo \<and> sf_finSent sf \<and> sf_remoteFinSeen sf) \<or> (\<not> fo_cancelled fo \<and> sf_remoteFinSeen sf \<and> fo_expectedClose fo)"

definition flow_returns :: "flow_outcome \<Rightarrow> bytes \<Rightarrow> nat \<Rightarrow> Principal \<Rightarrow> server \<Rightarrow> bool \<times> server" where
  "flow_returns fo sid flow who sv =
     (if flowComplete fo (sv_heap sv flow) then (case retainCompletedSession flow sv of (timer, sv1) \<Rightarrow> (timer, release_account who sv1))
      else (False, release_account who (sv\<lparr>sv_sessions := unregisterSession sid flow (sv_sessions sv)\<rparr>)))"

definition tombstone_expires :: "bytes \<Rightarrow> nat \<Rightarrow> server \<Rightarrow> server" where
  "tombstone_expires sid flow sv = sv\<lparr>sv_sessions := unregisterSession sid flow (sv_sessions sv)\<rparr>"

section \<open>Joining a lane\<close>

datatype LaneJoinRefusal = LaneJoinInvalidIdentity | LaneJoinUnknownSession | LaneJoinFlowMismatch | LaneJoinPrincipalMismatch
  | LaneJoinInvalidControlReplacement | LaneJoinLaneUnavailable

primrec join_reason :: "LaneJoinRefusal \<Rightarrow> string" where
  "join_reason LaneJoinInvalidIdentity = ''invalid_identity''"
| "join_reason LaneJoinUnknownSession = ''unknown_session''"
| "join_reason LaneJoinFlowMismatch = ''flow_mismatch''"
| "join_reason LaneJoinPrincipalMismatch = ''principal_mismatch''"
| "join_reason LaneJoinInvalidControlReplacement = ''invalid_control_replacement''"
| "join_reason LaneJoinLaneUnavailable = ''lane_unavailable''"

datatype join_result = JoinRefused LaneJoinRefusal | JoinDropped | JoinReplayed | JoinCommitted

definition refuseLaneJoin :: "int \<Rightarrow> bytes \<Rightarrow> u64 \<Rightarrow> LaneJoinRefusal \<Rightarrow> ResetCode \<Rightarrow> string \<Rightarrow> server \<Rightarrow> join_result \<times> frame list \<times> server" where
  "refuseLaneJoin clock sid fid reason code message sv =
     (JoinRefused reason, [reset_frame sid fid ClassBulk code message], sv\<lparr>sv_refusals := snd (due (sv_refusals sv) (join_reason reason) clock)\<rparr>)"

definition open_ok :: "bytes \<Rightarrow> u64 \<Rightarrow> frame" where
  "open_ok sid fid = server_frame TypeOpenOK 0 sid fid 0 ClassBulk []"

text \<open>The acknowledgement of the peer's FIN, and this end's own FIN, as a lane that comes late is told them.\<close>

definition final_ack :: "bytes \<Rightarrow> u64 \<Rightarrow> serverFlow \<Rightarrow> frame" where
  "final_ack sid fid sf = server_frame TypeAck (FlagAckFinal OR sf_recvAckFlag sf) sid fid (sf_remoteFinSequence sf) ClassBulk []"

definition own_fin :: "bytes \<Rightarrow> u64 \<Rightarrow> serverFlow \<Rightarrow> frame list" where
  "own_fin sid fid sf =
     (if sf_finSent sf then [server_frame TypeClose (if sf_localAbortSent sf then FlagFin OR FlagCloseAbort else FlagFin) sid fid (sf_finSequence sf) ClassBulk []] else [])"

definition handleLaneJoinOpen :: "'c open_env \<Rightarrow> Principal \<Rightarrow> frame \<Rightarrow> u64 \<Rightarrow> server \<Rightarrow> join_result \<times> frame list \<times> server" where
  "handleLaneJoinOpen en who fr laneID sv =
     (let h = fHeader fr; sid = hSessionID h; fid = hFlowID h; refuse = refuseLaneJoin (oe_clock en) sid fid in
      if IsZeroSessionID sid \<or> laneID = 0 \<or> fid = 0 then refuse LaneJoinInvalidIdentity ResetProtocol ''invalid lane join identity'' sv
      else case lookupSession sid (sv_sessions sv) of
        None \<Rightarrow> refuse LaneJoinUnknownSession ResetProtocol ''unknown session'' sv
      | Some flow \<Rightarrow>
          let sf = sv_heap sv flow; control = (hFlags h AND FlagReserveControl \<noteq> 0) in
          if sf_flowID sf \<noteq> fid then refuse LaneJoinFlowMismatch ResetProtocol ''unknown session'' sv
          else if \<not> samePrincipal (sf_principal sf) who then refuse LaneJoinPrincipalMismatch ResetProtocol ''unknown session'' sv
          else if control \<and> \<not> sf_reserveControl sf then refuse LaneJoinInvalidControlReplacement ResetProtocol ''invalid control lane replacement'' sv
          else if sf_completed sf then
            (if \<not> oe_written en then (JoinDropped, [], sv)
             else (JoinReplayed, [open_ok sid fid, final_ack sid fid sf] @ own_fin sid fid sf, sv))
          else if \<not> oe_committed en then
            (if \<not> oe_closed en then refuse LaneJoinLaneUnavailable ResetFlowLimit ''lane unavailable'' sv else (JoinDropped, [], sv))
          else (JoinCommitted, [open_ok sid fid] @ (if sf_remoteFinSeen sf then [final_ack sid fid sf] else []) @ own_fin sid fid sf, sv))"

section \<open>Runs of a gateway\<close>

text \<open>A connection to a destination is a number. The flows that run, each with the session it registered, the associations, and the tombstones whose timer has not fired. The address of a new
  flow is that of a new object: no running flow and no timer holds it. \<open>progress\<close> is the flow engine recording what it has sent and received.\<close>

record gateway =
  gw_server :: server
  gw_flows :: "(bytes \<times> nat \<times> Principal) list"
  gw_assocs :: "Principal list"
  gw_tombs :: "(bytes \<times> nat) list"

definition addresses :: "gateway \<Rightarrow> nat set" where
  "addresses g = (\<lambda>(_, flow, _). flow) ` set (gw_flows g) \<union> snd ` set (gw_tombs g)"

fun opened :: "'c open_env \<Rightarrow> Principal \<Rightarrow> frame \<Rightarrow> 'c open_result \<Rightarrow> gateway \<Rightarrow> gateway" where
  "opened en who fr (Opened c) g = g\<lparr>gw_flows := (hSessionID (fHeader fr), oe_flow en, who) # gw_flows g\<rparr>"
| "opened en who fr (Associated token) g = g\<lparr>gw_assocs := who # gw_assocs g\<rparr>"
| "opened en who fr _ g = g"

inductive gateway_reach :: "int \<Rightarrow> DestinationPolicy \<Rightarrow> gateway \<Rightarrow> bool" for maxSessions policy where
  start: "sv_maxSessions sv = maxSessions \<Longrightarrow> sv_policy sv = policy \<Longrightarrow> sv_accounts sv = [] \<Longrightarrow> sv_sessions sv = [] \<Longrightarrow>
    gateway_reach maxSessions policy \<lparr>gw_server = sv, gw_flows = [], gw_assocs = [], gw_tombs = []\<rparr>"
| stream_open: "gateway_reach maxSessions policy g \<Longrightarrow> handleSession (en :: nat open_env) who fr (gw_server g) = (res, dialed, sv) \<Longrightarrow> oe_flow en \<notin> addresses g \<Longrightarrow>
    gateway_reach maxSessions policy (opened en who fr res (g\<lparr>gw_server := sv\<rparr>))"
| flow_end: "gateway_reach maxSessions policy g \<Longrightarrow> gw_flows g = xs @ (sid, flow, who) # ys \<Longrightarrow> flow_returns fo sid flow who (gw_server g) = (timer, sv) \<Longrightarrow>
    gateway_reach maxSessions policy (g\<lparr>gw_server := sv, gw_flows := xs @ ys, gw_tombs := (if timer then (sid, flow) # gw_tombs g else gw_tombs g)\<rparr>)"
| completion_seen: "gateway_reach maxSessions policy g \<Longrightarrow> (sid, flow, who) \<in> set (gw_flows g) \<Longrightarrow> completion_tick flow (gw_server g) = (timer, sv) \<Longrightarrow>
    gateway_reach maxSessions policy (g\<lparr>gw_server := sv, gw_tombs := (if timer then (sid, flow) # gw_tombs g else gw_tombs g)\<rparr>)"
| assoc_end: "gateway_reach maxSessions policy g \<Longrightarrow> gw_assocs g = xs @ who # ys \<Longrightarrow>
    gateway_reach maxSessions policy (g\<lparr>gw_server := release_account who (gw_server g), gw_assocs := xs @ ys\<rparr>)"
| tomb_end: "gateway_reach maxSessions policy g \<Longrightarrow> gw_tombs g = xs @ (sid, flow) # ys \<Longrightarrow>
    gateway_reach maxSessions policy (g\<lparr>gw_server := tombstone_expires sid flow (gw_server g), gw_tombs := xs @ ys\<rparr>)"
| lane_join: "gateway_reach maxSessions policy g \<Longrightarrow> handleLaneJoinOpen (en :: nat open_env) who fr laneID (gw_server g) = (jr, frames, sv) \<Longrightarrow>
    gateway_reach maxSessions policy (g\<lparr>gw_server := sv\<rparr>)"
| progress: "gateway_reach maxSessions policy g \<Longrightarrow> sf_principal sf = sf_principal (sv_heap (gw_server g) flow) \<Longrightarrow> sf_flowID sf = sf_flowID (sv_heap (gw_server g) flow) \<Longrightarrow>
    sf_completed sf = sf_completed (sv_heap (gw_server g) flow) \<Longrightarrow>
    gateway_reach maxSessions policy (g\<lparr>gw_server := (gw_server g)\<lparr>sv_heap := (sv_heap (gw_server g))(flow := sf)\<rparr>\<rparr>)"

definition held :: "gateway \<Rightarrow> Principal multiset" where
  "held g = mset (map (\<lambda>(_, _, who). who) (gw_flows g)) + mset (gw_assocs g)"

text \<open>A session in the table belongs to a flow that runs or to a tombstone; a flow that runs is its own principal's and in the table until it is marked complete.\<close>

definition session_kept :: "gateway \<Rightarrow> bytes \<Rightarrow> nat \<Rightarrow> bool" where
  "session_kept g sid flow \<longleftrightarrow> (\<not> sf_completed (sv_heap (gw_server g) flow) \<and> (\<exists>who. (sid, flow, who) \<in> set (gw_flows g))) \<or> (sid, flow) \<in> set (gw_tombs g)"

definition flow_registered :: "server \<Rightarrow> bytes \<Rightarrow> nat \<Rightarrow> Principal \<Rightarrow> bool" where
  "flow_registered sv sid flow who \<longleftrightarrow> sf_principal (sv_heap sv flow) = who \<and> (sf_completed (sv_heap sv flow) \<or> (sid, flow) \<in> set (sv_sessions sv))"

definition gateway_inv :: "int \<Rightarrow> DestinationPolicy \<Rightarrow> gateway \<Rightarrow> bool" where
  "gateway_inv maxSessions policy g \<longleftrightarrow>
     sv_maxSessions (gw_server g) = maxSessions \<and> sv_policy (gw_server g) = policy \<and> table_exact (held g) (sv_accounts (gw_server g)) \<and>
     distinct (map fst (sv_sessions (gw_server g))) \<and> distinct (map (\<lambda>(_, flow, _). flow) (gw_flows g)) \<and>
     int (length (sv_sessions (gw_server g))) \<le> max maxSessions 0 \<and>
     (\<forall>sid flow who. (sid, flow, who) \<in> set (gw_flows g) \<longrightarrow> flow_registered (gw_server g) sid flow who) \<and>
     (\<forall>sid flow. (sid, flow) \<in> set (sv_sessions (gw_server g)) \<longrightarrow> session_kept g sid flow) \<and>
     (\<forall>sid flow. (sid, flow) \<in> set (gw_tombs g) \<longrightarrow> sf_completed (sv_heap (gw_server g) flow))"

lemma held_simps:
  "held (g\<lparr>gw_server := sv\<rparr>) = held g"
  "held (g\<lparr>gw_flows := (sid, flow, who) # gw_flows g\<rparr>) = add_mset who (held g)"
  "held (g\<lparr>gw_assocs := who # gw_assocs g\<rparr>) = add_mset who (held g)"
  by (simp_all add: held_def)

text \<open>What an opening does to the tables.\<close>

lemma register_ok:
  assumes "registerSession m sid flow sessions = (True, sessions')"
  shows "sessions' = sessions @ [(sid, flow)]" "sid \<notin> fst ` set sessions" "int (length sessions) < m"
proof -
  have "map_of sessions sid = None" "int (length sessions) < m" "sessions' = AList.update sid flow sessions"
    using assms by (auto simp: registerSession_def split: if_splits)
  then show "sessions' = sessions @ [(sid, flow)]" "sid \<notin> fst ` set sessions" "int (length sessions) < m"
    by (auto simp: map_of_eq_None_iff intro: update_fresh)
qed

lemma unregister_new:
  assumes "sid \<notin> fst ` set sessions"
  shows "unregisterSession sid flow (sessions @ [(sid, flow)]) = sessions"
proof -
  have "map_of sessions sid = None" "filter (\<lambda>e. fst e \<noteq> sid) sessions = sessions" using assms by (auto simp: map_of_eq_None_iff filter_id_conv)
  then show ?thesis by (simp add: unregisterSession_def delete_is_filter map_add_def)
qed

lemma register_unregister: "registerSession m sid flow sessions = (True, sessions') \<Longrightarrow> unregisterSession sid flow sessions' = sessions"
  using register_ok unregister_new by metis

lemma open_destination_effect:
  assumes "open_destination en who fr sv = (res, dialed, sv')" "table_exact (add_mset who live) (sv_accounts sv)"
  shows "sv_maxSessions sv' = sv_maxSessions sv \<and> sv_policy sv' = sv_policy sv \<and> (\<forall>a. a \<noteq> oe_flow en \<longrightarrow> sv_heap sv' a = sv_heap sv a) \<and>
    (case res of
       Opened c \<Rightarrow> table_exact (add_mset who live) (sv_accounts sv') \<and> sv_sessions sv' = sv_sessions sv @ [(hSessionID (fHeader fr), oe_flow en)] \<and>
         hSessionID (fHeader fr) \<notin> fst ` set (sv_sessions sv) \<and> int (length (sv_sessions sv)) < sv_maxSessions sv \<and> sf_principal (sv_heap sv' (oe_flow en)) = who \<and> \<not> sf_completed (sv_heap sv' (oe_flow en))
     | Associated _ \<Rightarrow> False
     | _ \<Rightarrow> table_exact live (sv_accounts sv') \<and> sv_sessions sv' = sv_sessions sv)"
proof -
  have rel: "table_exact live (sv_accounts (release_account who sv1))" if "sv_accounts sv1 = sv_accounts sv" for sv1
    using release_exact [OF assms(2)] that by (simp add: release_account_def)
  obtain r tried where dial: "DialContext (sv_policy sv) (oe_lookup en) (oe_dial en) (projr (DecodeDestination (fPayload fr))) = (r, tried)" by (metis surj_pair)
  obtain ok ss where reg: "registerSession (sv_maxSessions sv) (hSessionID (fHeader fr)) (oe_flow en) (sv_sessions sv) = (ok, ss)" by (metis surj_pair)
  show ?thesis
  proof (cases "isl (DecodeDestination (fPayload fr)) \<or> isl r \<or> \<not> oe_addLane en \<or> \<not> ok")
    case True
    then show ?thesis using assms(1) rel [of sv] dial reg
      by (auto simp: open_destination_def Let_def release_account_def split: sum.splits if_splits)
  next
    case False
    then obtain destination conn where d: "DecodeDestination (fPayload fr) = Inr destination" "r = Inr conn" by (auto simp: isl_def) (metis sumE)
    let ?sv = "sv\<lparr>sv_sessions := ss, sv_heap := (sv_heap sv)(oe_flow en := new_server_flow who fr)\<rparr>"
    have "registerSession (sv_maxSessions sv) (hSessionID (fHeader fr)) (oe_flow en) (sv_sessions sv) = (True, ss)" using reg False by simp
    note ro = register_ok [OF this] and ru = register_unregister [OF this]
    show ?thesis using assms(1,2) rel [of ?sv] d dial reg False ro ru
      by (auto simp: open_destination_def Let_def release_account_def new_server_flow_def split: if_splits)
  qed
qed

lemma handleSession_effect:
  assumes "handleSession en who fr sv = (res, dialed, sv')" "table_exact live (sv_accounts sv)"
  shows "sv_maxSessions sv' = sv_maxSessions sv \<and> sv_policy sv' = sv_policy sv \<and> (\<forall>a. a \<noteq> oe_flow en \<longrightarrow> sv_heap sv' a = sv_heap sv a) \<and>
    (case res of
       Opened c \<Rightarrow> table_exact (add_mset who live) (sv_accounts sv') \<and> sv_sessions sv' = sv_sessions sv @ [(hSessionID (fHeader fr), oe_flow en)] \<and>
         hSessionID (fHeader fr) \<notin> fst ` set (sv_sessions sv) \<and> int (length (sv_sessions sv)) < sv_maxSessions sv \<and> sf_principal (sv_heap sv' (oe_flow en)) = who \<and> \<not> sf_completed (sv_heap sv' (oe_flow en))
     | Associated _ \<Rightarrow> table_exact (add_mset who live) (sv_accounts sv') \<and> sv_sessions sv' = sv_sessions sv
     | _ \<Rightarrow> table_exact live (sv_accounts sv') \<and> sv_sessions sv' = sv_sessions sv)"
proof -
  obtain r table where adm: "admitAccountFlow (oe_store en) (oe_clock en) who (sv_accounts sv) = (r, table)" by (metis surj_pair)
  have same: "table = sv_accounts sv" if "r \<noteq> None" using adm that by (auto simp: admitAccountFlow_def Let_def split: sum.splits if_splits)
  have ex: "table_exact (add_mset who live) table" if "r = None" using admit_exact [OF assms(2)] adm that by blast
  show ?thesis
  proof (cases "r = None \<and> open_destination en who fr (sv\<lparr>sv_accounts := table\<rparr>) = (res, dialed, sv')")
    case True
    with open_destination_effect [of en who fr "sv\<lparr>sv_accounts := table\<rparr>" res dialed sv' live] ex show ?thesis by (auto split: open_result.splits)
  next
    case False
    then show ?thesis using assms adm same ex
      by (auto simp: handleSession_def Let_def refuseAccountFlow_def split: sum.splits if_splits option.splits)
  qed
qed

lemma refuse_quiet: "refuseLaneJoin clock sid fid reason code message sv = (jr, frames, sv') \<Longrightarrow> sv' = sv\<lparr>sv_refusals := sv_refusals sv'\<rparr>"
  by (auto simp: refuseLaneJoin_def)

lemma join_quiet: "handleLaneJoinOpen en who fr laneID sv = (jr, frames, sv') \<Longrightarrow> sv' = sv\<lparr>sv_refusals := sv_refusals sv'\<rparr>"
  by (auto simp: handleLaneJoinOpen_def Let_def refuseLaneJoin_def split: if_splits option.splits)

text \<open>Taking a session out of the table: it is there under its own address only.\<close>

lemma unregister_set:
  assumes "distinct (map fst sessions)"
  shows "set (unregisterSession sid flow sessions) = set sessions - {(sid, flow)}" "distinct (map fst (unregisterSession sid flow sessions))"
    "length (unregisterSession sid flow sessions) \<le> length sessions"
proof -
  show "set (unregisterSession sid flow sessions) = set sessions - {(sid, flow)}"
  proof (cases "map_of sessions sid = Some flow")
    case True
    have "f = flow" if "(sid, f) \<in> set sessions" for f using True map_of_is_SomeI [OF assms that] by simp
    then have "e \<in> set sessions \<Longrightarrow> fst e \<noteq> sid \<longleftrightarrow> e \<noteq> (sid, flow)" for e by (cases e) auto
    then show ?thesis using True by (auto simp: unregisterSession_def delete_is_filter)
  next
    case False
    then have "(sid, flow) \<notin> set sessions" using map_of_is_SomeI [OF assms] by blast
    then show ?thesis using False by (simp add: unregisterSession_def)
  qed
  show "distinct (map fst (unregisterSession sid flow sessions))" "length (unregisterSession sid flow sessions) \<le> length sessions"
    using assms by (auto simp: unregisterSession_def delete_is_filter distinct_map_filter)
qed

lemma inv_parts:
  assumes "gateway_inv m pol g"
  shows "sv_maxSessions (gw_server g) = m" "sv_policy (gw_server g) = pol" "table_exact (held g) (sv_accounts (gw_server g))"
    "distinct (map fst (sv_sessions (gw_server g)))" "distinct (map (\<lambda>(_, flow, _). flow) (gw_flows g))" "int (length (sv_sessions (gw_server g))) \<le> max m 0"
    "\<And>sid flow who. (sid, flow, who) \<in> set (gw_flows g) \<Longrightarrow> flow_registered (gw_server g) sid flow who"
    "\<And>sid flow. (sid, flow) \<in> set (sv_sessions (gw_server g)) \<Longrightarrow> session_kept g sid flow"
    "\<And>sid flow. (sid, flow) \<in> set (gw_tombs g) \<Longrightarrow> sf_completed (sv_heap (gw_server g) flow)"
  using assms by (auto simp: gateway_inv_def)

lemma addresses_of:
  "(sid, flow, who) \<in> set (gw_flows g) \<Longrightarrow> flow \<in> addresses g" "(sid, flow) \<in> set (gw_tombs g) \<Longrightarrow> flow \<in> addresses g"
  "session_kept g sid flow \<Longrightarrow> flow \<in> addresses g"
proof -
  show f: "(sid, flow, who) \<in> set (gw_flows g) \<Longrightarrow> flow \<in> addresses g" for who unfolding addresses_def by (rule UnI1, rule image_eqI) auto
  show t: "(sid, flow) \<in> set (gw_tombs g) \<Longrightarrow> flow \<in> addresses g" unfolding addresses_def by (rule UnI2, rule image_eqI) auto
  show "session_kept g sid flow \<Longrightarrow> flow \<in> addresses g" using f t by (auto simp: session_kept_def)
qed

lemma one_flow_per_address:
  assumes "distinct (map (\<lambda>(_, flow, _). flow) fs)" "(sid, flow, who) \<in> set fs" "(sid', flow, who') \<in> set fs"
  shows "sid' = sid \<and> who' = who"
proof -
  have "inj_on (\<lambda>(_, flow, _). flow) (set fs)" using assms(1) by (simp add: distinct_map)
  from inj_onD [OF this _ assms(2,3)] show ?thesis by simp
qed

lemma open_inv:
  assumes "gateway_inv m pol g" "handleSession en who fr (gw_server g) = (res, dialed, sv)" "oe_flow en \<notin> addresses g"
  shows "gateway_inv m pol (opened en who fr res (g\<lparr>gw_server := sv\<rparr>))"
proof -
  note I = inv_parts [OF assms(1)] and E = handleSession_effect [OF assms(2) inv_parts(3) [OF assms(1)]]
  have heap: "sv_heap sv a = sv_heap (gw_server g) a" if "a \<in> addresses g" for a using E assms(3) that by metis
  have sub: "set (sv_sessions (gw_server g)) \<subseteq> set (sv_sessions sv)" using E by (auto split: open_result.splits)
  have f: "flow_registered sv sid flow w" if "(sid, flow, w) \<in> set (gw_flows g)" for sid flow w
    using I(7) [OF that] heap [OF addresses_of(1) [OF that]] sub by (auto simp: flow_registered_def)
  have k: "session_kept g' sid flow" if "(sid, flow) \<in> set (sv_sessions (gw_server g))" "gw_server g' = sv" "set (gw_flows g) \<subseteq> set (gw_flows g')" "gw_tombs g' = gw_tombs g"
    for sid flow g' using I(8) [OF that(1)] heap [OF addresses_of(3) [OF I(8) [OF that(1)]]] that(2-) by (auto simp: session_kept_def)
  have t: "sf_completed (sv_heap sv flow)" if "(sid, flow) \<in> set (gw_tombs g)" for sid flow using I(9) [OF that] heap [OF addresses_of(2) [OF that]] by simp
  show ?thesis
  proof (cases "\<exists>c. res = Opened c")
    case True
    then obtain c where Opened: "res = Opened c" ..
    let ?sid = "hSessionID (fHeader fr)" and ?g = "g\<lparr>gw_server := sv, gw_flows := (hSessionID (fHeader fr), oe_flow en, who) # gw_flows g\<rparr>"
    have new: "flow_registered sv ?sid (oe_flow en) who" "session_kept ?g ?sid (oe_flow en)" using E Opened by (auto simp: flow_registered_def session_kept_def)
    have "oe_flow en \<notin> (\<lambda>(_, flow, _). flow) ` set (gw_flows g)" using assms(3) by (auto simp: addresses_def)
    moreover have "session_kept ?g s a" if "(s, a) \<in> set (sv_sessions (gw_server g))" for s a by (rule k [OF that]) auto
    ultimately show ?thesis using E I(1-6) f new t Opened by (auto simp: gateway_inv_def held_def)
  next
    case False
    then have s: "sv_sessions sv = sv_sessions (gw_server g)" using E by (auto split: open_result.splits)
    let ?g = "opened en who fr res (g\<lparr>gw_server := sv\<rparr>)"
    have g: "gw_server ?g = sv" "gw_flows ?g = gw_flows g" "gw_tombs ?g = gw_tombs g" using False by (cases res; simp)+
    have "table_exact (held ?g) (sv_accounts sv)" using E False by (cases res) (auto simp: held_def)
    moreover have "session_kept ?g s a" if "(s, a) \<in> set (sv_sessions (gw_server g))" for s a by (rule k [OF that]) (simp_all add: g)
    ultimately show ?thesis using E I(1-6) f t unfolding gateway_inv_def g s by blast
  qed
qed

text \<open>Marking a running flow complete.\<close>

lemma retain_completed_inv:
  assumes "gateway_inv m pol g" "(sid, flow, who) \<in> set (gw_flows g)" "retainCompletedSession flow (gw_server g) = (timer, sv)"
  shows "gateway_inv m pol (g\<lparr>gw_server := sv, gw_tombs := (if timer then (sid, flow) # gw_tombs g else gw_tombs g)\<rparr>)" "sf_completed (sv_heap sv flow)"
proof -
  note I = inv_parts [OF assms(1)]
  let ?g = "g\<lparr>gw_server := sv, gw_tombs := (if timer then (sid, flow) # gw_tombs g else gw_tombs g)\<rparr>"
  show "sf_completed (sv_heap sv flow)" using assms(3) by (auto simp: retainCompletedSession_def split: if_splits)
  show "gateway_inv m pol ?g"
  proof (cases "sf_completed (sv_heap (gw_server g) flow)")
    case True
    then show ?thesis using assms(1,3) by (auto simp: retainCompletedSession_def)
  next
    case False
    then have sv: "timer" "sv = (gw_server g)\<lparr>sv_heap := (sv_heap (gw_server g))(flow := (sv_heap (gw_server g) flow)\<lparr>sf_completed := True\<rparr>)\<rparr>"
      using assms(3) by (auto simp: retainCompletedSession_def)
    have "session_kept ?g s a" if "(s, a) \<in> set (sv_sessions (gw_server g))" for s a
      using I(8) [OF that] one_flow_per_address [OF I(5) assms(2)] by (auto simp: session_kept_def sv)
    moreover have "flow_registered sv s a w" if "(s, a, w) \<in> set (gw_flows g)" for s a w using I(7) [OF that] by (auto simp: flow_registered_def sv)
    moreover have "sf_completed (sv_heap sv a)" if "(s, a) \<in> set (gw_tombs g)" for s a using I(9) [OF that] by (simp add: sv)
    ultimately show ?thesis using I(1-6) by (auto simp: gateway_inv_def held_def sv)
  qed
qed

text \<open>Letting go of a session: its entry is gone, and what is left is kept by what is left.\<close>

lemma forget_inv:
  assumes "gateway_inv m pol g" "table_exact (held g') (sv_accounts (gw_server g'))"
    and sv: "gw_server g' = (gw_server g)\<lparr>sv_sessions := ss, sv_accounts := sv_accounts (gw_server g')\<rparr>"
    and ss: "set ss \<subseteq> set (sv_sessions (gw_server g))" "distinct (map fst ss)" "length ss \<le> length (sv_sessions (gw_server g))"
    and fs: "set (gw_flows g') \<subseteq> set (gw_flows g)" "distinct (map (\<lambda>(_, flow, _). flow) (gw_flows g'))" and ts: "set (gw_tombs g') \<subseteq> set (gw_tombs g)"
    and kept: "\<And>s a. (s, a) \<in> set ss \<Longrightarrow> session_kept g s a \<Longrightarrow> session_kept g' s a"
    and there: "\<And>s a w. (s, a, w) \<in> set (gw_flows g') \<Longrightarrow> (s, a) \<in> set (sv_sessions (gw_server g)) \<Longrightarrow> \<not> sf_completed (sv_heap (gw_server g) a) \<Longrightarrow> (s, a) \<in> set ss"
  shows "gateway_inv m pol g'"
proof -
  note I = inv_parts [OF assms(1)]
  have heap: "sv_heap (gw_server g') = sv_heap (gw_server g)" "sv_sessions (gw_server g') = ss" "sv_maxSessions (gw_server g') = m" "sv_policy (gw_server g') = pol"
    using I(1,2) by (subst sv, simp)+
  have "flow_registered (gw_server g') s a w" if "(s, a, w) \<in> set (gw_flows g')" for s a w
    using I(7) [of s a w] that fs(1) there [OF that] by (auto simp: flow_registered_def heap)
  moreover have "session_kept g' s a" if "(s, a) \<in> set ss" for s a using kept [OF that] I(8) that ss(1) by blast
  moreover have "int (length ss) \<le> max m 0" using ss(3) I(6) by linarith
  ultimately show ?thesis using assms(2) ss(2) fs(2) ts I(9) unfolding gateway_inv_def heap by blast
qed

lemma release_held:
  assumes "gateway_inv m pol g" "held g = add_mset who (held g')" "sv_accounts (gw_server g') = releaseAccountFlow who (sv_accounts (gw_server g))"
  shows "table_exact (held g') (sv_accounts (gw_server g'))"
  unfolding assms(3) by (rule release_exact [OF inv_parts(3) [OF assms(1), unfolded assms(2)]])

text \<open>A flow that has returned: marked complete, it leaves its tombstone; otherwise its entry goes with it.\<close>

lemma drop_inv:
  assumes "gateway_inv m pol g" "gw_flows g = xs @ (sid, flow, who) # ys" "sf_completed (sv_heap (gw_server g) flow)"
  shows "gateway_inv m pol (g\<lparr>gw_server := release_account who (gw_server g), gw_flows := xs @ ys\<rparr>)" (is "gateway_inv m pol ?g")
proof (rule forget_inv [OF assms(1), of ?g "sv_sessions (gw_server g)"])
  note I = inv_parts [OF assms(1)]
  show "table_exact (held ?g) (sv_accounts (gw_server ?g))" by (rule release_held [OF assms(1)]) (simp_all add: held_def assms(2) release_account_def)
  show "session_kept ?g s a" if "session_kept g s a" for s a using that assms(3) by (auto simp: session_kept_def assms(2) release_account_def)
  show "distinct (map (\<lambda>(_, flow, _). flow) (gw_flows ?g))" using I(5) by (simp add: assms(2))
qed (use assms inv_parts(4) [OF assms(1)] in \<open>auto simp: release_account_def\<close>)

lemma fail_inv:
  assumes "gateway_inv m pol g" "gw_flows g = xs @ (sid, flow, who) # ys"
  shows "gateway_inv m pol (g\<lparr>gw_server := release_account who ((gw_server g)\<lparr>sv_sessions := unregisterSession sid flow (sv_sessions (gw_server g))\<rparr>), gw_flows := xs @ ys\<rparr>)"
    (is "gateway_inv m pol ?g")
proof (rule forget_inv [OF assms(1), of ?g "unregisterSession sid flow (sv_sessions (gw_server g))"])
  note I = inv_parts [OF assms(1)] and U = unregister_set [OF inv_parts(4) [OF assms(1)], of sid flow]
  show "table_exact (held ?g) (sv_accounts (gw_server ?g))" by (rule release_held [OF assms(1)]) (simp_all add: held_def assms(2) release_account_def)
  show "session_kept ?g s a" if "(s, a) \<in> set (unregisterSession sid flow (sv_sessions (gw_server g)))" "session_kept g s a" for s a
    using that by (auto simp: session_kept_def assms(2) release_account_def U(1))
  show d: "distinct (map (\<lambda>(_, flow, _). flow) (gw_flows ?g))" using I(5) by (simp add: assms(2))
  show "(s, a) \<in> set (unregisterSession sid flow (sv_sessions (gw_server g)))" if "(s, a, w) \<in> set (gw_flows ?g)" "(s, a) \<in> set (sv_sessions (gw_server g))" for s a w
  proof -
    have "flow \<notin> (\<lambda>(_, flow, _). flow) ` set (xs @ ys)" using I(5) by (simp add: assms(2) image_Un)
    then have "a \<noteq> flow" using that(1) by force
    then show ?thesis using that(2) by (simp add: U(1))
  qed
  show "set (unregisterSession sid flow (sv_sessions (gw_server g))) \<subseteq> set (sv_sessions (gw_server g))" "distinct (map fst (unregisterSession sid flow (sv_sessions (gw_server g))))"
    "length (unregisterSession sid flow (sv_sessions (gw_server g))) \<le> length (sv_sessions (gw_server g))" using U by auto
qed (auto simp: release_account_def assms(2))

lemma expire_inv:
  assumes "gateway_inv m pol g" "gw_tombs g = xs @ (sid, flow) # ys"
  shows "gateway_inv m pol (g\<lparr>gw_server := tombstone_expires sid flow (gw_server g), gw_tombs := xs @ ys\<rparr>)" (is "gateway_inv m pol ?g")
proof (rule forget_inv [OF assms(1), of ?g "unregisterSession sid flow (sv_sessions (gw_server g))"])
  note I = inv_parts [OF assms(1)] and U = unregister_set [OF inv_parts(4) [OF assms(1)], of sid flow]
  show "table_exact (held ?g) (sv_accounts (gw_server ?g))" using I(3) by (simp add: held_def tombstone_expires_def)
  show "session_kept ?g s a" if "(s, a) \<in> set (unregisterSession sid flow (sv_sessions (gw_server g)))" "session_kept g s a" for s a
    using that by (auto simp: session_kept_def assms(2) tombstone_expires_def U(1))
  have "sf_completed (sv_heap (gw_server g) flow)" using I(9) [of sid flow] by (simp add: assms(2))
  then show "(s, a) \<in> set (unregisterSession sid flow (sv_sessions (gw_server g)))"
    if "(s, a) \<in> set (sv_sessions (gw_server g))" "\<not> sf_completed (sv_heap (gw_server g) a)" for s a using that by (auto simp: U(1))
  show "set (unregisterSession sid flow (sv_sessions (gw_server g))) \<subseteq> set (sv_sessions (gw_server g))" "distinct (map fst (unregisterSession sid flow (sv_sessions (gw_server g))))"
    "length (unregisterSession sid flow (sv_sessions (gw_server g))) \<le> length (sv_sessions (gw_server g))" using U by auto
  show "distinct (map (\<lambda>(_, flow, _). flow) (gw_flows ?g))" using I(5) by simp
qed (auto simp: tombstone_expires_def assms(2))

lemma flow_end_inv:
  assumes "gateway_inv m pol g" "gw_flows g = xs @ (sid, flow, who) # ys" "flow_returns fo sid flow who (gw_server g) = (timer, sv)"
  shows "gateway_inv m pol (g\<lparr>gw_server := sv, gw_flows := xs @ ys, gw_tombs := (if timer then (sid, flow) # gw_tombs g else gw_tombs g)\<rparr>)"
proof (cases "flowComplete fo (sv_heap (gw_server g) flow)")
  case True
  then obtain sv1 where r: "retainCompletedSession flow (gw_server g) = (timer, sv1)" "sv = release_account who sv1"
    using assms(3) by (auto simp: flow_returns_def split: prod.splits)
  note R = retain_completed_inv [OF assms(1) _ r(1), of sid who]
  show ?thesis using drop_inv [OF R(1), of xs sid flow who ys] R(2) by (cases g; cases timer) (use assms(2) r(2) in simp_all)
next
  case False
  then show ?thesis using fail_inv [OF assms(1,2)] assms(3) by (auto simp: flow_returns_def)
qed

lemma gateway_reach_inv: "gateway_reach m pol g \<Longrightarrow> gateway_inv m pol g"
proof (induction rule: gateway_reach.induct)
  case (start sv)
  then show ?case by (simp add: gateway_inv_def held_def table_exact_def entry_exact_def)
next
  case (stream_open g en who fr res dialed sv)
  then show ?case by (blast intro: open_inv)
next
  case (flow_end g xs sid flow who ys fo timer sv)
  then show ?case by (blast intro: flow_end_inv)
next
  case (completion_seen g sid flow who timer sv)
  show ?case
  proof (cases "sf_finSent (sv_heap (gw_server g) flow) \<and> sf_remoteFinSeen (sv_heap (gw_server g) flow)")
    case True
    then show ?thesis using completion_seen by (intro retain_completed_inv(1)) (auto simp: completion_tick_def)
  next
    case False
    then show ?thesis using completion_seen by (auto simp: completion_tick_def)
  qed
next
  case (assoc_end g xs who ys)
  let ?g = "g\<lparr>gw_server := release_account who (gw_server g), gw_assocs := xs @ ys\<rparr>"
  have "table_exact (held ?g) (sv_accounts (gw_server ?g))" by (rule release_held [OF assoc_end.IH]) (simp_all add: held_def assoc_end.hyps release_account_def)
  then show ?case using inv_parts(4,5) [OF assoc_end.IH]
    by (intro forget_inv [OF assoc_end.IH, of ?g "sv_sessions (gw_server g)"]) (auto simp: release_account_def session_kept_def)
next
  case (tomb_end g xs sid flow ys)
  then show ?case by (blast intro: expire_inv)
next
  case (lane_join g en who fr laneID jr frames sv)
  have "sv = (gw_server g)\<lparr>sv_refusals := sv_refusals sv\<rparr>" by (rule join_quiet [OF lane_join.hyps(2)])
  then obtain r where "sv = (gw_server g)\<lparr>sv_refusals := r\<rparr>" ..
  with lane_join.IH show ?case by (simp add: gateway_inv_def held_def session_kept_def flow_registered_def)
next
  case (progress g sf flow)
  then show ?case by (auto simp: gateway_inv_def held_def session_kept_def flow_registered_def)
qed

section \<open>Properties\<close>

text \<open>C30: every slot is accounted for. Over any run of a gateway, with opens that are refused at any point, streams that fail, flows that complete or
  break and associations that end, an account is charged exactly for the flows and associations its devices are running: nothing refused or finished
  stays charged, and nothing that runs escapes the count.\<close>

theorem gateway_slots_exact:
  assumes "gateway_reach m pol g"
  shows "case map_of (sv_accounts (gw_server g)) a of None \<Rightarrow> account_flows (held g) a = 0
    | Some u \<Rightarrow> ug_flows u = int (account_flows (held g) a) \<and> 0 < account_flows (held g) a \<and>
        (\<forall>k. device_count (ug_devices u) k = int (device_flows (held g) a k))"
proof -
  note ex = inv_parts(3) [OF gateway_reach_inv [OF assms]]
  show ?thesis
  proof (cases "map_of (sv_accounts (gw_server g)) a")
    case None
    then show ?thesis using table_no_entry [OF ex] by simp
  next
    case (Some u)
    from table_entry [OF ex Some] show ?thesis using Some count_exact [of "held g" a u] by (simp add: usage_exact_def)
  qed
qed

text \<open>C31: the table of sessions holds what it should. In every run it is within the configured maximum; an entry belongs to a flow that runs or to a completed one
  whose timer is pending, so none is left behind; and a flow that runs is in it, under its own identifier and with the principal that opened it, until it is marked complete.\<close>

theorem session_table_exact:
  assumes "gateway_reach m pol g"
  shows "int (length (sv_sessions (gw_server g))) \<le> max m 0 \<and>
    (lookupSession sid (sv_sessions (gw_server g)) = Some flow \<longrightarrow> (\<exists>who. (sid, flow, who) \<in> set (gw_flows g)) \<or> (sid, flow) \<in> set (gw_tombs g)) \<and>
    ((sid, flow, who) \<in> set (gw_flows g) \<longrightarrow> sf_principal (sv_heap (gw_server g) flow) = who \<and>
      (sf_completed (sv_heap (gw_server g) flow) \<or> lookupSession sid (sv_sessions (gw_server g)) = Some flow))"
proof -
  note I = inv_parts [OF gateway_reach_inv [OF assms]]
  have "(\<exists>who. (sid, flow, who) \<in> set (gw_flows g)) \<or> (sid, flow) \<in> set (gw_tombs g)" if "lookupSession sid (sv_sessions (gw_server g)) = Some flow"
    using I(8) [of sid flow] that by (auto simp: lookupSession_def session_kept_def dest: map_of_SomeD)
  moreover have "sf_principal (sv_heap (gw_server g) flow) = who \<and> (sf_completed (sv_heap (gw_server g) flow) \<or> lookupSession sid (sv_sessions (gw_server g)) = Some flow)"
    if "(sid, flow, who) \<in> set (gw_flows g)" using I(7) [OF that] I(4) by (simp add: flow_registered_def lookupSession_def)
  ultimately show ?thesis using I(6) by blast
qed

text \<open>C32: identifiers route, they do not authorize. A stream is attached to a session, or told how it ended, only when it names a session of the table and
  the flow of that session, and comes from the device that opened it: the same provider, account and device.\<close>

theorem join_needs_owner:
  assumes "gateway_reach m pol g" "handleLaneJoinOpen en who fr laneID (gw_server g) = (jr, frames, sv)" "jr = JoinCommitted \<or> jr = JoinReplayed"
  shows "\<exists>flow owner. ((hSessionID (fHeader fr), flow, owner) \<in> set (gw_flows g) \<or> (hSessionID (fHeader fr), flow) \<in> set (gw_tombs g)) \<and>
    sf_flowID (sv_heap (gw_server g) flow) = hFlowID (fHeader fr) \<and> sf_principal (sv_heap (gw_server g) flow) = owner \<and> samePrincipal owner who"
proof -
  note I = inv_parts [OF gateway_reach_inv [OF assms(1)]]
  obtain flow where f: "lookupSession (hSessionID (fHeader fr)) (sv_sessions (gw_server g)) = Some flow"
      "sf_flowID (sv_heap (gw_server g) flow) = hFlowID (fHeader fr)" "samePrincipal (sf_principal (sv_heap (gw_server g) flow)) who"
    using assms(2,3) by (auto simp: handleLaneJoinOpen_def Let_def refuseLaneJoin_def split: if_splits option.splits)
  have "session_kept g (hSessionID (fHeader fr)) flow" using f(1) I(8) by (auto simp: lookupSession_def dest: map_of_SomeD)
  then have "(\<exists>owner. (hSessionID (fHeader fr), flow, owner) \<in> set (gw_flows g)) \<or> (hSessionID (fHeader fr), flow) \<in> set (gw_tombs g)" by (auto simp: session_kept_def)
  then show ?thesis using f I(7) unfolding flow_registered_def by blast
qed

lemma DialContext_allowed:
  assumes "DialContext p lookup dial destination = (res, dialed)" "a \<in> set dialed"
  shows "\<exists>ip port. policy_allows p ip \<and> a = JoinHostPort (ip_String ip) (Itoa port)"
proof -
  obtain host port ips where "dial_loop p dial port ips [] DialFailed = (res, dialed)"
    using assms by (auto simp: DialContext_def split: sum.splits option.splits if_splits)
  from dial_loop_dialed [OF this] obtain n where "dialed = take n (map (\<lambda>ip. JoinHostPort (ip_String ip) (Itoa port)) (filter (policy_allows p) ips))" by auto
  then have "a \<in> (\<lambda>ip. JoinHostPort (ip_String ip) (Itoa port)) ` set (filter (policy_allows p) ips)" using assms(2) by (metis in_set_takeD set_map)
  then show ?thesis by auto
qed

text \<open>C33: nothing is dialed without authority. A stream makes the gateway dial an address only when its first frame is a well-formed OPEN, its device is authorized at that
  moment, its account has room for the flow, and the address is one the destination policy allows.\<close>

theorem dial_requires_authority:
  assumes "handleSession en who fr sv = (res, dialed, sv')" "a \<in> set dialed"
  shows "\<exists>auth ip port. Authorize (oe_clock en) who (oe_clock en) (oe_store en) = Inr auth \<and> fst (admitAccountFlow (oe_store en) (oe_clock en) who (sv_accounts sv)) = None \<and>
    hType (fHeader fr) = TypeOpen \<and> policy_allows (sv_policy sv) ip \<and> a = JoinHostPort (ip_String ip) (Itoa port)"
proof -
  obtain table where t: "admitAccountFlow (oe_store en) (oe_clock en) who (sv_accounts sv) = (None, table)" "hType (fHeader fr) = TypeOpen"
      "open_destination en who fr (sv\<lparr>sv_accounts := table\<rparr>) = (res, dialed, sv')"
    using assms by (auto simp: handleSession_def Let_def refuseAccountFlow_def split: sum.splits if_splits option.splits prod.splits)
  obtain auth where "Authorize (oe_clock en) who (oe_clock en) (oe_store en) = Inr auth" using t(1) by (auto simp: admitAccountFlow_def split: sum.splits)
  moreover obtain r destination where "DialContext (sv_policy sv) (oe_lookup en) (oe_dial en) destination = (r, dialed)"
    using t(3) assms(2) by (auto simp: open_destination_def Let_def split: sum.splits prod.splits if_splits bool.splits)
  from DialContext_allowed [OF this assms(2)] have "\<exists>ip port. policy_allows (sv_policy sv) ip \<and> a = JoinHostPort (ip_String ip) (Itoa port)" .
  ultimately show ?thesis using t(1,2) by auto
qed

section \<open>A sample run\<close>

definition sample_server :: server where
  "sample_server = \<lparr>sv_maxSessions = 4, sv_policy = \<lparr>AllowPrivate = True, DialTimeout = 0\<rparr>, sv_accounts = [], sv_sessions = [], sv_heap = (\<lambda>_. undefined),
     sv_refusals = Map.empty, sv_accountRefusals = Map.empty\<rparr>"

definition sample_open :: frame where
  "sample_open = server_frame TypeOpen 0 (replicate 16 1) 5 0 ClassNew [97, 58, 49]"

definition sample_open_env :: "nat open_env" where
  "sample_open_env = \<lparr>oe_store = one_store, oe_clock = 3, oe_lookup = (\<lambda>_. Some [[8, 8, 8, 8]]), oe_dial = (\<lambda>_. Some 2), oe_flow = 0, oe_addLane = True,
     oe_written = True, oe_committed = True, oe_closed = False\<rparr>"

definition sample_running :: gateway where
  "sample_running = \<lparr>gw_server = sample_server\<lparr>sv_accounts := one_table, sv_sessions := [(replicate 16 1, 0)], sv_heap := (\<lambda>_. undefined)(0 := new_server_flow one_principal sample_open)\<rparr>,
     gw_flows = [(replicate 16 1, 0, one_principal)], gw_assocs = [], gw_tombs = []\<rparr>"

lemma sample_destination: "DecodeDestination [97, 58, 49] = Inr [97, 58, 49]"
proof -
  have t: "TrimSpace [97, 58, 49] = [97, 58, 49]" by (simp add: TrimSpace_def strip_if space_codes_def)
  have e: "EncodeDestination [97, 58, 49] = Inr [97, 58, 49]"
    by (simp add: EncodeDestination_def t split_defs maxDestinationLength_def host_character_def Atoi_def is_digit_def decimal_def Itoa_def digits.simps)
  then show ?thesis by (simp add: DecodeDestination_def maxDestinationLength_def)
qed

lemma sample_dial:
  "DialContext \<lparr>AllowPrivate = True, DialTimeout = 0\<rparr> (\<lambda>_. Some [[8, 8, 8, 8]]) (\<lambda>_. Some (2 :: nat)) [97, 58, 49] =
     (Inr 2, [JoinHostPort (ip_String [8, 8, 8, 8]) (Itoa 1)])"
proof -
  have "SplitHostPort [97, 58, 49] = Some ([97], [49])" by (simp add: split_defs)
  moreover have "Atoi [49] = Some 1" by (simp add: Atoi_def is_digit_def decimal_def)
  ultimately have "parseDestination [97, 58, 49] = Inr ([97], 1)" by (simp add: parseDestination_def)
  moreover have "ParseIP [97] = None" by (simp add: ParseIP_def)
  ultimately show ?thesis by (simp add: DialContext_def destination_addresses_def)
qed

lemma sample_opens:
  "handleSession sample_open_env one_principal sample_open sample_server =
     (Opened 2, [JoinHostPort (ip_String [8, 8, 8, 8]) (Itoa 1)], gw_server sample_running)"
proof -
  have sid: "\<not> IsZeroSessionID (replicate 16 1)" by (simp add: IsZeroSessionID_def)
  have n: "\<not> IsUDPAssociation [97, 58, 49]" "DecodeUDPResumeOpen [97, 58, 49] = None"
    by (simp_all add: IsUDPAssociation_def UDPAssociationMarker_def DecodeUDPResumeOpen_def UDPResumeMarker_def)
  have h: "fHeader sample_open = \<lparr>hVersion = Version, hType = TypeOpen, hFlags = 0, hSessionID = replicate 16 1, hFlowID = 5, hSequence = 0, hPayloadLen = 0, hClass = ClassNew\<rparr>"
      "fPayload sample_open = [97, 58, 49]" by (simp_all add: sample_open_def server_frame_def)
  have reg: "registerSession 4 (replicate 16 1) 0 [] = (True, [(replicate 16 1, 0)])" by (simp add: registerSession_def)
  have ne: "TypeOpen \<noteq> TypeJoin" by (simp add: TypeOpen_def TypeJoin_def)
  show ?thesis using sid n reg ne sample_dial
    by (simp add: handleSession_def open_destination_def h sample_destination one_authorized one_admitted sample_open_env_def sample_server_def sample_running_def Let_def)
qed

lemma sample_gateway: "gateway_reach 4 \<lparr>AllowPrivate = True, DialTimeout = 0\<rparr> sample_running"
proof -
  let ?g = "\<lparr>gw_server = sample_server, gw_flows = [], gw_assocs = [], gw_tombs = []\<rparr>"
  have "gateway_reach 4 \<lparr>AllowPrivate = True, DialTimeout = 0\<rparr> ?g" by (rule gateway_reach.start) (simp_all add: sample_server_def)
  moreover have "handleSession sample_open_env one_principal sample_open (gw_server ?g) =
      (Opened 2, [JoinHostPort (ip_String [8, 8, 8, 8]) (Itoa 1)], gw_server sample_running)" by (simp add: sample_opens)
  moreover have "oe_flow sample_open_env \<notin> addresses ?g" by (simp add: addresses_def)
  ultimately have "gateway_reach 4 \<lparr>AllowPrivate = True, DialTimeout = 0\<rparr> (opened sample_open_env one_principal sample_open (Opened 2) (?g\<lparr>gw_server := gw_server sample_running\<rparr>))"
    by (rule gateway_reach.stream_open)
  moreover have "opened sample_open_env one_principal sample_open (Opened 2) (?g\<lparr>gw_server := gw_server sample_running\<rparr>) = sample_running"
    by (simp add: sample_running_def sample_open_def server_frame_def sample_open_env_def)
  ultimately show ?thesis by simp
qed

theorem gateway_slots_exact_witness:
  "map_of (sv_accounts (gw_server sample_running)) [1] = Some \<lparr>ug_flows = 1, ug_devices = [([2], 1)]\<rparr> \<and> int (account_flows (held sample_running) [1]) = 1"
  using gateway_slots_exact [OF sample_gateway, of "[1]"] by (simp add: sample_running_def one_table_def)

theorem session_table_exact_witness:
  "lookupSession (replicate 16 1) (sv_sessions (gw_server sample_running)) = Some 0 \<and> sf_principal (sv_heap (gw_server sample_running) 0) = one_principal"
  using session_table_exact [OF sample_gateway, of "replicate 16 1" 0 one_principal] by (simp add: sample_running_def new_server_flow_def)

theorem join_needs_owner_witness:
  "\<exists>frames sv. handleLaneJoinOpen sample_open_env one_principal sample_open 9 (gw_server sample_running) = (JoinCommitted, frames, sv) \<and>
     samePrincipal (sf_principal (sv_heap (gw_server sample_running) 0)) one_principal"
proof -
  have sid: "\<not> IsZeroSessionID (replicate 16 1)" by (simp add: IsZeroSessionID_def)
  obtain frames sv where j: "handleLaneJoinOpen sample_open_env one_principal sample_open 9 (gw_server sample_running) = (JoinCommitted, frames, sv)"
    using sid by (simp add: handleLaneJoinOpen_def sample_running_def sample_open_def server_frame_def lookupSession_def new_server_flow_def samePrincipal_def
        sample_open_env_def Let_def)
  from join_needs_owner [OF sample_gateway j] show ?thesis using j by (auto simp: sample_running_def)
qed

theorem dial_requires_authority_witness:
  "\<exists>ip port. policy_allows \<lparr>AllowPrivate = True, DialTimeout = 0\<rparr> ip \<and> JoinHostPort (ip_String [8, 8, 8, 8]) (Itoa 1) = JoinHostPort (ip_String ip) (Itoa port)"
  using dial_requires_authority [OF sample_opens, of "JoinHostPort (ip_String [8, 8, 8, 8]) (Itoa 1)"] by (auto simp: sample_server_def)

end
