(* ===== verification/PacketWindow.thy ===== *)
theory PacketWindow
  imports Prelude
begin

unbundle bit_operations_syntax

text \<open>
  The replay window of a UDP association, \<^verbatim>\<open>internal/pep/udp.go\<close>: whether a packet has been delivered before, from the highest sequence seen
  and one word of bits for those just below it. The reference keeps every sequence that was admitted.
\<close>

definition packetWindowWidth :: u64 where "packetWindowWidth = 64"

record packetWindow =
  pw_highest :: u64
  pw_seen :: u64
  pw_started :: bool

definition admit_packet :: "packetWindow \<Rightarrow> u64 \<Rightarrow> bool \<times> packetWindow" where
  "admit_packet w s =
     (if \<not> pw_started w then (True, \<lparr>pw_highest = s, pw_seen = 1, pw_started = True\<rparr>)
      else if s > pw_highest w then
        let shift = s - pw_highest w;
            seen = (if shift \<ge> packetWindowWidth then 0 else push_bit (unat shift) (pw_seen w))
        in (True, w\<lparr>pw_highest := s, pw_seen := seen OR 1\<rparr>)
      else if pw_highest w - s \<ge> packetWindowWidth then (False, w)
      else
        let b = push_bit (unat (pw_highest w - s)) 1 in
        if pw_seen w AND b \<noteq> 0 then (False, w) else (True, w\<lparr>pw_seen := pw_seen w OR b\<rparr>))"

definition new_window :: packetWindow where
  "new_window = \<lparr>pw_highest = 0, pw_seen = 0, pw_started = False\<rparr>"

text \<open>The verdicts on a sequence of arrivals.\<close>

fun verdicts :: "packetWindow \<Rightarrow> u64 list \<Rightarrow> bool list" where
  "verdicts w [] = []"
| "verdicts w (s # ss) = (let (ok, w1) = admit_packet w s in ok # verdicts w1 ss)"

section \<open>The reference\<close>

definition placeable :: "u64 list \<Rightarrow> u64 \<Rightarrow> bool" where
  "placeable taken s \<longleftrightarrow> (taken = [] \<or> s > Max (set taken) \<or> (unat (Max (set taken)) - unat s < 64 \<and> s \<notin> set taken))"

fun reference_verdicts :: "u64 list \<Rightarrow> u64 list \<Rightarrow> bool list" where
  "reference_verdicts taken [] = []"
| "reference_verdicts taken (s # ss) =
     (if placeable taken s then True # reference_verdicts (s # taken) ss else False # reference_verdicts taken ss)"

definition delivered :: "u64 list \<Rightarrow> bool list \<Rightarrow> u64 list" where
  "delivered ss oks = map fst (filter snd (zip ss oks))"

section \<open>The window is the reference\<close>

definition window_rel :: "packetWindow \<Rightarrow> u64 list \<Rightarrow> bool" where
  "window_rel w taken \<longleftrightarrow>
     (if pw_started w then taken \<noteq> [] \<and> Max (set taken) = pw_highest w \<and>
        (\<forall>k < 64. bit (pw_seen w) k \<longleftrightarrow> k \<le> unat (pw_highest w) \<and> word_of_nat (unat (pw_highest w) - k) \<in> set taken)
      else taken = [])"

lemma bit_push_one: "bit (push_bit k 1 :: u64) n \<longleftrightarrow> n = k \<and> n < 64"
  by (auto simp: push_bit_of_1 bit_exp_iff possible_bit_word)

lemma and_bit_iff: "k < 64 \<Longrightarrow> x AND push_bit k 1 \<noteq> 0 \<longleftrightarrow> bit x k" for x :: u64
proof -
  assume "k < 64"
  moreover have "x AND push_bit k 1 = 0 \<longleftrightarrow> (\<forall>n. \<not> (bit x n \<and> n = k \<and> n < 64))" unfolding bit_eq_iff bit_and_iff bit_push_one by auto
  ultimately show ?thesis by auto
qed

lemma nat_word:
  assumes "m \<le> unat (h :: u64)"
  shows "unat (word_of_nat m :: u64) = m" "word_of_nat m = (s :: u64) \<longleftrightarrow> m = unat s"
proof -
  show u: "unat (word_of_nat m :: u64) = m" using assms unsigned_less [of h, where ?'a = nat] by (simp add: unsigned_of_nat take_bit_nat_eq_self)
  show "word_of_nat m = s \<longleftrightarrow> m = unat s" proof
    assume "word_of_nat m = s"
    with u show "m = unat s" by simp
  next
    assume "m = unat s"
    then show "word_of_nat m = s" by simp
  qed
qed

lemma word_sub_nat: "a \<le> b \<Longrightarrow> unat (b - a) = unat b - unat a" for a b :: u64
  by (simp add: unat_sub)

lemma rel_first: "window_rel \<lparr>pw_highest = s, pw_seen = 1, pw_started = True\<rparr> [s]"
proof -
  have "bit (1 :: u64) k \<longleftrightarrow> k \<le> unat s \<and> word_of_nat (unat s - k) = s" for k
    using nat_word(2) [of "unat s - k" s s] by (auto simp: bit_1_iff)
  then show ?thesis by (simp add: window_rel_def)
qed

lemma rel_above:
  assumes "window_rel w taken" "pw_started w" "s > pw_highest w"
  shows "window_rel (w\<lparr>pw_highest := s, pw_seen := (if s - pw_highest w \<ge> packetWindowWidth then 0 else push_bit (unat (s - pw_highest w)) (pw_seen w)) OR 1\<rparr>) (s # taken)"
proof -
  let ?h = "pw_highest w" and ?d = "unat s - unat (pw_highest w)"
  let ?seen = "(if s - ?h \<ge> packetWindowWidth then 0 else push_bit (unat (s - ?h)) (pw_seen w)) OR 1"
  have t: "taken \<noteq> []" "Max (set taken) = ?h" and b: "\<And>k. k < 64 \<Longrightarrow> bit (pw_seen w) k \<longleftrightarrow> k \<le> unat ?h \<and> word_of_nat (unat ?h - k) \<in> set taken"
    using assms(1,2) by (auto simp: window_rel_def)
  have lt: "unat ?h < unat s" using assms(3) by (simp add: word_less_nat_alt)
  have d: "unat (s - ?h) = ?d" using lt by (intro word_sub_nat) (simp add: word_le_nat_alt)
  have le: "unat a \<le> unat ?h" if "a \<in> set taken" for a using that t by (metis List.finite_set Max_ge word_le_nat_alt)
  have "bit ?seen k \<longleftrightarrow> k \<le> unat s \<and> word_of_nat (unat s - k) \<in> set (s # taken)" if "k < 64" for k
  proof (cases "k = 0")
    case True
    then show ?thesis by (simp add: bit_or_iff bit_1_iff)
  next
    case False
    have bs: "bit ?seen k \<longleftrightarrow> ?d \<le> k \<and> bit (pw_seen w) (k - ?d)"
      using False that by (auto simp: bit_or_iff bit_1_iff bit_push_bit_iff possible_bit_word packetWindowWidth_def word_le_nat_alt d)
    show ?thesis
    proof (cases "k \<le> unat s")
      case ks: True
      have "word_of_nat (unat s - k) \<noteq> s" using nat_word(2) [of "unat s - k" s s] False ks by auto
      moreover have "?d \<le> k" if "word_of_nat (unat s - k) \<in> set taken" using le [OF that] nat_word(1) [of "unat s - k" s] by simp
      moreover have "unat ?h - (k - ?d) = unat s - k" "k - ?d \<le> unat ?h" if "?d \<le> k" using that lt ks by auto
      ultimately show ?thesis using bs b [of "k - ?d"] \<open>k < 64\<close> ks by auto
    next
      case False
      then have "\<not> k - ?d \<le> unat ?h" using lt by auto
      then show ?thesis using bs b [of "k - ?d"] \<open>k < 64\<close> False by auto
    qed
  qed
  moreover have "Max (set (s # taken)) = s" using t order.strict_implies_order [OF assms(3)] by (simp add: max_absorb1)
  ultimately show ?thesis using assms(2) by (simp add: window_rel_def)
qed

lemma rel_inside:
  assumes "window_rel w taken" "pw_started w" "s \<le> pw_highest w" "pw_highest w - s < packetWindowWidth"
  shows "pw_seen w AND push_bit (unat (pw_highest w - s)) 1 \<noteq> 0 \<longleftrightarrow> s \<in> set taken"
    "window_rel (w\<lparr>pw_seen := pw_seen w OR push_bit (unat (pw_highest w - s)) 1\<rparr>) (s # taken)"
proof -
  let ?h = "pw_highest w" and ?e = "unat (pw_highest w) - unat s"
  have t: "taken \<noteq> []" "Max (set taken) = ?h" and b: "\<And>k. k < 64 \<Longrightarrow> bit (pw_seen w) k \<longleftrightarrow> k \<le> unat ?h \<and> word_of_nat (unat ?h - k) \<in> set taken"
    using assms(1,2) by (auto simp: window_rel_def)
  have e: "unat (?h - s) = ?e" and le: "unat s \<le> unat ?h" using assms(3) by (auto simp: word_sub_nat word_le_nat_alt)
  then have lt: "?e < 64" using assms(4) by (simp add: packetWindowWidth_def word_less_nat_alt)
  have "unat ?h - ?e = unat s" using le by simp
  then show "pw_seen w AND push_bit (unat (?h - s)) 1 \<noteq> 0 \<longleftrightarrow> s \<in> set taken" unfolding e and_bit_iff [OF lt] using b [OF lt] by simp
  have "word_of_nat (unat ?h - k) = s \<longleftrightarrow> k = ?e" if "k \<le> unat ?h" for k using nat_word(2) [of "unat ?h - k" ?h s] that le by auto
  then have "bit (pw_seen w OR push_bit ?e 1) k \<longleftrightarrow> k \<le> unat ?h \<and> word_of_nat (unat ?h - k) \<in> set (s # taken)" if "k < 64" for k
    unfolding bit_or_iff bit_push_one b [OF that] set_simps insert_iff using that le by fastforce
  moreover have "Max (set (s # taken)) = ?h" using t assms(3) by (simp add: max_def)
  ultimately show "window_rel (w\<lparr>pw_seen := pw_seen w OR push_bit (unat (?h - s)) 1\<rparr>) (s # taken)" using assms(2) by (simp add: window_rel_def e)
qed

lemma admit_rel:
  assumes "window_rel w taken" "admit_packet w s = (ok, w')"
  shows "ok = placeable taken s" "window_rel w' (if ok then s # taken else taken)"
proof -
  let ?h = "pw_highest w" and ?n = "unat (pw_highest w)"
  consider (first) "\<not> pw_started w" | (above) "pw_started w" "s > ?h" | (old) "pw_started w" "s \<le> ?h" "?h - s \<ge> packetWindowWidth"
    | (inside) "pw_started w" "s \<le> ?h" "?h - s < packetWindowWidth" by fastforce
  then have "ok = placeable taken s \<and> window_rel w' (if ok then s # taken else taken)"
  proof cases
    case first
    then have "ok" "w' = \<lparr>pw_highest = s, pw_seen = 1, pw_started = True\<rparr>" "taken = []" using assms by (auto simp: admit_packet_def window_rel_def)
    then show ?thesis using rel_first [of s] by (simp add: placeable_def)
  next
    case above
    then have "ok" "placeable taken s" using assms by (auto simp: admit_packet_def window_rel_def placeable_def Let_def)
    moreover have "w' = w\<lparr>pw_highest := s, pw_seen := (if s - ?h \<ge> packetWindowWidth then 0 else push_bit (unat (s - ?h)) (pw_seen w)) OR 1\<rparr>"
      using above assms(2) unfolding admit_packet_def Let_def by (metis prod.inject)
    ultimately show ?thesis using rel_above [OF assms(1) above] by simp
  next
    case old
    have "\<not> ?n - unat s < 64" using old by (simp add: packetWindowWidth_def word_le_nat_alt word_sub_nat)
    then have "\<not> placeable taken s" using old assms(1) by (auto simp: window_rel_def placeable_def)
    moreover have "\<not> ok" "w' = w" using old assms(2) by (simp_all add: admit_packet_def leD)
    ultimately show ?thesis using assms(1) by simp
  next
    case inside
    note R = rel_inside [OF assms(1) inside]
    have "?n - unat s < 64" using inside by (simp add: packetWindowWidth_def word_less_nat_alt word_sub_nat)
    then have p: "placeable taken s \<longleftrightarrow> s \<notin> set taken" using inside assms(1) by (auto simp: window_rel_def placeable_def)
    have "(ok, w') = (if s \<in> set taken then (False, w) else (True, w\<lparr>pw_seen := pw_seen w OR push_bit (unat (?h - s)) 1\<rparr>))"
      using inside assms(2) R(1) unfolding admit_packet_def Let_def by (simp add: leD not_le [symmetric] del: push_bit_of_1)
    then show ?thesis using p R(2) assms(1) by (auto split: if_splits)
  qed
  then show "ok = placeable taken s" "window_rel w' (if ok then s # taken else taken)" by blast+
qed

lemma verdicts_reference: "window_rel w taken \<Longrightarrow> verdicts w ss = reference_verdicts taken ss"
proof (induction ss arbitrary: w taken)
  case (Cons s ss)
  obtain ok w1 where a: "admit_packet w s = (ok, w1)" by (metis surj_pair)
  note A = admit_rel [OF Cons.prems a]
  show ?case using Cons.IH [OF A(2)] A(1) a by simp
qed simp

lemma reference_fresh:
  "distinct (delivered ss (reference_verdicts taken ss)) \<and> set (delivered ss (reference_verdicts taken ss)) \<inter> set taken = {}"
proof (induction ss arbitrary: taken)
  case (Cons s ss)
  have "s \<notin> set taken" if "placeable taken s"
    using that Max_ge [OF List.finite_set, of s taken] unfolding placeable_def by (metis empty_iff leD set_empty)
  then show ?case using Cons.IH [of taken] Cons.IH [of "s # taken"] by (auto simp: delivered_def)
qed (simp add: delivered_def)

text \<open>C38: one word of bits is enough. For every sequence of arrivals, in any order and with any repetitions and gaps, the window gives each packet the verdict of a reference that remembers
  every packet it ever took: above the highest it is taken, within 63 below it is taken unless it was before, further below it is not; and so no packet is delivered twice.\<close>

theorem packet_window_exact:
  "verdicts new_window ss = reference_verdicts [] ss \<and> distinct (delivered ss (verdicts new_window ss))"
proof -
  have "verdicts new_window ss = reference_verdicts [] ss" by (rule verdicts_reference) (simp add: window_rel_def new_window_def)
  then show ?thesis using reference_fresh [of ss "[]"] by simp
qed

end
