(* ===== verification/WireCap.thy ===== *)
theory WireCap
  imports Prelude
begin

text \<open>
  The wire cap, \<^verbatim>\<open>internal/congestion/wirecap.go\<close>: one budget of packet bytes shared by every connection on a path, with a part of it kept from bulk
  connections. Times and durations are nanoseconds. The clock type and the initial packet size belong to the QUIC library and are arguments;
  \<open>mono_laws\<close> is what the code relies on of the clock. The operations of a connection's own controller are the arguments of those of the sender.
\<close>

section \<open>Definitions\<close>

record monotime =
  mt_IsZero :: "int \<Rightarrow> bool"
  mt_Add :: "int \<Rightarrow> int \<Rightarrow> int"
  mt_Sub :: "int \<Rightarrow> int \<Rightarrow> int"

definition mono_laws :: "monotime \<Rightarrow> bool" where
  "mono_laws mt \<longleftrightarrow> (\<forall>t. mt_IsZero mt t \<longleftrightarrow> t = 0) \<and> (\<forall>t d. mt_Add mt t d = t + d) \<and> (\<forall>a b. mt_Sub mt a b = a - b)"

text \<open>The conversion of a \<^verbatim>\<open>uint64\<close> to a \<^verbatim>\<open>time.Duration\<close>.\<close>

definition to_duration :: "nat \<Rightarrow> int" where
  "to_duration n = (if n < 2 ^ 63 then int n else int n - 2 ^ 64)"

record wireBucket =
  wb_rate :: nat
  wb_next :: int

record WireScheduler =
  ws_total :: wireBucket
  ws_bulk :: wireBucket
  ws_maxDatagramSize :: nat

definition maxBurstPackets :: nat where "maxBurstPackets = 10"

definition NewWireScheduler :: "nat \<Rightarrow> nat \<Rightarrow> nat \<Rightarrow> WireScheduler" where
  "NewWireScheduler initialPacketSize totalRate reserve =
     \<lparr>ws_total = \<lparr>wb_rate = totalRate, wb_next = 0\<rparr>, ws_bulk = \<lparr>wb_rate = (totalRate + 2 ^ 64 - reserve) mod 2 ^ 64, wb_next = 0\<rparr>,
      ws_maxDatagramSize = initialPacketSize\<rparr>"

definition pacingDuration :: "nat \<Rightarrow> nat \<Rightarrow> int" where
  "pacingDuration bytes rate =
     (let product = bytes * 1000000000 mod 2 ^ 64; nanos = product div rate in
      to_duration (if product mod rate \<noteq> 0 then (nanos + 1) mod 2 ^ 64 else nanos))"

definition wire_deadline :: "monotime \<Rightarrow> WireScheduler \<Rightarrow> wireBucket \<Rightarrow> int \<Rightarrow> nat \<Rightarrow> int" where
  "wire_deadline mt s bucket now nextBytes =
     (if mt_IsZero mt (wb_next bucket) then 0
      else
        let burst = pacingDuration (maxBurstPackets * ws_maxDatagramSize s mod 2 ^ 64) (wb_rate bucket);
            deadline = mt_Add mt (wb_next bucket) (pacingDuration nextBytes (wb_rate bucket) - burst)
        in if deadline \<le> now then 0 else deadline)"

definition later :: "int \<Rightarrow> int \<Rightarrow> int" where
  "later a b = (if a > b then a else b)"

definition timeUntilSend :: "monotime \<Rightarrow> WireScheduler \<Rightarrow> int \<Rightarrow> bool \<Rightarrow> int" where
  "timeUntilSend mt s now bulk =
     (let deadline = wire_deadline mt s (ws_total s) now (ws_maxDatagramSize s) in
      if bulk then later deadline (wire_deadline mt s (ws_bulk s) now (ws_maxDatagramSize s)) else deadline)"

definition chargeBucket :: "monotime \<Rightarrow> wireBucket \<Rightarrow> int \<Rightarrow> nat \<Rightarrow> wireBucket" where
  "chargeBucket mt bucket sent bytes =
     (let b = (if mt_IsZero mt (wb_next bucket) \<or> wb_next bucket < sent then bucket\<lparr>wb_next := sent\<rparr> else bucket)
      in b\<lparr>wb_next := mt_Add mt (wb_next b) (pacingDuration bytes (wb_rate b))\<rparr>)"

definition charge :: "monotime \<Rightarrow> WireScheduler \<Rightarrow> int \<Rightarrow> nat \<Rightarrow> bool \<Rightarrow> bool \<times> WireScheduler" where
  "charge mt s sent bytes bulk =
     (let overshoot = \<not> mt_IsZero mt (wire_deadline mt s (ws_total s) sent bytes);
          overshoot = (if bulk then overshoot \<or> \<not> mt_IsZero mt (wire_deadline mt s (ws_bulk s) sent bytes) else overshoot);
          s1 = s\<lparr>ws_total := chargeBucket mt (ws_total s) sent bytes\<rparr>;
          s2 = (if bulk then s1\<lparr>ws_bulk := chargeBucket mt (ws_bulk s1) sent bytes\<rparr> else s1)
      in (overshoot, s2))"

definition setMaxDatagramSize :: "WireScheduler \<Rightarrow> nat \<Rightarrow> WireScheduler" where
  "setMaxDatagramSize s n = (if n = 0 then s else if n > ws_maxDatagramSize s then s\<lparr>ws_maxDatagramSize := n\<rparr> else s)"

definition debt :: "monotime \<Rightarrow> WireScheduler \<Rightarrow> int \<Rightarrow> bool \<Rightarrow> int" where
  "debt mt s now bulk = (let deadline = timeUntilSend mt s now bulk in if mt_IsZero mt deadline then 0 else mt_Sub mt deadline now)"

text \<open>One connection's sender. \<open>inner\<close> is what its own controller answers.\<close>

record WireCapSender =
  wc_totalRate :: nat
  wc_bulkRate :: nat
  wc_bulk :: bool
  wc_charged :: nat
  wc_overshoot :: nat

definition NewWireCapSender :: "nat \<Rightarrow> nat \<Rightarrow> bool \<Rightarrow> WireCapSender" where
  "NewWireCapSender totalRate reserveRate bulk =
     \<lparr>wc_totalRate = totalRate, wc_bulkRate = (totalRate + 2 ^ 64 - reserveRate) mod 2 ^ 64, wc_bulk = bulk, wc_charged = 0, wc_overshoot = 0\<rparr>"

definition SetBulk :: "WireCapSender \<Rightarrow> bool \<Rightarrow> WireCapSender" where
  "SetBulk w bulk = w\<lparr>wc_bulk := bulk\<rparr>"

definition sender_TimeUntilSend :: "monotime \<Rightarrow> int \<Rightarrow> WireCapSender \<Rightarrow> WireScheduler \<Rightarrow> int \<Rightarrow> int" where
  "sender_TimeUntilSend mt inner w s now = later inner (timeUntilSend mt s now (wc_bulk w))"

definition HasPacingBudget :: "monotime \<Rightarrow> bool \<Rightarrow> WireCapSender \<Rightarrow> WireScheduler \<Rightarrow> int \<Rightarrow> bool" where
  "HasPacingBudget mt inner w s now \<longleftrightarrow> inner \<and> mt_IsZero mt (timeUntilSend mt s now (wc_bulk w))"

definition OnPacketSent :: "monotime \<Rightarrow> WireCapSender \<Rightarrow> WireScheduler \<Rightarrow> int \<Rightarrow> nat \<Rightarrow> WireCapSender \<times> WireScheduler" where
  "OnPacketSent mt w s sentTime bytes =
     (let (over, s1) = charge mt s sentTime bytes (wc_bulk w);
          w1 = (if over then w\<lparr>wc_overshoot := (wc_overshoot w + 1) mod 2 ^ 64\<rparr> else w)
      in (w1\<lparr>wc_charged := (wc_charged w1 + bytes) mod 2 ^ 64\<rparr>, s1))"

section \<open>One bucket\<close>

lemma pacing_bounds:
  assumes "0 < rate" "bytes * 1000000000 < 2 ^ 62"
  shows "int bytes * 1000000000 \<le> pacingDuration bytes rate * int rate" "pacingDuration bytes rate * int rate < int bytes * 1000000000 + int rate"
proof -
  let ?p = "bytes * 1000000000"
  have m: "?p mod 2 ^ 64 = ?p" using assms(2) by simp
  have "?p div rate < 2 ^ 62" by (rule le_less_trans [OF div_le_dividend assms(2)])
  then have d: "?p div rate + 1 < 2 ^ 63" "(?p div rate + 1) mod 2 ^ 64 = ?p div rate + 1" by auto
  have "pacingDuration bytes rate = int (if ?p mod rate \<noteq> 0 then ?p div rate + 1 else ?p div rate)"
    unfolding pacingDuration_def m Let_def to_duration_def d(2) using d(1) by auto
  moreover have "int (?p div rate) * int rate + int (?p mod rate) = int ?p" by (metis div_mult_mod_eq of_nat_add of_nat_mult)
  moreover have "?p mod rate < rate" using assms(1) by simp
  ultimately show "int bytes * 1000000000 \<le> pacingDuration bytes rate * int rate" "pacingDuration bytes rate * int rate < int bytes * 1000000000 + int rate"
    by (auto simp: algebra_simps split: if_splits)
qed

lemma pacing_mono:
  assumes "0 < rate" "a \<le> b" "b * 1000000000 < 2 ^ 62"
  shows "pacingDuration a rate \<le> pacingDuration b rate"
proof (rule ccontr)
  assume "\<not> pacingDuration a rate \<le> pacingDuration b rate"
  then have "(pacingDuration b rate + 1) * int rate \<le> pacingDuration a rate * int rate" by (intro mult_right_mono) auto
  moreover have "pacingDuration a rate * int rate < int a * 1000000000 + int rate" using assms by (intro pacing_bounds(2)) auto
  moreover have "int b * 1000000000 \<le> pacingDuration b rate * int rate" using assms by (intro pacing_bounds(1)) auto
  ultimately show False using assms(2) by (simp add: algebra_simps)
qed

lemma charge_next:
  assumes "mono_laws mt" "0 < sent"
  shows "wb_next (chargeBucket mt b sent n) = max (wb_next b) sent + pacingDuration n (wb_rate b)" "wb_rate (chargeBucket mt b sent n) = wb_rate b"
  using assms by (auto simp: chargeBucket_def mono_laws_def Let_def)

text \<open>The packets a bucket is charged for, each with its time and its bytes.\<close>

definition charged :: "monotime \<Rightarrow> wireBucket \<Rightarrow> (int \<times> nat) list \<Rightarrow> wireBucket" where
  "charged mt b ps = foldl (\<lambda>b (sent, n). chargeBucket mt b sent n) b ps"

definition packet_ok :: "int \<times> nat \<Rightarrow> bool" where
  "packet_ok p \<longleftrightarrow> 0 < fst p \<and> snd p \<le> 65535"

lemma charged_accounts:
  assumes "mono_laws mt" "0 < wb_rate b" "list_all packet_ok ps" "A \<le> wb_next b * int (wb_rate b)"
  shows "A + int (sum_list (map snd ps)) * 1000000000 \<le> wb_next (charged mt b ps) * int (wb_rate b) \<and> wb_rate (charged mt b ps) = wb_rate b"
  using assms
proof (induction ps arbitrary: b A)
  case (Cons p ps)
  obtain sent n where p: "p = (sent, n)" by (cases p)
  let ?b = "chargeBucket mt b sent n"
  have ok: "0 < sent" "n \<le> 65535" using Cons.prems p by (auto simp: packet_ok_def)
  note N = charge_next [OF Cons.prems(1) ok(1), of b n]
  have "n * 1000000000 < 2 ^ 62" using ok(2) by simp
  note P = pacing_bounds(1) [OF Cons.prems(2) this]
  have "wb_next b * int (wb_rate b) \<le> max (wb_next b) sent * int (wb_rate b)" by (intro mult_right_mono) auto
  then have "A + int n * 1000000000 \<le> wb_next ?b * int (wb_rate ?b)" unfolding N using P Cons.prems(4) by (simp add: distrib_right)
  from Cons.IH [of ?b "A + int n * 1000000000"] show ?case using Cons.prems N \<open>A + int n * 1000000000 \<le> _\<close> by (simp add: charged_def p algebra_simps)
qed (auto simp: charged_def)

lemma charged_snoc: "charged mt b (ps @ [(sent, n)]) = chargeBucket mt (charged mt b ps) sent n"
  by (simp add: charged_def)

lemma bucket_cap:
  assumes mt: "mono_laws mt" and rate: "0 < wb_rate b" and ok: "list_all packet_ok (ps @ [(sent, n)])"
    and start: "start = fst (hd (ps @ [(sent, n)]))" and n: "n \<le> ws_maxDatagramSize s" "ws_maxDatagramSize s \<le> 65535"
    and adm: "wire_deadline mt s (charged mt b ps) sent (ws_maxDatagramSize s) = 0"
  shows "int (sum_list (map snd (ps @ [(sent, n)]))) * 1000000000 \<le> int (wb_rate b) * (sent - start) + int (10 * ws_maxDatagramSize s) * 1000000000 + int (wb_rate b)"
proof -
  let ?D = "ws_maxDatagramSize s" and ?r = "wb_rate b" and ?c = "charged mt b ps"
  let ?burst = "pacingDuration (10 * ?D) ?r"
  have sent: "0 < sent" "0 < start" using ok start by (cases ps; auto simp: packet_ok_def)+
  have D: "10 * ?D * 1000000000 < 2 ^ 62" using n(2) by simp
  have pd: "pacingDuration n ?r \<le> pacingDuration ?D ?r" "pacingDuration ?D ?r \<le> ?burst" using n rate D by (auto intro!: pacing_mono)
  have r: "wb_rate ?c = ?r" using charged_accounts [OF mt rate, of ps "wb_next b * int ?r"] ok by simp
  note N = charge_next [OF mt sent(1), of ?c n, unfolded r]
  have acc: "start * int ?r + int (sum_list (map snd (ps @ [(sent, n)]))) * 1000000000 \<le> wb_next (charged mt b (ps @ [(sent, n)])) * int ?r"
  proof -
    obtain m qs where p: "ps @ [(sent, n)] = (start, m) # qs" using start by (cases ps) auto
    let ?b = "b\<lparr>wb_next := max (wb_next b) start\<rparr>"
    have "chargeBucket mt ?b start m = chargeBucket mt b start m"
      using mt sent by (cases b) (auto simp: chargeBucket_def mono_laws_def Let_def max_def)
    then have "charged mt ?b (ps @ [(sent, n)]) = charged mt b (ps @ [(sent, n)])" by (simp add: p charged_def)
    moreover have "start * int ?r \<le> wb_next ?b * int (wb_rate ?b)" by (simp add: mult_right_mono)
    ultimately show ?thesis using charged_accounts [OF mt, of ?b "ps @ [(sent, n)]" "start * int ?r"] rate ok by simp
  qed
  have "max (wb_next ?c) sent + pacingDuration n ?r \<le> sent + ?burst"
  proof (cases "wb_next ?c = 0")
    case True
    then show ?thesis using sent(1) pd by simp
  next
    case False
    have "10 * ?D mod 2 ^ 64 = 10 * ?D" using D by simp
    then have "wb_next ?c + pacingDuration ?D ?r - ?burst \<le> sent"
      using adm False mt sent(1) by (auto simp: wire_deadline_def mono_laws_def Let_def r maxBurstPackets_def split: if_splits)
    then show ?thesis using pd by linarith
  qed
  then have "wb_next (charged mt b (ps @ [(sent, n)])) * int ?r \<le> (sent + ?burst) * int ?r" unfolding charged_snoc N by (intro mult_right_mono) auto
  moreover have "?burst * int ?r < int (10 * ?D) * 1000000000 + int ?r" using rate D by (intro pacing_bounds(2)) auto
  ultimately show ?thesis using acc by (simp add: algebra_simps)
qed

section \<open>The cap\<close>

text \<open>What happens to the scheduler of a path: a packet of any of its connections, sent for whatever reason, or a connection that learns of larger datagrams.\<close>

datatype wire_event = Packet bool int nat | Datagrams nat

fun wire_step :: "monotime \<Rightarrow> WireScheduler \<Rightarrow> wire_event \<Rightarrow> WireScheduler" where
  "wire_step mt s (Packet bulk sent n) = snd (charge mt s sent n bulk)"
| "wire_step mt s (Datagrams n) = setMaxDatagramSize s n"

definition wire_run :: "monotime \<Rightarrow> WireScheduler \<Rightarrow> wire_event list \<Rightarrow> WireScheduler" where
  "wire_run mt s es = foldl (wire_step mt) s es"

fun packets :: "bool \<Rightarrow> wire_event list \<Rightarrow> (int \<times> nat) list" where
  "packets only_bulk [] = []"
| "packets only_bulk (Packet bulk sent n # es) = (if only_bulk \<and> \<not> bulk then packets only_bulk es else (sent, n) # packets only_bulk es)"
| "packets only_bulk (Datagrams n # es) = packets only_bulk es"

fun event_ok :: "wire_event \<Rightarrow> bool" where
  "event_ok (Packet bulk sent n) = packet_ok (sent, n)"
| "event_ok (Datagrams n) = True"

lemma run_buckets: "ws_total (wire_run mt s es) = charged mt (ws_total s) (packets False es)" "ws_bulk (wire_run mt s es) = charged mt (ws_bulk s) (packets True es)"
proof -
  have "ws_total (foldl (wire_step mt) s es) = charged mt (ws_total s) (packets False es) \<and> ws_bulk (foldl (wire_step mt) s es) = charged mt (ws_bulk s) (packets True es)"
  proof (induction es arbitrary: s)
    case (Cons e es)
    then show ?case by (cases e) (auto simp: charged_def charge_def setMaxDatagramSize_def Let_def)
  qed (simp add: charged_def)
  then show "ws_total (wire_run mt s es) = charged mt (ws_total s) (packets False es)" "ws_bulk (wire_run mt s es) = charged mt (ws_bulk s) (packets True es)"
    by (simp_all add: wire_run_def)
qed

lemma packets_append: "packets b (es @ fs) = packets b es @ packets b fs"
  by (induction b es rule: packets.induct) auto

lemma packets_ok: "list_all event_ok es \<Longrightarrow> list_all packet_ok (packets b es)"
  by (induction b es rule: packets.induct) auto

lemma later_zero: "0 < now \<Longrightarrow> wire_deadline mt s b now n = 0 \<or> now < wire_deadline mt s b now n"
  by (auto simp: wire_deadline_def Let_def)

text \<open>The bytes and the first time of a list of packets.\<close>

definition bytes_of :: "(int \<times> nat) list \<Rightarrow> int" where
  "bytes_of ps = int (sum_list (map snd ps))"

text \<open>C39: the cap is kept. Take any stretch of a path's packets, from any of its connections, some of them sent out of turn as acknowledgements and
  probes are, that ends in a packet the scheduler had budget for once all before it were charged. The packet bytes charged over it are at most the
  operator's rate times the time it took, plus a burst of ten datagrams and one nanosecond of rate; and when that last packet is itself bulk, the
  bulk bytes of the stretch are within the rate less the reserve, likewise. Nothing is said of a stretch that ends in a packet sent out of turn, or
  of the bulk bytes of one that ends in a control packet: that debt is paid back later. Packet bytes are those of QUIC, without the headers
  of UDP and IP and without the handshake.\<close>

theorem wire_cap_kept:
  assumes "mono_laws mt" "0 < wb_rate (ws_total s)" "0 < wb_rate (ws_bulk s)" "list_all event_ok (es @ [Packet (wc_bulk w) sent n])"
    and "ws_maxDatagramSize (wire_run mt s es) = size_limit" "n \<le> size_limit" "size_limit \<le> 65535"
    and "HasPacingBudget mt inner w (wire_run mt s es) sent"
  shows "bytes_of (packets False (es @ [Packet (wc_bulk w) sent n])) * 1000000000 \<le>
      int (wb_rate (ws_total s)) * (sent - fst (hd (packets False (es @ [Packet (wc_bulk w) sent n])))) + int (10 * size_limit) * 1000000000 + int (wb_rate (ws_total s)) \<and>
    (wc_bulk w \<longrightarrow> bytes_of (packets True (es @ [Packet (wc_bulk w) sent n])) * 1000000000 \<le>
      int (wb_rate (ws_bulk s)) * (sent - fst (hd (packets True (es @ [Packet (wc_bulk w) sent n])))) + int (10 * size_limit) * 1000000000 + int (wb_rate (ws_bulk s)))"
proof -
  let ?s = "wire_run mt s es"
  have pos: "0 < sent" using assms(4) by (simp add: packet_ok_def)
  have ok: "list_all packet_ok (packets b es @ [(sent, n)])" for b using packets_ok [of es b] assms(4) by (simp add: packet_ok_def)
  have "timeUntilSend mt ?s sent (wc_bulk w) = 0" using assms(1,8) by (simp add: HasPacingBudget_def mono_laws_def)
  then have adm: "wire_deadline mt ?s (ws_total ?s) sent (ws_maxDatagramSize ?s) = 0" "wc_bulk w \<Longrightarrow> wire_deadline mt ?s (ws_bulk ?s) sent (ws_maxDatagramSize ?s) = 0"
    using later_zero [OF pos, of mt ?s "ws_total ?s" "ws_maxDatagramSize ?s"] later_zero [OF pos, of mt ?s "ws_bulk ?s" "ws_maxDatagramSize ?s"] pos
    by (auto simp: timeUntilSend_def later_def Let_def split: if_splits)
  show ?thesis
    using bucket_cap [OF assms(1,2) ok [of False] refl, of ?s] bucket_cap [OF assms(1,3) ok [of True] refl, of ?s] adm assms(5-7)
    by (auto simp: run_buckets packets_append bytes_of_def)
qed

definition go_clock :: monotime where
  "go_clock = \<lparr>mt_IsZero = (\<lambda>t. t = 0), mt_Add = (\<lambda>t d. t + d), mt_Sub = (\<lambda>a b. a - b)\<rparr>"

theorem wire_cap_kept_witness:
  "bytes_of (packets True [Packet True 5 1200, Packet True 3000000000 1000]) * 1000000000 \<le> 700 * (3000000000 - 5) + 12000 * 1000000000 + 700"
proof -
  let ?s = "NewWireScheduler 1200 1000 300"
  have "HasPacingBudget go_clock True (NewWireCapSender 1000 300 True) (wire_run go_clock ?s [Packet True 5 1200]) 3000000000"
    by (simp add: HasPacingBudget_def NewWireCapSender_def wire_run_def charge_def NewWireScheduler_def chargeBucket_def go_clock_def timeUntilSend_def wire_deadline_def
        pacingDuration_def to_duration_def maxBurstPackets_def later_def Let_def)
  from wire_cap_kept [OF _ _ _ _ _ _ _ this, of 1000 1200] show ?thesis
    by (simp add: mono_laws_def go_clock_def NewWireScheduler_def NewWireCapSender_def packet_ok_def wire_run_def charge_def Let_def)
qed

end
