(* ===== verification/MinMax.thy ===== *)
theory MinMax
  imports WireCap
begin

text \<open>
  The windowed maximum behind the bandwidth estimate, \<^verbatim>\<open>internal/congestion/bbr_tuic_minmax.go\<close>: three samples stand for the recent past. Rounds
  and values are \<^verbatim>\<open>uint64\<close> and never wrap, since every subtraction is guarded; times are those of the QUIC library's clock.
\<close>

section \<open>Definitions\<close>

definition tuicMinMaxWindow :: int where "tuicMinMaxWindow = 10"
definition minBandwidthTimeWindow :: int where "minBandwidthTimeWindow = 1000000000"
definition maxBandwidthTimeWindow :: int where "maxBandwidthTimeWindow = 10 * 1000000000"

record tuicMinMaxSample =
  sa_round :: nat
  sa_at :: int
  sa_value :: nat

record tuicMinMax =
  mm_window :: nat
  mm_timeWindow :: int
  mm_s0 :: tuicMinMaxSample
  mm_s1 :: tuicMinMaxSample
  mm_s2 :: tuicMinMaxSample

definition zero_sample :: tuicMinMaxSample where
  "zero_sample = \<lparr>sa_round = 0, sa_at = 0, sa_value = 0\<rparr>"

definition newTUICMinMax :: tuicMinMax where
  "newTUICMinMax = \<lparr>mm_window = nat tuicMinMaxWindow, mm_timeWindow = maxBandwidthTimeWindow, mm_s0 = zero_sample, mm_s1 = zero_sample, mm_s2 = zero_sample\<rparr>"

definition mm_get :: "tuicMinMax \<Rightarrow> nat" where
  "mm_get m = sa_value (mm_s0 m)"

definition all_samples :: "tuicMinMaxSample \<Rightarrow> tuicMinMax \<Rightarrow> tuicMinMax" where
  "all_samples c m = m\<lparr>mm_s0 := c, mm_s1 := c, mm_s2 := c\<rparr>"

definition mm_reset :: "tuicMinMax \<Rightarrow> tuicMinMax" where
  "mm_reset m = all_samples zero_sample m"

definition setRoundTrip :: "tuicMinMax \<Rightarrow> int \<Rightarrow> tuicMinMax" where
  "setRoundTrip m rtt =
     (if rtt \<le> 0 then m
      else if rtt \<ge> maxBandwidthTimeWindow div tuicMinMaxWindow then m\<lparr>mm_timeWindow := maxBandwidthTimeWindow\<rparr>
      else let window = tuicMinMaxWindow * rtt
           in m\<lparr>mm_timeWindow := (if window < minBandwidthTimeWindow then minBandwidthTimeWindow else window)\<rparr>)"

definition mm_expired :: "monotime \<Rightarrow> tuicMinMax \<Rightarrow> tuicMinMaxSample \<Rightarrow> int \<Rightarrow> bool" where
  "mm_expired mt m sample now =
     (if mt_IsZero mt (sa_at sample) \<or> mt_IsZero mt now \<or> mm_timeWindow m \<le> 0 then False
      else mt_Sub mt now (sa_at sample) > mm_timeWindow m)"

definition mm_stale :: "monotime \<Rightarrow> tuicMinMax \<Rightarrow> int \<Rightarrow> bool" where
  "mm_stale mt m now = (if sa_value (mm_s0 m) = 0 then False else mm_expired mt m (mm_s0 m) now)"

text \<open>Every sample moves up one place and the new one is last.\<close>

definition shift_samples :: "tuicMinMaxSample \<Rightarrow> tuicMinMax \<Rightarrow> tuicMinMax" where
  "shift_samples c m = m\<lparr>mm_s0 := mm_s1 m, mm_s1 := mm_s2 m, mm_s2 := c\<rparr>"

definition subWindowUpdate :: "tuicMinMax \<Rightarrow> tuicMinMaxSample \<Rightarrow> tuicMinMax" where
  "subWindowUpdate m c =
     (if sa_round c < sa_round (mm_s0 m) then m
      else if sa_round c - sa_round (mm_s0 m) > mm_window m then
        let m1 = shift_samples c m in
        if sa_round c \<ge> sa_round (mm_s0 m1) \<and> sa_round c - sa_round (mm_s0 m1) > mm_window m1 then shift_samples c m1 else m1
      else if sa_value (mm_s1 m) = sa_value (mm_s0 m) \<and> sa_round c \<ge> sa_round (mm_s1 m) \<and> sa_round c - sa_round (mm_s1 m) > mm_window m div 4
      then m\<lparr>mm_s2 := c, mm_s1 := c\<rparr>
      else if sa_value (mm_s2 m) = sa_value (mm_s1 m) \<and> sa_round c \<ge> sa_round (mm_s2 m) \<and> sa_round c - sa_round (mm_s2 m) > mm_window m div 2
      then m\<lparr>mm_s2 := c\<rparr>
      else m)"

definition place_sample :: "tuicMinMax \<Rightarrow> tuicMinMaxSample \<Rightarrow> tuicMinMax" where
  "place_sample m c =
     (if sa_value c \<ge> sa_value (mm_s1 m) then m\<lparr>mm_s2 := c, mm_s1 := c\<rparr>
      else if sa_value c \<ge> sa_value (mm_s2 m) then m\<lparr>mm_s2 := c\<rparr> else m)"

definition updateMax :: "monotime \<Rightarrow> tuicMinMax \<Rightarrow> nat \<Rightarrow> int \<Rightarrow> nat \<Rightarrow> tuicMinMax" where
  "updateMax mt m round now v =
     (if v = 0 then m
      else
        let c = \<lparr>sa_round = round, sa_at = now, sa_value = v\<rparr>; oldest = mm_s2 m;
            windowExpired = (round \<ge> sa_round oldest \<and> round - sa_round oldest > mm_window m)
        in if sa_value (mm_s0 m) = 0 \<or> v \<ge> sa_value (mm_s0 m) \<or> windowExpired \<or> mm_expired mt m (mm_s0 m) now then all_samples c m
           else subWindowUpdate (place_sample m c) c)"

section \<open>Runs\<close>

datatype filter_event = Sampled nat int nat | RoundTrip int | Emptied

fun filter_step :: "monotime \<Rightarrow> tuicMinMax \<Rightarrow> filter_event \<Rightarrow> tuicMinMax" where
  "filter_step mt m (Sampled round now v) = updateMax mt m round now v"
| "filter_step mt m (RoundTrip rtt) = setRoundTrip m rtt"
| "filter_step mt m Emptied = mm_reset m"

definition filter_run :: "monotime \<Rightarrow> filter_event list \<Rightarrow> tuicMinMax" where
  "filter_run mt es = foldl (filter_step mt) newTUICMinMax es"

text \<open>The samples that count, oldest first: those with a value, since the last time the filter was emptied.\<close>

fun history_step :: "tuicMinMaxSample list \<Rightarrow> filter_event \<Rightarrow> tuicMinMaxSample list" where
  "history_step hs (Sampled round now v) = (if v = 0 then hs else hs @ [\<lparr>sa_round = round, sa_at = now, sa_value = v\<rparr>])"
| "history_step hs (RoundTrip rtt) = hs"
| "history_step hs Emptied = []"

definition history :: "filter_event list \<Rightarrow> tuicMinMaxSample list" where
  "history es = foldl history_step [] es"

definition in_time :: "tuicMinMaxSample list \<Rightarrow> bool" where
  "in_time hs \<longleftrightarrow> sorted (map sa_round hs) \<and> sorted (map sa_at hs) \<and> list_all (\<lambda>h. 0 < sa_at h) hs"

section \<open>What the three samples are\<close>

text \<open>Sample \<open>i\<close> of the history, and at least every sample since.\<close>

definition stands :: "tuicMinMaxSample list \<Rightarrow> nat \<Rightarrow> tuicMinMaxSample \<Rightarrow> bool" where
  "stands hs i s \<longleftrightarrow> i < length hs \<and> s = hs ! i \<and> (\<forall>h \<in> set (drop i hs). sa_value h \<le> sa_value s)"

definition filter_rel :: "tuicMinMax \<Rightarrow> tuicMinMaxSample list \<Rightarrow> bool" where
  "filter_rel m hs \<longleftrightarrow> (\<exists>i j k. i \<le> j \<and> j \<le> k \<and> stands hs i (mm_s0 m) \<and> stands hs j (mm_s1 m) \<and> stands hs k (mm_s2 m))"

lemma stands_last: "stands (hs @ [c]) (length hs) c"
  by (simp add: stands_def)

lemma stands_snoc: "stands hs i s \<Longrightarrow> sa_value c \<le> sa_value s \<Longrightarrow> stands (hs @ [c]) i s"
  by (auto simp: stands_def nth_append)

text \<open>Replacing the later samples by the new one keeps the three in order.\<close>

lemma place_rel:
  assumes "filter_rel m hs" "sa_value c \<le> sa_value (mm_s0 m)"
  shows "\<exists>i j k. i \<le> j \<and> j \<le> k \<and> stands (hs @ [c]) i (mm_s0 m) \<and> stands (hs @ [c]) j (mm_s1 (place_sample m c)) \<and> stands (hs @ [c]) k (mm_s2 (place_sample m c))"
    "mm_s0 (place_sample m c) = mm_s0 m" "mm_s2 (place_sample m c) = mm_s2 m \<or> mm_s2 (place_sample m c) = c"
    "mm_window (place_sample m c) = mm_window m" "mm_timeWindow (place_sample m c) = mm_timeWindow m"
proof -
  from assms(1) obtain i j k where r: "i \<le> j" "j \<le> k" "stands hs i (mm_s0 m)" "stands hs j (mm_s1 m)" "stands hs k (mm_s2 m)" by (auto simp: filter_rel_def)
  have l: "i \<le> length hs" "j \<le> length hs" using r by (auto simp: stands_def)
  show "\<exists>i j k. i \<le> j \<and> j \<le> k \<and> stands (hs @ [c]) i (mm_s0 m) \<and> stands (hs @ [c]) j (mm_s1 (place_sample m c)) \<and> stands (hs @ [c]) k (mm_s2 (place_sample m c))"
  proof (cases "sa_value c \<ge> sa_value (mm_s1 m)")
    case True
    then show ?thesis using r l assms(2) stands_last [of hs c] by (intro exI [of _ i] exI [of _ "length hs"]) (auto simp: place_sample_def intro: stands_snoc)
  next
    case False
    then show ?thesis using r l assms(2) stands_last [of hs c]
      by (intro exI [of _ i] exI [of _ j] exI [of _ "if sa_value c \<ge> sa_value (mm_s2 m) then length hs else k"]) (auto simp: place_sample_def intro: stands_snoc)
  qed
qed (auto simp: place_sample_def)

lemma stands_in_time:
  assumes "in_time hs" "stands hs i s" "stands hs j s'" "i \<le> j"
  shows "sa_round s \<le> sa_round s'" "sa_at s \<le> sa_at s'" "0 < sa_at s"
  using assms sorted_nth_mono [of "map sa_round hs" i j] sorted_nth_mono [of "map sa_at hs" i j] by (auto simp: in_time_def stands_def list_all_length)

text \<open>The estimate is recent: at most the window of rounds, and the window of time, before the newest sample.\<close>

definition recent :: "tuicMinMax \<Rightarrow> tuicMinMaxSample \<Rightarrow> bool" where
  "recent m c \<longleftrightarrow> sa_round c - sa_round (mm_s0 m) \<le> mm_window m \<and> sa_at c - sa_at (mm_s0 m) \<le> mm_timeWindow m"

lemma sub_window_rel:
  assumes t: "in_time (hs @ [c])" and o: "i \<le> j" "j \<le> k"
    and s: "stands (hs @ [c]) i (mm_s0 m)" "stands (hs @ [c]) j (mm_s1 m)" "stands (hs @ [c]) k (mm_s2 m)"
    and w: "sa_round c - sa_round (mm_s2 m) \<le> mm_window m" "sa_at c - sa_at (mm_s0 m) \<le> mm_timeWindow m"
  shows "filter_rel (subWindowUpdate m c) (hs @ [c]) \<and> recent (subWindowUpdate m c) c"
proof -
  note last = stands_last [of hs c]
  have l: "i \<le> length hs" "j \<le> length hs" "k \<le> length hs" using s by (auto simp: stands_def)
  have r: "sa_round (mm_s0 m) \<le> sa_round c" "sa_round (mm_s1 m) \<le> sa_round c"
    using stands_in_time(1) [OF t s(1) last l(1)] stands_in_time(1) [OF t s(2) last l(2)] by auto
  have a: "sa_at (mm_s0 m) \<le> sa_at (mm_s1 m)" "sa_at (mm_s1 m) \<le> sa_at (mm_s2 m)"
    using stands_in_time(2) [OF t s(1,2) o(1)] stands_in_time(2) [OF t s(2,3) o(2)] by auto
  have rel: "filter_rel m' (hs @ [c])" if "stands (hs @ [c]) i' (mm_s0 m')" "stands (hs @ [c]) j' (mm_s1 m')" "stands (hs @ [c]) k' (mm_s2 m')" "i' \<le> j'" "j' \<le> k'" for m' i' j' k'
    using that by (auto simp: filter_rel_def)
  consider (twice) "sa_round c - sa_round (mm_s0 m) > mm_window m" "sa_round c - sa_round (mm_s1 m) > mm_window m"
    | (once) "sa_round c - sa_round (mm_s0 m) > mm_window m" "sa_round c - sa_round (mm_s1 m) \<le> mm_window m"
    | (keep) "sa_round c - sa_round (mm_s0 m) \<le> mm_window m" by linarith
  then show ?thesis
  proof cases
    case twice
    then have "subWindowUpdate m c = m\<lparr>mm_s0 := mm_s2 m, mm_s1 := c, mm_s2 := c\<rparr>" using r by (simp add: subWindowUpdate_def shift_samples_def Let_def)
    then show ?thesis using s last o l w a by (auto simp: recent_def intro: rel [of k _ "length hs" "length hs"])
  next
    case once
    then have "subWindowUpdate m c = m\<lparr>mm_s0 := mm_s1 m, mm_s1 := mm_s2 m, mm_s2 := c\<rparr>" using r by (simp add: subWindowUpdate_def shift_samples_def Let_def)
    then show ?thesis using s last o l w a once by (auto simp: recent_def intro: rel [of j _ k "length hs"])
  next
    case keep
    then have "subWindowUpdate m c \<in> {m\<lparr>mm_s2 := c, mm_s1 := c\<rparr>, m\<lparr>mm_s2 := c\<rparr>, m}" using r by (simp add: subWindowUpdate_def)
    then show ?thesis using s last o l w keep
      by (auto simp: recent_def intro: rel [of i _ "length hs" "length hs"] rel [of i _ j "length hs"] rel [of i _ j k])
  qed
qed

lemma update_rel:
  assumes mt: "mono_laws mt" and v: "v \<noteq> 0" and tw: "0 < mm_timeWindow m"
    and rel: "if hs = [] then sa_value (mm_s0 m) = 0 else filter_rel m hs"
    and t: "in_time (hs @ [c])" and c: "c = \<lparr>sa_round = round, sa_at = now, sa_value = v\<rparr>"
  shows "filter_rel (updateMax mt m round now v) (hs @ [c]) \<and> recent (updateMax mt m round now v) c"
proof (cases "sa_value (mm_s0 m) = 0 \<or> v \<ge> sa_value (mm_s0 m) \<or> (round \<ge> sa_round (mm_s2 m) \<and> round - sa_round (mm_s2 m) > mm_window m) \<or> mm_expired mt m (mm_s0 m) now")
  case True
  then have "updateMax mt m round now v = all_samples c m" using v unfolding updateMax_def c Let_def by simp
  then show ?thesis using stands_last [of hs c] tw by (auto simp: all_samples_def filter_rel_def recent_def)
next
  case False
  then have u: "updateMax mt m round now v = subWindowUpdate (place_sample m c) c" using v unfolding updateMax_def c Let_def by auto
  have r: "filter_rel m hs" using rel False by (auto split: if_splits)
  have le: "sa_value c \<le> sa_value (mm_s0 m)" using False by (simp add: c)
  note P = place_rel [OF r le]
  from P(1) obtain i j k where ijk: "i \<le> j" "j \<le> k" "stands (hs @ [c]) i (mm_s0 m)" "stands (hs @ [c]) j (mm_s1 (place_sample m c))" "stands (hs @ [c]) k (mm_s2 (place_sample m c))" by blast
  have "i \<le> length hs" using ijk(3) by (simp add: stands_def)
  note T = stands_in_time [OF t ijk(3) stands_last this]
  have "sa_round c - sa_round (mm_s2 (place_sample m c)) \<le> mm_window m" using P(3) False by (auto simp: c)
  moreover have "sa_at c - sa_at (mm_s0 m) \<le> mm_timeWindow m" using False mt tw T(2,3) by (auto simp: mm_expired_def mono_laws_def c)
  ultimately show ?thesis unfolding u using ijk by (intro sub_window_rel [OF t ijk(1,2)]) (simp_all add: P)
qed

section \<open>The estimate\<close>

definition filter_inv :: "tuicMinMax \<Rightarrow> tuicMinMaxSample list \<Rightarrow> bool" where
  "filter_inv m hs \<longleftrightarrow> (if hs = [] then sa_value (mm_s0 m) = 0 else filter_rel m hs) \<and> mm_window m = 10 \<and>
     minBandwidthTimeWindow \<le> mm_timeWindow m \<and> mm_timeWindow m \<le> maxBandwidthTimeWindow"

lemmas window_bounds = minBandwidthTimeWindow_def maxBandwidthTimeWindow_def tuicMinMaxWindow_def

lemma in_time_prefix: "in_time (hs @ [c]) \<Longrightarrow> in_time hs"
  by (auto simp: in_time_def sorted_append)

lemma update_fields: "mm_window (updateMax mt m round now v) = mm_window m" "mm_timeWindow (updateMax mt m round now v) = mm_timeWindow m"
  by (simp_all add: updateMax_def all_samples_def subWindowUpdate_def shift_samples_def place_sample_def Let_def)

lemma round_trip_samples: "mm_s0 (setRoundTrip m rtt) = mm_s0 m" "mm_s1 (setRoundTrip m rtt) = mm_s1 m" "mm_s2 (setRoundTrip m rtt) = mm_s2 m"
    "mm_window (setRoundTrip m rtt) = mm_window m"
  by (simp_all add: setRoundTrip_def Let_def)

lemma round_trip_inv: "filter_inv m hs \<Longrightarrow> filter_inv (setRoundTrip m rtt) hs"
proof -
  assume i: "filter_inv m hs"
  have "minBandwidthTimeWindow \<le> mm_timeWindow (setRoundTrip m rtt) \<and> mm_timeWindow (setRoundTrip m rtt) \<le> maxBandwidthTimeWindow"
    using i by (auto simp: filter_inv_def setRoundTrip_def window_bounds Let_def)
  then show ?thesis using i by (auto simp: filter_inv_def filter_rel_def round_trip_samples)
qed

text \<open>The clock and the rounds go forward in what the filter is fed.\<close>

fun fed_in_time :: "tuicMinMaxSample list \<Rightarrow> filter_event list \<Rightarrow> bool" where
  "fed_in_time hs [] = True"
| "fed_in_time hs (e # es) = (in_time (history_step hs e) \<and> fed_in_time (history_step hs e) es)"

lemma minmax_step_inv:
  assumes "mono_laws mt" "filter_inv m hs" "in_time (history_step hs e)"
  shows "filter_inv (filter_step mt m e) (history_step hs e)"
proof (cases e)
  case (Sampled round now v)
  show ?thesis
  proof (cases "v = 0")
    case True
    then show ?thesis using Sampled assms(2) by (simp add: updateMax_def)
  next
    case False
    then show ?thesis using Sampled assms update_rel [OF assms(1) False, of m hs _ round now] by (auto simp: filter_inv_def update_fields window_bounds)
  qed
next
  case (RoundTrip rtt)
  then show ?thesis using assms(2) by (simp add: round_trip_inv)
next
  case Emptied
  then show ?thesis using assms(2) by (simp add: filter_inv_def mm_reset_def all_samples_def zero_sample_def)
qed

lemma run_inv:
  assumes "mono_laws mt" "filter_inv m hs" "fed_in_time hs es"
  shows "filter_inv (foldl (filter_step mt) m es) (foldl history_step hs es)"
  using assms(2,3)
proof (induction es arbitrary: m hs)
  case (Cons e es)
  then show ?case using minmax_step_inv [OF assms(1) Cons.prems(1)] by simp
qed simp

lemma fed_snoc: "fed_in_time hs (es @ [e]) \<longleftrightarrow> fed_in_time hs es \<and> in_time (history_step (foldl history_step hs es) e)"
  by (induction es arbitrary: hs) auto

text \<open>C40: what the bandwidth estimate is. After any run of samples, changes of the round trip and resets, with rounds and clock going forward, the estimate after a sample is the maximum of a
  stretch of the most recent samples, the stretch that starts with the sample the estimate was taken from; and that sample is at most ten rounds, and at most the time window (one to ten seconds), old. So the estimate is
  never below the newest sample, and never outlives either window.\<close>

theorem estimate_is_recent_maximum:
  assumes "mono_laws mt" "fed_in_time [] (es @ [Sampled round now v])" "v \<noteq> 0"
  shows "\<exists>i < length (history (es @ [Sampled round now v])).
    let hs = history (es @ [Sampled round now v]); m = filter_run mt (es @ [Sampled round now v]) in
    mm_get m = Max (sa_value ` set (drop i hs)) \<and> mm_get m = sa_value (hs ! i) \<and> v \<le> mm_get m \<and>
    round - sa_round (hs ! i) \<le> 10 \<and> now - sa_at (hs ! i) \<le> mm_timeWindow m \<and> mm_timeWindow m \<le> 10 * 1000000000"
proof -
  let ?hs = "history es" and ?m = "filter_run mt es" and ?c = "\<lparr>sa_round = round, sa_at = now, sa_value = v\<rparr>"
  have f: "fed_in_time [] es" "in_time (?hs @ [?c])" using assms(2,3) by (auto simp: fed_snoc history_def)
  have i: "filter_inv ?m ?hs" unfolding filter_run_def history_def
    by (rule run_inv [OF assms(1) _ f(1)]) (simp add: filter_inv_def newTUICMinMax_def zero_sample_def window_bounds)
  have m: "filter_run mt (es @ [Sampled round now v]) = updateMax mt ?m round now v" and h: "history (es @ [Sampled round now v]) = ?hs @ [?c]"
    using assms(3) by (auto simp: filter_run_def history_def)
  have u: "filter_rel (updateMax mt ?m round now v) (?hs @ [?c]) \<and> recent (updateMax mt ?m round now v) ?c"
    using i by (intro update_rel [OF assms(1,3) _ _ f(2)]) (auto simp: filter_inv_def window_bounds)
  then obtain k where k: "stands (?hs @ [?c]) k (mm_s0 (updateMax mt ?m round now v))" by (auto simp: filter_rel_def)
  have in_drop: "(?hs @ [?c]) ! k \<in> set (drop k (?hs @ [?c]))" using k by (metis Cons_nth_drop_Suc list.set_intros(1) stands_def)
  have new: "?c \<in> set (drop k (?hs @ [?c]))" using k by (auto simp: stands_def)
  have "mm_get (updateMax mt ?m round now v) = Max (sa_value ` set (drop k (?hs @ [?c])))"
    using k in_drop by (intro Max_eqI [symmetric]) (auto simp: stands_def mm_get_def)
  moreover have "v \<le> mm_get (updateMax mt ?m round now v)" using k new by (auto simp: stands_def mm_get_def)
  ultimately show ?thesis using k u i unfolding m h
    by (intro exI [of _ k]) (auto simp: stands_def recent_def mm_get_def update_fields filter_inv_def window_bounds Let_def)
qed

theorem estimate_is_recent_maximum_witness:
  "\<exists>i < 3. mm_get (filter_run go_clock [Sampled 1 5 70, Sampled 2 6 40, Sampled 3 7 50]) = sa_value ([\<lparr>sa_round = 1, sa_at = 5, sa_value = 70\<rparr>,
     \<lparr>sa_round = 2, sa_at = 6, sa_value = 40\<rparr>, \<lparr>sa_round = 3, sa_at = 7, sa_value = 50\<rparr>] ! i)"
proof -
  have "fed_in_time [] ([Sampled 1 5 70, Sampled 2 6 40] @ [Sampled 3 7 50])" by (simp add: in_time_def)
  from estimate_is_recent_maximum [OF _ this, of go_clock] show ?thesis by (auto simp: mono_laws_def go_clock_def history_def Let_def numeral_3_eq_3)
qed

end
