(* ===== verification/BulkDemux.thy ===== *)
theory BulkDemux
  imports Frame "HOL-Library.AList" "HOL-Library.Sublist"
begin

text \<open>
  The demultiplexer of a lane's coded datagrams, \<^verbatim>\<open>internal/pep/codedlane.go\<close>: frames go to the flow they name, or are held for a flow that is about
  to open. A buffered channel is a cell of a list of channels, so that a subscription that was closed and one that is open are told apart; sending on a
  closed channel and closing one twice panic, and an operation that panics has no result. Maps are association lists.
\<close>

section \<open>Channels\<close>

record frame_chan =
  fc_buffer :: "frame list"
  fc_cap :: nat
  fc_closed :: bool

text \<open>\<^verbatim>\<open>select\<close> with a send and a default: the frame is dropped when the buffer is full.\<close>

definition offer :: "frame_chan list \<Rightarrow> nat \<Rightarrow> frame \<Rightarrow> frame_chan list option" where
  "offer chans c f =
     (if fc_closed (chans ! c) then None
      else Some (if length (fc_buffer (chans ! c)) < fc_cap (chans ! c) then chans[c := (chans ! c)\<lparr>fc_buffer := fc_buffer (chans ! c) @ [f]\<rparr>] else chans))"

fun offer_all :: "frame_chan list \<Rightarrow> nat \<Rightarrow> frame list \<Rightarrow> frame_chan list option" where
  "offer_all chans c [] = Some chans"
| "offer_all chans c (f # fs) = (case offer chans c f of None \<Rightarrow> None | Some chans1 \<Rightarrow> offer_all chans1 c fs)"

definition close_chan :: "frame_chan list \<Rightarrow> nat \<Rightarrow> frame_chan list option" where
  "close_chan chans c = (if fc_closed (chans ! c) then None else Some (chans[c := (chans ! c)\<lparr>fc_closed := True\<rparr>]))"

fun close_each :: "frame_chan list \<Rightarrow> nat list \<Rightarrow> frame_chan list option" where
  "close_each chans [] = Some chans"
| "close_each chans (c # cs) = (case close_chan chans c of None \<Rightarrow> None | Some chans1 \<Rightarrow> close_each chans1 cs)"

section \<open>State\<close>

record heldFrame =
  hf_frame :: frame
  hf_at :: int

record subscription =
  sb_frames :: nat
  sb_lanes :: int

record bulkDemux =
  bd_queueFrames :: int
  bd_heldFrames :: int
  bd_heldBytes :: int
  bd_flows :: "(u64 \<times> subscription) list"
  bd_held :: "(u64 \<times> heldFrame list) list"
  bd_chans :: "frame_chan list"

definition heldFrameLifetime :: int where "heldFrameLifetime = 2 * 1000000000"
definition maxHeldFrames :: int where "maxHeldFrames = 256"
definition maxHeldBytes :: int where "maxHeldBytes = 1048576"
definition maxBulkQueueFrames :: int where "maxBulkQueueFrames = 256"

definition newBulkDemux :: "int \<Rightarrow> bulkDemux" where
  "newBulkDemux q =
     (let queueFrames = (if q < 1 \<or> q > maxBulkQueueFrames then maxBulkQueueFrames else q);
          heldFrames = min maxHeldFrames (2 * queueFrames);
          heldBytes = min maxHeldBytes (heldFrames * int MaxPayload)
      in \<lparr>bd_queueFrames = queueFrames, bd_heldFrames = heldFrames, bd_heldBytes = heldBytes, bd_flows = [], bd_held = [], bd_chans = []\<rparr>)"

section \<open>Operations\<close>

definition keep_held :: "int \<Rightarrow> (u64 \<times> heldFrame list) list \<Rightarrow> (u64 \<times> heldFrame list) list" where
  "keep_held now held =
     filter (\<lambda>(_, hs). hs \<noteq> []) (map (\<lambda>(k, hs). (k, filter (\<lambda>one. now - hf_at one \<le> heldFrameLifetime) hs)) held)"

definition held_for :: "(u64 \<times> heldFrame list) list \<Rightarrow> u64 \<Rightarrow> heldFrame list" where
  "held_for held k = (case map_of held k of None \<Rightarrow> [] | Some hs \<Rightarrow> hs)"

definition held_count :: "(u64 \<times> heldFrame list) list \<Rightarrow> int" where
  "held_count held = int (sum_list (map (\<lambda>(_, hs). length hs) held))"

definition held_bytes :: "(u64 \<times> heldFrame list) list \<Rightarrow> int" where
  "held_bytes held = int (sum_list (map (\<lambda>(_, hs). sum_list (map (\<lambda>one. length (fPayload (hf_frame one))) hs)) held))"

definition holdLocked :: "bulkDemux \<Rightarrow> frame \<Rightarrow> int \<Rightarrow> bulkDemux" where
  "holdLocked d f now =
     (let heldFrameLimit = (if bd_heldFrames d \<le> 0 then maxHeldFrames else bd_heldFrames d);
          heldByteLimit = (if bd_heldBytes d \<le> 0 then maxHeldBytes else bd_heldBytes d);
          held = keep_held now (bd_held d);
          fid = hFlowID (fHeader f)
      in if held_count held \<ge> heldFrameLimit \<or> held_bytes held + int (length (fPayload f)) > heldByteLimit then d\<lparr>bd_held := held\<rparr>
         else d\<lparr>bd_held := AList.update fid (held_for held fid @ [\<lparr>hf_frame = f, hf_at = now\<rparr>]) held\<rparr>)"

text \<open>One turn of \<^verbatim>\<open>run\<close>: a payload, or the end of the path.\<close>

definition run_payload :: "bulkDemux \<Rightarrow> bytes \<Rightarrow> int \<Rightarrow> bulkDemux option" where
  "run_payload d payload now =
     (case ParseFrameOwned payload of
        Inl _ \<Rightarrow> Some d
      | Inr f \<Rightarrow>
          (case map_of (bd_flows d) (hFlowID (fHeader f)) of
             Some sub \<Rightarrow> map_option (\<lambda>chans. d\<lparr>bd_chans := chans\<rparr>) (offer (bd_chans d) (sb_frames sub) f)
           | None \<Rightarrow> Some (holdLocked d f now)))"

definition run_ended :: "bulkDemux \<Rightarrow> bulkDemux option" where
  "run_ended d = map_option (\<lambda>chans. d\<lparr>bd_chans := chans, bd_flows := []\<rparr>) (close_each (bd_chans d) (map (\<lambda>(_, sub). sb_frames sub) (bd_flows d)))"

definition subscribe :: "bulkDemux \<Rightarrow> u64 \<Rightarrow> (nat \<times> bulkDemux) option" where
  "subscribe d fid =
     (case map_of (bd_flows d) fid of
        Some sub \<Rightarrow> Some (sb_frames sub, d\<lparr>bd_flows := AList.update fid (sub\<lparr>sb_lanes := sb_lanes sub + 1\<rparr>) (bd_flows d)\<rparr>)
      | None \<Rightarrow>
          let queueFrames = (if bd_queueFrames d \<le> 0 then maxBulkQueueFrames else bd_queueFrames d); c = length (bd_chans d) in
          (case offer_all (bd_chans d @ [\<lparr>fc_buffer = [], fc_cap = nat queueFrames, fc_closed = False\<rparr>]) c (map hf_frame (held_for (bd_held d) fid)) of
             None \<Rightarrow> None
           | Some chans \<Rightarrow>
               Some (c, d\<lparr>bd_chans := chans, bd_held := AList.delete fid (bd_held d), bd_flows := AList.update fid \<lparr>sb_frames = c, sb_lanes = 1\<rparr> (bd_flows d)\<rparr>)))"

definition release_flow :: "bulkDemux \<Rightarrow> u64 \<Rightarrow> bulkDemux option" where
  "release_flow d fid =
     (case map_of (bd_flows d) fid of
        None \<Rightarrow> Some d
      | Some sub \<Rightarrow>
          if sb_lanes sub - 1 > 0 then Some (d\<lparr>bd_flows := AList.update fid (sub\<lparr>sb_lanes := sb_lanes sub - 1\<rparr>) (bd_flows d)\<rparr>)
          else map_option (\<lambda>chans. d\<lparr>bd_chans := chans, bd_flows := AList.delete fid (bd_flows d)\<rparr>) (close_chan (bd_chans d) (sb_frames sub)))"

section \<open>Runs\<close>

text \<open>\<open>rn_arrivals\<close> are the frames the path delivered, \<open>rn_owner\<close> the flow each channel was made for, \<open>rn_taken\<close> what its lanes have read from it.\<close>

record demux_run =
  rn_demux :: bulkDemux
  rn_arrivals :: "frame list"
  rn_owner :: "u64 list"
  rn_taken :: "nat \<Rightarrow> frame list"

definition parsed :: "bytes \<Rightarrow> frame list" where
  "parsed payload = (case ParseFrameOwned payload of Inl _ \<Rightarrow> [] | Inr f \<Rightarrow> [f])"

inductive demux_reach :: "int \<Rightarrow> demux_run \<Rightarrow> bool" for q where
  start: "demux_reach q \<lparr>rn_demux = newBulkDemux q, rn_arrivals = [], rn_owner = [], rn_taken = \<lambda>_. []\<rparr>"
| arrives: "demux_reach q r \<Longrightarrow> run_payload (rn_demux r) payload now = Some d \<Longrightarrow> demux_reach q (r\<lparr>rn_demux := d, rn_arrivals := rn_arrivals r @ parsed payload\<rparr>)"
| path_ends: "demux_reach q r \<Longrightarrow> run_ended (rn_demux r) = Some d \<Longrightarrow> demux_reach q (r\<lparr>rn_demux := d\<rparr>)"
| subscribes: "demux_reach q r \<Longrightarrow> subscribe (rn_demux r) fid = Some (c, d) \<Longrightarrow>
    demux_reach q (r\<lparr>rn_demux := d, rn_owner := (if c < length (rn_owner r) then rn_owner r else rn_owner r @ [fid])\<rparr>)"
| releases: "demux_reach q r \<Longrightarrow> release_flow (rn_demux r) fid = Some d \<Longrightarrow> demux_reach q (r\<lparr>rn_demux := d\<rparr>)"
| takes: "demux_reach q r \<Longrightarrow> c < length (bd_chans (rn_demux r)) \<Longrightarrow> fc_buffer (bd_chans (rn_demux r) ! c) = f # fs \<Longrightarrow>
    demux_reach q (r\<lparr>rn_demux := (rn_demux r)\<lparr>bd_chans := (bd_chans (rn_demux r))[c := (bd_chans (rn_demux r) ! c)\<lparr>fc_buffer := fs\<rparr>]\<rparr>,
      rn_taken := (rn_taken r)(c := rn_taken r c @ [f])\<rparr>)"

text \<open>What a flow was given, over all its subscriptions in turn.\<close>

definition channel_out :: "demux_run \<Rightarrow> nat \<Rightarrow> frame list" where
  "channel_out r c = rn_taken r c @ fc_buffer (bd_chans (rn_demux r) ! c)"

definition given_to :: "demux_run \<Rightarrow> u64 \<Rightarrow> frame list" where
  "given_to r fid = concat (map (channel_out r) (filter (\<lambda>c. rn_owner r ! c = fid) [0..<length (rn_owner r)]))"

definition arrived_for :: "demux_run \<Rightarrow> u64 \<Rightarrow> frame list" where
  "arrived_for r fid = filter (\<lambda>f. hFlowID (fHeader f) = fid) (rn_arrivals r)"

section \<open>The invariant\<close>

text \<open>The channel of a subscribed flow is open, its own, the last that was made for it, and nothing is held for it.\<close>

definition open_flow :: "demux_run \<Rightarrow> u64 \<Rightarrow> nat \<Rightarrow> bool" where
  "open_flow r fid c \<longleftrightarrow> c < length (rn_owner r) \<and> \<not> fc_closed (bd_chans (rn_demux r) ! c) \<and> rn_owner r ! c = fid \<and>
     (\<forall>c'. c < c' \<and> c' < length (rn_owner r) \<longrightarrow> rn_owner r ! c' \<noteq> fid) \<and> held_for (bd_held (rn_demux r)) fid = []"

definition held_in_bounds :: "int \<Rightarrow> bulkDemux \<Rightarrow> bool" where
  "held_in_bounds q d \<longleftrightarrow> bd_queueFrames d = bd_queueFrames (newBulkDemux q) \<and> bd_heldFrames d = bd_heldFrames (newBulkDemux q) \<and> bd_heldBytes d = bd_heldBytes (newBulkDemux q) \<and>
     held_count (bd_held d) \<le> bd_heldFrames d \<and> held_bytes (bd_held d) \<le> bd_heldBytes d \<and>
     (\<forall>ch \<in> set (bd_chans d). int (length (fc_buffer ch)) \<le> bd_queueFrames d \<and> int (fc_cap ch) = bd_queueFrames d)"

definition demux_inv :: "int \<Rightarrow> demux_run \<Rightarrow> bool" where
  "demux_inv q r \<longleftrightarrow> length (rn_owner r) = length (bd_chans (rn_demux r)) \<and>
     distinct (map fst (bd_flows (rn_demux r))) \<and> distinct (map fst (bd_held (rn_demux r))) \<and> (\<forall>c \<ge> length (rn_owner r). rn_taken r c = []) \<and>
     (\<forall>fid sub. map_of (bd_flows (rn_demux r)) fid = Some sub \<longrightarrow> open_flow r fid (sb_frames sub)) \<and>
     (\<forall>fid. subseq (given_to r fid @ map hf_frame (held_for (bd_held (rn_demux r)) fid)) (arrived_for r fid)) \<and> held_in_bounds q (rn_demux r)"

lemma demux_parts:
  assumes "demux_inv q r"
  shows "length (rn_owner r) = length (bd_chans (rn_demux r))" "distinct (map fst (bd_flows (rn_demux r)))" "distinct (map fst (bd_held (rn_demux r)))"
    "\<And>fid sub. map_of (bd_flows (rn_demux r)) fid = Some sub \<Longrightarrow> open_flow r fid (sb_frames sub)"
    "\<And>fid. subseq (given_to r fid @ map hf_frame (held_for (bd_held (rn_demux r)) fid)) (arrived_for r fid)" "held_in_bounds q (rn_demux r)"
    "\<And>c. length (rn_owner r) \<le> c \<Longrightarrow> rn_taken r c = []"
  using assms by (auto simp: demux_inv_def)

text \<open>The configuration the constructor gives is positive and within its maxima.\<close>

lemma config_bounds:
  "1 \<le> bd_queueFrames (newBulkDemux q)" "bd_queueFrames (newBulkDemux q) \<le> 256" "1 \<le> bd_heldFrames (newBulkDemux q)" "bd_heldFrames (newBulkDemux q) \<le> 256"
  "1 \<le> bd_heldBytes (newBulkDemux q)" "bd_heldBytes (newBulkDemux q) \<le> 1048576"
  by (auto simp: newBulkDemux_def maxBulkQueueFrames_def maxHeldFrames_def maxHeldBytes_def MaxPayload_def Let_def)

subsection \<open>What a flow was given\<close>

lemma given_cong:
  assumes "rn_owner r' = rn_owner r" "\<And>c. c < length (rn_owner r) \<Longrightarrow> rn_owner r ! c = fid \<Longrightarrow> channel_out r' c = channel_out r c"
  shows "given_to r' fid = given_to r fid"
  using assms by (auto simp: given_to_def intro!: arg_cong [of _ _ concat])

lemma given_more:
  assumes "rn_owner r' = rn_owner r" "c < length (rn_owner r)" "rn_owner r ! c = fid" "\<forall>c'. c < c' \<and> c' < length (rn_owner r) \<longrightarrow> rn_owner r ! c' \<noteq> fid"
    and "channel_out r' c = channel_out r c @ fs" "\<And>c'. c' \<noteq> c \<Longrightarrow> channel_out r' c' = channel_out r c'"
  shows "given_to r' fid = given_to r fid @ fs"
proof -
  let ?n = "length (rn_owner r)" and ?P = "\<lambda>c. rn_owner r ! c = fid"
  have "[0..<?n] = [0..<c] @ c # [Suc c..<?n]" using assms(2) upt_add_eq_append [of 0 c "?n - c"] upt_conv_Cons [of c ?n] by simp
  moreover have "filter ?P [Suc c..<?n] = []" using assms(4) by (auto simp: filter_empty_conv)
  ultimately have "filter ?P [0..<?n] = filter ?P [0..<c] @ [c]" using assms(3) by simp
  moreover have "concat (map (channel_out r') (filter ?P [0..<c])) = concat (map (channel_out r) (filter ?P [0..<c]))"
    using assms(6) by (intro arg_cong [of _ _ concat]) auto
  ultimately show ?thesis using assms(1,5) by (simp add: given_to_def)
qed

lemma offer_all_new:
  "length b \<le> cap \<Longrightarrow> offer_all (chans @ [\<lparr>fc_buffer = b, fc_cap = cap, fc_closed = False\<rparr>]) (length chans) fs =
     Some (chans @ [\<lparr>fc_buffer = b @ take (cap - length b) fs, fc_cap = cap, fc_closed = False\<rparr>])"
proof (induction fs arbitrary: b)
  case (Cons f fs)
  show ?case
  proof (cases "length b < cap")
    case True
    then show ?thesis using Cons.IH [of "b @ [f]"] by (simp add: offer_def take_Cons' Suc_diff_le)
  next
    case False
    then show ?thesis using Cons.IH [of b] Cons.prems by (simp add: offer_def)
  qed
qed simp

lemma given_new:
  assumes "length (rn_owner r) = length (bd_chans (rn_demux r))" "rn_owner r' = rn_owner r @ [fid]" "rn_taken r' = rn_taken r"
    and "bd_chans (rn_demux r') = bd_chans (rn_demux r) @ [ch]" "rn_taken r (length (rn_owner r)) = []"
  shows "given_to r' g = (if g = fid then given_to r g @ fc_buffer ch else given_to r g)"
proof -
  let ?n = "length (rn_owner r)" and ?F = "filter (\<lambda>c. rn_owner r ! c = g) [0..<length (rn_owner r)]"
  have F: "filter (\<lambda>c. rn_owner r' ! c = g) [0..<?n] = ?F" by (rule filter_cong) (auto simp: assms(2) nth_append)
  have "concat (map (channel_out r') ?F) = concat (map (channel_out r) ?F)"
    using assms(1) by (intro arg_cong [of _ _ concat]) (auto simp: channel_out_def assms(3,4) nth_append)
  moreover have "given_to r' g = concat (map (channel_out r') ?F) @ (if g = fid then channel_out r' ?n else [])"
    unfolding given_to_def assms(2) length_append using F by (simp add: assms(2) [symmetric]) (simp add: assms(2))
  moreover have "channel_out r' ?n = fc_buffer ch" using assms(1,5) by (simp add: channel_out_def assms(3,4))
  ultimately show ?thesis by (simp add: given_to_def)
qed

subsection \<open>What is held\<close>

lemma demux_held_update: "held_for (AList.update k hs held) g = (if g = k then hs else held_for held g)"
  by (simp add: held_for_def update_conv')

lemma held_delete: "held_for (AList.delete k held) g = (if g = k then [] else held_for held g)"
  by (simp add: held_for_def delete_conv' restrict_map_def)

definition alive :: "int \<Rightarrow> heldFrame list \<Rightarrow> heldFrame list" where
  "alive now hs = filter (\<lambda>one. now - hf_at one \<le> heldFrameLifetime) hs"

lemma keep_held_simps:
  "keep_held now [] = []" "keep_held now ((k, hs) # held) = (if alive now hs = [] then keep_held now held else (k, alive now hs) # keep_held now held)"
  by (simp_all add: keep_held_def alive_def)

lemma keep_held_for:
  assumes "distinct (map fst held)"
  shows "held_for (keep_held now held) k = alive now (held_for held k)" "distinct (map fst (keep_held now held))"
proof -
  have "held_for (keep_held now held) k = alive now (held_for held k) \<and> distinct (map fst (keep_held now held)) \<and> fst ` set (keep_held now held) \<subseteq> fst ` set held"
    using assms
  proof (induction held)
    case (Cons e held)
    obtain k' hs where e: "e = (k', hs)" by (cases e)
    have k': "k' \<notin> fst ` set (keep_held now held)" using Cons by (auto simp: e)
    then have "map_of (keep_held now held) k' = None" by (simp add: map_of_eq_None_iff)
    then show ?case using Cons k' by (auto simp: e keep_held_simps held_for_def)
  qed (simp add: keep_held_def held_for_def alive_def)
  then show "held_for (keep_held now held) k = alive now (held_for held k)" "distinct (map fst (keep_held now held))" by blast+
qed

lemma held_less: "held_count (keep_held now held) \<le> held_count held" "held_bytes (keep_held now held) \<le> held_bytes held"
proof -
  have le: "sum_list (map f (alive now hs)) \<le> sum_list (map f hs)" for f :: "heldFrame \<Rightarrow> nat" and hs by (induction hs) (auto simp: alive_def)
  have c: "held_count ((k, hs) # held) = int (length hs) + held_count held" "held_bytes ((k, hs) # held) = int (sum_list (map (\<lambda>one. length (fPayload (hf_frame one))) hs)) + held_bytes held"
    for k hs held by (simp_all add: held_count_def held_bytes_def)
  have "held_count (keep_held now held) \<le> held_count held \<and> held_bytes (keep_held now held) \<le> held_bytes held"
  proof (induction held)
    case (Cons e held)
    obtain k hs where e: "e = (k, hs)" by (cases e)
    have "length (alive now hs) \<le> length hs" by (simp add: alive_def)
    then show ?case using Cons le [of "\<lambda>one. length (fPayload (hf_frame one))" hs] by (auto simp: e keep_held_simps c)
  qed (simp add: keep_held_simps)
  then show "held_count (keep_held now held) \<le> held_count held" "held_bytes (keep_held now held) \<le> held_bytes held" by blast+
qed

lemma held_grows:
  "held_count (AList.update k (held_for held k @ [x]) held) = held_count held + 1"
  "held_bytes (AList.update k (held_for held k @ [x]) held) = held_bytes held + int (length (fPayload (hf_frame x)))"
  by (induction held) (auto simp: held_count_def held_bytes_def held_for_def)

lemma held_shrinks: "held_count (AList.delete k held) \<le> held_count held" "held_bytes (AList.delete k held) \<le> held_bytes held"
  by (induction held) (auto simp: held_count_def held_bytes_def)

lemma hold_fields [simp]: "bd_flows (holdLocked d f now) = bd_flows d" "bd_chans (holdLocked d f now) = bd_chans d"
  "bd_queueFrames (holdLocked d f now) = bd_queueFrames d" "bd_heldFrames (holdLocked d f now) = bd_heldFrames d" "bd_heldBytes (holdLocked d f now) = bd_heldBytes d"
  by (simp_all add: holdLocked_def Let_def)

lemma hold_result:
  assumes "distinct (map fst (bd_held d))"
  obtains "held_for (bd_held (holdLocked d f now)) = held_for (keep_held now (bd_held d))" "bd_held (holdLocked d f now) = keep_held now (bd_held d)"
  | "held_for (bd_held (holdLocked d f now)) = (held_for (keep_held now (bd_held d)))(hFlowID (fHeader f) := held_for (keep_held now (bd_held d)) (hFlowID (fHeader f)) @ [\<lparr>hf_frame = f, hf_at = now\<rparr>])"
    "bd_held (holdLocked d f now) = AList.update (hFlowID (fHeader f)) (held_for (keep_held now (bd_held d)) (hFlowID (fHeader f)) @ [\<lparr>hf_frame = f, hf_at = now\<rparr>]) (keep_held now (bd_held d))"
    "held_count (keep_held now (bd_held d)) < (if bd_heldFrames d \<le> 0 then maxHeldFrames else bd_heldFrames d)"
    "held_bytes (keep_held now (bd_held d)) + int (length (fPayload f)) \<le> (if bd_heldBytes d \<le> 0 then maxHeldBytes else bd_heldBytes d)"
proof (cases "held_count (keep_held now (bd_held d)) \<ge> (if bd_heldFrames d \<le> 0 then maxHeldFrames else bd_heldFrames d) \<or>
    held_bytes (keep_held now (bd_held d)) + int (length (fPayload f)) > (if bd_heldBytes d \<le> 0 then maxHeldBytes else bd_heldBytes d)")
  case True
  then show ?thesis using that(1) by (simp add: holdLocked_def Let_def)
next
  case False
  then have e: "bd_held (holdLocked d f now) = AList.update (hFlowID (fHeader f)) (held_for (keep_held now (bd_held d)) (hFlowID (fHeader f)) @ [\<lparr>hf_frame = f, hf_at = now\<rparr>]) (keep_held now (bd_held d))"
    unfolding holdLocked_def Let_def by (simp only: if_False) simp
  show ?thesis by (rule that(2) [OF _ e]) (use False in \<open>auto simp: e demux_held_update fun_eq_iff\<close>)
qed

subsection \<open>Every step keeps it\<close>

lemma subseq_grow: "subseq (xs @ ys) zs \<Longrightarrow> subseq ys' ys \<Longrightarrow> subseq (xs @ ys') zs"
  by (meson list_emb_append_mono subseq_order.order_refl subseq_order.order_trans)

lemma subseq_arrive: "subseq xs zs \<Longrightarrow> fs = [] \<or> fs = [f] \<Longrightarrow> subseq (xs @ fs) (zs @ [f])"
  by (auto intro: list_emb_append_mono)

text \<open>A step that changes channels only: none is opened again or made, and what they hold still fits.\<close>

lemma chans_inv:
  assumes "demux_inv q r"
    and same: "rn_owner r' = rn_owner r" "bd_held (rn_demux r') = bd_held (rn_demux r)" "length (bd_chans (rn_demux r')) = length (bd_chans (rn_demux r))"
      "bd_queueFrames (rn_demux r') = bd_queueFrames (rn_demux r)" "bd_heldFrames (rn_demux r') = bd_heldFrames (rn_demux r)" "bd_heldBytes (rn_demux r') = bd_heldBytes (rn_demux r)"
      "\<And>c. length (rn_owner r) \<le> c \<Longrightarrow> rn_taken r' c = []"
    and flows: "distinct (map fst (bd_flows (rn_demux r')))"
      "\<And>g sub. map_of (bd_flows (rn_demux r')) g = Some sub \<Longrightarrow> \<exists>sub0. map_of (bd_flows (rn_demux r)) g = Some sub0 \<and> sb_frames sub0 = sb_frames sub \<and> \<not> fc_closed (bd_chans (rn_demux r') ! sb_frames sub)"
    and fits: "\<And>ch. ch \<in> set (bd_chans (rn_demux r')) \<Longrightarrow> int (length (fc_buffer ch)) \<le> bd_queueFrames (rn_demux r) \<and> int (fc_cap ch) = bd_queueFrames (rn_demux r)"
    and seq: "\<And>g. subseq (given_to r' g @ map hf_frame (held_for (bd_held (rn_demux r)) g)) (arrived_for r' g)"
  shows "demux_inv q r'"
proof -
  note I = demux_parts [OF assms(1)]
  have "open_flow r' g (sb_frames sub)" if "map_of (bd_flows (rn_demux r')) g = Some sub" for g sub
  proof -
    from flows(2) [OF that] obtain sub0 where s: "map_of (bd_flows (rn_demux r)) g = Some sub0" "sb_frames sub0 = sb_frames sub" "\<not> fc_closed (bd_chans (rn_demux r') ! sb_frames sub)" by blast
    from I(4) [OF s(1)] show ?thesis using s(2,3) by (simp add: open_flow_def same)
  qed
  moreover have "held_in_bounds q (rn_demux r')" using I(6) fits by (auto simp: held_in_bounds_def same)
  ultimately show ?thesis using I(1,3) flows(1) seq same by (simp add: demux_inv_def)
qed

lemma deliver_inv:
  assumes "demux_inv q r" "map_of (bd_flows (rn_demux r)) (hFlowID (fHeader f)) = Some sub" "offer (bd_chans (rn_demux r)) (sb_frames sub) f = Some chans"
  shows "demux_inv q (r\<lparr>rn_demux := (rn_demux r)\<lparr>bd_chans := chans\<rparr>, rn_arrivals := rn_arrivals r @ [f]\<rparr>)" (is "demux_inv q ?r")
proof -
  note I = demux_parts [OF assms(1)]
  let ?c = "sb_frames sub" and ?fid = "hFlowID (fHeader f)" and ?ch = "bd_chans (rn_demux r) ! sb_frames sub"
  have o: "open_flow r ?fid ?c" by (rule I(4) [OF assms(2)])
  then have c: "?c < length (bd_chans (rn_demux r))" "?c < length (rn_owner r)" "?ch \<in> set (bd_chans (rn_demux r))" using I(1) by (auto simp: open_flow_def)
  obtain fs where fs: "fs = [] \<or> fs = [f]" "chans = (bd_chans (rn_demux r))[?c := ?ch\<lparr>fc_buffer := fc_buffer ?ch @ fs\<rparr>]" "length (fc_buffer ?ch @ fs) \<le> max (fc_cap ?ch) (length (fc_buffer ?ch))"
  proof (cases "length (fc_buffer ?ch) < fc_cap ?ch")
    case True
    then show ?thesis using that [of "[f]"] assms(3) by (auto simp: offer_def split: if_splits)
  next
    case False
    then show ?thesis using that [of "[]"] assms(3) by (auto simp: offer_def split: if_splits)
  qed
  have out: "channel_out ?r ?c = channel_out r ?c @ fs" "\<And>c'. c' \<noteq> ?c \<Longrightarrow> channel_out ?r c' = channel_out r c'" using c by (auto simp: channel_out_def fs(2))
  have g: "given_to ?r ?fid = given_to r ?fid @ fs" using o c out by (intro given_more [of ?r r ?c]) (auto simp: open_flow_def)
  show ?thesis
  proof (rule chans_inv [OF assms(1)])
    show "subseq (given_to ?r g @ map hf_frame (held_for (bd_held (rn_demux r)) g)) (arrived_for ?r g)" for g
    proof (cases "g = ?fid")
      case True
      then show ?thesis using g o I(5) [of g] fs(1) by (auto simp: open_flow_def arrived_for_def intro: subseq_arrive)
    next
      case False
      have "channel_out ?r c' = channel_out r c'" if "rn_owner r ! c' = g" for c' using out(2) [of c'] o False that by (auto simp: open_flow_def)
      then have "given_to ?r g = given_to r g" by (intro given_cong) auto
      then show ?thesis using False I(5) [of g] by (simp add: arrived_for_def)
    qed
    show "int (length (fc_buffer ch)) \<le> bd_queueFrames (rn_demux r) \<and> int (fc_cap ch) = bd_queueFrames (rn_demux r)" if "ch \<in> set (bd_chans (rn_demux ?r))" for ch
    proof -
      have "ch = ?ch\<lparr>fc_buffer := fc_buffer ?ch @ fs\<rparr> \<or> ch \<in> set (bd_chans (rn_demux r))" using that set_update_subset_insert by (fastforce simp: fs(2))
      then show ?thesis using I(6) c(3) fs(3) by (auto simp: held_in_bounds_def)
    qed
    show "\<exists>sub0. map_of (bd_flows (rn_demux r)) g = Some sub0 \<and> sb_frames sub0 = sb_frames s \<and> \<not> fc_closed (bd_chans (rn_demux ?r) ! sb_frames s)"
      if "map_of (bd_flows (rn_demux ?r)) g = Some s" for g s
      using that I(4) [of g s] o c by (auto simp: fs(2) open_flow_def nth_list_update)
  qed (use I(2,7) in \<open>auto simp: fs(2)\<close>)
qed

lemma hold_inv:
  assumes "demux_inv q r" "map_of (bd_flows (rn_demux r)) (hFlowID (fHeader f)) = None"
  shows "demux_inv q (r\<lparr>rn_demux := holdLocked (rn_demux r) f now, rn_arrivals := rn_arrivals r @ [f]\<rparr>)" (is "demux_inv q ?r")
proof -
  note I = demux_parts [OF assms(1)]
  let ?d = "rn_demux r" and ?h = "bd_held (holdLocked (rn_demux r) f now)" and ?fid = "hFlowID (fHeader f)"
  note K = keep_held_for [OF I(3)] and less = held_less [of now "bd_held ?d"]
  have lim: "0 < bd_heldFrames ?d" "0 < bd_heldBytes ?d" using I(6) config_bounds [of q] by (auto simp: held_in_bounds_def)
  have h: "distinct (map fst ?h) \<and> held_count ?h \<le> bd_heldFrames ?d \<and> held_bytes ?h \<le> bd_heldBytes ?d \<and>
      (\<forall>g. held_for ?h g = alive now (held_for (bd_held ?d) g) \<or> g = ?fid \<and> held_for ?h g = alive now (held_for (bd_held ?d) g) @ [\<lparr>hf_frame = f, hf_at = now\<rparr>])"
  proof (rule hold_result [OF I(3), of f now])
    assume "held_for ?h = held_for (keep_held now (bd_held ?d))" "?h = keep_held now (bd_held ?d)"
    then show ?thesis using K less I(6) by (auto simp: held_in_bounds_def)
  next
    assume a: "held_for ?h = (held_for (keep_held now (bd_held ?d)))(?fid := held_for (keep_held now (bd_held ?d)) ?fid @ [\<lparr>hf_frame = f, hf_at = now\<rparr>])"
      "?h = AList.update ?fid (held_for (keep_held now (bd_held ?d)) ?fid @ [\<lparr>hf_frame = f, hf_at = now\<rparr>]) (keep_held now (bd_held ?d))"
      "held_count (keep_held now (bd_held ?d)) < (if bd_heldFrames ?d \<le> 0 then maxHeldFrames else bd_heldFrames ?d)"
      "held_bytes (keep_held now (bd_held ?d)) + int (length (fPayload f)) \<le> (if bd_heldBytes ?d \<le> 0 then maxHeldBytes else bd_heldBytes ?d)"
    have "held_count ?h \<le> bd_heldFrames ?d" "held_bytes ?h \<le> bd_heldBytes ?d" unfolding a(2) held_grows using a(3,4) lim by auto
    moreover have "distinct (map fst ?h)" unfolding a(2) using K(2) by (rule distinct_update)
    ultimately show ?thesis using K(1) by (simp add: a(1))
  qed
  from h have hg: "held_for ?h g = alive now (held_for (bd_held ?d) g) \<or> g = ?fid \<and> held_for ?h g = alive now (held_for (bd_held ?d) g) @ [\<lparr>hf_frame = f, hf_at = now\<rparr>]" for g by blast
  have given: "given_to ?r g = given_to r g" for g by (rule given_cong) (auto simp: channel_out_def)
  have "subseq (given_to ?r g @ map hf_frame (held_for ?h g)) (arrived_for ?r g)" for g
  proof -
    have "subseq (map hf_frame (alive now (held_for (bd_held ?d) g))) (map hf_frame (held_for (bd_held ?d) g))" by (simp add: alive_def subseq_map)
    then have s: "subseq (given_to r g @ map hf_frame (alive now (held_for (bd_held ?d) g))) (arrived_for r g)" by (rule subseq_grow [OF I(5)])
    show ?thesis
    proof (cases "g = ?fid")
      case True
      then show ?thesis using hg [of g] subseq_arrive [OF s, of "[]" f] subseq_arrive [OF s, of "[f]" f] by (elim disjE conjE; simp add: given arrived_for_def)
    next
      case False
      then show ?thesis using hg [of g] s by (simp add: given arrived_for_def)
    qed
  qed
  moreover have "open_flow ?r g (sb_frames sub)" if "map_of (bd_flows ?d) g = Some sub" for g sub
  proof -
    have "g \<noteq> ?fid" using that assms(2) by auto
    then show ?thesis using I(4) [OF that] hg [of g] by (simp add: open_flow_def alive_def)
  qed
  moreover have "held_in_bounds q (holdLocked ?d f now)" using I(6) h by (auto simp: held_in_bounds_def)
  ultimately show ?thesis using I(1,2,7) h by (simp add: demux_inv_def)
qed

text \<open>Closing the channels of flows that are given up.\<close>

lemma close_each_ok:
  assumes "distinct cs" "\<forall>c \<in> set cs. c < length chans \<and> \<not> fc_closed (chans ! c)"
  shows "\<exists>chans'. close_each chans cs = Some chans' \<and> length chans' = length chans \<and>
    (\<forall>c < length chans. chans' ! c = (if c \<in> set cs then (chans ! c)\<lparr>fc_closed := True\<rparr> else chans ! c))"
  using assms
proof (induction cs arbitrary: chans)
  case (Cons c cs)
  let ?chans = "chans[c := (chans ! c)\<lparr>fc_closed := True\<rparr>]"
  have "\<forall>c' \<in> set cs. c' < length ?chans \<and> \<not> fc_closed (?chans ! c')" using Cons.prems by (auto simp: nth_list_update)
  from Cons.IH [OF _ this] Cons.prems obtain chans' where "close_each ?chans cs = Some chans'" "length chans' = length chans"
      "\<forall>c' < length chans. chans' ! c' = (if c' \<in> set cs then (?chans ! c')\<lparr>fc_closed := True\<rparr> else ?chans ! c')" by auto
  then show ?case using Cons.prems by (auto simp: close_chan_def nth_list_update)
qed simp

lemma drop_flows_inv:
  assumes "demux_inv q r" "cs = map (\<lambda>(_, sub). sb_frames sub) (filter (\<lambda>(g, _). P g) (bd_flows (rn_demux r)))"
  shows "\<exists>chans. close_each (bd_chans (rn_demux r)) cs = Some chans \<and>
    demux_inv q (r\<lparr>rn_demux := (rn_demux r)\<lparr>bd_chans := chans, bd_flows := filter (\<lambda>(g, _). \<not> P g) (bd_flows (rn_demux r))\<rparr>\<rparr>)"
proof -
  note I = demux_parts [OF assms(1)]
  let ?F = "bd_flows (rn_demux r)" and ?chans = "bd_chans (rn_demux r)"
  have o: "open_flow r g (sb_frames sub)" if "(g, sub) \<in> set ?F" for g sub using I(4) map_of_is_SomeI [OF I(2) that] by blast
  have "inj_on (\<lambda>(_, sub). sb_frames sub) (set ?F)"
  proof (rule inj_onI, clarsimp)
    fix g sub g' sub'
    assume a: "(g, sub) \<in> set ?F" "(g', sub') \<in> set ?F" "sb_frames sub = sb_frames sub'"
    then have "g = g'" using o [OF a(1)] o [OF a(2)] by (simp add: open_flow_def)
    then show "g = g' \<and> sub = sub'" using map_of_is_SomeI [OF I(2) a(1)] map_of_is_SomeI [OF I(2) a(2)] by simp
  qed
  then have "inj_on (\<lambda>(_, sub). sb_frames sub) (set (filter (\<lambda>(g, _). P g) ?F))" by (rule inj_on_subset) auto
  moreover have "distinct (filter (\<lambda>(g, _). P g) ?F)" using I(2) by (auto simp: distinct_map)
  ultimately have d: "distinct cs" unfolding assms(2) distinct_map by blast
  have "\<forall>c \<in> set cs. c < length ?chans \<and> \<not> fc_closed (?chans ! c)" using o I(1) by (auto simp: assms(2) open_flow_def)
  from close_each_ok [OF d this] obtain chans where C: "close_each ?chans cs = Some chans" "length chans = length ?chans"
      "\<And>c. c < length ?chans \<Longrightarrow> chans ! c = (if c \<in> set cs then (?chans ! c)\<lparr>fc_closed := True\<rparr> else ?chans ! c)" by blast
  let ?r = "r\<lparr>rn_demux := (rn_demux r)\<lparr>bd_chans := chans, bd_flows := filter (\<lambda>(g, _). \<not> P g) ?F\<rparr>\<rparr>"
  have "demux_inv q ?r"
  proof (rule chans_inv [OF assms(1)])
    have "given_to ?r g = given_to r g" for g using I(1) by (intro given_cong) (auto simp: channel_out_def C)
    then show "subseq (given_to ?r g @ map hf_frame (held_for (bd_held (rn_demux r)) g)) (arrived_for ?r g)" for g using I(5) [of g] by (simp add: arrived_for_def)
    show "int (length (fc_buffer ch)) \<le> bd_queueFrames (rn_demux r) \<and> int (fc_cap ch) = bd_queueFrames (rn_demux r)" if m: "ch \<in> set (bd_chans (rn_demux ?r))" for ch
    proof -
      obtain c where "c < length ?chans" "ch = chans ! c" using m C(2) by (auto simp: in_set_conv_nth)
      then show ?thesis using I(6) C(3) by (auto simp: held_in_bounds_def)
    qed
    show "\<exists>sub0. map_of ?F g = Some sub0 \<and> sb_frames sub0 = sb_frames s \<and> \<not> fc_closed (bd_chans (rn_demux ?r) ! sb_frames s)"
      if "map_of (bd_flows (rn_demux ?r)) g = Some s" for g s
    proof -
      have m: "(g, s) \<in> set ?F" "\<not> P g" using map_of_SomeD [OF that] by auto
      have "sb_frames s \<notin> set cs" using o [OF m(1)] o m(2) by (auto simp: assms(2) open_flow_def)
      then show ?thesis using o [OF m(1)] map_of_is_SomeI [OF I(2) m(1)] I(1) by (auto simp: open_flow_def C)
    qed
    show "distinct (map fst (bd_flows (rn_demux ?r)))" using I(2) by (simp add: distinct_map_filter)
  qed (use I(7) C(2) in auto)
  then show ?thesis using C(1) by blast
qed

lemma ended_inv:
  assumes "demux_inv q r"
  shows "\<exists>d. run_ended (rn_demux r) = Some d \<and> demux_inv q (r\<lparr>rn_demux := d\<rparr>)"
  using drop_flows_inv [OF assms refl, of "\<lambda>_. True"] by (auto simp: run_ended_def)

lemma map_of_update_lanes:
  "map_of F fid = Some sub \<Longrightarrow> map_of (AList.update fid (sub\<lparr>sb_lanes := n\<rparr>) F) g = Some s \<Longrightarrow> \<exists>s0. map_of F g = Some s0 \<and> sb_frames s0 = sb_frames s"
  by (auto simp: update_conv' split: if_splits)

lemma lanes_inv:
  assumes "demux_inv q r" "map_of (bd_flows (rn_demux r)) fid = Some sub"
  shows "demux_inv q (r\<lparr>rn_demux := (rn_demux r)\<lparr>bd_flows := AList.update fid (sub\<lparr>sb_lanes := n\<rparr>) (bd_flows (rn_demux r))\<rparr>\<rparr>)" (is "demux_inv q ?r")
proof (rule chans_inv [OF assms(1)])
  note I = demux_parts [OF assms(1)]
  have "given_to ?r g = given_to r g" for g by (rule given_cong) (auto simp: channel_out_def)
  then show "subseq (given_to ?r g @ map hf_frame (held_for (bd_held (rn_demux r)) g)) (arrived_for ?r g)" for g using I(5) [of g] by (simp add: arrived_for_def)
  show "\<exists>sub0. map_of (bd_flows (rn_demux r)) g = Some sub0 \<and> sb_frames sub0 = sb_frames s \<and> \<not> fc_closed (bd_chans (rn_demux ?r) ! sb_frames s)"
    if m: "map_of (bd_flows (rn_demux ?r)) g = Some s" for g s
  proof -
    from map_of_update_lanes [OF assms(2), of n g s] m obtain s0 where s0: "map_of (bd_flows (rn_demux r)) g = Some s0" "sb_frames s0 = sb_frames s" by auto
    from I(4) [OF s0(1)] show ?thesis using s0 by (auto simp: open_flow_def)
  qed
qed (use demux_parts(2,6,7) [OF assms(1)] in \<open>auto simp: distinct_update held_in_bounds_def\<close>)

lemma filter_key: "distinct (map fst F) \<Longrightarrow> map_of F k = Some v \<Longrightarrow> filter (\<lambda>(g, _). g = k) F = [(k, v)]"
proof (induction F)
  case (Cons e F)
  obtain k' v' where e: "e = (k', v')" by (cases e)
  show ?case
  proof (cases "k' = k")
    case True
    then have "filter (\<lambda>(g, _). g = k) F = []" using Cons.prems(1) by (force simp: e filter_empty_conv)
    then show ?thesis using True Cons.prems(2) by (simp add: e)
  next
    case False
    then show ?thesis using Cons by (simp add: e)
  qed
qed simp

lemma demux_release_inv:
  assumes "demux_inv q r"
  shows "\<exists>d. release_flow (rn_demux r) fid = Some d \<and> demux_inv q (r\<lparr>rn_demux := d\<rparr>)"
proof (cases "map_of (bd_flows (rn_demux r)) fid")
  case None
  then show ?thesis using assms by (simp add: release_flow_def)
next
  case (Some sub)
  note I = demux_parts [OF assms]
  let ?F = "bd_flows (rn_demux r)"
  have "filter (\<lambda>(g, _). g = fid) ?F = [(fid, sub)]" by (rule filter_key [OF I(2) Some])
  moreover have "filter (\<lambda>(g, _). g \<noteq> fid) ?F = AList.delete fid ?F" by (auto simp: AList.delete_eq intro: filter_cong)
  ultimately show ?thesis using drop_flows_inv [OF assms refl, of "\<lambda>g. g = fid"] lanes_inv [OF assms Some] Some
    by (auto simp: release_flow_def split: option.splits)
qed

lemma subscribe_inv:
  assumes "demux_inv q r"
  shows "\<exists>c d. subscribe (rn_demux r) fid = Some (c, d) \<and> demux_inv q (r\<lparr>rn_demux := d, rn_owner := (if c < length (rn_owner r) then rn_owner r else rn_owner r @ [fid])\<rparr>)"
proof (cases "map_of (bd_flows (rn_demux r)) fid")
  case (Some sub)
  have "sb_frames sub < length (rn_owner r)" using demux_parts(4) [OF assms Some] by (simp add: open_flow_def)
  then show ?thesis using lanes_inv [OF assms Some] Some by (simp add: subscribe_def)
next
  case None
  note I = demux_parts [OF assms]
  let ?d = "rn_demux r" and ?c = "length (bd_chans (rn_demux r))"
  let ?held = "map hf_frame (held_for (bd_held ?d) fid)"
  have q: "0 < bd_queueFrames ?d" using I(6) config_bounds(1) [of q] by (simp add: held_in_bounds_def)
  define ch where "ch = \<lparr>fc_buffer = take (nat (bd_queueFrames ?d)) ?held, fc_cap = nat (bd_queueFrames ?d), fc_closed = False\<rparr>"
  define d where "d = ?d\<lparr>bd_chans := bd_chans ?d @ [ch], bd_held := AList.delete fid (bd_held ?d), bd_flows := AList.update fid \<lparr>sb_frames = ?c, sb_lanes = 1\<rparr> (bd_flows ?d)\<rparr>"
  let ?r = "r\<lparr>rn_demux := d, rn_owner := rn_owner r @ [fid]\<rparr>"
  have s: "subscribe ?d fid = Some (?c, d)" using None q offer_all_new [of "[]" "nat (bd_queueFrames ?d)" "bd_chans ?d" ?held] by (simp add: subscribe_def d_def ch_def Let_def)
  have g: "given_to ?r g = (if g = fid then given_to r g @ fc_buffer ch else given_to r g)" for g using I(1,7) by (intro given_new) (simp_all add: d_def)
  have h: "held_for (bd_held d) g = (if g = fid then [] else held_for (bd_held ?d) g)" "arrived_for ?r g = arrived_for r g" for g by (simp_all add: d_def held_delete arrived_for_def)
  have "subseq (fc_buffer ch) ?held" by (simp add: ch_def take_is_prefix prefix_imp_subseq)
  note grow = subseq_grow [OF I(5) [of fid] this]
  have "subseq (given_to ?r g @ map hf_frame (held_for (bd_held d) g)) (arrived_for ?r g)" for g
    unfolding g h using grow I(5) [of g] by (cases "g = fid") simp_all
  moreover have "open_flow ?r g (sb_frames sub)" if "map_of (bd_flows d) g = Some sub" for g sub
  proof (cases "g = fid")
    case True
    then show ?thesis using that nth_append_length [of "rn_owner r" fid "[]"] I(1) by (auto simp: d_def update_conv' open_flow_def held_delete ch_def)
  next
    case False
    then have "map_of (bd_flows ?d) g = Some sub" using that by (simp add: d_def update_conv')
    from I(4) [OF this] show ?thesis using False I(1) by (auto simp: open_flow_def d_def nth_append held_delete less_Suc_eq)
  qed
  moreover have "held_in_bounds q d" using I(6) q held_shrinks [of fid "bd_held ?d"] by (auto simp: held_in_bounds_def d_def ch_def)
  moreover have "rn_taken r c = []" if "Suc (length (rn_owner r)) \<le> c" for c using I(7) that by simp
  ultimately have "demux_inv q ?r" using I(1-3) by (simp add: demux_inv_def distinct_update distinct_delete) (simp add: d_def distinct_update distinct_delete)
  then show ?thesis using s I(1) by (intro exI [of _ ?c] exI [of _ d]) simp
qed

lemma take_inv:
  assumes "demux_inv q r" "c < length (bd_chans (rn_demux r))" "fc_buffer (bd_chans (rn_demux r) ! c) = f # fs"
  shows "demux_inv q (r\<lparr>rn_demux := (rn_demux r)\<lparr>bd_chans := (bd_chans (rn_demux r))[c := (bd_chans (rn_demux r) ! c)\<lparr>fc_buffer := fs\<rparr>]\<rparr>,
      rn_taken := (rn_taken r)(c := rn_taken r c @ [f])\<rparr>)" (is "demux_inv q ?r")
proof (rule chans_inv [OF assms(1)])
  note I = demux_parts [OF assms(1)]
  have "given_to ?r g = given_to r g" for g using assms(2,3) by (intro given_cong) (auto simp: channel_out_def nth_list_update)
  then show "subseq (given_to ?r g @ map hf_frame (held_for (bd_held (rn_demux r)) g)) (arrived_for ?r g)" for g using I(5) [of g] by (simp add: arrived_for_def)
  show "int (length (fc_buffer ch)) \<le> bd_queueFrames (rn_demux r) \<and> int (fc_cap ch) = bd_queueFrames (rn_demux r)" if "ch \<in> set (bd_chans (rn_demux ?r))" for ch
  proof -
    have "bd_chans (rn_demux r) ! c \<in> set (bd_chans (rn_demux r))" using assms(2) by simp
    moreover have "ch = (bd_chans (rn_demux r) ! c)\<lparr>fc_buffer := fs\<rparr> \<or> ch \<in> set (bd_chans (rn_demux r))" using that set_update_subset_insert by fastforce
    ultimately show ?thesis using I(6) assms(3) by (fastforce simp: held_in_bounds_def)
  qed
  show "\<exists>sub0. map_of (bd_flows (rn_demux r)) g = Some sub0 \<and> sb_frames sub0 = sb_frames s \<and> \<not> fc_closed (bd_chans (rn_demux ?r) ! sb_frames s)"
    if "map_of (bd_flows (rn_demux ?r)) g = Some s" for g s
    using that I(4) [of g s] assms(2) by (auto simp: open_flow_def nth_list_update)
qed (use demux_parts(1,2,7) [OF assms(1)] assms(2) in auto)

lemma payload_inv:
  assumes "demux_inv q r"
  shows "\<exists>d. run_payload (rn_demux r) payload now = Some d \<and> demux_inv q (r\<lparr>rn_demux := d, rn_arrivals := rn_arrivals r @ parsed payload\<rparr>)"
proof (cases "ParseFrameOwned payload")
  case (Inl e)
  then show ?thesis using assms by (simp add: run_payload_def parsed_def)
next
  case (Inr f)
  show ?thesis
  proof (cases "map_of (bd_flows (rn_demux r)) (hFlowID (fHeader f))")
    case None
    then show ?thesis using Inr hold_inv [OF assms None] by (simp add: run_payload_def parsed_def)
  next
    case (Some sub)
    have "\<not> fc_closed (bd_chans (rn_demux r) ! sb_frames sub)" using demux_parts(4) [OF assms Some] by (simp add: open_flow_def)
    then obtain chans where "offer (bd_chans (rn_demux r)) (sb_frames sub) f = Some chans" by (auto simp: offer_def)
    then show ?thesis using Inr Some deliver_inv [OF assms Some] by (simp add: run_payload_def parsed_def)
  qed
qed

lemma demux_reach_inv: "demux_reach q r \<Longrightarrow> demux_inv q r"
proof (induction rule: demux_reach.induct)
  case start
  show ?case using config_bounds [of q]
    by (simp add: demux_inv_def held_in_bounds_def given_to_def arrived_for_def) (simp add: newBulkDemux_def held_for_def held_count_def held_bytes_def Let_def)
next
  case (arrives r payload now d)
  then show ?case using payload_inv [OF arrives.IH, of payload now] by auto
next
  case (path_ends r d)
  then show ?case using ended_inv [OF path_ends.IH] by auto
next
  case (subscribes r fid c d)
  then show ?case using subscribe_inv [OF subscribes.IH, of fid] by auto
next
  case (releases r fid d)
  then show ?case using demux_release_inv [OF releases.IH, of fid] by auto
next
  case (takes r c f fs)
  then show ?case by (blast intro: take_inv)
qed

section \<open>Properties\<close>

text \<open>C37: the demultiplexer never panics and never misroutes. In every run of arrivals, subscriptions, releases and reads, with the path ending at any point, each operation has a
  result: no frame is sent on a closed channel and none is closed twice. And what a flow is given, over all its subscriptions, with what is still held for it, is a subsequence of the frames that
  arrived for it: every frame is the flow's own, none comes twice, and none overtakes another.\<close>

theorem demux_safe:
  assumes "demux_reach q r"
  shows "run_payload (rn_demux r) payload now \<noteq> None \<and> run_ended (rn_demux r) \<noteq> None \<and> subscribe (rn_demux r) fid \<noteq> None \<and> release_flow (rn_demux r) fid \<noteq> None \<and>
    subseq (given_to r fid @ map hf_frame (held_for (bd_held (rn_demux r)) fid)) (arrived_for r fid)"
proof -
  note i = demux_reach_inv [OF assms]
  show ?thesis using payload_inv [OF i, of payload now] ended_inv [OF i] subscribe_inv [OF i, of fid] demux_release_inv [OF i, of fid] demux_parts(5) [OF i, of fid] by auto
qed

text \<open>What a peer can make a connection hold. Whatever flows a peer names and however fast it sends, the frames held for flows that do not exist are at most 256 and at most one mebibyte, and no
  subscription queues more than 256 frames.\<close>

theorem demux_bounded:
  assumes "demux_reach q r"
  shows "held_count (bd_held (rn_demux r)) \<le> 256 \<and> held_bytes (bd_held (rn_demux r)) \<le> 1048576 \<and>
    (c < length (bd_chans (rn_demux r)) \<longrightarrow> length (fc_buffer (bd_chans (rn_demux r) ! c)) \<le> 256)"
proof -
  note b = demux_parts(6) [OF demux_reach_inv [OF assms]] and cfg = config_bounds [of q]
  have "int (length (fc_buffer (bd_chans (rn_demux r) ! c))) \<le> bd_queueFrames (newBulkDemux q)" if "c < length (bd_chans (rn_demux r))"
    using b nth_mem [OF that] by (auto simp: held_in_bounds_def)
  then show ?thesis using b cfg by (auto simp: held_in_bounds_def)
qed

text \<open>A run: a frame arrives for a flow that is not there, the flow subscribes and reads it.\<close>

definition held_run :: demux_run where
  "held_run = \<lparr>rn_demux = (newBulkDemux 4)\<lparr>bd_held := [(9, [\<lparr>hf_frame = sample_frame, hf_at = 5\<rparr>])]\<rparr>, rn_arrivals = [sample_frame], rn_owner = [], rn_taken = \<lambda>_. []\<rparr>"

definition read_run :: demux_run where
  "read_run = \<lparr>rn_demux = (newBulkDemux 4)\<lparr>bd_held := [], bd_flows := [(9, \<lparr>sb_frames = 0, sb_lanes = 1\<rparr>)],
       bd_chans := [\<lparr>fc_buffer = [], fc_cap = 4, fc_closed = False\<rparr>]\<rparr>,
     rn_arrivals = [sample_frame], rn_owner = [9], rn_taken = (\<lambda>_. [])(0 := [sample_frame])\<rparr>"

lemma sample_parsed: "ParseFrameOwned (header_bytes sample_header @ [1, 2, 3]) = Inr sample_frame"
proof -
  have "length (header_bytes sample_header) = HeaderSize" using sample_header_ok(1) by simp
  then show ?thesis using sample_header_ok DecodeHeader_header_bytes [of sample_header "[]"]
    by (simp add: ParseFrameOwned_Inr sample_frame_def) (simp add: sample_header_def)
qed

lemma sample_fields: "hFlowID (fHeader sample_frame) = 9" "fPayload sample_frame = [1, 2, 3]"
  by (simp_all add: sample_frame_def sample_header_def)

lemma held_run_reach: "demux_reach 4 held_run"
proof -
  have "run_payload (newBulkDemux 4) (header_bytes sample_header @ [1, 2, 3]) 5 = Some (rn_demux held_run)"
    by (simp add: run_payload_def sample_parsed held_run_def holdLocked_def newBulkDemux_def keep_held_def held_count_def held_bytes_def held_for_def
        maxBulkQueueFrames_def maxHeldFrames_def maxHeldBytes_def MaxPayload_def Let_def sample_fields)
  from demux_reach.arrives [OF demux_reach.start, of 4, unfolded demux_run.select_convs, OF this] show ?thesis
    by (simp add: parsed_def sample_parsed) (simp add: held_run_def)
qed

lemma read_run_reach: "demux_reach 4 read_run"
proof -
  let ?d = "(newBulkDemux 4)\<lparr>bd_held := [], bd_flows := [(9, \<lparr>sb_frames = 0, sb_lanes = 1\<rparr>)], bd_chans := [\<lparr>fc_buffer = [sample_frame], fc_cap = 4, fc_closed = False\<rparr>]\<rparr>"
  have "subscribe (rn_demux held_run) 9 = Some (0, ?d)"
    by (simp add: subscribe_def held_run_def newBulkDemux_def held_for_def offer_def maxBulkQueueFrames_def maxHeldFrames_def maxHeldBytes_def MaxPayload_def Let_def)
  from demux_reach.takes [OF demux_reach.subscribes [OF held_run_reach this], of 0 sample_frame "[]"] show ?thesis
    by (simp add: held_run_def read_run_def)
qed

theorem demux_safe_witness: "subseq (given_to read_run 9) [sample_frame] \<and> given_to read_run 9 = [sample_frame] \<and> release_flow (rn_demux read_run) 9 \<noteq> None"
  using demux_safe [OF read_run_reach, of "[]" 0 9]
  by (auto simp: given_to_def channel_out_def read_run_def held_for_def arrived_for_def sample_frame_def sample_header_def)

theorem demux_bounded_witness: "held_count (bd_held (rn_demux held_run)) \<le> 256 \<and> held_count (bd_held (rn_demux held_run)) = 1"
  using demux_bounded [OF held_run_reach] by (simp add: held_run_def held_count_def)

end
