(* ===== verification/Lanes.thy ===== *)
theory Lanes
  imports MemProfile Assoc
begin

text \<open>
  The lanes of a flow, \<^verbatim>\<open>internal/pep/mpflow.go\<close>, and how a gateway admits them, \<^verbatim>\<open>internal/pep/server.go\<close>: joining, activating, retiring and failing
  a lane, which lane carries what, and how long a flow without lanes waits for one. A lane is an address in a heap of lanes, since the code compares pointers; the map of
  lanes is an association list. Queues are their capacities; the goroutines of a lane and the transport behind it are outside, but for whether it was closed. The
  clock is in nanoseconds.
\<close>

section \<open>State\<close>

record mpLane =
  ln_id :: u64
  ln_fc :: bool
  ln_staged :: bool
  ln_ready :: bool
  ln_control :: bool
  ln_closed :: bool
  ln_shut :: bool
  ln_sent :: u64
  ln_recv :: u64
  ln_writeQ :: "int option"
  ln_writeInteractiveQ :: "int option"
  ln_writeSlots :: "int option"

record flowLanes =
  fl_lanes :: "(u64 \<times> nat) list"
  fl_heap :: "nat \<Rightarrow> mpLane"
  fl_nextJoinID :: u64
  fl_reserveControlLane :: bool
  fl_done :: bool
  fl_memoryLimits :: flowMemoryLimits
  fl_scheduler :: bool
  fl_retired :: "u64 list"
  fl_lanesJoined :: nat
  fl_replacementDeadline :: int

datatype lane_error = InvalidLane | FlowIsClosed | DuplicateLane | LaneNotStaged | StagedLaneGone | LaneLimit | AckFailed | NoJoinID | NoHealthyLanes

definition set_lane :: "flowLanes \<Rightarrow> nat \<Rightarrow> (mpLane \<Rightarrow> mpLane) \<Rightarrow> flowLanes" where
  "set_lane f a g = f\<lparr>fl_heap := (fl_heap f)(a := g (fl_heap f a))\<rparr>"

text \<open>A call of \<^verbatim>\<open>RetireLane\<close> of the chunk scheduler, when the flow is sending.\<close>

definition sched_retire :: "flowLanes \<Rightarrow> u64 \<Rightarrow> flowLanes" where
  "sched_retire f k = (if fl_scheduler f then f\<lparr>fl_retired := fl_retired f @ [k]\<rparr> else f)"

section \<open>Which lanes there are\<close>

definition laneReady :: "mpLane \<Rightarrow> bool" where
  "laneReady l \<longleftrightarrow> \<not> ln_staged l \<or> ln_ready l"

definition laneIsControl :: "flowLanes \<Rightarrow> nat \<Rightarrow> bool" where
  "laneIsControl f a = (if \<not> fl_reserveControlLane f then False else ln_control (fl_heap f a) \<or> ln_id (fl_heap f a) = 0)"

definition laneCount :: "flowLanes \<Rightarrow> nat" where
  "laneCount f = length (filter (\<lambda>(_, a). \<not> ln_closed (fl_heap f a)) (fl_lanes f))"

definition healthyLanes :: "flowLanes \<Rightarrow> nat list" where
  "healthyLanes f = sort_key (\<lambda>a. ln_id (fl_heap f a)) (filter (\<lambda>a. \<not> ln_closed (fl_heap f a) \<and> laneReady (fl_heap f a)) (map snd (fl_lanes f)))"

definition isolateFromControlLane :: "bool option \<Rightarrow> nat option \<Rightarrow> bool" where
  "isolateFromControlLane shared control = (case (control, shared) of (Some _, Some s) \<Rightarrow> s | _ \<Rightarrow> True)"

fun data_scan :: "flowLanes \<Rightarrow> bool option \<Rightarrow> nat option \<Rightarrow> nat list \<Rightarrow> nat option" where
  "data_scan f shared control [] = None"
| "data_scan f shared control (a # as) =
     (if laneIsControl f a then data_scan f shared (Some a) as
      else if isolateFromControlLane shared control then Some a else None)"

definition dataLane :: "flowLanes \<Rightarrow> bool option \<Rightarrow> nat list \<Rightarrow> nat list" where
  "dataLane f shared lanes =
     (if length lanes = 1 \<or> \<not> fl_reserveControlLane f then take 1 lanes
      else case data_scan f shared None lanes of Some a \<Rightarrow> [a] | None \<Rightarrow> take 1 lanes)"

definition laneCandidates :: "flowLanes \<Rightarrow> bool option \<Rightarrow> bool \<Rightarrow> lane_error + nat list" where
  "laneCandidates f shared bulk =
     (let lanes = healthyLanes f in
      if lanes = [] then Inl NoHealthyLanes
      else if \<not> bulk then (case find (laneIsControl f) lanes of Some a \<Rightarrow> Inr [a] | None \<Rightarrow> Inr (take 1 lanes))
      else Inr (dataLane f shared lanes))"

definition laneCarriesData :: "flowLanes \<Rightarrow> bool option \<Rightarrow> nat \<Rightarrow> bool \<Rightarrow> bool" where
  "laneCarriesData f shared lane bulk =
     (case laneCandidates f shared bulk of
        Inl _ \<Rightarrow> False
      | Inr candidates \<Rightarrow> list_ex (\<lambda>c. ln_id (fl_heap f c) = ln_id (fl_heap f lane)) candidates)"

section \<open>Joining and leaving\<close>

definition endReplacementOutage :: "flowLanes \<Rightarrow> flowLanes" where
  "endReplacementOutage f = f\<lparr>fl_replacementDeadline := 0\<rparr>"

definition startLane :: "flowLanes \<Rightarrow> flowLanes" where
  "startLane f = endReplacementOutage f"

definition lane_queues :: "flowMemoryLimits \<Rightarrow> mpLane \<Rightarrow> mpLane" where
  "lane_queues limits0 l =
     (let limits = (if laneWriteQueue limits0 < 2 \<or> laneControlReserve limits0 \<ge> laneWriteQueue limits0 then defaultFlowMemoryLimits else limits0)
      in l\<lparr>ln_writeQ := (case ln_writeQ l of None \<Rightarrow> Some (laneWriteQueue limits - laneControlReserve limits) | q \<Rightarrow> q),
           ln_writeInteractiveQ := (case ln_writeInteractiveQ l of None \<Rightarrow> Some (laneWriteQueue limits) | q \<Rightarrow> q),
           ln_writeSlots := (case ln_writeSlots l of None \<Rightarrow> Some (laneWriteQueue limits) | q \<Rightarrow> q)\<rparr>)"

definition addLane :: "flowLanes \<Rightarrow> nat \<Rightarrow> (lane_error + unit) \<times> flowLanes" where
  "addLane f a =
     (let l = fl_heap f a in
      if \<not> ln_fc l then (Inl InvalidLane, f)
      else if fl_done f then (Inl FlowIsClosed, f)
      else if map_of (fl_lanes f) (ln_id l) \<noteq> None then (Inl DuplicateLane, f)
      else
        let f1 = set_lane f a (lane_queues (fl_memoryLimits f));
            f2 = f1\<lparr>fl_lanes := AList.update (ln_id l) a (fl_lanes f1), fl_lanesJoined := fl_lanesJoined f1 + 1,
                    fl_nextJoinID := (if ln_id l \<ge> fl_nextJoinID f1 then ln_id l + 1 else fl_nextJoinID f1)\<rparr>
        in (Inr (), if ln_staged l then f2 else startLane f2))"

definition activateLane :: "flowLanes \<Rightarrow> nat \<Rightarrow> (lane_error + unit) \<times> flowLanes" where
  "activateLane f a =
     (let l = fl_heap f a in
      if \<not> ln_staged l then (Inl LaneNotStaged, f)
      else if map_of (fl_lanes f) (ln_id l) \<noteq> Some a \<or> ln_closed l \<or> fl_done f then (Inl StagedLaneGone, f)
      else if ln_ready l then (Inr (), f)
      else (Inr (), startLane (set_lane f a (\<lambda>l. l\<lparr>ln_ready := True\<rparr>))))"

definition drop_lane :: "flowLanes \<Rightarrow> nat \<Rightarrow> flowLanes" where
  "drop_lane f a = (set_lane f a (\<lambda>l. l\<lparr>ln_closed := True\<rparr>))\<lparr>fl_lanes := AList.delete (ln_id (fl_heap f a)) (fl_lanes f)\<rparr>"

definition retireLane :: "flowLanes \<Rightarrow> nat \<Rightarrow> flowLanes" where
  "retireLane f a =
     (let l = fl_heap f a;
          f1 = (if map_of (fl_lanes f) (ln_id l) = Some a then drop_lane f a else set_lane f a (\<lambda>l. l\<lparr>ln_closed := True\<rparr>));
          f2 = sched_retire f1 (ln_id l)
      in if ln_fc l then set_lane f2 a (\<lambda>l. l\<lparr>ln_shut := True\<rparr>) else f2)"

definition oldest_scan :: "flowLanes \<Rightarrow> bool \<Rightarrow> nat option \<Rightarrow> nat \<Rightarrow> nat option" where
  "oldest_scan f control victim a =
     (let l = fl_heap f a in
      if ln_closed l \<or> \<not> laneReady l \<or> laneIsControl f a \<noteq> control then victim
      else case victim of None \<Rightarrow> Some a | Some v \<Rightarrow> if ln_id l < ln_id (fl_heap f v) then Some a else victim)"

definition evict :: "flowLanes \<Rightarrow> nat option \<Rightarrow> bool \<times> flowLanes" where
  "evict f victim =
     (case victim of
        None \<Rightarrow> (False, f)
      | Some v \<Rightarrow> (True, let f1 = drop_lane f v in if ln_fc (fl_heap f1 v) then set_lane f1 v (\<lambda>l. l\<lparr>ln_shut := True\<rparr>) else f1))"

definition retireOldestLane :: "flowLanes \<Rightarrow> bool \<Rightarrow> bool \<times> flowLanes" where
  "retireOldestLane f control = evict f (foldl (oldest_scan f control) None (map snd (fl_lanes f)))"

definition idle_scan :: "flowLanes \<Rightarrow> nat option \<Rightarrow> nat \<Rightarrow> nat option" where
  "idle_scan f victim a =
     (let l = fl_heap f a in
      if ln_closed l \<or> \<not> laneReady l \<or> ln_id l = 0 \<or> laneIsControl f a then victim
      else case victim of
        None \<Rightarrow> Some a
      | Some v \<Rightarrow> let w = fl_heap f v in
          if ln_sent l + ln_recv l < ln_sent w + ln_recv w \<or> ln_sent l + ln_recv l = ln_sent w + ln_recv w \<and> ln_id l > ln_id w then Some a else victim)"

definition retireLeastProductiveLane :: "flowLanes \<Rightarrow> bool \<times> flowLanes" where
  "retireLeastProductiveLane f = evict f (foldl (idle_scan f) None (map snd (fl_lanes f)))"

definition allocateJoinID :: "flowLanes \<Rightarrow> (lane_error + u64) \<times> flowLanes" where
  "allocateJoinID f =
     (case find (\<lambda>k. map_of (fl_lanes f) (word_of_nat k) = None) [unat (fl_nextJoinID f)..<2 ^ 20] of
        None \<Rightarrow> (Inl NoJoinID, f)
      | Some k \<Rightarrow> (Inr (word_of_nat k), f\<lparr>fl_nextJoinID := word_of_nat k + 1\<rparr>))"

definition closeFailedLane :: "flowLanes \<Rightarrow> nat \<Rightarrow> bool \<times> flowLanes" where
  "closeFailedLane f a =
     (let l = fl_heap f a in
      if ln_closed l then (False, f)
      else
        let f1 = set_lane f a (\<lambda>l. l\<lparr>ln_closed := True\<rparr>);
            f2 = (if ln_fc l then set_lane f1 a (\<lambda>l. l\<lparr>ln_shut := True\<rparr>) else f1)
        in (True, sched_retire f2 (ln_id l)))"

section \<open>Admission by a gateway\<close>

definition bulkLaneBudget :: "bool \<Rightarrow> nat \<times> nat" where
  "bulkLaneBudget reserveControl = (if reserveControl then (1, 1) else (1, 0))"

definition serverLaneBudget :: "bool \<Rightarrow> nat" where
  "serverLaneBudget reserveControl = (case bulkLaneBudget reserveControl of (bulk, control) \<Rightarrow> bulk + control)"

definition server_addLane :: "nat \<Rightarrow> flowLanes \<Rightarrow> nat \<Rightarrow> (lane_error + unit) \<times> flowLanes" where
  "server_addLane maxLanes f a =
     (if laneCount f \<ge> maxLanes then
        (case retireOldestLane f (ln_control (fl_heap f a)) of
           (retired, f1) \<Rightarrow> if \<not> retired \<or> laneCount f1 \<ge> maxLanes then (Inl LaneLimit, f1) else addLane f1 a)
      else addLane f a)"

text \<open>Lanes that fail meanwhile: \<^verbatim>\<open>commitJoinedLane\<close> holds the lock of the server flow, not that of the lanes.\<close>

definition lanes_fail :: "flowLanes \<Rightarrow> nat list \<Rightarrow> flowLanes" where
  "lanes_fail f as = foldl (\<lambda>f a. snd (closeFailedLane f a)) f as"

text \<open>\<open>e1\<close> to \<open>e5\<close> are the lanes that fail between its calls.\<close>

definition commitJoinedLane :: "nat \<Rightarrow> flowLanes \<Rightarrow> nat \<Rightarrow> bool \<Rightarrow> nat list \<Rightarrow> nat list \<Rightarrow> nat list \<Rightarrow> nat list \<Rightarrow> nat list \<Rightarrow> (lane_error + unit) \<times> flowLanes" where
  "commitJoinedLane maxLanes f a acknowledged e1 e2 e3 e4 e5 =
     (let role = ln_control (fl_heap f a); full = laneCount f \<ge> maxLanes; f1 = lanes_fail f e1 in
      if full \<and> \<not> list_ex (\<lambda>c. laneIsControl f1 c = role) (healthyLanes f1) then (Inl LaneLimit, f1)
      else
        case addLane (lanes_fail f1 e2) a of
          (Inl e, f2) \<Rightarrow> (Inl e, f2)
        | (Inr _, f2) \<Rightarrow>
            let f3 = lanes_fail f2 e3 in
            if \<not> acknowledged then (Inl AckFailed, retireLane f3 a)
            else
              let over = laneCount f3 > maxLanes; f4 = lanes_fail f3 e4;
                  f5 = (if over then snd (retireOldestLane f4 role) else f4); f6 = lanes_fail f5 e5
              in case activateLane f6 a of
                   (Inl e, f7) \<Rightarrow> (Inl e, retireLane f7 a)
                 | (Inr _, f7) \<Rightarrow> (Inr (), f7))"

section \<open>Waiting for a lane\<close>

definition replacementBudget :: "flowLanes \<Rightarrow> int \<Rightarrow> int \<Rightarrow> int \<times> flowLanes" where
  "replacementBudget f now grace =
     (if fl_replacementDeadline f \<noteq> 0 \<and> fl_replacementDeadline f - now > - grace then (fl_replacementDeadline f - now, f)
      else (grace, f\<lparr>fl_replacementDeadline := now + grace\<rparr>))"

section \<open>The open lanes\<close>

definition lanes_ok :: "flowLanes \<Rightarrow> bool" where
  "lanes_ok f \<longleftrightarrow> distinct (map fst (fl_lanes f)) \<and> (\<forall>(k, a) \<in> set (fl_lanes f). ln_id (fl_heap f a) = k)"

definition open_lanes :: "flowLanes \<Rightarrow> nat set" where
  "open_lanes f = {a \<in> snd ` set (fl_lanes f). \<not> ln_closed (fl_heap f a)}"

text \<open>What admission goes by does not change under failures: identity, role, staging and readiness.\<close>

definition same_lanes :: "flowLanes \<Rightarrow> flowLanes \<Rightarrow> bool" where
  "same_lanes f f' \<longleftrightarrow> fl_reserveControlLane f' = fl_reserveControlLane f \<and>
     (\<forall>b. ln_id (fl_heap f' b) = ln_id (fl_heap f b) \<and> ln_control (fl_heap f' b) = ln_control (fl_heap f b) \<and>
       ln_staged (fl_heap f' b) = ln_staged (fl_heap f b) \<and> ln_ready (fl_heap f' b) = ln_ready (fl_heap f b))"

lemma same_lanes_refl [simp]: "same_lanes f f"
  by (simp add: same_lanes_def)

lemma same_lanes_trans: "same_lanes f g \<Longrightarrow> same_lanes g h \<Longrightarrow> same_lanes f h"
  by (simp add: same_lanes_def)

lemma same_lanes_facts: "same_lanes f f' \<Longrightarrow> laneIsControl f' b = laneIsControl f b" "same_lanes f f' \<Longrightarrow> laneReady (fl_heap f' b) = laneReady (fl_heap f b)"
  by (simp_all add: same_lanes_def laneIsControl_def laneReady_def)

lemma lanes_ok_same: "lanes_ok f \<Longrightarrow> same_lanes f f' \<Longrightarrow> fl_lanes f' = fl_lanes f \<Longrightarrow> lanes_ok f'"
  by (simp add: lanes_ok_def same_lanes_def)

lemma open_lanes_finite [simp]: "finite (open_lanes f)"
  by (simp add: open_lanes_def)

lemma entry_key: "lanes_ok f \<Longrightarrow> (k, a) \<in> set (fl_lanes f) \<Longrightarrow> map_of (fl_lanes f) (ln_id (fl_heap f a)) = Some a \<and> k = ln_id (fl_heap f a)"
  by (auto simp: lanes_ok_def)

lemma lanes_inj: "lanes_ok f \<Longrightarrow> inj_on snd (set (fl_lanes f))"
  using entry_key by (auto intro!: inj_onI) metis

lemma laneCount_card: "lanes_ok f \<Longrightarrow> laneCount f = card (open_lanes f)"
proof -
  assume ok: "lanes_ok f"
  let ?L = "filter (\<lambda>(_, a). \<not> ln_closed (fl_heap f a)) (fl_lanes f)"
  have "inj_on snd (set ?L)" by (rule inj_on_subset [OF lanes_inj [OF ok]]) auto
  moreover have "distinct ?L" using ok by (auto simp: lanes_ok_def distinct_map)
  ultimately have "card (snd ` set ?L) = length ?L" by (metis card_image distinct_card)
  moreover have "snd ` set ?L = open_lanes f" by (force simp: open_lanes_def)
  ultimately show ?thesis by (simp add: laneCount_def)
qed

lemma set_lane_simps [simp]: "fl_lanes (set_lane f a g) = fl_lanes f" "fl_reserveControlLane (set_lane f a g) = fl_reserveControlLane f" "fl_done (set_lane f a g) = fl_done f"
  "fl_scheduler (set_lane f a g) = fl_scheduler f" "fl_heap (set_lane f a g) b = (if b = a then g (fl_heap f a) else fl_heap f b)"
  "fl_memoryLimits (set_lane f a g) = fl_memoryLimits f"
  by (simp_all add: set_lane_def)

lemma sched_retire_simps [simp]: "fl_lanes (sched_retire f k) = fl_lanes f" "fl_heap (sched_retire f k) = fl_heap f" "fl_reserveControlLane (sched_retire f k) = fl_reserveControlLane f"
  by (simp_all add: sched_retire_def)

lemma failed_lane:
  "fl_lanes (snd (closeFailedLane f a)) = fl_lanes f" "same_lanes f (snd (closeFailedLane f a))" "open_lanes (snd (closeFailedLane f a)) = open_lanes f - {a}"
  by (auto simp: closeFailedLane_def Let_def same_lanes_def open_lanes_def)

lemma lanes_fail_facts:
  "fl_lanes (lanes_fail f as) = fl_lanes f" "same_lanes f (lanes_fail f as)" "open_lanes (lanes_fail f as) = open_lanes f - set as"
proof -
  have "fl_lanes (lanes_fail f as) = fl_lanes f \<and> same_lanes f (lanes_fail f as) \<and> open_lanes (lanes_fail f as) = open_lanes f - set as"
  proof (induction as arbitrary: f)
    case (Cons a as)
    have "lanes_fail f (a # as) = lanes_fail (snd (closeFailedLane f a)) as" by (simp add: lanes_fail_def)
    then show ?case using Cons [of "snd (closeFailedLane f a)"] failed_lane [of f a] same_lanes_trans by auto
  qed (simp add: lanes_fail_def)
  then show "fl_lanes (lanes_fail f as) = fl_lanes f" "same_lanes f (lanes_fail f as)" "open_lanes (lanes_fail f as) = open_lanes f - set as" by blast+
qed

lemma lanes_fail_ok: "lanes_ok f \<Longrightarrow> lanes_ok (lanes_fail f as)"
  by (rule lanes_ok_same [OF _ lanes_fail_facts(2,1)])

lemma delete_other:
  assumes "lanes_ok f" "(k, a) \<in> set (fl_lanes f)"
  shows "set (AList.delete (ln_id (fl_heap f a)) (fl_lanes f)) = set (fl_lanes f) - {(k, a)}"
proof -
  have "e \<in> set (fl_lanes f) \<Longrightarrow> fst e \<noteq> ln_id (fl_heap f a) \<longleftrightarrow> e \<noteq> (k, a)" for e
    using entry_key [OF assms(1), of "fst e" "snd e"] entry_key [OF assms] by (cases e) auto
  then have "set (filter (\<lambda>e. fst e \<noteq> ln_id (fl_heap f a)) (fl_lanes f)) = set (fl_lanes f) - {(k, a)}" by (simp only: set_filter) blast
  moreover have "AList.delete (ln_id (fl_heap f a)) (fl_lanes f) = filter (\<lambda>e. fst e \<noteq> ln_id (fl_heap f a)) (fl_lanes f)"
    by (simp add: delete_is_filter)
  ultimately show ?thesis by simp
qed

lemma drop_facts:
  assumes "lanes_ok f" "a \<in> snd ` set (fl_lanes f)"
  shows "lanes_ok (drop_lane f a)" "open_lanes (drop_lane f a) = open_lanes f - {a}" "same_lanes f (drop_lane f a)"
proof -
  obtain k where k: "(k, a) \<in> set (fl_lanes f)" using assms(2) by auto
  have s: "set (fl_lanes (drop_lane f a)) = set (fl_lanes f) - {(k, a)}" using delete_other [OF assms(1) k] by (simp add: drop_lane_def)
  show same: "same_lanes f (drop_lane f a)" by (simp add: same_lanes_def drop_lane_def)
  show "lanes_ok (drop_lane f a)" using assms(1) s same by (auto simp: lanes_ok_def same_lanes_def drop_lane_def delete_is_filter distinct_map_filter)
  have "snd ` (set (fl_lanes f) - {(k, a)}) = snd ` set (fl_lanes f) - {a}" using inj_on_image_set_diff [OF lanes_inj [OF assms(1)], of "set (fl_lanes f)" "{(k, a)}"] k by simp
  then show "open_lanes (drop_lane f a) = open_lanes f - {a}" unfolding open_lanes_def s by (auto simp: drop_lane_def)
qed

lemma shut_same: "open_lanes (set_lane f a (\<lambda>l. l\<lparr>ln_shut := True\<rparr>)) = open_lanes f" "same_lanes f (set_lane f a (\<lambda>l. l\<lparr>ln_shut := True\<rparr>))"
  by (auto simp: open_lanes_def same_lanes_def)

lemma retire_facts:
  assumes "lanes_ok f"
  shows "lanes_ok (retireLane f a)" "fl_reserveControlLane (retireLane f a) = fl_reserveControlLane f" "open_lanes (retireLane f a) = open_lanes f - {a}"
proof -
  let ?f1 = "if map_of (fl_lanes f) (ln_id (fl_heap f a)) = Some a then drop_lane f a else set_lane f a (\<lambda>l. l\<lparr>ln_closed := True\<rparr>)"
  have 1: "lanes_ok ?f1 \<and> open_lanes ?f1 = open_lanes f - {a}"
  proof (cases "map_of (fl_lanes f) (ln_id (fl_heap f a)) = Some a")
    case True
    then have "a \<in> snd ` set (fl_lanes f)" by (force dest: map_of_SomeD)
    then show ?thesis using True drop_facts [OF assms] by simp
  next
    case False
    then show ?thesis using assms by (auto simp: lanes_ok_def open_lanes_def)
  qed
  have same: "fl_lanes (retireLane f a) = fl_lanes ?f1" "same_lanes ?f1 (retireLane f a)" "open_lanes (retireLane f a) = open_lanes ?f1"
    by (auto simp: retireLane_def Let_def same_lanes_def open_lanes_def)
  show "fl_reserveControlLane (retireLane f a) = fl_reserveControlLane f" by (simp add: retireLane_def Let_def drop_lane_def)
  from same show "lanes_ok (retireLane f a)" "open_lanes (retireLane f a) = open_lanes f - {a}" using 1 lanes_ok_same by blast+
qed

text \<open>Who is evicted: an open, ready lane of the role asked for, when there is one.\<close>

definition evictable :: "flowLanes \<Rightarrow> bool \<Rightarrow> nat \<Rightarrow> bool" where
  "evictable f control a \<longleftrightarrow> \<not> ln_closed (fl_heap f a) \<and> laneReady (fl_heap f a) \<and> laneIsControl f a = control"

lemma oldest_victim:
  "case foldl (oldest_scan f control) None as of None \<Rightarrow> \<forall>a \<in> set as. \<not> evictable f control a | Some v \<Rightarrow> v \<in> set as \<and> evictable f control v"
proof (induction as rule: rev_induct)
  case (snoc a as)
  then show ?case by (auto simp: oldest_scan_def evictable_def Let_def split: option.splits if_splits)
qed simp

lemma idle_victim: "foldl (idle_scan f) None as = Some v \<Longrightarrow> v \<in> set as"
proof (induction as arbitrary: v rule: rev_induct)
  case (snoc a as)
  then show ?case by (auto simp: idle_scan_def Let_def split: option.splits if_splits)
qed simp

lemma evict_facts:
  assumes "lanes_ok f" "\<And>v. victim = Some v \<Longrightarrow> v \<in> snd ` set (fl_lanes f)" "evict f victim = (b, f')"
  shows "lanes_ok f'" "open_lanes f' = open_lanes f - set_option victim" "same_lanes f f'" "b \<longleftrightarrow> victim \<noteq> None" "set (fl_lanes f') \<subseteq> set (fl_lanes f)"
proof -
  show "set (fl_lanes f') \<subseteq> set (fl_lanes f)" using assms(3) by (auto simp: evict_def Let_def drop_lane_def delete_is_filter split: option.splits if_splits)
  have "lanes_ok f' \<and> open_lanes f' = open_lanes f - set_option victim \<and> same_lanes f f' \<and> (b \<longleftrightarrow> victim \<noteq> None)"
  proof (cases victim)
    case None
    then show ?thesis using assms by (simp add: evict_def)
  next
    case (Some v)
    note D = drop_facts [OF assms(1) assms(2) [OF Some]]
    have f': "f' = drop_lane f v \<or> f' = set_lane (drop_lane f v) v (\<lambda>l. l\<lparr>ln_shut := True\<rparr>)" "b" using assms(3) Some by (auto simp: evict_def Let_def split: if_splits)
    then show ?thesis using D Some shut_same [of "drop_lane f v" v] lanes_ok_same [OF D(1) shut_same(2)] same_lanes_trans [OF D(3) shut_same(2)] by auto
  qed
  then show "lanes_ok f'" "open_lanes f' = open_lanes f - set_option victim" "same_lanes f f'" "b \<longleftrightarrow> victim \<noteq> None" by blast+
qed

lemma retire_oldest:
  assumes "lanes_ok f" "retireOldestLane f control = (b, f')"
  shows "lanes_ok f'" "open_lanes f' \<subseteq> open_lanes f" "same_lanes f f'" "set (fl_lanes f') \<subseteq> set (fl_lanes f)"
    "\<And>c. c \<in> open_lanes f \<Longrightarrow> evictable f control c \<Longrightarrow> \<exists>v \<in> open_lanes f. open_lanes f' = open_lanes f - {v} \<and> evictable f control v \<and> b"
    "\<And>c. c \<in> open_lanes f \<Longrightarrow> laneIsControl f c \<noteq> control \<Longrightarrow> c \<in> open_lanes f'"
proof -
  let ?v = "foldl (oldest_scan f control) None (map snd (fl_lanes f))"
  note V = oldest_victim [where f = f and control = control and as = "map snd (fl_lanes f)"]
  have in_map: "v \<in> snd ` set (fl_lanes f)" if "?v = Some v" for v using V that by simp
  note E = evict_facts [OF assms(1) in_map assms(2) [unfolded retireOldestLane_def]]
  show "lanes_ok f'" "open_lanes f' \<subseteq> open_lanes f" "same_lanes f f'" "set (fl_lanes f') \<subseteq> set (fl_lanes f)" using E by auto
  show "\<exists>v \<in> open_lanes f. open_lanes f' = open_lanes f - {v} \<and> evictable f control v \<and> b" if "c \<in> open_lanes f" "evictable f control c" for c
  proof (cases ?v)
    case None
    then show ?thesis using V that by (auto simp: open_lanes_def)
  next
    case (Some v)
    then show ?thesis using V E by (auto simp: open_lanes_def evictable_def)
  qed
  show "c \<in> open_lanes f'" if "c \<in> open_lanes f" "laneIsControl f c \<noteq> control" for c
    using that V E(2) by (cases ?v) (auto simp: evictable_def)
qed

lemma add_facts:
  assumes "lanes_ok f" "a \<notin> snd ` set (fl_lanes f)" "addLane f a = (res, f')"
  shows "lanes_ok f'" "open_lanes f' \<subseteq> insert a (open_lanes f)" "same_lanes f f'" "open_lanes f \<subseteq> open_lanes f'" "isl res \<Longrightarrow> f' = f" "\<not> isl res \<Longrightarrow> a \<in> snd ` set (fl_lanes f')"
proof -
  let ?l = "fl_heap f a"
  let ?f1 = "set_lane f a (lane_queues (fl_memoryLimits f))"
  have lq: "ln_id (lane_queues m l) = ln_id l" "ln_closed (lane_queues m l) = ln_closed l" "ln_control (lane_queues m l) = ln_control l" "ln_staged (lane_queues m l) = ln_staged l"
    "ln_ready (lane_queues m l) = ln_ready l" for m l by (simp_all add: lane_queues_def Let_def)
  have all: "lanes_ok f' \<and> open_lanes f' \<subseteq> insert a (open_lanes f) \<and> same_lanes f f' \<and> open_lanes f \<subseteq> open_lanes f' \<and> (isl res \<longrightarrow> f' = f) \<and> (\<not> isl res \<longrightarrow> a \<in> snd ` set (fl_lanes f'))"
  proof (cases "\<not> ln_fc ?l \<or> fl_done f \<or> map_of (fl_lanes f) (ln_id ?l) \<noteq> None")
    case True
    then have "isl res \<and> f' = f" using assms(3) by (auto simp: addLane_def Let_def split: if_splits)
    then show ?thesis using assms(1) by auto
  next
    case False
    then have fresh: "ln_id ?l \<notin> fst ` set (fl_lanes f)" by (simp add: map_of_eq_None_iff)
    note u = update_fresh [OF fresh, of a]
    have f': "fl_lanes f' = fl_lanes f @ [(ln_id ?l, a)]" "fl_heap f' = fl_heap ?f1" "fl_reserveControlLane f' = fl_reserveControlLane f" "\<not> isl res"
      using assms(3) False by (auto simp: addLane_def startLane_def endReplacementOutage_def Let_def u split: if_splits)
    have same: "same_lanes f f'" by (simp add: same_lanes_def f' lq)
    show ?thesis using assms(1) fresh same by (auto simp: lanes_ok_def open_lanes_def f' lq)
  qed
  then show "lanes_ok f'" "open_lanes f' \<subseteq> insert a (open_lanes f)" "same_lanes f f'" "open_lanes f \<subseteq> open_lanes f'" "isl res \<Longrightarrow> f' = f" "\<not> isl res \<Longrightarrow> a \<in> snd ` set (fl_lanes f')" by blast+
qed

lemma activate_facts:
  assumes "activateLane f a = (res, f')"
  shows "fl_lanes f' = fl_lanes f" "open_lanes f' = open_lanes f" "lanes_ok f \<Longrightarrow> lanes_ok f'" "fl_reserveControlLane f' = fl_reserveControlLane f"
    "\<And>b. laneIsControl f' b = laneIsControl f b"
proof -
  have "f' = f \<or> f' = startLane (set_lane f a (\<lambda>l. l\<lparr>ln_ready := True\<rparr>))" using assms by (auto simp: activateLane_def Let_def split: if_splits)
  then show "fl_lanes f' = fl_lanes f" "open_lanes f' = open_lanes f" "lanes_ok f \<Longrightarrow> lanes_ok f'" "fl_reserveControlLane f' = fl_reserveControlLane f"
      "\<And>b. laneIsControl f' b = laneIsControl f b"
    by (auto simp: startLane_def endReplacementOutage_def open_lanes_def lanes_ok_def laneIsControl_def split: if_splits)
qed

section \<open>What admission does to the lanes there were\<close>

lemma healthy_open: "set (healthyLanes f) = {a \<in> open_lanes f. laneReady (fl_heap f a)}"
  by (auto simp: healthyLanes_def open_lanes_def)

lemma add_count:
  assumes "lanes_ok f" "a \<notin> snd ` set (fl_lanes f)" "addLane f a = (res, f')"
  shows "laneCount f' \<le> Suc (laneCount f)"
proof -
  have "card (open_lanes f') \<le> card (insert a (open_lanes f))" by (rule card_mono) (simp_all add: add_facts(2) [OF assms])
  also have "\<dots> \<le> Suc (card (open_lanes f))" by (simp add: card_insert_if)
  finally show ?thesis by (simp add: laneCount_card assms(1) add_facts(1) [OF assms])
qed

lemma server_add:
  assumes "lanes_ok f" "a \<notin> snd ` set (fl_lanes f)" "laneCount f \<le> m" "server_addLane m f a = (res, f')"
  shows "lanes_ok f'" "laneCount f' \<le> m" "fl_reserveControlLane f' = fl_reserveControlLane f"
proof -
  obtain b f1 where f1: "retireOldestLane f (ln_control (fl_heap f a)) = (b, f1)" by (cases "retireOldestLane f (ln_control (fl_heap f a))")
  note R = retire_oldest [OF assms(1) f1]
  have a: "a \<notin> snd ` set (fl_lanes f1)" using R(4) assms(2) by blast
  have c: "laneCount f1 \<le> laneCount f" using card_mono [OF open_lanes_finite R(2)] by (simp add: laneCount_card assms(1) R(1))
  consider (low) "laneCount f < m" "addLane f a = (res, f')" | (room) "laneCount f1 < m" "addLane f1 a = (res, f')" | (no) "f' = f1"
    using assms(4) f1 by (auto simp: server_addLane_def split: if_splits)
  then have "lanes_ok f' \<and> laneCount f' \<le> m \<and> fl_reserveControlLane f' = fl_reserveControlLane f"
  proof cases
    case low
    then show ?thesis using add_facts [OF assms(1,2) low(2)] add_count [OF assms(1,2) low(2)] by (auto simp: same_lanes_def)
  next
    case room
    then show ?thesis using add_facts [OF R(1) a room(2)] add_count [OF R(1) a room(2)] R(3) by (auto simp: same_lanes_def)
  next
    case no
    then show ?thesis using R c assms(3) by (auto simp: same_lanes_def)
  qed
  then show "lanes_ok f'" "laneCount f' \<le> m" "fl_reserveControlLane f' = fl_reserveControlLane f" by blast+
qed

lemma same_role_makes_room:
  assumes "lanes_ok f" "card (open_lanes f) \<le> Suc m" "c \<in> open_lanes f" "evictable f control c"
  shows "card (open_lanes (snd (retireOldestLane f control))) \<le> m"
proof -
  obtain b f' where f': "retireOldestLane f control = (b, f')" by (cases "retireOldestLane f control")
  then obtain v where "v \<in> open_lanes f" "open_lanes f' = open_lanes f - {v}" using retire_oldest(5) [OF assms(1) f' assms(3,4)] by blast
  then show ?thesis using assms(2) f' by simp
qed

text \<open>Once over the ceiling after staging, no lane has failed since the check; the lane found then is still there, or fails now.\<close>

lemma over_makes_room:
  assumes ok: "lanes_ok g" and fin: "finite S" "card S \<le> m" "open_lanes g \<subseteq> insert a S"
    and pre: "m \<le> card S \<Longrightarrow> \<exists>c \<in> S. laneReady (fl_heap g c) \<and> laneIsControl g c = control"
  shows "card (open_lanes (if laneCount g > m then snd (retireOldestLane (lanes_fail g es) control) else lanes_fail g es)) \<le> m"
proof -
  note F = lanes_fail_facts [of g es]
  have le: "card (open_lanes (lanes_fail g es)) \<le> card (open_lanes g)" by (rule card_mono) (auto simp: F)
  show ?thesis
  proof (cases "laneCount g > m")
    case False
    then show ?thesis using le ok by (simp add: laneCount_card)
  next
    case True
    then have over: "m < card (open_lanes g)" using ok by (simp add: laneCount_card)
    have c1: "card (insert a S) \<le> Suc m" using fin by (simp add: card_insert_if)
    have eq: "open_lanes g = insert a S" by (rule card_seteq) (use fin c1 over in auto)
    then have "m \<le> card S" using over fin(1) by (auto simp: card_insert_if split: if_splits)
    then obtain c where c: "c \<in> open_lanes g" "laneReady (fl_heap g c)" "laneIsControl g c = control" using pre eq by blast
    show ?thesis
    proof (cases "c \<in> set es")
      case cin: True
      have "card (open_lanes (lanes_fail g es)) < card (open_lanes g)" by (rule psubset_card_mono) (use c(1) cin F(3) in auto)
      then have le': "card (open_lanes (lanes_fail g es)) \<le> m" using eq c1 by simp
      obtain b h where h: "retireOldestLane (lanes_fail g es) control = (b, h)" by (cases "retireOldestLane (lanes_fail g es) control")
      have "card (open_lanes h) \<le> card (open_lanes (lanes_fail g es))" by (rule card_mono) (simp_all add: retire_oldest(2) [OF lanes_fail_ok [OF ok] h])
      then show ?thesis using True h le' by simp
    next
      case False
      then have "c \<in> open_lanes (lanes_fail g es)" "evictable (lanes_fail g es) control c"
        using c F by (auto simp: evictable_def same_lanes_facts [OF F(2)] open_lanes_def)
      then show ?thesis using True same_role_makes_room [OF lanes_fail_ok [OF ok]] le eq c1 by simp
    qed
  qed
qed

text \<open>The states a commit passes through: refused before or after staging, or carried through.\<close>

lemma commit_cases:
  assumes "commitJoinedLane m f a acknowledged e1 e2 e3 e4 e5 = (res, f')"
  obtains (full) "f' = lanes_fail f e1" "isl res"
    | (refused) "addLane (lanes_fail (lanes_fail f e1) e2) a = (res, f')" "isl res"
    | (unsent) f2 where "addLane (lanes_fail (lanes_fail f e1) e2) a = (Inr (), f2)" "f' = retireLane (lanes_fail f2 e3) a" "\<not> acknowledged" "isl res"
    | (sent) f2 f5 f7 r where "addLane (lanes_fail (lanes_fail f e1) e2) a = (Inr (), f2)" acknowledged
        "m \<le> laneCount f \<Longrightarrow> \<exists>c \<in> set (healthyLanes (lanes_fail f e1)). laneIsControl (lanes_fail f e1) c = ln_control (fl_heap f a)"
        "f5 = (if laneCount (lanes_fail f2 e3) > m then snd (retireOldestLane (lanes_fail (lanes_fail f2 e3) e4) (ln_control (fl_heap f a))) else lanes_fail (lanes_fail f2 e3) e4)"
        "activateLane (lanes_fail f5 e5) a = (r, f7)" "f' = (if isl r then retireLane f7 a else f7)" "isl res = isl r"
proof -
  let ?role = "ln_control (fl_heap f a)" and ?f1 = "lanes_fail f e1"
  show thesis
  proof (cases "m \<le> laneCount f \<and> \<not> list_ex (\<lambda>c. laneIsControl ?f1 c = ?role) (healthyLanes ?f1)")
    case True
    then show thesis using assms full by (auto simp: commitJoinedLane_def)
  next
    case found: False
    obtain r2 f2 where f2: "addLane (lanes_fail ?f1 e2) a = (r2, f2)" by (cases "addLane (lanes_fail ?f1 e2) a")
    let ?f3 = "lanes_fail f2 e3"
    define f5 where f5: "f5 = (if laneCount ?f3 > m then snd (retireOldestLane (lanes_fail ?f3 e4) ?role) else lanes_fail ?f3 e4)"
    obtain r f7 where f7: "activateLane (lanes_fail f5 e5) a = (r, f7)" by (cases "activateLane (lanes_fail f5 e5) a")
    have run: "(res, f') = (case r2 of Inl e \<Rightarrow> (Inl e, f2)
        | Inr _ \<Rightarrow> if \<not> acknowledged then (Inl AckFailed, retireLane ?f3 a) else (case r of Inl e \<Rightarrow> (Inl e, retireLane f7 a) | Inr _ \<Rightarrow> (Inr (), f7)))"
      using assms found by (cases r2; cases acknowledged; cases r) (auto simp: commitJoinedLane_def Let_def f2 f7 [unfolded f5])
    show thesis
    proof (cases r2)
      case (Inl e)
      then show thesis using run f2 refused by simp
    next
      case (Inr u)
      have pre: "\<exists>c \<in> set (healthyLanes ?f1). laneIsControl ?f1 c = ?role" if "m \<le> laneCount f" using found that by (simp add: list_ex_iff)
      show thesis
      proof (cases acknowledged)
        case False
        then show thesis using run f2 Inr unsent by simp
      next
        case True
        then show thesis using run f2 f5 f7 Inr by (intro sent [OF _ _ pre]) (auto split: sum.splits)
      qed
    qed
  qed
qed

text \<open>The part of a commit after the acknowledgement: \<open>g\<close> is the flow with the lane staged, \<open>S\<close> the lanes that were open before.\<close>

lemma sent_facts:
  assumes ok: "lanes_ok g" and S: "finite S" "card S \<le> m" "open_lanes g \<subseteq> insert a S"
    and pre: "m \<le> card S \<Longrightarrow> \<exists>c \<in> S. laneReady (fl_heap g c) \<and> laneIsControl g c = role"
    and f5: "f5 = (if laneCount g > m then snd (retireOldestLane (lanes_fail g e4) role) else lanes_fail g e4)"
    and f7: "activateLane (lanes_fail f5 e5) a = (r, f7)" and f': "f' = (if isl r then retireLane f7 a else f7)"
  shows "lanes_ok f' \<and> card (open_lanes f') \<le> m \<and> fl_reserveControlLane f' = fl_reserveControlLane g"
    "\<And>c. c \<in> open_lanes g \<Longrightarrow> c \<notin> set e4 \<union> set e5 \<Longrightarrow> c \<noteq> a \<Longrightarrow> laneIsControl g c \<noteq> role \<Longrightarrow> c \<in> open_lanes f'"
proof -
  let ?f4 = "lanes_fail g e4"
  note F4 = lanes_fail_facts [of g e4]
  note F6 = lanes_fail_facts [of f5 e5]
  obtain b h where h: "retireOldestLane ?f4 role = (b, h)" by (cases "retireOldestLane ?f4 role")
  note R = retire_oldest [OF lanes_fail_ok [OF ok] h]
  have five: "lanes_ok f5" "same_lanes g f5" using R lanes_fail_ok [OF ok] F4 same_lanes_trans by (auto simp: f5 h)
  have kept: "c \<in> open_lanes f5" if "c \<in> open_lanes g" "c \<notin> set e4" "laneIsControl g c \<noteq> role" for c
    using that R(6) F4(3) same_lanes_facts(1) [OF F4(2)] by (auto simp: f5 h)
  have count: "card (open_lanes f5) \<le> m" unfolding f5 by (rule over_makes_room [OF ok S pre])
  note A = activate_facts [OF f7]
  have ok7: "lanes_ok f7" using A(3) lanes_fail_ok [OF five(1)] by blast
  note T = retire_facts [OF ok7, of a]
  have sub: "open_lanes f' \<subseteq> open_lanes f5" "open_lanes f5 - set e5 - {a} \<subseteq> open_lanes f'" using T(3) A(2) F6(3) by (auto simp: f')
  show "lanes_ok f' \<and> card (open_lanes f') \<le> m \<and> fl_reserveControlLane f' = fl_reserveControlLane g"
    using T ok7 A(4) F6(2) five(2) count card_mono [OF open_lanes_finite sub(1)] by (auto simp: f' same_lanes_def)
  show "c \<in> open_lanes f'" if "c \<in> open_lanes g" "c \<notin> set e4 \<union> set e5" "c \<noteq> a" "laneIsControl g c \<noteq> role" for c
    using kept [of c] sub(2) that by auto
qed

lemma commit_facts:
  assumes ok: "lanes_ok f" and fresh: "a \<notin> snd ` set (fl_lanes f)" and le: "laneCount f \<le> m"
    and run: "commitJoinedLane m f a acknowledged e1 e2 e3 e4 e5 = (res, f')"
  shows "lanes_ok f'" "laneCount f' \<le> m" "fl_reserveControlLane f' = fl_reserveControlLane f"
    "\<And>c. c \<in> open_lanes f \<Longrightarrow> c \<notin> set (e1 @ e2 @ e3 @ e4 @ e5) \<Longrightarrow> laneIsControl f c \<noteq> ln_control (fl_heap f a) \<or> \<not> acknowledged \<Longrightarrow> c \<in> open_lanes f'"
proof -
  let ?f0 = "lanes_fail (lanes_fail f e1) e2"
  let ?spared = "\<lambda>g. \<forall>c \<in> open_lanes f. c \<notin> set (e1 @ e2 @ e3 @ e4 @ e5) \<and> (laneIsControl f c \<noteq> ln_control (fl_heap f a) \<or> \<not> acknowledged) \<longrightarrow> c \<in> open_lanes g"
  have ok0: "lanes_ok ?f0" using ok lanes_fail_ok by blast
  have open0: "open_lanes ?f0 = open_lanes f - set e1 - set e2" by (simp add: lanes_fail_facts)
  have fresh0: "a \<notin> snd ` set (fl_lanes ?f0)" using fresh by (simp add: lanes_fail_facts)
  have same0: "same_lanes f ?f0" using same_lanes_trans lanes_fail_facts(2) by blast
  have card: "card (open_lanes f) \<le> m" using le ok by (simp add: laneCount_card)
  have small: "card (open_lanes g) \<le> m" if "open_lanes g \<subseteq> open_lanes f" for g using card_mono [OF open_lanes_finite that] card by simp
  have "a \<notin> open_lanes f" using fresh by (auto simp: open_lanes_def)
  have "lanes_ok f' \<and> card (open_lanes f') \<le> m \<and> fl_reserveControlLane f' = fl_reserveControlLane f \<and> ?spared f'"
    using run
  proof (cases rule: commit_cases)
    case full
    then show ?thesis using ok lanes_fail_ok small [of f'] lanes_fail_facts [of f e1] by (auto simp: same_lanes_def)
  next
    case refused
    then have "f' = ?f0" using add_facts(5) [OF ok0 fresh0] by blast
    then show ?thesis using ok0 small [of f'] open0 same0 by (auto simp: same_lanes_def)
  next
    case (unsent f2)
    note A = add_facts [OF ok0 fresh0 unsent(1)]
    note R = retire_facts [OF lanes_fail_ok [OF A(1)], of e3 a, folded unsent(2)]
    have "open_lanes f' \<subseteq> open_lanes f" using R(3) A(2) open0 by (auto simp: lanes_fail_facts)
    moreover have "?spared f'" using R(3) A(4) open0 \<open>a \<notin> open_lanes f\<close> by (auto simp: lanes_fail_facts)
    ultimately show ?thesis using R(1,2) small [of f'] same0 A(3) lanes_fail_facts(2) [of f2 e3] by (auto simp: same_lanes_def)
  next
    case (sent f2 f5 f7 r)
    let ?g = "lanes_fail f2 e3"
    note A = add_facts [OF ok0 fresh0 sent(1)]
    have same: "same_lanes f ?g" using same_lanes_trans [OF same_lanes_trans [OF same0 A(3)] lanes_fail_facts(2)] .
    have opn: "open_lanes ?g \<subseteq> insert a (open_lanes f)" "open_lanes f - set e1 - set e2 - set e3 \<subseteq> open_lanes ?g" using A(2,4) open0 by (auto simp: lanes_fail_facts)
    have pre: "\<exists>c \<in> open_lanes f. laneReady (fl_heap ?g c) \<and> laneIsControl ?g c = ln_control (fl_heap f a)" if "m \<le> card (open_lanes f)"
      using sent(3) that ok lanes_fail_facts [of f e1]
      by (auto simp: laneCount_card healthy_open same_lanes_facts [OF same] same_lanes_facts [OF lanes_fail_facts(2) [of f e1]])
    note D = sent_facts [OF lanes_fail_ok [OF A(1)] open_lanes_finite card opn(1) pre sent(4,5,6)]
    have "?spared f'" using D(2) opn(2) \<open>a \<notin> open_lanes f\<close> sent(2) by (auto simp: same_lanes_facts [OF same])
    then show ?thesis using D(1) same by (auto simp: same_lanes_def)
  qed
  then show "lanes_ok f'" "laneCount f' \<le> m" "fl_reserveControlLane f' = fl_reserveControlLane f"
    "\<And>c. c \<in> open_lanes f \<Longrightarrow> c \<notin> set (e1 @ e2 @ e3 @ e4 @ e5) \<Longrightarrow> laneIsControl f c \<noteq> ln_control (fl_heap f a) \<or> \<not> acknowledged \<Longrightarrow> c \<in> open_lanes f'"
    by (simp_all add: laneCount_card)
qed

section \<open>The lanes of a flow at a gateway\<close>

text \<open>
  Every state between two operations of the gateway: a lane is made, the first one is added, others join, each fails, is retired or carries bytes,
  the flow ends or waits for a lane. A failure may also fall between two calls of one join.
\<close>

inductive server_lanes :: "bool \<Rightarrow> flowLanes \<Rightarrow> bool" for reserve where
  new_flow: "fl_lanes f = [] \<Longrightarrow> fl_reserveControlLane f = reserve \<Longrightarrow> server_lanes reserve f"
| new_lane: "server_lanes reserve f \<Longrightarrow> a \<notin> snd ` set (fl_lanes f) \<Longrightarrow> server_lanes reserve (set_lane f a (\<lambda>_. l))"
| added: "server_lanes reserve f \<Longrightarrow> a \<notin> snd ` set (fl_lanes f) \<Longrightarrow> server_addLane (serverLaneBudget reserve) f a = (res, f') \<Longrightarrow> server_lanes reserve f'"
| joined: "server_lanes reserve f \<Longrightarrow> a \<notin> snd ` set (fl_lanes f) \<Longrightarrow>
    commitJoinedLane (serverLaneBudget reserve) f a acknowledged e1 e2 e3 e4 e5 = (res, f') \<Longrightarrow> server_lanes reserve f'"
| failed: "server_lanes reserve f \<Longrightarrow> server_lanes reserve (snd (closeFailedLane f a))"
| retired: "server_lanes reserve f \<Longrightarrow> server_lanes reserve (retireLane f a)"
| reduced: "server_lanes reserve f \<Longrightarrow> server_lanes reserve (snd (retireLeastProductiveLane f))"
| carried: "server_lanes reserve f \<Longrightarrow> server_lanes reserve (set_lane f a (\<lambda>l. l\<lparr>ln_sent := s, ln_recv := r\<rparr>))"
| sending: "server_lanes reserve f \<Longrightarrow> server_lanes reserve (f\<lparr>fl_scheduler := True\<rparr>)"
| finished: "server_lanes reserve f \<Longrightarrow> server_lanes reserve (f\<lparr>fl_done := True\<rparr>)"
| waiting: "server_lanes reserve f \<Longrightarrow> server_lanes reserve (snd (replacementBudget f now grace))"

definition lanes_inv :: "bool \<Rightarrow> flowLanes \<Rightarrow> bool" where
  "lanes_inv reserve f \<longleftrightarrow> lanes_ok f \<and> laneCount f \<le> serverLaneBudget reserve \<and> fl_reserveControlLane f = reserve"

text \<open>An operation that only loses open lanes keeps the invariant.\<close>

lemma inv_shrinks:
  assumes "lanes_inv reserve f" "lanes_ok f'" "open_lanes f' \<subseteq> open_lanes f" "fl_reserveControlLane f' = fl_reserveControlLane f"
  shows "lanes_inv reserve f'"
  using assms card_mono [OF open_lanes_finite assms(3)] by (auto simp: lanes_inv_def laneCount_card)

lemma lanes_inv_run: "server_lanes reserve f \<Longrightarrow> lanes_inv reserve f"
proof (induction rule: server_lanes.induct)
  case (new_flow f)
  then show ?case by (simp add: lanes_inv_def lanes_ok_def laneCount_def)
next
  case (new_lane f a l)
  have "b \<noteq> a" if "(k, b) \<in> set (fl_lanes f)" for k b using new_lane(2) that by force
  then show ?case by (intro inv_shrinks [OF new_lane(3)]) (use new_lane in \<open>auto simp: lanes_inv_def lanes_ok_def open_lanes_def split: if_splits\<close>)
next
  case (added f a res f')
  then show ?case using server_add [OF _ added(2) _ added(3)] by (simp add: lanes_inv_def)
next
  case (joined f a acknowledged e1 e2 e3 e4 e5 res f')
  then show ?case using commit_facts(1-3) [OF _ joined(2) _ joined(3)] by (simp add: lanes_inv_def)
next
  case (failed f a)
  have "lanes_ok f" using failed(2) by (simp add: lanes_inv_def)
  then show ?case using failed_lane [of f a] lanes_ok_same [OF _ failed_lane(2,1)] by (intro inv_shrinks [OF failed(2)]) (auto simp: same_lanes_def)
next
  case (retired f a)
  have "lanes_ok f" using retired(2) by (simp add: lanes_inv_def)
  then show ?case using retire_facts [of f a] by (intro inv_shrinks [OF retired(2)]) auto
next
  case (reduced f)
  obtain b f' where f': "retireLeastProductiveLane f = (b, f')" by (cases "retireLeastProductiveLane f")
  have ok: "lanes_ok f" using reduced(2) by (simp add: lanes_inv_def)
  have "v \<in> snd ` set (fl_lanes f)" if "foldl (idle_scan f) None (map snd (fl_lanes f)) = Some v" for v using idle_victim [OF that] by simp
  note E = evict_facts [OF ok this f' [unfolded retireLeastProductiveLane_def]]
  show ?case using E f' by (intro inv_shrinks [OF reduced(2)]) (auto simp: same_lanes_def)
next
  case (carried f a s r)
  then show ?case by (intro inv_shrinks [OF carried(2)]) (auto simp: lanes_inv_def lanes_ok_def open_lanes_def split: if_splits)
next
  case (waiting f now grace)
  then show ?case by (auto simp: lanes_inv_def lanes_ok_def laneCount_def replacementBudget_def)
qed (auto simp: lanes_inv_def lanes_ok_def laneCount_def)

text \<open>A pooled flow whose control lane is joined by a bulk lane, and that by its replacement.\<close>

definition example_lane :: "u64 \<Rightarrow> bool \<Rightarrow> bool \<Rightarrow> mpLane" where
  "example_lane k staged control = \<lparr>ln_id = k, ln_fc = True, ln_staged = staged, ln_ready = False, ln_control = control, ln_closed = False, ln_shut = False, ln_sent = 0, ln_recv = 0,
     ln_writeQ = None, ln_writeInteractiveQ = None, ln_writeSlots = None\<rparr>"

definition example_flow :: flowLanes where
  "example_flow = \<lparr>fl_lanes = [], fl_heap = (\<lambda>a. example_lane (word_of_nat a) (a \<noteq> 0) (a = 0)), fl_nextJoinID = 1, fl_reserveControlLane = True, fl_done = False,
     fl_memoryLimits = defaultFlowMemoryLimits, fl_scheduler = True, fl_retired = [], fl_lanesJoined = 0, fl_replacementDeadline = 0\<rparr>"

definition example_full :: flowLanes where
  "example_full = snd (commitJoinedLane 2 (snd (server_addLane 2 example_flow 0)) 1 True [] [] [] [] [])"

definition example_replaced :: flowLanes where
  "example_replaced = snd (commitJoinedLane 2 example_full 2 True [] [] [] [] [])"

lemma example_steps:
  "map fst (fl_lanes (snd (server_addLane 2 example_flow 0))) = [0]" "map snd (fl_lanes (snd (server_addLane 2 example_flow 0))) = [0]"
  "map fst (fl_lanes example_full) = [0, 1]" "map snd (fl_lanes example_full) = [0, 1]"
  "map fst (fl_lanes example_replaced) = [0, 2]" "map snd (fl_lanes example_replaced) = [0, 2]"
  by code_simp+

lemma example_reached: "server_lanes True example_full" "server_lanes True example_replaced"
proof -
  have b: "serverLaneBudget True = 2" by (simp add: serverLaneBudget_def bulkLaneBudget_def)
  have 0: "server_lanes True example_flow" by (rule server_lanes.new_flow) (simp_all add: example_flow_def)
  have 1: "server_lanes True (snd (server_addLane 2 example_flow 0))"
    by (rule server_lanes.added [OF 0, of 0 "fst (server_addLane 2 example_flow 0)"]) (simp_all add: b, simp add: example_flow_def)
  have "1 \<notin> snd ` set (fl_lanes (snd (server_addLane 2 example_flow 0)))" using example_steps(2) by (metis One_nat_def list.set_map list.set(1,2) singletonD zero_neq_one)
  then show 2: "server_lanes True example_full"
    unfolding example_full_def by (intro server_lanes.joined [OF 1, of 1 True "[]" "[]" "[]" "[]" "[]" "fst (commitJoinedLane 2 (snd (server_addLane 2 example_flow 0)) 1 True [] [] [] [] [])"]) (simp_all add: b)
  have "2 \<notin> snd ` set (fl_lanes example_full)" unfolding set_map [symmetric] example_steps(4) by simp
  then show "server_lanes True example_replaced"
    unfolding example_replaced_def by (intro server_lanes.joined [OF 2, of 2 True "[]" "[]" "[]" "[]" "[]" "fst (commitJoinedLane 2 example_full 2 True [] [] [] [] [])"]) (simp_all add: b)
qed

section \<open>Which lane carries data\<close>

lemma healthy_ids: "lanes_ok f \<Longrightarrow> inj_on (\<lambda>a. ln_id (fl_heap f a)) (set (healthyLanes f))"
  by (rule inj_onI) (auto simp: healthy_open open_lanes_def, metis entry_key option.inject)

lemma data_scan_some:
  "data_scan f shared control as = Some a \<Longrightarrow> a \<in> set as \<and> \<not> laneIsControl f a"
  by (induction as arbitrary: control) (auto split: if_splits)

lemma data_scan_isolates:
  "shared \<noteq> Some False \<Longrightarrow> \<exists>b \<in> set as. \<not> laneIsControl f b \<Longrightarrow> data_scan f shared control as \<noteq> None"
  by (induction as arbitrary: control) (auto simp: isolateFromControlLane_def split: option.splits)

lemma data_lane_one:
  assumes "lanes \<noteq> []"
  shows "\<exists>c \<in> set lanes. dataLane f shared lanes = [c] \<and>
    (fl_reserveControlLane f \<and> shared \<noteq> Some False \<and> (\<exists>b \<in> set lanes. \<not> laneIsControl f b) \<longrightarrow> \<not> laneIsControl f c)"
proof (cases "length lanes = 1 \<or> \<not> fl_reserveControlLane f")
  case True
  then show ?thesis using assms by (cases lanes) (auto simp: dataLane_def)
next
  case False
  then have d: "dataLane f shared lanes = (case data_scan f shared None lanes of Some a \<Rightarrow> [a] | None \<Rightarrow> take 1 lanes)" by (simp add: dataLane_def)
  show ?thesis
  proof (cases "data_scan f shared None lanes")
    case None
    then have "dataLane f shared lanes = [hd lanes]" using assms d by (cases lanes) simp_all
    moreover have "shared = Some False \<or> (\<forall>b \<in> set lanes. laneIsControl f b)" using None data_scan_isolates [of shared lanes f None] by blast
    ultimately show ?thesis using assms by (intro bexI [of _ "hd lanes"]) auto
  next
    case (Some a)
    then show ?thesis using d data_scan_some [OF Some] by (intro bexI [of _ a]) simp_all
  qed
qed

lemma candidate_one:
  assumes "healthyLanes f \<noteq> []"
  obtains c where "c \<in> set (healthyLanes f)" "laneCandidates f shared bulk = Inr [c]"
    "bulk \<Longrightarrow> fl_reserveControlLane f \<Longrightarrow> shared \<noteq> Some False \<Longrightarrow> b \<in> set (healthyLanes f) \<Longrightarrow> \<not> laneIsControl f b \<Longrightarrow> \<not> laneIsControl f c"
proof (cases bulk)
  case True
  obtain c where c: "c \<in> set (healthyLanes f)" "dataLane f shared (healthyLanes f) = [c]"
    "fl_reserveControlLane f \<Longrightarrow> shared \<noteq> Some False \<Longrightarrow> b \<in> set (healthyLanes f) \<Longrightarrow> \<not> laneIsControl f b \<Longrightarrow> \<not> laneIsControl f c"
    using data_lane_one [OF assms, of f shared] by blast
  show ?thesis by (rule that [of c]) (use True c assms in \<open>simp_all add: laneCandidates_def Let_def\<close>)
next
  case False
  have hd: "take 1 (healthyLanes f) = [hd (healthyLanes f)]" "hd (healthyLanes f) \<in> set (healthyLanes f)" using assms by (cases "healthyLanes f"; simp)+
  show ?thesis
  proof (cases "find (laneIsControl f) (healthyLanes f)")
    case None
    show ?thesis by (rule that [of "hd (healthyLanes f)"]) (use False None hd assms in \<open>simp_all add: laneCandidates_def Let_def\<close>)
  next
    case (Some a)
    then have "a \<in> set (healthyLanes f)" by (auto simp: find_Some_iff)
    then show ?thesis by (rule that [of a]) (use False Some assms in \<open>simp_all add: laneCandidates_def Let_def\<close>)
  qed
qed

text \<open>C35: Whatever sequence of joins, failures, evictions and retirements a flow goes through at a gateway, and whatever lanes fail in the middle of a join, between
  two operations it never has more open lanes than \<^verbatim>\<open>serverLaneBudget\<close> allows: one bulk lane, and one more when the control lane is reserved.\<close>

theorem lane_ceiling:
  assumes "server_lanes reserve f"
  shows "laneCount f \<le> serverLaneBudget reserve"
  using lanes_inv_run [OF assms] by (simp add: lanes_inv_def)

theorem lane_ceiling_witness: "map fst (fl_lanes example_replaced) = [0, 2] \<and> laneCount example_replaced \<le> serverLaneBudget True"
  using lane_ceiling [OF example_reached(2)] example_steps(5) by simp

text \<open>C36: A join takes no lane of the other role from a flow, whatever fails meanwhile: a lane that was open before, did not fail and has not the role of the newcomer is open
  afterwards; and when the acknowledgement cannot be written, no lane at all is lost.\<close>

theorem join_spares_other_role:
  assumes "server_lanes reserve f" "a \<notin> snd ` set (fl_lanes f)"
    and "commitJoinedLane (serverLaneBudget reserve) f a acknowledged e1 e2 e3 e4 e5 = (res, f')"
    and "c \<in> open_lanes f" "c \<notin> set (e1 @ e2 @ e3 @ e4 @ e5)" "laneIsControl f c \<noteq> ln_control (fl_heap f a) \<or> \<not> acknowledged"
  shows "c \<in> open_lanes f'"
proof -
  have "lanes_ok f" "laneCount f \<le> serverLaneBudget reserve" using lanes_inv_run [OF assms(1)] by (auto simp: lanes_inv_def)
  then show ?thesis using commit_facts(4) [OF _ assms(2) _ assms(3-6)] by blast
qed

lemma example_open: "laneIsControl example_full 0" "\<not> ln_closed (fl_heap example_full 0)" "ln_control (fl_heap example_full 2) = False" "ln_closed (fl_heap example_replaced 1)"
  by code_simp+

theorem join_spares_other_role_witness: "0 \<in> open_lanes example_replaced \<and> ln_closed (fl_heap example_replaced 1)"
proof
  have l: "snd ` set (fl_lanes example_full) = {0, 1}" unfolding set_map [symmetric] example_steps(4) by simp
  have r: "commitJoinedLane (serverLaneBudget True) example_full 2 True [] [] [] [] [] =
      (fst (commitJoinedLane (serverLaneBudget True) example_full 2 True [] [] [] [] []), example_replaced)"
    by (simp add: example_replaced_def serverLaneBudget_def bulkLaneBudget_def numeral_2_eq_2)
  show "0 \<in> open_lanes example_replaced"
    by (rule join_spares_other_role [OF example_reached(1) _ r]) (use l example_open in \<open>simp_all add: open_lanes_def\<close>)
qed (rule example_open(4))

text \<open>As long as a flow has a healthy lane, exactly one healthy lane carries its data; and for a bulk flow with a reserved control lane that others share, or that cannot be known
  to be unshared, that lane is not a control lane as soon as any healthy lane is not one.\<close>

theorem one_data_lane:
  assumes "server_lanes reserve f" "healthyLanes f \<noteq> []"
  shows "\<exists>c \<in> set (healthyLanes f). (\<forall>a. a \<in> set (healthyLanes f) \<and> laneCarriesData f shared a bulk \<longleftrightarrow> a = c) \<and>
    (bulk \<and> reserve \<and> shared \<noteq> Some False \<and> b \<in> set (healthyLanes f) \<and> \<not> laneIsControl f b \<longrightarrow> \<not> laneIsControl f c)"
proof -
  have ok: "lanes_ok f" "fl_reserveControlLane f = reserve" using lanes_inv_run [OF assms(1)] by (auto simp: lanes_inv_def)
  obtain c where c: "c \<in> set (healthyLanes f)" "laneCandidates f shared bulk = Inr [c]"
    "bulk \<Longrightarrow> fl_reserveControlLane f \<Longrightarrow> shared \<noteq> Some False \<Longrightarrow> b \<in> set (healthyLanes f) \<Longrightarrow> \<not> laneIsControl f b \<Longrightarrow> \<not> laneIsControl f c"
    using candidate_one [OF assms(2)] by metis
  have "a \<in> set (healthyLanes f) \<and> laneCarriesData f shared a bulk \<longleftrightarrow> a = c" for a
    using c(1) inj_onD [OF healthy_ids [OF ok(1)], of c a] by (auto simp: laneCarriesData_def c(2))
  then show ?thesis using c ok(2) by blast
qed

theorem one_data_lane_witness:
  "\<exists>c \<in> set (healthyLanes example_full). (\<forall>a. a \<in> set (healthyLanes example_full) \<and> laneCarriesData example_full (Some True) a True \<longleftrightarrow> a = c) \<and> \<not> laneIsControl example_full c"
proof -
  have "healthyLanes example_full = [0, 1]" "\<not> laneIsControl example_full 1" by code_simp+
  then show ?thesis using one_data_lane [OF example_reached(1), where shared = "Some True" and bulk = True and b = 1] by auto
qed

end
