(* ===== verification/Spec2Isabelle.thy ===== *)
theory Spec2Isabelle
  imports AckPath StripeRun FecErasure CodedQueue Session FlowSchedInv Socks5 Classifier MemProfile IdentityProps ServerOpen PacketWindow MinMax BulkDemux Lanes
begin

text \<open>
  Niulang is a performance-enhancing proxy. A client takes connections of local applications over SOCKS5 and carries each as a flow to a gateway, over
  one or two authenticated QUIC lanes of a lossy long-haul path; the gateway dials the destination and relays. This development models the parts of it
  that have an exact contract. The paths below are those of the repository's sources.

  \<^bold>\<open>How the parts interact.\<close> The application's bytes are cut into chunks by the chunk scheduler and handed to the lanes; a chunk travels as a DATA frame whose sequence
  is its offset, on a stream or, coded against loss, in datagrams. The receiver's reassembler puts them in order under a memory budget and reports what it
  has; the sender's acknowledgement tracker takes the reports and completes chunks in the scheduler. The gateway authorizes each stream against the
  identity store, admits it against the account's limits, applies its destination policy, and lets further lanes join the flow.

  \<^bold>\<open>The theories and the code they model.\<close> A struct is a record with the source's fields under a short prefix, a method a function from the state to its
  result and the next state, an error a constructor of the component's error type.

  \<^item> \<open>Prelude\<close>, \<open>Assoc\<close>: machine types, big-endian encoding, \<^verbatim>\<open>sort.Search\<close>, slices; association lists, which stand for Go's maps.
  \<^item> \<open>Frame\<close>: \<^verbatim>\<open>internal/protocol/frame.go\<close>. Encoding and decoding of headers, frames and acknowledgement ranges. Round trips of the header and of a stream of
    frames; the exact set of accepted inputs.
  \<^item> \<open>Session\<close>, \<open>NetAddr\<close>: \<^verbatim>\<open>internal/session\<close> and what it uses of \<^verbatim>\<open>net\<close>. Destinations, UDP packets, resumable associations.
  \<^item> \<open>Memlimit\<close>: \<^verbatim>\<open>internal/memlimit/budget.go\<close>. The shared byte semaphore; its locale \<open>byte_budget\<close> is what the reassembler and the scheduler rely on.
    The limit is hard under any interleaving, and no waiter misses a release that would let it in.
  \<^item> \<open>Reassembly\<close>, \<open>ReassemblyStream\<close>: \<^verbatim>\<open>internal/multipath/reassembly.go\<close>. The invariant of the buffer, what is delivered is a prefix of the stream, and all of it is
    delivered once every segment has arrived, in any order and with any duplication, with or without a shared budget.
  \<^item> \<open>AckTrack\<close>: \<^verbatim>\<open>internal/pep/acktrack.go\<close>. The tracker is exactly the set of bytes reported (locale \<open>acked_set\<close>), and its waiters miss no change.
  \<^item> \<open>AckPath\<close>: the acknowledgement path of \<^verbatim>\<open>internal/pep/mpflow.go\<close>, from reassembler to tracker: data, ends of stream and full closes arrive, acknowledgements are built,
    lost, repeated and taken. What the sender takes as acknowledged was received, or lies before a full close that the receiver acknowledged without the bytes.
  \<^item> \<open>Stripe\<close>, \<open>StripeInv\<close>, \<open>StripeRun\<close>: \<^verbatim>\<open>internal/stripe/stripe.go\<close>. Every operation of the scheduler, cut at its critical sections; no chunk is lost or stranded,
    \<open>Done\<close> means delivered (and follows, unless the scheduler is closed or its producer ran out of memory), an idle flow makes progress, accounting and memory are exact.
  \<^item> \<open>Gf\<close>, \<open>FecWindow\<close>, \<open>FecInv\<close>, \<open>FecSolve\<close>, \<open>FecStream\<close>, \<open>FecCode\<close>, \<open>FecErasure\<close>: \<^verbatim>\<open>internal/fec/gf.go\<close> and \<^verbatim>\<open>window.go\<close>. GF(256) (locale \<open>byte_field\<close>), the sliding-window
    encoder and decoder. What is recovered was sent, as long as no source symbol arrives while a held equation has it as its pivot; a single erasure in the window is repaired whatever
    equations are held; the cost of an arrival is bounded whatever the peer sends.
  \<^item> \<open>Coded\<close>, \<open>CodedSys\<close>, \<open>CodedRun\<close>, \<open>CodedFlow\<close>, \<open>CodedQueue\<close>: \<^verbatim>\<open>internal/coded/coded.go\<close>. Packing, fragmenting, the send loop and its ring (locale \<open>fifo\<close>), the
    receiver. The runs of \<open>CodedSys\<close> exclude nothing the code does: they record the frames read out of a frame that fits a symbol but not with its length prefix (\<open>misread\<close>) and whether a
    source symbol overtook its equation. What is delivered was sent or misread, if none overtook; without loss everything is delivered in order, the misread frames as what they parse to;
    every completion callback runs exactly once.
  \<^item> \<open>BulkDemux\<close>: \<^verbatim>\<open>internal/pep/codedlane.go\<close>. Frames of a coded path go to their flow, in order and once, without a panic and within bounds.
  \<^item> \<open>Lanes\<close>: the lanes of \<^verbatim>\<open>internal/pep/mpflow.go\<close> and their admission in \<^verbatim>\<open>server.go\<close>. The number of open lanes is bounded, a join spares the lanes of the other role,
    exactly one lane carries data.
  \<^item> \<open>FlowSched\<close>, \<open>FlowSchedInv\<close>: \<^verbatim>\<open>internal/pep/flowscheduler.go\<close>. Admission to a provider path: its bounds, no idle slot; over whole runs, cut before each grant, bulk is
    not starved.
  \<^item> \<open>Classifier\<close>, \<open>RecordLimiter\<close>, \<open>MemProfile\<close>: \<^verbatim>\<open>internal/classifier\<close>, \<^verbatim>\<open>internal/pep/recordlimiter.go\<close>, \<^verbatim>\<open>memory.go\<close>. The class of a flow is
    a function of its history, log records account for every event, a resolved memory profile grants a flow its whole allowance.
  \<^item> \<open>Socks5\<close>, \<open>Destination\<close>: \<^verbatim>\<open>internal/socks5/socks5.go\<close>, \<^verbatim>\<open>internal/pep/destination.go\<close>. Credentials are enforced; the public-address test is exact.
  \<^item> \<open>UdpRelay\<close>, \<open>PacketWindow\<close>: \<^verbatim>\<open>internal/pep/udprelay.go\<close> and the replay window of \<^verbatim>\<open>udp.go\<close>. Who owns a parked socket, that the sweeper stops, that one word of bits
    decides like a memory of every packet.
  \<^item> \<open>Identity\<close>, \<open>IdentityOps\<close>, \<open>IdentityInv\<close>, \<open>IdentityProps\<close>: \<^verbatim>\<open>internal/identity/store.go\<close>. Several processes on one file: a token enrols one device, an invitation that was
    created is honoured, a device revoked is refused by every store that reads afterwards, failures cost nothing, and the file stays readable as long as account names are UTF-8. A file is what decoding
    its JSON yields; encoding and decoding change nothing but the bytes of names that are not UTF-8, each of which becomes U+FFFD (\<open>json_text\<close>, \<open>json_data\<close>). Device names reach the store through JSON
    requests, so they are UTF-8; names of accounts come from the operator and need not be.
  \<^item> \<open>Admission\<close>, \<open>ServerOpen\<close>: the accounts, sessions and streams of \<^verbatim>\<open>internal/pep/server.go\<close>. Slots are charged exactly, an account stays within
    the policy its flows were admitted under, the session table is exact, only the owner joins,
    nothing is dialled without authority.
  \<^item> \<open>WireCap\<close>, \<open>MinMax\<close>: \<^verbatim>\<open>internal/congestion/wirecap.go\<close> and \<^verbatim>\<open>bbr_tuic_minmax.go\<close>. The operator's cap on packet bytes is kept over stretches that
    end within the budget, and what the bandwidth estimate is.

  \<^bold>\<open>Concurrency.\<close> A method that holds its mutex throughout is one function; one that releases it, waits or calls out is cut there, and an inductive relation interleaves
  the pieces with those of every other goroutine. Invariants are proved by rule induction over the reachable states. Two operations are coarser than the code: the opening of
  a stream at a gateway is one step, while its parts take the locks of the accounts and of the sessions in turn; and \<open>commitJoinedLane\<close>, which holds the lock of its flow, lets lanes fail
  between any two of its calls, which is all that others can do to them then, but takes each call whole.

  \<^bold>\<open>Idealizations.\<close> A resume token drawn at random (128 bits) is one the relay store does not hold: \<^verbatim>\<open>retain\<close> would overwrite the entry of one it does. The ticks of the sweeper
  are counted from the instant after which nothing is retained. The bandwidth filter is fed positive times and rounds that do not go back, as the sampler does within one connection; its treatment
  of a zero time and of a reset round is in \<open>updateMax\<close> but in no theorem.

  \<^bold>\<open>Numbers.\<close> 64- and 32-bit values are words, or naturals with the wrap written out, wherever arithmetic on them can wrap: headers, identifiers of symbols, serial comparison,
  sequence numbers, rates. Counters that only grow by one, lengths and capacities are \<open>int\<close> or \<open>nat\<close>. Times are integers, in nanoseconds. Rates that the
  code only compares are rational.

  \<^bold>\<open>Loops and fuel.\<close> Loops are structural recursion or carry a termination proof. Two take fuel: the chain of the reassembler, where one more than the number of
  buffered segments is shown to be enough, and the reading of a stream of frames, where the number of frames is. The sweeper of relays is a goroutine that ends by itself: it is shown
  to stop by its third tick once nothing is retained.

  \<^bold>\<open>What is a parameter.\<close> The QUIC clock, the resolver and the dialler, the carrier of a coded path and its measured repair rate, SHA-256, Unicode case folding, the success
  of locks and writes of the file system, and the random source are arguments of the definitions that use them; where a theorem relies on one of them the law is a hypothesis of it, and its witness gives a
  concrete instance.

  \<^bold>\<open>What is not modelled.\<close> The goroutines, queues and timers that connect the parts of a flow, and the client's pools and lane policy, beyond the state described above: they
  are sequences of waits on sockets and contexts. The QUIC, HTTP/3 and TLS transport, certificates, the enrolment protocol and profile files: calls of libraries. The
  congestion controllers, the path and loss models, the repair rate and the limiter: floating-point estimators whose promise is a measurement. Metrics, logs, the
  commands, the path simulator, baselines and the drivers of other proxies: input and output, or tools around the program.
\<close>

end
